(* ===== verification/Kprelude.thy ===== *)
theory Kprelude
  imports Main "HOL-Library.Word"
begin

text \<open>
  Shared vocabulary of the development: the machine types of the 32-bit target, flag words and
  their algebra, and small facts on words, lists and options that several components use.
  Apart from the error codes nothing here models code of the repository; it is the library the
  component theories stand on.
\<close>

unbundle bit_operations_syntax

section \<open>Machine types\<close>

type_synonym u8 = "8 word"
type_synonym u16 = "16 word"
type_synonym u32 = "32 word"

named_theorems flag_simps "facts on flag words"
named_theorems kernel_defs "definitions unfolded when a component is evaluated"

section \<open>Flag words\<close>

text \<open>The three ways the kernel uses a flag word: a test, setting bits, clearing bits.\<close>

definition has_flag :: "'w::len word \<Rightarrow> 'w word \<Rightarrow> bool" where
  "has_flag f m \<longleftrightarrow> f AND m \<noteq> 0"

definition set_flag :: "'w::len word \<Rightarrow> 'w word \<Rightarrow> 'w word" where
  "set_flag f m = f OR m"

definition clear_flag :: "'w::len word \<Rightarrow> 'w word \<Rightarrow> 'w word" where
  "clear_flag f m = f AND NOT m"

lemma has_set_same [flag_simps]:
  assumes "m \<noteq> 0"
  shows "has_flag (set_flag f m) m"
proof -
  have "(f OR m) AND m = m"
    by (rule bit_eqI) (auto simp: bit_simps)
  with assms show ?thesis by (simp add: has_flag_def set_flag_def)
qed

lemma has_clear_same [flag_simps]: "\<not> has_flag (clear_flag f m) m"
  by (simp add: has_flag_def clear_flag_def and.assoc)

lemma has_set_other [flag_simps]: "m AND k = 0 \<Longrightarrow> has_flag (set_flag f m) k = has_flag f k"
  by (simp add: has_flag_def set_flag_def bit.conj_disj_distrib2)

lemma has_clear_other [flag_simps]:
  assumes "m AND k = 0"
  shows "has_flag (clear_flag f m) k = has_flag f k"
proof -
  have "(f AND NOT m) AND k = f AND k"
  proof (rule bit_eqI)
    fix n
    assume "possible_bit TYPE('a word) n"
    moreover have "bit (m AND k) n = False" using assms by simp
    ultimately show "bit ((f AND NOT m) AND k) n = bit (f AND k) n"
      by (auto simp: bit_simps)
  qed
  then show ?thesis by (simp add: has_flag_def clear_flag_def)
qed

lemma has_flag_zero [flag_simps]: "\<not> has_flag 0 m"
  by (simp add: has_flag_def)

lemma set_flag_idem [flag_simps]: "set_flag (set_flag f m) m = set_flag f m"
  by (simp add: set_flag_def or.assoc)

lemma clear_flag_idem [flag_simps]: "clear_flag (clear_flag f m) m = clear_flag f m"
  by (simp add: clear_flag_def and.assoc)

section \<open>Words without wrap-around\<close>

lemma unat_add_nowrap:
  fixes x y :: u32
  shows "unat x + unat y < 2 ^ 32 \<Longrightarrow> unat (x + y) = unat x + unat y"
  by (simp add: unat_word_ariths)

lemma word_eq_unat: "(x = y) = (unat x = unat y)" for x y :: "'w::len word"
  by (simp add: word_unat_eq_iff)

lemma unat_pos: "x \<noteq> 0 \<Longrightarrow> 0 < unat x" for x :: "'w::len word"
  by (simp add: unat_gt_0)

section \<open>Counters\<close>

lemma nat_one_plus [simp]: "nat (1 + int n) = Suc n"
  by simp

section \<open>Lists updated by index\<close>

lemma nth_update_other: "i \<noteq> j \<Longrightarrow> xs[i := v] ! j = xs ! j"
  by simp

lemma list_update_self: "xs[i := xs ! i] = xs"
  by simp

section \<open>Table scans\<close>

text \<open>The loops that look for the first entry of a table with a property.\<close>

fun scan :: "('a \<Rightarrow> bool) \<Rightarrow> 'a list \<Rightarrow> nat option" where
  "scan P [] = None"
| "scan P (x # xs) = (if P x then Some 0 else map_option Suc (scan P xs))"

lemma scan_None: "scan P xs = None \<longleftrightarrow> (\<forall>x\<in>set xs. \<not> P x)"
  by (induction xs) auto

lemma scan_SomeD:
  "scan P xs = Some i \<Longrightarrow> i < length xs \<and> P (xs ! i) \<and> (\<forall>j<i. \<not> P (xs ! j))"
proof (induction xs arbitrary: i)
  case (Cons x xs)
  then show ?case by (auto split: if_splits simp: nth_Cons' less_Suc_eq_0_disj)
qed simp

lemma scan_SomeI: "i < length xs \<Longrightarrow> P (xs ! i) \<Longrightarrow> (\<And>j. j < i \<Longrightarrow> \<not> P (xs ! j)) \<Longrightarrow> scan P xs = Some i"
proof (induction xs arbitrary: i)
  case (Cons x xs)
  show ?case
  proof (cases i)
    case 0
    with Cons.prems show ?thesis by simp
  next
    case (Suc k)
    have "scan P xs = Some k" using Cons.prems(1,2) Cons.prems(3) [of "Suc _"] Suc by (intro Cons.IH) auto
    with Suc Cons.prems(3) [of 0] show ?thesis by simp
  qed
qed simp

section \<open>Blocks: bytes, double words, C integers\<close>

text \<open>
  A 512-byte block is a list of bytes.  The kernel reads and writes it as an array of 32-bit
  little-endian \<open>int\<close>s; \<open>dwords\<close> and \<open>undwords\<close> are the two views, \<open>ints_of\<close> and \<open>bytes_of\<close> the same
  for signed values.
\<close>

definition dword :: "u8 \<Rightarrow> u8 \<Rightarrow> u8 \<Rightarrow> u8 \<Rightarrow> u32" where
  "dword a b c d = ucast a OR push_bit 8 (ucast b) OR push_bit 16 (ucast c) OR push_bit 24 (ucast d)"

definition byte_at :: "nat \<Rightarrow> u32 \<Rightarrow> u8" where
  "byte_at i w = ucast (drop_bit (8 * i) w)"

fun dwords :: "u8 list \<Rightarrow> u32 list" where
  "dwords (a # b # c # d # r) = dword a b c d # dwords r"
| "dwords _ = []"

fun undwords :: "u32 list \<Rightarrow> u8 list" where
  "undwords [] = []"
| "undwords (w # ws) = byte_at 0 w # byte_at 1 w # byte_at 2 w # byte_at 3 w # undwords ws"

lemma bit_byte_at: "bit (byte_at i w) n \<longleftrightarrow> n < 8 \<and> bit w (8 * i + n)"
  by (auto simp: byte_at_def bit_simps)

lemma bit_dword:
  "bit (dword a b c d) n \<longleftrightarrow>
     (if n < 8 then bit a n else if n < 16 then bit b (n - 8)
      else if n < 24 then bit c (n - 16) else n < 32 \<and> bit d (n - 24))"
proof -
  have out: "\<not> bit (x :: u8) k" if "8 \<le> k" for x k
    using that bit_imp_le_length [of x k] by auto
  have le: "k - 8 \<ge> 8 \<longleftrightarrow> k \<ge> 16" "k - 16 \<ge> 8 \<longleftrightarrow> k \<ge> 24" for k :: nat by auto
  show ?thesis using out [of n a] out [of "n - 8" b] out [of "n - 16" c] out [of "n - 24" d]
    by (auto simp: dword_def bit_simps le not_less)
qed

lemma dword_bytes: "dword (byte_at 0 w) (byte_at 1 w) (byte_at 2 w) (byte_at 3 w) = w"
proof (rule bit_word_eqI)
  fix n
  assume "n < LENGTH(32)"
  then consider "n < 8" | "8 \<le> n" "n < 16" | "16 \<le> n" "n < 24" | "24 \<le> n" "n < 32"
    by fastforce
  then show "bit (dword (byte_at 0 w) (byte_at 1 w) (byte_at 2 w) (byte_at 3 w)) n = bit w n"
    by cases (simp_all add: bit_dword bit_byte_at less_diff_conv2)
qed

lemma bytes_dword:
  "byte_at 0 (dword a b c d) = a" "byte_at 1 (dword a b c d) = b"
  "byte_at 2 (dword a b c d) = c" "byte_at 3 (dword a b c d) = d"
  by (rule bit_word_eqI, simp add: bit_dword bit_byte_at)+

lemma dwords_undwords [simp]: "dwords (undwords ws) = ws"
  by (induction ws) (simp_all add: dword_bytes [simplified])

lemma undwords_dwords: "length bs mod 4 = 0 \<Longrightarrow> undwords (dwords bs) = bs"
proof (induction bs rule: dwords.induct)
  case (1 a b c d r)
  then show ?case by (simp add: bytes_dword [simplified])
qed (simp_all)

lemma length_undwords [simp]: "length (undwords ws) = 4 * length ws"
  by (induction ws) simp_all

lemma length_dwords: "length (dwords bs) = length bs div 4"
  by (induction bs rule: dwords.induct) simp_all

definition ints_of :: "u8 list \<Rightarrow> int list" where
  "ints_of bs = map sint (dwords bs)"

definition bytes_of :: "int list \<Rightarrow> u8 list" where
  "bytes_of xs = undwords (map word_of_int xs)"

text \<open>The values of a C \<open>int\<close>.\<close>

definition cint :: "int \<Rightarrow> bool" where
  "cint x \<longleftrightarrow> - (2 ^ 31) \<le> x \<and> x < 2 ^ 31"

lemma sint_of_cint: "cint x \<Longrightarrow> sint (word_of_int x :: u32) = x"
  by (simp add: cint_def sint_sbintrunc' signed_take_bit_int_eq_self)

lemma ints_of_bytes [simp]: "\<forall>x\<in>set xs. cint x \<Longrightarrow> ints_of (bytes_of xs) = xs"
  by (simp add: ints_of_def bytes_of_def comp_def sint_of_cint map_idI)

lemma length_bytes_of [simp]: "length (bytes_of xs) = 4 * length xs"
  by (simp add: bytes_of_def)

lemma cint_sint [simp]: "cint (sint (w :: u32))"
  using sint_range_size [of w] by (simp add: cint_def word_size)

lemma bytes_of_ints: "length bs mod 4 = 0 \<Longrightarrow> bytes_of (ints_of bs) = bs"
  by (simp add: bytes_of_def ints_of_def comp_def undwords_dwords)

lemma dwords_zeros: "dwords (replicate (4 * n) 0) = replicate n 0"
proof (induction n)
  case (Suc n)
  have "replicate (4 * Suc n) (0 :: u8) = 0 # 0 # 0 # 0 # replicate (4 * n) 0"
    by (simp add: numeral_eq_Suc)
  with Suc show ?case by (simp add: dword_def)
qed simp

lemma ints_of_zeros: "ints_of (replicate 512 0) = replicate 128 0"
  using dwords_zeros [of 128] by (simp add: ints_of_def)

section \<open>How a kernel call ends\<close>

text \<open>\<open>User::ErrorCode\<close>, the values of \<open>u_error\<close>.\<close>

datatype errno =
    NOERROR | EPERM | ENOENT | ESRCH | EINTR | EIO | ENXIO | E2BIG | ENOEXEC | EBADF | ECHILD | EAGAIN
  | ENOMEM | EACCES | EFAULT | ENOTBLK | EBUSY | EEXIST | EXDEV | ENODEV | ENOTDIR | EISDIR | EINVAL
  | ENFILE | EMFILE | ENOTTY | ETXTBSY | EFBIG | ENOSPC | ESPIPE | EROFS | EMLINK | EPIPE | ENOSYS

text \<open>
  A call returns, reaches a point where the process goes to sleep (the model of the call stops
  there), stops the machine in \<open>Utility::Panic\<close>, or leaves the bounds of an array (undefined
  behaviour in C++).
\<close>

datatype 'a kcall = Done 'a | Asleep | Panic | Fault

primrec kbind :: "'a kcall \<Rightarrow> ('a \<Rightarrow> 'b kcall) \<Rightarrow> 'b kcall" where
  "kbind (Done x) f = f x"
| "kbind Asleep f = Asleep"
| "kbind Panic f = Panic"
| "kbind Fault f = Fault"

lemma kbind_Done: "kbind c f = Done y \<longleftrightarrow> (\<exists>x. c = Done x \<and> f x = Done y)"
  by (cases c) auto

lemma kbind_assoc: "kbind (kbind c f) g = kbind c (\<lambda>x. kbind (f x) g)"
  by (cases c) auto

end
