(* ===== verification/MapAlloc.thy ===== *)
theory MapAlloc
  imports Kprelude
begin

text \<open>
  The map allocator of \<open>mm/Allocator.cpp\<close>: an array of \<open>MapNode\<close>s, each a free region, ended by
  the first node of size zero.  The array is a list, a pointer into it the suffix that starts
  there; a loop that runs past the array is the result \<open>None\<close>.  The specification is the set
  of free units; the lemmas show that both \<open>Alloc\<close>s carve a region out of that set, that \<open>Free\<close>
  puts one back, and that the sorted, coalesced array is a canonical form of the set.
\<close>

section \<open>Model\<close>

record mapnode =
  m_Size :: u32
  m_AddressIdx :: u32

definition zero_node :: mapnode where
  "zero_node = \<lparr>m_Size = 0, m_AddressIdx = 0\<rparr>"

text \<open>
  The loop that closes a gap: starting at the node to overwrite, every following node of non-zero
  size moves one place down, and the place of the last one is zeroed.
\<close>

fun compact :: "mapnode list \<Rightarrow> mapnode list option" where
  "compact (p # q # r) =
     (if m_Size q \<noteq> 0 then map_option (\<lambda>t. q # t) (compact (q # r))
      else Some (zero_node # q # r))"
| "compact _ = None"

text \<open>The loop that opens a gap: \<open>t\<close> is the node still to be written.\<close>

fun shift_up :: "mapnode \<Rightarrow> mapnode list \<Rightarrow> mapnode list option" where
  "shift_up t [] = None"
| "shift_up t (q # r) =
     (if m_Size q \<noteq> 0 then map_option (\<lambda>u. t # u) (shift_up q r) else Some (t # r))"

text \<open>\<open>Alloc(map, size)\<close>: first fit.\<close>

fun alloc_first :: "mapnode list \<Rightarrow> u32 \<Rightarrow> (u32 \<times> mapnode list) option" where
  "alloc_first [] sz = None"
| "alloc_first (p # r) sz =
     (if m_Size p = 0 then Some (0, p # r)
      else if sz \<le> m_Size p then
        (let p' = p\<lparr>m_AddressIdx := m_AddressIdx p + sz, m_Size := m_Size p - sz\<rparr>
         in if m_Size p' = 0 then map_option (\<lambda>m. (m_AddressIdx p, m)) (compact (p' # r))
            else Some (m_AddressIdx p, p' # r))
      else map_option (\<lambda>(a, m). (a, p # m)) (alloc_first r sz))"

text \<open>\<open>Alloc(map, size, beginNode)\<close>: next fit. The two scans and the carving step.\<close>

fun nf_scan1 :: "mapnode list \<Rightarrow> u32 \<Rightarrow> nat option" where
  "nf_scan1 [] sz = None"
| "nf_scan1 (p # r) sz =
     (if m_Size p = 0 then Some 0
      else if m_Size p < sz then map_option Suc (nf_scan1 r sz)
      else Some 0)"

fun nf_scan2 :: "mapnode list \<Rightarrow> u32 \<Rightarrow> nat" where
  "nf_scan2 [] sz = 0"
| "nf_scan2 (p # r) sz = (if m_Size p < sz then Suc (nf_scan2 r sz) else 0)"

definition nf_carve :: "mapnode list \<Rightarrow> nat \<Rightarrow> u32 \<Rightarrow> (u32 \<times> mapnode list \<times> nat) option" where
  "nf_carve m i sz =
     (let p = m ! i;
          p' = p\<lparr>m_AddressIdx := m_AddressIdx p + sz, m_Size := m_Size p - sz\<rparr>;
          m' = m[i := p']
      in if m_Size p' = 0
         then map_option (\<lambda>s. (m_AddressIdx p, take i m' @ s, i)) (compact (drop i m'))
         else Some (m_AddressIdx p, m', i + 1))"

definition alloc_next :: "mapnode list \<Rightarrow> u32 \<Rightarrow> nat \<Rightarrow> (u32 \<times> mapnode list \<times> nat) option" where
  "alloc_next m sz beginNode =
     (case nf_scan1 (drop beginNode m) sz of
        None \<Rightarrow> None
      | Some k \<Rightarrow>
          if m_Size (m ! (beginNode + k)) = 0
          then (let j = nf_scan2 (take beginNode m) sz
                in if j = beginNode then Some (0, m, beginNode) else nf_carve m j sz)
          else nf_carve m (beginNode + k) sz)"

text \<open>\<open>Free(map, size, addrIdx)\<close>: the scan, then the merge with the neighbours or the insertion.\<close>

fun free_scan :: "mapnode list \<Rightarrow> u32 \<Rightarrow> nat" where
  "free_scan [] a = 0"
| "free_scan (p # r) a = (if m_AddressIdx p \<le> a \<and> m_Size p \<noteq> 0 then Suc (free_scan r a) else 0)"

definition free_map :: "mapnode list \<Rightarrow> u32 \<Rightarrow> u32 \<Rightarrow> mapnode list option" where
  "free_map m sz a =
     (let k = free_scan m a in
      if k = length m then None
      else
        let p = m ! k; l = m ! (k - 1) in
        if 0 < k \<and> a = m_AddressIdx l + m_Size l then
          if a + sz = m_AddressIdx p
          then map_option
                 (\<lambda>s. take (k - 1) m @ l\<lparr>m_Size := m_Size l + sz + m_Size p\<rparr> # s)
                 (compact (drop k m))
          else Some (m[k - 1 := l\<lparr>m_Size := m_Size l + sz\<rparr>])
        else if a + sz = m_AddressIdx p \<and> m_Size p \<noteq> 0
          then Some (m[k := p\<lparr>m_AddressIdx := a, m_Size := m_Size p + sz\<rparr>])
        else if sz \<noteq> 0
          then map_option (\<lambda>s. take k m @ s)
                 (shift_up \<lparr>m_Size = sz, m_AddressIdx = a\<rparr> (drop k m))
        else Some m)"

section \<open>Specification\<close>

definition nstart :: "mapnode \<Rightarrow> nat" where
  "nstart n = unat (m_AddressIdx n)"

definition nend :: "mapnode \<Rightarrow> nat" where
  "nend n = unat (m_AddressIdx n) + unat (m_Size n)"

fun regs_ok :: "nat \<Rightarrow> nat \<Rightarrow> mapnode list \<Rightarrow> bool" where
  "regs_ok lo hi [] = True"
| "regs_ok lo hi (n # ns) =
     (m_Size n \<noteq> 0 \<and> lo < nstart n \<and> nend n \<le> hi \<and> regs_ok (nend n) hi ns)"

definition free_of :: "mapnode list \<Rightarrow> nat set" where
  "free_of ns = (\<Union>n\<in>set ns. {nstart n..<nend n})"

text \<open>The live part of an array, and the well-formed arrays over the units \<open>0 < u < hi\<close>.\<close>

definition live :: "mapnode list \<Rightarrow> mapnode list" where
  "live m = takeWhile (\<lambda>n. m_Size n \<noteq> 0) m"

definition avail :: "mapnode list \<Rightarrow> nat set" where
  "avail m = free_of (live m)"

definition wf_map :: "nat \<Rightarrow> mapnode list \<Rightarrow> bool" where
  "wf_map hi m \<longleftrightarrow> hi < 2 ^ 32 \<and> regs_ok 0 hi (live m) \<and> length (live m) < length m \<and>
     set (drop (length (live m)) m) = {zero_node}"


section \<open>Well-formed arrays\<close>

fun last_end :: "nat \<Rightarrow> mapnode list \<Rightarrow> nat" where
  "last_end lo [] = lo"
| "last_end lo (n # ns) = last_end (nend n) ns"

lemma nstart_nend: "m_Size n \<noteq> 0 \<Longrightarrow> nstart n < nend n"
  by (simp add: nstart_def nend_def unat_gt_0)

lemma regs_ok_append:
  "regs_ok lo hi (A @ B) \<longleftrightarrow> regs_ok lo hi A \<and> regs_ok (last_end lo A) hi B"
  by (induction A arbitrary: lo) auto

lemma last_end_append: "last_end lo (A @ B) = last_end (last_end lo A) B"
  by (induction A arbitrary: lo) auto

lemma regs_ok_last_end: "regs_ok lo hi A \<Longrightarrow> lo \<le> last_end lo A \<and> (A \<noteq> [] \<longrightarrow> last_end lo A \<le> hi)"
proof (induction A arbitrary: lo)
  case Nil
  then show ?case by simp
next
  case (Cons n ns)
  then have "nend n \<le> last_end (nend n) ns \<and> (ns \<noteq> [] \<longrightarrow> last_end (nend n) ns \<le> hi)"
    by simp
  with Cons.prems show ?case using nstart_nend [of n] by (cases ns) auto
qed

lemma regs_ok_mono: "regs_ok lo hi A \<Longrightarrow> lo' \<le> lo \<Longrightarrow> regs_ok lo' hi A"
  by (cases A) auto

lemma regs_ok_nonzero: "regs_ok lo hi A \<Longrightarrow> n \<in> set A \<Longrightarrow> m_Size n \<noteq> 0"
  by (induction A arbitrary: lo) auto

lemma free_of_simps [simp]:
  "free_of [] = {}"
  "free_of (n # ns) = {nstart n..<nend n} \<union> free_of ns"
  "free_of (A @ B) = free_of A \<union> free_of B"
  by (auto simp: free_of_def)

lemma free_of_bounds: "regs_ok lo hi A \<Longrightarrow> x \<in> free_of A \<Longrightarrow> lo < x \<and> x < last_end lo A"
proof (induction A arbitrary: lo)
  case Nil
  then show ?case by simp
next
  case (Cons n ns)
  from Cons.prems(1) have ok: "regs_ok (nend n) hi ns" and lo: "lo < nstart n" and "m_Size n \<noteq> 0"
    by auto
  have le: "nend n \<le> last_end (nend n) ns" using regs_ok_last_end [OF ok] by simp
  show ?case
  proof (cases "x \<in> {nstart n..<nend n}")
    case True
    with lo le show ?thesis by auto
  next
    case False
    with Cons.prems(2) have "x \<in> free_of ns" by auto
    from Cons.IH [OF ok this] have "nend n < x \<and> x < last_end (nend n) ns" .
    with lo nstart_nend [OF \<open>m_Size n \<noteq> 0\<close>] show ?thesis by auto
  qed
qed

lemma live_append: "\<forall>n\<in>set L. m_Size n \<noteq> 0 \<Longrightarrow> live (L @ zero_node # Z) = L"
  by (induction L) (auto simp: live_def zero_node_def)

lemma wf_mapE:
  assumes "wf_map hi m"
  obtains L Z where "m = L @ zero_node # Z" "set Z \<subseteq> {zero_node}" "regs_ok 0 hi L" "live m = L"
    "hi < 2 ^ 32"
proof -
  define L where "L = live m"
  define D where "D = drop (length L) m"
  have pre: "take (length L) m = L"
    unfolding L_def live_def by (rule takeWhile_eq_take [symmetric])
  have D: "set D = {zero_node}" and ok: "regs_ok 0 hi L" and hi: "hi < 2 ^ 32"
    using assms unfolding wf_map_def D_def L_def by blast+
  from D obtain d Z where dz: "D = d # Z" by (cases D) auto
  with D have "d = zero_node" "set Z \<subseteq> {zero_node}" by auto
  moreover from pre have "m = L @ D" unfolding D_def by (metis append_take_drop_id)
  moreover have "live m = L" by (simp only: L_def)
  ultimately show ?thesis using that [of L Z] ok hi dz by blast
qed

lemma wf_mapI:
  assumes "regs_ok 0 hi L" "hi < 2 ^ 32" "set Z \<subseteq> {zero_node}"
  shows "wf_map hi (L @ zero_node # Z)" "live (L @ zero_node # Z) = L"
    "avail (L @ zero_node # Z) = free_of L"
proof -
  have "\<forall>n\<in>set L. m_Size n \<noteq> 0" using regs_ok_nonzero [OF assms(1)] by blast
  then show lv: "live (L @ zero_node # Z) = L" by (rule live_append)
  with assms show "wf_map hi (L @ zero_node # Z)" by (auto simp: wf_map_def)
  from lv show "avail (L @ zero_node # Z) = free_of L" by (simp add: avail_def)
qed


section \<open>The loops on a well-formed array\<close>

lemma compact_live:
  "\<forall>n\<in>set L. m_Size n \<noteq> 0 \<Longrightarrow>
   compact (p # L @ zero_node # Z) = Some (L @ zero_node # zero_node # Z)"
  by (induction L arbitrary: p) (auto simp: zero_node_def)

lemma shift_up_live:
  "\<forall>n\<in>set L. m_Size n \<noteq> 0 \<Longrightarrow> shift_up t (L @ zero_node # Z) = Some (t # L @ Z)"
  by (induction L arbitrary: t) (auto simp: zero_node_def)

text \<open>What carving \<open>sz\<close> units out of the node \<open>n\<close> between \<open>L1\<close> and \<open>L2\<close> leaves.\<close>

definition shrunk :: "mapnode \<Rightarrow> u32 \<Rightarrow> mapnode" where
  "shrunk n sz = n\<lparr>m_AddressIdx := m_AddressIdx n + sz, m_Size := m_Size n - sz\<rparr>"

definition carved :: "mapnode list \<Rightarrow> mapnode \<Rightarrow> mapnode list \<Rightarrow> mapnode list \<Rightarrow> u32 \<Rightarrow> mapnode list" where
  "carved L1 n L2 Z sz =
     (if m_Size n = sz then L1 @ L2 @ zero_node # zero_node # Z
      else L1 @ shrunk n sz # L2 @ zero_node # Z)"

lemma shrunk_size: "m_Size (shrunk n sz) = 0 \<longleftrightarrow> m_Size n = sz"
  by (auto simp: shrunk_def)

lemma shrunk_bounds:
  assumes "sz \<le> m_Size n" "nend n < 2 ^ 32"
  shows "nstart (shrunk n sz) = nstart n + unat sz" "nend (shrunk n sz) = nend n"
proof -
  from assms(1) have le: "unat sz \<le> unat (m_Size n)" by (simp add: word_le_nat_alt)
  with assms(2) have "unat (m_AddressIdx n) + unat sz < 2 ^ 32" by (simp add: nend_def)
  then have a: "unat (m_AddressIdx n + sz) = unat (m_AddressIdx n) + unat sz"
    by (rule unat_add_nowrap)
  moreover from assms(1) have "unat (m_Size n - sz) = unat (m_Size n) - unat sz"
    by (rule unat_sub)
  ultimately show "nstart (shrunk n sz) = nstart n + unat sz" "nend (shrunk n sz) = nend n"
    using le by (simp_all add: shrunk_def nstart_def nend_def)
qed

text \<open>Both allocators, on a well-formed array, either carve one of its nodes or fail.\<close>

lemma alloc_first_split:
  assumes "\<forall>n\<in>set L. m_Size n \<noteq> 0" "sz \<noteq> 0"
  shows "(\<exists>L1 n L2. L = L1 @ n # L2 \<and> (\<forall>x\<in>set L1. m_Size x < sz) \<and> sz \<le> m_Size n \<and>
            alloc_first (L @ zero_node # Z) sz = Some (m_AddressIdx n, carved L1 n L2 Z sz)) \<or>
         (\<forall>x\<in>set L. m_Size x < sz) \<and>
            alloc_first (L @ zero_node # Z) sz = Some (0, L @ zero_node # Z)"
  using assms(1)
proof (induction L)
  case Nil
  then show ?case by (simp add: zero_node_def)
next
  case (Cons p L)
  then have nz: "m_Size p \<noteq> 0" and nzL: "\<forall>n\<in>set L. m_Size n \<noteq> 0" by auto
  show ?case
  proof (cases "sz \<le> m_Size p")
    case True
    have "alloc_first ((p # L) @ zero_node # Z) sz = Some (m_AddressIdx p, carved [] p L Z sz)"
      using True nz compact_live [OF nzL] by (auto simp: carved_def shrunk_def Let_def)
    with True show ?thesis by fastforce
  next
    case False
    then have lt: "m_Size p < sz" by simp
    have step: "alloc_first ((p # L) @ zero_node # Z) sz =
        map_option (\<lambda>(a, m). (a, p # m)) (alloc_first (L @ zero_node # Z) sz)"
      using False nz by simp
    from Cons.IH [OF nzL] show ?thesis
    proof (elim disjE exE conjE)
      fix L1 n L2
      assume L: "L = L1 @ n # L2" and small: "\<forall>x\<in>set L1. m_Size x < sz" and "sz \<le> m_Size n"
        and al: "alloc_first (L @ zero_node # Z) sz = Some (m_AddressIdx n, carved L1 n L2 Z sz)"
      moreover have "p # carved L1 n L2 Z sz = carved (p # L1) n L2 Z sz"
        by (simp add: carved_def)
      ultimately have "p # L = (p # L1) @ n # L2 \<and> (\<forall>x\<in>set (p # L1). m_Size x < sz) \<and>
          sz \<le> m_Size n \<and> alloc_first ((p # L) @ zero_node # Z) sz =
            Some (m_AddressIdx n, carved (p # L1) n L2 Z sz)"
        using step lt by simp
      then show ?thesis by blast
    next
      assume "\<forall>x\<in>set L. m_Size x < sz"
        "alloc_first (L @ zero_node # Z) sz = Some (0, L @ zero_node # Z)"
      with step lt show ?thesis by simp
    qed
  qed
qed

lemma nf_carve_split:
  assumes "\<forall>x\<in>set L2. m_Size x \<noteq> 0"
  shows "nf_carve (L1 @ n # L2 @ zero_node # Z) (length L1) sz =
     Some (m_AddressIdx n, carved L1 n L2 Z sz,
           if m_Size n = sz then length L1 else length L1 + 1)"
  using compact_live [OF assms]
  by (auto simp: nf_carve_def carved_def shrunk_def Let_def)


lemma nf_scan1_Some:
  "nf_scan1 xs sz = Some k \<Longrightarrow>
   k < length xs \<and> (\<forall>i<k. m_Size (xs ! i) < sz) \<and> (m_Size (xs ! k) = 0 \<or> sz \<le> m_Size (xs ! k))"
proof (induction xs arbitrary: k)
  case Nil
  then show ?case by simp
next
  case (Cons p xs)
  show ?case
  proof (cases k)
    case 0
    with Cons.prems show ?thesis by (auto split: if_splits)
  next
    case (Suc k')
    with Cons.prems have "nf_scan1 xs sz = Some k'" and "m_Size p < sz"
      by (auto split: if_splits)
    with Cons.IH [of k'] Suc show ?thesis by (auto simp: less_Suc_eq_0_disj)
  qed
qed

lemma nf_scan2_props:
  "nf_scan2 xs sz \<le> length xs \<and> (\<forall>i<nf_scan2 xs sz. m_Size (xs ! i) < sz) \<and>
   (nf_scan2 xs sz < length xs \<longrightarrow> sz \<le> m_Size (xs ! nf_scan2 xs sz))"
  by (induction xs) (auto simp: less_Suc_eq_0_disj)

lemma nf_scan1_drop:
  "nf_scan1 (drop b m) sz = Some k \<Longrightarrow> b < length m \<Longrightarrow>
   b + k < length m \<and> (\<forall>i<k. m_Size (m ! (b + i)) < sz) \<and>
   (m_Size (m ! (b + k)) = 0 \<or> sz \<le> m_Size (m ! (b + k)))"
  by (auto dest!: nf_scan1_Some)

lemma nf_scan2_take:
  "b < length m \<Longrightarrow> nf_scan2 (take b m) sz \<le> b \<and>
   (\<forall>i<nf_scan2 (take b m) sz. m_Size (m ! i) < sz) \<and>
   (nf_scan2 (take b m) sz < b \<longrightarrow> sz \<le> m_Size (m ! nf_scan2 (take b m) sz))"
  using nf_scan2_props [of "take b m" sz] by auto

lemma nf_scan1_total: "zero_node \<in> set xs \<Longrightarrow> \<exists>k. nf_scan1 xs sz = Some k"
  by (induction xs) (auto simp: zero_node_def)

lemma split_at: "i < length L \<Longrightarrow> \<exists>L1 L2. L = L1 @ L ! i # L2 \<and> length L1 = i"
  by (rule exI [of _ "take i L"], rule exI [of _ "drop (Suc i) L"]) (simp add: id_take_nth_drop [symmetric])

lemma nonzero_in_live:
  assumes "set Z \<subseteq> {zero_node}" "i < length (L @ zero_node # Z)"
    "m_Size ((L @ zero_node # Z) ! i) \<noteq> 0"
  shows "i < length L"
proof (rule ccontr)
  assume "\<not> i < length L"
  then have "(L @ zero_node # Z) ! i = (zero_node # Z) ! (i - length L)"
    by (simp add: nth_append)
  moreover have "i - length L < length (zero_node # Z)"
    using assms(2) \<open>\<not> i < length L\<close> by (simp only: length_append)
  ultimately have "(L @ zero_node # Z) ! i \<in> set (zero_node # Z)"
    by (metis nth_mem)
  then have "(L @ zero_node # Z) ! i = zero_node" using assms(1) by auto
  with assms(3) show False by (simp add: zero_node_def)
qed

lemma carve_at:
  assumes nz: "\<forall>n\<in>set L. m_Size n \<noteq> 0" and i: "i < length L" and fit: "sz \<le> m_Size (L ! i)"
  shows "\<exists>L1 n L2 b. L = L1 @ n # L2 \<and> sz \<le> m_Size n \<and> b \<le> length L1 + 1 \<and>
     nf_carve (L @ zero_node # Z) i sz = Some (m_AddressIdx n, carved L1 n L2 Z sz, b)"
proof -
  obtain L1 L2 where L: "L = L1 @ L ! i # L2" and len: "length L1 = i"
    using split_at [OF i] by blast
  have nz2: "\<forall>x\<in>set L2. m_Size x \<noteq> 0" using nz by (subst (asm) L) auto
  have eq: "L @ zero_node # Z = L1 @ L ! i # L2 @ zero_node # Z"
    by (subst L) simp
  have "nf_carve (L @ zero_node # Z) i sz =
      Some (m_AddressIdx (L ! i), carved L1 (L ! i) L2 Z sz,
            if m_Size (L ! i) = sz then length L1 else length L1 + 1)"
    unfolding eq using nf_carve_split [OF nz2, of L1 "L ! i" Z sz] len by simp
  with L fit show ?thesis by (intro exI [of _ L1] exI [of _ "L ! i"] exI [of _ L2]) auto
qed

lemma alloc_next_split:
  assumes nz: "\<forall>n\<in>set L. m_Size n \<noteq> 0" and Z: "set Z \<subseteq> {zero_node}" and sz: "sz \<noteq> 0"
    and b: "b < length (L @ zero_node # Z)"
  shows "(\<exists>L1 n L2 b'. L = L1 @ n # L2 \<and> sz \<le> m_Size n \<and> b' \<le> length L1 + 1 \<and>
            alloc_next (L @ zero_node # Z) sz b = Some (m_AddressIdx n, carved L1 n L2 Z sz, b')) \<or>
         (\<forall>x\<in>set L. m_Size x < sz) \<and>
            alloc_next (L @ zero_node # Z) sz b = Some (0, L @ zero_node # Z, b)"
proof -
  let ?m = "L @ zero_node # Z"
  have "last ?m \<in> set (drop b ?m)"
    using b by (metis drop_eq_Nil last_drop last_in_set not_less)
  moreover have "last ?m = zero_node"
  proof (cases Z rule: rev_cases)
    case (snoc ys y)
    with Z show ?thesis by auto
  qed simp
  ultimately have "zero_node \<in> set (drop b ?m)" by simp
  then obtain k where k: "nf_scan1 (drop b ?m) sz = Some k"
    using nf_scan1_total by blast
  note s1 = nf_scan1_drop [OF k b]
  from s1 have kl: "b + k < length ?m" by blast
  from s1 have small: "\<forall>i<k. m_Size (?m ! (b + i)) < sz" by blast
  from s1 have stop: "m_Size (?m ! (b + k)) = 0 \<or> sz \<le> m_Size (?m ! (b + k))" by blast
  show ?thesis
  proof (cases "m_Size (?m ! (b + k)) = 0")
    case False
    have i: "b + k < length L" by (rule nonzero_in_live [OF Z kl False])
    then have "sz \<le> m_Size (L ! (b + k))" using stop False by (simp add: nth_append)
    from carve_at [OF nz i this, of Z] k False show ?thesis
      by (simp add: alloc_next_def)
  next
    case True
    let ?j = "nf_scan2 (take b ?m) sz"
    note s2 = nf_scan2_take [OF b, of sz]
    from s2 have jb: "?j \<le> b" by blast
    show ?thesis
    proof (cases "?j = b")
      case False
      with jb have jl: "?j < b" by simp
      with s2 have fit: "sz \<le> m_Size (?m ! ?j)" by blast
      with sz have nzj: "m_Size (?m ! ?j) \<noteq> 0" by (metis word_le_0_iff)
      from jl b have "?j < length ?m" by (rule less_trans)
      then have i: "?j < length L" using nzj by (rule nonzero_in_live [OF Z])
      then have "sz \<le> m_Size (L ! ?j)" using fit by (simp add: nth_append)
      from carve_at [OF nz i this, of Z] k True False show ?thesis
        by (simp add: alloc_next_def Let_def)
    next
      case jeq: True
      have "m_Size x < sz" if "x \<in> set L" for x
      proof -
        from that obtain i where i: "i < length L" "x = L ! i" by (auto simp: in_set_conv_nth)
        then have x: "x = ?m ! i" by (simp add: nth_append)
        have hi: "length L \<le> b + k"
        proof (rule ccontr)
          assume "\<not> length L \<le> b + k"
          then show False using True nz by (simp add: nth_append)
        qed
        show ?thesis
        proof (cases "i < b")
          case True
          then show ?thesis using s2 jeq x by metis
        next
          case False
          with hi i have "i - b < k" by linarith
          with small have "m_Size (?m ! (b + (i - b))) < sz" by blast
          with False x show ?thesis by simp
        qed
      qed
      moreover have "alloc_next ?m sz b = Some (0, ?m, b)"
        using k True jeq by (simp add: alloc_next_def Let_def)
      ultimately show ?thesis by simp
    qed
  qed
qed


section \<open>Carving and freeing are set operations\<close>

lemma carved_props:
  assumes ok: "regs_ok 0 hi (L1 @ n # L2)" and hi: "hi < 2 ^ 32" and Z: "set Z \<subseteq> {zero_node}"
    and fit: "sz \<le> m_Size n" and sz: "sz \<noteq> 0"
  shows "wf_map hi (carved L1 n L2 Z sz)"
    and "{nstart n..<nstart n + unat sz} \<subseteq> free_of (L1 @ n # L2)"
    and "avail (carved L1 n L2 Z sz) = free_of (L1 @ n # L2) - {nstart n..<nstart n + unat sz}"
    and "length (live (carved L1 n L2 Z sz)) \<le> length (L1 @ n # L2)"
    and "length (carved L1 n L2 Z sz) = length ((L1 @ n # L2) @ zero_node # Z)"
proof -
  from ok have o1: "regs_ok 0 hi L1" and lt: "last_end 0 L1 < nstart n" and ne: "nend n \<le> hi"
    and o2: "regs_ok (nend n) hi L2" and nz: "m_Size n \<noteq> 0"
    by (auto simp: regs_ok_append)
  have szl: "unat sz \<le> unat (m_Size n)" using fit by (simp add: word_le_nat_alt)
  have b1: "x < nstart n" if "x \<in> free_of L1" for x
    using free_of_bounds [OF o1 that] lt by simp
  have b2: "nend n < x" if "x \<in> free_of L2" for x
    using free_of_bounds [OF o2 that] by simp
  have ends: "nstart n + unat sz \<le> nend n" using szl by (simp add: nstart_def nend_def)
  show sub: "{nstart n..<nstart n + unat sz} \<subseteq> free_of (L1 @ n # L2)"
    using ends by auto
  have all: "wf_map hi (carved L1 n L2 Z sz) \<and>
     avail (carved L1 n L2 Z sz) = free_of (L1 @ n # L2) - {nstart n..<nstart n + unat sz} \<and>
     length (live (carved L1 n L2 Z sz)) \<le> length (L1 @ n # L2)"
  proof (cases "m_Size n = sz")
    case True
    have okL: "regs_ok 0 hi (L1 @ L2)"
      using o1 o2 lt nstart_nend [OF nz] by (auto simp: regs_ok_append intro: regs_ok_mono)
    have Z': "set (zero_node # Z) \<subseteq> {zero_node}" using Z by auto
    have c: "carved L1 n L2 Z sz = (L1 @ L2) @ zero_node # (zero_node # Z)"
      using True by (simp add: carved_def)
    have "nend n = nstart n + unat sz" using True by (simp add: nstart_def nend_def)
    then have "free_of (L1 @ L2) = free_of (L1 @ n # L2) - {nstart n..<nstart n + unat sz}"
      using b1 b2 by (auto dest: b1 b2)
    then show ?thesis unfolding c using wf_mapI [OF okL hi Z'] by simp
  next
    case False
    have nb: "nend n < 2 ^ 32" using ne hi by simp
    note sb = shrunk_bounds [OF fit nb]
    have okL: "regs_ok 0 hi (L1 @ shrunk n sz # L2)"
      using o1 o2 lt ne sb False by (auto simp: regs_ok_append shrunk_size)
    have c: "carved L1 n L2 Z sz = (L1 @ shrunk n sz # L2) @ zero_node # Z"
      using False by (simp add: carved_def)
    have "free_of (L1 @ shrunk n sz # L2) =
        free_of (L1 @ n # L2) - {nstart n..<nstart n + unat sz}"
      using b1 b2 sb ends by (auto dest: b1 b2)
    then show ?thesis unfolding c using wf_mapI [OF okL hi Z] by simp
  qed
  from all show "wf_map hi (carved L1 n L2 Z sz)"
    "avail (carved L1 n L2 Z sz) = free_of (L1 @ n # L2) - {nstart n..<nstart n + unat sz}"
    "length (live (carved L1 n L2 Z sz)) \<le> length (L1 @ n # L2)" by auto
  show "length (carved L1 n L2 Z sz) = length ((L1 @ n # L2) @ zero_node # Z)"
    by (simp add: carved_def)
qed

text \<open>The outcome of a successful allocation at \<open>r\<close>, and of a failed one.\<close>

definition took :: "nat \<Rightarrow> mapnode list \<Rightarrow> u32 \<Rightarrow> u32 \<Rightarrow> mapnode list \<Rightarrow> bool" where
  "took hi m sz r m' \<longleftrightarrow>
     r \<noteq> 0 \<and> wf_map hi m' \<and> {unat r..<unat r + unat sz} \<subseteq> avail m \<and>
     avail m' = avail m - {unat r..<unat r + unat sz} \<and>
     length m' = length m \<and> length (live m') \<le> length (live m)"

definition no_fit :: "mapnode list \<Rightarrow> u32 \<Rightarrow> bool" where
  "no_fit m sz \<longleftrightarrow> (\<forall>n\<in>set (live m). m_Size n < sz)"

lemma took_carved:
  assumes "regs_ok 0 hi (L1 @ n # L2)" "hi < 2 ^ 32" "set Z \<subseteq> {zero_node}" "sz \<le> m_Size n" "sz \<noteq> 0"
  shows "took hi ((L1 @ n # L2) @ zero_node # Z) sz (m_AddressIdx n) (carved L1 n L2 Z sz)"
proof -
  from assms(1) have "0 < nstart n" by (auto simp: regs_ok_append)
  then have "m_AddressIdx n \<noteq> 0" by (auto simp: nstart_def)
  with carved_props [OF assms] wf_mapI [OF assms(1-3)] show ?thesis
    by (simp add: took_def nstart_def)
qed

lemma alloc_first_correct:
  assumes "wf_map hi m" "sz \<noteq> 0"
  shows "(\<exists>r m'. alloc_first m sz = Some (r, m') \<and> took hi m sz r m') \<or>
         alloc_first m sz = Some (0, m) \<and> no_fit m sz"
proof -
  from assms(1) obtain L Z where m: "m = L @ zero_node # Z" and Z: "set Z \<subseteq> {zero_node}"
    and ok: "regs_ok 0 hi L" and lv: "live m = L" and hi: "hi < 2 ^ 32"
    by (rule wf_mapE)
  have "\<forall>n\<in>set L. m_Size n \<noteq> 0" using regs_ok_nonzero [OF ok] by blast
  from alloc_first_split [OF this assms(2), of Z] show ?thesis
  proof (elim disjE exE conjE)
    fix L1 n L2
    assume "L = L1 @ n # L2" "sz \<le> m_Size n"
      "alloc_first (L @ zero_node # Z) sz = Some (m_AddressIdx n, carved L1 n L2 Z sz)"
    then show ?thesis using took_carved [of hi L1 n L2 Z sz] ok hi Z assms(2) m by auto
  qed (use lv m in \<open>simp add: no_fit_def\<close>)
qed

lemma alloc_next_correct:
  assumes "wf_map hi m" "sz \<noteq> 0" "b < length m"
  shows "(\<exists>r m' b'. alloc_next m sz b = Some (r, m', b') \<and> took hi m sz r m' \<and> b' < length m') \<or>
         alloc_next m sz b = Some (0, m, b) \<and> no_fit m sz"
proof -
  from assms(1) obtain L Z where m: "m = L @ zero_node # Z" and Z: "set Z \<subseteq> {zero_node}"
    and ok: "regs_ok 0 hi L" and lv: "live m = L" and hi: "hi < 2 ^ 32"
    by (rule wf_mapE)
  have nz: "\<forall>n\<in>set L. m_Size n \<noteq> 0" using regs_ok_nonzero [OF ok] by blast
  have bl: "b < length (L @ zero_node # Z)" using assms(3) m by simp
  from alloc_next_split [OF nz Z assms(2) bl] show ?thesis
  proof (elim disjE exE conjE)
    fix L1 n L2 b'
    assume L: "L = L1 @ n # L2" and fit: "sz \<le> m_Size n" and b': "b' \<le> length L1 + 1"
      and al: "alloc_next (L @ zero_node # Z) sz b = Some (m_AddressIdx n, carved L1 n L2 Z sz, b')"
    have t: "took hi m sz (m_AddressIdx n) (carved L1 n L2 Z sz)"
      using took_carved [of hi L1 n L2 Z sz] ok hi Z assms(2) m L fit by simp
    then have "length (carved L1 n L2 Z sz) = length m" by (simp add: took_def)
    with b' m L have "b' < length (carved L1 n L2 Z sz)" by simp
    with t al m show ?thesis by blast
  qed (use lv m assms(3) in \<open>auto simp: no_fit_def\<close>)
qed

section \<open>Free\<close>

lemma last_end_snoc [simp]: "last_end lo (A @ [l]) = nend l"
  by (simp add: last_end_append)

lemma compact_nonzero:
  "\<forall>x\<in>set B. m_Size x \<noteq> 0 \<Longrightarrow>
   compact (p # B @ zero_node # Z) = Some (B @ zero_node # zero_node # Z)"
  by (rule compact_live)

lemma free_scan_split:
  assumes "regs_ok lo hi L"
  shows "\<exists>A B. L = A @ B \<and> free_scan (L @ zero_node # Z) a = length A \<and>
     (\<forall>n\<in>set A. nstart n \<le> unat a) \<and> (B \<noteq> [] \<longrightarrow> unat a < nstart (hd B))"
  using assms
proof (induction L arbitrary: lo)
  case Nil
  then show ?case by (simp add: zero_node_def)
next
  case (Cons n L)
  then have nz: "m_Size n \<noteq> 0" and ok: "regs_ok (nend n) hi L" by auto
  show ?case
  proof (cases "nstart n \<le> unat a")
    case True
    from Cons.IH [OF ok] obtain A B where "L = A @ B"
      "free_scan (L @ zero_node # Z) a = length A" "\<forall>n\<in>set A. nstart n \<le> unat a"
      "B \<noteq> [] \<longrightarrow> unat a < nstart (hd B)" by blast
    with True nz show ?thesis
      by (intro exI [of _ "n # A"] exI [of _ B]) (simp add: nstart_def word_le_nat_alt)
  next
    case False
    then show ?thesis
      by (intro exI [of _ "[]"] exI [of _ "n # L"]) (simp add: nstart_def word_le_nat_alt)
  qed
qed

text \<open>Where a region that is disjoint from the free set falls between the nodes.\<close>

lemma gap_bounds:
  assumes ok: "regs_ok 0 hi (A @ B)" and sz: "sz \<noteq> (0 :: u32)" and a: "a \<noteq> 0"
    and disj: "{unat a..<unat a + unat sz} \<inter> free_of (A @ B) = {}"
    and A: "\<forall>n\<in>set A. nstart n \<le> unat a" and B: "B \<noteq> [] \<longrightarrow> unat a < nstart (hd B)"
  shows "last_end 0 A \<le> unat a" "B \<noteq> [] \<Longrightarrow> unat a + unat sz \<le> nstart (hd B)"
    "A = [] \<Longrightarrow> last_end 0 A < unat a"
proof -
  have szp: "0 < unat sz" using sz by (rule unat_pos)
  show "last_end 0 A \<le> unat a"
  proof (cases A rule: rev_cases)
    case (snoc A' l)
    have "unat a \<in> {unat a..<unat a + unat sz}" using szp by simp
    with disj have "unat a \<notin> free_of (A @ B)" by blast
    with snoc have "unat a \<notin> {nstart l..<nend l}" by simp
    moreover have "nstart l \<le> unat a" using A snoc by simp
    ultimately show ?thesis using snoc by simp
  qed simp
  show "unat a + unat sz \<le> nstart (hd B)" if ne: "B \<noteq> []"
  proof (rule ccontr)
    assume "\<not> unat a + unat sz \<le> nstart (hd B)"
    then have "nstart (hd B) \<in> {unat a..<unat a + unat sz}" using B ne by auto
    moreover have "nstart (hd B) \<in> free_of (A @ B)"
      using ok ne nstart_nend [of "hd B"] by (cases B) (auto simp: regs_ok_append)
    ultimately show False using disj by blast
  qed
  show "A = [] \<Longrightarrow> last_end 0 A < unat a" using a by (simp add: unat_gt_0)
qed

text \<open>The list of nodes that \<open>Free\<close> leaves, in its four cases.\<close>

definition joined :: "mapnode list \<Rightarrow> mapnode list \<Rightarrow> u32 \<Rightarrow> u32 \<Rightarrow> mapnode list" where
  "joined A B sz a =
     (let left = A \<noteq> [] \<and> nend (last A) = unat a;
          right = B \<noteq> [] \<and> unat a + unat sz = nstart (hd B)
      in (if left then butlast A else A) @
         \<lparr>m_Size = (if left then m_Size (last A) else 0) + sz + (if right then m_Size (hd B) else 0),
          m_AddressIdx = (if left then m_AddressIdx (last A) else a)\<rparr> #
         (if right then tl B else B))"

lemma unat_end:
  assumes "nend n < 2 ^ 32"
  shows "unat (m_AddressIdx n + m_Size n) = nend n"
  using assms by (simp add: nend_def unat_add_nowrap)

lemma sizes_add:
  fixes a b :: u32
  assumes "x + unat a + unat b < 2 ^ 32"
  shows "unat (a + b) = unat a + unat b"
  using assms by (intro unat_add_nowrap) simp

lemma joined_regs:
  assumes ok: "regs_ok 0 hi (A @ B)" and hi: "hi < 2 ^ 32" and sz: "sz \<noteq> 0" and a: "a \<noteq> 0"
    and end_le: "unat a + unat sz \<le> hi"
    and le: "last_end 0 A \<le> unat a" and ge: "B \<noteq> [] \<Longrightarrow> unat a + unat sz \<le> nstart (hd B)"
  shows "regs_ok 0 hi (joined A B sz a) \<and>
    free_of (joined A B sz a) = free_of (A @ B) \<union> {unat a..<unat a + unat sz}"
proof -
  let ?left = "A \<noteq> [] \<and> nend (last A) = unat a"
  let ?right = "B \<noteq> [] \<and> unat a + unat sz = nstart (hd B)"
  define A' where "A' = (if ?left then butlast A else A)"
  define B' where "B' = (if ?right then tl B else B)"
  define n where "n = \<lparr>m_Size = (if ?left then m_Size (last A) else 0) + sz +
      (if ?right then m_Size (hd B) else 0),
      m_AddressIdx = (if ?left then m_AddressIdx (last A) else a)\<rparr>"
  have j: "joined A B sz a = A' @ n # B'"
    by (simp add: joined_def A'_def B'_def n_def Let_def)
  define s0 where "s0 = (if ?left then nstart (last A) else unat a)"
  define e0 where "e0 = (if ?right then nend (hd B) else unat a + unat sz)"
  from ok have okA: "regs_ok 0 hi A" and okB: "regs_ok (last_end 0 A) hi B"
    by (auto simp: regs_ok_append)
  have szp: "0 < unat sz" and ap: "0 < unat a" using sz a by (auto simp: unat_gt_0)
  have A': "regs_ok 0 hi A' \<and> last_end 0 A' < s0 \<and>
      free_of A = free_of A' \<union> {s0..<unat a} \<and> s0 \<le> unat a"
  proof (cases ?left)
    case True
    then obtain A1 l where A: "A = A1 @ [l]" by (metis append_butlast_last_id)
    with True okA nstart_nend [of l] show ?thesis
      by (auto simp: A'_def s0_def regs_ok_append)
  next
    case False
    then have "last_end 0 A < unat a"
      using le ap by (cases A rule: rev_cases) auto
    with False okA show ?thesis by (auto simp: A'_def s0_def)
  qed
  have B': "regs_ok e0 hi B' \<and> e0 \<le> hi \<and> unat a + unat sz \<le> e0 \<and>
      free_of B = {unat a + unat sz..<e0} \<union> free_of B'"
  proof (cases B)
    case Nil
    then show ?thesis using end_le by (auto simp: B'_def e0_def)
  next
    case (Cons b bs)
    with ge okB nstart_nend [of b] end_le show ?thesis by (auto simp: B'_def e0_def)
  qed
  have st: "nstart n = s0" by (simp add: n_def s0_def nstart_def)
  define x :: u32 where "x = (if ?left then m_Size (last A) else 0)"
  define y :: u32 where "y = (if ?right then m_Size (hd B) else 0)"
  have xs: "s0 + unat x = unat a"
    by (auto simp: s0_def x_def nend_def nstart_def)
  have ys: "unat a + unat sz + unat y = e0"
    by (auto simp: e0_def y_def nend_def nstart_def)
  have "e0 < 2 ^ 32" using B' hi by simp
  then have tot: "s0 + unat x + unat sz + unat y < 2 ^ 32" using xs ys by simp
  have u1: "unat (x + sz) = unat x + unat sz" using tot by (intro unat_add_nowrap) simp
  then have "unat (x + sz + y) = unat x + unat sz + unat y"
    using tot by (subst unat_add_nowrap) simp_all
  then have size_n: "unat (m_Size n) = unat x + unat sz + unat y"
    by (simp add: n_def x_def y_def)
  then have nz: "m_Size n \<noteq> 0" using szp by auto
  have en: "nend n = e0" using st size_n xs ys by (simp add: nend_def nstart_def)
  have "regs_ok 0 hi (A' @ n # B')"
    using A' B' st en nz by (auto simp: regs_ok_append)
  moreover have "free_of (A' @ n # B') = free_of (A @ B) \<union> {unat a..<unat a + unat sz}"
  proof -
    have "{s0..<e0} = {s0..<unat a} \<union> {unat a..<unat a + unat sz} \<union> {unat a + unat sz..<e0}"
      using A' B' by auto
    then show ?thesis using A' B' st en by auto
  qed
  ultimately show ?thesis using j by simp
qed

lemma joined_length: "length (joined A B sz a) \<le> Suc (length (A @ B))"
  by (auto simp: joined_def Let_def)

lemma free_map_joined:
  assumes ok: "regs_ok 0 hi (A @ B)" and hi: "hi < 2 ^ 32" and sz: "sz \<noteq> 0"
    and end_le: "unat a + unat sz \<le> hi"
    and k: "free_scan ((A @ B) @ zero_node # z # Z) a = length A"
    and Z: "set (z # Z) \<subseteq> {zero_node}"
  shows "\<exists>Z'. free_map ((A @ B) @ zero_node # z # Z) sz a = Some (joined A B sz a @ zero_node # Z') \<and>
    set Z' \<subseteq> {zero_node} \<and>
    length (joined A B sz a @ zero_node # Z') = length ((A @ B) @ zero_node # z # Z)"
proof -
  let ?m = "(A @ B) @ zero_node # z # Z"
  from ok have okA: "regs_ok 0 hi A" and okB: "regs_ok (last_end 0 A) hi B"
    by (auto simp: regs_ok_append)
  have nzB: "\<forall>x\<in>set B. m_Size x \<noteq> 0" using regs_ok_nonzero [OF okB] by blast
  have as: "unat (a + sz) = unat a + unat sz" using end_le hi by (intro unat_add_nowrap) simp
  have lb: "nend l < 2 ^ 32" if "A = A1 @ [l]" for A1 l
    using okA hi that by (auto simp: regs_ok_append)
  have left: "(a = m_AddressIdx l + m_Size l) \<longleftrightarrow> nend l = unat a" if "A = A1 @ [l]" for A1 l
    using unat_end [OF lb [OF that]] by (auto simp: word_eq_unat)
  have kl: "free_scan ?m a \<noteq> length ?m" using k by simp
  have right: "(a + sz = m_AddressIdx (?m ! length A)) \<longleftrightarrow>
      B \<noteq> [] \<and> unat a + unat sz = nstart (hd B)"
  proof (cases B)
    case Nil
    have "unat (a + sz) \<noteq> 0" using as unat_pos [OF sz] by simp
    then have "a + sz \<noteq> 0" by auto
    with Nil show ?thesis by (simp add: nth_append zero_node_def)
  next
    case (Cons b bs)
    then show ?thesis using as by (auto simp: nth_append nstart_def word_eq_unat)
  qed
  have rsz: "B \<noteq> [] \<Longrightarrow> m_Size (?m ! length A) \<noteq> 0"
    using nzB by (cases B) (auto simp: nth_append)
  have comp: "compact (p # B' @ zero_node # z # Z) = Some (B' @ zero_node # zero_node # z # Z)"
    if "B = p # B'" for p B' using nzB that by (intro compact_live) simp
  have zz: "z = zero_node" using Z by simp
  show ?thesis
  proof (cases "A \<noteq> [] \<and> nend (last A) = unat a")
    case True
    then obtain A1 l where A: "A = A1 @ [l]" by (metis append_butlast_last_id)
    with True left [OF A] have l: "a = m_AddressIdx l + m_Size l" by simp
    have lm: "?m ! (length A - 1) = l" using A by (simp add: nth_append)
    show ?thesis
    proof (cases "B \<noteq> [] \<and> unat a + unat sz = nstart (hd B)")
      case r: True
      then obtain p B' where B: "B = p # B'" by (cases B) auto
      show ?thesis
        using k kl True r l lm right comp [OF B] A B Z
        by (intro exI [of _ "zero_node # z # Z"])
           (auto simp: free_map_def joined_def Let_def nth_append)
    next
      case r: False
      show ?thesis
        using k kl True r l lm right A Z
        by (intro exI [of _ "z # Z"])
           (auto simp: free_map_def joined_def Let_def nth_append list_update_append)
    qed
  next
    case False
    have nl: "\<not> (0 < length A \<and> a = m_AddressIdx (?m ! (length A - 1)) + m_Size (?m ! (length A - 1)))"
    proof (cases A rule: rev_cases)
      case (snoc A1 l)
      with False left [OF snoc] show ?thesis by (simp add: nth_append)
    qed simp
    show ?thesis
    proof (cases "B \<noteq> [] \<and> unat a + unat sz = nstart (hd B)")
      case r: True
      then obtain p B' where B: "B = p # B'" by (cases B) auto
      show ?thesis
        using k kl False r nl right rsz B Z
        by (intro exI [of _ "z # Z"])
           (auto simp: free_map_def joined_def Let_def nth_append list_update_append add.commute)
    next
      case r: False
      have nr: "a + sz \<noteq> m_AddressIdx (?m ! length A)" using r right by blast
      have dr: "drop (length A) ?m = B @ zero_node # z # Z" and tk: "take (length A) ?m = A"
        by simp_all
      have "free_map ?m sz a = map_option (\<lambda>s. take (length A) ?m @ s)
          (shift_up \<lparr>m_Size = sz, m_AddressIdx = a\<rparr> (drop (length A) ?m))"
        using k kl nl nr sz by (simp only: free_map_def Let_def if_False simp_thms not_False_eq_True if_True)
      then have f: "free_map ?m sz a = Some (A @ \<lparr>m_Size = sz, m_AddressIdx = a\<rparr> # B @ zero_node # Z)"
        using shift_up_live [OF nzB, of "\<lparr>m_Size = sz, m_AddressIdx = a\<rparr>" "z # Z"]
        unfolding dr tk zz by simp
      have j: "joined A B sz a = A @ \<lparr>m_Size = sz, m_AddressIdx = a\<rparr> # B"
        using False r by (auto simp: joined_def Let_def)
      show ?thesis using f j Z by (intro exI [of _ Z]) simp
    qed
  qed
qed

definition gave :: "nat \<Rightarrow> mapnode list \<Rightarrow> u32 \<Rightarrow> u32 \<Rightarrow> mapnode list \<Rightarrow> bool" where
  "gave hi m sz a m' \<longleftrightarrow>
     wf_map hi m' \<and> avail m' = avail m \<union> {unat a..<unat a + unat sz} \<and>
     length m' = length m \<and> length (live m') \<le> Suc (length (live m))"

definition can_give :: "nat \<Rightarrow> mapnode list \<Rightarrow> u32 \<Rightarrow> u32 \<Rightarrow> bool" where
  "can_give hi m sz a \<longleftrightarrow>
     sz \<noteq> 0 \<and> a \<noteq> 0 \<and> unat a + unat sz \<le> hi \<and> {unat a..<unat a + unat sz} \<inter> avail m = {} \<and>
     Suc (length (live m)) < length m"

lemma free_map_correct:
  assumes wf: "wf_map hi m" and give: "can_give hi m sz a"
  shows "\<exists>m'. free_map m sz a = Some m' \<and> gave hi m sz a m'"
proof -
  from wf obtain L Z0 where m: "m = L @ zero_node # Z0" and Z0: "set Z0 \<subseteq> {zero_node}"
    and ok: "regs_ok 0 hi L" and lv: "live m = L" and hi: "hi < 2 ^ 32"
    by (rule wf_mapE)
  from give have sz: "sz \<noteq> 0" and a: "a \<noteq> 0" and el: "unat a + unat sz \<le> hi"
    and disj: "{unat a..<unat a + unat sz} \<inter> free_of L = {}"
    and room: "Suc (length L) < length m"
    by (auto simp: can_give_def avail_def lv)
  from room m obtain z Z where z: "Z0 = z # Z" by (cases Z0) auto
  obtain A B where L: "L = A @ B" and k: "free_scan (L @ zero_node # Z0) a = length A"
    and A: "\<forall>n\<in>set A. nstart n \<le> unat a" and B: "B \<noteq> [] \<longrightarrow> unat a < nstart (hd B)"
    using free_scan_split [OF ok] by blast
  note ok' = ok [unfolded L]
  note g = gap_bounds [OF ok' sz a disj [unfolded L] A B]
  obtain Z' where f: "free_map m sz a = Some (joined A B sz a @ zero_node # Z')"
    and Z': "set Z' \<subseteq> {zero_node}" and len: "length (joined A B sz a @ zero_node # Z') = length m"
    using free_map_joined [OF ok' hi sz el, of z Z] k Z0 unfolding m L z by blast
  have j: "regs_ok 0 hi (joined A B sz a)"
    "free_of (joined A B sz a) = free_of L \<union> {unat a..<unat a + unat sz}"
    using joined_regs [OF ok' hi sz a el g(1,2)] L by auto
  have "length (joined A B sz a) \<le> Suc (length L)"
    using joined_length [of A B sz a] L by simp
  with f len j wf_mapI [OF j(1) hi Z'] lv show ?thesis
    by (simp add: gave_def avail_def)
qed

section \<open>The array is a canonical form of its free set\<close>

lemma free_of_least:
  assumes "regs_ok lo hi (n # ns)"
  shows "nstart n \<in> free_of (n # ns)" "x \<in> free_of (n # ns) \<Longrightarrow> nstart n \<le> x"
    "nend n \<notin> free_of (n # ns)" "y \<in> {nstart n..<nend n} \<Longrightarrow> y \<in> free_of (n # ns)"
proof -
  from assms have nz: "m_Size n \<noteq> 0" and ok: "regs_ok (nend n) hi ns" by auto
  show "nstart n \<in> free_of (n # ns)" using nstart_nend [OF nz] by simp
  show "nstart n \<le> x" if "x \<in> free_of (n # ns)"
    using that nstart_nend [OF nz] free_of_bounds [OF ok, of x] by auto
  show "nend n \<notin> free_of (n # ns)" using free_of_bounds [OF ok, of "nend n"] by auto
  show "y \<in> free_of (n # ns)" if "y \<in> {nstart n..<nend n}" using that by simp
qed

lemma mapnode_eq: "nstart n = nstart k \<Longrightarrow> nend n = nend k \<Longrightarrow> n = (k :: mapnode)"
  by (auto simp: nstart_def nend_def word_unat_eq_iff)

lemma regs_canonical:
  assumes "regs_ok lo hi L" "regs_ok lo' hi' K" "free_of L = free_of K"
  shows "L = K"
  using assms
proof (induction L arbitrary: lo lo' K)
  case Nil
  show ?case
  proof (cases K)
    case (Cons k ks)
    with Nil free_of_least(1) [of lo' hi' k ks] show ?thesis by simp
  qed simp
next
  case (Cons n ns)
  note okL = Cons.prems(1) and okK = Cons.prems(2) and eq = Cons.prems(3)
  from okK eq free_of_least(1) [OF okL] obtain k ks where K: "K = k # ks" by (cases K) auto
  note okK' = okK [unfolded K]
  note l = free_of_least [OF okL] and r = free_of_least [OF okK']
  have st: "nstart n = nstart k"
    using l(1,2) r(1,2) eq K by (metis order_antisym)
  have "\<not> nend n < nend k"
  proof
    assume "nend n < nend k"
    moreover have "nstart k \<le> nend n" using st nstart_nend [of n] okL by simp
    ultimately have "nend n \<in> free_of (k # ks)" using r(4) by simp
    with l(3) show False using eq unfolding K by blast
  qed
  moreover have "\<not> nend k < nend n"
  proof
    assume "nend k < nend n"
    moreover have "nstart n \<le> nend k" using st nstart_nend [of k] okK' by simp
    ultimately have "nend k \<in> free_of (n # ns)" using l(4) by simp
    with r(3) show False using eq unfolding K by blast
  qed
  ultimately have nk: "n = k" using st by (intro mapnode_eq) auto
  have out: "free_of xs = free_of (x # xs) - {nstart x..<nend x}"
    if "regs_ok b h (x # xs)" for b h x xs
    using that by (fastforce dest: free_of_bounds)
  have "free_of ns = free_of ks"
    using out [OF okL] out [OF okK'] eq K nk by simp
  with Cons.IH [of "nend n" "nend k" ks] okL okK' nk K show ?case by simp
qed

lemma wf_map_canonical:
  assumes "wf_map hi m" "wf_map hi' m'" "avail m = avail m'" "length m = length m'"
  shows "m = m'"
proof -
  from assms(1) obtain L Z where m: "m = L @ zero_node # Z" and Z: "set Z \<subseteq> {zero_node}"
    and ok: "regs_ok 0 hi L" and lv: "live m = L" by (rule wf_mapE)
  from assms(2) obtain K Y where m': "m' = K @ zero_node # Y" and Y: "set Y \<subseteq> {zero_node}"
    and ok': "regs_ok 0 hi' K" and lv': "live m' = K" by (rule wf_mapE)
  have "L = K" using regs_canonical [OF ok ok'] assms(3) lv lv' by (simp add: avail_def)
  moreover have "replicate (length Z) zero_node = Z" "replicate (length Y) zero_node = Y"
    using Z Y by (auto intro!: replicate_eqI [symmetric])
  ultimately show ?thesis using assms(4) m m' by (metis add_left_cancel length_append length_Cons nat.inject)
qed

end
