(* ===== verification/MemMgr.thy ===== *)
theory MemMgr
  imports MapAlloc
begin

text \<open>
  The managers that stand on the map allocator: \<open>mm/PageManager.cpp\<close> (kernel and user page
  pools), \<open>mm/SwapperManager.cpp\<close>, \<open>mm/KernelAllocator.cpp\<close> and the \<open>new\<close>/\<open>delete\<close> operators of
  \<open>mm/New.cpp\<close>.  The interface between an allocator and its clients is the locale \<open>region_pool\<close>;
  it is interpreted on the first-fit and on the next-fit allocator, and its client lemmas say that
  whatever sequence of requests is served, the outstanding regions never overlap, nothing leaks and
  a release never runs past the map array.
\<close>

section \<open>Model\<close>

text \<open>\<open>m_pAllocator\<close> is the single \<open>Allocator\<close>; a manager's own state is its map and \<open>beginNode\<close>.\<close>

record pool =
  pool_map :: "mapnode list"
  beginNode :: nat

definition MEMORY_MAP_ARRAY_SIZE :: nat where "MEMORY_MAP_ARRAY_SIZE = 0x200"
definition PAGE_SIZE :: u32 where "PAGE_SIZE = 0x1000"
definition SWAP_BLOCK_SIZE :: u32 where "SWAP_BLOCK_SIZE = 512"
definition KERNEL_PAGE_POOL_START_ADDR :: u32 where "KERNEL_PAGE_POOL_START_ADDR = 0x200000 + 0x2000 + 0x2000"
definition KERNEL_PAGE_POOL_SIZE :: u32 where "KERNEL_PAGE_POOL_SIZE = 0x200000 - 0x4000"
definition USER_PAGE_POOL_START_ADDR :: u32 where "USER_PAGE_POOL_START_ADDR = 0x400000"
definition SWAPPER_ZONE_START_BLOCK :: u32 where "SWAPPER_ZONE_START_BLOCK = 18000"
definition SWAPPER_ZONE_SIZE :: u32 where "SWAPPER_ZONE_SIZE = 2000"
definition KERNEL_HEAP_START_ADDR :: u32 where "KERNEL_HEAP_START_ADDR = 0x180000 + 0xC0000000"
definition KERNEL_HEAP_SIZE :: u32 where "KERNEL_HEAP_SIZE = 0x80000"

text \<open>\<open>Initialize\<close>: clear the map, then one free region. \<open>USER_PAGE_POOL_SIZE\<close> is set at boot.\<close>

definition cleared_pool :: pool where
  "cleared_pool = \<lparr>pool_map = replicate MEMORY_MAP_ARRAY_SIZE zero_node, beginNode = 0\<rparr>"

definition pool_region :: "u32 \<Rightarrow> u32 \<Rightarrow> pool" where
  "pool_region start sz =
     cleared_pool\<lparr>pool_map := (pool_map cleared_pool)[0 := \<lparr>m_Size = sz, m_AddressIdx = start\<rparr>]\<rparr>"

definition kernel_pages_init :: pool where
  "kernel_pages_init =
     pool_region (KERNEL_PAGE_POOL_START_ADDR div PAGE_SIZE) (KERNEL_PAGE_POOL_SIZE div PAGE_SIZE)"

definition user_pages_init :: "u32 \<Rightarrow> pool" where
  "user_pages_init USER_PAGE_POOL_SIZE =
     pool_region (USER_PAGE_POOL_START_ADDR div PAGE_SIZE) (USER_PAGE_POOL_SIZE div PAGE_SIZE)"

definition swapper_init :: pool where
  "swapper_init = pool_region SWAPPER_ZONE_START_BLOCK SWAPPER_ZONE_SIZE"

definition kernel_heap_init :: pool where
  "kernel_heap_init = pool_region KERNEL_HEAP_START_ADDR KERNEL_HEAP_SIZE"

text \<open>Calls of the allocator on a manager's own map, in the manager's units.\<close>

definition pool_alloc :: "pool \<Rightarrow> u32 \<Rightarrow> (u32 \<times> pool) option" where
  "pool_alloc p n =
     (case alloc_next (pool_map p) n (beginNode p) of
        None \<Rightarrow> None
      | Some (r, m, b) \<Rightarrow> Some (r, p\<lparr>pool_map := m, beginNode := b\<rparr>))"

definition pool_free :: "pool \<Rightarrow> u32 \<Rightarrow> u32 \<Rightarrow> pool option" where
  "pool_free p n a = map_option (\<lambda>m. p\<lparr>pool_map := m\<rparr>) (free_map (pool_map p) n a)"

definition pages_for :: "u32 \<Rightarrow> u32" where
  "pages_for sz = (sz + (PAGE_SIZE - 1)) div PAGE_SIZE"

definition blocks_for :: "u32 \<Rightarrow> u32" where
  "blocks_for sz = (sz + (SWAP_BLOCK_SIZE - 1)) div SWAP_BLOCK_SIZE"

definition AllocMemory :: "pool \<Rightarrow> u32 \<Rightarrow> (u32 \<times> pool) option" where
  "AllocMemory p sz = map_option (\<lambda>(r, p'). (r * PAGE_SIZE, p')) (pool_alloc p (pages_for sz))"

definition FreeMemory :: "pool \<Rightarrow> u32 \<Rightarrow> u32 \<Rightarrow> pool option" where
  "FreeMemory p sz startAddress = pool_free p (pages_for sz) (startAddress div PAGE_SIZE)"

definition AllocSwap :: "pool \<Rightarrow> u32 \<Rightarrow> (u32 \<times> pool) option" where
  "AllocSwap p sz = pool_alloc p (blocks_for sz)"

definition FreeSwap :: "pool \<Rightarrow> u32 \<Rightarrow> u32 \<Rightarrow> pool option" where
  "FreeSwap p sz startBlock = pool_free p (blocks_for sz) startBlock"

definition heap_AllocMemory :: "pool \<Rightarrow> u32 \<Rightarrow> (u32 \<times> pool) option" where
  "heap_AllocMemory p sz = pool_alloc p sz"

definition heap_FreeMemeory :: "pool \<Rightarrow> u32 \<Rightarrow> u32 \<Rightarrow> pool option" where
  "heap_FreeMemeory p sz a = pool_free p sz a"

text \<open>\<open>operator new\<close> and \<open>operator delete\<close>: the requested size is kept in the word below the block.
  The words of kernel memory are a map from addresses.\<close>

record kheap =
  kh_pool :: pool
  kh_word :: "u32 \<Rightarrow> u32"

definition operator_new :: "kheap \<Rightarrow> u32 \<Rightarrow> (u32 \<times> kheap) option" where
  "operator_new h sz =
     (case heap_AllocMemory (kh_pool h) (sz + 4) of
        None \<Rightarrow> None
      | Some (address, p) \<Rightarrow>
          if address \<noteq> 0
          then Some (address + 4, h\<lparr>kh_pool := p, kh_word := (kh_word h)(address := sz)\<rparr>)
          else Some (0, h\<lparr>kh_pool := p\<rparr>))"

definition operator_delete :: "kheap \<Rightarrow> u32 \<Rightarrow> kheap option" where
  "operator_delete h address =
     (if address \<noteq> 0
      then map_option (\<lambda>p. h\<lparr>kh_pool := p\<rparr>)
             (heap_FreeMemeory (kh_pool h) (kh_word h (address - 4) + 4) (address - 4))
      else Some h)"

section \<open>The interface of a region pool\<close>

text \<open>The units of a region, and what a client may hold.\<close>

definition region :: "u32 \<Rightarrow> u32 \<Rightarrow> nat set" where
  "region a n = {unat a..<unat a + unat n}"

definition held_units :: "(u32 \<times> u32) list \<Rightarrow> nat set" where
  "held_units hs = (\<Union>(a, n)\<in>set hs. region a n)"

fun held_disjoint :: "(u32 \<times> u32) list \<Rightarrow> bool" where
  "held_disjoint [] = True"
| "held_disjoint ((a, n) # hs) = (region a n \<inter> held_units hs = {} \<and> held_disjoint hs)"

text \<open>
  The states a client reaches by requesting and releasing regions, with at most \<open>cap\<close> regions
  outstanding: the pool and the list of the regions the client holds.
\<close>

inductive pool_reach ::
  "('p \<Rightarrow> u32 \<Rightarrow> (u32 \<times> 'p) option) \<Rightarrow> ('p \<Rightarrow> u32 \<Rightarrow> u32 \<Rightarrow> 'p option) \<Rightarrow> nat \<Rightarrow> 'p \<Rightarrow>
   'p \<Rightarrow> (u32 \<times> u32) list \<Rightarrow> bool"
  for al :: "'p \<Rightarrow> u32 \<Rightarrow> (u32 \<times> 'p) option" and fr cap p0 where
  start: "pool_reach al fr cap p0 p0 []"
| got: "pool_reach al fr cap p0 p hs \<Longrightarrow> length hs < cap \<Longrightarrow> n \<noteq> 0 \<Longrightarrow> al p n = Some (r, p') \<Longrightarrow>
    r \<noteq> 0 \<Longrightarrow> pool_reach al fr cap p0 p' ((r, n) # hs)"
| refused: "pool_reach al fr cap p0 p hs \<Longrightarrow> n \<noteq> 0 \<Longrightarrow> al p n = Some (0, p') \<Longrightarrow>
    pool_reach al fr cap p0 p' hs"
| put: "pool_reach al fr cap p0 p (hs1 @ (r, n) # hs2) \<Longrightarrow> fr p n r = Some p' \<Longrightarrow>
    pool_reach al fr cap p0 p' (hs1 @ hs2)"

lemma held_units_simps [simp]:
  "held_units [] = {}"
  "held_units ((a, n) # hs) = region a n \<union> held_units hs"
  "held_units (xs @ ys) = held_units xs \<union> held_units ys"
  by (auto simp: held_units_def)

lemma held_disjoint_append:
  "held_disjoint (xs @ ys) \<longleftrightarrow>
     held_disjoint xs \<and> held_disjoint ys \<and> held_units xs \<inter> held_units ys = {}"
  by (induction xs rule: held_disjoint.induct) auto

lemma held_disjoint_middle:
  "held_disjoint (hs1 @ (r, n) # hs2) \<longleftrightarrow>
     held_disjoint (hs1 @ hs2) \<and> region r n \<inter> held_units (hs1 @ hs2) = {}"
  by (auto simp: held_disjoint_append)

lemma held_units_start:
  assumes "Suc x \<in> held_units hs" "x \<notin> held_units hs"
  shows "Suc x \<in> (\<lambda>(a, n). unat a) ` set hs"
proof -
  from assms(1) obtain a n where an: "(a, n) \<in> set hs" and sx: "Suc x \<in> region a n"
    by (auto simp: held_units_def)
  from assms(2) an have "x \<notin> region a n" by (auto simp: held_units_def)
  with sx have "Suc x = unat a" by (auto simp: region_def)
  with an show ?thesis by force
qed

locale region_pool =
  fixes alloc :: "'p \<Rightarrow> u32 \<Rightarrow> (u32 \<times> 'p) option"
    and release :: "'p \<Rightarrow> u32 \<Rightarrow> u32 \<Rightarrow> 'p option"
    and units :: "'p \<Rightarrow> nat set"
    and inv :: "'p \<Rightarrow> bool"
    and spare :: "'p \<Rightarrow> bool"
    and cap :: nat
    and hi :: nat
  assumes alloc_law: "inv p \<Longrightarrow> n \<noteq> 0 \<Longrightarrow>
      \<exists>r p'. alloc p n = Some (r, p') \<and> inv p' \<and>
        (r = 0 \<and> p' = p \<or> r \<noteq> 0 \<and> region r n \<subseteq> units p \<and> units p' = units p - region r n)"
    and release_law: "inv p \<Longrightarrow> n \<noteq> 0 \<Longrightarrow> a \<noteq> 0 \<Longrightarrow> unat a + unat n \<le> hi \<Longrightarrow>
      region a n \<inter> units p = {} \<Longrightarrow> spare p \<Longrightarrow>
      \<exists>p'. release p n a = Some p' \<and> inv p' \<and> units p' = units p \<union> region a n"
    and bounded: "inv p \<Longrightarrow> x \<in> units p \<Longrightarrow> 0 < x \<and> x < hi"
    and spare_law: "inv p \<Longrightarrow> finite E \<Longrightarrow> card E \<le> Suc cap \<Longrightarrow>
      (\<And>x. x \<in> units p \<Longrightarrow> Suc x \<notin> units p \<Longrightarrow> Suc x \<in> E) \<Longrightarrow> spare p"
begin

lemma alloc_total: "inv p \<Longrightarrow> n \<noteq> 0 \<Longrightarrow> alloc p n \<noteq> None"
  using alloc_law by fastforce

lemma alloc_cases:
  assumes "inv p" "n \<noteq> 0" "alloc p n = Some (r, p')"
  shows "inv p'" "r = 0 \<Longrightarrow> p' = p" "r \<noteq> 0 \<Longrightarrow> region r n \<subseteq> units p"
    "r \<noteq> 0 \<Longrightarrow> units p' = units p - region r n"
  using alloc_law [OF assms(1,2)] assms(3) by auto

lemma region_bounds:
  assumes "inv p" "n \<noteq> 0" "region r n \<subseteq> units p"
  shows "unat r + unat n \<le> hi"
proof -
  have "unat r + unat n - 1 \<in> region r n"
    using unat_pos [OF assms(2)] by (auto simp: region_def)
  then have "unat r + unat n - 1 < hi" using bounded [OF assms(1)] assms(3) by blast
  then show ?thesis by simp
qed

text \<open>Two requests in a row never hand out a common unit.\<close>

lemma alloc_alloc_disjoint:
  assumes "inv p" "n \<noteq> 0" "k \<noteq> 0" "alloc p n = Some (r, p')" "r \<noteq> 0"
    "alloc p' k = Some (s, p'')" "s \<noteq> 0"
  shows "region r n \<inter> region s k = {}"
  using alloc_cases [OF assms(1,2,4)] assms(5,7) alloc_cases [OF _ assms(3,6)] by blast

text \<open>A request and its release leave the free set as it was.\<close>

lemma alloc_release_units:
  assumes "inv p" "n \<noteq> 0" "alloc p n = Some (r, p')" "r \<noteq> 0" "spare p'"
  shows "\<exists>p''. release p' n r = Some p'' \<and> inv p'' \<and> units p'' = units p"
proof -
  note c = alloc_cases [OF assms(1-3)]
  have sub: "region r n \<subseteq> units p" using c(3) assms(4) .
  have "region r n \<inter> units p' = {}" using c(4) assms(4) by blast
  moreover have "unat r + unat n \<le> hi" using region_bounds [OF assms(1,2) sub] .
  ultimately obtain p'' where "release p' n r = Some p''" "inv p''" "units p'' = units p' \<union> region r n"
    using release_law [OF c(1) assms(2,4)] assms(5) by blast
  with c(4) [OF assms(4)] sub show ?thesis by blast
qed

text \<open>What holds in every reachable state, and that a release there succeeds.\<close>

definition pool_inv :: "'p \<Rightarrow> 'p \<Rightarrow> (u32 \<times> u32) list \<Rightarrow> bool" where
  "pool_inv p0 p hs \<longleftrightarrow> inv p \<and> held_disjoint hs \<and> units p \<inter> held_units hs = {} \<and>
     units p \<union> held_units hs = units p0 \<and> length hs \<le> cap \<and>
     (\<forall>(a, n)\<in>set hs. a \<noteq> 0 \<and> n \<noteq> 0 \<and> unat a + unat n \<le> hi)"

lemma pool_inv_start: "inv p0 \<Longrightarrow> pool_inv p0 p0 []"
  by (simp add: pool_inv_def)

lemma pool_inv_spare:
  assumes "pool_inv p0 p hs" "units p0 = {lo..<tp}"
  shows "spare p"
proof (rule spare_law)
  let ?E = "insert tp ((\<lambda>(a, n). unat a) ` set hs)"
  from assms(1) show "inv p" by (simp add: pool_inv_def)
  show "finite ?E" by simp
  have "card ((\<lambda>(a :: u32, n :: u32). unat a) ` set hs) \<le> length hs"
    using card_image_le [of "set hs"] card_length [of hs] by (meson finite_set le_trans)
  moreover have "length hs \<le> cap" using assms(1) by (simp add: pool_inv_def)
  ultimately show "card ?E \<le> Suc cap"
    using card_insert_le_m1 [of "Suc cap" "(\<lambda>(a :: u32, n :: u32). unat a) ` set hs" tp] by simp
  fix x
  assume x: "x \<in> units p" and nx: "Suc x \<notin> units p"
  have all: "units p \<union> held_units hs = {lo..<tp}" and dis: "units p \<inter> held_units hs = {}"
    using assms by (auto simp: pool_inv_def)
  have xl: "lo \<le> x" "x < tp" using all x by auto
  show "Suc x \<in> ?E"
  proof (cases "Suc x = tp")
    case False
    then have "Suc x \<in> {lo..<tp}" using xl by simp
    then have "Suc x \<in> held_units hs" using all nx by blast
    moreover have "x \<notin> held_units hs" using dis x by blast
    ultimately show ?thesis using held_units_start by blast
  qed simp
qed

lemma pool_inv_alloc:
  assumes I: "pool_inv p0 p hs" and cap: "length hs < cap" and n: "n \<noteq> 0"
    and al: "alloc p n = Some (r, p')" and r: "r \<noteq> 0"
  shows "pool_inv p0 p' ((r, n) # hs)"
proof -
  from I have p: "inv p" by (simp add: pool_inv_def)
  note c = alloc_cases [OF p n al]
  have sub: "region r n \<subseteq> units p" using c(3) [OF r] .
  have "unat r + unat n \<le> hi" using region_bounds [OF p n sub] .
  with I c(1) c(4) [OF r] sub cap n r show ?thesis
    unfolding pool_inv_def by auto
qed

lemma pool_inv_refused:
  assumes I: "pool_inv p0 p hs" and "n \<noteq> 0" "alloc p n = Some (0, p')"
  shows "pool_inv p0 p' hs"
  using alloc_cases [of p n 0 p'] assms by (auto simp: pool_inv_def)

lemma pool_inv_release:
  assumes I: "pool_inv p0 p (hs1 @ (r, n) # hs2)" and i0: "units p0 = {lo..<tp}"
  shows "\<exists>p'. release p n r = Some p' \<and> pool_inv p0 p' (hs1 @ hs2)"
proof -
  from I have p: "inv p" and n: "n \<noteq> 0" and r: "r \<noteq> 0" and b: "unat r + unat n \<le> hi"
    and d: "region r n \<inter> units p = {}"
    by (auto simp: pool_inv_def)
  obtain p' where p': "release p n r = Some p'" "inv p'" "units p' = units p \<union> region r n"
    using release_law [OF p n r b d pool_inv_spare [OF I i0]] by blast
  from I have "held_disjoint (hs1 @ hs2) \<and> region r n \<inter> held_units (hs1 @ hs2) = {}"
    by (simp only: pool_inv_def held_disjoint_middle)
  with I p' show ?thesis unfolding pool_inv_def by auto
qed

lemma reach_inv:
  assumes "pool_reach alloc release cap p0 p hs" "inv p0" "units p0 = {lo..<tp}"
  shows "pool_inv p0 p hs"
  using assms(1)
proof (induction rule: pool_reach.induct)
  case start
  then show ?case using pool_inv_start [OF assms(2)] .
next
  case (got p hs n r p')
  then show ?case using pool_inv_alloc by blast
next
  case (refused p hs n p')
  then show ?case using pool_inv_refused by blast
next
  case (put p hs1 r n hs2 p')
  then show ?case using pool_inv_release [OF put.IH assms(3)] by auto
qed

lemma reach_safe:
  assumes "pool_reach alloc release cap p0 p hs" "inv p0" "units p0 = {lo..<tp}"
  shows "held_disjoint hs" "units p \<inter> held_units hs = {}"
    "units p \<union> held_units hs = units p0" "n \<noteq> 0 \<Longrightarrow> alloc p n \<noteq> None"
    "(r, n) \<in> set hs \<Longrightarrow> release p n r \<noteq> None"
proof -
  note I = reach_inv [OF assms]
  then show "held_disjoint hs" "units p \<inter> held_units hs = {}"
    "units p \<union> held_units hs = units p0" by (simp_all add: pool_inv_def)
  show "alloc p n \<noteq> None" if "n \<noteq> 0" using that I alloc_total by (simp add: pool_inv_def)
  show "release p n r \<noteq> None" if "(r, n) \<in> set hs"
  proof -
    from that obtain hs1 hs2 where hs: "hs = hs1 @ (r, n) # hs2" by (auto dest: split_list)
    from pool_inv_release [OF I [unfolded hs] assms(3)] show ?thesis by auto
  qed
qed

end

section \<open>The pools of the kernel\<close>

definition map_ok :: "nat \<Rightarrow> mapnode list \<Rightarrow> bool" where
  "map_ok hi m \<longleftrightarrow> wf_map hi m \<and> length m = MEMORY_MAP_ARRAY_SIZE"

definition map_spare :: "mapnode list \<Rightarrow> bool" where
  "map_spare m \<longleftrightarrow> Suc (length (live m)) < length m"

definition pool_ok :: "nat \<Rightarrow> pool \<Rightarrow> bool" where
  "pool_ok hi p \<longleftrightarrow> map_ok hi (pool_map p) \<and> beginNode p < length (pool_map p)"

definition pool_units :: "pool \<Rightarrow> nat set" where
  "pool_units p = avail (pool_map p)"

definition pool_spare :: "pool \<Rightarrow> bool" where
  "pool_spare p = map_spare (pool_map p)"

text \<open>Between two live nodes there is a gap, so the nodes are at most the ends of the free runs.\<close>

lemma nend_distinct: "regs_ok lo hi L \<Longrightarrow> distinct (map nend L) \<and> (\<forall>n\<in>set L. lo < nend n)"
proof (induction L arbitrary: lo)
  case Nil
  then show ?case by simp
next
  case (Cons n L)
  then have nz: "m_Size n \<noteq> 0" and lo: "lo < nstart n" and ok: "regs_ok (nend n) hi L" by auto
  from Cons.IH [OF ok] have d: "distinct (map nend L)" and b: "\<forall>k\<in>set L. nend n < nend k" by auto
  then have "nend n \<notin> nend ` set L" by auto
  with d b lo nstart_nend [OF nz] show ?case by auto
qed

lemma nend_is_run_end:
  assumes "regs_ok lo hi L" "n \<in> set L"
  shows "nend n - 1 \<in> free_of L \<and> nend n \<notin> free_of L \<and> 0 < nend n"
proof -
  from assms(2) obtain A B where L: "L = A @ n # B" by (auto dest: split_list)
  with assms(1) have okA: "regs_ok lo hi A" and la: "last_end lo A < nstart n"
    and nz: "m_Size n \<noteq> 0" and okB: "regs_ok (nend n) hi B"
    by (auto simp: regs_ok_append)
  note se = nstart_nend [OF nz]
  have "nend n \<notin> free_of A" using free_of_bounds [OF okA, of "nend n"] la se by auto
  moreover have "nend n \<notin> free_of B" using free_of_bounds [OF okB, of "nend n"] by auto
  ultimately show ?thesis using L se by auto
qed

lemma live_le_ends:
  assumes ok: "regs_ok 0 hi L" and fin: "finite E"
    and E: "\<And>x. x \<in> free_of L \<Longrightarrow> Suc x \<notin> free_of L \<Longrightarrow> Suc x \<in> E"
  shows "length L \<le> card E"
proof -
  have "nend n \<in> E" if "n \<in> set L" for n
    using nend_is_run_end [OF ok that] E [of "nend n - 1"] by auto
  then have "card (set (map nend L)) \<le> card E" using fin by (intro card_mono) auto
  moreover have "card (set (map nend L)) = length L"
    using nend_distinct [OF ok] distinct_card by fastforce
  ultimately show ?thesis by simp
qed

lemma map_spareI:
  assumes "map_ok hi m" "finite E" "card E \<le> 510"
    "\<And>x. x \<in> avail m \<Longrightarrow> Suc x \<notin> avail m \<Longrightarrow> Suc x \<in> E"
  shows "map_spare m"
proof -
  from assms(1) have "regs_ok 0 hi (live m)" by (simp add: map_ok_def wf_map_def)
  from live_le_ends [OF this assms(2)] assms(4) have "length (live m) \<le> card E"
    by (simp add: avail_def)
  with assms(1,3) show ?thesis by (simp add: map_spare_def map_ok_def MEMORY_MAP_ARRAY_SIZE_def)
qed

lemma map_bounded: "map_ok hi m \<Longrightarrow> x \<in> avail m \<Longrightarrow> 0 < x \<and> x < hi"
proof -
  assume "map_ok hi m" and x: "x \<in> avail m"
  then have ok: "regs_ok 0 hi (live m)" by (simp add: map_ok_def wf_map_def)
  from x have "x \<in> free_of (live m)" by (simp add: avail_def)
  with free_of_bounds [OF ok] regs_ok_last_end [OF ok] show ?thesis by (cases "live m") fastforce+
qed

lemma map_release:
  assumes "map_ok hi m" "n \<noteq> 0" "a \<noteq> 0" "unat a + unat n \<le> hi" "region a n \<inter> avail m = {}"
    "map_spare m"
  shows "\<exists>m'. free_map m n a = Some m' \<and> map_ok hi m' \<and> avail m' = avail m \<union> region a n"
proof -
  have "can_give hi m n a" using assms by (simp add: can_give_def map_spare_def region_def)
  from free_map_correct [OF _ this] assms(1) show ?thesis
    by (auto simp: map_ok_def gave_def region_def)
qed

interpretation ff: region_pool alloc_first free_map avail "map_ok hi" map_spare 509 hi
proof unfold_locales
  fix p n
  assume "map_ok hi p" and "n \<noteq> (0 :: u32)"
  then show "\<exists>r p'. alloc_first p n = Some (r, p') \<and> map_ok hi p' \<and>
      (r = 0 \<and> p' = p \<or> r \<noteq> 0 \<and> region r n \<subseteq> avail p \<and> avail p' = avail p - region r n)"
    using alloc_first_correct [of hi p n] by (auto simp: map_ok_def took_def region_def)
qed (use map_release map_bounded map_spareI in auto)

interpretation nf: region_pool pool_alloc pool_free pool_units "pool_ok hi" pool_spare 509 hi
proof unfold_locales
  fix p n
  assume "pool_ok hi p" and "n \<noteq> (0 :: u32)"
  then show "\<exists>r p'. pool_alloc p n = Some (r, p') \<and> pool_ok hi p' \<and>
      (r = 0 \<and> p' = p \<or> r \<noteq> 0 \<and> region r n \<subseteq> pool_units p \<and>
       pool_units p' = pool_units p - region r n)"
    using alloc_next_correct [of hi "pool_map p" n "beginNode p"]
    by (auto simp: pool_ok_def map_ok_def took_def region_def pool_alloc_def pool_units_def)
next
  fix p n a
  assume "pool_ok hi p" "n \<noteq> (0 :: u32)" "a \<noteq> 0" "unat a + unat n \<le> hi"
    "region a n \<inter> pool_units p = {}" "pool_spare p"
  then show "\<exists>p'. pool_free p n a = Some p' \<and> pool_ok hi p' \<and>
      pool_units p' = pool_units p \<union> region a n"
    using map_release [of hi "pool_map p" n a]
    by (auto simp: pool_ok_def pool_units_def pool_spare_def pool_free_def map_ok_def)
qed (use map_bounded map_spareI in \<open>auto simp: pool_ok_def pool_units_def pool_spare_def\<close>)

section \<open>Exactness and restoration\<close>

lemma took_fits:
  assumes "wf_map hi m" "took hi m sz r m'" "sz \<noteq> 0"
  shows "\<not> no_fit m sz"
proof -
  from assms(1) have ok: "regs_ok 0 hi (live m)" by (simp add: wf_map_def)
  from assms(2) have sub: "{unat r..<unat r + unat sz} \<subseteq> free_of (live m)"
    by (simp add: took_def avail_def)
  with unat_pos [OF assms(3)] have "unat r \<in> free_of (live m)" by auto
  then obtain n where n: "n \<in> set (live m)" "nstart n \<le> unat r" "unat r < nend n"
    by (auto simp: free_of_def)
  have "nend n \<notin> free_of (live m)" using nend_is_run_end [OF ok n(1)] by simp
  with sub n(3) have "unat r + unat sz \<le> nend n"
    by (metis atLeastLessThan_iff less_imp_le not_less subsetD)
  with n(2) have "unat sz \<le> unat (m_Size n)" by (simp add: nstart_def nend_def)
  then have "sz \<le> m_Size n" by (simp add: word_le_nat_alt)
  with n(1) show ?thesis by (auto simp: no_fit_def not_less)
qed

lemma pool_alloc_free_map:
  assumes ok: "pool_ok hi p" and n: "n \<noteq> 0" and sp: "pool_spare p"
    and al: "pool_alloc p n = Some (r, p')" and r: "r \<noteq> 0"
  shows "\<exists>q. pool_free p' n r = Some q \<and> pool_ok hi q \<and> pool_map q = pool_map p"
proof -
  from ok have wf: "wf_map hi (pool_map p)" and b: "beginNode p < length (pool_map p)"
    and len: "length (pool_map p) = MEMORY_MAP_ARRAY_SIZE"
    by (simp_all add: pool_ok_def map_ok_def)
  from al r alloc_next_correct [OF wf n b]
  have t: "took hi (pool_map p) n r (pool_map p')"
    by (auto simp: pool_alloc_def split: option.splits)
  then have "pool_spare p'" using sp by (auto simp: took_def pool_spare_def map_spare_def)
  from nf.alloc_release_units [OF ok n al r this] obtain q
    where q: "pool_free p' n r = Some q" "pool_ok hi q" "pool_units q = pool_units p" by blast
  have "pool_map q = pool_map p"
    using q ok by (intro wf_map_canonical [of hi _ hi]) (auto simp: pool_ok_def map_ok_def pool_units_def)
  with q show ?thesis by blast
qed

lemma pool_region_map:
  "pool_map (pool_region start sz) =
     \<lparr>m_Size = sz, m_AddressIdx = start\<rparr> # zero_node # replicate 510 zero_node"
  "beginNode (pool_region start sz) = 0"
proof -
  have "replicate 512 zero_node = zero_node # zero_node # replicate 510 zero_node"
    using replicate_Suc [of 511 zero_node] replicate_Suc [of 510 zero_node] by simp
  then show "pool_map (pool_region start sz) =
     \<lparr>m_Size = sz, m_AddressIdx = start\<rparr> # zero_node # replicate 510 zero_node"
    "beginNode (pool_region start sz) = 0"
    by (simp_all add: pool_region_def cleared_pool_def MEMORY_MAP_ARRAY_SIZE_def)
qed

lemma pool_region_spare: "pool_spare (pool_region start sz)"
  by (simp add: pool_spare_def map_spare_def pool_region_map live_def zero_node_def)

lemma pool_region_ok:
  assumes "start \<noteq> 0" "sz \<noteq> 0" "unat start + unat sz \<le> hi" "hi < 2 ^ 32"
  shows "pool_ok hi (pool_region start sz)"
    "pool_units (pool_region start sz) = {unat start..<unat start + unat sz}"
proof -
  define z where "z = zero_node # replicate 510 zero_node"
  have m: "pool_map (pool_region start sz) = \<lparr>m_Size = sz, m_AddressIdx = start\<rparr> # z"
    by (simp add: pool_region_map z_def)
  have b: "beginNode (pool_region start sz) = 0" by (simp add: pool_region_map)
  have z: "z = zero_node # replicate 510 zero_node" "length z = 511"
    by (simp_all add: z_def)
  have zs: "set (replicate 510 zero_node) \<subseteq> {zero_node}" by auto
  show "pool_ok hi (pool_region start sz)"
    "pool_units (pool_region start sz) = {unat start..<unat start + unat sz}"
  proof -
    have "wf_map hi (\<lparr>m_Size = sz, m_AddressIdx = start\<rparr> # z) \<and>
        avail (\<lparr>m_Size = sz, m_AddressIdx = start\<rparr> # z) = {unat start..<unat start + unat sz}"
    proof -
      have "regs_ok 0 hi [\<lparr>m_Size = sz, m_AddressIdx = start\<rparr>]"
        using assms by (simp add: nstart_def nend_def unat_gt_0)
      from wf_mapI [OF this assms(4) zs] z show ?thesis by (simp add: nstart_def nend_def)
    qed
    with m b z show "pool_ok hi (pool_region start sz)"
      "pool_units (pool_region start sz) = {unat start..<unat start + unat sz}"
      by (simp_all add: pool_ok_def map_ok_def pool_units_def MEMORY_MAP_ARRAY_SIZE_def)
  qed
qed


lemma kernel_pools_ok:
  "pool_ok 0x100000 kernel_pages_init" "pool_units kernel_pages_init = {0x204..<0x400}"
  "pool_ok 20000 swapper_init" "pool_units swapper_init = {18000..<20000}"
  "pool_ok 0xC0200000 kernel_heap_init" "pool_units kernel_heap_init = {0xC0180000..<0xC0200000}"
  using pool_region_ok [of "0x204" "0x1FC" "0x100000"] pool_region_ok [of 18000 2000 20000]
    pool_region_ok [of "0xC0180000" "0x80000" "0xC0200000"]
  by (simp_all add: kernel_pages_init_def swapper_init_def kernel_heap_init_def
      KERNEL_PAGE_POOL_START_ADDR_def KERNEL_PAGE_POOL_SIZE_def PAGE_SIZE_def unat_div
      SWAPPER_ZONE_START_BLOCK_def SWAPPER_ZONE_SIZE_def KERNEL_HEAP_START_ADDR_def
      KERNEL_HEAP_SIZE_def)

section \<open>Units in bytes\<close>

lemma unat_pages_for:
  assumes "unat sz \<le> 2 ^ 32 - 0x1000"
  shows "unat (pages_for sz) = (unat sz + 0xFFF) div 0x1000"
proof -
  have "unat (sz + 0xFFF) = unat sz + 0xFFF" using assms by (subst unat_add_nowrap) simp_all
  then show ?thesis by (simp add: pages_for_def PAGE_SIZE_def unat_div)
qed

lemma page_address:
  fixes r :: u32
  assumes "unat r < 0x100000"
  shows "unat (r * PAGE_SIZE) = unat r * 0x1000" "r * PAGE_SIZE div PAGE_SIZE = r"
    "r * PAGE_SIZE = 0 \<longleftrightarrow> r = 0"
proof -
  show u: "unat (r * PAGE_SIZE) = unat r * 0x1000"
    using assms by (simp add: PAGE_SIZE_def unat_word_ariths)
  then show "r * PAGE_SIZE div PAGE_SIZE = r"
    by (simp add: word_eq_unat unat_div) (simp add: PAGE_SIZE_def)
  from u show "r * PAGE_SIZE = 0 \<longleftrightarrow> r = 0"
    by (metis mult_eq_0_iff unat_eq_zero zero_neq_numeral)
qed

section \<open>Properties\<close>

text \<open>
  C11. \<open>Alloc(map, size, beginNode)\<close>, the next-fit allocator, is exact: on a sorted, coalesced map
  it succeeds precisely when some free region is large enough; then it hands out units that were
  free, takes exactly those out of the free set, keeps the map sorted and coalesced and leaves
  \<open>beginNode\<close> inside the array; otherwise it returns 0 and changes nothing.
\<close>

theorem next_fit_exact:
  assumes "wf_map hi m" and "sz \<noteq> 0" and "b < length m"
  shows "\<exists>r m' b'. alloc_next m sz b = Some (r, m', b') \<and> wf_map hi m' \<and>
     b' < length m' \<and> length m' = length m \<and>
     (if \<exists>n\<in>set (live m). sz \<le> m_Size n
      then r \<noteq> 0 \<and> region r sz \<subseteq> avail m \<and> avail m' = avail m - region r sz
      else r = 0 \<and> m' = m \<and> b' = b)"
  using alloc_next_correct [OF assms] took_fits [OF assms(1) _ assms(2)] assms(1,3)
  by (fastforce simp: took_def no_fit_def region_def not_less)

theorem next_fit_exact_witness:
  "\<exists>r m' b'. alloc_next [\<lparr>m_Size = 2, m_AddressIdx = 4\<rparr>, \<lparr>m_Size = 3, m_AddressIdx = 9\<rparr>, zero_node] 3 0
      = Some (r, m', b') \<and> r \<noteq> 0 \<and>
      avail m' = avail [\<lparr>m_Size = 2, m_AddressIdx = 4\<rparr>, \<lparr>m_Size = 3, m_AddressIdx = 9\<rparr>, zero_node]
        - region r 3"
proof -
  have "wf_map 20 [\<lparr>m_Size = 2, m_AddressIdx = 4\<rparr>, \<lparr>m_Size = 3, m_AddressIdx = 9\<rparr>, zero_node]"
    by (simp add: wf_map_def live_def zero_node_def nstart_def nend_def)
  from next_fit_exact [OF this, of 3 0] show ?thesis
    by (simp add: live_def) blast
qed

text \<open>
  \<open>Free\<close> undoes \<open>Alloc\<close> node by node: when a manager hands out a region and takes it back, the
  map array is the array it had before, whatever the neighbours of the region were (the freed
  region is merged with both neighbours exactly when it touches them).
\<close>

theorem free_undoes_alloc:
  assumes "pool_ok hi p" and "n \<noteq> 0" and "pool_spare p"
    and "pool_alloc p n = Some (r, p')" and "r \<noteq> 0"
  shows "\<exists>q. pool_free p' n r = Some q \<and> pool_map q = pool_map p \<and> pool_ok hi q"
  using pool_alloc_free_map [OF assms] by blast

theorem free_undoes_alloc_witness:
  "\<exists>r p' q. pool_alloc swapper_init 7 = Some (r, p') \<and> r \<noteq> 0 \<and> pool_free p' 7 r = Some q \<and>
     pool_map q = pool_map swapper_init"
proof -
  have sp: "pool_spare swapper_init" by (simp add: swapper_init_def pool_region_spare)
  have "pool_alloc swapper_init 7 = Some (18000, swapper_init
      \<lparr>pool_map := (pool_map swapper_init)[0 := \<lparr>m_Size = 1993, m_AddressIdx = 18007\<rparr>], beginNode := 1\<rparr>)"
    by (simp add: pool_alloc_def alloc_next_def nf_carve_def swapper_init_def pool_region_map
        SWAPPER_ZONE_SIZE_def SWAPPER_ZONE_START_BLOCK_def)
  from free_undoes_alloc [OF kernel_pools_ok(3) _ sp this] this show ?thesis by auto
qed

text \<open>
  C5. The kernel heap, the kernel page pool and the swap area are safe whatever the order of
  requests and releases: in every state reached from \<open>Initialize\<close> with at most 509 regions
  outstanding, no two outstanding regions share a unit, none shares a unit with the free set, no
  unit of the pool is lost, every further request is answered, and every outstanding region can be
  released (the insertion into the 512-entry map never runs past its end).
\<close>

theorem pools_never_overlap:
  assumes "p0 = kernel_heap_init \<or> p0 = kernel_pages_init \<or> p0 = swapper_init"
    and "pool_reach pool_alloc pool_free 509 p0 p hs"
  shows "held_disjoint hs \<and> pool_units p \<inter> held_units hs = {} \<and>
    pool_units p \<union> held_units hs = pool_units p0 \<and>
    (\<forall>n. n \<noteq> 0 \<longrightarrow> pool_alloc p n \<noteq> None) \<and> (\<forall>(r, n)\<in>set hs. pool_free p n r \<noteq> None)"
proof -
  obtain hi lo tp where "pool_ok hi p0" "pool_units p0 = {lo..<tp}"
    using assms(1) kernel_pools_ok by metis
  from nf.reach_safe [OF assms(2) this] show ?thesis by blast
qed

theorem pools_never_overlap_witness:
  "\<exists>p hs. pool_reach pool_alloc pool_free 509 swapper_init p hs \<and> length hs = 1 \<and>
     pool_units p \<union> held_units hs = pool_units swapper_init"
proof -
  let ?p = "swapper_init\<lparr>pool_map :=
      (pool_map swapper_init)[0 := \<lparr>m_Size = 1990, m_AddressIdx = 18010\<rparr>], beginNode := 1\<rparr>"
  have "pool_alloc swapper_init 10 = Some (18000, ?p)"
    by (simp add: pool_alloc_def alloc_next_def nf_carve_def swapper_init_def pool_region_map
        SWAPPER_ZONE_SIZE_def SWAPPER_ZONE_START_BLOCK_def)
  then have r: "pool_reach pool_alloc pool_free 509 swapper_init ?p [(18000, 10)]"
    by (intro pool_reach.got [OF pool_reach.start]) simp_all
  from pools_never_overlap [OF _ this] r show ?thesis by fastforce
qed

text \<open>
  \<open>PageManager::AllocMemory\<close> hands out whole pages: a non-zero result is a page-aligned
  physical address, every byte of the requested range lies in a page that was free and is no longer,
  the pages taken are the request rounded up, and \<open>FreeMemory\<close> with the same size and address
  restores the map. For a request that rounding does not wrap.
\<close>

theorem AllocMemory_whole_pages:
  assumes ok: "pool_ok 0x100000 p" and sz: "sz \<noteq> 0" "unat sz \<le> 2 ^ 32 - 0x1000"
    and sp: "pool_spare p" and al: "AllocMemory p sz = Some (addr, p')" and a: "addr \<noteq> 0"
  shows "unat addr mod 0x1000 = 0 \<and>
    (\<forall>i<unat sz. (unat addr + i) div 0x1000 \<in> pool_units p - pool_units p') \<and>
    card (pool_units p - pool_units p') = (unat sz + 0xFFF) div 0x1000 \<and>
    (\<exists>q. FreeMemory p' sz addr = Some q \<and> pool_map q = pool_map p)"
proof -
  obtain r where r: "pool_alloc p (pages_for sz) = Some (r, p')" and addr: "addr = r * PAGE_SIZE"
    using al by (auto simp: AllocMemory_def)
  note np = unat_pages_for [OF sz(2)]
  have n0: "pages_for sz \<noteq> 0"
    using np unat_pos [OF sz(1)] by (auto simp: word_eq_unat)
  have r0: "r \<noteq> 0" using a addr by auto
  note c = nf.alloc_cases [OF ok n0 r]
  have sub: "region r (pages_for sz) \<subseteq> pool_units p" using c(3) [OF r0] .
  have diff: "pool_units p - pool_units p' = region r (pages_for sz)" using c(4) [OF r0] sub by blast
  have "unat r + unat (pages_for sz) \<le> 0x100000" using nf.region_bounds [OF ok n0 sub] .
  then have rb: "unat r < 0x100000" using unat_pos [OF n0] by simp
  note pa = page_address [OF rb]
  obtain q where "pool_free p' (pages_for sz) r = Some q" "pool_map q = pool_map p"
    using pool_alloc_free_map [OF ok n0 sp r r0] by blast
  moreover have "(unat addr + i) div 0x1000 \<in> region r (pages_for sz)" if "i < unat sz" for i
    using that np by (simp add: addr pa region_def)
  ultimately show ?thesis using diff np pa by (simp add: addr FreeMemory_def region_def)
qed

theorem AllocMemory_whole_pages_witness:
  "\<exists>addr p'. AllocMemory kernel_pages_init 0x2001 = Some (addr, p') \<and> addr \<noteq> 0 \<and>
     card (pool_units kernel_pages_init - pool_units p') = 3"
proof -
  have "AllocMemory kernel_pages_init 0x2001 = Some (0x204000, kernel_pages_init
      \<lparr>pool_map := (pool_map kernel_pages_init)[0 := \<lparr>m_Size = 0x1F9, m_AddressIdx = 0x207\<rparr>],
       beginNode := 1\<rparr>)"
    by (simp add: AllocMemory_def pages_for_def PAGE_SIZE_def pool_alloc_def alloc_next_def
        nf_carve_def kernel_pages_init_def pool_region_map KERNEL_PAGE_POOL_START_ADDR_def
        KERNEL_PAGE_POOL_SIZE_def)
  from AllocMemory_whole_pages [OF kernel_pools_ok(1) _ _ _ this] this show ?thesis
    by (simp add: kernel_pages_init_def pool_region_spare)
qed

text \<open>
  \<open>operator delete\<close> gives back exactly what \<open>operator new\<close> took: as long as the word below the
  block, where \<open>new\<close> keeps the size, is not overwritten, \<open>delete\<close> of the block restores the map of
  the kernel heap, however the block itself was written. The block and its header are heap units
  that no later request gets.
\<close>

theorem delete_undoes_new:
  assumes "pool_ok hi (kh_pool h)" and "pool_spare (kh_pool h)" and "unat sz < 2 ^ 32 - 4"
    and "operator_new h sz = Some (p, h1)" and "p \<noteq> 0"
    and "kh_pool h2 = kh_pool h1" and "kh_word h2 (p - 4) = kh_word h1 (p - 4)"
  shows "(\<exists>h3. operator_delete h2 p = Some h3 \<and> pool_map (kh_pool h3) = pool_map (kh_pool h)) \<and>
    {unat (p - 4)..<unat (p - 4) + unat sz + 4} \<subseteq> pool_units (kh_pool h) - pool_units (kh_pool h1)"
proof -
  have u4: "unat (sz + 4) = unat sz + 4" using assms(3) by (subst unat_add_nowrap) simp_all
  then have n0: "sz + 4 \<noteq> 0" by (metis add_eq_0_iff_both_eq_0 unat_0 zero_neq_numeral)
  obtain r q where al: "pool_alloc (kh_pool h) (sz + 4) = Some (r, q)" and r0: "r \<noteq> 0"
    and p: "p = r + 4" and h1: "h1 = h\<lparr>kh_pool := q, kh_word := (kh_word h)(r := sz)\<rparr>"
    using assms(4,5) by (auto simp: operator_new_def heap_AllocMemory_def split: option.splits if_splits)
  from pool_alloc_free_map [OF assms(1) n0 assms(2) al r0] obtain q'
    where "pool_free q (sz + 4) r = Some q'" "pool_map q' = pool_map (kh_pool h)" by blast
  moreover have "pool_units (kh_pool h) - pool_units q = region r (sz + 4)"
    using nf.alloc_cases(3,4) [OF assms(1) n0 al] r0 by blast
  ultimately show ?thesis
    using assms(5-7) h1 p u4 by (simp add: operator_delete_def heap_FreeMemeory_def region_def)
qed

theorem delete_undoes_new_witness:
  "\<exists>p h1 h3. operator_new \<lparr>kh_pool = kernel_heap_init, kh_word = \<lambda>_. 0\<rparr> 12 = Some (p, h1) \<and>
     operator_delete h1 p = Some h3 \<and> pool_map (kh_pool h3) = pool_map kernel_heap_init"
proof -
  let ?h = "\<lparr>kh_pool = kernel_heap_init, kh_word = \<lambda>_. 0\<rparr>"
  let ?q = "kernel_heap_init\<lparr>pool_map :=
      (pool_map kernel_heap_init)[0 := \<lparr>m_Size = 0x7FFF0, m_AddressIdx = 0xC0180010\<rparr>], beginNode := 1\<rparr>"
  have n: "operator_new ?h 12 =
      Some (0xC0180004, ?h\<lparr>kh_pool := ?q, kh_word := (kh_word ?h)(0xC0180000 := 12)\<rparr>)"
    by (simp add: operator_new_def heap_AllocMemory_def pool_alloc_def alloc_next_def nf_carve_def
        kernel_heap_init_def pool_region_map KERNEL_HEAP_START_ADDR_def KERNEL_HEAP_SIZE_def)
  have "pool_ok 0xC0200000 (kh_pool ?h)" "pool_spare (kh_pool ?h)"
    using kernel_pools_ok(5) by (simp_all add: kernel_heap_init_def pool_region_spare)
  from delete_undoes_new [OF this _ n _ refl refl] n show ?thesis by fastforce
qed

end
