(* ===== verification/FileSys.thy ===== *)
theory FileSys
  imports Kprelude
begin

text \<open>
  The storage resources of \<open>fs/FileSystem.cpp\<close>: the superblock with its two stacks, the mount table,
  allocation and release of disk blocks and of disk inodes, and the copy of the superblock on disk.
  Blocks are read and written through the buffer cache; here a block is what the cache holds for it
  (theory \<open>BufCache\<close> shows that reading a block gives what was last written).  A call is one
  uninterrupted run of the code; where it would sleep the result is \<open>Asleep\<close>.
\<close>

section \<open>Model\<close>

record superblock =
  s_isize :: int
  s_fsize :: int
  s_nfree :: int
  s_free :: "int list"
  s_ninode :: int
  s_inode :: "int list"
  s_flock :: int
  s_ilock :: int
  s_fmod :: int
  s_ronly :: int
  s_time :: int
  s_padding :: "int list"

record mount =
  m_dev :: int
  m_spb :: "superblock option"
  m_inodep :: "nat option"

text \<open>The state: mount table, \<open>Update\<close>'s lock, the blocks of every device, \<open>u_error\<close>, \<open>Time::time\<close>.\<close>

record fsys =
  m_Mount :: "mount list"
  updlock :: int
  disk :: "int \<Rightarrow> int \<Rightarrow> u8 list"
  u_error :: errno
  ktime :: int

definition NMOUNT :: nat where "NMOUNT = 5"
definition SUPER_BLOCK_SECTOR_NUMBER :: int where "SUPER_BLOCK_SECTOR_NUMBER = 200"
definition ROOTINO :: int where "ROOTINO = 0"
definition INODE_NUMBER_PER_SECTOR :: int where "INODE_NUMBER_PER_SECTOR = 8"
definition INODE_ZONE_START_SECTOR :: int where "INODE_ZONE_START_SECTOR = 202"
definition DATA_ZONE_START_SECTOR :: int where "DATA_ZONE_START_SECTOR = 1024"
definition DATA_ZONE_END_SECTOR :: int where "DATA_ZONE_END_SECTOR = 18000 - 1"
definition ROOTDEV :: int where "ROOTDEV = 0"

definition set_block :: "int \<Rightarrow> int \<Rightarrow> u8 list \<Rightarrow> 'a fsys_scheme \<Rightarrow> 'a fsys_scheme" where
  "set_block dev b d fs = fs\<lparr>disk := (disk fs)(dev := (disk fs dev)(b := d))\<rparr>"

definition set_sb :: "nat \<Rightarrow> superblock \<Rightarrow> 'a fsys_scheme \<Rightarrow> 'a fsys_scheme" where
  "set_sb i sb fs = fs\<lparr>m_Mount := (m_Mount fs)[i := (m_Mount fs ! i)\<lparr>m_spb := Some sb\<rparr>]\<rparr>"

text \<open>\<open>GetFS\<close>: the first mount of the device; counts above 100 are taken for a corrupt block.\<close>

fun mount_of :: "mount list \<Rightarrow> int \<Rightarrow> nat \<Rightarrow> (nat \<times> superblock) option" where
  "mount_of [] dev i = None"
| "mount_of (mt # mts) dev i =
     (case m_spb mt of
        None \<Rightarrow> mount_of mts dev (Suc i)
      | Some sb \<Rightarrow> if m_dev mt = dev then Some (i, sb) else mount_of mts dev (Suc i))"

definition GetFS :: "'a fsys_scheme \<Rightarrow> int \<Rightarrow> (nat \<times> superblock \<times> 'a fsys_scheme) kcall" where
  "GetFS fs dev =
     (case mount_of (m_Mount fs) dev 0 of
        None \<Rightarrow> Panic
      | Some (i, sb) \<Rightarrow>
          let sb' = (if s_nfree sb > 100 \<or> s_ninode sb > 100
                     then sb\<lparr>s_nfree := 0, s_ninode := 0\<rparr> else sb)
          in Done (i, sb', set_sb i sb' fs))"

definition BadBlock :: "superblock \<Rightarrow> int \<Rightarrow> int \<Rightarrow> bool" where
  "BadBlock spb dev blkno = False"

text \<open>
  \<open>Alloc\<close>: pop the stack; when that empties it, the block popped holds the next group.  The result
  names the block of the cleared buffer that the caller gets (\<open>cleared_buf\<close>); the block itself is
  not written before the caller writes the buffer.
\<close>

definition cleared_buf :: "u8 list" where
  "cleared_buf = replicate 512 0"

definition refill :: "superblock \<Rightarrow> u8 list \<Rightarrow> superblock" where
  "refill sb blk =
     (let p = ints_of blk
      in sb\<lparr>s_nfree := p ! 0, s_free := take 100 (drop 1 p)\<rparr>)"

definition FS_Alloc :: "'a fsys_scheme \<Rightarrow> int \<Rightarrow> (int option \<times> 'a fsys_scheme) kcall" where
  "FS_Alloc fs dev = kbind (GetFS fs dev) (\<lambda>(i, sb, fs).
     if s_flock sb \<noteq> 0 then Asleep
     else if s_nfree sb - 1 < 0 then Fault
     else
       let blkno = s_free sb ! nat (s_nfree sb - 1);
           sb = sb\<lparr>s_nfree := s_nfree sb - 1\<rparr>
       in if blkno = 0
          then Done (None, (set_sb i (sb\<lparr>s_nfree := 0\<rparr>) fs)\<lparr>u_error := ENOSPC\<rparr>)
          else if BadBlock sb dev blkno then Done (None, set_sb i sb fs)
          else
            let sb = (if s_nfree sb \<le> 0
                      then (refill (sb\<lparr>s_flock := s_flock sb + 1\<rparr>) (disk fs dev blkno))\<lparr>s_flock := 0\<rparr>
                      else sb)
            in Done (Some blkno, set_sb i (sb\<lparr>s_fmod := 1\<rparr>) fs))"

text \<open>
  \<open>Free\<close>: push; when the stack is full it is first written into the block that is being freed.
  \<open>stale\<close> is what the buffer that \<open>GetBlk\<close> returns holds; only its first 101 words are overwritten.
\<close>

definition spill :: "superblock \<Rightarrow> u8 list \<Rightarrow> u8 list" where
  "spill sb stale = bytes_of (s_nfree sb # s_free sb) @ drop 404 stale"

definition FS_Free :: "u8 list \<Rightarrow> 'a fsys_scheme \<Rightarrow> int \<Rightarrow> int \<Rightarrow> 'a fsys_scheme kcall" where
  "FS_Free stale fs dev blkno = kbind (GetFS fs dev) (\<lambda>(i, sb, fs).
     let sb = sb\<lparr>s_fmod := 1\<rparr> in
     if s_flock sb \<noteq> 0 then Asleep
     else if BadBlock sb dev blkno then Done (set_sb i sb fs)
     else
       let sb = (if s_nfree sb \<le> 0 then sb\<lparr>s_nfree := 1, s_free := (s_free sb)[0 := 0]\<rparr> else sb);
           fs = (if s_nfree sb \<ge> 100 then set_block dev blkno (spill sb stale) fs else fs);
           sb = (if s_nfree sb \<ge> 100 then sb\<lparr>s_nfree := 0, s_flock := 0\<rparr> else sb)
       in Done (set_sb i (sb\<lparr>s_free := (s_free sb)[nat (s_nfree sb) := blkno],
                           s_nfree := s_nfree sb + 1, s_fmod := 1\<rparr>) fs))"

definition FS_IFree :: "'a fsys_scheme \<Rightarrow> int \<Rightarrow> int \<Rightarrow> 'a fsys_scheme kcall" where
  "FS_IFree fs dev number = kbind (GetFS fs dev) (\<lambda>(i, sb, fs).
     if s_ilock sb \<noteq> 0 then Done fs
     else if s_ninode sb \<ge> 100 then Done fs
     else if s_ninode sb < 0 then Fault
     else Done (set_sb i (sb\<lparr>s_inode := (s_inode sb)[nat (s_ninode sb) := number],
                            s_ninode := s_ninode sb + 1, s_fmod := 1\<rparr>) fs))"

text \<open>\<open>GetMount\<close>: the loop runs to \<open>i <= NMOUNT\<close>, one past the table.\<close>

fun get_mount_from :: "mount list \<Rightarrow> nat option \<Rightarrow> nat \<Rightarrow> nat kcall" where
  "get_mount_from [] pInode i = Fault"
| "get_mount_from (mt # mts) pInode i =
     (if m_inodep mt = pInode then Done i else get_mount_from mts pInode (Suc i))"

definition GetMount :: "'a fsys_scheme \<Rightarrow> nat option \<Rightarrow> nat kcall" where
  "GetMount fs pInode = get_mount_from (m_Mount fs) pInode 0"

text \<open>The superblock as 256 words in the sectors 200 and 201.\<close>

definition sb_ints :: "superblock \<Rightarrow> int list" where
  "sb_ints sb = [s_isize sb, s_fsize sb, s_nfree sb] @ s_free sb @ [s_ninode sb] @ s_inode sb @
     [s_flock sb, s_ilock sb, s_fmod sb, s_ronly sb, s_time sb] @ s_padding sb"

definition sb_of_ints :: "int list \<Rightarrow> superblock" where
  "sb_of_ints p = \<lparr>s_isize = p ! 0, s_fsize = p ! 1, s_nfree = p ! 2, s_free = take 100 (drop 3 p),
     s_ninode = p ! 103, s_inode = take 100 (drop 104 p), s_flock = p ! 204, s_ilock = p ! 205,
     s_fmod = p ! 206, s_ronly = p ! 207, s_time = p ! 208, s_padding = take 47 (drop 209 p)\<rparr>"

definition LoadSuperBlock :: "'a fsys_scheme \<Rightarrow> 'a fsys_scheme kcall" where
  "LoadSuperBlock fs =
     (let spb = sb_of_ints (ints_of (disk fs ROOTDEV SUPER_BLOCK_SECTOR_NUMBER) @
                            ints_of (disk fs ROOTDEV (SUPER_BLOCK_SECTOR_NUMBER + 1)))
      in if u_error fs \<noteq> NOERROR then Panic
         else Done (fs\<lparr>m_Mount := (m_Mount fs)[0 := (m_Mount fs ! 0)\<lparr>m_dev := ROOTDEV,
           m_spb := Some (spb\<lparr>s_flock := 0, s_ilock := 0, s_ronly := 0, s_time := ktime fs\<rparr>)\<rparr>]\<rparr>))"

text \<open>The loop of \<open>Update\<close> over the mount table.\<close>

definition update_mount :: "nat \<Rightarrow> 'a fsys_scheme \<Rightarrow> 'a fsys_scheme" where
  "update_mount i fs =
     (case m_spb (m_Mount fs ! i) of
        None \<Rightarrow> fs
      | Some sb \<Rightarrow>
          if s_fmod sb = 0 \<or> s_ilock sb \<noteq> 0 \<or> s_flock sb \<noteq> 0 \<or> s_ronly sb \<noteq> 0 then fs
          else
            let sb = sb\<lparr>s_fmod := 0, s_time := ktime fs\<rparr>; dev = m_dev (m_Mount fs ! i)
            in set_block dev (SUPER_BLOCK_SECTOR_NUMBER + 1) (bytes_of (drop 128 (sb_ints sb)))
                 (set_block dev SUPER_BLOCK_SECTOR_NUMBER (bytes_of (take 128 (sb_ints sb)))
                   (set_sb i sb fs)))"

definition update_superblocks :: "'a fsys_scheme \<Rightarrow> 'a fsys_scheme" where
  "update_superblocks fs = fold update_mount [0..<NMOUNT] fs"

section \<open>The free list as a stack\<close>

text \<open>
  The blocks the superblock can hand out, in the order \<open>Alloc\<close> would: the group in the superblock
  from the top down, and below its bottom entry, which is itself a free block, the group that this
  block records.  A bottom entry 0 ends the list.
\<close>

inductive free_chain :: "(int \<Rightarrow> u8 list) \<Rightarrow> int \<Rightarrow> int list \<Rightarrow> int list \<Rightarrow> bool" for dk where
  none: "length fr = 100 \<Longrightarrow> free_chain dk 0 fr []"
| last: "length fr = 100 \<Longrightarrow> n < 100 \<Longrightarrow> fr ! 0 = 0 \<Longrightarrow>
    free_chain dk (int (Suc n)) fr (rev (take n (tl fr)))"
| link: "length fr = 100 \<Longrightarrow> n < 100 \<Longrightarrow> fr ! 0 = b \<Longrightarrow> b \<noteq> 0 \<Longrightarrow>
    ints_of (dk b) ! 0 = n' \<Longrightarrow> take 100 (drop 1 (ints_of (dk b))) = fr' \<Longrightarrow> 0 < n' \<Longrightarrow>
    free_chain dk n' fr' bs \<Longrightarrow> free_chain dk (int (Suc n)) fr (rev (take n (tl fr)) @ b # bs)"

inductive_cases free_chain_SucE: "free_chain dk (int (Suc n)) fr bs"
inductive_cases free_chain_zeroE: "free_chain dk 0 fr bs"

text \<open>The abstraction of a device: a stack of distinct, non-zero block numbers.\<close>

definition stack_of :: "'a fsys_scheme \<Rightarrow> int \<Rightarrow> nat \<Rightarrow> int list \<Rightarrow> bool" where
  "stack_of fs dev i bs \<longleftrightarrow>
     (\<exists>sb. mount_of (m_Mount fs) dev 0 = Some (i, sb) \<and> s_flock sb = 0 \<and> s_ninode sb \<le> 100 \<and>
        free_chain (disk fs dev) (s_nfree sb) (s_free sb) bs \<and> (\<forall>x\<in>set (s_free sb). cint x) \<and>
        distinct bs \<and> (\<forall>b\<in>set bs. b \<noteq> 0 \<and> cint b))"

lemma free_chain_bounds: "free_chain dk n fr bs \<Longrightarrow> length fr = 100 \<and> 0 \<le> n \<and> n \<le> 100"
  by (induction rule: free_chain.induct) auto

lemma free_chain_cong:
  "free_chain dk n fr bs \<Longrightarrow> (\<And>b. b \<in> set bs \<Longrightarrow> dk' b = dk b) \<Longrightarrow> free_chain dk' n fr bs"
proof (induction rule: free_chain.induct)
  case (link fr n b n' fr' bs)
  have "dk' b = dk b" using link.prems by simp
  with link have "free_chain dk' n' fr' bs" "ints_of (dk' b) ! 0 = n'"
    "take 100 (drop 1 (ints_of (dk' b))) = fr'" by simp_all
  from free_chain.link [OF link.hyps(1-4) this(2,3) link.hyps(7) this(1)] show ?case .
next
  case (last fr n)
  from free_chain.last [OF last.hyps] show ?case .
qed (rule free_chain.none)

lemma mount_of_set_sb:
  assumes "mount_of mts dev k = Some (i, sb)"
  shows "k \<le> i" "i - k < length mts"
    "mount_of (mts[i - k := (mts ! (i - k))\<lparr>m_spb := Some sb'\<rparr>]) dev k = Some (i, sb')"
proof -
  have "k \<le> i \<and> i - k < length mts \<and>
      mount_of (mts[i - k := (mts ! (i - k))\<lparr>m_spb := Some sb'\<rparr>]) dev k = Some (i, sb')"
    using assms
  proof (induction mts arbitrary: k)
    case Nil
    then show ?case by simp
  next
    case (Cons mt mts)
    show ?case
    proof (cases "\<exists>sb0. m_spb mt = Some sb0 \<and> m_dev mt = dev")
      case True
      with Cons.prems show ?thesis by auto
    next
      case False
      then have r: "mount_of (mt # ms) dev k = mount_of ms dev (Suc k)" for ms
        by (auto split: option.splits)
      from Cons.prems r have "mount_of mts dev (Suc k) = Some (i, sb)" by metis
      from Cons.IH [OF this] have ih: "Suc k \<le> i" "i - Suc k < length mts"
        "mount_of (mts[i - Suc k := (mts ! (i - Suc k))\<lparr>m_spb := Some sb'\<rparr>]) dev (Suc k) = Some (i, sb')"
        by blast+
      have e: "i - k = Suc (i - Suc k)" using ih(1) by simp
      show ?thesis using ih r [of "mts[i - Suc k := (mts ! (i - Suc k))\<lparr>m_spb := Some sb'\<rparr>]"] by (simp add: e)
    qed
  qed
  then show "k \<le> i" "i - k < length mts"
    "mount_of (mts[i - k := (mts ! (i - k))\<lparr>m_spb := Some sb'\<rparr>]) dev k = Some (i, sb')" by auto
qed

lemma mount_set_sb:
  "mount_of (m_Mount fs) dev 0 = Some (i, sb) \<Longrightarrow>
   mount_of (m_Mount (set_sb i sb' fs)) dev 0 = Some (i, sb')"
  using mount_of_set_sb(3) [of "m_Mount fs" dev 0 i sb sb'] by (simp add: set_sb_def)

lemma set_sb_simps [simp]:
  "disk (set_sb i sb fs) = disk fs" "u_error (set_sb i sb fs) = u_error fs"
  "ktime (set_sb i sb fs) = ktime fs"
  by (simp_all add: set_sb_def)

lemma set_sb_twice [simp]: "set_sb i sb' (set_sb i sb fs) = set_sb i sb' fs"
proof (cases "i < length (m_Mount fs)")
  case False
  then show ?thesis by (simp add: set_sb_def list_update_beyond)
qed (simp add: set_sb_def)

lemma set_block_simps [simp]:
  "m_Mount (set_block dev b d fs) = m_Mount fs" "u_error (set_block dev b d fs) = u_error fs"
  "ktime (set_block dev b d fs) = ktime fs"
  "disk (set_block dev b d fs) dev b' = (if b' = b then d else disk fs dev b')"
  "dev' \<noteq> dev \<Longrightarrow> disk (set_block dev b d fs) dev' = disk fs dev'"
  by (simp_all add: set_block_def)

lemma set_sb_block: "set_sb i sb (set_block dev b d fs) = set_block dev b d (set_sb i sb fs)"
  by (simp add: set_sb_def set_block_def)

lemma stack_of_written:
  assumes "stack_of fs dev m bs" "b \<notin> set bs"
  shows "stack_of (set_block dev b d fs) dev m bs"
proof -
  have "free_chain (disk (set_block dev b d fs) dev) k fr bs" if "free_chain (disk fs dev) k fr bs" for k fr
    by (rule free_chain_cong [OF that]) (use assms(2) in auto)
  then show ?thesis using assms(1) unfolding stack_of_def by fastforce
qed

lemma GetFS_ok:
  assumes "mount_of (m_Mount fs) dev 0 = Some (i, sb)" "s_nfree sb \<le> 100" "s_ninode sb \<le> 100"
  shows "GetFS fs dev = Done (i, sb, set_sb i sb fs)"
  using assms by (simp add: GetFS_def Let_def)

lemma rev_take_Suc:
  assumes "length fr = 100" "Suc m < 100"
  shows "rev (take (Suc m) (tl fr)) = fr ! Suc m # rev (take m (tl fr))"
proof -
  have "take (Suc m) (tl fr) = take m (tl fr) @ [tl fr ! m]"
    using assms by (intro take_Suc_conv_app_nth) simp
  then show ?thesis using assms by (simp add: nth_tl)
qed

lemma free_chain_pop:
  assumes "free_chain dk k fr (b # bs)"
  shows "1 \<le> k" "fr ! nat (k - 1) = b"
    "k \<le> 1 \<Longrightarrow> free_chain dk (ints_of (dk b) ! 0) (take 100 (drop 1 (ints_of (dk b)))) bs"
    "1 < k \<Longrightarrow> free_chain dk (k - 1) fr bs"
proof -
  have "1 \<le> k \<and> fr ! nat (k - 1) = b \<and>
     (k \<le> 1 \<longrightarrow> free_chain dk (ints_of (dk b) ! 0) (take 100 (drop 1 (ints_of (dk b)))) bs) \<and>
     (1 < k \<longrightarrow> free_chain dk (k - 1) fr bs)"
    using assms
  proof (cases rule: free_chain.cases)
    case (last n)
    then obtain m where n: "n = Suc m" by (cases n) auto
    note r = rev_take_Suc [OF last(3) last(4)[unfolded n]]
    have bs: "bs = rev (take m (tl fr))" and b: "b = fr ! Suc m" using last n r by auto
    have "free_chain dk (int (Suc m)) fr bs"
      unfolding bs using last n by (intro free_chain.last) simp_all
    with last n b show ?thesis by simp
  next
    case (link n b0 n' fr' bs0)
    show ?thesis
    proof (cases n)
      case 0
      with link show ?thesis by auto
    next
      case (Suc m)
      note r = rev_take_Suc [OF link(3) link(4)[unfolded Suc]]
      have bs: "bs = rev (take m (tl fr)) @ b0 # bs0" and b: "b = fr ! Suc m" using link Suc r by auto
      have "free_chain dk (int (Suc m)) fr bs"
        unfolding bs by (rule free_chain.link [OF link(3) _ link(5-10)]) (use link Suc in simp)
      with link Suc b show ?thesis by simp
    qed
  qed
  then show "1 \<le> k" "fr ! nat (k - 1) = b"
    "k \<le> 1 \<Longrightarrow> free_chain dk (ints_of (dk b) ! 0) (take 100 (drop 1 (ints_of (dk b)))) bs"
    "1 < k \<Longrightarrow> free_chain dk (k - 1) fr bs" by auto
qed

lemma free_chain_empty: "free_chain dk k fr [] \<Longrightarrow> k = 0 \<or> k = 1 \<and> fr ! 0 = 0"
proof -
  assume "free_chain dk k fr []"
  then show ?thesis
  proof (cases rule: free_chain.cases)
    case (last)
    then show ?thesis by (cases fr) auto
  qed auto
qed

lemma tl_update_Suc: "take n (tl (fr[Suc n := b])) = take n (tl fr)"
  by (cases fr) auto

lemma free_chain_push:
  assumes c: "free_chain dk k fr bs" and "0 < k" "k < 100"
  shows "free_chain dk (k + 1) (fr[nat k := b]) (b # bs)"
  using c
proof (cases rule: free_chain.cases)
  case (last n)
  let ?fr = "fr[Suc n := b]"
  have n: "Suc n < 100" using last assms by simp
  have l: "length ?fr = 100" "?fr ! 0 = 0" using last by auto
  have "rev (take (Suc n) (tl ?fr)) = b # bs"
    using rev_take_Suc [OF l(1) n] last n by (simp add: tl_update_Suc)
  with free_chain.last [of ?fr "Suc n" dk, OF l(1) n l(2)] last show ?thesis
    by (simp add: add.commute)
next
  case (link n b0 n' fr' bs0)
  let ?fr = "fr[Suc n := b]"
  have n: "Suc n < 100" using link assms by simp
  have l: "length ?fr = 100" "?fr ! 0 = b0" using link by auto
  have "rev (take (Suc n) (tl ?fr)) @ b0 # bs0 = b # bs"
    using rev_take_Suc [OF l(1) n] link n by (simp add: tl_update_Suc)
  with free_chain.link [of ?fr "Suc n" b0 dk n' fr' bs0, OF l(1) n l(2) link(6-10)] link
  show ?thesis by (simp add: add.commute)
qed (use assms in simp)

lemma spill_words:
  assumes "length (s_free sb) = 100" "\<forall>x\<in>set (s_free sb). cint x" "cint (s_nfree sb)"
  shows "ints_of (spill sb stale) ! 0 = s_nfree sb"
    "take 100 (drop 1 (ints_of (spill sb stale))) = s_free sb"
proof -
  have app: "ints_of (bytes_of xs @ ys) = ints_of (bytes_of xs) @ ints_of ys" for xs ys
    by (induction xs) (simp_all add: ints_of_def bytes_of_def dword_bytes [simplified])
  have "ints_of (spill sb stale) = (s_nfree sb # s_free sb) @ ints_of (drop 404 stale)"
    unfolding spill_def app using assms by (subst ints_of_bytes) auto
  with assms(1) show "ints_of (spill sb stale) ! 0 = s_nfree sb"
    "take 100 (drop 1 (ints_of (spill sb stale))) = s_free sb" by simp_all
qed

lemma FS_Alloc_pop:
  assumes "stack_of fs dev i (b # bs)"
  shows "\<exists>fs'. FS_Alloc fs dev = Done (Some b, fs') \<and> stack_of fs' dev i bs \<and>
     disk fs' = disk fs \<and> u_error fs' = u_error fs"
proof -
  from assms obtain sb where mt: "mount_of (m_Mount fs) dev 0 = Some (i, sb)"
    and fl: "s_flock sb = 0" and ni: "s_ninode sb \<le> 100"
    and ch: "free_chain (disk fs dev) (s_nfree sb) (s_free sb) (b # bs)"
    and ci: "\<forall>x\<in>set (s_free sb). cint x" and di: "distinct (b # bs)"
    and ok: "\<forall>b\<in>set (b # bs). b \<noteq> 0 \<and> cint b" by (auto simp: stack_of_def)
  note bd = free_chain_bounds [OF ch]
  note pop = free_chain_pop [OF ch]
  let ?sb1 = "sb\<lparr>s_nfree := s_nfree sb - 1\<rparr>"
  define sb2 where "sb2 = (if s_nfree ?sb1 \<le> 0
      then (refill (?sb1\<lparr>s_flock := s_flock ?sb1 + 1\<rparr>) (disk fs dev b))\<lparr>s_flock := 0\<rparr> else ?sb1)"
  define fs' where "fs' = set_sb i (sb2\<lparr>s_fmod := 1\<rparr>) (set_sb i sb fs)"
  have "FS_Alloc fs dev = Done (Some b, fs')"
    using GetFS_ok [OF mt _ ni] bd fl pop(1,2) ok
    by (simp add: FS_Alloc_def BadBlock_def fs'_def sb2_def Let_def)
  moreover have "stack_of fs' dev i bs"
  proof -
    have c2: "free_chain (disk fs dev) (s_nfree sb2) (s_free sb2) bs"
      using pop(3,4) bd by (cases "s_nfree sb \<le> 1") (simp_all add: sb2_def refill_def Let_def)
    then have "free_chain (disk fs' dev) (s_nfree sb2) (s_free sb2) bs" by (simp add: fs'_def)
    moreover have "\<forall>x\<in>set (s_free sb2). cint x"
      using ci by (auto simp: sb2_def refill_def Let_def ints_of_def dest!: in_set_takeD in_set_dropD)
    moreover have "s_flock sb2 = 0" "s_ninode sb2 = s_ninode sb"
      using fl by (simp_all add: sb2_def refill_def Let_def)
    moreover have "mount_of (m_Mount fs') dev 0 = Some (i, sb2\<lparr>s_fmod := 1\<rparr>)"
      using mount_set_sb [OF mt] by (simp add: fs'_def set_sb_block)
    ultimately show ?thesis using ni di ok by (auto simp: stack_of_def)
  qed
  moreover have "disk fs' = disk fs" "u_error fs' = u_error fs"
    by (simp_all add: fs'_def)
  ultimately show ?thesis by blast
qed

lemma FS_Alloc_frame:
  "FS_Alloc fs dev = Done (r, fs') \<Longrightarrow>
   fsys.more fs' = fsys.more fs \<and> updlock fs' = updlock fs \<and> ktime fs' = ktime fs"
  by (auto simp: FS_Alloc_def GetFS_def BadBlock_def set_sb_def kbind_Done Let_def
      split: option.splits if_splits)

lemma FS_Alloc_empty:
  assumes "stack_of fs dev i []"
  shows "FS_Alloc fs dev = Fault \<or>
    (\<exists>fs'. FS_Alloc fs dev = Done (None, fs') \<and> u_error fs' = ENOSPC \<and> stack_of fs' dev i [] \<and>
       FS_Alloc fs' dev = Fault)"
proof -
  from assms obtain sb where mt: "mount_of (m_Mount fs) dev 0 = Some (i, sb)"
    and fl: "s_flock sb = 0" and ni: "s_ninode sb \<le> 100"
    and ch: "free_chain (disk fs dev) (s_nfree sb) (s_free sb) []"
    and ci: "\<forall>x\<in>set (s_free sb). cint x" by (auto simp: stack_of_def)
  note bd = free_chain_bounds [OF ch]
  note g = GetFS_ok [OF mt _ ni]
  from free_chain_empty [OF ch] show ?thesis
  proof
    assume "s_nfree sb = 0"
    then show ?thesis using g fl by (simp add: FS_Alloc_def)
  next
    assume k: "s_nfree sb = 1 \<and> s_free sb ! 0 = 0"
    let ?sb = "sb\<lparr>s_nfree := 0\<rparr>"
    let ?fs = "(set_sb i ?sb fs)\<lparr>u_error := ENOSPC\<rparr>"
    have al: "FS_Alloc fs dev = Done (None, ?fs)"
      using k g fl by (simp add: FS_Alloc_def Let_def)
    have mt': "mount_of (m_Mount ?fs) dev 0 = Some (i, ?sb)" using mount_set_sb [OF mt] by simp
    have "stack_of ?fs dev i []"
      using mt' fl ni ci bd free_chain.none [of "s_free sb"] by (simp add: stack_of_def)
    moreover have "FS_Alloc ?fs dev = Fault"
      using GetFS_ok [OF mt'] fl ni by (simp add: FS_Alloc_def)
    ultimately show ?thesis using al by auto
  qed
qed

lemma FS_Free_push:
  assumes "stack_of fs dev i bs" and b: "b \<notin> set bs" "b \<noteq> 0" "cint b"
  shows "\<exists>fs'. FS_Free stale fs dev b = Done fs' \<and> stack_of fs' dev i (b # bs) \<and>
     (\<forall>b'. b' \<noteq> b \<longrightarrow> disk fs' dev b' = disk fs dev b') \<and>
     (\<forall>d. d \<noteq> dev \<longrightarrow> disk fs' d = disk fs d) \<and> u_error fs' = u_error fs"
proof -
  from assms obtain sb where mt: "mount_of (m_Mount fs) dev 0 = Some (i, sb)"
    and fl: "s_flock sb = 0" and ni: "s_ninode sb \<le> 100"
    and ch: "free_chain (disk fs dev) (s_nfree sb) (s_free sb) bs"
    and ci: "\<forall>x\<in>set (s_free sb). cint x" and di: "distinct bs"
    and ok: "\<forall>b\<in>set bs. b \<noteq> 0 \<and> cint b" by (auto simp: stack_of_def)
  note bd = free_chain_bounds [OF ch]
  define sb1 where "sb1 = (if s_nfree sb \<le> 0 then sb\<lparr>s_nfree := 1, s_free := (s_free sb)[0 := 0]\<rparr> else sb)"
  define fs1 where "fs1 = (if s_nfree sb1 \<ge> 100 then set_block dev b (spill (sb1\<lparr>s_fmod := 1\<rparr>) stale) (set_sb i sb fs)
      else set_sb i sb fs)"
  define sb2 where "sb2 = (if s_nfree sb1 \<ge> 100 then sb1\<lparr>s_nfree := 0, s_flock := 0\<rparr> else sb1)"
  define sb3 where "sb3 = sb2\<lparr>s_free := (s_free sb2)[nat (s_nfree sb2) := b], s_nfree := s_nfree sb2 + 1, s_fmod := 1\<rparr>"
  have fr: "FS_Free stale fs dev b = Done (set_sb i sb3 fs1)"
    using GetFS_ok [OF mt _ ni] bd fl
    by (simp add: FS_Free_def BadBlock_def sb1_def fs1_def sb2_def sb3_def Let_def)
  have c1: "free_chain (disk fs dev) (s_nfree sb1) (s_free sb1) bs \<and> 0 < s_nfree sb1"
  proof (cases "s_nfree sb \<le> 0")
    case True
    then have z: "s_nfree sb = 0" using bd by simp
    from ch z have "bs = []" by (auto elim: free_chain_zeroE free_chain.cases)
    moreover have "free_chain (disk fs dev) (int (Suc 0)) ((s_free sb)[0 := 0])
        (rev (take 0 (tl ((s_free sb)[0 := 0]))))"
      by (rule free_chain.last) (use bd in simp_all)
    ultimately show ?thesis using z by (simp add: sb1_def)
  next
    case False
    with ch show ?thesis by (simp add: sb1_def)
  qed
  note bd1 = free_chain_bounds [OF conjunct1 [OF c1]]
  have ci1: "\<forall>x\<in>set (s_free sb1). cint x"
    using ci by (auto simp: sb1_def cint_def dest!: set_update_subset_insert [THEN subsetD])
  have c3: "free_chain (disk fs1 dev) (s_nfree sb3) (s_free sb3) (b # bs)"
  proof (cases "s_nfree sb1 \<ge> 100")
    case True
    with bd1 have n: "s_nfree sb1 = 100" by simp
    let ?sp = "spill (sb1\<lparr>s_fmod := 1\<rparr>) stale"
    have w: "ints_of ?sp ! 0 = 100" "take 100 (drop 1 (ints_of ?sp)) = s_free sb1"
      using spill_words [of "sb1\<lparr>s_fmod := 1\<rparr>" stale] bd1 ci1 n by (simp_all add: cint_def)
    have db: "disk fs1 dev b = ?sp" using True by (simp add: fs1_def)
    have cb: "free_chain (disk fs1 dev) 100 (s_free sb1) bs"
      by (rule free_chain_cong [OF c1 [THEN conjunct1, unfolded n]]) (use b(1) in \<open>auto simp: fs1_def\<close>)
    have "free_chain (disk fs1 dev) (int (Suc 0)) ((s_free sb1)[0 := b])
        (rev (take 0 (tl ((s_free sb1)[0 := b]))) @ b # bs)"
      by (rule free_chain.link [OF _ _ _ b(2) _ _ _ cb]) (use bd1 w db in simp_all)
    then show ?thesis using True by (simp add: sb3_def sb2_def)
  next
    case False
    with c1 have "free_chain (disk fs dev) (s_nfree sb1 + 1) ((s_free sb1)[nat (s_nfree sb1) := b]) (b # bs)"
      by (intro free_chain_push) simp_all
    with False show ?thesis by (simp add: sb3_def sb2_def fs1_def)
  qed
  have "m_Mount fs1 = m_Mount (set_sb i sb fs)" by (simp add: fs1_def)
  then have "mount_of (m_Mount (set_sb i sb3 fs1)) dev 0 = Some (i, sb3)"
    using mount_set_sb [OF mt, of sb] mount_set_sb [of fs1 dev i sb] by simp
  moreover have "s_flock sb3 = 0" "s_ninode sb3 \<le> 100"
    using fl ni by (simp_all add: sb3_def sb2_def sb1_def)
  moreover have "\<forall>x\<in>set (s_free sb3). cint x"
    using ci1 b(3) by (auto simp: sb3_def sb2_def dest!: set_update_subset_insert [THEN subsetD])
  ultimately have "stack_of (set_sb i sb3 fs1) dev i (b # bs)"
    using c3 di ok b by (simp add: stack_of_def)
  with fr show ?thesis by (auto simp: fs1_def)
qed

section \<open>Sequences of allocations and releases\<close>

datatype blk_op = AllocOp | FreeOp "u8 list" int

fun blk_run :: "('s \<Rightarrow> (int option \<times> 's) kcall) \<Rightarrow> (u8 list \<Rightarrow> 's \<Rightarrow> int \<Rightarrow> 's kcall) \<Rightarrow> 's \<Rightarrow>
    blk_op list \<Rightarrow> (int option list \<times> 's) kcall" where
  "blk_run al fr s [] = Done ([], s)"
| "blk_run al fr s (AllocOp # ops) = kbind (al s) (\<lambda>(b, s'). kbind (blk_run al fr s' ops)
     (\<lambda>(out, s''). Done (b # out, s'')))"
| "blk_run al fr s (FreeOp stale b # ops) = kbind (fr stale s b) (\<lambda>s'. blk_run al fr s' ops)"

text \<open>The same on a stack: a pop of the empty stack and a double release are not allowed.\<close>

fun stack_run :: "(int \<Rightarrow> bool) \<Rightarrow> int list \<Rightarrow> blk_op list \<Rightarrow> (int option list \<times> int list) option" where
  "stack_run ok bs [] = Some ([], bs)"
| "stack_run ok [] (AllocOp # ops) = None"
| "stack_run ok (b # bs) (AllocOp # ops) =
     map_option (\<lambda>(out, r). (Some b # out, r)) (stack_run ok bs ops)"
| "stack_run ok bs (FreeOp stale b # ops) =
     (if b \<in> set bs \<or> \<not> ok b then None else stack_run ok (b # bs) ops)"

locale block_pool =
  fixes alloc :: "'s \<Rightarrow> (int option \<times> 's) kcall"
    and release :: "u8 list \<Rightarrow> 's \<Rightarrow> int \<Rightarrow> 's kcall"
    and stk :: "'s \<Rightarrow> int list \<Rightarrow> bool"
    and ok :: "int \<Rightarrow> bool"
  assumes pop: "stk s (b # bs) \<Longrightarrow> \<exists>s'. alloc s = Done (Some b, s') \<and> stk s' bs"
    and push: "stk s bs \<Longrightarrow> b \<notin> set bs \<Longrightarrow> ok b \<Longrightarrow>
      \<exists>s'. release stale s b = Done s' \<and> stk s' (b # bs)"
begin

lemma free_then_alloc:
  assumes "stk s bs" "b \<notin> set bs" "ok b"
  shows "\<exists>s1 s2. release stale s b = Done s1 \<and> alloc s1 = Done (Some b, s2) \<and> stk s2 bs"
proof -
  from push [OF assms, of stale] obtain s1 where s1: "release stale s b = Done s1" "stk s1 (b # bs)"
    by blast
  from pop [OF s1(2)] s1(1) show ?thesis by blast
qed

lemma run_refines:
  assumes "stk s bs" "stack_run ok bs ops = Some (out, bs')"
  shows "\<exists>s'. blk_run alloc release s ops = Done (out, s') \<and> stk s' bs'"
  using assms
proof (induction ops arbitrary: s bs out)
  case Nil
  then show ?case by simp
next
  case (Cons op ops)
  show ?case
  proof (cases op)
    case AllocOp
    with Cons.prems(2) obtain b r where bs: "bs = b # r" by (cases bs) auto
    from pop [OF Cons.prems(1)[unfolded bs]] obtain s1
      where s1: "alloc s = Done (Some b, s1)" "stk s1 r" by blast
    from Cons.prems(2) AllocOp bs obtain o1
      where o1: "stack_run ok r ops = Some (o1, bs')" "out = Some b # o1" by auto
    from Cons.IH [OF s1(2) o1(1)] s1(1) o1(2) AllocOp show ?thesis by auto
  next
    case (FreeOp stale b)
    with Cons.prems(2) have nb: "b \<notin> set bs" "ok b" and r: "stack_run ok (b # bs) ops = Some (out, bs')"
      by (auto split: if_splits)
    from push [OF Cons.prems(1) nb, of stale] obtain s1
      where s1: "release stale s b = Done s1" "stk s1 (b # bs)" by blast
    from Cons.IH [OF s1(2) r] s1(1) FreeOp show ?thesis by auto
  qed
qed

end

interpretation dev_pool: block_pool "\<lambda>fs. FS_Alloc fs dev" "\<lambda>stale fs b. FS_Free stale fs dev b"
  "\<lambda>fs. stack_of fs dev i" "\<lambda>b. b \<noteq> 0 \<and> cint b"
proof unfold_locales
  fix fs :: "'a fsys_scheme" and b bs
  assume "stack_of fs dev i (b # bs)"
  from FS_Alloc_pop [OF this] show "\<exists>fs'. FS_Alloc fs dev = Done (Some b, fs') \<and> stack_of fs' dev i bs"
    by blast
next
  fix fs :: "'a fsys_scheme" and b bs stale
  assume "stack_of fs dev i bs" "b \<notin> set bs" "b \<noteq> 0 \<and> cint b"
  then show "\<exists>fs'. FS_Free stale fs dev b = Done fs' \<and> stack_of fs' dev i (b # bs)"
    using FS_Free_push [of fs dev i bs b stale] by blast
qed

section \<open>The superblock on disk\<close>

definition sb_wf :: "superblock \<Rightarrow> bool" where
  "sb_wf sb \<longleftrightarrow> length (s_free sb) = 100 \<and> length (s_inode sb) = 100 \<and> length (s_padding sb) = 47 \<and>
     (\<forall>x\<in>set (sb_ints sb). cint x)"

lemma nth_after: "length xs = k \<Longrightarrow> (xs @ ys) ! (k + i) = ys ! i"
  by (simp add: nth_append)

lemma sb_of_sb_ints:
  assumes "sb_wf sb"
  shows "sb_of_ints (sb_ints sb) = sb"
proof -
  from assms have l: "length (s_free sb) = 100" "length (s_inode sb) = 100" "length (s_padding sb) = 47"
    by (simp_all add: sb_wf_def)
  show ?thesis
    by (cases sb) (use l in \<open>simp add: sb_of_ints_def sb_ints_def nth_append numeral_eq_Suc [of num.One]
        nth_Cons' take_Cons' drop_Cons'\<close>)
qed

lemma length_sb_ints: "sb_wf sb \<Longrightarrow> length (sb_ints sb) = 256"
  by (simp add: sb_wf_def sb_ints_def)

lemma sb_wf_update:
  "sb_wf sb \<Longrightarrow> cint t \<Longrightarrow> sb_wf (sb\<lparr>s_fmod := 0, s_time := t\<rparr>)"
  by (auto simp: sb_wf_def sb_ints_def cint_def)

lemma sb_read_back:
  assumes "sb_wf sb"
  shows "sb_of_ints (ints_of (bytes_of (take 128 (sb_ints sb))) @ ints_of (bytes_of (drop 128 (sb_ints sb)))) = sb"
proof -
  have "\<forall>x\<in>set (sb_ints sb). cint x" using assms by (simp add: sb_wf_def)
  then have "ints_of (bytes_of (take 128 (sb_ints sb))) = take 128 (sb_ints sb)"
    "ints_of (bytes_of (drop 128 (sb_ints sb))) = drop 128 (sb_ints sb)"
    by (auto intro!: ints_of_bytes dest: in_set_takeD in_set_dropD)
  then show ?thesis using sb_of_sb_ints [OF assms] by simp
qed

lemma update_mount_none: "m_spb (m_Mount fs ! j) = None \<Longrightarrow> update_mount j fs = fs"
  by (simp add: update_mount_def)

lemma update_root_only:
  assumes len: "length (m_Mount fs) = NMOUNT" and sp: "\<forall>j. 0 < j \<and> j < NMOUNT \<longrightarrow> m_spb (m_Mount fs ! j) = None"
  shows "update_superblocks fs = update_mount 0 fs"
proof -
  let ?fs = "update_mount 0 fs"
  have "m_Mount ?fs ! j = m_Mount fs ! j" if "0 < j" for j
    using that by (simp add: update_mount_def set_sb_def set_block_def Let_def split: option.split)
  then have n: "update_mount j ?fs = ?fs" if "0 < j" "j < NMOUNT" for j
    using that sp by (intro update_mount_none) simp
  have "[0..<NMOUNT] = 0 # [1..<NMOUNT]" by (simp add: NMOUNT_def upt_conv_Cons)
  then have "update_superblocks fs = fold update_mount [1..<NMOUNT] ?fs"
    by (simp add: update_superblocks_def)
  also have "\<dots> = ?fs"
  proof -
    have "fold update_mount js ?fs = ?fs" if "\<forall>j\<in>set js. 0 < j \<and> j < NMOUNT" for js
      using that by (induction js) (simp_all add: n)
    then show ?thesis by simp
  qed
  finally show ?thesis .
qed

section \<open>Properties\<close>

text \<open>
  C6. \<open>Alloc\<close> and \<open>Free\<close> implement one stack of free blocks, of any depth, although the superblock
  holds 100 entries and the rest is chained through the free blocks themselves: every sequence of
  allocations and releases gives exactly the blocks a plain stack gives (last freed, first
  allocated), no block twice, none lost, as long as it neither pops the empty stack nor releases a
  block that is free already.
\<close>

theorem free_list_is_stack:
  assumes "stack_of fs dev i bs" and "stack_run (\<lambda>b. b \<noteq> 0 \<and> cint b) bs ops = Some (out, bs')"
  shows "\<exists>fs'. blk_run (\<lambda>fs. FS_Alloc fs dev) (\<lambda>stale fs b. FS_Free stale fs dev b) fs ops = Done (out, fs') \<and>
    stack_of fs' dev i bs'"
  using dev_pool.run_refines [OF assms] .

definition demo_sb :: superblock where
  "demo_sb = \<lparr>s_isize = 822, s_fsize = 18000, s_nfree = 6,
     s_free = [0, 1030, 1031, 1032, 1033, 1034] @ replicate 94 0,
     s_ninode = 0, s_inode = replicate 100 0, s_flock = 0, s_ilock = 0, s_fmod = 1, s_ronly = 0,
     s_time = 0, s_padding = replicate 47 0\<rparr>"

definition demo_fs :: fsys where
  "demo_fs = \<lparr>m_Mount = \<lparr>m_dev = 0, m_spb = Some demo_sb, m_inodep = None\<rparr> #
       replicate 4 \<lparr>m_dev = -1, m_spb = None, m_inodep = None\<rparr>,
     updlock = 0, disk = \<lambda>_ _. replicate 512 0, u_error = NOERROR, ktime = 7\<rparr>"

lemma demo_stack: "stack_of demo_fs 0 0 [1034, 1033, 1032, 1031, 1030]"
proof -
  have "free_chain (disk demo_fs 0) (int (Suc 5)) ([0, 1030, 1031, 1032, 1033, 1034] @ replicate 94 0)
      (rev (take 5 (tl ([0, 1030, 1031, 1032, 1033, 1034] @ replicate 94 0))))"
    by (rule free_chain.last) simp_all
  then have "free_chain (disk demo_fs 0) 6 ([0, 1030, 1031, 1032, 1033, 1034] @ replicate 94 0)
      [1034, 1033, 1032, 1031, 1030]"
    by (simp add: numeral_eq_Suc)
  then show ?thesis by (simp add: stack_of_def demo_fs_def demo_sb_def cint_def)
qed

theorem free_list_is_stack_witness:
  "\<exists>fs'. blk_run (\<lambda>fs. FS_Alloc fs 0) (\<lambda>stale fs b. FS_Free stale fs 0 b) demo_fs
      [AllocOp, FreeOp [] 2000, AllocOp, AllocOp] = Done ([Some 1034, Some 2000, Some 1033], fs') \<and>
    stack_of fs' 0 0 [1032, 1031, 1030]"
  by (rule free_list_is_stack [OF demo_stack]) (simp add: cint_def)

text \<open>
  C12. \<open>Update\<close> and \<open>LoadSuperBlock\<close> round trip: after the superblock of the root device was written
  to its two sectors, loading it gives the superblock that is in memory, field by field, with the
  modification flag clear and the current time.
\<close>

theorem update_then_load:
  assumes len: "length (m_Mount fs) = NMOUNT"
    and root: "m_dev (m_Mount fs ! 0) = ROOTDEV" "m_spb (m_Mount fs ! 0) = Some sb"
    and others: "\<forall>j. 0 < j \<and> j < NMOUNT \<longrightarrow> m_spb (m_Mount fs ! j) = None"
    and wf: "sb_wf sb" "cint (ktime fs)"
    and mod: "s_fmod sb \<noteq> 0" "s_ilock sb = 0" "s_flock sb = 0" "s_ronly sb = 0"
    and err: "u_error fs = NOERROR"
  shows "m_spb (m_Mount (update_superblocks fs) ! 0) = Some (sb\<lparr>s_fmod := 0, s_time := ktime fs\<rparr>) \<and>
    LoadSuperBlock (update_superblocks fs) = Done (update_superblocks fs)"
proof -
  let ?sb = "sb\<lparr>s_fmod := 0, s_time := ktime fs\<rparr>"
  let ?fs = "update_mount 0 fs"
  have u: "?fs = set_block ROOTDEV 201 (bytes_of (drop 128 (sb_ints ?sb)))
      (set_block ROOTDEV 200 (bytes_of (take 128 (sb_ints ?sb))) (set_sb 0 ?sb fs))"
    using root mod by (simp add: update_mount_def SUPER_BLOCK_SECTOR_NUMBER_def Let_def)
  have rb: "sb_of_ints (ints_of (disk ?fs ROOTDEV 200) @ ints_of (disk ?fs ROOTDEV 201)) = ?sb"
    using sb_read_back [OF sb_wf_update [OF wf]] by (simp add: u)
  have l0: "0 < length (m_Mount fs)" using len by (simp add: NMOUNT_def)
  have mt: "m_Mount ?fs = (m_Mount fs)[0 := (m_Mount fs ! 0)\<lparr>m_spb := Some ?sb\<rparr>]"
    by (simp add: u set_sb_def)
  then have m0: "m_Mount ?fs ! 0 = (m_Mount fs ! 0)\<lparr>m_spb := Some ?sb\<rparr>" using l0 by simp
  have sbeq: "?sb\<lparr>s_flock := 0, s_ilock := 0, s_ronly := 0, s_time := ktime fs\<rparr> = ?sb"
    using mod by (cases sb) simp
  have eq: "(m_Mount ?fs ! 0)\<lparr>m_dev := ROOTDEV, m_spb := Some ?sb\<rparr> = m_Mount ?fs ! 0"
    using m0 root by (cases "m_Mount fs ! 0") simp
  have e: "u_error ?fs = NOERROR" "ktime ?fs = ktime fs" using err by (simp_all add: u)
  have "LoadSuperBlock ?fs = Done (?fs\<lparr>m_Mount := (m_Mount ?fs)[0 := m_Mount ?fs ! 0]\<rparr>)"
    using rb e sbeq eq by (simp add: LoadSuperBlock_def SUPER_BLOCK_SECTOR_NUMBER_def Let_def)
  then have "LoadSuperBlock ?fs = Done ?fs" by (simp only: list_update_id) simp
  then show ?thesis using m0 update_root_only [OF len others] by simp
qed

theorem update_then_load_witness:
  "m_spb (m_Mount (update_superblocks demo_fs) ! 0) = Some (demo_sb\<lparr>s_fmod := 0, s_time := 7\<rparr>) \<and>
   LoadSuperBlock (update_superblocks demo_fs) = Done (update_superblocks demo_fs)"
proof -
  have o: "\<forall>j. 0 < j \<and> j < NMOUNT \<longrightarrow> m_spb (m_Mount demo_fs ! j) = None"
    by (auto simp: demo_fs_def NMOUNT_def nth_Cons')
  have w: "sb_wf demo_sb" by (simp add: sb_wf_def demo_sb_def sb_ints_def cint_def)
  have t: "ktime demo_fs = 7" by (simp add: demo_fs_def)
  show ?thesis
    using update_then_load [OF _ _ _ o w]
    by (simp add: demo_fs_def demo_sb_def NMOUNT_def ROOTDEV_def cint_def)
qed

text \<open>
  Running out of blocks: on the empty stack \<open>Alloc\<close> reports \<open>ENOSPC\<close> at most once; it leaves
  \<open>s_nfree\<close> at 0, so the next \<open>Alloc\<close> indexes the table at -1 (there is no test before
  \<open>s_free[--s_nfree]\<close>). A \<open>Free\<close> in between repairs the list and the block freed is the next allocated.
\<close>

theorem Alloc_when_exhausted:
  assumes "stack_of fs dev i []" and "FS_Alloc fs dev \<noteq> Fault"
  shows "\<exists>fs'. FS_Alloc fs dev = Done (None, fs') \<and> u_error fs' = ENOSPC \<and> FS_Alloc fs' dev = Fault \<and>
    (\<forall>b stale. b \<noteq> 0 \<and> cint b \<longrightarrow>
       (\<exists>f1 f2. FS_Free stale fs' dev b = Done f1 \<and> FS_Alloc f1 dev = Done (Some b, f2)))"
proof -
  from FS_Alloc_empty [OF assms(1)] assms(2) obtain fs' where fs': "FS_Alloc fs dev = Done (None, fs')"
    "u_error fs' = ENOSPC" "stack_of fs' dev i []" "FS_Alloc fs' dev = Fault" by blast
  with dev_pool.free_then_alloc [OF fs'(3)] show ?thesis by fastforce
qed

theorem Alloc_when_exhausted_witness:
  "\<exists>fs'. FS_Alloc (set_sb 0 (demo_sb\<lparr>s_nfree := 1\<rparr>) demo_fs) 0 = Done (None, fs') \<and>
     u_error fs' = ENOSPC \<and> FS_Alloc fs' 0 = Fault"
proof -
  let ?fs = "set_sb 0 (demo_sb\<lparr>s_nfree := 1\<rparr>) demo_fs"
  have "free_chain (disk ?fs 0) (int (Suc 0)) ([0, 1030, 1031, 1032, 1033, 1034] @ replicate 94 0)
      (rev (take 0 (tl ([0, 1030, 1031, 1032, 1033, 1034] @ replicate 94 0))))"
    by (rule free_chain.last) simp_all
  then have st: "stack_of ?fs 0 0 []"
    by (simp add: stack_of_def demo_fs_def demo_sb_def set_sb_def cint_def)
  have "FS_Alloc ?fs 0 \<noteq> Fault"
    by (simp add: FS_Alloc_def GetFS_def set_sb_def demo_fs_def demo_sb_def Let_def)
  from Alloc_when_exhausted [OF st this] show ?thesis by blast
qed

end
