(* ===== verification/Inode.thy ===== *)
theory Inode
  imports FileSys
begin

text \<open>
  The in-core inode of \<open>fs/INode.cpp\<close>: the map from logical to physical blocks (\<open>Bmap\<close>) with its six
  direct, two single-indirect and two double-indirect entries, truncation, reading and writing a
  file, and the copy of the inode in its disk sector.  Buffers that a routine holds are local
  tables; \<open>Bdwrite\<close>, \<open>Bawrite\<close> and \<open>Bwrite\<close> store the table in the block, \<open>Brelse\<close> drops it.
\<close>

section \<open>Model\<close>

record inode =
  i_flag :: u32
  i_mode :: u32
  i_count :: int
  i_nlink :: int
  i_dev :: int
  i_number :: int
  i_uid :: int
  i_gid :: int
  i_size :: int
  i_addr :: "int list"
  i_lastr :: int

definition ILOCK :: u32 where "ILOCK = 0x1"
definition IUPD :: u32 where "IUPD = 0x2"
definition IACC :: u32 where "IACC = 0x4"
definition IMOUNT :: u32 where "IMOUNT = 0x8"
definition IWANT :: u32 where "IWANT = 0x10"
definition ITEXT :: u32 where "ITEXT = 0x20"

definition IALLOC :: u32 where "IALLOC = 0x8000"
definition IFMT :: u32 where "IFMT = 0x6000"
definition IFDIR :: u32 where "IFDIR = 0x4000"
definition IFCHR :: u32 where "IFCHR = 0x2000"
definition IFBLK :: u32 where "IFBLK = 0x6000"
definition ILARG :: u32 where "ILARG = 0x1000"
definition ISUID :: u32 where "ISUID = 0x800"
definition ISGID :: u32 where "ISGID = 0x400"
definition ISVTX :: u32 where "ISVTX = 0x200"
definition IREAD :: u32 where "IREAD = 0x100"
definition IWRITE :: u32 where "IWRITE = 0x80"
definition IEXEC :: u32 where "IEXEC = 0x40"
definition IRWXU :: u32 where "IRWXU = IREAD OR IWRITE OR IEXEC"
definition IRWXG :: u32 where "IRWXG = drop_bit 3 IRWXU"
definition IRWXO :: u32 where "IRWXO = drop_bit 6 IRWXU"

definition SMALL_FILE_BLOCK :: int where "SMALL_FILE_BLOCK = 6"
definition LARGE_FILE_BLOCK :: int where "LARGE_FILE_BLOCK = 128 * 2 + 6"
definition HUGE_FILE_BLOCK :: int where "HUGE_FILE_BLOCK = 128 * 128 * 2 + 128 * 2 + 6"

text \<open>The state beyond the file system: \<open>Inode::rablock\<close> and the memory of the user process.\<close>

record ifs = fsys +
  rablock :: int
  umem :: "int \<Rightarrow> u8"

record ioparam =
  m_Base :: int
  m_Offset :: int
  m_Count :: int

definition new_inode :: inode where
  "new_inode = \<lparr>i_flag = 0, i_mode = 0, i_count = 0, i_nlink = 0, i_dev = -1, i_number = -1,
     i_uid = -1, i_gid = -1, i_size = 0, i_addr = replicate 10 0, i_lastr = -1\<rparr>"

definition Clean :: "inode \<Rightarrow> inode" where
  "Clean ip = ip\<lparr>i_mode := 0, i_nlink := 0, i_uid := -1, i_gid := -1, i_size := 0, i_lastr := -1,
     i_addr := replicate 10 0\<rparr>"

subsection \<open>\<open>Bmap\<close>\<close>

definition bmap_small :: "'a ifs_scheme \<Rightarrow> inode \<Rightarrow> int \<Rightarrow> (int \<times> inode \<times> 'a ifs_scheme) kcall" where
  "bmap_small fs ip lbn =
     (let phyBlkno = i_addr ip ! nat lbn in
      kbind (if phyBlkno = 0
             then kbind (FS_Alloc fs (i_dev ip)) (\<lambda>(pb, fs).
               case pb of
                 None \<Rightarrow> Done (0, ip, fs)
               | Some b \<Rightarrow>
                   Done (b, ip\<lparr>i_addr := (i_addr ip)[nat lbn := b], i_flag := set_flag (i_flag ip) IUPD\<rparr>,
                         set_block (i_dev ip) b cleared_buf fs))
             else Done (phyBlkno, ip, fs))
        (\<lambda>(phyBlkno, ip, fs).
           Done (phyBlkno, ip,
                 fs\<lparr>rablock := if lbn \<le> 4 then i_addr ip ! nat (lbn + 1) else 0\<rparr>)))"

text \<open>The entry of \<open>i_addr\<close> and the positions in the index tables.\<close>

definition addr_index :: "int \<Rightarrow> int" where
  "addr_index lbn =
     (if lbn < LARGE_FILE_BLOCK then (lbn - SMALL_FILE_BLOCK) div 128 + 6
      else (lbn - LARGE_FILE_BLOCK) div (128 * 128) + 8)"

definition second_index :: "int \<Rightarrow> int" where
  "second_index lbn = ((lbn - LARGE_FILE_BLOCK) div 128) mod 128"

definition final_index :: "int \<Rightarrow> int" where
  "final_index lbn =
     (if lbn < LARGE_FILE_BLOCK then (lbn - SMALL_FILE_BLOCK) mod 128
      else (lbn - LARGE_FILE_BLOCK) mod 128)"

text \<open>First table: \<open>pFirstBuf\<close> as its block number and its 128 words; \<open>None\<close> when none can be allocated.\<close>

definition first_table :: "'a ifs_scheme \<Rightarrow> inode \<Rightarrow> int \<Rightarrow>
    ((int \<times> int list) option \<times> inode \<times> 'a ifs_scheme) kcall" where
  "first_table fs ip index =
     (let phyBlkno = i_addr ip ! nat index in
      if phyBlkno = 0
      then let ip = ip\<lparr>i_flag := set_flag (i_flag ip) IUPD\<rparr> in
        kbind (FS_Alloc fs (i_dev ip)) (\<lambda>(pb, fs).
          case pb of
            None \<Rightarrow> Done (None, ip, fs)
          | Some b \<Rightarrow> Done (Some (b, ints_of cleared_buf),
                            ip\<lparr>i_addr := (i_addr ip)[nat index := b]\<rparr>, fs))
      else Done (Some (phyBlkno, ints_of (disk fs (i_dev ip) phyBlkno)), ip, fs))"

text \<open>From a double-indirect table to the single-indirect table of the block.\<close>

definition second_table :: "'a ifs_scheme \<Rightarrow> int \<Rightarrow> int \<times> int list \<Rightarrow> int \<Rightarrow>
    ((int \<times> int list) option \<times> 'a ifs_scheme) kcall" where
  "second_table fs dev first index =
     (let phyBlkno = snd first ! nat index in
      if phyBlkno = 0
      then kbind (FS_Alloc fs dev) (\<lambda>(pb, fs).
        case pb of
          None \<Rightarrow> Done (None, fs)
        | Some b \<Rightarrow> Done (Some (b, ints_of cleared_buf),
                          set_block dev (fst first) (bytes_of ((snd first)[nat index := b])) fs))
      else Done (Some (phyBlkno, ints_of (disk fs dev phyBlkno)), fs))"

text \<open>The entry of the single-indirect table; the read-ahead block is the entry after it.\<close>

definition final_entry :: "'a ifs_scheme \<Rightarrow> int \<Rightarrow> int \<times> int list \<Rightarrow> int \<Rightarrow> (int \<times> 'a ifs_scheme) kcall" where
  "final_entry fs dev tbl index =
     (let phyBlkno = snd tbl ! nat index in
      kbind (if phyBlkno = 0
             then kbind (FS_Alloc fs dev) (\<lambda>(pb, fs).
               case pb of
                 None \<Rightarrow> Done (0, snd tbl, fs)
               | Some b \<Rightarrow>
                   let t = (snd tbl)[nat index := b]
                   in Done (b, t, set_block dev (fst tbl) (bytes_of t) (set_block dev b cleared_buf fs)))
             else Done (phyBlkno, snd tbl, fs))
        (\<lambda>(phyBlkno, t, fs).
           Done (phyBlkno, fs\<lparr>rablock := if index + 1 < 128 then t ! nat (index + 1) else 0\<rparr>)))"

definition bmap_large :: "'a ifs_scheme \<Rightarrow> inode \<Rightarrow> int \<Rightarrow> (int \<times> inode \<times> 'a ifs_scheme) kcall" where
  "bmap_large fs ip lbn =
     kbind (first_table fs ip (addr_index lbn)) (\<lambda>(first, ip, fs).
       case first of
         None \<Rightarrow> Done (0, ip, fs)
       | Some tbl \<Rightarrow>
           kbind (if addr_index lbn \<ge> 8 then second_table fs (i_dev ip) tbl (second_index lbn)
                  else Done (Some tbl, fs))
             (\<lambda>(second, fs).
                case second of
                  None \<Rightarrow> Done (0, ip, fs)
                | Some tbl \<Rightarrow>
                    kbind (final_entry fs (i_dev ip) tbl (final_index lbn))
                      (\<lambda>(phyBlkno, fs). Done (phyBlkno, ip, fs))))"

definition Bmap :: "'a ifs_scheme \<Rightarrow> inode \<Rightarrow> int \<Rightarrow> (int \<times> inode \<times> 'a ifs_scheme) kcall" where
  "Bmap fs ip lbn =
     (if lbn \<ge> HUGE_FILE_BLOCK then Done (0, ip, fs\<lparr>u_error := EFBIG\<rparr>)
      else if lbn < 0 then Fault
      else if lbn < 6 then bmap_small fs ip lbn
      else bmap_large fs ip lbn)"

subsection \<open>Truncation\<close>

text \<open>\<open>stale b\<close> is what the buffer holds that \<open>Free\<close> takes for block \<open>b\<close>.\<close>

fun free_entries :: "(int \<Rightarrow> u8 list) \<Rightarrow> int \<Rightarrow> int list \<Rightarrow> 'a ifs_scheme \<Rightarrow> 'a ifs_scheme kcall" where
  "free_entries stale dev [] fs = Done fs"
| "free_entries stale dev (e # es) fs =
     (if e \<noteq> 0 then kbind (FS_Free (stale e) fs dev e) (free_entries stale dev es)
      else free_entries stale dev es fs)"

fun free_tables :: "(int \<Rightarrow> u8 list) \<Rightarrow> int \<Rightarrow> bool \<Rightarrow> int list \<Rightarrow> 'a ifs_scheme \<Rightarrow> 'a ifs_scheme kcall" where
  "free_tables stale dev dbl [] fs = Done fs"
| "free_tables stale dev dbl (e # es) fs =
     (if e \<noteq> 0
      then kbind (if dbl then free_entries stale dev (rev (ints_of (disk fs dev e))) fs else Done fs)
             (\<lambda>fs. kbind (FS_Free (stale e) fs dev e) (free_tables stale dev dbl es))
      else free_tables stale dev dbl es fs)"

definition trunc_entry :: "(int \<Rightarrow> u8 list) \<Rightarrow> nat \<Rightarrow> inode \<times> 'a ifs_scheme \<Rightarrow> (inode \<times> 'a ifs_scheme) kcall" where
  "trunc_entry stale i = (\<lambda>(ip, fs).
     let a = i_addr ip ! i; dev = i_dev ip in
     if a \<noteq> 0
     then kbind (if 6 \<le> i \<and> i \<le> 9 then free_tables stale dev (8 \<le> i) (rev (ints_of (disk fs dev a))) fs
                 else Done fs)
            (\<lambda>fs. kbind (FS_Free (stale a) fs dev a)
              (\<lambda>fs. Done (ip\<lparr>i_addr := (i_addr ip)[i := 0]\<rparr>, fs)))
     else Done (ip, fs))"

fun trunc_loop :: "(int \<Rightarrow> u8 list) \<Rightarrow> nat list \<Rightarrow> inode \<times> 'a ifs_scheme \<Rightarrow> (inode \<times> 'a ifs_scheme) kcall" where
  "trunc_loop stale [] s = Done s"
| "trunc_loop stale (i # is) s = kbind (trunc_entry stale i s) (trunc_loop stale is)"

definition ITrunc :: "(int \<Rightarrow> u8 list) \<Rightarrow> inode \<Rightarrow> 'a ifs_scheme \<Rightarrow> (inode \<times> 'a ifs_scheme) kcall" where
  "ITrunc stale ip fs =
     (if has_flag (i_mode ip) (IFCHR AND IFBLK) then Done (ip, fs)
      else kbind (trunc_loop stale [9, 8, 7, 6, 5, 4, 3, 2, 1, 0] (ip, fs)) (\<lambda>(ip, fs).
        Done (ip\<lparr>i_size := 0, i_flag := set_flag (i_flag ip) IUPD,
                 i_mode := clear_flag (i_mode ip) (ILARG AND IRWXU AND IRWXG AND IRWXO),
                 i_nlink := 1\<rparr>, fs)))"

subsection \<open>Reading and writing a file\<close>

text \<open>\<open>Utility::IOMove\<close> between a buffer and user memory.\<close>

definition store_bytes :: "(int \<Rightarrow> u8) \<Rightarrow> int \<Rightarrow> u8 list \<Rightarrow> int \<Rightarrow> u8" where
  "store_bytes mem base bs = (\<lambda>a. if base \<le> a \<and> a < base + int (length bs) then bs ! nat (a - base) else mem a)"

definition load_bytes :: "(int \<Rightarrow> u8) \<Rightarrow> int \<Rightarrow> nat \<Rightarrow> u8 list" where
  "load_bytes mem base n = map (\<lambda>i. mem (base + int i)) [0..<n]"

definition io_advance :: "ioparam \<Rightarrow> int \<Rightarrow> ioparam" where
  "io_advance io n = io\<lparr>m_Base := m_Base io + n, m_Offset := m_Offset io + n, m_Count := m_Count io - n\<rparr>"

text \<open>
  One round of the loop of \<open>ReadI\<close>: \<open>False\<close> when the loop is left.  A negative offset or count indexes
  outside \<open>i_addr\<close> or the buffer.
\<close>

definition read_step :: "inode \<Rightarrow> ioparam \<Rightarrow> 'a ifs_scheme \<Rightarrow> (bool \<times> inode \<times> ioparam \<times> 'a ifs_scheme) kcall" where
  "read_step ip io fs =
     (let lbn = m_Offset io div 512; offset = m_Offset io mod 512;
          nbytes = min (512 - offset) (m_Count io);
          remain = i_size ip - m_Offset io;
          special = (i_mode ip AND IFMT = IFBLK)
      in if m_Offset io < 0 \<or> m_Count io < 0 then Fault
         else if \<not> special \<and> remain \<le> 0 then Done (False, ip, io, fs)
         else
           let nbytes = (if special then nbytes else min nbytes remain) in
           kbind (if special then Done (lbn, ip, fs\<lparr>rablock := lbn + 1\<rparr>) else Bmap fs ip lbn)
             (\<lambda>(bn, ip, fs).
                if \<not> special \<and> bn = 0 then Done (False, ip, io, fs)
                else
                  let dev = (if special then i_addr ip ! 0 else i_dev ip);
                      data = take (nat nbytes) (drop (nat offset) (disk fs dev bn))
                  in Done (True, ip\<lparr>i_lastr := lbn\<rparr>, io_advance io nbytes,
                           fs\<lparr>umem := store_bytes (umem fs) (m_Base io) data\<rparr>)))"

lemma read_step_decreases:
  assumes "read_step ip io fs = Done (True, ip', io', fs')" "m_Count io \<noteq> 0"
  shows "nat (m_Count io') < nat (m_Count io)"
proof -
  have o: "m_Offset io mod 512 < 512" by simp
  let ?special = "i_mode ip AND IFMT = IFBLK"
  let ?n = "if ?special then min (512 - m_Offset io mod 512) (m_Count io)
    else min (min (512 - m_Offset io mod 512) (m_Count io)) (i_size ip - m_Offset io)"
  from assms(1) have c: "\<not> m_Count io < 0" and "?special \<or> 0 < i_size ip - m_Offset io"
    and io': "io' = io_advance io ?n"
    by (auto simp: read_step_def Let_def kbind_Done split: if_splits)
  with o assms(2) have "0 < ?n" "?n \<le> m_Count io" by auto
  then show ?thesis using io' c by (simp add: io_advance_def)
qed

function read_loop :: "inode \<Rightarrow> ioparam \<Rightarrow> 'a ifs_scheme \<Rightarrow> (inode \<times> ioparam \<times> 'a ifs_scheme) kcall" where
  "read_loop ip io fs =
     (if u_error fs \<noteq> NOERROR \<or> m_Count io = 0 then Done (ip, io, fs)
      else case read_step ip io fs of
          Done (go, ip, io, fs) \<Rightarrow> if go then read_loop ip io fs else Done (ip, io, fs)
        | Asleep \<Rightarrow> Asleep | Panic \<Rightarrow> Panic | Fault \<Rightarrow> Fault)"
  by pat_completeness auto
termination
  by (relation "measure (\<lambda>(ip, io, fs). nat (m_Count io))") (auto dest: read_step_decreases)

text \<open>\<open>ReadI\<close> and \<open>WriteI\<close>; the read and write routines of a character device are parameters.\<close>

definition ReadI :: "(int \<Rightarrow> inode \<times> ioparam \<times> 'a ifs_scheme \<Rightarrow> (inode \<times> ioparam \<times> 'a ifs_scheme) kcall) \<Rightarrow>
    inode \<Rightarrow> ioparam \<Rightarrow> 'a ifs_scheme \<Rightarrow> (inode \<times> ioparam \<times> 'a ifs_scheme) kcall" where
  "ReadI cdRead ip io fs =
     (if m_Count io = 0 then Done (ip, io, fs)
      else
        let ip = ip\<lparr>i_flag := set_flag (i_flag ip) IACC\<rparr>
        in if i_mode ip AND IFMT = IFCHR then cdRead (i_addr ip ! 0) (ip, io, fs)
           else read_loop ip io fs)"

text \<open>
  One round of \<open>WriteI\<close>.  For a block special file \<open>bn\<close> is never assigned, so the code uses an
  uninitialised variable there.
\<close>

definition write_step :: "inode \<Rightarrow> ioparam \<Rightarrow> 'a ifs_scheme \<Rightarrow> (bool \<times> inode \<times> ioparam \<times> 'a ifs_scheme) kcall" where
  "write_step ip io fs =
     (let lbn = m_Offset io div 512; offset = m_Offset io mod 512;
          nbytes = min (512 - offset) (m_Count io)
      in if m_Offset io < 0 \<or> m_Count io < 0 \<or> i_mode ip AND IFMT = IFBLK then Fault
         else kbind (Bmap fs ip lbn) (\<lambda>(bn, ip, fs).
           if bn = 0 then Done (False, ip, io, fs)
           else
             let old = disk fs (i_dev ip) bn;
                 data = load_bytes (umem fs) (m_Base io) (nat nbytes);
                 new = take (nat offset) old @ data @ drop (nat (offset + nbytes)) old;
                 io = io_advance io nbytes;
                 ip = (if i_size ip < m_Offset io \<and> i_mode ip AND (IFBLK AND IFCHR) = 0
                       then ip\<lparr>i_size := m_Offset io\<rparr> else ip)
             in Done (True, ip\<lparr>i_flag := set_flag (i_flag ip) IUPD\<rparr>, io,
                      set_block (i_dev ip) bn new fs)))"

lemma write_step_decreases:
  assumes "write_step ip io fs = Done (True, ip', io', fs')" "m_Count io \<noteq> 0"
  shows "nat (m_Count io') < nat (m_Count io)"
proof -
  have o: "m_Offset io mod 512 < 512" by simp
  let ?n = "min (512 - m_Offset io mod 512) (m_Count io)"
  from assms(1) have c: "\<not> m_Count io < 0" and io': "io' = io_advance io ?n"
    by (auto simp: write_step_def Let_def kbind_Done split: if_splits)
  with o assms(2) have "0 < ?n" "?n \<le> m_Count io" by auto
  then show ?thesis using io' c by (simp add: io_advance_def)
qed

function write_loop :: "inode \<Rightarrow> ioparam \<Rightarrow> 'a ifs_scheme \<Rightarrow> (inode \<times> ioparam \<times> 'a ifs_scheme) kcall" where
  "write_loop ip io fs =
     (if u_error fs \<noteq> NOERROR \<or> m_Count io = 0 then Done (ip, io, fs)
      else case write_step ip io fs of
          Done (go, ip, io, fs) \<Rightarrow> if go then write_loop ip io fs else Done (ip, io, fs)
        | Asleep \<Rightarrow> Asleep | Panic \<Rightarrow> Panic | Fault \<Rightarrow> Fault)"
  by pat_completeness auto
termination
  by (relation "measure (\<lambda>(ip, io, fs). nat (m_Count io))") (auto dest: write_step_decreases)

definition WriteI :: "(int \<Rightarrow> inode \<times> ioparam \<times> 'a ifs_scheme \<Rightarrow> (inode \<times> ioparam \<times> 'a ifs_scheme) kcall) \<Rightarrow>
    inode \<Rightarrow> ioparam \<Rightarrow> 'a ifs_scheme \<Rightarrow> (inode \<times> ioparam \<times> 'a ifs_scheme) kcall" where
  "WriteI cdWrite ip io fs =
     (let ip = ip\<lparr>i_flag := set_flag (i_flag ip) (IACC OR IUPD)\<rparr>
      in if i_mode ip AND IFMT = IFCHR then cdWrite (i_addr ip ! 0) (ip, io, fs)
         else if m_Count io = 0 then Done (ip, io, fs)
         else write_loop ip io fs)"

declare read_loop.simps [simp del] write_loop.simps [simp del]

subsection \<open>The inode on disk\<close>

text \<open>A disk inode is 16 words: mode, links, the two 16-bit owners in one word, size, ten block
  numbers, access and modification time.\<close>

definition pack_shorts :: "int \<Rightarrow> int \<Rightarrow> int" where
  "pack_shorts lo hi = sint (word_of_int (lo mod 2 ^ 16 + 2 ^ 16 * (hi mod 2 ^ 16)) :: u32)"

definition short_lo :: "int \<Rightarrow> int" where
  "short_lo w = sint (word_of_int w :: u16)"

definition short_hi :: "int \<Rightarrow> int" where
  "short_hi w = sint (word_of_int (w div 2 ^ 16) :: u16)"

definition dinode_words :: "inode \<Rightarrow> int \<Rightarrow> int list" where
  "dinode_words ip tm =
     [sint (i_mode ip), i_nlink ip, pack_shorts (i_uid ip) (i_gid ip), i_size ip] @ i_addr ip @
     [if has_flag (i_flag ip) IACC then tm else 0, if has_flag (i_flag ip) IUPD then tm else 0]"

definition dinode_pos :: "inode \<Rightarrow> nat" where
  "dinode_pos ip = nat (i_number ip mod INODE_NUMBER_PER_SECTOR) * 16"

definition dinode_sector :: "inode \<Rightarrow> int" where
  "dinode_sector ip = INODE_ZONE_START_SECTOR + i_number ip div INODE_NUMBER_PER_SECTOR"

definition IUpdate :: "inode \<Rightarrow> int \<Rightarrow> 'a fsys_scheme \<Rightarrow> 'a fsys_scheme kcall" where
  "IUpdate ip tm fs =
     (if has_flag (i_flag ip) (IUPD OR IACC)
      then kbind (GetFS fs (i_dev ip)) (\<lambda>(i, sb, fs).
        if s_ronly sb \<noteq> 0 then Done fs
        else
          let p = ints_of (disk fs (i_dev ip) (dinode_sector ip))
          in Done (set_block (i_dev ip) (dinode_sector ip)
               (bytes_of (take (dinode_pos ip) p @ dinode_words ip tm @ drop (dinode_pos ip + 16) p)) fs))
      else Done fs)"

definition ICopy :: "inode \<Rightarrow> u8 list \<Rightarrow> int \<Rightarrow> inode" where
  "ICopy ip blk inumber =
     (let p = drop (nat (inumber mod INODE_NUMBER_PER_SECTOR) * 16) (ints_of blk)
      in ip\<lparr>i_mode := word_of_int (p ! 0), i_nlink := p ! 1, i_uid := short_lo (p ! 2),
            i_gid := short_hi (p ! 2), i_size := p ! 3, i_addr := take 10 (drop 4 p)\<rparr>)"

subsection \<open>Locks\<close>

text \<open>One round of the loop of \<open>NFlock\<close> and \<open>Plock\<close> (\<open>False\<close>: sleep and try again), and their release
  (\<open>True\<close>: wake up all processes that sleep on the inode).\<close>

definition lock_round :: "inode \<Rightarrow> bool \<times> inode" where
  "lock_round ip =
     (if has_flag (i_flag ip) ILOCK then (False, ip\<lparr>i_flag := set_flag (i_flag ip) IWANT\<rparr>)
      else (True, ip\<lparr>i_flag := set_flag (i_flag ip) ILOCK\<rparr>))"

definition unlock :: "inode \<Rightarrow> bool \<times> inode" where
  "unlock ip =
     (let ip = ip\<lparr>i_flag := clear_flag (i_flag ip) ILOCK\<rparr>
      in if has_flag (i_flag ip) IWANT then (True, ip\<lparr>i_flag := clear_flag (i_flag ip) IWANT\<rparr>)
         else (False, ip))"

section \<open>Truncation gives back every block of the file\<close>

text \<open>The blocks of the tree under \<open>i_addr\<close>, in the order in which \<open>ITrunc\<close> frees them.\<close>

definition leaf_blocks :: "(int \<Rightarrow> u8 list) \<Rightarrow> int \<Rightarrow> int list" where
  "leaf_blocks dk e = filter (\<lambda>x. x \<noteq> 0) (rev (ints_of (dk e)))"

definition table_blocks :: "(int \<Rightarrow> u8 list) \<Rightarrow> bool \<Rightarrow> int list \<Rightarrow> int list" where
  "table_blocks dk dbl es =
     concat (map (\<lambda>e. if e = 0 then [] else (if dbl then leaf_blocks dk e else []) @ [e]) es)"

definition entry_blocks :: "(int \<Rightarrow> u8 list) \<Rightarrow> nat \<Rightarrow> int \<Rightarrow> int list" where
  "entry_blocks dk i a =
     (if a = 0 then []
      else (if 6 \<le> i \<and> i \<le> 9 then table_blocks dk (8 \<le> i) (rev (ints_of (dk a))) else []) @ [a])"

definition file_blocks :: "(int \<Rightarrow> u8 list) \<Rightarrow> int list \<Rightarrow> int list" where
  "file_blocks dk addr = concat (map (\<lambda>i. entry_blocks dk i (addr ! i)) [9, 8, 7, 6, 5, 4, 3, 2, 1, 0])"

definition gave_back :: "int \<Rightarrow> nat \<Rightarrow> int list \<Rightarrow> 'a fsys_scheme \<Rightarrow> int list \<Rightarrow> 'a fsys_scheme \<Rightarrow> bool" where
  "gave_back dev m bs fs xs fs' \<longleftrightarrow>
     stack_of fs' dev m (rev xs @ bs) \<and> (\<forall>b. b \<notin> set xs \<longrightarrow> disk fs' dev b = disk fs dev b)"

lemma gave_back_nil: "stack_of fs dev m bs \<Longrightarrow> gave_back dev m bs fs [] fs"
  by (simp add: gave_back_def)

lemma gave_back_trans:
  "gave_back dev m bs fs xs f1 \<Longrightarrow> gave_back dev m (rev xs @ bs) f1 ys f2 \<Longrightarrow>
   gave_back dev m bs fs (xs @ ys) f2"
  by (simp add: gave_back_def)

lemma gave_back_stack: "gave_back dev m bs fs xs fs' \<Longrightarrow> stack_of fs' dev m (rev xs @ bs)"
  by (simp add: gave_back_def)

lemma gave_back_one:
  assumes "stack_of fs dev m bs" "b \<notin> set bs" "b \<noteq> 0" "cint b"
  shows "\<exists>fs'. FS_Free st fs dev b = Done fs' \<and> gave_back dev m bs fs [b] fs'"
  using FS_Free_push [OF assms, of st] by (auto simp: gave_back_def)

lemma ints_of_cint: "x \<in> set (ints_of bs) \<Longrightarrow> cint x"
  by (auto simp: ints_of_def)

lemma free_entries_gives:
  assumes "stack_of fs dev m bs" "distinct (filter (\<lambda>x. x \<noteq> 0) es @ bs)" "\<forall>e\<in>set es. cint e"
  shows "\<exists>fs'. free_entries stale dev es fs = Done fs' \<and>
     gave_back dev m bs fs (filter (\<lambda>x. x \<noteq> 0) es) fs'"
  using assms
proof (induction es arbitrary: fs bs)
  case Nil
  then show ?case by (simp add: gave_back_nil)
next
  case (Cons e es)
  show ?case
  proof (cases "e = 0")
    case True
    with Cons show ?thesis by simp
  next
    case False
    obtain f1 where f1: "FS_Free (stale e) fs dev e = Done f1" "gave_back dev m bs fs [e] f1"
      using gave_back_one [OF Cons.prems(1), of e "stale e"] Cons.prems(2,3) False by auto
    from gave_back_stack [OF f1(2)] have st: "stack_of f1 dev m (e # bs)" by simp
    obtain f2 where f2: "free_entries stale dev es f1 = Done f2"
      "gave_back dev m (e # bs) f1 (filter (\<lambda>x. x \<noteq> 0) es) f2"
      using Cons.IH [OF st] Cons.prems(2,3) False by auto
    show ?thesis using gave_back_trans [OF f1(2), of "filter (\<lambda>x. x \<noteq> 0) es" f2] f1 f2 False by simp
  qed
qed

lemma table_blocks_Cons:
  "table_blocks dk dbl (e # es) =
     (if e = 0 then [] else (if dbl then leaf_blocks dk e else []) @ [e]) @ table_blocks dk dbl es"
  by (simp add: table_blocks_def)

lemma table_blocks_cong:
  "(\<And>e. e \<in> set es \<Longrightarrow> e \<noteq> 0 \<Longrightarrow> dk' e = dk e) \<Longrightarrow> table_blocks dk' dbl es = table_blocks dk dbl es"
  by (induction es) (simp_all add: table_blocks_Cons leaf_blocks_def table_blocks_def)

lemma table_blocks_mem: "e \<in> set es \<Longrightarrow> e \<noteq> 0 \<Longrightarrow> e \<in> set (table_blocks dk dbl es)"
  by (auto simp: table_blocks_def)

lemma free_tables_gives:
  assumes "stack_of fs dev m bs" "distinct (table_blocks (disk fs dev) dbl es @ bs)" "\<forall>e\<in>set es. cint e"
  shows "\<exists>fs'. free_tables stale dev dbl es fs = Done fs' \<and>
     gave_back dev m bs fs (table_blocks (disk fs dev) dbl es) fs'"
  using assms
proof (induction es arbitrary: fs bs)
  case Nil
  then show ?case by (simp add: gave_back_nil table_blocks_def)
next
  case (Cons e es)
  show ?case
  proof (cases "e = 0")
    case True
    with Cons show ?thesis by (simp add: table_blocks_Cons)
  next
    case False
    let ?lv = "if dbl then leaf_blocks (disk fs dev) e else []"
    let ?rest = "table_blocks (disk fs dev) dbl es"
    have d: "distinct (?lv @ e # ?rest @ bs)"
      using Cons.prems(2) False by (simp add: table_blocks_Cons)
    obtain f1 where f1: "(if dbl then free_entries stale dev (rev (ints_of (disk fs dev e))) fs else Done fs) = Done f1"
      "gave_back dev m bs fs ?lv f1"
    proof (cases dbl)
      case True
      have "\<exists>fs'. free_entries stale dev (rev (ints_of (disk fs dev e))) fs = Done fs' \<and>
          gave_back dev m bs fs (filter (\<lambda>x. x \<noteq> 0) (rev (ints_of (disk fs dev e)))) fs'"
        using d True Cons.prems(1) by (intro free_entries_gives) (auto simp: leaf_blocks_def ints_of_cint)
      with True that show ?thesis by (auto simp: leaf_blocks_def)
    qed (use that Cons.prems(1) in \<open>simp add: gave_back_nil\<close>)
    obtain f2 where f2: "FS_Free (stale e) f1 dev e = Done f2" "gave_back dev m (rev ?lv @ bs) f1 [e] f2"
      using gave_back_one [OF gave_back_stack [OF f1(2)], of e "stale e"] d Cons.prems(3) False by auto
    note g2 = gave_back_trans [OF f1(2) f2(2)]
    have same: "table_blocks (disk f2 dev) dbl es = ?rest"
    proof (rule table_blocks_cong)
      fix x
      assume "x \<in> set es" "x \<noteq> 0"
      then have "x \<in> set ?rest" by (rule table_blocks_mem)
      with d have "x \<notin> set (?lv @ [e])" by auto
      with g2 show "disk f2 dev x = disk fs dev x" by (simp add: gave_back_def)
    qed
    have "\<exists>fs'. free_tables stale dev dbl es f2 = Done fs' \<and>
        gave_back dev m (rev (?lv @ [e]) @ bs) f2 (table_blocks (disk f2 dev) dbl es) fs'"
      by (rule Cons.IH [OF gave_back_stack [OF g2]]) (use d same Cons.prems(3) in auto)
    then obtain f3 where f3: "free_tables stale dev dbl es f2 = Done f3"
      "gave_back dev m (rev (?lv @ [e]) @ bs) f2 ?rest f3" unfolding same by blast
    show ?thesis using gave_back_trans [OF g2 f3(2)] f1(1) f2(1) f3(1) False
      by (auto simp: table_blocks_Cons)
  qed
qed

definition entries_blocks :: "(int \<Rightarrow> u8 list) \<Rightarrow> int list \<Rightarrow> nat list \<Rightarrow> int list" where
  "entries_blocks dk addr is = concat (map (\<lambda>i. entry_blocks dk i (addr ! i)) is)"

lemma entry_blocks_cong:
  assumes "a \<noteq> 0 \<Longrightarrow> dk' a = dk a"
    and "\<And>b. b \<in> set (entry_blocks dk i a) \<Longrightarrow> dk' b = dk b"
  shows "entry_blocks dk' i a = entry_blocks dk i a"
proof (cases "a = 0 \<or> \<not> (6 \<le> i \<and> i \<le> 9)")
  case False
  then have a: "dk' a = dk a" and i: "6 \<le> i \<and> i \<le> 9" and nz: "a \<noteq> 0" using assms(1) by auto
  have "table_blocks dk' (8 \<le> i) (rev (ints_of (dk a))) = table_blocks dk (8 \<le> i) (rev (ints_of (dk a)))"
  proof (rule table_blocks_cong)
    fix e
    assume "e \<in> set (rev (ints_of (dk a)))" "e \<noteq> 0"
    then have "e \<in> set (table_blocks dk (8 \<le> i) (rev (ints_of (dk a))))" by (rule table_blocks_mem)
    then show "dk' e = dk e" using assms(2) i nz by (simp add: entry_blocks_def)
  qed
  with a i nz show ?thesis by (simp add: entry_blocks_def)
qed (auto simp: entry_blocks_def)

lemma entry_blocks_self: "a \<noteq> 0 \<Longrightarrow> a \<in> set (entry_blocks dk i a)"
  by (simp add: entry_blocks_def)

lemma trunc_entry_gives:
  fixes fs :: "'a ifs_scheme"
  assumes st: "stack_of fs (i_dev ip) m bs" and a: "i_addr ip ! i = a" "cint a"
    and d: "distinct (entry_blocks (disk fs (i_dev ip)) i a @ bs)"
    and i: "i < length (i_addr ip)"
  shows "\<exists>fs'. trunc_entry stale i (ip, fs) = Done (ip\<lparr>i_addr := (i_addr ip)[i := 0]\<rparr>, fs') \<and>
     gave_back (i_dev ip) m bs fs (entry_blocks (disk fs (i_dev ip)) i a) fs'"
proof (cases "a = 0")
  case True
  have "ip\<lparr>i_addr := (i_addr ip)[i := 0]\<rparr> = ip"
    using True a by (cases ip) (metis inode.surjective inode.update_convs(10) list_update_id inode.select_convs(10))
  with True a st show ?thesis by (simp add: trunc_entry_def entry_blocks_def gave_back_nil)
next
  case False
  let ?dev = "i_dev ip"
  let ?ind = "6 \<le> i \<and> i \<le> 9"
  let ?tb = "if ?ind then table_blocks (disk fs ?dev) (8 \<le> i) (rev (ints_of (disk fs ?dev a))) else []"
  have d': "distinct (?tb @ a # bs)" using d False by (simp add: entry_blocks_def)
  obtain f1 where f1: "(if ?ind then free_tables stale ?dev (8 \<le> i) (rev (ints_of (disk fs ?dev a))) fs else Done fs) = Done f1"
    "gave_back ?dev m bs fs ?tb f1"
  proof (cases ?ind)
    case True
    have "\<exists>fs'. free_tables stale ?dev (8 \<le> i) (rev (ints_of (disk fs ?dev a))) fs = Done fs' \<and>
        gave_back ?dev m bs fs (table_blocks (disk fs ?dev) (8 \<le> i) (rev (ints_of (disk fs ?dev a)))) fs'"
      using d' True st by (intro free_tables_gives) (auto simp: ints_of_cint)
    with True that show ?thesis by auto
  qed (use that st in \<open>auto simp: gave_back_nil\<close>)
  obtain f2 where f2: "FS_Free (stale a) f1 ?dev a = Done f2" "gave_back ?dev m (rev ?tb @ bs) f1 [a] f2"
    using gave_back_one [OF gave_back_stack [OF f1(2)], of a "stale a"] d' a(2) False by auto
  show ?thesis using gave_back_trans [OF f1(2) f2(2)] f1(1) f2(1) False a(1)
    by (auto simp: trunc_entry_def entry_blocks_def Let_def)
qed

lemma trunc_loop_gives:
  fixes fs :: "'a ifs_scheme"
  assumes "stack_of fs (i_dev ip) m bs" "distinct (entries_blocks (disk fs (i_dev ip)) (i_addr ip) is @ bs)"
    "\<forall>a\<in>set (i_addr ip). cint a" "distinct is" "\<forall>i\<in>set is. i < length (i_addr ip)"
  shows "\<exists>fs'. trunc_loop stale is (ip, fs) =
      Done (ip\<lparr>i_addr := fold (\<lambda>i xs. xs[i := 0]) is (i_addr ip)\<rparr>, fs') \<and>
     gave_back (i_dev ip) m bs fs (entries_blocks (disk fs (i_dev ip)) (i_addr ip) is) fs'"
  using assms
proof (induction "is" arbitrary: ip fs bs)
  case Nil
  then show ?case by (simp add: gave_back_nil entries_blocks_def)
next
  case (Cons i js)
  let ?dev = "i_dev ip" and ?a = "i_addr ip ! i"
  let ?ip = "ip\<lparr>i_addr := (i_addr ip)[i := 0]\<rparr>"
  let ?e = "entry_blocks (disk fs ?dev) i ?a"
  have split: "entries_blocks (disk fs ?dev) (i_addr ip) (i # js) =
      ?e @ entries_blocks (disk fs ?dev) (i_addr ip) js" by (simp add: entries_blocks_def)
  have ci: "cint ?a" using Cons.prems(3,5) by simp
  obtain f1 where f1: "trunc_entry stale i (ip, fs) = Done (?ip, f1)" "gave_back ?dev m bs fs ?e f1"
    using trunc_entry_gives [OF Cons.prems(1) refl ci, of stale] Cons.prems(2,5) unfolding split by auto
  have same: "entries_blocks (disk f1 ?dev) (i_addr ?ip) js = entries_blocks (disk fs ?dev) (i_addr ip) js"
  proof -
    have "entry_blocks (disk f1 ?dev) j (i_addr ?ip ! j) = entry_blocks (disk fs ?dev) j (i_addr ip ! j)"
      if j: "j \<in> set js" for j
    proof -
      have ji: "j \<noteq> i" using j Cons.prems(4) by auto
      have keep: "disk f1 ?dev b = disk fs ?dev b" if "b \<in> set (entry_blocks (disk fs ?dev) j (i_addr ip ! j))" for b
      proof -
        have "b \<in> set (entries_blocks (disk fs ?dev) (i_addr ip) js)"
          using that j by (auto simp: entries_blocks_def)
        with Cons.prems(2) have "b \<notin> set ?e" unfolding split by auto
        with f1(2) show ?thesis by (simp add: gave_back_def)
      qed
      then have "entry_blocks (disk f1 ?dev) j (i_addr ip ! j) = entry_blocks (disk fs ?dev) j (i_addr ip ! j)"
        by (intro entry_blocks_cong) (auto intro: entry_blocks_self)
      with ji show ?thesis by simp
    qed
    then show ?thesis by (simp add: entries_blocks_def cong: map_cong)
  qed
  have "\<exists>fs'. trunc_loop stale js (?ip, f1) =
      Done (?ip\<lparr>i_addr := fold (\<lambda>i xs. xs[i := 0]) js (i_addr ?ip)\<rparr>, fs') \<and>
      gave_back (i_dev ?ip) m (rev ?e @ bs) f1 (entries_blocks (disk f1 (i_dev ?ip)) (i_addr ?ip) js) fs'"
  proof (rule Cons.IH)
    show "stack_of f1 (i_dev ?ip) m (rev ?e @ bs)" using gave_back_stack [OF f1(2)] by simp
    show "distinct (entries_blocks (disk f1 (i_dev ?ip)) (i_addr ?ip) js @ rev ?e @ bs)"
      using Cons.prems(2) same unfolding split by auto
    show "\<forall>a\<in>set (i_addr ?ip). cint a"
      using Cons.prems(3) by (auto simp: cint_def dest!: set_update_subset_insert [THEN subsetD])
    show "distinct js" using Cons.prems(4) by simp
    show "\<forall>i\<in>set js. i < length (i_addr ?ip)" using Cons.prems(5) by simp
  qed
  then obtain f2 where f2: "trunc_loop stale js (?ip, f1) =
      Done (ip\<lparr>i_addr := fold (\<lambda>i xs. xs[i := 0]) js ((i_addr ip)[i := 0])\<rparr>, f2)"
    "gave_back ?dev m (rev ?e @ bs) f1 (entries_blocks (disk fs ?dev) (i_addr ip) js) f2"
    by (auto simp: same [simplified])
  from gave_back_trans [OF f1(2) f2(2)] show ?case
    unfolding split using f1(1) f2(1) by auto
qed

lemma file_blocks_entries:
  "file_blocks dk addr = entries_blocks dk addr [9, 8, 7, 6, 5, 4, 3, 2, 1, 0]"
  by (simp add: file_blocks_def entries_blocks_def)

lemma fold_clear: "length xs = 10 \<Longrightarrow> fold (\<lambda>i xs. xs[i := 0]) [9, 8, 7, 6, 5, 4, 3, 2, 1, 0] xs = replicate 10 (0 :: int)"
  by (rule nth_equalityI) (auto simp: nth_list_update less_Suc_eq numeral_eq_Suc)

text \<open>
  C10. \<open>ITrunc\<close> returns every block of a file to the free list, exactly once: if the tree under
  \<open>i_addr\<close> (direct blocks, single- and double-indirect tables and everything they name) has no block
  twice and none that is free, the free list afterwards is the blocks of the tree on top of what it
  was, no other block is written, and the inode names no block and has size 0.
\<close>

theorem ITrunc_frees_file:
  fixes fs :: "'a ifs_scheme"
  assumes st: "stack_of fs (i_dev ip) m bs" and len: "length (i_addr ip) = 10"
    and ci: "\<forall>a\<in>set (i_addr ip). cint a"
    and d: "distinct (file_blocks (disk fs (i_dev ip)) (i_addr ip) @ bs)"
    and reg: "\<not> has_flag (i_mode ip) (IFCHR AND IFBLK)"
  shows "\<exists>ip' fs'. ITrunc stale ip fs = Done (ip', fs') \<and> i_addr ip' = replicate 10 0 \<and> i_size ip' = 0 \<and>
    stack_of fs' (i_dev ip) m (rev (file_blocks (disk fs (i_dev ip)) (i_addr ip)) @ bs) \<and>
    (\<forall>b. b \<notin> set (file_blocks (disk fs (i_dev ip)) (i_addr ip)) \<longrightarrow>
       disk fs' (i_dev ip) b = disk fs (i_dev ip) b)"
proof -
  have "\<exists>fs'. trunc_loop stale [9, 8, 7, 6, 5, 4, 3, 2, 1, 0] (ip, fs) =
      Done (ip\<lparr>i_addr := fold (\<lambda>i xs. xs[i := 0]) [9, 8, 7, 6, 5, 4, 3, 2, 1, 0] (i_addr ip)\<rparr>, fs') \<and>
     gave_back (i_dev ip) m bs fs (file_blocks (disk fs (i_dev ip)) (i_addr ip)) fs'"
    unfolding file_blocks_entries
    by (rule trunc_loop_gives [OF st _ ci]) (use d len in \<open>simp_all add: file_blocks_entries\<close>)
  then obtain fs' where "trunc_loop stale [9, 8, 7, 6, 5, 4, 3, 2, 1, 0] (ip, fs) =
      Done (ip\<lparr>i_addr := replicate 10 0\<rparr>, fs')"
    "gave_back (i_dev ip) m bs fs (file_blocks (disk fs (i_dev ip)) (i_addr ip)) fs'"
    unfolding fold_clear [OF len] by blast
  with reg show ?thesis by (simp add: ITrunc_def gave_back_def)
qed

definition demo_ifs :: ifs where
  "demo_ifs = fsys.extend demo_fs (ifs.fields 0 (\<lambda>_. 0))"

definition demo_inode :: inode where
  "demo_inode = new_inode\<lparr>i_dev := 0, i_number := 5, i_mode := IALLOC, i_count := 1, i_size := 600,
     i_addr := [1100, 1101, 0, 0, 0, 0, 1102, 0, 0, 0]\<rparr>"

lemma stack_of_extend [simp]:
  "stack_of (fsys.extend fs e) = stack_of fs" "disk (fsys.extend fs e) = disk fs"
  by (intro ext, simp add: stack_of_def fsys.defs) (simp add: fsys.defs)

theorem ITrunc_frees_file_witness:
  "\<exists>ip' fs'. ITrunc (\<lambda>_. []) demo_inode demo_ifs = Done (ip', fs') \<and> i_addr ip' = replicate 10 0 \<and>
     stack_of fs' 0 0 ([1100, 1101, 1102] @ [1034, 1033, 1032, 1031, 1030])"
proof -
  have fb: "file_blocks (disk demo_ifs 0) (i_addr demo_inode) = [1102, 1101, 1100]"
    by (simp add: file_blocks_def entry_blocks_def demo_inode_def demo_ifs_def demo_fs_def ints_of_zeros table_blocks_def)
  have st: "stack_of demo_ifs (i_dev demo_inode) 0 [1034, 1033, 1032, 1031, 1030]"
    using demo_stack by (simp add: demo_ifs_def demo_inode_def)
  have dev: "i_dev demo_inode = 0" by (simp add: demo_inode_def)
  have h: "length (i_addr demo_inode) = 10" "\<forall>a\<in>set (i_addr demo_inode). cint a"
    "distinct (file_blocks (disk demo_ifs (i_dev demo_inode)) (i_addr demo_inode) @ [1034, 1033, 1032, 1031, 1030])"
    "\<not> has_flag (i_mode demo_inode) (IFCHR AND IFBLK)"
    by (simp_all add: dev fb)
      (simp_all add: demo_inode_def cint_def has_flag_def IALLOC_def IFCHR_def IFBLK_def)
  have r: "rev [1102, 1101, 1100 :: int] = [1100, 1101, 1102]" by simp
  show ?thesis using ITrunc_frees_file [OF st h, of "\<lambda>_. []"] unfolding dev fb r by blast
qed

end
