(* ===== verification/FileMap.thy ===== *)
theory FileMap
  imports Inode
begin

text \<open>
  The block map of a file as a tree, and what \<open>Bmap\<close>, \<open>ReadI\<close> and \<open>WriteI\<close> do to it.  A position of
  the tree is a direct entry, an entry of a first table or an entry of a second table; a file is
  well formed when no block stands at two positions and no block of the file is on the free list.
\<close>

section \<open>The tree of blocks\<close>

datatype path = A nat | B nat nat | C nat nat nat

fun valid_path :: "path \<Rightarrow> bool" where
  "valid_path (A i) = (i < 10)"
| "valid_path (B i j) = (6 \<le> i \<and> i < 10 \<and> j < 128)"
| "valid_path (C i j k) = (8 \<le> i \<and> i < 10 \<and> j < 128 \<and> k < 128)"

definition entry :: "(int \<Rightarrow> u8 list) \<Rightarrow> int \<Rightarrow> nat \<Rightarrow> int" where
  "entry dk b j = (if b = 0 then 0 else ints_of (dk b) ! j)"

fun node :: "(int \<Rightarrow> u8 list) \<Rightarrow> int list \<Rightarrow> path \<Rightarrow> int" where
  "node dk addr (A i) = addr ! i"
| "node dk addr (B i j) = entry dk (addr ! i) j"
| "node dk addr (C i j k) = entry dk (entry dk (addr ! i) j) k"

definition leaf_path :: "int \<Rightarrow> path" where
  "leaf_path lbn =
     (if lbn < 6 then A (nat lbn)
      else if lbn < 262 then B (nat (addr_index lbn)) (nat (final_index lbn))
      else C (nat (addr_index lbn)) (nat (second_index lbn)) (nat (final_index lbn)))"

definition tree_ok :: "(int \<Rightarrow> u8 list) \<Rightarrow> int list \<Rightarrow> int list \<Rightarrow> bool" where
  "tree_ok dk addr bs \<longleftrightarrow> length addr = 10 \<and> (\<forall>b. length (dk b) = 512) \<and>
     (\<forall>p q. valid_path p \<longrightarrow> valid_path q \<longrightarrow> node dk addr p = node dk addr q \<longrightarrow>
        node dk addr p \<noteq> 0 \<longrightarrow> p = q) \<and>
     (\<forall>p. valid_path p \<longrightarrow> node dk addr p \<notin> set bs) \<and>
     distinct bs \<and> (\<forall>b\<in>set bs. b \<noteq> 0 \<and> cint b)"

lemma tree_inj:
  "tree_ok dk addr bs \<Longrightarrow> valid_path p \<Longrightarrow> valid_path q \<Longrightarrow> node dk addr p = node dk addr q \<Longrightarrow>
   node dk addr p \<noteq> 0 \<Longrightarrow> p = q"
  unfolding tree_ok_def by blast

lemma tree_free: "tree_ok dk addr bs \<Longrightarrow> valid_path p \<Longrightarrow> b \<in> set bs \<Longrightarrow> node dk addr p \<noteq> b"
  unfolding tree_ok_def by blast

lemma length_ints: "length (dk b) = 512 \<Longrightarrow> length (ints_of (dk b)) = 128"
  by (simp add: ints_of_def length_dwords)

lemma entry_zero_block: "j < 128 \<Longrightarrow> entry (dk(b := cleared_buf)) b j = 0"
  by (simp add: entry_def cleared_buf_def ints_of_zeros)

lemma entry_other: "x \<noteq> b \<Longrightarrow> entry (dk(b := d)) x j = entry dk x j"
  by (simp add: entry_def)

lemma entry_updated:
  assumes "length (dk e) = 512" "e \<noteq> 0" "i < 128" "cint b" "j < 128"
  shows "entry (dk(e := bytes_of ((ints_of (dk e))[i := b]))) e j = (if j = i then b else entry dk e j)"
proof -
  have "\<forall>x\<in>set ((ints_of (dk e))[i := b]). cint x"
    using assms(4) by (auto simp: ints_of_cint dest!: set_update_subset_insert [THEN subsetD])
  with assms length_ints [of dk e] show ?thesis by (simp add: entry_def)
qed

text \<open>Setting an empty position to a fresh block, whose content is zero: nothing else changes.\<close>

lemma set_direct:
  assumes T: "tree_ok dk addr (b # bs)" and i: "i < 10" and z: "addr ! i = 0" and q: "valid_path q"
  shows "node (dk(b := cleared_buf)) (addr[i := b]) q = (if q = A i then b else node dk addr q)"
proof -
  have len: "length addr = 10" using T by (simp add: tree_ok_def)
  have nb: "valid_path p \<Longrightarrow> node dk addr p \<noteq> b" for p using tree_free [OF T] by simp
  show ?thesis
  proof (cases q)
    case (A k)
    then show ?thesis using i len by simp
  next
    case (B k j)
    show ?thesis
    proof (cases "k = i")
      case True
      then show ?thesis using B q i len z by (simp add: entry_zero_block) (simp add: entry_def)
    next
      case False
      have "addr ! k \<noteq> b" using nb [of "A k"] B q by simp
      with False B show ?thesis by (simp add: entry_other)
    qed
  next
    case (C k j l)
    show ?thesis
    proof (cases "k = i")
      case True
      then show ?thesis using C q i len z by (simp add: entry_zero_block) (simp add: entry_def)
    next
      case False
      have "addr ! k \<noteq> b" using nb [of "A k"] C q by simp
      moreover have "entry dk (addr ! k) j \<noteq> b" using nb [of "B k j"] C q by simp
      ultimately show ?thesis using False C by (simp add: entry_other)
    qed
  qed
qed

lemma set_first:
  assumes T: "tree_ok dk addr (b # bs)" and v: "valid_path (B i j)" and nz: "addr ! i \<noteq> 0"
    and z: "node dk addr (B i j) = 0" and q: "valid_path q"
  shows "node (dk(addr ! i := bytes_of ((ints_of (dk (addr ! i)))[j := b]), b := cleared_buf)) addr q =
     (if q = B i j then b else node dk addr q)"
proof -
  let ?e = "addr ! i"
  let ?dk1 = "dk(?e := bytes_of ((ints_of (dk ?e))[j := b]))"
  have len: "length (dk ?e) = 512" and cb: "cint b" and b0: "b \<noteq> 0" using T by (auto simp: tree_ok_def)
  have nb: "valid_path p \<Longrightarrow> node dk addr p \<noteq> b" for p using tree_free [OF T] by simp
  have i: "i < 10" "j < 128" using v by auto
  have ab: "addr ! k \<noteq> b" if "k < 10" for k using nb [of "A k"] that by simp
  have e: "k = i" if "k < 10" "addr ! k = ?e" for k
  proof -
    have "A i = A k"
      by (rule tree_inj [OF T]) (use nz i that in simp_all)
    then show ?thesis by simp
  qed
  have n1: "entry ?dk1 (addr ! k) l = (if k = i \<and> l = j then b else entry dk (addr ! k) l)"
    if "k < 10" "l < 128" for k l
  proof (cases "k = i")
    case True
    then show ?thesis using entry_updated [of dk ?e j b l] len nz i(2) cb that(2) by simp
  next
    case False
    then have "addr ! k \<noteq> ?e" using e [OF that(1)] by blast
    then show ?thesis using False by (simp add: entry_other)
  qed
  show ?thesis
  proof (cases q)
    case (A k)
    then show ?thesis by simp
  next
    case (B k l)
    with q have k: "k < 10" "l < 128" by auto
    have "entry (?dk1(b := cleared_buf)) (addr ! k) l = entry ?dk1 (addr ! k) l"
      using ab [OF k(1)] by (rule entry_other)
    with B n1 [OF k] show ?thesis by simp
  next
    case (C k l m)
    with q have k: "k < 10" "l < 128" "m < 128" by auto
    have vB: "valid_path (B k l)" using C q by simp
    have s1: "entry (?dk1(b := cleared_buf)) (addr ! k) l = entry ?dk1 (addr ! k) l"
      using ab [OF k(1)] by (rule entry_other)
    show ?thesis
    proof (cases "k = i \<and> l = j")
      case True
      then have "entry dk (addr ! k) l = 0" using z by simp
      then have "node dk addr q = 0" using C by (simp add: entry_def)
      with True C s1 n1 [OF k(1,2)] show ?thesis by (simp add: entry_zero_block k)
    next
      case False
      let ?x = "entry dk (addr ! k) l"
      have x: "entry (?dk1(b := cleared_buf)) (addr ! k) l = ?x" using s1 n1 [OF k(1,2)] False by simp
      have "?x \<noteq> b" using nb [OF vB] by simp
      moreover have "?x \<noteq> ?e"
        using tree_inj [OF T, of "A i" "B k l"] nz i vB by auto
      ultimately show ?thesis using C x by (simp add: entry_other)
    qed
  qed
qed

lemma set_second:
  assumes T: "tree_ok dk addr (b # bs)" and v: "valid_path (C i j k)" and nz: "node dk addr (B i j) \<noteq> 0"
    and z: "node dk addr (C i j k) = 0" and q: "valid_path q" and e: "e = node dk addr (B i j)"
  shows "node (dk(e := bytes_of ((ints_of (dk e))[k := b]), b := cleared_buf)) addr q =
     (if q = C i j k then b else node dk addr q)"
proof -
  let ?dk1 = "dk(e := bytes_of ((ints_of (dk e))[k := b]))"
  have len: "length (dk e) = 512" and cb: "cint b" and b0: "b \<noteq> 0" using T by (auto simp: tree_ok_def)
  have nb: "valid_path p \<Longrightarrow> node dk addr p \<noteq> b" for p using tree_free [OF T] by simp
  have vB: "valid_path (B i j)" and k: "k < 128" using v by auto
  have ab: "addr ! x \<noteq> b" if "x < 10" for x using nb [of "A x"] that by simp
  have ae: "addr ! x \<noteq> e" if "x < 10" for x
    using tree_inj [OF T, of "B i j" "A x"] nz vB that e by auto
  have s: "entry (?dk1(b := cleared_buf)) (addr ! x) l = entry dk (addr ! x) l" if "x < 10" for x l
    using ab [OF that] ae [OF that] by (simp add: entry_other)
  show ?thesis
  proof (cases q)
    case (A x)
    then show ?thesis by simp
  next
    case (B x l)
    with q s [of x l] show ?thesis by simp
  next
    case (C x l m)
    with q have x: "x < 10" "m < 128" and vx: "valid_path (B x l)" by auto
    have "entry dk (addr ! x) l \<noteq> b" using nb [OF vx] by simp
    then have s2: "node (?dk1(b := cleared_buf)) addr q = entry ?dk1 (entry dk (addr ! x) l) m"
      using C s [OF x(1)] by (simp add: entry_other)
    show ?thesis
    proof (cases "x = i \<and> l = j")
      case True
      then have xe: "entry dk (addr ! x) l = e" using e by simp
      have "entry ?dk1 e m = (if m = k then b else entry dk e m)"
        using entry_updated [of dk e k b m] len nz e k cb x(2) by simp
      with True C s2 xe show ?thesis by simp
    next
      case False
      then have "entry dk (addr ! x) l \<noteq> e"
        using tree_inj [OF T, of "B i j" "B x l"] nz vB vx e by auto
      with C s2 have "node (?dk1(b := cleared_buf)) addr q = node dk addr q"
        by (simp add: entry_other)
      moreover have "q \<noteq> C i j k" using C False by auto
      ultimately show ?thesis by simp
    qed
  qed
qed

text \<open>A tree that differs at one empty position by a fresh block is well formed again.\<close>

lemma tree_ok_set:
  assumes T: "tree_ok dk addr (b # bs)" and p: "valid_path p" and z: "node dk addr p = 0"
    and len: "length addr' = 10" "\<forall>x. length (dk' x) = 512"
    and n: "\<And>q. valid_path q \<Longrightarrow> node dk' addr' q = (if q = p then b else node dk addr q)"
  shows "tree_ok dk' addr' bs"
proof -
  have nb: "valid_path q \<Longrightarrow> node dk addr q \<noteq> b" for q using tree_free [OF T] by simp
  have "b \<notin> set bs" using T by (simp add: tree_ok_def)
  moreover have "\<forall>q. valid_path q \<longrightarrow> node dk addr q \<notin> set bs" using tree_free [OF T] by auto
  moreover have "\<forall>q r. valid_path q \<longrightarrow> valid_path r \<longrightarrow> node dk' addr' q = node dk' addr' r \<longrightarrow>
      node dk' addr' q \<noteq> 0 \<longrightarrow> q = r"
    using n nb tree_inj [OF T] by (auto split: if_splits)
  ultimately show ?thesis using T len n by (auto simp: tree_ok_def)
qed

section \<open>The steps of \<open>Bmap\<close>\<close>

fun leaf :: "path \<Rightarrow> bool" where
  "leaf (A i) = (i < 6)"
| "leaf (B i j) = (i < 8)"
| "leaf (C i j k) = True"

text \<open>
  From a tree to a tree with the empty positions among \<open>P\<close> possibly filled from the free list: all
  other positions and the content of all data blocks are kept.
\<close>

definition stage :: "(int \<Rightarrow> u8 list) \<Rightarrow> int list \<Rightarrow> int list \<Rightarrow> path set \<Rightarrow>
    (int \<Rightarrow> u8 list) \<Rightarrow> int list \<Rightarrow> int list \<Rightarrow> bool" where
  "stage dk addr bs P dk' addr' bs' \<longleftrightarrow> tree_ok dk' addr' bs' \<and>
     (\<forall>q. valid_path q \<longrightarrow> q \<notin> P \<or> node dk addr q \<noteq> 0 \<longrightarrow> node dk' addr' q = node dk addr q) \<and>
     (\<forall>q. valid_path q \<longrightarrow> leaf q \<longrightarrow> node dk addr q \<noteq> 0 \<longrightarrow> dk' (node dk addr q) = dk (node dk addr q)) \<and>
     (\<exists>n\<le>card P. bs' = drop n bs)"

lemma stage_refl: "tree_ok dk addr bs \<Longrightarrow> stage dk addr bs P dk addr bs"
  by (auto simp: stage_def intro: exI [of _ 0])

lemma stage_trans:
  assumes a: "stage dk addr bs P dk1 addr1 bs1" and b: "stage dk1 addr1 bs1 Q dk2 addr2 bs2"
    and d: "P \<inter> Q = {}" "finite P" "finite Q"
  shows "stage dk addr bs (P \<union> Q) dk2 addr2 bs2"
proof -
  obtain n k where "n \<le> card P" "bs1 = drop n bs" "k \<le> card Q" "bs2 = drop k bs1"
    using a b by (auto simp: stage_def)
  then have "k + n \<le> card (P \<union> Q)" "bs2 = drop (k + n) bs"
    using d by (simp_all add: card_Un_disjoint)
  moreover have "node dk2 addr2 q = node dk addr q"
    if "valid_path q" "q \<notin> P \<union> Q \<or> node dk addr q \<noteq> 0" for q
    using a b that by (auto simp: stage_def)
  moreover have "dk2 (node dk addr q) = dk (node dk addr q)"
    if "valid_path q" "leaf q" "node dk addr q \<noteq> 0" for q
  proof -
    have "node dk1 addr1 q = node dk addr q" "dk1 (node dk addr q) = dk (node dk addr q)"
      using a that by (auto simp: stage_def)
    with b that show ?thesis by (auto simp: stage_def)
  qed
  moreover have "tree_ok dk2 addr2 bs2" using b by (simp add: stage_def)
  ultimately show ?thesis unfolding stage_def by blast
qed

lemma stage_weaken: "stage dk addr bs P dk' addr' bs' \<Longrightarrow> P \<subseteq> Q \<Longrightarrow> finite Q \<Longrightarrow> stage dk addr bs Q dk' addr' bs'"
proof -
  assume s: "stage dk addr bs P dk' addr' bs'" and "P \<subseteq> Q" "finite Q"
  then have "card P \<le> card Q" by (simp add: card_mono)
  moreover from s obtain n where "n \<le> card P" and n: "bs' = drop n bs" by (auto simp: stage_def)
  ultimately have "n \<le> card Q" by simp
  with n s \<open>P \<subseteq> Q\<close> show ?thesis unfolding stage_def by blast
qed

lemma stageI:
  assumes T: "tree_ok dk addr (b # bs)" and p: "valid_path p" and z: "node dk addr p = 0"
    and len: "length addr' = 10" "\<forall>x. length (dk' x) = 512"
    and n: "\<And>q. valid_path q \<Longrightarrow> node dk' addr' q = (if q = p then b else node dk addr q)"
    and d: "\<And>x. x \<noteq> b \<Longrightarrow> x \<noteq> e \<Longrightarrow> dk' x = dk x"
    and e: "e = b \<or> (\<exists>r. valid_path r \<and> \<not> leaf r \<and> e = node dk addr r)"
  shows "stage dk addr (b # bs) {p} dk' addr' bs"
proof -
  have "dk' (node dk addr q) = dk (node dk addr q)"
    if q: "valid_path q" "leaf q" "node dk addr q \<noteq> 0" for q
  proof (rule d)
    show nb: "node dk addr q \<noteq> b" using tree_free [OF T q(1)] by simp
    show "node dk addr q \<noteq> e"
      using e nb tree_inj [OF T q(1)] q by auto
  qed
  moreover have "tree_ok dk' addr' bs" by (rule tree_ok_set [OF T p z len n])
  ultimately show ?thesis using n z by (auto simp: stage_def intro: exI [of _ 1])
qed

lemma length_cleared [simp]: "length cleared_buf = 512"
  by (simp add: cleared_buf_def)

lemma stage_A:
  assumes T: "tree_ok dk addr (b # bs)" and i: "i < 10" and z: "addr ! i = 0"
  shows "stage dk addr (b # bs) {A i} (dk(b := cleared_buf)) (addr[i := b]) bs"
  by (rule stageI [OF T _ _ _ _ set_direct [OF T i z], where e = b]) (use T i z in \<open>auto simp: tree_ok_def\<close>)

lemma stage_B:
  assumes T: "tree_ok dk addr (b # bs)" and v: "valid_path (B i j)" and nz: "addr ! i \<noteq> 0"
    and z: "node dk addr (B i j) = 0" and e: "e = addr ! i"
  shows "stage dk addr (b # bs) {B i j}
     (dk(e := bytes_of ((ints_of (dk e))[j := b]), b := cleared_buf)) addr bs"
  unfolding e
  by (rule stageI [OF T v z _ _ set_first [OF T v nz z], where e = "addr ! i"])
    (use T v in \<open>auto simp: tree_ok_def length_ints intro!: exI [of _ "A i"]\<close>)

lemma stage_C:
  assumes T: "tree_ok dk addr (b # bs)" and v: "valid_path (C i j k)" and nz: "node dk addr (B i j) \<noteq> 0"
    and z: "node dk addr (C i j k) = 0" and e: "e = node dk addr (B i j)"
  shows "stage dk addr (b # bs) {C i j k}
     (dk(e := bytes_of ((ints_of (dk e))[k := b]), b := cleared_buf)) addr bs"
  by (rule stageI [OF T v z _ _ set_second [OF T v nz z _ e], where e = e])
    (use T v e in \<open>auto simp: tree_ok_def length_ints intro!: exI [of _ "B i j"]\<close>)

text \<open>A table in a buffer: the disk as it will be once the buffer is written.\<close>

definition holds :: "(int \<Rightarrow> u8 list) \<Rightarrow> int \<Rightarrow> int list \<Rightarrow> (int \<Rightarrow> u8 list) \<Rightarrow> bool" where
  "holds dk blk t dkv \<longleftrightarrow> dkv = dk(blk := bytes_of t) \<and> ints_of (dkv blk) = t \<and>
     (dk = dkv \<or> t = replicate 128 0)"

lemma holds_read: "length (dk blk) = 512 \<Longrightarrow> holds dk blk (ints_of (dk blk)) dk"
  by (simp add: holds_def bytes_of_ints)

lemma bytes_of_cleared: "bytes_of (ints_of cleared_buf) = cleared_buf"
  by (rule bytes_of_ints) simp

lemma holds_fresh: "holds dk blk (ints_of cleared_buf) (dk(blk := cleared_buf))"
  by (auto simp: holds_def bytes_of_cleared) (simp add: cleared_buf_def ints_of_zeros)

text \<open>What a call keeps of the state besides the mount table and the blocks of its device.\<close>

definition same_env :: "'a ifs_scheme \<Rightarrow> 'a ifs_scheme \<Rightarrow> bool" where
  "same_env fs fs' \<longleftrightarrow> umem fs' = umem fs \<and> u_error fs' = u_error fs \<and> ktime fs' = ktime fs"

lemma same_env_refl: "same_env fs fs"
  by (simp add: same_env_def)

lemma same_env_trans: "same_env fs f1 \<Longrightarrow> same_env f1 f2 \<Longrightarrow> same_env fs f2"
  by (simp add: same_env_def)

lemma alloc_step:
  fixes fs :: "'a ifs_scheme"
  assumes "stack_of fs dev m (b # bs)"
  shows "\<exists>fs'. FS_Alloc fs dev = Done (Some b, fs') \<and> stack_of fs' dev m bs \<and> disk fs' = disk fs \<and>
     same_env fs fs'"
proof -
  obtain fs' where f: "FS_Alloc fs dev = Done (Some b, fs')" "stack_of fs' dev m bs"
    "disk fs' = disk fs" "u_error fs' = u_error fs" using FS_Alloc_pop [OF assms] by blast
  from FS_Alloc_frame [OF f(1)] have "umem fs' = umem fs" "ktime fs' = ktime fs"
    by (cases fs; cases fs'; simp)+
  with f show ?thesis by (auto simp: same_env_def)
qed

lemma first_table_stage:
  fixes fs :: "'a ifs_scheme"
  assumes T: "tree_ok (disk fs (i_dev ip)) (i_addr ip) bs" and st: "stack_of fs (i_dev ip) m bs"
    and i: "i < 10" and ne: "bs \<noteq> []"
  shows "\<exists>blk t ip1 fs1 bs1 dkv. first_table fs ip (int i) = Done (Some (blk, t), ip1, fs1) \<and>
    stack_of fs1 (i_dev ip) m bs1 \<and> holds (disk fs1 (i_dev ip)) blk t dkv \<and>
    stage (disk fs (i_dev ip)) (i_addr ip) bs {A i} dkv (i_addr ip1) bs1 \<and>
    i_addr ip1 ! i = blk \<and> blk \<noteq> 0 \<and> same_env fs fs1 \<and> i_dev ip1 = i_dev ip \<and>
    i_size ip1 = i_size ip \<and> i_mode ip1 = i_mode ip"
proof (cases "i_addr ip ! i = 0")
  case False
  let ?dk = "disk fs (i_dev ip)" and ?b = "i_addr ip ! i"
  have "length (?dk ?b) = 512" using T by (simp add: tree_ok_def)
  from holds_read [of ?dk, OF this] have h: "holds ?dk ?b (ints_of (?dk ?b)) ?dk" .
  have "first_table fs ip (int i) = Done (Some (?b, ints_of (?dk ?b)), ip, fs)"
    using False by (simp add: first_table_def Let_def)
  then show ?thesis using False h st stage_refl [OF T, of "{A i}"] same_env_refl by blast
next
  case True
  obtain b r where bs: "bs = b # r" using ne by (cases bs) auto
  let ?dk = "disk fs (i_dev ip)"
  let ?ip = "ip\<lparr>i_flag := set_flag (i_flag ip) IUPD, i_addr := (i_addr ip)[i := b]\<rparr>"
  obtain fs1 where f: "FS_Alloc fs (i_dev ip) = Done (Some b, fs1)" "stack_of fs1 (i_dev ip) m r"
    "disk fs1 = disk fs" "same_env fs fs1" using alloc_step [OF st [unfolded bs]] by blast
  have "first_table fs ip (int i) = Done (Some (b, ints_of cleared_buf), ?ip, fs1)"
    using True f(1) by (simp add: first_table_def Let_def)
  moreover have "b \<noteq> 0" "length (i_addr ip) = 10" using T bs by (auto simp: tree_ok_def)
  moreover have "stage ?dk (i_addr ip) bs {A i} (?dk(b := cleared_buf)) (i_addr ?ip) r"
    using stage_A [OF T [unfolded bs] i True] bs by simp
  moreover have "holds (disk fs1 (i_dev ip)) b (ints_of cleared_buf) (?dk(b := cleared_buf))"
    using holds_fresh f(3) by simp
  ultimately show ?thesis using f(2,4) i by fastforce
qed

lemma second_table_stage:
  fixes fs :: "'a ifs_scheme"
  assumes T: "tree_ok dkv addr bs" and st: "stack_of fs dev m bs"
    and h: "holds (disk fs dev) blk t dkv" and b: "blk = addr ! i" "blk \<noteq> 0"
    and v: "valid_path (B i j)" and ne: "bs \<noteq> []"
  shows "\<exists>blk' t' fs1 bs1 dkv'. second_table fs dev (blk, t) (int j) = Done (Some (blk', t'), fs1) \<and>
    stack_of fs1 dev m bs1 \<and> holds (disk fs1 dev) blk' t' dkv' \<and>
    stage dkv addr bs {B i j} dkv' addr bs1 \<and> node dkv' addr (B i j) = blk' \<and> blk' \<noteq> 0 \<and> same_env fs fs1"
proof -
  have tt: "ints_of (dkv blk) = t" and dk: "dkv = (disk fs dev)(blk := bytes_of t)"
    using h unfolding holds_def by blast+
  have t: "node dkv addr (B i j) = t ! j" using tt b by (simp add: entry_def)
  show ?thesis
  proof (cases "t ! j = 0")
    case False
    have "disk fs dev = dkv"
      using h False v by (auto simp: holds_def)
    moreover have "length (dkv (t ! j)) = 512" using T by (simp add: tree_ok_def)
    ultimately have "holds (disk fs dev) (t ! j) (ints_of (disk fs dev (t ! j))) dkv"
      using holds_read by auto
    moreover have "second_table fs dev (blk, t) (int j) =
        Done (Some (t ! j, ints_of (disk fs dev (t ! j))), fs)"
      using False by (simp add: second_table_def Let_def)
    ultimately show ?thesis
      using False st stage_refl [OF T, of "{B i j}"] t same_env_refl by blast
  next
    case True
    obtain c r where bs: "bs = c # r" using ne by (cases bs) auto
    obtain fs1 where f: "FS_Alloc fs dev = Done (Some c, fs1)" "stack_of fs1 dev m r"
      "disk fs1 = disk fs" "same_env fs fs1" using alloc_step [OF st [unfolded bs]] by blast
    let ?t = "bytes_of (t[j := c])"
    let ?fs2 = "set_block dev blk ?t fs1"
    let ?dkv = "dkv(blk := ?t, c := cleared_buf)"
    have z: "node dkv addr (B i j) = 0" using t True by simp
    have nz: "addr ! i \<noteq> 0" using b by simp
    have S: "stage dkv addr bs {B i j} ?dkv addr r"
      using stage_B [OF T [unfolded bs] v nz z b(1)] bs tt by simp
    have D: "disk ?fs2 dev = dkv(blk := ?t)" by (rule ext) (simp add: f(3) dk)
    have H: "holds (disk ?fs2 dev) c (ints_of cleared_buf) ?dkv"
      unfolding D by (rule holds_fresh)
    have cn: "c \<noteq> 0" "blk \<noteq> c" "blk \<notin> set r"
      using T bs tree_free [OF T, of "A i"] v b by (auto simp: tree_ok_def)
    have "node ?dkv addr (B i j) = c"
      using set_first [OF T [unfolded bs] v nz z v] b(1) tt by simp
    moreover have "stack_of ?fs2 dev m r"
      using f(2) cn(3) by (rule stack_of_written)
    moreover have "second_table fs dev (blk, t) (int j) = Done (Some (c, ints_of cleared_buf), ?fs2)"
      using True f(1) by (simp add: second_table_def)
    moreover have "same_env fs ?fs2" using f(4) by (simp add: same_env_def set_block_def)
    ultimately show ?thesis using S H cn(1) by blast
  qed
qed

lemma stack_of_rablock [simp]: "stack_of (fs\<lparr>rablock := r\<rparr>) = stack_of fs"
  by (intro ext) (simp add: stack_of_def)

text \<open>The table that holds the entry of a data block: position and block of the table.\<close>

definition table_at :: "path \<Rightarrow> (int \<Rightarrow> u8 list) \<Rightarrow> int list \<Rightarrow> int \<Rightarrow> nat \<Rightarrow> bool" where
  "table_at p dk addr blk k \<longleftrightarrow> valid_path p \<and> leaf p \<and> blk \<noteq> 0 \<and>
     (\<exists>i. p = B i k \<and> blk = addr ! i \<or> (\<exists>j. p = C i j k \<and> blk = node dk addr (B i j)))"

lemma final_entry_stage:
  fixes fs :: "'a ifs_scheme"
  assumes T: "tree_ok dkv addr bs" and st: "stack_of fs dev m bs"
    and h: "holds (disk fs dev) blk t dkv" and at: "table_at p dkv addr blk k" and ne: "bs \<noteq> []"
  shows "\<exists>bn fs1 bs1. final_entry fs dev (blk, t) (int k) = Done (bn, fs1) \<and>
    stack_of fs1 dev m bs1 \<and> stage dkv addr bs {p} (disk fs1 dev) addr bs1 \<and>
    node (disk fs1 dev) addr p = bn \<and> bn \<noteq> 0 \<and> same_env fs fs1 \<and>
    (node dkv addr p = 0 \<longrightarrow> disk fs1 dev bn = cleared_buf)"
proof -
  have tt: "ints_of (dkv blk) = t" and dk: "dkv = (disk fs dev)(blk := bytes_of t)"
    using h unfolding holds_def by blast+
  have v: "valid_path p" and b0: "blk \<noteq> 0" and k: "k < 128"
    using at by (auto simp: table_at_def)
  have t: "node dkv addr p = t ! k" using tt at by (auto simp: entry_def table_at_def)
  show ?thesis
  proof (cases "t ! k = 0")
    case False
    have dd: "disk fs dev = dkv" using h False k by (auto simp: holds_def)
    let ?fs1 = "fs\<lparr>rablock := if int k + 1 < 128 then t ! nat (int k + 1) else 0\<rparr>"
    have "final_entry fs dev (blk, t) (int k) = Done (t ! k, ?fs1)"
      using False by (simp add: final_entry_def Let_def)
    moreover have "stage dkv addr bs {p} (disk ?fs1 dev) addr bs" "node (disk ?fs1 dev) addr p = t ! k"
      using stage_refl [OF T, of "{p}"] t dd by simp_all
    moreover have "stack_of ?fs1 dev m bs" "same_env fs ?fs1" using st by (simp_all add: same_env_def)
    moreover have "node dkv addr p \<noteq> 0" using t False by simp
    ultimately show ?thesis using False by blast
  next
    case True
    obtain c r where bs: "bs = c # r" using ne by (cases bs) auto
    obtain fs1 where f: "FS_Alloc fs dev = Done (Some c, fs1)" "stack_of fs1 dev m r"
      "disk fs1 = disk fs" "same_env fs fs1" using alloc_step [OF st [unfolded bs]] by blast
    let ?t = "bytes_of (t[k := c])"
    let ?fs2 = "(set_block dev blk ?t (set_block dev c cleared_buf fs1))
        \<lparr>rablock := if int k + 1 < 128 then t[k := c] ! nat (int k + 1) else 0\<rparr>"
    let ?dkv = "dkv(blk := ?t, c := cleared_buf)"
    have z: "node dkv addr p = 0" using t True by simp
    have bf: "blk \<noteq> x" if "x \<in> set bs" for x
      using at unfolding table_at_def
    proof (elim conjE exE disjE)
      fix i
      assume "p = B i k" "blk = addr ! i"
      with tree_free [OF T, of "A i" x] v that show ?thesis by simp
    next
      fix i j
      assume "p = C i j k" "blk = node dkv addr (B i j)"
      with tree_free [OF T, of "B i j" x] v that show ?thesis by simp
    qed
    then have cn: "c \<noteq> 0" "blk \<noteq> c" "blk \<notin> set r" "c \<notin> set r"
      using T bs by (auto simp: tree_ok_def)
    have S: "stage dkv addr bs {p} ?dkv addr r \<and> node ?dkv addr p = c"
      using at unfolding table_at_def
    proof (elim conjE exE disjE)
      fix i
      assume p: "p = B i k" and e: "blk = addr ! i"
      have nz: "addr ! i \<noteq> 0" using b0 e by simp
      have vp: "valid_path (B i k)" and zp: "node dkv addr (B i k) = 0" using v z p by simp_all
      show ?thesis
        using stage_B [OF T [unfolded bs] vp nz zp e] set_first [OF T [unfolded bs] vp nz zp vp] bs tt
        by (simp add: p e)
    next
      fix i j
      assume p: "p = C i j k" and e: "blk = node dkv addr (B i j)"
      have nz: "node dkv addr (B i j) \<noteq> 0" using b0 e by simp
      have vp: "valid_path (C i j k)" and zp: "node dkv addr (C i j k) = 0" using v z p by simp_all
      show ?thesis
        using stage_C [OF T [unfolded bs] vp nz zp e] set_second [OF T [unfolded bs] vp nz zp vp e] bs tt
        by (simp add: p)
    qed
    have D: "disk ?fs2 dev = ?dkv" by (rule ext) (simp add: f(3) dk cn)
    have "stack_of ?fs2 dev m r"
      using f(2) cn by (simp add: stack_of_written)
    moreover have "final_entry fs dev (blk, t) (int k) = Done (c, ?fs2)"
      using True f(1) by (simp add: final_entry_def Let_def)
    moreover have "same_env fs ?fs2" using f(4) by (simp add: same_env_def set_block_def)
    moreover have "disk ?fs2 dev c = cleared_buf" by (simp only: D fun_upd_same)
    ultimately show ?thesis using S cn(1) unfolding D [symmetric] by blast
  qed
qed

section \<open>\<open>Bmap\<close>\<close>

lemma large_index:
  assumes "6 \<le> lbn" "lbn < 262"
  shows "6 \<le> addr_index lbn" "addr_index lbn < 8" "0 \<le> final_index lbn" "final_index lbn < 128"
    "lbn = (addr_index lbn - 6) * 128 + final_index lbn + 6"
  using assms by (auto simp: addr_index_def final_index_def LARGE_FILE_BLOCK_def SMALL_FILE_BLOCK_def)

lemma huge_index:
  assumes "262 \<le> lbn" "lbn < 33030"
  shows "8 \<le> addr_index lbn" "addr_index lbn < 10" "0 \<le> final_index lbn" "final_index lbn < 128"
    "0 \<le> second_index lbn" "second_index lbn < 128"
    "lbn = (addr_index lbn - 8) * 16384 + second_index lbn * 128 + final_index lbn + 262"
proof -
  let ?x = "lbn - 262"
  have e: "addr_index lbn = ?x div 16384 + 8" "final_index lbn = ?x mod 128"
    "second_index lbn = ?x div 128 mod 128"
    using assms by (simp_all add: addr_index_def final_index_def second_index_def LARGE_FILE_BLOCK_def)
  show "lbn = (addr_index lbn - 8) * 16384 + second_index lbn * 128 + final_index lbn + 262"
  proof -
    have a: "?x div 16384 = ?x div 128 div 128" by (simp add: zdiv_zmult2_eq [symmetric])
    have g: "y * 128 + u = x \<Longrightarrow> z * 128 + v = y \<Longrightarrow> x + 262 = (z + 8 - 8) * 16384 + v * 128 + u + 262"
      for x y z u v :: int by simp
    have "?x + 262 = (?x div 128 div 128 + 8 - 8) * 16384 + ?x div 128 mod 128 * 128 + ?x mod 128 + 262"
      by (rule g [OF div_mult_mod_eq div_mult_mod_eq])
    then show ?thesis unfolding e a by (simp only: diff_add_cancel)
  qed
  show "8 \<le> addr_index lbn" "addr_index lbn < 10" "0 \<le> final_index lbn" "final_index lbn < 128"
    "0 \<le> second_index lbn" "second_index lbn < 128"
    using assms by (auto simp: addr_index_def final_index_def second_index_def LARGE_FILE_BLOCK_def)
qed

lemma leaf_path_valid:
  assumes "0 \<le> lbn" "lbn < HUGE_FILE_BLOCK"
  shows "valid_path (leaf_path lbn)" "leaf (leaf_path lbn)"
proof -
  have h: "lbn < 33030" using assms by (simp add: HUGE_FILE_BLOCK_def)
  have "valid_path (leaf_path lbn) \<and> leaf (leaf_path lbn)"
  proof (cases "lbn < 6")
    case True
    with assms show ?thesis by (auto simp: leaf_path_def)
  next
    case False
    then show ?thesis using large_index [of lbn] huge_index [of lbn] h
      by (cases "lbn < 262") (auto simp: leaf_path_def nat_less_iff nat_le_eq_zle le_nat_iff)
  qed
  then show "valid_path (leaf_path lbn)" "leaf (leaf_path lbn)" by auto
qed

lemma leaf_path_inj:
  assumes "0 \<le> a" "a < HUGE_FILE_BLOCK" "0 \<le> b" "b < HUGE_FILE_BLOCK" "leaf_path a = leaf_path b"
  shows "a = b"
proof -
  have h: "a < 33030" "b < 33030" using assms by (simp_all add: HUGE_FILE_BLOCK_def)
  consider "a < 6" "b < 6" | "6 \<le> a" "a < 262" "6 \<le> b" "b < 262" | "262 \<le> a" "262 \<le> b"
    using assms(5) by (cases "a < 6"; cases "b < 6"; cases "a < 262"; cases "b < 262") (auto simp: leaf_path_def)
  then show ?thesis
  proof cases
    case 1
    with assms show ?thesis by (simp add: leaf_path_def)
  next
    case 2
    then have "addr_index a = addr_index b" "final_index a = final_index b"
      using assms(5) large_index [of a] large_index [of b] by (auto simp: leaf_path_def)
    then show ?thesis using large_index(5) [OF 2(1,2)] large_index(5) [OF 2(3,4)] by simp
  next
    case 3
    then have "addr_index a = addr_index b" "second_index a = second_index b" "final_index a = final_index b"
      using assms(5) huge_index [of a] huge_index [of b] h by (auto simp: leaf_path_def)
    then show ?thesis using huge_index(7) [OF 3(1) h(1)] huge_index(7) [OF 3(2) h(2)] by simp
  qed
qed

text \<open>The outcome of \<open>Bmap\<close>: the block that stands for \<open>lbn\<close>, and what else the call did.\<close>

definition bmap_done :: "'a ifs_scheme \<Rightarrow> inode \<Rightarrow> nat \<Rightarrow> int list \<Rightarrow> int \<Rightarrow>
    int \<Rightarrow> inode \<Rightarrow> 'a ifs_scheme \<Rightarrow> bool" where
  "bmap_done fs ip m bs lbn bn ip' fs' \<longleftrightarrow>
     (\<exists>P bs'. finite P \<and> card P \<le> 3 \<and> (\<forall>q\<in>P. leaf q \<longrightarrow> q = leaf_path lbn) \<and>
        stage (disk fs (i_dev ip)) (i_addr ip) bs P (disk fs' (i_dev ip)) (i_addr ip') bs' \<and>
        stack_of fs' (i_dev ip) m bs') \<and>
     node (disk fs' (i_dev ip)) (i_addr ip') (leaf_path lbn) = bn \<and> bn \<noteq> 0 \<and>
     (node (disk fs (i_dev ip)) (i_addr ip) (leaf_path lbn) = 0 \<longrightarrow> disk fs' (i_dev ip) bn = cleared_buf) \<and>
     same_env fs fs' \<and> i_dev ip' = i_dev ip \<and> i_size ip' = i_size ip \<and> i_mode ip' = i_mode ip"

lemma bmap_small_ok:
  fixes fs :: "'a ifs_scheme"
  assumes T: "tree_ok (disk fs (i_dev ip)) (i_addr ip) bs" and st: "stack_of fs (i_dev ip) m bs"
    and l: "0 \<le> lbn" "lbn < 6" and ne: "bs \<noteq> []"
  shows "\<exists>bn ip' fs'. bmap_small fs ip lbn = Done (bn, ip', fs') \<and> bmap_done fs ip m bs lbn bn ip' fs'"
proof -
  let ?i = "nat lbn" and ?dk = "disk fs (i_dev ip)"
  have i: "?i < 10" "leaf_path lbn = A ?i" using l by (auto simp: leaf_path_def)
  show ?thesis
  proof (cases "i_addr ip ! ?i = 0")
    case False
    let ?fs = "fs\<lparr>rablock := if lbn \<le> 4 then i_addr ip ! nat (lbn + 1) else 0\<rparr>"
    have "bmap_small fs ip lbn = Done (i_addr ip ! ?i, ip, ?fs)"
      using False by (simp add: bmap_small_def Let_def)
    moreover have "bmap_done fs ip m bs lbn (i_addr ip ! ?i) ip ?fs"
      unfolding bmap_done_def i(2) using stage_refl [OF T, of "{}"] st False
      by (auto simp: same_env_def intro!: exI [of _ "{}"] exI [of _ bs])
    ultimately show ?thesis by blast
  next
    case True
    obtain b r where bs: "bs = b # r" using ne by (cases bs) auto
    obtain fs1 where f: "FS_Alloc fs (i_dev ip) = Done (Some b, fs1)" "stack_of fs1 (i_dev ip) m r"
      "disk fs1 = disk fs" "same_env fs fs1" using alloc_step [OF st [unfolded bs]] by blast
    let ?ip = "ip\<lparr>i_addr := (i_addr ip)[?i := b], i_flag := set_flag (i_flag ip) IUPD\<rparr>"
    let ?fs = "(set_block (i_dev ip) b cleared_buf fs1)
        \<lparr>rablock := if lbn \<le> 4 then i_addr ?ip ! nat (lbn + 1) else 0\<rparr>"
    have b: "b \<noteq> 0" "b \<notin> set r" using T bs by (auto simp: tree_ok_def)
    have D: "disk ?fs (i_dev ip) = ?dk(b := cleared_buf)" by (rule ext) (simp add: f(3))
    have "bmap_small fs ip lbn = Done (b, ?ip, ?fs)"
      using True f(1) by (simp add: bmap_small_def Let_def)
    moreover have "bmap_done fs ip m bs lbn b ?ip ?fs"
    proof -
      have "stage ?dk (i_addr ip) bs {A ?i} (disk ?fs (i_dev ip)) (i_addr ?ip) r"
        unfolding D using stage_A [OF T [unfolded bs] i(1) True] bs by simp
      moreover have "stack_of ?fs (i_dev ip) m r" using stack_of_written [OF f(2) b(2)] by simp
      moreover have "node (disk ?fs (i_dev ip)) (i_addr ?ip) (A ?i) = b"
        using set_direct [OF T [unfolded bs] i(1) True, of "A ?i"] i(1) D by simp
      moreover have "same_env fs ?fs" using f(4) by (simp add: same_env_def set_block_def)
      moreover have "disk ?fs (i_dev ip) b = cleared_buf" by (simp only: D fun_upd_same)
      ultimately show ?thesis unfolding bmap_done_def i(2) using b(1)
        by (intro conjI exI [of _ "{A ?i}"] exI [of _ r]) simp_all
    qed
    ultimately show ?thesis by blast
  qed
qed

lemma card_stage_P: "finite P \<Longrightarrow> card P \<le> n \<Longrightarrow> card (insert q P) \<le> Suc n"
  by (simp add: card_insert_if)

lemma bmap_large_ok:
  fixes fs :: "'a ifs_scheme"
  assumes T: "tree_ok (disk fs (i_dev ip)) (i_addr ip) bs" and st: "stack_of fs (i_dev ip) m bs"
    and l: "6 \<le> lbn" "lbn < HUGE_FILE_BLOCK" and ne: "3 \<le> length bs"
  shows "\<exists>bn ip' fs'. bmap_large fs ip lbn = Done (bn, ip', fs') \<and> bmap_done fs ip m bs lbn bn ip' fs'"
proof -
  have h: "lbn < 33030" using l by (simp add: HUGE_FILE_BLOCK_def)
  let ?dev = "i_dev ip" and ?i = "nat (addr_index lbn)" and ?j = "nat (second_index lbn)"
    and ?k = "nat (final_index lbn)"
  let ?dk = "disk fs ?dev"
  have i: "int ?i = addr_index lbn" "6 \<le> ?i" "?i < 10" and k: "int ?k = final_index lbn" "?k < 128"
    using large_index [of lbn] huge_index [of lbn] l(1) h by (cases "lbn < 262"; simp)+
  have ne1: "bs \<noteq> []" using ne by auto
  obtain blk t ip1 fs1 bs1 dkv where
    r1: "first_table fs ip (addr_index lbn) = Done (Some (blk, t), ip1, fs1)"
      "stack_of fs1 ?dev m bs1" "holds (disk fs1 ?dev) blk t dkv"
      "stage ?dk (i_addr ip) bs {A ?i} dkv (i_addr ip1) bs1" "i_addr ip1 ! ?i = blk" "blk \<noteq> 0"
      "same_env fs fs1" "i_dev ip1 = ?dev" "i_size ip1 = i_size ip" "i_mode ip1 = i_mode ip"
    using first_table_stage [OF T st i(3) ne1] unfolding i(1) by blast
  have T1: "tree_ok dkv (i_addr ip1) bs1" using r1(4) by (simp add: stage_def)
  have len1: "length bs \<le> Suc (length bs1)" using r1(4) by (auto simp: stage_def)
  have nA: "\<not> leaf (A ?i)" using i(2) by simp
  show ?thesis
  proof (cases "lbn < 262")
    case True
    note li = large_index [OF l(1) True]
    have lp: "leaf_path lbn = B ?i ?k" using True l by (simp add: leaf_path_def)
    have lt8: "\<not> 8 \<le> addr_index lbn" using li by simp
    have at: "table_at (B ?i ?k) dkv (i_addr ip1) blk ?k"
      using leaf_path_valid [of lbn] l r1(5,6) by (auto simp: table_at_def lp)
    have "bs1 \<noteq> []" using len1 ne by auto
    from final_entry_stage [OF T1 r1(2,3) at this] obtain bn fs2 bs2 where
      r2: "final_entry fs1 ?dev (blk, t) (int ?k) = Done (bn, fs2)" "stack_of fs2 ?dev m bs2"
        "stage dkv (i_addr ip1) bs1 {B ?i ?k} (disk fs2 ?dev) (i_addr ip1) bs2"
        "node (disk fs2 ?dev) (i_addr ip1) (B ?i ?k) = bn" "bn \<noteq> 0" "same_env fs1 fs2"
        "node dkv (i_addr ip1) (B ?i ?k) = 0 \<longrightarrow> disk fs2 ?dev bn = cleared_buf" by blast
    have S: "stage ?dk (i_addr ip) bs ({A ?i} \<union> {B ?i ?k}) (disk fs2 ?dev) (i_addr ip1) bs2"
      by (rule stage_trans [OF r1(4) r2(3)]) simp_all
    have n: "node dkv (i_addr ip1) (B ?i ?k) = node ?dk (i_addr ip) (B ?i ?k)"
    proof -
      have "valid_path (B ?i ?k)" using leaf_path_valid [of lbn] l lp by simp
      moreover have "B ?i ?k \<notin> {A ?i}" by simp
      ultimately show ?thesis using r1(4) unfolding stage_def by blast
    qed
    have "bmap_large fs ip lbn = Done (bn, ip1, fs2)"
      using r1(1,8) r2(1) k(1) lt8 by (simp add: bmap_large_def)
    moreover have "bmap_done fs ip m bs lbn bn ip1 fs2"
      unfolding bmap_done_def lp
      using S r2 n r1(7-10) nA same_env_trans [OF r1(7) r2(6)]
      by (intro conjI exI [of _ "{A ?i} \<union> {B ?i ?k}"] exI [of _ bs2]) auto
    ultimately show ?thesis by blast
  next
    case False
    then have l2: "262 \<le> lbn" by simp
    note hi = huge_index [OF l2 h]
    have lp: "leaf_path lbn = C ?i ?j ?k" using l2 by (simp add: leaf_path_def)
    have vC: "valid_path (C ?i ?j ?k)" using leaf_path_valid [of lbn] l lp by simp
    have ge8: "8 \<le> addr_index lbn" and j: "int ?j = second_index lbn" using hi by simp_all
    have vB: "valid_path (B ?i ?j)" using vC by simp
    have "bs1 \<noteq> []" using len1 ne by auto
    from second_table_stage [OF T1 r1(2,3) r1(5) [symmetric] r1(6) vB this] obtain blk2 t2 fs2 bs2 dkv2 where
      r2: "second_table fs1 ?dev (blk, t) (int ?j) = Done (Some (blk2, t2), fs2)" "stack_of fs2 ?dev m bs2"
        "holds (disk fs2 ?dev) blk2 t2 dkv2" "stage dkv (i_addr ip1) bs1 {B ?i ?j} dkv2 (i_addr ip1) bs2"
        "node dkv2 (i_addr ip1) (B ?i ?j) = blk2" "blk2 \<noteq> 0" "same_env fs1 fs2" by blast
    have T2: "tree_ok dkv2 (i_addr ip1) bs2" using r2(4) by (simp add: stage_def)
    have "length bs1 \<le> Suc (length bs2)" using r2(4) by (auto simp: stage_def)
    then have ne2: "bs2 \<noteq> []" using len1 ne by auto
    have at: "table_at (C ?i ?j ?k) dkv2 (i_addr ip1) blk2 ?k"
      using vC r2(5,6) by (auto simp: table_at_def)
    from final_entry_stage [OF T2 r2(2,3) at ne2] obtain bn fs3 bs3 where
      r3: "final_entry fs2 ?dev (blk2, t2) (int ?k) = Done (bn, fs3)" "stack_of fs3 ?dev m bs3"
        "stage dkv2 (i_addr ip1) bs2 {C ?i ?j ?k} (disk fs3 ?dev) (i_addr ip1) bs3"
        "node (disk fs3 ?dev) (i_addr ip1) (C ?i ?j ?k) = bn" "bn \<noteq> 0" "same_env fs2 fs3"
        "node dkv2 (i_addr ip1) (C ?i ?j ?k) = 0 \<longrightarrow> disk fs3 ?dev bn = cleared_buf" by blast
    have S2: "stage ?dk (i_addr ip) bs ({A ?i} \<union> {B ?i ?j}) dkv2 (i_addr ip1) bs2"
      by (rule stage_trans [OF r1(4) r2(4)]) simp_all
    have S: "stage ?dk (i_addr ip) bs ({A ?i} \<union> {B ?i ?j} \<union> {C ?i ?j ?k}) (disk fs3 ?dev) (i_addr ip1) bs3"
      by (rule stage_trans [OF S2 r3(3)]) simp_all
    have n: "node dkv2 (i_addr ip1) (C ?i ?j ?k) = node ?dk (i_addr ip) (C ?i ?j ?k)"
      using S2 vC unfolding stage_def by blast
    have nB: "\<not> leaf (B ?i ?j)" using vB hi(1) by simp
    have "bmap_large fs ip lbn = Done (bn, ip1, fs3)"
      using r1(1,8) r2(1) r3(1) k(1) j ge8 by (simp add: bmap_large_def)
    moreover have "bmap_done fs ip m bs lbn bn ip1 fs3"
      unfolding bmap_done_def lp
      using S r3 n r1(8-10) nA nB same_env_trans [OF same_env_trans [OF r1(7) r2(7)] r3(6)]
      by (intro conjI exI [of _ "{A ?i} \<union> {B ?i ?j} \<union> {C ?i ?j ?k}"] exI [of _ bs3]) auto
    ultimately show ?thesis by blast
  qed
qed

lemma Bmap_ok:
  fixes fs :: "'a ifs_scheme"
  assumes T: "tree_ok (disk fs (i_dev ip)) (i_addr ip) bs" and st: "stack_of fs (i_dev ip) m bs"
    and l: "0 \<le> lbn" "lbn < HUGE_FILE_BLOCK" and ne: "3 \<le> length bs"
  shows "\<exists>bn ip' fs'. Bmap fs ip lbn = Done (bn, ip', fs') \<and> bmap_done fs ip m bs lbn bn ip' fs'"
proof (cases "lbn < 6")
  case True
  have "bs \<noteq> []" using ne by auto
  from bmap_small_ok [OF T st l(1) True this] True l show ?thesis by (simp add: Bmap_def)
next
  case False
  with bmap_large_ok [OF T st _ l(2) ne] l show ?thesis by (simp add: Bmap_def)
qed

end
