(* ===== verification/FileData.thy ===== *)
theory FileData
  imports FileMap
begin

text \<open>
  The content of a file as an array of bytes, and \<open>ReadI\<close> and \<open>WriteI\<close> as reads and writes of that
  array: the abstract file that the block tree implements.
\<close>

section \<open>The bytes of a file\<close>

definition FILE_MAX :: int where
  "FILE_MAX = HUGE_FILE_BLOCK * 512"

definition file_byte :: "(int \<Rightarrow> u8 list) \<Rightarrow> int list \<Rightarrow> int \<Rightarrow> u8" where
  "file_byte dk addr x =
     (let b = node dk addr (leaf_path (x div 512))
      in if b = 0 then 0 else dk b ! nat (x mod 512))"

definition file_ok :: "'a ifs_scheme \<Rightarrow> inode \<Rightarrow> nat \<Rightarrow> int list \<Rightarrow> bool" where
  "file_ok fs ip m bs \<longleftrightarrow> tree_ok (disk fs (i_dev ip)) (i_addr ip) bs \<and> stack_of fs (i_dev ip) m bs"

definition bytes_in :: "'a ifs_scheme \<Rightarrow> inode \<Rightarrow> int \<Rightarrow> u8" where
  "bytes_in fs ip x = file_byte (disk fs (i_dev ip)) (i_addr ip) x"

text \<open>How many blocks a range of bytes touches.\<close>

definition blocks_in :: "int \<Rightarrow> int \<Rightarrow> nat" where
  "blocks_in off n = (if n \<le> 0 then 0 else nat ((off + n + 511) div 512 - off div 512))"

lemma lbn_range: "0 \<le> x \<Longrightarrow> x < FILE_MAX \<Longrightarrow> 0 \<le> x div 512 \<and> x div 512 < HUGE_FILE_BLOCK"
  by (auto simp: FILE_MAX_def HUGE_FILE_BLOCK_def)

text \<open>\<open>Bmap\<close> keeps the content: an unmapped block reads as zeros before and after.\<close>

lemma Bmap_content:
  fixes fs :: "'a ifs_scheme"
  assumes F: "file_ok fs ip m bs" and l: "0 \<le> lbn" "lbn < HUGE_FILE_BLOCK" and ne: "3 \<le> length bs"
  shows "\<exists>bn ip' fs' bs'. Bmap fs ip lbn = Done (bn, ip', fs') \<and> bn \<noteq> 0 \<and> file_ok fs' ip' m bs' \<and>
    length bs \<le> length bs' + 3 \<and> node (disk fs' (i_dev ip)) (i_addr ip') (leaf_path lbn) = bn \<and>
    (\<forall>x. 0 \<le> x \<longrightarrow> x < FILE_MAX \<longrightarrow> bytes_in fs' ip' x = bytes_in fs ip x) \<and>
    same_env fs fs' \<and> i_dev ip' = i_dev ip \<and> i_size ip' = i_size ip \<and> i_mode ip' = i_mode ip"
proof -
  from F have T: "tree_ok (disk fs (i_dev ip)) (i_addr ip) bs" and st: "stack_of fs (i_dev ip) m bs"
    by (simp_all add: file_ok_def)
  obtain bn ip' fs' where B: "Bmap fs ip lbn = Done (bn, ip', fs')" "bmap_done fs ip m bs lbn bn ip' fs'"
    using Bmap_ok [OF T st l ne] by blast
  let ?dev = "i_dev ip"
  from B(2) obtain P bs' where P: "finite P" "card P \<le> 3" "\<forall>q\<in>P. leaf q \<longrightarrow> q = leaf_path lbn"
    and S: "stage (disk fs ?dev) (i_addr ip) bs P (disk fs' ?dev) (i_addr ip') bs'"
    and st': "stack_of fs' ?dev m bs'"
    and n: "node (disk fs' ?dev) (i_addr ip') (leaf_path lbn) = bn" "bn \<noteq> 0"
    and z: "node (disk fs ?dev) (i_addr ip) (leaf_path lbn) = 0 \<longrightarrow> disk fs' ?dev bn = cleared_buf"
    and e: "same_env fs fs'" "i_dev ip' = i_dev ip" "i_size ip' = i_size ip" "i_mode ip' = i_mode ip"
    unfolding bmap_done_def by blast
  have F': "file_ok fs' ip' m bs'" using S st' e by (simp add: file_ok_def stage_def)
  have len: "length bs \<le> length bs' + 3" using S P(2) by (auto simp: stage_def)
  have c: "bytes_in fs' ip' x = bytes_in fs ip x" if x: "0 \<le> x" "x < FILE_MAX" for x
  proof -
    let ?q = "leaf_path (x div 512)"
    note v = leaf_path_valid [OF conjunct1 [OF lbn_range [OF x]] conjunct2 [OF lbn_range [OF x]]]
    show ?thesis
    proof (cases "node (disk fs ?dev) (i_addr ip) ?q = 0")
      case False
      then have "node (disk fs' ?dev) (i_addr ip') ?q = node (disk fs ?dev) (i_addr ip) ?q"
        "disk fs' ?dev (node (disk fs ?dev) (i_addr ip) ?q) = disk fs ?dev (node (disk fs ?dev) (i_addr ip) ?q)"
        using S v unfolding stage_def by blast+
      then show ?thesis using e by (simp add: bytes_in_def file_byte_def Let_def)
    next
      case True
      show ?thesis
      proof (cases "?q = leaf_path lbn")
        case q: True
        then have "disk fs' ?dev bn = cleared_buf" using z True by simp
        moreover have "nat (x mod 512) < 512" by (simp add: nat_less_iff)
        ultimately show ?thesis using True q n e
          by (simp add: bytes_in_def file_byte_def Let_def cleared_buf_def)
      next
        case q: False
        then have "?q \<notin> P" using P(3) v(2) by auto
        then have "node (disk fs' ?dev) (i_addr ip') ?q = 0"
          using S v(1) True unfolding stage_def by auto
        with True e show ?thesis by (simp add: bytes_in_def file_byte_def Let_def)
      qed
    qed
  qed
  show ?thesis using B(1) n F' len c e by blast
qed

section \<open>One block written\<close>

lemma take_mid: "i < length xs \<Longrightarrow> i < n \<Longrightarrow> (take n xs @ ys) ! i = xs ! i"
  by (simp add: nth_append)

lemma spliced_nth:
  assumes "length old = 512" "off + length d \<le> 512" "i < 512"
  shows "(take off old @ d @ drop (off + length d) old) ! i =
    (if off \<le> i \<and> i < off + length d then d ! (i - off) else old ! i)"
  using assms by (auto simp: nth_append)

lemma node_data_write:
  assumes T: "tree_ok dk addr bs" and q: "valid_path q" "leaf q" and b: "b = node dk addr q" "b \<noteq> 0"
    and p: "valid_path p"
  shows "node (dk(b := d)) addr p = node dk addr p"
proof -
  have x: "node dk addr r \<noteq> b" if r: "valid_path r" "\<not> leaf r" for r
  proof
    assume "node dk addr r = b"
    with b have "q = r" by (intro tree_inj [OF T q(1) r(1)]) simp_all
    with q(2) r(2) show False by simp
  qed
  show ?thesis
  proof (cases p)
    case (B i j)
    have e: "entry (dk(b := d)) (addr ! i) j = entry dk (addr ! i) j"
    proof (cases "i < 6")
      case False
      then show ?thesis using x [of "A i"] p B by (simp add: entry_other)
    qed (use p B in simp)
    with B show ?thesis by simp
  next
    case (C i j k)
    have v: "valid_path (B i j)" "valid_path (A i)" using p C by auto
    have "addr ! i \<noteq> b" using x [of "A i"] v p C by simp
    moreover have "entry dk (addr ! i) j \<noteq> b" using x [of "B i j"] v p C by simp
    ultimately show ?thesis using C by (simp add: entry_other)
  qed simp
qed

lemma write_block_content:
  fixes fs :: "'a ifs_scheme"
  assumes F: "file_ok fs ip m bs" and l: "0 \<le> lbn" "lbn < HUGE_FILE_BLOCK"
    and b: "b = node (disk fs (i_dev ip)) (i_addr ip) (leaf_path lbn)" "b \<noteq> 0"
    and d: "0 \<le> off" "length data = n" "off + int n \<le> 512"
    and fs': "fs' = set_block (i_dev ip) b
        (take (nat off) (disk fs (i_dev ip) b) @ data @ drop (nat (off + int n)) (disk fs (i_dev ip) b)) fs"
  shows "file_ok fs' ip m bs"
    and "0 \<le> x \<Longrightarrow> x < FILE_MAX \<Longrightarrow> bytes_in fs' ip x =
      (if lbn * 512 + off \<le> x \<and> x < lbn * 512 + off + int n then data ! nat (x - (lbn * 512 + off))
       else bytes_in fs ip x)"
proof -
  let ?dev = "i_dev ip" and ?q = "leaf_path lbn"
  let ?dk = "disk fs ?dev"
  let ?new = "take (nat off) (?dk b) @ data @ drop (nat off + n) (?dk b)"
  have fs'': "fs' = set_block ?dev b ?new fs"
    using d fs' by (simp add: nat_add_distrib)
  from F have T: "tree_ok ?dk (i_addr ip) bs" and st: "stack_of fs ?dev m bs"
    by (simp_all add: file_ok_def)
  note v = leaf_path_valid [OF l]
  have old: "length (?dk b) = 512" using T by (simp add: tree_ok_def)
  have on: "nat off + n \<le> 512" using d by simp
  have D: "disk fs' ?dev = ?dk(b := ?new)" by (rule ext) (simp add: fs'')
  have nd: "node (disk fs' ?dev) (i_addr ip) p = node ?dk (i_addr ip) p" if "valid_path p" for p
    unfolding D by (rule node_data_write [OF T v b that])
  have "tree_ok (disk fs' ?dev) (i_addr ip) bs"
  proof -
    have "\<forall>x. length (disk fs' ?dev x) = 512"
      using T old on d(2) by (auto simp: D tree_ok_def)
    then show ?thesis using T nd unfolding tree_ok_def by simp
  qed
  moreover have "b \<notin> set bs" using tree_free [OF T v(1)] b by blast
  ultimately show "file_ok fs' ip m bs"
    using stack_of_written [OF st] fs'' by (simp add: file_ok_def)
  show "bytes_in fs' ip x =
      (if lbn * 512 + off \<le> x \<and> x < lbn * 512 + off + int n then data ! nat (x - (lbn * 512 + off))
       else bytes_in fs ip x)" if x: "0 \<le> x" "x < FILE_MAX"
  proof (cases "x div 512 = lbn")
    case True
    then have xe: "x = lbn * 512 + x mod 512" by (metis div_mult_mod_eq)
    let ?i = "nat (x mod 512)"
    have i: "?i < 512" by (simp add: nat_less_iff)
    have "bytes_in fs' ip x = ?new ! ?i"
      using nd [OF v(1)] b True by (simp add: bytes_in_def file_byte_def Let_def D)
    also have "\<dots> = (if nat off \<le> ?i \<and> ?i < nat off + n then data ! (?i - nat off) else ?dk b ! ?i)"
      using spliced_nth [OF old, of "nat off" data ?i] on i d(2) by simp
    also have "?dk b ! ?i = bytes_in fs ip x"
      using b True by (simp add: bytes_in_def file_byte_def Let_def)
    also have "nat off \<le> ?i \<and> ?i < nat off + n \<longleftrightarrow> lbn * 512 + off \<le> x \<and> x < lbn * 512 + off + int n"
      using d(1) xe by (auto simp: nat_le_iff nat_less_iff)
    also have "?i - nat off = nat (x - (lbn * 512 + off))"
      using d(1) xe by (simp add: nat_diff_distrib' [symmetric])
    finally show ?thesis .
  next
    case False
    let ?p = "leaf_path (x div 512)"
    note r = lbn_range [OF x]
    note vp = leaf_path_valid [OF conjunct1 [OF r] conjunct2 [OF r]]
    have "?p \<noteq> ?q" using leaf_path_inj [of "x div 512" lbn] r l False by blast
    then have "node ?dk (i_addr ip) ?p \<noteq> b" using tree_inj [OF T v(1) vp(1)] b by metis
    then have "bytes_in fs' ip x = bytes_in fs ip x"
      using nd [OF vp(1)] by (simp add: bytes_in_def file_byte_def Let_def D)
    moreover have "\<not> (lbn * 512 + off \<le> x \<and> x < lbn * 512 + off + int n)"
    proof
      assume "lbn * 512 + off \<le> x \<and> x < lbn * 512 + off + int n"
      then have "lbn * 512 \<le> x" "x < lbn * 512 + 512" using d by auto
      then have "x div 512 = lbn" by (simp add: int_div_pos_eq [of x 512 lbn "x - lbn * 512"])
      with False show False ..
    qed
    ultimately show ?thesis by auto
  qed
qed

section \<open>The loops\<close>

definition regular :: "inode \<Rightarrow> bool" where
  "regular ip \<longleftrightarrow> i_mode ip AND IFMT = 0 \<or> i_mode ip AND IFMT = IFDIR"

lemma regular_not_special:
  assumes "regular ip"
  shows "i_mode ip AND IFMT \<noteq> IFBLK" "i_mode ip AND IFMT \<noteq> IFCHR" "i_mode ip AND (IFBLK AND IFCHR) = 0"
proof -
  show "i_mode ip AND IFMT \<noteq> IFBLK" "i_mode ip AND IFMT \<noteq> IFCHR"
    using assms by (auto simp: regular_def IFMT_def IFBLK_def IFCHR_def IFDIR_def)
  have "i_mode ip AND (IFBLK AND IFCHR) = (i_mode ip AND IFMT) AND 0x2000"
    by (simp add: IFMT_def IFBLK_def IFCHR_def and.assoc)
  then show "i_mode ip AND (IFBLK AND IFCHR) = 0"
    using assms by (auto simp: regular_def IFDIR_def)
qed

lemma load_bytes_nth: "i < n \<Longrightarrow> load_bytes mem base n ! i = mem (base + int i)"
  by (simp add: load_bytes_def)

lemma length_load [simp]: "length (load_bytes mem base n) = n"
  by (simp add: load_bytes_def)

definition io_step :: "ioparam \<Rightarrow> int" where
  "io_step io = min (512 - m_Offset io mod 512) (m_Count io)"

lemma io_step_bounds:
  assumes "0 < m_Count io"
  shows "0 < io_step io" "io_step io \<le> m_Count io" "m_Offset io mod 512 + io_step io \<le> 512"
    "blocks_in (m_Offset io) (m_Count io) =
       Suc (blocks_in (m_Offset (io_advance io (io_step io))) (m_Count (io_advance io (io_step io))))"
proof -
  let ?off = "m_Offset io" and ?n = "m_Count io"
  have m: "0 \<le> ?off mod 512" "?off mod 512 < 512" by simp_all
  show "0 < io_step io" "io_step io \<le> ?n" "?off mod 512 + io_step io \<le> 512"
    using assms m by (auto simp: io_step_def)
  define q where "q = ?off div 512"
  define r where "r = ?off mod 512"
  have off: "?off = q * 512 + r" by (simp add: q_def r_def)
  have r: "0 \<le> r" "r < 512" using m by (simp_all add: r_def)
  have e: "(q * 512 + y) div 512 = q + y div 512" for y by simp
  have q: "(q * 512 + r) div 512 = q" "(q * 512 + r) mod 512 = r" using r by simp_all
  show "blocks_in ?off ?n =
       Suc (blocks_in (m_Offset (io_advance io (io_step io))) (m_Count (io_advance io (io_step io))))"
  proof (cases "512 - r \<le> ?n")
    case True
    then have st: "io_step io = 512 - r" by (simp add: io_step_def r_def)
    have "(?off + ?n + 511) div 512 = q + (r + ?n + 511) div 512"
      using e [of "r + ?n + 511"] by (simp add: off add.assoc)
    moreover have "1 \<le> (r + ?n + 511) div 512" using r assms by simp
    moreover have "(r + ?n + 511) div 512 = 1" if "?n = 512 - r" using that r by simp
    moreover have "(q * 512 + 512) div 512 = q + 1" by simp
    ultimately show ?thesis using True assms r q
      by (auto simp: blocks_in_def io_advance_def st off add.assoc nat_add_distrib [symmetric] Suc_nat_eq_nat_zadd1)
  next
    case False
    then have st: "io_step io = ?n" by (simp add: io_step_def r_def)
    have "(?off + ?n + 511) div 512 = q + (r + ?n + 511) div 512"
      using e [of "r + ?n + 511"] by (simp add: off add.assoc)
    moreover have "(r + ?n + 511) div 512 = 1" using r assms False by simp
    ultimately show ?thesis using assms r q
      by (simp add: blocks_in_def io_advance_def st off)
  qed
qed

lemma write_step_ok:
  fixes fs :: "'a ifs_scheme"
  assumes F: "file_ok fs ip m bs" and r: "regular ip" and c: "0 < m_Count io"
    and off: "0 \<le> m_Offset io" "m_Offset io < FILE_MAX" and ne: "3 \<le> length bs"
  shows "\<exists>ip' fs' bs'. write_step ip io fs = Done (True, ip', io_advance io (io_step io), fs') \<and>
    file_ok fs' ip' m bs' \<and> length bs \<le> length bs' + 3 \<and>
    (\<forall>x. 0 \<le> x \<longrightarrow> x < FILE_MAX \<longrightarrow> bytes_in fs' ip' x =
      (if m_Offset io \<le> x \<and> x < m_Offset io + io_step io then umem fs (m_Base io + (x - m_Offset io))
       else bytes_in fs ip x)) \<and>
    i_size ip' = max (i_size ip) (m_Offset io + io_step io) \<and> same_env fs fs' \<and>
    i_dev ip' = i_dev ip \<and> i_mode ip' = i_mode ip"
proof -
  let ?lbn = "m_Offset io div 512" and ?o = "m_Offset io mod 512" and ?n = "io_step io"
  note l = lbn_range [OF off]
  note sb = io_step_bounds [OF c]
  obtain bn ip1 fs1 bs1 where B: "Bmap fs ip ?lbn = Done (bn, ip1, fs1)" "bn \<noteq> 0" "file_ok fs1 ip1 m bs1"
    "length bs \<le> length bs1 + 3" "node (disk fs1 (i_dev ip)) (i_addr ip1) (leaf_path ?lbn) = bn"
    "\<forall>x. 0 \<le> x \<longrightarrow> x < FILE_MAX \<longrightarrow> bytes_in fs1 ip1 x = bytes_in fs ip x" "same_env fs fs1"
    "i_dev ip1 = i_dev ip" "i_size ip1 = i_size ip" "i_mode ip1 = i_mode ip"
    using Bmap_content [OF F _ _ ne] l by blast
  let ?data = "load_bytes (umem fs1) (m_Base io) (nat ?n)"
  let ?old = "disk fs1 (i_dev ip1) bn"
  define fs' where "fs' = set_block (i_dev ip1) bn (take (nat ?o) ?old @ ?data @ drop (nat (?o + ?n)) ?old) fs1"
  define ip2 where "ip2 = (if i_size ip1 < m_Offset (io_advance io ?n) \<and> i_mode ip1 AND (IFBLK AND IFCHR) = 0
      then ip1\<lparr>i_size := m_Offset (io_advance io ?n)\<rparr> else ip1)"
  define ip' where "ip' = ip2\<lparr>i_flag := set_flag (i_flag ip2) IUPD\<rparr>"
  have step: "write_step ip io fs = Done (True, ip', io_advance io ?n, fs')"
    using B(1,2) off(1) c regular_not_special [OF r]
    by (simp add: write_step_def Let_def io_step_def [symmetric] fs'_def ip'_def ip2_def)
  have bnode: "bn = node (disk fs1 (i_dev ip1)) (i_addr ip1) (leaf_path ?lbn)" using B(5,8) by simp
  have nn: "?o + int (nat ?n) \<le> 512" "int (nat ?n) = ?n" using sb by simp_all
  have fe: "fs' = set_block (i_dev ip1) bn (take (nat ?o) ?old @ ?data @ drop (nat (?o + int (nat ?n))) ?old) fs1"
    using nn(2) by (simp add: fs'_def)
  have o0: "0 \<le> ?o" by simp
  note W = write_block_content [OF B(3) conjunct1 [OF l] conjunct2 [OF l] bnode B(2) o0 length_load nn(1) fe]
  have same: "i_addr ip' = i_addr ip1" "i_dev ip' = i_dev ip1" "i_mode ip' = i_mode ip1"
    by (simp_all add: ip'_def ip2_def)
  have F': "file_ok fs' ip' m bs1" using W(1) same by (simp add: file_ok_def)
  have offe: "?lbn * 512 + ?o = m_Offset io" by (rule div_mult_mod_eq)
  have cont: "bytes_in fs' ip' x =
      (if m_Offset io \<le> x \<and> x < m_Offset io + ?n then umem fs (m_Base io + (x - m_Offset io))
       else bytes_in fs ip x)" if x: "0 \<le> x" "x < FILE_MAX" for x
  proof -
    have "bytes_in fs' ip' x = bytes_in fs' ip1 x" using same by (simp add: bytes_in_def)
    also have "\<dots> = (if m_Offset io \<le> x \<and> x < m_Offset io + ?n then ?data ! nat (x - m_Offset io)
        else bytes_in fs1 ip1 x)"
      using W(2) [OF x] unfolding offe nn(2) .
    also have "\<dots> = (if m_Offset io \<le> x \<and> x < m_Offset io + ?n then umem fs (m_Base io + (x - m_Offset io))
        else bytes_in fs ip x)"
      using B(6,7) x by (simp add: load_bytes_nth nat_less_iff same_env_def)
    finally show ?thesis .
  qed
  have "i_size ip' = max (i_size ip) (m_Offset io + ?n)"
    using B(9,10) regular_not_special(3) [OF r] by (simp add: ip'_def ip2_def io_advance_def)
  moreover have "same_env fs fs'" using B(7) by (simp add: same_env_def fs'_def set_block_def)
  ultimately show ?thesis using step F' B(4,8,10) same cont by auto
qed

lemma io_advance_simps [simp]:
  "m_Base (io_advance io n) = m_Base io + n" "m_Offset (io_advance io n) = m_Offset io + n"
  "m_Count (io_advance io n) = m_Count io - n" "io_advance (io_advance io a) b = io_advance io (a + b)"
  "io_advance io 0 = io"
  by (simp_all add: io_advance_def)

text \<open>What a finished write of \<open>n\<close> bytes leaves.\<close>

definition written :: "'a ifs_scheme \<Rightarrow> inode \<Rightarrow> nat \<Rightarrow> int list \<Rightarrow> ioparam \<Rightarrow> int \<Rightarrow> 'a ifs_scheme \<Rightarrow> inode \<Rightarrow> bool" where
  "written fs ip m bs io n fs' ip' \<longleftrightarrow>
     (\<exists>bs'. file_ok fs' ip' m bs' \<and> length bs \<le> length bs' + 3 * blocks_in (m_Offset io) n) \<and>
     (\<forall>x. 0 \<le> x \<longrightarrow> x < FILE_MAX \<longrightarrow> bytes_in fs' ip' x =
        (if m_Offset io \<le> x \<and> x < m_Offset io + n then umem fs (m_Base io + (x - m_Offset io))
         else bytes_in fs ip x)) \<and>
     i_size ip' = (if n = 0 then i_size ip else max (i_size ip) (m_Offset io + n)) \<and>
     same_env fs fs' \<and> i_dev ip' = i_dev ip \<and> i_mode ip' = i_mode ip"

lemma write_loop_ok:
  fixes fs :: "'a ifs_scheme"
  assumes "file_ok fs ip m bs" "regular ip" "u_error fs = NOERROR" "0 \<le> m_Offset io" "0 \<le> m_Count io"
    "m_Offset io + m_Count io \<le> FILE_MAX" "3 * blocks_in (m_Offset io) (m_Count io) \<le> length bs"
  shows "\<exists>ip' fs'. write_loop ip io fs = Done (ip', io_advance io (m_Count io), fs') \<and>
    written fs ip m bs io (m_Count io) fs' ip'"
  using assms
proof (induction "blocks_in (m_Offset io) (m_Count io)" arbitrary: io ip fs bs rule: less_induct)
  case less
  show ?case
  proof (cases "m_Count io = 0")
    case True
    then have "write_loop ip io fs = Done (ip, io, fs)" by (subst write_loop.simps) simp
    with True less.prems(1) show ?thesis
      by (auto simp: written_def same_env_refl intro!: exI [of _ bs])
  next
    case False
    with less.prems have c: "0 < m_Count io" by simp
    note sb = io_step_bounds [OF c]
    let ?n = "io_step io" and ?io = "io_advance io (io_step io)"
    have off: "m_Offset io < FILE_MAX" using less.prems c by simp
    have ne: "3 \<le> length bs" using less.prems(7) sb(4) by simp
    obtain ip1 fs1 bs1 where W: "write_step ip io fs = Done (True, ip1, ?io, fs1)"
      "file_ok fs1 ip1 m bs1" "length bs \<le> length bs1 + 3"
      "\<forall>x. 0 \<le> x \<longrightarrow> x < FILE_MAX \<longrightarrow> bytes_in fs1 ip1 x =
        (if m_Offset io \<le> x \<and> x < m_Offset io + ?n then umem fs (m_Base io + (x - m_Offset io))
         else bytes_in fs ip x)"
      "i_size ip1 = max (i_size ip) (m_Offset io + ?n)" "same_env fs fs1"
      "i_dev ip1 = i_dev ip" "i_mode ip1 = i_mode ip"
      using write_step_ok [OF less.prems(1,2) c less.prems(4) off ne] by blast
    have l1: "write_loop ip io fs = write_loop ip1 ?io fs1"
      using W(1) less.prems(3) False by (subst write_loop.simps) simp
    have "\<exists>ip' fs'. write_loop ip1 ?io fs1 = Done (ip', io_advance ?io (m_Count ?io), fs') \<and>
        written fs1 ip1 m bs1 ?io (m_Count ?io) fs' ip'"
    proof (rule less.hyps)
      show "blocks_in (m_Offset ?io) (m_Count ?io) < blocks_in (m_Offset io) (m_Count io)"
        using sb(4) by simp
      show "file_ok fs1 ip1 m bs1" by (rule W(2))
      show "regular ip1" using less.prems(2) W(8) by (simp add: regular_def)
      show "u_error fs1 = NOERROR" using W(6) less.prems(3) by (simp add: same_env_def)
      show "0 \<le> m_Offset ?io" "0 \<le> m_Count ?io" "m_Offset ?io + m_Count ?io \<le> FILE_MAX"
        using less.prems(4,6) sb(1,2) by simp_all
      show "3 * blocks_in (m_Offset ?io) (m_Count ?io) \<le> length bs1"
        using less.prems(7) sb(4) W(3) by simp
    qed
    then obtain ip' fs' where R: "write_loop ip1 ?io fs1 = Done (ip', io_advance io (m_Count io), fs')"
      "written fs1 ip1 m bs1 ?io (m_Count io - ?n) fs' ip'" by auto
    have "written fs ip m bs io (m_Count io) fs' ip'"
      unfolding written_def
    proof (intro conjI allI impI)
      show "\<exists>bs'. file_ok fs' ip' m bs' \<and> length bs \<le> length bs' + 3 * blocks_in (m_Offset io) (m_Count io)"
      proof -
        obtain bs' where "file_ok fs' ip' m bs'"
          "length bs1 \<le> length bs' + 3 * blocks_in (m_Offset ?io) (m_Count ?io)"
          using R(2) by (auto simp: written_def)
        then show ?thesis using W(3) sb(4) by (intro exI [of _ bs']) simp
      qed
      fix x
      assume "0 \<le> x" "x < FILE_MAX"
      then show "bytes_in fs' ip' x =
        (if m_Offset io \<le> x \<and> x < m_Offset io + m_Count io then umem fs (m_Base io + (x - m_Offset io))
         else bytes_in fs ip x)"
        using R(2) W(4,6) sb(1,2) by (auto simp: written_def same_env_def algebra_simps)
    next
      show "i_size ip' = (if m_Count io = 0 then i_size ip else max (i_size ip) (m_Offset io + m_Count io))"
        using R(2) W(5) sb(1,2) c by (auto simp: written_def split: if_splits)
      show "same_env fs fs'" "i_dev ip' = i_dev ip" "i_mode ip' = i_mode ip"
        using R(2) W(6-8) by (auto simp: written_def intro: same_env_trans)
    qed
    with l1 R(1) show ?thesis by auto
  qed
qed

lemma read_step_ok:
  fixes fs :: "'a ifs_scheme"
  assumes F: "file_ok fs ip m bs" and r: "regular ip" and c: "0 < m_Count io"
    and off: "0 \<le> m_Offset io" "m_Offset io < FILE_MAX" "m_Offset io < i_size ip" and ne: "3 \<le> length bs"
    and n: "n = min (io_step io) (i_size ip - m_Offset io)"
  shows "\<exists>ip' fs' bs'. read_step ip io fs = Done (True, ip', io_advance io n, fs') \<and>
    file_ok fs' ip' m bs' \<and> length bs \<le> length bs' + 3 \<and>
    (\<forall>x. 0 \<le> x \<longrightarrow> x < FILE_MAX \<longrightarrow> bytes_in fs' ip' x = bytes_in fs ip x) \<and>
    (\<forall>a. umem fs' a = (if m_Base io \<le> a \<and> a < m_Base io + n then bytes_in fs ip (m_Offset io + (a - m_Base io))
       else umem fs a)) \<and>
    u_error fs' = u_error fs \<and> i_size ip' = i_size ip \<and> i_dev ip' = i_dev ip \<and> i_mode ip' = i_mode ip"
proof -
  let ?lbn = "m_Offset io div 512" and ?o = "m_Offset io mod 512"
  note l = lbn_range [OF off(1,2)]
  note sb = io_step_bounds [OF c]
  obtain bn ip1 fs1 bs1 where B: "Bmap fs ip ?lbn = Done (bn, ip1, fs1)" "bn \<noteq> 0" "file_ok fs1 ip1 m bs1"
    "length bs \<le> length bs1 + 3" "node (disk fs1 (i_dev ip)) (i_addr ip1) (leaf_path ?lbn) = bn"
    "\<forall>x. 0 \<le> x \<longrightarrow> x < FILE_MAX \<longrightarrow> bytes_in fs1 ip1 x = bytes_in fs ip x" "same_env fs fs1"
    "i_dev ip1 = i_dev ip" "i_size ip1 = i_size ip" "i_mode ip1 = i_mode ip"
    using Bmap_content [OF F _ _ ne] l by blast
  let ?data = "take (nat n) (drop (nat ?o) (disk fs1 (i_dev ip1) bn))"
  let ?fs = "fs1\<lparr>umem := store_bytes (umem fs1) (m_Base io) ?data\<rparr>"
  let ?ip = "ip1\<lparr>i_lastr := ?lbn\<rparr>"
  have n0: "0 < n" "?o + n \<le> 512" using sb off(3) n by auto
  have step: "read_step ip io fs = Done (True, ?ip, io_advance io n, ?fs)"
    using B(1,2) off c regular_not_special [OF r] n
    by (simp add: read_step_def Let_def io_step_def [symmetric])
  have old: "length (disk fs1 (i_dev ip1) bn) = 512"
    using B(3) by (simp add: file_ok_def tree_ok_def)
  have data: "length ?data = nat n" "\<And>i. i < nat n \<Longrightarrow> ?data ! i = bytes_in fs ip (m_Offset io + int i)"
  proof -
    show len: "length ?data = nat n" using old n0 by (simp add: nat_le_iff)
    show "?data ! i = bytes_in fs ip (m_Offset io + int i)" if i: "i < nat n" for i
    proof -
      let ?x = "m_Offset io + int i"
      have oi: "0 \<le> ?o" "?o + int i < 512" using i n0 by linarith+
      have me: "?x = ?lbn * 512 + (?o + int i)" using div_mult_mod_eq [of "m_Offset io" 512] by simp
      have xd: "?x div 512 = ?lbn" "?x mod 512 = ?o + int i"
      proof -
        define y where "y = ?o + int i"
        have y: "0 \<le> y" "y < 512" "?x = ?lbn * 512 + y" using oi me by (simp_all only: y_def)
        show "?x div 512 = ?lbn" "?x mod 512 = ?o + int i"
          unfolding y(3) y_def [symmetric] using y(1,2) by simp_all
      qed
      have aux: "y < 512 \<Longrightarrow> q * 512 + y < (q + 1) * 512" for q y :: int by simp
      have "?x < (?lbn + 1) * 512" by (subst me) (rule aux [OF oi(2)])
      moreover have "(?lbn + 1) * 512 \<le> FILE_MAX" using l by (simp add: FILE_MAX_def HUGE_FILE_BLOCK_def)
      ultimately have "?x < FILE_MAX" by simp
      then have "bytes_in fs ip ?x = bytes_in fs1 ip1 ?x" using B(6) off(1) by simp
      also have "\<dots> = disk fs1 (i_dev ip1) bn ! nat (?o + int i)"
        using B(2,5,8) xd by (simp add: bytes_in_def file_byte_def Let_def)
      also have "nat (?o + int i) = nat ?o + i" using oi by (simp add: nat_add_distrib)
      finally show ?thesis using i len old n0 by simp
    qed
  qed
  have um: "umem ?fs a = (if m_Base io \<le> a \<and> a < m_Base io + n
      then bytes_in fs ip (m_Offset io + (a - m_Base io)) else umem fs a)" for a
    using data(2) [of "nat (a - m_Base io)"] data(1) n0 B(7)
    by (auto simp: store_bytes_def same_env_def nat_less_iff)
  have same: "i_addr ?ip = i_addr ip1" "disk ?fs = disk fs1" by simp_all
  have "stack_of ?fs = stack_of fs1" by (intro ext) (simp add: stack_of_def)
  then have "file_ok ?fs ?ip m bs1" using B(3) by (simp add: file_ok_def)
  moreover have "bytes_in ?fs ?ip x = bytes_in fs1 ip1 x" for x by (simp add: bytes_in_def)
  ultimately show ?thesis using step B(4,6-10) um by (auto simp: same_env_def)
qed

lemma blocks_in_step:
  assumes "0 < n" and k: "k = min (512 - off mod 512) n"
  shows "blocks_in off n = Suc (blocks_in (off + k) (n - k))"
  using io_step_bounds(4) [of "\<lparr>m_Base = 0, m_Offset = off, m_Count = n\<rparr>"] assms
  by (simp add: io_step_def)

text \<open>How far a read goes, and what it leaves.\<close>

definition readable :: "inode \<Rightarrow> ioparam \<Rightarrow> int" where
  "readable ip io = max 0 (min (m_Count io) (i_size ip - m_Offset io))"

definition was_read :: "'a ifs_scheme \<Rightarrow> inode \<Rightarrow> nat \<Rightarrow> ioparam \<Rightarrow> int \<Rightarrow> 'a ifs_scheme \<Rightarrow> inode \<Rightarrow> bool" where
  "was_read fs ip m io n fs' ip' \<longleftrightarrow>
     (\<exists>bs'. file_ok fs' ip' m bs') \<and>
     (\<forall>x. 0 \<le> x \<longrightarrow> x < FILE_MAX \<longrightarrow> bytes_in fs' ip' x = bytes_in fs ip x) \<and>
     (\<forall>a. umem fs' a = (if m_Base io \<le> a \<and> a < m_Base io + n then bytes_in fs ip (m_Offset io + (a - m_Base io))
       else umem fs a)) \<and>
     u_error fs' = NOERROR \<and> i_size ip' = i_size ip \<and> i_dev ip' = i_dev ip \<and> i_mode ip' = i_mode ip"

lemma read_loop_ok:
  fixes fs :: "'a ifs_scheme"
  assumes "file_ok fs ip m bs" "regular ip" "u_error fs = NOERROR" "0 \<le> m_Offset io" "0 \<le> m_Count io"
    "i_size ip \<le> FILE_MAX" "3 * blocks_in (m_Offset io) (readable ip io) \<le> length bs"
  shows "\<exists>ip' fs'. read_loop ip io fs = Done (ip', io_advance io (readable ip io), fs') \<and>
    was_read fs ip m io (readable ip io) fs' ip'"
  using assms
proof (induction "blocks_in (m_Offset io) (readable ip io)" arbitrary: io ip fs bs rule: less_induct)
  case less
  have stop: "was_read fs ip m io 0 fs ip"
    using less.prems(1,3) by (auto simp: was_read_def)
  consider "m_Count io = 0" | "0 < m_Count io" "i_size ip \<le> m_Offset io"
    | "0 < m_Count io" "m_Offset io < i_size ip" using less.prems(5) by linarith
  then show ?case
  proof cases
    case 1
    then have "read_loop ip io fs = Done (ip, io, fs)" by (subst read_loop.simps) simp
    moreover have "readable ip io = 0" using 1 by (simp add: readable_def)
    ultimately show ?thesis using stop by auto
  next
    case 2
    have "read_step ip io fs = Done (False, ip, io, fs)"
      using 2 less.prems(4) regular_not_special [OF less.prems(2)] by (simp add: read_step_def Let_def)
    then have "read_loop ip io fs = Done (ip, io, fs)" by (subst read_loop.simps) simp
    moreover have "readable ip io = 0" using 2 by (simp add: readable_def)
    ultimately show ?thesis using stop by auto
  next
    case 3
    define n where "n = min (io_step io) (i_size ip - m_Offset io)"
    let ?io = "io_advance io n"
    have off: "m_Offset io < FILE_MAX" using 3 less.prems(6) by simp
    have rd: "0 < readable ip io" using 3 by (simp add: readable_def)
    have nk: "n = min (512 - m_Offset io mod 512) (readable ip io)"
      using 3 by (auto simp: n_def io_step_def readable_def)
    note bk = blocks_in_step [OF rd nk]
    have np: "0 < n" "n \<le> readable ip io" using io_step_bounds(1) [OF 3(1)] 3 nk by (auto simp: n_def)
    have ne: "3 \<le> length bs" using less.prems(7) bk by simp
    obtain ip1 fs1 bs1 where R: "read_step ip io fs = Done (True, ip1, ?io, fs1)" "file_ok fs1 ip1 m bs1"
      "length bs \<le> length bs1 + 3"
      "\<forall>x. 0 \<le> x \<longrightarrow> x < FILE_MAX \<longrightarrow> bytes_in fs1 ip1 x = bytes_in fs ip x"
      "\<forall>a. umem fs1 a = (if m_Base io \<le> a \<and> a < m_Base io + n then bytes_in fs ip (m_Offset io + (a - m_Base io))
         else umem fs a)"
      "u_error fs1 = u_error fs" "i_size ip1 = i_size ip" "i_dev ip1 = i_dev ip" "i_mode ip1 = i_mode ip"
      using read_step_ok [OF less.prems(1,2) 3(1) less.prems(4) off 3(2) ne n_def] by blast
    have l1: "read_loop ip io fs = read_loop ip1 ?io fs1"
      using R(1) less.prems(3) 3(1) by (subst read_loop.simps) simp
    have rd1: "readable ip1 ?io = readable ip io - n"
      using np R(7) by (auto simp: readable_def)
    have "\<exists>ip' fs'. read_loop ip1 ?io fs1 = Done (ip', io_advance ?io (readable ip1 ?io), fs') \<and>
        was_read fs1 ip1 m ?io (readable ip1 ?io) fs' ip'"
    proof (rule less.hyps)
      show "blocks_in (m_Offset ?io) (readable ip1 ?io) < blocks_in (m_Offset io) (readable ip io)"
        using bk rd1 by simp
      show "file_ok fs1 ip1 m bs1" by (rule R(2))
      show "regular ip1" using less.prems(2) R(9) by (simp add: regular_def)
      show "u_error fs1 = NOERROR" using R(6) less.prems(3) by simp
      show "0 \<le> m_Offset ?io" "0 \<le> m_Count ?io" "i_size ip1 \<le> FILE_MAX"
        using less.prems(4,6) np R(7) by (auto simp: readable_def)
      show "3 * blocks_in (m_Offset ?io) (readable ip1 ?io) \<le> length bs1"
        using less.prems(7) bk rd1 R(3) by simp
    qed
    then obtain ip' fs' where L: "read_loop ip1 ?io fs1 = Done (ip', io_advance io (readable ip io), fs')"
      "was_read fs1 ip1 m ?io (readable ip io - n) fs' ip'" using rd1 by auto
    have "was_read fs ip m io (readable ip io) fs' ip'"
      unfolding was_read_def
    proof (intro conjI allI impI)
      show "\<exists>bs'. file_ok fs' ip' m bs'" using L(2) by (simp add: was_read_def)
      show "bytes_in fs' ip' x = bytes_in fs ip x" if "0 \<le> x" "x < FILE_MAX" for x
        using L(2) R(4) that by (simp add: was_read_def)
      show "umem fs' a = (if m_Base io \<le> a \<and> a < m_Base io + readable ip io
          then bytes_in fs ip (m_Offset io + (a - m_Base io)) else umem fs a)" for a
      proof -
        have u: "umem fs' a = (if m_Base io + n \<le> a \<and> a < m_Base io + readable ip io
            then bytes_in fs1 ip1 (m_Offset io + (a - m_Base io)) else umem fs1 a)"
          using L(2) by (simp add: was_read_def algebra_simps)
        have "bytes_in fs1 ip1 (m_Offset io + (a - m_Base io)) = bytes_in fs ip (m_Offset io + (a - m_Base io))"
          if "m_Base io + n \<le> a" "a < m_Base io + readable ip io"
          using R(4) that less.prems(4,6) np by (auto simp: readable_def)
        then show ?thesis using u R(5) np by auto
      qed
    qed (use L(2) R(6-9) less.prems(3) in \<open>simp_all add: was_read_def\<close>)
    with l1 L(1) show ?thesis by auto
  qed
qed

section \<open>Properties\<close>

text \<open>
  C9. \<open>Bmap\<close> on a well-formed file with space left gives every logical block up to the largest one
  a physical block: the block that is mapped there already, or else a fresh, cleared one taken from
  the top of the free list (with at most two index tables). No other logical block is remapped, no
  data block is written, and the file stays well formed, so that no block ever belongs to it twice
  or to it and the free list.
\<close>

theorem Bmap_maps_block:
  fixes fs :: "'a ifs_scheme"
  assumes "tree_ok (disk fs (i_dev ip)) (i_addr ip) bs" and "stack_of fs (i_dev ip) m bs"
    and "0 \<le> lbn" and "lbn < HUGE_FILE_BLOCK" and "3 \<le> length bs"
  shows "\<exists>bn ip' fs' bs'. Bmap fs ip lbn = Done (bn, ip', fs') \<and> bn \<noteq> 0 \<and>
    tree_ok (disk fs' (i_dev ip)) (i_addr ip') bs' \<and> stack_of fs' (i_dev ip) m bs' \<and>
    (\<exists>n\<le>3. bs' = drop n bs) \<and>
    (\<forall>l. 0 \<le> l \<longrightarrow> l < HUGE_FILE_BLOCK \<longrightarrow>
       (let old = node (disk fs (i_dev ip)) (i_addr ip) (leaf_path l);
            new = node (disk fs' (i_dev ip)) (i_addr ip') (leaf_path l)
        in (l = lbn \<longrightarrow> new = bn) \<and> (l \<noteq> lbn \<or> old \<noteq> 0 \<longrightarrow> new = old) \<and>
           (old \<noteq> 0 \<longrightarrow> disk fs' (i_dev ip) old = disk fs (i_dev ip) old) \<and>
           (l = lbn \<and> old = 0 \<longrightarrow> disk fs' (i_dev ip) bn = cleared_buf)))"
proof -
  obtain bn ip' fs' where B: "Bmap fs ip lbn = Done (bn, ip', fs')" "bmap_done fs ip m bs lbn bn ip' fs'"
    using Bmap_ok [OF assms] by blast
  then obtain P bs' where P: "finite P" "card P \<le> 3" "\<forall>q\<in>P. leaf q \<longrightarrow> q = leaf_path lbn"
    and S: "stage (disk fs (i_dev ip)) (i_addr ip) bs P (disk fs' (i_dev ip)) (i_addr ip') bs'"
    and st: "stack_of fs' (i_dev ip) m bs'"
    and n: "node (disk fs' (i_dev ip)) (i_addr ip') (leaf_path lbn) = bn" "bn \<noteq> 0"
    and z: "node (disk fs (i_dev ip)) (i_addr ip) (leaf_path lbn) = 0 \<longrightarrow> disk fs' (i_dev ip) bn = cleared_buf"
    unfolding bmap_done_def by blast
  have "(let old = node (disk fs (i_dev ip)) (i_addr ip) (leaf_path l);
            new = node (disk fs' (i_dev ip)) (i_addr ip') (leaf_path l)
        in (l = lbn \<longrightarrow> new = bn) \<and> (l \<noteq> lbn \<or> old \<noteq> 0 \<longrightarrow> new = old) \<and>
           (old \<noteq> 0 \<longrightarrow> disk fs' (i_dev ip) old = disk fs (i_dev ip) old) \<and>
           (l = lbn \<and> old = 0 \<longrightarrow> disk fs' (i_dev ip) bn = cleared_buf))"
    if l: "0 \<le> l" "l < HUGE_FILE_BLOCK" for l
  proof -
    note v = leaf_path_valid [OF l]
    have "leaf_path l \<notin> P" if "l \<noteq> lbn"
      using P(3) v(2) leaf_path_inj [OF l assms(3,4)] that by blast
    then show ?thesis using S v n z unfolding stage_def Let_def by blast
  qed
  moreover have "\<exists>n\<le>3. bs' = drop n bs"
  proof -
    obtain n where "n \<le> card P" "bs' = drop n bs" using S by (auto simp: stage_def)
    with P(2) show ?thesis by (intro exI [of _ n]) simp
  qed
  moreover have "tree_ok (disk fs' (i_dev ip)) (i_addr ip') bs'" using S by (simp add: stage_def)
  ultimately show ?thesis using B(1) st n(2) by blast
qed

lemma demo_tree: "tree_ok (disk demo_ifs (i_dev demo_inode)) (i_addr demo_inode) [1034, 1033, 1032, 1031, 1030]"
proof -
  let ?dk = "disk demo_ifs (i_dev demo_inode)" and ?a = "i_addr demo_inode"
  have a: "?a = [1100, 1101, 0, 0, 0, 0, 1102, 0, 0, 0]" by (simp add: demo_inode_def)
  have d: "?dk b = replicate 512 0" for b by (simp add: demo_ifs_def demo_fs_def)
  have e: "entry ?dk b j = 0" if "j < 128" for b j
    using that by (simp add: entry_def d ints_of_zeros)
  have zB: "node ?dk ?a (B i j) = 0" if "j < 128" for i j using e [OF that] by simp
  have zC: "node ?dk ?a (C i j k) = 0" if "k < 128" for i j k using e [OF that] by simp
  have ten: "\<exists>i<10. p = A i" if "valid_path p" "node ?dk ?a p \<noteq> 0" for p
    using that zB zC by (cases p) (auto simp del: node.simps)
  have ai: "?a ! i = (if i = 0 then 1100 else if i = 1 then 1101 else if i = 6 then 1102 else 0)" if "i < 10" for i
  proof -
    from that have "i \<in> {0, 1, 2, 3, 4, 5, 6, 7, 8, 9}" by auto
    then show ?thesis unfolding a by (elim insertE) simp_all
  qed
  have inj: "p = q" if "valid_path p" "valid_path q" "node ?dk ?a p = node ?dk ?a q" "node ?dk ?a p \<noteq> 0" for p q
  proof -
    have "node ?dk ?a q \<noteq> 0" using that(3,4) by simp
    with ten [OF that(1,4)] ten [OF that(2)] obtain i k where "i < 10" "p = A i" "k < 10" "q = A k"
      by blast
    with that(3,4) ai show ?thesis by (auto split: if_splits)
  qed
  have fr: "node ?dk ?a p \<notin> {1034, 1033, 1032, 1031, 1030}" if v: "valid_path p" for p
  proof (cases "node ?dk ?a p = 0")
    case False
    with ten v obtain i where "i < 10" "p = A i" by metis
    with ai show ?thesis by simp
  qed simp
  show ?thesis unfolding tree_ok_def using inj fr d a by (auto simp: cint_def)
qed

theorem Bmap_maps_block_witness:
  "\<exists>bn ip' fs'. Bmap demo_ifs demo_inode 300 = Done (bn, ip', fs') \<and> bn \<noteq> 0 \<and>
     node (disk fs' 0) (i_addr ip') (leaf_path 0) = 1100"
proof -
  have st: "stack_of demo_ifs (i_dev demo_inode) 0 [1034, 1033, 1032, 1031, 1030]"
    using demo_stack by (simp add: demo_ifs_def demo_inode_def)
  have d: "i_dev demo_inode = 0" by (simp add: demo_inode_def)
  obtain bn ip' fs' bs' where "Bmap demo_ifs demo_inode 300 = Done (bn, ip', fs')" "bn \<noteq> 0"
    and all: "\<forall>l. 0 \<le> l \<longrightarrow> l < HUGE_FILE_BLOCK \<longrightarrow>
       (let old = node (disk demo_ifs (i_dev demo_inode)) (i_addr demo_inode) (leaf_path l);
            new = node (disk fs' (i_dev demo_inode)) (i_addr ip') (leaf_path l)
        in (l = 300 \<longrightarrow> new = bn) \<and> (l \<noteq> 300 \<or> old \<noteq> 0 \<longrightarrow> new = old) \<and>
           (old \<noteq> 0 \<longrightarrow> disk fs' (i_dev demo_inode) old = disk demo_ifs (i_dev demo_inode) old) \<and>
           (l = 300 \<and> old = 0 \<longrightarrow> disk fs' (i_dev demo_inode) bn = cleared_buf))"
    using Bmap_maps_block [OF demo_tree st, of 300] by (auto simp: HUGE_FILE_BLOCK_def)
  moreover have "node (disk fs' 0) (i_addr ip') (leaf_path 0) = 1100"
    using all [rule_format, of 0] d
    by (simp add: HUGE_FILE_BLOCK_def Let_def) (simp add: leaf_path_def demo_inode_def)
  ultimately show ?thesis by blast
qed

text \<open>
  C1. \<open>WriteI\<close> refines a write into a byte array: for a regular file or directory, any offset and
  length below the largest file size and enough free blocks, it returns with the whole request done,
  the bytes of the range are those of user memory, every other byte of the file (up to the largest
  size) is what it was, the size is extended and never cut, and the file is well formed again.
\<close>

theorem WriteI_writes_bytes:
  fixes fs :: "'a ifs_scheme"
  assumes "file_ok fs ip m bs" and "regular ip" and "u_error fs = NOERROR"
    and "0 \<le> m_Offset io" and "0 < m_Count io" and "m_Offset io + m_Count io \<le> FILE_MAX"
    and "3 * blocks_in (m_Offset io) (m_Count io) \<le> length bs"
  shows "\<exists>ip' fs' bs'. WriteI cdWrite ip io fs = Done (ip', io_advance io (m_Count io), fs') \<and>
    (\<forall>x. 0 \<le> x \<longrightarrow> x < FILE_MAX \<longrightarrow> bytes_in fs' ip' x =
       (if m_Offset io \<le> x \<and> x < m_Offset io + m_Count io then umem fs (m_Base io + (x - m_Offset io))
        else bytes_in fs ip x)) \<and>
    i_size ip' = max (i_size ip) (m_Offset io + m_Count io) \<and> file_ok fs' ip' m bs' \<and>
    length bs \<le> length bs' + 3 * blocks_in (m_Offset io) (m_Count io) \<and> u_error fs' = NOERROR"
proof -
  let ?ip = "ip\<lparr>i_flag := set_flag (i_flag ip) (IACC OR IUPD)\<rparr>"
  have F: "file_ok fs ?ip m bs" "regular ?ip" using assms(1,2) by (simp_all add: file_ok_def regular_def)
  have b: "bytes_in fs ?ip x = bytes_in fs ip x" for x by (simp add: bytes_in_def)
  obtain ip' fs' where W: "write_loop ?ip io fs = Done (ip', io_advance io (m_Count io), fs')"
    "written fs ?ip m bs io (m_Count io) fs' ip'"
    using write_loop_ok [OF F assms(3,4) _ assms(6,7)] assms(5) by auto
  moreover have "WriteI cdWrite ip io fs = write_loop ?ip io fs"
    using regular_not_special [OF assms(2)] assms(5) by (simp add: WriteI_def Let_def)
  ultimately show ?thesis using assms(3,5) by (fastforce simp: written_def b same_env_def)
qed

lemma demo_file: "file_ok demo_ifs demo_inode 0 [1034, 1033, 1032, 1031, 1030]"
  using demo_tree demo_stack by (simp add: file_ok_def demo_ifs_def demo_inode_def)

lemma demo_regular: "regular demo_inode"
  by (simp add: regular_def demo_inode_def IALLOC_def IFMT_def IFDIR_def)

lemma demo_err: "u_error demo_ifs = NOERROR"
  by (simp add: demo_ifs_def demo_fs_def fsys.defs)

theorem WriteI_writes_bytes_witness:
  "\<exists>ip' fs'. WriteI (\<lambda>_ _. Fault) demo_inode \<lparr>m_Base = 4096, m_Offset = 1000, m_Count = 20\<rparr>
       (demo_ifs\<lparr>umem := \<lambda>a. of_int a\<rparr>) =
     Done (ip', \<lparr>m_Base = 4116, m_Offset = 1020, m_Count = 0\<rparr>, fs') \<and>
     bytes_in fs' ip' 1003 = 3 \<and> i_size ip' = 1020"
proof -
  let ?fs = "demo_ifs\<lparr>umem := \<lambda>a. of_int a\<rparr>" and ?io = "\<lparr>m_Base = 4096, m_Offset = 1000, m_Count = 20\<rparr>"
  have st: "stack_of ?fs = stack_of demo_ifs" by (intro ext) (simp add: stack_of_def)
  have F: "file_ok ?fs demo_inode 0 [1034, 1033, 1032, 1031, 1030]" using demo_file st by (simp add: file_ok_def)
  have e: "u_error ?fs = NOERROR" using demo_err by simp
  have b: "0 \<le> m_Offset ?io" "0 < m_Count ?io" "m_Offset ?io + m_Count ?io \<le> FILE_MAX"
    "3 * blocks_in (m_Offset ?io) (m_Count ?io) \<le> length [1034, 1033, 1032, 1031, 1030 :: int]"
    by (simp_all add: FILE_MAX_def HUGE_FILE_BLOCK_def blocks_in_def)
  from WriteI_writes_bytes [OF F demo_regular e b, of "\<lambda>_ _. Fault"] show ?thesis
    by (fastforce simp: io_advance_def FILE_MAX_def HUGE_FILE_BLOCK_def demo_inode_def)
qed



text \<open>
  A full disk corrupts a file: when \<open>Bmap\<close> gets the last free block for the index table of a
  logical block and none for the block itself, it reports \<open>ENOSPC\<close>, but the inode already names the
  new table, and the table was cleared only in the buffer that is released unwritten: on disk it
  still holds what the block held before, which later calls take for block numbers.
\<close>

theorem Bmap_leaves_stale_table:
  fixes fs :: "'a ifs_scheme"
  assumes "stack_of fs (i_dev ip) m [b]" and "6 \<le> lbn" and "lbn < LARGE_FILE_BLOCK"
    and "i_addr ip ! nat (addr_index lbn) = 0" and "nat (addr_index lbn) < length (i_addr ip)"
    and "Bmap fs ip lbn \<noteq> Fault"
  shows "\<exists>ip' fs'. Bmap fs ip lbn = Done (0, ip', fs') \<and> u_error fs' = ENOSPC \<and>
    i_addr ip' ! nat (addr_index lbn) = b \<and> disk fs' (i_dev ip) b = disk fs (i_dev ip) b"
proof -
  have l2: "lbn < 262" using assms(3) by (simp add: LARGE_FILE_BLOCK_def)
  note li = large_index [OF assms(2) l2]
  obtain f1 where f1: "FS_Alloc fs (i_dev ip) = Done (Some b, f1)" "stack_of f1 (i_dev ip) m []"
    "disk f1 = disk fs" using FS_Alloc_pop [OF assms(1)] by blast
  let ?ip = "ip\<lparr>i_flag := set_flag (i_flag ip) IUPD, i_addr := (i_addr ip)[nat (addr_index lbn) := b]\<rparr>"
  have ft: "first_table fs ip (addr_index lbn) = Done (Some (b, ints_of cleared_buf), ?ip, f1)"
    using assms(4) f1(1) by (simp add: first_table_def Let_def)
  have z: "ints_of cleared_buf ! nat (final_index lbn) = 0"
    using li by (simp add: cleared_buf_def ints_of_zeros nat_less_iff)
  have bm: "Bmap fs ip lbn = kbind (final_entry f1 (i_dev ip) (b, ints_of cleared_buf) (final_index lbn))
      (\<lambda>(phyBlkno, fs). Done (phyBlkno, ?ip, fs))"
    using assms(2) l2 li ft by (simp add: Bmap_def bmap_large_def HUGE_FILE_BLOCK_def)
  have "FS_Alloc f1 (i_dev ip) \<noteq> Fault"
    using assms(6) bm z by (auto simp: final_entry_def Let_def)
  with FS_Alloc_empty [OF f1(2)] obtain f2 where f2: "FS_Alloc f1 (i_dev ip) = Done (None, f2)"
    "u_error f2 = ENOSPC" by blast
  have "disk f2 = disk f1"
    using f2(1) by (auto simp: FS_Alloc_def GetFS_def kbind_Done BadBlock_def Let_def
        split: option.splits if_splits)
  then show ?thesis using bm z f2 f1(3) assms(5) by (simp add: final_entry_def Let_def)
qed

theorem Bmap_leaves_stale_table_witness:
  "\<exists>ip' fs'. Bmap (demo_ifs\<lparr>m_Mount := (m_Mount demo_ifs)[0 := (m_Mount demo_ifs ! 0)\<lparr>m_spb := Some (demo_sb\<lparr>s_nfree := 2\<rparr>)\<rparr>]\<rparr>)
      (demo_inode\<lparr>i_addr := replicate 10 0\<rparr>) 7 = Done (0, ip', fs') \<and>
     u_error fs' = ENOSPC \<and> i_addr ip' ! 6 = 1030"
proof -
  let ?fs = "demo_ifs\<lparr>m_Mount := (m_Mount demo_ifs)[0 := (m_Mount demo_ifs ! 0)\<lparr>m_spb := Some (demo_sb\<lparr>s_nfree := 2\<rparr>)\<rparr>]\<rparr>"
  let ?ip = "demo_inode\<lparr>i_addr := replicate 10 0\<rparr>"
  have "free_chain (disk ?fs 0) (int (Suc 1)) (s_free demo_sb) (rev (take 1 (tl (s_free demo_sb))))"
    by (rule free_chain.last) (simp_all add: demo_sb_def)
  then have st: "stack_of ?fs (i_dev ?ip) 0 [1030]"
    by (simp add: stack_of_def demo_ifs_def demo_fs_def demo_sb_def demo_inode_def fsys.defs cint_def)
  have a: "addr_index 7 = 6" "final_index 7 = 1"
    by (simp_all add: addr_index_def final_index_def LARGE_FILE_BLOCK_def SMALL_FILE_BLOCK_def)
  have "Bmap ?fs ?ip 7 \<noteq> Fault"
    by (simp add: Bmap_def bmap_large_def first_table_def final_entry_def a HUGE_FILE_BLOCK_def
        FS_Alloc_def GetFS_def BadBlock_def set_sb_def demo_ifs_def demo_fs_def demo_sb_def
        demo_inode_def fsys.defs Let_def cleared_buf_def ints_of_zeros)
  from Bmap_leaves_stale_table [OF st _ _ _ _ this] show ?thesis
    by (auto simp: LARGE_FILE_BLOCK_def a)
qed

end
