(* ===== verification/Ring.thy ===== *)
theory Ring
  imports Kprelude
begin

text \<open>
  Circular doubly linked lists with a head, as the kernel links its buffers: \<open>fw\<close> and \<open>bk\<close> are the
  two link fields of all nodes.  \<open>ring fw bk h xs\<close> says that from the head \<open>h\<close> the links go through
  \<open>xs\<close> and back.  The lemmas turn the pointer assignments of \<open>dev/BufferManager.cpp\<close> into list
  operations; a frame lemma keeps the rings that an assignment does not touch.
\<close>

fun path :: "('n \<Rightarrow> 'n) \<Rightarrow> 'n \<Rightarrow> 'n list \<Rightarrow> 'n \<Rightarrow> bool" where
  "path fw a [] b = (fw a = b)"
| "path fw a (x # xs) b = (fw a = x \<and> path fw x xs b)"

definition ring :: "('n \<Rightarrow> 'n) \<Rightarrow> ('n \<Rightarrow> 'n) \<Rightarrow> 'n \<Rightarrow> 'n list \<Rightarrow> bool" where
  "ring fw bk h xs \<longleftrightarrow> distinct (h # xs) \<and> path fw h xs h \<and> path bk h (rev xs) h"

text \<open>\<open>unlink\<close>: \<open>x->back->forw = x->forw; x->forw->back = x->back\<close>.\<close>

definition unlink_fw :: "('n \<Rightarrow> 'n) \<Rightarrow> ('n \<Rightarrow> 'n) \<Rightarrow> 'n \<Rightarrow> 'n \<Rightarrow> 'n" where
  "unlink_fw fw bk x = fw(bk x := fw x)"

definition unlink_bk :: "('n \<Rightarrow> 'n) \<Rightarrow> ('n \<Rightarrow> 'n) \<Rightarrow> 'n \<Rightarrow> 'n \<Rightarrow> 'n" where
  "unlink_bk fw bk x = bk(fw x := bk x)"

text \<open>Insertion behind the head: \<open>x->forw = h->forw; x->back = h; h->forw->back = x; h->forw = x\<close>.\<close>

definition front_fw :: "('n \<Rightarrow> 'n) \<Rightarrow> 'n \<Rightarrow> 'n \<Rightarrow> 'n \<Rightarrow> 'n" where
  "front_fw fw h x = fw(x := fw h, h := x)"

definition front_bk :: "('n \<Rightarrow> 'n) \<Rightarrow> ('n \<Rightarrow> 'n) \<Rightarrow> 'n \<Rightarrow> 'n \<Rightarrow> 'n \<Rightarrow> 'n" where
  "front_bk fw bk h x = bk(x := h, fw h := x)"

text \<open>Insertion at the tail: \<open>h->back->forw = x; x->back = h->back; x->forw = h; h->back = x\<close>.\<close>

definition tail_fw :: "('n \<Rightarrow> 'n) \<Rightarrow> ('n \<Rightarrow> 'n) \<Rightarrow> 'n \<Rightarrow> 'n \<Rightarrow> 'n \<Rightarrow> 'n" where
  "tail_fw fw bk h x = fw(bk h := x, x := h)"

definition tail_bk :: "('n \<Rightarrow> 'n) \<Rightarrow> 'n \<Rightarrow> 'n \<Rightarrow> 'n \<Rightarrow> 'n" where
  "tail_bk bk h x = bk(x := bk h, h := x)"

section \<open>Paths\<close>

lemma path_append: "path fw a (xs @ y # ys) b \<longleftrightarrow> path fw a xs y \<and> path fw y ys b"
  by (induction xs arbitrary: a) auto

lemma path_frame: "u \<notin> set (a # xs) \<Longrightarrow> path (fw(u := v)) a xs b = path fw a xs b"
  by (induction xs arbitrary: a) auto

lemma path_cong: "(\<And>u. u \<in> set (a # xs) \<Longrightarrow> fw' u = fw u) \<Longrightarrow> path fw' a xs b = path fw a xs b"
  by (induction xs arbitrary: a) auto

lemma path_redirect:
  "distinct (a # xs) \<Longrightarrow> path fw a xs b \<Longrightarrow> path (fw(last (a # xs) := c)) a xs c"
proof (induction xs arbitrary: a)
  case (Cons x xs)
  have "path (fw(last (x # xs) := c)) x xs c" by (rule Cons.IH) (use Cons.prems in auto)
  moreover have "a \<noteq> last (x # xs)" using Cons.prems(1) last_in_set [of "x # xs"] by auto
  moreover have "last (a # x # xs) = last (x # xs)" "fw a = x" using Cons.prems by simp_all
  ultimately show ?case by (simp only: path.simps fun_upd_other simp_thms)
qed simp

lemma path_last: "path fw a xs b \<Longrightarrow> fw (last (a # xs)) = b"
  by (induction xs arbitrary: a) auto

lemma ring_first: "ring fw bk h xs \<Longrightarrow> fw h = hd (xs @ [h])"
  by (cases xs) (auto simp: ring_def)

lemma ring_last: "ring fw bk h xs \<Longrightarrow> bk h = last (h # xs)"
  by (cases xs rule: rev_cases) (auto simp: ring_def)

lemma ring_cong:
  "ring fw bk h xs \<Longrightarrow> (\<And>u. u \<in> set (h # xs) \<Longrightarrow> fw' u = fw u \<and> bk' u = bk u) \<Longrightarrow> ring fw' bk' h xs"
  using path_cong [of h xs fw' fw h] path_cong [of h "rev xs" bk' bk h] by (auto simp: ring_def)

lemma ring_links:
  assumes "ring fw bk h (as @ x # bs)"
  shows "bk x = last (h # as)" "fw x = hd (bs @ [h])"
proof -
  from assms have "path fw x bs h" "path bk x (rev as) h"
    by (auto simp: ring_def path_append)
  then show "bk x = last (h # as)" "fw x = hd (bs @ [h])"
    by (cases bs; cases as rule: rev_cases; auto)+
qed

section \<open>The assignments as list operations\<close>

lemma ring_unlink:
  assumes R: "ring fw bk h (as @ x # bs)"
  shows "ring (unlink_fw fw bk x) (unlink_bk fw bk x) h (as @ bs)"
proof -
  note l = ring_links [OF R]
  from R have d: "distinct (h # as @ x # bs)" and f: "path fw h as x" "path fw x bs h"
    and b: "path bk h (rev bs) x" "path bk x (rev as) h"
    by (auto simp: ring_def path_append)
  have F: "path (fw(last (h # as) := hd (bs @ [h]))) h (as @ bs) h"
  proof (cases bs)
    case Nil
    with path_redirect [OF _ f(1), of h] d show ?thesis by simp
  next
    case (Cons y ys)
    have "path (fw(last (h # as) := y)) h as y" using path_redirect [OF _ f(1), of y] d by simp
    moreover have "path (fw(last (h # as) := y)) y ys h"
    proof -
      have "last (h # as) \<in> set (h # as)" by (rule last_in_set) simp
      then have "last (h # as) \<notin> set (y # ys)" using d Cons by auto
      with f(2) Cons show ?thesis by (subst path_frame) auto
    qed
    ultimately show ?thesis using Cons by (simp add: path_append)
  qed
  have B: "path (bk(hd (bs @ [h]) := last (h # as))) h (rev bs @ rev as) h"
  proof -
    have lh: "last (h # rev bs) = hd (bs @ [h])" by (cases bs) auto
    have "path (bk(last (h # rev bs) := last (h # as))) h (rev bs) (last (h # as))"
      using path_redirect [OF _ b(1), of "last (h # as)"] d by auto
    then have p1: "path (bk(hd (bs @ [h]) := last (h # as))) h (rev bs) (last (h # as))"
      using lh by simp
    show ?thesis
    proof (cases as rule: rev_cases)
      case Nil
      with p1 show ?thesis by simp
    next
      case (snoc as' z)
      have "hd (bs @ [h]) \<notin> set (rev as)" using d by (cases bs) auto
      then have "path (bk(hd (bs @ [h]) := last (h # as))) z (rev as') h"
        using b(2) snoc by (subst path_frame) auto
      with p1 snoc show ?thesis by (simp add: path_append)
    qed
  qed
  show ?thesis
    using F B l d by (auto simp: ring_def unlink_fw_def unlink_bk_def)
qed

lemma ring_front:
  assumes R: "ring fw bk h xs" and x: "x \<notin> set (h # xs)"
  shows "ring (front_fw fw h x) (front_bk fw bk h x) h (x # xs)"
proof -
  note f = ring_first [OF R]
  from R have d: "distinct (h # xs)" and p: "path fw h xs h" "path bk h (rev xs) h"
    by (auto simp: ring_def)
  have "path (front_fw fw h x) x xs h"
  proof (cases xs)
    case Nil
    with p x show ?thesis by (auto simp: front_fw_def)
  next
    case (Cons y ys)
    have "path (fw(x := fw h, h := x)) y ys h"
      using p d x Cons by (subst path_frame, simp, subst path_frame) auto
    with Cons p x show ?thesis by (auto simp: front_fw_def)
  qed
  moreover have "path (front_bk fw bk h x) h (rev xs @ [x]) h"
  proof -
    have "path (bk(x := h)) h (rev xs) h" using p x by (subst path_frame) auto
    then have "path (bk(x := h, last (h # rev xs) := x)) h (rev xs) x"
      using d by (intro path_redirect) auto
    moreover have "last (h # rev xs) = fw h" using f by (cases xs) auto
    ultimately have "path (front_bk fw bk h x) h (rev xs) x" by (simp add: front_bk_def)
    moreover have "front_bk fw bk h x x = h"
      using f x by (cases xs) (auto simp: front_bk_def)
    ultimately show ?thesis by (simp add: path_append)
  qed
  ultimately show ?thesis using d x by (auto simp: ring_def front_fw_def)
qed

lemma ring_tail:
  assumes R: "ring fw bk h xs" and x: "x \<notin> set (h # xs)"
  shows "ring (tail_fw fw bk h x) (tail_bk bk h x) h (xs @ [x])"
proof -
  note f = ring_last [OF R]
  from R have d: "distinct (h # xs)" and p: "path fw h xs h" "path bk h (rev xs) h"
    by (auto simp: ring_def)
  have "path (fw(last (h # xs) := x)) h xs x" using path_redirect [OF d p(1)] .
  then have "path (tail_fw fw bk h x) h xs x"
    using x f unfolding tail_fw_def by (subst path_frame) auto
  moreover have "tail_fw fw bk h x x = h" by (simp add: tail_fw_def)
  moreover have "path (tail_bk bk h x) x (rev xs) h"
  proof (cases xs rule: rev_cases)
    case Nil
    with p x show ?thesis by (auto simp: tail_bk_def)
  next
    case (snoc ys y)
    have "path (bk(x := bk h, h := x)) y (rev ys) h"
      using p d x snoc by (subst path_frame, simp, subst path_frame) auto
    with snoc p x show ?thesis by (auto simp: tail_bk_def)
  qed
  ultimately show ?thesis using d x by (auto simp: ring_def path_append tail_bk_def)
qed

text \<open>The links that the assignments change are those of the ring and of the node.\<close>

lemma unlink_frame:
  assumes "ring fw bk h xs" "x \<in> set xs" "u \<notin> set (h # xs)"
  shows "unlink_fw fw bk x u = fw u" "unlink_bk fw bk x u = bk u"
proof -
  from assms(2) obtain as bs where "xs = as @ x # bs" by (auto dest: split_list)
  with ring_links [of fw bk h as x bs] assms
  have "bk x \<in> set (h # xs)" "fw x \<in> set (h # xs)"
    using last_in_set [of "h # as"] by (auto simp: hd_append split: list.splits if_splits)
  with assms(3) show "unlink_fw fw bk x u = fw u" "unlink_bk fw bk x u = bk u"
    by (auto simp: unlink_fw_def unlink_bk_def)
qed

lemma front_frame:
  assumes "ring fw bk h xs" "u \<notin> set (h # x # xs)"
  shows "front_fw fw h x u = fw u" "front_bk fw bk h x u = bk u"
  using assms ring_first [OF assms(1)] by (cases xs; auto simp: front_fw_def front_bk_def)+

lemma tail_frame:
  assumes "ring fw bk h xs" "u \<notin> set (h # x # xs)"
  shows "tail_fw fw bk h x u = fw u" "tail_bk bk h x u = bk u"
  using assms ring_last [OF assms(1)] last_in_set [of "h # xs"]
  by (auto simp: tail_fw_def tail_bk_def)

end
