(* ===== verification/BufCache.thy ===== *)
theory BufCache
  imports Ring
begin

text \<open>
  The buffer cache (\<open>dev/BufferManager.cpp\<close>), the request queue of the disk (\<open>dev/BlockDevice.cpp\<close>)
  and its interrupt handler (\<open>dev/ATADriver.cpp\<close>), pointer by pointer.  A process that sleeps for the
  disk is woken by disk interrupts, so an operation takes the list of the interrupts that arrive
  while it sleeps (\<open>True\<close>: the controller reports an error); it is \<open>Asleep\<close> when they do not suffice.
\<close>

section \<open>Model\<close>

text \<open>The nodes that links can name: the two heads, the 15 buffers, the swap buffer, \<open>NULL\<close>.\<close>

datatype node = FreeL | DevL | Bp nat | SwBuf | Null

text \<open>
  \<open>b_data\<close> is the memory at \<open>b_addr\<close>; \<open>platter dev blkno\<close> is the sector on the disk; \<open>eio\<close> records
  \<open>u_error = EIO\<close>; \<open>woken\<close> is the log of \<open>WakeUpAll\<close> calls.
\<close>

record bcache =
  b_flags :: "node \<Rightarrow> u32"
  b_forw :: "node \<Rightarrow> node"
  b_back :: "node \<Rightarrow> node"
  av_forw :: "node \<Rightarrow> node"
  av_back :: "node \<Rightarrow> node"
  b_dev :: "node \<Rightarrow> int"
  b_wcount :: "node \<Rightarrow> int"
  b_data :: "node \<Rightarrow> u8 list"
  b_blkno :: "node \<Rightarrow> int"
  d_actf :: node
  d_actl :: node
  d_active :: int
  d_errcnt :: int
  platter :: "int \<Rightarrow> int \<Rightarrow> u8 list"
  eio :: bool
  woken :: "node list"

definition B_WRITE :: u32 where "B_WRITE = 0x1"
definition B_READ :: u32 where "B_READ = 0x2"
definition B_DONE :: u32 where "B_DONE = 0x4"
definition B_ERROR :: u32 where "B_ERROR = 0x8"
definition B_BUSY :: u32 where "B_BUSY = 0x10"
definition B_WANTED :: u32 where "B_WANTED = 0x20"
definition B_ASYNC :: u32 where "B_ASYNC = 0x40"
definition B_DELWRI :: u32 where "B_DELWRI = 0x80"

definition NBUF :: nat where "NBUF = 15"
definition BUFFER_SIZE :: int where "BUFFER_SIZE = 512"
definition NSECTOR :: int where "NSECTOR = 0x7FFFFFFF"
definition NBLKDEV :: int where "NBLKDEV = 1"
definition NODEV :: int where "NODEV = -1"

abbreviation flagged :: "bcache \<Rightarrow> node \<Rightarrow> u32 \<Rightarrow> bool" where
  "flagged c bp m \<equiv> has_flag (b_flags c bp) m"

definition or_flags :: "bcache \<Rightarrow> node \<Rightarrow> u32 \<Rightarrow> bcache" where
  "or_flags c bp m = c\<lparr>b_flags := (b_flags c)(bp := set_flag (b_flags c bp) m)\<rparr>"

definition off_flags :: "bcache \<Rightarrow> node \<Rightarrow> u32 \<Rightarrow> bcache" where
  "off_flags c bp m = c\<lparr>b_flags := (b_flags c)(bp := clear_flag (b_flags c bp) m)\<rparr>"

definition WakeUp :: "bcache \<Rightarrow> node \<Rightarrow> bcache" where
  "WakeUp c chan = c\<lparr>woken := woken c @ [chan]\<rparr>"

definition NotAvail :: "bcache \<Rightarrow> node \<Rightarrow> bcache" where
  "NotAvail c bp =
     or_flags (c\<lparr>av_forw := unlink_fw (av_forw c) (av_back c) bp,
                 av_back := unlink_bk (av_forw c) (av_back c) bp\<rparr>) bp B_BUSY"

text \<open>The result of \<open>SetMinor\<close> is dropped in the error branch, so \<open>b_dev\<close> stays.\<close>

definition Brelse :: "bcache \<Rightarrow> node \<Rightarrow> bcache" where
  "Brelse c bp =
     (let c = (if flagged c bp B_WANTED then WakeUp c bp else c);
          c = (if flagged c FreeL B_WANTED then WakeUp (off_flags c FreeL B_WANTED) FreeL else c);
          c = off_flags c bp (B_WANTED OR B_BUSY OR B_ASYNC)
      in c\<lparr>av_forw := tail_fw (av_forw c) (av_back c) FreeL bp, av_back := tail_bk (av_back c) FreeL bp\<rparr>)"

definition IODone :: "bcache \<Rightarrow> node \<Rightarrow> bcache" where
  "IODone c bp =
     (let c = or_flags c bp B_DONE
      in if flagged c bp B_ASYNC then Brelse c bp
         else WakeUp (off_flags c bp B_WANTED) bp)"

definition GetError :: "bcache \<Rightarrow> node \<Rightarrow> bcache" where
  "GetError c bp = (if flagged c bp B_ERROR then c\<lparr>eio := True\<rparr> else c)"

subsection \<open>The request queue\<close>

definition DevStart_next :: "bcache \<Rightarrow> bcache" where
  "DevStart_next c = (if d_actf c = Null then c else c\<lparr>d_active := d_active c + 1\<rparr>)"

definition Strategy :: "bcache \<Rightarrow> node \<Rightarrow> bcache" where
  "Strategy c bp =
     (if b_blkno c bp \<ge> NSECTOR then IODone (or_flags c bp B_ERROR) bp
      else
        let c = c\<lparr>av_forw := (av_forw c)(bp := Null)\<rparr>;
            c = (if d_actf c = Null then c\<lparr>d_actf := bp\<rparr>
                 else c\<lparr>av_forw := (av_forw c)(d_actl c := bp)\<rparr>);
            c = c\<lparr>d_actl := bp\<rparr>
        in if d_active c = 0 then DevStart_next c else c)"

text \<open>The transfer that the controller has carried out when it interrupts without an error.\<close>

definition transfer :: "bcache \<Rightarrow> node \<Rightarrow> bcache" where
  "transfer c bp =
     (let dev = b_dev c bp; blk = b_blkno c bp
      in if flagged c bp B_READ then c\<lparr>b_data := (b_data c)(bp := platter c dev blk)\<rparr>
         else c\<lparr>platter := (platter c)(dev := (platter c dev)(blk := b_data c bp))\<rparr>)"

definition finish_request :: "bcache \<Rightarrow> node \<Rightarrow> bcache" where
  "finish_request c bp =
     DevStart_next (IODone (c\<lparr>d_errcnt := 0, d_actf := av_forw c bp\<rparr>) bp)"

definition ATAHandler :: "bool \<Rightarrow> bcache \<Rightarrow> bcache" where
  "ATAHandler err c =
     (if d_active c = 0 then c
      else
        let bp = d_actf c; c = c\<lparr>d_active := 0\<rparr>
        in if err
           then let c = c\<lparr>d_errcnt := d_errcnt c + 1\<rparr>
                in if d_errcnt c \<le> 10 then DevStart_next c
                   else finish_request (or_flags c bp B_ERROR) bp
           else finish_request (transfer c bp) bp)"

fun IOWait :: "bool list \<Rightarrow> bcache \<Rightarrow> node \<Rightarrow> (bool list \<times> bcache) kcall" where
  "IOWait [] c bp = (if flagged c bp B_DONE then Done ([], GetError c bp) else Asleep)"
| "IOWait (e # irqs) c bp =
     (if flagged c bp B_DONE then Done (e # irqs, GetError c bp) else IOWait irqs (ATAHandler e c) bp)"

subsection \<open>Writing\<close>

definition Bwrite :: "bool list \<Rightarrow> bcache \<Rightarrow> node \<Rightarrow> (bool list \<times> bcache) kcall" where
  "Bwrite irqs c bp =
     (let flags = b_flags c bp;
          c = off_flags c bp (B_READ OR B_DONE OR B_ERROR OR B_DELWRI);
          c = c\<lparr>b_wcount := (b_wcount c)(bp := BUFFER_SIZE)\<rparr>;
          c = Strategy c bp
      in if \<not> has_flag flags B_ASYNC
         then kbind (IOWait irqs c bp) (\<lambda>(irqs, c). Done (irqs, Brelse c bp))
         else if \<not> has_flag flags B_DELWRI then Done (irqs, GetError c bp)
         else Done (irqs, c))"

definition Bdwrite :: "bcache \<Rightarrow> node \<Rightarrow> bcache" where
  "Bdwrite c bp = Brelse (or_flags c bp (B_DELWRI OR B_DONE)) bp"

definition Bawrite :: "bool list \<Rightarrow> bcache \<Rightarrow> node \<Rightarrow> (bool list \<times> bcache) kcall" where
  "Bawrite irqs c bp = Bwrite irqs (or_flags c bp B_ASYNC) bp"

definition ClrBuf :: "bcache \<Rightarrow> node \<Rightarrow> bcache" where
  "ClrBuf c bp = c\<lparr>b_data := (b_data c)(bp := replicate 512 0)\<rparr>"

subsection \<open>Getting a buffer\<close>

text \<open>The walk along the device ring; a ring has at most \<open>NBUF\<close> buffers.\<close>

fun walk :: "nat \<Rightarrow> bcache \<Rightarrow> node \<Rightarrow> int \<Rightarrow> int \<Rightarrow> node option" where
  "walk 0 c bp dev blkno = None"
| "walk (Suc n) c bp dev blkno =
     (if bp = DevL then None
      else if b_blkno c bp = blkno \<and> b_dev c bp = dev then Some bp
      else walk n c (b_forw c bp) dev blkno)"

definition InCore :: "bcache \<Rightarrow> int \<Rightarrow> int \<Rightarrow> node option" where
  "InCore c dev blkno = walk (NBUF + 1) c (b_forw c DevL) dev blkno"

definition reassign :: "bcache \<Rightarrow> node \<Rightarrow> int \<Rightarrow> int \<Rightarrow> bcache" where
  "reassign c bp dev blkno =
     (let dp = (if dev < 0 then FreeL else DevL);
          c = c\<lparr>b_flags := (b_flags c)(bp := B_BUSY)\<rparr>;
          c = c\<lparr>b_forw := unlink_fw (b_forw c) (b_back c) bp, b_back := unlink_bk (b_forw c) (b_back c) bp\<rparr>;
          c = c\<lparr>b_forw := front_fw (b_forw c) dp bp, b_back := front_bk (b_forw c) (b_back c) dp bp\<rparr>
      in c\<lparr>b_dev := (b_dev c)(bp := dev), b_blkno := (b_blkno c)(bp := blkno)\<rparr>)"

text \<open>
  The body of \<open>GetBlk\<close> from its label \<open>loop\<close>; the first argument bounds the jumps back to it.  Every
  jump takes an interrupt or writes one delayed buffer, so that \<open>length irqs + NBUF + 1\<close> is enough.
\<close>

fun GetBlk_loop :: "nat \<Rightarrow> bool list \<Rightarrow> bcache \<Rightarrow> int \<Rightarrow> int \<Rightarrow> (node \<times> bool list \<times> bcache) kcall" where
  "GetBlk_loop 0 irqs c dev blkno = Fault"
| "GetBlk_loop (Suc n) irqs c dev blkno =
     (case (if dev < 0 then None else InCore c dev blkno) of
        Some bp \<Rightarrow>
          if flagged c bp B_BUSY
          then (case irqs of
                  [] \<Rightarrow> Asleep
                | e # es \<Rightarrow> GetBlk_loop n es (ATAHandler e (or_flags c bp B_WANTED)) dev blkno)
          else Done (bp, irqs, NotAvail c bp)
      | None \<Rightarrow>
          if av_forw c FreeL = FreeL
          then (case irqs of
                  [] \<Rightarrow> Asleep
                | e # es \<Rightarrow> GetBlk_loop n es (ATAHandler e (or_flags c FreeL B_WANTED)) dev blkno)
          else
            let bp = av_forw c FreeL; c = NotAvail c bp
            in if flagged c bp B_DELWRI
               then kbind (Bwrite irqs (or_flags c bp B_ASYNC) bp)
                      (\<lambda>(irqs, c). GetBlk_loop n irqs c dev blkno)
               else Done (bp, irqs, reassign c bp dev blkno))"

definition GetBlk :: "bool list \<Rightarrow> bcache \<Rightarrow> int \<Rightarrow> int \<Rightarrow> (node \<times> bool list \<times> bcache) kcall" where
  "GetBlk irqs c dev blkno =
     (if dev div 256 \<ge> NBLKDEV then Panic
      else GetBlk_loop (length irqs + NBUF + 1) irqs c dev blkno)"

subsection \<open>Reading\<close>

definition start_read :: "bcache \<Rightarrow> node \<Rightarrow> u32 \<Rightarrow> bcache" where
  "start_read c bp flags =
     (let c = or_flags c bp flags
      in Strategy (c\<lparr>b_wcount := (b_wcount c)(bp := BUFFER_SIZE)\<rparr>) bp)"

definition Bread :: "bool list \<Rightarrow> bcache \<Rightarrow> int \<Rightarrow> int \<Rightarrow> (node \<times> bool list \<times> bcache) kcall" where
  "Bread irqs c dev blkno = kbind (GetBlk irqs c dev blkno) (\<lambda>(bp, irqs, c).
     if flagged c bp B_DONE then Done (bp, irqs, c)
     else if dev < 0 then Panic
     else kbind (IOWait irqs (start_read c bp B_READ) bp) (\<lambda>(irqs, c). Done (bp, irqs, c)))"

definition Breada :: "bool list \<Rightarrow> bcache \<Rightarrow> int \<Rightarrow> int \<Rightarrow> int \<Rightarrow> (node \<times> bool list \<times> bcache) kcall" where
  "Breada irqs c adev blkno rablkno =
     kbind (if InCore c adev blkno = None
            then kbind (GetBlk irqs c adev blkno) (\<lambda>(bp, irqs, c).
                   Done (Some bp, rablkno, irqs,
                         if flagged c bp B_DONE then c else start_read c bp B_READ))
            else Done (None, 0, irqs, c))
       (\<lambda>(bp, rablkno, irqs, c).
          kbind (if rablkno \<noteq> 0 \<and> InCore c adev rablkno = None
                 then kbind (GetBlk irqs c adev rablkno) (\<lambda>(abp, irqs, c).
                        Done (irqs, if flagged c abp B_DONE then Brelse c abp
                                    else start_read c abp (B_READ OR B_ASYNC)))
                 else Done (irqs, c))
            (\<lambda>(irqs, c).
               case bp of
                 None \<Rightarrow> Bread irqs c adev blkno
               | Some bp \<Rightarrow> kbind (IOWait irqs c bp) (\<lambda>(irqs, c). Done (bp, irqs, c))))"

text \<open>\<open>Bflush\<close>: the first delayed buffer of the free ring, until there is none.\<close>

fun find_delwri :: "nat \<Rightarrow> bcache \<Rightarrow> node \<Rightarrow> int \<Rightarrow> node option" where
  "find_delwri 0 c bp dev = None"
| "find_delwri (Suc n) c bp dev =
     (if bp = FreeL then None
      else if flagged c bp B_DELWRI \<and> (dev = NODEV \<or> dev = b_dev c bp) then Some bp
      else find_delwri n c (av_forw c bp) dev)"

fun Bflush_loop :: "nat \<Rightarrow> bool list \<Rightarrow> bcache \<Rightarrow> int \<Rightarrow> (bool list \<times> bcache) kcall" where
  "Bflush_loop 0 irqs c dev = Fault"
| "Bflush_loop (Suc n) irqs c dev =
     (case find_delwri (NBUF + 1) c (av_forw c FreeL) dev of
        None \<Rightarrow> Done (irqs, c)
      | Some bp \<Rightarrow>
          kbind (Bwrite irqs (NotAvail (or_flags c bp B_ASYNC) bp) bp)
            (\<lambda>(irqs, c). Bflush_loop n irqs c dev))"

definition Bflush :: "bool list \<Rightarrow> bcache \<Rightarrow> int \<Rightarrow> (bool list \<times> bcache) kcall" where
  "Bflush irqs c dev = Bflush_loop (NBUF + 1) irqs c dev"

subsection \<open>Initialisation\<close>

definition init_heads :: "bcache \<Rightarrow> bcache" where
  "init_heads c = c\<lparr>b_forw := (b_forw c)(FreeL := FreeL, DevL := DevL),
     b_back := (b_back c)(FreeL := FreeL, DevL := DevL),
     av_forw := (av_forw c)(FreeL := FreeL), av_back := (av_back c)(FreeL := FreeL)\<rparr>"

definition init_buf :: "nat \<Rightarrow> bcache \<Rightarrow> bcache" where
  "init_buf i c =
     (let bp = Bp i;
          c = c\<lparr>b_dev := (b_dev c)(bp := -1)\<rparr>;
          c = c\<lparr>b_forw := front_fw (b_forw c) FreeL bp, b_back := front_bk (b_forw c) (b_back c) FreeL bp\<rparr>;
          c = c\<lparr>b_flags := (b_flags c)(bp := B_BUSY)\<rparr>
      in Brelse c bp)"

definition BM_Initialize :: "bcache \<Rightarrow> bcache" where
  "BM_Initialize c = fold init_buf [0..<NBUF] (init_heads c)"

section \<open>The invariant\<close>

definition buffers :: "node set" where
  "buffers = Bp ` {..<NBUF}"

text \<open>The request queue \<open>q\<close>: a chain through \<open>av_forw\<close> that ends in \<open>NULL\<close>.\<close>

fun request_queue :: "bcache \<Rightarrow> node list \<Rightarrow> bool" where
  "request_queue c [] = (d_actf c = Null \<and> d_active c = 0)"
| "request_queue c (x # xs) =
     (d_actf c = x \<and> d_actl c = last (x # xs) \<and> d_active c = 1 \<and> path (av_forw c) x xs Null)"

text \<open>
  The rings: every buffer is in the device ring \<open>dl\<close> or the \<open>NODEV\<close> ring \<open>nl\<close>; the free ring \<open>fl\<close>
  and the request queue \<open>q\<close> share the links \<open>av_forw\<close> and no buffer.
\<close>

definition rings_ok :: "bcache \<Rightarrow> node list \<Rightarrow> node list \<Rightarrow> node list \<Rightarrow> node list \<Rightarrow> bool" where
  "rings_ok c dl nl fl q \<longleftrightarrow>
     ring (b_forw c) (b_back c) DevL dl \<and> ring (b_forw c) (b_back c) FreeL nl \<and>
     set dl \<union> set nl = buffers \<and> set dl \<inter> set nl = {} \<and>
     ring (av_forw c) (av_back c) FreeL fl \<and> set fl \<subseteq> buffers \<and>
     request_queue c q \<and> distinct q \<and> set q \<subseteq> set dl \<and> set q \<inter> set fl = {}"

definition key :: "bcache \<Rightarrow> node \<Rightarrow> int \<times> int" where
  "key c b = (b_dev c b, b_blkno c b)"

definition sector :: "bcache \<Rightarrow> int \<times> int \<Rightarrow> u8 list" where
  "sector c k = platter c (fst k) (snd k)"

text \<open>
  The flags: busy means not on the free ring; requests are neither done nor delayed; a delayed buffer
  is done; a free buffer that is done and not delayed agrees with the disk.
\<close>

definition flags_ok :: "bcache \<Rightarrow> node list \<Rightarrow> node list \<Rightarrow> node list \<Rightarrow> node list \<Rightarrow> bool" where
  "flags_ok c dl nl fl q \<longleftrightarrow>
     (\<forall>b\<in>buffers. flagged c b B_BUSY \<longleftrightarrow> b \<notin> set fl) \<and>
     (\<forall>b\<in>buffers. \<not> flagged c b B_ERROR) \<and>
     (\<forall>b\<in>buffers. flagged c b B_DELWRI \<longrightarrow> flagged c b B_DONE \<and> b \<in> set dl) \<and>
     (\<forall>b\<in>set fl. \<not> flagged c b B_ASYNC) \<and>
     (\<forall>b\<in>set q. \<not> flagged c b B_DONE) \<and>
     (\<forall>b\<in>set dl. 0 \<le> b_dev c b \<and> b_dev c b < 256 \<and> b_blkno c b < NSECTOR) \<and>
     (\<forall>b\<in>set nl. b_dev c b < 0) \<and>
     inj_on (key c) (set dl) \<and>
     (\<forall>b\<in>set dl \<inter> set fl. flagged c b B_DONE \<longrightarrow> \<not> flagged c b B_DELWRI \<longrightarrow> b_data c b = sector c (key c b))"

definition cache_ok :: "bcache \<Rightarrow> node list \<Rightarrow> node list \<Rightarrow> node list \<Rightarrow> node list \<Rightarrow> bool" where
  "cache_ok c dl nl fl q \<longleftrightarrow> rings_ok c dl nl fl q \<and> flags_ok c dl nl fl q"

text \<open>
  What a block holds as far as the system is concerned: the data of its buffer when that is done or
  on its way to the disk, the sector otherwise.
\<close>

definition valid_buf :: "bcache \<Rightarrow> node list \<Rightarrow> node \<Rightarrow> bool" where
  "valid_buf c q b \<longleftrightarrow> flagged c b B_DONE \<or> b \<in> set q \<and> \<not> flagged c b B_READ"

definition content :: "bcache \<Rightarrow> node list \<Rightarrow> node list \<Rightarrow> int \<times> int \<Rightarrow> u8 list" where
  "content c dl q k =
     (case find (\<lambda>b. key c b = k \<and> valid_buf c q b) dl of Some b \<Rightarrow> b_data c b | None \<Rightarrow> sector c k)"

lemma content_of:
  assumes "inj_on (key c) (set dl)" "b \<in> set dl" "key c b = k"
  shows "content c dl q k = (if valid_buf c q b then b_data c b else sector c k)"
proof -
  have u: "x = b" if "x \<in> set dl" "key c x = k" for x
    using assms that by (auto dest: inj_onD)
  show ?thesis
  proof (cases "find (\<lambda>b. key c b = k \<and> valid_buf c q b) dl")
    case None
    then have "\<not> valid_buf c q b" using assms by (auto simp: find_None_iff)
    with None show ?thesis using assms(3) by (simp add: content_def)
  next
    case (Some x)
    then have "x \<in> set dl" "key c x = k" "valid_buf c q x" by (auto simp: find_Some_iff)
    with u Some show ?thesis by (auto simp: content_def)
  qed
qed

lemma content_none: "k \<notin> key c ` set dl \<Longrightarrow> content c dl q k = sector c k"
  by (auto simp: content_def find_None_iff split: option.split dest: find_Some_iff [THEN iffD1] intro!: image_eqI)

text \<open>Two caches with the same valid data have the same content.\<close>

lemma content_cong:
  assumes i: "inj_on (key c) (set dl)" "inj_on (key c') (set dl)"
    and k: "\<And>b. b \<in> set dl \<Longrightarrow> key c' b = key c b"
    and s: "\<And>k. k \<notin> key c ` set dl \<Longrightarrow> sector c' k = sector c k"
    and v: "\<And>b. b \<in> set dl \<Longrightarrow>
      (if valid_buf c' q' b then b_data c' b else sector c' (key c b)) =
      (if valid_buf c q b then b_data c b else sector c (key c b))"
  shows "content c' dl q' = content c dl q"
proof
  fix x
  show "content c' dl q' x = content c dl q x"
  proof (cases "x \<in> key c ` set dl")
    case True
    then obtain b where b: "b \<in> set dl" "key c b = x" by auto
    have "content c dl q x = (if valid_buf c q b then b_data c b else sector c x)"
      by (rule content_of [OF i(1) b])
    moreover have "content c' dl q' x = (if valid_buf c' q' b then b_data c' b else sector c' x)"
      using k b by (intro content_of [OF i(2)]) auto
    ultimately show ?thesis using v [OF b(1), unfolded b(2)] by simp
  next
    case False
    moreover have "key c' ` set dl = key c ` set dl" using k by auto
    ultimately show ?thesis using s by (simp add: content_none)
  qed
qed

section \<open>Flags\<close>

lemma flag_or: "flagged (or_flags c b m) x k = (if x = b then has_flag (set_flag (b_flags c b) m) k else flagged c x k)"
  by (simp add: or_flags_def)

lemma flag_off: "flagged (off_flags c b m) x k = (if x = b then has_flag (clear_flag (b_flags c b) m) k else flagged c x k)"
  by (simp add: off_flags_def)

lemmas B_defs = B_WRITE_def B_READ_def B_DONE_def B_ERROR_def B_BUSY_def B_WANTED_def B_ASYNC_def B_DELWRI_def

lemma has_set: "has_flag (set_flag f m) k \<longleftrightarrow> has_flag f k \<or> m AND k \<noteq> 0"
  by (simp add: has_flag_def set_flag_def bit.conj_disj_distrib2 or_eq_0_iff)

lemma has_clear_sub:
  assumes "m AND k = k"
  shows "\<not> has_flag (clear_flag f m) k"
proof -
  have "NOT m AND k = 0" using assms
    by (metis and.assoc and.commute bit.conj_cancel_right and_zero_eq zero_and_eq)
  then show ?thesis by (simp add: has_flag_def clear_flag_def and.assoc)
qed

lemma buf_fields [simp]:
  "b_forw (or_flags c b m) = b_forw c" "b_back (or_flags c b m) = b_back c"
  "av_forw (or_flags c b m) = av_forw c" "av_back (or_flags c b m) = av_back c"
  "b_dev (or_flags c b m) = b_dev c" "b_blkno (or_flags c b m) = b_blkno c"
  "b_data (or_flags c b m) = b_data c" "platter (or_flags c b m) = platter c"
  "d_actf (or_flags c b m) = d_actf c" "d_actl (or_flags c b m) = d_actl c"
  "d_active (or_flags c b m) = d_active c" "eio (or_flags c b m) = eio c"
  "b_forw (off_flags c b m) = b_forw c" "b_back (off_flags c b m) = b_back c"
  "av_forw (off_flags c b m) = av_forw c" "av_back (off_flags c b m) = av_back c"
  "b_dev (off_flags c b m) = b_dev c" "b_blkno (off_flags c b m) = b_blkno c"
  "b_data (off_flags c b m) = b_data c" "platter (off_flags c b m) = platter c"
  "d_actf (off_flags c b m) = d_actf c" "d_actl (off_flags c b m) = d_actl c"
  "d_active (off_flags c b m) = d_active c" "eio (off_flags c b m) = eio c"
  by (simp_all add: or_flags_def off_flags_def)

lemma wake_fields [simp]:
  "b_flags (WakeUp c b) = b_flags c" "b_forw (WakeUp c b) = b_forw c" "b_back (WakeUp c b) = b_back c"
  "av_forw (WakeUp c b) = av_forw c" "av_back (WakeUp c b) = av_back c"
  "b_dev (WakeUp c b) = b_dev c" "b_blkno (WakeUp c b) = b_blkno c"
  "b_data (WakeUp c b) = b_data c" "platter (WakeUp c b) = platter c"
  "d_actf (WakeUp c b) = d_actf c" "d_actl (WakeUp c b) = d_actl c"
  "d_active (WakeUp c b) = d_active c" "eio (WakeUp c b) = eio c"
  by (simp_all add: WakeUp_def)

section \<open>The rings under the operations\<close>

lemma buffer_node: "b \<in> buffers \<Longrightarrow> b \<noteq> FreeL \<and> b \<noteq> DevL \<and> b \<noteq> Null \<and> b \<noteq> SwBuf"
  by (auto simp: buffers_def)

lemma request_queue_cong:
  assumes "request_queue c q" "d_actf c' = d_actf c" "d_actl c' = d_actl c" "d_active c' = d_active c"
    "\<And>u. u \<in> set q \<Longrightarrow> av_forw c' u = av_forw c u"
  shows "request_queue c' q"
proof (cases q)
  case Nil
  with assms show ?thesis by simp
next
  case (Cons x xs)
  with assms path_cong [of x xs "av_forw c'" "av_forw c" Null] show ?thesis by simp
qed

lemma rings_NotAvail:
  assumes R: "rings_ok c dl nl (as @ b # bs) q"
  shows "rings_ok (NotAvail c b) dl nl (as @ bs) q"
proof -
  have r: "ring (av_forw c) (av_back c) FreeL (as @ b # bs)" using R by (simp add: rings_ok_def)
  have "request_queue (NotAvail c b) q"
  proof (rule request_queue_cong)
    show "request_queue c q" using R by (simp add: rings_ok_def)
    fix u
    assume u: "u \<in> set q"
    then have "u \<in> buffers" "u \<notin> set (as @ b # bs)" using R unfolding rings_ok_def by auto
    then have "u \<notin> set (FreeL # as @ b # bs)" using buffer_node [of u] by auto
    then show "av_forw (NotAvail c b) u = av_forw c u"
      using unlink_frame(1) [OF r] by (simp add: NotAvail_def)
  qed (simp_all add: NotAvail_def)
  moreover have "ring (av_forw (NotAvail c b)) (av_back (NotAvail c b)) FreeL (as @ bs)"
    using ring_unlink [OF r] by (simp add: NotAvail_def)
  ultimately show ?thesis using R by (auto simp: rings_ok_def NotAvail_def)
qed

lemma Brelse_fields:
  "b_forw (Brelse c b) = b_forw c" "b_back (Brelse c b) = b_back c"
  "b_dev (Brelse c b) = b_dev c" "b_blkno (Brelse c b) = b_blkno c"
  "b_data (Brelse c b) = b_data c" "platter (Brelse c b) = platter c"
  "d_actf (Brelse c b) = d_actf c" "d_actl (Brelse c b) = d_actl c"
  "d_active (Brelse c b) = d_active c" "eio (Brelse c b) = eio c"
  "av_forw (Brelse c b) = tail_fw (av_forw c) (av_back c) FreeL b"
  "av_back (Brelse c b) = tail_bk (av_back c) FreeL b"
  by (simp_all add: Brelse_def Let_def)

lemma Brelse_flags:
  assumes "b \<noteq> FreeL"
  shows "x \<noteq> FreeL \<Longrightarrow> flagged (Brelse c b) x k =
    (if x = b then has_flag (clear_flag (b_flags c b) (B_WANTED OR B_BUSY OR B_ASYNC)) k else flagged c x k)"
  using assms by (auto simp: Brelse_def Let_def off_flags_def)

lemma rings_Brelse:
  assumes R: "rings_ok c dl nl fl q" and b: "b \<in> buffers" "b \<notin> set fl" "b \<notin> set q"
  shows "rings_ok (Brelse c b) dl nl (fl @ [b]) q"
proof -
  have r: "ring (av_forw c) (av_back c) FreeL fl" using R by (simp add: rings_ok_def)
  have nb: "b \<notin> set (FreeL # fl)" using b buffer_node by auto
  have "request_queue (Brelse c b) q"
  proof (rule request_queue_cong)
    show "request_queue c q" using R by (simp add: rings_ok_def)
    fix u
    assume u: "u \<in> set q"
    then have "u \<in> buffers" "u \<notin> set fl" using R unfolding rings_ok_def by auto
    then have "u \<notin> set (FreeL # b # fl)" using u b(3) buffer_node [of u] by auto
    then show "av_forw (Brelse c b) u = av_forw c u"
      using tail_frame(1) [OF r] by (simp add: Brelse_fields)
  qed (simp_all add: Brelse_fields)
  moreover have "ring (av_forw (Brelse c b)) (av_back (Brelse c b)) FreeL (fl @ [b])"
    using ring_tail [OF r nb] by (simp add: Brelse_fields)
  ultimately show ?thesis using R b by (auto simp: rings_ok_def Brelse_fields)
qed

lemma Strategy_in_range:
  assumes "b_blkno c b < NSECTOR"
  shows "b_flags (Strategy c b) = b_flags c" "b_forw (Strategy c b) = b_forw c"
    "b_back (Strategy c b) = b_back c" "av_back (Strategy c b) = av_back c"
    "b_dev (Strategy c b) = b_dev c" "b_blkno (Strategy c b) = b_blkno c"
    "b_data (Strategy c b) = b_data c" "platter (Strategy c b) = platter c" "eio (Strategy c b) = eio c"
    "av_forw (Strategy c b) = (if d_actf c = Null then (av_forw c)(b := Null) else (av_forw c)(b := Null, d_actl c := b))"
  using assms by (simp_all add: Strategy_def DevStart_next_def Let_def)

lemma path_snoc_queue:
  assumes "path fw x xs e" "b \<notin> set (x # xs)" "distinct (x # xs)"
  shows "path (fw(b := e', last (x # xs) := b)) x (xs @ [b]) e'"
proof -
  have "path (fw(b := e')) x xs e" using assms path_frame [of b x xs fw e' e] by simp
  then have "path (fw(b := e', last (x # xs) := b)) x xs b" using assms(3) by (intro path_redirect) simp
  moreover have "last (x # xs) \<noteq> b" using assms(2) last_in_set [of "x # xs"] by (metis list.distinct(1))
  ultimately show ?thesis by (simp add: path_append)
qed

lemma rings_Strategy:
  assumes R: "rings_ok c dl nl fl q" and b: "b \<in> set dl" "b \<notin> set fl" "b \<notin> set q"
    and s: "b_blkno c b < NSECTOR"
  shows "rings_ok (Strategy c b) dl nl fl (q @ [b])"
proof -
  note f = Strategy_in_range [OF s]
  have bb: "b \<in> buffers" using R b by (auto simp: rings_ok_def)
  have q: "request_queue c q" "distinct q" "set q \<subseteq> set dl" "set q \<inter> set fl = {}" "set q \<subseteq> buffers"
    using R by (auto simp: rings_ok_def)
  have Q: "request_queue (Strategy c b) (q @ [b])"
  proof (cases q)
    case Nil
    then show ?thesis using q s by (simp add: Strategy_def DevStart_next_def Let_def) (use bb buffer_node in auto)
  next
    case (Cons x xs)
    then have a: "d_actf c = x" "d_actl c = last (x # xs)" "d_active c = 1" "path (av_forw c) x xs Null"
      using q(1) by simp_all
    have "x \<noteq> Null" using q(5) Cons buffer_node [of x] by auto
    moreover have "path ((av_forw c)(b := Null, last (x # xs) := b)) x (xs @ [b]) Null"
      using path_snoc_queue [OF a(4)] b(3) q(2) Cons by simp
    ultimately show ?thesis using a s Cons by (simp add: Strategy_def DevStart_next_def Let_def)
  qed
  have "ring (av_forw (Strategy c b)) (av_back (Strategy c b)) FreeL fl"
  proof (rule ring_cong)
    show "ring (av_forw c) (av_back c) FreeL fl" using R by (simp add: rings_ok_def)
    fix u
    assume u: "u \<in> set (FreeL # fl)"
    have "u \<noteq> b" using u b(2) bb buffer_node by auto
    moreover have "d_actf c \<noteq> Null \<Longrightarrow> u \<noteq> d_actl c"
    proof -
      assume "d_actf c \<noteq> Null"
      with q(1) obtain x xs where "q = x # xs" by (cases q) auto
      with q(1) have "d_actl c \<in> set q" using last_in_set [of q] by simp
      with q(4,5) u buffer_node show "u \<noteq> d_actl c" by auto
    qed
    ultimately show "av_forw (Strategy c b) u = av_forw c u \<and> av_back (Strategy c b) u = av_back c u"
      by (simp add: f)
  qed
  with Q R b show ?thesis by (auto simp: rings_ok_def f)
qed

end
