(* ===== verification/BufInv.thy ===== *)
theory BufInv
  imports BufCache
begin

text \<open>
  The invariant of the buffer cache and the contents of its blocks under the operations of
  \<open>dev/BufferManager.cpp\<close> that move one buffer: taking it from the free ring, releasing it, queueing
  it for the disk, a disk interrupt, giving it to another block.
\<close>

section \<open>Flags and contents under the operations\<close>

lemma flags_okD:
  assumes "flags_ok c dl nl fl q"
  shows "\<forall>b\<in>buffers. flagged c b B_BUSY \<longleftrightarrow> b \<notin> set fl" "\<forall>b\<in>buffers. \<not> flagged c b B_ERROR"
    "\<forall>b\<in>buffers. flagged c b B_DELWRI \<longrightarrow> flagged c b B_DONE \<and> b \<in> set dl"
    "\<forall>b\<in>set fl. \<not> flagged c b B_ASYNC" "\<forall>b\<in>set q. \<not> flagged c b B_DONE"
    "\<forall>b\<in>set dl. 0 \<le> b_dev c b \<and> b_dev c b < 256 \<and> b_blkno c b < NSECTOR"
    "\<forall>b\<in>set nl. b_dev c b < 0" "inj_on (key c) (set dl)"
    "\<forall>b\<in>set dl \<inter> set fl. flagged c b B_DONE \<longrightarrow> \<not> flagged c b B_DELWRI \<longrightarrow> b_data c b = sector c (key c b)"
  using assms unfolding flags_ok_def by - (elim conjE, assumption)+

lemma NotAvail_fields:
  "b_dev (NotAvail c b) = b_dev c" "b_blkno (NotAvail c b) = b_blkno c" "b_data (NotAvail c b) = b_data c"
  "platter (NotAvail c b) = platter c" "eio (NotAvail c b) = eio c"
  "key (NotAvail c b) = key c" "sector (NotAvail c b) = sector c"
  by (simp_all add: NotAvail_def key_def sector_def fun_eq_iff)

lemma NotAvail_flags:
  "flagged (NotAvail c b) x k = (if x = b then has_flag (set_flag (b_flags c b) B_BUSY) k else flagged c x k)"
  by (simp add: NotAvail_def or_flags_def)

lemma ring_mem_buffers:
  "rings_ok c dl nl fl q \<Longrightarrow>
     set dl \<subseteq> buffers \<and> set nl \<subseteq> buffers \<and> set fl \<subseteq> buffers \<and> set q \<subseteq> buffers \<and> FreeL \<notin> buffers"
  unfolding rings_ok_def using buffer_node by auto

lemma cache_NotAvail:
  assumes C: "cache_ok c dl nl (as @ b # bs) q"
  shows "cache_ok (NotAvail c b) dl nl (as @ bs) q" "content (NotAvail c b) dl q = content c dl q"
proof -
  have R: "rings_ok c dl nl (as @ b # bs) q" and G: "flags_ok c dl nl (as @ b # bs) q"
    using C by (simp_all add: cache_ok_def)
  have b: "b \<in> buffers" "b \<notin> set as" "b \<notin> set bs" using R by (auto simp: rings_ok_def ring_def)
  have F: "flagged (NotAvail c b) x k = flagged c x k" if "k = B_DONE \<or> k = B_ERROR \<or> k = B_DELWRI \<or> k = B_ASYNC \<or> k = B_READ" for x k
    using that by (auto simp: NotAvail_flags has_set B_defs)
  have B: "flagged (NotAvail c b) x B_BUSY = (x = b \<or> flagged c x B_BUSY)" for x
    by (auto simp: NotAvail_flags has_set B_defs)
  have "flags_ok (NotAvail c b) dl nl (as @ bs) q"
    using G b by (auto simp: flags_ok_def F B NotAvail_fields)
  with rings_NotAvail [OF R] show "cache_ok (NotAvail c b) dl nl (as @ bs) q" by (simp add: cache_ok_def)
  show "content (NotAvail c b) dl q = content c dl q"
    using G by (intro content_cong) (auto simp: flags_ok_def valid_buf_def F NotAvail_fields)
qed

text \<open>A buffer that a process holds: off the free ring and not requested.\<close>

definition held :: "bcache \<Rightarrow> node list \<Rightarrow> node list \<Rightarrow> node list \<Rightarrow> node \<Rightarrow> bool" where
  "held c dl fl q b \<longleftrightarrow> b \<in> set dl \<and> b \<notin> set fl \<and> b \<notin> set q"

lemma Brelse_keys: "key (Brelse c b) = key c" "sector (Brelse c b) = sector c"
  by (simp_all add: key_def sector_def fun_eq_iff Brelse_fields)

lemma cache_Brelse:
  assumes C: "cache_ok c dl nl fl q" and h: "held c dl fl q b"
    and d: "flagged c b B_DONE \<Longrightarrow> \<not> flagged c b B_DELWRI \<Longrightarrow> b_data c b = sector c (key c b)"
  shows "cache_ok (Brelse c b) dl nl (fl @ [b]) q" "content (Brelse c b) dl q = content c dl q"
proof -
  have R: "rings_ok c dl nl fl q" and G: "flags_ok c dl nl fl q" using C by (simp_all add: cache_ok_def)
  note m = ring_mem_buffers [OF R]
  have b: "b \<in> buffers" "b \<notin> set fl" "b \<notin> set q" "b \<noteq> FreeL" "b \<in> set dl" using h m by (auto simp: held_def)
  have F: "flagged (Brelse c b) x k = flagged c x k" if "x \<in> buffers" "k = B_DONE \<or> k = B_ERROR \<or> k = B_DELWRI \<or> k = B_READ" for x k
  proof -
    have "x \<noteq> FreeL" using that m by auto
    with that show ?thesis by (auto simp: Brelse_flags [OF b(4)] has_clear_other B_defs)
  qed
  have A: "flagged (Brelse c b) x k = (x \<noteq> b \<and> flagged c x k)" if "x \<in> buffers" "k = B_BUSY \<or> k = B_ASYNC" for x k
  proof -
    have "x \<noteq> FreeL" using that m by auto
    with that show ?thesis by (auto simp: Brelse_flags [OF b(4)] has_clear_sub B_defs)
  qed
  have "flags_ok (Brelse c b) dl nl (fl @ [b]) q"
    unfolding flags_ok_def Brelse_keys Brelse_fields
    using G m b d by (simp add: flags_ok_def F A subset_iff)
  with rings_Brelse [OF R b(1-3)] show "cache_ok (Brelse c b) dl nl (fl @ [b]) q" by (simp add: cache_ok_def)
  have "valid_buf (Brelse c b) q x = valid_buf c q x" if "x \<in> set dl" for x
    using that m by (auto simp: valid_buf_def F subset_iff)
  then show "content (Brelse c b) dl q = content c dl q"
    using G by (intro content_cong) (auto simp: flags_ok_def Brelse_fields Brelse_keys)
qed

text \<open>Queueing a held buffer: a write makes its data the content of its block, a read changes nothing.\<close>

lemma cache_Strategy:
  assumes C: "cache_ok c0 dl nl fl q" and h: "held c0 dl fl q b"
    and c: "b_dev c = b_dev c0" "b_blkno c = b_blkno c0" "platter c = platter c0"
      "b_forw c = b_forw c0" "b_back c = b_back c0" "av_forw c = av_forw c0" "av_back c = av_back c0"
      "d_actf c = d_actf c0" "d_actl c = d_actl c0" "d_active c = d_active c0"
    and o: "\<And>x. x \<noteq> b \<Longrightarrow> b_flags c x = b_flags c0 x \<and> b_data c x = b_data c0 x"
    and s: "\<not> flagged c b B_DONE" "\<not> flagged c b B_DELWRI" "\<not> flagged c b B_ERROR" "flagged c b B_BUSY"
  shows "cache_ok (Strategy c b) dl nl fl (q @ [b])"
    "flagged c b B_READ \<Longrightarrow> \<not> flagged c0 b B_DONE \<Longrightarrow> content (Strategy c b) dl (q @ [b]) = content c0 dl q"
    "\<not> flagged c b B_READ \<Longrightarrow> content (Strategy c b) dl (q @ [b]) = (content c0 dl q)(key c0 b := b_data c b)"
proof -
  have R0: "rings_ok c0 dl nl fl q" and G0: "flags_ok c0 dl nl fl q" using C by (simp_all add: cache_ok_def)
  have R: "rings_ok c dl nl fl q"
    using R0 by (cases q) (simp_all add: rings_ok_def c)
  note m = ring_mem_buffers [OF R]
  have b: "b \<in> set dl" "b \<notin> set fl" "b \<notin> set q" "b \<in> buffers" using h m by (auto simp: held_def)
  have n: "b_blkno c b < NSECTOR" using G0 b(1) by (simp add: flags_ok_def c)
  note f = Strategy_in_range [OF n]
  have K: "key (Strategy c b) = key c0" "sector (Strategy c b) = sector c0"
    by (simp_all add: key_def sector_def fun_eq_iff f c)
  have F: "flagged (Strategy c b) x k = (if x = b then flagged c b k else flagged c0 x k)" for x k
    using o by (simp add: f)
  have D: "b_data (Strategy c b) x = (if x = b then b_data c b else b_data c0 x)" for x
    using o by (simp add: f)
  have G: "flags_ok (Strategy c b) dl nl fl (q @ [b])"
    unfolding flags_ok_def K f(5) f(6) c
    using G0 b s by (auto simp: flags_ok_def F D)
  with rings_Strategy [OF R b(1-3) n] show "cache_ok (Strategy c b) dl nl fl (q @ [b])"
    by (simp add: cache_ok_def)
  have i: "inj_on (key c0) (set dl)" "inj_on (key (Strategy c b)) (set dl)"
    using G0 by (simp_all add: flags_ok_def K)
  show "content (Strategy c b) dl (q @ [b]) = content c0 dl q" if r: "flagged c b B_READ" "\<not> flagged c0 b B_DONE"
    using r b(3) s(1) by (intro content_cong i) (auto simp: K valid_buf_def F D)
  show "content (Strategy c b) dl (q @ [b]) = (content c0 dl q)(key c0 b := b_data c b)" if r: "\<not> flagged c b B_READ"
  proof
    fix k
    have V: "valid_buf (Strategy c b) (q @ [b]) x = (x = b \<or> valid_buf c0 q x)" for x
      using r by (auto simp: valid_buf_def F)
    show "content (Strategy c b) dl (q @ [b]) k = ((content c0 dl q)(key c0 b := b_data c b)) k"
    proof (cases "k \<in> key c0 ` set dl")
      case True
      then obtain x where x: "x \<in> set dl" "key c0 x = k" by auto
      have "x = b \<longleftrightarrow> k = key c0 b" using x b(1) i(1) by (auto dest: inj_onD)
      then show ?thesis using content_of [OF i(1) x] content_of [OF i(2) x(1)] x
        by (auto simp: K V D)
    next
      case False
      then have "k \<noteq> key c0 b" using b(1) by auto
      with False show ?thesis by (simp add: content_none K)
    qed
  qed
qed

section \<open>A disk interrupt\<close>

lemma request_queue_pop:
  assumes "request_queue c (b # q)" "distinct (b # q)" "set (b # q) \<subseteq> buffers"
  shows "d_active c = 1" "d_actf c = b" "av_forw c b = hd (q @ [Null])"
    "q \<noteq> [] \<Longrightarrow> d_actl c = last q \<and> path (av_forw c) (hd q) (tl q) Null"
  using assms by (cases q; simp)+

text \<open>The bookkeeping after the transfer of the first request; \<open>c\<close> is the cache after the transfer.\<close>

lemma cache_finish:
  assumes C: "cache_ok c0 dl nl fl (b # q)"
    and c: "b_dev c = b_dev c0" "b_blkno c = b_blkno c0" "b_flags c = b_flags c0"
      "b_forw c = b_forw c0" "b_back c = b_back c0" "av_forw c = av_forw c0" "av_back c = av_back c0"
      "d_actf c = d_actf c0" "d_actl c = d_actl c0" "d_active c = 0"
    and d: "\<And>x. x \<noteq> b \<Longrightarrow> b_data c x = b_data c0 x" "\<And>k. k \<noteq> key c0 b \<Longrightarrow> sector c k = sector c0 k"
      "b_data c b = sector c (key c0 b)" "sector c (key c0 b) = content c0 dl (b # q) (key c0 b)"
  shows "cache_ok (finish_request c b) dl nl (if flagged c0 b B_ASYNC then fl @ [b] else fl) q"
    "content (finish_request c b) dl q = content c0 dl (b # q)"
    "flagged (finish_request c b) b B_DONE"
    "flagged c0 b B_ASYNC \<or> \<not> flagged (finish_request c b) b B_ASYNC"
    "b_data (finish_request c b) b = sector (finish_request c b) (key (finish_request c b) b)"
proof -
  have R0: "rings_ok c0 dl nl fl (b # q)" and G0: "flags_ok c0 dl nl fl (b # q)"
    using C by (simp_all add: cache_ok_def)
  note m = ring_mem_buffers [OF R0]
  have b: "b \<in> set dl" "b \<notin> set fl" "b \<notin> set q" "b \<in> buffers" "distinct (b # q)" "set (b # q) \<subseteq> buffers"
    "request_queue c0 (b # q)" "b \<noteq> FreeL"
    using R0 m by (auto simp: rings_ok_def)
  note p = request_queue_pop [OF b(7,5,6)]
  define c1 where "c1 = or_flags (c\<lparr>d_errcnt := 0, d_actf := hd (q @ [Null])\<rparr>) b B_DONE"
  define c2 where "c2 = c1\<lparr>d_active := (if q = [] then 0 else 1)\<rparr>"
  define c3 where "c3 = (if flagged c0 b B_ASYNC then Brelse c2 b else WakeUp (off_flags c2 b B_WANTED) b)"
  have nn: "q \<noteq> [] \<Longrightarrow> hd q \<noteq> Null" using b(6) buffer_node [of "hd q"] by (cases q) auto
  have as: "flagged c1 b B_ASYNC = flagged c0 b B_ASYNC"
    by (simp add: c1_def or_flags_def has_set c B_defs)
  have e: "finish_request c b = c3"
  proof -
    have "DevStart_next (IODone (c\<lparr>d_errcnt := 0, d_actf := hd (q @ [Null])\<rparr>) b) = c3"
      unfolding IODone_def c1_def [symmetric] Let_def as c3_def c2_def
      using nn by (cases q) (auto simp: DevStart_next_def Brelse_def WakeUp_def off_flags_def c1_def or_flags_def c Let_def)
    then show ?thesis using p by (simp add: finish_request_def c)
  qed
  have R2: "rings_ok c2 dl nl fl q"
  proof -
    have "request_queue c2 q"
      using p by (cases q) (auto simp: c2_def c1_def c)
    then show ?thesis using R0 by (auto simp: rings_ok_def c2_def c1_def c)
  qed
  have F2: "flagged c2 x k = (flagged c0 x k \<or> x = b \<and> k = B_DONE)"
    if "k = B_DONE \<or> k = B_ERROR \<or> k = B_DELWRI \<or> k = B_READ \<or> k = B_BUSY \<or> k = B_ASYNC" for x k
    using that by (auto simp: c2_def c1_def flag_or has_set c B_defs)
  have K2: "key c2 = key c0" "sector c2 = sector c" "b_data c2 = b_data c" "b_dev c2 = b_dev c0" "b_blkno c2 = b_blkno c0"
    by (simp_all add: c2_def c1_def key_def sector_def c fun_eq_iff)
  have G2: "flags_ok c2 dl nl fl q"
  proof -
    have "b_data c x = sector c (key c0 x)"
      if x: "x \<in> set dl" "x \<in> set fl" "flagged c0 x B_DONE" "\<not> flagged c0 x B_DELWRI" for x
    proof -
      have "x \<noteq> b" using x b(2) by auto
      moreover from this have "key c0 x \<noteq> key c0 b"
        using G0 x(1) b(1) by (auto simp: flags_ok_def dest: inj_onD)
      ultimately show ?thesis using G0 x d(1,2) by (simp add: flags_ok_def)
    qed
    moreover have "B_ERROR \<noteq> B_DONE" "B_DELWRI \<noteq> B_DONE" "B_BUSY \<noteq> B_DONE" "B_ASYNC \<noteq> B_DONE"
      by (simp_all add: B_defs)
    ultimately show ?thesis unfolding flags_ok_def K2 using G0 b(1-3)
      by (auto simp: flags_ok_def F2)
  qed
  have i: "inj_on (key c0) (set dl)" using G0 by (simp add: flags_ok_def)
  have T2: "content c2 dl q = content c0 dl (b # q)"
  proof (rule content_cong [OF i])
    fix x
    assume x: "x \<in> set dl"
    show "(if valid_buf c2 q x then b_data c2 x else sector c2 (key c0 x)) =
          (if valid_buf c0 (b # q) x then b_data c0 x else sector c0 (key c0 x))"
    proof (cases "x = b")
      case True
      then show ?thesis using d(3,4) content_of [OF i b(1) refl]
        by (simp add: valid_buf_def F2 K2)
    next
      case False
      then have "key c0 x \<noteq> key c0 b" using i x b(1) by (auto dest: inj_onD)
      with False d(1,2) show ?thesis by (simp add: valid_buf_def F2 K2)
    qed
  next
    show "sector c2 k = sector c0 k" if "k \<notin> key c0 ` set dl" for k
      using that b(1) d(2) [of k] by (auto simp: K2)
  qed (use i in \<open>simp_all add: K2\<close>)
  have h2: "held c2 dl fl q b" using b by (simp add: held_def)
  have C2: "cache_ok c2 dl nl fl q" using R2 G2 by (simp add: cache_ok_def)
  have dd: "b_data c2 b = sector c2 (key c2 b)" using d(3) by (simp add: K2)
  have Fw: "flagged (off_flags c2 b B_WANTED) x k = flagged c2 x k"
    if "k = B_DONE \<or> k = B_ERROR \<or> k = B_DELWRI \<or> k = B_READ \<or> k = B_BUSY \<or> k = B_ASYNC" for x k
    using that by (auto simp: flag_off has_clear_other B_defs)
  have Kw: "key (WakeUp (off_flags c2 b B_WANTED) b) = key c2" "sector (WakeUp (off_flags c2 b B_WANTED) b) = sector c2"
    by (simp_all add: key_def sector_def fun_eq_iff)
  show "cache_ok (finish_request c b) dl nl (if flagged c0 b B_ASYNC then fl @ [b] else fl) q"
  proof (cases "flagged c0 b B_ASYNC")
    case True
    with cache_Brelse(1) [OF C2 h2 dd] show ?thesis by (simp add: e c3_def)
  next
    case False
    have "rings_ok (WakeUp (off_flags c2 b B_WANTED) b) dl nl fl q"
      using R2 by (cases q) (simp_all add: rings_ok_def)
    moreover have "flags_ok (WakeUp (off_flags c2 b B_WANTED) b) dl nl fl q"
      using G2 by (simp add: flags_ok_def Fw Kw)
    ultimately show ?thesis using False by (simp add: e c3_def cache_ok_def)
  qed
  have "content (WakeUp (off_flags c2 b B_WANTED) b) dl q = content c2 dl q"
    using i by (intro content_cong) (simp_all add: Kw K2 valid_buf_def Fw)
  then show "content (finish_request c b) dl q = content c0 dl (b # q)"
    using cache_Brelse(2) [OF C2 h2 dd] T2 by (simp add: e c3_def)
  have "flagged (Brelse c2 b) b B_DONE = flagged c2 b B_DONE"
    using b(8) by (simp add: Brelse_flags has_clear_other B_defs)
  then show "flagged (finish_request c b) b B_DONE" by (simp add: e c3_def Fw F2)
  show "flagged c0 b B_ASYNC \<or> \<not> flagged (finish_request c b) b B_ASYNC" by (simp add: e c3_def Fw F2) (simp add: B_defs)
  show "b_data (finish_request c b) b = sector (finish_request c b) (key (finish_request c b) b)"
    using dd by (simp add: e c3_def Brelse_fields Brelse_keys Kw)
qed

lemma ATAHandler_idle: "rings_ok c dl nl fl [] \<Longrightarrow> ATAHandler e c = c"
  by (simp add: rings_ok_def ATAHandler_def)

lemma cache_interrupt:
  assumes C: "cache_ok c dl nl fl (b # q)"
  shows "cache_ok (ATAHandler False c) dl nl (if flagged c b B_ASYNC then fl @ [b] else fl) q"
    "content (ATAHandler False c) dl q = content c dl (b # q)"
    "flagged (ATAHandler False c) b B_DONE"
    "flagged c b B_ASYNC \<or> \<not> flagged (ATAHandler False c) b B_ASYNC"
    "b_data (ATAHandler False c) b = sector (ATAHandler False c) (key (ATAHandler False c) b)"
proof -
  have R: "rings_ok c dl nl fl (b # q)" and G: "flags_ok c dl nl fl (b # q)"
    using C by (simp_all add: cache_ok_def)
  have b: "b \<in> set dl" "request_queue c (b # q)" "\<not> flagged c b B_DONE" "inj_on (key c) (set dl)"
    using R G by (auto simp: rings_ok_def flags_ok_def)
  define c1 where "c1 = transfer (c\<lparr>d_active := 0\<rparr>) b"
  have f: "b_dev c1 = b_dev c" "b_blkno c1 = b_blkno c" "b_flags c1 = b_flags c"
      "b_forw c1 = b_forw c" "b_back c1 = b_back c" "av_forw c1 = av_forw c" "av_back c1 = av_back c"
      "d_actf c1 = d_actf c" "d_actl c1 = d_actl c" "d_active c1 = 0"
    by (simp_all add: c1_def transfer_def Let_def)
  have d: "x \<noteq> b \<Longrightarrow> b_data c1 x = b_data c x" "k \<noteq> key c b \<Longrightarrow> sector c1 k = sector c k"
      "b_data c1 b = sector c1 (key c b)" "sector c1 (key c b) = content c dl (b # q) (key c b)" for x k
    using content_of [OF b(4,1) refl, of "b # q"] b(3)
    by (auto simp: c1_def transfer_def Let_def key_def sector_def valid_buf_def prod_eq_iff split: if_splits)
  have e: "ATAHandler False c = finish_request c1 b"
    using b(2) by (simp add: ATAHandler_def c1_def)
  from cache_finish [OF C f d] show
    "cache_ok (ATAHandler False c) dl nl (if flagged c b B_ASYNC then fl @ [b] else fl) q"
    "content (ATAHandler False c) dl q = content c dl (b # q)"
    "flagged (ATAHandler False c) b B_DONE"
    "flagged c b B_ASYNC \<or> \<not> flagged (ATAHandler False c) b B_ASYNC"
    "b_data (ATAHandler False c) b = sector (ATAHandler False c) (key (ATAHandler False c) b)" by (simp_all add: e)
qed

section \<open>Looking a block up\<close>

lemma length_dl:
  assumes "rings_ok c dl nl fl q"
  shows "length dl \<le> NBUF" "length fl \<le> NBUF"
proof -
  have s: "set dl \<subseteq> buffers" "set fl \<subseteq> buffers" "distinct dl" "distinct fl"
    using ring_mem_buffers [OF assms] assms by (auto simp: rings_ok_def ring_def)
  have f: "finite buffers" "card buffers = NBUF"
    by (simp_all add: buffers_def card_image inj_on_def)
  show "length dl \<le> NBUF" "length fl \<le> NBUF"
    using card_mono [OF f(1) s(1)] card_mono [OF f(1) s(2)] f(2) s(3,4) by (simp_all add: distinct_card)
qed

lemma walk_ring:
  assumes "path (b_forw c) x xs DevL" "DevL \<notin> set xs" "length xs < n"
  shows "walk n c (b_forw c x) dev blkno = find (\<lambda>b. key c b = (dev, blkno)) xs"
  using assms
proof (induction xs arbitrary: n x)
  case Nil
  then obtain n' where "n = Suc n'" by (cases n) auto
  with Nil show ?case by simp
next
  case (Cons y ys)
  then obtain n' where n: "n = Suc n'" by (cases n) auto
  have p: "b_forw c x = y" "path (b_forw c) y ys DevL" "DevL \<notin> set ys" "length ys < n'" "y \<noteq> DevL"
    using Cons.prems n by auto
  then have "walk n' c (b_forw c y) dev blkno = find (\<lambda>b. key c b = (dev, blkno)) ys"
    by (intro Cons.IH)
  then show ?case unfolding p(1) n using p(5) by (simp add: key_def conj_commute)
qed

lemma InCore_find:
  assumes "rings_ok c dl nl fl q"
  shows "InCore c dev blkno = find (\<lambda>b. key c b = (dev, blkno)) dl"
  unfolding InCore_def
  using assms length_dl(1) [OF assms] by (intro walk_ring) (auto simp: rings_ok_def ring_def)

lemma InCore_Some:
  assumes "rings_ok c dl nl fl q" "InCore c dev blkno = Some b"
  shows "b \<in> set dl" "key c b = (dev, blkno)"
  using assms by (auto simp: InCore_find find_Some_iff)

lemma InCore_None:
  assumes "rings_ok c dl nl fl q" "InCore c dev blkno = None"
  shows "(dev, blkno) \<notin> key c ` set dl"
  using assms by (auto simp: InCore_find find_None_iff)

section \<open>Giving a free buffer to another block\<close>

lemma rings_reassign:
  assumes R: "rings_ok c dl nl fl q" and b: "b \<in> buffers" "b \<notin> set fl" "b \<notin> set q" and d: "0 \<le> dev"
  shows "rings_ok (reassign c b dev blkno) (b # removeAll b dl) (removeAll b nl) fl q"
proof -
  have r: "ring (b_forw c) (b_back c) DevL dl" "ring (b_forw c) (b_back c) FreeL nl"
    using R by (simp_all add: rings_ok_def)
  have un: "set dl \<union> set nl = buffers" "set dl \<inter> set nl = {}" using R by (simp_all add: rings_ok_def)
  note nb = buffer_node [OF b(1)]
  have mb: "FreeL \<notin> buffers" "DevL \<notin> buffers" using buffer_node by auto
  let ?f = "unlink_fw (b_forw c) (b_back c) b" and ?k = "unlink_bk (b_forw c) (b_back c) b"
  have split: "ring ?f ?k h (removeAll b xs)" if g: "ring (b_forw c) (b_back c) h xs" "b \<in> set xs" for h xs
  proof -
    obtain as bs where x: "xs = as @ b # bs" using split_list [OF g(2)] by auto
    then have "removeAll b xs = as @ bs" using g(1) by (auto simp: ring_def removeAll_id)
    with ring_unlink [of _ _ h as b bs] g(1) x show ?thesis by simp
  qed
  have keep: "ring ?f ?k h' xs'" if "ring (b_forw c) (b_back c) h xs" "b \<in> set xs"
    "ring (b_forw c) (b_back c) h' xs'" "set (h' # xs') \<inter> set (h # xs) = {}" for h xs h' xs'
    using that(3)
  proof (rule ring_cong)
    show "?f u = b_forw c u \<and> ?k u = b_back c u" if "u \<in> set (h' # xs')" for u
      using unlink_frame [OF \<open>ring (b_forw c) (b_back c) h xs\<close> \<open>b \<in> set xs\<close>, of u] that
        \<open>set (h' # xs') \<inter> set (h # xs) = {}\<close> by blast
  qed
  have s: "set dl \<subseteq> buffers" "set nl \<subseteq> buffers" using un by auto
  have U: "ring ?f ?k DevL (removeAll b dl) \<and> ring ?f ?k FreeL (removeAll b nl)"
  proof (cases "b \<in> set dl")
    case True
    moreover from this have "b \<notin> set nl" using un by auto
    moreover have "set (FreeL # nl) \<inter> set (DevL # dl) = {}" using un mb s by auto
    ultimately show ?thesis using split [OF r(1)] keep [OF r(1) _ r(2)] by (simp add: removeAll_id)
  next
    case False
    then have "b \<in> set nl" using un b by auto
    moreover have "set (DevL # dl) \<inter> set (FreeL # nl) = {}" using un mb s by auto
    ultimately show ?thesis using False split [OF r(2)] keep [OF r(2) _ r(1)] by (simp add: removeAll_id)
  qed
  have D: "ring (front_fw ?f DevL b) (front_bk ?f ?k DevL b) DevL (b # removeAll b dl)"
    using U nb by (intro ring_front) auto
  have N: "ring (front_fw ?f DevL b) (front_bk ?f ?k DevL b) FreeL (removeAll b nl)"
  proof (rule ring_cong)
    show "ring ?f ?k FreeL (removeAll b nl)" using U by simp
    show "front_fw ?f DevL b u = ?f u \<and> front_bk ?f ?k DevL b u = ?k u" if "u \<in> set (FreeL # removeAll b nl)" for u
      using front_frame [of ?f ?k DevL "removeAll b dl" u b] U that un s mb nb by auto
  qed
  have "request_queue c q" using R by (simp add: rings_ok_def)
  then have "request_queue (reassign c b dev blkno) q"
    by (rule request_queue_cong) (simp_all add: reassign_def Let_def)
  moreover have "b_forw (reassign c b dev blkno) = front_fw ?f DevL b"
    "b_back (reassign c b dev blkno) = front_bk ?f ?k DevL b"
    "av_forw (reassign c b dev blkno) = av_forw c" "av_back (reassign c b dev blkno) = av_back c"
    using d by (simp_all add: reassign_def Let_def)
  ultimately show ?thesis unfolding rings_ok_def
  proof (intro conjI)
    show "set (b # removeAll b dl) \<union> set (removeAll b nl) = buffers"
      "set (b # removeAll b dl) \<inter> set (removeAll b nl) = {}" using un b(1) by auto
    show "set q \<subseteq> set (b # removeAll b dl)" using R by (auto simp: rings_ok_def)
  qed (use R D N in \<open>simp_all add: rings_ok_def\<close>)
qed

lemma cache_reassign:
  assumes C: "cache_ok c dl nl fl q" and b: "b \<in> buffers" "b \<notin> set fl" "b \<notin> set q"
    and k: "0 \<le> dev" "dev < 256" "blkno < NSECTOR" "(dev, blkno) \<notin> key c ` set dl"
    and s: "b \<in> set dl \<Longrightarrow> flagged c b B_DONE \<Longrightarrow> b_data c b = sector c (key c b)"
  shows "cache_ok (reassign c b dev blkno) (b # removeAll b dl) (removeAll b nl) fl q"
    "content (reassign c b dev blkno) (b # removeAll b dl) q = content c dl q"
    "\<not> flagged (reassign c b dev blkno) b B_DONE" "key (reassign c b dev blkno) b = (dev, blkno)"
proof -
  let ?c = "reassign c b dev blkno"
  have R: "rings_ok c dl nl fl q" and G: "flags_ok c dl nl fl q" using C by (simp_all add: cache_ok_def)
  have F: "flagged ?c x m = (if x = b then has_flag B_BUSY m else flagged c x m)" for x m
    by (simp add: reassign_def Let_def)
  have K: "key ?c x = (if x = b then (dev, blkno) else key c x)" for x
    by (simp add: reassign_def Let_def key_def)
  have S: "sector ?c = sector c" "b_data ?c = b_data c" by (simp_all add: reassign_def Let_def sector_def fun_eq_iff)
  have V: "b_dev ?c x = (if x = b then dev else b_dev c x)" "b_blkno ?c x = (if x = b then blkno else b_blkno c x)" for x
    by (simp_all add: reassign_def Let_def)
  have i0: "inj_on (key c) (set dl)" using G by (simp add: flags_ok_def)
  have i: "inj_on (key ?c) (set (b # removeAll b dl))"
  proof -
    have "inj_on (key ?c) (set dl - {b})"
      using inj_on_diff [OF i0, of "{b}"] by (rule iffD2 [OF inj_on_cong, rotated]) (simp add: K)
    moreover have "key ?c b \<notin> key ?c ` (set dl - {b})"
      using k(4) by (auto simp: K image_iff)
    ultimately have "inj_on (key ?c) (insert b (set dl - {b}))"
      by (intro iffD2 [OF inj_on_insert]) simp
    moreover have "set (b # removeAll b dl) = insert b (set dl - {b})" by simp
    ultimately show ?thesis by (simp only:)
  qed
  note g = flags_okD [OF G]
  have bz: "\<not> has_flag B_BUSY B_DONE" "\<not> has_flag B_BUSY B_ERROR" "\<not> has_flag B_BUSY B_DELWRI"
     "\<not> has_flag B_BUSY B_ASYNC" "has_flag B_BUSY B_BUSY" "\<not> has_flag B_BUSY B_READ"
    by (simp_all add: has_flag_def B_defs)
  have "flags_ok ?c (b # removeAll b dl) (removeAll b nl) fl q"
    unfolding flags_ok_def
  proof (intro conjI)
    show "inj_on (key ?c) (set (b # removeAll b dl))" by (rule i)
    show "\<forall>x\<in>set (b # removeAll b dl) \<inter> set fl. flagged ?c x B_DONE \<longrightarrow> \<not> flagged ?c x B_DELWRI \<longrightarrow>
      b_data ?c x = sector ?c (key ?c x)"
      using g(9) b(2) by (auto simp: F K S bz)
    show "\<forall>x\<in>buffers. flagged ?c x B_BUSY \<longleftrightarrow> x \<notin> set fl" using g(1) b(2) by (simp add: F bz)
    show "\<forall>x\<in>buffers. flagged ?c x B_DELWRI \<longrightarrow> flagged ?c x B_DONE \<and> x \<in> set (b # removeAll b dl)"
      using g(3) by (simp add: F bz)
    show "\<forall>x\<in>set q. \<not> flagged ?c x B_DONE" using g(5) by (simp add: F bz)
    show "\<forall>x\<in>set fl. \<not> flagged ?c x B_ASYNC" using g(4) by (simp add: F bz)
    show "\<forall>x\<in>buffers. \<not> flagged ?c x B_ERROR" using g(2) by (simp add: F bz)
    show "\<forall>x\<in>set (b # removeAll b dl). 0 \<le> b_dev ?c x \<and> b_dev ?c x < 256 \<and> b_blkno ?c x < NSECTOR"
      using g(6) k(1-3) by (simp add: V)
    show "\<forall>x\<in>set (removeAll b nl). b_dev ?c x < 0" using g(7) by (simp add: V)
  qed
  with rings_reassign [OF R b k(1)] show "cache_ok ?c (b # removeAll b dl) (removeAll b nl) fl q"
    by (simp add: cache_ok_def)
  show "\<not> flagged ?c b B_DONE" "key ?c b = (dev, blkno)" by (simp_all add: F K bz)
  show "content ?c (b # removeAll b dl) q = content c dl q"
  proof
    fix x
    have bv: "\<not> valid_buf ?c q b" using b(3) by (simp add: valid_buf_def F bz)
    consider (new) "x = (dev, blkno)" | (old) "b \<in> set dl" "x = key c b" "x \<noteq> (dev, blkno)"
      | (other) y where "y \<in> set dl" "y \<noteq> b" "key c y = x" "x \<noteq> (dev, blkno)" | (none) "x \<notin> key c ` set dl" "x \<noteq> (dev, blkno)"
      by auto
    then show "content ?c (b # removeAll b dl) q x = content c dl q x"
    proof cases
      case new
      then show ?thesis using content_of [OF i, of b x q] k(4) bv by (simp add: content_none K S)
    next
      case old
      have "x \<notin> key ?c ` set (b # removeAll b dl)" using old i0 by (auto simp: K inj_on_def)
      moreover have "content c dl q x = sector c x"
        using content_of [OF i0 old(1), of x q] old s b(3) by (auto simp: valid_buf_def)
      ultimately show ?thesis by (simp add: content_none S)
    next
      case other
      then show ?thesis using content_of [OF i0 other(1,3), of q] content_of [OF i, of y x q]
        by (simp add: K S valid_buf_def F)
    next
      case none
      then have "x \<notin> key ?c ` set (b # removeAll b dl)" by (auto simp: K)
      with none show ?thesis by (simp add: content_none S)
    qed
  qed
qed

end
