(* ===== verification/BufSpec.thy ===== *)
theory BufSpec
  imports BufInv
begin

text \<open>
  What the calls of \<open>dev/BufferManager.cpp\<close> promise to the file system, for a disk without errors: the
  blocks are a map from device and number to 512 bytes; reading returns the entry, writing replaces
  it, and nothing else that the cache does (eviction, delayed writes, interrupts) changes the map.
\<close>

section \<open>What stays for the other processes\<close>

text \<open>The buffers that are neither free nor requested are held by processes; a call leaves them alone.\<close>

definition keeps :: "bcache \<Rightarrow> node list \<Rightarrow> node list \<Rightarrow> bcache \<Rightarrow> node list \<Rightarrow> node list \<Rightarrow> bool" where
  "keeps c fl q c' fl' q' \<longleftrightarrow>
     set fl' \<union> set q' \<subseteq> set fl \<union> set q \<and>
     (\<forall>x\<in>buffers - (set fl \<union> set q). b_data c' x = b_data c x \<and> key c' x = key c x \<and>
        flagged c' x B_DONE = flagged c x B_DONE \<and> flagged c' x B_DELWRI = flagged c x B_DELWRI)"

lemma keeps_refl [simp]: "keeps c fl q c fl q"
  by (simp add: keeps_def)

lemma keeps_trans: "keeps c fl q c' fl' q' \<Longrightarrow> keeps c' fl' q' c'' fl'' q'' \<Longrightarrow> keeps c fl q c'' fl'' q''"
proof -
  assume a: "keeps c fl q c' fl' q'" "keeps c' fl' q' c'' fl'' q''"
  then have s: "set fl' \<union> set q' \<subseteq> set fl \<union> set q" "set fl'' \<union> set q'' \<subseteq> set fl' \<union> set q'"
    by (simp_all add: keeps_def)
  have "x \<in> buffers - (set fl' \<union> set q')" if "x \<in> buffers - (set fl \<union> set q)" for x
    using that s by blast
  then show ?thesis using a order_trans [OF s(2,1)] by (simp add: keeps_def)
qed

text \<open>The delayed buffers of the free ring.\<close>

definition dirty :: "bcache \<Rightarrow> node list \<Rightarrow> nat" where
  "dirty c fl = length (filter (\<lambda>b. flagged c b B_DELWRI) fl)"

lemma DevStart_next_frame:
  "b_flags (DevStart_next c) = b_flags c" "b_data (DevStart_next c) = b_data c"
  "b_dev (DevStart_next c) = b_dev c" "b_blkno (DevStart_next c) = b_blkno c"
  by (simp_all add: DevStart_next_def)

lemma IODone_frame:
  "b_data (IODone c b) = b_data c" "b_dev (IODone c b) = b_dev c" "b_blkno (IODone c b) = b_blkno c"
  "x \<noteq> b \<Longrightarrow> x \<noteq> FreeL \<Longrightarrow> b \<noteq> FreeL \<Longrightarrow> b_flags (IODone c b) x = b_flags c x"
  "b \<noteq> FreeL \<Longrightarrow> flagged (IODone c b) b B_DELWRI = flagged c b B_DELWRI"
  by (auto simp: IODone_def Let_def Brelse_fields Brelse_def flag_off flag_or has_clear_other has_set B_defs
        or_flags_def off_flags_def)

lemma ATAHandler_frame:
  assumes "request_queue c (b # q)" "b \<noteq> FreeL"
  shows "key (ATAHandler False c) = key c"
    "x \<noteq> b \<Longrightarrow> b_data (ATAHandler False c) x = b_data c x"
    "x \<noteq> b \<Longrightarrow> x \<noteq> FreeL \<Longrightarrow> b_flags (ATAHandler False c) x = b_flags c x"
    "flagged (ATAHandler False c) b B_DELWRI = flagged c b B_DELWRI"
proof -
  have e: "ATAHandler False c = finish_request (transfer (c\<lparr>d_active := 0\<rparr>) b) b"
    using assms(1) by (simp add: ATAHandler_def)
  have t: "b_flags (transfer (c\<lparr>d_active := 0\<rparr>) b) = b_flags c" "b_dev (transfer (c\<lparr>d_active := 0\<rparr>) b) = b_dev c"
    "b_blkno (transfer (c\<lparr>d_active := 0\<rparr>) b) = b_blkno c"
    "y \<noteq> b \<Longrightarrow> b_data (transfer (c\<lparr>d_active := 0\<rparr>) b) y = b_data c y" for y
    by (simp_all add: transfer_def Let_def)
  show "key (ATAHandler False c) = key c"
    by (simp add: e finish_request_def key_def fun_eq_iff DevStart_next_frame IODone_frame t)
  show "x \<noteq> b \<Longrightarrow> b_data (ATAHandler False c) x = b_data c x"
    by (simp add: e finish_request_def DevStart_next_frame IODone_frame t)
  show "x \<noteq> b \<Longrightarrow> x \<noteq> FreeL \<Longrightarrow> b_flags (ATAHandler False c) x = b_flags c x"
    "flagged (ATAHandler False c) b B_DELWRI = flagged c b B_DELWRI"
    using assms(2) by (simp_all add: e finish_request_def DevStart_next_frame IODone_frame t)
qed

text \<open>A buffer that is done and not delayed holds what the disk holds.\<close>

definition agrees :: "bcache \<Rightarrow> node \<Rightarrow> bool" where
  "agrees c b \<longleftrightarrow> (flagged c b B_DONE \<longrightarrow> \<not> flagged c b B_DELWRI \<longrightarrow> b_data c b = sector c (key c b))"

text \<open>One interrupt, whatever the queue holds.\<close>

lemma irq_step:
  assumes C: "cache_ok c dl nl fl q"
  obtains fl' where "cache_ok (ATAHandler False c) dl nl fl' (tl q)"
    "content (ATAHandler False c) dl (tl q) = content c dl q"
    "keeps c fl q (ATAHandler False c) fl' (tl q)" "key (ATAHandler False c) = key c"
    "dirty (ATAHandler False c) fl' = dirty c fl"
    "\<And>x. x \<in> set q \<Longrightarrow> x \<notin> set (tl q) \<Longrightarrow> flagged (ATAHandler False c) x B_DONE \<and> agrees (ATAHandler False c) x \<and>
       (flagged c x B_ASYNC \<longrightarrow> x \<in> set fl') \<and> (\<not> flagged c x B_ASYNC \<longrightarrow> x \<notin> set fl' \<and> \<not> flagged (ATAHandler False c) x B_ASYNC)"
    "\<And>x. x \<in> set (tl q) \<Longrightarrow> b_flags (ATAHandler False c) x = b_flags c x"
    "set fl \<subseteq> set fl'"
proof (cases q)
  case Nil
  then have "ATAHandler False c = c" using C using ATAHandler_idle [of c dl nl fl] by (simp add: cache_ok_def)
  with C Nil that [of fl] show ?thesis by simp
next
  case (Cons b r)
  have R: "rings_ok c dl nl fl (b # r)" and G: "flags_ok c dl nl fl (b # r)"
    using C Cons by (simp_all add: cache_ok_def)
  have b: "b \<in> set dl" "request_queue c (b # r)" "\<not> flagged c b B_DONE" "b \<notin> set r" "b \<notin> set fl"
      "b \<noteq> FreeL" "b \<in> buffers" "FreeL \<notin> set fl" "FreeL \<notin> set r" "set r \<inter> set fl = {}"
    using R G ring_mem_buffers [OF R] by (auto simp: rings_ok_def flags_ok_def)
  have nd: "\<not> flagged c b B_DELWRI" using flags_okD(3) [OF G] b(3,7) by blast
  note t = cache_interrupt [OF C [unfolded Cons]]
  note f = ATAHandler_frame [OF b(2,6)]
  let ?fl = "if flagged c b B_ASYNC then fl @ [b] else fl"
  have "filter (\<lambda>x. flagged (ATAHandler False c) x B_DELWRI) fl = filter (\<lambda>x. flagged c x B_DELWRI) fl"
    using b(5,8) by (intro filter_cong refl) (metis f(3))
  then have "dirty (ATAHandler False c) ?fl = dirty c fl"
    using nd by (simp add: dirty_def f(4))
  moreover have "keeps c fl q (ATAHandler False c) ?fl r"
  proof -
    have "x \<noteq> b" "x \<noteq> FreeL" if "x \<in> buffers - (set fl \<union> set q)" for x
      using that Cons buffer_node [of x] by auto
    then show ?thesis using Cons by (auto simp: keeps_def f)
  qed
  moreover have "b_flags (ATAHandler False c) x = b_flags c x" if "x \<in> set r" for x
    using that b(4,9) by (intro f(3)) auto
  ultimately show ?thesis using t f(1) b(4,5) Cons by (intro that [of ?fl]) (auto simp: agrees_def)
qed

section \<open>Waiting for a request\<close>

text \<open>All buffers but \<open>b\<close> are free or on their way to the free ring.\<close>

definition only_holder :: "bcache \<Rightarrow> node list \<Rightarrow> node list \<Rightarrow> node \<Rightarrow> bool" where
  "only_holder c fl q b \<longleftrightarrow>
     buffers \<subseteq> insert b (set fl \<union> set q) \<and> (\<forall>x\<in>set q - {b}. flagged c x B_ASYNC)"

lemma only_holder_irq:
  assumes "only_holder c fl q b" "set fl \<subseteq> set fl1"
    "\<And>x. x \<in> set q \<Longrightarrow> x \<notin> set (tl q) \<Longrightarrow> flagged c x B_ASYNC \<Longrightarrow> x \<in> set fl1"
    "\<And>x. x \<in> set (tl q) \<Longrightarrow> b_flags c1 x = b_flags c x"
  shows "only_holder c1 fl1 (tl q) b"
proof -
  have tq: "x \<in> set q" if "x \<in> set (tl q)" for x using that by (cases q) auto
  have "x \<in> set fl1 \<union> set (tl q)" if "x \<in> buffers" "x \<noteq> b" for x
    using that assms(1-3) unfolding only_holder_def by blast
  moreover have "flagged c1 x B_ASYNC" if "x \<in> set (tl q)" "x \<noteq> b" for x
    using that assms(1,4) tq by (simp add: only_holder_def)
  ultimately show ?thesis by (auto simp: only_holder_def)
qed

lemma cache_buffer: "cache_ok c dl nl fl q \<Longrightarrow> b \<in> set dl \<or> b \<in> set fl \<or> b \<in> set q \<Longrightarrow> b \<in> buffers"
  using ring_mem_buffers [of c dl nl fl q] by (auto simp: cache_ok_def)

lemma GetError_ok: "cache_ok c dl nl fl q \<Longrightarrow> b \<in> set dl \<Longrightarrow> GetError c b = c"
  using cache_buffer [of c dl nl fl q b] by (simp add: GetError_def cache_ok_def flags_ok_def)

lemma IOWait_ok:
  assumes "IOWait irqs c b = Done (irqs', c')" "True \<notin> set irqs" "cache_ok c dl nl fl q"
    "b \<in> set q \<or> held c dl fl q b \<and> flagged c b B_DONE \<and> agrees c b" "\<not> flagged c b B_ASYNC" "b \<in> set dl"
  shows "\<exists>fl' q'. cache_ok c' dl nl fl' q' \<and> held c' dl fl' q' b \<and> flagged c' b B_DONE \<and> agrees c' b \<and>
    \<not> flagged c' b B_ASYNC \<and> content c' dl q' = content c dl q \<and> keeps c fl q c' fl' q' \<and>
    key c' = key c \<and> True \<notin> set irqs' \<and> (only_holder c fl q b \<longrightarrow> only_holder c' fl' q' b)"
  using assms
proof (induction irqs arbitrary: c fl q)
  case Nil
  have d: "flagged c b B_DONE" "c' = GetError c b" "irqs' = []" using Nil(1) by (simp_all split: if_splits)
  moreover have "b \<notin> set q" using d(1) Nil(3) by (auto simp: cache_ok_def flags_ok_def)
  ultimately show ?case using Nil GetError_ok [OF Nil(3,6)] by (intro exI [of _ fl] exI [of _ q]) auto
next
  case (Cons e es)
  show ?case
  proof (cases "flagged c b B_DONE")
    case True
    then have "c' = GetError c b" "irqs' = e # es" using Cons(2) by simp_all
    moreover have "b \<notin> set q" using True Cons(4) by (auto simp: cache_ok_def flags_ok_def)
    ultimately show ?thesis using True Cons GetError_ok [OF Cons(4,7)]
      by (intro exI [of _ fl] exI [of _ q]) auto
  next
    case False
    then have q: "b \<in> set q" and io: "IOWait es (ATAHandler False c) b = Done (irqs', c')"
      using Cons(2,3,5) by simp_all
    from irq_step [OF Cons(4)] obtain fl1 where s: "cache_ok (ATAHandler False c) dl nl fl1 (tl q)"
      "content (ATAHandler False c) dl (tl q) = content c dl q"
      "keeps c fl q (ATAHandler False c) fl1 (tl q)" "key (ATAHandler False c) = key c"
      and p: "b \<notin> set (tl q) \<Longrightarrow> flagged (ATAHandler False c) b B_DONE \<and> agrees (ATAHandler False c) b \<and> b \<notin> set fl1 \<and>
        \<not> flagged (ATAHandler False c) b B_ASYNC"
      and r: "\<And>x. x \<in> set (tl q) \<Longrightarrow> b_flags (ATAHandler False c) x = b_flags c x"
      and m: "\<And>x. x \<in> set q \<Longrightarrow> x \<notin> set (tl q) \<Longrightarrow> flagged c x B_ASYNC \<Longrightarrow> x \<in> set fl1" "set fl \<subseteq> set fl1"
      using q Cons(6) by metis
    have oh: "only_holder c fl q b \<longrightarrow> only_holder (ATAHandler False c) fl1 (tl q) b"
      using only_holder_irq [OF _ m(2,1) r] by blast
    have "b \<in> set (tl q) \<or> held (ATAHandler False c) dl fl1 (tl q) b \<and> flagged (ATAHandler False c) b B_DONE \<and> agrees (ATAHandler False c) b"
      "\<not> flagged (ATAHandler False c) b B_ASYNC"
      by (cases "b \<in> set (tl q)"; use p r Cons(6,7) in \<open>simp add: held_def\<close>)+
    from Cons.IH [OF io _ s(1) this Cons(7)] Cons(3) obtain fl' q' where
      "cache_ok c' dl nl fl' q'" "held c' dl fl' q' b" "flagged c' b B_DONE" "agrees c' b" "\<not> flagged c' b B_ASYNC"
      "content c' dl q' = content (ATAHandler False c) dl (tl q)" "keeps (ATAHandler False c) fl1 (tl q) c' fl' q'"
      "key c' = key (ATAHandler False c)" "True \<notin> set irqs'"
      "only_holder (ATAHandler False c) fl1 (tl q) b \<longrightarrow> only_holder c' fl' q' b"
      by auto
    with s oh keeps_trans [OF s(3)] show ?thesis by (intro exI [of _ fl'] exI [of _ q']) auto
  qed
qed

lemma IOWait_returns:
  assumes "True \<notin> set irqs" "cache_ok c dl nl fl q" "b \<in> set q" "length q \<le> length irqs"
  shows "\<exists>r. IOWait irqs c b = Done r"
  using assms
proof (induction irqs arbitrary: c fl q)
  case (Cons e es)
  from irq_step [OF Cons(3)] obtain fl1 where s: "cache_ok (ATAHandler False c) dl nl fl1 (tl q)"
    and p: "b \<notin> set (tl q) \<Longrightarrow> flagged (ATAHandler False c) b B_DONE" using Cons(4) by metis
  show ?case
  proof (cases "b \<in> set (tl q)")
    case True
    with Cons.IH [OF _ s True] Cons(2,5) show ?thesis by auto
  next
    case False
    with p Cons(2) show ?thesis by (cases es) auto
  qed
qed simp

section \<open>Queueing a write\<close>

text \<open>The first half of \<open>Bwrite\<close>; \<open>m\<close> are flags set by the caller (\<open>B_ASYNC\<close> or none).\<close>

definition start_write :: "bcache \<Rightarrow> node \<Rightarrow> bcache" where
  "start_write c b =
     (let c = off_flags c b (B_READ OR B_DONE OR B_ERROR OR B_DELWRI)
      in Strategy (c\<lparr>b_wcount := (b_wcount c)(b := BUFFER_SIZE)\<rparr>) b)"

lemma Bwrite_start:
  "Bwrite irqs c b =
     (if \<not> flagged c b B_ASYNC
      then kbind (IOWait irqs (start_write c b) b) (\<lambda>(irqs, c). Done (irqs, Brelse c b))
      else Done (irqs, if flagged c b B_DELWRI then start_write c b else GetError (start_write c b) b))"
  by (simp add: Bwrite_def start_write_def Let_def)

lemma start_write_ok:
  assumes C: "cache_ok c0 dl nl fl q" and h: "held c0 dl fl q b"
    and c: "c = c0 \<or> c = or_flags c0 b B_ASYNC"
  shows "cache_ok (start_write c b) dl nl fl (q @ [b])"
    "content (start_write c b) dl (q @ [b]) = (content c0 dl q)(key c0 b := b_data c0 b)"
    "key (start_write c b) = key c0" "x \<noteq> b \<Longrightarrow> b_flags (start_write c b) x = b_flags c0 x"
    "flagged (start_write c b) b B_ASYNC = flagged c b B_ASYNC" "b_data (start_write c b) = b_data c0"
proof -
  let ?c = "off_flags c b (B_READ OR B_DONE OR B_ERROR OR B_DELWRI)"
  let ?d = "?c\<lparr>b_wcount := (b_wcount ?c)(b := BUFFER_SIZE)\<rparr>"
  have bb: "b \<in> buffers" "b \<notin> set fl" "b \<in> set dl" using h cache_buffer [OF C, of b] by (auto simp: held_def)
  have e: "start_write c b = Strategy ?d b" by (simp add: start_write_def Let_def)
  have u: "flagged c0 b B_BUSY" using C bb by (auto simp: cache_ok_def flags_ok_def)
  have n: "b_blkno ?d b < NSECTOR" using C bb c by (auto simp: cache_ok_def flags_ok_def)
  note f = Strategy_in_range [OF n]
  have F: "\<not> flagged ?d b B_DONE" "\<not> flagged ?d b B_DELWRI" "\<not> flagged ?d b B_ERROR" "flagged ?d b B_BUSY"
    "\<not> flagged ?d b B_READ" "flagged ?d b B_ASYNC = flagged c b B_ASYNC"
    using c u by (auto simp: flag_off flag_or has_clear_sub has_clear_other has_set B_defs)
  have O: "x \<noteq> b \<Longrightarrow> b_flags ?d x = b_flags c0 x \<and> b_data ?d x = b_data c0 x" for x
    using c by (auto simp: off_flags_def or_flags_def)
  have E: "b_dev ?d = b_dev c0" "b_blkno ?d = b_blkno c0" "platter ?d = platter c0"
      "b_forw ?d = b_forw c0" "b_back ?d = b_back c0" "av_forw ?d = av_forw c0" "av_back ?d = av_back c0"
      "d_actf ?d = d_actf c0" "d_actl ?d = d_actl c0" "d_active ?d = d_active c0" "b_data ?d = b_data c0"
    using c by auto
  show "cache_ok (start_write c b) dl nl fl (q @ [b])"
    unfolding e by (rule cache_Strategy(1) [OF C h E(1-10) O F(1-4)])
  show "content (start_write c b) dl (q @ [b]) = (content c0 dl q)(key c0 b := b_data c0 b)"
    using cache_Strategy(3) [OF C h E(1-10) O F(1-4) F(5)] unfolding e E(11) .
  show "key (start_write c b) = key c0" by (simp add: e key_def fun_eq_iff f E)
  show "x \<noteq> b \<Longrightarrow> b_flags (start_write c b) x = b_flags c0 x" unfolding e f by (rule O [THEN conjunct1])
  show "flagged (start_write c b) b B_ASYNC = flagged c b B_ASYNC" using F(6) by (simp only: e f)
  show "b_data (start_write c b) = b_data c0" by (simp only: e f E)
qed

section \<open>Getting a buffer\<close>

text \<open>Nobody holds a buffer and the interrupts suffice for all that is or will be queued.\<close>

definition quiet :: "bool list \<Rightarrow> bcache \<Rightarrow> node list \<Rightarrow> node list \<Rightarrow> bool" where
  "quiet irqs c fl q \<longleftrightarrow> buffers \<subseteq> set fl \<union> set q \<and> (\<forall>x\<in>set q. flagged c x B_ASYNC) \<and>
     dirty c fl + length q < length irqs"

text \<open>What \<open>GetBlk\<close> promises, for each way it can end.\<close>

definition obtained :: "bool list \<Rightarrow> bcache \<Rightarrow> node list \<Rightarrow> node list \<Rightarrow> node list \<Rightarrow> int \<times> int \<Rightarrow>
    (node \<times> bool list \<times> bcache) kcall \<Rightarrow> bool" where
  "obtained irqs c dl fl q k r \<longleftrightarrow>
     (case r of
        Done (b, irqs', c') \<Rightarrow>
          (\<exists>dl' nl' fl' q'. cache_ok c' dl' nl' fl' q' \<and> held c' dl' fl' q' b \<and> key c' b = k \<and>
             content c' dl' q' = content c dl q \<and> keeps c fl q c' fl' q' \<and> b \<in> set fl \<union> set q \<and>
             set dl \<subseteq> set dl' \<and> True \<notin> set irqs' \<and> \<not> flagged c' b B_ASYNC \<and> agrees c' b \<and>
             (quiet irqs c fl q \<longrightarrow> only_holder c' fl' q' b \<and> length q' < length irqs'))
      | Asleep \<Rightarrow> \<not> quiet irqs c fl q
      | Panic \<Rightarrow> False
      | Fault \<Rightarrow> False)"

lemma obtained_step:
  assumes "obtained irqs1 c1 dl fl1 q1 k r" "content c1 dl q1 = content c dl q" "keeps c fl q c1 fl1 q1"
    "quiet irqs c fl q \<Longrightarrow> quiet irqs1 c1 fl1 q1"
  shows "obtained irqs c dl fl q k r"
proof (cases r)
  case (Done x)
  obtain b irqs' c' where x: "x = (b, irqs', c')" by (cases x)
  from assms(1) Done x obtain dl' nl' fl' q' where
    "cache_ok c' dl' nl' fl' q'" "held c' dl' fl' q' b" "key c' b = k" "content c' dl' q' = content c1 dl q1"
    and kp: "keeps c1 fl1 q1 c' fl' q'" and bm: "b \<in> set fl1 \<union> set q1" and "set dl \<subseteq> set dl'" "True \<notin> set irqs'" "\<not> flagged c' b B_ASYNC" "agrees c' b"
    and q: "quiet irqs1 c1 fl1 q1 \<Longrightarrow> only_holder c' fl' q' b \<and> length q' < length irqs'"
    by (auto simp: obtained_def)
  moreover have "keeps c fl q c' fl' q'" by (rule keeps_trans [OF assms(3) kp])
  moreover have "set fl1 \<union> set q1 \<subseteq> set fl \<union> set q" using assms(3) unfolding keeps_def by (rule conjunct1)
  with bm have "b \<in> set fl \<union> set q" by (rule rev_subsetD)
  ultimately show ?thesis unfolding Done x obtained_def using assms(2,4)
    by (simp, intro exI [of _ dl'] exI [of _ nl'] exI [of _ fl'] exI [of _ q']) simp
next
  case Asleep
  with assms(1,4) show ?thesis by (auto simp: obtained_def)
qed (use assms(1) in \<open>simp_all add: obtained_def\<close>)

lemma wanted_flags: "k = B_DONE \<or> k = B_ERROR \<or> k = B_DELWRI \<or> k = B_READ \<or> k = B_BUSY \<or> k = B_ASYNC \<Longrightarrow>
   flagged (or_flags c b B_WANTED) x k = flagged c x k"
  by (auto simp: flag_or has_set B_defs)

lemma cache_wanted:
  assumes C: "cache_ok c dl nl fl q"
  shows "cache_ok (or_flags c b B_WANTED) dl nl fl q"
    "content (or_flags c b B_WANTED) dl q = content c dl q"
    "keeps c fl q (or_flags c b B_WANTED) fl q" "dirty (or_flags c b B_WANTED) fl = dirty c fl"
proof -
  have K: "key (or_flags c b B_WANTED) = key c" "sector (or_flags c b B_WANTED) = sector c"
    by (simp_all add: key_def sector_def fun_eq_iff)
  have R: "rings_ok (or_flags c b B_WANTED) dl nl fl q"
    using C by (cases q) (simp_all add: cache_ok_def rings_ok_def)
  moreover have "flags_ok (or_flags c b B_WANTED) dl nl fl q"
    using C by (simp add: cache_ok_def flags_ok_def wanted_flags K)
  ultimately show "cache_ok (or_flags c b B_WANTED) dl nl fl q" by (simp add: cache_ok_def)
  have "inj_on (key c) (set dl)" using C by (simp add: cache_ok_def flags_ok_def)
  then show "content (or_flags c b B_WANTED) dl q = content c dl q"
    by (intro content_cong) (simp_all add: K valid_buf_def wanted_flags)
  show "keeps c fl q (or_flags c b B_WANTED) fl q" "dirty (or_flags c b B_WANTED) fl = dirty c fl"
    by (simp_all add: keeps_def K wanted_flags dirty_def)
qed

text \<open>Sleeping for a buffer: one interrupt comes, then \<open>GetBlk\<close> starts again.\<close>

lemma sleep_step:
  fixes b :: node
  assumes C: "cache_ok c dl nl fl q"
  defines "c1 \<equiv> ATAHandler False (or_flags c b B_WANTED)"
  shows "\<exists>fl1. cache_ok c1 dl nl fl1 (tl q) \<and> content c1 dl (tl q) = content c dl q \<and>
    keeps c fl q c1 fl1 (tl q) \<and> dirty c1 fl1 = dirty c fl \<and>
    (q \<noteq> [] \<longrightarrow> quiet (e # es) c fl q \<longrightarrow> quiet es c1 fl1 (tl q))"
proof -
  let ?w = "or_flags c b B_WANTED" and ?c = "ATAHandler False (or_flags c b B_WANTED)"
  note w = cache_wanted [OF C, of b]
  from irq_step [OF w(1)] obtain fl1 where s: "cache_ok ?c dl nl fl1 (tl q)"
    "content ?c dl (tl q) = content ?w dl q" "keeps ?w fl q ?c fl1 (tl q)" "dirty ?c fl1 = dirty ?w fl"
    "\<And>x. x \<in> set q \<Longrightarrow> x \<notin> set (tl q) \<Longrightarrow> flagged ?w x B_ASYNC \<Longrightarrow> x \<in> set fl1"
    "\<And>x. x \<in> set (tl q) \<Longrightarrow> b_flags ?c x = b_flags ?w x" "set fl \<subseteq> set fl1"
    by (metis (no_types, lifting))
  have "quiet es ?c fl1 (tl q)" if q: "q \<noteq> []" "quiet (e # es) c fl q"
  proof -
    have "x \<in> set fl1 \<union> set (tl q)" if "x \<in> buffers" for x
      using that q s(5,7) by (auto simp: quiet_def wanted_flags)
    moreover have "flagged ?c x B_ASYNC" if "x \<in> set (tl q)" for x
      using that q s(6) list.set_sel(2) [OF q(1), of x] by (auto simp: quiet_def wanted_flags)
    moreover have "dirty ?c fl1 + length (tl q) < length es"
      using q s(4) w(4) by (cases q) (simp_all add: quiet_def)
    ultimately show ?thesis unfolding quiet_def by (intro conjI ballI subsetI)
  qed
  then show ?thesis using s w keeps_trans [OF w(3) s(3)]
    unfolding c1_def by (intro exI [of _ fl1]) simp
qed

text \<open>Taking a delayed buffer off the free ring: it is queued for the disk.\<close>

lemma evict_step:
  assumes C: "cache_ok c dl nl (as @ b # bs) q" and d: "flagged c b B_DELWRI"
  defines "c1 \<equiv> start_write (or_flags (NotAvail c b) b B_ASYNC) b"
  shows "Bwrite irqs (or_flags (NotAvail c b) b B_ASYNC) b = Done (irqs, c1)"
    "cache_ok c1 dl nl (as @ bs) (q @ [b])" "content c1 dl (q @ [b]) = content c dl q"
    "keeps c (as @ b # bs) q c1 (as @ bs) (q @ [b])" "Suc (dirty c1 (as @ bs)) = dirty c (as @ b # bs)"
    "flagged c1 b B_ASYNC" "\<forall>x\<in>set q. flagged c1 x B_ASYNC = flagged c x B_ASYNC"
proof -
  note n = cache_NotAvail [OF C]
  have F: "flagged (NotAvail c b) x k = flagged c x k" if "k = B_DONE \<or> k = B_DELWRI \<or> k = B_ASYNC" for x k
    using that by (auto simp: NotAvail_flags has_set B_defs)
  have g: "b \<in> buffers" "b \<in> set dl" "flagged c b B_DONE" "b \<notin> set (as @ bs)" "b \<notin> set q" "inj_on (key c) (set dl)"
    using C d ring_mem_buffers [of c dl nl "as @ b # bs" q] by (auto simp: cache_ok_def flags_ok_def rings_ok_def ring_def)
  have h: "held (NotAvail c b) dl (as @ bs) q b" using g by (simp add: held_def)
  note w = start_write_ok [OF n(1) h disjI2 [OF refl], folded c1_def]
  have a: "flagged (or_flags (NotAvail c b) b B_ASYNC) b B_ASYNC" "flagged (or_flags (NotAvail c b) b B_ASYNC) b B_DELWRI"
    using d by (simp_all add: flag_or has_set F) (simp add: B_defs)
  then show "Bwrite irqs (or_flags (NotAvail c b) b B_ASYNC) b = Done (irqs, c1)"
    by (simp add: Bwrite_start c1_def)
  show "cache_ok c1 dl nl (as @ bs) (q @ [b])" by (rule w(1))
  have "content c dl q (key c b) = b_data c b"
    using content_of [OF g(6,2) refl] g(3) by (simp add: valid_buf_def)
  then show "content c1 dl (q @ [b]) = content c dl q"
    using w(2) n(2) by (simp add: NotAvail_fields fun_upd_idem)
  have o: "flagged c1 x k = flagged c x k" if "x \<noteq> b" "k = B_DONE \<or> k = B_DELWRI \<or> k = B_ASYNC" for x k
    using w(4) [OF that(1)] F [OF that(2)] by simp
  show "keeps c (as @ b # bs) q c1 (as @ bs) (q @ [b])"
    using o by (auto simp: keeps_def w(3,6) NotAvail_fields)
  have "filter (\<lambda>x. flagged c1 x B_DELWRI) xs = filter (\<lambda>x. flagged c x B_DELWRI) xs" if "b \<notin> set xs" for xs
    using that o by (intro filter_cong refl) metis
  from this [of as] this [of bs] have "filter (\<lambda>x. flagged c1 x B_DELWRI) as = filter (\<lambda>x. flagged c x B_DELWRI) as"
    "filter (\<lambda>x. flagged c1 x B_DELWRI) bs = filter (\<lambda>x. flagged c x B_DELWRI) bs" using g(4) by simp_all
  then show "Suc (dirty c1 (as @ bs)) = dirty c (as @ b # bs)" using d by (simp add: dirty_def)
  show "flagged c1 b B_ASYNC" using w(5) a(1) by simp
  show "\<forall>x\<in>set q. flagged c1 x B_ASYNC = flagged c x B_ASYNC" using g(5) o by metis
qed

lemma free_first: "ring fw bk FreeL fl \<Longrightarrow> fw FreeL = (case fl of [] \<Rightarrow> FreeL | b # _ \<Rightarrow> b)"
  using ring_first [of fw bk FreeL fl] by (cases fl) simp_all

lemma GetBlk_loop_ok:
  assumes "cache_ok c dl nl fl q" "True \<notin> set irqs" "0 \<le> dev" "dev < 256" "blkno < NSECTOR"
    "dirty c fl + length irqs < n"
  shows "obtained irqs c dl fl q (dev, blkno) (GetBlk_loop n irqs c dev blkno)"
  using assms
proof (induction n arbitrary: irqs c fl q)
  case (Suc n)
  note C = Suc.prems(1)
  have R: "rings_ok c dl nl fl q" and G: "flags_ok c dl nl fl q" using C by (simp_all add: cache_ok_def)
  have fr: "ring (av_forw c) (av_back c) FreeL fl" using R by (simp add: rings_ok_def)
  have nofree: "av_forw c FreeL = FreeL \<longleftrightarrow> fl = []"
    using free_first [OF fr] fr by (cases fl) (auto simp: ring_def)
  have dev: "\<not> dev < 0" using Suc.prems(3) by simp
  have sleep: "obtained irqs c dl fl q (dev, blkno) (case irqs of [] \<Rightarrow> Asleep
      | e # es \<Rightarrow> GetBlk_loop n es (ATAHandler e (or_flags c x B_WANTED)) dev blkno)"
    if a: "quiet irqs c fl q \<Longrightarrow> q \<noteq> []" for x
  proof (cases irqs)
    case Nil
    with a show ?thesis by (auto simp: obtained_def quiet_def)
  next
    case (Cons e es)
    let ?c1 = "ATAHandler False (or_flags c x B_WANTED)"
    obtain fl1 where s: "cache_ok ?c1 dl nl fl1 (tl q)"
      "content ?c1 dl (tl q) = content c dl q" "keeps c fl q ?c1 fl1 (tl q)" "dirty ?c1 fl1 = dirty c fl"
      "q \<noteq> [] \<Longrightarrow> quiet (e # es) c fl q \<Longrightarrow> quiet es ?c1 fl1 (tl q)"
      using sleep_step [OF C, of x e es] by blast
    have "obtained es ?c1 dl fl1 (tl q) (dev, blkno) (GetBlk_loop n es ?c1 dev blkno)"
      using Suc.prems Cons s(4) by (intro Suc.IH s(1)) auto
    moreover have "quiet es ?c1 fl1 (tl q)" if "quiet irqs c fl q"
      using s(5) [OF a] that Cons by simp
    ultimately have "obtained irqs c dl fl q (dev, blkno) (GetBlk_loop n es ?c1 dev blkno)"
      using obtained_step [OF _ s(2,3)] by simp
    moreover have "e = False" using Suc.prems(2) Cons by simp
    ultimately show ?thesis using Cons by simp
  qed
  show ?case
  proof (cases "InCore c dev blkno")
    case (Some b)
    note k = InCore_Some [OF R Some]
    have bb: "b \<in> buffers" using cache_buffer [OF C] k(1) by simp
    show ?thesis
    proof (cases "b \<in> set fl")
      case True
      then have nb: "\<not> flagged c b B_BUSY" "\<not> flagged c b B_ASYNC" using G bb by (auto simp: flags_ok_def)
      from True obtain as bs where f: "fl = as @ b # bs" by (auto dest: split_list)
      note n = cache_NotAvail [OF C [unfolded f]]
      have d: "b \<notin> set as" "b \<notin> set bs" "b \<notin> set q" using fr f R True by (auto simp: ring_def rings_ok_def)
      have "held (NotAvail c b) dl (as @ bs) q b" "key (NotAvail c b) b = (dev, blkno)"
        using k d by (auto simp: held_def NotAvail_fields)
      moreover have "keeps c fl q (NotAvail c b) (as @ bs) q"
        using f by (auto simp: keeps_def NotAvail_fields NotAvail_flags)
      moreover have "agrees (NotAvail c b) b"
        using G True k(1) by (auto simp: agrees_def flags_ok_def NotAvail_fields NotAvail_flags has_set B_defs)
      moreover have "\<not> flagged (NotAvail c b) b B_ASYNC" "\<forall>x\<in>set q. flagged (NotAvail c b) x B_ASYNC = flagged c x B_ASYNC"
        using nb(2) d(3) by (auto simp: NotAvail_flags has_set B_defs)
      ultimately show ?thesis using Some dev nb(1) n f Suc.prems(2)
        by (simp add: obtained_def quiet_def only_holder_def, intro exI [of _ dl] exI [of _ nl] exI [of _ "as @ bs"] exI [of _ q]) auto
    next
      case False
      then have "flagged c b B_BUSY" using G bb by (simp add: flags_ok_def)
      moreover have "q \<noteq> []" if "quiet irqs c fl q" using that False bb by (auto simp: quiet_def)
      ultimately show ?thesis using Some dev sleep [of b] by simp
    qed
  next
    case None
    note k = InCore_None [OF R None]
    show ?thesis
    proof (cases fl)
      case Nil
      have "Bp 0 \<in> buffers" by (simp add: buffers_def NBUF_def)
      then have "q \<noteq> []" if "quiet irqs c fl q" using that Nil by (auto simp: quiet_def)
      then show ?thesis using None dev sleep [of FreeL] nofree Nil by simp
    next
      case (Cons b bs)
      have hd: "av_forw c FreeL = b" using free_first [OF fr] Cons by simp
      have bm: "b \<in> buffers" "b \<notin> set bs" "b \<notin> set q" using R Cons by (auto simp: rings_ok_def ring_def)
      show ?thesis
      proof (cases "flagged c b B_DELWRI")
        case True
        let ?c = "start_write (or_flags (NotAvail c b) b B_ASYNC) b"
        note e = evict_step [of c dl nl "[]" b bs q, unfolded append_Nil, OF C [unfolded Cons] True]
        have "obtained irqs ?c dl bs (q @ [b]) (dev, blkno) (GetBlk_loop n irqs ?c dev blkno)"
          using Suc.prems e(5) Cons by (intro Suc.IH e(2)) auto
        moreover have "quiet irqs ?c bs (q @ [b])" if "quiet irqs c fl q"
          using that e(5-7) Cons by (auto simp: quiet_def)
        ultimately have "obtained irqs c dl fl q (dev, blkno) (GetBlk_loop n irqs ?c dev blkno)"
          using obtained_step [OF _ e(3,4) [folded Cons]] by simp
        moreover have "flagged (NotAvail c b) b B_DELWRI" using True by (auto simp: NotAvail_flags has_set)
        ultimately show ?thesis using None dev hd nofree Cons e(1) by (simp add: Let_def)
      next
        case False
        note n = cache_NotAvail [of c dl nl "[]" b bs q, unfolded append_Nil, OF C [unfolded Cons]]
        have nd: "\<not> flagged (NotAvail c b) b B_DELWRI" using False by (simp add: NotAvail_flags has_set B_defs)
        let ?c = "reassign (NotAvail c b) b dev blkno"
        have v: "b_data (NotAvail c b) b = sector (NotAvail c b) (key (NotAvail c b) b)"
          if "b \<in> set dl" "flagged (NotAvail c b) b B_DONE"
          using that G False Cons by (simp add: flags_ok_def NotAvail_fields NotAvail_flags has_set B_defs)
        note r = cache_reassign [OF n(1) bm Suc.prems(3-5) _ v]
        have r1: "cache_ok ?c (b # removeAll b dl) (removeAll b nl) bs q"
          "content ?c (b # removeAll b dl) q = content c dl q" "key ?c b = (dev, blkno)"
          using r k n(2) by (simp_all add: NotAvail_fields)
        have F: "b_flags ?c x = (if x = b then B_BUSY else b_flags c x)" "b_data ?c = b_data c"
          "x \<noteq> b \<Longrightarrow> key ?c x = key c x" for x
          by (simp_all add: reassign_def Let_def NotAvail_def or_flags_def key_def)
        have "held ?c (b # removeAll b dl) bs q b" using bm by (simp add: held_def)
        moreover have "keeps c fl q ?c bs q" using Cons by (auto simp: keeps_def F)
        moreover have "\<not> flagged ?c b B_ASYNC" "agrees ?c b" by (simp_all add: agrees_def F has_flag_def B_defs)
        moreover have "\<forall>x\<in>set q. flagged ?c x B_ASYNC = flagged c x B_ASYNC" using bm(3) by (auto simp: F)
        ultimately have "obtained irqs c dl fl q (dev, blkno) (Done (b, irqs, ?c))"
          unfolding obtained_def kcall.case prod.case
          using r1 Cons Suc.prems(2)
          by (intro exI [of _ "b # removeAll b dl"] exI [of _ "removeAll b nl"] exI [of _ bs] exI [of _ q]) (auto simp: quiet_def only_holder_def)
        then show ?thesis using None dev hd nofree Cons nd by (simp add: Let_def)
      qed
    qed
  qed
qed simp

end
