(* ===== verification/BufStore.thy ===== *)
theory BufStore
  imports BufSpec
begin

text \<open>
  The buffer cache as an array of blocks: the interface \<open>block_array\<close> that a client of the cache may
  assume, the reading, writing and flushing calls, and the proof that they provide it.
\<close>

section \<open>Reading\<close>

lemma GetBlk_ok:
  assumes C: "cache_ok c dl nl fl q" and i: "True \<notin> set irqs" and k: "0 \<le> dev" "dev < 256" "blkno < NSECTOR"
  shows "obtained irqs c dl fl q (dev, blkno) (GetBlk irqs c dev blkno)"
proof -
  have "rings_ok c dl nl fl q" using C by (simp add: cache_ok_def)
  then have "dirty c fl \<le> NBUF" using length_dl(2) length_filter_le le_trans unfolding dirty_def by blast
  then have "dirty c fl + length irqs < length irqs + NBUF + 1" by simp
  from GetBlk_loop_ok [OF C i k this] k show ?thesis
    by (simp add: GetBlk_def NBLKDEV_def div_pos_pos_trivial)
qed

lemma start_read_ok:
  assumes C: "cache_ok c0 dl nl fl q" and h: "held c0 dl fl q b" "\<not> flagged c0 b B_DONE"
    "\<not> flagged c0 b B_ASYNC"
  shows "cache_ok (start_read c0 b B_READ) dl nl fl (q @ [b])"
    "content (start_read c0 b B_READ) dl (q @ [b]) = content c0 dl q"
    "key (start_read c0 b B_READ) = key c0" "\<not> flagged (start_read c0 b B_READ) b B_ASYNC"
    "keeps c0 fl (b # q) (start_read c0 b B_READ) fl (q @ [b])"
    "x \<noteq> b \<Longrightarrow> b_flags (start_read c0 b B_READ) x = b_flags c0 x"
proof -
  let ?c = "or_flags c0 b B_READ"
  let ?d = "?c\<lparr>b_wcount := (b_wcount ?c)(b := BUFFER_SIZE)\<rparr>"
  have bb: "b \<in> buffers" "b \<notin> set fl" "b \<in> set dl" using h cache_buffer [OF C, of b] by (auto simp: held_def)
  have e: "start_read c0 b B_READ = Strategy ?d b" by (simp add: start_read_def Let_def)
  have G: "flags_ok c0 dl nl fl q" using C by (simp add: cache_ok_def)
  have u: "flagged c0 b B_BUSY" "\<not> flagged c0 b B_ERROR" "\<not> flagged c0 b B_DELWRI"
    using G bb h by (auto simp: flags_ok_def)
  have n: "b_blkno ?d b < NSECTOR" using G bb by (simp add: flags_ok_def)
  note f = Strategy_in_range [OF n]
  have F: "\<not> flagged ?d b B_DONE" "\<not> flagged ?d b B_DELWRI" "\<not> flagged ?d b B_ERROR" "flagged ?d b B_BUSY"
    "flagged ?d b B_READ" "\<not> flagged ?d b B_ASYNC"
    using u h by (auto simp: flag_or has_set B_defs)
  have O: "x \<noteq> b \<Longrightarrow> b_flags ?d x = b_flags c0 x \<and> b_data ?d x = b_data c0 x" for x
    by (simp add: or_flags_def)
  have E: "b_dev ?d = b_dev c0" "b_blkno ?d = b_blkno c0" "platter ?d = platter c0"
      "b_forw ?d = b_forw c0" "b_back ?d = b_back c0" "av_forw ?d = av_forw c0" "av_back ?d = av_back c0"
      "d_actf ?d = d_actf c0" "d_actl ?d = d_actl c0" "d_active ?d = d_active c0" "b_data ?d = b_data c0"
    by auto
  show "cache_ok (start_read c0 b B_READ) dl nl fl (q @ [b])"
    unfolding e by (rule cache_Strategy(1) [OF C h(1) E(1-10) O F(1-4)])
  show "content (start_read c0 b B_READ) dl (q @ [b]) = content c0 dl q"
    unfolding e by (rule cache_Strategy(2) [OF C h(1) E(1-10) O F(1-4) F(5) h(2)])
  show k: "key (start_read c0 b B_READ) = key c0" by (simp add: e key_def fun_eq_iff f E)
  show "\<not> flagged (start_read c0 b B_READ) b B_ASYNC" unfolding e f by (rule F(6))
  show o: "b_flags (start_read c0 b B_READ) x = b_flags c0 x" if "x \<noteq> b" for x
    unfolding e f using O [OF that] by (rule conjunct1)
  have "b_data (start_read c0 b B_READ) = b_data c0" by (simp only: e f E)
  with k o show "keeps c0 fl (b # q) (start_read c0 b B_READ) fl (q @ [b])"
    by (auto simp: keeps_def)
qed

text \<open>The result of a read: a held, valid buffer for the block, everything else as before.\<close>

definition has_read :: "bool list \<Rightarrow> bcache \<Rightarrow> node list \<Rightarrow> node list \<Rightarrow> node list \<Rightarrow> int \<times> int \<Rightarrow>
    (node \<times> bool list \<times> bcache) kcall \<Rightarrow> bool" where
  "has_read irqs c dl fl q k r \<longleftrightarrow>
     (case r of
        Done (b, irqs', c') \<Rightarrow>
          b_data c' b = content c dl q k \<and> b \<in> set fl \<union> set q \<and>
          (\<exists>dl' nl' fl' q'. cache_ok c' dl' nl' fl' q' \<and> held c' dl' fl' q' b \<and> key c' b = k \<and>
             content c' dl' q' = content c dl q \<and> keeps c fl q c' fl' q' \<and> flagged c' b B_DONE \<and>
             agrees c' b \<and> \<not> flagged c' b B_ASYNC \<and> True \<notin> set irqs' \<and>
             (quiet irqs c fl q \<longrightarrow> only_holder c' fl' q' b))
      | Asleep \<Rightarrow> \<not> quiet irqs c fl q
      | Panic \<Rightarrow> False
      | Fault \<Rightarrow> False)"

lemma content_held:
  assumes "cache_ok c dl nl fl q" "b \<in> set dl" "flagged c b B_DONE"
  shows "content c dl q (key c b) = b_data c b"
  using assms content_of [of c dl b "key c b" q] by (simp add: cache_ok_def flags_ok_def valid_buf_def)

lemma IOWait_ends: "IOWait irqs c b \<noteq> Panic" "IOWait irqs c b \<noteq> Fault"
  by (induction irqs c b rule: IOWait.induct) simp_all

lemma Bread_ok:
  assumes C: "cache_ok c dl nl fl q" and i: "True \<notin> set irqs" and k: "0 \<le> dev" "dev < 256" "blkno < NSECTOR"
  shows "has_read irqs c dl fl q (dev, blkno) (Bread irqs c dev blkno)"
proof (cases "GetBlk irqs c dev blkno")
  case (Done x)
  obtain b irqs1 c1 where x: "x = (b, irqs1, c1)" by (cases x)
  note g = GetBlk_ok [OF C i k]
  from g Done x obtain dl1 nl1 fl1 q1 where
    g1: "cache_ok c1 dl1 nl1 fl1 q1" "held c1 dl1 fl1 q1 b" "key c1 b = (dev, blkno)"
      "content c1 dl1 q1 = content c dl q" "keeps c fl q c1 fl1 q1" "b \<in> set fl \<union> set q" "True \<notin> set irqs1"
      "\<not> flagged c1 b B_ASYNC" "agrees c1 b"
    and qu: "quiet irqs c fl q \<Longrightarrow> only_holder c1 fl1 q1 b \<and> length q1 < length irqs1"
    by (auto simp: obtained_def)
  have bd: "b \<in> set dl1" "b \<notin> set fl1" "b \<notin> set q1" using g1(2) by (simp_all add: held_def)
  show ?thesis
  proof (cases "flagged c1 b B_DONE")
    case True
    then have "Bread irqs c dev blkno = Done (b, irqs1, c1)" using Done x by (simp add: Bread_def)
    moreover have "b_data c1 b = content c dl q (dev, blkno)"
      using content_held [OF g1(1) bd(1) True] g1(3,4) by simp
    ultimately show ?thesis using g1 qu True unfolding has_read_def
      by (simp, intro exI [of _ dl1] exI [of _ nl1] exI [of _ fl1] exI [of _ q1]) simp
  next
    case False
    note s = start_read_ok [OF g1(1,2) False g1(8)]
    let ?c = "start_read c1 b B_READ"
    have r: "Bread irqs c dev blkno = kbind (IOWait irqs1 ?c b) (\<lambda>(irqs, c). Done (b, irqs, c))"
      using Done x False k(1) by (simp add: Bread_def)
    have oh: "only_holder ?c fl1 (q1 @ [b]) b" if "quiet irqs c fl q"
    proof -
      have "b_flags ?c x = b_flags c1 x" if "x \<in> set q1" for x
        using bd(3) that by (intro s(6)) auto
      then show ?thesis using qu [OF that] by (auto simp: only_holder_def)
    qed
    show ?thesis
    proof (cases "IOWait irqs1 ?c b")
      case (Done y)
      obtain irqs2 c2 where y: "y = (irqs2, c2)" by (cases y)
      from IOWait_ok [OF Done [unfolded y] g1(7) s(1) _ s(4) bd(1)] obtain fl2 q2 where
        w: "cache_ok c2 dl1 nl1 fl2 q2" "held c2 dl1 fl2 q2 b" "flagged c2 b B_DONE" "agrees c2 b"
          "\<not> flagged c2 b B_ASYNC" "content c2 dl1 q2 = content ?c dl1 (q1 @ [b])" "keeps ?c fl1 (q1 @ [b]) c2 fl2 q2"
          "key c2 = key ?c" "True \<notin> set irqs2" "only_holder ?c fl1 (q1 @ [b]) b \<longrightarrow> only_holder c2 fl2 q2 b"
        by auto
      have "b_data c2 b = content c dl q (dev, blkno)"
        using content_held [OF w(1) bd(1) w(3)] w(6,8) s(2,3) g1(3,4) by simp
      moreover have "keeps c fl q c2 fl2 q2"
      proof -
        have n: "set fl2 \<union> set q2 \<subseteq> set fl1 \<union> set q1"
          using w(2,7) by (auto simp: keeps_def held_def)
        have m: "set fl1 \<union> set q1 \<subseteq> set fl \<union> set q" using g1(5) by (simp add: keeps_def)
        have o: "x \<in> buffers - (set fl1 \<union> set q1)" "x \<in> buffers - (set fl1 \<union> set (b # q1))"
            "x \<in> buffers - (set fl1 \<union> set (q1 @ [b]))"
          if "x \<in> buffers - (set fl \<union> set q)" for x
          using that m g1(6) by auto
        show ?thesis unfolding keeps_def
        proof (intro conjI)
          show "set fl2 \<union> set q2 \<subseteq> set fl \<union> set q" using n m by blast
          show "\<forall>x\<in>buffers - (set fl \<union> set q). b_data c2 x = b_data c x \<and> key c2 x = key c x \<and>
             flagged c2 x B_DONE = flagged c x B_DONE \<and> flagged c2 x B_DELWRI = flagged c x B_DELWRI"
            using g1(5) s(5) w(7) o unfolding keeps_def by auto
        qed
      qed
      ultimately have "has_read irqs c dl fl q (dev, blkno) (Done (b, irqs2, c2))"
        unfolding has_read_def using w s g1 oh
        by (simp, intro exI [of _ dl1] exI [of _ nl1] exI [of _ fl2] exI [of _ q2]) simp
      then show ?thesis using r Done y by simp
    next
      case Asleep
      have "\<not> quiet irqs c fl q"
      proof
        assume a: "quiet irqs c fl q"
        from IOWait_returns [OF g1(7) s(1), of b] qu [OF a] Asleep show False by simp
      qed
      with r Asleep show ?thesis by (simp add: has_read_def)
    qed (use IOWait_ends in \<open>simp_all\<close>)
  qed
qed (use GetBlk_ok [OF C i k] in \<open>simp_all add: obtained_def has_read_def Bread_def\<close>)

section \<open>Writing\<close>

text \<open>The caller fills a buffer it holds; what it holds is its own until it is released or written.\<close>

definition fill :: "bcache \<Rightarrow> node \<Rightarrow> u8 list \<Rightarrow> bcache" where
  "fill c b d = c\<lparr>b_data := (b_data c)(b := d)\<rparr>"

lemma fill_fields:
  "b_flags (fill c b d) = b_flags c" "key (fill c b d) = key c" "sector (fill c b d) = sector c"
  "b_data (fill c b d) x = (if x = b then d else b_data c x)"
  "b_dev (fill c b d) = b_dev c" "b_blkno (fill c b d) = b_blkno c"
  by (simp_all add: fill_def key_def sector_def fun_eq_iff)

lemma fill_ok:
  assumes C: "cache_ok c dl nl fl q" and h: "held c dl fl q b"
  shows "cache_ok (fill c b d) dl nl fl q" "held (fill c b d) dl fl q b"
proof -
  have "rings_ok (fill c b d) dl nl fl q"
    using C by (cases q) (simp_all add: cache_ok_def rings_ok_def fill_def)
  moreover have "flags_ok (fill c b d) dl nl fl q"
    using C h by (auto simp: cache_ok_def flags_ok_def fill_fields held_def)
  ultimately show "cache_ok (fill c b d) dl nl fl q" by (simp add: cache_ok_def)
  show "held (fill c b d) dl fl q b" using h by (simp add: held_def)
qed

lemma content_fill:
  assumes C: "cache_ok c dl nl fl q" and h: "held c dl fl q b"
  shows "(content (fill c b d) dl q)(key c b := v) = (content c dl q)(key c b := v)"
proof
  fix k
  have i: "inj_on (key c) (set dl)" "inj_on (key (fill c b d)) (set dl)"
    using C by (simp_all add: cache_ok_def flags_ok_def fill_fields)
  show "((content (fill c b d) dl q)(key c b := v)) k = ((content c dl q)(key c b := v)) k"
  proof (cases "k \<in> key c ` set dl")
    case True
    then obtain x where x: "x \<in> set dl" "key c x = k" by auto
    have "content (fill c b d) dl q k = content c dl q k" if "k \<noteq> key c b"
      using content_of [OF i(1) x, of q] content_of [OF i(2) x(1), of k q] x(2) that
      by (auto simp: fill_fields valid_buf_def)
    then show ?thesis by simp
  next
    case False
    moreover from this have "k \<notin> key (fill c b d) ` set dl" by (simp add: fill_fields)
    ultimately show ?thesis by (simp add: content_none fill_fields)
  qed
qed

lemma delay_ok:
  assumes C: "cache_ok c dl nl fl q" and h: "held c dl fl q b"
  shows "cache_ok (or_flags c b (B_DELWRI OR B_DONE)) dl nl fl q"
    "content (or_flags c b (B_DELWRI OR B_DONE)) dl q = (content c dl q)(key c b := b_data c b)"
proof -
  let ?c = "or_flags c b (B_DELWRI OR B_DONE)"
  have K: "key ?c = key c" "sector ?c = sector c" by (simp_all add: key_def sector_def fun_eq_iff)
  have F: "flagged ?c x k = (flagged c x k \<or> x = b \<and> (k = B_DONE \<or> k = B_DELWRI))"
    if "k = B_DONE \<or> k = B_ERROR \<or> k = B_DELWRI \<or> k = B_READ \<or> k = B_BUSY \<or> k = B_ASYNC" for x k
    using that by (auto simp: flag_or has_set B_defs)
  have ne: "B_ERROR \<noteq> B_DONE" "B_BUSY \<noteq> B_DONE" "B_ASYNC \<noteq> B_DONE" "B_READ \<noteq> B_DONE"
    "B_ERROR \<noteq> B_DELWRI" "B_BUSY \<noteq> B_DELWRI" "B_ASYNC \<noteq> B_DELWRI" "B_READ \<noteq> B_DELWRI"
    by (simp_all add: B_defs)
  have b: "b \<in> set dl" "b \<notin> set fl" "b \<notin> set q" using h by (simp_all add: held_def)
  have G: "flags_ok c dl nl fl q" using C by (simp add: cache_ok_def)
  have "rings_ok ?c dl nl fl q" using C by (cases q) (simp_all add: cache_ok_def rings_ok_def)
  moreover have "flags_ok ?c dl nl fl q"
    unfolding flags_ok_def K buf_fields
    using G b by (auto simp: flags_ok_def F ne)
  ultimately show "cache_ok ?c dl nl fl q" by (simp add: cache_ok_def)
  have i: "inj_on (key c) (set dl)" "inj_on (key ?c) (set dl)" using G by (simp_all add: flags_ok_def K)
  show "content ?c dl q = (content c dl q)(key c b := b_data c b)"
  proof
    fix k
    show "content ?c dl q k = ((content c dl q)(key c b := b_data c b)) k"
    proof (cases "k \<in> key c ` set dl")
      case True
      then obtain x where x: "x \<in> set dl" "key c x = k" by auto
      have "x = b \<longleftrightarrow> k = key c b" using x b(1) i(1) by (auto dest: inj_onD)
      then show ?thesis using content_of [OF i(1) x, of q] content_of [OF i(2) x(1), of k q] x
        by (auto simp: K valid_buf_def F ne)
    next
      case False
      then have "k \<noteq> key c b" using b(1) by auto
      with False show ?thesis by (simp add: content_none K)
    qed
  qed
qed

text \<open>The three ways of writing a filled buffer.\<close>

datatype write_mode = Sync | Async | Delayed

definition write_out :: "write_mode \<Rightarrow> bool list \<Rightarrow> bcache \<Rightarrow> node \<Rightarrow> (bool list \<times> bcache) kcall" where
  "write_out m irqs c b =
     (case m of Sync \<Rightarrow> Bwrite irqs c b | Async \<Rightarrow> Bawrite irqs c b | Delayed \<Rightarrow> Done (irqs, Bdwrite c b))"

text \<open>Nobody holds a buffer.\<close>

definition idle :: "bcache \<Rightarrow> node list \<Rightarrow> node list \<Rightarrow> bool" where
  "idle c fl q \<longleftrightarrow> buffers \<subseteq> set fl \<union> set q \<and> (\<forall>x\<in>set q. flagged c x B_ASYNC)"

definition has_written :: "bool list \<Rightarrow> bcache \<Rightarrow> node list \<Rightarrow> node list \<Rightarrow> node list \<Rightarrow> node list \<Rightarrow> node \<Rightarrow> u8 list \<Rightarrow>
    (bool list \<times> bcache) kcall \<Rightarrow> bool" where
  "has_written irqs c dl nl fl q b d r \<longleftrightarrow>
     (case r of
        Done (irqs', c') \<Rightarrow>
          (\<exists>fl' q'. cache_ok c' dl nl fl' q' \<and> content c' dl q' = (content c dl q)(key c b := d) \<and>
             True \<notin> set irqs' \<and> (only_holder c fl q b \<longrightarrow> idle c' fl' q'))
      | Asleep \<Rightarrow> length irqs \<le> length q
      | Panic \<Rightarrow> False
      | Fault \<Rightarrow> False)"

lemma Brelse_idle:
  assumes "only_holder c fl q b" "held c dl fl q b" "cache_ok c dl nl fl q"
  shows "idle (Brelse c b) (fl @ [b]) q"
proof -
  have b: "b \<in> buffers" "b \<notin> set q" using cache_buffer [OF assms(3)] assms(2) by (simp_all add: held_def)
  have "x \<noteq> FreeL \<and> x \<noteq> b" if "x \<in> set q" for x
    using that b(2) cache_buffer [OF assms(3), of x] buffer_node [of x] by auto
  then show ?thesis using assms(1) buffer_node [OF b(1)]
    by (auto simp: idle_def only_holder_def Brelse_flags)
qed

lemma write_out_ok:
  assumes C: "cache_ok c dl nl fl q" and h: "held c dl fl q b" and a: "\<not> flagged c b B_ASYNC"
    and i: "True \<notin> set irqs"
  shows "has_written irqs c dl nl fl q b d (write_out m irqs (fill c b d) b)"
proof (cases m)
  case Delayed
  let ?f = "fill c b d" let ?c = "or_flags (fill c b d) b (B_DELWRI OR B_DONE)"
  note f = fill_ok [OF C h, of d]
  note e = delay_ok [OF f]
  have h1: "held ?c dl fl q b" using h by (simp add: held_def)
  have dw: "flagged ?c b B_DELWRI" by (simp add: flag_or has_set B_defs)
  note r = cache_Brelse [OF e(1) h1] dw
  have "content (Brelse ?c b) dl q = (content c dl q)(key c b := d)"
    using r e(2) content_fill [OF C h, of d d] by (simp add: fill_fields)
  moreover have "only_holder ?c fl q b" if "only_holder c fl q b"
    using that h by (auto simp: only_holder_def held_def flag_or fill_fields)
  ultimately show ?thesis
    unfolding has_written_def write_out_def Delayed Bdwrite_def
    using r i Brelse_idle [OF _ h1 e(1)]
    by (simp, intro exI [of _ "fl @ [b]"] exI [of _ q]) simp
next
  case Async
  let ?f = "fill c b d" let ?g = "or_flags (fill c b d) b B_ASYNC"
  note f = fill_ok [OF C h, of d]
  note w = start_write_ok [OF f disjI2 [OF refl]]
  have as: "flagged ?g b B_ASYNC" by (simp add: flag_or has_set B_defs)
  have bd: "b \<in> set dl" using h by (simp add: held_def)
  have "write_out m irqs ?f b = Done (irqs, start_write ?g b)"
    using as GetError_ok [OF w(1) bd] by (simp add: write_out_def Async Bawrite_def Bwrite_start)
  moreover have "content (start_write ?g b) dl (q @ [b]) = (content c dl q)(key c b := d)"
    using w(2) content_fill [OF C h, of d d] by (simp add: fill_fields)
  moreover have "idle (start_write ?g b) fl (q @ [b])" if "only_holder c fl q b"
  proof -
    have "b_flags (start_write ?g b) x = b_flags c x" if "x \<in> set q" for x
      using w(4) [of x] that h by (auto simp: held_def fill_fields)
    then show ?thesis using that w(5) as h by (auto simp: idle_def only_holder_def held_def)
  qed
  ultimately show ?thesis unfolding has_written_def using w(1) i
    by (simp, intro exI [of _ fl] exI [of _ "q @ [b]"]) simp
next
  case Sync
  let ?f = "fill c b d" let ?g = "start_write (fill c b d) b"
  note f = fill_ok [OF C h, of d]
  note w = start_write_ok [OF f disjI1 [OF refl]]
  have na: "\<not> flagged ?f b B_ASYNC" "\<not> flagged ?g b B_ASYNC" using a w(5) by (simp_all add: fill_fields)
  have bd: "b \<in> set dl" using h by (simp add: held_def)
  have r: "write_out m irqs ?f b = kbind (IOWait irqs ?g b) (\<lambda>(irqs, c). Done (irqs, Brelse c b))"
    using na by (simp add: write_out_def Sync Bwrite_start)
  have oh: "only_holder ?g fl (q @ [b]) b" if "only_holder c fl q b"
  proof -
    have "b_flags ?g x = b_flags c x" if "x \<in> set q" for x
      using w(4) [of x] that h by (auto simp: held_def fill_fields)
    then show ?thesis using that by (auto simp: only_holder_def)
  qed
  show ?thesis
  proof (cases "IOWait irqs ?g b")
    case (Done y)
    obtain irqs2 c2 where y: "y = (irqs2, c2)" by (cases y)
    from IOWait_ok [OF Done [unfolded y] i w(1) _ na(2) bd] obtain fl2 q2 where
      v: "cache_ok c2 dl nl fl2 q2" "held c2 dl fl2 q2 b" "flagged c2 b B_DONE" "agrees c2 b"
        "content c2 dl q2 = content ?g dl (q @ [b])" "True \<notin> set irqs2"
        "only_holder ?g fl (q @ [b]) b \<longrightarrow> only_holder c2 fl2 q2 b"
      by auto
    note b = cache_Brelse [OF v(1,2)] v(4) [unfolded agrees_def]
    have "content (Brelse c2 b) dl q2 = (content c dl q)(key c b := d)"
      using b v(5) w(2) content_fill [OF C h, of d d] by (simp add: fill_fields)
    then have "has_written irqs c dl nl fl q b d (Done (irqs2, Brelse c2 b))"
      unfolding has_written_def using v(6,7) oh b Brelse_idle [OF _ v(2,1)]
      by (simp, intro exI [of _ "fl2 @ [b]"] exI [of _ q2]) simp
    with r Done y show ?thesis by simp
  next
    case Asleep
    then have "length irqs \<le> length q" using IOWait_returns [OF i w(1), of b] by fastforce
    with r Asleep show ?thesis by (simp add: has_written_def)
  qed (use IOWait_ends in \<open>simp_all\<close>)
qed

section \<open>The interface of the cache\<close>

text \<open>
  What the file system may assume: \<open>rep s m\<close> says that the state \<open>s\<close> holds the array \<open>m\<close>; reading and
  writing return and act on the array.  \<open>env\<close> describes what may happen while a call sleeps.
\<close>

locale block_array =
  fixes rep :: "'s \<Rightarrow> ('k \<Rightarrow> 'd) \<Rightarrow> bool"
    and rd :: "'i \<Rightarrow> 's \<Rightarrow> 'k \<Rightarrow> ('d \<times> 's) kcall"
    and wr :: "'i \<Rightarrow> 's \<Rightarrow> 'k \<Rightarrow> 'd \<Rightarrow> 's kcall"
    and env :: "'i \<Rightarrow> bool"
    and addr :: "'k \<Rightarrow> bool"
  assumes rd_array: "\<lbrakk>rep s m; env i; addr k\<rbrakk> \<Longrightarrow> \<exists>s'. rd i s k = Done (m k, s') \<and> rep s' m"
    and wr_array: "\<lbrakk>rep s m; env i; addr k\<rbrakk> \<Longrightarrow> \<exists>s'. wr i s k d = Done s' \<and> rep s' (m(k := d))"

datatype ('i, 'k, 'd) request = Rd 'i 'k | Wr 'i 'k 'd

fun run_requests :: "('i \<Rightarrow> 's \<Rightarrow> 'k \<Rightarrow> ('d \<times> 's) kcall) \<Rightarrow> ('i \<Rightarrow> 's \<Rightarrow> 'k \<Rightarrow> 'd \<Rightarrow> 's kcall) \<Rightarrow>
    's \<Rightarrow> ('i, 'k, 'd) request list \<Rightarrow> ('d list \<times> 's) kcall" where
  "run_requests rd wr s [] = Done ([], s)"
| "run_requests rd wr s (Rd i k # rs) =
     kbind (rd i s k) (\<lambda>(d, s). kbind (run_requests rd wr s rs) (\<lambda>(ds, s). Done (d # ds, s)))"
| "run_requests rd wr s (Wr i k d # rs) = kbind (wr i s k d) (\<lambda>s. run_requests rd wr s rs)"

text \<open>The same requests on an array.\<close>

fun array_reads :: "('k \<Rightarrow> 'd) \<Rightarrow> ('i, 'k, 'd) request list \<Rightarrow> 'd list" where
  "array_reads m [] = []"
| "array_reads m (Rd i k # rs) = m k # array_reads m rs"
| "array_reads m (Wr i k d # rs) = array_reads (m(k := d)) rs"

fun array_after :: "('k \<Rightarrow> 'd) \<Rightarrow> ('i, 'k, 'd) request list \<Rightarrow> 'k \<Rightarrow> 'd" where
  "array_after m [] = m"
| "array_after m (Rd i k # rs) = array_after m rs"
| "array_after m (Wr i k d # rs) = array_after (m(k := d)) rs"

fun valid_request :: "('i \<Rightarrow> bool) \<Rightarrow> ('k \<Rightarrow> bool) \<Rightarrow> ('i, 'k, 'd) request \<Rightarrow> bool" where
  "valid_request env addr (Rd i k) = (env i \<and> addr k)"
| "valid_request env addr (Wr i k d) = (env i \<and> addr k)"

context block_array
begin

lemma requests_refine:
  assumes "rep s m" "list_all (valid_request env addr) rs"
  shows "\<exists>s'. run_requests rd wr s rs = Done (array_reads m rs, s') \<and> rep s' (array_after m rs)"
  using assms
proof (induction rs arbitrary: s m)
  case (Cons r rs)
  show ?case
  proof (cases r)
    case (Rd i k)
    with Cons rd_array [of s m i k] obtain s1 where "rd i s k = Done (m k, s1)" "rep s1 m" by auto
    with Cons.IH [of s1 m] Cons.prems Rd show ?thesis by auto
  next
    case (Wr i k d)
    with Cons wr_array [of s m i k d] obtain s1 where "wr i s k d = Done s1" "rep s1 (m(k := d))" by auto
    with Cons.IH [of s1 "m(k := d)"] Cons.prems Wr show ?thesis by (auto simp del: fun_upd_apply)
  qed
qed simp

end

text \<open>The callers of the cache: read a block and release it; fill a whole block and write it out.\<close>

definition read_block :: "write_mode \<times> bool list \<Rightarrow> bcache \<Rightarrow> int \<times> int \<Rightarrow> (u8 list \<times> bcache) kcall" where
  "read_block i c k =
     kbind (Bread (snd i) c (fst k) (snd k)) (\<lambda>(b, irqs, c). Done (b_data c b, Brelse c b))"

definition write_block :: "write_mode \<times> bool list \<Rightarrow> bcache \<Rightarrow> int \<times> int \<Rightarrow> u8 list \<Rightarrow> bcache kcall" where
  "write_block i c k d =
     kbind (GetBlk (snd i) c (fst k) (snd k)) (\<lambda>(b, irqs, c).
       kbind (write_out (fst i) irqs (fill c b d) b) (\<lambda>(irqs, c). Done c))"

definition holds_array :: "bcache \<Rightarrow> (int \<times> int \<Rightarrow> u8 list) \<Rightarrow> bool" where
  "holds_array c m \<longleftrightarrow> (\<exists>dl nl fl q. cache_ok c dl nl fl q \<and> idle c fl q \<and> m = content c dl q)"

definition enough_irqs :: "write_mode \<times> bool list \<Rightarrow> bool" where
  "enough_irqs i \<longleftrightarrow> True \<notin> set (snd i) \<and> NBUF < length (snd i)"

definition block_addr :: "int \<times> int \<Rightarrow> bool" where
  "block_addr k \<longleftrightarrow> 0 \<le> fst k \<and> fst k < 256 \<and> snd k < NSECTOR"

lemma idle_quiet:
  assumes C: "cache_ok c dl nl fl q" and i: "idle c fl q" and n: "NBUF < length irqs"
  shows "quiet irqs c fl q"
proof -
  have R: "rings_ok c dl nl fl q" using C by (simp add: cache_ok_def)
  have "distinct (fl @ q)" "set (fl @ q) \<subseteq> buffers"
    using R ring_mem_buffers [OF R] by (auto simp: rings_ok_def ring_def)
  moreover have "finite buffers" "card buffers = NBUF" by (simp_all add: buffers_def card_image inj_on_def)
  ultimately have "length (fl @ q) \<le> NBUF" by (metis card_mono distinct_card)
  moreover have "dirty c fl \<le> length fl" by (simp add: dirty_def)
  ultimately show ?thesis using i n by (simp add: quiet_def idle_def)
qed

lemma read_block_ok:
  assumes "holds_array c m" "enough_irqs i" "block_addr k"
  shows "\<exists>c'. read_block i c k = Done (m k, c') \<and> holds_array c' m"
proof -
  from assms(1) obtain dl nl fl q where C: "cache_ok c dl nl fl q" and I: "idle c fl q" and m: "m = content c dl q"
    by (auto simp: holds_array_def)
  have qu: "quiet (snd i) c fl q" using idle_quiet [OF C I] assms(2) by (simp add: enough_irqs_def)
  have r: "has_read (snd i) c dl fl q k (Bread (snd i) c (fst k) (snd k))"
    using Bread_ok [OF C, of "snd i" "fst k" "snd k"] assms(2,3) by (simp add: enough_irqs_def block_addr_def)
  show ?thesis
  proof (cases "Bread (snd i) c (fst k) (snd k)")
    case (Done x)
    obtain b irqs1 c1 where x: "x = (b, irqs1, c1)" by (cases x)
    from r Done x qu obtain dl1 nl1 fl1 q1 where g: "b_data c1 b = m k" "cache_ok c1 dl1 nl1 fl1 q1"
      "held c1 dl1 fl1 q1 b" "content c1 dl1 q1 = content c dl q" "agrees c1 b" "only_holder c1 fl1 q1 b"
      by (auto simp: has_read_def m)
    note b = cache_Brelse [OF g(2,3)] g(5) [unfolded agrees_def]
    have "holds_array (Brelse c1 b) m" unfolding holds_array_def m
      using b g(4) Brelse_idle [OF g(6,3,2)]
      by (intro exI [of _ dl1] exI [of _ nl1] exI [of _ "fl1 @ [b]"] exI [of _ q1]) simp
    then show ?thesis using Done x g(1) by (simp add: read_block_def)
  qed (use r qu in \<open>simp_all add: has_read_def\<close>)
qed

lemma write_block_ok:
  assumes "holds_array c m" "enough_irqs i" "block_addr k"
  shows "\<exists>c'. write_block i c k d = Done c' \<and> holds_array c' (m(k := d))"
proof -
  from assms(1) obtain dl nl fl q where C: "cache_ok c dl nl fl q" and I: "idle c fl q" and m: "m = content c dl q"
    by (auto simp: holds_array_def)
  have qu: "quiet (snd i) c fl q" using idle_quiet [OF C I] assms(2) by (simp add: enough_irqs_def)
  have r: "obtained (snd i) c dl fl q k (GetBlk (snd i) c (fst k) (snd k))"
    using GetBlk_ok [OF C, of "snd i" "fst k" "snd k"] assms(2,3) by (simp add: enough_irqs_def block_addr_def)
  show ?thesis
  proof (cases "GetBlk (snd i) c (fst k) (snd k)")
    case (Done x)
    obtain b irqs1 c1 where x: "x = (b, irqs1, c1)" by (cases x)
    from r Done x qu obtain dl1 nl1 fl1 q1 where g: "cache_ok c1 dl1 nl1 fl1 q1" "True \<notin> set irqs1"
      "held c1 dl1 fl1 q1 b" "content c1 dl1 q1 = m" "\<not> flagged c1 b B_ASYNC" "only_holder c1 fl1 q1 b"
      "key c1 b = k" "length q1 < length irqs1"
      by (auto simp: obtained_def m)
    note w = write_out_ok [OF g(1,3,5,2), of d "fst i"]
    show ?thesis
    proof (cases "write_out (fst i) irqs1 (fill c1 b d) b")
      case (Done y)
      with w g obtain fl2 q2 irqs2 c2 where v: "y = (irqs2, c2)" "cache_ok c2 dl1 nl1 fl2 q2"
        "content c2 dl1 q2 = m(k := d)" "idle c2 fl2 q2"
        by (cases y) (auto simp: has_written_def)
      have "holds_array c2 (m(k := d))" unfolding holds_array_def
        using v by (intro exI [of _ dl1] exI [of _ nl1] exI [of _ fl2] exI [of _ q2]) simp
      then show ?thesis using Done v(1) \<open>GetBlk _ _ _ _ = _\<close> x by (simp add: write_block_def)
    qed (use w g(8) in \<open>simp_all add: has_written_def\<close>)
  qed (use r qu in \<open>simp_all add: obtained_def\<close>)
qed

interpretation cache: block_array holds_array read_block write_block enough_irqs block_addr
  by unfold_locales (simp_all add: read_block_ok write_block_ok)

section \<open>Initialisation\<close>

lemma init_prefix:
  assumes "n \<le> NBUF" "d_actf c = Null" "d_active c = 0"
  defines "s \<equiv> fold init_buf [0..<n] (init_heads c)"
  shows "ring (b_forw s) (b_back s) FreeL (rev (map Bp [0..<n])) \<and> ring (b_forw s) (b_back s) DevL [] \<and>
    ring (av_forw s) (av_back s) FreeL (map Bp [0..<n]) \<and> d_actf s = Null \<and> d_active s = 0 \<and>
    platter s = platter c \<and> (\<forall>j<n. b_flags s (Bp j) = 0 \<and> b_dev s (Bp j) = -1)"
  using assms(1) unfolding s_def
proof (induction n)
  case 0
  then show ?case using assms(2,3) by (simp add: init_heads_def ring_def)
next
  case (Suc n)
  define t where "t = fold init_buf [0..<n] (init_heads c)"
  have IH: "ring (b_forw t) (b_back t) FreeL (rev (map Bp [0..<n]))" "ring (b_forw t) (b_back t) DevL []"
    "ring (av_forw t) (av_back t) FreeL (map Bp [0..<n])" "d_actf t = Null" "d_active t = 0"
    "platter t = platter c" "\<And>j. j < n \<Longrightarrow> b_flags t (Bp j) = 0 \<and> b_dev t (Bp j) = -1"
    using Suc unfolding t_def by simp_all
  have n: "Bp n \<notin> set (FreeL # rev (map Bp [0..<n]))" "Bp n \<notin> set (FreeL # map Bp [0..<n])" by auto
  have e: "fold init_buf [0..<Suc n] (init_heads c) = init_buf n t" by (simp add: t_def)
  have z: "clear_flag B_BUSY (B_WANTED OR B_BUSY OR B_ASYNC) = 0" by (simp add: clear_flag_def B_defs)
  have D: "ring (front_fw (b_forw t) FreeL (Bp n)) (front_bk (b_forw t) (b_back t) FreeL (Bp n)) DevL []"
    by (rule ring_cong [OF IH(2)]) (use front_frame [OF IH(1), of DevL "Bp n"] in auto)
  have "b_flags (init_buf n t) (Bp j) = (if j = n then 0 else b_flags t (Bp j))" for j
    by (simp add: init_buf_def Let_def Brelse_def off_flags_def z WakeUp_def)
  moreover have "b_dev (init_buf n t) (Bp j) = (if j = n then -1 else b_dev t (Bp j))" for j
    by (simp add: init_buf_def Let_def Brelse_fields)
  ultimately have "\<forall>j<Suc n. b_flags (init_buf n t) (Bp j) = 0 \<and> b_dev (init_buf n t) (Bp j) = -1"
    using IH(7) by (auto simp: less_Suc_eq)
  then show ?case unfolding e
    using ring_front [OF IH(1) n(1)] ring_tail [OF IH(3) n(2)] D IH(4-6)
    by (simp add: init_buf_def Let_def Brelse_fields)
qed

lemma BM_Initialize_cache:
  assumes "d_actf c = Null" "d_active c = 0"
  shows "cache_ok (BM_Initialize c) [] (rev (map Bp [0..<NBUF])) (map Bp [0..<NBUF]) []"
    "idle (BM_Initialize c) (map Bp [0..<NBUF]) []" "content (BM_Initialize c) [] [] = sector c"
proof -
  note i = init_prefix [OF order_refl assms, folded BM_Initialize_def]
  have b: "buffers = set (map Bp [0..<NBUF])" by (auto simp: buffers_def)
  have "rings_ok (BM_Initialize c) [] (rev (map Bp [0..<NBUF])) (map Bp [0..<NBUF]) []"
    using i by (simp add: rings_ok_def b)
  moreover have "flags_ok (BM_Initialize c) [] (rev (map Bp [0..<NBUF])) (map Bp [0..<NBUF]) []"
    using i by (auto simp: flags_ok_def b has_flag_zero)
  ultimately show "cache_ok (BM_Initialize c) [] (rev (map Bp [0..<NBUF])) (map Bp [0..<NBUF]) []"
    by (simp add: cache_ok_def)
  show "idle (BM_Initialize c) (map Bp [0..<NBUF]) []" by (simp add: idle_def b)
  show "content (BM_Initialize c) [] [] = sector c"
    using i by (simp add: content_none sector_def fun_eq_iff)
qed

section \<open>Flushing\<close>

lemma idle_only_holder:
  assumes "cache_ok c dl nl fl q"
  shows "idle c fl q \<longleftrightarrow> only_holder c fl q FreeL"
proof -
  have "FreeL \<notin> set q" using cache_buffer [OF assms, of FreeL] buffer_node by auto
  then show ?thesis using buffer_node by (auto simp: idle_def only_holder_def)
qed

lemma find_delwri_ring:
  assumes "path (av_forw c) x xs FreeL" "FreeL \<notin> set xs" "length xs < n"
  shows "find_delwri n c (av_forw c x) dev =
    find (\<lambda>b. flagged c b B_DELWRI \<and> (dev = NODEV \<or> dev = b_dev c b)) xs"
  using assms
proof (induction xs arbitrary: n x)
  case Nil
  then obtain n' where "n = Suc n'" by (cases n) auto
  with Nil show ?case by simp
next
  case (Cons y ys)
  then obtain n' where n: "n = Suc n'" by (cases n) auto
  have p: "av_forw c x = y" "path (av_forw c) y ys FreeL" "FreeL \<notin> set ys" "length ys < n'" "y \<noteq> FreeL"
    using Cons.prems n by auto
  then have "find_delwri n' c (av_forw c y) dev =
    find (\<lambda>b. flagged c b B_DELWRI \<and> (dev = NODEV \<or> dev = b_dev c b)) ys"
    by (intro Cons.IH)
  then show ?case using p(5) by (simp only: p(1) n find_delwri.simps find.simps if_False)
qed

lemma NotAvail_or_flags: "NotAvail (or_flags c b B_ASYNC) b = or_flags (NotAvail c b) b B_ASYNC"
  by (simp add: NotAvail_def or_flags_def set_flag_def or.assoc or.commute or.left_commute)

lemma Bflush_loop_ok:
  assumes "cache_ok c dl nl fl q" "dirty c fl < n"
  shows "\<exists>c' fl' q'. Bflush_loop n irqs c dev = Done (irqs, c') \<and> cache_ok c' dl nl fl' q' \<and>
    content c' dl q' = content c dl q \<and> keeps c fl q c' fl' q' \<and> (idle c fl q \<longrightarrow> idle c' fl' q') \<and>
    (\<forall>b\<in>set fl'. \<not> (flagged c' b B_DELWRI \<and> (dev = NODEV \<or> dev = b_dev c' b)))"
  using assms
proof (induction n arbitrary: c fl q)
  case (Suc n)
  have R: "rings_ok c dl nl fl q" using Suc.prems by (simp add: cache_ok_def)
  have l: "length fl < NBUF + 1" using length_dl(2) [OF R] by simp
  have fr: "ring (av_forw c) (av_back c) FreeL fl" using R by (simp add: rings_ok_def)
  then have p: "path (av_forw c) FreeL fl FreeL" "FreeL \<notin> set fl" by (simp_all add: ring_def)
  note f = find_delwri_ring [OF p l, of dev]
  show ?case
  proof (cases "find_delwri (NBUF + 1) c (av_forw c FreeL) dev")
    case None
    then have "Bflush_loop (Suc n) irqs c dev = Done (irqs, c)" by simp
    moreover have "\<forall>b\<in>set fl. \<not> (flagged c b B_DELWRI \<and> (dev = NODEV \<or> dev = b_dev c b))"
      using None unfolding f find_None_iff by blast
    ultimately show ?thesis using Suc.prems
      by (intro exI [of _ c] exI [of _ fl] exI [of _ q]) simp
  next
    case (Some b)
    then have b: "b \<in> set fl" "flagged c b B_DELWRI" unfolding f find_Some_iff by auto
    obtain as bs where s: "fl = as @ b # bs" using split_list [OF b(1)] by auto
    let ?c = "start_write (or_flags (NotAvail c b) b B_ASYNC) b"
    note e = evict_step [OF Suc.prems(1) [unfolded s] b(2)]
    have st: "Bflush_loop (Suc n) irqs c dev = Bflush_loop n irqs ?c dev"
      using Some e(1) by (simp add: NotAvail_or_flags)
    from Suc.IH [OF e(2)] e(5) Suc.prems(2) s obtain c' fl' q' where
      h: "Bflush_loop n irqs ?c dev = Done (irqs, c')" "cache_ok c' dl nl fl' q'"
        "content c' dl q' = content ?c dl (q @ [b])" "keeps ?c (as @ bs) (q @ [b]) c' fl' q'"
        "idle ?c (as @ bs) (q @ [b]) \<longrightarrow> idle c' fl' q'"
        "\<forall>b\<in>set fl'. \<not> (flagged c' b B_DELWRI \<and> (dev = NODEV \<or> dev = b_dev c' b))"
      by auto
    have "idle ?c (as @ bs) (q @ [b])" if "idle c fl q"
      using that e(6,7) s by (auto simp: idle_def)
    then show ?thesis using st h e(3) keeps_trans [OF e(4) h(4)] s
      by (intro exI [of _ c'] exI [of _ fl'] exI [of _ q']) simp
  qed
qed simp

text \<open>The interrupts that carry out all requests.\<close>

lemma drain_ok:
  assumes "cache_ok c dl nl fl q" "idle c fl q" "length q \<le> n"
  shows "\<exists>fl'. cache_ok ((ATAHandler False ^^ n) c) dl nl fl' [] \<and> idle ((ATAHandler False ^^ n) c) fl' [] \<and>
    content ((ATAHandler False ^^ n) c) dl [] = content c dl q \<and> dirty ((ATAHandler False ^^ n) c) fl' = dirty c fl"
  using assms
proof (induction n arbitrary: c fl q)
  case (Suc n)
  from irq_step [OF Suc.prems(1)] obtain fl1 where s: "cache_ok (ATAHandler False c) dl nl fl1 (tl q)"
    "content (ATAHandler False c) dl (tl q) = content c dl q" "dirty (ATAHandler False c) fl1 = dirty c fl"
    "\<And>x. x \<in> set q \<Longrightarrow> x \<notin> set (tl q) \<Longrightarrow> flagged c x B_ASYNC \<Longrightarrow> x \<in> set fl1"
    "\<And>x. x \<in> set (tl q) \<Longrightarrow> b_flags (ATAHandler False c) x = b_flags c x" "set fl \<subseteq> set fl1"
    by (metis (no_types, lifting))
  have "idle (ATAHandler False c) fl1 (tl q)"
    using only_holder_irq [OF _ s(6,4,5)] Suc.prems(2)
      idle_only_holder [OF Suc.prems(1)] idle_only_holder [OF s(1)] by simp
  from Suc.IH [OF s(1) this] Suc.prems(3) s(2,3) show ?case
    by (auto simp: funpow_Suc_right simp del: funpow.simps)
qed auto

lemma clean_content:
  assumes "cache_ok c dl nl fl []" "idle c fl []" "dirty c fl = 0"
  shows "content c dl [] = sector c"
proof
  fix k
  have i: "inj_on (key c) (set dl)" using assms(1) by (simp add: cache_ok_def flags_ok_def)
  have nd: "\<not> flagged c b B_DELWRI" if "b \<in> set fl" for b
    using assms(3) that by (auto simp: dirty_def filter_empty_conv)
  show "content c dl [] k = sector c k"
  proof (cases "k \<in> key c ` set dl")
    case True
    then obtain b where b: "b \<in> set dl" "key c b = k" by auto
    then have "b \<in> set fl" using cache_buffer [OF assms(1), of b] assms(2) by (auto simp: idle_def)
    with b nd assms(1) content_of [OF i b, of "[]"] show ?thesis
      by (auto simp: valid_buf_def cache_ok_def flags_ok_def)
  qed (simp add: content_none)
qed

section \<open>Properties\<close>

definition demo_disk :: bcache where
  "demo_disk = \<lparr>b_flags = (\<lambda>_. 0), b_forw = (\<lambda>_. Null), b_back = (\<lambda>_. Null), av_forw = (\<lambda>_. Null),
     av_back = (\<lambda>_. Null), b_dev = (\<lambda>_. 0), b_wcount = (\<lambda>_. 0), b_data = (\<lambda>_. []), b_blkno = (\<lambda>_. 0),
     d_actf = Null, d_actl = Null, d_active = 0, d_errcnt = 0, platter = (\<lambda>d n. [word_of_int n]),
     eio = False, woken = []\<rparr>"

lemma demo_cache: "holds_array (BM_Initialize demo_disk) (sector demo_disk)"
proof -
  have "d_actf demo_disk = Null" "d_active demo_disk = 0" by (simp_all add: demo_disk_def)
  from BM_Initialize_cache [OF this] show ?thesis
    unfolding holds_array_def by metis
qed

lemma demo_sector: "sector demo_disk (0, n) = [word_of_int n]"
  by (simp add: sector_def demo_disk_def)

text \<open>
  C3. The buffer cache is an array of blocks: from any state that holds an array (the one
  \<open>Initialize\<close> builds holds the disk), every sequence of reads (\<open>Bread\<close>, \<open>Brelse\<close>) and of whole-block
  writes, whether synchronous (\<open>Bwrite\<close>), asynchronous (\<open>Bawrite\<close>) or delayed (\<open>Bdwrite\<close>), returns, gives
  the reads the values of the same sequence on the array, and leaves a cache that holds the array
  after it; eviction, delayed writing and the interrupts are invisible. More than \<open>NBUF\<close> error-free
  interrupts per call are enough.
\<close>

theorem cache_is_array:
  assumes "holds_array c m" "list_all (valid_request enough_irqs block_addr) rs"
  shows "\<exists>c'. run_requests read_block write_block c rs = Done (array_reads m rs, c') \<and>
    holds_array c' (array_after m rs)"
  by (rule cache.requests_refine [OF assms])

theorem cache_is_array_witness:
  "\<exists>c'. run_requests read_block write_block (BM_Initialize demo_disk)
      [Wr (Delayed, replicate 16 False) (0, 5) [7], Rd (Sync, replicate 16 False) (0, 5),
       Rd (Sync, replicate 16 False) (0, 6)] = Done ([[7], [6]], c')"
  using cache_is_array [OF demo_cache,
      of "[Wr (Delayed, replicate 16 False) (0, 5) [7], Rd (Sync, replicate 16 False) (0, 5),
       Rd (Sync, replicate 16 False) (0, 6)]"]
  by (auto simp: enough_irqs_def block_addr_def NBUF_def NSECTOR_def sector_def demo_disk_def)

text \<open>
  C7. \<open>GetBlk\<close> gives the caller the buffer of the block, exclusively: whatever it evicts, writes out
  or waits for, the buffer it returns was held by nobody, is the only one in the device ring with that
  device and number, and the buffers held by other processes keep their data and blocks; no content
  changes. It never stops the machine, and it returns if nobody holds a buffer and the disk
  interrupts suffice.
\<close>

theorem GetBlk_exclusive:
  assumes "cache_ok c dl nl fl q" "True \<notin> set irqs" "0 \<le> dev" "dev < 256" "blkno < NSECTOR"
  shows "case GetBlk irqs c dev blkno of
      Done (b, irqs', c') \<Rightarrow>
        b \<in> set fl \<union> set q \<and> key c' b = (dev, blkno) \<and>
        (\<exists>dl' nl' fl' q'. cache_ok c' dl' nl' fl' q' \<and> held c' dl' fl' q' b \<and>
           (\<forall>x\<in>set dl'. key c' x = (dev, blkno) \<longrightarrow> x = b) \<and>
           (\<forall>x\<in>buffers - (set fl \<union> set q). b_data c' x = b_data c x \<and> key c' x = key c x) \<and>
           content c' dl' q' = content c dl q)
    | Asleep \<Rightarrow> \<not> quiet irqs c fl q
    | _ \<Rightarrow> False"
proof (cases "GetBlk irqs c dev blkno")
  case (Done x)
  obtain b irqs' c' where x: "x = (b, irqs', c')" by (cases x)
  from GetBlk_ok [OF assms] Done x obtain dl' nl' fl' q' where g: "cache_ok c' dl' nl' fl' q'"
    "held c' dl' fl' q' b" "key c' b = (dev, blkno)" "content c' dl' q' = content c dl q"
    "keeps c fl q c' fl' q'" "b \<in> set fl \<union> set q" by (auto simp: obtained_def)
  have "x = b" if "x \<in> set dl'" "key c' x = (dev, blkno)" for x
    using g(1-3) that unfolding cache_ok_def flags_ok_def held_def inj_on_def by metis
  moreover have "\<forall>x\<in>buffers - (set fl \<union> set q). b_data c' x = b_data c x \<and> key c' x = key c x"
    using g(5) by (simp add: keeps_def)
  ultimately show ?thesis using Done x g
    by (simp, intro exI [of _ dl'] exI [of _ nl'] exI [of _ fl'] exI [of _ q']) simp
qed (use GetBlk_ok [OF assms] in \<open>simp_all add: obtained_def\<close>)

lemma demo_cache_ok:
  "cache_ok (BM_Initialize demo_disk) [] (rev (map Bp [0..<NBUF])) (map Bp [0..<NBUF]) []"
  by (rule BM_Initialize_cache) (simp_all add: demo_disk_def)

theorem GetBlk_exclusive_witness:
  "case GetBlk [False] (BM_Initialize demo_disk) 0 9 of
      Done (b, irqs', c') \<Rightarrow> key c' b = (0, 9) | Asleep \<Rightarrow> True | _ \<Rightarrow> False"
  using GetBlk_exclusive [OF demo_cache_ok, of "[False]" 0 9]
  by (auto simp: NSECTOR_def split: kcall.splits)

text \<open>
  C8. \<open>Bflush\<close> of all devices gets everything to the disk: it returns without waiting, changes no
  content, and once the disk has interrupted for the requests it queued (\<open>NBUF\<close> interrupts are enough)
  every sector of the disk is the content of its block.
\<close>

theorem Bflush_reaches_disk:
  assumes "holds_array c m" "NBUF \<le> n"
  shows "\<exists>c'. Bflush irqs c NODEV = Done (irqs, c') \<and> holds_array c' m \<and>
    sector ((ATAHandler False ^^ n) c') = m \<and> holds_array ((ATAHandler False ^^ n) c') m"
proof -
  from assms(1) obtain dl nl fl q where C: "cache_ok c dl nl fl q" "idle c fl q" and m: "m = content c dl q"
    by (auto simp: holds_array_def)
  have "length fl \<le> NBUF" using C(1) length_dl(2) by (auto simp: cache_ok_def)
  moreover have "dirty c fl \<le> length fl" by (simp add: dirty_def)
  ultimately have "dirty c fl < NBUF + 1" by simp
  from Bflush_loop_ok [OF C(1) this, of irqs NODEV] C(2) obtain c' fl' q' where
    b: "Bflush irqs c NODEV = Done (irqs, c')" "cache_ok c' dl nl fl' q'" "content c' dl q' = m"
      "idle c' fl' q'" "\<forall>b\<in>set fl'. \<not> flagged c' b B_DELWRI"
    by (auto simp: Bflush_def m)
  have d: "dirty c' fl' = 0" using b(5) by (simp add: dirty_def filter_empty_conv)
  have "length q' \<le> NBUF"
    using idle_quiet [OF b(2,4), of "replicate (Suc NBUF) False"] by (simp add: quiet_def)
  then obtain fl2 where s: "cache_ok ((ATAHandler False ^^ n) c') dl nl fl2 []"
    "idle ((ATAHandler False ^^ n) c') fl2 []" "content ((ATAHandler False ^^ n) c') dl [] = m"
    "dirty ((ATAHandler False ^^ n) c') fl2 = 0"
    using drain_ok [OF b(2,4), of n] assms(2) b(3) d by auto
  have "holds_array c' m" "holds_array ((ATAHandler False ^^ n) c') m"
    unfolding holds_array_def using b(2-4) s(1-3) by metis+
  with b(1) s(3) clean_content [OF s(1,2,4)] show ?thesis by auto
qed

theorem Bflush_reaches_disk_witness:
  "\<exists>c'. Bflush [] (BM_Initialize demo_disk) NODEV = Done ([], c') \<and>
    sector ((ATAHandler False ^^ 15) c') (0, 3) = [3]"
  using Bflush_reaches_disk [OF demo_cache, of 15 "[]"] demo_sector [of 3]
  by (auto simp: NBUF_def)

text \<open>
  A read error is reported once only: \<open>Brelse\<close> does not take a buffer whose read failed out of the
  device ring and leaves it done, so the next \<open>Bread\<close> of the block returns whatever is in that buffer
  at once, without asking the disk and without setting \<open>u_error\<close>.
\<close>

theorem Bread_after_error:
  assumes "rings_ok c dl nl fl q" "held c dl fl q b" "inj_on (key c) (set dl)" "key c b = (dev, blkno)"
    "0 \<le> dev" "dev < 256" "flagged c b B_DONE" "flagged c b B_ERROR"
  shows "\<exists>c'. Bread irqs (Brelse c b) dev blkno = Done (b, irqs, c') \<and> b_data c' b = b_data c b \<and>
    eio c' = eio c \<and> flagged c' b B_ERROR"
proof -
  have b: "b \<in> set dl" "b \<notin> set fl" "b \<notin> set q" using assms(2) by (simp_all add: held_def)
  then have bb: "b \<in> buffers" using assms(1) by (auto simp: rings_ok_def)
  have nf: "b \<noteq> FreeL" using buffer_node [OF bb] by simp
  note R = rings_Brelse [OF assms(1) bb b(2,3)]
  have "find (\<lambda>x. key (Brelse c b) x = (dev, blkno)) dl = Some b"
  proof -
    obtain x where x: "find (\<lambda>x. key (Brelse c b) x = (dev, blkno)) dl = Some x"
      using b(1) assms(4) by (cases "find (\<lambda>x. key (Brelse c b) x = (dev, blkno)) dl") (auto simp: find_None_iff Brelse_keys)
    then have "x \<in> set dl" "key c x = key c b" using assms(4) by (auto simp: find_Some_iff Brelse_keys)
    then have "x = b" using assms(3) b(1) by (auto dest: inj_onD)
    with x show ?thesis by simp
  qed
  then have i: "InCore (Brelse c b) dev blkno = Some b" by (simp add: InCore_find [OF R])
  have fl: "\<not> flagged (Brelse c b) b B_BUSY" "flagged (Brelse c b) b B_DONE" "flagged (Brelse c b) b B_ERROR"
    using assms(7,8) nf by (simp_all add: Brelse_flags has_clear_sub has_clear_other B_defs)
  have "GetBlk irqs (Brelse c b) dev blkno = Done (b, irqs, NotAvail (Brelse c b) b)"
    using assms(5,6) i fl(1) by (simp add: GetBlk_def NBLKDEV_def div_pos_pos_trivial)
  moreover have "flagged (NotAvail (Brelse c b) b) b B_DONE" "flagged (NotAvail (Brelse c b) b) b B_ERROR"
    using fl by (simp_all add: NotAvail_flags has_set)
  ultimately show ?thesis by (simp add: Bread_def NotAvail_fields Brelse_fields)
qed

text \<open>A cache in which the read of block 5 has just failed.\<close>

definition demo_failed :: bcache where
  "demo_failed = or_flags (reassign (NotAvail (BM_Initialize demo_disk) (Bp 0)) (Bp 0) 0 5) (Bp 0)
     (B_READ OR B_DONE OR B_ERROR)"

lemma demo_not_free: "Bp 0 \<notin> set (map Bp [1..<NBUF])" "Bp 0 \<in> buffers"
  by (auto simp: buffers_def NBUF_def)

lemma demo_failed_ok:
  "rings_ok demo_failed [Bp 0] (removeAll (Bp 0) (rev (map Bp [0..<NBUF]))) (map Bp [1..<NBUF]) []"
  "key demo_failed (Bp 0) = (0, 5)" "flagged demo_failed (Bp 0) B_DONE" "flagged demo_failed (Bp 0) B_ERROR"
proof -
  let ?c = "NotAvail (BM_Initialize demo_disk) (Bp 0)"
  have u: "map Bp [0..<NBUF] = [] @ Bp 0 # map Bp [1..<NBUF]" by (simp add: upt_conv_Cons NBUF_def)
  have "rings_ok (BM_Initialize demo_disk) [] (rev (map Bp [0..<NBUF])) ([] @ Bp 0 # map Bp [1..<NBUF]) []"
    using demo_cache_ok unfolding u [symmetric] by (simp add: cache_ok_def)
  then have "rings_ok ?c [] (rev (map Bp [0..<NBUF])) (map Bp [1..<NBUF]) []"
    using rings_NotAvail by fastforce
  from rings_reassign [OF this demo_not_free(2,1), of 0 5]
  have "rings_ok (reassign ?c (Bp 0) 0 5) [Bp 0] (removeAll (Bp 0) (rev (map Bp [0..<NBUF]))) (map Bp [1..<NBUF]) []"
    by simp
  then show "rings_ok demo_failed [Bp 0] (removeAll (Bp 0) (rev (map Bp [0..<NBUF]))) (map Bp [1..<NBUF]) []"
    unfolding demo_failed_def rings_ok_def by simp
  show "key demo_failed (Bp 0) = (0, 5)" "flagged demo_failed (Bp 0) B_DONE" "flagged demo_failed (Bp 0) B_ERROR"
    by (simp_all add: demo_failed_def key_def reassign_def Let_def flag_or has_set B_defs)
qed

theorem Bread_after_error_witness:
  "\<exists>c'. Bread [] (Brelse demo_failed (Bp 0)) 0 5 = Done (Bp 0, [], c') \<and> eio c' = eio demo_failed"
  using Bread_after_error [OF demo_failed_ok(1) _ _ demo_failed_ok(2) _ _ demo_failed_ok(3,4), of "[]"]
    demo_not_free by (auto simp: held_def)

end
