(* ===== verification/OpenFiles.thy ===== *)
theory OpenFiles
  imports FileData
begin

text \<open>
  The tables of open files (\<open>fs/File.cpp\<close>, \<open>fs/OpenFileManager.cpp\<close>): the descriptors of the current
  process, the system open file table and the in-core inode table, with \<open>IAlloc\<close> and \<open>Update\<close> of
  \<open>fs/FileSystem.cpp\<close>, which work on the inode table too.  Pointers into a table are indices.  The
  wake-ups of other processes have no effect on this state and are left out.
\<close>

section \<open>Model\<close>

record ofile =
  f_flag :: u32
  f_count :: int
  f_inode :: "nat option"
  f_offset :: int

text \<open>
  The tables and the part of the user structure that the calls use; \<open>u_eax\<close> is the register that
  returns the result, \<open>bad_sector\<close> tells which sectors the disk fails to read.
\<close>

record fm = ifs +
  m_Inode :: "inode list"
  m_File :: "ofile list"
  u_ofiles :: "nat option list"
  u_eax :: int
  u_uid :: int
  u_gid :: int
  bad_sector :: "int \<Rightarrow> int \<Rightarrow> bool"

definition FREAD :: u32 where "FREAD = 0x1"
definition FWRITE :: u32 where "FWRITE = 0x2"
definition FPIPE :: u32 where "FPIPE = 0x4"
definition NOFILES :: nat where "NOFILES = 15"
definition NFILE :: nat where "NFILE = 100"
definition NINODE :: nat where "NINODE = 100"

definition set_ip :: "nat \<Rightarrow> inode \<Rightarrow> 'a fm_scheme \<Rightarrow> 'a fm_scheme" where
  "set_ip i ip s = s\<lparr>m_Inode := (m_Inode s)[i := ip]\<rparr>"

definition set_file :: "nat \<Rightarrow> ofile \<Rightarrow> 'a fm_scheme \<Rightarrow> 'a fm_scheme" where
  "set_file f pf s = s\<lparr>m_File := (m_File s)[f := pf]\<rparr>"

subsection \<open>Descriptors and the open file table\<close>

definition AllocFreeSlot :: "'a fm_scheme \<Rightarrow> int \<times> 'a fm_scheme" where
  "AllocFreeSlot s =
     (case scan (\<lambda>x. x = None) (u_ofiles s) of
        Some i \<Rightarrow> (int i, s\<lparr>u_eax := int i\<rparr>)
      | None \<Rightarrow> (-1, s\<lparr>u_eax := -1, u_error := EMFILE\<rparr>))"

definition GetF :: "int \<Rightarrow> 'a fm_scheme \<Rightarrow> nat option \<times> 'a fm_scheme" where
  "GetF fd s =
     (if fd < 0 \<or> fd \<ge> int NOFILES then (None, s\<lparr>u_error := EBADF\<rparr>)
      else case u_ofiles s ! nat fd of
          None \<Rightarrow> (None, s\<lparr>u_error := EBADF\<rparr>)
        | Some f \<Rightarrow> (Some f, s))"

definition SetF :: "int \<Rightarrow> nat option \<Rightarrow> 'a fm_scheme \<Rightarrow> 'a fm_scheme" where
  "SetF fd pf s =
     (if fd < 0 \<or> fd \<ge> int NOFILES then s else s\<lparr>u_ofiles := (u_ofiles s)[nat fd := pf]\<rparr>)"

definition FAlloc :: "'a fm_scheme \<Rightarrow> nat option \<times> 'a fm_scheme" where
  "FAlloc s =
     (let (fd, s) = AllocFreeSlot s
      in if fd < 0 then (None, s)
         else case scan (\<lambda>f. f_count f = 0) (m_File s) of
             Some i \<Rightarrow>
               (Some i, set_file i ((m_File s ! i)\<lparr>f_count := f_count (m_File s ! i) + 1, f_offset := 0\<rparr>)
                          (SetF fd (Some i) s))
           | None \<Rightarrow> (None, s\<lparr>u_error := ENFILE\<rparr>))"

subsection \<open>Special files\<close>

text \<open>
  The system has one block and one character device, both with the major number 0; opening and
  closing them does not touch this state.
\<close>

definition major :: "inode \<Rightarrow> int" where
  "major ip = short_lo (i_addr ip ! 0) div 256"

definition is_special :: "inode \<Rightarrow> bool" where
  "is_special ip \<longleftrightarrow> i_mode ip AND IFMT = IFCHR \<or> i_mode ip AND IFMT = IFBLK"

definition OpenI :: "inode \<Rightarrow> 'a fm_scheme \<Rightarrow> 'a fm_scheme kcall" where
  "OpenI ip s =
     (if \<not> is_special ip then Done s
      else if major ip \<ge> 1 then Done (s\<lparr>u_error := ENXIO\<rparr>)
      else if major ip < 0 then Panic
      else Done s)"

definition CloseI :: "inode \<Rightarrow> 'a fm_scheme \<Rightarrow> 'a fm_scheme kcall" where
  "CloseI ip s = (if i_count ip \<le> 1 \<and> is_special ip \<and> (major ip \<ge> 1 \<or> major ip < 0) then Panic else Done s)"

subsection \<open>The inode table\<close>

definition IsLoaded :: "int \<Rightarrow> int \<Rightarrow> 'a fm_scheme \<Rightarrow> nat option" where
  "IsLoaded dev ino s = scan (\<lambda>ip. i_dev ip = dev \<and> i_number ip = ino \<and> i_count ip \<noteq> 0) (m_Inode s)"

definition GetFreeInode :: "'a fm_scheme \<Rightarrow> nat option" where
  "GetFreeInode s = scan (\<lambda>ip. i_count ip = 0) (m_Inode s)"

definition Prele :: "nat \<Rightarrow> 'a fm_scheme \<Rightarrow> 'a fm_scheme" where
  "Prele i s = set_ip i (snd (unlock (m_Inode s ! i))) s"

text \<open>
  \<open>IPut\<close>: the last reference writes the inode back and, when no directory names the file, frees its
  blocks and its number.
\<close>

definition IPut :: "(int \<Rightarrow> u8 list) \<Rightarrow> nat \<Rightarrow> 'a fm_scheme \<Rightarrow> 'a fm_scheme kcall" where
  "IPut stale i s =
     (let ip = m_Inode s ! i
      in if i_count ip = 1
         then
           let ip = ip\<lparr>i_flag := set_flag (i_flag ip) ILOCK\<rparr>
           in kbind (if i_nlink ip \<le> 0
                     then kbind (ITrunc stale ip s) (\<lambda>(ip, s).
                            kbind (FS_IFree s (i_dev ip) (i_number ip)) (\<lambda>s. Done (ip\<lparr>i_mode := 0\<rparr>, s)))
                     else Done (ip, s))
                (\<lambda>(ip, s). kbind (IUpdate ip (ktime s) s) (\<lambda>s.
                   Done (set_ip i (ip\<lparr>i_flag := 0, i_number := -1, i_count := i_count ip - 1\<rparr>) s)))
         else Done (set_ip i (snd (unlock (ip\<lparr>i_count := i_count ip - 1\<rparr>))) s))"

text \<open>
  \<open>IGet\<close>: when the sector of the inode cannot be read, \<open>Bread\<close> has set \<open>EIO\<close> and the slot goes through
  \<open>IPut\<close> with what it held before.  The loop goes round again when the inode is a mount point, with the root of the mounted file
  system.  A chain of mounts ends after \<open>NMOUNT\<close> rounds; if the mounts form a circle the code never
  returns, and the model is \<open>Asleep\<close>.
\<close>

fun IGet_loop :: "(int \<Rightarrow> u8 list) \<Rightarrow> nat \<Rightarrow> int \<Rightarrow> int \<Rightarrow> 'a fm_scheme \<Rightarrow> (nat option \<times> 'a fm_scheme) kcall" where
  "IGet_loop stale 0 dev ino s = Asleep"
| "IGet_loop stale (Suc n) dev ino s =
     (case IsLoaded dev ino s of
        Some i \<Rightarrow>
          let ip = m_Inode s ! i
          in if has_flag (i_flag ip) ILOCK then Asleep
             else if has_flag (i_flag ip) IMOUNT
             then kbind (GetMount s (Some i)) (\<lambda>m. IGet_loop stale n (m_dev (m_Mount s ! m)) ROOTINO s)
             else Done (Some i, set_ip i (ip\<lparr>i_count := i_count ip + 1, i_flag := set_flag (i_flag ip) ILOCK\<rparr>) s)
      | None \<Rightarrow>
          (case GetFreeInode s of
             None \<Rightarrow> Done (None, s\<lparr>u_error := ENFILE\<rparr>)
           | Some i \<Rightarrow>
               let ip = (m_Inode s ! i)\<lparr>i_dev := dev, i_number := ino, i_flag := ILOCK,
                          i_count := i_count (m_Inode s ! i) + 1, i_lastr := -1\<rparr>
               in if bad_sector s dev (dinode_sector ip)
                  then kbind (IPut stale i ((set_ip i ip s)\<lparr>u_error := EIO\<rparr>)) (\<lambda>s. Done (None, s))
                  else Done (Some i, set_ip i (ICopy ip (disk s dev (dinode_sector ip)) ino) s)))"

definition IGet :: "(int \<Rightarrow> u8 list) \<Rightarrow> int \<Rightarrow> int \<Rightarrow> 'a fm_scheme \<Rightarrow> (nat option \<times> 'a fm_scheme) kcall" where
  "IGet stale dev ino s = IGet_loop stale (Suc NMOUNT) dev ino s"

definition CloseF :: "(int \<Rightarrow> u8 list) \<Rightarrow> nat \<Rightarrow> 'a fm_scheme \<Rightarrow> 'a fm_scheme kcall" where
  "CloseF stale f s =
     (let pf = m_File s ! f; pipe = has_flag (f_flag pf) FPIPE
      in kbind (case f_inode pf of
            None \<Rightarrow> if pipe \<or> f_count pf \<le> 1 then Fault else Done s
          | Some i \<Rightarrow>
              let ip = m_Inode s ! i;
                  ip = (if pipe then ip\<lparr>i_mode := clear_flag (i_mode ip) (IREAD OR IWRITE)\<rparr> else ip);
                  s = set_ip i ip s
              in if f_count pf \<le> 1 then kbind (CloseI ip s) (IPut stale i) else Done s)
         (\<lambda>s. Done (set_file f (pf\<lparr>f_count := f_count pf - 1\<rparr>) s)))"

text \<open>\<open>UpdateInodeTable\<close> and \<open>Update\<close>; the flush of the buffers changes no content.\<close>

definition update_inode :: "nat \<Rightarrow> 'a fm_scheme \<Rightarrow> 'a fm_scheme kcall" where
  "update_inode i s =
     (let ip = m_Inode s ! i
      in if \<not> has_flag (i_flag ip) ILOCK \<and> i_count ip \<noteq> 0
         then
           let ip = ip\<lparr>i_flag := set_flag (i_flag ip) ILOCK\<rparr>
           in kbind (IUpdate ip (ktime s) s) (\<lambda>s. Done (set_ip i (snd (unlock ip)) s))
         else Done s)"

fun update_inodes :: "nat list \<Rightarrow> 'a fm_scheme \<Rightarrow> 'a fm_scheme kcall" where
  "update_inodes [] s = Done s"
| "update_inodes (i # is) s = kbind (update_inode i s) (update_inodes is)"

definition UpdateInodeTable :: "'a fm_scheme \<Rightarrow> 'a fm_scheme kcall" where
  "UpdateInodeTable s = update_inodes [0..<NINODE] s"

definition Update :: "'a fm_scheme \<Rightarrow> 'a fm_scheme kcall" where
  "Update s =
     (if updlock s \<noteq> 0 then Done s
      else kbind (UpdateInodeTable (update_superblocks (s\<lparr>updlock := updlock s + 1\<rparr>)))
             (\<lambda>s. Done (s\<lparr>updlock := 0\<rparr>)))"

subsection \<open>Allocation of an inode\<close>

text \<open>
  The search of the inode sectors for \<open>IAlloc\<close>: the numbers whose mode on disk is 0 and that are not
  in core are entered until the table of the superblock is full.
\<close>

definition mode_on_disk :: "int \<Rightarrow> int \<Rightarrow> 'a fm_scheme \<Rightarrow> int" where
  "mode_on_disk dev ino s =
     ints_of (disk s dev (INODE_ZONE_START_SECTOR + ino div INODE_NUMBER_PER_SECTOR)) !
       (nat (ino mod INODE_NUMBER_PER_SECTOR) * 16)"

fun collect_free :: "int \<Rightarrow> int list \<Rightarrow> 'a fm_scheme \<Rightarrow> superblock \<Rightarrow> superblock" where
  "collect_free dev [] s sb = sb"
| "collect_free dev (ino # inos) s sb =
     (if s_ninode sb \<ge> 100 then sb
      else if mode_on_disk dev ino s \<noteq> 0 \<or> IsLoaded dev ino s \<noteq> None then collect_free dev inos s sb
      else collect_free dev inos s
             (sb\<lparr>s_inode := (s_inode sb)[nat (s_ninode sb) := ino], s_ninode := s_ninode sb + 1\<rparr>))"

text \<open>
  The loop that takes numbers from the table: a number that is in use again is skipped.  Nothing
  stops it when the table runs empty, so the next round reads \<open>s_inode[-1]\<close>.  \<open>m\<close> is the place of the
  superblock in the mount table.
\<close>

fun take_inode :: "(int \<Rightarrow> u8 list) \<Rightarrow> nat \<Rightarrow> int \<Rightarrow> nat \<Rightarrow> 'a fm_scheme \<Rightarrow> (nat option \<times> 'a fm_scheme) kcall" where
  "take_inode stale 0 dev m s = Asleep"
| "take_inode stale (Suc n) dev m s =
     (case m_spb (m_Mount s ! m) of
        None \<Rightarrow> Fault
      | Some sb \<Rightarrow>
          if s_ninode sb \<le> 0 then Fault
          else
            let sb = sb\<lparr>s_ninode := s_ninode sb - 1\<rparr>; ino = s_inode sb ! nat (s_ninode sb)
            in kbind (IGet stale dev ino (set_sb m sb s)) (\<lambda>(r, s).
                 case r of
                   None \<Rightarrow> Done (None, s)
                 | Some i \<Rightarrow>
                     if i_mode (m_Inode s ! i) = 0
                     then
                       (case m_spb (m_Mount s ! m) of
                          None \<Rightarrow> Fault
                        | Some sb \<Rightarrow> Done (Some i, set_ip i (Clean (m_Inode s ! i)) (set_sb m (sb\<lparr>s_fmod := 1\<rparr>) s)))
                     else kbind (IPut stale i s) (take_inode stale n dev m)))"

definition IAlloc :: "(int \<Rightarrow> u8 list) \<Rightarrow> int \<Rightarrow> 'a fm_scheme \<Rightarrow> (nat option \<times> 'a fm_scheme) kcall" where
  "IAlloc stale dev s = kbind (GetFS s dev) (\<lambda>(m, sb, s).
     if s_ilock sb \<noteq> 0 then Asleep
     else if s_ninode sb < 0 then Fault
     else
       let sb' = (if s_ninode sb \<le> 0 then collect_free dev (map int [0..<nat (s_isize sb * 8)]) s sb else sb);
           s = set_sb m sb' s
       in if s_ninode sb' \<le> 0 then Done (None, s\<lparr>u_error := ENOSPC\<rparr>)
          else take_inode stale 201 dev m s)"

end
