(* ===== verification/FileCalls.thy ===== *)
theory FileCalls
  imports OpenFiles
begin

text \<open>
  The system calls on open files of \<open>fs/FileManager.cpp\<close>: access rights, \<open>Open1\<close>, \<open>Close\<close>, \<open>Seek\<close>, \<open>Dup\<close>,
  \<open>FStat\<close>, \<open>Read\<close> and \<open>Write\<close>, and pipes.  The arguments of a call are those of its system call.
\<close>

section \<open>Access rights\<close>

text \<open>\<open>Access\<close>: \<open>True\<close> is the result 1, access denied.\<close>

definition Access :: "inode \<Rightarrow> u32 \<Rightarrow> 'a fm_scheme \<Rightarrow> (bool \<times> 'a fm_scheme) kcall" where
  "Access ip mode s =
     kbind (if mode = IWRITE
            then kbind (GetFS s (i_dev ip)) (\<lambda>(m, sb, s). Done (s_ronly sb \<noteq> 0, s))
            else Done (False, s))
       (\<lambda>(ro, s).
          if ro then Done (True, s\<lparr>u_error := EROFS\<rparr>)
          else if u_uid s = 0
          then if mode = IEXEC \<and> i_mode ip AND (IEXEC OR drop_bit 3 IEXEC OR drop_bit 6 IEXEC) = 0
               then Done (True, s\<lparr>u_error := EACCES\<rparr>) else Done (False, s)
          else
            let mode = (if u_uid s \<noteq> i_uid ip
                        then if u_gid s \<noteq> i_gid ip then drop_bit 3 (drop_bit 3 mode) else drop_bit 3 mode
                        else mode)
            in if i_mode ip AND mode \<noteq> 0 then Done (False, s)
               else Done (True, s\<lparr>u_error := EACCES\<rparr>))"

section \<open>Opening and closing\<close>

definition open_checks :: "inode \<Rightarrow> u32 \<Rightarrow> 'a fm_scheme \<Rightarrow> 'a fm_scheme kcall" where
  "open_checks ip mode s =
     kbind (if has_flag mode FREAD then kbind (Access ip IREAD s) (\<lambda>(d, s). Done s) else Done s)
       (\<lambda>s. if has_flag mode FWRITE
            then kbind (Access ip IWRITE s) (\<lambda>(d, s).
                   Done (if i_mode ip AND IFMT = IFDIR then s\<lparr>u_error := EISDIR\<rparr> else s))
            else Done s)"

definition open_file :: "(int \<Rightarrow> u8 list) \<Rightarrow> nat \<Rightarrow> u32 \<Rightarrow> 'a fm_scheme \<Rightarrow> 'a fm_scheme kcall" where
  "open_file stale i mode s =
     (let (r, s) = FAlloc (Prele i s)
      in case r of
           None \<Rightarrow> IPut stale i s
         | Some f \<Rightarrow>
             let s = set_file f ((m_File s ! f)\<lparr>f_flag := mode AND (FREAD OR FWRITE), f_inode := Some i\<rparr>) s
             in kbind (OpenI (m_Inode s ! i) s) (\<lambda>s.
                  if u_error s = NOERROR then Done s
                  else
                    let s = (if u_eax s \<noteq> -1
                             then set_file f ((m_File s ! f)\<lparr>f_count := f_count (m_File s ! f) - 1\<rparr>)
                                    (SetF (u_eax s) None s)
                             else s)
                    in IPut stale i s))"

definition Open1 :: "(int \<Rightarrow> u8 list) \<Rightarrow> nat \<Rightarrow> u32 \<Rightarrow> nat \<Rightarrow> 'a fm_scheme \<Rightarrow> 'a fm_scheme kcall" where
  "Open1 stale i mode trf s =
     kbind (if trf \<noteq> 2 then open_checks (m_Inode s ! i) mode s else Done s) (\<lambda>s.
       if u_error s \<noteq> NOERROR then IPut stale i s
       else kbind (if trf = 1
                   then kbind (ITrunc stale (m_Inode s ! i) s) (\<lambda>(ip, s). Done (set_ip i ip s))
                   else Done s)
              (open_file stale i mode))"

definition Close :: "(int \<Rightarrow> u8 list) \<Rightarrow> int \<Rightarrow> 'a fm_scheme \<Rightarrow> 'a fm_scheme kcall" where
  "Close stale fd s =
     (let (r, s) = GetF fd s
      in case r of None \<Rightarrow> Done s | Some f \<Rightarrow> CloseF stale f (SetF fd None s))"

definition wrap32 :: "int \<Rightarrow> int" where
  "wrap32 x = sint (word_of_int x :: u32)"

definition Seek :: "int \<Rightarrow> int \<Rightarrow> int \<Rightarrow> 'a fm_scheme \<Rightarrow> 'a fm_scheme kcall" where
  "Seek fd offset whence s =
     (let (r, s) = GetF fd s
      in case r of
           None \<Rightarrow> Done s
         | Some f \<Rightarrow>
             let pf = m_File s ! f
             in if has_flag (f_flag pf) FPIPE then Done (s\<lparr>u_error := ESPIPE\<rparr>)
                else
                  let offset = (if whence > 2 then wrap32 (offset * 512) else offset);
                      whence = (if whence > 2 then whence - 3 else whence)
                  in if whence = 0 then Done (set_file f (pf\<lparr>f_offset := offset\<rparr>) s)
                     else if whence = 1 then Done (set_file f (pf\<lparr>f_offset := wrap32 (f_offset pf + offset)\<rparr>) s)
                     else if whence = 2
                     then case f_inode pf of
                            None \<Rightarrow> Fault
                          | Some i \<Rightarrow> Done (set_file f (pf\<lparr>f_offset := wrap32 (i_size (m_Inode s ! i) + offset)\<rparr>) s)
                     else Done s)"

definition Dup :: "int \<Rightarrow> 'a fm_scheme \<Rightarrow> 'a fm_scheme" where
  "Dup fd s =
     (let (r, s) = GetF fd s
      in case r of
           None \<Rightarrow> s
         | Some f \<Rightarrow>
             let (newFd, s) = AllocFreeSlot s
             in if newFd < 0 then s
                else let s = SetF newFd (Some f) s
                     in set_file f ((m_File s ! f)\<lparr>f_count := f_count (m_File s ! f) + 1\<rparr>) s)"

definition Stat1 :: "nat \<Rightarrow> int \<Rightarrow> 'a fm_scheme \<Rightarrow> 'a fm_scheme kcall" where
  "Stat1 i statBuf s =
     (let ip = m_Inode s ! i
      in kbind (IUpdate ip (ktime s) s) (\<lambda>s.
           let blk = disk s (i_dev ip) (dinode_sector ip)
           in Done (s\<lparr>umem := store_bytes (umem s) statBuf (take 64 (drop (4 * dinode_pos ip) blk))\<rparr>)))"

definition FStat :: "int \<Rightarrow> int \<Rightarrow> 'a fm_scheme \<Rightarrow> 'a fm_scheme kcall" where
  "FStat fd statBuf s =
     (let (r, s) = GetF fd s
      in case r of
           None \<Rightarrow> Done s
         | Some f \<Rightarrow> (case f_inode (m_File s ! f) of None \<Rightarrow> Fault | Some i \<Rightarrow> Stat1 i statBuf s))"

section \<open>Pipes\<close>

text \<open>How a round of the loops of \<open>ReadP\<close> and \<open>WriteP\<close> ends.\<close>

datatype pipe_end = PReturn | PSleep | PAgain

definition PIPSIZ :: int where "PIPSIZ = SMALL_FILE_BLOCK * 512"

type_synonym 'a device = "int \<Rightarrow> inode \<times> ioparam \<times> 'a \<Rightarrow> (inode \<times> ioparam \<times> 'a) kcall"

definition ReadP_round :: "('a fm_scheme) device \<Rightarrow> nat \<Rightarrow> nat \<Rightarrow> ioparam \<Rightarrow> 'a fm_scheme \<Rightarrow>
    (pipe_end \<times> ioparam \<times> 'a fm_scheme) kcall" where
  "ReadP_round cd f i io s =
     (let (ok, ip) = lock_round (m_Inode s ! i); pf = m_File s ! f
      in if \<not> ok then Done (PSleep, io, set_ip i ip s)
         else if f_offset pf = i_size ip
         then
           let (pf, ip) = (if f_offset pf \<noteq> 0
                           then (pf\<lparr>f_offset := 0\<rparr>, ip\<lparr>i_size := 0, i_mode := clear_flag (i_mode ip) IWRITE\<rparr>)
                           else (pf, ip));
               ip = snd (unlock ip);
               s = set_file f pf s
           in if i_count ip < 2 then Done (PReturn, io, set_ip i ip s)
              else Done (PSleep, io, set_ip i (ip\<lparr>i_mode := set_flag (i_mode ip) IREAD\<rparr>) s)
         else kbind (ReadI cd ip (io\<lparr>m_Offset := f_offset pf\<rparr>) s) (\<lambda>(ip, io, s).
                Done (PReturn, io, set_ip i (snd (unlock ip)) (set_file f (pf\<lparr>f_offset := m_Offset io\<rparr>) s))))"

text \<open>\<open>count\<close> is what is left to write; without a reader the call fails with \<open>EPIPE\<close>; the signal \<open>SIGPIPE\<close> of that branch is left out.\<close>

definition WriteP_round :: "('a fm_scheme) device \<Rightarrow> nat \<Rightarrow> int \<Rightarrow> ioparam \<Rightarrow> 'a fm_scheme \<Rightarrow>
    (pipe_end \<times> int \<times> ioparam \<times> 'a fm_scheme) kcall" where
  "WriteP_round cd i count io s =
     (let (ok, ip) = lock_round (m_Inode s ! i)
      in if \<not> ok then Done (PSleep, count, io, set_ip i ip s)
         else if count = 0 then Done (PReturn, 0, io\<lparr>m_Count := 0\<rparr>, set_ip i (snd (unlock ip)) s)
         else if i_count ip < 2 then Done (PReturn, count, io, (set_ip i (snd (unlock ip)) s)\<lparr>u_error := EPIPE\<rparr>)
         else if i_size ip = PIPSIZ
         then Done (PSleep, count, io, set_ip i (snd (unlock (ip\<lparr>i_mode := set_flag (i_mode ip) IWRITE\<rparr>))) s)
         else
           let n = min count (PIPSIZ - i_size ip)
           in kbind (WriteI cd ip (io\<lparr>m_Offset := i_size ip, m_Count := n\<rparr>) s) (\<lambda>(ip, io, s).
                let ip = snd (unlock ip)
                in Done (PAgain, count - n, io, set_ip i (ip\<lparr>i_mode := clear_flag (i_mode ip) IREAD\<rparr>) s)))"

text \<open>The loop of \<open>WriteP\<close>; a round that goes on has written at least one byte.\<close>

fun WriteP_loop :: "nat \<Rightarrow> ('a fm_scheme) device \<Rightarrow> nat \<Rightarrow> int \<Rightarrow> ioparam \<Rightarrow> 'a fm_scheme \<Rightarrow>
    (pipe_end \<times> int \<times> ioparam \<times> 'a fm_scheme) kcall" where
  "WriteP_loop 0 cd i count io s = Fault"
| "WriteP_loop (Suc k) cd i count io s =
     kbind (WriteP_round cd i count io s) (\<lambda>(e, count, io, s).
       if e = PAgain then WriteP_loop k cd i count io s else Done (e, count, io, s))"

definition WriteP :: "('a fm_scheme) device \<Rightarrow> nat \<Rightarrow> ioparam \<Rightarrow> 'a fm_scheme \<Rightarrow>
    (pipe_end \<times> int \<times> ioparam \<times> 'a fm_scheme) kcall" where
  "WriteP cd i io s = WriteP_loop (nat (m_Count io) + 2) cd i (m_Count io) io s"

definition Pipe :: "(int \<Rightarrow> u8 list) \<Rightarrow> int \<Rightarrow> 'a fm_scheme \<Rightarrow> 'a fm_scheme kcall" where
  "Pipe stale fdarr s = kbind (IAlloc stale ROOTDEV s) (\<lambda>(r, s).
     case r of
       None \<Rightarrow> Done s
     | Some i \<Rightarrow>
         let (r, s) = FAlloc s
         in case r of
              None \<Rightarrow> IPut stale i s
            | Some f0 \<Rightarrow>
                let fd0 = u_eax s; (r, s) = FAlloc s
                in case r of
                     None \<Rightarrow> IPut stale i (SetF fd0 None (set_file f0 ((m_File s ! f0)\<lparr>f_count := 0\<rparr>) s))
                   | Some f1 \<Rightarrow>
                       let s = s\<lparr>umem := store_bytes (umem s) fdarr (bytes_of [fd0, u_eax s])\<rparr>;
                           s = set_file f0 ((m_File s ! f0)\<lparr>f_flag := FREAD OR FPIPE, f_inode := Some i\<rparr>) s;
                           s = set_file f1 ((m_File s ! f1)\<lparr>f_flag := FWRITE OR FPIPE, f_inode := Some i\<rparr>) s
                       in Done (set_ip i ((m_Inode s ! i)\<lparr>i_count := 2, i_flag := IACC OR IUPD, i_mode := IALLOC\<rparr>) s))"

section \<open>Reading and writing\<close>

definition rdwr_file :: "('a fm_scheme) device \<Rightarrow> u32 \<Rightarrow> nat \<Rightarrow> nat \<Rightarrow> int \<Rightarrow> int \<Rightarrow> 'a fm_scheme \<Rightarrow>
    (ioparam \<times> 'a fm_scheme) kcall" where
  "rdwr_file cd mode f i base count s =
     (let (ok, ip) = lock_round (m_Inode s ! i); pf = m_File s ! f;
          io = \<lparr>m_Base = base, m_Offset = f_offset pf, m_Count = count\<rparr>
      in if \<not> ok then Asleep
         else kbind (if mode = FREAD then ReadI cd ip io s else WriteI cd ip io s) (\<lambda>(ip, io, s).
                Done (io, set_ip i (snd (unlock ip))
                            (set_file f (pf\<lparr>f_offset := f_offset pf + (count - m_Count io)\<rparr>) s))))"

definition rdwr_pipe :: "('a fm_scheme) device \<Rightarrow> u32 \<Rightarrow> nat \<Rightarrow> nat \<Rightarrow> int \<Rightarrow> int \<Rightarrow> 'a fm_scheme \<Rightarrow>
    (ioparam \<times> 'a fm_scheme) kcall" where
  "rdwr_pipe cd mode f i base count s =
     (let io = \<lparr>m_Base = base, m_Offset = 0, m_Count = count\<rparr>
      in if mode = FREAD
         then kbind (ReadP_round cd f i io s) (\<lambda>(e, io, s). if e = PReturn then Done (io, s) else Asleep)
         else kbind (WriteP cd i io s) (\<lambda>(e, left, io, s). if e = PReturn then Done (io, s) else Asleep))"

definition Rdwr :: "('a fm_scheme) device \<Rightarrow> u32 \<Rightarrow> int \<Rightarrow> int \<Rightarrow> int \<Rightarrow> 'a fm_scheme \<Rightarrow> 'a fm_scheme kcall" where
  "Rdwr cd mode fd base count s =
     (let (r, s) = GetF fd s
      in case r of
           None \<Rightarrow> Done s
         | Some f \<Rightarrow>
             if \<not> has_flag (f_flag (m_File s ! f)) mode then Done (s\<lparr>u_error := EACCES\<rparr>)
             else case f_inode (m_File s ! f) of
                 None \<Rightarrow> Fault
               | Some i \<Rightarrow>
                   kbind (if has_flag (f_flag (m_File s ! f)) FPIPE then rdwr_pipe cd mode f i base count s
                          else rdwr_file cd mode f i base count s)
                     (\<lambda>(io, s). Done (s\<lparr>u_eax := count - m_Count io\<rparr>)))"

end
