(* ===== verification/Names.thy ===== *)
theory Names
  imports FileCalls
begin

text \<open>
  Path names (\<open>fs/FileManager.cpp\<close>): the directory search \<open>NameI\<close>, the directory entries with their
  additional parts for long names, and the system calls that take a path.
\<close>

section \<open>State\<close>

text \<open>
  \<open>u_dirp\<close> is the memory from the path pointer on.  A directory entry has 32 bytes: the inode number,
  24 bytes of the name and the number of additional entries that hold the rest of the name; these
  are read into \<open>addition_entry\<close>, 128 bytes.
\<close>

record nm = fm +
  u_cdir :: nat
  u_pdir :: nat
  rootDirInode :: nat
  u_dirp :: "u8 list"
  u_dbuf :: "u8 list"
  d_ino :: int
  d_name :: "u8 list"
  d_esize :: int
  addition_entry :: "u8 list"
  u_IOParam :: ioparam
  u_curdir :: "u8 list"

definition DIRSIZ :: nat where "DIRSIZ = 24"
definition ADD_DIRSIZ :: nat where "ADD_DIRSIZ = 128"

datatype search_mode = OPEN | CREATE | DELETE

definition slash :: u8 where "slash = 0x2F"

definition NextChar :: "'a nm_scheme \<Rightarrow> u8 \<times> 'a nm_scheme" where
  "NextChar s = (case u_dirp s of [] \<Rightarrow> (0, s) | c # r \<Rightarrow> (c, s\<lparr>u_dirp := r\<rparr>))"

text \<open>\<open>Utility::StringLength\<close>.\<close>

definition StringLength :: "u8 list \<Rightarrow> nat" where
  "StringLength bs = length (takeWhile (\<lambda>b. b \<noteq> 0) bs)"

text \<open>The characters that the loops on \<open>/\<close> and on a path component consume.\<close>

fun skip_slashes :: "u8 \<Rightarrow> u8 list \<Rightarrow> u8 \<times> u8 list" where
  "skip_slashes c [] = (if c = slash then (0, []) else (c, []))"
| "skip_slashes c (d # r) = (if c = slash then skip_slashes d r else (c, d # r))"

fun component :: "u8 \<Rightarrow> u8 list \<Rightarrow> u8 list \<times> u8 \<times> u8 list" where
  "component c [] = (if c = slash \<or> c = 0 then ([], c, []) else ([c], 0, []))"
| "component c (d # r) =
     (if c = slash \<or> c = 0 then ([], c, d # r)
      else let (cs, e, t) = component d r in (c # cs, e, t))"

definition pad_component :: "u8 list \<Rightarrow> u8 list" where
  "pad_component cs = take (DIRSIZ + ADD_DIRSIZ) cs @ replicate (DIRSIZ + ADD_DIRSIZ - length cs) 0"

section \<open>Searching a directory\<close>

text \<open>\<open>Bmap\<close> and \<open>Bread\<close> of the block at an offset of the directory.\<close>

definition dir_block :: "nat \<Rightarrow> int \<Rightarrow> 'a nm_scheme \<Rightarrow> (u8 list \<times> 'a nm_scheme) kcall" where
  "dir_block i off s =
     kbind (Bmap s (m_Inode s ! i) (off div 512)) (\<lambda>(bn, ip, s).
       Done (disk s (i_dev ip) bn, set_ip i ip s))"

definition entry_at :: "u8 list \<Rightarrow> int \<Rightarrow> u8 list" where
  "entry_at blk off = take 32 (drop (nat (off mod 512)) blk)"

definition load_dent :: "u8 list \<Rightarrow> 'a nm_scheme \<Rightarrow> 'a nm_scheme" where
  "load_dent e s = s\<lparr>d_ino := ints_of e ! 0, d_name := take 24 (drop 4 e), d_esize := ints_of e ! 7\<rparr>"

text \<open>The parts of a long name: \<open>addition_entry\<close> has room for four of them.\<close>

fun read_additions :: "nat \<Rightarrow> nat \<Rightarrow> nat \<Rightarrow> u8 list \<Rightarrow> int \<Rightarrow> int \<Rightarrow> 'a nm_scheme \<Rightarrow>
    (u8 list \<times> int \<times> int \<times> 'a nm_scheme) kcall" where
  "read_additions 0 k i blk off cnt s = Done (blk, off, cnt, s)"
| "read_additions (Suc n) k i blk off cnt s =
     kbind (if off mod 512 = 0 then dir_block i off s else Done (blk, s)) (\<lambda>(blk, s).
       if k \<ge> 4 then Fault
       else read_additions n (Suc k) i blk (off + 32) (cnt - 1)
              (s\<lparr>addition_entry := take (32 * k) (addition_entry s) @ entry_at blk off @
                                    drop (32 * (k + 1)) (addition_entry s)\<rparr>))"

text \<open>
  The comparison loop: only the bytes the entry has are compared, so a longer component matches an
  entry that is a prefix of it.  The length is computed as an unsigned number.
\<close>

definition name_matches :: "'a nm_scheme \<Rightarrow> bool" where
  "name_matches s =
     (d_esize s \<ge> 0 \<and> take (24 + 32 * nat (d_esize s)) (u_dbuf s) =
        take (24 + 32 * nat (d_esize s)) (d_name s @ take (32 * nat (d_esize s)) (addition_entry s)))"

datatype found = Found | NotFound int

text \<open>
  The inner loop; \<open>free\<close> is \<open>freeEntryOffset\<close>.  For a free entry the code reads the length of the
  rest of the path, beyond its end, and looks at another block without any effect but that of \<open>Bmap\<close>.
  \<open>m_Count\<close> may pass 0 without the loop noticing; the first argument bounds the rounds.
\<close>

fun search_dir :: "nat \<Rightarrow> nat \<Rightarrow> u8 list \<Rightarrow> int \<Rightarrow> int \<Rightarrow> int \<Rightarrow> 'a nm_scheme \<Rightarrow>
    (found \<times> int \<times> 'a nm_scheme) kcall" where
  "search_dir 0 i blk free off cnt s = Asleep"
| "search_dir (Suc n) i blk free off cnt s =
     (if cnt = 0 then Done (NotFound free, off, s)
      else kbind (if off mod 512 = 0 then dir_block i off s else Done (blk, s)) (\<lambda>(blk, s).
        let s = load_dent (entry_at blk off) s; off = off + 32; cnt = cnt - 1
        in if d_ino s = 0
           then
             let use = int ((StringLength (u_dirp s) + 7) div 32)
             in if free = 0 \<and> use \<le> d_esize s
                then kbind (if use * 32 + off \<ge> 512 then dir_block i (use * 32 + off) s else Done (blk, s)) (\<lambda>(_, s).
                       search_dir n i blk off (off + 32 * d_esize s) cnt s)
                else search_dir n i blk free (off + 32 * d_esize s) cnt s
           else kbind (read_additions (nat (d_esize s)) 0 i blk off cnt s) (\<lambda>(blk, off, cnt, s).
             if name_matches s then Done (Found, off, s)
             else search_dir n i blk free off cnt s)))"

section \<open>\<open>NameI\<close>\<close>

text \<open>\<open>goto out\<close>: the directory is released and the search has failed.\<close>

definition name_out :: "(int \<Rightarrow> u8 list) \<Rightarrow> nat \<Rightarrow> 'a nm_scheme \<Rightarrow> (nat option \<times> 'a nm_scheme) kcall" where
  "name_out stale i s = kbind (IPut stale i s) (\<lambda>s. Done (None, s))"

definition not_found :: "(int \<Rightarrow> u8 list) \<Rightarrow> search_mode \<Rightarrow> nat \<Rightarrow> u8 \<Rightarrow> int \<Rightarrow> int \<Rightarrow> 'a nm_scheme \<Rightarrow>
    (nat option \<times> 'a nm_scheme) kcall" where
  "not_found stale mode i cur free off s =
     (if mode = CREATE \<and> cur = 0
      then kbind (Access (m_Inode s ! i) IWRITE s) (\<lambda>(denied, s).
        if denied then name_out stale i (s\<lparr>u_error := EACCES\<rparr>)
        else
          let s = s\<lparr>u_pdir := i\<rparr>
          in Done (None,
               if free \<noteq> 0 then s\<lparr>u_IOParam := (u_IOParam s)\<lparr>m_Offset := free - 32\<rparr>\<rparr>
               else set_ip i ((m_Inode s ! i)\<lparr>i_flag := set_flag (i_flag (m_Inode s ! i)) IUPD\<rparr>)
                      (s\<lparr>u_IOParam := (u_IOParam s)\<lparr>m_Offset := off\<rparr>\<rparr>)))
      else name_out stale i (s\<lparr>u_error := ENOENT\<rparr>))"

text \<open>The search of one directory takes at most this many rounds if its entries are in order.\<close>

definition dir_rounds :: "inode \<Rightarrow> nat" where
  "dir_rounds ip = nat (i_size ip div 32) + 1"

text \<open>
  The loop over the components, for a given number of rounds; \<open>out\<close> stands for the outcome of a loop that has not ended
  in these rounds. \<open>NameTerm.path_search_terminates\<close> shows that \<open>NameI\<close> never gets there.
\<close>

fun name_loop :: "(nat option \<times> 'a nm_scheme) kcall \<Rightarrow> (int \<Rightarrow> u8 list) \<Rightarrow> search_mode \<Rightarrow> nat \<Rightarrow> nat \<Rightarrow> u8 \<Rightarrow> 'a nm_scheme \<Rightarrow>
    (nat option \<times> 'a nm_scheme) kcall" where
  "name_loop out stale mode 0 i cur s = out"
| "name_loop out stale mode (Suc n) i cur s =
     (if u_error s \<noteq> NOERROR then name_out stale i s
      else if cur = 0 then Done (Some i, s)
      else if i_mode (m_Inode s ! i) AND IFMT \<noteq> IFDIR then name_out stale i (s\<lparr>u_error := ENOTDIR\<rparr>)
      else kbind (Access (m_Inode s ! i) IEXEC s) (\<lambda>(denied, s).
        if denied then name_out stale i (s\<lparr>u_error := EACCES\<rparr>)
        else
          let (cs, cur, r) = component cur (u_dirp s);
              (cur, r) = skip_slashes cur r;
              s = s\<lparr>u_dirp := r, u_dbuf := pad_component cs\<rparr>
          in kbind (search_dir (dir_rounds (m_Inode s ! i)) i [] 0 0 (i_size (m_Inode s ! i) div 32) s)
               (\<lambda>(res, off, s).
                  case res of
                    NotFound free \<Rightarrow> not_found stale mode i cur free off s
                  | Found \<Rightarrow>
                      let s = s\<lparr>u_IOParam := (u_IOParam s)\<lparr>m_Offset := off\<rparr>\<rparr>
                      in if mode = DELETE \<and> cur = 0
                         then kbind (Access (m_Inode s ! i) IWRITE s) (\<lambda>(denied, s).
                           if denied then name_out stale i (s\<lparr>u_error := EACCES\<rparr>) else Done (Some i, s))
                         else
                           let dev = i_dev (m_Inode s ! i)
                           in kbind (IPut stale i s) (\<lambda>s. kbind (IGet stale dev (d_ino s) s) (\<lambda>(r, s).
                                case r of None \<Rightarrow> Done (None, s) | Some j \<Rightarrow> name_loop out stale mode n j cur s)))))"

text \<open>The inode that the first \<open>IGet\<close> returns is not used; the search goes on with the pointer it had.\<close>

definition NameI :: "(int \<Rightarrow> u8 list) \<Rightarrow> search_mode \<Rightarrow> 'a nm_scheme \<Rightarrow> (nat option \<times> 'a nm_scheme) kcall" where
  "NameI stale mode s =
     (let (cur, s) = NextChar s; i = (if cur = slash then rootDirInode s else u_cdir s)
      in kbind (IGet stale (i_dev (m_Inode s ! i)) (i_number (m_Inode s ! i)) s) (\<lambda>(_, s).
           let (cur, r) = skip_slashes cur (u_dirp s); s = s\<lparr>u_dirp := r\<rparr>
           in if cur = 0 \<and> mode \<noteq> OPEN then name_out stale i (s\<lparr>u_error := ENOENT\<rparr>)
              else name_loop Asleep stale mode (length r + 2) i cur s))"

section \<open>Creating entries\<close>

definition dent_bytes :: "'a nm_scheme \<Rightarrow> u8 list" where
  "dent_bytes s = bytes_of [d_ino s] @ d_name s @ bytes_of [d_esize s]"

text \<open>\<open>WriteI\<close> with \<open>u_segflg\<close> 1 takes its bytes from the kernel.\<close>

definition write_kernel :: "('a nm_scheme) device \<Rightarrow> nat \<Rightarrow> u8 list \<Rightarrow> int \<Rightarrow> 'a nm_scheme \<Rightarrow> 'a nm_scheme kcall" where
  "write_kernel cd i bs off s =
     (let mem = umem s
      in kbind (WriteI cd (m_Inode s ! i) \<lparr>m_Base = 0, m_Offset = off, m_Count = int (length bs)\<rparr>
                  (s\<lparr>umem := store_bytes mem 0 bs\<rparr>))
           (\<lambda>(ip, io, s). Done (set_ip i ip (s\<lparr>umem := mem, u_IOParam := io\<rparr>))))"

text \<open>
  A component of 152 or more characters fills \<open>u_dbuf\<close>, so the length runs on into \<open>u_curdir\<close>, which
  follows it in the user structure; the entry then has more than four additional parts and \<open>WriteDir\<close>
  writes the bytes behind \<open>addition_entry\<close>.
\<close>

definition fill_dent :: "int \<Rightarrow> 'a nm_scheme \<Rightarrow> 'a nm_scheme" where
  "fill_dent ino s =
     (let e = (StringLength (u_dbuf s @ u_curdir s) + 7) div 32
      in s\<lparr>d_ino := ino, d_esize := int e, d_name := take 24 (u_dbuf s),
           addition_entry := take (32 * e) (drop 24 (u_dbuf s)) @ drop (32 * e) (addition_entry s)\<rparr>)"

definition WriteDir :: "('a nm_scheme) device \<Rightarrow> (int \<Rightarrow> u8 list) \<Rightarrow> nat \<Rightarrow> 'a nm_scheme \<Rightarrow> 'a nm_scheme kcall" where
  "WriteDir cd stale i s =
     (let s = fill_dent (i_number (m_Inode s ! i)) s;
          bs = dent_bytes s @ take (32 * nat (d_esize s)) (addition_entry s @ u_dbuf s @ u_curdir s)
      in kbind (write_kernel cd (u_pdir s) bs (m_Offset (u_IOParam s)) s) (\<lambda>s. IPut stale (u_pdir s) s))"

definition MakNode :: "('a nm_scheme) device \<Rightarrow> (int \<Rightarrow> u8 list) \<Rightarrow> u32 \<Rightarrow> 'a nm_scheme \<Rightarrow>
    (nat option \<times> 'a nm_scheme) kcall" where
  "MakNode cd stale mode s = kbind (IAlloc stale (i_dev (m_Inode s ! u_pdir s)) s) (\<lambda>(r, s).
     case r of
       None \<Rightarrow> Done (None, s)
     | Some i \<Rightarrow>
         let s = set_ip i ((m_Inode s ! i)\<lparr>i_flag := set_flag (i_flag (m_Inode s ! i)) (IACC OR IUPD),
                   i_mode := mode OR IALLOC, i_nlink := 1, i_uid := u_uid s, i_gid := u_gid s\<rparr>) s
         in kbind (WriteDir cd stale i s) (\<lambda>s. Done (Some i, s)))"

section \<open>System calls on paths\<close>

definition Open :: "(int \<Rightarrow> u8 list) \<Rightarrow> u32 \<Rightarrow> 'a nm_scheme \<Rightarrow> 'a nm_scheme kcall" where
  "Open stale mode s = kbind (NameI stale OPEN s) (\<lambda>(r, s).
     case r of None \<Rightarrow> Done s | Some i \<Rightarrow> Open1 stale i mode 0 s)"

text \<open>When the file exists, its mode bits are set after \<open>Open1\<close>, whether or not that succeeded.\<close>

definition Creat :: "('a nm_scheme) device \<Rightarrow> (int \<Rightarrow> u8 list) \<Rightarrow> u32 \<Rightarrow> 'a nm_scheme \<Rightarrow> 'a nm_scheme kcall" where
  "Creat cd stale arg s =
     (let acc = arg AND (IRWXU OR IRWXG OR IRWXO)
      in kbind (NameI stale CREATE s) (\<lambda>(r, s).
        case r of
          None \<Rightarrow>
            if u_error s \<noteq> NOERROR then Done s
            else kbind (MakNode cd stale (clear_flag acc ISVTX) s) (\<lambda>(r, s).
              case r of None \<Rightarrow> Done s | Some i \<Rightarrow> Open1 stale i FWRITE 2 s)
        | Some i \<Rightarrow>
            kbind (Open1 stale i FWRITE 1 s) (\<lambda>s.
              Done (set_ip i ((m_Inode s ! i)\<lparr>i_mode := i_mode (m_Inode s ! i) OR acc\<rparr>) s))))"

definition Stat :: "(int \<Rightarrow> u8 list) \<Rightarrow> int \<Rightarrow> 'a nm_scheme \<Rightarrow> 'a nm_scheme kcall" where
  "Stat stale statBuf s = kbind (NameI stale OPEN s) (\<lambda>(r, s).
     case r of None \<Rightarrow> Done s | Some i \<Rightarrow> kbind (Stat1 i statBuf s) (IPut stale i))"

definition SUser :: "'a nm_scheme \<Rightarrow> bool \<times> 'a nm_scheme" where
  "SUser s = (if u_uid s = 0 then (True, s) else (False, s\<lparr>u_error := EPERM\<rparr>))"

definition Owner :: "(int \<Rightarrow> u8 list) \<Rightarrow> 'a nm_scheme \<Rightarrow> (nat option \<times> 'a nm_scheme) kcall" where
  "Owner stale s = kbind (NameI stale OPEN s) (\<lambda>(r, s).
     case r of
       None \<Rightarrow> Done (None, s)
     | Some i \<Rightarrow>
         let (ok, s) = (if u_uid s = i_uid (m_Inode s ! i) then (True, s) else SUser s)
         in if ok then Done (Some i, s) else kbind (IPut stale i s) (\<lambda>s. Done (None, s)))"

definition ChMod :: "(int \<Rightarrow> u8 list) \<Rightarrow> u32 \<Rightarrow> 'a nm_scheme \<Rightarrow> 'a nm_scheme kcall" where
  "ChMod stale mode s = kbind (Owner stale s) (\<lambda>(r, s).
     case r of
       None \<Rightarrow> Done s
     | Some i \<Rightarrow>
         IPut stale i (set_ip i ((m_Inode s ! i)\<lparr>
           i_mode := clear_flag (i_mode (m_Inode s ! i)) 0xFFF OR (mode AND 0xFFF),
           i_flag := set_flag (i_flag (m_Inode s ! i)) IUPD\<rparr>) s))"

definition ChOwn :: "(int \<Rightarrow> u8 list) \<Rightarrow> int \<Rightarrow> int \<Rightarrow> 'a nm_scheme \<Rightarrow> 'a nm_scheme kcall" where
  "ChOwn stale uid gid s =
     (let (ok, s) = SUser s
      in if \<not> ok then Done s
         else kbind (Owner stale s) (\<lambda>(r, s).
           case r of
             None \<Rightarrow> Done s
           | Some i \<Rightarrow>
               IPut stale i (set_ip i ((m_Inode s ! i)\<lparr>i_uid := short_lo uid, i_gid := short_lo gid,
                 i_flag := set_flag (i_flag (m_Inode s ! i)) IUPD\<rparr>) s)))"

text \<open>\<open>SetCurDir\<close>; strings are stored with their final 0, the rest of the buffer is left out.\<close>

definition SetCurDir :: "u8 list \<Rightarrow> 'a nm_scheme \<Rightarrow> 'a nm_scheme" where
  "SetCurDir path s =
     (let p = takeWhile (\<lambda>b. b \<noteq> 0) path; c = takeWhile (\<lambda>b. b \<noteq> 0) (u_curdir s)
      in if p \<noteq> [] \<and> hd p = slash then s\<lparr>u_curdir := p @ [0]\<rparr>
         else if c \<noteq> [] \<and> last c = slash then s\<lparr>u_curdir := c @ p @ [0]\<rparr>
         else s\<lparr>u_curdir := c @ [slash] @ p @ [0]\<rparr>)"

definition ChDir :: "(int \<Rightarrow> u8 list) \<Rightarrow> u8 list \<Rightarrow> 'a nm_scheme \<Rightarrow> 'a nm_scheme kcall" where
  "ChDir stale path s = kbind (NameI stale OPEN s) (\<lambda>(r, s).
     case r of
       None \<Rightarrow> Done s
     | Some i \<Rightarrow>
         if i_mode (m_Inode s ! i) AND IFMT \<noteq> IFDIR then IPut stale i (s\<lparr>u_error := ENOTDIR\<rparr>)
         else kbind (Access (m_Inode s ! i) IEXEC s) (\<lambda>(denied, s).
           if denied then IPut stale i s
           else kbind (IPut stale (u_cdir s) s) (\<lambda>s. Done (SetCurDir path (Prele i (s\<lparr>u_cdir := i\<rparr>))))))"

definition Link :: "('a nm_scheme) device \<Rightarrow> (int \<Rightarrow> u8 list) \<Rightarrow> u8 list \<Rightarrow> 'a nm_scheme \<Rightarrow> 'a nm_scheme kcall" where
  "Link cd stale newpath s = kbind (NameI stale OPEN s) (\<lambda>(r, s).
     case r of
       None \<Rightarrow> Done s
     | Some i \<Rightarrow>
         if i_nlink (m_Inode s ! i) \<ge> 255 then IPut stale i (s\<lparr>u_error := EMLINK\<rparr>)
         else
           let (ok, s) = (if i_mode (m_Inode s ! i) AND IFMT = IFDIR then SUser s else (True, s))
           in if \<not> ok then IPut stale i s
              else
                let s = set_ip i ((m_Inode s ! i)\<lparr>i_flag := clear_flag (i_flag (m_Inode s ! i)) ILOCK\<rparr>) s
                in kbind (NameI stale CREATE (s\<lparr>u_dirp := newpath\<rparr>)) (\<lambda>(r, s).
                  kbind (case r of None \<Rightarrow> Done s | Some j \<Rightarrow> IPut stale j (s\<lparr>u_error := EEXIST\<rparr>)) (\<lambda>s.
                    if u_error s \<noteq> NOERROR then IPut stale i s
                    else if i_dev (m_Inode s ! u_pdir s) \<noteq> i_dev (m_Inode s ! i)
                    then kbind (IPut stale (u_pdir s) s) (\<lambda>s. IPut stale i (s\<lparr>u_error := EXDEV\<rparr>))
                    else kbind (WriteDir cd stale i s) (\<lambda>s.
                      IPut stale i (set_ip i ((m_Inode s ! i)\<lparr>i_nlink := i_nlink (m_Inode s ! i) + 1,
                        i_flag := set_flag (i_flag (m_Inode s ! i)) IUPD\<rparr>) s)))))"

definition UnLink :: "('a nm_scheme) device \<Rightarrow> (int \<Rightarrow> u8 list) \<Rightarrow> 'a nm_scheme \<Rightarrow> 'a nm_scheme kcall" where
  "UnLink cd stale s = kbind (NameI stale DELETE s) (\<lambda>(r, s).
     case r of
       None \<Rightarrow> Done s
     | Some d \<Rightarrow> kbind (IGet stale (i_dev (m_Inode s ! d)) (d_ino s) (Prele d s)) (\<lambda>(r, s).
         case r of
           None \<Rightarrow> Panic
         | Some i \<Rightarrow>
             let (ok, s) = (if i_mode (m_Inode s ! i) AND IFMT = IFDIR then SUser s else (True, s))
             in if \<not> ok then kbind (IPut stale d s) (IPut stale i)
                else
                  let n = 32 + 32 * nat (d_esize s);
                      s = s\<lparr>addition_entry := replicate ADD_DIRSIZ 0, d_ino := 0\<rparr>
                  in kbind (write_kernel cd d (take n (dent_bytes s @ addition_entry s))
                             (m_Offset (u_IOParam s) - int n) s) (\<lambda>s.
                       let s = set_ip i ((m_Inode s ! i)\<lparr>i_nlink := i_nlink (m_Inode s ! i) - 1,
                                 i_flag := set_flag (i_flag (m_Inode s ! i)) IUPD\<rparr>) s
                       in kbind (IPut stale d s) (IPut stale i))))"

definition MkNod :: "('a nm_scheme) device \<Rightarrow> (int \<Rightarrow> u8 list) \<Rightarrow> u32 \<Rightarrow> int \<Rightarrow> 'a nm_scheme \<Rightarrow> 'a nm_scheme kcall" where
  "MkNod cd stale mode dev s =
     (let (ok, s) = SUser s
      in if \<not> ok then Done s
         else kbind (NameI stale CREATE s) (\<lambda>(r, s).
           case r of
             Some i \<Rightarrow> IPut stale i (s\<lparr>u_error := EEXIST\<rparr>)
           | None \<Rightarrow>
               if u_error s \<noteq> NOERROR then Done s
               else kbind (MakNode cd stale mode s) (\<lambda>(r, s).
                 case r of
                   None \<Rightarrow> Done s
                 | Some i \<Rightarrow>
                     IPut stale i (if i_mode (m_Inode s ! i) AND (IFBLK OR IFCHR) \<noteq> 0
                       then set_ip i ((m_Inode s ! i)\<lparr>i_addr := (i_addr (m_Inode s ! i))[0 := dev]\<rparr>) s else s))))"

end
