(* ===== verification/FileSyscalls.thy ===== *)
theory FileSyscalls
  imports Names
begin

text \<open>
  The system calls on files as \<open>SystemCall::Trap\<close> runs them (\<open>interrupt/SystemCall.cpp\<close>): the entry
  of the table clears \<open>u_error\<close>, sets \<open>u_dirp\<close> from the first argument and calls the handler.  Paths
  are the memory they point to.
\<close>

datatype file_call =
    Sys_Read int int int
  | Sys_Write int int int
  | Sys_Open "u8 list" u32
  | Sys_Close int
  | Sys_Creat "u8 list" u32
  | Sys_Link "u8 list" "u8 list"
  | Sys_UnLink "u8 list"
  | Sys_ChDir "u8 list"
  | Sys_MkNod "u8 list" u32 int
  | Sys_ChMod "u8 list" u32
  | Sys_ChOwn "u8 list" int int
  | Sys_Stat "u8 list" int
  | Sys_Seek int int int
  | Sys_FStat int int
  | Sys_Dup int
  | Sys_Pipe int

definition trap_entry :: "u8 list \<Rightarrow> 'a nm_scheme \<Rightarrow> 'a nm_scheme" where
  "trap_entry path s = s\<lparr>u_error := NOERROR, u_dirp := path\<rparr>"

text \<open>\<open>rd\<close> and \<open>wr\<close> are the routines of the character devices.\<close>

fun file_syscall :: "('a nm_scheme) device \<Rightarrow> ('a nm_scheme) device \<Rightarrow> (int \<Rightarrow> u8 list) \<Rightarrow> file_call \<Rightarrow>
    'a nm_scheme \<Rightarrow> 'a nm_scheme kcall" where
  "file_syscall rd wr stale (Sys_Read fd base n) s = Rdwr rd FREAD fd base n (trap_entry [] s)"
| "file_syscall rd wr stale (Sys_Write fd base n) s = Rdwr wr FWRITE fd base n (trap_entry [] s)"
| "file_syscall rd wr stale (Sys_Open path mode) s = Open stale mode (trap_entry path s)"
| "file_syscall rd wr stale (Sys_Close fd) s = Close stale fd (trap_entry [] s)"
| "file_syscall rd wr stale (Sys_Creat path mode) s = Creat wr stale mode (trap_entry path s)"
| "file_syscall rd wr stale (Sys_Link path newpath) s = Link wr stale newpath (trap_entry path s)"
| "file_syscall rd wr stale (Sys_UnLink path) s = UnLink wr stale (trap_entry path s)"
| "file_syscall rd wr stale (Sys_ChDir path) s = ChDir stale path (trap_entry path s)"
| "file_syscall rd wr stale (Sys_MkNod path mode dev) s = MkNod wr stale mode dev (trap_entry path s)"
| "file_syscall rd wr stale (Sys_ChMod path mode) s = ChMod stale mode (trap_entry path s)"
| "file_syscall rd wr stale (Sys_ChOwn path uid gid) s = ChOwn stale uid gid (trap_entry path s)"
| "file_syscall rd wr stale (Sys_Stat path buf) s = Stat stale buf (trap_entry path s)"
| "file_syscall rd wr stale (Sys_Seek fd off wh) s = Seek fd off wh (trap_entry [] s)"
| "file_syscall rd wr stale (Sys_FStat fd buf) s = FStat fd buf (trap_entry [] s)"
| "file_syscall rd wr stale (Sys_Dup fd) s = Done (Dup fd (trap_entry [] s))"
| "file_syscall rd wr stale (Sys_Pipe fdarr) s = Pipe stale fdarr (trap_entry [] s)"

fun file_syscalls :: "('a nm_scheme) device \<Rightarrow> ('a nm_scheme) device \<Rightarrow> (int \<Rightarrow> u8 list) \<Rightarrow> file_call list \<Rightarrow>
    'a nm_scheme \<Rightarrow> 'a nm_scheme kcall" where
  "file_syscalls rd wr stale [] s = Done s"
| "file_syscalls rd wr stale (c # cs) s = kbind (file_syscall rd wr stale c s) (file_syscalls rd wr stale cs)"

end
