(* ===== verification/Frame.thy ===== *)
theory Frame
  imports Names
begin

text \<open>
  What the calls below the tables leave alone.  \<open>after c P\<close> is partial correctness of a kernel call: if
  \<open>c\<close> returns, its result satisfies \<open>P\<close>; its equations make the simplifier compute preconditions.
  The operations of the file system and of the inodes change neither the tables of open files nor what
  identifies an inode in core.
\<close>

section \<open>Partial correctness of kernel calls\<close>

primrec after :: "'a kcall \<Rightarrow> ('a \<Rightarrow> bool) \<Rightarrow> bool" where
  "after (Done x) P = P x"
| "after Asleep P = True"
| "after Panic P = True"
| "after Fault P = True"

lemma after_kbind [simp]: "after (kbind c f) P = after c (\<lambda>x. after (f x) P)"
  by (cases c) auto

lemma after_if [simp]: "after (if b then c else d) P = ((b \<longrightarrow> after c P) \<and> (\<not> b \<longrightarrow> after d P))"
  by simp

lemma after_mono: "after c P \<Longrightarrow> (\<And>x. P x \<Longrightarrow> Q x) \<Longrightarrow> after c Q"
  by (cases c) auto

lemma after_Done: "after c P \<Longrightarrow> c = Done x \<Longrightarrow> P x"
  by simp

lemma afterI: "(\<And>x. c = Done x \<Longrightarrow> P x) \<Longrightarrow> after c P"
  by (cases c) auto

lemma after_conj: "after c P \<Longrightarrow> after c Q \<Longrightarrow> after c (\<lambda>x. P x \<and> Q x)"
  by (cases c) auto

text \<open>Composition: the second call starts where the first one ends.\<close>

lemma after_bind: "after c P \<Longrightarrow> (\<And>x. P x \<Longrightarrow> after (f x) Q) \<Longrightarrow> after (kbind c f) Q"
  by (cases c) auto

section \<open>Blocks and superblocks\<close>

named_theorems frame \<open>what a call leaves alone\<close>

lemma more_set_sb [simp]: "fsys.more (set_sb i sb fs) = fsys.more fs"
  and more_set_block [simp]: "fsys.more (set_block dev b d fs) = fsys.more fs"
  by (simp_all add: set_sb_def set_block_def)

lemma ifs_more_fsys: "fsys.more fs' = fsys.more fs \<Longrightarrow> ifs.more fs' = ifs.more fs"
  by (cases fs, cases fs') simp

lemma ifs_more_simps [simp]:
  "ifs.more (set_sb i sb fs) = ifs.more fs" "ifs.more (set_block dev b d fs) = ifs.more fs"
  by (simp_all add: set_sb_def set_block_def)

lemma error_simps [simp]:
  "u_error (set_sb i sb fs) = u_error fs" "u_error (set_block dev b d fs) = u_error fs"
  by (simp_all add: set_sb_def set_block_def)

lemma after_GetFS [frame]:
  "after (GetFS fs dev) (\<lambda>(i, sb, fs'). fsys.more fs' = fsys.more fs \<and> u_error fs' = u_error fs)"
  by (auto simp: GetFS_def Let_def split: option.split prod.split)

lemma after_FS_Alloc [frame]: "after (FS_Alloc fs dev) (\<lambda>(r, fs'). fsys.more fs' = fsys.more fs)"
  by (rule afterI) (auto dest: FS_Alloc_frame)

lemma after_FS_Free [frame]:
  "after (FS_Free stale fs dev b) (\<lambda>fs'. fsys.more fs' = fsys.more fs \<and> u_error fs' = u_error fs)"
  by (auto simp: FS_Free_def Let_def intro!: after_mono [OF after_GetFS])

lemma after_FS_IFree [frame]:
  "after (FS_IFree fs dev n) (\<lambda>fs'. fsys.more fs' = fsys.more fs \<and> u_error fs' = u_error fs)"
  by (auto simp: FS_IFree_def Let_def intro!: after_mono [OF after_GetFS])

lemma after_IUpdate [frame]:
  "after (IUpdate ip tm fs) (\<lambda>fs'. fsys.more fs' = fsys.more fs \<and> u_error fs' = u_error fs)"
  by (auto simp: IUpdate_def Let_def intro!: after_mono [OF after_GetFS])

section \<open>Inodes\<close>

text \<open>
  What identifies an inode in core, and how often it is in use; whether a file system is mounted on it.
\<close>

abbreviation mounted :: "inode \<Rightarrow> bool" where
  "mounted ip \<equiv> has_flag (i_flag ip) IMOUNT"

lemma mounted_flags [simp]:
  "has_flag (set_flag f ILOCK) IMOUNT = has_flag f IMOUNT" "has_flag (set_flag f IUPD) IMOUNT = has_flag f IMOUNT"
  "has_flag (set_flag f IACC) IMOUNT = has_flag f IMOUNT" "has_flag (set_flag f IWANT) IMOUNT = has_flag f IMOUNT"
  "has_flag (set_flag f (IACC OR IUPD)) IMOUNT = has_flag f IMOUNT"
  "has_flag (clear_flag f ILOCK) IMOUNT = has_flag f IMOUNT" "has_flag (clear_flag f IWANT) IMOUNT = has_flag f IMOUNT"
  "\<not> has_flag ILOCK IMOUNT" "\<not> has_flag 0 IMOUNT" "\<not> has_flag (IACC OR IUPD) IMOUNT"
  by (simp_all add: flag_simps ILOCK_def IUPD_def IACC_def IWANT_def IMOUNT_def)
    (simp_all add: has_flag_def)

definition same_entry :: "inode \<Rightarrow> inode \<Rightarrow> bool" where
  "same_entry ip ip' \<longleftrightarrow> i_dev ip' = i_dev ip \<and> i_number ip' = i_number ip \<and> i_count ip' = i_count ip \<and>
     (mounted ip' \<longrightarrow> mounted ip)"

lemma same_entry_refl [simp]: "same_entry ip ip"
  by (simp add: same_entry_def)

lemma same_entry_trans: "same_entry a b \<Longrightarrow> same_entry b c \<Longrightarrow> same_entry a c"
  by (simp add: same_entry_def)

lemma same_entry_upd [simp]:
  "same_entry ip (ip'\<lparr>i_mode := m\<rparr>) = same_entry ip ip'"
  "same_entry ip (ip'\<lparr>i_nlink := n\<rparr>) = same_entry ip ip'"
  "same_entry ip (ip'\<lparr>i_size := n\<rparr>) = same_entry ip ip'"
  "same_entry ip (ip'\<lparr>i_uid := n\<rparr>) = same_entry ip ip'"
  "same_entry ip (ip'\<lparr>i_gid := n\<rparr>) = same_entry ip ip'"
  "same_entry ip (ip'\<lparr>i_addr := a\<rparr>) = same_entry ip ip'"
  "same_entry ip (ip'\<lparr>i_lastr := n\<rparr>) = same_entry ip ip'"
  "same_entry ip (snd (unlock ip')) = same_entry ip ip'"
  "same_entry ip (snd (lock_round ip')) = same_entry ip ip'"
  "same_entry ip (Clean ip') = same_entry ip ip'"
  "same_entry ip (ICopy ip' blk n) = same_entry ip ip'"
  by (simp_all add: same_entry_def unlock_def lock_round_def Clean_def ICopy_def Let_def)

lemma same_entry_flag [simp]:
  "has_flag fl IMOUNT = mounted ip \<Longrightarrow> same_entry (ip\<lparr>i_flag := fl\<rparr>) ip' = same_entry ip ip'"
  "has_flag fl IMOUNT = mounted ip' \<Longrightarrow> same_entry ip (ip'\<lparr>i_flag := fl\<rparr>) = same_entry ip ip'"
  by (simp_all add: same_entry_def)

abbreviation framed :: "inode \<Rightarrow> 'a ifs_scheme \<Rightarrow> inode \<Rightarrow> 'a ifs_scheme \<Rightarrow> bool" where
  "framed ip fs ip' fs' \<equiv> same_entry ip ip' \<and> ifs.more fs' = ifs.more fs"

lemma after_alloc: "after (FS_Alloc fs dev) (\<lambda>(r, fs'). ifs.more fs' = ifs.more fs)"
  for fs :: "'a ifs_scheme"
  by (rule after_mono [OF after_FS_Alloc]) (auto intro: ifs_more_fsys)

lemma after_free:
  "after (FS_Free stale fs dev b) (\<lambda>fs'. ifs.more fs' = ifs.more fs \<and> u_error fs' = u_error fs)"
  for fs :: "'a ifs_scheme"
  by (rule after_mono [OF after_FS_Free]) (auto intro: ifs_more_fsys)

lemma after_bmap_small: "after (bmap_small fs ip n) (\<lambda>(b, ip', fs'). framed ip fs ip' fs')"
  by (auto simp: bmap_small_def Let_def intro!: after_mono [OF after_alloc] split: option.split)

lemma after_first_table: "after (first_table fs ip n) (\<lambda>(t, ip', fs'). framed ip fs ip' fs')"
  by (auto simp: first_table_def Let_def intro!: after_mono [OF after_alloc] split: option.split)

lemma after_second_table: "after (second_table fs dev t n) (\<lambda>(t', fs'). ifs.more fs' = ifs.more fs)"
  by (auto simp: second_table_def Let_def intro!: after_mono [OF after_alloc] split: option.split)

lemma after_final_entry: "after (final_entry fs dev t n) (\<lambda>(b, fs'). ifs.more fs' = ifs.more fs)"
  by (auto simp: final_entry_def Let_def intro!: after_mono [OF after_alloc] split: option.split)

lemma after_bmap_large: "after (bmap_large fs ip n) (\<lambda>(b, ip', fs'). framed ip fs ip' fs')"
  unfolding bmap_large_def
  apply (rule after_bind [OF after_first_table])
  apply (clarsimp split: option.split)
  apply (intro conjI impI)
   apply (rule after_mono [OF after_second_table])
   apply (auto intro!: after_mono [OF after_final_entry] split: option.split)
  done

lemma after_Bmap [frame]: "after (Bmap fs ip n) (\<lambda>(b, ip', fs'). framed ip fs ip' fs')"
  by (simp add: Bmap_def after_bmap_small after_bmap_large)

text \<open>Truncation does not set \<open>u_error\<close> either.\<close>

abbreviation quietly :: "'a ifs_scheme \<Rightarrow> 'a ifs_scheme \<Rightarrow> bool" where
  "quietly fs fs' \<equiv> ifs.more fs' = ifs.more fs \<and> u_error fs' = u_error fs"

lemma after_free_entries: "after (free_entries stale dev es fs) (quietly fs)"
proof (induction es arbitrary: fs)
  case (Cons e es)
  have "after (FS_Free (stale e) fs dev e) (\<lambda>x. after (free_entries stale dev es x) (quietly fs))"
    by (rule after_mono [OF after_free]) (rule after_mono [OF Cons.IH], simp)
  then show ?case using Cons.IH by simp
qed simp

lemma after_free_tables: "after (free_tables stale dev dbl es fs) (quietly fs)"
proof (induction es arbitrary: fs)
  case (Cons e es)
  have "after (FS_Free (stale e) fs' dev e) (\<lambda>x. after (free_tables stale dev dbl es x) (quietly fs))"
    if "quietly fs fs'" for fs'
    by (rule after_mono [OF after_free]) (rule after_mono [OF Cons.IH], simp add: that)
  then show ?case using Cons.IH by (auto intro!: after_mono [OF after_free_entries])
qed simp

lemma after_trunc_entry:
  "after (trunc_entry stale i (ip, fs)) (\<lambda>(ip', fs'). same_entry ip ip' \<and> quietly fs fs')"
proof -
  have "after (FS_Free b fs' dev a) (quietly fs)" if "quietly fs fs'" for b fs' dev a
    by (rule after_mono [OF after_free]) (simp add: that)
  then show ?thesis
    by (auto simp: trunc_entry_def Let_def intro!: after_mono [OF after_free_tables])
qed

lemma after_trunc_loop:
  "after (trunc_loop stale is (ip, fs)) (\<lambda>(ip', fs'). same_entry ip ip' \<and> quietly fs fs')"
proof (induction "is" arbitrary: ip fs)
  case (Cons i "is")
  show ?case
    by simp (rule after_mono [OF after_trunc_entry],
        auto intro: after_mono [OF Cons.IH] elim: same_entry_trans)
qed simp

lemma after_ITrunc [frame]:
  "after (ITrunc stale ip fs) (\<lambda>(ip', fs'). same_entry ip ip' \<and> quietly fs fs')"
  by (auto simp: ITrunc_def simp del: trunc_loop.simps intro!: after_mono [OF after_trunc_loop])

text \<open>Reading and writing of a file also keep the tables if the character device does.\<close>

lemma after_read_step:
  "after (read_step ip io fs) (\<lambda>(go, ip', io', fs'). framed ip fs ip' fs')"
  by (auto simp: read_step_def Let_def intro!: after_mono [OF after_Bmap])

lemma after_write_step:
  "after (write_step ip io fs) (\<lambda>(go, ip', io', fs'). framed ip fs ip' fs')"
  by (auto simp: write_step_def Let_def intro!: after_mono [OF after_Bmap])

lemma after_read_loop: "after (read_loop ip io fs) (\<lambda>(ip', io', fs'). framed ip fs ip' fs')"
proof (induction ip io fs rule: read_loop.induct)
  case (1 ip io fs)
  show ?case
  proof (cases "read_step ip io fs")
    case (Done x)
    obtain go ip' io' fs' where x: "x = (go, ip', io', fs')" by (cases x)
    have f: "framed ip fs ip' fs'" using after_read_step [of ip io fs] Done x by simp
    show ?thesis using f Done x
      by (subst read_loop.simps) (auto intro!: after_mono [OF 1] elim: same_entry_trans)
  qed (subst read_loop.simps, simp)+
qed

lemma after_write_loop: "after (write_loop ip io fs) (\<lambda>(ip', io', fs'). framed ip fs ip' fs')"
proof (induction ip io fs rule: write_loop.induct)
  case (1 ip io fs)
  show ?case
  proof (cases "write_step ip io fs")
    case (Done x)
    obtain go ip' io' fs' where x: "x = (go, ip', io', fs')" by (cases x)
    have f: "framed ip fs ip' fs'" using after_write_step [of ip io fs] Done x by simp
    show ?thesis using f Done x
      by (subst write_loop.simps) (auto intro!: after_mono [OF 1] elim: same_entry_trans)
  qed (subst write_loop.simps, simp)+
qed

definition device_keeps :: "(int \<Rightarrow> inode \<times> ioparam \<times> 'a ifs_scheme \<Rightarrow> (inode \<times> ioparam \<times> 'a ifs_scheme) kcall) \<Rightarrow> bool" where
  "device_keeps cd \<longleftrightarrow>
     (\<forall>d ip io fs. after (cd d (ip, io, fs)) (\<lambda>(ip', io', fs'). framed ip fs ip' fs'))"

lemma device_keepsD: "device_keeps cd \<Longrightarrow> after (cd d (ip, io, fs)) (\<lambda>(ip', io', fs'). framed ip fs ip' fs')"
  unfolding device_keeps_def by blast

lemma after_ReadI: "device_keeps cd \<Longrightarrow> after (ReadI cd ip io fs) (\<lambda>(ip', io', fs'). framed ip fs ip' fs')"
  by (auto simp: ReadI_def Let_def intro!: after_mono [OF device_keepsD] after_mono [OF after_read_loop])

lemma after_WriteI: "device_keeps cd \<Longrightarrow> after (WriteI cd ip io fs) (\<lambda>(ip', io', fs'). framed ip fs ip' fs')"
  by (auto simp: WriteI_def Let_def intro!: after_mono [OF device_keepsD] after_mono [OF after_write_loop])

end
