(* ===== verification/Refs.thy ===== *)
theory Refs
  imports Frame
begin

text \<open>
  The reference counts of the tables.  \<open>refs H F I s\<close> says that the counts are exact: \<open>F f\<close> references to
  the open file \<open>f\<close> and \<open>I i\<close> references to the inode \<open>i\<close> are held outside the tables (by other
  processes, by the mount table, by the call that is running), and every other reference is a
  descriptor of this process or an open file.  \<open>H\<close> are the open files that are being set up and have
  no inode yet.  An inode has only one copy in core, and no file system is mounted on it (the mount call does nothing).
\<close>

section \<open>Exact reference counts\<close>

definition one_copy :: "inode list \<Rightarrow> bool" where
  "one_copy ips \<longleftrightarrow>
     (\<forall>i < length ips. \<forall>j < length ips. i_count (ips ! i) \<noteq> 0 \<longrightarrow> i_count (ips ! j) \<noteq> 0 \<longrightarrow>
        i_dev (ips ! i) = i_dev (ips ! j) \<longrightarrow> i_number (ips ! i) = i_number (ips ! j) \<longrightarrow> i = j)"

definition fds_of :: "nat option list \<Rightarrow> nat \<Rightarrow> int" where
  "fds_of fds f = (\<Sum>k < length fds. if fds ! k = Some f then 1 else 0)"

definition uses :: "ofile \<Rightarrow> nat \<Rightarrow> bool" where
  "uses pf i \<longleftrightarrow> f_count pf \<noteq> 0 \<and> f_inode pf = Some i"

definition files_of :: "nat set \<Rightarrow> ofile list \<Rightarrow> nat \<Rightarrow> int" where
  "files_of H fs i = (\<Sum>f < length fs. if f \<notin> H \<and> uses (fs ! f) i then 1 else 0)"

lemma files_of_nonneg [simp]: "0 \<le> files_of H fs i"
  unfolding files_of_def by (rule sum_nonneg) simp

lemma fds_of_nonneg [simp]: "0 \<le> fds_of fds f"
  unfolding fds_of_def by (rule sum_nonneg) simp

lemma sum_change:
  fixes g h :: "nat \<Rightarrow> int"
  assumes "k < n" "\<And>j. j \<noteq> k \<Longrightarrow> h j = g j"
  shows "(\<Sum>j < n. h j) = (\<Sum>j < n. g j) - g k + h k"
proof -
  have "(\<Sum>j < n. h j) = h k + (\<Sum>j \<in> {..<n} - {k}. h j)" "(\<Sum>j < n. g j) = g k + (\<Sum>j \<in> {..<n} - {k}. g j)"
    using assms(1) by (simp_all add: sum.remove)
  moreover have "(\<Sum>j \<in> {..<n} - {k}. h j) = (\<Sum>j \<in> {..<n} - {k}. g j)"
    using assms(2) by (intro sum.cong) auto
  ultimately show ?thesis by simp
qed

definition file_refs :: "nat set \<Rightarrow> (nat \<Rightarrow> int) \<Rightarrow> ofile list \<Rightarrow> nat option list \<Rightarrow> bool" where
  "file_refs H F fs fds \<longleftrightarrow>
     length fs = NFILE \<and> length fds = NOFILES \<and> (\<forall>f. Some f \<in> set fds \<longrightarrow> f < NFILE) \<and>
     (\<forall>f < NFILE. 0 \<le> F f \<and> f_count (fs ! f) = F f + fds_of fds f) \<and>
     (\<forall>f < NFILE. f_count (fs ! f) \<noteq> 0 \<longrightarrow> f \<notin> H \<longrightarrow> (\<exists>i < NINODE. f_inode (fs ! f) = Some i)) \<and>
     (\<forall>f \<in> H. f < NFILE \<and> f_count (fs ! f) \<noteq> 0)"

definition inode_refs :: "nat set \<Rightarrow> (nat \<Rightarrow> int) \<Rightarrow> inode list \<Rightarrow> ofile list \<Rightarrow> bool" where
  "inode_refs H I ips fs \<longleftrightarrow>
     length ips = NINODE \<and> one_copy ips \<and> (\<forall>i < NINODE. \<not> mounted (ips ! i)) \<and>
     (\<forall>i < NINODE. 0 \<le> I i \<and> i_count (ips ! i) = I i + files_of H fs i)"

definition refs :: "nat set \<Rightarrow> (nat \<Rightarrow> int) \<Rightarrow> (nat \<Rightarrow> int) \<Rightarrow> 'a fm_scheme \<Rightarrow> bool" where
  "refs H F I s \<longleftrightarrow> file_refs H F (m_File s) (u_ofiles s) \<and> inode_refs H I (m_Inode s) (m_File s)"

lemma refs_lengths:
  assumes "refs H F I s"
  shows "length (m_Inode s) = NINODE" "length (m_File s) = NFILE" "length (u_ofiles s) = NOFILES"
  using assms by (simp_all add: refs_def file_refs_def inode_refs_def)

lemma refs_count:
  assumes "refs H F I s" "i < NINODE" "0 < I i"
  shows "0 < i_count (m_Inode s ! i)"
proof -
  have "i_count (m_Inode s ! i) = I i + files_of H (m_File s) i"
    using assms by (simp add: refs_def inode_refs_def)
  then show ?thesis using assms(3) files_of_nonneg [of H "m_File s" i] by linarith
qed

lemma refs_nonneg: "refs H F I s \<Longrightarrow> i < NINODE \<Longrightarrow> 0 \<le> I i"
  by (simp add: refs_def inode_refs_def)

lemma refs_frame:
  assumes "refs H F I s" "m_Inode s' = m_Inode s" "m_File s' = m_File s" "u_ofiles s' = u_ofiles s"
  shows "refs H F I s'"
  using assms by (simp add: refs_def)

text \<open>The fields that the calls below the tables keep.\<close>

lemma more_tables:
  assumes "ifs.more s' = ifs.more s"
  shows "m_Inode s' = m_Inode s" "m_File s' = m_File s" "u_ofiles s' = u_ofiles s" "u_eax s' = u_eax s"
    "u_uid s' = u_uid s" "u_gid s' = u_gid s" "bad_sector s' = bad_sector s" "fm.more s' = fm.more s"
  using assms by (cases s, cases s', simp)+

lemma refs_more:
  assumes "refs H F I s" "ifs.more s' = ifs.more s"
  shows "refs H F I s'"
  by (rule refs_frame [OF assms(1) more_tables(1-3) [OF assms(2)]])

lemma refs_upd [simp]:
  "refs H F I (s\<lparr>u_error := e\<rparr>) = refs H F I s" "refs H F I (s\<lparr>umem := um\<rparr>) = refs H F I s"
  "refs H F I (s\<lparr>u_eax := a\<rparr>) = refs H F I s" "refs H F I (s\<lparr>updlock := k\<rparr>) = refs H F I s"
  by (simp_all add: refs_def)

section \<open>Changing one inode\<close>

lemma nth_upd: "xs[i := v] ! j = (if i = j \<and> i < length xs then v else xs ! j)"
  by (cases "i < length xs") (auto simp: nth_list_update list_update_beyond)

lemma one_copy_same:
  assumes "one_copy ips" "same_entry (ips ! i) ip"
  shows "one_copy (ips[i := ip])"
  using assms unfolding one_copy_def same_entry_def
  by (auto simp: nth_upd)

lemma one_copy_free:
  assumes "one_copy ips" "i_count ip = 0"
  shows "one_copy (ips[i := ip])"
  using assms unfolding one_copy_def by (auto simp: nth_upd)

lemma one_copy_add:
  assumes "one_copy ips" "\<forall>ip' \<in> set ips. \<not> (i_dev ip' = i_dev ip \<and> i_number ip' = i_number ip \<and> i_count ip' \<noteq> 0)"
  shows "one_copy (ips[i := ip])"
proof -
  have new: False if "k < length ips" "i_count (ips ! k) \<noteq> 0" "i_dev (ips ! k) = i_dev ip"
      "i_number (ips ! k) = i_number ip" for k
    using assms(2) nth_mem [OF that(1)] that by blast
  have old: "\<And>a b. a < length ips \<Longrightarrow> b < length ips \<Longrightarrow> i_count (ips ! a) \<noteq> 0 \<Longrightarrow> i_count (ips ! b) \<noteq> 0 \<Longrightarrow>
      i_dev (ips ! a) = i_dev (ips ! b) \<Longrightarrow> i_number (ips ! a) = i_number (ips ! b) \<Longrightarrow> a = b"
    using assms(1) unfolding one_copy_def by blast
  show ?thesis
    unfolding one_copy_def length_list_update
  proof (intro allI impI)
    fix a b
    assume h: "a < length ips" "b < length ips" "i_count (ips[i := ip] ! a) \<noteq> 0"
      "i_count (ips[i := ip] ! b) \<noteq> 0" "i_dev (ips[i := ip] ! a) = i_dev (ips[i := ip] ! b)"
      "i_number (ips[i := ip] ! a) = i_number (ips[i := ip] ! b)"
    show "a = b"
    proof (cases "a = i"; cases "b = i")
      assume e: "a = i" "b \<noteq> i"
      then show ?thesis using h new [of b] by simp
    next
      assume e: "a \<noteq> i" "b = i"
      then show ?thesis using h new [of a] by simp
    next
      assume e: "a \<noteq> i" "b \<noteq> i"
      then show ?thesis using h old [of a b] by simp
    qed simp
  qed
qed

lemma set_ip_simps [simp]:
  "m_Inode (set_ip i ip s) = (m_Inode s)[i := ip]" "m_File (set_ip i ip s) = m_File s"
  "u_ofiles (set_ip i ip s) = u_ofiles s" "u_eax (set_ip i ip s) = u_eax s" "u_uid (set_ip i ip s) = u_uid s"
  "u_gid (set_ip i ip s) = u_gid s" "fm.more (set_ip i ip s) = fm.more s" "u_error (set_ip i ip s) = u_error s"
  "m_Mount (set_ip i ip s) = m_Mount s" "disk (set_ip i ip s) = disk s" "umem (set_ip i ip s) = umem s"
  "ktime (set_ip i ip s) = ktime s" "bad_sector (set_ip i ip s) = bad_sector s" "rablock (set_ip i ip s) = rablock s"
  "updlock (set_ip i ip s) = updlock s"
  by (simp_all add: set_ip_def)

lemma set_file_simps [simp]:
  "m_File (set_file f pf s) = (m_File s)[f := pf]" "m_Inode (set_file f pf s) = m_Inode s"
  "u_ofiles (set_file f pf s) = u_ofiles s" "u_eax (set_file f pf s) = u_eax s" "u_uid (set_file f pf s) = u_uid s"
  "u_gid (set_file f pf s) = u_gid s" "fm.more (set_file f pf s) = fm.more s" "u_error (set_file f pf s) = u_error s"
  "m_Mount (set_file f pf s) = m_Mount s" "disk (set_file f pf s) = disk s" "umem (set_file f pf s) = umem s"
  "ktime (set_file f pf s) = ktime s" "bad_sector (set_file f pf s) = bad_sector s" "rablock (set_file f pf s) = rablock s"
  "updlock (set_file f pf s) = updlock s"
  by (simp_all add: set_file_def)

lemma refs_set_ip_same:
  assumes "refs H F I s" "same_entry (m_Inode s ! i) ip"
  shows "refs H F I (set_ip i ip s)"
  using assms unfolding refs_def inode_refs_def
  by (auto simp: one_copy_same nth_upd same_entry_def)

lemma refs_set_ip_count:
  assumes r: "refs H F I s" and i: "i < NINODE" and o: "one_copy ((m_Inode s)[i := ip])"
    and m: "\<not> mounted ip" and n: "0 \<le> n" and c: "i_count ip - n = i_count (m_Inode s ! i) - I i"
  shows "refs H F (I(i := n)) (set_ip i ip s)"
  using assms unfolding refs_def inode_refs_def by (auto simp: nth_upd)

section \<open>The inode table\<close>

lemma one_copy_count:
  assumes "one_copy ips" "i < length ips" "i_count (ips ! i) \<noteq> 0"
    "i_dev ip = i_dev (ips ! i)" "i_number ip = i_number (ips ! i)"
  shows "one_copy (ips[i := ip])"
  using assms unfolding one_copy_def by (auto simp: nth_upd)

abbreviation kept :: "'a fm_scheme \<Rightarrow> 'a fm_scheme \<Rightarrow> bool" where
  "kept s s' \<equiv> m_File s' = m_File s \<and> u_ofiles s' = u_ofiles s \<and> u_uid s' = u_uid s \<and> u_gid s' = u_gid s \<and>
     fm.more s' = fm.more s"

lemma refs_mounted: "refs H F I s \<Longrightarrow> i < NINODE \<Longrightarrow> \<not> mounted (m_Inode s ! i)"
  by (simp add: refs_def inode_refs_def)

lemma IPut_refs:
  assumes r: "refs H F I s" and i: "i < NINODE" and I: "0 < I i"
  shows "after (IPut stale i s) (\<lambda>s'. refs H F (I(i := I i - 1)) s' \<and> kept s s')"
proof -
  let ?ip = "m_Inode s ! i"
  have len: "i < length (m_Inode s)" using refs_lengths [OF r] i by simp
  have oc: "one_copy (m_Inode s)" using r by (simp add: refs_def inode_refs_def)
  have c0: "i_count ?ip \<noteq> 0" using refs_count [OF r i I] by simp
  note done_more = more_tables
  show ?thesis
  proof (cases "i_count ?ip = 1")
    case True
    have fin: "refs H F (I(i := I i - 1)) (set_ip i ip s') \<and> kept s (set_ip i ip s')"
      if "ifs.more s' = ifs.more s" "i_count ip = 0" "\<not> mounted ip" for s' :: "'a fm_scheme" and ip
      using that True I i
      by (auto simp: more_tables [OF that(1)] intro!: refs_set_ip_count refs_more [OF r] one_copy_free [OF oc])
    have upd: "after (IUpdate ip tm s') (\<lambda>s''. refs H F (I(i := I i - 1)) (set_ip i ip' s'') \<and>
          kept s (set_ip i ip' s''))"
      if "ifs.more s' = ifs.more s" "i_count ip' = 0" "\<not> mounted ip'" for s' :: "'a fm_scheme" and ip ip' tm
      by (rule after_mono [OF after_IUpdate]) (rule fin, use that in \<open>auto dest!: ifs_more_fsys\<close>)
    have free: "after (FS_IFree s' d n) (\<lambda>s''. ifs.more s'' = ifs.more s)"
      if "ifs.more s' = ifs.more s" for s' :: "'a fm_scheme" and d n
      by (rule after_mono [OF after_FS_IFree]) (use that in \<open>auto dest!: ifs_more_fsys\<close>)
    have tr: "after (ITrunc stale ip s) (\<lambda>(ip', s'). i_count ip' = i_count ip \<and> ifs.more s' = ifs.more s)" for ip
      by (rule after_mono [OF after_ITrunc]) (auto simp: same_entry_def)
    show ?thesis using True
      unfolding IPut_def Let_def
      by (auto intro!: after_mono [OF tr] after_mono [OF free] upd simp: split_def
          simp del: set_ip_simps)
  next
    case False
    have "refs H F (I(i := I i - 1)) (set_ip i (snd (unlock (?ip\<lparr>i_count := i_count ?ip - 1\<rparr>))) s)"
      using I refs_mounted [OF r i] by (intro refs_set_ip_count [OF r i] one_copy_count [OF oc len c0])
        (auto simp: unlock_def Let_def)
    then show ?thesis using False by (simp add: IPut_def Let_def)
  qed
qed

lemma IPut_refs': "refs H F (I(i := I i + 1)) s \<Longrightarrow> i < NINODE \<Longrightarrow> 0 \<le> I i \<Longrightarrow>
    after (IPut stale i s) (\<lambda>s'. refs H F I s' \<and> kept s s')"
  using IPut_refs [of H F "I(i := I i + 1)" s i] by simp

lemma scan_inode:
  assumes "scan P (m_Inode s) = Some i" "refs H F I s"
  shows "i < NINODE" "P (m_Inode s ! i)"
  using scan_SomeD [OF assms(1)] refs_lengths [OF assms(2)] by simp_all

text \<open>A reference more to an inode in core.\<close>

lemma refs_hold:
  assumes r: "refs H F I s" and i: "i < NINODE" and c: "i_count (m_Inode s ! i) \<noteq> 0"
    and k: "i_dev ip = i_dev (m_Inode s ! i)" "i_number ip = i_number (m_Inode s ! i)"
      "i_count ip = i_count (m_Inode s ! i) + 1" "\<not> mounted ip"
  shows "refs H F (I(i := I i + 1)) (set_ip i ip s)"
proof (rule refs_set_ip_count [OF r i])
  show "one_copy ((m_Inode s)[i := ip])"
    using r refs_lengths [OF r] i c k by (intro one_copy_count) (auto simp: refs_def inode_refs_def)
qed (use refs_nonneg [OF r i] k in simp_all)

definition got :: "nat set \<Rightarrow> (nat \<Rightarrow> int) \<Rightarrow> (nat \<Rightarrow> int) \<Rightarrow> 'a fm_scheme \<Rightarrow> nat option \<times> 'a fm_scheme \<Rightarrow> bool" where
  "got H F I s = (\<lambda>(r, s'). kept s s' \<and>
     (case r of None \<Rightarrow> refs H F I s' | Some i \<Rightarrow> i < NINODE \<and> refs H F (I(i := I i + 1)) s'))"

lemma IGet_loop_refs:
  assumes r: "refs H F I s"
  shows "after (IGet_loop stale n dev ino s) (got H F I s)"
  using r
proof (induction n arbitrary: dev ino)
  case (Suc n)
  show ?case
  proof (cases "IsLoaded dev ino s")
    case (Some i)
    note sc = scan_inode [OF Some [unfolded IsLoaded_def] r]
    show ?thesis using Some sc
      by (auto simp: got_def Let_def intro!: refs_hold [OF r] Suc.IH [unfolded got_def, OF r] intro: afterI after_mono)
  next
    case None
    have abs: "\<forall>ip\<in>set (m_Inode s). \<not> (i_dev ip = dev \<and> i_number ip = ino \<and> i_count ip \<noteq> 0)"
      using None by (simp add: IsLoaded_def scan_None)
    show ?thesis
    proof (cases "GetFreeInode s")
      case None
      then show ?thesis using \<open>IsLoaded dev ino s = None\<close> r by (simp add: got_def)
    next
      case (Some i)
      note sc = scan_inode [OF Some [unfolded GetFreeInode_def] r]
      have add: "refs H F (I(i := I i + 1)) (set_ip i ip s)"
        if "i_dev ip = dev" "i_number ip = ino" "i_count ip = i_count (m_Inode s ! i) + 1" "\<not> mounted ip" for ip
      proof (rule refs_set_ip_count [OF r sc(1)])
        show "one_copy ((m_Inode s)[i := ip])"
          using r abs that by (intro one_copy_add) (auto simp: refs_def inode_refs_def)
      qed (use refs_nonneg [OF r sc(1)] that in simp_all)
      let ?ip = "(m_Inode s ! i)\<lparr>i_dev := dev, i_number := ino, i_flag := ILOCK,
                          i_count := i_count (m_Inode s ! i) + 1, i_lastr := -1\<rparr>"
      have "refs H F (I(i := I i + 1)) ((set_ip i ?ip s)\<lparr>u_error := EIO\<rparr>)"
        using add by simp
      then have "after (IPut stale i ((set_ip i ?ip s)\<lparr>u_error := EIO\<rparr>)) (\<lambda>s'. got H F I s (None, s'))"
        by (rule after_mono [OF IPut_refs' [where I = I and i = i, OF _ sc(1) refs_nonneg [OF r sc(1)]]]) (simp add: got_def)
      moreover have "got H F I s (Some i, set_ip i (ICopy ?ip (disk s dev (dinode_sector ?ip)) ino) s)"
        using sc(1) add by (simp add: got_def ICopy_def Let_def)
      ultimately show ?thesis using None Some by (simp add: Let_def)
    qed
  qed
qed simp

lemma IGet_refs: "refs H F I s \<Longrightarrow> after (IGet stale dev ino s) (got H F I s)"
  unfolding IGet_def by (rule IGet_loop_refs)

text \<open>\<open>IPut\<close> does not touch \<open>u_error\<close>; a failing \<open>IGet\<close> sets it.\<close>

lemma IPut_error: "after (IPut stale i s) (\<lambda>s'. u_error s' = u_error s)"
proof -
  have upd: "after (IUpdate ip tm s') (\<lambda>s''. u_error s'' = u_error s)"
    if "u_error s' = u_error s" for s' :: "'a fm_scheme" and ip tm
    by (rule after_mono [OF after_IUpdate]) (simp add: that)
  have free: "after (FS_IFree s' d n) (\<lambda>s''. u_error s'' = u_error s)"
    if "u_error s' = u_error s" for s' :: "'a fm_scheme" and d n
    by (rule after_mono [OF after_FS_IFree]) (simp add: that)
  have tr: "after (ITrunc stale ip s) (\<lambda>(ip', s'). u_error s' = u_error s)" for ip
    by (rule after_mono [OF after_ITrunc]) auto
  show ?thesis
    unfolding IPut_def Let_def
    by (auto intro!: after_mono [OF tr] after_mono [OF free] after_mono [OF upd] simp: split_def)
qed

lemma IGet_loop_error:
  "after (IGet_loop stale n dev ino s)
     (\<lambda>(r, s'). case r of None \<Rightarrow> u_error s' \<noteq> NOERROR | Some i \<Rightarrow> u_error s' = u_error s)"
proof (induction n arbitrary: dev ino)
  case (Suc n)
  then show ?case
    by (auto simp: Let_def split: option.split intro: afterI after_mono intro!: after_mono [OF IPut_error])
qed simp

lemma IGet_error:
  "after (IGet stale dev ino s)
     (\<lambda>(r, s'). case r of None \<Rightarrow> u_error s' \<noteq> NOERROR | Some i \<Rightarrow> u_error s' = u_error s)"
  unfolding IGet_def by (rule IGet_loop_error)

text \<open>An inode in core is found again.\<close>

lemma IGet_same:
  assumes r: "refs H F I s" and i: "i < NINODE" "0 < I i"
  shows "after (IGet stale (i_dev (m_Inode s ! i)) (i_number (m_Inode s ! i)) s) (\<lambda>(j, s').
    j = Some i \<and> kept s s' \<and> refs H F (I(i := I i + 1)) s')"
proof -
  let ?P = "\<lambda>ip. i_dev ip = i_dev (m_Inode s ! i) \<and> i_number ip = i_number (m_Inode s ! i) \<and> i_count ip \<noteq> 0"
  have c: "i_count (m_Inode s ! i) \<noteq> 0" using refs_count [OF r i] by simp
  have "scan ?P (m_Inode s) \<noteq> None"
    using c i refs_lengths [OF r] unfolding scan_None by (auto intro!: bexI [of _ "m_Inode s ! i"])
  then obtain j where j: "scan ?P (m_Inode s) = Some j" by auto
  have "j = i"
    using scan_SomeD [OF j] r refs_lengths [OF r] i c unfolding refs_def inode_refs_def one_copy_def by auto
  then have "IsLoaded (i_dev (m_Inode s ! i)) (i_number (m_Inode s ! i)) s = Some i"
    using j by (simp add: IsLoaded_def)
  then show ?thesis
    using c i refs_mounted [OF r i(1)] by (auto simp: IGet_def Let_def intro!: refs_hold [OF r])
qed

section \<open>Open files and descriptors\<close>

lemma files_of_update:
  assumes "f < length fs"
  shows "files_of H (fs[f := pf]) i =
    files_of H fs i - (if f \<notin> H \<and> uses (fs ! f) i then 1 else 0) + (if f \<notin> H \<and> uses pf i then 1 else 0)"
  using assms unfolding files_of_def by (subst sum_change [of f]) auto

lemma files_of_insert:
  assumes "f < length fs" "f \<notin> H"
  shows "files_of (insert f H) fs i = files_of H fs i - (if uses (fs ! f) i then 1 else 0)"
  using assms unfolding files_of_def by (subst sum_change [of f]) auto

lemma fds_of_update:
  "k < length fds \<Longrightarrow> fds_of (fds[k := b]) f =
     fds_of fds f - (if fds ! k = Some f then 1 else 0) + (if b = Some f then 1 else 0)"
  unfolding fds_of_def by (subst sum_change [of k]) auto

lemma refs_file:
  assumes "refs H F I s" "f < NFILE"
  shows "0 \<le> F f" "f_count (m_File s ! f) = F f + fds_of (u_ofiles s) f"
    "f_count (m_File s ! f) \<noteq> 0 \<Longrightarrow> f \<notin> H \<Longrightarrow> \<exists>i < NINODE. f_inode (m_File s ! f) = Some i"
  using assms by (auto simp: refs_def file_refs_def)

lemma fds_of_mem: "k < length fds \<Longrightarrow> fds ! k = Some f \<Longrightarrow> 0 < fds_of fds f"
  using sum_change [of k "length fds" "\<lambda>j. if fds ! j = Some f then 1 else 0" "\<lambda>j. if j \<noteq> k \<and> fds ! j = Some f then 1 else 0"]
    sum_nonneg [of "{..<length fds}" "\<lambda>j. if j \<noteq> k \<and> fds ! j = Some f then 1 else (0 :: int)"]
  by (simp add: fds_of_def)

lemma refs_fds:
  assumes r: "refs H F I s" and k: "k < NOFILES" and b: "\<And>f. b = Some f \<Longrightarrow> f < NFILE"
    and F': "\<And>x. F' x = F x + (if u_ofiles s ! k = Some x then 1 else 0) - (if b = Some x then 1 else 0)"
    and pos: "\<And>x. x < NFILE \<Longrightarrow> 0 \<le> F' x"
  shows "refs H F' I (s\<lparr>u_ofiles := (u_ofiles s)[k := b]\<rparr>)"
proof -
  have sub: "set ((u_ofiles s)[k := b]) \<subseteq> insert b (set (u_ofiles s))" by (rule set_update_subset_insert)
  have fr: "file_refs H F (m_File s) (u_ofiles s)" and ir: "inode_refs H I (m_Inode s) (m_File s)"
    using r by (simp_all add: refs_def)
  have len: "k < length (u_ofiles s)" using refs_lengths [OF r] k by simp
  have "file_refs H F' (m_File s) ((u_ofiles s)[k := b])"
    unfolding file_refs_def
  proof (intro conjI allI impI ballI)
    show "f < NFILE" if "Some f \<in> set ((u_ofiles s)[k := b])" for f
      using that sub fr b [of f] unfolding file_refs_def by blast
    show "f_count (m_File s ! f) = F' f + fds_of ((u_ofiles s)[k := b]) f" if "f < NFILE" for f
      using that fr unfolding file_refs_def F' fds_of_update [OF len] by simp
  qed (use fr pos in \<open>auto simp: file_refs_def\<close>)
  then show ?thesis using ir by (simp add: refs_def)
qed

lemma refs_detach:
  assumes r: "refs H F I s" and f: "f < NFILE" "f \<notin> H" "f_count (m_File s ! f) \<noteq> 0" "f_inode (m_File s ! f) = Some i"
  shows "i < NINODE" "refs (insert f H) F (I(i := I i + 1)) s"
proof -
  show i: "i < NINODE" using refs_file(3) [OF r f(1) f(3,2)] f(4) by auto
  have u: "uses (m_File s ! f) j \<longleftrightarrow> j = i" for j using f by (auto simp: uses_def)
  have "inode_refs (insert f H) (I(i := I i + 1)) (m_Inode s) (m_File s)"
    using r refs_lengths [OF r] f
    by (auto simp: refs_def inode_refs_def files_of_insert u)
  then show "refs (insert f H) F (I(i := I i + 1)) s"
    using r f by (auto simp: refs_def file_refs_def)
qed

lemma refs_attach:
  assumes r: "refs (insert f H) F I s" and f: "f \<notin> H" and i: "i < NINODE" "0 < I i"
    and pf: "f_inode pf = Some i" "f_count pf = f_count (m_File s ! f)"
  shows "refs H F (I(i := I i - 1)) (set_file f pf s)"
proof -
  have fr: "file_refs (insert f H) F (m_File s) (u_ofiles s)"
    and ir: "inode_refs (insert f H) I (m_Inode s) (m_File s)" using r by (simp_all add: refs_def)
  have fl: "f < NFILE" and fc: "f_count (m_File s ! f) \<noteq> 0" using fr by (auto simp: file_refs_def)
  have len: "f < length (m_File s)" using fl refs_lengths [OF r] by simp
  have u: "uses pf j \<longleftrightarrow> j = i" for j using pf fc by (auto simp: uses_def)
  have "files_of H ((m_File s)[f := pf]) j = files_of (insert f H) (m_File s) j + (if j = i then 1 else 0)" for j
    using f len by (simp add: files_of_update files_of_insert u)
  then have "inode_refs H (I(i := I i - 1)) (m_Inode s) ((m_File s)[f := pf])"
    using ir i by (simp add: inode_refs_def)
  moreover have "file_refs H F ((m_File s)[f := pf]) (u_ofiles s)"
    using fr pf i by (auto simp: file_refs_def nth_upd)
  ultimately show ?thesis by (simp add: refs_def)
qed

lemma refs_drop:
  assumes r: "refs (insert f H) F I s" and f: "f \<notin> H" "f_count (m_File s ! f) = 1" "0 < F f"
    and pf: "f_count pf = 0"
  shows "refs H (F(f := F f - 1)) I (set_file f pf s)"
proof -
  have fr: "file_refs (insert f H) F (m_File s) (u_ofiles s)"
    and ir: "inode_refs (insert f H) I (m_Inode s) (m_File s)" using r by (simp_all add: refs_def)
  have fl: "f < NFILE" using fr by (auto simp: file_refs_def)
  have len: "f < length (m_File s)" using fl refs_lengths [OF r] by simp
  have "files_of H ((m_File s)[f := pf]) j = files_of (insert f H) (m_File s) j" for j
    using f len pf by (simp add: files_of_update files_of_insert uses_def)
  then have "inode_refs H I (m_Inode s) ((m_File s)[f := pf])"
    using ir by (simp add: inode_refs_def)
  moreover have "file_refs H (F(f := F f - 1)) ((m_File s)[f := pf]) (u_ofiles s)"
    using fr pf f by (auto simp: file_refs_def nth_upd)
  ultimately show ?thesis by (simp add: refs_def)
qed

lemma refs_file_count:
  assumes r: "refs H F I s" and f: "f < NFILE" "f \<notin> H" "f_count (m_File s ! f) \<noteq> 0"
    and pf: "f_count pf \<noteq> 0" "f_inode pf = f_inode (m_File s ! f)"
    and n: "0 \<le> n" "f_count pf - n = f_count (m_File s ! f) - F f"
  shows "refs H (F(f := n)) I (set_file f pf s)"
proof -
  have len: "f < length (m_File s)" using f refs_lengths [OF r] by simp
  have "files_of H ((m_File s)[f := pf]) j = files_of H (m_File s) j" for j
    using f len pf by (simp add: files_of_update uses_def)
  then have "inode_refs H I (m_Inode s) ((m_File s)[f := pf])"
    using r by (simp add: inode_refs_def refs_def)
  moreover have "file_refs H (F(f := n)) ((m_File s)[f := pf]) (u_ofiles s)"
    using r pf f n by (auto simp: file_refs_def refs_def nth_upd)
  ultimately show ?thesis by (simp add: refs_def)
qed

lemma refs_new:
  assumes r: "refs H F I s" and f: "f < NFILE" "f_count (m_File s ! f) = 0" and pf: "f_count pf = 1"
  shows "f \<notin> H" "F f = 0" "refs (insert f H) (F(f := 1)) I (set_file f pf s)"
proof -
  have fr: "file_refs H F (m_File s) (u_ofiles s)"
    and ir: "inode_refs H I (m_Inode s) (m_File s)" using r by (simp_all add: refs_def)
  show nH: "f \<notin> H" using fr f by (auto simp: file_refs_def)
  show F0: "F f = 0" using refs_file(1,2) [OF r f(1)] f(2) fds_of_nonneg [of "u_ofiles s" f] by linarith
  have len: "f < length (m_File s)" using f refs_lengths [OF r] by simp
  have "files_of (insert f H) ((m_File s)[f := pf]) j = files_of H (m_File s) j" for j
    using f len nH by (simp add: files_of_update files_of_insert uses_def)
  then have "inode_refs (insert f H) I (m_Inode s) ((m_File s)[f := pf])"
    using ir by (simp add: inode_refs_def)
  moreover have "file_refs (insert f H) (F(f := 1)) ((m_File s)[f := pf]) (u_ofiles s)"
    using fr pf f nH F0 refs_file(1,2) [OF r f(1)] by (auto simp: file_refs_def nth_upd)
  ultimately show "refs (insert f H) (F(f := 1)) I (set_file f pf s)" by (simp add: refs_def)
qed

subsection \<open>The calls on descriptors\<close>

lemma AllocFreeSlot_cases:
  assumes "AllocFreeSlot s = (fd, s')" "refs H F I s"
  shows "(fd < 0 \<and> refs H F I s') \<or>
    (\<exists>k. fd = int k \<and> k < NOFILES \<and> u_ofiles s ! k = None \<and> s' = s\<lparr>u_eax := int k\<rparr>)"
  using assms refs_lengths [OF assms(2)]
  by (auto simp: AllocFreeSlot_def dest!: scan_SomeD split: option.splits)

lemma GetF_cases:
  assumes "GetF fd s = (x, s')" "refs H F I s"
  shows "(x = None \<and> s' = s\<lparr>u_error := EBADF\<rparr>) \<or>
    (\<exists>k f. fd = int k \<and> k < NOFILES \<and> x = Some f \<and> u_ofiles s ! k = Some f \<and> f < NFILE \<and> s' = s \<and>
       0 < f_count (m_File s ! f))"
proof (cases "fd < 0 \<or> fd \<ge> int NOFILES \<or> u_ofiles s ! nat fd = None")
  case True
  then show ?thesis using assms(1) by (auto simp: GetF_def split: if_splits)
next
  case False
  then obtain f where f: "u_ofiles s ! nat fd = Some f" by auto
  have k: "nat fd < length (u_ofiles s)" using False refs_lengths [OF assms(2)] by (simp add: nat_less_iff)
  have fl: "f < NFILE" using assms(2) nth_mem [OF k] f by (auto simp: refs_def file_refs_def)
  have "0 < f_count (m_File s ! f)"
    using refs_file(1,2) [OF assms(2) fl] fds_of_mem [OF k f] by simp
  then show ?thesis using False f fl assms(1)
    by (intro disjI2 exI [of _ "nat fd"] exI [of _ f]) (auto simp: GetF_def)
qed

lemma SetF_eq: "k < NOFILES \<Longrightarrow> SetF (int k) b s = s\<lparr>u_ofiles := (u_ofiles s)[k := b]\<rparr>"
  by (simp add: SetF_def)

text \<open>
  \<open>FAlloc\<close>: the new open file has one reference, the new descriptor, and waits for its inode.
\<close>

lemma FAlloc_refs:
  assumes a: "FAlloc s = (x, s')" and r: "refs H F I s"
  shows "m_Inode s' = m_Inode s \<and> fm.more s' = fm.more s \<and> disk s' = disk s \<and>
    (case x of
       None \<Rightarrow> refs H F I s'
     | Some f \<Rightarrow> f \<notin> H \<and> refs (insert f H) F I s' \<and> f_count (m_File s' ! f) = 1 \<and>
         (\<exists>k < NOFILES. u_eax s' = int k \<and> u_ofiles s' ! k = Some f))"
proof -
  obtain fd s1 where s1: "AllocFreeSlot s = (fd, s1)" by fastforce
  consider "fd < 0" "refs H F I s1" |
    k where "fd = int k" "k < NOFILES" "u_ofiles s ! k = None" "s1 = s\<lparr>u_eax := int k\<rparr>"
    using AllocFreeSlot_cases [OF s1 r] by auto
  then show ?thesis
  proof cases
    case 1
    then show ?thesis using a s1
      by (auto simp: FAlloc_def AllocFreeSlot_def split: option.splits)
  next
    case (2 k)
    show ?thesis
    proof (cases "scan (\<lambda>f. f_count f = 0) (m_File s)")
      case None
      then show ?thesis using a s1 2 r by (auto simp: FAlloc_def)
    next
      case (Some f)
      have f: "f < NFILE" "f_count (m_File s ! f) = 0"
        using scan_SomeD [OF Some] refs_lengths [OF r] by auto
      let ?pf = "(m_File s ! f)\<lparr>f_count := f_count (m_File s ! f) + 1, f_offset := 0\<rparr>"
      let ?t = "set_file f ?pf s"
      have pf: "f_count ?pf = 1" using f by simp
      note new = refs_new [OF r f pf]
      have "refs (insert f H) F I (?t\<lparr>u_ofiles := (u_ofiles ?t)[k := Some f]\<rparr>)"
        using refs_file(1) [OF r] 2 f new(2) by (intro refs_fds [OF new(3)]) auto
      moreover have s': "x = Some f \<and> s' = set_file f ?pf (s\<lparr>u_eax := int k, u_ofiles := (u_ofiles s)[k := Some f]\<rparr>)"
        using a s1 2 Some by (auto simp: FAlloc_def SetF_eq)
      ultimately have "refs (insert f H) F I s'" by (elim refs_frame) (simp_all add: set_file_def)
      then show ?thesis using s' new(1) f 2 refs_lengths [OF r]
        by (auto simp: set_file_def intro!: exI [of _ k])
    qed
  qed
qed

lemma Dup_refs:
  assumes r: "refs {} F I s"
  shows "refs {} F I (Dup fd s) \<and> m_Inode (Dup fd s) = m_Inode s \<and> fm.more (Dup fd s) = fm.more s"
proof -
  obtain x s1 where g: "GetF fd s = (x, s1)" by fastforce
  consider "x = None" "s1 = s\<lparr>u_error := EBADF\<rparr>" |
    f where "x = Some f" "f < NFILE" "s1 = s" "0 < f_count (m_File s ! f)"
    using GetF_cases [OF g r] by auto
  then show ?thesis
  proof cases
    case 1
    then show ?thesis using g r by (simp add: Dup_def)
  next
    case (2 f)
    obtain nfd s2 where al: "AllocFreeSlot s = (nfd, s2)" by fastforce
    consider "nfd < 0" "refs {} F I s2" |
      k where "nfd = int k" "k < NOFILES" "u_ofiles s ! k = None" "s2 = s\<lparr>u_eax := int k\<rparr>"
      using AllocFreeSlot_cases [OF al r] by auto
    then show ?thesis
    proof cases
      case 1
      then show ?thesis using g 2 al
        by (auto simp: Dup_def AllocFreeSlot_def split: option.splits)
    next
      case (2 k)
      let ?pf = "(m_File s ! f)\<lparr>f_count := f_count (m_File s ! f) + 1\<rparr>"
      let ?t = "set_file f ?pf s"
      have t: "refs {} (F(f := F f + 1)) I ?t"
        using \<open>f < NFILE\<close> \<open>0 < f_count (m_File s ! f)\<close> refs_file(1) [OF r \<open>f < NFILE\<close>]
        by (intro refs_file_count [OF r]) auto
      have "refs {} F I (?t\<lparr>u_ofiles := (u_ofiles ?t)[k := Some f]\<rparr>)"
        using refs_file(1) [OF r] 2 \<open>f < NFILE\<close> by (intro refs_fds [OF t]) auto
      moreover have s': "Dup fd s = set_file f ?pf (s\<lparr>u_eax := int k, u_ofiles := (u_ofiles s)[k := Some f]\<rparr>)"
        using g \<open>x = Some f\<close> \<open>s1 = s\<close> al 2 by (simp add: Dup_def SetF_eq)
      ultimately have "refs {} F I (Dup fd s)" by (elim refs_frame) (simp_all add: set_file_def)
      then show ?thesis using s' by simp
    qed
  qed
qed

lemma CloseI_eq: "CloseI ip s = Done s \<or> CloseI ip s = Panic"
  by (simp add: CloseI_def)

text \<open>
  \<open>Close\<close> gives up one descriptor; the last descriptor of an open file gives up the inode.
\<close>

lemma CloseF_refs:
  assumes r: "refs {} (F(f := F f + 1)) I s" and f: "f < NFILE" "0 \<le> F f"
  shows "after (CloseF stale f s) (\<lambda>s'. refs {} F I s' \<and> u_ofiles s' = u_ofiles s \<and> fm.more s' = fm.more s)"
proof -
  let ?pf = "m_File s ! f"
  have cnt: "0 < f_count ?pf" using refs_file(2) [OF r f(1)] f(2) fds_of_nonneg [of "u_ofiles s" f] by (simp del: fds_of_nonneg)
  then obtain i where i: "f_inode ?pf = Some i" "i < NINODE" using refs_file(3) [OF r f(1)] by auto
  let ?ip = "m_Inode s ! i"
  let ?ip' = "if has_flag (f_flag ?pf) FPIPE then ?ip\<lparr>i_mode := clear_flag (i_mode ?ip) (IREAD OR IWRITE)\<rparr> else ?ip"
  let ?s = "set_ip i ?ip' s"
  have r': "refs {} (F(f := F f + 1)) I ?s" by (rule refs_set_ip_same [OF r]) auto
  show ?thesis
  proof (cases "f_count ?pf \<le> 1")
    case True
    have one: "f_count ?pf = 1" using True cnt by simp
    have one': "f_count (m_File ?s ! f) = 1" using one by simp
    have det: "refs {f} (F(f := F f + 1)) (I(i := I i + 1)) ?s"
      using refs_detach(2) [OF r' f(1)] one i by simp
    have put: "after (IPut stale i ?s) (\<lambda>s'. refs {f} (F(f := F f + 1)) I s' \<and> kept ?s s')"
      using IPut_refs [OF det i(2)] refs_nonneg [OF r' i(2)] by simp
    have fin: "refs {} F I (set_file f (?pf\<lparr>f_count := f_count ?pf - 1\<rparr>) s')"
      if "refs {f} (F(f := F f + 1)) I s'" "kept ?s s'" for s' :: "'a fm_scheme"
      using refs_drop [OF that(1), of "?pf\<lparr>f_count := f_count ?pf - 1\<rparr>"] that(2) one f by (simp add: fun_upd_idem)
    have "after (IPut stale i ?s) (\<lambda>s'. refs {} F I (set_file f (?pf\<lparr>f_count := f_count ?pf - 1\<rparr>) s') \<and>
        u_ofiles s' = u_ofiles s \<and> fm.more s' = fm.more s)"
      by (rule after_mono [OF put]) (use fin in auto)
    then show ?thesis
      using CloseI_eq [of ?ip' ?s] i one by (auto simp: CloseF_def Let_def)
  next
    case False
    have "refs {} ((F(f := F f + 1))(f := F f)) I (set_file f (?pf\<lparr>f_count := f_count ?pf - 1\<rparr>) ?s)"
      using False f by (intro refs_file_count [OF r']) auto
    then show ?thesis using False i f by (simp add: CloseF_def Let_def fun_upd_idem)
  qed
qed

lemma Close_refs:
  assumes r: "refs {} F I s"
  shows "after (Close stale fd s) (\<lambda>s'. refs {} F I s' \<and> fm.more s' = fm.more s)"
proof -
  obtain x s1 where g: "GetF fd s = (x, s1)" by fastforce
  consider "x = None" "s1 = s\<lparr>u_error := EBADF\<rparr>" |
    k f where "x = Some f" "f < NFILE" "s1 = s" "fd = int k" "k < NOFILES" "u_ofiles s ! k = Some f"
    using GetF_cases [OF g r] by auto
  then show ?thesis
  proof cases
    case 1
    then show ?thesis using g r by (simp add: Close_def)
  next
    case (2 k f)
    let ?s = "s\<lparr>u_ofiles := (u_ofiles s)[k := None]\<rparr>"
    have "refs {} (F(f := F f + 1)) I ?s"
      using 2 refs_file(1) [OF r] by (intro refs_fds [OF r]) (auto intro: add_nonneg_nonneg)
    then have "after (CloseF stale f ?s) (\<lambda>s'. refs {} F I s' \<and> u_ofiles s' = u_ofiles ?s \<and> fm.more s' = fm.more ?s)"
      using 2 refs_file(1) [OF r] by (intro CloseF_refs) auto
    then show ?thesis using 2 g by (auto simp: Close_def SetF_eq elim: after_mono)
  qed
qed

lemma OpenI_more: "after (OpenI ip s) (\<lambda>s'. s' = s \<or> s' = s\<lparr>u_error := ENXIO\<rparr>)"
  by (simp add: OpenI_def)

lemma refs_Prele: "refs H F I s \<Longrightarrow> refs H F I (Prele i s)"
  unfolding Prele_def by (rule refs_set_ip_same) simp_all

lemma fm_more_Prele [simp]: "fm.more (Prele i s) = fm.more s"
  by (simp add: Prele_def)

lemma open_file_refs:
  assumes r: "refs {} F I s" and i: "i < NINODE" "0 < I i"
  shows "after (open_file stale i mode s) (\<lambda>s'. refs {} F (I(i := I i - 1)) s' \<and> fm.more s' = fm.more s)"
proof -
  obtain x s1 where fa: "FAlloc (Prele i s) = (x, s1)" by fastforce
  note fr = FAlloc_refs [OF fa refs_Prele [OF r]]
  have put: "after (IPut stale i s') (\<lambda>s'. refs {} F (I(i := I i - 1)) s' \<and> fm.more s' = fm.more s)"
    if "refs {} F I s'" "fm.more s' = fm.more s" for s' :: "'a fm_scheme"
    by (rule after_mono [OF IPut_refs [where s = s', OF that(1) i]]) (use that in auto)
  show ?thesis
  proof (cases x)
    case None
    then have "refs {} F I s1" "fm.more s1 = fm.more s" using fr by auto
    then show ?thesis using fa None
      by (auto simp: open_file_def intro!: put)
  next
    case (Some f)
    then obtain k where fr: "refs {f} F I s1" "f_count (m_File s1 ! f) = 1" "k < NOFILES"
      "u_eax s1 = int k" "u_ofiles s1 ! k = Some f" "fm.more s1 = fm.more s" using fr by auto
    have f: "f < NFILE" using fr(1) by (auto simp: refs_def file_refs_def)
    let ?pf = "(m_File s1 ! f)\<lparr>f_flag := mode AND (FREAD OR FWRITE), f_inode := Some i\<rparr>"
    let ?s = "set_file f ?pf s1"
    have att: "refs {} F (I(i := I i - 1)) ?s" using refs_attach [OF fr(1) _ i] by simp
    have fl: "f < length (m_File s1)" using f refs_lengths [OF fr(1)] by simp
    let ?undo = "\<lambda>s. set_file f ((m_File s ! f)\<lparr>f_count := f_count (m_File s ! f) - 1\<rparr>) (SetF (u_eax s) None s)"
    have undo: "refs {} F I (?undo t)" if "t = ?s \<or> t = ?s\<lparr>u_error := ENXIO\<rparr>" for t
    proof -
      have det: "refs {f} F I ?s" using refs_detach(2) [OF att f] fr(2) fl by (simp add: fun_upd_idem)
      have un: "refs {f} (F(f := F f + 1)) I (?s\<lparr>u_ofiles := (u_ofiles ?s)[k := None]\<rparr>)"
        using fr refs_file(1) [OF fr(1)] by (intro refs_fds [OF det]) (auto intro: add_nonneg_nonneg)
      have "refs {} F I
          (set_file f (?pf\<lparr>f_count := 0\<rparr>) (?s\<lparr>u_ofiles := (u_ofiles ?s)[k := None]\<rparr>))"
        using refs_drop [OF un, of "?pf\<lparr>f_count := 0\<rparr>"] fr fl refs_file(1) [OF fr(1) f]
        by (simp add: fun_upd_idem)
      then show ?thesis
        by (rule refs_frame) (use that fr fl in \<open>auto simp: SetF_eq set_file_def\<close>)
    qed
    have bad: "after (IPut stale i (?undo t))
        (\<lambda>s'. refs {} F (I(i := I i - 1)) s' \<and> fm.more s' = fm.more s)"
      if "t = ?s \<or> t = ?s\<lparr>u_error := ENXIO\<rparr>" for t
      by (rule put [OF undo [OF that]]) (use fr that in \<open>auto simp: SetF_eq\<close>)
    show ?thesis
      unfolding open_file_def Let_def fa split_def fst_conv snd_conv Some option.case after_kbind
      by (rule after_mono [OF OpenI_more]) (use att bad fr in auto)
  qed
qed

end
