(* ===== verification/RefCalls.thy ===== *)
theory RefCalls
  imports Refs
begin

text \<open>
  Every system call on files keeps the reference counts exact.
\<close>

section \<open>Calls on open files\<close>

abbreviation more_kept :: "'a fm_scheme \<Rightarrow> 'a fm_scheme \<Rightarrow> bool" where
  "more_kept s s' \<equiv> fm.more s' = fm.more s"

text \<open>A part of a call that has no effect on the tables.\<close>

definition tables_kept :: "'a fm_scheme \<Rightarrow> 'a fm_scheme \<Rightarrow> bool" where
  "tables_kept s s' \<longleftrightarrow> m_Inode s' = m_Inode s \<and> m_File s' = m_File s \<and> u_ofiles s' = u_ofiles s \<and> fm.more s' = fm.more s"

lemma refs_kept: "tables_kept s s' \<Longrightarrow> refs H F I s \<Longrightarrow> refs H F I s'"
  by (auto simp: tables_kept_def intro: refs_frame)

lemma tables_keptI: "ifs.more s' = ifs.more s \<Longrightarrow> tables_kept s s'"
  unfolding tables_kept_def using more_tables [of s' s] by blast

lemma tables_kept_refl [simp]: "tables_kept s s"
  by (simp add: tables_kept_def)

lemma tables_kept_trans: "tables_kept s t \<Longrightarrow> tables_kept t u \<Longrightarrow> tables_kept s u"
  by (simp add: tables_kept_def)

lemma tables_kept_upd [simp]:
  "tables_kept s (t\<lparr>u_error := e\<rparr>) = tables_kept s t" "tables_kept s (t\<lparr>umem := um\<rparr>) = tables_kept s t"
  "tables_kept s (t\<lparr>u_eax := a\<rparr>) = tables_kept s t"
  by (simp_all add: tables_kept_def)

lemma GetFS_kept: "after (GetFS s dev) (\<lambda>(m, sb, s'). tables_kept s s')" for s :: "'a fm_scheme"
  by (rule after_mono [OF after_GetFS]) (auto intro: tables_keptI ifs_more_fsys)

lemma IUpdate_kept: "after (IUpdate ip tm s) (tables_kept s)" for s :: "'a fm_scheme"
  by (rule after_mono [OF after_IUpdate]) (auto intro: tables_keptI ifs_more_fsys)

lemma Access_kept: "after (Access ip mode s) (\<lambda>(d, s'). tables_kept s s')"
  by (auto simp: Access_def Let_def intro!: after_mono [OF GetFS_kept])

lemma open_checks_kept: "after (open_checks ip mode s) (tables_kept s)"
proof -
  have acc: "after (Access ip m s') (\<lambda>(d, s''). tables_kept s s'')" if "tables_kept s s'" for m s'
    by (rule after_mono [OF Access_kept]) (use that in \<open>auto elim: tables_kept_trans\<close>)
  show ?thesis
    by (auto simp: open_checks_def intro!: after_mono [OF acc])
qed

lemma Stat1_kept: "after (Stat1 i buf s) (tables_kept s)"
  by (auto simp: Stat1_def Let_def intro!: after_mono [OF IUpdate_kept])

lemma Open1_refs:
  assumes r: "refs {} F I s" and i: "i < NINODE" "0 < I i"
  shows "after (Open1 stale i mode trf s) (\<lambda>s'. refs {} F (I(i := I i - 1)) s' \<and> more_kept s s')"
proof -
  have put: "after (IPut stale i s') (\<lambda>s'. refs {} F (I(i := I i - 1)) s' \<and> more_kept s s')"
    if "tables_kept s s'" for s'
    by (rule after_mono [OF IPut_refs [OF refs_kept [OF that r] i]]) (use that in \<open>auto simp: tables_kept_def\<close>)
  have opn: "after (open_file stale i mode s') (\<lambda>s'. refs {} F (I(i := I i - 1)) s' \<and> more_kept s s')"
    if "refs {} F I s'" "more_kept s s'" for s'
    by (rule after_mono [OF open_file_refs [OF that(1) i]]) (use that in auto)
  have tr: "after (ITrunc stale (m_Inode s' ! i) s') (\<lambda>(ip, s''). refs {} F I (set_ip i ip s'') \<and> more_kept s s'')"
    if "tables_kept s s'" for s'
  proof (rule after_mono [OF after_ITrunc], clarify)
    fix ip s'' assume h: "same_entry (m_Inode s' ! i) ip" "ifs.more s'' = ifs.more s'"
    have k: "tables_kept s' s''" by (rule tables_keptI [OF h(2)])
    have "refs {} F I s''" by (rule refs_kept [OF k refs_kept [OF that r]])
    moreover have "m_Inode s'' ! i = m_Inode s' ! i" using k by (simp add: tables_kept_def)
    ultimately show "refs {} F I (set_ip i ip s'') \<and> more_kept s s''"
      using h k that by (auto simp: tables_kept_def intro!: refs_set_ip_same)
  qed
  have rest: "after (if u_error s' \<noteq> NOERROR then IPut stale i s'
       else kbind (if trf = 1 then kbind (ITrunc stale (m_Inode s' ! i) s') (\<lambda>(ip, s). Done (set_ip i ip s))
                   else Done s') (open_file stale i mode))
      (\<lambda>s'. refs {} F (I(i := I i - 1)) s' \<and> more_kept s s')"
    if "tables_kept s s'" for s'
  proof -
    have mk: "more_kept s s'" using that by (simp add: tables_kept_def)
    have "after (ITrunc stale (m_Inode s' ! i) s') (\<lambda>x. after (case x of (ip, s) \<Rightarrow> Done (set_ip i ip s))
        (\<lambda>x. after (open_file stale i mode x) (\<lambda>s'. refs {} F (I(i := I i - 1)) s' \<and> more_kept s s')))"
      by (rule after_mono [OF tr [OF that]]) (auto intro!: opn)
    then show ?thesis using mk put [OF that] refs_kept [OF that r] by (auto intro!: opn)
  qed
  show ?thesis
    unfolding Open1_def by (rule after_bind [OF _ rest]) (simp_all add: open_checks_kept)
qed

lemma Seek_refs:
  assumes r: "refs {} F I s"
  shows "after (Seek fd off wh s) (\<lambda>s'. refs {} F I s' \<and> more_kept s s')"
proof -
  obtain x s1 where g: "GetF fd s = (x, s1)" by fastforce
  consider "x = None" "s1 = s\<lparr>u_error := EBADF\<rparr>" |
    f where "x = Some f" "f < NFILE" "s1 = s" "0 < f_count (m_File s ! f)"
    using GetF_cases [OF g r] by auto
  then show ?thesis
  proof cases
    case 1
    then show ?thesis using g r by (simp add: Seek_def)
  next
    case (2 f)
    have "refs {} F I (set_file f ((m_File s ! f)\<lparr>f_offset := n\<rparr>) s)" for n
    proof -
      have "refs {} (F(f := F f)) I (set_file f ((m_File s ! f)\<lparr>f_offset := n\<rparr>) s)"
        using 2 refs_file(1) [OF r] by (intro refs_file_count [OF r]) auto
      then show ?thesis by (simp add: fun_upd_idem)
    qed
    then show ?thesis using g 2 r by (simp add: Seek_def Let_def split: option.split)
  qed
qed

lemma FStat_refs:
  assumes r: "refs {} F I s"
  shows "after (FStat fd buf s) (\<lambda>s'. refs {} F I s' \<and> more_kept s s')"
proof -
  obtain x s1 where g: "GetF fd s = (x, s1)" by fastforce
  consider "x = None" "s1 = s\<lparr>u_error := EBADF\<rparr>" | f where "x = Some f" "s1 = s"
    using GetF_cases [OF g r] by auto
  then show ?thesis
  proof cases
    case 1
    then show ?thesis using g r by (simp add: FStat_def)
  next
    case (2 f)
    have "after (Stat1 i buf s) (\<lambda>s'. refs {} F I s' \<and> more_kept s s')" for i
      by (rule after_mono [OF Stat1_kept]) (auto intro: refs_kept [OF _ r] simp: tables_kept_def)
    then show ?thesis using g 2 by (simp add: FStat_def split: option.split)
  qed
qed

subsection \<open>Reading, writing and pipes\<close>

lemma refs_set_file:
  assumes r: "refs {} F I s" and f: "f < NFILE" "0 < f_count (m_File s ! f)"
    and pf: "f_count pf = f_count (m_File s ! f)" "f_inode pf = f_inode (m_File s ! f)"
  shows "refs {} F I (set_file f pf s)"
proof -
  have "refs {} (F(f := F f)) I (set_file f pf s)"
    using f pf refs_file(1) [OF r] by (intro refs_file_count [OF r]) auto
  then show ?thesis by (simp add: fun_upd_idem)
qed

text \<open>The end of a transfer: the inode that comes back is stored, and the offset of the open file.\<close>

lemma refs_transfer:
  assumes r: "refs {} F I s" and f: "f < NFILE" "0 < f_count (m_File s ! f)"
    and s': "ifs.more s' = ifs.more s" and ip: "same_entry (m_Inode s ! i) ip"
    and pf: "f_count pf = f_count (m_File s ! f)" "f_inode pf = f_inode (m_File s ! f)"
  shows "refs {} F I (set_ip i ip (set_file f pf s'))"
proof -
  note k = more_tables [OF s']
  have "refs {} F I (set_file f pf s')"
    using f pf k by (intro refs_set_file refs_more [OF r s']) auto
  then show ?thesis using ip k by (intro refs_set_ip_same) auto
qed

lemma fst_lock: "lock_round ip = (ok, ip') \<Longrightarrow> same_entry ip ip'"
  using same_entry_upd(9) [of ip ip] by (metis same_entry_refl snd_conv)

lemma rdwr_file_refs:
  assumes d: "device_keeps cd" and r: "refs {} F I s" and f: "f < NFILE" "0 < f_count (m_File s ! f)"
  shows "after (rdwr_file cd mode f i base count s) (\<lambda>(io, s'). refs {} F I s' \<and> more_kept s s')"
proof -
  obtain ok ip where l: "lock_round (m_Inode s ! i) = (ok, ip)" by fastforce
  let ?io = "\<lparr>m_Base = base, m_Offset = f_offset (m_File s ! f), m_Count = count\<rparr>"
  let ?Q = "\<lambda>n (ip', io, s'). refs {} F I (set_ip i (snd (unlock ip')) (set_file f ((m_File s ! f)\<lparr>f_offset := n io\<rparr>) s')) \<and>
      more_kept s s'"
  have Q: "?Q n (ip', io, s')" if "framed ip s ip' s'" for ip' io s' and n :: "ioparam \<Rightarrow> int"
  proof -
    have "same_entry (m_Inode s ! i) (snd (unlock ip'))"
      using same_entry_trans [OF fst_lock [OF l]] that by simp
    then show ?thesis using that f more_tables(8) [of s' s] by (auto intro!: refs_transfer [OF r])
  qed
  have "after (ReadI cd ip ?io s) (?Q n)" "after (WriteI cd ip ?io s) (?Q n)" for n
    by (rule after_mono [OF after_ReadI [OF d]], use Q in auto,
        rule after_mono [OF after_WriteI [OF d]], use Q in auto)
  note rw = this(1) [of "\<lambda>io. f_offset (m_File s ! f) + (count - m_Count io)"]
    this(2) [of "\<lambda>io. f_offset (m_File s ! f) + (count - m_Count io)"]
  show ?thesis
    by (auto simp: rdwr_file_def l Let_def intro: after_mono [OF rw(1)] after_mono [OF rw(2)])
qed

lemma ReadP_round_refs:
  assumes d: "device_keeps cd" and r: "refs {} F I s" and f: "f < NFILE" "0 < f_count (m_File s ! f)"
  shows "after (ReadP_round cd f i io s) (\<lambda>(e, io, s'). refs {} F I s' \<and> more_kept s s')"
proof -
  obtain ok ip where l: "lock_round (m_Inode s ! i) = (ok, ip)" by fastforce
  note se = fst_lock [OF l]
  have upd: "refs {} F I (set_ip i ip' s)" if "same_entry (m_Inode s ! i) ip'" for ip'
    by (rule refs_set_ip_same [OF r that])
  have fin: "refs {} F I (set_ip i ip' (set_file f ((m_File s ! f)\<lparr>f_offset := n\<rparr>) s'))"
    if "same_entry ip ip'" "ifs.more s' = ifs.more s" for ip' s' n
    using that same_entry_trans [OF se] f by (intro refs_transfer [OF r]) auto
  have fin0: "refs {} F I (set_ip i ip' (set_file f (m_File s ! f) s))" if "same_entry ip ip'" for ip'
    using that same_entry_trans [OF se] f by (intro refs_transfer [OF r]) auto
  have rd: "after (ReadI cd ip io' s) (\<lambda>(ip', io, s').
      refs {} F I (set_ip i (snd (unlock ip')) (set_file f ((m_File s ! f)\<lparr>f_offset := m_Offset io\<rparr>) s')) \<and> more_kept s s')" for io'
    by (rule after_mono [OF after_ReadI [OF d]]) (auto intro!: fin dest: more_tables(8))
  show ?thesis
    unfolding ReadP_round_def l Let_def
    by (auto intro!: upd se fin fin0 after_mono [OF rd])
qed

lemma WriteP_round_refs:
  assumes d: "device_keeps cd" and r: "refs {} F I s"
  shows "after (WriteP_round cd i count io s) (\<lambda>(e, n, io, s'). refs {} F I s' \<and> more_kept s s')"
proof -
  obtain ok ip where l: "lock_round (m_Inode s ! i) = (ok, ip)" by fastforce
  note se = fst_lock [OF l]
  have upd: "refs {} F I (set_ip i ip' s)" if "same_entry ip ip'" for ip'
    by (rule refs_set_ip_same [OF r same_entry_trans [OF se that]])
  have wr: "after (WriteI cd ip io' s) (\<lambda>(ip', io, s').
      refs {} F I (set_ip i ((snd (unlock ip'))\<lparr>i_mode := clear_flag (i_mode (snd (unlock ip'))) IREAD\<rparr>) s') \<and> more_kept s s')" for io'
  proof (rule after_mono [OF after_WriteI [OF d]], clarify)
    fix ip' io'' s' assume h: "same_entry ip ip'" "ifs.more s' = ifs.more s"
    note k = more_tables [OF h(2)]
    have "refs {} F I (set_ip i ((snd (unlock ip'))\<lparr>i_mode := clear_flag (i_mode (snd (unlock ip'))) IREAD\<rparr>) s')"
      using h same_entry_trans [OF se h(1)] k by (intro refs_set_ip_same refs_more [OF r]) auto
    then show "refs {} F I (set_ip i ((snd (unlock ip'))\<lparr>i_mode := clear_flag (i_mode (snd (unlock ip'))) IREAD\<rparr>) s') \<and>
        more_kept s s'" using k by simp
  qed
  show ?thesis
    unfolding WriteP_round_def l Let_def
    by (auto intro!: upd after_mono [OF wr])
qed

lemma WriteP_loop_refs:
  assumes d: "device_keeps cd"
  shows "refs {} F I s \<Longrightarrow> after (WriteP_loop k cd i count io s) (\<lambda>(e, n, io, s'). refs {} F I s' \<and> more_kept s s')"
proof (induction k arbitrary: count io s)
  case (Suc k)
  show ?case
    by simp (rule after_mono [OF WriteP_round_refs [OF d Suc.prems]],
        auto intro!: after_mono [OF Suc.IH])
qed simp

lemma Rdwr_refs:
  assumes d: "device_keeps cd" and r: "refs {} F I s"
  shows "after (Rdwr cd mode fd base count s) (\<lambda>s'. refs {} F I s' \<and> more_kept s s')"
proof -
  obtain x s1 where g: "GetF fd s = (x, s1)" by fastforce
  consider "x = None" "s1 = s\<lparr>u_error := EBADF\<rparr>" |
    f where "x = Some f" "f < NFILE" "s1 = s" "0 < f_count (m_File s ! f)"
    using GetF_cases [OF g r] by auto
  then show ?thesis
  proof cases
    case 1
    then show ?thesis using g r by (simp add: Rdwr_def)
  next
    case (2 f)
    have pipe: "after (rdwr_pipe cd mode f i base count s) (\<lambda>(io, s'). refs {} F I s' \<and> more_kept s s')" for i
      by (auto simp: rdwr_pipe_def Let_def WriteP_def simp del: WriteP_loop.simps intro!: after_mono [OF ReadP_round_refs [OF d r 2(2,4)]]
          after_mono [OF WriteP_loop_refs [OF d r]])
    show ?thesis using g 2 r
      by (auto simp: Rdwr_def split: option.split intro!: after_mono [OF pipe]
          after_mono [OF rdwr_file_refs [OF d r 2(2,4)]])
  qed
qed

section \<open>Allocation of an inode\<close>

lemma tables_kept_sb [simp]: "tables_kept s (set_sb m sb t) = tables_kept s t"
  by (simp add: tables_kept_def set_sb_def)

lemma got_kept:
  assumes "tables_kept s t" "u_uid t = u_uid s" "u_gid t = u_gid s" "got H F I t x"
  shows "got H F I s x"
  using assms unfolding got_def tables_kept_def by auto

lemma set_sb_users [simp]:
  "u_uid (set_sb m sb s) = u_uid s" "u_gid (set_sb m sb s) = u_gid s" "m_Inode (set_sb m sb s) = m_Inode s"
  "m_File (set_sb m sb s) = m_File s" "u_ofiles (set_sb m sb s) = u_ofiles s" "fm.more (set_sb m sb s) = fm.more s"
  by (simp_all add: set_sb_def)

lemma refs_set_sb [simp]: "refs H F I (set_sb m sb s) = refs H F I s"
  by (simp add: refs_def)

lemma take_inode_refs:
  "refs H F I s \<Longrightarrow> after (take_inode stale n dev m s) (got H F I s)"
proof (induction n arbitrary: s)
  case (Suc n)
  show ?case
  proof (cases "m_spb (m_Mount s ! m)")
    case (Some sb)
    let ?t = "\<lambda>sb. set_sb m sb s"
    have get: "after (IGet stale dev ino (?t sb)) (got H F I s)" for ino sb
      by (rule after_mono [OF IGet_refs]) (use Suc.prems in \<open>auto simp: got_def\<close>)
    have fin: "after (case r of None \<Rightarrow> Done (None, s')
        | Some i \<Rightarrow> if i_mode (m_Inode s' ! i) = 0
            then (case m_spb (m_Mount s' ! m) of None \<Rightarrow> Fault
                  | Some sb \<Rightarrow> Done (Some i, set_ip i (Clean (m_Inode s' ! i)) (set_sb m (sb\<lparr>s_fmod := 1\<rparr>) s')))
            else kbind (IPut stale i s') (take_inode stale n dev m)) (got H F I s)"
      if g: "got H F I s (r, s')" for r s'
    proof (cases r)
      case None
      then show ?thesis using g by simp
    next
      case (Some i)
      then have h: "i < NINODE" "refs H F (I(i := I i + 1)) s'" "kept s s'" using g by (auto simp: got_def)
      have pos: "0 \<le> I i" using refs_nonneg [OF Suc.prems h(1)] .
      have "after (IPut stale i s') (\<lambda>s''. after (take_inode stale n dev m s'') (got H F I s))"
      proof (rule after_mono [OF IPut_refs' [OF h(2,1) pos]])
        fix s'' assume "refs H F I s'' \<and> kept s' s''"
        then show "after (take_inode stale n dev m s'') (got H F I s)"
          using h(3) by (auto intro!: after_mono [OF Suc.IH] simp: got_def)
      qed
      moreover have "refs H F (I(i := I i + 1)) (set_ip i (Clean (m_Inode s' ! i)) (set_sb m sb s'))" for sb
        using h by (intro refs_set_ip_same) auto
      ultimately show ?thesis using Some h by (auto simp: got_def split: option.split)
    qed
    show ?thesis
      using Some by (auto simp: Let_def intro!: after_bind [OF get] fin simp del: after_if after_kbind)
  qed simp
qed simp

lemma IAlloc_refs:
  assumes r: "refs H F I s"
  shows "after (IAlloc stale dev s) (got H F I s)"
  unfolding IAlloc_def after_kbind
proof (rule after_mono [OF after_GetFS], clarify)
  fix m sb s' assume h: "fsys.more s' = fsys.more s" "u_error s' = u_error s"
  note k = more_tables [OF ifs_more_fsys [OF h(1)]]
  have "refs H F I s'" by (rule refs_more [OF r ifs_more_fsys [OF h(1)]])
  then show "after
       (if s_ilock sb \<noteq> 0 then Asleep
        else if s_ninode sb < 0 then Fault
             else let sb' = if s_ninode sb \<le> 0 then collect_free dev (map int [0..<nat (s_isize sb * 8)]) s' sb else sb;
                      s = set_sb m sb' s'
                  in if s_ninode sb' \<le> 0 then Done (None, s\<lparr>u_error := ENOSPC\<rparr>)
                     else take_inode stale 201 dev m s) (got H F I s)"
    using k by (auto simp: Let_def got_def simp del: take_inode.simps intro!: after_mono [OF take_inode_refs])
qed

text \<open>When no inode can be allocated, an error is set.\<close>

lemma take_inode_error:
  "after (take_inode stale n dev m s) (\<lambda>(r, s'). r = None \<longrightarrow> u_error s' \<noteq> NOERROR)"
proof (induction n arbitrary: s)
  case (Suc n)
  have get: "after (IGet stale dev ino t) (\<lambda>(r, s'). r = None \<longrightarrow> u_error s' \<noteq> NOERROR)" for ino and t :: "'a fm_scheme"
    by (rule after_mono [OF IGet_error]) (auto split: option.splits)
  have put: "after (IPut stale i t) (\<lambda>t. after (take_inode stale n dev m t) (\<lambda>(r, s'). r = None \<longrightarrow> u_error s' \<noteq> NOERROR))"
    for i and t :: "'a fm_scheme"
    by (rule afterI) (rule Suc.IH)
  show ?case
    by (auto simp: Let_def split: option.split intro!: after_mono [OF get] put)
qed simp

lemma IAlloc_error: "after (IAlloc stale dev s) (\<lambda>(r, s'). r = None \<longrightarrow> u_error s' \<noteq> NOERROR)"
  unfolding IAlloc_def after_kbind
  by (rule afterI) (auto simp: Let_def simp del: take_inode.simps intro!: take_inode_error)

subsection \<open>Pipes\<close>

text \<open>Every inode in core has been allocated; a new one then has exactly one reference.\<close>

definition alloc_in_core :: "'a fm_scheme \<Rightarrow> bool" where
  "alloc_in_core s \<longleftrightarrow> (\<forall>ip \<in> set (m_Inode s). i_count ip \<noteq> 0 \<longrightarrow> i_mode ip \<noteq> 0)"

lemma alloc_update:
  assumes "alloc_in_core s" "m_Inode s' = (m_Inode s)[i := ip]" "i_count ip \<noteq> 0 \<Longrightarrow> i_mode ip \<noteq> 0"
  shows "alloc_in_core s'"
  using assms set_update_subset_insert [of "m_Inode s" i ip] unfolding alloc_in_core_def by auto

lemma alloc_set_ip:
  "alloc_in_core s \<Longrightarrow> (i_count ip \<noteq> 0 \<Longrightarrow> i_mode ip \<noteq> 0) \<Longrightarrow> alloc_in_core (set_ip i ip s)"
  by (rule alloc_update) simp_all

lemma IPut_inode:
  "after (IPut stale i s) (\<lambda>s'. \<exists>ip. m_Inode s' = (m_Inode s)[i := ip] \<and>
     (i_count ip \<noteq> 0 \<longrightarrow> i_mode ip = i_mode (m_Inode s ! i)))"
proof -
  let ?Q = "\<lambda>s'. \<exists>ip. m_Inode s' = (m_Inode s)[i := ip] \<and> (i_count ip \<noteq> 0 \<longrightarrow> i_mode ip = i_mode (m_Inode s ! i))"
  have upd: "after (IUpdate ip tm s') (\<lambda>s''. ?Q (set_ip i ip' s''))"
    if "ifs.more s' = ifs.more s" "i_count ip' = 0" for s' :: "'a fm_scheme" and ip ip' tm
  proof (rule after_mono [OF after_IUpdate])
    fix s'' assume "fsys.more s'' = fsys.more s' \<and> u_error s'' = u_error s'"
    then have "m_Inode s'' = m_Inode s"
      using more_tables(1) [OF ifs_more_fsys, of s'' s'] more_tables(1) [OF that(1)] by simp
    then show "?Q (set_ip i ip' s'')" using that(2) by auto
  qed
  have free: "after (FS_IFree s' d n) (\<lambda>s''. ifs.more s'' = ifs.more s)"
    if "ifs.more s' = ifs.more s" for s' :: "'a fm_scheme" and d n
    by (rule after_mono [OF after_FS_IFree]) (use that in \<open>auto dest!: ifs_more_fsys\<close>)
  have tr: "after (ITrunc stale ip s) (\<lambda>(ip', s'). i_count ip' = i_count ip \<and> ifs.more s' = ifs.more s)" for ip
    by (rule after_mono [OF after_ITrunc]) (auto simp: same_entry_def)
  show ?thesis
    unfolding IPut_def Let_def
    by (auto intro!: after_mono [OF tr] after_mono [OF free] upd simp: split_def simp del: set_ip_simps)
      (auto simp: unlock_def Let_def)
qed

lemma IGet_loop_fresh:
  assumes r: "refs H F I s" and a: "alloc_in_core s"
  shows "after (IGet_loop stale n dev ino s) (\<lambda>(r, s'). case r of None \<Rightarrow> True
    | Some i \<Rightarrow> (i_mode (m_Inode s' ! i) = 0 \<longrightarrow> i_count (m_Inode s' ! i) = 1) \<and>
        (i_mode (m_Inode s' ! i) \<noteq> 0 \<longrightarrow> alloc_in_core s'))"
proof (induction n arbitrary: dev ino)
  case (Suc n)
  note len = refs_lengths(1) [OF r]
  show ?case
  proof (cases "IsLoaded dev ino s")
    case (Some i)
    note sc = scan_inode [OF Some [unfolded IsLoaded_def] r]
    have m: "i_mode (m_Inode s ! i) \<noteq> 0"
      using a sc nth_mem [of i "m_Inode s"] len unfolding alloc_in_core_def by auto
    have "alloc_in_core (set_ip i ((m_Inode s ! i)\<lparr>i_count := k, i_flag := fl\<rparr>) s)" for k fl
      by (rule alloc_set_ip [OF a]) (use m in auto)
    then show ?thesis using Some sc len m Suc.IH
      by (auto simp: Let_def intro: afterI after_mono)
  next
    case None
    show ?thesis
    proof (cases "GetFreeInode s")
      case (Some i)
      note sc = scan_inode [OF Some [unfolded GetFreeInode_def] r]
      have "alloc_in_core (set_ip i ip s)" if "i_mode ip \<noteq> 0" for ip
        by (rule alloc_set_ip [OF a]) (use that in auto)
      then show ?thesis using None Some sc len
        by (auto simp: Let_def ICopy_def intro: afterI)
    qed (use None in simp)
  qed
qed simp

lemma take_inode_fresh:
  "refs H F I s \<Longrightarrow> alloc_in_core s \<Longrightarrow>
   after (take_inode stale n dev m s) (\<lambda>(r, s'). case r of None \<Rightarrow> True | Some i \<Rightarrow> i_count (m_Inode s' ! i) = 1)"
proof (induction n arbitrary: s)
  case (Suc n)
  let ?P = "\<lambda>(r, s'). case r of None \<Rightarrow> True | Some i \<Rightarrow> i_count (m_Inode s' ! i) = 1"
  let ?G = "\<lambda>x. got H F I s x \<and> (case x of (r, s') \<Rightarrow> (case r of None \<Rightarrow> True
    | Some i \<Rightarrow> (i_mode (m_Inode s' ! i) = 0 \<longrightarrow> i_count (m_Inode s' ! i) = 1) \<and>
        (i_mode (m_Inode s' ! i) \<noteq> 0 \<longrightarrow> alloc_in_core s')))"
  show ?case
  proof (cases "m_spb (m_Mount s ! m)")
    case (Some sb)
    let ?t = "\<lambda>sb. set_sb m sb s"
    have get: "after (IGet stale dev ino (?t sb)) ?G" for ino sb
    proof (rule after_conj)
      show "after (IGet stale dev ino (?t sb)) (got H F I s)"
        by (rule after_mono [OF IGet_refs]) (use Suc.prems in \<open>auto simp: got_def\<close>)
      have "alloc_in_core (?t sb)" using Suc.prems by (simp add: alloc_in_core_def)
      then show "after (IGet stale dev ino (?t sb)) (\<lambda>x. case x of (r, s') \<Rightarrow> (case r of None \<Rightarrow> True
          | Some i \<Rightarrow> (i_mode (m_Inode s' ! i) = 0 \<longrightarrow> i_count (m_Inode s' ! i) = 1) \<and>
              (i_mode (m_Inode s' ! i) \<noteq> 0 \<longrightarrow> alloc_in_core s')))"
        unfolding IGet_def using Suc.prems by (intro IGet_loop_fresh) auto
    qed
    have fin: "after (case r of None \<Rightarrow> Done (None, s')
        | Some i \<Rightarrow> if i_mode (m_Inode s' ! i) = 0
            then (case m_spb (m_Mount s' ! m) of None \<Rightarrow> Fault
                  | Some sb \<Rightarrow> Done (Some i, set_ip i (Clean (m_Inode s' ! i)) (set_sb m (sb\<lparr>s_fmod := 1\<rparr>) s')))
            else kbind (IPut stale i s') (take_inode stale n dev m)) ?P"
      if g: "?G (r, s')" for r s'
    proof (cases r)
      case (Some i)
      then have h: "i < NINODE" "refs H F (I(i := I i + 1)) s'" using g by (auto simp: got_def)
      have pos: "0 \<le> I i" using refs_nonneg [OF Suc.prems(1) h(1)] .
      note len = refs_lengths(1) [OF h(2)]
      have "after (IPut stale i s') (\<lambda>s''. after (take_inode stale n dev m s'') ?P)"
        if m: "i_mode (m_Inode s' ! i) \<noteq> 0"
      proof (rule after_mono [OF after_conj [OF IPut_refs' [OF h(2,1) pos] IPut_inode]])
        fix s'' assume q: "(refs H F I s'' \<and> kept s' s'') \<and> (\<exists>ip. m_Inode s'' = (m_Inode s')[i := ip] \<and>
          (i_count ip \<noteq> 0 \<longrightarrow> i_mode ip = i_mode (m_Inode s' ! i)))"
        then obtain ip where k: "refs H F I s''" "m_Inode s'' = (m_Inode s')[i := ip]"
          "i_count ip \<noteq> 0 \<longrightarrow> i_mode ip = i_mode (m_Inode s' ! i)" by blast
        have "alloc_in_core s'" using g Some m by simp
        then have "alloc_in_core s''" using k(3) m by (intro alloc_update [OF _ k(2)]) auto
        then show "after (take_inode stale n dev m s'') ?P" by (rule Suc.IH [OF k(1)])
      qed
      then show ?thesis using Some g h len by (auto simp: Clean_def split: option.split)
    qed simp
    show ?thesis
      using Some by (auto simp: Let_def intro!: after_bind [OF get] fin simp del: after_if after_kbind)
  qed simp
qed simp

lemma IAlloc_fresh:
  assumes r: "refs H F I s" and a: "alloc_in_core s"
  shows "after (IAlloc stale dev s) (\<lambda>(r, s'). case r of None \<Rightarrow> True | Some i \<Rightarrow> i_count (m_Inode s' ! i) = 1)"
  unfolding IAlloc_def after_kbind
proof (rule after_mono [OF after_GetFS], clarify)
  fix m sb s' assume h: "fsys.more s' = fsys.more s" "u_error s' = u_error s"
  note k = more_tables [OF ifs_more_fsys [OF h(1)]]
  have "refs H F I s'" by (rule refs_more [OF r ifs_more_fsys [OF h(1)]])
  moreover have "alloc_in_core (set_sb m sb' s')" for sb' using a k by (simp add: alloc_in_core_def)
  ultimately show "after
       (if s_ilock sb \<noteq> 0 then Asleep
        else if s_ninode sb < 0 then Fault
             else let sb' = if s_ninode sb \<le> 0 then collect_free dev (map int [0..<nat (s_isize sb * 8)]) s' sb else sb;
                      s = set_sb m sb' s'
                  in if s_ninode sb' \<le> 0 then Done (None, s\<lparr>u_error := ENOSPC\<rparr>)
                     else take_inode stale 201 dev m s)
       (\<lambda>(r, s'). case r of None \<Rightarrow> True | Some i \<Rightarrow> i_count (m_Inode s' ! i) = 1)"
    by (auto simp: Let_def simp del: take_inode.simps intro!: take_inode_fresh)
qed

lemma FAlloc_keeps:
  assumes a: "FAlloc s = (x, s')" and r: "refs H F I s" and f: "f_count (m_File s ! f) \<noteq> 0" and k: "u_ofiles s ! k \<noteq> None"
  shows "m_File s' ! f = m_File s ! f \<and> u_ofiles s' ! k = u_ofiles s ! k"
proof -
  obtain fd t where al: "AllocFreeSlot s = (fd, t)" by fastforce
  have ne: "g \<noteq> f" if "scan (\<lambda>f. f_count f = 0) (m_File s) = Some g" for g
    using scan_SomeD [OF that] f by auto
  have ne': "j \<noteq> k" if "scan (\<lambda>x. x = None) (u_ofiles s) = Some j" for j
    using scan_SomeD [OF that] k by auto
  show ?thesis
    using a ne ne'
    by (auto simp: FAlloc_def AllocFreeSlot_def SetF_def set_file_def nth_upd Let_def
        split: option.splits if_splits)
qed

lemma Pipe_refs:
  assumes r: "refs {} F I s" and a: "alloc_in_core s"
  shows "after (Pipe stale fdarr s) (\<lambda>s'. refs {} F I s' \<and> more_kept s s')"
  unfolding Pipe_def
proof (rule after_bind [OF after_conj [OF IAlloc_refs [OF r] IAlloc_fresh [OF r a]]], clarify)
  fix r0 s1
  assume g: "got {} F I s (r0, s1)" and c: "case r0 of None \<Rightarrow> True | Some i \<Rightarrow> i_count (m_Inode s1 ! i) = 1"
  let ?Q = "\<lambda>s'. refs {} F I s' \<and> more_kept s s'"
  show "after (case r0 of None \<Rightarrow> Done s1
     | Some i \<Rightarrow>
         let (r, s) = FAlloc s1
         in case r of
              None \<Rightarrow> IPut stale i s
            | Some f0 \<Rightarrow>
                let fd0 = u_eax s; (r, s) = FAlloc s
                in case r of
                     None \<Rightarrow> IPut stale i (SetF fd0 None (set_file f0 ((m_File s ! f0)\<lparr>f_count := 0\<rparr>) s))
                   | Some f1 \<Rightarrow>
                       let s = s\<lparr>umem := store_bytes (umem s) fdarr (bytes_of [fd0, u_eax s])\<rparr>;
                           s = set_file f0 ((m_File s ! f0)\<lparr>f_flag := FREAD OR FPIPE, f_inode := Some i\<rparr>) s;
                           s = set_file f1 ((m_File s ! f1)\<lparr>f_flag := FWRITE OR FPIPE, f_inode := Some i\<rparr>) s
                       in Done (set_ip i ((m_Inode s ! i)\<lparr>i_count := 2, i_flag := IACC OR IUPD, i_mode := IALLOC\<rparr>) s)) ?Q"
  proof (cases r0)
    case None
    then show ?thesis using g by (simp add: got_def)
  next
    case (Some i)
    then have i: "i < NINODE" and r1: "refs {} F (I(i := I i + 1)) s1" and k1: "more_kept s s1"
      and c1: "i_count (m_Inode s1 ! i) = 1" using g c by (auto simp: got_def)
    have pos: "0 \<le> I i" using refs_nonneg [OF r i] .
    have put: "after (IPut stale i s') ?Q" if "refs {} F (I(i := I i + 1)) s'" "more_kept s s'" for s'
      by (rule after_mono [OF IPut_refs' [OF that(1) i pos]]) (use that in auto)
    obtain x s2 where f0: "FAlloc s1 = (x, s2)" by fastforce
    note fr = FAlloc_refs [OF f0 r1]
    show ?thesis
    proof (cases x)
      case None
      then show ?thesis using Some f0 fr k1 by (auto intro!: put)
    next
      case (Some f)
      then obtain k where r2: "refs {f} F (I(i := I i + 1)) s2" and cf: "f_count (m_File s2 ! f) = 1"
        and k: "k < NOFILES" "u_eax s2 = int k" "u_ofiles s2 ! k = Some f"
        and k2: "m_Inode s2 = m_Inode s1" "more_kept s1 s2" using fr by auto
      have fl: "f < NFILE" using r2 by (auto simp: refs_def file_refs_def)
      obtain y s3 where f1: "FAlloc s2 = (y, s3)" by fastforce
      note fr1 = FAlloc_refs [OF f1 r2]
      have keep: "m_File s3 ! f = m_File s2 ! f \<and> u_ofiles s3 ! k = Some f"
        using FAlloc_keeps [OF f1 r2, of f k] cf k by simp
      show ?thesis
      proof (cases y)
        case None
        let ?t = "s3\<lparr>u_ofiles := (u_ofiles s3)[k := None]\<rparr>"
        have r3: "refs {f} F (I(i := I i + 1)) s3" and k3: "more_kept s2 s3" using fr1 None by auto
        have t: "refs {f} (F(f := F f + 1)) (I(i := I i + 1)) ?t"
          using keep k refs_file(1) [OF r2] by (intro refs_fds [OF r3]) (auto intro: add_nonneg_nonneg)
        have "refs {} F (I(i := I i + 1)) (set_file f ((m_File s3 ! f)\<lparr>f_count := 0\<rparr>) ?t)"
          using refs_drop [OF t, of "(m_File s3 ! f)\<lparr>f_count := 0\<rparr>"] keep cf refs_file(1) [OF r2 fl]
          by (simp add: fun_upd_idem)
        then have "refs {} F (I(i := I i + 1)) (SetF (int k) None (set_file f ((m_File s3 ! f)\<lparr>f_count := 0\<rparr>) s3))"
          by (rule refs_frame) (use k in \<open>simp_all add: SetF_eq set_file_def\<close>)
        then have "after (IPut stale i (SetF (int k) None (set_file f ((m_File s3 ! f)\<lparr>f_count := 0\<rparr>) s3))) ?Q"
          by (rule put) (use k k1 k2 k3 in \<open>simp add: SetF_eq\<close>)
        then show ?thesis using \<open>r0 = Some i\<close> \<open>x = Some f\<close> None f0 f1 k by simp
      next
        case (Some f')
        then have nf: "f' \<noteq> f" and r3: "refs {f', f} F (I(i := I i + 1)) s3" and k3: "m_Inode s3 = m_Inode s2" "more_kept s2 s3"
          using fr1 by auto
        let ?p = "(m_File s3 ! f)\<lparr>f_flag := FREAD OR FPIPE, f_inode := Some i\<rparr>"
        let ?p' = "(m_File s3 ! f')\<lparr>f_flag := FWRITE OR FPIPE, f_inode := Some i\<rparr>"
        let ?ip = "(m_Inode s3 ! i)\<lparr>i_count := 2, i_flag := IACC OR IUPD, i_mode := IALLOC\<rparr>"
        have len: "i < length (m_Inode s3)" using refs_lengths [OF r3] i by simp
        have oc: "one_copy ((m_Inode s3)[i := ?ip])"
          using r3 len c1 k2 k3 by (intro one_copy_count) (auto simp: refs_def inode_refs_def)
        have a: "refs {f', f} F ((I(i := I i + 1))(i := I i + 2)) (set_ip i ?ip s3)"
          using pos k2 k3 c1 by (intro refs_set_ip_count [OF r3 i oc]) auto
        then have a: "refs (insert f {f'}) F (I(i := I i + 2)) (set_ip i ?ip s3)" by (simp add: insert_commute)
        have b: "refs {f'} F (I(i := I i + 1)) (set_file f ?p (set_ip i ?ip s3))"
          using refs_attach [OF a, of i ?p] nf i pos by (simp add: add.commute)
        have "refs {} F I (set_file f' ?p' (set_file f ?p (set_ip i ?ip s3)))"
          using refs_attach [OF b, of i ?p'] nf i pos by simp
        then have "refs {} F I (set_ip i ?ip (set_file f' ?p' (set_file f ?p (s3\<lparr>umem := m\<rparr>))))" for m
          by (rule refs_frame) (simp_all add: set_file_def set_ip_def)
        then show ?thesis using \<open>r0 = Some i\<close> \<open>x = Some f\<close> Some f0 f1 k1 k2 k3 nf
          by (simp add: Let_def nth_upd)
      qed
    qed
  qed
qed

end
