(* ===== verification/RefPaths.thy ===== *)
theory RefPaths
  imports RefCalls FileSyscalls
begin

text \<open>
  The reference counts across the calls that take a path.
\<close>

section \<open>Directory search\<close>

abbreviation same_dirs :: "'a nm_scheme \<Rightarrow> 'a nm_scheme \<Rightarrow> bool" where
  "same_dirs s s' \<equiv> u_cdir s' = u_cdir s \<and> rootDirInode s' = rootDirInode s"

lemma more_dirs:
  assumes "fm.more s' = fm.more s"
  shows "u_cdir s' = u_cdir s" "rootDirInode s' = rootDirInode s" "u_pdir s' = u_pdir s"
proof -
  have "u_cdir s' = u_cdir s \<and> rootDirInode s' = rootDirInode s \<and> u_pdir s' = u_pdir s"
    using assms by (cases s, cases s') simp
  then show "u_cdir s' = u_cdir s" "rootDirInode s' = rootDirInode s" "u_pdir s' = u_pdir s" by auto
qed

lemma refs_nm [simp]:
  "refs H F I (s\<lparr>u_dirp := a\<rparr>) = refs H F I s" "refs H F I (s\<lparr>u_dbuf := a\<rparr>) = refs H F I s"
  "refs H F I (s\<lparr>d_ino := n\<rparr>) = refs H F I s" "refs H F I (s\<lparr>d_name := a\<rparr>) = refs H F I s"
  "refs H F I (s\<lparr>d_esize := n\<rparr>) = refs H F I s" "refs H F I (s\<lparr>addition_entry := a\<rparr>) = refs H F I s"
  "refs H F I (s\<lparr>u_IOParam := p\<rparr>) = refs H F I s" "refs H F I (s\<lparr>u_pdir := i\<rparr>) = refs H F I s"
  "refs H F I (s\<lparr>u_cdir := i\<rparr>) = refs H F I s" "refs H F I (s\<lparr>u_curdir := a\<rparr>) = refs H F I s"
  by (simp_all add: refs_def)

lemma set_ip_dirs [simp]:
  "u_cdir (set_ip i ip s) = u_cdir s" "rootDirInode (set_ip i ip s) = rootDirInode s"
  "u_pdir (set_ip i ip s) = u_pdir s"
  using more_dirs [of "set_ip i ip s" s] by simp_all

text \<open>Looking into a directory changes its inode at most in the block numbers.\<close>

definition looked :: "(nat \<Rightarrow> int) \<Rightarrow> (nat \<Rightarrow> int) \<Rightarrow> 'a nm_scheme \<Rightarrow> 'a nm_scheme \<Rightarrow> bool" where
  "looked F I s s' \<longleftrightarrow> refs {} F I s' \<and> same_dirs s s'"

lemma dir_block_looked:
  assumes "looked F I s0 s"
  shows "after (dir_block i off s) (\<lambda>(blk, s'). looked F I s0 s')"
  unfolding dir_block_def after_kbind
proof (rule after_mono [OF after_Bmap], clarify)
  fix bn ip s' assume h: "same_entry (m_Inode s ! i) ip" "ifs.more s' = ifs.more s"
  have r: "refs {} F I s" using assms by (simp add: looked_def)
  have "refs {} F I (set_ip i ip s')"
    using refs_more [OF r h(2)] more_tables(1) [OF h(2)] h(1) by (intro refs_set_ip_same) auto
  then show "after (Done (disk s' (i_dev ip) bn, set_ip i ip s')) (\<lambda>(blk, s'). looked F I s0 s')"
    using assms more_dirs [OF more_tables(8) [OF h(2)]] by (simp add: looked_def)
qed

lemma looked_upd [simp]:
  "looked F I s0 (s\<lparr>addition_entry := a\<rparr>) = looked F I s0 s"
  "looked F I s0 (load_dent e s) = looked F I s0 s"
  by (simp_all add: looked_def load_dent_def)

lemma read_additions_looked:
  "looked F I s0 s \<Longrightarrow> after (read_additions n k i blk off cnt s) (\<lambda>(blk, off, cnt, s'). looked F I s0 s')"
proof (induction n arbitrary: k blk off cnt s)
  case (Suc n)
  show ?case
    using Suc.prems
    by (auto intro!: after_mono [OF dir_block_looked [OF Suc.prems]] Suc.IH)
qed simp

lemma search_dir_looked:
  "looked F I s0 s \<Longrightarrow> after (search_dir n i blk free off cnt s) (\<lambda>(r, off, s'). looked F I s0 s')"
proof (induction n arbitrary: blk free off cnt s)
  case (Suc n)
  let ?Q = "\<lambda>(r, off, s'). looked F I s0 s'"
  let ?next = "\<lambda>(blk, s).
        let s = load_dent (entry_at blk off) s; off = off + 32; cnt = cnt - 1
        in if d_ino s = 0
           then
             let use = int ((StringLength (u_dirp s) + 7) div 32)
             in if free = 0 \<and> use \<le> d_esize s
                then kbind (if use * 32 + off \<ge> 512 then dir_block i (use * 32 + off) s else Done (blk, s)) (\<lambda>(_, s).
                       search_dir n i blk off (off + 32 * d_esize s) cnt s)
                else search_dir n i blk free (off + 32 * d_esize s) cnt s
           else kbind (read_additions (nat (d_esize s)) 0 i blk off cnt s) (\<lambda>(blk, off, cnt, s).
             if name_matches s then Done (Found, off, s)
             else search_dir n i blk free off cnt s)"
  have cont: "after (?next (b, t)) ?Q" if t: "looked F I s0 t" for b t
  proof -
    let ?t = "load_dent (entry_at b off) t"
    have t': "looked F I s0 ?t" using t by simp
    show ?thesis
      using t'
      by (auto simp: Let_def intro!: Suc.IH after_mono [OF dir_block_looked [OF t']]
          after_mono [OF read_additions_looked [OF t']])
  qed
  show ?case
  proof (cases "cnt = 0")
    case False
    have "after (if off mod 512 = 0 then dir_block i off s else Done (blk, s)) (\<lambda>(b, t). looked F I s0 t)"
      using Suc.prems dir_block_looked by auto
    then have "after (kbind (if off mod 512 = 0 then dir_block i off s else Done (blk, s)) ?next) ?Q"
      by (rule after_bind) (use cont in auto)
    then show ?thesis using False by simp
  qed (use Suc.prems in simp)
qed simp


section \<open>\<open>NameI\<close>\<close>

text \<open>
  What \<open>NameI\<close> leaves behind: a reference to the inode it returns; when it fails, no reference, except
  that for a file that can be created the parent directory stays held in \<open>u_pdir\<close>.
\<close>

definition named :: "search_mode \<Rightarrow> (nat \<Rightarrow> int) \<Rightarrow> (nat \<Rightarrow> int) \<Rightarrow> 'a nm_scheme \<Rightarrow> nat option \<times> 'a nm_scheme \<Rightarrow> bool" where
  "named mode F I s = (\<lambda>(r, s'). same_dirs s s' \<and>
     (case r of
        Some i \<Rightarrow> i < NINODE \<and> refs {} F (I(i := I i + 1)) s'
      | None \<Rightarrow> (refs {} F I s' \<and> u_error s' \<noteq> NOERROR) \<or>
          (mode = CREATE \<and> u_pdir s' < NINODE \<and> refs {} F (I(u_pdir s' := I (u_pdir s') + 1)) s')))"

definition held :: "(nat \<Rightarrow> int) \<Rightarrow> (nat \<Rightarrow> int) \<Rightarrow> nat \<Rightarrow> 'a nm_scheme \<Rightarrow> 'a nm_scheme \<Rightarrow> bool" where
  "held F I i s s' \<longleftrightarrow> same_dirs s s' \<and> i < NINODE \<and> 0 \<le> I i \<and> refs {} F (I(i := I i + 1)) s'"

lemma name_out_named:
  assumes h: "held F I i s t" and e: "u_error t \<noteq> NOERROR"
  shows "after (name_out stale i t) (named mode F I s)"
proof -
  have r: "refs {} F (I(i := I i + 1)) t" "i < NINODE" "0 \<le> I i" "same_dirs s t" using h by (simp_all add: held_def)
  show ?thesis
    unfolding name_out_def after_kbind
    by (rule after_mono [OF after_conj [OF IPut_refs' [OF r(1-3)] IPut_error]])
      (use e r(4) in \<open>auto simp: named_def dest: more_dirs\<close>)
qed

lemma Access_dirs: "after (Access ip mode s) (\<lambda>(d, s'). tables_kept s s' \<and> (d \<longrightarrow> u_error s' \<noteq> NOERROR))"
  by (auto simp: Access_def Let_def intro!: after_mono [OF GetFS_kept])

lemma held_kept: "held F I i s t \<Longrightarrow> tables_kept t t' \<Longrightarrow> held F I i s t'"
  unfolding held_def using more_dirs [of t' t] by (auto intro: refs_kept simp: tables_kept_def)

lemma held_upd [simp]:
  "held F I i s (t\<lparr>u_error := e\<rparr>) = held F I i s t" "held F I i s (t\<lparr>u_dirp := a\<rparr>) = held F I i s t"
  "held F I i s (t\<lparr>u_dbuf := a\<rparr>) = held F I i s t" "held F I i s (t\<lparr>u_IOParam := p\<rparr>) = held F I i s t"
  "held F I i s (t\<lparr>u_pdir := j\<rparr>) = held F I i s t"
  by (simp_all add: held_def)

lemma held_set_ip: "held F I i s t \<Longrightarrow> same_entry (m_Inode t ! j) ip \<Longrightarrow> held F I i s (set_ip j ip t)"
  unfolding held_def by (auto intro: refs_set_ip_same)

lemma named_Some: "held F I i s t \<Longrightarrow> named mode F I s (Some i, t)"
  by (simp add: named_def held_def)

lemma named_pdir: "held F I i s t \<Longrightarrow> u_pdir t = i \<Longrightarrow> named CREATE F I s (None, t)"
  by (simp add: named_def held_def)

lemma not_found_named:
  assumes h: "held F I i s t"
  shows "after (not_found stale mode i cur free off t) (named mode F I s)"
proof -
  have "after (Access (m_Inode t ! i) IWRITE t) (\<lambda>(d, t'). held F I i s t')"
    by (rule after_mono [OF Access_dirs]) (auto intro: held_kept [OF h])
  then show ?thesis
    unfolding not_found_def
    by (auto simp: Let_def h elim!: after_mono intro!: name_out_named named_pdir held_set_ip)
qed

lemma name_loop_named:
  "held F I i s t \<Longrightarrow> after (name_loop Asleep stale mode n i cur t) (named mode F I s)"
proof (induction n arbitrary: i cur t)
  case (Suc n)
  have acc: "after (Access ip m t) (\<lambda>(d, t'). held F I i s t')" if "held F I i s t" for ip t m
    by (rule after_mono [OF Access_dirs]) (auto intro: held_kept [OF that])
  have sd: "after (search_dir k i [] 0 0 cnt t) (\<lambda>(r, off, t'). held F I i s t')" if "held F I i s t" for t k cnt
  proof -
    have "looked F (I(i := I i + 1)) s t" using that by (simp add: held_def looked_def)
    from search_dir_looked [OF this] show ?thesis
      by (rule after_mono) (use that in \<open>auto simp: looked_def held_def\<close>)
  qed
  have del: "after (Access ip IWRITE t)
      (\<lambda>x. after (case x of (denied, s) \<Rightarrow> if denied then name_out stale i (s\<lparr>u_error := EACCES\<rparr>) else Done (Some i, s))
        (named md F I s))" if "held F I i s t" for ip t md
    by (rule after_mono [OF acc [OF that]]) (auto intro!: name_out_named named_Some)
  have go: "after (IPut stale i t) (\<lambda>x. after (IGet stale dev (d_ino x) x)
      (\<lambda>x. after (case x of (r, s) \<Rightarrow> case r of None \<Rightarrow> Done (None, s) | Some j \<Rightarrow> name_loop Asleep stale mode n j cur s)
        (named mode F I s)))" if h: "held F I i s t" for t dev cur
  proof -
    have r: "refs {} F (I(i := I i + 1)) t" "i < NINODE" "0 \<le> I i" "same_dirs s t" using h by (simp_all add: held_def)
    have "after (IGet stale dev (d_ino x) x)
      (\<lambda>x. after (case x of (r, s) \<Rightarrow> case r of None \<Rightarrow> Done (None, s) | Some j \<Rightarrow> name_loop Asleep stale mode n j cur s)
        (named mode F I s))" if k: "refs {} F I x \<and> kept t x" for x
    proof (rule after_mono [OF after_conj [OF IGet_refs IGet_error]])
      show "refs {} F I x" using k by simp
      fix y assume g: "got {} F I x y \<and> (case y of (r, s') \<Rightarrow> case r of None \<Rightarrow> u_error s' \<noteq> NOERROR | Some i \<Rightarrow> u_error s' = u_error x)"
      obtain r' s' where y: "y = (r', s')" by fastforce
      have d: "same_dirs s s'" using g y k r(4) more_dirs [of s' x] more_dirs [of x t] by (auto simp: got_def)
      show "after (case y of (r, s) \<Rightarrow> case r of None \<Rightarrow> Done (None, s) | Some j \<Rightarrow> name_loop Asleep stale mode n j cur s)
        (named mode F I s)"
      proof (cases r')
        case None
        then show ?thesis using g y d by (auto simp: got_def named_def)
      next
        case (Some j)
        then have "held F I j s s'" using g y d refs_nonneg [of "{}" F I x j] k by (auto simp: got_def held_def)
        then show ?thesis using Some y Suc.IH by simp
      qed
    qed
    then show ?thesis by (rule_tac after_mono [OF IPut_refs' [OF r(1-3)]]) auto
  qed
  let ?body = "\<lambda>(denied, s).
        if denied then name_out stale i (s\<lparr>u_error := EACCES\<rparr>)
        else
          let (cs, cur, r) = component cur (u_dirp s);
              (cur, r) = skip_slashes cur r;
              s = s\<lparr>u_dirp := r, u_dbuf := pad_component cs\<rparr>
          in kbind (search_dir (dir_rounds (m_Inode s ! i)) i [] 0 0 (i_size (m_Inode s ! i) div 32) s)
               (\<lambda>(res, off, s).
                  case res of
                    NotFound free \<Rightarrow> not_found stale mode i cur free off s
                  | Found \<Rightarrow>
                      let s = s\<lparr>u_IOParam := (u_IOParam s)\<lparr>m_Offset := off\<rparr>\<rparr>
                      in if mode = DELETE \<and> cur = 0
                         then kbind (Access (m_Inode s ! i) IWRITE s) (\<lambda>(denied, s).
                           if denied then name_out stale i (s\<lparr>u_error := EACCES\<rparr>) else Done (Some i, s))
                         else
                           let dev = i_dev (m_Inode s ! i)
                           in kbind (IPut stale i s) (\<lambda>s. kbind (IGet stale dev (d_ino s) s) (\<lambda>(r, s).
                                case r of None \<Rightarrow> Done (None, s) | Some j \<Rightarrow> name_loop Asleep stale mode n j cur s)))"
  have body: "after (?body (b, t)) (named mode F I s)" if h: "held F I i s t" for b t
  proof -
    obtain cs c r where c: "component cur (u_dirp t) = (cs, c, r)" by (cases "component cur (u_dirp t)")
    obtain c' r' where c': "skip_slashes c r = (c', r')" by fastforce
    let ?t = "t\<lparr>u_dirp := r', u_dbuf := pad_component cs\<rparr>"
    have t: "held F I i s ?t" using h by simp
    have rest: "after (kbind (search_dir (dir_rounds (m_Inode ?t ! i)) i [] 0 0 (i_size (m_Inode ?t ! i) div 32) ?t)
               (\<lambda>(res, off, s).
                  case res of
                    NotFound free \<Rightarrow> not_found stale mode i c' free off s
                  | Found \<Rightarrow>
                      let s = s\<lparr>u_IOParam := (u_IOParam s)\<lparr>m_Offset := off\<rparr>\<rparr>
                      in if mode = DELETE \<and> c' = 0
                         then kbind (Access (m_Inode s ! i) IWRITE s) (\<lambda>(denied, s).
                           if denied then name_out stale i (s\<lparr>u_error := EACCES\<rparr>) else Done (Some i, s))
                         else
                           let dev = i_dev (m_Inode s ! i)
                           in kbind (IPut stale i s) (\<lambda>s. kbind (IGet stale dev (d_ino s) s) (\<lambda>(r, s).
                                case r of None \<Rightarrow> Done (None, s) | Some j \<Rightarrow> name_loop Asleep stale mode n j c' s))))
            (named mode F I s)"
      by (rule after_bind [OF sd [OF t]])
        (auto simp: Let_def split: found.split intro!: not_found_named del go)
    show ?thesis using h rest c c' by (auto intro!: name_out_named)
  qed
  have "after (kbind (Access (m_Inode t ! i) IEXEC t) ?body) (named mode F I s)"
  proof (rule after_bind [OF acc [OF Suc.prems]])
    fix x :: "bool \<times> 'a nm_scheme"
    assume h: "case x of (d, t') \<Rightarrow> held F I i s t'"
    obtain b t' where x: "x = (b, t')" by fastforce
    show "after (?body x) (named mode F I s)" unfolding x by (rule body) (use h x in simp)
  qed
  then show ?case
    unfolding name_loop.simps after_if after.simps
    using Suc.prems by (intro conjI impI name_out_named named_Some) simp_all
qed simp

text \<open>The directory where the search starts is in core, and someone holds it.\<close>

definition dir_ok :: "(nat \<Rightarrow> int) \<Rightarrow> nat \<Rightarrow> bool" where
  "dir_ok I i \<longleftrightarrow> i < NINODE \<and> 0 < I i"

lemma NameI_named:
  assumes r: "refs {} F I s" and d: "dir_ok I (u_cdir s)" "dir_ok I (rootDirInode s)"
  shows "after (NameI stale mode s) (named mode F I s)"
proof -
  obtain cur t where n: "NextChar s = (cur, t)" by fastforce
  have t: "m_Inode t = m_Inode s" "refs {} F I t" "same_dirs s t"
    using n r by (auto simp: NextChar_def split: list.splits)
  let ?i = "if cur = slash then rootDirInode t else u_cdir t"
  have i: "?i < NINODE" "0 < I ?i"
    using d t by (auto simp: dir_ok_def)
  have "after (IGet stale (i_dev (m_Inode t ! ?i)) (i_number (m_Inode t ! ?i)) t) (\<lambda>(_, t'). held F I ?i s t')"
    by (rule after_mono [OF IGet_same [OF t(2) i]])
      (use t(3) i in \<open>auto simp: held_def dest: more_dirs\<close>)
  then show ?thesis
    unfolding NameI_def n Let_def split_def fst_conv snd_conv
    by (rule after_bind) (auto intro!: name_out_named name_loop_named simp del: name_loop.simps)
qed

section \<open>The calls\<close>

text \<open>How the calls use \<open>NameI\<close>: its result and the references it left.\<close>

lemma named_split:
  assumes "named mode F I s (r, t)"
  shows "same_dirs s t"
    "r = Some i \<Longrightarrow> i < NINODE \<and> refs {} F (I(i := I i + 1)) t"
    "r = None \<Longrightarrow> mode \<noteq> CREATE \<Longrightarrow> refs {} F I t"
    "r = None \<Longrightarrow> u_error t = NOERROR \<Longrightarrow> u_pdir t < NINODE \<and> refs {} F (I(u_pdir t := I (u_pdir t) + 1)) t"
  using assms by (auto simp: named_def)

definition done_refs :: "(nat \<Rightarrow> int) \<Rightarrow> (nat \<Rightarrow> int) \<Rightarrow> 'a nm_scheme \<Rightarrow> 'a nm_scheme \<Rightarrow> bool" where
  "done_refs F I s s' \<longleftrightarrow> refs {} F I s' \<and> same_dirs s s'"

lemma dirs_more: "fm.more t' = fm.more t \<Longrightarrow> same_dirs s t \<Longrightarrow> same_dirs s t'"
  using more_dirs [of t' t] by simp

lemma done_put: "held F I i s t \<Longrightarrow> refs {} F I t' \<Longrightarrow> fm.more t' = fm.more t \<Longrightarrow> done_refs F I s t'"
  unfolding held_def done_refs_def using dirs_more [of t' t s] by blast

lemma put_done: "held F I i s t \<Longrightarrow> after (IPut stale i t) (done_refs F I s)"
  by (rule after_mono [OF IPut_refs' [of "{}" F I i t]]) (auto simp: held_def intro: done_put [unfolded held_def])

lemma Open1_done: "held F I i s t \<Longrightarrow> after (Open1 stale i mode trf t) (done_refs F I s)"
  using Open1_refs [of F "I(i := I i + 1)" t i stale mode trf]
  by (auto simp: held_def intro: done_put [unfolded held_def] elim!: after_mono)

lemma named_done: "named mode F I s (None, t) \<Longrightarrow> mode \<noteq> CREATE \<Longrightarrow> done_refs F I s t"
  by (auto simp: named_def done_refs_def)

text \<open>The state in which a call on paths starts.\<close>

definition start_ok :: "(nat \<Rightarrow> int) \<Rightarrow> (nat \<Rightarrow> int) \<Rightarrow> 'a nm_scheme \<Rightarrow> bool" where
  "start_ok F I s \<longleftrightarrow> refs {} F I s \<and> dir_ok I (u_cdir s) \<and> dir_ok I (rootDirInode s)"

lemma named_held: "start_ok F I s \<Longrightarrow> named mode F I s (Some i, t) \<Longrightarrow> held F I i s t"
  using refs_nonneg [of "{}" F I s i] by (auto simp: named_def held_def start_ok_def)

lemma NameI_rule:
  assumes st: "start_ok F I s"
    and none: "\<And>t. named mode F I s (None, t) \<Longrightarrow> after (f None t) Q"
    and some: "\<And>i t. held F I i s t \<Longrightarrow> after (f (Some i) t) Q"
  shows "after (kbind (NameI stale mode s) (\<lambda>(r, s). f r s)) Q"
proof (rule after_bind [OF NameI_named])
  fix x assume n: "named mode F I s x"
  show "after (case x of (r, s) \<Rightarrow> f r s) Q"
  proof (cases x)
    case (Pair r' t)
    then show ?thesis using n none some named_held [OF st] by (cases r') auto
  qed
qed (use st in \<open>simp_all add: start_ok_def\<close>)

lemma Open_done: "start_ok F I s \<Longrightarrow> after (Open stale mode s) (done_refs F I s)"
  unfolding Open_def by (erule NameI_rule) (auto intro!: Open1_done elim: named_done)

lemma SUser_cases: "SUser s = (ok, s') \<Longrightarrow> s' = s \<or> s' = s\<lparr>u_error := EPERM\<rparr>"
  by (auto simp: SUser_def split: if_splits)

lemma Stat1_held: "held F I i s t \<Longrightarrow> after (Stat1 i buf t) (held F I i s)"
  by (rule after_mono [OF Stat1_kept]) (rule held_kept)

lemma Stat_done: "start_ok F I s \<Longrightarrow> after (Stat stale buf s) (done_refs F I s)"
  unfolding Stat_def
  by (erule NameI_rule) (auto intro!: after_mono [OF Stat1_held] put_done elim: named_done)

definition owned :: "(nat \<Rightarrow> int) \<Rightarrow> (nat \<Rightarrow> int) \<Rightarrow> 'a nm_scheme \<Rightarrow> nat option \<times> 'a nm_scheme \<Rightarrow> bool" where
  "owned F I s = (\<lambda>(r, s'). case r of None \<Rightarrow> done_refs F I s s' | Some i \<Rightarrow> held F I i s s')"

lemma Owner_owned: "start_ok F I s \<Longrightarrow> after (Owner stale s) (owned F I s)"
  unfolding Owner_def
proof (erule NameI_rule)
  fix i t assume h: "held F I i s t"
  show "after (case Some i of None \<Rightarrow> Done (None, t)
     | Some i \<Rightarrow>
         let (ok, s) = (if u_uid t = i_uid (m_Inode t ! i) then (True, t) else SUser t)
         in if ok then Done (Some i, s) else kbind (IPut stale i s) (\<lambda>s. Done (None, s))) (owned F I s)"
    using h by (auto simp: SUser_def owned_def intro!: put_done)
qed (auto simp: owned_def elim: named_done)

lemma Owner_rule:
  assumes st: "start_ok F I s"
    and none: "\<And>t. done_refs F I s t \<Longrightarrow> after (f None t) Q"
    and some: "\<And>i t. held F I i s t \<Longrightarrow> after (f (Some i) t) Q"
  shows "after (kbind (Owner stale s) (\<lambda>(r, s). f r s)) Q"
proof (rule after_bind [OF Owner_owned [OF st]])
  fix x assume n: "owned F I s x"
  show "after (case x of (r, s) \<Rightarrow> f r s) Q"
  proof (cases x)
    case (Pair r' t)
    then show ?thesis using n none some by (cases r') (auto simp: owned_def)
  qed
qed

lemma ChMod_done: "start_ok F I s \<Longrightarrow> after (ChMod stale mode s) (done_refs F I s)"
  unfolding ChMod_def by (erule Owner_rule) (auto intro!: put_done held_set_ip)

lemma start_error [simp]: "start_ok F I (s\<lparr>u_error := e\<rparr>) = start_ok F I s"
  by (simp add: start_ok_def dir_ok_def)

lemma done_error [simp]: "done_refs F I s (t\<lparr>u_error := e\<rparr>) = done_refs F I s t"
  by (simp add: done_refs_def)

lemma ChOwn_done: "start_ok F I s \<Longrightarrow> after (ChOwn stale uid gid s) (done_refs F I s)"
proof -
  assume st: "start_ok F I s"
  have "after (kbind (Owner stale s) (\<lambda>(r, s).
           case r of
             None \<Rightarrow> Done s
           | Some i \<Rightarrow>
               IPut stale i (set_ip i ((m_Inode s ! i)\<lparr>i_uid := short_lo uid, i_gid := short_lo gid,
                 i_flag := set_flag (i_flag (m_Inode s ! i)) IUPD\<rparr>) s))) (done_refs F I s)"
    by (rule Owner_rule [OF st]) (auto intro!: put_done held_set_ip)
  moreover have "done_refs F I s s" using st by (simp add: start_ok_def done_refs_def)
  ultimately show ?thesis by (auto simp: ChOwn_def SUser_def simp del: after_kbind)
qed

subsection \<open>Creating and removing entries\<close>

lemma write_kernel_refs:
  assumes d: "device_keeps cd" and r: "refs {} F I t"
  shows "after (write_kernel cd i bs off t) (\<lambda>t'. refs {} F I t' \<and> same_dirs t t' \<and> u_pdir t' = u_pdir t)"
  unfolding write_kernel_def Let_def after_kbind
proof (rule after_mono [OF after_WriteI [OF d]], clarify)
  fix ip io t'
  assume h: "same_entry (m_Inode t ! i) ip" "ifs.more t' = ifs.more (t\<lparr>umem := store_bytes (umem t) 0 bs\<rparr>)"
  let ?t = "t\<lparr>umem := store_bytes (umem t) 0 bs\<rparr>"
  have r': "refs {} F I t'" by (rule refs_more [OF _ h(2)]) (simp add: r)
  note m = more_tables [OF h(2)]
  have "refs {} F I (set_ip i ip t')" using h(1) m by (intro refs_set_ip_same [OF r']) simp
  then show "after (Done (set_ip i ip (t'\<lparr>umem := umem t, u_IOParam := io\<rparr>)))
      (\<lambda>t'. refs {} F I t' \<and> same_dirs t t' \<and> u_pdir t' = u_pdir t)"
    using more_dirs [OF m(8)] by (auto simp: set_ip_def elim: refs_frame)
qed

lemma WriteDir_done:
  assumes d: "device_keeps cd" and h: "held F I (u_pdir t) s t"
  shows "after (WriteDir cd stale i t) (done_refs F I s)"
proof -
  let ?t = "fill_dent (i_number (m_Inode t ! i)) t"
  have t: "refs {} F (I(u_pdir t := I (u_pdir t) + 1)) ?t" "same_dirs t ?t" "u_pdir ?t = u_pdir t"
    using h by (simp_all add: held_def fill_dent_def Let_def)
  show ?thesis
    unfolding WriteDir_def Let_def
  proof (rule after_bind [OF write_kernel_refs [OF d t(1)]])
    fix t' assume k: "refs {} F (I(u_pdir t := I (u_pdir t) + 1)) t' \<and> same_dirs ?t t' \<and> u_pdir t' = u_pdir ?t"
    then have "held F I (u_pdir t') s t'" using h t by (auto simp: held_def)
    then show "after (IPut stale (u_pdir t') t') (done_refs F I s)" by (rule put_done)
  qed
qed

lemma hold_swap: "(I(p := I p + 1))(i := (I(p := I p + 1)) i + 1) = (I(i := I i + 1))(p := (I(i := I i + 1)) p + (1::int))"
  by (auto simp: fun_eq_iff)

lemma done_held: "done_refs F (I(i := I i + 1)) s t \<Longrightarrow> i < NINODE \<Longrightarrow> 0 \<le> I i \<Longrightarrow> held F I i s t"
  by (simp add: done_refs_def held_def)

lemma MakNode_held:
  assumes d: "device_keeps cd" and h: "held F I (u_pdir t) s t" and pos: "\<And>i. i < NINODE \<Longrightarrow> 0 \<le> I i"
  shows "after (MakNode cd stale mode t)
    (\<lambda>(r, t'). case r of None \<Rightarrow> u_error t' \<noteq> NOERROR \<and> held F I (u_pdir t) s t' | Some i \<Rightarrow> held F I i s t')"
proof -
  let ?p = "u_pdir t"
  have r: "refs {} F (I(?p := I ?p + 1)) t" using h by (simp add: held_def)
  show ?thesis
    unfolding MakNode_def
  proof (rule after_bind [OF after_conj [OF IAlloc_refs [OF r] IAlloc_error]], clarify)
    fix q t' assume g: "got {} F (I(?p := I ?p + 1)) t (q, t')" and e: "q = None \<longrightarrow> u_error t' \<noteq> NOERROR"
    show "after (case q of
       None \<Rightarrow> Done (None, t')
     | Some i \<Rightarrow>
         let s = set_ip i ((m_Inode t' ! i)\<lparr>i_flag := set_flag (i_flag (m_Inode t' ! i)) (IACC OR IUPD),
                   i_mode := mode OR IALLOC, i_nlink := 1, i_uid := u_uid t', i_gid := u_gid t'\<rparr>) t'
         in kbind (WriteDir cd stale i s) (\<lambda>s. Done (Some i, s)))
      (\<lambda>(r, t'). case r of None \<Rightarrow> u_error t' \<noteq> NOERROR \<and> held F I (u_pdir t) s t' | Some i \<Rightarrow> held F I i s t')"
    proof (cases q)
      case None
      then have "held F I ?p s t'" using g h dirs_more [of t' t s] by (auto simp: got_def held_def)
      then show ?thesis using None e by simp
    next
      case (Some i)
      let ?ip = "(m_Inode t' ! i)\<lparr>i_flag := set_flag (i_flag (m_Inode t' ! i)) (IACC OR IUPD),
                   i_mode := mode OR IALLOC, i_nlink := 1, i_uid := u_uid t', i_gid := u_gid t'\<rparr>"
      let ?t = "set_ip i ?ip t'"
      have g': "i < NINODE" "refs {} F ((I(?p := I ?p + 1))(i := (I(?p := I ?p + 1)) i + 1)) t'" "fm.more t' = fm.more t"
        using g Some by (auto simp: got_def)
      have pd: "u_pdir ?t = ?p" using more_dirs [OF g'(3)] by simp
      have "refs {} F ((I(i := I i + 1))(?p := (I(i := I i + 1)) ?p + 1)) ?t"
        by (rule refs_set_ip_same [OF g'(2) [unfolded hold_swap]]) simp
      then have "held F (I(i := I i + 1)) (u_pdir ?t) s ?t"
        using h pos [OF g'(1)] dirs_more [OF g'(3)] pd unfolding held_def by auto
      then have "after (WriteDir cd stale i ?t) (held F I i s)"
        by (rule after_mono [OF WriteDir_done [OF d]]) (rule done_held [where I = I and i = i, OF _ g'(1) pos [OF g'(1)]])
      then show ?thesis using Some by (simp add: Let_def)
    qed
  qed
qed

lemma start_pos: "start_ok F I s \<Longrightarrow> i < NINODE \<Longrightarrow> 0 \<le> I i"
  using refs_nonneg by (auto simp: start_ok_def)

text \<open>A call that creates an entry gives back every reference, or it fails and one directory stays held.\<close>

definition quiet_refs :: "(nat \<Rightarrow> int) \<Rightarrow> (nat \<Rightarrow> int) \<Rightarrow> 'a nm_scheme \<Rightarrow> 'a nm_scheme \<Rightarrow> bool" where
  "quiet_refs F I s s' \<longleftrightarrow> done_refs F I s s' \<or> (u_error s' \<noteq> NOERROR \<and> (\<exists>p. held F I p s s'))"

lemma quiet_done: "done_refs F I s t \<Longrightarrow> quiet_refs F I s t"
  by (simp add: quiet_refs_def)

lemma quiet_held: "u_error t \<noteq> NOERROR \<Longrightarrow> held F I p s t \<Longrightarrow> quiet_refs F I s t"
  by (auto simp: quiet_refs_def)

lemma named_quiet:
  "start_ok F I s \<Longrightarrow> named mode F I s (None, t) \<Longrightarrow> u_error t \<noteq> NOERROR \<Longrightarrow> quiet_refs F I s t"
  using start_pos [of F I s "u_pdir t"] by (auto simp: named_def held_def done_refs_def quiet_refs_def)

lemma named_pdir_held:
  "start_ok F I s \<Longrightarrow> named mode F I s (None, t) \<Longrightarrow> u_error t = NOERROR \<Longrightarrow> held F I (u_pdir t) s t"
  using start_pos by (auto simp: named_def held_def)

lemma done_set_ip: "done_refs F I s t \<Longrightarrow> same_entry (m_Inode t ! i) ip \<Longrightarrow> done_refs F I s (set_ip i ip t)"
  unfolding done_refs_def by (auto intro: refs_set_ip_same)

lemma Creat_quiet:
  assumes d: "device_keeps cd" and st: "start_ok F I s"
  shows "after (Creat cd stale arg s) (quiet_refs F I s)"
  unfolding Creat_def Let_def
proof (rule NameI_rule [OF st])
  fix t assume n: "named CREATE F I s (None, t)"
  have opn: "after (Open1 stale i FWRITE 2 t') (quiet_refs F I s)" if "held F I i s t'" for i t'
    by (rule after_mono [OF Open1_done [OF that]]) (rule quiet_done)
  have mk: "after (MakNode cd stale m t) (\<lambda>x. after (case x of (r, s) \<Rightarrow> case r of None \<Rightarrow> Done s | Some i \<Rightarrow> Open1 stale i FWRITE 2 s)
      (quiet_refs F I s))" if "u_error t = NOERROR" for m
    by (rule after_mono [OF MakNode_held [OF d named_pdir_held [OF st n that] start_pos [OF st]]])
      (auto split: option.splits intro!: opn elim: quiet_held)
  then show "after (case None of
          None \<Rightarrow>
            if u_error t \<noteq> NOERROR then Done t
            else kbind (MakNode cd stale (clear_flag (arg AND (IRWXU OR IRWXG OR IRWXO)) ISVTX) t) (\<lambda>(r, s).
              case r of None \<Rightarrow> Done s | Some i \<Rightarrow> Open1 stale i FWRITE 2 s)
        | Some i \<Rightarrow>
            kbind (Open1 stale i FWRITE 1 t) (\<lambda>s.
              Done (set_ip i ((m_Inode s ! i)\<lparr>i_mode := i_mode (m_Inode s ! i) OR (arg AND (IRWXU OR IRWXG OR IRWXO))\<rparr>) s)))
      (quiet_refs F I s)"
    using named_quiet [OF st n] by auto
next
  fix i t assume "held F I i s t"
  then show "after (case Some i of
          None \<Rightarrow>
            if u_error t \<noteq> NOERROR then Done t
            else kbind (MakNode cd stale (clear_flag (arg AND (IRWXU OR IRWXG OR IRWXO)) ISVTX) t) (\<lambda>(r, s).
              case r of None \<Rightarrow> Done s | Some i \<Rightarrow> Open1 stale i FWRITE 2 s)
        | Some i \<Rightarrow>
            kbind (Open1 stale i FWRITE 1 t) (\<lambda>s.
              Done (set_ip i ((m_Inode s ! i)\<lparr>i_mode := i_mode (m_Inode s ! i) OR (arg AND (IRWXU OR IRWXG OR IRWXO))\<rparr>) s)))
      (quiet_refs F I s)"
    by (auto intro!: after_mono [OF Open1_done] quiet_done done_set_ip)
qed

lemma quiet_put:
  assumes "held F I i s t"
  shows "after (IPut stale i t) (quiet_refs F I s)"
  by (rule after_mono [OF put_done [OF assms]]) (rule quiet_done)

lemma MkNod_quiet:
  assumes d: "device_keeps cd" and st: "start_ok F I s"
  shows "after (MkNod cd stale mode dev s) (quiet_refs F I s)"
proof -
  let ?f = "\<lambda>r s. case r of
             Some i \<Rightarrow> IPut stale i (s\<lparr>u_error := EEXIST\<rparr>)
           | None \<Rightarrow>
               if u_error s \<noteq> NOERROR then Done s
               else kbind (MakNode cd stale mode s) (\<lambda>(r, s).
                 case r of
                   None \<Rightarrow> Done s
                 | Some i \<Rightarrow>
                     IPut stale i (if i_mode (m_Inode s ! i) AND (IFBLK OR IFCHR) \<noteq> 0
                       then set_ip i ((m_Inode s ! i)\<lparr>i_addr := (i_addr (m_Inode s ! i))[0 := dev]\<rparr>) s else s))"
  have "after (kbind (NameI stale CREATE s) (\<lambda>(r, s). ?f r s)) (quiet_refs F I s)"
  proof (rule NameI_rule [OF st])
    fix t assume n: "named CREATE F I s (None, t)"
    have "after (MakNode cd stale mode t) (\<lambda>x. after (case x of (r, s) \<Rightarrow> case r of
                   None \<Rightarrow> Done s
                 | Some i \<Rightarrow>
                     IPut stale i (if i_mode (m_Inode s ! i) AND (IFBLK OR IFCHR) \<noteq> 0
                       then set_ip i ((m_Inode s ! i)\<lparr>i_addr := (i_addr (m_Inode s ! i))[0 := dev]\<rparr>) s else s))
        (quiet_refs F I s))" if "u_error t = NOERROR"
      by (rule after_mono [OF MakNode_held [OF d named_pdir_held [OF st n that] start_pos [OF st]]])
        (auto split: option.splits intro!: quiet_put held_set_ip elim: quiet_held)
    then show "after (?f None t) (quiet_refs F I s)"
      by (cases "u_error t = NOERROR") (simp_all add: named_quiet [OF st n])
  next
    fix i t assume "held F I i s t"
    then show "after (?f (Some i) t) (quiet_refs F I s)" by (auto intro: quiet_put)
  qed
  moreover have "quiet_refs F I s (s\<lparr>u_error := EPERM\<rparr>)" using st by (intro quiet_done) (simp add: done_refs_def start_ok_def)
  ultimately show ?thesis by (auto simp: MkNod_def SUser_def simp del: after_kbind)
qed

lemma UnLink_done:
  assumes d: "device_keeps cd" and st: "start_ok F I s"
  shows "after (UnLink cd stale s) (done_refs F I s)"
  unfolding UnLink_def
proof (rule NameI_rule [OF st])
  fix j t assume h: "held F I j s t"
  have r: "refs {} F (I(j := I j + 1)) (Prele j t)" using h by (simp add: held_def refs_Prele)
  let ?n = "\<lambda>s. 32 + 32 * nat (d_esize s)"
  let ?g = "\<lambda>(r, s). case r of
           None \<Rightarrow> Panic
         | Some i \<Rightarrow>
             let (ok, s) = (if i_mode (m_Inode s ! i) AND IFMT = IFDIR then SUser s else (True, s))
             in if \<not> ok then kbind (IPut stale j s) (IPut stale i)
                else
                  let n = 32 + 32 * nat (d_esize s);
                      s = s\<lparr>addition_entry := replicate ADD_DIRSIZ 0, d_ino := 0\<rparr>
                  in kbind (write_kernel cd j (take n (dent_bytes s @ addition_entry s))
                             (m_Offset (u_IOParam s) - int n) s) (\<lambda>s.
                       let s = set_ip i ((m_Inode s ! i)\<lparr>i_nlink := i_nlink (m_Inode s ! i) - 1,
                                 i_flag := set_flag (i_flag (m_Inode s ! i)) IUPD\<rparr>) s
                       in kbind (IPut stale j s) (IPut stale i))"
  have "after (kbind (IGet stale (i_dev (m_Inode t ! j)) (d_ino t) (Prele j t)) ?g) (done_refs F I s)"
  proof (rule after_bind [OF IGet_refs [OF r]])
    fix x assume g: "got {} F (I(j := I j + 1)) (Prele j t) x"
    obtain q t' where x: "x = (q, t')" by fastforce
    show "after (?g x) (done_refs F I s)"
    proof (cases q)
      case (Some i)
      have g': "i < NINODE" "refs {} F ((I(j := I j + 1))(i := (I(j := I j + 1)) i + 1)) t'" "fm.more t' = fm.more t"
        using g x Some by (simp_all add: got_def)
      note g' = g'(1) g'(2) [unfolded hold_swap] g'(3)
      have two: "held F (I(i := I i + 1)) j s t'"
        using h g' dirs_more [OF g'(3)] start_pos [OF st] unfolding held_def by auto
      have put: "after (IPut stale j u) (\<lambda>v. after (IPut stale i v) (done_refs F I s))"
        if "held F (I(i := I i + 1)) j s u" for u
        by (rule after_mono [OF put_done [OF that]]) (intro put_done done_held g'(1) start_pos [OF st])
      have wr: "after (write_kernel cd j bs off u) (\<lambda>v. held F (I(i := I i + 1)) j s v)"
        if "held F (I(i := I i + 1)) j s u" for u bs off
        using that write_kernel_refs [OF d, of F "(I(i := I i + 1))(j := (I(i := I i + 1)) j + 1)" u j bs off]
        by (auto simp: held_def elim!: after_mono)
      have wr': "after (write_kernel cd j bs off u) (\<lambda>v. after (IPut stale j (set_ip i ((m_Inode v ! i)\<lparr>i_nlink := i_nlink (m_Inode v ! i) - 1,
                                 i_flag := set_flag (i_flag (m_Inode v ! i)) IUPD\<rparr>) v))
          (\<lambda>v. after (IPut stale i v) (done_refs F I s)))"
        if "held F (I(i := I i + 1)) j s u" for u bs off
        by (rule after_mono [OF wr [OF that]]) (rule put, rule held_set_ip, simp_all)
      have two': "held F (I(i := I i + 1)) j s (t'\<lparr>addition_entry := a, d_ino := n\<rparr>)" for a n
        using two by (simp add: held_def)
      show ?thesis
        using Some x put [OF two] put [of "t'\<lparr>u_error := EPERM\<rparr>"] two wr' [OF two']
        by (auto simp: SUser_def Let_def)
    qed (use x in simp)
  qed
  then show "after (case Some j of None \<Rightarrow> Done t
      | Some d \<Rightarrow> kbind (IGet stale (i_dev (m_Inode t ! d)) (d_ino t) (Prele d t)) (\<lambda>(r, s).
         case r of
           None \<Rightarrow> Panic
         | Some i \<Rightarrow>
             let (ok, s) = (if i_mode (m_Inode s ! i) AND IFMT = IFDIR then SUser s else (True, s))
             in if \<not> ok then kbind (IPut stale d s) (IPut stale i)
                else
                  let n = 32 + 32 * nat (d_esize s);
                      s = s\<lparr>addition_entry := replicate ADD_DIRSIZ 0, d_ino := 0\<rparr>
                  in kbind (write_kernel cd d (take n (dent_bytes s @ addition_entry s))
                             (m_Offset (u_IOParam s) - int n) s) (\<lambda>s.
                       let s = set_ip i ((m_Inode s ! i)\<lparr>i_nlink := i_nlink (m_Inode s ! i) - 1,
                                 i_flag := set_flag (i_flag (m_Inode s ! i)) IUPD\<rparr>) s
                       in kbind (IPut stale d s) (IPut stale i)))) (done_refs F I s)"
    by simp
qed (auto elim: named_done)

lemma held_start:
  assumes st: "start_ok F I s" and h: "held F I i s t"
  shows "start_ok F (I(i := I i + 1)) t"
  using st h unfolding start_ok_def held_def dir_ok_def by (auto simp: fun_upd_apply)

lemma done_step: "done_refs F (I(i := I i + 1)) t v \<Longrightarrow> held F I i s t \<Longrightarrow> held F I i s v"
  by (auto simp: done_refs_def held_def)

lemma hold_both: "i < NINODE \<Longrightarrow> 0 \<le> I i \<Longrightarrow> 0 \<le> I p \<Longrightarrow> held F (I(i := I i + 1)) p s t \<Longrightarrow> held F (I(p := I p + 1)) i s t"
  by (auto simp: held_def fun_upd_twist)

text \<open>An inode is released after a failed search that may have kept a directory.\<close>

lemma quiet_release:
  assumes q: "quiet_refs F (I(i := I i + 1)) t u" and h: "held F I i s t" and pos: "\<And>k. k < NINODE \<Longrightarrow> 0 \<le> I k"
    and e: "u_error u \<noteq> NOERROR"
  shows "after (IPut stale i u) (quiet_refs F I s)"
  using q unfolding quiet_refs_def [of F "I(i := I i + 1)"]
proof (elim disjE conjE exE)
  assume "done_refs F (I(i := I i + 1)) t u"
  then show ?thesis by (intro quiet_put done_step [OF _ h])
next
  fix p assume p: "held F (I(i := I i + 1)) p t u"
  then have p': "p < NINODE" "i < NINODE" "same_dirs s t" using h by (simp_all add: held_def)
  have "held F (I(p := I p + 1)) i s u" using hold_both [OF p'(2) pos pos p] p' by (simp add: held_def)
  from after_conj [OF put_done [OF this] IPut_error] show ?thesis
    by (rule after_mono) (use e p'(1) pos in \<open>auto intro!: quiet_held done_held\<close>)
qed

lemma Link_quiet:
  assumes d: "device_keeps cd" and st: "start_ok F I s"
  shows "after (Link cd stale newpath s) (quiet_refs F I s)"
proof -
  let ?tail = "\<lambda>i s. if u_error s \<noteq> NOERROR then IPut stale i s
                    else if i_dev (m_Inode s ! u_pdir s) \<noteq> i_dev (m_Inode s ! i)
                    then kbind (IPut stale (u_pdir s) s) (\<lambda>s. IPut stale i (s\<lparr>u_error := EXDEV\<rparr>))
                    else kbind (WriteDir cd stale i s) (\<lambda>s.
                      IPut stale i (set_ip i ((m_Inode s ! i)\<lparr>i_nlink := i_nlink (m_Inode s ! i) + 1,
                        i_flag := set_flag (i_flag (m_Inode s ! i)) IUPD\<rparr>) s))"
  have second: "after (kbind (NameI stale CREATE t) (\<lambda>(r, s).
                  kbind (case r of None \<Rightarrow> Done s | Some j \<Rightarrow> IPut stale j (s\<lparr>u_error := EEXIST\<rparr>)) (?tail i)))
      (quiet_refs F I s)" if h: "held F I i s t" for i t
  proof (rule NameI_rule [OF held_start [OF st h]])
    fix u assume n: "named CREATE F (I(i := I i + 1)) t (None, u)"
    have "after (?tail i u) (quiet_refs F I s)" if e: "u_error u = NOERROR"
    proof -
      have p: "held F (I(i := I i + 1)) (u_pdir u) t u"
        by (rule named_pdir_held [OF held_start [OF st h] n e])
      have dirs: "same_dirs s t" and i: "i < NINODE" "0 \<le> I i" using h by (simp_all add: held_def)
      have fin: "after (IPut stale i (set_ip i ((m_Inode v ! i)\<lparr>i_nlink := i_nlink (m_Inode v ! i) + 1,
                        i_flag := set_flag (i_flag (m_Inode v ! i)) IUPD\<rparr>) v)) (quiet_refs F I s)"
        if "done_refs F (I(i := I i + 1)) t v" for v
      proof -
        have "held F I i s v" using that dirs i by (simp add: done_refs_def held_def)
        then show ?thesis by (intro quiet_put held_set_ip) simp_all
      qed
      have x: "after (IPut stale (u_pdir u) u) (\<lambda>v. after (IPut stale i (v\<lparr>u_error := EXDEV\<rparr>)) (quiet_refs F I s))"
        by (rule after_mono [OF put_done [OF p]]) (use done_step [OF _ h] in \<open>auto intro!: quiet_put\<close>)
      show ?thesis using e x by (auto intro!: after_mono [OF WriteDir_done [OF d p]] fin)
    qed
    moreover have "after (IPut stale i u) (quiet_refs F I s)" if e: "u_error u \<noteq> NOERROR"
      by (rule quiet_release [OF named_quiet [OF held_start [OF st h] n e] h start_pos [OF st] e])
    ultimately show "after (kbind (case None of None \<Rightarrow> Done u | Some j \<Rightarrow> IPut stale j (u\<lparr>u_error := EEXIST\<rparr>)) (?tail i)) (quiet_refs F I s)"
      by (cases "u_error u = NOERROR") simp_all
  next
    fix j u assume j: "held F (I(i := I i + 1)) j t u"
    have "after (IPut stale j (u\<lparr>u_error := EEXIST\<rparr>)) (\<lambda>v. done_refs F (I(i := I i + 1)) t v \<and> u_error v = EEXIST)"
      by (rule after_conj [OF put_done]) (use j in \<open>auto intro: after_mono [OF IPut_error]\<close>)
    then have "after (IPut stale j (u\<lparr>u_error := EEXIST\<rparr>)) (\<lambda>v. after (?tail i v) (quiet_refs F I s))"
      by (rule after_mono) (use done_step [OF _ h] in \<open>auto intro!: quiet_put\<close>)
    then show "after (kbind (case Some j of None \<Rightarrow> Done u | Some j \<Rightarrow> IPut stale j (u\<lparr>u_error := EEXIST\<rparr>)) (?tail i)) (quiet_refs F I s)"
      by simp
  qed
  show ?thesis
    unfolding Link_def
  proof (rule NameI_rule [OF st])
    fix t assume "named OPEN F I s (None, t)"
    then show "after (case None of None \<Rightarrow> Done t
     | Some i \<Rightarrow>
         if i_nlink (m_Inode t ! i) \<ge> 255 then IPut stale i (t\<lparr>u_error := EMLINK\<rparr>)
         else
           let (ok, s) = (if i_mode (m_Inode t ! i) AND IFMT = IFDIR then SUser t else (True, t))
           in if \<not> ok then IPut stale i s
              else
                let s = set_ip i ((m_Inode s ! i)\<lparr>i_flag := clear_flag (i_flag (m_Inode s ! i)) ILOCK\<rparr>) s
                in kbind (NameI stale CREATE (s\<lparr>u_dirp := newpath\<rparr>)) (\<lambda>(r, s).
                  kbind (case r of None \<Rightarrow> Done s | Some j \<Rightarrow> IPut stale j (s\<lparr>u_error := EEXIST\<rparr>)) (?tail i))) (quiet_refs F I s)"
      by (auto intro: quiet_done elim: named_done)
  next
    fix i t assume h: "held F I i s t"
    have "after (let s = set_ip i ((m_Inode u ! i)\<lparr>i_flag := clear_flag (i_flag (m_Inode u ! i)) ILOCK\<rparr>) u
                in kbind (NameI stale CREATE (s\<lparr>u_dirp := newpath\<rparr>)) (\<lambda>(r, s).
                  kbind (case r of None \<Rightarrow> Done s | Some j \<Rightarrow> IPut stale j (s\<lparr>u_error := EEXIST\<rparr>)) (?tail i)))
        (quiet_refs F I s)" if "held F I i s u" for u
      unfolding Let_def by (rule second) (use that in \<open>auto intro: held_set_ip\<close>)
    then show "after (case Some i of None \<Rightarrow> Done t
     | Some i \<Rightarrow>
         if i_nlink (m_Inode t ! i) \<ge> 255 then IPut stale i (t\<lparr>u_error := EMLINK\<rparr>)
         else
           let (ok, s) = (if i_mode (m_Inode t ! i) AND IFMT = IFDIR then SUser t else (True, t))
           in if \<not> ok then IPut stale i s
              else
                let s = set_ip i ((m_Inode s ! i)\<lparr>i_flag := clear_flag (i_flag (m_Inode s ! i)) ILOCK\<rparr>) s
                in kbind (NameI stale CREATE (s\<lparr>u_dirp := newpath\<rparr>)) (\<lambda>(r, s).
                  kbind (case r of None \<Rightarrow> Done s | Some j \<Rightarrow> IPut stale j (s\<lparr>u_error := EEXIST\<rparr>)) (?tail i))) (quiet_refs F I s)"
      using h by (auto simp: SUser_def intro!: quiet_put simp del: after_kbind)
  qed
qed

section \<open>The counts after any sequence of calls\<close>

text \<open>
  The counts are exact when besides the tables only the current directory of the process and the
  references \<open>J\<close> of others hold inodes; the root directory is held by the system.
\<close>

definition counts_ok :: "(nat \<Rightarrow> int) \<Rightarrow> (nat \<Rightarrow> int) \<Rightarrow> 'a nm_scheme \<Rightarrow> bool" where
  "counts_ok F J s \<longleftrightarrow>
     refs {} F (\<lambda>i. J i + (if i = u_cdir s then 1 else 0)) s \<and> (\<forall>i. 0 \<le> J i) \<and>
     u_cdir s < NINODE \<and> rootDirInode s < NINODE \<and> 0 < J (rootDirInode s)"

lemma counts_start: "counts_ok F J s \<Longrightarrow> start_ok F (\<lambda>i. J i + (if i = u_cdir s then 1 else 0)) s"
  unfolding counts_ok_def start_ok_def dir_ok_def by (auto simp: add_nonneg_pos)

lemma counts_done:
  "counts_ok F J s \<Longrightarrow> done_refs F (\<lambda>i. J i + (if i = u_cdir s then 1 else 0)) s t \<Longrightarrow> counts_ok F J t"
  unfolding counts_ok_def done_refs_def by auto

lemma counts_held:
  "counts_ok F J s \<Longrightarrow> held F (\<lambda>i. J i + (if i = u_cdir s then 1 else 0)) p s t \<Longrightarrow> p < NINODE \<and> counts_ok F (J(p := J p + 1)) t"
proof -
  assume c: "counts_ok F J s" and h: "held F (\<lambda>i. J i + (if i = u_cdir s then 1 else 0)) p s t"
  have eq: "(\<lambda>i. J i + (if i = u_cdir s then 1 else 0))(p := J p + (if p = u_cdir s then 1 else 0) + 1) =
      (\<lambda>i. (J(p := J p + 1)) i + (if i = u_cdir s then 1 else 0))" by (auto simp: fun_eq_iff)
  show ?thesis using c h unfolding counts_ok_def held_def eq by (simp add: add_pos_nonneg)
qed

lemma counts_quiet:
  "counts_ok F J s \<Longrightarrow> quiet_refs F (\<lambda>i. J i + (if i = u_cdir s then 1 else 0)) s t \<Longrightarrow>
   counts_ok F J t \<or> (u_error t \<noteq> NOERROR \<and> (\<exists>p < NINODE. counts_ok F (J(p := J p + 1)) t))"
  unfolding quiet_refs_def using counts_done counts_held by blast

lemma counts_fm:
  "counts_ok F J s \<Longrightarrow> refs {} F (\<lambda>i. J i + (if i = u_cdir s then 1 else 0)) t \<Longrightarrow> fm.more t = fm.more s \<Longrightarrow> counts_ok F J t"
  using more_dirs [of t s] by (auto simp: counts_ok_def)

lemma counts_entry [simp]: "counts_ok F J (trap_entry path s) = counts_ok F J s"
  by (simp add: counts_ok_def trap_entry_def)

lemma counts_refs: "counts_ok F J s \<Longrightarrow> refs {} F (\<lambda>i. J i + (if i = u_cdir s then 1 else 0)) s"
  by (simp add: counts_ok_def)

lemma SetCurDir_simps [simp]:
  "m_Inode (SetCurDir p s) = m_Inode s" "m_File (SetCurDir p s) = m_File s" "u_ofiles (SetCurDir p s) = u_ofiles s"
  "u_cdir (SetCurDir p s) = u_cdir s" "rootDirInode (SetCurDir p s) = rootDirInode s" "u_error (SetCurDir p s) = u_error s"
  by (simp_all add: SetCurDir_def Let_def)

lemma ChDir_counts:
  assumes c: "counts_ok F J s"
  shows "after (ChDir stale path s) (counts_ok F J)"
proof -
  let ?I = "\<lambda>i. J i + (if i = u_cdir s then 1 else 0)"
  have put: "after (IPut stale i t) (counts_ok F J)" if "held F ?I i s t" for i t
    by (rule after_mono [OF put_done [OF that]]) (rule counts_done [OF c])
  have move: "after (IPut stale (u_cdir t) t)
      (\<lambda>v. counts_ok F J (SetCurDir path (Prele i (v\<lparr>u_cdir := i\<rparr>))))" if h: "held F ?I i s t" for i t
  proof -
    have t: "refs {} F (?I(i := ?I i + 1)) t" "u_cdir t = u_cdir s" "i < NINODE" "rootDirInode t = rootDirInode s"
      using h by (simp_all add: held_def)
    have cd: "u_cdir s < NINODE" "\<And>i. 0 \<le> J i" using c by (simp_all add: counts_ok_def)
    have pos: "0 < (?I(i := ?I i + 1)) (u_cdir s)"
      using cd(2) [of "u_cdir s"] by (auto simp: fun_upd_apply)
    show ?thesis
      unfolding t(2)
    proof (rule after_mono [OF IPut_refs [OF t(1) cd(1) pos]], elim conjE)
      fix v assume v: "refs {} F ((?I(i := ?I i + 1))(u_cdir s := (?I(i := ?I i + 1)) (u_cdir s) - 1)) v" "fm.more v = fm.more t"
      have eq: "(?I(i := ?I i + 1))(u_cdir s := (?I(i := ?I i + 1)) (u_cdir s) - 1) = (\<lambda>k. J k + (if k = i then 1 else 0))"
        by (auto simp: fun_eq_iff)
      have "refs {} F (\<lambda>k. J k + (if k = i then 1 else 0)) (v\<lparr>u_cdir := i\<rparr>)" using v(1) unfolding eq by simp
      from refs_Prele [OF this, of i]
      have "refs {} F (\<lambda>k. J k + (if k = i then 1 else 0)) (SetCurDir path (Prele i (v\<lparr>u_cdir := i\<rparr>)))"
        by (rule refs_frame) simp_all
      moreover have "rootDirInode v = rootDirInode s" using more_dirs [OF v(2)] t(4) by simp
      ultimately show "counts_ok F J (SetCurDir path (Prele i (v\<lparr>u_cdir := i\<rparr>)))"
        using c t(3) unfolding counts_ok_def by (simp add: Prele_def)
    qed
  qed
  have acc: "after (Access ip m t) (\<lambda>(d, u). held F ?I i s u)" if "held F ?I i s t" for ip m t i
    by (rule after_mono [OF Access_dirs]) (auto intro: held_kept [OF that])
  have go: "after (Access ip IEXEC t) (\<lambda>x. after (case x of (denied, s) \<Rightarrow>
           if denied then IPut stale i s
           else kbind (IPut stale (u_cdir s) s) (\<lambda>s. Done (SetCurDir path (Prele i (s\<lparr>u_cdir := i\<rparr>))))) (counts_ok F J))"
    if "held F ?I i s t" for i t ip
    by (rule after_mono [OF acc [OF that]]) (auto intro!: put move)
  show ?thesis
    unfolding ChDir_def
    by (rule NameI_rule [OF counts_start [OF c]])
      (auto intro!: put go counts_done [OF c] elim: named_done)
qed

text \<open>
  \<open>creates\<close>: the calls that may look for a place for a new entry.  A call of them that fails may leave
  the parent directory held and locked.
\<close>

fun creates :: "file_call \<Rightarrow> bool" where
  "creates (Sys_Creat path mode) = True"
| "creates (Sys_Link path newpath) = True"
| "creates (Sys_MkNod path mode dev) = True"
| "creates c = False"

fun makes_pipe :: "file_call \<Rightarrow> bool" where
  "makes_pipe (Sys_Pipe fdarr) = True"
| "makes_pipe c = False"

lemma file_syscall_counts:
  assumes rd: "device_keeps rd" and wr: "device_keeps wr" and c: "counts_ok F J s"
    and pipe: "makes_pipe fc \<Longrightarrow> alloc_in_core s"
    and call: "file_syscall rd wr stale fc s = Done s'"
  shows "counts_ok F J s' \<or> (creates fc \<and> u_error s' \<noteq> NOERROR \<and> (\<exists>p < NINODE. counts_ok F (J(p := J p + 1)) s'))"
proof -
  have c': "counts_ok F J (trap_entry path s)" for path using c by simp
  note st = counts_start [OF c'] and rf = counts_refs [OF c']
  have fin: "counts_ok F J s'"
    if "after x (done_refs F (\<lambda>i. J i + (if i = u_cdir (trap_entry path s) then 1 else 0)) (trap_entry path s))" "x = Done s'" for path x
    by (rule counts_done [OF c' after_Done [OF that]])
  have quiet: "counts_ok F J s' \<or> (u_error s' \<noteq> NOERROR \<and> (\<exists>p < NINODE. counts_ok F (J(p := J p + 1)) s'))"
    if "after x (quiet_refs F (\<lambda>i. J i + (if i = u_cdir (trap_entry path s) then 1 else 0)) (trap_entry path s))" "x = Done s'" for path x
    by (rule counts_quiet [OF c' after_Done [OF that]])
  have fm: "after x (counts_ok F J)"
    if "after x (\<lambda>t. refs {} F (\<lambda>i. J i + (if i = u_cdir (trap_entry path s) then 1 else 0)) t \<and> more_kept (trap_entry path s) t)" for path x
    by (rule after_mono [OF that]) (auto intro: counts_fm [OF c'])
  show ?thesis
  proof (cases fc)
    case (Sys_Read fd base n)
    then show ?thesis using after_Done [OF fm [OF Rdwr_refs [OF rd rf]]] call by simp
  next
    case (Sys_Write fd base n)
    then show ?thesis using after_Done [OF fm [OF Rdwr_refs [OF wr rf]]] call by simp
  next
    case (Sys_Open path mode)
    show ?thesis by (rule disjI1, rule fin [OF Open_done [OF st]]) (use call Sys_Open in simp)
  next
    case (Sys_Close fd)
    then show ?thesis using after_Done [OF fm [OF Close_refs [OF rf]]] call by simp
  next
    case (Sys_Creat path mode)
    then show ?thesis using quiet [OF Creat_quiet [OF wr st]] call by simp
  next
    case (Sys_Link path newpath)
    then show ?thesis using quiet [OF Link_quiet [OF wr st]] call by simp
  next
    case (Sys_UnLink path)
    show ?thesis by (rule disjI1, rule fin [OF UnLink_done [OF wr st]]) (use call Sys_UnLink in simp)
  next
    case (Sys_ChDir path)
    then show ?thesis using after_Done [OF ChDir_counts [OF c']] call by simp
  next
    case (Sys_MkNod path mode dev)
    then show ?thesis using quiet [OF MkNod_quiet [OF wr st]] call by simp
  next
    case (Sys_ChMod path mode)
    show ?thesis by (rule disjI1, rule fin [OF ChMod_done [OF st]]) (use call Sys_ChMod in simp)
  next
    case (Sys_ChOwn path uid gid)
    show ?thesis by (rule disjI1, rule fin [OF ChOwn_done [OF st]]) (use call Sys_ChOwn in simp)
  next
    case (Sys_Stat path buf)
    show ?thesis by (rule disjI1, rule fin [OF Stat_done [OF st]]) (use call Sys_Stat in simp)
  next
    case (Sys_Seek fd off wh)
    then show ?thesis using after_Done [OF fm [OF Seek_refs [OF rf]]] call by simp
  next
    case (Sys_FStat fd buf)
    then show ?thesis using after_Done [OF fm [OF FStat_refs [OF rf]]] call by simp
  next
    case (Sys_Dup fd)
    then show ?thesis using counts_fm [OF c' conjunct1 [OF Dup_refs [OF rf]]] Dup_refs [OF rf] call by auto
  next
    case (Sys_Pipe fdarr)
    have "alloc_in_core (trap_entry [] s)" using pipe Sys_Pipe by (simp add: alloc_in_core_def trap_entry_def)
    then show ?thesis using after_Done [OF fm [OF Pipe_refs [OF rf]]] call Sys_Pipe by simp
  qed
qed

text \<open>
  A history of calls, which may fail in any way; the number counts the calls that were to create an entry and failed.
  A pipe is made while the inodes in core are allocated.
\<close>

inductive runs :: "('a nm_scheme) device \<Rightarrow> ('a nm_scheme) device \<Rightarrow> (int \<Rightarrow> u8 list) \<Rightarrow> nat \<Rightarrow> 'a nm_scheme \<Rightarrow> 'a nm_scheme \<Rightarrow> bool"
  for rd wr stale where
  start: "runs rd wr stale 0 s s"
| call: "runs rd wr stale n s t \<Longrightarrow> file_syscall rd wr stale fc t = Done u \<Longrightarrow>
    (makes_pipe fc \<Longrightarrow> alloc_in_core t) \<Longrightarrow>
    runs rd wr stale (if creates fc \<and> u_error u \<noteq> NOERROR then Suc n else n) s u"

text \<open>The directories of \<open>ps\<close> are held besides the references \<open>J\<close>.\<close>

definition left_held :: "(nat \<Rightarrow> int) \<Rightarrow> nat list \<Rightarrow> nat \<Rightarrow> int" where
  "left_held J ps = (\<lambda>i. J i + int (count_list ps i))"

lemma left_held_simps [simp]: "left_held J [] = J" "left_held J (p # ps) = (left_held J ps)(p := left_held J ps p + 1)"
  by (auto simp: left_held_def fun_eq_iff)

lemma runs_counts:
  assumes "device_keeps rd" "device_keeps wr" "runs rd wr stale n s t" "counts_ok F J s"
  shows "\<exists>ps. length ps \<le> n \<and> set ps \<subseteq> {..<NINODE} \<and> counts_ok F (left_held J ps) t"
  using assms(3,4)
proof (induction rule: runs.induct)
  case (start s)
  then show ?case by (intro exI [of _ "[]"]) simp
next
  case (call n s t fc u)
  then obtain ps where ps: "length ps \<le> n" "set ps \<subseteq> {..<NINODE}" "counts_ok F (left_held J ps) t" by blast
  have "counts_ok F (left_held J ps) u \<or>
      (creates fc \<and> u_error u \<noteq> NOERROR \<and> (\<exists>p < NINODE. counts_ok F ((left_held J ps)(p := left_held J ps p + 1)) u))"
    by (rule file_syscall_counts [OF assms(1,2) ps(3)]) (use call.hyps in auto)
  then show ?case
  proof (elim disjE conjE exE)
    assume "counts_ok F (left_held J ps) u"
    then show ?thesis using ps by (intro exI [of _ ps]) auto
  next
    fix p assume "creates fc" "u_error u \<noteq> NOERROR" "p < NINODE" "counts_ok F ((left_held J ps)(p := left_held J ps p + 1)) u"
    then show ?thesis using ps by (intro exI [of _ "p # ps"]) (simp add: fun_upd_def)
  qed
qed

end
