(* ===== verification/RefCounts.thy ===== *)
theory RefCounts
  imports RefPaths
begin

text \<open>
  The reference counts after any history of calls, on a small system.
\<close>

section \<open>A small system\<close>

text \<open>The root directory is the only inode in core; no file is open.\<close>

definition no_file :: ofile where
  "no_file = \<lparr>f_flag = 0, f_count = 0, f_inode = None, f_offset = 0\<rparr>"

definition root_inode :: inode where
  "root_inode = \<lparr>i_flag = 0, i_mode = IALLOC OR IFDIR OR IREAD OR IWRITE OR IEXEC, i_count = 2, i_nlink = 1, i_dev = 0,
     i_number = 0, i_uid = 0, i_gid = 0, i_size = 32, i_addr = [1024, 0, 0, 0, 0, 0, 0, 0, 0, 0], i_lastr = -1\<rparr>"

definition demo_nm :: nm where
  "demo_nm = \<lparr>m_Mount = m_Mount demo_fs, updlock = 0, disk = disk demo_fs, u_error = NOERROR, ktime = 7,
     rablock = 0, umem = (\<lambda>a. 0), m_Inode = root_inode # new_inode # replicate 98 new_inode,
     m_File = no_file # no_file # replicate 98 no_file, u_ofiles = None # None # replicate 13 None, u_eax = 0,
     u_uid = 0, u_gid = 0, bad_sector = (\<lambda>d b. False), u_cdir = 0, u_pdir = 0, rootDirInode = 0, u_dirp = [],
     u_dbuf = replicate 152 0, d_ino = 0, d_name = replicate 24 0, d_esize = 0, addition_entry = replicate 128 0,
     u_IOParam = \<lparr>m_Base = 0, m_Offset = 0, m_Count = 0\<rparr>, u_curdir = [slash, 0]\<rparr>"

lemma nth_two: "(x # y # replicate n z) ! i = (if i = 0 then x else if i = 1 then y else replicate n z ! (i - 2))"
  by (auto simp: nth_Cons split: nat.split)

lemma demo_counts: "counts_ok (\<lambda>f. 0) (\<lambda>i. if i = 0 then 1 else 0) demo_nm"
proof -
  have fil: "(no_file # no_file # replicate 98 no_file) ! f = no_file" if "f < 100" for f
    using that by (auto simp: nth_two)
  have new [simp]: "i_count new_inode = 0" "i_flag new_inode = 0" "f_count no_file = 0"
      "i_count root_inode = 2" "i_flag root_inode = 0"
    by (simp_all add: new_inode_def no_file_def root_inode_def)
  have fds: "(None # None # replicate 13 None :: nat option list) ! k = None" if "k < 15" for k
    using that by (auto simp: nth_two)
  have ino: "(root_inode # new_inode # replicate 98 new_inode) ! i = (if i = 0 then root_inode else new_inode)"
    if "i < 100" for i using that by (auto simp: nth_two)
  have "fds_of (u_ofiles demo_nm) f = 0" for f
    unfolding fds_of_def by (rule sum.neutral) (auto simp: demo_nm_def fds)
  moreover have "files_of {} (m_File demo_nm) i = 0" for i
    unfolding files_of_def by (rule sum.neutral) (auto simp: demo_nm_def fil uses_def)
  moreover have "one_copy (m_Inode demo_nm)"
    unfolding one_copy_def by (auto simp: demo_nm_def ino split: if_splits)
  moreover have "\<not> mounted (m_Inode demo_nm ! i)" if "i < 100" for i
    using that by (simp add: demo_nm_def ino)
  ultimately show ?thesis
    unfolding counts_ok_def refs_def file_refs_def inode_refs_def NINODE_def NFILE_def NOFILES_def
    by (auto simp: demo_nm_def fil ino)
qed

lemma demo_device: "device_keeps (\<lambda>d. Done)"
  by (simp add: device_keeps_def)


definition demo_calls :: "file_call list" where
  "demo_calls = [Sys_Open [slash, 0] FREAD, Sys_Dup 0, Sys_Open [slash, 0] FWRITE, Sys_Close 0, Sys_ChDir [slash, slash, 0]]"

lemma runs_calls:
  "file_syscalls rd wr stale cs s = Done t \<Longrightarrow> \<forall>c \<in> set cs. \<not> creates c \<and> \<not> makes_pipe c \<Longrightarrow>
   runs rd wr stale n u s \<Longrightarrow> runs rd wr stale n u t"
proof (induction cs arbitrary: s)
  case (Cons c cs)
  then obtain v where v: "file_syscall rd wr stale c s = Done v" "file_syscalls rd wr stale cs v = Done t"
    by (auto simp: kbind_Done)
  have "runs rd wr stale n u v" using runs.call [OF Cons.prems(3) v(1)] Cons.prems(2) by simp
  then show ?case using Cons.IH [OF v(2)] Cons.prems(2) by simp
qed simp

lemma demo_run:
  "case file_syscalls (\<lambda>d. Done) (\<lambda>d. Done) (\<lambda>b. []) demo_calls demo_nm of Done t \<Rightarrow>
       f_count (m_File t ! 0) = 1 \<and> i_count (m_Inode t ! 0) = 3 | _ \<Rightarrow> False"
  by code_simp


end
