(* ===== verification/FileErrors.thy ===== *)
theory FileErrors
  imports RefCounts
begin

text \<open>
  Access rights, and what the calls on files do when something fails.
\<close>

section \<open>Access rights\<close>

text \<open>
  The permission bits of a file: three groups of read, write and execute for the owner, the group and
  the others, from bit 8 down.
\<close>

datatype right = Read | Write | Execute

fun right_flag :: "right \<Rightarrow> u32" where
  "right_flag Read = IREAD"
| "right_flag Write = IWRITE"
| "right_flag Execute = IEXEC"

fun right_bit :: "right \<Rightarrow> nat" where
  "right_bit Read = 8"
| "right_bit Write = 7"
| "right_bit Execute = 6"

definition user_class :: "int \<Rightarrow> int \<Rightarrow> inode \<Rightarrow> nat" where
  "user_class uid gid ip = (if uid = i_uid ip then 0 else if gid = i_gid ip then 1 else 2)"

definition permitted :: "int \<Rightarrow> int \<Rightarrow> inode \<Rightarrow> right \<Rightarrow> bool" where
  "permitted uid gid ip r \<longleftrightarrow>
     (if uid = 0 then r = Execute \<longrightarrow> (\<exists>c \<in> {0, 1, 2}. bit (i_mode ip) (6 - 3 * c))
      else bit (i_mode ip) (right_bit r - 3 * user_class uid gid ip))"

lemma and_bit: "(w AND push_bit n 1 \<noteq> 0) = bit w n" if "n < LENGTH('w)" for w :: "'w::len word"
proof
  assume "w AND push_bit n 1 \<noteq> 0"
  then obtain m where "bit (w AND push_bit n 1) m" by (metis bit_eqI bit_0_eq bot_apply bot_bool_def)
  then show "bit w n" by (auto simp: bit_simps split: if_splits)
next
  assume "bit w n"
  then have "bit (w AND push_bit n 1) n" using that by (simp add: bit_simps)
  then show "w AND push_bit n 1 \<noteq> 0" by auto
qed

lemma and_power: "n < 32 \<Longrightarrow> (w AND 2 ^ n \<noteq> 0) = bit w n" for w :: u32
  using and_bit [of n w] by simp

lemma right_flags:
  "right_flag r = 2 ^ right_bit r" "drop_bit 3 (right_flag r) = 2 ^ (right_bit r - 3)"
  "drop_bit 3 (drop_bit 3 (right_flag r)) = 2 ^ (right_bit r - 6)" "right_bit r < 32"
  by (cases r; simp add: IREAD_def IWRITE_def IEXEC_def)+

lemma right_test:
  "(i_mode ip AND right_flag r \<noteq> 0) = bit (i_mode ip) (right_bit r)"
  "(i_mode ip AND drop_bit 3 (right_flag r) \<noteq> 0) = bit (i_mode ip) (right_bit r - 3)"
  "(i_mode ip AND drop_bit 3 (drop_bit 3 (right_flag r)) \<noteq> 0) = bit (i_mode ip) (right_bit r - 6)"
  unfolding right_flags(3) unfolding right_flags(2) unfolding right_flags(1) using right_flags(4) [of r] by (intro and_power; simp)+

lemma exec_bits:
  "(i_mode ip AND (IEXEC OR drop_bit 3 IEXEC OR drop_bit 6 IEXEC) \<noteq> 0) = (\<exists>c \<in> {0, 1, 2}. bit (i_mode ip) (6 - 3 * c))"
proof -
  have split: "(i_mode ip AND (a OR b OR c) \<noteq> 0) = (i_mode ip AND a \<noteq> 0 \<or> i_mode ip AND b \<noteq> 0 \<or> i_mode ip AND c \<noteq> 0)" for a b c
    by (auto simp: bit.conj_disj_distrib or_eq_0_iff)
  have e: "IEXEC = 2 ^ 6" "drop_bit 3 IEXEC = (2 ^ 3 :: u32)" "drop_bit 6 IEXEC = (2 ^ 0 :: u32)"
    by (simp_all add: IEXEC_def)
  have "(i_mode ip AND (IEXEC OR drop_bit 3 IEXEC OR drop_bit 6 IEXEC) \<noteq> 0) =
      (bit (i_mode ip) 6 \<or> bit (i_mode ip) 3 \<or> bit (i_mode ip) 0)"
    unfolding split unfolding e(2,3) unfolding e(1) by (simp only: and_power)
  then show ?thesis by auto
qed

lemma Access_permission:
  assumes a: "Access ip (right_flag r) s = Done (denied, s')"
    and w: "\<And>m sb t. r = Write \<Longrightarrow> GetFS s (i_dev ip) = Done (m, sb, t) \<Longrightarrow> s_ronly sb = 0"
  shows "denied \<longleftrightarrow> \<not> permitted (u_uid s) (u_gid s) ip r"
    "u_error s' = (if denied then EACCES else u_error s)"
proof -
  have iw: "(right_flag r = IWRITE) = (r = Write)" "(right_flag r = IEXEC) = (r = Execute)"
    by (cases r; simp add: IREAD_def IWRITE_def IEXEC_def)+
  obtain t where t: "u_uid t = u_uid s" "u_gid t = u_gid s" "u_error t = u_error s"
    and b: "(if u_uid t = 0
          then if r = Execute \<and> i_mode ip AND (IEXEC OR drop_bit 3 IEXEC OR drop_bit 6 IEXEC) = 0
               then Done (True, t\<lparr>u_error := EACCES\<rparr>) else Done (False, t)
          else
            let mode = (if u_uid t \<noteq> i_uid ip
                        then if u_gid t \<noteq> i_gid ip then drop_bit 3 (drop_bit 3 (right_flag r)) else drop_bit 3 (right_flag r)
                        else right_flag r)
            in if i_mode ip AND mode \<noteq> 0 then Done (False, t)
               else Done (True, t\<lparr>u_error := EACCES\<rparr>)) = Done (denied, s')"
  proof (cases "r = Write")
    case True
    then obtain m sb t where g: "GetFS s (i_dev ip) = Done (m, sb, t)" and k: "s_ronly sb = 0"
      using a w by (auto simp: Access_def iw kbind_Done)
    have "u_uid t = u_uid s" "u_gid t = u_gid s" "u_error t = u_error s"
      using after_Done [OF after_GetFS g] more_tables(5,6) [of t s] by (auto dest: ifs_more_fsys)
    moreover have "IWRITE \<noteq> IEXEC" by (simp add: IWRITE_def IEXEC_def)
    ultimately show ?thesis using a g k True by (intro that [of t]) (simp_all add: Access_def Let_def split: if_splits)
  next
    case False
    then show ?thesis using a unfolding Access_def iw by (intro that [of s]) simp_all
  qed
  have "denied = (\<not> permitted (u_uid s) (u_gid s) ip r) \<and> u_error s' = (if denied then EACCES else u_error s)"
  proof (cases "u_uid s = 0")
    case True
    then show ?thesis using b t exec_bits [of ip] by (auto simp: permitted_def split: if_splits)
  next
    case False
    have "right_bit r - 3 * user_class (u_uid s) (u_gid s) ip =
        (if u_uid s \<noteq> i_uid ip then if u_gid s \<noteq> i_gid ip then right_bit r - 6 else right_bit r - 3 else right_bit r)"
      by (simp add: user_class_def)
    then show ?thesis using b t False right_test [of ip r]
      by (auto simp: permitted_def Let_def split: if_splits)
  qed
  then show "denied \<longleftrightarrow> \<not> permitted (u_uid s) (u_gid s) ip r"
    "u_error s' = (if denied then EACCES else u_error s)" by simp_all
qed

definition read_only :: "'a fm_scheme \<Rightarrow> int \<Rightarrow> bool" where
  "read_only s dev \<longleftrightarrow> (case GetFS s dev of Done (m, sb, t) \<Rightarrow> s_ronly sb \<noteq> 0 | _ \<Rightarrow> False)"

lemma Access_read_only:
  "read_only s (i_dev ip) \<Longrightarrow> Access ip IWRITE s = Done (denied, s') \<Longrightarrow> denied \<and> u_error s' = EROFS"
  by (auto simp: read_only_def Access_def split: kcall.splits)

text \<open>
  \<open>Access\<close> grants a right exactly when the permission bits say so: the bits of the owner count for
  the owner, those of the group for its members and those of the others for anyone else; the super
  user may read and write everything, and execute what anyone may execute; nothing may be written
  on a file system mounted read-only.  The error tells which rule was broken.
\<close>

theorem Access_follows_modes:
  assumes "Access ip (right_flag r) s = Done (denied, s')"
  shows "(denied \<longleftrightarrow> (r = Write \<and> read_only s (i_dev ip)) \<or> \<not> permitted (u_uid s) (u_gid s) ip r) \<and>
    u_error s' = (if r = Write \<and> read_only s (i_dev ip) then EROFS else if denied then EACCES else u_error s)"
proof (cases "r = Write \<and> read_only s (i_dev ip)")
  case True
  then show ?thesis using Access_read_only assms by auto
next
  case False
  have "s_ronly sb = 0" if "r = Write" "GetFS s (i_dev ip) = Done (m, sb, t)" for m sb t
    using False that by (simp add: read_only_def)
  then show ?thesis using Access_permission [OF assms] False by auto
qed

theorem Access_follows_modes_witness:
  "\<exists>denied s'. Access (root_inode\<lparr>i_mode := IALLOC OR IREAD OR IWRITE OR drop_bit 3 IREAD, i_uid := 5, i_gid := 9\<rparr>)
       (right_flag Write) (demo_nm\<lparr>u_uid := 6, u_gid := 9\<rparr>) = Done (denied, s') \<and> denied \<and> u_error s' = EACCES"
proof -
  let ?ip = "root_inode\<lparr>i_mode := IALLOC OR IREAD OR IWRITE OR drop_bit 3 IREAD, i_uid := 5, i_gid := 9\<rparr>"
  let ?s = "demo_nm\<lparr>u_uid := 6, u_gid := 9\<rparr>"
  have "case Access ?ip (right_flag Write) ?s of Done x \<Rightarrow> True | _ \<Rightarrow> False" by code_simp
  then obtain denied s' where a: "Access ?ip (right_flag Write) ?s = Done (denied, s')"
    by (cases "Access ?ip (right_flag Write) ?s") auto
  have "\<not> read_only ?s (i_dev ?ip)" "\<not> permitted (u_uid ?s) (u_gid ?s) ?ip Write" by code_simp+
  then show ?thesis using Access_follows_modes [OF a] a by auto
qed

section \<open>When no inode can be allocated\<close>

lemma IAlloc_full:
  assumes g: "GetFS s dev = Done (m, sb, s1)" and l: "s_ilock sb = 0" and z: "s_ninode sb = 0"
    and full: "\<forall>ino \<in> set (map int [0..<nat (s_isize sb * 8)]). mode_on_disk dev ino s1 \<noteq> 0 \<or> IsLoaded dev ino s1 \<noteq> None"
  shows "IAlloc stale dev s = Done (None, (set_sb m sb s1)\<lparr>u_error := ENOSPC\<rparr>)"
proof -
  have "collect_free dev inos s1 sb = sb"
    if "\<forall>ino \<in> set inos. mode_on_disk dev ino s1 \<noteq> 0 \<or> IsLoaded dev ino s1 \<noteq> None" for inos
    using that by (induction inos) auto
  then show ?thesis using assms by (simp add: IAlloc_def Let_def)
qed

text \<open>
  When a file is created in a file system without a free inode, \<open>MakNode\<close> fails with \<open>ENOSPC\<close> and
  does not release the parent directory, which \<open>NameI\<close> has left locked and held: it stays so, and the
  next call that gets the directory, \<open>IGet\<close>, never comes back.
\<close>

theorem MakNode_leaves_parent_locked:
  assumes "p = u_pdir s" "dev = i_dev (m_Inode s ! p)"
    and "GetFS s dev = Done (m, sb, s1)" "s_ilock sb = 0" "s_ninode sb = 0"
    and "\<forall>ino \<in> set (map int [0..<nat (s_isize sb * 8)]). mode_on_disk dev ino s1 \<noteq> 0 \<or> IsLoaded dev ino s1 \<noteq> None"
    and "IsLoaded dev (i_number (m_Inode s ! p)) s = Some p" "has_flag (i_flag (m_Inode s ! p)) ILOCK"
  shows "\<exists>s'. MakNode cd stale mode s = Done (None, s') \<and> u_error s' = ENOSPC \<and> m_Inode s' = m_Inode s \<and>
    IGet stale dev (i_number (m_Inode s ! p)) s' = Asleep"
proof -
  let ?s = "(set_sb m sb s1)\<lparr>u_error := ENOSPC\<rparr>"
  have "m_Inode s1 = m_Inode s"
    using after_Done [OF after_GetFS assms(3)] more_tables(1) [of s1 s] by (auto dest: ifs_more_fsys)
  then have ino: "m_Inode ?s = m_Inode s" by simp
  then have "IsLoaded dev (i_number (m_Inode s ! p)) ?s = Some p" using assms(7) by (simp add: IsLoaded_def)
  then have "IGet stale dev (i_number (m_Inode s ! p)) ?s = Asleep"
    using assms(8) ino by (simp add: IGet_def Let_def)
  moreover have "MakNode cd stale mode s = Done (None, ?s)"
    using IAlloc_full [OF assms(3-6), of stale] assms(1,2) by (simp add: MakNode_def)
  ultimately show ?thesis using ino by auto
qed

definition full_nm :: nm where
  "full_nm = demo_nm\<lparr>m_Mount := [\<lparr>m_dev = 0, m_spb = Some (demo_sb\<lparr>s_isize := 0, s_ninode := 0, s_ilock := 0\<rparr>), m_inodep = None\<rparr>],
     m_Inode := (m_Inode demo_nm)[0 := root_inode\<lparr>i_flag := ILOCK, i_count := 3\<rparr>]\<rparr>"

theorem MakNode_leaves_parent_locked_witness:
  "\<exists>s'. MakNode (\<lambda>d. Done) (\<lambda>b. []) 0 full_nm = Done (None, s') \<and> u_error s' = ENOSPC \<and> m_Inode s' = m_Inode full_nm \<and>
     IGet (\<lambda>b. []) 0 0 s' = Asleep"
proof -
  have d: "i_dev (m_Inode full_nm ! 0) = 0" "i_number (m_Inode full_nm ! 0) = 0" "u_pdir full_nm = 0"
    by (simp_all add: full_nm_def demo_nm_def root_inode_def)
  obtain m sb s1 where g: "GetFS full_nm 0 = Done (m, sb, s1)" "s_ilock sb = 0" "s_ninode sb = 0" "s_isize sb = 0"
    by (auto simp: GetFS_def full_nm_def demo_sb_def Let_def)
  have l: "IsLoaded 0 0 full_nm = Some 0" "has_flag (i_flag (m_Inode full_nm ! 0)) ILOCK" by code_simp+
  show ?thesis
    using MakNode_leaves_parent_locked [of 0 full_nm 0 m sb s1 "\<lambda>d. Done" "\<lambda>b. []" 0] d g l by simp
qed

section \<open>When an inode cannot be read\<close>

lemma trunc_zero:
  "\<forall>i \<in> set is. i_addr ip ! i = 0 \<Longrightarrow> trunc_loop stale is (ip, s) = Done (ip, s)"
  by (induction "is") (auto simp: trunc_entry_def Let_def)

text \<open>
  When the sector of an inode cannot be read, \<open>IGet\<close> gives the slot back through \<open>IPut\<close>, which takes
  the link count that the slot happens to hold for that of the file: in a slot that was never used it
  is 0, and \<open>IPut\<close> enters the number of the inode, which is in use on the disk, into the table of free
  inodes.
\<close>

theorem IGet_error_frees_inode:
  assumes "IsLoaded dev ino s = None" "GetFreeInode s = Some i" "m_Inode s ! i = new_inode" "i < length (m_Inode s)"
    and "bad_sector s dev (INODE_ZONE_START_SECTOR + ino div INODE_NUMBER_PER_SECTOR)"
    and "mount_of (m_Mount s) dev 0 = Some (m, sb)" "s_nfree sb \<le> 100" "s_ilock sb = 0" "0 \<le> s_ninode sb" "s_ninode sb < 100"
    and "length (s_inode sb) = 100"
  shows "\<exists>s' sb'. IGet stale dev ino s = Done (None, s') \<and> u_error s' = EIO \<and>
    mount_of (m_Mount s') dev 0 = Some (m, sb') \<and>
    s_ninode sb' = s_ninode sb + 1 \<and> s_inode sb' ! nat (s_ninode sb) = ino"
proof -
  let ?ip = "new_inode\<lparr>i_dev := dev, i_number := ino, i_flag := ILOCK, i_count := 1, i_lastr := -1\<rparr>"
  let ?s1 = "(set_ip i ?ip s)\<lparr>u_error := EIO\<rparr>"
  let ?ip2 = "?ip\<lparr>i_flag := set_flag (i_flag ?ip) ILOCK\<rparr>"
  have sec: "dinode_sector ?ip = INODE_ZONE_START_SECTOR + ino div INODE_NUMBER_PER_SECTOR"
    by (simp add: dinode_sector_def)
  have c: "i_count new_inode = 0" "i_nlink new_inode = 0" "i_mode new_inode = 0" "i_addr new_inode = replicate 10 0"
    by (simp_all add: new_inode_def)
  have g1: "GetFS ?s1 dev = Done (m, sb, set_sb m sb ?s1)"
    using assms by (intro GetFS_ok) simp_all
  let ?sb = "sb\<lparr>s_inode := (s_inode sb)[nat (s_ninode sb) := ino], s_ninode := s_ninode sb + 1, s_fmod := 1\<rparr>"
  have fr: "FS_IFree ?s1 dev ino = Done (set_sb m ?sb ?s1)"
    using assms g1 by (simp add: FS_IFree_def)
  let ?s2 = "set_sb m ?sb ?s1"
  have mo: "mount_of (m_Mount ?s2) dev 0 = Some (m, ?sb)"
    using assms by (intro mount_set_sb) simp
  have g2: "GetFS ?s2 dev = Done (m, ?sb, ?s2)"
    using GetFS_ok [OF mo] assms by simp
  obtain ip4 where tr: "ITrunc stale ?ip2 ?s1 = Done (ip4, ?s1)" and ip4: "i_dev ip4 = dev" "i_number ip4 = ino" "i_count ip4 = 1"
    using trunc_zero [of "[9, 8, 7, 6, 5, 4, 3, 2, 1, 0]" ?ip2 stale ?s1] c
    by (simp add: ITrunc_def has_flag_def eval_nat_numeral del: trunc_loop.simps)
  have up: "\<exists>s3. IUpdate ip4' tm ?s2 = Done s3 \<and> m_Mount s3 = m_Mount ?s2 \<and> u_error s3 = EIO"
    if "i_dev ip4' = dev" for ip4' tm
    using g2 that by (simp add: IUpdate_def Let_def)
  obtain s3 where s3: "IUpdate (ip4\<lparr>i_mode := 0\<rparr>) (ktime ?s2) ?s2 = Done s3" "m_Mount s3 = m_Mount ?s2" "u_error s3 = EIO"
    using up [of "ip4\<lparr>i_mode := 0\<rparr>" "ktime ?s2"] ip4 by auto
  have put: "IPut stale i ?s1 = Done (set_ip i (ip4\<lparr>i_mode := 0, i_flag := 0, i_number := -1, i_count := i_count ip4 - 1\<rparr>) s3)"
    using tr fr s3(1) ip4 c assms(4) unfolding IPut_def Let_def by simp
  have "IGet stale dev ino s = Done (None, set_ip i (ip4\<lparr>i_mode := 0, i_flag := 0, i_number := -1, i_count := i_count ip4 - 1\<rparr>) s3)"
    using put assms(1,2,3,5) sec c by (simp add: IGet_def Let_def)
  moreover have "mount_of (m_Mount (set_ip i (ip4\<lparr>i_mode := 0, i_flag := 0, i_number := -1, i_count := i_count ip4 - 1\<rparr>) s3)) dev 0 = Some (m, ?sb)"
    using s3(2) mo by simp
  ultimately show ?thesis using s3(3) assms(9-11) by auto
qed

definition broken_nm :: nm where
  "broken_nm = demo_nm\<lparr>bad_sector := (\<lambda>d b. b = 202)\<rparr>"

theorem IGet_error_frees_inode_witness:
  "\<exists>s' sb'. IGet (\<lambda>b. []) 0 3 broken_nm = Done (None, s') \<and> u_error s' = EIO \<and>
     mount_of (m_Mount s') 0 0 = Some (0, sb') \<and> s_inode sb' ! nat (s_ninode demo_sb) = 3"
proof -
  have "IsLoaded 0 3 broken_nm = None" "GetFreeInode broken_nm = Some 1" by code_simp+
  moreover have "m_Inode broken_nm ! 1 = new_inode" "1 < length (m_Inode broken_nm)" "bad_sector broken_nm 0 202"
    "mount_of (m_Mount broken_nm) 0 0 = Some (0, demo_sb)"
    by (simp_all add: broken_nm_def demo_nm_def demo_fs_def)
  moreover have "s_nfree demo_sb \<le> 100" "s_ilock demo_sb = 0" "0 \<le> s_ninode demo_sb" "s_ninode demo_sb < 100"
    "length (s_inode demo_sb) = 100" by (simp_all add: demo_sb_def)
  ultimately show ?thesis
    using IGet_error_frees_inode [of 0 3 broken_nm 1 0 demo_sb "\<lambda>b. []"]
    by (auto simp: INODE_ZONE_START_SECTOR_def INODE_NUMBER_PER_SECTOR_def)
qed

end
