(* ===== verification/AddrSpace.thy ===== *)
theory AddrSpace
  imports MemMgr
begin

text \<open>
  The user address space (\<open>proc/MemoryDescriptor.cpp\<close>): the table of relative addresses that a
  process keeps, and the page tables of the machine that are filled from it when the process runs.
\<close>

section \<open>Model\<close>

text \<open>A page table entry; the bits the kernel never touches are left out.\<close>

record pte =
  m_Present :: bool
  m_ReadWriter :: bool
  m_UserSupervisor :: bool
  m_PageBaseAddress :: "20 word"

definition USER_SPACE_SIZE :: u32 where "USER_SPACE_SIZE = 0x800000"
definition USER_SPACE_PAGE_TABLE_CNT :: nat where "USER_SPACE_PAGE_TABLE_CNT = 2"
definition USER_SPACE_START_ADDRESS :: u32 where "USER_SPACE_START_ADDRESS = 0"
definition ENTRY_CNT_PER_PAGETABLE :: nat where "ENTRY_CNT_PER_PAGETABLE = 1024"

definition USER_ENTRIES :: nat where
  "USER_ENTRIES = USER_SPACE_PAGE_TABLE_CNT * ENTRY_CNT_PER_PAGETABLE"

text \<open>\<open>MapEntry\<close>; the two tables are one array of entries, and a store behind its end is a fault.\<close>

fun map_entries :: "nat \<Rightarrow> u32 \<Rightarrow> u32 \<Rightarrow> bool \<Rightarrow> pte list \<Rightarrow> (u32 \<times> pte list) kcall" where
  "map_entries 0 i phyPageIdx rw tab = Done (phyPageIdx, tab)"
| "map_entries (Suc n) i phyPageIdx rw tab =
     (if unat i < length tab
      then map_entries n (i + 1) (phyPageIdx + 1) rw
             (tab[unat i := (tab ! unat i)\<lparr>m_Present := True, m_ReadWriter := rw,
                                          m_PageBaseAddress := ucast phyPageIdx\<rparr>])
      else Fault)"

definition MapEntry :: "u32 \<Rightarrow> u32 \<Rightarrow> u32 \<Rightarrow> bool \<Rightarrow> pte list \<Rightarrow> (u32 \<times> pte list) kcall" where
  "MapEntry virtualAddress sz phyPageIdx rw tab =
     map_entries (unat (pages_for sz)) (drop_bit 12 (virtualAddress - USER_SPACE_START_ADDRESS)) phyPageIdx rw tab"

definition ClearUserPageTable :: "pte list \<Rightarrow> pte list" where
  "ClearUserPageTable tab =
     map (\<lambda>e. e\<lparr>m_Present := False, m_ReadWriter := False, m_UserSupervisor := True, m_PageBaseAddress := 0\<rparr>) tab"

text \<open>The limit test of \<open>EstablishUserPageTable\<close> and the entries it writes.\<close>

definition over_limit :: "u32 \<Rightarrow> u32 \<Rightarrow> u32 \<Rightarrow> u32 \<Rightarrow> bool" where
  "over_limit textVA textSize dataSize stackSize \<longleftrightarrow>
     USER_SPACE_SIZE - textVA < textSize + dataSize + stackSize + PAGE_SIZE"

definition fill_tables :: "u32 \<Rightarrow> u32 \<Rightarrow> u32 \<Rightarrow> u32 \<Rightarrow> u32 \<Rightarrow> pte list \<Rightarrow> pte list kcall" where
  "fill_tables textVA textSize dataVA dataSize stackSize tab =
     kbind (MapEntry textVA textSize 0 False (ClearUserPageTable tab)) (\<lambda>(_, tab).
     kbind (MapEntry dataVA dataSize 1 True tab) (\<lambda>(phyPageIndex, tab).
       let stackStartAddress = (USER_SPACE_START_ADDRESS + USER_SPACE_SIZE - stackSize) AND 0xFFFFF000
       in kbind (MapEntry stackStartAddress stackSize phyPageIndex True tab) (\<lambda>(_, tab). Done tab)))"

text \<open>\<open>MapToPageTable\<close>: read-only entries are relative to the text segment, the others to \<open>p_addr\<close>.\<close>

definition map_entry :: "u32 \<Rightarrow> u32 \<Rightarrow> pte \<Rightarrow> pte \<Rightarrow> pte" where
  "map_entry textAddress p_addr e h =
     (if m_Present e
      then h\<lparr>m_Present := True, m_ReadWriter := m_ReadWriter e,
             m_PageBaseAddress := m_PageBaseAddress e + ucast (drop_bit 12 (if m_ReadWriter e then p_addr else textAddress))\<rparr>
      else h\<lparr>m_Present := False\<rparr>)"

definition map_page_tables :: "u32 \<Rightarrow> u32 \<Rightarrow> pte list \<Rightarrow> pte list \<Rightarrow> pte list" where
  "map_page_tables textAddress p_addr tab hw =
     (let hw = map2 (map_entry textAddress p_addr) tab hw
      in hw[0 := (hw ! 0)\<lparr>m_Present := True, m_ReadWriter := True, m_PageBaseAddress := 0\<rparr>])"

text \<open>The descriptor of a process; \<open>m_UserPageTableArray\<close> is the address of its table, 0 for \<open>NULL\<close>.\<close>

record md =
  m_UserPageTableArray :: u32
  m_Table :: "pte list"
  m_TextStartAddress :: u32
  m_TextSize :: u32
  m_DataStartAddress :: u32
  m_DataSize :: u32
  m_StackSize :: u32

definition USIZE :: u32 where "USIZE = 0x1000"

section \<open>What the machine translates\<close>

text \<open>The physical page of a user page and whether it may be written.\<close>

definition page_at :: "pte list \<Rightarrow> nat \<Rightarrow> (nat \<times> bool) option" where
  "page_at hw p =
     (if p < length hw \<and> m_Present (hw ! p) then Some (unat (m_PageBaseAddress (hw ! p)), m_ReadWriter (hw ! p)) else None)"

text \<open>
  The layout a program asks for: text, data and stack in this order, text and data on page boundaries,
  nothing above 8 MB.
\<close>

definition pages :: "u32 \<Rightarrow> nat" where
  "pages sz = (unat sz + 0xFFF) div 0x1000"

definition layout :: "u32 \<Rightarrow> u32 \<Rightarrow> u32 \<Rightarrow> u32 \<Rightarrow> u32 \<Rightarrow> bool" where
  "layout textVA textSize dataVA dataSize stackSize \<longleftrightarrow>
     0x1000 \<le> unat textVA \<and> unat textVA mod 0x1000 = 0 \<and> unat dataVA mod 0x1000 = 0 \<and>
     unat textVA + 0x1000 * pages textSize \<le> unat dataVA \<and>
     unat dataVA + 0x1000 * pages dataSize + 0x1000 * pages stackSize \<le> 0x800000"

lemma map_entries_ok:
  assumes "unat i + n \<le> length tab" "length tab < 2 ^ 32"
  shows "\<exists>tab'. map_entries n i phy rw tab = Done (phy + of_nat n, tab') \<and> length tab' = length tab \<and>
     (\<forall>k < length tab. tab' ! k =
        (if unat i \<le> k \<and> k < unat i + n
         then (tab ! k)\<lparr>m_Present := True, m_ReadWriter := rw, m_PageBaseAddress := ucast (phy + of_nat (k - unat i))\<rparr>
         else tab ! k))"
  using assms
proof (induction n arbitrary: i phy tab)
  case 0
  then show ?case by auto
next
  case (Suc n)
  let ?tab = "tab[unat i := (tab ! unat i)\<lparr>m_Present := True, m_ReadWriter := rw, m_PageBaseAddress := ucast phy\<rparr>]"
  have i1: "unat (i + 1) = unat i + 1" using Suc.prems unat_add_nowrap [of i 1] by simp
  obtain tab' where t: "map_entries n (i + 1) (phy + 1) rw ?tab = Done (phy + 1 + of_nat n, tab')" "length tab' = length tab"
    and e: "\<And>k. k < length tab \<Longrightarrow> tab' ! k =
        (if unat i + 1 \<le> k \<and> k < unat i + 1 + n
         then (?tab ! k)\<lparr>m_Present := True, m_ReadWriter := rw, m_PageBaseAddress := ucast (phy + 1 + of_nat (k - (unat i + 1)))\<rparr>
         else ?tab ! k)"
    using Suc.IH [of "i + 1" ?tab "phy + 1"] Suc.prems i1 by auto
  have "tab' ! k =
        (if unat i \<le> k \<and> k < unat i + Suc n
         then (tab ! k)\<lparr>m_Present := True, m_ReadWriter := rw, m_PageBaseAddress := ucast (phy + of_nat (k - unat i))\<rparr>
         else tab ! k)" if k: "k < length tab" for k
  proof -
    consider "k = unat i" | "unat i < k" | "k < unat i" by linarith
    then show ?thesis
    proof cases
      case 2
      then have "k - unat i = Suc (k - (unat i + 1))" by simp
      then have "(of_nat (k - unat i) :: u32) = 1 + of_nat (k - (unat i + 1))" by simp
      then show ?thesis using e [OF k] 2 by (auto simp: add.assoc)
    qed (use e [OF k] k in auto)
  qed
  then show ?case using t Suc.prems by (intro exI [of _ tab']) (auto simp: ac_simps)
qed


lemma unat_pages: "unat sz < 0xFFFFF000 \<Longrightarrow> unat (pages_for sz) = pages sz"
  by (simp add: unat_pages_for pages_def)

lemma MapEntry_ok:
  assumes "unat va div 0x1000 + pages sz \<le> length tab" "unat sz < 0xFFFFF000" "length tab = USER_ENTRIES"
  shows "\<exists>tab'. MapEntry va sz phy rw tab = Done (phy + pages_for sz, tab') \<and> length tab' = USER_ENTRIES \<and>
     (\<forall>k < USER_ENTRIES. tab' ! k =
        (if unat va div 0x1000 \<le> k \<and> k < unat va div 0x1000 + pages sz
         then (tab ! k)\<lparr>m_Present := True, m_ReadWriter := rw,
                m_PageBaseAddress := ucast (phy + of_nat (k - unat va div 0x1000))\<rparr>
         else tab ! k))"
proof -
  have i: "unat (drop_bit 12 (va - USER_SPACE_START_ADDRESS)) = unat va div 0x1000"
    by (simp add: USER_SPACE_START_ADDRESS_def drop_bit_eq_div unat_div)
  show ?thesis
    using map_entries_ok [of "drop_bit 12 (va - USER_SPACE_START_ADDRESS)" "unat (pages_for sz)" tab phy rw] assms
    unfolding MapEntry_def i unat_pages [OF assms(2)]
    by (auto simp: USER_ENTRIES_def USER_SPACE_PAGE_TABLE_CNT_def ENTRY_CNT_PER_PAGETABLE_def
        simp flip: unat_pages [OF assms(2)])
qed

lemma pages_bounds: "unat sz \<le> 0x1000 * pages sz" "0x1000 * pages sz < unat sz + 0x1000"
proof -
  have "n \<le> 0x1000 * ((n + 0xFFF) div 0x1000) \<and> 0x1000 * ((n + 0xFFF) div 0x1000) < n + 0x1000" for n :: nat
    using div_mult_mod_eq [of "n + 0xFFF" "0x1000"] mod_less_divisor [where n = "0x1000" and m = "n + 0xFFF"] by linarith
  then show "unat sz \<le> 0x1000 * pages sz" "0x1000 * pages sz < unat sz + 0x1000" by (simp_all add: pages_def)
qed

lemma stack_page:
  assumes "unat sz \<le> 0x800000"
  shows "unat ((USER_SPACE_START_ADDRESS + USER_SPACE_SIZE - sz) AND 0xFFFFF000) div 0x1000 = 2048 - pages sz"
proof -
  have m: "(0xFFFFF000 :: u32) = NOT (mask 12)" by (simp add: mask_eq_exp_minus_1)
  have d: "drop_bit 12 (x AND 0xFFFFF000) = drop_bit 12 x" for x :: u32
    unfolding m by (rule bit_word_eqI) (auto simp: bit_simps dest: bit_imp_le_length)
  have "unat (x AND 0xFFFFF000) div 0x1000 = unat x div 0x1000" for x :: u32
    using arg_cong [OF d [of x], of unat] by (simp add: drop_bit_eq_div unat_div)
  moreover have "unat (0x800000 - sz) = 0x800000 - unat sz"
    using assms unat_sub [of sz "0x800000 :: u32"] by (simp add: word_le_nat_alt)
  moreover have "(0x800000 - unat sz) div 0x1000 = 2048 - pages sz"
  proof -
    have "pages sz \<le> 2048" using assms pages_bounds [of sz] by linarith
    then obtain q where "2048 = pages sz + q" using le_Suc_ex by blast
    then have "2048 - pages sz = q" "8388608 = 0x1000 * pages sz + 0x1000 * q" by simp_all
    then show ?thesis using assms pages_bounds [of sz] by (intro div_nat_eqI) auto
  qed
  ultimately show ?thesis by (simp add: USER_SPACE_START_ADDRESS_def USER_SPACE_SIZE_def)
qed


lemma layout_pages:
  assumes "layout textVA textSize dataVA dataSize stackSize"
  shows "unat textVA = 0x1000 * (unat textVA div 0x1000)" "unat dataVA = 0x1000 * (unat dataVA div 0x1000)"
    "1 \<le> unat textVA div 0x1000" "unat textVA div 0x1000 + pages textSize \<le> unat dataVA div 0x1000"
    "unat dataVA div 0x1000 + pages dataSize + pages stackSize \<le> 2048"
    "unat textSize \<le> 0x800000" "unat dataSize \<le> 0x800000" "unat stackSize \<le> 0x800000"
proof -
  have l: "0x1000 \<le> unat textVA" "unat textVA + 0x1000 * pages textSize \<le> unat dataVA"
    "unat dataVA + 0x1000 * pages dataSize + 0x1000 * pages stackSize \<le> 0x800000"
    and a: "unat textVA mod 0x1000 = 0" "unat dataVA mod 0x1000 = 0"
    using assms by (simp_all add: layout_def)
  obtain t d where t: "unat textVA = 0x1000 * t" and d: "unat dataVA = 0x1000 * d"
    using a by (metis mod_0_imp_dvd dvdE)
  then have s: "1 \<le> t" "t + pages textSize \<le> d" "d + pages dataSize + pages stackSize \<le> 2048"
    using l [unfolded t d] by linarith+
  show "unat textVA = 0x1000 * (unat textVA div 0x1000)" "unat dataVA = 0x1000 * (unat dataVA div 0x1000)"
    "1 \<le> unat textVA div 0x1000" "unat textVA div 0x1000 + pages textSize \<le> unat dataVA div 0x1000"
    "unat dataVA div 0x1000 + pages dataSize + pages stackSize \<le> 2048"
    using s t d by simp_all
  show "unat textSize \<le> 0x800000" "unat dataSize \<le> 0x800000" "unat stackSize \<le> 0x800000"
    using s pages_bounds(1) [of textSize] pages_bounds(1) [of dataSize] pages_bounds(1) [of stackSize] by linarith+
qed

lemma base_sum:
  fixes a :: u32
  assumes "n + unat a div 0x1000 < 2 ^ 20"
  shows "unat (ucast (of_nat n :: u32) + ucast (drop_bit 12 a) :: 20 word) = n + unat a div 0x1000"
proof -
  have "unat (ucast (of_nat n :: u32) :: 20 word) = n"
    using assms by (simp add: unsigned_ucast_eq unat_of_nat take_bit_eq_mod)
  moreover have "unat (ucast (drop_bit 12 a) :: 20 word) = unat a div 0x1000"
    using assms by (simp add: unsigned_ucast_eq take_bit_eq_mod drop_bit_eq_div unat_div)
  ultimately show ?thesis using assms by (simp add: unat_word_ariths)
qed

text \<open>The three segments of a process as the machine sees them.\<close>

definition user_view :: "u32 \<Rightarrow> u32 \<Rightarrow> u32 \<Rightarrow> u32 \<Rightarrow> u32 \<Rightarrow> u32 \<Rightarrow> u32 \<Rightarrow> nat \<Rightarrow> (nat \<times> bool) option" where
  "user_view textVA textSize dataVA dataSize stackSize textAddress p_addr p =
     (let t = unat textVA div 0x1000; d = unat dataVA div 0x1000; k = 2048 - pages stackSize;
          text = unat textAddress div 0x1000; image = unat p_addr div 0x1000
      in if p = 0 then Some (0, True)
         else if t \<le> p \<and> p < t + pages textSize then Some (text + (p - t), False)
         else if d \<le> p \<and> p < d + pages dataSize then Some (image + 1 + (p - d), True)
         else if k \<le> p \<and> p < 2048 then Some (image + 1 + pages dataSize + (p - k), True)
         else None)"

lemma fill_tables_ok:
  assumes l: "layout textVA textSize dataVA dataSize stackSize" and tab: "length tab = USER_ENTRIES"
  shows "\<exists>tab'. fill_tables textVA textSize dataVA dataSize stackSize tab = Done tab' \<and> length tab' = USER_ENTRIES \<and>
    (\<forall>p < USER_ENTRIES.
       (let t = unat textVA div 0x1000; d = unat dataVA div 0x1000; k = 2048 - pages stackSize
        in if t \<le> p \<and> p < t + pages textSize
           then m_Present (tab' ! p) \<and> \<not> m_ReadWriter (tab' ! p) \<and> m_PageBaseAddress (tab' ! p) = ucast (of_nat (p - t) :: u32)
           else if d \<le> p \<and> p < d + pages dataSize
           then m_Present (tab' ! p) \<and> m_ReadWriter (tab' ! p) \<and> m_PageBaseAddress (tab' ! p) = ucast (of_nat (1 + (p - d)) :: u32)
           else if k \<le> p
           then m_Present (tab' ! p) \<and> m_ReadWriter (tab' ! p) \<and>
             m_PageBaseAddress (tab' ! p) = ucast (of_nat (1 + pages dataSize + (p - k)) :: u32)
           else \<not> m_Present (tab' ! p)))"
proof -
  note lp = layout_pages [OF l]
  have u: "USER_ENTRIES = 2048" by (simp add: USER_ENTRIES_def USER_SPACE_PAGE_TABLE_CNT_def ENTRY_CNT_PER_PAGETABLE_def)
  let ?t = "unat textVA div 0x1000" and ?d = "unat dataVA div 0x1000" and ?k = "2048 - pages stackSize"
  let ?stack = "(USER_SPACE_START_ADDRESS + USER_SPACE_SIZE - stackSize) AND 0xFFFFF000"
  note k = stack_page [OF lp(8)]
  have c: "length (ClearUserPageTable tab) = USER_ENTRIES" "\<And>p. p < USER_ENTRIES \<Longrightarrow> \<not> m_Present (ClearUserPageTable tab ! p)"
    using tab by (auto simp: ClearUserPageTable_def)
  obtain tab1 where t1: "MapEntry textVA textSize 0 False (ClearUserPageTable tab) = Done (0 + pages_for textSize, tab1)"
    "length tab1 = USER_ENTRIES" and e1: "\<And>p. p < USER_ENTRIES \<Longrightarrow> tab1 ! p =
        (if ?t \<le> p \<and> p < ?t + pages textSize
         then (ClearUserPageTable tab ! p)\<lparr>m_Present := True, m_ReadWriter := False, m_PageBaseAddress := ucast (0 + of_nat (p - ?t) :: u32)\<rparr>
         else ClearUserPageTable tab ! p)"
    using MapEntry_ok [of textVA textSize "ClearUserPageTable tab" 0 False] lp c(1) u by fastforce
  obtain tab2 where t2: "MapEntry dataVA dataSize 1 True tab1 = Done (1 + pages_for dataSize, tab2)"
    "length tab2 = USER_ENTRIES" and e2: "\<And>p. p < USER_ENTRIES \<Longrightarrow> tab2 ! p =
        (if ?d \<le> p \<and> p < ?d + pages dataSize
         then (tab1 ! p)\<lparr>m_Present := True, m_ReadWriter := True, m_PageBaseAddress := ucast (1 + of_nat (p - ?d) :: u32)\<rparr>
         else tab1 ! p)"
    using MapEntry_ok [of dataVA dataSize tab1 1 True] lp t1(2) u by fastforce
  have pd: "pages_for dataSize = of_nat (pages dataSize)"
  proof -
    have "unat (pages_for dataSize) = pages dataSize" using unat_pages [of dataSize] lp(7) by simp
    then show ?thesis by (metis of_nat_unat ucast_id)
  qed
  obtain tab3 where t3: "MapEntry ?stack stackSize (1 + pages_for dataSize) True tab2 = Done (1 + pages_for dataSize + pages_for stackSize, tab3)"
    "length tab3 = USER_ENTRIES" and e3: "\<And>p. p < USER_ENTRIES \<Longrightarrow> tab3 ! p =
        (if ?k \<le> p \<and> p < ?k + pages stackSize
         then (tab2 ! p)\<lparr>m_Present := True, m_ReadWriter := True, m_PageBaseAddress := ucast (1 + pages_for dataSize + of_nat (p - ?k) :: u32)\<rparr>
         else tab2 ! p)"
    using MapEntry_ok [of ?stack stackSize tab2 "1 + pages_for dataSize" True] lp t2(2) u unfolding k by fastforce
  show ?thesis
  proof (intro exI [of _ tab3] conjI allI impI)
    show "fill_tables textVA textSize dataVA dataSize stackSize tab = Done tab3"
      unfolding fill_tables_def using t1 t2 t3 by (simp add: Let_def)
    show "length tab3 = USER_ENTRIES" by (rule t3(2))
    fix p assume p: "p < USER_ENTRIES"
    show "let t = ?t; d = ?d; k = ?k
        in if t \<le> p \<and> p < t + pages textSize
           then m_Present (tab3 ! p) \<and> \<not> m_ReadWriter (tab3 ! p) \<and> m_PageBaseAddress (tab3 ! p) = ucast (of_nat (p - t) :: u32)
           else if d \<le> p \<and> p < d + pages dataSize
           then m_Present (tab3 ! p) \<and> m_ReadWriter (tab3 ! p) \<and> m_PageBaseAddress (tab3 ! p) = ucast (of_nat (1 + (p - d)) :: u32)
           else if k \<le> p
           then m_Present (tab3 ! p) \<and> m_ReadWriter (tab3 ! p) \<and>
             m_PageBaseAddress (tab3 ! p) = ucast (of_nat (1 + pages dataSize + (p - k)) :: u32)
           else \<not> m_Present (tab3 ! p)"
      using lp p u c(2) [OF p] unfolding Let_def e3 [OF p] e2 [OF p] e1 [OF p] by (auto simp: pd algebra_simps)
  qed
qed


lemma map_page_tables_view:
  assumes l: "layout textVA textSize dataVA dataSize stackSize"
    and f: "fill_tables textVA textSize dataVA dataSize stackSize tab = Done tab'"
    and len: "length tab = USER_ENTRIES" "length hw = USER_ENTRIES"
    and tx: "unat textAddress + 0x1000 * pages textSize \<le> 2 ^ 32"
    and im: "unat p_addr + 0x1000 * (1 + pages dataSize + pages stackSize) \<le> 2 ^ 32"
    and p: "p < USER_ENTRIES"
  shows "page_at (map_page_tables textAddress p_addr tab' hw) p =
    user_view textVA textSize dataVA dataSize stackSize textAddress p_addr p"
proof -
  note lp = layout_pages [OF l]
  have u: "USER_ENTRIES = 2048" by (simp add: USER_ENTRIES_def USER_SPACE_PAGE_TABLE_CNT_def ENTRY_CNT_PER_PAGETABLE_def)
  let ?t = "unat textVA div 0x1000" and ?d = "unat dataVA div 0x1000" and ?k = "2048 - pages stackSize"
  have len': "length tab' = USER_ENTRIES" using fill_tables_ok [OF l len(1)] f by auto
  have e: "if ?t \<le> p \<and> p < ?t + pages textSize
           then m_Present (tab' ! p) \<and> \<not> m_ReadWriter (tab' ! p) \<and> m_PageBaseAddress (tab' ! p) = ucast (of_nat (p - ?t) :: u32)
           else if ?d \<le> p \<and> p < ?d + pages dataSize
           then m_Present (tab' ! p) \<and> m_ReadWriter (tab' ! p) \<and> m_PageBaseAddress (tab' ! p) = ucast (of_nat (1 + (p - ?d)) :: u32)
           else if ?k \<le> p
           then m_Present (tab' ! p) \<and> m_ReadWriter (tab' ! p) \<and>
             m_PageBaseAddress (tab' ! p) = ucast (of_nat (1 + pages dataSize + (p - ?k)) :: u32)
           else \<not> m_Present (tab' ! p)"
    using fill_tables_ok [OF l len(1)] f p by (auto simp: Let_def)
  have d: "x div 0x1000 + n \<le> 2 ^ 20" if "x + 0x1000 * n \<le> 2 ^ 32" for x n :: nat
    using that div_mult_mod_eq [of x "0x1000"] by (simp; linarith)
  have page: "page_at (map_page_tables textAddress p_addr tab' hw) p =
    (if p = 0 then Some (0, True)
     else if m_Present (tab' ! p)
     then Some (unat (m_PageBaseAddress (tab' ! p) + ucast (drop_bit 12 (if m_ReadWriter (tab' ! p) then p_addr else textAddress))),
            m_ReadWriter (tab' ! p)) else None)"
    using p len len' u by (simp add: page_at_def map_page_tables_def map_entry_def Let_def)
  have at: "page_at (map_page_tables textAddress p_addr tab' hw) p = Some (n + unat (if rw then p_addr else textAddress) div 0x1000, rw)"
    if "p \<noteq> 0" "m_Present (tab' ! p)" "m_ReadWriter (tab' ! p) = rw" "m_PageBaseAddress (tab' ! p) = ucast (of_nat n :: u32)"
      "n + unat (if rw then p_addr else textAddress) div 0x1000 < 2 ^ 20" for n rw
    unfolding page that(3,4) using that(1,2) base_sum [OF that(5)] by simp
  consider "p = 0" | "?t \<le> p" "p < ?t + pages textSize" | "?d \<le> p" "p < ?d + pages dataSize"
    | "p \<noteq> 0" "\<not> (?t \<le> p \<and> p < ?t + pages textSize)" "\<not> (?d \<le> p \<and> p < ?d + pages dataSize)" "?k \<le> p"
    | "p \<noteq> 0" "\<not> (?t \<le> p \<and> p < ?t + pages textSize)" "\<not> (?d \<le> p \<and> p < ?d + pages dataSize)" "p < ?k"
    by linarith
  then show ?thesis
  proof cases
    case 1
    then show ?thesis unfolding page by (simp add: user_view_def)
  next
    case 2
    then have b: "p - ?t + unat (if False then p_addr else textAddress) div 0x1000 < 2 ^ 20" and n: "p \<noteq> 0"
      using d [OF tx] lp(3) unfolding if_False by linarith+
    from at [OF n _ _ _ b] show ?thesis using 2 n e unfolding user_view_def Let_def by simp
  next
    case 3
    then have b: "1 + (p - ?d) + unat (if True then p_addr else textAddress) div 0x1000 < 2 ^ 20" and n: "p \<noteq> 0"
      and t: "\<not> (?t \<le> p \<and> p < ?t + pages textSize)"
      using d [OF im] lp(3,4,5) unfolding if_True by linarith+
    from at [OF n _ _ _ b] show ?thesis using 3 n e unfolding user_view_def Let_def if_not_P [OF t] by simp
  next
    case 4
    have b: "1 + pages dataSize + (p - ?k) + unat (if True then p_addr else textAddress) div 0x1000 < 2 ^ 20"
      using d [OF im] p u 4(4) lp(5) unfolding if_True by linarith
    have "p < 2048" using p u by simp
    then show ?thesis using at [OF 4(1) _ _ _ b] 4 e unfolding user_view_def Let_def if_not_P [OF 4(2)] if_not_P [OF 4(3)] by simp
  next
    case 5
    then show ?thesis using e unfolding page user_view_def Let_def by simp
  qed
qed


section \<open>Processes are isolated\<close>

definition md_layout :: "md \<Rightarrow> bool" where
  "md_layout m \<longleftrightarrow> layout (m_TextStartAddress m) (m_TextSize m) (m_DataStartAddress m) (m_DataSize m) (m_StackSize m)"

definition md_built :: "md \<Rightarrow> bool" where
  "md_built m \<longleftrightarrow> md_layout m \<and> (\<exists>tab. length tab = USER_ENTRIES \<and>
     fill_tables (m_TextStartAddress m) (m_TextSize m) (m_DataStartAddress m) (m_DataSize m) (m_StackSize m) tab = Done (m_Table m))"

definition image_size :: "md \<Rightarrow> u32" where
  "image_size m = USIZE + m_DataSize m + m_StackSize m"

definition image_pages :: "u32 \<Rightarrow> md \<Rightarrow> nat set" where
  "image_pages p_addr m = {unat p_addr div 0x1000..<unat p_addr div 0x1000 + pages (image_size m)}"

definition text_pages :: "u32 \<Rightarrow> md \<Rightarrow> nat set" where
  "text_pages textAddress m = {unat textAddress div 0x1000..<unat textAddress div 0x1000 + pages (m_TextSize m)}"

definition in_memory :: "u32 \<Rightarrow> u32 \<Rightarrow> md \<Rightarrow> bool" where
  "in_memory textAddress p_addr m \<longleftrightarrow>
     unat textAddress + 0x1000 * pages (m_TextSize m) \<le> 2 ^ 32 \<and>
     unat p_addr + 0x1000 * (1 + pages (m_DataSize m) + pages (m_StackSize m)) \<le> 2 ^ 32"

lemma md_view:
  assumes "md_built m" "in_memory ta pa m" "length hw = USER_ENTRIES" "p < USER_ENTRIES"
  shows "page_at (map_page_tables ta pa (m_Table m) hw) p =
    user_view (m_TextStartAddress m) (m_TextSize m) (m_DataStartAddress m) (m_DataSize m) (m_StackSize m) ta pa p"
  using assms map_page_tables_view unfolding md_built_def md_layout_def in_memory_def by blast

lemma pages_eq: "unat sz = 0x1000 * a + r \<Longrightarrow> 0 < r \<Longrightarrow> r \<le> 0x1000 \<Longrightarrow> pages sz = a + 1"
  unfolding pages_def by (rule div_nat_eqI) simp_all

lemma pages_mult: "unat sz = 0x1000 * a \<Longrightarrow> pages sz = a"
  unfolding pages_def by (rule div_nat_eqI) simp_all

lemma unat_image_size:
  assumes "md_layout m"
  shows "unat (image_size m) = 0x1000 + unat (m_DataSize m) + unat (m_StackSize m)"
proof -
  have "unat (m_DataSize m) \<le> 0x800000" "unat (m_StackSize m) \<le> 0x800000"
    using layout_pages(7,8) assms unfolding md_layout_def by blast+
  then show ?thesis by (simp add: image_size_def USIZE_def unat_word_ariths)
qed

lemma pages_image:
  assumes "md_layout m" "unat (m_DataSize m) mod 0x1000 = 0"
  shows "pages (image_size m) = 1 + pages (m_DataSize m) + pages (m_StackSize m)"
proof -
  obtain a where a: "unat (m_DataSize m) = 0x1000 * a" using assms(2) by (metis mod_0_imp_dvd dvdE)
  have "pages (image_size m) = (0x1000 * (1 + a) + (unat (m_StackSize m) + 0xFFF)) div 0x1000"
    unfolding pages_def unat_image_size [OF assms(1)] a by (simp add: algebra_simps)
  also have "\<dots> = 1 + a + pages (m_StackSize m)" by (simp add: pages_def)
  finally show ?thesis using pages_mult [OF a] by simp
qed

lemma view_pages:
  assumes "user_view textVA textSize dataVA dataSize stackSize textAddress p_addr p = Some (x, w)" "0 < p"
    and "pages stackSize \<le> 2048"
  shows "if w then unat p_addr div 0x1000 \<le> x \<and> x < unat p_addr div 0x1000 + (1 + pages dataSize + pages stackSize)
    else unat textAddress div 0x1000 \<le> x \<and> x < unat textAddress div 0x1000 + pages textSize"
proof -
  have "if w then im \<le> x \<and> x < im + (1 + D + S) else tx \<le> x \<and> x < tx + T"
    if "(if p = 0 then Some (0, True)
         else if t \<le> p \<and> p < t + T then Some (tx + (p - t), False)
         else if d \<le> p \<and> p < d + D then Some (im + 1 + (p - d), True)
         else if 2048 - S \<le> p \<and> p < 2048 then Some (im + 1 + D + (p - (2048 - S)), True)
         else None) = Some (x, w)" "0 < p" "S \<le> 2048" for t d im tx T D S :: nat
    using that by (auto split: if_splits)
  from this [OF assms(1) [unfolded user_view_def Let_def] assms(2,3)] show ?thesis .
qed

lemma user_page:
  assumes "md_built m" "in_memory ta pa m" "length hw = USER_ENTRIES" "unat (m_DataSize m) mod 0x1000 = 0"
    and "page_at (map_page_tables ta pa (m_Table m) hw) p = Some (x, w)" "0 < p"
  shows "if w then x \<in> image_pages pa m else x \<in> text_pages ta m"
proof -
  have l: "md_layout m" using assms(1) by (simp add: md_built_def)
  have p: "p < USER_ENTRIES"
  proof (rule ccontr)
    assume "\<not> p < USER_ENTRIES"
    moreover have "length (m_Table m) = USER_ENTRIES"
      using assms(1) fill_tables_ok unfolding md_built_def md_layout_def by fastforce
    ultimately show False using assms(3,5) by (simp add: page_at_def map_page_tables_def Let_def)
  qed
  have sp: "pages (m_StackSize m) \<le> 2048" using layout_pages(5) l unfolding md_layout_def by fastforce
  show ?thesis
    using view_pages [OF assms(5) [unfolded md_view [OF assms(1-3) p]] assms(6) sp]
    unfolding image_pages_def text_pages_def pages_image [OF l assms(4)] by (auto split: if_splits)
qed

text \<open>A program with two pages of text at \<open>0x401000\<close> and its data at \<open>0x403000\<close>.\<close>

definition blank_entry :: pte where
  "blank_entry = \<lparr>m_Present = False, m_ReadWriter = False, m_UserSupervisor = False, m_PageBaseAddress = 0\<rparr>"

definition demo_md :: "u32 \<Rightarrow> u32 \<Rightarrow> md" where
  "demo_md dataSize stackSize = \<lparr>m_UserPageTableArray = 0x204000,
     m_Table = (case fill_tables 0x401000 0x2000 0x403000 dataSize stackSize (replicate USER_ENTRIES blank_entry) of Done t \<Rightarrow> t | _ \<Rightarrow> []),
     m_TextStartAddress = 0x401000, m_TextSize = 0x2000, m_DataStartAddress = 0x403000, m_DataSize = dataSize,
     m_StackSize = stackSize\<rparr>"

lemma demo_md_built:
  assumes "layout 0x401000 0x2000 0x403000 ds ss"
  shows "md_built (demo_md ds ss)"
proof -
  have r: "length (replicate USER_ENTRIES blank_entry) = USER_ENTRIES" by simp
  then obtain t where "fill_tables 0x401000 0x2000 0x403000 ds ss (replicate USER_ENTRIES blank_entry) = Done t"
    using fill_tables_ok [OF assms r] by blast
  then show ?thesis using assms r unfolding md_built_def md_layout_def demo_md_def
    by (auto intro!: exI [of _ "replicate USER_ENTRIES blank_entry"])
qed

lemma demo_view:
  assumes "layout 0x401000 0x2000 0x403000 ds ss" "in_memory ta pa (demo_md ds ss)" "p < USER_ENTRIES"
  shows "page_at (map_page_tables ta pa (m_Table (demo_md ds ss)) (replicate USER_ENTRIES blank_entry)) p =
    user_view 0x401000 0x2000 0x403000 ds ss ta pa p"
  using md_view [OF demo_md_built [OF assms(1)] assms(2) length_replicate assms(3)] by (simp add: demo_md_def)

text \<open>
  C13. Processes cannot touch each other's memory: when the images of two processes lie in different
  pages, and none in the text segment of the other, a page that one of them may write is never one
  that the other can even read, page 0 apart, which every process shares.  The data segments are
  whole pages.
\<close>

theorem address_spaces_isolated:
  assumes "md_built A" "in_memory tA pA A" "length hwA = USER_ENTRIES" "unat (m_DataSize A) mod 0x1000 = 0"
    and "md_built B" "in_memory tB pB B" "length hwB = USER_ENTRIES" "unat (m_DataSize B) mod 0x1000 = 0"
    and "image_pages pA A \<inter> (image_pages pB B \<union> text_pages tB B) = {}"
    and "page_at (map_page_tables tA pA (m_Table A) hwA) p = Some (x, True)" "0 < p"
    and "page_at (map_page_tables tB pB (m_Table B) hwB) q = Some (y, w)" "0 < q"
  shows "x \<in> image_pages pA A \<and> x \<noteq> y"
  using user_page [OF assms(1-4,10,11)] user_page [OF assms(5-8,12,13)] assms(9) by (auto split: if_splits)

theorem address_spaces_isolated_witness:
  "page_at (map_page_tables 0x600000 0x500000 (m_Table (demo_md 0x3000 0x1000)) (replicate USER_ENTRIES blank_entry)) 2047 = Some (0x504, True) \<and>
   page_at (map_page_tables 0x600000 0x505000 (m_Table (demo_md 0x1000 0x1000)) (replicate USER_ENTRIES blank_entry)) 0x401 = Some (0x600, False) \<and>
   (0x504 :: nat) \<noteq> 0x600"
proof -
  have l: "layout 0x401000 0x2000 0x403000 0x3000 0x1000" "layout 0x401000 0x2000 0x403000 0x1000 0x1000"
    by (simp_all add: layout_def pages_def)
  have m: "in_memory 0x600000 0x500000 (demo_md 0x3000 0x1000)" "in_memory 0x600000 0x505000 (demo_md 0x1000 0x1000)"
    by (simp_all add: in_memory_def demo_md_def pages_def)
  have u: "(2047::nat) < USER_ENTRIES" "(0x401::nat) < USER_ENTRIES"
    by (simp_all add: USER_ENTRIES_def USER_SPACE_PAGE_TABLE_CNT_def ENTRY_CNT_PER_PAGETABLE_def)
  have a: "page_at (map_page_tables 0x600000 0x500000 (m_Table (demo_md 0x3000 0x1000)) (replicate USER_ENTRIES blank_entry)) 2047 = Some (0x504, True)"
    unfolding demo_view [OF l(1) m(1) u(1)] by (simp add: user_view_def pages_def)
  have b: "page_at (map_page_tables 0x600000 0x505000 (m_Table (demo_md 0x1000 0x1000)) (replicate USER_ENTRIES blank_entry)) 0x401 = Some (0x600, False)"
    unfolding demo_view [OF l(2) m(2) u(2)] by (simp add: user_view_def pages_def)
  have d: "image_pages 0x500000 (demo_md 0x3000 0x1000) \<inter>
      (image_pages 0x505000 (demo_md 0x1000 0x1000) \<union> text_pages 0x600000 (demo_md 0x1000 0x1000)) = {}"
    by (auto simp: image_pages_def text_pages_def image_size_def USIZE_def demo_md_def pages_def)
  have n: "unat (m_DataSize (demo_md 0x3000 0x1000)) mod 0x1000 = 0" "unat (m_DataSize (demo_md 0x1000 0x1000)) mod 0x1000 = 0"
    by (simp_all add: demo_md_def)
  show ?thesis
    using address_spaces_isolated [OF demo_md_built [OF l(1)] m(1) length_replicate n(1) demo_md_built [OF l(2)] m(2)
        length_replicate n(2) d a _ b] a b by simp
qed

text \<open>
  When neither the data nor the stack fills its last page, the address map uses one page more than
  the image has: the last page of the stack is the page behind the image, writable, whoever owns it.
\<close>

theorem unaligned_stack_outside_image:
  assumes "md_built m" "in_memory ta pa m" "length hw = USER_ENTRIES"
    and "0 < unat (m_DataSize m) mod 0x1000" "0 < unat (m_StackSize m) mod 0x1000"
    and "unat (m_DataSize m) mod 0x1000 + unat (m_StackSize m) mod 0x1000 \<le> 0x1000"
  shows "page_at (map_page_tables ta pa (m_Table m) hw) 2047 = Some (unat pa div 0x1000 + pages (image_size m), True)"
proof -
  have l: "md_layout m" using assms(1) by (simp add: md_built_def)
  let ?a = "unat (m_DataSize m) div 0x1000" and ?r = "unat (m_DataSize m) mod 0x1000"
  let ?b = "unat (m_StackSize m) div 0x1000" and ?s = "unat (m_StackSize m) mod 0x1000"
  have d: "unat (m_DataSize m) = 0x1000 * ?a + ?r" and s: "unat (m_StackSize m) = 0x1000 * ?b + ?s" by simp_all
  have p: "pages (m_DataSize m) = ?a + 1" "pages (m_StackSize m) = ?b + 1"
    using pages_eq [OF d assms(4)] pages_eq [OF s assms(5)] by simp_all
  have "unat (image_size m) = 0x1000 * (1 + ?a + ?b) + (?r + ?s)"
    unfolding unat_image_size [OF l] by (simp add: algebra_simps)
  from pages_eq [OF this] assms(4,6) have i: "pages (image_size m) = ?a + ?b + 2" by simp
  have q: "unat (m_DataStartAddress m) div 0x1000 + pages (m_DataSize m) + pages (m_StackSize m) \<le> 2048"
      "unat (m_TextStartAddress m) div 0x1000 + pages (m_TextSize m) \<le> unat (m_DataStartAddress m) div 0x1000"
    using layout_pages(4,5) l unfolding md_layout_def by blast+
  have u: "(2047::nat) < USER_ENTRIES" by (simp add: USER_ENTRIES_def USER_SPACE_PAGE_TABLE_CNT_def ENTRY_CNT_PER_PAGETABLE_def)
  show ?thesis
    unfolding md_view [OF assms(1-3) u] i using q p by (simp add: user_view_def Let_def)
qed

theorem unaligned_stack_outside_image_witness:
  "page_at (map_page_tables 0x600000 0x500000 (m_Table (demo_md 0x10 0x20)) (replicate USER_ENTRIES blank_entry)) 2047 = Some (0x502, True) \<and>
   image_pages 0x500000 (demo_md 0x10 0x20) = {0x500..<0x502}"
proof -
  have l: "layout 0x401000 0x2000 0x403000 0x10 0x20" by (simp add: layout_def pages_def)
  have m: "in_memory 0x600000 0x500000 (demo_md 0x10 0x20)" by (simp add: in_memory_def demo_md_def pages_def)
  have z: "pages (image_size (demo_md 0x10 0x20)) = 2" by (simp add: pages_def image_size_def USIZE_def demo_md_def)
  have "page_at (map_page_tables 0x600000 0x500000 (m_Table (demo_md 0x10 0x20)) (replicate USER_ENTRIES blank_entry)) 2047 =
      Some (unat (0x500000 :: u32) div 0x1000 + pages (image_size (demo_md 0x10 0x20)), True)"
    by (rule unaligned_stack_outside_image [OF demo_md_built [OF l] m]) (simp_all add: demo_md_def)
  then show ?thesis using z by (simp add: image_pages_def)
qed

end
