(* ===== verification/Procs.thy ===== *)
theory Procs
  imports Names AddrSpace
begin

text \<open>
  The process table (\<open>proc/Process.cpp\<close>, \<open>proc/ProcessManager.cpp\<close>, \<open>proc/User.cpp\<close>) and the clock
  (\<open>interrupt/TimeInterrupt.cpp\<close>): states, priorities, sleep and wake-up, signals, the choice of the
  process to run.
\<close>

section \<open>The process table\<close>

datatype ProcessState = SNULL | SSLEEP | SWAIT | SRUN | SIDL | SZOMB | SSTOP

text \<open>
  What a process sleeps on is an address in the kernel; these are the addresses the process and terminal code
  use, the others are \<open>AtAddr\<close>.
\<close>

datatype wchan = NoWait | AtRunIn | AtRunOut | AtExeCnt | AtTout | AtRawq | AtCanq | AtOutq | AtProc nat | AtAddr u32

record proc =
  p_uid :: int
  p_pid :: int
  p_ppid :: int
  p_addr :: u32
  p_size :: u32
  p_textp :: "nat option"
  p_stat :: ProcessState
  p_flag :: u32
  p_pri :: int
  p_cpu :: int
  p_nice :: int
  p_time :: int
  p_wchan :: wchan
  p_sig :: int
  p_ttyp :: "nat option"

record xtext =
  x_daddr :: u32
  x_caddr :: u32
  x_size :: u32
  x_iptr :: "nat option"
  x_count :: u16
  x_ccount :: u16

definition SLOAD :: u32 where "SLOAD = 0x1"
definition SSYS :: u32 where "SSYS = 0x2"
definition SLOCK :: u32 where "SLOCK = 0x4"
definition SSWAP :: u32 where "SSWAP = 0x8"
definition STRC :: u32 where "STRC = 0x10"

definition NPROC :: nat where "NPROC = 100"
definition NTEXT :: nat where "NTEXT = 50"
definition NSIG :: int where "NSIG = 32"
definition SIGKILL :: int where "SIGKILL = 9"
definition PSWP :: int where "PSWP = -100"
definition EXPRI :: int where "EXPRI = -1"
definition PWAIT :: int where "PWAIT = 40"
definition PSLEP :: int where "PSLEP = 90"
definition PUSER :: int where "PUSER = 100"
definition HZ :: int where "HZ = 120"
definition SCHMAG :: int where "SCHMAG = 20"

text \<open>
  The tables and counters of \<open>ProcessManager\<close>, the clock, the memory pools, the bytes of physical
  memory, and the part of the user structure of the running process that the file system does not use.
  \<open>u_eip\<close> and \<open>u_esp\<close> are the words of the context saved on the kernel stack, \<open>u_arg0\<close> is \<open>u_arg[0]\<close>.
\<close>

record pm = nm +
  process :: "proc list"
  texts :: "xtext list"
  CurPri :: int
  RunRun :: int
  RunIn :: int
  RunOut :: int
  ExeCnt :: int
  SwtchNum :: u32
  lastSelect :: nat
  m_NextUniquePid :: u32
  lbolt :: int
  tout :: int
  userPages :: pool
  kernelPages :: pool
  swapMap :: pool
  pmem :: "u32 \<Rightarrow> u8"
  u_procp :: nat
  u_md :: md
  u_signal :: "u32 list"
  u_ruid :: int
  u_rgid :: int
  u_utime :: int
  u_stime :: int
  u_cutime :: int
  u_cstime :: int
  u_intflg :: bool
  u_arg0 :: int
  u_eip :: u32
  u_esp :: u32

definition set_proc :: "nat \<Rightarrow> proc \<Rightarrow> 'a pm_scheme \<Rightarrow> 'a pm_scheme" where
  "set_proc i p s = s\<lparr>process := (process s)[i := p]\<rparr>"

section \<open>Sleep and wake-up\<close>

text \<open>
  \<open>SetRun\<close> wakes the swapper when the process is swapped out; it clears \<open>RunOut\<close> before, so that the
  inner \<open>WakeUpAll\<close> only makes processes ready: \<open>make_ready\<close> and \<open>wake_ready\<close> are \<open>SetRun\<close> and \<open>WakeUpAll\<close>
  in a state where \<open>RunOut\<close> is 0.
\<close>

definition IsSleepOn :: "proc \<Rightarrow> wchan \<Rightarrow> bool" where
  "IsSleepOn p chan \<longleftrightarrow> p_wchan p = chan \<and> (p_stat p = SWAIT \<or> p_stat p = SSLEEP)"

definition make_ready :: "nat \<Rightarrow> 'a pm_scheme \<Rightarrow> 'a pm_scheme" where
  "make_ready i s =
     (let p = process s ! i; s = set_proc i (p\<lparr>p_wchan := NoWait, p_stat := SRUN\<rparr>) s
      in if p_pri p < CurPri s then s\<lparr>RunRun := RunRun s + 1\<rparr> else s)"

fun wake_ready :: "wchan \<Rightarrow> nat list \<Rightarrow> 'a pm_scheme \<Rightarrow> 'a pm_scheme" where
  "wake_ready chan [] s = s"
| "wake_ready chan (i # is) s = wake_ready chan is (if IsSleepOn (process s ! i) chan then make_ready i s else s)"

definition SetRun :: "nat \<Rightarrow> 'a pm_scheme \<Rightarrow> 'a pm_scheme" where
  "SetRun i s =
     (let s = make_ready i s
      in if RunOut s \<noteq> 0 \<and> \<not> has_flag (p_flag (process s ! i)) SLOAD
         then wake_ready AtRunOut [0..<NPROC] (s\<lparr>RunOut := 0\<rparr>) else s)"

fun wake_up :: "wchan \<Rightarrow> nat list \<Rightarrow> 'a pm_scheme \<Rightarrow> 'a pm_scheme" where
  "wake_up chan [] s = s"
| "wake_up chan (i # is) s = wake_up chan is (if IsSleepOn (process s ! i) chan then SetRun i s else s)"

definition WakeUpAll :: "wchan \<Rightarrow> 'a pm_scheme \<Rightarrow> 'a pm_scheme" where
  "WakeUpAll chan s = wake_up chan [0..<NPROC] s"

text \<open>\<open>IsSig\<close> looks \<open>p_sig\<close> up in the table of the running process; nothing keeps \<open>p_sig\<close> from being negative.\<close>

definition IsSig :: "nat \<Rightarrow> 'a pm_scheme \<Rightarrow> int kcall" where
  "IsSig i s =
     (let sig = p_sig (process s ! i)
      in if sig = 0 then Done 0
         else if 0 \<le> sig \<and> sig < int (length (u_signal s))
         then Done (if u_signal s ! nat sig AND 1 = 0 then sig else 0)
         else Fault)"

text \<open>
  \<open>Sleep\<close> up to the call of \<open>Swtch\<close>; \<open>False\<close> means that a signal makes the process leave the system call
  at once, as it does when one is pending after the wake-up.
\<close>

definition Sleep :: "nat \<Rightarrow> wchan \<Rightarrow> int \<Rightarrow> 'a pm_scheme \<Rightarrow> (bool \<times> 'a pm_scheme) kcall" where
  "Sleep i chan pri s =
     (if pri > 0
      then kbind (IsSig i s) (\<lambda>sig.
        if sig \<noteq> 0 then Done (False, s)
        else
          let s = set_proc i ((process s ! i)\<lparr>p_wchan := chan, p_stat := SWAIT, p_pri := pri\<rparr>) s;
              s = (if RunIn s \<noteq> 0 then WakeUpAll AtRunIn (s\<lparr>RunIn := 0\<rparr>) else s)
          in Done (True, s))
      else Done (True, set_proc i ((process s ! i)\<lparr>p_wchan := chan, p_stat := SSLEEP, p_pri := pri\<rparr>) s))"

section \<open>Priorities\<close>

definition SetPri :: "nat \<Rightarrow> 'a pm_scheme \<Rightarrow> 'a pm_scheme" where
  "SetPri i s =
     (let p = process s ! i;
          priority = p_cpu p div 16 + (PUSER + p_nice p);
          priority = (if priority > 255 then 255 else priority);
          s = (if priority > CurPri s then s\<lparr>RunRun := RunRun s + 1\<rparr> else s)
      in set_proc i (p\<lparr>p_pri := priority\<rparr>) s)"

definition Nice :: "int \<Rightarrow> 'a pm_scheme \<Rightarrow> 'a pm_scheme" where
  "Nice niceValue s =
     (let niceValue = (if niceValue > 20 then 20 else niceValue);
          (ok, s) = (if niceValue < 0 then SUser s else (True, s));
          niceValue = (if ok then niceValue else 0)
      in set_proc (u_procp s) ((process s ! u_procp s)\<lparr>p_nice := niceValue\<rparr>) s)"

text \<open>One scan of \<open>Select\<close>: the runnable process in memory of the smallest \<open>p_pri\<close>, first after the last one.\<close>

definition runnable :: "proc \<Rightarrow> bool" where
  "runnable p \<longleftrightarrow> p_stat p = SRUN \<and> has_flag (p_flag p) SLOAD"

fun best_of :: "proc list \<Rightarrow> nat list \<Rightarrow> nat option \<Rightarrow> int \<Rightarrow> nat option \<times> int" where
  "best_of ps [] best priority = (best, priority)"
| "best_of ps (i # is) best priority =
     (if runnable (ps ! i) \<and> p_pri (ps ! i) < priority then best_of ps is (Some i) (p_pri (ps ! i))
      else best_of ps is best priority)"

definition scan_order :: "nat \<Rightarrow> nat list" where
  "scan_order start = map (\<lambda>count. (start + 1 + count) mod NPROC) [0..<NPROC]"

text \<open>\<open>None\<close>: nothing is runnable, and \<open>Select\<close> waits for an interrupt before the next scan.\<close>

definition Select_round :: "'a pm_scheme \<Rightarrow> nat option \<times> 'a pm_scheme" where
  "Select_round s =
     (let (best, priority) = best_of (process s) (scan_order (lastSelect s)) None 256;
          s = s\<lparr>RunRun := 0\<rparr>
      in case best of
           None \<Rightarrow> (None, s)
         | Some b \<Rightarrow>
             let n = SwtchNum s + 1
             in (Some b, s\<lparr>SwtchNum := (if n AND 0x80000000 \<noteq> 0 then 0 else n), CurPri := priority, lastSelect := b\<rparr>))"

section \<open>Signals\<close>

definition PSignal :: "nat \<Rightarrow> int \<Rightarrow> 'a pm_scheme \<Rightarrow> 'a pm_scheme" where
  "PSignal i signal s =
     (if signal \<ge> NSIG then s
      else
        let p = process s ! i;
            p = (if p_sig p \<noteq> SIGKILL then p\<lparr>p_sig := signal\<rparr> else p);
            p = (if p_pri p > PUSER then p\<lparr>p_pri := PUSER\<rparr> else p);
            s = set_proc i p s
        in if p_stat p = SWAIT then SetRun i s else s)"

text \<open>\<open>PSig\<close>: \<open>True\<close> means that the process is to end in \<open>Exit\<close>.\<close>

definition PSig :: "nat \<Rightarrow> 'a pm_scheme \<Rightarrow> (bool \<times> 'a pm_scheme) kcall" where
  "PSig i s =
     (let signal = p_sig (process s ! i);
          s = set_proc i ((process s ! i)\<lparr>p_sig := 0\<rparr>) s
      in if 0 \<le> signal \<and> signal < int (length (u_signal s))
         then
           let handler = u_signal s ! nat signal
           in if handler \<noteq> 0
              then
                let esp = u_esp s - 4; old = u_eip s
                in Done (False, s\<lparr>u_error := NOERROR, u_eip := handler, u_esp := esp,
                     umem := store_bytes (umem s) (uint esp) (undwords [old]), u_signal := (u_signal s)[nat signal := 0]\<rparr>)
              else Done (True, s)
         else Fault)"

definition Ssig :: "int \<Rightarrow> u32 \<Rightarrow> 'a pm_scheme \<Rightarrow> 'a pm_scheme" where
  "Ssig signalIndex func s =
     (if signalIndex \<le> 0 \<or> signalIndex \<ge> NSIG \<or> signalIndex = SIGKILL then s\<lparr>u_error := EINVAL\<rparr>
      else
        let s = s\<lparr>u_eax := uint (u_signal s ! nat signalIndex), u_signal := (u_signal s)[nat signalIndex := func]\<rparr>;
            p = process s ! u_procp s
        in if p_sig p = signalIndex then set_proc (u_procp s) (p\<lparr>p_sig := 0\<rparr>) s else s)"

text \<open>\<open>Kill\<close>: the test of one process, and the loop with the flag that some process was found.\<close>

definition kill_target :: "int \<Rightarrow> nat \<Rightarrow> 'a pm_scheme \<Rightarrow> bool" where
  "kill_target pid i s \<longleftrightarrow>
     (let p = process s ! i
      in u_procp s \<noteq> i \<and> (pid = 0 \<or> p_pid p = pid) \<and>
         (pid = 0 \<longrightarrow> p_ttyp p = p_ttyp (process s ! u_procp s) \<and> i \<noteq> 0) \<and> (u_uid s = 0 \<or> u_uid s = p_uid p))"

fun kill_loop :: "int \<Rightarrow> int \<Rightarrow> nat list \<Rightarrow> bool \<Rightarrow> 'a pm_scheme \<Rightarrow> bool \<times> 'a pm_scheme" where
  "kill_loop pid signal [] flag s = (flag, s)"
| "kill_loop pid signal (i # is) flag s =
     (if kill_target pid i s then kill_loop pid signal is True (PSignal i signal s)
      else kill_loop pid signal is flag s)"

definition Kill :: "int \<Rightarrow> int \<Rightarrow> 'a pm_scheme \<Rightarrow> 'a pm_scheme" where
  "Kill pid signal s =
     (let (flag, s) = kill_loop pid signal [0..<NPROC] False s
      in if flag then s else s\<lparr>u_error := ESRCH\<rparr>)"

fun signal_loop :: "nat option \<Rightarrow> int \<Rightarrow> nat list \<Rightarrow> 'a pm_scheme \<Rightarrow> 'a pm_scheme" where
  "signal_loop tty signal [] s = s"
| "signal_loop tty signal (i # is) s =
     signal_loop tty signal is (if p_ttyp (process s ! i) = tty then PSignal i signal s else s)"

definition Signal :: "nat option \<Rightarrow> int \<Rightarrow> 'a pm_scheme \<Rightarrow> 'a pm_scheme" where
  "Signal tty signal s = signal_loop tty signal [0..<NPROC] s"

section \<open>User and group numbers\<close>

definition Setuid :: "int \<Rightarrow> 'a pm_scheme \<Rightarrow> 'a pm_scheme" where
  "Setuid arg s =
     (let uid = sint (word_of_int arg :: u16);
          (ok, s) = (if u_ruid s = uid then (True, s) else SUser s)
      in if ok
         then set_proc (u_procp s) ((process s ! u_procp s)\<lparr>p_uid := uid\<rparr>) (s\<lparr>u_uid := uid, u_ruid := uid\<rparr>)
         else s\<lparr>u_error := EPERM\<rparr>)"

definition Setgid :: "int \<Rightarrow> 'a pm_scheme \<Rightarrow> 'a pm_scheme" where
  "Setgid arg s =
     (let gid = sint (word_of_int arg :: u16);
          (ok, s) = (if u_rgid s = gid then (True, s) else SUser s)
      in if ok then s\<lparr>u_gid := gid, u_rgid := gid\<rparr> else s\<lparr>u_error := EPERM\<rparr>)"

definition id_word :: "int \<Rightarrow> int \<Rightarrow> u32" where
  "id_word effective real = push_bit 16 (word_of_int effective) OR (word_of_int real AND 0xFF)"

definition Getuid :: "'a pm_scheme \<Rightarrow> 'a pm_scheme" where
  "Getuid s = s\<lparr>u_eax := uint (id_word (u_uid s) (u_ruid s))\<rparr>"

definition Getgid :: "'a pm_scheme \<Rightarrow> 'a pm_scheme" where
  "Getgid s = s\<lparr>u_eax := uint (id_word (u_gid s) (u_rgid s))\<rparr>"

section \<open>The clock\<close>

definition age :: "nat \<Rightarrow> 'a pm_scheme \<Rightarrow> 'a pm_scheme" where
  "age i s =
     (let p = process s ! i
      in if p_stat p = SNULL then s
         else
           let p = p\<lparr>p_time := min (p_time p + 1) 127, p_cpu := (if p_cpu p > SCHMAG then p_cpu p - SCHMAG else 0)\<rparr>;
               s = set_proc i p s
           in if p_pri p > PUSER then SetPri i s else s)"

fun age_all :: "nat list \<Rightarrow> 'a pm_scheme \<Rightarrow> 'a pm_scheme" where
  "age_all [] s = s"
| "age_all (i # is) s = age_all is (age i s)"

text \<open>\<open>Clock\<close>; \<open>user\<close> tells the mode that was interrupted.  \<open>True\<close>: a signal ends the process.\<close>

definition second :: "bool \<Rightarrow> 'a pm_scheme \<Rightarrow> (bool \<times> 'a pm_scheme) kcall" where
  "second user s =
     (let s = s\<lparr>lbolt := lbolt s - HZ, ktime := ktime s + 1\<rparr>;
          s = (if ktime s = tout s then WakeUpAll AtTout s else s);
          s = age_all [0..<NPROC] s;
          s = (if RunIn s \<noteq> 0 then WakeUpAll AtRunIn (s\<lparr>RunIn := 0\<rparr>) else s)
      in if user
         then kbind (IsSig (u_procp s) s) (\<lambda>sig.
              kbind (if sig \<noteq> 0 then PSig (u_procp s) s else Done (False, s)) (\<lambda>(ends, s).
              Done (ends, if ends then s else SetPri (u_procp s) s)))
         else Done (False, s))"

definition Clock :: "bool \<Rightarrow> 'a pm_scheme \<Rightarrow> (bool \<times> 'a pm_scheme) kcall" where
  "Clock user s =
     (let s = (if user then s\<lparr>u_utime := u_utime s + 1\<rparr> else s\<lparr>u_stime := u_stime s + 1\<rparr>);
          i = u_procp s;
          s = set_proc i ((process s ! i)\<lparr>p_cpu := min (p_cpu (process s ! i) + 1) 1024\<rparr>) s;
          s = s\<lparr>lbolt := lbolt s + 1\<rparr>
      in if lbolt s < HZ then Done (False, s)
         else if p_stat (process s ! i) = SRUN \<and> \<not> user then Done (False, s)
         else second user s)"

section \<open>Timed sleep\<close>

text \<open>
  One pass of the loop of \<open>Sys_Sslep\<close>; \<open>True\<close> means that the process sleeps, and looks again when it
  is woken.  \<open>Sys_Stime\<close> takes the time from the register that holds the number of the call.
\<close>

definition Sslep_round :: "int \<Rightarrow> 'a pm_scheme \<Rightarrow> (bool \<times> 'a pm_scheme) kcall" where
  "Sslep_round wakeTime s =
     (if wakeTime > ktime s
      then
        let s = (if tout s \<le> ktime s \<or> tout s > wakeTime then s\<lparr>tout := wakeTime\<rparr> else s)
        in Sleep (u_procp s) AtTout PSLEP s
      else Done (False, s))"

definition Stime :: "'a pm_scheme \<Rightarrow> 'a pm_scheme" where
  "Stime s = (let (ok, s) = SUser s in if ok then s\<lparr>ktime := u_eax s\<rparr> else s)"

end
