(* ===== verification/ProcDemo.thy ===== *)
theory ProcDemo
  imports Procs RefCounts
begin

text \<open>A small process table: the swapper, two user processes and free entries.\<close>

definition idle_proc :: proc where
  "idle_proc = \<lparr>p_uid = 0, p_pid = 0, p_ppid = -1, p_addr = 0, p_size = 0, p_textp = None, p_stat = SNULL, p_flag = 0,
     p_pri = 0, p_cpu = 0, p_nice = 0, p_time = 0, p_wchan = NoWait, p_sig = 0, p_ttyp = None\<rparr>"

definition swapper :: proc where
  "swapper = idle_proc\<lparr>p_addr := 0x3FF000, p_size := 0x1000, p_stat := SSLEEP, p_flag := SLOAD OR SSYS, p_pri := -100,
     p_wchan := AtRunOut\<rparr>"

definition user_proc :: "int \<Rightarrow> proc" where
  "user_proc pid = idle_proc\<lparr>p_pid := pid, p_ppid := 0, p_addr := 0x400000, p_size := 0x4000, p_stat := SRUN, p_flag := SLOAD,
     p_pri := 100\<rparr>"

definition no_text :: xtext where
  "no_text = \<lparr>x_daddr = 0, x_caddr = 0, x_size = 0, x_iptr = None, x_count = 0, x_ccount = 0\<rparr>"

definition no_md :: md where
  "no_md = \<lparr>m_UserPageTableArray = 0, m_Table = [], m_TextStartAddress = 0, m_TextSize = 0, m_DataStartAddress = 0, m_DataSize = 0,
     m_StackSize = 0\<rparr>"

definition demo_pm :: pm where
  "demo_pm = \<lparr>m_Mount = m_Mount demo_nm, updlock = 0, disk = disk demo_nm, u_error = NOERROR, ktime = 7, rablock = 0,
     umem = (\<lambda>a. 0), m_Inode = m_Inode demo_nm, m_File = m_File demo_nm, u_ofiles = u_ofiles demo_nm, u_eax = 0,
     u_uid = 0, u_gid = 0, bad_sector = bad_sector demo_nm, u_cdir = 0, u_pdir = 0, rootDirInode = 0, u_dirp = [],
     u_dbuf = u_dbuf demo_nm, d_ino = 0, d_name = d_name demo_nm, d_esize = 0, addition_entry = addition_entry demo_nm,
     u_IOParam = u_IOParam demo_nm, u_curdir = u_curdir demo_nm,
     process = swapper # user_proc 1 # user_proc 2 # replicate 97 idle_proc, texts = replicate 50 no_text, CurPri = 100,
     RunRun = 0, RunIn = 0, RunOut = 1, ExeCnt = 0, SwtchNum = 0, lastSelect = 0, m_NextUniquePid = 3, lbolt = 0, tout = 0,
     userPages = user_pages_init 0x800000, kernelPages = kernel_pages_init, swapMap = swapper_init, pmem = (\<lambda>a. 0), u_procp = 1,
     u_md = no_md, u_signal = 0 # replicate 31 0, u_ruid = 0, u_rgid = 0, u_utime = 0, u_stime = 0, u_cutime = 0, u_cstime = 0,
     u_intflg = False, u_arg0 = 0, u_eip = 0, u_esp = 0\<rparr>"

lemma demo_process:
  "process demo_pm = swapper # user_proc 1 # user_proc 2 # replicate 97 idle_proc" "length (process demo_pm) = NPROC"
  "i < NPROC \<Longrightarrow> process demo_pm ! i = (if i = 0 then swapper else if i = 1 then user_proc 1 else if i = 2 then user_proc 2 else idle_proc)"
proof -
  show p: "process demo_pm = swapper # user_proc 1 # user_proc 2 # replicate 97 idle_proc" by (simp add: demo_pm_def)
  show "length (process demo_pm) = NPROC" by (simp add: p NPROC_def)
  show "i < NPROC \<Longrightarrow> process demo_pm ! i = (if i = 0 then swapper else if i = 1 then user_proc 1 else if i = 2 then user_proc 2 else idle_proc)"
    unfolding p by (auto simp: nth_Cons NPROC_def split: nat.split)
qed

end
