(* ===== verification/ProcSpec.thy ===== *)
theory ProcSpec
  imports ProcDemo
begin

text \<open>
  What the process table promises: who runs next, who is woken, that priorities stay in range, that
  timed sleeps end and that \<open>SIGKILL\<close> cannot be avoided.
\<close>

section \<open>Wake-up\<close>

lemma set_proc_simps [simp]:
  "process (set_proc i p s) = (process s)[i := p]" "CurPri (set_proc i p s) = CurPri s" "RunRun (set_proc i p s) = RunRun s"
  "RunIn (set_proc i p s) = RunIn s" "RunOut (set_proc i p s) = RunOut s" "u_signal (set_proc i p s) = u_signal s"
  "u_procp (set_proc i p s) = u_procp s" "ktime (set_proc i p s) = ktime s" "tout (set_proc i p s) = tout s"
  "lbolt (set_proc i p s) = lbolt s"
  by (simp_all add: set_proc_def)

definition woken :: "proc \<Rightarrow> proc" where
  "woken p = p\<lparr>p_wchan := NoWait, p_stat := SRUN\<rparr>"

lemma make_ready_simps [simp]:
  "process (make_ready i s) = (process s)[i := woken (process s ! i)]" "CurPri (make_ready i s) = CurPri s"
  "RunIn (make_ready i s) = RunIn s" "RunOut (make_ready i s) = RunOut s" "u_signal (make_ready i s) = u_signal s"
  "u_procp (make_ready i s) = u_procp s" "ktime (make_ready i s) = ktime s" "tout (make_ready i s) = tout s"
  "lbolt (make_ready i s) = lbolt s"
  by (simp_all add: make_ready_def Let_def woken_def)

lemma woken_sleep [simp]: "\<not> IsSleepOn (woken p) chan" "p_flag (woken p) = p_flag p" "p_pri (woken p) = p_pri p"
  by (simp_all add: IsSleepOn_def woken_def)

lemma woken_twice [simp]: "woken (woken p) = woken p"
  by (simp add: woken_def)

lemma wake_ready_process:
  assumes "distinct is" "\<forall>i\<in>set is. i < length (process s)"
  shows "process (wake_ready chan is s) =
    map (\<lambda>i. if i \<in> set is \<and> IsSleepOn (process s ! i) chan then woken (process s ! i) else process s ! i)
      [0..<length (process s)]"
  using assms
proof (induction "is" arbitrary: s)
  case Nil
  then show ?case by (simp add: map_nth)
next
  case (Cons i "is")
  show ?case
    using Cons.prems by (auto simp: Cons.IH nth_list_update intro!: nth_equalityI)
qed

lemma wake_ready_simps [simp]:
  "length (process (wake_ready chan is s)) = length (process s)" "RunOut (wake_ready chan is s) = RunOut s"
  "CurPri (wake_ready chan is s) = CurPri s" "RunIn (wake_ready chan is s) = RunIn s" "u_signal (wake_ready chan is s) = u_signal s"
  "u_procp (wake_ready chan is s) = u_procp s" "ktime (wake_ready chan is s) = ktime s" "tout (wake_ready chan is s) = tout s"
  "lbolt (wake_ready chan is s) = lbolt s"
  by (induction "is" arbitrary: s) auto

lemma SetRun_simps [simp]:
  "length (process (SetRun i s)) = length (process s)" "CurPri (SetRun i s) = CurPri s" "RunIn (SetRun i s) = RunIn s"
  "u_signal (SetRun i s) = u_signal s" "u_procp (SetRun i s) = u_procp s" "ktime (SetRun i s) = ktime s"
  "tout (SetRun i s) = tout s" "lbolt (SetRun i s) = lbolt s"
  by (simp_all add: SetRun_def Let_def)

text \<open>The inner call of \<open>WakeUpAll\<close> in \<open>SetRun\<close> runs with \<open>RunOut = 0\<close>, where both loops agree.\<close>

lemma wake_up_ready: "RunOut s = 0 \<Longrightarrow> wake_up chan is s = wake_ready chan is s"
  by (induction "is" arbitrary: s) (auto simp: SetRun_def)

lemma wake_up_simps [simp]:
  "length (process (wake_up chan is s)) = length (process s)" "CurPri (wake_up chan is s) = CurPri s"
  "RunIn (wake_up chan is s) = RunIn s" "u_signal (wake_up chan is s) = u_signal s" "u_procp (wake_up chan is s) = u_procp s"
  "ktime (wake_up chan is s) = ktime s" "tout (wake_up chan is s) = tout s" "lbolt (wake_up chan is s) = lbolt s"
  by (induction "is" arbitrary: s) auto

text \<open>Whether a wake-up also wakes the swapper, which waits for a process to bring in.\<close>

definition wakes_swapper :: "wchan \<Rightarrow> 'a pm_scheme \<Rightarrow> bool" where
  "wakes_swapper chan s \<longleftrightarrow>
     RunOut s \<noteq> 0 \<and> (\<exists>p \<in> set (process s). IsSleepOn p chan \<and> \<not> has_flag (p_flag p) SLOAD)"


lemma sleep_update:
  "i < length ps \<Longrightarrow> IsSleepOn (ps[i := woken (ps ! i)] ! k) chan = (k \<noteq> i \<and> IsSleepOn (ps ! k) chan)"
  by (cases "k = i") simp_all

lemma SetRun_process:
  assumes "length (process s) = NPROC" "k < NPROC" "i < NPROC"
  shows "process (SetRun i s) ! k =
    (if k = i \<or> (RunOut s \<noteq> 0 \<and> \<not> has_flag (p_flag (process s ! i)) SLOAD \<and> IsSleepOn (process s ! k) AtRunOut)
     then woken (process s ! k) else process s ! k)"
  using assms by (auto simp: SetRun_def Let_def wake_ready_process nth_list_update)

lemma SetRun_RunOut:
  "length (process s) = NPROC \<Longrightarrow> i < NPROC \<Longrightarrow>
   RunOut (SetRun i s) = (if RunOut s \<noteq> 0 \<and> \<not> has_flag (p_flag (process s ! i)) SLOAD then 0 else RunOut s)"
  by (simp add: SetRun_def Let_def)

lemma wake_up_process:
  assumes "distinct is" "set is \<subseteq> {..<NPROC}" "length (process s) = NPROC" "k < NPROC"
  shows "process (wake_up chan is s) ! k =
    (if (k \<in> set is \<and> IsSleepOn (process s ! k) chan) \<or>
        (RunOut s \<noteq> 0 \<and> (\<exists>i \<in> set is. IsSleepOn (process s ! i) chan \<and> \<not> has_flag (p_flag (process s ! i)) SLOAD) \<and>
         IsSleepOn (process s ! k) AtRunOut)
     then woken (process s ! k) else process s ! k)"
  using assms
proof (induction "is" arbitrary: s)
  case Nil
  then show ?case by simp
next
  case (Cons i "is")
  let ?sleeps = "\<lambda>k. IsSleepOn (process s ! k) chan" and ?out = "\<lambda>k. \<not> has_flag (p_flag (process s ! k)) SLOAD"
  have i: "i < NPROC" "i \<notin> set is" "distinct is" "set is \<subseteq> {..<NPROC}" using Cons.prems by auto
  note len = Cons.prems(3) and k = Cons.prems(4)
  have pr: "process (SetRun i s) ! j = (if j = i \<or> (RunOut s \<noteq> 0 \<and> ?out i \<and> IsSleepOn (process s ! j) AtRunOut)
     then woken (process s ! j) else process s ! j)" if "j < NPROC" for j
    using SetRun_process [OF len that i(1)] .
  show ?case
  proof (cases "?sleeps i")
    case False
    then show ?thesis using Cons.IH [OF i(3,4) len k] by auto
  next
    case True
    have len': "length (process (SetRun i s)) = NPROC" using len by simp
    have lt: "j < NPROC" if "j \<in> set is" for j using that i(4) by auto
    show ?thesis
    proof (cases "RunOut s \<noteq> 0 \<and> ?out i")
      case False
      then have p: "process (SetRun i s) ! j = (if j = i then woken (process s ! j) else process s ! j)" if "j < NPROC" for j
        using pr [OF that] by auto
      have r: "RunOut (SetRun i s) = RunOut s" using False SetRun_RunOut [OF len i(1)] by auto
      have ex: "(\<exists>j \<in> set is. IsSleepOn (process (SetRun i s) ! j) chan \<and> \<not> has_flag (p_flag (process (SetRun i s) ! j)) SLOAD) =
          (\<exists>j \<in> set is. ?sleeps j \<and> ?out j)" by (rule bex_cong [OF refl]) (use p i(2) lt in auto)
      show ?thesis
        using Cons.IH [OF i(3,4) len' k] True False unfolding p [OF k] r ex by auto
    next
      case out: True
      then have p: "process (SetRun i s) ! j = (if j = i \<or> IsSleepOn (process s ! j) AtRunOut then woken (process s ! j) else process s ! j)"
        if "j < NPROC" for j using pr [OF that] by auto
      have r: "RunOut (SetRun i s) = 0" using out SetRun_RunOut [OF len i(1)] by auto
      show ?thesis
        using Cons.IH [OF i(3,4) len' k] True out unfolding p [OF k] r by auto
    qed
  qed
qed

lemma wake_up_RunOut:
  assumes "distinct is" "set is \<subseteq> {..<NPROC}" "length (process s) = NPROC"
  shows "RunOut (wake_up chan is s) =
    (if RunOut s \<noteq> 0 \<and> (\<exists>i \<in> set is. IsSleepOn (process s ! i) chan \<and> \<not> has_flag (p_flag (process s ! i)) SLOAD) then 0 else RunOut s)"
  using assms
proof (induction "is" arbitrary: s)
  case (Cons i "is")
  have i: "i < NPROC" "i \<notin> set is" "distinct is" "set is \<subseteq> {..<NPROC}" using Cons.prems by auto
  note len = Cons.prems(3)
  have len': "length (process (SetRun i s)) = NPROC" using len by simp
  have lt: "j < NPROC" "j \<noteq> i" if "j \<in> set is" for j using that i by auto
  show ?case
  proof (cases "IsSleepOn (process s ! i) chan")
    case False
    then show ?thesis using Cons.IH [OF i(3,4) len] by auto
  next
    case True
    show ?thesis
      using Cons.IH [OF i(3,4) len'] True SetRun_RunOut [OF len i(1)] SetRun_process [OF len _ i(1)] lt
      by (auto split: if_splits)
  qed
qed simp

lemma wakes_swapper_index:
  "length (process s) = NPROC \<Longrightarrow> wakes_swapper chan s =
   (RunOut s \<noteq> 0 \<and> (\<exists>i \<in> set [0..<NPROC]. IsSleepOn (process s ! i) chan \<and> \<not> has_flag (p_flag (process s ! i)) SLOAD))"
  unfolding wakes_swapper_def by (metis (no_types, lifting) atLeastLessThan_upt atLeastLessThan_iff in_set_conv_nth zero_le)

lemma WakeUpAll_process:
  assumes "length (process s) = NPROC" "k < NPROC"
  shows "process (WakeUpAll chan s) ! k =
    (if IsSleepOn (process s ! k) chan \<or> (wakes_swapper chan s \<and> IsSleepOn (process s ! k) AtRunOut)
     then woken (process s ! k) else process s ! k)"
  using wake_up_process [OF distinct_upt _ assms, of 0 NPROC chan] assms(2)
  unfolding WakeUpAll_def wakes_swapper_index [OF assms(1)] by (auto simp: subset_iff)

lemma WakeUpAll_simps [simp]:
  "length (process (WakeUpAll chan s)) = length (process s)" "CurPri (WakeUpAll chan s) = CurPri s"
  "RunIn (WakeUpAll chan s) = RunIn s" "u_signal (WakeUpAll chan s) = u_signal s" "u_procp (WakeUpAll chan s) = u_procp s"
  "ktime (WakeUpAll chan s) = ktime s" "tout (WakeUpAll chan s) = tout s" "lbolt (WakeUpAll chan s) = lbolt s"
  by (simp_all add: WakeUpAll_def)


text \<open>
  A wake-up makes ready precisely the processes that sleep for its reason, and the swapper if one
  of them is on the swap area and the swapper waits for that; no other entry of the table changes.
\<close>

theorem WakeUpAll_exact:
  assumes "length (process s) = NPROC"
  shows "process (WakeUpAll chan s) =
    map (\<lambda>p. if IsSleepOn p chan \<or> (wakes_swapper chan s \<and> IsSleepOn p AtRunOut) then woken p else p) (process s)"
  using WakeUpAll_process [OF assms] assms by (intro nth_equalityI) auto

theorem WakeUpAll_exact_witness:
  "p_stat (process (WakeUpAll AtRunOut demo_pm) ! 0) = SRUN \<and> process (WakeUpAll AtRunOut demo_pm) ! 1 = user_proc 1"
proof -
  have "IsSleepOn swapper AtRunOut" "\<not> IsSleepOn (user_proc 1) AtRunOut"
    by (simp_all add: IsSleepOn_def swapper_def user_proc_def idle_proc_def)
  then show ?thesis
    unfolding WakeUpAll_exact [OF demo_process(2)] by (simp add: demo_process(1) woken_def)
qed

section \<open>Who runs next\<close>

text \<open>How far a process is behind the one that was chosen last.\<close>

definition ring_distance :: "nat \<Rightarrow> nat \<Rightarrow> nat" where
  "ring_distance start i = (i + NPROC - (start + 1)) mod NPROC"

lemma ring_scan:
  assumes "k < NPROC" "start < NPROC"
  shows "ring_distance start ((start + 1 + k) mod NPROC) = k"
proof (cases "start + 1 + k < NPROC")
  case True
  then have "(start + 1 + k + NPROC - (start + 1)) mod NPROC = (k + NPROC) mod NPROC" by (simp add: add.commute)
  then show ?thesis using True assms(1) unfolding ring_distance_def by simp
next
  case False
  then have m: "(start + 1 + k) mod NPROC = start + 1 + k - NPROC" using assms by (simp add: le_mod_geq)
  have "start + 1 + k - NPROC + NPROC - (start + 1) = k" using False by simp
  then show ?thesis using assms(1) unfolding ring_distance_def m by simp
qed

lemma ring_inverse:
  assumes "i < NPROC" "start < NPROC"
  shows "(start + 1 + ring_distance start i) mod NPROC = i"
proof (cases "start + 1 \<le> i")
  case True
  then have e: "i + NPROC - (start + 1) = i - (start + 1) + NPROC" by linarith
  have "i - (start + 1) < NPROC" using assms(1) by linarith
  then have "ring_distance start i = i - (start + 1)" unfolding ring_distance_def e by simp
  then have "start + 1 + ring_distance start i = i" using True by linarith
  then show ?thesis using assms(1) by simp
next
  case False
  then have "i + NPROC - (start + 1) < NPROC" using assms by linarith
  then have "ring_distance start i = i + NPROC - (start + 1)" unfolding ring_distance_def by (rule mod_less)
  then have "start + 1 + ring_distance start i = i + NPROC" using False assms by linarith
  then show ?thesis using assms(1) by simp
qed

lemma ring_bound: "ring_distance start i < NPROC"
  by (simp add: ring_distance_def NPROC_def)

text \<open>\<open>best_of\<close> keeps the first of the smallest priority.\<close>

definition first_best :: "proc list \<Rightarrow> nat list \<Rightarrow> int \<Rightarrow> nat \<Rightarrow> int \<Rightarrow> bool" where
  "first_best ps is pri i q \<longleftrightarrow>
     (\<exists>xs ys. is = xs @ i # ys \<and> runnable (ps ! i) \<and> q = p_pri (ps ! i) \<and> q < pri \<and>
        (\<forall>j \<in> set xs. runnable (ps ! j) \<longrightarrow> q < p_pri (ps ! j)))"

lemma first_best_Cons:
  "first_best ps is pri i q \<Longrightarrow> (runnable (ps ! k) \<Longrightarrow> q < p_pri (ps ! k)) \<Longrightarrow> pri \<le> pri' \<Longrightarrow> first_best ps (k # is) pri' i q"
  unfolding first_best_def by (elim exE conjE, rule_tac x = "k # xs" in exI) auto

lemma first_best_less: "first_best ps is pri i q \<Longrightarrow> q < pri"
  by (auto simp: first_best_def)

lemma best_of_first:
  assumes "best_of ps is best pri = (b, q)"
  shows "q \<le> pri \<and> (\<forall>i \<in> set is. runnable (ps ! i) \<longrightarrow> q \<le> p_pri (ps ! i)) \<and>
    ((b = best \<and> q = pri) \<or> (\<exists>i. b = Some i \<and> first_best ps is pri i q))"
  using assms
proof (induction "is" arbitrary: best pri)
  case (Cons k "is")
  show ?case
  proof (cases "runnable (ps ! k) \<and> p_pri (ps ! k) < pri")
    case False
    then have "best_of ps is best pri = (b, q)" using Cons.prems by auto
    note ih = Cons.IH [OF this]
    have "first_best ps (k # is) pri i q" if "first_best ps is pri i q" for i
      using first_best_Cons [OF that] first_best_less [OF that] False by auto
    with ih False show ?thesis by auto
  next
    case True
    then have "best_of ps is (Some k) (p_pri (ps ! k)) = (b, q)" using Cons.prems by simp
    note ih = Cons.IH [OF this]
    have "\<exists>i. b = Some i \<and> first_best ps (k # is) pri i q"
    proof (cases "b = Some k \<and> q = p_pri (ps ! k)")
      case True
      then show ?thesis using \<open>runnable (ps ! k) \<and> p_pri (ps ! k) < pri\<close> unfolding first_best_def
        by (intro exI [of _ k] conjI) (simp, rule exI [of _ "[]"], rule exI [of _ "is"], simp)
    next
      case False
      then obtain i where i: "b = Some i" "first_best ps is (p_pri (ps ! k)) i q" using ih by auto
      note first_best_less [OF i(2)]
      with i True show ?thesis by (intro exI [of _ i] conjI) (auto intro: first_best_Cons)
    qed
    with ih True show ?thesis by auto
  qed
qed simp

lemma scan_order_simps: "length (scan_order start) = NPROC" "k < NPROC \<Longrightarrow> scan_order start ! k = (start + 1 + k) mod NPROC"
  by (simp_all add: scan_order_def)

definition best_choice :: "proc list \<Rightarrow> nat \<Rightarrow> nat option \<Rightarrow> bool" where
  "best_choice ps start b \<longleftrightarrow>
     (case b of
        None \<Rightarrow> \<forall>i < NPROC. \<not> runnable (ps ! i)
      | Some b \<Rightarrow> b < NPROC \<and> runnable (ps ! b) \<and>
          (\<forall>i < NPROC. runnable (ps ! i) \<longrightarrow> p_pri (ps ! b) \<le> p_pri (ps ! i) \<and>
             (p_pri (ps ! i) = p_pri (ps ! b) \<longrightarrow> ring_distance start b \<le> ring_distance start i)))"

lemma Select_best:
  assumes "lastSelect s < NPROC" "\<forall>i < NPROC. runnable (process s ! i) \<longrightarrow> p_pri (process s ! i) < 256"
  shows "best_choice (process s) (lastSelect s) (fst (Select_round s))"
proof -
  let ?ps = "process s" and ?l = "lastSelect s"
  obtain b q where bq: "best_of ?ps (scan_order ?l) None 256 = (b, q)" by fastforce
  note c = best_of_first [OF bq]
  have f: "fst (Select_round s) = b" using bq by (simp add: Select_round_def Let_def split: option.splits)
  have ix: "\<exists>k < NPROC. scan_order ?l ! k = i \<and> k = ring_distance ?l i" if "i < NPROC" for i
    using ring_bound [of ?l i] ring_inverse [OF that assms(1)] scan_order_simps(2) [OF ring_bound [of ?l i], of ?l] by auto
  have mem: "i \<in> set (scan_order ?l)" if "i < NPROC" for i
    using ix [OF that] scan_order_simps(1) [of ?l] nth_mem by metis
  show ?thesis
  proof (cases b)
    case None
    then have "256 \<le> p_pri (?ps ! i)" if "i < NPROC" "runnable (?ps ! i)" for i using c mem [OF that(1)] that(2) by auto
    then have "\<not> runnable (?ps ! i)" if "i < NPROC" for i using assms(2) that by force
    with None show ?thesis by (simp add: f best_choice_def)
  next
    case (Some i)
    then obtain xs ys where o: "scan_order ?l = xs @ i # ys" and r: "runnable (?ps ! i)" "q = p_pri (?ps ! i)"
      and x: "\<forall>j \<in> set xs. runnable (?ps ! j) \<longrightarrow> q < p_pri (?ps ! j)"
      using c by (auto simp: first_best_def)
    have n: "length xs < NPROC" using arg_cong [OF o, of length] scan_order_simps(1) [of ?l] by simp
    have i: "i = (?l + 1 + length xs) mod NPROC" using scan_order_simps(2) [OF n, of ?l] o by simp
    have rd: "ring_distance ?l i = length xs" unfolding i by (rule ring_scan [OF n assms(1)])
    have "length xs \<le> ring_distance ?l j" if "j < NPROC" "runnable (?ps ! j)" "p_pri (?ps ! j) = q" for j
    proof (rule ccontr)
      assume "\<not> ?thesis"
      then have "j = xs ! ring_distance ?l j" using ix [OF that(1)] o by (auto simp: nth_append)
      then have "j \<in> set xs" using \<open>\<not> length xs \<le> ring_distance ?l j\<close> nth_mem [of "ring_distance ?l j" xs] by simp
      with x that show False by auto
    qed
    then show ?thesis using c mem r Some rd i by (auto simp: f best_choice_def NPROC_def)
  qed
qed


text \<open>
  C15. The processor goes to a runnable process in memory of the best priority; among several of that
  priority to the one that comes first in the ring after the process that ran last; to none only if
  none is runnable.
\<close>

theorem Select_picks_best:
  assumes "lastSelect s < NPROC" "\<forall>i < NPROC. runnable (process s ! i) \<longrightarrow> p_pri (process s ! i) \<le> 255"
  shows "best_choice (process s) (lastSelect s) (fst (Select_round s)) \<and>
    (case fst (Select_round s) of None \<Rightarrow> True
     | Some b \<Rightarrow> lastSelect (snd (Select_round s)) = b \<and> CurPri (snd (Select_round s)) = p_pri (process s ! b))"
proof -
  obtain b q where bq: "best_of (process s) (scan_order (lastSelect s)) None 256 = (b, q)" by fastforce
  have "p_pri (process s ! i) < 256" if "i < NPROC" "runnable (process s ! i)" for i using assms(2) that by force
  moreover have "q = p_pri (process s ! i)" if "b = Some i" for i
    using best_of_first [OF bq] that by (auto simp: first_best_def)
  ultimately show ?thesis
    using Select_best [OF assms(1)] bq by (auto simp: Select_round_def Let_def split: option.splits)
qed

theorem Select_picks_best_witness:
  "best_choice (process demo_pm) 0 (fst (Select_round demo_pm)) \<and> fst (Select_round demo_pm) = Some 1"
proof -
  have l: "lastSelect demo_pm = 0" by (simp add: demo_pm_def)
  have "best_choice (process demo_pm) (lastSelect demo_pm) (fst (Select_round demo_pm))"
    using Select_picks_best [of demo_pm] by (simp add: l NPROC_def demo_process(3) [unfolded NPROC_def] swapper_def user_proc_def idle_proc_def)
  moreover have "fst (Select_round demo_pm) = Some 1" by code_simp
  ultimately show ?thesis using l by simp
qed

lemma ring_nearer:
  assumes "ring_distance start b < ring_distance start j" "b < NPROC" "j < NPROC" "start < NPROC"
  shows "ring_distance b j < ring_distance start j"
proof -
  let ?d = "ring_distance start j - ring_distance start b - 1"
  have "(b + 1 + ?d) mod NPROC = (start + 1 + ring_distance start b + (1 + ?d)) mod NPROC"
    using mod_add_left_eq [of "start + 1 + ring_distance start b" NPROC "1 + ?d"] ring_inverse [OF assms(2,4)] by (simp add: add.assoc)
  also have "start + 1 + ring_distance start b + (1 + ?d) = start + 1 + ring_distance start j" using assms(1) by simp
  finally have "(b + 1 + ?d) mod NPROC = j" using ring_inverse [OF assms(3,4)] by simp
  moreover have "?d < NPROC" using ring_bound [of start j] by linarith
  ultimately have "ring_distance b j = ?d" using ring_scan [of ?d b] assms(2) by simp
  then show ?thesis using assms(1) by linarith
qed

lemma best_step:
  assumes "best_choice ps start (Some b)" "b \<noteq> j" "j < NPROC" "start < NPROC"
    and "runnable (ps ! j)" "\<forall>i < NPROC. runnable (ps ! i) \<longrightarrow> p_pri (ps ! j) \<le> p_pri (ps ! i)"
  shows "ring_distance b j < ring_distance start j"
proof -
  have b: "b < NPROC" "runnable (ps ! b)" "p_pri (ps ! b) \<le> p_pri (ps ! j)"
      "p_pri (ps ! j) = p_pri (ps ! b) \<Longrightarrow> ring_distance start b \<le> ring_distance start j"
    using assms(1,3,5) by (auto simp: best_choice_def)
  then have "ring_distance start b \<le> ring_distance start j" using assms(6) by force
  moreover have "ring_distance start b \<noteq> ring_distance start j"
    using ring_inverse [OF b(1) assms(4)] ring_inverse [OF assms(3,4)] assms(2) by auto
  ultimately show ?thesis by (intro ring_nearer [OF _ b(1) assms(3,4)]) simp
qed

text \<open>
  C14. No process of the best priority starves: a process that stays runnable in memory with no other
  runnable process of a better priority gets the processor within \<open>NPROC\<close> selections, whatever else
  happens between them.  \<open>f n\<close> is the state in which the selection number \<open>n\<close> begins.
\<close>

theorem round_robin:
  assumes "j < NPROC" "lastSelect (f 0) < NPROC"
    and "\<forall>n. lastSelect (f (Suc n)) = lastSelect (snd (Select_round (f n)))"
    and "\<forall>n. runnable (process (f n) ! j)"
    and "\<forall>n. \<forall>i < NPROC. runnable (process (f n) ! i) \<longrightarrow>
        p_pri (process (f n) ! j) \<le> p_pri (process (f n) ! i) \<and> p_pri (process (f n) ! i) \<le> 255"
  shows "\<exists>n < NPROC. fst (Select_round (f n)) = Some j"
proof (rule ccontr)
  assume no: "\<not> ?thesis"
  have step: "lastSelect (f (Suc n)) < NPROC \<and> ring_distance (lastSelect (f (Suc n))) j < ring_distance (lastSelect (f n)) j"
    if l: "lastSelect (f n) < NPROC" and n: "n < NPROC" for n
  proof -
    have "\<forall>i < NPROC. runnable (process (f n) ! i) \<longrightarrow> p_pri (process (f n) ! i) \<le> 255" using assms(5) by blast
    note pick = Select_picks_best [OF l this]
    have best: "best_choice (process (f n)) (lastSelect (f n)) (fst (Select_round (f n)))" using pick by blast
    have "fst (Select_round (f n)) \<noteq> None"
    proof
      assume "fst (Select_round (f n)) = None"
      with best have "\<not> runnable (process (f n) ! j)" using assms(1) by (simp add: best_choice_def)
      with assms(4) show False by blast
    qed
    then obtain b where b: "fst (Select_round (f n)) = Some b" by blast
    have "b < NPROC" using best b by (simp add: best_choice_def)
    moreover have "lastSelect (f (Suc n)) = b"
      using pick b spec [OF assms(3), of n] by simp
    moreover have "ring_distance b j < ring_distance (lastSelect (f n)) j"
      using best_step [OF best [unfolded b] _ assms(1) l] assms(4,5) no b n by blast
    ultimately show ?thesis by simp
  qed
  have "lastSelect (f n) < NPROC \<and> ring_distance (lastSelect (f n)) j + n < NPROC" if "n \<le> NPROC" for n
    using that
  proof (induction n)
    case 0
    then show ?case using assms(2) ring_bound [of "lastSelect (f 0)" j] by simp
  next
    case (Suc n)
    then have "lastSelect (f n) < NPROC" "ring_distance (lastSelect (f n)) j + n < NPROC" by simp_all
    with step [of n] Suc.prems show ?case by simp
  qed
  from this [of NPROC] show False by simp
qed


text \<open>Two processes of the same priority.\<close>

primrec demo_turns :: "nat \<Rightarrow> pm" where
  "demo_turns 0 = demo_pm"
| "demo_turns (Suc n) = snd (Select_round (demo_turns n))"

lemma demo_turns_process: "process (demo_turns n) = process demo_pm"
  by (induction n) (auto simp: Select_round_def Let_def split: prod.splits option.splits)

theorem round_robin_witness: "\<exists>n < NPROC. fst (Select_round (demo_turns n)) = Some 2"
proof (rule round_robin)
  show "2 < NPROC" "lastSelect (demo_turns 0) < NPROC" by (simp_all add: NPROC_def demo_pm_def)
  show "\<forall>n. lastSelect (demo_turns (Suc n)) = lastSelect (snd (Select_round (demo_turns n)))" by simp
  have r: "runnable (process demo_pm ! i) \<Longrightarrow> p_pri (process demo_pm ! i) = 100" if "i < NPROC" for i
    using that by (auto simp: demo_process(3) runnable_def swapper_def user_proc_def idle_proc_def split: if_splits)
  have two: "runnable (process demo_pm ! 2)"
    by (simp add: demo_process(3) NPROC_def runnable_def user_proc_def idle_proc_def SLOAD_def has_flag_def)
  show "\<forall>n. runnable (process (demo_turns n) ! 2)" using two by (simp add: demo_turns_process)
  show "\<forall>n. \<forall>i < NPROC. runnable (process (demo_turns n) ! i) \<longrightarrow>
        p_pri (process (demo_turns n) ! 2) \<le> p_pri (process (demo_turns n) ! i) \<and> p_pri (process (demo_turns n) ! i) \<le> 255"
    using r r [of 2] two by (simp add: demo_turns_process NPROC_def)
qed

end
