(* ===== verification/ProcInv.thy ===== *)
theory ProcInv
  imports ProcSpec
begin

text \<open>
  The process table as a state machine: every history of clock interrupts, sleeps, wake-ups, signals and
  process switches, and what stays true along it.
\<close>

section \<open>The steps\<close>

text \<open>
  The second component is a ghost: the time each process asked to be woken at when it went to sleep in
  \<open>Sys_Sslep\<close>.  A switch gives the processor to the process that \<open>Select\<close> picks, whose signal table is
  then in the user structure.
\<close>

definition table_ok :: "u32 list \<Rightarrow> bool" where
  "table_ok tab \<longleftrightarrow> length tab = nat NSIG \<and> tab ! nat SIGKILL = 0"

inductive sched_step :: "'a pm_scheme \<times> (nat \<Rightarrow> int) \<Rightarrow> 'a pm_scheme \<times> (nat \<Rightarrow> int) \<Rightarrow> bool" where
  clock: "Clock user s = Done (False, t) \<Longrightarrow> sched_step (s, W) (t, W)"
| sleep: "Sleep (u_procp s) chan pri s = Done (r, t) \<Longrightarrow> pri \<le> 255 \<Longrightarrow> chan \<noteq> AtTout \<Longrightarrow> sched_step (s, W) (t, W)"
| sslep: "Sslep_round w s = Done (r, t) \<Longrightarrow> sched_step (s, W) (t, if r then W(u_procp s := w) else W)"
| wakeup: "sched_step (s, W) (WakeUpAll chan s, W)"
| psignal: "i < NPROC \<Longrightarrow> sched_step (s, W) (PSignal i sig s, W)"
| kill: "sched_step (s, W) (Kill pid sig s, W)"
| signal: "sched_step (s, W) (Signal tty sig s, W)"
| psig: "PSig (u_procp s) s = Done (False, t) \<Longrightarrow> sched_step (s, W) (t, W)"
| ssig: "sched_step (s, W) (Ssig n func s, W)"
| nice: "sched_step (s, W) (Nice v s, W)"
| setpri: "sched_step (s, W) (SetPri (u_procp s) s, W)"
| switch: "Select_round s = (Some b, t) \<Longrightarrow> table_ok tab \<Longrightarrow> sched_step (s, W) (t\<lparr>u_procp := b, u_signal := tab\<rparr>, W)"

section \<open>Bounds\<close>

definition proc_ok :: "proc \<Rightarrow> bool" where
  "proc_ok p \<longleftrightarrow> p_pri p \<le> 255 \<and> 0 \<le> p_cpu p \<and> p_cpu p \<le> 1024 \<and> p_nice p \<le> 20 \<and> p_time p \<le> 127"

definition sched_ok :: "'a pm_scheme \<Rightarrow> bool" where
  "sched_ok s \<longleftrightarrow> length (process s) = NPROC \<and> u_procp s < NPROC \<and> table_ok (u_signal s) \<and>
     (\<forall>i < NPROC. proc_ok (process s ! i))"

text \<open>
  Most operations leave the times, the current process and its signal table alone, put nobody to sleep
  on the clock, keep a pending \<open>SIGKILL\<close>, and keep the bounds.
\<close>

definition calm_proc :: "proc \<Rightarrow> proc \<Rightarrow> bool" where
  "calm_proc p q \<longleftrightarrow> (IsSleepOn q AtTout \<longrightarrow> IsSleepOn p AtTout) \<and> (p_sig p = SIGKILL \<longrightarrow> p_sig q = SIGKILL) \<and> (proc_ok p \<longrightarrow> proc_ok q)"

definition calm :: "'a pm_scheme \<Rightarrow> 'a pm_scheme \<Rightarrow> bool" where
  "calm s t \<longleftrightarrow> length (process t) = length (process s) \<and> ktime t = ktime s \<and> tout t = tout s \<and> u_procp t = u_procp s \<and>
     (table_ok (u_signal s) \<longrightarrow> table_ok (u_signal t)) \<and>
     (\<forall>k < length (process s). calm_proc (process s ! k) (process t ! k))"

lemma calm_proc_refl [simp]: "calm_proc p p"
  by (simp add: calm_proc_def)

lemma calm_proc_trans: "calm_proc p q \<Longrightarrow> calm_proc q r \<Longrightarrow> calm_proc p r"
  by (auto simp: calm_proc_def)

lemma calm_refl [simp]: "calm s s"
  by (simp add: calm_def)

lemma calm_trans: "calm s t \<Longrightarrow> calm t u \<Longrightarrow> calm s u"
  unfolding calm_def by (auto intro: calm_proc_trans)

lemma calm_same:
  "process t = process s \<Longrightarrow> ktime t = ktime s \<Longrightarrow> tout t = tout s \<Longrightarrow> u_procp t = u_procp s \<Longrightarrow> u_signal t = u_signal s \<Longrightarrow> calm s t"
  by (simp add: calm_def)

lemma calm_set: "calm_proc (process s ! i) p \<Longrightarrow> calm s (set_proc i p s)"
proof -
  assume "calm_proc (process s ! i) p"
  then have "calm_proc (process s ! k) ((process s)[i := p] ! k)" if "k < length (process s)" for k
    using that by (cases "k = i") auto
  then show ?thesis by (simp add: calm_def)
qed

lemma calm_upd:
  "calm u s \<Longrightarrow> process t = process s \<Longrightarrow> ktime t = ktime s \<Longrightarrow> tout t = tout s \<Longrightarrow> u_procp t = u_procp s \<Longrightarrow>
   (table_ok (u_signal s) \<Longrightarrow> table_ok (u_signal t)) \<Longrightarrow> calm u t"
  by (simp add: calm_def)

lemma calm_woken [simp]: "calm_proc p (woken p)"
  by (simp add: calm_proc_def proc_ok_def woken_def IsSleepOn_def)

lemma calm_wake: "length (process s) = NPROC \<Longrightarrow> calm s (WakeUpAll chan s)"
  by (simp add: calm_def WakeUpAll_process)

lemma calm_SetRun: "length (process s) = NPROC \<Longrightarrow> i < NPROC \<Longrightarrow> calm s (SetRun i s)"
  by (simp add: calm_def SetRun_process)

definition signalled :: "int \<Rightarrow> proc \<Rightarrow> proc" where
  "signalled sig p = p\<lparr>p_sig := (if p_sig p \<noteq> SIGKILL then sig else p_sig p), p_pri := min (p_pri p) PUSER\<rparr>"

lemma signalled_eq:
  "(if p_pri (if p_sig p \<noteq> SIGKILL then p\<lparr>p_sig := sig\<rparr> else p) > PUSER
    then (if p_sig p \<noteq> SIGKILL then p\<lparr>p_sig := sig\<rparr> else p)\<lparr>p_pri := PUSER\<rparr>
    else (if p_sig p \<noteq> SIGKILL then p\<lparr>p_sig := sig\<rparr> else p)) = signalled sig p"
  by (cases p) (simp add: signalled_def min_def)

lemma PSignal_eq:
  "PSignal i sig s =
    (if sig \<ge> NSIG then s
     else let t = set_proc i (signalled sig (process s ! i)) s
       in if p_stat (process s ! i) = SWAIT then SetRun i t else t)"
  unfolding PSignal_def Let_def signalled_eq by (simp add: signalled_def)

lemma calm_signalled [simp]: "calm_proc p (signalled sig p)"
  by (auto simp: calm_proc_def proc_ok_def signalled_def IsSleepOn_def)

lemma calm_PSignal: "length (process s) = NPROC \<Longrightarrow> i < NPROC \<Longrightarrow> calm s (PSignal i sig s)"
  by (auto simp: PSignal_eq Let_def intro!: calm_set intro: calm_trans [OF calm_set calm_SetRun])

lemma calm_SetPri: "calm s (SetPri i s)"
  by (auto simp: SetPri_def Let_def calm_proc_def proc_ok_def IsSleepOn_def
      intro!: calm_set calm_trans [OF calm_same calm_set])

definition aged :: "proc \<Rightarrow> proc" where
  "aged p = p\<lparr>p_time := min (p_time p + 1) 127, p_cpu := (if p_cpu p > SCHMAG then p_cpu p - SCHMAG else 0)\<rparr>"

lemma age_eq:
  "age i s =
    (if p_stat (process s ! i) = SNULL then s
     else let t = set_proc i (aged (process s ! i)) s in if p_pri (process s ! i) > PUSER then SetPri i t else t)"
  by (simp add: age_def aged_def Let_def)

lemma calm_age: "calm s (age i s)"
  by (auto simp: age_eq Let_def aged_def calm_proc_def proc_ok_def IsSleepOn_def SCHMAG_def
      intro!: calm_set calm_trans [OF calm_set calm_SetPri])

text \<open>The loops over the table.\<close>

lemma calm_age_all: "calm s (age_all is s)"
  by (induction "is" arbitrary: s) (auto intro: calm_trans [OF calm_age])

lemma calm_len: "calm s t \<Longrightarrow> length (process t) = length (process s)"
  by (simp add: calm_def)

lemma kill_loop_rule:
  assumes "\<And>t i. P t \<Longrightarrow> i < NPROC \<Longrightarrow> P (PSignal i sig t)" "set is \<subseteq> {..<NPROC}" "P s"
  shows "P (snd (kill_loop pid sig is flag s))"
  using assms(2,3) by (induction "is" arbitrary: flag s) (auto intro: assms(1))

lemma signal_loop_rule:
  assumes "\<And>t i. P t \<Longrightarrow> i < NPROC \<Longrightarrow> P (PSignal i sig t)" "set is \<subseteq> {..<NPROC}" "P s"
  shows "P (signal_loop tty sig is s)"
  using assms(2,3) by (induction "is" arbitrary: s) (auto intro: assms(1))

lemma upt_proc: "set [0..<NPROC] \<subseteq> {..<NPROC}"
  by auto

lemma calm_signal_step:
  "length (process t) = NPROC \<and> calm s t \<Longrightarrow> i < NPROC \<Longrightarrow>
   length (process (PSignal i sig t)) = NPROC \<and> calm s (PSignal i sig t)"
  using calm_PSignal [of t i sig] calm_len [OF calm_PSignal [of t i sig]] by (blast intro: calm_trans dest: trans)

lemma calm_Kill:
  assumes "length (process s) = NPROC"
  shows "calm s (Kill pid sig s)"
proof -
  have "calm s (snd (kill_loop pid sig [0..<NPROC] False s))"
    using kill_loop_rule [where P = "\<lambda>t. length (process t) = NPROC \<and> calm s t", OF calm_signal_step upt_proc] assms by simp
  then show ?thesis by (auto simp: Kill_def Let_def split: prod.splits intro: calm_upd)
qed

lemma calm_Signal:
  assumes "length (process s) = NPROC"
  shows "calm s (Signal tty sig s)"
  using signal_loop_rule [where P = "\<lambda>t. length (process t) = NPROC \<and> calm s t", OF calm_signal_step upt_proc] assms
  by (simp add: Signal_def)

lemma calm_Nice: "calm s (Nice v s)"
  by (auto simp: Nice_def SUser_def Let_def calm_proc_def proc_ok_def IsSleepOn_def intro!: calm_set calm_trans [OF calm_same calm_set])

lemma calm_drop: "p_sig p \<noteq> SIGKILL \<Longrightarrow> calm_proc p (p\<lparr>p_sig := 0\<rparr>)"
  by (simp add: calm_proc_def proc_ok_def IsSleepOn_def)

lemma table_set: "table_ok tab \<Longrightarrow> 0 < n \<Longrightarrow> n \<noteq> SIGKILL \<or> func = 0 \<Longrightarrow> table_ok (tab[nat n := func])"
  by (cases "n = SIGKILL") (auto simp: table_ok_def SIGKILL_def NSIG_def)

lemma calm_Ssig: "calm s (Ssig n func s)"
proof (cases "n \<le> 0 \<or> n \<ge> NSIG \<or> n = SIGKILL")
  case True
  then show ?thesis by (auto simp: Ssig_def intro: calm_same)
next
  case False
  let ?u = "s\<lparr>u_eax := uint (u_signal s ! nat n), u_signal := (u_signal s)[nat n := func]\<rparr>"
  have "calm s ?u" using False by (intro calm_upd [OF calm_refl]) (auto intro!: table_set)
  moreover have "calm ?u (set_proc (u_procp s) ((process s ! u_procp s)\<lparr>p_sig := 0\<rparr>) ?u)"
    if "p_sig (process s ! u_procp s) = n" using that False by (intro calm_set) (simp add: calm_drop)
  ultimately show ?thesis using False by (auto simp: Ssig_def Let_def intro: calm_trans)
qed

lemma calm_PSig:
  assumes "table_ok (u_signal s)" "PSig i s = Done (False, t)"
  shows "calm s t"
proof -
  let ?sig = "p_sig (process s ! i)" and ?s = "set_proc i ((process s ! i)\<lparr>p_sig := 0\<rparr>) s"
  have sig: "0 \<le> ?sig" "u_signal s ! nat ?sig \<noteq> 0" "process t = process ?s" "ktime t = ktime s" "tout t = tout s"
    "u_procp t = u_procp s" "u_signal t = (u_signal s)[nat ?sig := 0]"
    using assms(2) by (auto simp: PSig_def Let_def split: if_splits)
  then have "?sig \<noteq> SIGKILL" using assms(1) by (auto simp: table_ok_def)
  moreover have "table_ok (u_signal t)"
    using sig assms(1) by (cases "nat ?sig = nat SIGKILL") (auto simp: table_ok_def)
  ultimately have "?sig \<noteq> SIGKILL" "table_ok (u_signal t)" .
  then show ?thesis using sig by (auto intro!: calm_upd [OF calm_set [OF calm_drop]])
qed

lemma calm_Sleep:
  assumes "length (process s) = NPROC" "pri \<le> 255" "chan \<noteq> AtTout" "Sleep i chan pri s = Done (r, t)"
  shows "calm s t"
proof -
  have c: "calm s (set_proc i ((process s ! i)\<lparr>p_wchan := chan, p_stat := st, p_pri := pri\<rparr>) s)" for st
    using assms(2,3) by (auto intro!: calm_set simp: calm_proc_def proc_ok_def IsSleepOn_def)
  have "calm s (WakeUpAll AtRunIn (u\<lparr>RunIn := 0\<rparr>))" if "calm s u" for u
    using that calm_len [OF that] assms(1) calm_trans [OF that calm_trans [OF calm_same calm_wake]] by simp
  then show ?thesis using assms(4) c by (auto simp: Sleep_def Let_def kbind_Done split: if_splits)
qed


section \<open>The invariant\<close>

text \<open>
  Bounds and sizes; a process that sleeps on the clock will be woken in time: the next alarm \<open>tout\<close> lies
  in the future and not behind its wake time; the processes of \<open>D\<close> have a pending \<open>SIGKILL\<close>.
\<close>

definition on_time :: "(nat \<Rightarrow> int) \<Rightarrow> 'a pm_scheme \<Rightarrow> bool" where
  "on_time W s \<longleftrightarrow> (\<forall>i < NPROC. IsSleepOn (process s ! i) AtTout \<longrightarrow> ktime s < tout s \<and> tout s \<le> W i)"

definition sched_inv :: "nat set \<Rightarrow> (nat \<Rightarrow> int) \<Rightarrow> 'a pm_scheme \<Rightarrow> bool" where
  "sched_inv D W s \<longleftrightarrow> sched_ok s \<and> on_time W s \<and> (\<forall>i < NPROC. i \<in> D \<longrightarrow> p_sig (process s ! i) = SIGKILL)"

lemma calm_inv: "sched_inv D W s \<Longrightarrow> calm s t \<Longrightarrow> sched_inv D W t"
  by (auto simp: sched_inv_def sched_ok_def on_time_def calm_def calm_proc_def)

lemma inv_len: "sched_inv D W s \<Longrightarrow> length (process s) = NPROC"
  by (simp add: sched_inv_def sched_ok_def)

lemma inv_table: "sched_inv D W s \<Longrightarrow> table_ok (u_signal s)"
  by (simp add: sched_inv_def sched_ok_def)

lemma inv_same:
  "sched_inv D W s \<Longrightarrow> process t = process s \<Longrightarrow> u_procp t = u_procp s \<Longrightarrow> u_signal t = u_signal s \<Longrightarrow>
   ktime t = ktime s \<Longrightarrow> tout t = tout s \<Longrightarrow> sched_inv D W t"
  by (simp add: sched_inv_def sched_ok_def on_time_def)

lemma wake_tout: "length (process s) = NPROC \<Longrightarrow> i < NPROC \<Longrightarrow> \<not> IsSleepOn (process (WakeUpAll AtTout s) ! i) AtTout"
  by (simp add: WakeUpAll_process)

lemma inv_tick:
  assumes "sched_inv D W s" "process t = process s" "u_procp t = u_procp s" "u_signal t = u_signal s" "tout t = tout s"
    "ktime t = ktime s + 1"
  shows "sched_inv D W (if ktime t = tout t then WakeUpAll AtTout t else t)"
proof (cases "ktime t = tout t")
  case True
  have l: "length (process t) = NPROC" using assms(1,2) inv_len by simp
  have c: "calm t (WakeUpAll AtTout t)" by (rule calm_wake [OF l])
  have "on_time W (WakeUpAll AtTout t)" using wake_tout [OF l] by (simp add: on_time_def)
  moreover have "sched_ok (WakeUpAll AtTout t)" "\<forall>i < NPROC. i \<in> D \<longrightarrow> p_sig (process (WakeUpAll AtTout t) ! i) = SIGKILL"
    using assms(1-4) c l by (auto simp: sched_inv_def sched_ok_def calm_def calm_proc_def)
  ultimately show ?thesis using True by (simp add: sched_inv_def)
next
  case False
  then have "on_time W t" using assms by (force simp: sched_inv_def on_time_def)
  then show ?thesis using False assms by (simp add: sched_inv_def sched_ok_def)
qed

lemma inv_second:
  assumes "sched_inv D W s" "second user s = Done (False, t)"
  shows "sched_inv D W t"
proof -
  let ?s0 = "s\<lparr>lbolt := lbolt s - HZ, ktime := ktime s + 1\<rparr>"
  let ?s1 = "if ktime ?s0 = tout ?s0 then WakeUpAll AtTout ?s0 else ?s0"
  let ?s2 = "age_all [0..<NPROC] ?s1"
  let ?s3 = "if RunIn ?s2 \<noteq> 0 then WakeUpAll AtRunIn (?s2\<lparr>RunIn := 0\<rparr>) else ?s2"
  have s1: "sched_inv D W ?s1" by (rule inv_tick [OF assms(1)]) simp_all
  have s2: "sched_inv D W ?s2" by (rule calm_inv [OF s1 calm_age_all])
  have "sched_inv D W (?s2\<lparr>RunIn := 0\<rparr>)" by (rule inv_same [OF s2]) simp_all
  from calm_inv [OF this calm_wake [OF inv_len [OF this]]] s2
  have s3: "sched_inv D W ?s3" by (simp split: if_splits)
  have "second user s = (if user
         then kbind (IsSig (u_procp ?s3) ?s3) (\<lambda>sig.
              kbind (if sig \<noteq> 0 then PSig (u_procp ?s3) ?s3 else Done (False, ?s3)) (\<lambda>(ends, s).
              Done (ends, if ends then s else SetPri (u_procp s) s)))
         else Done (False, ?s3))"
    unfolding second_def Let_def by simp
  with s3 obtain u where u: "sched_inv D W u" and eq: "second user s = (if user
         then kbind (IsSig (u_procp u) u) (\<lambda>sig.
              kbind (if sig \<noteq> 0 then PSig (u_procp u) u else Done (False, u)) (\<lambda>(ends, s).
              Done (ends, if ends then s else SetPri (u_procp s) s)))
         else Done (False, u))" by blast
  from assms(2) eq consider "t = u" | "t = SetPri (u_procp u) u" | v where "PSig (u_procp u) u = Done (False, v)" "t = SetPri (u_procp v) v"
    by (auto simp: kbind_Done split: if_splits)
  then show ?thesis
  proof cases
    case 3
    from calm_inv [OF u calm_PSig [OF inv_table [OF u] 3(1)]] show ?thesis
      unfolding 3(2) by (rule calm_inv [OF _ calm_SetPri])
  qed (use u calm_inv [OF u calm_SetPri] in simp_all)
qed

lemma inv_Clock:
  assumes "sched_inv D W s" "Clock user s = Done (False, t)"
  shows "sched_inv D W t"
proof -
  let ?s0 = "if user then s\<lparr>u_utime := u_utime s + 1\<rparr> else s\<lparr>u_stime := u_stime s + 1\<rparr>"
  let ?i = "u_procp ?s0"
  let ?s1 = "set_proc ?i ((process ?s0 ! ?i)\<lparr>p_cpu := min (p_cpu (process ?s0 ! ?i) + 1) 1024\<rparr>) ?s0"
  let ?s2 = "?s1\<lparr>lbolt := lbolt ?s1 + 1\<rparr>"
  have s0: "sched_inv D W ?s0" by (rule inv_same [OF assms(1)]) simp_all
  have s1: "sched_inv D W ?s1"
    by (rule calm_inv [OF s0 calm_set]) (auto simp: calm_proc_def proc_ok_def IsSleepOn_def)
  have s2: "sched_inv D W ?s2" by (rule inv_same [OF s1]) simp_all
  have "Clock user s = (if lbolt ?s2 < HZ then Done (False, ?s2)
         else if p_stat (process ?s2 ! ?i) = SRUN \<and> \<not> user then Done (False, ?s2)
         else second user ?s2)"
    unfolding Clock_def Let_def by simp
  then consider "t = ?s2" | "second user ?s2 = Done (False, t)" using assms(2) by (auto split: if_splits)
  then show ?thesis using s2 inv_second [OF s2] by cases simp_all
qed


lemma sleep_out:
  "kbind c (\<lambda>sig. if sig \<noteq> 0 then Done (False, a) else Done (True, b)) = Done (r, t) \<Longrightarrow> (\<not> r \<and> t = a) \<or> (r \<and> t = b)"
  by (auto simp: kbind_Done split: if_splits)

lemma inv_doze:
  assumes u: "sched_inv D W u" "ktime u < tout u" "tout u \<le> w" "i = u_procp u"
  shows "sched_inv D (W(i := w)) (set_proc i ((process u ! i)\<lparr>p_wchan := AtTout, p_stat := SWAIT, p_pri := PSLEP\<rparr>) u)"
proof -
  let ?p = "(process u ! i)\<lparr>p_wchan := AtTout, p_stat := SWAIT, p_pri := PSLEP\<rparr>"
  have i: "i < NPROC" "length (process u) = NPROC" using u by (simp_all add: sched_inv_def sched_ok_def)
  have "sched_ok (set_proc i ?p u)"
    using u(1) i by (auto simp: sched_inv_def sched_ok_def nth_list_update proc_ok_def PSLEP_def)
  moreover have "on_time (W(i := w)) (set_proc i ?p u)"
    using u i by (auto simp: sched_inv_def on_time_def nth_list_update)
  moreover have "p_sig (process (set_proc i ?p u) ! k) = SIGKILL" if "k < NPROC" "k \<in> D" for k
    using u(1) i that by (auto simp: sched_inv_def nth_list_update)
  ultimately show ?thesis by (simp add: sched_inv_def)
qed

lemma inv_Sleep_tout:
  assumes u: "sched_inv D W u" "ktime u < tout u" "tout u \<le> w" "i = u_procp u" and s: "Sleep i AtTout PSLEP u = Done (r, t)"
  shows "sched_inv D (if r then W(i := w) else W) t"
proof -
  let ?v = "set_proc i ((process u ! i)\<lparr>p_wchan := AtTout, p_stat := SWAIT, p_pri := PSLEP\<rparr>) u"
  have v: "sched_inv D (W(i := w)) ?v" by (rule inv_doze [OF u])
  then have "sched_inv D (W(i := w)) (?v\<lparr>RunIn := 0\<rparr>)" by (rule inv_same) simp_all
  from calm_inv [OF this calm_wake [OF inv_len [OF this]], of AtRunIn]
  have v': "sched_inv D (W(i := w)) (WakeUpAll AtRunIn (?v\<lparr>RunIn := 0\<rparr>))" .
  have "Sleep i AtTout PSLEP u = kbind (IsSig i u) (\<lambda>sig. if sig \<noteq> 0 then Done (False, u)
      else Done (True, if RunIn ?v \<noteq> 0 then WakeUpAll AtRunIn (?v\<lparr>RunIn := 0\<rparr>) else ?v))"
    unfolding Sleep_def Let_def by (simp add: PSLEP_def)
  then have o: "(\<not> r \<and> t = u) \<or> (r \<and> t = (if RunIn ?v \<noteq> 0 then WakeUpAll AtRunIn (?v\<lparr>RunIn := 0\<rparr>) else ?v))"
    using s by (intro sleep_out) simp
  show ?thesis
  proof (cases r)
    case False
    then show ?thesis using o u(1) by simp
  next
    case True
    then have t: "t = (if RunIn ?v \<noteq> 0 then WakeUpAll AtRunIn (?v\<lparr>RunIn := 0\<rparr>) else ?v)" using o by blast
    show ?thesis unfolding t if_P [OF True] using v v' by (cases "RunIn ?v \<noteq> 0") (simp_all only: if_True if_False not_False_eq_True simp_thms)
  qed
qed

lemma inv_Sslep:
  assumes "sched_inv D W s" "Sslep_round w s = Done (r, t)"
  shows "sched_inv D (if r then W(u_procp s := w) else W) t"
proof (cases "w > ktime s")
  case False
  then show ?thesis using assms by (auto simp: Sslep_round_def)
next
  case True
  let ?u = "if tout s \<le> ktime s \<or> tout s > w then s\<lparr>tout := w\<rparr> else s"
  have u: "sched_inv D W ?u" "ktime ?u < tout ?u" "tout ?u \<le> w" "u_procp s = u_procp ?u"
    using assms(1) True by (auto simp: sched_inv_def sched_ok_def on_time_def)
  show ?thesis by (rule inv_Sleep_tout [OF u]) (use assms(2) True in \<open>auto simp: Sslep_round_def Let_def split: if_splits\<close>)
qed

lemma inv_Sleep:
  assumes "sched_inv D W s" "Sleep i chan pri s = Done (r, t)" "pri \<le> 255" "chan \<noteq> AtTout"
  shows "sched_inv D W t"
  by (rule calm_inv [OF assms(1) calm_Sleep [OF inv_len [OF assms(1)] assms(3,4,2)]])

lemma inv_switch:
  assumes "sched_inv D W s" "Select_round s = (Some b, t)" "table_ok tab"
  shows "sched_inv D W (t\<lparr>u_procp := b, u_signal := tab\<rparr>)"
proof -
  obtain q where "best_of (process s) (scan_order (lastSelect s)) None 256 = (Some b, q)"
    using assms(2) by (auto simp: Select_round_def Let_def split: prod.splits option.splits)
  from best_of_first [OF this] have "b \<in> set (scan_order (lastSelect s))" by (auto simp: first_best_def)
  then have "b < NPROC" by (auto simp: scan_order_def NPROC_def)
  moreover have "process t = process s" "ktime t = ktime s" "tout t = tout s"
    using assms(2) by (auto simp: Select_round_def Let_def split: prod.splits option.splits)
  ultimately show ?thesis using assms(1,3) by (simp add: sched_inv_def sched_ok_def on_time_def)
qed

lemma sched_step_inv:
  assumes "sched_step x y" "sched_inv D (snd x) (fst x)"
  shows "sched_inv D (snd y) (fst y)"
  using assms
proof (induction rule: sched_step.induct)
  case (psignal i s W sig)
  then show ?case using calm_inv [OF _ calm_PSignal [OF inv_len]] by simp
next
  case (psig s t W)
  then show ?case using calm_inv [OF _ calm_PSig [OF inv_table]] by simp
next
  case (sslep w s r t W)
  then show ?case using inv_Sslep [of D W s w r t] by simp
qed (auto intro: inv_Clock inv_Sleep inv_switch calm_inv [OF _ calm_wake] calm_inv [OF _ calm_Kill]
    calm_inv [OF _ calm_Signal] calm_inv [OF _ calm_Ssig] calm_inv [OF _ calm_Nice] calm_inv [OF _ calm_SetPri] dest: inv_len)

definition history :: "'a pm_scheme \<times> (nat \<Rightarrow> int) \<Rightarrow> 'a pm_scheme \<times> (nat \<Rightarrow> int) \<Rightarrow> bool" where
  "history = sched_step\<^sup>*\<^sup>*"

lemma history_inv: "history x y \<Longrightarrow> sched_inv D (snd x) (fst x) \<Longrightarrow> sched_inv D (snd y) (fst y)"
  unfolding history_def by (induction rule: rtranclp_induct) (auto intro: sched_step_inv)


section \<open>What holds along every history\<close>

definition fresh_table :: "'a pm_scheme \<Rightarrow> bool" where
  "fresh_table s \<longleftrightarrow> sched_ok s \<and> (\<forall>p \<in> set (process s). \<not> IsSleepOn p AtTout)"

lemma fresh_inv: "fresh_table s \<Longrightarrow> sched_inv {} W s"
  by (simp add: fresh_table_def sched_inv_def on_time_def sched_ok_def)

text \<open>A short history: process 1 goes to sleep for five seconds, process 2 runs and signals it, the clock ticks.\<close>

lemma demo_fresh: "fresh_table demo_pm"
  unfolding fresh_table_def sched_ok_def
  by (auto simp: demo_process proc_ok_def table_ok_def IsSleepOn_def swapper_def user_proc_def idle_proc_def NPROC_def NSIG_def
      SIGKILL_def demo_pm_def nth_Cons' split: if_splits)

definition demo_slept :: pm where
  "demo_slept = (case Sslep_round 12 demo_pm of Done (r, t) \<Rightarrow> t | _ \<Rightarrow> demo_pm)"

lemma demo_slept:
  "Sslep_round 12 demo_pm = Done (True, demo_slept)" "IsSleepOn (process demo_slept ! 1) AtTout" "ktime demo_slept = 7"
proof -
  have "case Sslep_round 12 demo_pm of Done (r, t) \<Rightarrow> r | _ \<Rightarrow> False" by code_simp
  then show "Sslep_round 12 demo_pm = Done (True, demo_slept)"
    unfolding demo_slept_def by (auto split: kcall.splits)
  show "IsSleepOn (process demo_slept ! 1) AtTout" "ktime demo_slept = 7" by code_simp+
qed

lemma demo_history: "history (demo_pm, \<lambda>i. 0) (demo_slept, (\<lambda>i. 0)(1 := 12))"
proof -
  have "sched_step (demo_pm, \<lambda>i. 0) (demo_slept, if True then (\<lambda>i. 0)(u_procp demo_pm := 12) else (\<lambda>i. 0))"
    by (rule sched_step.sslep [OF demo_slept(1)])
  moreover have "u_procp demo_pm = 1" by (simp add: demo_pm_def)
  ultimately show ?thesis by (simp add: history_def r_into_rtranclp)
qed

text \<open>
  C18. Priorities and the counters they are computed from stay in range: no priority is worse than 255, so
  that every runnable process can be selected, and no history of signals, sleeps and clock interrupts
  lets the processor time that counts against a process grow without bound.
\<close>

theorem priorities_bounded:
  assumes "fresh_table s0" "history (s0, W0) (s, W)" "i < NPROC"
  shows "p_pri (process s ! i) \<le> 255 \<and> 0 \<le> p_cpu (process s ! i) \<and> p_cpu (process s ! i) \<le> 1024 \<and>
    p_nice (process s ! i) \<le> 20 \<and> p_time (process s ! i) \<le> 127"
  using history_inv [OF assms(2), of "{}"] fresh_inv [OF assms(1)] assms(3) by (simp add: sched_inv_def sched_ok_def proc_ok_def)

theorem priorities_bounded_witness: "p_pri (process demo_slept ! 1) \<le> 255 \<and> p_pri (process demo_slept ! 1) = 90"
proof -
  have "p_pri (process demo_slept ! 1) = 90" by code_simp
  then show ?thesis using priorities_bounded [OF demo_fresh demo_history, of 1] by (simp add: NPROC_def)
qed

text \<open>
  C16. Timed sleeps end: although all sleepers share the one alarm \<open>Time::tout\<close>, a process that still sleeps
  on the clock has its wake time in the future, whatever other processes sleep, are woken or signalled.
\<close>

theorem nobody_oversleeps:
  assumes "fresh_table s0" "history (s0, W0) (s, W)" "i < NPROC" "IsSleepOn (process s ! i) AtTout"
  shows "ktime s < W i"
proof -
  have "on_time W s" using history_inv [OF assms(2), of "{}"] fresh_inv [OF assms(1)] by (simp add: sched_inv_def)
  with assms(3,4) show ?thesis by (fastforce simp: on_time_def)
qed

theorem nobody_oversleeps_witness: "ktime demo_slept < 12 \<and> IsSleepOn (process demo_slept ! 1) AtTout"
  using nobody_oversleeps [OF demo_fresh demo_history, of 1] demo_slept(2) by (simp add: NPROC_def)

text \<open>
  C17. \<open>SIGKILL\<close> cannot be avoided: once it was sent it stays pending, whatever other signals arrive and
  whatever handlers the process installs, and the next time the process looks for signals it ends.
\<close>

theorem SIGKILL_is_final:
  assumes "fresh_table s0" "history (s0, W0) (s1, W1)" "i < NPROC" "history (PSignal i SIGKILL s1, W1) (s, W)"
  shows "IsSig i s = Done SIGKILL \<and> (\<exists>t. PSig i s = Done (True, t))"
proof -
  have inv: "sched_inv {} W1 s1" using history_inv [OF assms(2), of "{}"] fresh_inv [OF assms(1)] by simp
  have len: "length (process s1) = NPROC" by (rule inv_len [OF inv])
  have sg: "p_sig (signalled SIGKILL p) = SIGKILL" for p by (simp add: signalled_def)
  have "p_sig (process (PSignal i SIGKILL s1) ! i) = SIGKILL"
  proof -
    have "\<not> SIGKILL \<ge> NSIG" by (simp add: SIGKILL_def NSIG_def)
    then show ?thesis using len assms(3) by (auto simp: PSignal_eq Let_def SetRun_process sg woken_def)
  qed
  then have "sched_inv {i} W1 (PSignal i SIGKILL s1)"
    using calm_inv [OF inv calm_PSignal [OF len assms(3)]] by (simp add: sched_inv_def)
  from history_inv [OF assms(4), of "{i}"] this have "p_sig (process s ! i) = SIGKILL" "table_ok (u_signal s)"
    using assms(3) by (simp_all add: sched_inv_def sched_ok_def)
  then show ?thesis by (simp add: IsSig_def PSig_def table_ok_def SIGKILL_def NSIG_def)
qed

theorem SIGKILL_is_final_witness:
  "IsSig 1 (PSignal 1 3 (PSignal 1 SIGKILL demo_slept)) = Done SIGKILL \<and>
   (\<exists>t. PSig 1 (PSignal 1 3 (PSignal 1 SIGKILL demo_slept)) = Done (True, t))"
proof -
  have "history (PSignal 1 SIGKILL demo_slept, (\<lambda>i. 0)(1 := 12)) (PSignal 1 3 (PSignal 1 SIGKILL demo_slept), (\<lambda>i. 0)(1 := 12))"
    unfolding history_def by (rule r_into_rtranclp, rule sched_step.psignal) (simp add: NPROC_def)
  from SIGKILL_is_final [OF demo_fresh demo_history _ this] show ?thesis by (simp add: NPROC_def)
qed

section \<open>Setting the time\<close>

definition strands :: "nat \<Rightarrow> 'a pm_scheme \<Rightarrow> bool" where
  "strands i s \<longleftrightarrow> IsSleepOn (process s ! i) AtTout \<and> tout s \<le> ktime s \<and> length (process s) = NPROC \<and> i \<noteq> u_procp s"

lemma strands_same:
  "strands i s \<Longrightarrow> process t ! i = process s ! i \<Longrightarrow> length (process t) = length (process s) \<Longrightarrow> tout t = tout s \<Longrightarrow>
   ktime s \<le> ktime t \<Longrightarrow> u_procp t = u_procp s \<Longrightarrow> strands i t"
  by (auto simp: strands_def)

lemma strands_set:
  "strands i s \<Longrightarrow> (k = i \<Longrightarrow> i < NPROC \<Longrightarrow> IsSleepOn p AtTout) \<Longrightarrow> i < NPROC \<Longrightarrow> strands i (set_proc k p s)"
  by (cases "k = i") (auto simp: strands_def)

lemma strands_wake: "strands i s \<Longrightarrow> i < NPROC \<Longrightarrow> chan \<noteq> AtTout \<Longrightarrow> strands i (WakeUpAll chan s)"
  by (auto simp: strands_def WakeUpAll_process IsSleepOn_def)

lemma strands_SetPri:
  assumes "strands i s" "i < NPROC"
  shows "strands i (SetPri k s)"
proof -
  have "strands i (set_proc k ((process s ! k)\<lparr>p_pri := v\<rparr>) u)" if "strands i u" "process u = process s" for u v
    using that assms by (intro strands_set) (auto simp: strands_def IsSleepOn_def)
  moreover have "strands i (s\<lparr>RunRun := n\<rparr>)" for n using assms(1) by (rule strands_same) simp_all
  ultimately show ?thesis using assms(1) by (auto simp: SetPri_def Let_def)
qed

lemma strands_age: "strands i s \<Longrightarrow> i < NPROC \<Longrightarrow> strands i (age k s)"
  by (auto simp: age_eq Let_def intro!: strands_SetPri strands_set) (auto simp: strands_def IsSleepOn_def aged_def)

lemma strands_age_all: "strands i s \<Longrightarrow> i < NPROC \<Longrightarrow> strands i (age_all is s)"
  by (induction "is" arbitrary: s) (auto intro: strands_age)

lemma strands_PSig: "strands i s \<Longrightarrow> k \<noteq> i \<Longrightarrow> PSig k s = Done (r, t) \<Longrightarrow> strands i t"
  by (auto simp: PSig_def Let_def split: if_splits elim!: strands_same)

lemma strands_second:
  assumes "strands i s" "i < NPROC" "second user s = Done (r, t)"
  shows "strands i t"
proof -
  let ?s0 = "s\<lparr>lbolt := lbolt s - HZ, ktime := ktime s + 1\<rparr>"
  let ?s2 = "age_all [0..<NPROC] ?s0"
  let ?s3 = "if RunIn ?s2 \<noteq> 0 then WakeUpAll AtRunIn (?s2\<lparr>RunIn := 0\<rparr>) else ?s2"
  have ne: "ktime ?s0 \<noteq> tout ?s0" using assms(1) by (simp add: strands_def)
  have "strands i ?s0" using assms(1) by (rule strands_same) simp_all
  then have s2: "strands i ?s2" using strands_age_all assms(2) by blast
  then have "strands i (?s2\<lparr>RunIn := 0\<rparr>)" by (rule strands_same) simp_all
  with s2 assms(2) have "strands i ?s3" by (simp add: strands_wake)
  moreover have "second user s = (if user
         then kbind (IsSig (u_procp ?s3) ?s3) (\<lambda>sig.
              kbind (if sig \<noteq> 0 then PSig (u_procp ?s3) ?s3 else Done (False, ?s3)) (\<lambda>(ends, s).
              Done (ends, if ends then s else SetPri (u_procp s) s)))
         else Done (False, ?s3))"
    unfolding second_def Let_def if_not_P [OF ne] by simp
  ultimately obtain u where u: "strands i u" and eq: "second user s = (if user
         then kbind (IsSig (u_procp u) u) (\<lambda>sig.
              kbind (if sig \<noteq> 0 then PSig (u_procp u) u else Done (False, u)) (\<lambda>(ends, s).
              Done (ends, if ends then s else SetPri (u_procp s) s)))
         else Done (False, u))" by blast
  have "u_procp u \<noteq> i" using u by (simp add: strands_def)
  note ps = strands_PSig [OF u this]
  from assms(3) eq consider "t = u" | "t = SetPri (u_procp u) u" | "PSig (u_procp u) u = Done (r, t)"
    | v where "PSig (u_procp u) u = Done (False, v)" "t = SetPri (u_procp v) v"
    by (auto simp: kbind_Done split: if_splits)
  then show ?thesis using u ps strands_SetPri [OF _ assms(2)] by cases auto
qed

lemma strands_Clock:
  assumes "strands i s" "i < NPROC" "Clock user s = Done (r, t)"
  shows "strands i t"
proof -
  let ?s0 = "if user then s\<lparr>u_utime := u_utime s + 1\<rparr> else s\<lparr>u_stime := u_stime s + 1\<rparr>"
  let ?i = "u_procp ?s0"
  let ?s1 = "set_proc ?i ((process ?s0 ! ?i)\<lparr>p_cpu := min (p_cpu (process ?s0 ! ?i) + 1) 1024\<rparr>) ?s0"
  let ?s2 = "?s1\<lparr>lbolt := lbolt ?s1 + 1\<rparr>"
  have s0: "strands i ?s0" using assms(1) by (rule strands_same) simp_all
  have s1: "strands i ?s1" using s0 assms(2) by (intro strands_set) (auto simp: strands_def)
  have s2: "strands i ?s2" using s1 by (rule strands_same) simp_all
  have "Clock user s = (if lbolt ?s2 < HZ then Done (False, ?s2)
         else if p_stat (process ?s2 ! ?i) = SRUN \<and> \<not> user then Done (False, ?s2)
         else second user ?s2)"
    unfolding Clock_def Let_def by simp
  then consider "t = ?s2" | "second user ?s2 = Done (r, t)" using assms(3) by (auto split: if_splits)
  then show ?thesis using s2 strands_second [OF s2 assms(2)] by cases simp_all
qed

inductive ticks :: "'a pm_scheme \<Rightarrow> 'a pm_scheme \<Rightarrow> bool" where
  none: "ticks s s"
| tick: "ticks s t \<Longrightarrow> Clock user t = Done (r, u) \<Longrightarrow> ticks s u"

text \<open>
  The clock looks for the alarm only in the second it is set for.  When the super user sets the time to
  the alarm of a sleeping process or beyond it, the process sleeps on through any number of clock
  interrupts.
\<close>

theorem Stime_strands_sleeper:
  assumes "u_uid s = 0" "length (process s) = NPROC" "i < NPROC" "i \<noteq> u_procp s"
    and "IsSleepOn (process s ! i) AtTout" "tout s \<le> u_eax s" "ticks (Stime s) t"
  shows "IsSleepOn (process t ! i) AtTout \<and> tout t \<le> ktime t"
proof -
  have "strands i (Stime s)" using assms(1-6) by (simp add: strands_def Stime_def SUser_def)
  with assms(7) have "strands i t" by (induction rule: ticks.induct) (auto intro: strands_Clock [OF _ assms(3)])
  then show ?thesis by (simp add: strands_def)
qed


theorem Stime_strands_sleeper_witness:
  "IsSleepOn (process (Stime (demo_slept\<lparr>u_procp := 2, u_eax := 25\<rparr>)) ! 1) AtTout \<and>
   tout (Stime (demo_slept\<lparr>u_procp := 2, u_eax := 25\<rparr>)) \<le> ktime (Stime (demo_slept\<lparr>u_procp := 2, u_eax := 25\<rparr>))"
proof (rule Stime_strands_sleeper [where i = 1])
  have "u_uid demo_slept = 0" "length (process demo_slept) = NPROC" "tout demo_slept = 12" by code_simp+
  then show "u_uid (demo_slept\<lparr>u_procp := 2, u_eax := 25\<rparr>) = 0"
    "length (process (demo_slept\<lparr>u_procp := 2, u_eax := 25\<rparr>)) = NPROC"
    "tout (demo_slept\<lparr>u_procp := 2, u_eax := 25\<rparr>) \<le> u_eax (demo_slept\<lparr>u_procp := 2, u_eax := 25\<rparr>)" by simp_all
qed (use demo_slept(2) in \<open>simp_all add: NPROC_def ticks.none\<close>)

end
