(* ===== verification/Images.thy ===== *)
theory Images
  imports ProcInv
begin

text \<open>
  Process images (\<open>proc/Process.cpp\<close>, \<open>proc/ProcessManager.cpp\<close>, \<open>proc/Text.cpp\<close> and the address space part
  of \<open>proc/MemoryDescriptor.cpp\<close>): physical memory, the swap area, text segments, growing and
  shrinking, \<open>Fork\<close>, \<open>Exit\<close>, \<open>Wait\<close> and the swapper.
\<close>

section \<open>The user structures of the processes that do not run\<close>

text \<open>
  The user structure is the first page of the image; it is kept decoded.  The running process has its
  own in the state; \<open>u_areas\<close> holds those of the others.  \<open>userTables\<close> are the page tables of the machine.
\<close>

record uarea =
  a_ofiles :: "nat option list"
  a_cdir :: nat
  a_curdir :: "u8 list"
  a_error :: errno
  a_eax :: int
  a_uid :: int
  a_gid :: int
  a_ruid :: int
  a_rgid :: int
  a_signal :: "u32 list"
  a_utime :: int
  a_stime :: int
  a_cutime :: int
  a_cstime :: int
  a_arg0 :: int
  a_eip :: u32
  a_esp :: u32
  a_procp :: nat
  a_md :: md
  a_umem :: "int \<Rightarrow> u8"

record km = pm +
  u_areas :: "nat \<Rightarrow> uarea"
  userTables :: "pte list"

definition save_u :: "'a km_scheme \<Rightarrow> uarea" where
  "save_u s = \<lparr>a_ofiles = u_ofiles s, a_cdir = u_cdir s, a_curdir = u_curdir s, a_error = u_error s, a_eax = u_eax s,
     a_uid = u_uid s, a_gid = u_gid s, a_ruid = u_ruid s, a_rgid = u_rgid s, a_signal = u_signal s, a_utime = u_utime s,
     a_stime = u_stime s, a_cutime = u_cutime s, a_cstime = u_cstime s, a_arg0 = u_arg0 s, a_eip = u_eip s, a_esp = u_esp s,
     a_procp = u_procp s, a_md = u_md s, a_umem = umem s\<rparr>"

definition load_u :: "uarea \<Rightarrow> 'a km_scheme \<Rightarrow> 'a km_scheme" where
  "load_u a s = s\<lparr>u_ofiles := a_ofiles a, u_cdir := a_cdir a, u_curdir := a_curdir a, u_error := a_error a, u_eax := a_eax a,
     u_uid := a_uid a, u_gid := a_gid a, u_ruid := a_ruid a, u_rgid := a_rgid a, u_signal := a_signal a, u_utime := a_utime a,
     u_stime := a_stime a, u_cutime := a_cutime a, u_cstime := a_cstime a, u_arg0 := a_arg0 a, u_eip := a_eip a, u_esp := a_esp a,
     u_procp := a_procp a, u_md := a_md a, umem := a_umem a\<rparr>"

text \<open>Calls of the memory managers; a release that runs past the map array is a fault.\<close>

definition free_user :: "u32 \<Rightarrow> u32 \<Rightarrow> 'a km_scheme \<Rightarrow> 'a km_scheme kcall" where
  "free_user sz a s = (case FreeMemory (userPages s) sz a of None \<Rightarrow> Fault | Some p \<Rightarrow> Done (s\<lparr>userPages := p\<rparr>))"

definition alloc_user :: "u32 \<Rightarrow> 'a km_scheme \<Rightarrow> (u32 \<times> 'a km_scheme) kcall" where
  "alloc_user sz s = (case AllocMemory (userPages s) sz of None \<Rightarrow> Fault | Some (a, p) \<Rightarrow> Done (a, s\<lparr>userPages := p\<rparr>))"

definition free_swap :: "u32 \<Rightarrow> u32 \<Rightarrow> 'a km_scheme \<Rightarrow> 'a km_scheme kcall" where
  "free_swap sz b s = (case FreeSwap (swapMap s) sz b of None \<Rightarrow> Fault | Some p \<Rightarrow> Done (s\<lparr>swapMap := p\<rparr>))"

definition alloc_swap :: "u32 \<Rightarrow> 'a km_scheme \<Rightarrow> (u32 \<times> 'a km_scheme) kcall" where
  "alloc_swap sz s = (case AllocSwap (swapMap s) sz of None \<Rightarrow> Fault | Some (b, p) \<Rightarrow> Done (b, s\<lparr>swapMap := p\<rparr>))"

section \<open>The address map of the running process\<close>

definition text_address :: "'a km_scheme \<Rightarrow> u32" where
  "text_address s = (case p_textp (process s ! u_procp s) of None \<Rightarrow> 0 | Some t \<Rightarrow> x_caddr (texts s ! t))"

definition MapToPageTable :: "'a km_scheme \<Rightarrow> 'a km_scheme" where
  "MapToPageTable s =
     s\<lparr>userTables := map_page_tables (text_address s) (p_addr (process s ! u_procp s)) (m_Table (u_md s)) (userTables s)\<rparr>"

definition EstablishUserPageTable :: "u32 \<Rightarrow> u32 \<Rightarrow> u32 \<Rightarrow> u32 \<Rightarrow> u32 \<Rightarrow> 'a km_scheme \<Rightarrow> (bool \<times> 'a km_scheme) kcall" where
  "EstablishUserPageTable textVA textSize dataVA dataSize stackSize s =
     (if over_limit textVA textSize dataSize stackSize then Done (False, s\<lparr>u_error := ENOMEM\<rparr>)
      else kbind (fill_tables textVA textSize dataVA dataSize stackSize (m_Table (u_md s))) (\<lambda>tab.
             Done (True, MapToPageTable (s\<lparr>u_md := (u_md s)\<lparr>m_Table := tab\<rparr>\<rparr>))))"

text \<open>\<open>Initialize\<close> and \<open>Release\<close>; \<open>old\<close> tells what the pages held before.\<close>

definition md_Initialize :: "(u32 \<Rightarrow> pte list) \<Rightarrow> 'a km_scheme \<Rightarrow> 'a km_scheme kcall" where
  "md_Initialize old s =
     (case AllocMemory (kernelPages s) 0x2000 of
        None \<Rightarrow> Fault
      | Some (a, p) \<Rightarrow>
          Done (s\<lparr>kernelPages := p, u_md := (u_md s)\<lparr>m_UserPageTableArray := a + 0xC0000000, m_Table := old a\<rparr>\<rparr>))"

definition md_Release :: "'a km_scheme \<Rightarrow> 'a km_scheme kcall" where
  "md_Release s =
     (let a = m_UserPageTableArray (u_md s)
      in if a \<noteq> 0
         then case FreeMemory (kernelPages s) 0x2000 (a - 0xC0000000) of
                None \<Rightarrow> Fault
              | Some p \<Rightarrow> Done (s\<lparr>kernelPages := p, u_md := (u_md s)\<lparr>m_UserPageTableArray := 0\<rparr>\<rparr>)
         else Done s)"

section \<open>Copying and swapping\<close>

text \<open>The byte loops over \<open>Utility::CopySeg\<close>, upwards and downwards.\<close>

definition CopySeg :: "u32 \<Rightarrow> u32 \<Rightarrow> (u32 \<Rightarrow> u8) \<Rightarrow> u32 \<Rightarrow> u8" where
  "CopySeg src des mem = mem(des := mem src)"

fun copy_up :: "nat \<Rightarrow> u32 \<Rightarrow> u32 \<Rightarrow> (u32 \<Rightarrow> u8) \<Rightarrow> u32 \<Rightarrow> u8" where
  "copy_up 0 src des mem = mem"
| "copy_up (Suc n) src des mem = copy_up n (src + 1) (des + 1) (CopySeg src des mem)"

fun copy_down :: "nat \<Rightarrow> u32 \<Rightarrow> u32 \<Rightarrow> (u32 \<Rightarrow> u8) \<Rightarrow> u32 \<Rightarrow> u8" where
  "copy_down 0 src des mem = mem"
| "copy_down (Suc n) src des mem = copy_down n (src - 1) (des - 1) (CopySeg (src - 1) (des - 1) mem)"

text \<open>
  \<open>BufferManager::Swap\<close> moves one request of \<open>count\<close> bytes: the sector count register of the controller
  has eight bits and the byte count of the DMA descriptor sixteen, in both 0 stands for the largest
  value; the transfer ends with the smaller of the two.
\<close>

definition swap_len :: "u32 \<Rightarrow> nat" where
  "swap_len count =
     (let sectors = unat ((count div 512) AND 0xFF); bytes = unat (count AND 0xFFFE)
      in min (512 * (if sectors = 0 then 256 else sectors)) (if bytes = 0 then 0x10000 else bytes))"

definition swap_fails :: "u32 \<Rightarrow> u32 \<Rightarrow> 'a km_scheme \<Rightarrow> bool" where
  "swap_fails blkno count s \<longleftrightarrow>
     list_ex (\<lambda>k. bad_sector s ROOTDEV (uint blkno + int k)) [0..<(swap_len count + 511) div 512]"

definition Swap_write :: "u32 \<Rightarrow> u32 \<Rightarrow> u32 \<Rightarrow> 'a km_scheme \<Rightarrow> bool \<times> 'a km_scheme" where
  "Swap_write blkno addr count s =
     (if swap_fails blkno count s then (False, s)
      else (True, s\<lparr>disk := (disk s)(ROOTDEV := (\<lambda>b.
              let k = nat (b - uint blkno)
              in if uint blkno \<le> b \<and> k < (swap_len count + 511) div 512
                 then map (\<lambda>j. if 512 * k + j < swap_len count then pmem s (addr + of_nat (512 * k + j)) else disk s ROOTDEV b ! j) [0..<512]
                 else disk s ROOTDEV b))\<rparr>))"

definition Swap_read :: "u32 \<Rightarrow> u32 \<Rightarrow> u32 \<Rightarrow> 'a km_scheme \<Rightarrow> bool \<times> 'a km_scheme" where
  "Swap_read blkno addr count s =
     (if swap_fails blkno count s then (False, s)
      else (True, s\<lparr>pmem := (\<lambda>a.
              let k = unat (a - addr)
              in if k < swap_len count then disk s ROOTDEV (uint blkno + int (k div 512)) ! (k mod 512) else pmem s a)\<rparr>))"

section \<open>Text segments\<close>

definition set_text :: "nat \<Rightarrow> xtext \<Rightarrow> 'a pm_scheme \<Rightarrow> 'a pm_scheme" where
  "set_text t x s = s\<lparr>texts := (texts s)[t := x]\<rparr>"

definition XccDec :: "nat \<Rightarrow> 'a km_scheme \<Rightarrow> 'a km_scheme kcall" where
  "XccDec t s =
     (let x = texts s ! t
      in if x_ccount x = 0 then Done s
         else
           let x = x\<lparr>x_ccount := x_ccount x - 1\<rparr>; s = set_text t x s
           in if x_ccount x = 0 then free_user (x_size x) (x_caddr x) s else Done s)"

definition XFree :: "(int \<Rightarrow> u8 list) \<Rightarrow> nat \<Rightarrow> 'a km_scheme \<Rightarrow> 'a km_scheme kcall" where
  "XFree stale t s =
     kbind (XccDec t s) (\<lambda>s.
       let x = (texts s ! t)\<lparr>x_count := x_count (texts s ! t) - 1\<rparr>; s = set_text t x s
       in if x_count x = 0
          then kbind (free_swap (x_size x) (x_daddr x) s) (\<lambda>s.
               case x_iptr x of
                 None \<Rightarrow> Fault
               | Some i \<Rightarrow> kbind (IPut stale i s) (\<lambda>s. Done (set_text t (x\<lparr>x_iptr := None\<rparr>) s)))
          else Done s)"

text \<open>
  The search of \<open>Exec\<close> for a text segment: the entry of the inode, or the first free one.  When there is
  neither, the code goes on as if the text were shared, without a text.
\<close>

definition free_text :: "xtext list \<Rightarrow> nat option" where
  "free_text xs = scan (\<lambda>x. x_iptr x = None) xs"

definition shared_text :: "nat \<Rightarrow> xtext list \<Rightarrow> nat option" where
  "shared_text i xs = scan (\<lambda>x. x_iptr x = Some i) xs"

definition attach_text :: "nat \<Rightarrow> 'a km_scheme \<Rightarrow> (bool \<times> 'a km_scheme) kcall" where
  "attach_text i s =
     (case shared_text i (texts s) of
        Some t \<Rightarrow>
          let x = texts s ! t;
              s = set_text t (x\<lparr>x_count := x_count x + 1, x_ccount := x_ccount x + 1\<rparr>) s
          in Done (True, set_proc (u_procp s) ((process s ! u_procp s)\<lparr>p_textp := Some t\<rparr>) s)
      | None \<Rightarrow>
          (case free_text (texts s) of
             None \<Rightarrow> Done (True, s)
           | Some t \<Rightarrow>
               let s = set_ip i ((m_Inode s ! i)\<lparr>i_count := i_count (m_Inode s ! i) + 1\<rparr>) s;
                   sz = m_TextSize (u_md s)
               in kbind (alloc_user sz s) (\<lambda>(a, s). kbind (alloc_swap sz s) (\<lambda>(b, s).
                    Done (False, set_proc (u_procp s) ((process s ! u_procp s)\<lparr>p_textp := Some t\<rparr>)
                      (set_text t \<lparr>x_daddr = b, x_caddr = a, x_size = sz, x_iptr = Some i, x_count = 1, x_ccount = 1\<rparr> s))))))"

section \<open>Swapping out and changing the size\<close>

definition XSwap :: "nat \<Rightarrow> bool \<Rightarrow> u32 \<Rightarrow> 'a km_scheme \<Rightarrow> 'a km_scheme kcall" where
  "XSwap i bFreeMemory sz s =
     (let sz = (if sz = 0 then p_size (process s ! i) else sz)
      in kbind (alloc_swap (p_size (process s ! i)) s) (\<lambda>(blkno, s).
         if blkno = 0 then Panic
         else kbind (case p_textp (process s ! i) of None \<Rightarrow> Done s | Some t \<Rightarrow> XccDec t s) (\<lambda>s.
           let s = set_proc i ((process s ! i)\<lparr>p_flag := set_flag (p_flag (process s ! i)) SLOCK\<rparr>) s;
               (ok, s) = Swap_write blkno (p_addr (process s ! i)) sz s
           in if \<not> ok then Panic
              else kbind (if bFreeMemory then free_user sz (p_addr (process s ! i)) s else Done s) (\<lambda>s.
                let p = process s ! i;
                    s = set_proc i (p\<lparr>p_addr := blkno, p_flag := clear_flag (p_flag p) (SLOAD OR SLOCK), p_time := 0\<rparr>) s
                in Done (if RunOut s \<noteq> 0 then WakeUpAll AtRunOut (s\<lparr>RunOut := 0\<rparr>) else s)))))"

text \<open>
  \<open>Expand\<close>: when memory is short the process goes to the swap area and gives up the processor, \<open>False\<close>;
  it continues behind the call when it is brought in again.
\<close>

definition Expand :: "u32 \<Rightarrow> 'a km_scheme \<Rightarrow> (bool \<times> 'a km_scheme) kcall" where
  "Expand newSize s =
     (let i = u_procp s; oldSize = p_size (process s ! i); oldAddress = p_addr (process s ! i);
          s = set_proc i ((process s ! i)\<lparr>p_size := newSize\<rparr>) s
      in if oldSize \<ge> newSize
         then kbind (free_user (oldSize - newSize) (oldAddress + newSize) s) (\<lambda>s. Done (True, s))
         else kbind (alloc_user newSize s) (\<lambda>(newAddress, s).
           if newAddress = 0
           then kbind (XSwap i True oldSize s) (\<lambda>s.
                Done (False, set_proc i ((process s ! i)\<lparr>p_flag := set_flag (p_flag (process s ! i)) SSWAP\<rparr>) s))
           else
             let s = set_proc i ((process s ! i)\<lparr>p_addr := newAddress\<rparr>) s;
                 s = s\<lparr>pmem := copy_up (unat oldSize) oldAddress newAddress (pmem s)\<rparr>
             in kbind (free_user oldSize oldAddress s) (\<lambda>s. Done (True, MapToPageTable s))))"

definition SStack :: "'a km_scheme \<Rightarrow> (bool \<times> 'a km_scheme) kcall" where
  "SStack s =
     (let change = 4096; m = (u_md s)\<lparr>m_StackSize := m_StackSize (u_md s) + change\<rparr>; s = s\<lparr>u_md := m\<rparr>;
          newSize = USIZE + m_DataSize m + m_StackSize m
      in kbind (EstablishUserPageTable (m_TextStartAddress m) (m_TextSize m) (m_DataStartAddress m) (m_DataSize m) (m_StackSize m) s)
         (\<lambda>(ok, s).
            if \<not> ok then Done (True, s\<lparr>u_error := ENOMEM\<rparr>)
            else kbind (Expand newSize s) (\<lambda>(here, s).
              if \<not> here then Done (False, s)
              else
                let dst = p_addr (process s ! u_procp s) + newSize
                in Done (True, MapToPageTable
                     (s\<lparr>pmem := copy_down (unat (m_StackSize m - change)) (dst - change) dst (pmem s)\<rparr>)))))"

text \<open>The result of the call: the end of the data.\<close>

definition data_end :: "'a km_scheme \<Rightarrow> 'a km_scheme" where
  "data_end s = s\<lparr>u_eax := uint (m_DataStartAddress (u_md s) + m_DataSize (u_md s))\<rparr>"

definition SBreak :: "u32 \<Rightarrow> 'a km_scheme \<Rightarrow> (bool \<times> 'a km_scheme) kcall" where
  "SBreak newEnd s =
     (let m = u_md s; newSize = newEnd - m_DataStartAddress m
      in if newEnd = 0 then Done (True, data_end s)
         else kbind (EstablishUserPageTable (m_TextStartAddress m) (m_TextSize m) (m_DataStartAddress m) newSize (m_StackSize m) s)
         (\<lambda>(ok, s).
            if \<not> ok then Done (True, s)
            else
              let change = newSize - m_DataSize m;
                  s = s\<lparr>u_md := (u_md s)\<lparr>m_DataSize := newSize\<rparr>\<rparr>;
                  total = newSize + (USIZE + m_StackSize m)
              in if sint change < 0
                 then
                   let dst = p_addr (process s ! u_procp s) + total - m_StackSize m;
                       s = s\<lparr>pmem := copy_up (unat (m_StackSize m)) (dst - change) dst (pmem s)\<rparr>
                   in kbind (Expand total s) (\<lambda>(here, s). Done (here, if here then data_end s else s))
                 else if sint change > 0
                 then kbind (Expand total s) (\<lambda>(here, s).
                   if \<not> here then Done (False, s)
                   else
                     let dst = p_addr (process s ! u_procp s) + total
                     in Done (True, data_end (s\<lparr>pmem := copy_down (unat (m_StackSize m)) (dst - change) dst (pmem s)\<rparr>)))
                 else Done (True, data_end s)))"

end
