(* ===== verification/Lifecycle.thy ===== *)
theory Lifecycle
  imports Images
begin

text \<open>
  The life of a process: \<open>Fork\<close> (\<open>NewProc\<close>, \<open>Clone\<close>), \<open>Exit\<close>, \<open>Wait\<close>, the switch to another process and the
  swapper (\<open>proc/Process.cpp\<close>, \<open>proc/ProcessManager.cpp\<close>).
\<close>

section \<open>Fork\<close>

text \<open>The loop of \<open>Clone\<close> over the descriptors.\<close>

fun share_files :: "int list \<Rightarrow> 'a fm_scheme \<Rightarrow> 'a fm_scheme" where
  "share_files [] s = s"
| "share_files (fd # fds) s =
     (let (r, s) = GetF fd s
      in share_files fds (case r of None \<Rightarrow> s
           | Some f \<Rightarrow> set_file f ((m_File s ! f)\<lparr>f_count := f_count (m_File s ! f) + 1\<rparr>) s))"

definition all_fds :: "int list" where
  "all_fds = map int [0..<NOFILES]"

definition Clone :: "nat \<Rightarrow> 'a km_scheme \<Rightarrow> 'a km_scheme" where
  "Clone c s =
     (let p = process s ! u_procp s;
          s = set_proc c ((process s ! c)\<lparr>p_size := p_size p, p_stat := SRUN, p_flag := SLOAD, p_uid := p_uid p, p_ttyp := p_ttyp p,
                p_nice := p_nice p, p_textp := p_textp p, p_pid := sint (m_NextUniquePid s), p_ppid := p_pid p, p_pri := 0, p_time := 0\<rparr>)
                (s\<lparr>m_NextUniquePid := m_NextUniquePid s + 1\<rparr>);
          s = (share_files all_fds s)\<lparr>u_error := NOERROR\<rparr>;
          s = (case p_textp p of None \<Rightarrow> s
               | Some t \<Rightarrow> set_text t ((texts s ! t)\<lparr>x_count := x_count (texts s ! t) + 1, x_ccount := x_ccount (texts s ! t) + 1\<rparr>) s)
      in set_ip (u_cdir s) ((m_Inode s ! u_cdir s)\<lparr>i_count := i_count (m_Inode s ! u_cdir s) + 1\<rparr>) s)"

text \<open>
  \<open>NewProc\<close> for the parent, which gets the result 0.  The child's user structure is the parent's with
  the new table and \<open>u_procp\<close>.
\<close>

definition NewProc :: "(u32 \<Rightarrow> pte list) \<Rightarrow> 'a km_scheme \<Rightarrow> 'a km_scheme kcall" where
  "NewProc old s =
     (case scan (\<lambda>p. p_stat p = SNULL) (process s) of
        None \<Rightarrow> Panic
      | Some c \<Rightarrow>
          let cur = u_procp s; s = Clone c s; m = u_md s
          in kbind (md_Initialize old s) (\<lambda>s.
             let s = (if m_UserPageTableArray m \<noteq> 0 then s\<lparr>u_md := (u_md s)\<lparr>m_Table := m_Table m\<rparr>\<rparr> else s);
                 s = s\<lparr>u_procp := c\<rparr>;
                 s = s\<lparr>u_areas := (u_areas s)(c := save_u s)\<rparr>;
                 n = p_size (process s ! cur); src = p_addr (process s ! cur)
             in kbind (alloc_user n s) (\<lambda>(des, s).
                kbind (if des = 0
                       then
                         let s = set_proc cur ((process s ! cur)\<lparr>p_stat := SIDL\<rparr>) s;
                             s = set_proc c ((process s ! c)\<lparr>p_addr := src\<rparr>) s
                         in kbind (XSwap c False 0 s) (\<lambda>s.
                            let s = set_proc c ((process s ! c)\<lparr>p_flag := set_flag (p_flag (process s ! c)) SSWAP\<rparr>) s
                            in Done (set_proc cur ((process s ! cur)\<lparr>p_stat := SRUN\<rparr>) s))
                       else
                         let s = set_proc c ((process s ! c)\<lparr>p_addr := des\<rparr>) s
                         in Done (s\<lparr>pmem := copy_up (unat n) src des (pmem s)\<rparr>))
                  (\<lambda>s. Done (s\<lparr>u_procp := cur, u_md := m\<rparr>)))))"

text \<open>What the child does first when it runs is written into its user structure.\<close>

definition child_return :: "uarea \<Rightarrow> uarea" where
  "child_return a = a\<lparr>a_eax := 0, a_cstime := 0, a_stime := 0, a_cutime := 0, a_utime := 0\<rparr>"

definition Fork :: "(u32 \<Rightarrow> pte list) \<Rightarrow> 'a km_scheme \<Rightarrow> 'a km_scheme kcall" where
  "Fork old s =
     (case scan (\<lambda>p. p_stat p = SNULL) (process s) of
        None \<Rightarrow> Done (s\<lparr>u_error := EAGAIN\<rparr>)
      | Some c \<Rightarrow> kbind (NewProc old s) (\<lambda>s.
          Done (s\<lparr>u_eax := p_pid (process s ! c), u_areas := (u_areas s)(c := child_return (u_areas s c))\<rparr>)))"

section \<open>Exit and Wait\<close>

fun close_files :: "(int \<Rightarrow> u8 list) \<Rightarrow> int list \<Rightarrow> 'a fm_scheme \<Rightarrow> 'a fm_scheme kcall" where
  "close_files stale [] s = Done s"
| "close_files stale (fd # fds) s =
     (let (r, s) = GetF fd s
      in kbind (case r of None \<Rightarrow> Done s | Some f \<Rightarrow> kbind (CloseF stale f s) (\<lambda>s. Done (SetF fd None s)))
           (close_files stale fds))"

text \<open>The loop over the orphans.\<close>

fun orphans :: "int \<Rightarrow> nat list \<Rightarrow> 'a pm_scheme \<Rightarrow> 'a pm_scheme" where
  "orphans pid [] s = s"
| "orphans pid (i # is) s =
     (if p_ppid (process s ! i) = pid
      then
        let s = set_proc i ((process s ! i)\<lparr>p_ppid := 1\<rparr>) s
        in orphans pid is (if p_stat (process s ! i) = SSTOP then SetRun i s else s)
      else orphans pid is s)"

text \<open>
  \<open>Exit\<close> up to the call of \<open>Swtch\<close>.  The user structure goes to the swap area for \<open>Wait\<close>; it stays
  decoded in \<open>u_areas\<close>.
\<close>

definition Exit_files :: "(int \<Rightarrow> u8 list) \<Rightarrow> 'a km_scheme \<Rightarrow> 'a km_scheme kcall" where
  "Exit_files stale s =
     (let i = u_procp s;
          s = set_proc i ((process s ! i)\<lparr>p_flag := clear_flag (p_flag (process s ! i)) STRC\<rparr>) s;
          s = s\<lparr>u_signal := replicate (nat NSIG) 1\<rparr>
      in kbind (close_files stale all_fds s) (\<lambda>s. IPut stale (u_cdir s) (s\<lparr>u_error := NOERROR\<rparr>)))"

definition Exit_memory :: "(int \<Rightarrow> u8 list) \<Rightarrow> 'a km_scheme \<Rightarrow> 'a km_scheme kcall" where
  "Exit_memory stale s =
     (let i = u_procp s
      in kbind (case p_textp (process s ! i) of None \<Rightarrow> Done s
           | Some t \<Rightarrow> kbind (XFree stale t s) (\<lambda>s. Done (set_proc i ((process s ! i)\<lparr>p_textp := None\<rparr>) s))) (\<lambda>s.
         kbind (alloc_swap 512 s) (\<lambda>(blkno, s).
           if blkno = 0 then Panic
           else kbind (md_Release (s\<lparr>u_areas := (u_areas s)(i := save_u s)\<rparr>)) (\<lambda>s.
             kbind (free_user (p_size (process s ! i)) (p_addr (process s ! i)) s) (\<lambda>s.
               Done (set_proc i ((process s ! i)\<lparr>p_addr := blkno, p_stat := SZOMB\<rparr>) s))))))"

definition Exit_family :: "'a km_scheme \<Rightarrow> 'a km_scheme" where
  "Exit_family s =
     (let i = u_procp s; p = process s ! i;
          s = (case scan (\<lambda>q. p_pid q = p_ppid p) (process s) of
                 Some k \<Rightarrow> WakeUpAll (AtProc k) s
               | None \<Rightarrow> WakeUpAll (AtProc 1) (set_proc i (p\<lparr>p_ppid := 1\<rparr>) s))
      in orphans (p_pid p) [0..<NPROC] s)"

definition Exit :: "(int \<Rightarrow> u8 list) \<Rightarrow> 'a km_scheme \<Rightarrow> 'a km_scheme kcall" where
  "Exit stale s = kbind (Exit_files stale s) (\<lambda>s. kbind (Exit_memory stale s) (\<lambda>s. Done (Exit_family s)))"

text \<open>
  One pass of the loop of \<open>Wait\<close>.  \<open>hasChild\<close> is carried from pass to pass; the result tells whether the
  call is over, and the next \<open>hasChild\<close>.
\<close>

definition reap :: "nat \<Rightarrow> int \<Rightarrow> 'a km_scheme \<Rightarrow> 'a km_scheme kcall" where
  "reap i status_addr s =
     (let p = process s ! i; a = u_areas s i;
          s = set_proc i (p\<lparr>p_stat := SNULL, p_pid := 0, p_ppid := -1, p_sig := 0, p_flag := 0\<rparr>) (s\<lparr>u_eax := p_pid p\<rparr>)
      in kbind (free_swap 512 (p_addr p) s) (\<lambda>s.
           Done (s\<lparr>u_cstime := u_cstime s + (a_cstime a + a_stime a), u_cutime := u_cutime s + (a_cutime a + a_utime a),
                   umem := store_bytes (umem s) status_addr (bytes_of [a_arg0 a])\<rparr>)))"

definition Wait_round :: "bool \<Rightarrow> int \<Rightarrow> 'a km_scheme \<Rightarrow> (bool \<times> bool \<times> 'a km_scheme) kcall" where
  "Wait_round hasChild status_addr s =
     (let pid = p_pid (process s ! u_procp s);
          child = (\<lambda>p. p_ppid p = pid);
          hasChild = (hasChild \<or> list_ex child (process s))
      in case scan (\<lambda>p. child p \<and> p_stat p = SZOMB) (process s) of
           Some i \<Rightarrow> kbind (reap i status_addr s) (\<lambda>s. Done (True, hasChild, s))
         | None \<Rightarrow>
             if hasChild then kbind (Sleep (u_procp s) (AtProc (u_procp s)) PWAIT s) (\<lambda>(slept, s). Done (\<not> slept, hasChild, s))
             else Done (True, hasChild, s\<lparr>u_error := ECHILD\<rparr>))"

section \<open>Switching and swapping\<close>

text \<open>\<open>Swtch\<close> with the process that \<open>Select\<close> has chosen.\<close>

definition Swtch_to :: "nat \<Rightarrow> 'a km_scheme \<Rightarrow> 'a km_scheme" where
  "Swtch_to b s =
     (let s = s\<lparr>u_areas := (u_areas s)(u_procp s := save_u s)\<rparr>;
          s = MapToPageTable (load_u (u_areas s b) s);
          i = u_procp s; p = process s ! i
      in if has_flag (p_flag p) SSWAP then set_proc i (p\<lparr>p_flag := clear_flag (p_flag p) SSWAP\<rparr>) s else s)"

text \<open>
  One pass of \<open>Sched\<close>.  The test for a process to swap out is written as in the code: \<open>==\<close> binds more
  tightly than \<open>&\<close>.
\<close>

datatype sched_end = Looks_again | Sleeps_at wchan

definition swapped_ready :: "proc \<Rightarrow> bool" where
  "swapped_ready p \<longleftrightarrow> p_stat p = SRUN \<and> \<not> has_flag (p_flag p) SLOAD"

fun longest_out :: "proc list \<Rightarrow> nat list \<Rightarrow> nat option \<Rightarrow> int \<Rightarrow> nat option \<times> int" where
  "longest_out ps [] sel seconds = (sel, seconds)"
| "longest_out ps (i # is) sel seconds =
     (if swapped_ready (ps ! i) \<and> p_time (ps ! i) > seconds then longest_out ps is (Some i) (p_time (ps ! i))
      else longest_out ps is sel seconds)"

definition swap_victim :: "proc \<Rightarrow> bool" where
  "swap_victim p \<longleftrightarrow>
     p_flag p AND (if (SSYS OR SLOCK OR SLOAD) = SLOAD then 1 else 0) \<noteq> 0 \<and> (p_stat p = SWAIT \<or> p_stat p = SSTOP)"

fun longest_in :: "proc list \<Rightarrow> nat list \<Rightarrow> nat \<Rightarrow> int \<Rightarrow> nat \<times> int" where
  "longest_in ps [] sel seconds = (sel, seconds)"
| "longest_in ps (i # is) sel seconds =
     (if swap_victim (ps ! i) \<and> p_time (ps ! sel) > seconds then longest_in ps is i (p_time (ps ! i))
      else longest_in ps is sel seconds)"

definition bring_in :: "nat \<Rightarrow> u32 \<Rightarrow> 'a km_scheme \<Rightarrow> (sched_end \<times> 'a km_scheme) kcall" where
  "bring_in i desAddress s =
     kbind (case p_textp (process s ! i) of
              None \<Rightarrow> Done (desAddress, s)
            | Some t \<Rightarrow>
                let x = texts s ! t
                in kbind (if x_ccount x = 0
                       then let (ok, s) = Swap_read (x_daddr x) desAddress (x_size x) s
                         in if ok then Done (desAddress + x_size x, set_text t (x\<lparr>x_caddr := desAddress\<rparr>) s) else Panic
                       else Done (desAddress, s))
                  (\<lambda>(des, s). Done (des, set_text t ((texts s ! t)\<lparr>x_ccount := x_ccount (texts s ! t) + 1\<rparr>) s)))
       (\<lambda>(des, s).
          let p = process s ! i; (ok, s) = Swap_read (p_addr p) des (p_size p) s
          in if \<not> ok then Panic
             else kbind (free_swap (p_size p) (p_addr p) s) (\<lambda>s.
               Done (Looks_again, set_proc i (p\<lparr>p_addr := des, p_flag := set_flag (p_flag p) SLOAD, p_time := 0\<rparr>) s)))"

definition Sched_sleep :: "wchan \<Rightarrow> 'a km_scheme \<Rightarrow> (sched_end \<times> 'a km_scheme) kcall" where
  "Sched_sleep chan s = kbind (Sleep (u_procp s) chan PSWP s) (\<lambda>(_, s). Done (Sleeps_at chan, s))"

definition Sched_round :: "'a km_scheme \<Rightarrow> (sched_end \<times> 'a km_scheme) kcall" where
  "Sched_round s =
     (let (sel, seconds) = longest_out (process s) [0..<NPROC] None (-1)
      in case sel of
           None \<Rightarrow> Sched_sleep AtRunOut (s\<lparr>RunOut := RunOut s + 1\<rparr>)
         | Some i \<Rightarrow>
             let p = process s ! i;
                 sz = (case p_textp p of None \<Rightarrow> p_size p
                       | Some t \<Rightarrow> if x_ccount (texts s ! t) = 0 then p_size p + x_size (texts s ! t) else p_size p);
                 out = (\<lambda>k s. kbind (XSwap k True 0 (set_proc k ((process s ! k)\<lparr>p_flag := clear_flag (p_flag (process s ! k)) SLOAD\<rparr>) s))
                          (\<lambda>s. Done (Looks_again, s)))
             in kbind (alloc_user sz s) (\<lambda>(desAddress, s).
                if desAddress \<noteq> 0 then bring_in i desAddress s
                else if list_ex swap_victim (process s) then out i s
                else if seconds < 3 then Sched_sleep AtRunIn (s\<lparr>RunIn := RunIn s + 1\<rparr>)
                else
                  let (k, seconds) = longest_in (process s) [0..<NPROC] i (-1)
                  in if seconds < 2 then Sched_sleep AtRunIn (s\<lparr>RunIn := RunIn s + 1\<rparr>) else out k s))"

end
