(* ===== verification/Terminal.thy ===== *)
theory Terminal
  imports Lifecycle
begin

text \<open>
  The console: the character queues and the line discipline (\<open>tty/TTy.cpp\<close>), the screen (\<open>tty/CRT.cpp\<close>), the
  device (\<open>dev/CharDevice.cpp\<close>) and the keyboard (\<open>tty/Keyboard.cpp\<close>).  A \<open>char\<close> is a signed byte.
\<close>

section \<open>Queues\<close>

record queue =
  m_Head :: u32
  m_Tail :: u32
  m_CharBuf :: "u8 list"

definition TTY_BUF_SIZE :: u32 where "TTY_BUF_SIZE = 512"
definition GET_ERROR :: u8 where "GET_ERROR = 0xFF"

definition GetChar :: "queue \<Rightarrow> u8 \<times> queue" where
  "GetChar q =
     (if m_Head q = m_Tail q then (GET_ERROR, q)
      else (m_CharBuf q ! unat (m_Tail q), q\<lparr>m_Tail := (m_Tail q + 1) mod TTY_BUF_SIZE\<rparr>))"

definition PutChar :: "u8 \<Rightarrow> queue \<Rightarrow> queue" where
  "PutChar ch q = q\<lparr>m_CharBuf := (m_CharBuf q)[unat (m_Head q) := ch], m_Head := (m_Head q + 1) mod TTY_BUF_SIZE\<rparr>"

definition CharNum :: "queue \<Rightarrow> u32" where
  "CharNum q = (m_Head q - m_Tail q) AND (TTY_BUF_SIZE - 1)"

text \<open>The loop that takes characters as long as they are not negative; a queue holds less than 512.\<close>

fun drain :: "nat \<Rightarrow> queue \<Rightarrow> queue" where
  "drain 0 q = q"
| "drain (Suc n) q = (let (ch, q') = GetChar q in if sint ch \<ge> 0 then drain n q' else q')"

section \<open>The terminal\<close>

record tty =
  t_rawq :: queue
  t_canq :: queue
  t_outq :: queue
  t_flags :: u32
  t_delct :: int
  t_erase :: u8
  t_kill :: u8
  t_state :: u32
  Canonb :: "u8 list"

definition CANBSIZ :: nat where "CANBSIZ = 256"
definition TTHIWAT :: u32 where "TTHIWAT = 512"
definition CERASE :: u8 where "CERASE = 8"
definition CEOT :: u8 where "CEOT = 4"
definition CKILL :: u8 where "CKILL = 0x15"
definition LCASE :: u32 where "LCASE = 0x4"
definition ECHO :: u32 where "ECHO = 0x8"
definition CRMOD :: u32 where "CRMOD = 0x10"
definition RAW :: u32 where "RAW = 0x20"
definition ISOPEN :: u32 where "ISOPEN = 0x1"
definition CARR_ON :: u32 where "CARR_ON = 0x2"
definition TTIPRI :: int where "TTIPRI = 10"

text \<open>
  The screen.  Positions in the output queue are \<open>char\<close> pointers: \<open>None\<close> is \<open>NULL\<close>, \<open>Some k\<close> the address
  of the \<open>k\<close>-th character of the buffer, and the arithmetic on them can leave the buffer.
\<close>

record con = km +
  g_TTy :: tty
  console_tty :: bool
  m_VideoMemory :: "u32 \<Rightarrow> u16"
  m_CursorX :: u32
  m_CursorY :: u32
  m_Position :: "int option"
  m_BeginChar :: "int option"
  CRT_ROWS :: u32
  kb_Mode :: u32
  pre_state :: nat

definition COLUMNS :: u32 where "COLUMNS = 80"
definition COLOR :: u16 where "COLOR = 0x0F00"

definition CurrentChar :: "queue \<Rightarrow> int option" where
  "CurrentChar q = Some (uint (m_Tail q))"

section \<open>The screen\<close>

text \<open>\<open>MoveCursor\<close> only writes the position to the controller and is left out.\<close>

definition ClearScreen :: "'a con_scheme \<Rightarrow> 'a con_scheme" where
  "ClearScreen s = s\<lparr>m_VideoMemory := (\<lambda>i. if i < COLUMNS * CRT_ROWS s then 0x20 OR COLOR else m_VideoMemory s i)\<rparr>"

definition NextLine :: "'a con_scheme \<Rightarrow> 'a con_scheme" where
  "NextLine s =
     (let s = s\<lparr>m_CursorX := 0, m_CursorY := m_CursorY s + 1\<rparr>
      in if m_CursorY s \<ge> CRT_ROWS s then ClearScreen (s\<lparr>m_CursorY := 0\<rparr>) else s)"

text \<open>The tests \<open>m_CursorX < 0\<close> and \<open>m_CursorY < 0\<close> of \<open>BackSpace\<close> are on unsigned values.\<close>

definition put_cell :: "u16 \<Rightarrow> 'a con_scheme \<Rightarrow> 'a con_scheme" where
  "put_cell c s = s\<lparr>m_VideoMemory := (m_VideoMemory s)(m_CursorY s * COLUMNS + m_CursorX s := c OR COLOR)\<rparr>"

definition BackSpace :: "'a con_scheme \<Rightarrow> 'a con_scheme" where
  "BackSpace s = put_cell 0x20 (s\<lparr>m_CursorX := m_CursorX s - 1\<rparr>)"

definition Tab :: "'a con_scheme \<Rightarrow> 'a con_scheme" where
  "Tab s =
     (let s = s\<lparr>m_CursorX := (m_CursorX s AND 0xFFFFFFF8) + 8\<rparr>
      in if m_CursorX s \<ge> COLUMNS then NextLine s else s)"

definition WriteChar :: "u8 \<Rightarrow> 'a con_scheme \<Rightarrow> 'a con_scheme" where
  "WriteChar ch s =
     (let s = put_cell (ucast ch) s; s = s\<lparr>m_CursorX := m_CursorX s + 1\<rparr>
      in if m_CursorX s \<ge> COLUMNS then NextLine s else s)"

definition step_position :: "int \<Rightarrow> 'a con_scheme \<Rightarrow> 'a con_scheme" where
  "step_position d s = s\<lparr>m_Position := map_option (\<lambda>k. k + d) (m_Position s)\<rparr>"

definition confirm :: "'a con_scheme \<Rightarrow> 'a con_scheme" where
  "confirm s = s\<lparr>m_BeginChar := CurrentChar (t_outq (g_TTy s))\<rparr>"

definition show_char :: "u8 \<Rightarrow> 'a con_scheme \<Rightarrow> 'a con_scheme" where
  "show_char ch s =
     (if ch = 10 then (let s = confirm (NextLine s) in s\<lparr>m_Position := m_BeginChar s\<rparr>)
      else if ch = 0x15 then s
      else if ch = 8 then (if m_Position s \<noteq> m_BeginChar s then step_position (-1) (BackSpace s) else s)
      else if ch = 9 then step_position 1 (Tab s)
      else step_position 1 (WriteChar ch s))"

fun show_loop :: "nat \<Rightarrow> 'a con_scheme \<Rightarrow> 'a con_scheme" where
  "show_loop 0 s = s"
| "show_loop (Suc n) s =
     (let (ch, q) = GetChar (t_outq (g_TTy s)); s = s\<lparr>g_TTy := (g_TTy s)\<lparr>t_outq := q\<rparr>\<rparr>
      in if ch = GET_ERROR then s else show_loop n (show_char ch s))"

definition CRTStart :: "'a con_scheme \<Rightarrow> 'a con_scheme" where
  "CRTStart s =
     (let s = (if m_BeginChar s = None then confirm s else s);
          s = (if m_Position s = None then s\<lparr>m_Position := m_BeginChar s\<rparr> else s)
      in show_loop (unat TTY_BUF_SIZE) s)"

definition TTStart :: "'a con_scheme \<Rightarrow> 'a con_scheme" where
  "TTStart s = CRTStart s"

section \<open>Input and output\<close>

definition TTyOutput :: "u8 \<Rightarrow> tty \<Rightarrow> tty" where
  "TTyOutput ch t =
     (if ch = CEOT \<and> \<not> has_flag (t_flags t) RAW then t
      else
        let t = (if ch = 10 \<and> has_flag (t_flags t) CRMOD then t\<lparr>t_outq := PutChar 13 (t_outq t)\<rparr> else t)
        in if ch \<noteq> 0 then t\<lparr>t_outq := PutChar ch (t_outq t)\<rparr> else t)"

definition to_tty :: "(tty \<Rightarrow> tty) \<Rightarrow> 'a con_scheme \<Rightarrow> 'a con_scheme" where
  "to_tty f s = s\<lparr>g_TTy := f (g_TTy s)\<rparr>"

definition put_raw :: "u8 \<Rightarrow> tty \<Rightarrow> tty" where
  "put_raw ch t = t\<lparr>t_rawq := PutChar ch (t_rawq t)\<rparr>"

definition input_char :: "u8 \<Rightarrow> tty \<Rightarrow> u8" where
  "input_char ch t =
     (let ch = (if ch = 13 \<and> has_flag (t_flags t) CRMOD then 10 else ch)
      in if has_flag (t_flags t) LCASE \<and> 65 \<le> sint ch \<and> sint ch \<le> 90 then ch + 32 else ch)"

definition TTyInput :: "u8 \<Rightarrow> 'a con_scheme \<Rightarrow> 'a con_scheme" where
  "TTyInput ch s =
     (let ch = input_char ch (g_TTy s);
          s = to_tty (put_raw ch) s;
          s = (if has_flag (t_flags (g_TTy s)) RAW \<or> ch = 10 \<or> ch = CEOT
               then to_tty (\<lambda>t. (put_raw 7 t)\<lparr>t_delct := t_delct t + 1\<rparr>) (WakeUpAll AtRawq s) else s)
      in if has_flag (t_flags (g_TTy s)) ECHO then TTStart (to_tty (TTyOutput ch) s) else s)"

definition FlushTTy :: "'a con_scheme \<Rightarrow> 'a con_scheme" where
  "FlushTTy s =
     (let n = unat TTY_BUF_SIZE;
          s = to_tty (\<lambda>t. t\<lparr>t_canq := drain n (t_canq t), t_outq := drain n (t_outq t)\<rparr>) s;
          s = WakeUpAll AtOutq (WakeUpAll AtCanq s)
      in to_tty (\<lambda>t. t\<lparr>t_rawq := drain n (t_rawq t), t_delct := 0\<rparr>) s)"

text \<open>
  \<open>Canon\<close>: one pass of the loop that waits for a delimiter, then the loop over the raw queue with the
  index \<open>p\<close> of \<open>pChar\<close> in \<open>Canonb\<close>.  \<open>canon_loop\<close> takes a character in every pass.
\<close>

definition backslash :: u8 where "backslash = 92"

fun canon_loop :: "nat \<Rightarrow> nat \<Rightarrow> tty \<Rightarrow> nat \<times> tty" where
  "canon_loop 0 p t = (p, t)"
| "canon_loop (Suc n) p t =
     (let (ch, q) = GetChar (t_rawq t); t = t\<lparr>t_rawq := q\<rparr>;
          cooked = (\<not> has_flag (t_flags t) RAW \<and> Canonb t ! (p - 1) \<noteq> backslash)
      in if sint ch < 0 then (p, t)
         else if ch = 7 then (p, t\<lparr>t_delct := t_delct t - 1\<rparr>)
         else if cooked \<and> ch = t_erase t then canon_loop n (if p > 2 then p - 1 else p) t
         else if cooked \<and> ch = t_kill t then canon_loop n 2 t
         else if cooked \<and> ch = CEOT then canon_loop n p t
         else
           let t = t\<lparr>Canonb := (Canonb t)[p := ch]\<rparr>
           in if p + 1 \<ge> CANBSIZ then (p + 1, t) else canon_loop n (p + 1) t)"

definition canonize :: "tty \<Rightarrow> tty" where
  "canonize t =
     (let (p, t) = canon_loop (unat TTY_BUF_SIZE) 2 t
      in t\<lparr>t_canq := fold PutChar (drop 2 (take p (Canonb t))) (t_canq t)\<rparr>)"

datatype tt_end = TT_Return | TT_Sleep bool

definition Canon :: "'a con_scheme \<Rightarrow> (tt_end \<times> bool \<times> 'a con_scheme) kcall" where
  "Canon s =
     (if t_delct (g_TTy s) = 0
      then if \<not> has_flag (t_state (g_TTy s)) CARR_ON then Done (TT_Return, False, s)
        else kbind (Sleep (u_procp s) AtRawq TTIPRI s) (\<lambda>(r, s). Done (TT_Sleep r, False, s))
      else Done (TT_Return, True, to_tty canonize s))"

definition PassC :: "u8 \<Rightarrow> ioparam \<Rightarrow> 'a con_scheme \<Rightarrow> bool \<times> ioparam \<times> 'a con_scheme" where
  "PassC ch io s =
     (if m_Count io > 0
      then (True, io\<lparr>m_Base := m_Base io + 1, m_Count := m_Count io - 1\<rparr>, s\<lparr>umem := (umem s)(m_Base io := ch)\<rparr>)
      else (False, io, s))"

fun pass_loop :: "nat \<Rightarrow> ioparam \<Rightarrow> 'a con_scheme \<Rightarrow> ioparam \<times> 'a con_scheme" where
  "pass_loop 0 io s = (io, s)"
| "pass_loop (Suc n) io s =
     (if CharNum (t_canq (g_TTy s)) = 0 then (io, s)
      else
        let (ch, q) = GetChar (t_canq (g_TTy s));
            (ok, io, s) = PassC ch io (to_tty (\<lambda>t. t\<lparr>t_canq := q\<rparr>) s)
        in if ok then pass_loop n io s else (io, s))"

text \<open>\<open>TTRead\<close> up to the point where the process sleeps; it starts again in \<open>Canon\<close> when it is woken.\<close>

definition TTRead :: "ioparam \<Rightarrow> 'a con_scheme \<Rightarrow> (tt_end \<times> ioparam \<times> 'a con_scheme) kcall" where
  "TTRead io s =
     (if \<not> has_flag (t_state (g_TTy s)) CARR_ON then Done (TT_Return, io, s)
      else kbind (if CharNum (t_canq (g_TTy s)) \<noteq> 0 then Done (TT_Return, True, s) else Canon s) (\<lambda>(e, ready, s).
        if e \<noteq> TT_Return then Done (e, io, s)
        else if ready then (let (io, s) = pass_loop (unat TTY_BUF_SIZE) io s in Done (TT_Return, io, s))
        else Done (TT_Return, io, s)))"

definition CPass :: "ioparam \<Rightarrow> 'a con_scheme \<Rightarrow> u8 \<times> ioparam" where
  "CPass io s =
     (let ch = umem s (m_Base io); io = io\<lparr>m_Base := m_Base io + 1\<rparr>
      in if m_Count io > 0 then (ch, io\<lparr>m_Count := m_Count io - 1\<rparr>) else (0xFF, io))"

fun write_chars :: "nat \<Rightarrow> ioparam \<Rightarrow> 'a con_scheme \<Rightarrow> ioparam \<times> 'a con_scheme" where
  "write_chars 0 io s = (io, s)"
| "write_chars (Suc n) io s =
     (let (ch, io) = CPass io s
      in if sint ch > 0
         then
           let s = (if CharNum (t_outq (g_TTy s)) > TTHIWAT then confirm (TTStart s) else s)
           in write_chars n io (to_tty (TTyOutput ch) s)
         else (io, s))"

definition TTWrite :: "ioparam \<Rightarrow> 'a con_scheme \<Rightarrow> ioparam \<times> 'a con_scheme" where
  "TTWrite io s =
     (if \<not> has_flag (t_state (g_TTy s)) CARR_ON then (io, s)
      else let (io, s) = write_chars (Suc (nat (m_Count io))) io s in (io, confirm (TTStart s)))"

section \<open>The console device\<close>

definition console_open :: "int \<Rightarrow> 'a con_scheme \<Rightarrow> 'a con_scheme" where
  "console_open dev s =
     (if dev mod 256 \<noteq> 0 then s
      else
        let s = s\<lparr>console_tty := True\<rparr>; i = u_procp s; p = process s ! i;
            s = (if p_ttyp p = None then set_proc i (p\<lparr>p_ttyp := Some 0\<rparr>) s else s)
        in if has_flag (t_state (g_TTy s)) ISOPEN then s
           else to_tty (\<lambda>t. t\<lparr>t_state := ISOPEN OR CARR_ON, t_flags := ECHO, t_erase := CERASE, t_kill := CKILL\<rparr>) s)"

text \<open>The routines of the device as the file system calls them; before the first open they fault.\<close>

definition console_read :: "'a con_scheme device" where
  "console_read = (\<lambda>dev (ip, io, s).
     if dev mod 256 \<noteq> 0 then Done (ip, io, s)
     else if \<not> console_tty s then Fault
     else kbind (TTRead io s) (\<lambda>(e, io, s). if e = TT_Return then Done (ip, io, s) else Asleep))"

definition console_write :: "'a con_scheme device" where
  "console_write = (\<lambda>dev (ip, io, s).
     if dev mod 256 \<noteq> 0 then Done (ip, io, s)
     else if \<not> console_tty s then Fault
     else let (io, s) = TTWrite io s in Done (ip, io, s))"

section \<open>The keyboard\<close>

definition Keymap :: "u8 list" where
  "Keymap =
    [0, 0x1B, 49, 50, 51, 52, 53, 54, 55, 56, 57, 48, 45, 61, 8, 9,
     113, 119, 101, 114, 116, 121, 117, 105, 111, 112, 91, 93, 10, 0, 97, 115,
     100, 102, 103, 104, 106, 107, 108, 59, 39, 96, 0, 92, 122, 120, 99, 118,
     98, 110, 109, 44, 46, 47, 0, 42, 0, 32, 0, 0, 0, 0, 0, 0,
     0, 0, 0, 0, 0, 0, 0, 55, 56, 57, 45, 52, 53, 54, 43, 49,
     50, 51, 48, 46, 0, 0, 0, 0]"

definition Shift_Keymap :: "u8 list" where
  "Shift_Keymap =
    [0, 0x1B, 33, 64, 35, 36, 37, 94, 38, 42, 40, 41, 95, 43, 8, 9,
     113, 119, 101, 114, 116, 121, 117, 105, 111, 112, 123, 125, 10, 0, 97, 115,
     100, 102, 103, 104, 106, 107, 108, 58, 34, 126, 0, 124, 122, 120, 99, 118,
     98, 110, 109, 60, 62, 63, 0, 42, 0, 32, 0, 0, 0, 0, 0, 0,
     0, 0, 0, 0, 0, 0, 0, 0, 0, 0, 45, 0, 0, 0, 43, 0,
     0, 0, 0, 0x7F, 0, 0, 0, 0]"

definition M_LCTRL :: u32 where "M_LCTRL = 0x01"
definition M_RCTRL :: u32 where "M_RCTRL = 0x02"
definition M_LALT :: u32 where "M_LALT = 0x04"
definition M_RALT :: u32 where "M_RALT = 0x08"
definition M_LSHIFT :: u32 where "M_LSHIFT = 0x10"
definition M_RSHIFT :: u32 where "M_RSHIFT = 0x20"
definition M_NUMLOCK :: u32 where "M_NUMLOCK = 0x40"
definition M_CAPSLOCK :: u32 where "M_CAPSLOCK = 0x80"
definition M_SCRLOCK :: u32 where "M_SCRLOCK = 0x100"
definition M_DOWN_NUMLOCK :: u32 where "M_DOWN_NUMLOCK = 0x200"
definition M_DOWN_CAPSLOCK :: u32 where "M_DOWN_CAPSLOCK = 0x400"
definition M_DOWN_SCRLOCK :: u32 where "M_DOWN_SCRLOCK = 0x800"

definition SIGINT :: int where "SIGINT = 2"

fun interrupt_all :: "nat list \<Rightarrow> 'a pm_scheme \<Rightarrow> 'a pm_scheme" where
  "interrupt_all [] s = s"
| "interrupt_all (k # ks) s = interrupt_all ks (if p_pid (process s ! k) > 1 then PSignal k SIGINT s else s)"

definition shifted :: "u32 \<Rightarrow> bool" where
  "shifted mode \<longleftrightarrow> has_flag mode M_LSHIFT \<or> has_flag mode M_RSHIFT"

definition ScanCodeTranslate :: "u8 \<Rightarrow> nat \<Rightarrow> 'a con_scheme \<Rightarrow> u8 \<times> 'a con_scheme" where
  "ScanCodeTranslate scanCode expand s =
     (let mode = kb_Mode s
      in if expand = 0xE1 then (5, s)
         else if scanCode < 0x45
         then
           let ch = (if shifted mode then Shift_Keymap ! unat scanCode else Keymap ! unat scanCode)
           in if 97 \<le> ch \<and> ch \<le> 122
              then if has_flag mode M_LCTRL \<or> has_flag mode M_RCTRL
                then if ch = 99
                  then (0, interrupt_all [0..<NPROC] (if console_tty s then FlushTTy s else s))
                  else (ch - 97 + 1, s)
                else if has_flag mode M_CAPSLOCK \<noteq> shifted mode then (ch - 32, s)
                else (ch, s)
              else (ch, s)
         else if scanCode < 0x58
         then (if expand = 0xE0 \<or> has_flag mode M_NUMLOCK = shifted mode then Shift_Keymap ! unat scanCode
               else Keymap ! unat scanCode, s)
         else (0, s))"

definition toggle :: "u32 \<Rightarrow> u32 \<Rightarrow> u32 \<Rightarrow> u32" where
  "toggle lock down mode = (if has_flag mode down then mode else set_flag (mode XOR lock) down)"

text \<open>The \<open>switch\<close> of \<open>HandleScanCode\<close>: the new mode, or \<open>None\<close> for a key that is not a modifier.\<close>

definition mode_key :: "u8 \<Rightarrow> nat \<Rightarrow> u32 \<Rightarrow> u32 option" where
  "mode_key scanCode expand mode =
     (let right = (expand = 0xE0)
      in if scanCode = 0x38 then Some (set_flag mode (if right then M_RALT else M_LALT))
         else if scanCode = 0x1D then Some (set_flag mode (if right then M_RCTRL else M_LCTRL))
         else if scanCode = 0x2A then Some (set_flag mode M_LSHIFT)
         else if scanCode = 0x36 then Some (set_flag mode M_RSHIFT)
         else if scanCode = 0xB8 then Some (clear_flag mode (if right then M_RALT else M_LALT))
         else if scanCode = 0x9D then Some (clear_flag mode (if right then M_RCTRL else M_LCTRL))
         else if scanCode = 0xAA then Some (clear_flag mode M_LSHIFT)
         else if scanCode = 0xB6 then Some (clear_flag mode M_RSHIFT)
         else if scanCode = 0x45 then Some (toggle M_NUMLOCK M_DOWN_NUMLOCK mode)
         else if scanCode = 0x3A then Some (toggle M_CAPSLOCK M_DOWN_CAPSLOCK mode)
         else if scanCode = 0x46 then Some (toggle M_SCRLOCK M_DOWN_SCRLOCK mode)
         else if scanCode = 0xC5 then Some (clear_flag mode M_DOWN_NUMLOCK)
         else if scanCode = 0xBA then Some (clear_flag mode M_DOWN_CAPSLOCK)
         else if scanCode = 0xC6 then Some (clear_flag mode M_DOWN_SCRLOCK)
         else None)"

definition HandleScanCode :: "u8 \<Rightarrow> nat \<Rightarrow> 'a con_scheme \<Rightarrow> 'a con_scheme" where
  "HandleScanCode scanCode expand s =
     (let (ch, s) = (if expand = 0xE1 then ScanCodeTranslate scanCode expand s else (0, s));
          (ch, s) = (case mode_key scanCode expand (kb_Mode s) of
             Some m \<Rightarrow> (ch, s\<lparr>kb_Mode := m\<rparr>)
           | None \<Rightarrow> ScanCodeTranslate scanCode expand s)
      in if ch \<noteq> 0 \<and> console_tty s then TTyInput ch s else s)"

definition handle_byte :: "u8 \<Rightarrow> 'a con_scheme \<Rightarrow> 'a con_scheme" where
  "handle_byte scancode s =
     (if pre_state s = 0
      then if scancode = 0xE0 \<or> scancode = 0xE1 then s\<lparr>pre_state := unat scancode\<rparr>
        else HandleScanCode scancode 0 (s\<lparr>pre_state := 0\<rparr>)
      else if pre_state s = 0xE0 then HandleScanCode scancode 0xE0 (s\<lparr>pre_state := 0\<rparr>)
      else if pre_state s = 0xE1 \<and> (scancode = 0x1D \<or> scancode = 0x9D) then s\<lparr>pre_state := 0x100\<rparr>
      else if pre_state s = 0x100 \<and> scancode = 0x45 then HandleScanCode scancode 0xE1 (s\<lparr>pre_state := 0\<rparr>)
      else s\<lparr>pre_state := 0\<rparr>)"

text \<open>One interrupt: the bytes the controller holds; at most ten are taken.\<close>

definition KeyboardHandler :: "u8 list \<Rightarrow> 'a con_scheme \<Rightarrow> u8 list \<times> 'a con_scheme" where
  "KeyboardHandler codes s = (drop 10 codes, fold handle_byte (take 10 codes) s)"

end
