(* ===== verification/KmDemo.thy ===== *)
theory KmDemo
  imports Terminal
begin

text \<open>A small machine for the examples: the process table of \<open>ProcDemo\<close>, no images, and the console as it is after the first open.\<close>

definition no_area :: uarea where
  "no_area = \<lparr>a_ofiles = replicate 15 None, a_cdir = 0, a_curdir = [], a_error = NOERROR, a_eax = 0, a_uid = 0, a_gid = 0, a_ruid = 0,
     a_rgid = 0, a_signal = replicate 32 0, a_utime = 0, a_stime = 0, a_cutime = 0, a_cstime = 0, a_arg0 = 0, a_eip = 0, a_esp = 0,
     a_procp = 0, a_md = no_md, a_umem = (\<lambda>a. 0)\<rparr>"

definition demo_km :: km where
  "demo_km = pm.extend demo_pm (km.fields (\<lambda>i. no_area) [])"

definition empty_queue :: queue where
  "empty_queue = \<lparr>m_Head = 0, m_Tail = 0, m_CharBuf = replicate 512 0\<rparr>"

definition demo_tty :: tty where
  "demo_tty = \<lparr>t_rawq = empty_queue, t_canq = empty_queue, t_outq = empty_queue, t_flags = ECHO, t_delct = 0, t_erase = CERASE,
     t_kill = CKILL, t_state = ISOPEN OR CARR_ON, Canonb = replicate 256 0\<rparr>"

definition demo_con :: con where
  "demo_con = km.extend demo_km (con.fields demo_tty True (\<lambda>i. 0) 0 0 None None 15 0 0)"

lemma demo_con_tty [simp]: "g_TTy demo_con = demo_tty" "kb_Mode demo_con = 0" "pre_state demo_con = 0" "console_tty demo_con"
  by (simp_all add: demo_con_def con.defs km.defs demo_km_def)

lemma demo_con_pm [simp]: "process demo_con = process demo_pm" "u_procp demo_con = 1" "umem demo_con = umem demo_pm"
  by (simp_all add: demo_con_def demo_km_def con.defs km.defs pm.defs demo_pm_def)

end
