(* ===== verification/TermSpec.thy ===== *)
theory TermSpec
  imports KmDemo
begin

text \<open>
  What the console guarantees: the queues are first-in first-out lists of at most 511 characters, the
  line discipline is a line editor, and the state of the terminal stays well-formed.
\<close>

section \<open>Queues as lists\<close>

text \<open>
  The interface of a queue of bounded capacity: \<open>contents\<close> is the list it stands for, \<open>ok\<close> its invariant,
  and \<open>none\<close> the answer of an empty queue.
\<close>

locale fifo =
  fixes get :: "'q \<Rightarrow> 'c \<times> 'q"
    and put :: "'c \<Rightarrow> 'q \<Rightarrow> 'q"
    and contents :: "'q \<Rightarrow> 'c list"
    and ok :: "'q \<Rightarrow> bool"
    and cap :: nat
    and none :: 'c
  assumes put_ok: "ok q \<Longrightarrow> ok (put c q)"
    and get_ok: "ok q \<Longrightarrow> ok (snd (get q))"
    and put_contents: "ok q \<Longrightarrow> length (contents q) < cap \<Longrightarrow> contents (put c q) = contents q @ [c]"
    and get_empty: "ok q \<Longrightarrow> contents q = [] \<Longrightarrow> get q = (none, q)"
    and get_contents: "ok q \<Longrightarrow> contents q = c # cs \<Longrightarrow> fst (get q) = c \<and> contents (snd (get q)) = cs"
begin

lemma get_Cons:
  assumes "ok q" "contents q = c # cs"
  obtains q' where "get q = (c, q')" "ok q'" "contents q' = cs"
  using get_contents [OF assms] get_ok [OF assms(1)] by (cases "get q") auto

lemma puts_ok: "ok q \<Longrightarrow> ok (fold put cs q)"
  by (induction cs arbitrary: q) (simp_all add: put_ok)

lemma puts_contents: "ok q \<Longrightarrow> length (contents q) + length cs \<le> cap \<Longrightarrow> contents (fold put cs q) = contents q @ cs"
  by (induction cs arbitrary: q) (simp_all add: put_ok put_contents)

end

definition queue_ok :: "queue \<Rightarrow> bool" where
  "queue_ok q \<longleftrightarrow> unat (m_Head q) < 512 \<and> unat (m_Tail q) < 512 \<and> length (m_CharBuf q) = 512"

definition queued :: "queue \<Rightarrow> u8 list" where
  "queued q =
     map (\<lambda>k. m_CharBuf q ! ((unat (m_Tail q) + k) mod 512)) [0..<(unat (m_Head q) + 512 - unat (m_Tail q)) mod 512]"

lemma unat_step: "unat i < 512 \<Longrightarrow> unat ((i + 1) mod TTY_BUF_SIZE) = (unat i + 1) mod 512" for i :: u32
  by (simp add: TTY_BUF_SIZE_def unat_mod unat_add_nowrap)

text \<open>Positions on the circle.\<close>

lemma gap:
  fixes h t :: nat
  shows "h < 512 \<Longrightarrow> t < 512 \<Longrightarrow> (h + 512 - t) mod 512 = (if t \<le> h then h - t else h + 512 - t)"
proof -
  assume b: "h < 512" "t < 512"
  show ?thesis
  proof (cases "t \<le> h")
    case True
    then have "h + 512 - t = (h - t) + 512" by simp
    with b True show ?thesis by (simp only: mod_add_self2) simp
  qed (use b in simp)
qed

lemma around:
  fixes t k :: nat
  shows "t + k < 1024 \<Longrightarrow> (t + k) mod 512 = (if t + k < 512 then t + k else t + k - 512)"
  by (simp add: mod_if [of "t + k"])

lemma unat_CharNum:
  assumes "queue_ok q"
  shows "unat (CharNum q) = length (queued q)"
proof -
  have b: "unat (m_Head q) < 512" "unat (m_Tail q) < 512" using assms by (simp_all add: queue_ok_def)
  have "CharNum q = (m_Head q - m_Tail q) mod 512"
  proof -
    have "TTY_BUF_SIZE - 1 = mask 9" by (simp add: TTY_BUF_SIZE_def mask_eq_exp_minus_1)
    then have "CharNum q = take_bit 9 (m_Head q - m_Tail q)" by (simp only: CharNum_def take_bit_eq_mask)
    then show ?thesis by (simp add: take_bit_eq_mod)
  qed
  then have u: "unat (CharNum q) = unat (m_Head q - m_Tail q) mod 512" by (simp add: unat_mod)
  show ?thesis
  proof (cases "unat (m_Tail q) \<le> unat (m_Head q)")
    case True
    then have "unat (m_Head q - m_Tail q) = unat (m_Head q) - unat (m_Tail q)" by (simp add: unat_sub word_le_nat_alt)
    with True b show ?thesis by (simp add: u queued_def gap)
  next
    case False
    then have "unat (m_Head q - m_Tail q) = (unat (m_Head q) + 512 - unat (m_Tail q)) + 8388607 * 512"
      using b by (simp add: unat_sub_if' word_le_nat_alt)
    then have "unat (m_Head q - m_Tail q) mod 512 = (unat (m_Head q) + 512 - unat (m_Tail q)) mod 512" by (simp only: mod_mult_self1)
    with False b show ?thesis by (simp add: u queued_def gap)
  qed
qed

lemma queued_Nil: "queue_ok q \<Longrightarrow> queued q = [] \<longleftrightarrow> m_Head q = m_Tail q"
proof -
  assume q: "queue_ok q"
  have "(h + 512 - t) mod 512 = 0 \<longleftrightarrow> h = t" if "h < 512" "t < 512" for h t :: nat
    using that by (simp add: gap)
  with q show ?thesis by (simp add: queued_def queue_ok_def word_eq_unat)
qed

lemma queued_bound: "length (queued q) \<le> 511"
proof -
  have "(n :: nat) mod 512 \<le> 511" for n by (rule order_trans [of _ "512 - 1"]) (simp_all add: mod_less_divisor less_Suc_eq_le [symmetric])
  then show ?thesis by (simp add: queued_def)
qed

interpretation cq: fifo GetChar PutChar queued queue_ok 511 GET_ERROR
proof unfold_locales
  fix q c
  assume q: "queue_ok q"
  then show "queue_ok (PutChar c q)" by (simp add: PutChar_def queue_ok_def unat_step)
  show "queue_ok (snd (GetChar q))" using q by (simp add: GetChar_def queue_ok_def unat_step)
  show "queued q = [] \<Longrightarrow> GetChar q = (GET_ERROR, q)" using q by (simp add: GetChar_def queued_Nil)
  let ?h = "unat (m_Head q)" and ?t = "unat (m_Tail q)"
  have b: "?h < 512" "?t < 512" using q by (simp_all add: queue_ok_def)
  show "queued (PutChar c q) = queued q @ [c]" if l: "length (queued q) < 511"
  proof -
    have g: "(?h + 512 - ?t) mod 512 < 511" using l by (simp add: queued_def)
    have n: "((?h + 1) mod 512 + 512 - ?t) mod 512 = Suc ((?h + 512 - ?t) mod 512)"
    proof -
      have "(?h + 1) mod 512 < 512" by simp
      then show ?thesis using g b by (simp only: gap around [of ?h 1]) (auto split: if_splits)
    qed
    have i: "(?t + k) mod 512 \<noteq> ?h" if "k < (?h + 512 - ?t) mod 512" for k
    proof -
      have "?t + k < 1024" using that b gap [OF b] by (simp split: if_splits)
      then show ?thesis using that b gap [OF b] by (cases "?t + k < 512") (auto simp: around split: if_splits)
    qed
    have e: "(?t + (?h + 512 - ?t) mod 512) mod 512 = ?h"
    proof -
      have "?t + (?h + 512 - ?t) mod 512 < 1024" using b gap [OF b] by (simp split: if_splits)
      then show ?thesis using b by (simp only: around gap) (auto split: if_splits)
    qed
    show ?thesis using q n i [THEN not_sym] e
      by (simp add: queued_def PutChar_def unat_step queue_ok_def)
  qed
  show "fst (GetChar q) = a \<and> queued (snd (GetChar q)) = as" if c: "queued q = a # as" for a as
  proof -
    let ?n = "(?h + 512 - ?t) mod 512"
    have ne: "m_Head q \<noteq> m_Tail q" using c q queued_Nil by fastforce
    have n: "?n \<noteq> 0"
    proof
      assume "?n = 0"
      then have "queued q = []" by (simp add: queued_def)
      with c show False by simp
    qed
    have m: "(?h + 512 - (?t + 1) mod 512) mod 512 = ?n - 1"
    proof -
      have "(?t + 1) mod 512 < 512" by simp
      then show ?thesis using n b by (simp only: gap around [of ?t 1]) (auto split: if_splits)
    qed
    have u: "[0..<?n] = 0 # map Suc [0..<?n - 1]" using n by (cases ?n) (simp_all add: map_Suc_upt upt_conv_Cons)
    have k: "((?t + 1) mod 512 + j) mod 512 = (?t + Suc j) mod 512" for j by (simp add: mod_simps)
    show ?thesis using c q ne b
      by (simp add: GetChar_def queued_def unat_step m [simplified] u k [simplified] queue_ok_def comp_def)
  qed
qed


section \<open>The invariant of the terminal\<close>

text \<open>The output to the screen and the wake-ups keep everything the input side looks at.\<close>

definition no_queue :: queue where
  "no_queue = \<lparr>m_Head = 0, m_Tail = 0, m_CharBuf = []\<rparr>"

definition screen_off :: "'a con_scheme \<Rightarrow> 'a con_scheme" where
  "screen_off s = s\<lparr>g_TTy := (g_TTy s)\<lparr>t_outq := no_queue\<rparr>, m_VideoMemory := (\<lambda>i. 0), m_CursorX := 0, m_CursorY := 0,
     m_Position := None, m_BeginChar := None\<rparr>"

definition table_off :: "'a pm_scheme \<Rightarrow> 'a pm_scheme" where
  "table_off s = s\<lparr>process := [], RunRun := 0, RunIn := 0, RunOut := 0\<rparr>"

named_theorems screen_simps "what the screen routines keep"

lemma screen_cell [screen_simps]: "screen_off (put_cell c s) = screen_off s" "g_TTy (put_cell c s) = g_TTy s"
  by (simp_all add: screen_off_def put_cell_def)

lemma screen_cursor [screen_simps]: "screen_off (s\<lparr>m_CursorX := x\<rparr>) = screen_off s" "screen_off (s\<lparr>m_CursorY := y\<rparr>) = screen_off s"
  "screen_off (s\<lparr>m_Position := p\<rparr>) = screen_off s" "screen_off (s\<lparr>m_VideoMemory := v\<rparr>) = screen_off s"
  "screen_off (s\<lparr>m_BeginChar := p\<rparr>) = screen_off s"
  by (simp_all add: screen_off_def)

lemma screen_NextLine [screen_simps]: "screen_off (NextLine s) = screen_off s" "g_TTy (NextLine s) = g_TTy s"
  by (simp_all add: NextLine_def ClearScreen_def Let_def screen_simps)

lemma screen_chars [screen_simps]: "screen_off (BackSpace s) = screen_off s" "g_TTy (BackSpace s) = g_TTy s"
  "screen_off (Tab s) = screen_off s" "g_TTy (Tab s) = g_TTy s"
  "screen_off (WriteChar c s) = screen_off s" "g_TTy (WriteChar c s) = g_TTy s"
  by (simp_all add: BackSpace_def Tab_def WriteChar_def Let_def screen_simps)

lemma screen_step [screen_simps]: "screen_off (step_position d s) = screen_off s" "g_TTy (step_position d s) = g_TTy s"
  "screen_off (confirm s) = screen_off s" "g_TTy (confirm s) = g_TTy s"
  by (simp_all add: step_position_def confirm_def screen_simps)

lemma screen_show_char [screen_simps]: "screen_off (show_char ch s) = screen_off s" "g_TTy (show_char ch s) = g_TTy s"
  by (simp_all add: show_char_def Let_def screen_simps)

lemma screen_off_outq: "screen_off (s\<lparr>g_TTy := (g_TTy s)\<lparr>t_outq := q\<rparr>\<rparr>) = screen_off s"
  by (simp add: screen_off_def)

lemma screen_show_loop [screen_simps]: "screen_off (show_loop n s) = screen_off s"
proof (induction n arbitrary: s)
  case (Suc n)
  show ?case by (simp add: Let_def case_prod_beta Suc.IH screen_simps screen_off_outq)
qed simp

lemma outq_show_loop: "queue_ok (t_outq (g_TTy s)) \<Longrightarrow> queue_ok (t_outq (g_TTy (show_loop n s)))"
proof (induction n arbitrary: s)
  case (Suc n)
  then show ?case by (simp add: Let_def case_prod_beta screen_simps cq.get_ok)
qed simp

lemma screen_TTStart [screen_simps]: "screen_off (TTStart s) = screen_off s"
  by (simp add: TTStart_def CRTStart_def Let_def screen_simps)

lemma outq_TTStart: "queue_ok (t_outq (g_TTy s)) \<Longrightarrow> queue_ok (t_outq (g_TTy (TTStart s)))"
  by (simp add: TTStart_def CRTStart_def Let_def outq_show_loop screen_simps)

lemma screen_TTyOutput [screen_simps]: "screen_off (to_tty (TTyOutput ch) s) = screen_off s"
  by (simp add: to_tty_def TTyOutput_def screen_off_def Let_def)

lemma table_make_ready: "table_off (make_ready i s) = table_off s"
  by (simp add: make_ready_def Let_def set_proc_def table_off_def)

lemma table_wake_ready: "table_off (wake_ready chan is s) = table_off s"
  by (induction "is" arbitrary: s) (simp_all add: table_make_ready)

lemma table_RunOut: "table_off (s\<lparr>RunOut := r\<rparr>) = table_off s" "table_off (s\<lparr>RunIn := r\<rparr>) = table_off s"
  "table_off (set_proc i p s) = table_off s"
  by (simp_all add: table_off_def set_proc_def)

lemma table_SetRun: "table_off (SetRun i s) = table_off s"
  by (simp add: SetRun_def Let_def table_wake_ready table_make_ready table_RunOut)

lemma table_wake_up: "table_off (wake_up chan is s) = table_off s"
  by (induction "is" arbitrary: s) (simp_all add: table_SetRun)

lemma table_WakeUpAll: "table_off (WakeUpAll chan s) = table_off s"
  by (simp add: WakeUpAll_def table_wake_up)

lemma table_PSignal: "table_off (PSignal i sig s) = table_off s"
  by (simp add: PSignal_def Let_def table_SetRun) (simp add: table_off_def set_proc_def)

lemma table_interrupt_all: "table_off (interrupt_all is s) = table_off s"
  by (induction "is" arbitrary: s) (simp_all add: table_PSignal)

lemma table_Sleep: "Sleep i chan pri s = Done (r, t) \<Longrightarrow> table_off t = table_off s"
  by (cases "IsSig i s") (auto simp: Sleep_def Let_def table_RunOut table_WakeUpAll split: if_splits)

text \<open>What follows from equal states but for the table or the screen.\<close>

lemma table_off_keeps: "table_off s = table_off t \<Longrightarrow> g_TTy s = g_TTy t \<and> umem s = umem t \<and> console_tty s = console_tty t \<and>
    kb_Mode s = kb_Mode t \<and> pre_state s = pre_state t \<and> CRT_ROWS s = CRT_ROWS t \<and> u_procp s = u_procp t"
  for s t :: "'a con_scheme"
proof -
  assume e: "table_off s = table_off t"
  have "g_TTy (table_off s) = g_TTy s \<and> umem (table_off s) = umem s \<and> console_tty (table_off s) = console_tty s \<and>
      kb_Mode (table_off s) = kb_Mode s \<and> pre_state (table_off s) = pre_state s \<and> CRT_ROWS (table_off s) = CRT_ROWS s \<and>
      u_procp (table_off s) = u_procp s" for s :: "'a con_scheme"
    by (simp add: table_off_def)
  with e show ?thesis by metis
qed

lemma screen_off_keeps:
  assumes e: "screen_off s = screen_off t"
  shows "t_rawq (g_TTy s) = t_rawq (g_TTy t)" "t_canq (g_TTy s) = t_canq (g_TTy t)" "t_flags (g_TTy s) = t_flags (g_TTy t)"
    "t_delct (g_TTy s) = t_delct (g_TTy t)" "t_erase (g_TTy s) = t_erase (g_TTy t)" "t_kill (g_TTy s) = t_kill (g_TTy t)"
    "t_state (g_TTy s) = t_state (g_TTy t)" "Canonb (g_TTy s) = Canonb (g_TTy t)" "umem s = umem t" "console_tty s = console_tty t"
    "kb_Mode s = kb_Mode t" "pre_state s = pre_state t" "process s = process t" "u_procp s = u_procp t"
proof -
  have "t_rawq (g_TTy (screen_off s)) = t_rawq (g_TTy s)" "t_canq (g_TTy (screen_off s)) = t_canq (g_TTy s)"
    "t_flags (g_TTy (screen_off s)) = t_flags (g_TTy s)" "t_delct (g_TTy (screen_off s)) = t_delct (g_TTy s)"
    "t_erase (g_TTy (screen_off s)) = t_erase (g_TTy s)" "t_kill (g_TTy (screen_off s)) = t_kill (g_TTy s)"
    "t_state (g_TTy (screen_off s)) = t_state (g_TTy s)" "Canonb (g_TTy (screen_off s)) = Canonb (g_TTy s)"
    "umem (screen_off s) = umem s" "console_tty (screen_off s) = console_tty s" "kb_Mode (screen_off s) = kb_Mode s"
    "pre_state (screen_off s) = pre_state s" "process (screen_off s) = process s" "u_procp (screen_off s) = u_procp s" for s :: "'a con_scheme"
    by (simp_all add: screen_off_def)
  note p = this
  show "t_rawq (g_TTy s) = t_rawq (g_TTy t)" "t_canq (g_TTy s) = t_canq (g_TTy t)" "t_flags (g_TTy s) = t_flags (g_TTy t)"
    "t_delct (g_TTy s) = t_delct (g_TTy t)" "t_erase (g_TTy s) = t_erase (g_TTy t)" "t_kill (g_TTy s) = t_kill (g_TTy t)"
    "t_state (g_TTy s) = t_state (g_TTy t)" "Canonb (g_TTy s) = Canonb (g_TTy t)" "umem s = umem t" "console_tty s = console_tty t"
    "kb_Mode s = kb_Mode t" "pre_state s = pre_state t" "process s = process t" "u_procp s = u_procp t"
    using p [of s] p [of t] e by simp_all
qed


text \<open>Well-formed: every index into the queues and into \<open>Canonb\<close> is in range, and the delimiter count is not negative.\<close>

definition tty_ok :: "tty \<Rightarrow> bool" where
  "tty_ok t \<longleftrightarrow> queue_ok (t_rawq t) \<and> queue_ok (t_canq t) \<and> queue_ok (t_outq t) \<and> length (Canonb t) = CANBSIZ \<and> 0 \<le> t_delct t"

lemma ok_drain: "queue_ok q \<Longrightarrow> queue_ok (drain n q)"
proof (induction n arbitrary: q)
  case (Suc n)
  then show ?case using cq.get_ok [OF Suc.prems] by (simp add: Let_def case_prod_beta)
qed simp

lemma ok_TTyOutput: "tty_ok t \<Longrightarrow> tty_ok (TTyOutput ch t)"
  by (simp add: tty_ok_def TTyOutput_def Let_def cq.put_ok)

lemma ok_screen: "screen_off s = screen_off t \<Longrightarrow> queue_ok (t_outq (g_TTy s)) \<Longrightarrow> tty_ok (g_TTy t) \<Longrightarrow> tty_ok (g_TTy s)"
  using screen_off_keeps [of s t] by (simp add: tty_ok_def)

lemma ok_TTStart: "tty_ok (g_TTy s) \<Longrightarrow> tty_ok (g_TTy (TTStart s))"
  by (rule ok_screen [OF screen_TTStart]) (simp_all add: outq_TTStart tty_ok_def)

lemma tty_of [simp]: "g_TTy (to_tty f s) = f (g_TTy s)"
  by (simp add: to_tty_def)

lemma tty_wake [simp]: "g_TTy (WakeUpAll chan s) = g_TTy s"
  using table_off_keeps [OF table_WakeUpAll] by blast

lemma tty_interrupt [simp]: "g_TTy (interrupt_all is s) = g_TTy s"
  using table_off_keeps [OF table_interrupt_all] by blast

lemma ok_put_raw: "tty_ok t \<Longrightarrow> tty_ok (put_raw ch t)"
  by (simp add: tty_ok_def put_raw_def cq.put_ok)

lemma ok_delct: "tty_ok t \<Longrightarrow> 0 \<le> d \<Longrightarrow> tty_ok (t\<lparr>t_delct := d\<rparr>)"
  by (simp add: tty_ok_def)

lemma ok_TTyInput:
  assumes "tty_ok (g_TTy s)"
  shows "tty_ok (g_TTy (TTyInput ch s))"
proof -
  let ?c = "input_char ch (g_TTy s)"
  have 1: "tty_ok (put_raw ?c (g_TTy s))" by (rule ok_put_raw [OF assms])
  have 2: "tty_ok ((put_raw 7 (put_raw ?c (g_TTy s)))\<lparr>t_delct := t_delct (put_raw ?c (g_TTy s)) + 1\<rparr>)"
    by (rule ok_delct [OF ok_put_raw [OF 1]]) (use 1 in \<open>simp add: tty_ok_def\<close>)
  show ?thesis using 1 2 by (auto simp: TTyInput_def Let_def intro!: ok_TTStart ok_TTyOutput)
qed

lemma ok_FlushTTy: "tty_ok (g_TTy s) \<Longrightarrow> tty_ok (g_TTy (FlushTTy s))"
  by (simp add: FlushTTy_def Let_def tty_ok_def ok_drain)

lemma ok_canon_loop: "tty_ok t \<Longrightarrow> 0 < t_delct t \<Longrightarrow> tty_ok (snd (canon_loop n p t))"
proof (induction n p t rule: canon_loop.induct)
  case (2 n p t)
  obtain ch q where g: "GetChar (t_rawq t) = (ch, q)" by (cases "GetChar (t_rawq t)")
  have q: "queue_ok q" using cq.get_ok [of "t_rawq t"] "2.prems" g by (simp add: tty_ok_def)
  have t: "tty_ok (t\<lparr>t_rawq := q\<rparr>)" "tty_ok (t\<lparr>t_rawq := q, Canonb := (Canonb t)[p := ch]\<rparr>)" "0 \<le> t_delct t - 1"
    using "2.prems" q by (simp_all add: tty_ok_def)
  note IH = "2.IH" [OF g [symmetric] refl refl]
  show ?case using t IH "2.prems" g by (simp add: Let_def ok_delct)
qed simp

lemma ok_canonize: "tty_ok t \<Longrightarrow> 0 < t_delct t \<Longrightarrow> tty_ok (canonize t)"
  using ok_canon_loop [of t "unat TTY_BUF_SIZE" 2]
  by (cases "canon_loop (unat TTY_BUF_SIZE) 2 t") (simp add: canonize_def tty_ok_def cq.puts_ok)

lemma ok_pass_loop: "tty_ok (g_TTy s) \<Longrightarrow> tty_ok (g_TTy (snd (pass_loop n io s)))"
proof (induction n arbitrary: io s)
  case (Suc n)
  obtain ch q where g: "GetChar (t_canq (g_TTy s)) = (ch, q)" by (cases "GetChar (t_canq (g_TTy s))")
  have q: "queue_ok q" using cq.get_ok [of "t_canq (g_TTy s)"] Suc.prems g by (simp add: tty_ok_def)
  then have "tty_ok ((g_TTy s)\<lparr>t_canq := q\<rparr>)" using Suc.prems by (simp add: tty_ok_def)
  then show ?case using Suc g by (simp add: Let_def PassC_def)
qed simp


lemma ok_Canon:
  assumes "tty_ok (g_TTy s)" "Canon s = Done (e, r, t)"
  shows "tty_ok (g_TTy t)"
proof (cases "t_delct (g_TTy s) = 0")
  case True
  have k: "g_TTy u = g_TTy s" if "Sleep (u_procp s) AtRawq TTIPRI s = Done (r, u)" for r u
    using table_off_keeps [OF table_Sleep [OF that]] by blast
  show ?thesis using assms True k
    by (cases "Sleep (u_procp s) AtRawq TTIPRI s") (auto simp: Canon_def split: if_splits prod.splits)
next
  case False
  then show ?thesis using assms ok_canonize [of "g_TTy s"] by (auto simp: Canon_def tty_ok_def)
qed

lemma ok_TTRead:
  assumes "tty_ok (g_TTy s)" "TTRead io s = Done (e, io', t)"
  shows "tty_ok (g_TTy t)"
proof (cases "has_flag (t_state (g_TTy s)) CARR_ON")
  case True
  define c where "c = (if CharNum (t_canq (g_TTy s)) \<noteq> 0 then Done (TT_Return, True, s) else Canon s)"
  have "\<exists>e1 ready u. c = Done (e1, ready, u)" using assms True by (cases c) (auto simp: TTRead_def c_def [symmetric])
  then obtain e1 ready u where c: "c = Done (e1, ready, u)" by blast
  have u: "tty_ok (g_TTy u)" using c assms(1) ok_Canon [of s e1 ready u] by (auto simp: c_def split: if_splits)
  show ?thesis using assms(2) True c ok_pass_loop [OF u, of "unat TTY_BUF_SIZE" io] u
    by (auto simp: TTRead_def c_def [symmetric] case_prod_beta split: if_splits)
qed (use assms in \<open>simp add: TTRead_def\<close>)

lemma ok_write_chars: "tty_ok (g_TTy s) \<Longrightarrow> tty_ok (g_TTy (snd (write_chars n io s)))"
proof (induction n arbitrary: io s)
  case (Suc n)
  obtain ch io' where c: "CPass io s = (ch, io')" by (cases "CPass io s")
  have "tty_ok (g_TTy (if CharNum (t_outq (g_TTy s)) > TTHIWAT then confirm (TTStart s) else s))"
    using Suc.prems by (simp add: screen_simps ok_TTStart)
  then show ?case using Suc.IH c Suc.prems by (simp add: Let_def ok_TTyOutput)
qed simp

lemma ok_TTWrite: "tty_ok (g_TTy s) \<Longrightarrow> tty_ok (g_TTy (snd (TTWrite io s)))"
  using ok_write_chars [of s "Suc (nat (m_Count io))" io]
  by (simp add: TTWrite_def case_prod_beta screen_simps ok_TTStart)

lemma tty_set_proc [simp]: "g_TTy (set_proc i p s) = g_TTy s"
  by (simp add: set_proc_def)

lemma ok_console_open: "tty_ok (g_TTy s) \<Longrightarrow> tty_ok (g_TTy (console_open dev s))"
  by (simp add: console_open_def Let_def tty_ok_def)

lemma ok_Translate: "tty_ok (g_TTy s) \<Longrightarrow> tty_ok (g_TTy (snd (ScanCodeTranslate c e s)))"
  by (simp add: ScanCodeTranslate_def Let_def ok_FlushTTy)

lemma ok_HandleScanCode:
  assumes "tty_ok (g_TTy s)"
  shows "tty_ok (g_TTy (HandleScanCode c e s))"
proof -
  obtain ch s1 where 1: "(if e = 0xE1 then ScanCodeTranslate c e s else (0, s)) = (ch, s1)" by (cases "if e = 0xE1 then ScanCodeTranslate c e s else (0, s)")
  then have o1: "tty_ok (g_TTy s1)" using ok_Translate [OF assms, of c e] assms by (auto split: if_splits)
  obtain ch2 s2 where 2: "(case mode_key c e (kb_Mode s1) of Some m \<Rightarrow> (ch, s1\<lparr>kb_Mode := m\<rparr>) | None \<Rightarrow> ScanCodeTranslate c e s1) = (ch2, s2)"
    by (cases "case mode_key c e (kb_Mode s1) of Some m \<Rightarrow> (ch, s1\<lparr>kb_Mode := m\<rparr>) | None \<Rightarrow> ScanCodeTranslate c e s1")
  then have "tty_ok (g_TTy s2)" using ok_Translate [OF o1, of c e] o1 by (auto split: option.splits)
  then show ?thesis using 1 2 by (simp add: HandleScanCode_def ok_TTyInput)
qed

lemma ok_handle_byte: "tty_ok (g_TTy s) \<Longrightarrow> tty_ok (g_TTy (handle_byte c s))"
  by (simp add: handle_byte_def ok_HandleScanCode)

text \<open>What can happen to the console: keys, reads, writes and opens, in any order.\<close>

inductive term_step :: "'a con_scheme \<Rightarrow> 'a con_scheme \<Rightarrow> bool" where
  key: "term_step s (snd (KeyboardHandler codes s))"
| input: "term_step s (TTyInput ch s)"
| reading: "TTRead io s = Done (e, io', t) \<Longrightarrow> term_step s t"
| writing: "term_step s (snd (TTWrite io s))"
| set_up: "term_step s (console_open dev s)"
| flush: "term_step s (FlushTTy s)"

lemma ok_term_step: "term_step s t \<Longrightarrow> tty_ok (g_TTy s) \<Longrightarrow> tty_ok (g_TTy t)"
proof (induction rule: term_step.induct)
  case (key s codes)
  have "tty_ok (g_TTy s) \<Longrightarrow> tty_ok (g_TTy (fold handle_byte cs s))" for cs
    by (induction cs arbitrary: s) (simp_all add: ok_handle_byte)
  with key show ?case by (simp add: KeyboardHandler_def)
qed (auto intro: ok_TTyInput ok_TTRead ok_TTWrite ok_console_open ok_FlushTTy)


section \<open>The line editor\<close>

text \<open>
  What the line discipline is to do with a line: \<open>acc\<close> is what has been kept so far.  The erase
  character removes the last character kept, the kill character all of them, and a backslash takes
  the meaning from the character behind it.
\<close>

fun edit :: "u8 list \<Rightarrow> u8 list \<Rightarrow> u8 list" where
  "edit acc [] = acc"
| "edit acc (c # cs) =
     (if acc \<noteq> [] \<and> last acc = backslash then edit (acc @ [c]) cs
      else if c = CERASE then edit (butlast acc) cs
      else if c = CKILL then edit [] cs
      else if c = CEOT then edit acc cs
      else edit (acc @ [c]) cs)"

definition cooked :: "tty \<Rightarrow> bool" where
  "cooked t \<longleftrightarrow> tty_ok t \<and> t_flags t = ECHO \<and> has_flag (t_state t) CARR_ON \<and> t_erase t = CERASE \<and> t_kill t = CKILL \<and>
     Canonb t ! 1 \<noteq> backslash"

lemma cooked_not_raw: "cooked t \<Longrightarrow> \<not> has_flag (t_flags t) RAW"
  by (simp add: cooked_def has_flag_def ECHO_def RAW_def)

definition work :: "nat \<Rightarrow> tty \<Rightarrow> u8 list" where
  "work p t = drop 2 (take p (Canonb t))"

lemma work_store:
  assumes "2 \<le> p" "p < length (Canonb t)"
  shows "work (p + 1) (t\<lparr>Canonb := (Canonb t)[p := c]\<rparr>) = work p t @ [c]"
proof -
  have "take (p + 1) ((Canonb t)[p := c]) = take p (Canonb t) @ [c]"
    using assms(2) by (simp add: take_Suc_conv_app_nth)
  then show ?thesis using assms by (simp add: work_def)
qed

lemma work_last: "2 < p \<Longrightarrow> p \<le> length (Canonb t) \<Longrightarrow> last (work p t) = Canonb t ! (p - 1) \<and> work p t \<noteq> []"
  by (simp add: work_def last_drop last_conv_nth numeral_2_eq_2 numeral_3_eq_3 Suc_diff_Suc)

lemma work_erase: "2 < p \<Longrightarrow> p \<le> length (Canonb t) \<Longrightarrow> work (p - 1) t = butlast (work p t)"
  by (simp add: work_def butlast_drop butlast_take)

lemma work_length: "p \<le> length (Canonb t) \<Longrightarrow> length (work p t) = p - 2"
  by (simp add: work_def)

text \<open>The character before \<open>pChar\<close> decides as the last one kept does.\<close>

lemma escaped:
  assumes "cooked t" "2 \<le> p" "p \<le> CANBSIZ"
  shows "Canonb t ! (p - 1) = backslash \<longleftrightarrow> work p t \<noteq> [] \<and> last (work p t) = backslash"
proof (cases "p = 2")
  case True
  then show ?thesis using assms by (simp add: work_def cooked_def)
next
  case False
  then show ?thesis using assms work_last [of p t] by (simp add: cooked_def tty_ok_def)
qed

lemma cooked_get: "cooked t \<Longrightarrow> queue_ok q \<Longrightarrow> cooked (t\<lparr>t_rawq := q\<rparr>)"
  by (simp add: cooked_def tty_ok_def)

lemma cooked_store: "cooked t \<Longrightarrow> 2 \<le> p \<Longrightarrow> cooked (t\<lparr>Canonb := (Canonb t)[p := c]\<rparr>)"
  by (simp add: cooked_def tty_ok_def)

definition line_char :: "u8 \<Rightarrow> bool" where
  "line_char c \<longleftrightarrow> 0 \<le> sint c \<and> c \<noteq> 7"

lemma canon_loop_edit:
  assumes "cooked t" "0 < t_delct t" "2 \<le> p" "p + length cs \<le> 255" "length cs < n" "queued (t_rawq t) = cs @ 7 # rest"
    "\<forall>c \<in> set cs. line_char c"
  shows "\<exists>p' t'. canon_loop n p t = (p', t') \<and> work p' t' = edit (work p t) cs \<and> cooked t' \<and> queued (t_rawq t') = rest \<and>
           t_delct t' = t_delct t - 1 \<and> t_canq t' = t_canq t"
  using assms
proof (induction cs arbitrary: n p t)
  case Nil
  then obtain m where n: "n = Suc m" by (cases n) auto
  have q: "queue_ok (t_rawq t)" using Nil.prems by (simp add: cooked_def tty_ok_def)
  obtain q' where g: "GetChar (t_rawq t) = (7, q')" "queue_ok q'" "queued q' = rest" using cq.get_Cons [OF q, of 7 rest] Nil.prems(6) by auto
  have c: "cooked (t\<lparr>t_rawq := q', t_delct := t_delct t - 1\<rparr>)" using cooked_get [OF Nil.prems(1) g(2)] Nil.prems(2)
    by (simp add: cooked_def tty_ok_def)
  show ?case using g c by (simp add: n work_def)
next
  case (Cons c cs)
  then obtain m where n: "n = Suc m" by (cases n) auto
  have q: "queue_ok (t_rawq t)" using Cons.prems by (simp add: cooked_def tty_ok_def)
  obtain q' where g: "GetChar (t_rawq t) = (c, q')" "queue_ok q'" "queued q' = cs @ 7 # rest"
    using cq.get_Cons [OF q, of c "cs @ 7 # rest"] Cons.prems(6) by auto
  define u where "u = t\<lparr>t_rawq := q'\<rparr>"
  have u: "cooked u" "queued (t_rawq u) = cs @ 7 # rest" "t_delct u = t_delct t" "t_canq u = t_canq t" "work p u = work p t" for p
    using cooked_get [OF Cons.prems(1) g(2)] g(3) by (simp_all add: u_def work_def)
  have lc: "sint c \<ge> 0" "c \<noteq> 7" "\<forall>c \<in> set cs. line_char c" using Cons.prems(7) by (simp_all add: line_char_def)
  have pb: "p \<le> CANBSIZ" "p < length (Canonb u)" "p + 1 < CANBSIZ" using Cons.prems(4) u(1) by (simp_all add: CANBSIZ_def cooked_def tty_ok_def)
  have IH: "\<exists>p'' t'. canon_loop m p' v = (p'', t') \<and> work p'' t' = edit (work p' v) cs \<and> cooked t' \<and> queued (t_rawq t') = rest \<and>
      t_delct t' = t_delct t - 1 \<and> t_canq t' = t_canq t"
    if "cooked v" "t_rawq v = q'" "t_delct v = t_delct t" "t_canq v = t_canq t" "2 \<le> p'" "p' \<le> p + 1" for p' v
    using Cons.IH [OF that(1), of p' m] that Cons.prems(2,4,5) g(3) lc(3) n by simp
  have k: "t_erase u = CERASE" "t_kill u = CKILL" "\<not> has_flag (t_flags u) RAW" using u(1) cooked_not_raw [OF u(1)] by (simp_all add: cooked_def)
  have esc: "Canonb u ! (p - 1) = backslash \<longleftrightarrow> work p t \<noteq> [] \<and> last (work p t) = backslash"
    using escaped [OF u(1) Cons.prems(3) pb(1)] u(5) by simp
  have step: "canon_loop n p t =
      (if Canonb u ! (p - 1) \<noteq> backslash \<and> c = CERASE then canon_loop m (if p > 2 then p - 1 else p) u
       else if Canonb u ! (p - 1) \<noteq> backslash \<and> c = CKILL then canon_loop m 2 u
       else if Canonb u ! (p - 1) \<noteq> backslash \<and> c = CEOT then canon_loop m p u
       else canon_loop m (p + 1) (u\<lparr>Canonb := (Canonb u)[p := c]\<rparr>))"
  proof -
    have f: "Canonb t = Canonb u" "t_erase t = CERASE" "t_kill t = CKILL" "\<not> has_flag (t_flags t) RAW"
      "t\<lparr>t_rawq := q', Canonb := (Canonb u)[p := c]\<rparr> = u\<lparr>Canonb := (Canonb u)[p := c]\<rparr>"
      using k by (simp_all add: u_def)
    have "\<not> sint c < 0" "\<not> CANBSIZ \<le> p + 1" using lc pb(3) by simp_all
    with lc(2) show ?thesis using f k by (simp add: n g(1) Let_def u_def [symmetric])
  qed
  have st: "\<exists>p'' t'. canon_loop m (p + 1) (u\<lparr>Canonb := (Canonb u)[p := c]\<rparr>) = (p'', t') \<and> work p'' t' = edit (work p t @ [c]) cs \<and> cooked t' \<and>
      queued (t_rawq t') = rest \<and> t_delct t' = t_delct t - 1 \<and> t_canq t' = t_canq t"
    using IH [OF cooked_store [OF u(1) Cons.prems(3)], of c "p + 1"] work_store [OF Cons.prems(3) pb(2)] u(5) Cons.prems(3)
    by (simp add: u_def)
  have er: "work (if p > 2 then p - 1 else p) u = butlast (work p t)"
    using work_erase [of p u] pb Cons.prems(3) u(5) by (auto simp: work_def)
  have kl: "work 2 u = []" by (simp add: work_def)
  have ue: "t_rawq u = q'" by (simp add: u_def)
  show ?case
  proof (cases "Canonb u ! (p - 1) = backslash")
    case True
    then have "edit (work p t) (c # cs) = edit (work p t @ [c]) cs" using esc by simp
    then show ?thesis using st True by (simp add: step)
  next
    case False
    then have e: "\<not> (work p t \<noteq> [] \<and> last (work p t) = backslash)" using esc by simp
    consider "c = CERASE" | "c \<noteq> CERASE" "c = CKILL" | "c \<noteq> CERASE" "c \<noteq> CKILL" "c = CEOT" | "c \<noteq> CERASE" "c \<noteq> CKILL" "c \<noteq> CEOT" by blast
    then show ?thesis
    proof cases
      case 1
      let ?q = "if p > 2 then p - 1 else p"
      have q: "2 \<le> ?q" "?q \<le> p + 1" using Cons.prems(3) by (cases "p > 2"; auto)+
      have "canon_loop n p t = canon_loop m ?q u" using step False 1 by simp
      moreover have "edit (work p t) (c # cs) = edit (butlast (work p t)) cs" using e 1 by auto
      ultimately show ?thesis using IH [OF u(1) ue u(3,4) q] unfolding er by simp
    next
      case 2
      have q: "(2 :: nat) \<le> 2" "2 \<le> p + 1" using Cons.prems(3) by simp_all
      have "canon_loop n p t = canon_loop m 2 u" using step False 2 by simp
      moreover have "edit (work p t) (c # cs) = edit [] cs" using e 2 by auto
      ultimately show ?thesis using IH [OF u(1) ue u(3,4) q] unfolding kl by simp
    next
      case 3
      have "canon_loop n p t = canon_loop m p u" using step False 3 by simp
      moreover have "edit (work p t) (c # cs) = edit (work p t) cs" using e 3 by auto
      ultimately show ?thesis using IH [OF u(1) ue u(3,4) Cons.prems(3)] unfolding u(5) by simp
    next
      case 4
      have "canon_loop n p t = canon_loop m (p + 1) (u\<lparr>Canonb := (Canonb u)[p := c]\<rparr>)" using step 4 by simp
      moreover have "edit (work p t) (c # cs) = edit (work p t @ [c]) cs" using e 4 by auto
      ultimately show ?thesis using st by simp
    qed
  qed
qed


section \<open>A line from the keyboard to the process\<close>

text \<open>What a key adds to the raw queue.\<close>

definition typing :: "'a con_scheme \<Rightarrow> 'a con_scheme \<Rightarrow> u8 list \<Rightarrow> int \<Rightarrow> bool" where
  "typing s t new d \<longleftrightarrow> cooked (g_TTy t) \<and> queued (t_rawq (g_TTy t)) = queued (t_rawq (g_TTy s)) @ new \<and>
     t_delct (g_TTy t) = t_delct (g_TTy s) + d \<and> t_canq (g_TTy t) = t_canq (g_TTy s) \<and> umem t = umem s"

lemma typing_trans: "typing s t cs d \<Longrightarrow> typing t u cs' d' \<Longrightarrow> typing s u (cs @ cs') (d + d')"
  by (simp add: typing_def)

lemma input_char_cooked: "t_flags t = ECHO \<Longrightarrow> input_char ch t = ch"
  by (simp add: input_char_def ECHO_def CRMOD_def LCASE_def has_flag_def)

lemma umem_tty [simp]: "umem (to_tty f s) = umem s"
  by (simp add: to_tty_def)

lemma umem_wake [simp]: "umem (WakeUpAll chan s) = umem s" for s :: "'a con_scheme"
  using table_off_keeps [OF table_WakeUpAll] by blast

lemma typing_TTyInput:
  assumes c: "cooked (g_TTy s)" and room: "length (queued (t_rawq (g_TTy s))) + 2 \<le> 511"
  shows "typing s (TTyInput ch s) (if ch = 10 \<or> ch = CEOT then [ch, 7] else [ch]) (if ch = 10 \<or> ch = CEOT then 1 else 0)"
proof -
  let ?t = "g_TTy s"
  define u where "u = (if ch = 10 \<or> ch = CEOT
    then to_tty (\<lambda>t. (put_raw 7 t)\<lparr>t_delct := t_delct t + 1\<rparr>) (WakeUpAll AtRawq (to_tty (put_raw ch) s)) else to_tty (put_raw ch) s)"
  have q: "queue_ok (t_rawq ?t)" "t_flags ?t = ECHO" using c by (simp_all add: cooked_def tty_ok_def)
  have e: "TTyInput ch s = TTStart (to_tty (TTyOutput ch) u)"
    using q(2) by (simp add: TTyInput_def Let_def input_char_cooked u_def put_raw_def) (simp add: ECHO_def RAW_def has_flag_def)
  have k: "screen_off (TTyInput ch s) = screen_off u" by (simp add: e screen_simps)
  have raw: "queued (t_rawq (g_TTy u)) = queued (t_rawq ?t) @ (if ch = 10 \<or> ch = CEOT then [ch, 7] else [ch])"
    using q room by (simp add: u_def put_raw_def cq.put_contents cq.put_ok)
  have "tty_ok (g_TTy (TTyInput ch s))" by (rule ok_TTyInput) (use c in \<open>simp add: cooked_def\<close>)
  then show ?thesis using screen_off_keeps [OF k] raw c
    by (simp add: typing_def cooked_def u_def put_raw_def)
qed

lemma typing_line:
  assumes "cooked (g_TTy s)" "length (queued (t_rawq (g_TTy s))) + length cs \<le> 509" "\<forall>c \<in> set cs. c \<noteq> 10 \<and> c \<noteq> CEOT"
  shows "typing s (fold TTyInput cs s) cs 0"
  using assms
proof (induction cs arbitrary: s)
  case Nil
  then show ?case by (simp add: typing_def)
next
  case (Cons c cs)
  have t: "typing s (TTyInput c s) [c] 0" using typing_TTyInput [of s c] Cons.prems by simp
  then have "typing (TTyInput c s) (fold TTyInput cs (TTyInput c s)) cs 0"
    using Cons.prems by (intro Cons.IH) (simp_all add: typing_def)
  from typing_trans [OF t this] show ?case by simp
qed

text \<open>What a read takes: all there is, or as much as asked for and one character more, which is lost.\<close>

lemma store_bytes_Cons: "store_bytes (mem(b := c)) (b + 1) cs = store_bytes mem b (c # cs)"
proof (rule ext)
  fix a
  have "nat (a - b) = Suc (nat (a - (b + 1)))" if "b + 1 \<le> a" using that by simp
  then show "store_bytes (mem(b := c)) (b + 1) cs a = store_bytes mem b (c # cs) a"
    by (cases "b + 1 \<le> a") (auto simp: store_bytes_def)
qed

lemma store_bytes_Nil: "store_bytes mem b [] = mem"
  by (rule ext) (auto simp: store_bytes_def)

lemma pass_loop_takes:
  assumes "tty_ok (g_TTy s)" "queued (t_canq (g_TTy s)) = xs" "length xs < n" "0 \<le> m_Count io"
  shows "\<exists>q. pass_loop n io s =
      (io\<lparr>m_Base := m_Base io + int (min (nat (m_Count io)) (length xs)), m_Count := m_Count io - int (min (nat (m_Count io)) (length xs))\<rparr>,
       to_tty (\<lambda>t. t\<lparr>t_canq := q\<rparr>) s\<lparr>umem := store_bytes (umem s) (m_Base io) (take (nat (m_Count io)) xs)\<rparr>) \<and>
     queue_ok q \<and> queued q = drop (Suc (nat (m_Count io))) xs"
  using assms
proof (induction xs arbitrary: n io s)
  case Nil
  then obtain m where n: "n = Suc m" by (cases n) auto
  have q: "queue_ok (t_canq (g_TTy s))" using Nil.prems(1) by (simp add: tty_ok_def)
  have "CharNum (t_canq (g_TTy s)) = 0" using unat_CharNum [OF q] Nil.prems(2) by (simp add: unat_eq_0)
  then show ?case using q Nil.prems(2) by (intro exI [of _ "t_canq (g_TTy s)"]) (simp add: n to_tty_def store_bytes_Nil)
next
  case (Cons x xs)
  then obtain m where n: "n = Suc m" by (cases n) auto
  have q: "queue_ok (t_canq (g_TTy s))" using Cons.prems(1) by (simp add: tty_ok_def)
  obtain q' where g: "GetChar (t_canq (g_TTy s)) = (x, q')" "queue_ok q'" "queued q' = xs" using cq.get_Cons [OF q Cons.prems(2)] .
  have nz: "CharNum (t_canq (g_TTy s)) \<noteq> 0" using unat_CharNum [OF q] Cons.prems(2) by (auto simp: unat_eq_0)
  let ?s = "to_tty (\<lambda>t. t\<lparr>t_canq := q'\<rparr>) s"
  have s': "tty_ok (g_TTy ?s)" using Cons.prems(1) g(2) by (simp add: tty_ok_def)
  show ?case
  proof (cases "m_Count io = 0")
    case True
    show ?thesis using g nz True by (intro exI [of _ q']) (simp add: n PassC_def to_tty_def store_bytes_Nil)
  next
    case False
    let ?io = "io\<lparr>m_Base := m_Base io + 1, m_Count := m_Count io - 1\<rparr>" and ?u = "?s\<lparr>umem := (umem s)(m_Base io := x)\<rparr>"
    have pos: "0 < m_Count io" using False Cons.prems(4) by simp
    have c: "nat (m_Count io) = Suc (nat (m_Count io - 1))" using pos by simp
    have l: "pass_loop n io s = pass_loop m ?io ?u" using g nz pos by (simp add: n PassC_def Let_def)
    obtain q where ih: "pass_loop m ?io ?u =
        (?io\<lparr>m_Base := m_Base ?io + int (min (nat (m_Count ?io)) (length xs)), m_Count := m_Count ?io - int (min (nat (m_Count ?io)) (length xs))\<rparr>,
         to_tty (\<lambda>t. t\<lparr>t_canq := q\<rparr>) ?u\<lparr>umem := store_bytes (umem ?u) (m_Base ?io) (take (nat (m_Count ?io)) xs)\<rparr>)"
        "queue_ok q" "queued q = drop (Suc (nat (m_Count ?io))) xs"
    proof -
      have "tty_ok (g_TTy ?u)" "queued (t_canq (g_TTy ?u)) = xs" "length xs < m" "0 \<le> m_Count ?io"
        using s' g(3) Cons.prems(3) n pos by simp_all
      from Cons.IH [OF this] that show ?thesis by blast
    qed
    show ?thesis using ih l pos unfolding c
      by (intro exI [of _ q]) (simp add: to_tty_def store_bytes_Cons [symmetric])
  qed
qed


section \<open>Properties\<close>

text \<open>Ready for a line: the console is open and cooked and nothing is pending.\<close>

definition ready :: "'a con_scheme \<Rightarrow> bool" where
  "ready s \<longleftrightarrow> cooked (g_TTy s) \<and> queued (t_rawq (g_TTy s)) = [] \<and> queued (t_canq (g_TTy s)) = [] \<and> t_delct (g_TTy s) = 0"

lemma length_edit: "length (edit acc cs) \<le> length acc + length cs"
proof (induction acc cs rule: edit.induct)
  case (2 acc c cs)
  then show ?case by (auto intro: le_trans)
qed simp

text \<open>
  C19. Characters (no delimiter 7, no end-of-file character, no bytes above 127, at most 252 of them) typed at a ready
  console by the keyboard interrupt one after another, then a newline, and a read with room for the
  line: the read returns without sleeping and stores exactly the line that the reference editor
  \<open>edit\<close> makes of the key strokes -- erase drops the last character, kill the whole line, a
  backslash takes the special meaning of the next key away -- followed by the newline; the count is lowered by its
  length and the console is ready for the next line.  The raw queue with its delimiter, the
  canonical queue, the count of delimiters and the array \<open>Canonb\<close> are shown equivalent to that
  function on lists.
\<close>

theorem typed_line_is_read:
  assumes s: "ready s" and cs: "\<forall>c \<in> set cs. line_char c \<and> c \<noteq> 10 \<and> c \<noteq> CEOT" and len: "length cs \<le> 252"
    and n: "int (length (edit [] (cs @ [10]))) \<le> m_Count io"
  shows "\<exists>io' t. TTRead io (fold TTyInput (cs @ [10]) s) = Done (TT_Return, io', t) \<and> ready t \<and>
           umem t = store_bytes (umem s) (m_Base io) (edit [] (cs @ [10])) \<and>
           m_Count io' = m_Count io - int (length (edit [] (cs @ [10])))"
proof -
  let ?line = "edit [] (cs @ [10])" 
  define w where "w = fold TTyInput (cs @ [10]) s"
  have t1: "typing s (fold TTyInput cs s) cs 0" using s cs len by (intro typing_line) (simp_all add: ready_def)
  have "typing (fold TTyInput cs s) (TTyInput 10 (fold TTyInput cs s)) [10, 7] 1"
    using typing_TTyInput [of "fold TTyInput cs s" 10] t1 s len by (simp add: typing_def ready_def)
  from typing_trans [OF t1 this] have ty: "typing s w (cs @ [10, 7]) 1" by (simp add: w_def)
  let ?t = "g_TTy w"
  have c: "cooked ?t" "queued (t_rawq ?t) = (cs @ [10]) @ 7 # []" "t_delct ?t = 1" "queued (t_canq ?t) = []" "umem w = umem s"
    using ty s by (simp_all add: typing_def ready_def)
  have lc: "\<forall>c \<in> set (cs @ [10]). line_char c" using cs by (simp add: line_char_def)
  obtain p t' where e: "canon_loop 512 2 ?t = (p, t')" "work p t' = edit (work 2 ?t) (cs @ [10])" "cooked t'" "queued (t_rawq t') = []"
      "t_delct t' = t_delct ?t - 1" "t_canq t' = t_canq ?t"
    using canon_loop_edit [OF c(1) _ _ _ _ c(2) lc, of 2 512] c(3) len by auto
  have line: "work p t' = ?line" using e(2) by (simp add: work_def)
  have bound: "length ?line \<le> 253" using length_edit [of "[]" "cs @ [10]"] len by simp
  define u where "u = canonize ?t"
  have u: "u = t'\<lparr>t_canq := fold PutChar ?line (t_canq t')\<rparr>" using e(1) line by (simp add: u_def canonize_def TTY_BUF_SIZE_def work_def)
  have q: "queue_ok (t_canq t')" using e(3) by (simp add: cooked_def tty_ok_def)
  have cu: "cooked u" "queued (t_canq u) = ?line" "queued (t_rawq u) = []" "t_delct u = 0"
    using e q c bound by (simp_all add: u cooked_def tty_ok_def cq.puts_ok cq.puts_contents)
  have carr: "has_flag (t_state ?t) CARR_ON" "CharNum (t_canq ?t) = 0"
    using c unat_CharNum [of "t_canq ?t"] by (simp_all add: cooked_def tty_ok_def unat_eq_0)
  let ?u = "to_tty canonize w"
  have can: "Canon w = Done (TT_Return, True, ?u)" using c(3) by (simp add: Canon_def)
  have gu: "g_TTy ?u = u" by (simp add: u_def)
  obtain q' where r: "pass_loop 512 io ?u =
      (io\<lparr>m_Base := m_Base io + int (min (nat (m_Count io)) (length ?line)), m_Count := m_Count io - int (min (nat (m_Count io)) (length ?line))\<rparr>,
       to_tty (\<lambda>t. t\<lparr>t_canq := q'\<rparr>) ?u\<lparr>umem := store_bytes (umem ?u) (m_Base io) (take (nat (m_Count io)) ?line)\<rparr>)"
      "queue_ok q'" "queued q' = drop (Suc (nat (m_Count io))) ?line"
    using pass_loop_takes [of ?u ?line 512 io] cu bound n unfolding gu by (auto simp: cooked_def)
  have m: "min (nat (m_Count io)) (length ?line) = length ?line" "length ?line \<le> nat (m_Count io)" using n by simp_all
  have rd: "TTRead io w = Done (TT_Return, io\<lparr>m_Base := m_Base io + int (length ?line), m_Count := m_Count io - int (length ?line)\<rparr>,
       to_tty (\<lambda>t. t\<lparr>t_canq := q'\<rparr>) ?u\<lparr>umem := store_bytes (umem ?u) (m_Base io) ?line\<rparr>)" (is "_ = Done (_, _, ?f)")
    using carr can r(1) m by (simp add: TTRead_def TTY_BUF_SIZE_def)
  have f: "g_TTy ?f = u\<lparr>t_canq := q'\<rparr>" using gu by (simp add: to_tty_def)
  have "ready ?f" using cu r(2,3) m(2) unfolding ready_def f by (simp add: cooked_def tty_ok_def)
  moreover have "umem ?f = store_bytes (umem s) (m_Base io) ?line" using c(5) by simp
  ultimately show ?thesis using rd unfolding w_def [symmetric] by (intro exI [of _ "io\<lparr>m_Base := _, m_Count := _\<rparr>"] exI [of _ ?f]) simp
qed

lemma demo_con_cooked: "cooked (demo_tty\<lparr>t_canq := q\<rparr>) = queue_ok q"
  by (auto simp: cooked_def demo_tty_def tty_ok_def queue_ok_def empty_queue_def CANBSIZ_def has_flag_def CARR_ON_def ISOPEN_def backslash_def)

lemma demo_con_ready: "ready demo_con"
proof -
  have "cooked demo_tty" using demo_con_cooked [of empty_queue] by (simp add: demo_tty_def queue_ok_def empty_queue_def)
  then show ?thesis by (simp add: ready_def) (simp add: demo_tty_def empty_queue_def queued_def)
qed

lemma typed_line_is_read_witness:
  "\<exists>io' t. TTRead \<lparr>m_Base = 64, m_Offset = 0, m_Count = 10\<rparr> (fold TTyInput ([104, 8, 105] @ [10]) demo_con) = Done (TT_Return, io', t) \<and>
     ready t \<and> umem t = store_bytes (umem demo_con) 64 [105, 10] \<and> m_Count io' = 8"
proof -
  have "edit [] ([104, 8, 105] @ [10]) = [105, 10]" by (simp add: CERASE_def CKILL_def CEOT_def backslash_def)
  then show ?thesis
    using typed_line_is_read [OF demo_con_ready, of "[104, 8, 105]" "\<lparr>m_Base = 64, m_Offset = 0, m_Count = 10\<rparr>"]
    by (simp add: line_char_def CEOT_def)
qed

text \<open>
  A read that asks for fewer characters than the canonical queue holds: it returns the first
  \<open>m_Count\<close> characters, but the queue then lacks one more than that, since \<open>TTRead\<close> takes a
  character out of the queue before \<open>PassC\<close> says that the count is exhausted.  The next read
  never sees that character.
\<close>

theorem short_read_loses_character:
  assumes s: "cooked (g_TTy s)" and xs: "queued (t_canq (g_TTy s)) = xs" and n: "0 \<le> m_Count io" "nat (m_Count io) < length xs"
  shows "\<exists>io' t. TTRead io s = Done (TT_Return, io', t) \<and> cooked (g_TTy t) \<and> m_Count io' = 0 \<and>
           umem t = store_bytes (umem s) (m_Base io) (take (nat (m_Count io)) xs) \<and>
           queued (t_canq (g_TTy t)) = drop (Suc (nat (m_Count io))) xs"
proof -
  have q: "queue_ok (t_canq (g_TTy s))" "tty_ok (g_TTy s)" "has_flag (t_state (g_TTy s)) CARR_ON" using s by (simp_all add: cooked_def tty_ok_def)
  have l: "length xs < 512" using queued_bound [of "t_canq (g_TTy s)"] xs by simp
  have nz: "CharNum (t_canq (g_TTy s)) \<noteq> 0" using unat_CharNum [OF q(1)] xs n by (auto simp: unat_eq_0)
  obtain q' where r: "pass_loop 512 io s =
      (io\<lparr>m_Base := m_Base io + int (min (nat (m_Count io)) (length xs)), m_Count := m_Count io - int (min (nat (m_Count io)) (length xs))\<rparr>,
       to_tty (\<lambda>t. t\<lparr>t_canq := q'\<rparr>) s\<lparr>umem := store_bytes (umem s) (m_Base io) (take (nat (m_Count io)) xs)\<rparr>)"
      "queue_ok q'" "queued q' = drop (Suc (nat (m_Count io))) xs"
    using pass_loop_takes [OF q(2) xs l n(1)] by blast
  have m: "min (nat (m_Count io)) (length xs) = nat (m_Count io)" using n by simp
  show ?thesis using q nz r s n by (simp add: TTRead_def TTY_BUF_SIZE_def m cooked_def tty_ok_def to_tty_def)
qed

lemma short_read_loses_character_witness:
  "\<exists>(s :: con) io' t. queued (t_canq (g_TTy s)) = [104, 105, 106] \<and> TTRead \<lparr>m_Base = 64, m_Offset = 0, m_Count = 1\<rparr> s = Done (TT_Return, io', t) \<and>
     umem t = store_bytes (umem s) 64 [104] \<and> queued (t_canq (g_TTy t)) = [106]"
proof -
  have e: "queue_ok empty_queue" "queued empty_queue = []" by (simp_all add: queue_ok_def queued_def empty_queue_def)
  obtain q where q: "queue_ok q" "queued q = [104, 105, 106]"
    using cq.puts_ok [OF e(1), of "[104, 105, 106]"] cq.puts_contents [OF e(1), of "[104, 105, 106]"] e(2) by simp
  let ?s = "to_tty (\<lambda>t. t\<lparr>t_canq := q\<rparr>) demo_con" and ?io = "\<lparr>m_Base = 64, m_Offset = 0, m_Count = 1\<rparr>"
  have s: "cooked (g_TTy ?s)" "queued (t_canq (g_TTy ?s)) = [104, 105, 106]" using demo_con_cooked q by simp_all
  have "0 \<le> m_Count ?io" "nat (m_Count ?io) < length [104, 105, 106 :: u8]" by simp_all
  with short_read_loses_character [OF s, of ?io] have "\<exists>io' t. TTRead ?io ?s = Done (TT_Return, io', t) \<and>
     umem t = store_bytes (umem ?s) 64 [104] \<and> queued (t_canq (g_TTy t)) = [106]"
    by auto
  with s(2) show ?thesis by blast
qed

text \<open>
  C20. Type safety of the terminal: from a well-formed terminal state (heads and tails of the three
  queues inside their arrays, arrays of their declared length, the work array \<open>Canonb\<close> of its length, the count
  of delimiters not negative) every sequence of reads, writes, typed characters, flushes and output
  to the screen leads to a well-formed state, so no access leaves the arrays of the queues.
\<close>

theorem terminal_well_formed: "term_step\<^sup>*\<^sup>* s t \<Longrightarrow> tty_ok (g_TTy s) \<Longrightarrow> tty_ok (g_TTy t)"
  by (induction rule: rtranclp_induct) (auto intro: ok_term_step)

lemma terminal_well_formed_witness: "tty_ok (g_TTy (snd (KeyboardHandler [0x1E, 0x9E, 0x1C] (FlushTTy demo_con))))"
proof (rule terminal_well_formed)
  show "term_step\<^sup>*\<^sup>* demo_con (snd (KeyboardHandler [0x1E, 0x9E, 0x1C] (FlushTTy demo_con)))"
    by (rule converse_rtranclp_into_rtranclp [where r = term_step, OF term_step.flush]) (rule r_into_rtranclp, rule term_step.key)
  show "tty_ok (g_TTy demo_con)" using demo_con_ready by (simp add: ready_def cooked_def)
qed

end
