(* ===== verification/KeySpec.thy ===== *)
theory KeySpec
  imports TermSpec
begin

text \<open>
  The keyboard as a machine of keys that are down: the bits of \<open>Mode\<close> are the modifier keys held, the locks
  that are on and the lock keys that are down.
\<close>

datatype key = Left_Alt | Right_Alt | Left_Ctrl | Right_Ctrl | Left_Shift | Right_Shift

datatype lock = Num_Lock | Caps_Lock | Scroll_Lock

text \<open>
  What happens at the keyboard: a modifier or lock key goes down (again, when it repeats) or up; a code of any
  other key (\<open>Tap\<close>), with the prefix \<open>E0\<close> for the grey keys (\<open>Tap_Ext\<close>); the shift codes that the
  keyboard itself puts around grey keys (\<open>Fake_Press\<close>, \<open>Fake_Release\<close>); the Pause key, which has no code for
  going up, and the Break key (Pause with a control key).
\<close>

datatype key_event = Press key | Release key | Lock_Down lock | Lock_Up lock | Tap u8 | Tap_Ext u8 |
  Fake_Press key | Fake_Release key | Pause | Break

text \<open>What the controller sends for an event.\<close>

fun make_code :: "key \<Rightarrow> u8 list" where
  "make_code Left_Alt = [0x38]"
| "make_code Right_Alt = [0xE0, 0x38]"
| "make_code Left_Ctrl = [0x1D]"
| "make_code Right_Ctrl = [0xE0, 0x1D]"
| "make_code Left_Shift = [0x2A]"
| "make_code Right_Shift = [0x36]"

definition break_code :: "key \<Rightarrow> u8 list" where
  "break_code k = butlast (make_code k) @ [last (make_code k) + 0x80]"

fun lock_code :: "lock \<Rightarrow> u8" where
  "lock_code Num_Lock = 0x45"
| "lock_code Caps_Lock = 0x3A"
| "lock_code Scroll_Lock = 0x46"

fun event_codes :: "key_event \<Rightarrow> u8 list" where
  "event_codes (Press k) = make_code k"
| "event_codes (Release k) = break_code k"
| "event_codes (Lock_Down l) = [lock_code l]"
| "event_codes (Lock_Up l) = [lock_code l + 0x80]"
| "event_codes (Tap c) = [c]"
| "event_codes (Tap_Ext c) = [0xE0, c]"
| "event_codes (Fake_Press k) = 0xE0 # make_code k"
| "event_codes (Fake_Release k) = 0xE0 # break_code k"
| "event_codes Pause = [0xE1, 0x1D, 0x45, 0xE1, 0x9D, 0xC5]"
| "event_codes Break = [0xE0, 0x46, 0xE0, 0xC6]"

text \<open>
  The abstract machine: the keys held, the locks that are on, the lock keys that are down. Two events are not what
  they should be: the handler takes the shifts of the keyboard itself for those of the user, and Pause for Num
  Lock going down for good.
\<close>

type_synonym key_state = "key set \<times> lock set \<times> lock set"

fun lock_down :: "lock \<Rightarrow> key_state \<Rightarrow> key_state" where
  "lock_down l (ks, on, down) =
     (ks, if l \<in> down then on else if l \<in> on then on - {l} else insert l on, insert l down)"

fun lock_up :: "lock \<Rightarrow> key_state \<Rightarrow> key_state" where
  "lock_up l (ks, on, down) = (ks, on, down - {l})"

fun hold :: "key \<Rightarrow> key_state \<Rightarrow> key_state" where
  "hold k (ks, on, down) = (insert k ks, on, down)"

fun let_go :: "key \<Rightarrow> key_state \<Rightarrow> key_state" where
  "let_go k (ks, on, down) = (ks - {k}, on, down)"

fun key_step :: "key_event \<Rightarrow> key_state \<Rightarrow> key_state" where
  "key_step (Press k) = hold k"
| "key_step (Release k) = let_go k"
| "key_step (Lock_Down l) = lock_down l"
| "key_step (Lock_Up l) = lock_up l"
| "key_step (Tap c) = id"
| "key_step (Tap_Ext c) = id"
| "key_step (Fake_Press k) = hold k"
| "key_step (Fake_Release k) = let_go k"
| "key_step Pause = lock_down Num_Lock"
| "key_step Break = lock_up Scroll_Lock \<circ> lock_down Scroll_Lock"

fun key_bit :: "key \<Rightarrow> nat" where
  "key_bit Left_Ctrl = 0"
| "key_bit Right_Ctrl = 1"
| "key_bit Left_Alt = 2"
| "key_bit Right_Alt = 3"
| "key_bit Left_Shift = 4"
| "key_bit Right_Shift = 5"

fun lock_bit :: "lock \<Rightarrow> nat" where
  "lock_bit Num_Lock = 6"
| "lock_bit Caps_Lock = 7"
| "lock_bit Scroll_Lock = 8"

definition abs_mode :: "u32 \<Rightarrow> key_state" where
  "abs_mode m = ({k. bit m (key_bit k)}, {l. bit m (lock_bit l)}, {l. bit m (lock_bit l + 3)})"

text \<open>The codes of the other keys: neither a modifier nor a lock nor a prefix. The fake keys are shift keys.\<close>

definition plain_code :: "u8 \<Rightarrow> bool" where
  "plain_code c \<longleftrightarrow> c \<notin> {0xE0, 0xE1, 0x38, 0x1D, 0x2A, 0x36, 0xB8, 0x9D, 0xAA, 0xB6, 0x45, 0x3A, 0x46, 0xC5, 0xBA, 0xC6}"

fun sendable :: "key_event \<Rightarrow> bool" where
  "sendable (Tap c) = plain_code c"
| "sendable (Tap_Ext c) = plain_code c"
| "sendable (Fake_Press k) = (k = Left_Shift \<or> k = Right_Shift)"
| "sendable (Fake_Release k) = (k = Left_Shift \<or> k = Right_Shift)"
| "sendable _ = True"

lemma mode_bits: "M_LCTRL = 2 ^ 0" "M_RCTRL = 2 ^ 1" "M_LALT = 2 ^ 2" "M_RALT = 2 ^ 3" "M_LSHIFT = 2 ^ 4" "M_RSHIFT = 2 ^ 5"
  "M_NUMLOCK = 2 ^ 6" "M_CAPSLOCK = 2 ^ 7" "M_SCRLOCK = 2 ^ 8" "M_DOWN_NUMLOCK = 2 ^ (6 + 3)" "M_DOWN_CAPSLOCK = 2 ^ (7 + 3)"
  "M_DOWN_SCRLOCK = 2 ^ (8 + 3)"
  by (simp_all add: M_NUMLOCK_def M_SCRLOCK_def M_DOWN_NUMLOCK_def M_DOWN_SCRLOCK_def M_LCTRL_def M_RCTRL_def M_LALT_def M_RALT_def M_LSHIFT_def M_RSHIFT_def M_CAPSLOCK_def M_DOWN_CAPSLOCK_def)

lemma bit_set: "n < 32 \<Longrightarrow> bit (set_flag m (2 ^ n)) j \<longleftrightarrow> bit m j \<or> j = n" for m :: u32
  by (auto simp: set_flag_def bit_simps)

lemma bit_clear: "n < 32 \<Longrightarrow> bit (clear_flag m (2 ^ n)) j \<longleftrightarrow> bit m j \<and> j \<noteq> n" for m :: u32
  using bit_imp_le_length [of m j] by (auto simp: clear_flag_def bit_simps)

lemma bit_toggle: "n < 32 \<Longrightarrow> bit (m XOR 2 ^ n) j \<longleftrightarrow> (if j = n then \<not> bit m j else bit m j)" for m :: u32
  by (auto simp: bit_simps)

lemma flag_bit: "has_flag m (2 ^ n) \<longleftrightarrow> bit m n"
  by (simp add: has_flag_def and_exp_eq_0_iff_not_bit)

lemma key_bit_less [simp]: "key_bit k < 6"
  by (cases k) simp_all

lemma key_bit_eq [simp]: "key_bit k = key_bit k' \<longleftrightarrow> k = k'"
  by (cases k; cases k') simp_all

lemma lock_bit_range [simp]: "6 \<le> lock_bit l" "lock_bit l \<le> 8"
  by (cases l; simp)+

lemma lock_bit_eq [simp]: "lock_bit l = lock_bit l' \<longleftrightarrow> l = l'"
  by (cases l; cases l') simp_all

lemma bits_apart [simp]: "key_bit k \<noteq> lock_bit l" "key_bit k \<noteq> lock_bit l + 3" "lock_bit l \<noteq> lock_bit l' + 3"
    "lock_bit l \<noteq> key_bit k" "lock_bit l + 3 \<noteq> key_bit k" "lock_bit l' + 3 \<noteq> lock_bit l"
    "key_bit k < 32" "lock_bit l < 32" "lock_bit l + 3 < 32"
  using key_bit_less [of k] lock_bit_range [of l] lock_bit_range [of l'] by linarith+

lemma abs_set: "abs_mode (set_flag m (2 ^ key_bit k)) = hold k (abs_mode m)"
  by (auto simp: abs_mode_def bit_set)

lemma abs_clear: "abs_mode (clear_flag m (2 ^ key_bit k)) = let_go k (abs_mode m)"
  by (auto simp: abs_mode_def bit_clear)

lemma abs_lock:
  "abs_mode (toggle (2 ^ lock_bit l) (2 ^ (lock_bit l + 3)) m) = lock_down l (abs_mode m)"
  "abs_mode (clear_flag m (2 ^ (lock_bit l + 3))) = lock_up l (abs_mode m)"
proof -
  show "abs_mode (toggle (2 ^ lock_bit l) (2 ^ (lock_bit l + 3)) m) = lock_down l (abs_mode m)"
    by (cases "bit m (lock_bit l)"; cases "bit m (lock_bit l + 3)")
      (auto simp: abs_mode_def toggle_def flag_bit bit_set bit_toggle simp del: power_add)
  show "abs_mode (clear_flag m (2 ^ (lock_bit l + 3))) = lock_up l (abs_mode m)"
    by (auto simp: abs_mode_def bit_clear simp del: power_add)
qed

section \<open>What a key does not touch\<close>

definition same_keys :: "'a con_scheme \<Rightarrow> 'a con_scheme \<Rightarrow> bool" where
  "same_keys s t \<longleftrightarrow> kb_Mode s = kb_Mode t \<and> pre_state s = pre_state t"

lemma same_keys_screen: "screen_off s = screen_off t \<Longrightarrow> same_keys s t"
  using screen_off_keeps [of s t] by (simp add: same_keys_def)

lemma same_keys_table: "table_off s = table_off t \<Longrightarrow> same_keys s t"
  using table_off_keeps [of s t] by (simp add: same_keys_def)

lemma same_keys_tty: "same_keys (to_tty f s) t = same_keys s t"
  by (simp add: same_keys_def to_tty_def)

lemma same_keys_trans: "same_keys s t \<Longrightarrow> same_keys t u \<Longrightarrow> same_keys s u"
  by (simp add: same_keys_def)

lemma same_keys_wake: "same_keys (WakeUpAll chan s) s"
  by (rule same_keys_table [OF table_WakeUpAll])

lemma same_keys_to_tty: "same_keys (to_tty f s) s" "same_keys s (to_tty f s)" "same_keys s s"
  by (simp_all add: same_keys_def to_tty_def)

lemma same_keys_TTyInput: "same_keys (TTyInput ch s) s"
proof -
  define c where "c = input_char ch (g_TTy s)"
  define u where "u = to_tty (put_raw c) s"
  define v where "v = (if has_flag (t_flags (g_TTy u)) RAW \<or> c = 10 \<or> c = CEOT
    then to_tty (\<lambda>t. (put_raw 7 t)\<lparr>t_delct := t_delct t + 1\<rparr>) (WakeUpAll AtRawq u) else u)"
  have u: "same_keys u s" unfolding u_def by (rule same_keys_to_tty)
  have "same_keys v u"
  proof (cases "has_flag (t_flags (g_TTy u)) RAW \<or> c = 10 \<or> c = CEOT")
    case True
    then show ?thesis unfolding v_def if_P [OF True] by (intro same_keys_trans [OF same_keys_to_tty(1) same_keys_wake])
  next
    case False
    then show ?thesis unfolding v_def if_not_P [OF False] by (intro same_keys_to_tty)
  qed
  then have v: "same_keys v s" using u by (rule same_keys_trans)
  have "same_keys (TTStart (to_tty (TTyOutput c) v)) (to_tty (TTyOutput c) v)" by (rule same_keys_screen [OF screen_TTStart])
  then have "same_keys (TTStart (to_tty (TTyOutput c) v)) v" by (rule same_keys_trans [OF _ same_keys_to_tty(1)])
  then have "same_keys (TTStart (to_tty (TTyOutput c) v)) s" using v by (rule same_keys_trans)
  moreover have "TTyInput ch s = (if has_flag (t_flags (g_TTy v)) ECHO then TTStart (to_tty (TTyOutput c) v) else v)"
    unfolding TTyInput_def Let_def v_def u_def c_def by (rule refl)
  ultimately show ?thesis using v by (cases "has_flag (t_flags (g_TTy v)) ECHO") simp_all
qed

lemma same_keys_Flush: "same_keys (FlushTTy s) s"
proof -
  have "same_keys (to_tty f (WakeUpAll AtOutq (WakeUpAll AtCanq (to_tty g s)))) s" for f g
    using same_keys_wake [of AtOutq "WakeUpAll AtCanq (to_tty g s)"] same_keys_wake [of AtCanq "to_tty g s"]
    by (simp add: same_keys_def to_tty_def)
  then show ?thesis by (simp add: FlushTTy_def Let_def)
qed

lemma same_keys_interrupt: "same_keys (interrupt_all is s) s"
  by (rule same_keys_table [OF table_interrupt_all])

lemma same_keys_Translate: "same_keys (snd (ScanCodeTranslate c e s)) s"
proof -
  have "same_keys (interrupt_all is (if P then FlushTTy s else s)) s" for "is" P
    using same_keys_trans [OF same_keys_interrupt same_keys_Flush, of "is" s] same_keys_interrupt [of "is" s] by simp
  moreover have "same_keys s s" by (simp add: same_keys_def)
  ultimately show ?thesis by (simp add: ScanCodeTranslate_def Let_def)
qed

lemma key_plain: "mode_key c e (kb_Mode s) = None \<Longrightarrow> e \<noteq> 0xE1 \<Longrightarrow> same_keys (HandleScanCode c e s) s"
  using same_keys_Translate [of c e s] same_keys_trans [OF same_keys_TTyInput same_keys_Translate, of _ c e s]
  by (simp add: HandleScanCode_def Let_def case_prod_beta)

lemma key_mode: "mode_key c e (kb_Mode s) = Some m \<Longrightarrow> e \<noteq> 0xE1 \<Longrightarrow> same_keys (HandleScanCode c e s) (s\<lparr>kb_Mode := m\<rparr>)"
  by (simp add: HandleScanCode_def Let_def same_keys_def)

lemma one_code:
  assumes "pre_state s = 0" "c \<noteq> 0xE0" "c \<noteq> 0xE1" "mode_key c 0 (kb_Mode s) = Some m"
  shows "kb_Mode (handle_byte c s) = m \<and> pre_state (handle_byte c s) = 0"
  using key_mode [of c 0 "s\<lparr>pre_state := 0\<rparr>" m] assms by (simp add: handle_byte_def same_keys_def)

lemma two_codes:
  assumes "pre_state s = 0" "mode_key c 0xE0 (kb_Mode s) = Some m"
  shows "kb_Mode (handle_byte c (handle_byte 0xE0 s)) = m \<and> pre_state (handle_byte c (handle_byte 0xE0 s)) = 0"
  using key_mode [of c "0xE0" "s\<lparr>pre_state := 0\<rparr>" m] assms by (simp add: handle_byte_def same_keys_def)

lemma press_code:
  assumes "pre_state s = 0"
  shows "kb_Mode (fold handle_byte (make_code k) s) = set_flag (kb_Mode s) (2 ^ key_bit k) \<and> pre_state (fold handle_byte (make_code k) s) = 0"
  using one_code [OF assms] two_codes [OF assms] by (cases k) (simp_all add: mode_key_def Let_def mode_bits)

lemma release_code:
  assumes "pre_state s = 0"
  shows "kb_Mode (fold handle_byte (break_code k) s) = clear_flag (kb_Mode s) (2 ^ key_bit k) \<and>
    pre_state (fold handle_byte (break_code k) s) = 0"
  using one_code [OF assms] two_codes [OF assms] by (cases k) (simp_all add: break_code_def mode_key_def Let_def mode_bits)

lemma fake_code:
  assumes "pre_state s = 0" "k = Left_Shift \<or> k = Right_Shift"
  shows "kb_Mode (fold handle_byte (0xE0 # make_code k) s) = set_flag (kb_Mode s) (2 ^ key_bit k) \<and>
      pre_state (fold handle_byte (0xE0 # make_code k) s) = 0"
    "kb_Mode (fold handle_byte (0xE0 # break_code k) s) = clear_flag (kb_Mode s) (2 ^ key_bit k) \<and>
      pre_state (fold handle_byte (0xE0 # break_code k) s) = 0"
  using two_codes [OF assms(1)] assms(2) by (auto simp: break_code_def mode_key_def Let_def mode_bits)

lemma lock_codes:
  "mode_key (lock_code l) e m = Some (toggle (2 ^ lock_bit l) (2 ^ (lock_bit l + 3)) m)"
  "mode_key (lock_code l + 0x80) e m = Some (clear_flag m (2 ^ (lock_bit l + 3)))"
  "lock_code l \<noteq> 0xE0" "lock_code l \<noteq> 0xE1" "lock_code l + 0x80 \<noteq> 0xE0" "lock_code l + 0x80 \<noteq> 0xE1"
  by (cases l; simp add: mode_key_def mode_bits Let_def)+

lemma key_paused: "kb_Mode (HandleScanCode 0x45 0xE1 s) = toggle (2 ^ 6) (2 ^ (6 + 3)) (kb_Mode s) \<and>
    pre_state (HandleScanCode 0x45 0xE1 s) = pre_state s"
proof -
  have "mode_key 0x45 0xE1 m = Some (toggle (2 ^ 6) (2 ^ (6 + 3)) m)" for m using lock_codes(1) [of Num_Lock] by simp
  then show ?thesis
    using same_keys_Translate [of "0x45" "0xE1" s]
    by (simp add: HandleScanCode_def Let_def case_prod_beta same_keys_def same_keys_TTyInput [unfolded same_keys_def])
qed

lemma pause_codes:
  assumes "pre_state s = 0"
  shows "kb_Mode (fold handle_byte [0xE1, 0x1D, 0x45, 0xE1, 0x9D, 0xC5] s) = toggle (2 ^ 6) (2 ^ (6 + 3)) (kb_Mode s) \<and>
    pre_state (fold handle_byte [0xE1, 0x1D, 0x45, 0xE1, 0x9D, 0xC5] s) = 0"
  using assms by (simp add: handle_byte_def key_paused)

lemma key_event:
  assumes "pre_state s = 0" "sendable e"
  shows "abs_mode (kb_Mode (fold handle_byte (event_codes e) s)) = key_step e (abs_mode (kb_Mode s)) \<and>
         pre_state (fold handle_byte (event_codes e) s) = 0"
proof (cases e)
  case (Tap c)
  then have "c \<noteq> 0xE0" "c \<noteq> 0xE1" "mode_key c 0 (kb_Mode s) = None" using assms(2) by (auto simp: plain_code_def mode_key_def Let_def)
  then show ?thesis using key_plain [of c 0 "s\<lparr>pre_state := 0\<rparr>"] assms Tap by (simp add: handle_byte_def same_keys_def)
next
  case (Tap_Ext c)
  then have "mode_key c 0xE0 (kb_Mode s) = None" using assms(2) by (auto simp: plain_code_def mode_key_def Let_def)
  then show ?thesis using key_plain [of c "0xE0" "s\<lparr>pre_state := 0\<rparr>"] assms Tap_Ext by (simp add: handle_byte_def same_keys_def)
next
  case (Press k)
  then show ?thesis using press_code [OF assms(1), of k] abs_set by simp
next
  case (Release k)
  then show ?thesis using release_code [OF assms(1), of k] abs_clear by simp
next
  case (Lock_Down l)
  then show ?thesis using one_code [OF assms(1) lock_codes(3,4,1), of l] abs_lock(1) by (simp del: power_add)
next
  case (Lock_Up l)
  then show ?thesis using one_code [OF assms(1) lock_codes(5,6,2), of l] abs_lock(2) by (simp del: power_add)
next
  case (Fake_Press k)
  then show ?thesis using fake_code(1) [OF assms(1), of k] assms(2) abs_set by simp
next
  case (Fake_Release k)
  then show ?thesis using fake_code(2) [OF assms(1), of k] assms(2) abs_clear by simp
next
  case Pause
  then show ?thesis using pause_codes [OF assms(1)] abs_lock(1) [where l = Num_Lock] by (simp del: fold_simps)
next
  case Break
  have "mode_key 0x46 0xE0 m = Some (toggle (2 ^ 8) (2 ^ (8 + 3)) m)" "mode_key 0xC6 0xE0 m = Some (clear_flag m (2 ^ (8 + 3)))" for m
    using lock_codes(1,2) [of Scroll_Lock] by simp_all
  then have "kb_Mode (fold handle_byte (event_codes Break) s) = clear_flag (toggle (2 ^ 8) (2 ^ (8 + 3)) (kb_Mode s)) (2 ^ (8 + 3)) \<and>
      pre_state (fold handle_byte (event_codes Break) s) = 0"
    using two_codes [OF assms(1), of "0x46"] two_codes [of "handle_byte 0x46 (handle_byte 0xE0 s)" "0xC6"] by simp
  then show ?thesis using abs_lock [where l = Scroll_Lock] Break by simp
qed

text \<open>
  C21. The keyboard interrupt handler, fed with the scan codes of any sequence of key events
  starting outside an escape sequence, tracks the machine of held keys: the mode bits stand for exactly
  the modifier keys held down (left and right ones apart, with their \<open>E0\<close> prefixes), the locks that are on
  and the lock keys that are down, and a lock toggles once per press however often its key repeats.
  The events are all keys of the keyboard, with two deviations that \<open>key_step\<close> spells out: the shift codes that
  the keyboard sends by itself around the grey keys count as presses and releases of that shift key, so
  that a held shift is lost or a shift is held that nobody presses, and the Pause key counts as Num Lock pressed
  and never released.
\<close>

theorem modifiers_follow_keys:
  assumes "pre_state s = 0" "\<forall>e \<in> set es. sendable e"
  shows "abs_mode (kb_Mode (fold handle_byte (concat (map event_codes es)) s)) = fold key_step es (abs_mode (kb_Mode s))"
  using assms
proof (induction es arbitrary: s)
  case (Cons e es)
  then show ?case using key_event [of s e] by (simp add: fold_append del: event_codes.simps)
qed simp

lemma modifiers_follow_keys_witness:
  "abs_mode (kb_Mode (fold handle_byte (concat (map event_codes
     [Press Left_Shift, Press Right_Ctrl, Tap 0x1E, Lock_Down Caps_Lock, Fake_Release Left_Shift, Tap_Ext 0x48, Pause])) demo_con))
     = ({Right_Ctrl}, {Caps_Lock, Num_Lock}, {Caps_Lock, Num_Lock})"
  by (subst modifiers_follow_keys) (auto simp: plain_code_def abs_mode_def)

end
