(* ===== verification/Calendar.thy ===== *)
theory Calendar
  imports Kprelude
begin

text \<open>
  Calendar time: the conversion of the CMOS clock in the kernel (\<open>kernel/Utility.cpp\<close>, \<open>machine/CMOSTime.cpp\<close>) and
  \<open>mktime\<close> and \<open>localtime\<close> of the user library (\<open>lib/src/time.c\<close>).
\<close>

section \<open>The kernel\<close>

record tm =
  Second :: int
  Minute :: int
  Hour :: int
  DayOfMonth :: int
  Month :: int
  Year :: int
  DayOfWeek :: int

definition BCDToBinary :: "int \<Rightarrow> int" where
  "BCDToBinary v = drop_bit 4 v * 10 + (v AND 0xF)"

text \<open>\<open>ReadCMOSTime\<close> with the seven bytes of the clock chip, in the order of the structure.\<close>

definition ReadCMOSTime :: "tm \<Rightarrow> tm" where
  "ReadCMOSTime r =
     \<lparr>Second = BCDToBinary (Second r), Minute = BCDToBinary (Minute r), Hour = BCDToBinary (Hour r),
      DayOfMonth = BCDToBinary (DayOfMonth r), Month = BCDToBinary (Month r), Year = BCDToBinary (Year r),
      DayOfWeek = BCDToBinary (DayOfWeek r)\<rparr>"

definition SECONDS_IN_MINUTE :: u32 where "SECONDS_IN_MINUTE = 60"
definition SECONDS_IN_HOUR :: u32 where "SECONDS_IN_HOUR = 3600"
definition SECONDS_IN_DAY :: u32 where "SECONDS_IN_DAY = 86400"

definition DaysBeforeMonth :: "u32 list" where
  "DaysBeforeMonth = [0xFFFFFFFF, 0, 31, 59, 90, 120, 151, 181, 212, 243, 273, 304, 334]"

definition IsLeapYear :: "int \<Rightarrow> bool" where
  "IsLeapYear year \<longleftrightarrow> year mod 4 = 0 \<and> (year mod 100 \<noteq> 0 \<or> year mod 400 = 0)"

definition DaysInYear :: "int \<Rightarrow> u32" where
  "DaysInYear year = (if IsLeapYear year then 366 else 365)"

text \<open>The loop over the years before the current one.\<close>

fun add_years :: "int list \<Rightarrow> u32 \<Rightarrow> u32" where
  "add_years [] days = days"
| "add_years (y # ys) days = add_years ys (days + DaysInYear y)"

definition days_of :: "tm \<Rightarrow> u32" where
  "days_of t =
     (let currentYear = 2000 + Year t;
          days = word_of_int (DayOfMonth t - 1) + DaysBeforeMonth ! nat (Month t);
          days = (if IsLeapYear currentYear \<and> Month t \<ge> 3 then days + 1 else days)
      in add_years [1970..currentYear - 1] days)"

definition MakeKernelTime :: "tm \<Rightarrow> u32" where
  "MakeKernelTime t =
     word_of_int (Second t) + word_of_int (Minute t) * SECONDS_IN_MINUTE + word_of_int (Hour t) * SECONDS_IN_HOUR +
     days_of t * SECONDS_IN_DAY"

section \<open>The user library\<close>

definition weekdayNumber :: "int list" where
  "weekdayNumber = [4, 5, 6, 7, 1, 2, 3]"

definition daysInMonth :: "u32 list" where
  "daysInMonth = [0xFFFFFFFF, 31, 28, 31, 30, 31, 30, 31, 31, 30, 31, 30, 31]"

text \<open>\<open>mktime\<close> is the code of the kernel and the day of the week.\<close>

definition mktime :: "tm \<Rightarrow> u32 \<times> tm" where
  "mktime t = (MakeKernelTime t, t\<lparr>DayOfWeek := weekdayNumber ! unat (days_of t mod 7)\<rparr>)"

text \<open>The loop over the years of \<open>localtime\<close>: the days left and the year.\<close>

function year_loop :: "u32 \<Rightarrow> int \<Rightarrow> u32 \<times> int" where
  "year_loop days year =
     (if days \<ge> 365 \<and> days \<ge> DaysInYear year then year_loop (days - DaysInYear year) (year + 1) else (days, year))"
  by auto

termination
proof (relation "measure (\<lambda>(days, year). unat days)")
  fix days :: u32 and year
  assume "days \<ge> 365 \<and> days \<ge> DaysInYear year"
  moreover have "0 < unat (DaysInYear year)" by (simp add: DaysInYear_def)
  ultimately show "((days - DaysInYear year, year + 1), days, year) \<in> measure (\<lambda>(days, year). unat days)"
    by (simp add: unat_sub word_le_nat_alt)
qed simp

fun month_loop :: "int \<Rightarrow> int list \<Rightarrow> u32 \<Rightarrow> int \<Rightarrow> u32 \<times> int" where
  "month_loop year [] days month = (days, month)"
| "month_loop year (i # is) days month =
     (let dayOfMonth = (if i = 2 \<and> IsLeapYear year then daysInMonth ! nat i + 1 else daysInMonth ! nat i)
      in if days > dayOfMonth then month_loop year is (days - dayOfMonth) (i + 1) else (days, month))"

text \<open>\<open>beyond\<close> is the word behind the table \<open>weekdayNumber\<close>, which \<open>localtime\<close> reads every seventh day.\<close>

definition localtime :: "int \<Rightarrow> u32 \<Rightarrow> tm" where
  "localtime beyond t =
     (let days = t div SECONDS_IN_DAY; wday = (weekdayNumber @ [beyond]) ! (unat (days mod 7) + 1);
          (days, year) = year_loop days 1970; (days, month) = month_loop year [1..12] days 0;
          secondsInToday = t mod SECONDS_IN_DAY
      in \<lparr>Second = uint (secondsInToday mod SECONDS_IN_MINUTE), Minute = uint (secondsInToday mod SECONDS_IN_HOUR div SECONDS_IN_MINUTE),
          Hour = uint (secondsInToday div SECONDS_IN_HOUR), DayOfMonth = uint days + 1, Month = month,
          Year = (if year \<ge> 2000 then year - 2000 else year - 1900), DayOfWeek = wday\<rparr>)"

section \<open>The calendar\<close>

text \<open>
  The reference: the leap years of the Gregorian calendar, the lengths of the months and the second after a given one.
  It uses no definition of the code; \<open>IsLeapYear_leap\<close> shows that the code's leap years are these.
\<close>

definition leap :: "int \<Rightarrow> bool" where
  "leap year \<longleftrightarrow> (if 100 dvd year then 400 dvd year else 4 dvd year)"

lemma IsLeapYear_leap [simp]: "IsLeapYear year = leap year"
  unfolding IsLeapYear_def leap_def by presburger

definition month_length :: "int \<Rightarrow> int \<Rightarrow> int" where
  "month_length year month =
     (if month = 2 then if leap year then 29 else 28 else if month \<in> {4, 6, 9, 11} then 30 else 31)"

definition valid_tm :: "tm \<Rightarrow> bool" where
  "valid_tm t \<longleftrightarrow> 0 \<le> Second t \<and> Second t < 60 \<and> 0 \<le> Minute t \<and> Minute t < 60 \<and> 0 \<le> Hour t \<and> Hour t < 24 \<and> 1 \<le> Month t \<and> Month t \<le> 12 \<and>
     0 \<le> Year t \<and> 1 \<le> DayOfMonth t \<and> DayOfMonth t \<le> month_length (2000 + Year t) (Month t)"

definition next_day :: "tm \<Rightarrow> tm" where
  "next_day t =
     (if DayOfMonth t < month_length (2000 + Year t) (Month t) then t\<lparr>DayOfMonth := DayOfMonth t + 1\<rparr>
      else if Month t < 12 then t\<lparr>DayOfMonth := 1, Month := Month t + 1\<rparr>
      else t\<lparr>DayOfMonth := 1, Month := 1, Year := Year t + 1\<rparr>)"

definition next_second :: "tm \<Rightarrow> tm" where
  "next_second t =
     (if Second t < 59 then t\<lparr>Second := Second t + 1\<rparr>
      else if Minute t < 59 then t\<lparr>Second := 0, Minute := Minute t + 1\<rparr>
      else if Hour t < 23 then t\<lparr>Second := 0, Minute := 0, Hour := Hour t + 1\<rparr>
      else next_day (t\<lparr>Second := 0, Minute := 0, Hour := 0\<rparr>))"

definition y2k :: tm where
  "y2k = \<lparr>Second = 0, Minute = 0, Hour = 0, DayOfMonth = 1, Month = 1, Year = 0, DayOfWeek = 7\<rparr>"

text \<open>Days and seconds as numbers.\<close>

definition year_days :: "int \<Rightarrow> int" where
  "year_days year = (if leap year then 366 else 365)"

definition day_of_year :: "tm \<Rightarrow> int" where
  "day_of_year t = DayOfMonth t - 1 + (\<Sum>m \<leftarrow> [1..Month t - 1]. month_length (2000 + Year t) m)"

definition day_number :: "tm \<Rightarrow> int" where
  "day_number t = day_of_year t + (\<Sum>y \<leftarrow> [1970..1999 + Year t]. year_days y)"

definition total :: "tm \<Rightarrow> int" where
  "total t = Second t + Minute t * 60 + Hour t * 3600 + day_number t * 86400"

lemma months: "1 \<le> m \<Longrightarrow> m \<le> 12 \<Longrightarrow> m \<in> {1, 2, 3, 4, 5, 6, 7, 8, 9, 10, 11, 12}" for m :: int
  by (simp, presburger)

lemma before_month:
  assumes "1 \<le> m" "m \<le> 12"
  shows "word_of_int (\<Sum>k \<leftarrow> [1..m - 1]. month_length y k) = DaysBeforeMonth ! nat m + (if leap y \<and> m \<ge> 3 then 1 else 0)"
  using months [OF assms] by (auto simp: DaysBeforeMonth_def month_length_def upto_rec1)

lemma add_years: "add_years ys days = days + word_of_int (\<Sum>y \<leftarrow> ys. year_days y)"
  by (induction ys arbitrary: days) (simp_all add: DaysInYear_def year_days_def)

lemma days_of_number:
  assumes "valid_tm t"
  shows "days_of t = word_of_int (day_number t)"
proof -
  have "days_of t = word_of_int (DayOfMonth t - 1) + (DaysBeforeMonth ! nat (Month t) + (if leap (2000 + Year t) \<and> Month t \<ge> 3 then 1 else 0)) +
      word_of_int (\<Sum>y \<leftarrow> [1970..1999 + Year t]. year_days y)"
    by (simp add: days_of_def add_years Let_def algebra_simps)
  then show ?thesis using assms by (simp add: before_month [symmetric] day_number_def day_of_year_def valid_tm_def)
qed

lemma MakeKernelTime_total: "valid_tm t \<Longrightarrow> MakeKernelTime t = word_of_int (total t)"
  by (simp add: MakeKernelTime_def days_of_number total_def SECONDS_IN_MINUTE_def SECONDS_IN_HOUR_def SECONDS_IN_DAY_def)

lemma upto_snoc: "i \<le> j + 1 \<Longrightarrow> [i..j + 1] = [i..j] @ [j + 1]" for i j :: int
  by (simp add: upto_rec2)

lemma sum_months: "(\<Sum>m \<leftarrow> [1..12]. month_length y m) = year_days y"
  by (simp add: month_length_def year_days_def upto_rec1)

lemma next_day_number:
  assumes v: "valid_tm t"
  shows "valid_tm (next_day t) \<and> day_number (next_day t) = day_number t + 1"
proof -
  have ml: "1 \<le> month_length y m" for y m by (simp add: month_length_def)
  consider "DayOfMonth t < month_length (2000 + Year t) (Month t)"
    | "DayOfMonth t = month_length (2000 + Year t) (Month t)" "Month t < 12"
    | "DayOfMonth t = month_length (2000 + Year t) (Month t)" "Month t = 12"
    using v by (fastforce simp: valid_tm_def)
  then show ?thesis
  proof cases
    case 1
    then show ?thesis using v by (simp add: next_day_def valid_tm_def day_number_def day_of_year_def)
  next
    case 2
    have "[1..Month t] = [1..Month t - 1] @ [Month t]" using upto_snoc [of 1 "Month t - 1"] v by (simp add: valid_tm_def)
    then show ?thesis using 2 v ml by (simp add: next_day_def valid_tm_def day_number_def day_of_year_def)
  next
    case 3
    have "[1970..2000 + Year t] = [1970..1999 + Year t] @ [2000 + Year t]" using upto_snoc [of 1970 "1999 + Year t"] v
      by (simp add: valid_tm_def)
    moreover have "[1..12 :: int] = [1..11] @ [12]" using upto_snoc [of 1 11] by simp
    ultimately show ?thesis using 3 v ml sum_months [of "2000 + Year t"]
      by (simp add: next_day_def valid_tm_def day_number_def day_of_year_def)
  qed
qed

lemma next_second_total: "valid_tm t \<Longrightarrow> valid_tm (next_second t) \<and> total (next_second t) = total t + 1"
proof -
  assume v: "valid_tm t"
  let ?t = "t\<lparr>Second := 0, Minute := 0, Hour := 0\<rparr>"
  have d: "valid_tm ?t" "day_number ?t = day_number t" using v by (simp_all add: valid_tm_def day_number_def day_of_year_def)
  have "Second (next_day u) = Second u" "Minute (next_day u) = Minute u" "Hour (next_day u) = Hour u" for u
    by (simp_all add: next_day_def)
  then show ?thesis using v next_day_number [OF d(1)] d(2)
    by (auto simp: next_second_def valid_tm_def total_def day_number_def day_of_year_def)
qed

lemma total_y2k: "total y2k = 946684800" "valid_tm y2k"
  by (simp_all add: y2k_def total_def day_number_def day_of_year_def valid_tm_def month_length_def year_days_def leap_def upto_rec1)

lemma ticks_total: "valid_tm ((next_second ^^ n) y2k) \<and> total ((next_second ^^ n) y2k) = 946684800 + int n"
  by (induction n) (simp_all add: total_y2k next_second_total)

text \<open>
  C23. \<open>MakeKernelTime\<close> is equivalent to counting: for the moment \<open>n\<close> seconds after
  2000-01-01 00:00:00, reached by \<open>n\<close> steps of a clock that knows only how one second follows
  another in the Gregorian calendar (\<open>next_second\<close>, with leap years of its own, \<open>leap\<close>), it returns 946684800 plus \<open>n\<close>, modulo \<open>2 ^ 32\<close>.
\<close>

theorem kernel_time_counts_seconds: "uint (MakeKernelTime ((next_second ^^ n) y2k)) = (946684800 + int n) mod 2 ^ 32"
proof -
  have "MakeKernelTime ((next_second ^^ n) y2k) = word_of_int (946684800 + int n)" using ticks_total [of n] MakeKernelTime_total by metis
  then show ?thesis by (simp only: uint_word_of_int) simp
qed

section \<open>The way back\<close>

lemma upto_rec: "i \<le> j \<Longrightarrow> [i..j] = i # [i + 1..j]" for i j :: int
  by (simp add: upto_rec1)

lemma unat_DaysInYear: "int (unat (DaysInYear y)) = year_days y"
  by (simp add: DaysInYear_def year_days_def)

lemma sum_year_days: "0 \<le> (\<Sum>k \<leftarrow> ys. year_days k)"
  by (induction ys) (simp_all add: year_days_def)

lemma uint_DaysInYear: "uint (DaysInYear y) = year_days y" "365 \<le> year_days y"
  by (simp_all add: DaysInYear_def year_days_def)

lemma uint_minus: "y \<le> x \<Longrightarrow> uint (x - y) = uint x - uint y" for x y :: u32
  by (simp add: uint_sub_if_size word_le_def)

declare year_loop.simps [simp del] month_loop.simps [simp del]

lemma year_loop_number:
  assumes "0 \<le> d" "d < year_days y" "a \<le> y" "uint days = d + (\<Sum>k \<leftarrow> [a..y - 1]. year_days k)"
  shows "year_loop days a = (word_of_int d, y)"
  using assms
proof (induction "nat (y - a)" arbitrary: a days)
  case 0
  then have "a = y" by simp
  moreover from this have "uint days = d" using "0.prems" by simp
  moreover from this have "\<not> DaysInYear y \<le> days" using "0.prems" by (simp add: word_le_def uint_DaysInYear)
  ultimately show ?case by (subst year_loop.simps) (simp, simp add: word_uint_eq_iff uint_word_of_int take_bit_int_eq_self_iff flip: \<open>uint days = d\<close>)
next
  case (Suc n)
  then have l: "a \<le> y - 1" "[a..y - 1] = a # [a + 1..y - 1]" by (auto simp: upto_rec)
  let ?r = "d + (\<Sum>k \<leftarrow> [a + 1..y - 1]. year_days k)"
  have u: "uint days = year_days a + ?r" "0 \<le> ?r" using Suc.prems l sum_year_days [of "[a + 1..y - 1]"] by simp_all
  then have g: "DaysInYear a \<le> days" "365 \<le> days" using uint_DaysInYear [of a] by (simp_all add: word_le_def)
  have "year_loop (days - DaysInYear a) (a + 1) = (word_of_int d, y)"
    using Suc.hyps(2) Suc.prems u l g by (intro Suc.hyps(1)) (simp_all add: uint_minus uint_DaysInYear)
  then show ?case using g by (subst year_loop.simps) simp
qed

lemma length_of_month: "1 \<le> i \<Longrightarrow> i \<le> 12 \<Longrightarrow>
    uint (if i = 2 \<and> leap y then daysInMonth ! nat i + 1 else daysInMonth ! nat i) = month_length y i"
  using months [of i] by (auto simp: daysInMonth_def month_length_def)

lemma sum_month_length: "0 \<le> (\<Sum>k \<leftarrow> ms. month_length y k)" "28 \<le> month_length y m"
  by (induction ms) (simp_all add: month_length_def)

lemma of_uint: "uint x = k \<Longrightarrow> x = word_of_int k"
  by auto

text \<open>The month loop goes on only while the days left exceed the month, so the first of a month belongs to the one before.\<close>

lemma month_loop_number:
  assumes "0 \<le> d" "d < month_length y m" "1 \<le> i" "i \<le> m" "m \<le> 12" "uint days = d + (\<Sum>k \<leftarrow> [i..m - 1]. month_length y k)"
  shows "month_loop y [i..12] days mo =
    (if d = 0 \<and> i < m then (word_of_int (month_length y (m - 1)), if m - 1 = i then mo else m - 1)
     else (word_of_int d, if m = i then mo else m))"
  using assms
proof (induction "nat (m - i)" arbitrary: i days mo)
  case 0
  then have i: "i = m" "[i..12] = i # [i + 1..12]" "uint days = d" using upto_rec [of i 12] by simp_all
  then have "days = word_of_int d" by (simp add: of_uint)
  moreover have "\<not> days > (if i = 2 \<and> leap y then daysInMonth ! nat i + 1 else daysInMonth ! nat i)"
    unfolding word_less_def using length_of_month [of i y] i 0 by simp
  ultimately show ?case using i(1) unfolding i(2) month_loop.simps(2) Let_def by simp
next
  case (Suc n)
  let ?l = "if i = 2 \<and> leap y then daysInMonth ! nat i + 1 else daysInMonth ! nat i"
  have i: "i < m" "[i..12] = i # [i + 1..12]" "[i..m - 1] = i # [i + 1..m - 1]" using Suc upto_rec [of i 12] upto_rec [of i "m - 1"] by simp_all
  have l: "uint ?l = month_length y i" using Suc.prems i by (intro length_of_month) simp_all
  let ?r = "d + (\<Sum>k \<leftarrow> [i + 1..m - 1]. month_length y k)"
  have u: "uint days = month_length y i + ?r" using Suc.prems(6) i by simp
  show ?case
  proof (cases "m = i + 1")
    case True
    then have u': "uint days = month_length y i + d" using u by simp
    show ?thesis
    proof (cases "d = 0")
      case True
      then have "\<not> days > ?l" "days = word_of_int (month_length y i)" using u' l of_uint [of days] by (simp_all add: word_less_def)
      then show ?thesis using True i \<open>m = i + 1\<close> unfolding i(2) month_loop.simps(2) Let_def by simp
    next
      case False
      then have g: "days > ?l" using u' l Suc.prems by (simp add: word_less_def)
      have "month_loop y [i + 1..12] (days - ?l) (i + 1) = (word_of_int d, m)"
        using Suc.hyps(1) [of "i + 1" "days - ?l" "i + 1"] Suc.hyps(2) Suc.prems i \<open>m = i + 1\<close> u' l g
        by (simp add: uint_minus less_imp_le)
      then show ?thesis using False i g \<open>m = i + 1\<close> unfolding i(2) month_loop.simps(2) Let_def by simp
    qed
  next
    case False
    then have "[i + 1..m - 1] = (i + 1) # [i + 1 + 1..m - 1]" using i upto_rec [of "i + 1" "m - 1"] by simp
    then have "0 < ?r" using sum_month_length(1) [of y "[i + 1 + 1..m - 1]"] sum_month_length(2) [of y "i + 1"] Suc.prems(1) by simp
    then have g: "days > ?l" using u l by (simp add: word_less_def)
    have "uint (days - ?l) = ?r" using u l g by (simp add: uint_minus less_imp_le)
    then have "month_loop y [i + 1..12] (days - ?l) (i + 1) =
       (if d = 0 \<and> i + 1 < m then (word_of_int (month_length y (m - 1)), if m - 1 = i + 1 then i + 1 else m - 1)
        else (word_of_int d, if m = i + 1 then i + 1 else m))"
      using Suc.hyps(2) Suc.prems i by (intro Suc.hyps(1)) simp_all
    then show ?thesis using False i g unfolding i(2) month_loop.simps(2) Let_def by (auto split: if_splits)
  qed
qed


lemma day_of_year_bounds:
  assumes "valid_tm t"
  shows "0 \<le> day_of_year t" "day_of_year t < year_days (2000 + Year t)"
proof -
  let ?y = "2000 + Year t"
  show "0 \<le> day_of_year t" using assms sum_month_length(1) [of ?y "[1..Month t - 1]"] by (simp add: day_of_year_def valid_tm_def)
  have "[1..12] = [1..Month t - 1] @ Month t # [Month t + 1..12]"
    using assms upto_split3 [of 1 "Month t" 12] by (simp add: valid_tm_def)
  then have "year_days ?y = (\<Sum>m \<leftarrow> [1..Month t - 1]. month_length ?y m) + (month_length ?y (Month t) + (\<Sum>m \<leftarrow> [Month t + 1..12]. month_length ?y m))"
    unfolding sum_months [symmetric] by simp
  then show "day_of_year t < year_days ?y"
    using assms sum_month_length(1) [of ?y "[Month t + 1..12]"] by (simp add: day_of_year_def valid_tm_def)
qed

lemma small_int: "0 \<le> k \<Longrightarrow> k < 2 ^ 32 \<Longrightarrow> uint (word_of_int k :: u32) = k"
  by (simp add: uint_word_of_int)

lemma clock_parts:
  fixes s m h d :: int
  assumes "0 \<le> s" "s < 60" "0 \<le> m" "m < 60" "0 \<le> h" "h < 24"
  shows "(s + m * 60 + h * 3600 + d * 86400) div 86400 = d" "(s + m * 60 + h * 3600 + d * 86400) mod 86400 = s + m * 60 + h * 3600"
    "(s + m * 60 + h * 3600) div 3600 = h" "(s + m * 60 + h * 3600) mod 3600 = s + m * 60" "(s + m * 60) div 60 = m"
    "(s + m * 60 + h * 3600) mod 60 = s"
proof -
  have b: "0 \<le> s + m * 60 + h * 3600" "s + m * 60 + h * 3600 < 86400" "0 \<le> s + m * 60" "s + m * 60 < 3600" using assms by linarith+
  show "(s + m * 60 + h * 3600 + d * 86400) div 86400 = d" "(s + m * 60 + h * 3600 + d * 86400) mod 86400 = s + m * 60 + h * 3600" using b by simp_all
  show "(s + m * 60 + h * 3600) div 3600 = h" "(s + m * 60 + h * 3600) mod 3600 = s + m * 60" using b by simp_all
  show "(s + m * 60) div 60 = m" using assms by simp
  have "s + m * 60 + h * 3600 = s + (m + h * 60) * 60" by simp
  then show "(s + m * 60 + h * 3600) mod 60 = s" using assms by (simp only: mod_mult_self1) simp
qed

text \<open>
  C24. \<open>localtime\<close> after \<open>mktime\<close>, for every valid date and time that fits the 32-bit
  clock: second, minute, hour and year come back; the month and the day come back except that
  January is reported as month 0 and the first of a month as the day after the last of the month
  before; the day of the week is read one place too far in its table, behind its end on one day of
  the week (\<open>beyond\<close> is the word found there).
\<close>

theorem localtime_of_mktime:
  assumes v: "valid_tm t" and fits: "total t < 2 ^ 32"
  shows "localtime beyond (fst (mktime t)) =
    t\<lparr>Month := if Month t = 1 then 0 else if DayOfMonth t = 1 then if Month t = 2 then 0 else Month t - 1 else Month t,
      DayOfMonth := if DayOfMonth t = 1 \<and> Month t > 1 then month_length (2000 + Year t) (Month t - 1) + 1 else DayOfMonth t,
      DayOfWeek := (weekdayNumber @ [beyond]) ! (nat (day_number t mod 7) + 1)\<rparr>"
proof -
  let ?y = "2000 + Year t" and ?d = "day_of_year t"
  define w where "w = MakeKernelTime t"
  have nn: "0 \<le> day_number t" using sum_year_days [of "[1970..1999 + Year t]"] day_of_year_bounds(1) [OF v] by (simp add: day_number_def)
  have cb: "0 \<le> Second t" "Second t < 60" "0 \<le> Minute t" "Minute t < 60" "0 \<le> Hour t" "Hour t < 24" using v by (simp_all add: valid_tm_def)
  have t0: "0 \<le> total t" using nn cb by (simp add: total_def)
  have w: "uint w = total t" using t0 fits by (simp add: w_def MakeKernelTime_total [OF v] uint_word_of_int)
  note parts = clock_parts [OF cb]
  have days: "uint (w div SECONDS_IN_DAY) = day_number t" by (simp add: uint_div w SECONDS_IN_DAY_def total_def parts)
  have secs: "uint (w mod SECONDS_IN_DAY) = Second t + Minute t * 60 + Hour t * 3600"
    using parts(2) [of "day_number t"] by (simp only: uint_mod w total_def SECONDS_IN_DAY_def) simp
  have yl: "year_loop (w div SECONDS_IN_DAY) 1970 = (word_of_int ?d, ?y)"
    using day_of_year_bounds [OF v] v days by (intro year_loop_number) (simp_all add: day_number_def valid_tm_def)
  have db: "?d < 366" using day_of_year_bounds [OF v] by (simp add: year_days_def split: if_splits)
  have ud: "uint (word_of_int ?d :: u32) = ?d" using db day_of_year_bounds(1) [OF v] by (simp add: uint_word_of_int)
  have ml: "month_loop ?y [1..12] (word_of_int ?d) 0 =
    (if DayOfMonth t - 1 = 0 \<and> 1 < Month t then (word_of_int (month_length ?y (Month t - 1)), if Month t - 1 = 1 then 0 else Month t - 1)
     else (word_of_int (DayOfMonth t - 1), if Month t = 1 then 0 else Month t))"
    using v ud by (intro month_loop_number) (simp_all add: valid_tm_def day_of_year_def)
  have len: "month_length y m < 32" for y m by (simp add: month_length_def)
  have u1: "uint (word_of_int (DayOfMonth t - 1) :: u32) = DayOfMonth t - 1"
    by (rule small_int) (use v len [of ?y "Month t"] in \<open>simp_all add: valid_tm_def\<close>)
  have u2: "uint (word_of_int (month_length y m) :: u32) = month_length y m" for y m
    using len [of y m] sum_month_length(2) [of y m] by (simp add: uint_word_of_int)
  have wd: "unat (w div SECONDS_IN_DAY mod 7) = nat (day_number t mod 7)"
    using days by (simp add: uint_mod flip: nat_uint_eq)
  have sec: "uint (w mod SECONDS_IN_DAY mod SECONDS_IN_MINUTE) = Second t"
    "uint (w mod SECONDS_IN_DAY mod SECONDS_IN_HOUR div SECONDS_IN_MINUTE) = Minute t"
    "uint (w mod SECONDS_IN_DAY div SECONDS_IN_HOUR) = Hour t"
    unfolding uint_mod [of "w mod SECONDS_IN_DAY"] uint_div uint_mod [of "w mod SECONDS_IN_DAY" SECONDS_IN_HOUR] secs
    using mod_pos_pos_trivial [of "Second t + Minute t * 60" 3600] cb
    by (simp_all add: SECONDS_IN_MINUTE_def SECONDS_IN_HOUR_def parts)
  show ?thesis
    unfolding mktime_def fst_conv w_def [symmetric] localtime_def Let_def yl ml case_prod_conv wd sec
    using v u1 u2 by (simp add: valid_tm_def)
qed

lemma localtime_of_mktime_witness:
  "localtime 0 (fst (mktime (y2k\<lparr>DayOfMonth := 1, Month := 3, Year := 24\<rparr>))) = y2k\<lparr>DayOfMonth := 30, Month := 2, Year := 24, DayOfWeek := 6\<rparr>"
proof -
  have v: "valid_tm (y2k\<lparr>DayOfMonth := 1, Month := 3, Year := 24\<rparr>)" by (simp add: y2k_def valid_tm_def month_length_def)
  have n: "day_number (y2k\<lparr>DayOfMonth := 1, Month := 3, Year := 24\<rparr>) = 19783"
    by (simp add: y2k_def day_number_def day_of_year_def month_length_def year_days_def leap_def upto_rec1)
  then have "total (y2k\<lparr>DayOfMonth := 1, Month := 3, Year := 24\<rparr>) < 2 ^ 32" by (simp add: total_def y2k_def)
  from localtime_of_mktime [OF v this, of 0] show ?thesis using n
    by (simp add: y2k_def month_length_def weekdayNumber_def leap_def)
qed

end
