(* ===== verification/ImageSpec.thy ===== *)
theory ImageSpec
  imports KmDemo
begin

text \<open>
  What the routines on process images guarantee: growing and shrinking keep the contents, an image that
  goes to the swap area comes back, and what the swapper never does.
\<close>

section \<open>Copying\<close>

text \<open>Offsets below \<open>2 ^ 32\<close> from one address are different addresses.\<close>

lemma offset_inj: "i < 2 ^ 32 \<Longrightarrow> j < 2 ^ 32 \<Longrightarrow> of_nat i = (of_nat j :: u32) \<longleftrightarrow> i = j"
  by (simp add: word_of_nat_eq_iff take_bit_nat_eq_self)

lemma offset_neq: "i < j \<Longrightarrow> j < 2 ^ 32 \<Longrightarrow> a + of_nat i \<noteq> a + (of_nat j :: u32)"
  using offset_inj [of i j] by simp

lemma copy_up_other: "(\<And>k. k < n \<Longrightarrow> a \<noteq> des + of_nat k) \<Longrightarrow> copy_up n src des mem a = mem a"
proof (induction n arbitrary: src des mem)
  case (Suc n)
  have "a \<noteq> des + 1 + of_nat k" if "k < n" for k using Suc.prems [of "Suc k"] that by (simp add: add.assoc)
  with Suc.IH show ?case using Suc.prems [of 0] by (simp add: CopySeg_def)
qed simp

lemma copy_up_at:
  assumes "n \<le> 2 ^ 32" "\<And>i j. i < j \<Longrightarrow> j < n \<Longrightarrow> src + of_nat j \<noteq> des + of_nat i" "k < n"
  shows "copy_up n src des mem (des + of_nat k) = mem (src + of_nat k)"
  using assms
proof (induction n arbitrary: src des mem k)
  case (Suc n)
  show ?case
  proof (cases k)
    case 0
    have "des \<noteq> des + 1 + of_nat m" if "m < n" for m
      using offset_neq [of 0 "Suc m" des] that Suc.prems(1) by (simp add: add.assoc)
    then show ?thesis using 0 by (simp add: copy_up_other CopySeg_def)
  next
    case k: (Suc m)
    have "src + 1 + of_nat j \<noteq> des + 1 + of_nat i" if "i < j" "j < n" for i j
      using Suc.prems(2) [of "Suc i" "Suc j"] that by (simp add: algebra_simps)
    then have "copy_up n (src + 1) (des + 1) (CopySeg src des mem) (des + 1 + of_nat m) = CopySeg src des mem (src + 1 + of_nat m)"
      using Suc.prems k by (intro Suc.IH) simp_all
    moreover have "src + 1 + of_nat m \<noteq> des" using Suc.prems(2) [of 0 "Suc m"] Suc.prems(3) k by (simp add: add.assoc)
    ultimately show ?thesis using k by (simp add: CopySeg_def add.assoc)
  qed
qed simp

lemma copy_down_other: "(\<And>k. k < n \<Longrightarrow> a \<noteq> des - 1 - of_nat k) \<Longrightarrow> copy_down n src des mem a = mem a"
proof (induction n arbitrary: src des mem)
  case (Suc n)
  have "a \<noteq> des - 1 - 1 - of_nat k" if "k < n" for k using Suc.prems [of "Suc k"] that by (simp add: algebra_simps)
  with Suc.IH show ?case using Suc.prems [of 0] by (simp add: CopySeg_def)
qed simp

lemma copy_down_at:
  assumes "n \<le> 2 ^ 32" "\<And>i j. i < j \<Longrightarrow> j < n \<Longrightarrow> src - of_nat j \<noteq> des - of_nat i" "k < n"
  shows "copy_down n src des mem (des - 1 - of_nat k) = mem (src - 1 - of_nat k)"
  using assms
proof (induction n arbitrary: src des mem k)
  case (Suc n)
  show ?case
  proof (cases k)
    case 0
    have "des - 1 \<noteq> des - 1 - 1 - of_nat m" if "m < n" for m
      using offset_neq [of 0 "Suc m" "0 :: u32"] that Suc.prems(1) by (simp add: algebra_simps)
    then show ?thesis using 0 by (simp add: copy_down_other CopySeg_def)
  next
    case k: (Suc m)
    have "src - 1 - of_nat j \<noteq> des - 1 - of_nat i" if "i < j" "j < n" for i j
      using Suc.prems(2) [of "Suc i" "Suc j"] that by (simp add: algebra_simps)
    then have "copy_down n (src - 1) (des - 1) (CopySeg (src - 1) (des - 1) mem) (des - 1 - 1 - of_nat m) =
        CopySeg (src - 1) (des - 1) mem (src - 1 - 1 - of_nat m)"
      using Suc.prems k by (intro Suc.IH) simp_all
    moreover have "src - 1 - 1 - of_nat m \<noteq> des - 1" using Suc.prems(2) [of 0 "Suc m"] Suc.prems(3) k by (simp add: algebra_simps)
    ultimately show ?thesis using k by (simp add: CopySeg_def algebra_simps)
  qed
qed simp

text \<open>The stack moved up or down by \<open>c\<close> bytes, both below 16 MB.\<close>

lemma stack_down:
  assumes "n \<le> 0x1000000" "0 < c" "c \<le> 0x1000000" "k < n"
  shows "copy_up n (des + of_nat c) des mem (des + of_nat k) = mem (des + of_nat c + of_nat k)"
proof (rule copy_up_at)
  fix i j
  assume "i < j" "j < n"
  then show "des + of_nat c + of_nat j \<noteq> des + of_nat i" using offset_neq [of i "c + j" des] assms by (simp add: algebra_simps)
qed (use assms in simp_all)

lemma stack_up:
  assumes "n \<le> 0x1000000" "0 < c" "c \<le> 0x1000000" "k < n"
  shows "copy_down n (fin - of_nat c) fin mem (fin - of_nat n + of_nat k) = mem (fin - of_nat c - of_nat n + of_nat k)"
proof -
  have "copy_down n (fin - of_nat c) fin mem (fin - 1 - of_nat (n - 1 - k)) = mem (fin - of_nat c - 1 - of_nat (n - 1 - k))"
  proof (rule copy_down_at)
    fix i j
    assume "i < j" "j < n"
    then show "fin - of_nat c - of_nat j \<noteq> fin - of_nat i" using offset_inj [of i "c + j"] assms by (simp add: algebra_simps)
  qed (use assms in simp_all)
  moreover have m: "(of_nat (n - 1 - k) :: u32) = of_nat n - 1 - of_nat k" using assms(4) by (simp add: of_nat_diff)
  moreover have "x - 1 - (of_nat n - 1 - of_nat k) = x - of_nat n + of_nat k" for x :: u32 by (simp add: algebra_simps)
  ultimately show ?thesis by (simp only:)
qed


text \<open>
  An image of \<open>0x1000 + d\<close> bytes and a stack of \<open>n\<close> bytes above them: moving the stack keeps what is below,
  and the stack is found at its new place.
\<close>

lemma shrink_image:
  assumes "n \<le> 0x800000" "d \<le> 0x800000" "0 < c" "c \<le> 0x1000000" and des: "des = a + of_nat (0x1000 + d)"
  shows "k < 0x1000 + d \<Longrightarrow> copy_up n (des + of_nat c) des mem (a + of_nat k) = mem (a + of_nat k)"
    and "k < n \<Longrightarrow> copy_up n (des + of_nat c) des mem (a + of_nat (0x1000 + d + k)) = mem (a + of_nat (0x1000 + (d + c) + k))"
proof -
  assume k: "k < 0x1000 + d"
  have "a + of_nat k \<noteq> des + of_nat j" if "j < n" for j
    using offset_neq [of k "0x1000 + d + j" a] k that assms by (simp add: des add.assoc)
  then show "copy_up n (des + of_nat c) des mem (a + of_nat k) = mem (a + of_nat k)" by (rule copy_up_other)
next
  assume "k < n"
  then show "copy_up n (des + of_nat c) des mem (a + of_nat (0x1000 + d + k)) = mem (a + of_nat (0x1000 + (d + c) + k))"
    using stack_down [of n c k des mem] assms by (simp add: des algebra_simps)
qed

lemma grow_image:
  assumes "n \<le> 0x800000" "d + c \<le> 0x800000" "0 < c" and up: "up = a + of_nat (0x1000 + (d + c) + n)"
  shows "k < 0x1000 + d \<Longrightarrow> copy_down n (up - of_nat c) up mem (a + of_nat k) = mem (a + of_nat k)"
    and "k < n \<Longrightarrow> copy_down n (up - of_nat c) up mem (a + of_nat (0x1000 + (d + c) + k)) = mem (a + of_nat (0x1000 + d + k))"
proof -
  assume k: "k < 0x1000 + d"
  have "a + of_nat k \<noteq> up - 1 - of_nat j" if "j < n" for j
  proof -
    define m where "m = 0x1000 + (d + c) + n - 1 - j"
    have "up - 1 - of_nat j = a + of_nat m" using that by (simp add: m_def up of_nat_diff algebra_simps)
    moreover have "k < m" "m < 2 ^ 32" using k that assms by (simp_all add: m_def)
    ultimately show ?thesis using offset_neq [of k m a] by (simp only:) simp
  qed
  then show "copy_down n (up - of_nat c) up mem (a + of_nat k) = mem (a + of_nat k)" by (rule copy_down_other)
next
  assume k: "k < n"
  have "up - of_nat n + of_nat k = a + of_nat (0x1000 + (d + c) + k)" "up - of_nat c - of_nat n + of_nat k = a + of_nat (0x1000 + d + k)"
    by (simp_all add: up algebra_simps)
  moreover have "copy_down n (up - of_nat c) up mem (up - of_nat n + of_nat k) = mem (up - of_nat c - of_nat n + of_nat k)"
    using k assms by (intro stack_up) simp_all
  ultimately show "copy_down n (up - of_nat c) up mem (a + of_nat (0x1000 + (d + c) + k)) = mem (a + of_nat (0x1000 + d + k))" by (simp only:)
qed

section \<open>Growing and shrinking\<close>

text \<open>
  The image of the running process: the user structure, the data and the stack, in memory that the
  page manager does not count as free.
\<close>

definition image_ok :: "'a km_scheme \<Rightarrow> bool" where
  "image_ok s \<longleftrightarrow>
     (let p = process s ! u_procp s; m = u_md s
      in u_procp s < length (process s) \<and> pool_ok 0x100000 (userPages s) \<and>
         unat (p_addr p) + unat (p_size p) \<le> 2 ^ 32 \<and>
         (\<forall>k < unat (p_size p). (unat (p_addr p) + k) div 0x1000 \<notin> pool_units (userPages s)) \<and>
         p_size p = USIZE + m_DataSize m + m_StackSize m \<and> unat (m_DataSize m) \<le> 0x800000 \<and> unat (m_StackSize m) \<le> 0x800000 \<and>
         length (m_Table m) = USER_ENTRIES)"

lemma map_entries_bound: "map_entries n i phy rw tab = Done r \<Longrightarrow> length tab \<le> USER_ENTRIES \<Longrightarrow> n \<le> USER_ENTRIES"
proof -
  have "map_entries n i phy rw tab = Done r \<Longrightarrow> length tab \<le> USER_ENTRIES \<Longrightarrow> unat i \<le> USER_ENTRIES \<Longrightarrow> unat i + n \<le> USER_ENTRIES"
  proof (induction n arbitrary: i phy tab)
    case (Suc n)
    then have i: "unat i < length tab" by (auto split: if_splits)
    then have "unat (i + 1) = unat i + 1" using unat_add_nowrap [of i 1] Suc.prems(2) by (simp add: USER_ENTRIES_def USER_SPACE_PAGE_TABLE_CNT_def ENTRY_CNT_PER_PAGETABLE_def)
    with i Suc.prems Suc.IH [of "i + 1" "phy + 1" "tab[unat i := (tab ! unat i)\<lparr>m_Present := True, m_ReadWriter := rw, m_PageBaseAddress := ucast phy\<rparr>]"]
    show ?case by simp
  qed simp
  moreover assume "map_entries n i phy rw tab = Done r" "length tab \<le> USER_ENTRIES"
  ultimately show ?thesis by (cases "unat i \<le> USER_ENTRIES"; cases n) (auto split: if_splits)
qed


lemma unat_le_max: "unat (x :: u32) \<le> 2 ^ 32 - 1"
proof -
  have "unat x < 2 ^ LENGTH(32)" by (rule unsigned_less)
  then show ?thesis by simp
qed

text \<open>The bytes of memory that the page manager hands out were free.\<close>

lemma alloc_bytes_free:
  assumes ok: "pool_ok 0x100000 p" and sz: "sz \<noteq> 0" "unat sz \<le> 2 ^ 32 - 0x1000" and al: "AllocMemory p sz = Some (a, p')" and a: "a \<noteq> 0"
  shows "\<forall>i < unat sz. (unat a + i) div 0x1000 \<in> pool_units p" "unat a + unat sz \<le> 2 ^ 32"
proof -
  obtain r where r: "pool_alloc p (pages_for sz) = Some (r, p')" and addr: "a = r * PAGE_SIZE"
    using al by (auto simp: AllocMemory_def)
  note np = unat_pages_for [OF sz(2)]
  have n0: "pages_for sz \<noteq> 0" using np unat_pos [OF sz(1)] by (auto simp: word_eq_unat)
  have r0: "r \<noteq> 0" using a addr by auto
  have sub: "region r (pages_for sz) \<subseteq> pool_units p" using nf.alloc_cases(3) [OF ok n0 r r0] .
  have b: "unat r + unat (pages_for sz) \<le> 0x100000" using nf.region_bounds [OF ok n0 sub] .
  then have rb: "unat r < 0x100000" using unat_pos [OF n0] by simp
  note pa = page_address [OF rb]
  have "(unat a + i) div 0x1000 \<in> region r (pages_for sz)" if "i < unat sz" for i
    using that np by (simp add: addr pa region_def)
  with sub show "\<forall>i < unat sz. (unat a + i) div 0x1000 \<in> pool_units p" by blast
  have "unat sz \<le> 0x1000 * unat (pages_for sz)" using np by simp
  then show "unat a + unat sz \<le> 2 ^ 32" using b pa addr by simp
qed

text \<open>\<open>Expand\<close> that returns at once.\<close>

lemma expand_smaller:
  assumes "newSize \<le> p_size (process s ! u_procp s)" "Expand newSize s = Done (r, t)" "u_procp s < length (process s)"
  shows "r \<and> pmem t = pmem s \<and> u_md t = u_md s \<and> u_procp t = u_procp s \<and> p_addr (process t ! u_procp s) = p_addr (process s ! u_procp s)"
proof -
  let ?s = "set_proc (u_procp s) ((process s ! u_procp s)\<lparr>p_size := newSize\<rparr>) s"
  have "kbind (free_user (p_size (process s ! u_procp s) - newSize) (p_addr (process s ! u_procp s) + newSize) ?s) (\<lambda>s. Done (True, s)) = Done (r, t)"
    using assms(1,2) by (simp add: Expand_def Let_def)
  then obtain u where "free_user (p_size (process s ! u_procp s) - newSize) (p_addr (process s ! u_procp s) + newSize) ?s = Done u" "r" "t = u"
    by (auto simp: kbind_Done)
  then show ?thesis using assms(3) by (auto simp: free_user_def set_proc_def split: option.splits)
qed

lemma expand_larger:
  assumes "newSize > p_size (process s ! u_procp s)" "Expand newSize s = Done (True, t)" "u_procp s < length (process s)"
    and ok: "pool_ok 0x100000 (userPages s)" and small: "unat newSize \<le> 2 ^ 32 - 0x1000"
    and used: "\<forall>k < unat (p_size (process s ! u_procp s)). (unat (p_addr (process s ! u_procp s)) + k) div 0x1000 \<notin> pool_units (userPages s)"
    and fits: "unat (p_addr (process s ! u_procp s)) + unat (p_size (process s ! u_procp s)) \<le> 2 ^ 32"
  shows "u_md t = u_md s \<and> u_procp t = u_procp s \<and>
    (\<forall>k < unat (p_size (process s ! u_procp s)).
       pmem t (p_addr (process t ! u_procp s) + of_nat k) = pmem s (p_addr (process s ! u_procp s) + of_nat k))"
proof -
  let ?i = "u_procp s"
  let ?p = "process s ! ?i"
  let ?n = "unat (p_size ?p)" and ?old = "p_addr ?p"
  let ?s = "set_proc ?i (?p\<lparr>p_size := newSize\<rparr>) s"
  have e: "kbind (alloc_user newSize ?s) (\<lambda>(a, s).
      if a = 0 then kbind (XSwap ?i True (p_size ?p) s) (\<lambda>s. Done (False, set_proc ?i ((process s ! ?i)\<lparr>p_flag := set_flag (p_flag (process s ! ?i)) SSWAP\<rparr>) s))
      else kbind (free_user (p_size ?p) ?old (let s = set_proc ?i ((process s ! ?i)\<lparr>p_addr := a\<rparr>) s
             in s\<lparr>pmem := copy_up ?n ?old a (pmem s)\<rparr>)) (\<lambda>s. Done (True, MapToPageTable s))) = Done (True, t)"
    using assms(2) assms(1) [unfolded not_le [symmetric]] unfolding Expand_def Let_def by (simp only: if_False)
  obtain a u where u: "alloc_user newSize ?s = Done (a, u)" using e by (auto simp: kbind_Done)
  obtain pl where pl: "AllocMemory (userPages s) newSize = Some (a, pl)" "u = ?s\<lparr>userPages := pl\<rparr>"
    using u by (auto simp: alloc_user_def set_proc_def split: option.splits)
  have a: "a \<noteq> 0" using e u by (auto simp: kbind_Done)
  have n0: "newSize \<noteq> 0" using assms(1) by auto
  note fr = alloc_bytes_free [OF ok n0 small pl(1) a]
  define v where "v = (let s = set_proc ?i ((process u ! ?i)\<lparr>p_addr := a\<rparr>) u in s\<lparr>pmem := copy_up ?n ?old a (pmem s)\<rparr>)"
  obtain w where w: "free_user (p_size ?p) ?old v = Done w" "t = MapToPageTable w" using e u a by (auto simp: kbind_Done v_def)
  have wv: "pmem w = pmem v" "u_md w = u_md v" "u_procp w = u_procp v" "process w = process v"
    using w(1) by (auto simp: free_user_def split: option.splits)
  have tv: "pmem t = pmem v" "u_md t = u_md v" "u_procp t = u_procp v" "process t = process v"
    using wv by (simp_all add: w(2) MapToPageTable_def)
  have v: "pmem v = copy_up ?n ?old a (pmem s)" "u_md v = u_md s" "u_procp v = u_procp s" "p_addr (process v ! ?i) = a"
    using assms(3) by (simp_all add: v_def pl(2) set_proc_def)
  have nb: "?n < unat newSize" using assms(1) by (simp add: word_less_nat_alt)
  have "copy_up ?n ?old a (pmem s) (a + of_nat k) = pmem s (?old + of_nat k)" if "k < ?n" for k
  proof (rule copy_up_at)
    show "?n \<le> 2 ^ 32" using nb unat_le_max [of newSize] by simp
    fix i j
    assume ij: "i < j" "j < ?n"
    have b: "unat (?old + of_nat j) = unat ?old + j" "unat (a + of_nat i) = unat a + i"
      using ij fits fr(2) nb by (simp_all add: unat_add_nowrap unsigned_of_nat take_bit_nat_eq_self)
    have "(unat ?old + j) div 0x1000 \<notin> pool_units (userPages s)" "(unat a + i) div 0x1000 \<in> pool_units (userPages s)"
      using used fr(1) ij nb by simp_all
    then show "?old + of_nat j \<noteq> a + of_nat i" using b by metis
  qed fact
  then show ?thesis using tv v by simp
qed


text \<open>What a successful \<open>EstablishUserPageTable\<close> tells about the sizes.\<close>

lemma map_entries_length: "map_entries n i phy rw tab = Done (p, tab') \<Longrightarrow> length tab' = length tab"
  by (induction n arbitrary: i phy tab) (auto split: if_splits)

lemma establish_cases:
  assumes "EstablishUserPageTable textVA textSize dataVA dataSize stackSize s = Done (ok, t)" "length (m_Table (u_md s)) = USER_ENTRIES"
  shows "(\<not> ok \<and> t = s\<lparr>u_error := ENOMEM\<rparr>) \<or>
    (ok \<and> unat (pages_for dataSize) \<le> 2048 \<and> (\<exists>tab hw. t = s\<lparr>u_md := (u_md s)\<lparr>m_Table := tab\<rparr>, userTables := hw\<rparr>))"
proof (cases "over_limit textVA textSize dataSize stackSize")
  case False
  then obtain tab where f: "fill_tables textVA textSize dataVA dataSize stackSize (m_Table (u_md s)) = Done tab"
      and t: "ok" "t = MapToPageTable (s\<lparr>u_md := (u_md s)\<lparr>m_Table := tab\<rparr>\<rparr>)"
    using assms(1) by (auto simp: EstablishUserPageTable_def kbind_Done)
  obtain x tab1 y where m: "MapEntry textVA textSize 0 False (ClearUserPageTable (m_Table (u_md s))) = Done (x, tab1)"
      "MapEntry dataVA dataSize 1 True tab1 = Done y"
    using f by (auto simp: fill_tables_def kbind_Done)
  have "length tab1 = USER_ENTRIES" using map_entries_length m(1) assms(2) by (fastforce simp: MapEntry_def ClearUserPageTable_def)
  then have "unat (pages_for dataSize) \<le> USER_ENTRIES" using map_entries_bound m(2) by (fastforce simp: MapEntry_def)
  then show ?thesis using t by (auto simp: MapToPageTable_def USER_ENTRIES_def USER_SPACE_PAGE_TABLE_CNT_def ENTRY_CNT_PER_PAGETABLE_def)
qed (use assms in \<open>simp add: EstablishUserPageTable_def\<close>)

lemma word_apart: "unat b = unat a + c \<Longrightarrow> b = a + of_nat c" for a b :: u32
proof -
  assume "unat b = unat a + c"
  then have "(of_nat (unat b) :: u32) = of_nat (unat a + c)" by simp
  then show ?thesis by simp
qed

lemma sint_diff:
  fixes a b :: u32
  assumes "unat a \<le> 0x800000" "unat b \<le> 0x800000"
  shows "sint (a - b) = int (unat a) - int (unat b)"
proof -
  have "uint a \<le> 0x800000" "uint b \<le> 0x800000" using assms nat_uint_eq [of a] nat_uint_eq [of b] by linarith+
  then have "- 2147483648 \<le> uint a - uint b" "uint a - uint b < 2147483648" using uint_ge_0 [of a] uint_ge_0 [of b] by linarith+
  then have "sint (word_of_int (uint a - uint b) :: u32) = uint a - uint b"
    by (simp only: sint_sbintrunc') (simp add: signed_take_bit_int_eq_self)
  then show ?thesis by simp
qed

text \<open>The byte at offset \<open>k\<close> of the image of the running process, and the sizes of its parts.\<close>

definition image_byte :: "'a km_scheme \<Rightarrow> nat \<Rightarrow> u8" where
  "image_byte s k = pmem s (p_addr (process s ! u_procp s) + of_nat k)"

abbreviation data_size :: "'a km_scheme \<Rightarrow> nat" where
  "data_size s \<equiv> unat (m_DataSize (u_md s))"

abbreviation stack_size :: "'a km_scheme \<Rightarrow> nat" where
  "stack_size s \<equiv> unat (m_StackSize (u_md s))"

abbreviation image_start :: "'a km_scheme \<Rightarrow> u32" where
  "image_start s \<equiv> p_addr (process s ! u_procp s)"

abbreviation same_image :: "'a km_scheme \<Rightarrow> 'a km_scheme \<Rightarrow> bool" where
  "same_image s v \<equiv> process v = process s \<and> u_procp v = u_procp s \<and> userPages v = userPages s"

lemma image_facts:
  assumes "image_ok s"
  shows "u_procp s < length (process s)" "pool_ok 0x100000 (userPages s)" "data_size s \<le> 0x800000" "stack_size s \<le> 0x800000"
    "length (m_Table (u_md s)) = USER_ENTRIES" "unat (image_start s) + unat (p_size (process s ! u_procp s)) \<le> 2 ^ 32"
    "\<forall>k < unat (p_size (process s ! u_procp s)). (unat (image_start s) + k) div 0x1000 \<notin> pool_units (userPages s)"
    "unat (p_size (process s ! u_procp s)) = 0x1000 + data_size s + stack_size s"
proof -
  have sz: "p_size (process s ! u_procp s) = USIZE + m_DataSize (u_md s) + m_StackSize (u_md s)"
    using assms unfolding image_ok_def Let_def by blast
  show b: "data_size s \<le> 0x800000" "stack_size s \<le> 0x800000" using assms unfolding image_ok_def Let_def by blast+
  then show "unat (p_size (process s ! u_procp s)) = 0x1000 + data_size s + stack_size s"
    by (simp add: sz USIZE_def unat_add_nowrap)
qed (use assms in \<open>unfold image_ok_def Let_def, blast+\<close>)

text \<open>
  The image shrinks by \<open>c\<close> bytes of data: the stack is copied down, then the rest is given back.  The image
  grows by \<open>c\<close> bytes between data and stack: it gets its new place, then the stack is copied up.
\<close>

lemma shrink_keeps:
  assumes ok: "image_ok s" and v: "same_image s v" and mem: "pmem v = copy_up (stack_size s) (des + of_nat c) des (pmem s)"
    and des: "des = image_start s + of_nat (0x1000 + d)" and c: "0 < c" "data_size s = d + c"
    and size: "unat tot = 0x1000 + d + stack_size s" and e: "Expand tot v = Done (True, u)"
  shows "u_md u = u_md v" "k < 0x1000 + d \<Longrightarrow> image_byte u k = image_byte s k"
    "k < stack_size s \<Longrightarrow> image_byte u (0x1000 + d + k) = image_byte s (0x1000 + data_size s + k)"
proof -
  note f = image_facts [OF ok]
  have "tot \<le> p_size (process s ! u_procp s)" using c size f(8) by (simp add: word_le_nat_alt)
  then have u: "pmem u = pmem v" "u_md u = u_md v" "u_procp u = u_procp s" "p_addr (process u ! u_procp s) = image_start s"
    using expand_smaller [of tot v True u] e f(1) v by auto
  have b: "d \<le> 0x800000" "c \<le> 0x1000000" using c f(3) by linarith+
  note move = shrink_image [OF f(4) b(1) c(1) b(2) des, of _ "pmem s"]
  show "u_md u = u_md v" by (rule u)
  show "image_byte u k = image_byte s k" if "k < 0x1000 + d"
    using move(1) [OF that] unfolding image_byte_def u mem .
  show "image_byte u (0x1000 + d + k) = image_byte s (0x1000 + data_size s + k)" if "k < stack_size s"
    using move(2) [OF that] unfolding image_byte_def u mem c(2) .
qed

lemma grow_keeps:
  assumes ok: "image_ok s" and v: "same_image s v" "pmem v = pmem s" and c: "0 < c" "data_size s + c \<le> 0x800000"
    and size: "unat tot = 0x1000 + (data_size s + c) + stack_size s" and e: "Expand tot v = Done (True, u)"
    and w: "process w = process u" "u_procp w = u_procp u"
      "pmem w = copy_down (stack_size s) (image_start u + tot - of_nat c) (image_start u + tot) (pmem u)"
  shows "u_md u = u_md v" "u_procp u = u_procp s" "k < 0x1000 + data_size s \<Longrightarrow> image_byte w k = image_byte s k"
    "k < stack_size s \<Longrightarrow> image_byte w (0x1000 + (data_size s + c) + k) = image_byte s (0x1000 + data_size s + k)"
proof -
  note f = image_facts [OF ok]
  have sz: "p_size (process v ! u_procp v) < tot" using v c size f(8) by (simp add: word_less_nat_alt)
  have small: "unat tot \<le> 2 ^ 32 - 0x1000" using size c f(4) by simp
  have u: "u_md u = u_md v" "u_procp u = u_procp s"
    "\<And>k. k < 0x1000 + data_size s + stack_size s \<Longrightarrow> pmem u (image_start u + of_nat k) = image_byte s k"
    using expand_larger [OF sz e _ _ small] f v by (simp_all add: image_byte_def)
  show "u_md u = u_md v" "u_procp u = u_procp s" by (rule u)+
  have "tot = of_nat (unat tot)" by simp
  then have "image_start u + tot = image_start u + of_nat (0x1000 + (data_size s + c) + stack_size s)" unfolding size by simp
  note move = grow_image [OF f(4) c(2,1) this, of _ "pmem u"]
  have w': "image_byte w k = copy_down (stack_size s) (image_start u + tot - of_nat c) (image_start u + tot) (pmem u)
      (image_start u + of_nat k)" for k
    by (simp only: image_byte_def w)
  show "image_byte w k = image_byte s k" if "k < 0x1000 + data_size s"
    using move(1) [OF that] u(3) [of k] that by (simp only: w')
  show "image_byte w (0x1000 + (data_size s + c) + k) = image_byte s (0x1000 + data_size s + k)" if "k < stack_size s"
    using move(2) [OF that] u(3) [of "0x1000 + data_size s + k"] that by (simp only: w')
qed

text \<open>
  \<open>SBreak\<close> that returns: nothing happened to the image, or the page tables took the new size \<open>d\<close> and the image
  shrank or grew.
\<close>

lemma data_end_simps [simp]:
  "pmem (data_end s) = pmem s" "process (data_end s) = process s" "u_procp (data_end s) = u_procp s" "u_md (data_end s) = u_md s"
  "image_byte (data_end s) k = image_byte s k" for s :: "'a km_scheme"
  by (simp_all add: data_end_def image_byte_def)

lemma image_byte_cong: "pmem t = pmem s \<Longrightarrow> process t = process s \<Longrightarrow> u_procp t = u_procp s \<Longrightarrow> image_byte t k = image_byte s k"
  by (simp add: image_byte_def)

lemma SBreak_sized:
  fixes s :: "'a km_scheme"
  assumes ok: "image_ok s" and start: "0x1000 \<le> m_DataStartAddress (u_md s)" and le: "m_DataStartAddress (u_md s) \<le> newEnd"
    and ne: "newEnd \<noteq> 0" and e: "SBreak newEnd s = Done (True, t)"
    and d: "d = newEnd - m_DataStartAddress (u_md s)" and tot: "tot = d + (USIZE + m_StackSize (u_md s))"
  obtains (same) "pmem t = pmem s" "process t = process s" "u_procp t = u_procp s" "m_DataSize (u_md t) = m_DataSize (u_md s)"
  | (sized) v where "same_image s v" "pmem v = pmem s" "m_DataSize (u_md v) = d" "unat d \<le> 0x800000"
      "unat tot = 0x1000 + unat d + stack_size s"
      "(if sint (d - m_DataSize (u_md s)) < 0
          then kbind (Expand tot (v\<lparr>pmem := copy_up (stack_size s) (image_start s + tot - m_StackSize (u_md s) - (d - m_DataSize (u_md s)))
                   (image_start s + tot - m_StackSize (u_md s)) (pmem s)\<rparr>)) (\<lambda>(here, s). Done (here, if here then data_end s else s))
          else if sint (d - m_DataSize (u_md s)) > 0
          then kbind (Expand tot v) (\<lambda>(here, u). if \<not> here then Done (False, u)
                 else Done (True, data_end (u\<lparr>pmem := copy_down (stack_size s) (image_start u + tot - (d - m_DataSize (u_md s)))
                        (image_start u + tot) (pmem u)\<rparr>)))
          else Done (True, data_end v)) = Done (True, t)"
proof -
  let ?m = "u_md s"
  note f = image_facts [OF ok]
  obtain ok1 s1 where est: "EstablishUserPageTable (m_TextStartAddress ?m) (m_TextSize ?m) (m_DataStartAddress ?m) d (m_StackSize ?m) s = Done (ok1, s1)"
    using e ne by (auto simp: SBreak_def Let_def kbind_Done d)
  show thesis
  proof (cases ok1)
    case False
    then have "s1 = s\<lparr>u_error := ENOMEM\<rparr>" "t = s1" using establish_cases [OF est f(5)] e ne est by (auto simp: SBreak_def Let_def d)
    then show thesis by (intro same) simp_all
  next
    case True
    then obtain tab hw where pg: "unat (pages_for d) \<le> 2048" and s1: "s1 = s\<lparr>u_md := ?m\<lparr>m_Table := tab\<rparr>, userTables := hw\<rparr>"
      using establish_cases [OF est f(5)] by auto
    have "unat d \<le> 2 ^ 32 - 0x1000" using start le unat_le_max [of newEnd] by (simp add: word_le_nat_alt unat_sub d)
    with pg have nb: "unat d \<le> 0x800000" by (simp add: unat_pages_for)
    define v where "v = s1\<lparr>u_md := (u_md s1)\<lparr>m_DataSize := d\<rparr>\<rparr>"
    have v: "process v = process s" "u_procp v = u_procp s" "userPages v = userPages s" "pmem v = pmem s" "m_DataSize (u_md v) = d"
        "m_StackSize (u_md v) = m_StackSize ?m"
      by (simp_all add: v_def s1)
    have res: "(if sint (d - m_DataSize ?m) < 0
          then kbind (Expand tot (v\<lparr>pmem := copy_up (stack_size s) (image_start v + tot - m_StackSize ?m - (d - m_DataSize ?m))
                   (image_start v + tot - m_StackSize ?m) (pmem v)\<rparr>)) (\<lambda>(here, s). Done (here, if here then data_end s else s))
          else if sint (d - m_DataSize ?m) > 0
          then kbind (Expand tot v) (\<lambda>(here, u). if \<not> here then Done (False, u)
                 else Done (True, data_end (u\<lparr>pmem := copy_down (stack_size s) (image_start u + tot - (d - m_DataSize ?m))
                        (image_start u + tot) (pmem u)\<rparr>)))
          else Done (True, data_end v)) = Done (True, t)"
      using e unfolding SBreak_def Let_def
      by (simp only: if_not_P [OF ne] d [symmetric] est kbind.simps case_prod_conv True not_True_eq_False if_False
          v_def [symmetric] tot [symmetric])
    show thesis
    proof (rule sized [of v])
      show "unat tot = 0x1000 + unat d + stack_size s" using f(4) nb by (simp add: tot USIZE_def unat_add_nowrap)
    qed (use res [unfolded v(1,2,4)] v nb in simp_all)
  qed
qed

text \<open>
  C22. \<open>SBreak\<close> with a new end of the data that is 0 or not below the start of the data,
  when it returns true: the user area and the part of the data that both sizes have keep their
  bytes, and every byte of the stack is found again at its offset behind the new data, wherever
  \<open>Expand\<close> put the image.  This covers all branches: no change, shrinking (the stack is copied
  down before the pages are given back) and growing (in place, to a new region of memory, or through
  the pages it frees first), with the sizes not necessarily multiples of a page.
\<close>

theorem SBreak_keeps_contents:
  assumes ok: "image_ok s" and start: "0x1000 \<le> m_DataStartAddress (u_md s)" and above: "newEnd = 0 \<or> m_DataStartAddress (u_md s) \<le> newEnd"
    and e: "SBreak newEnd s = Done (True, t)"
  shows "(\<forall>k < 0x1000 + min (unat (m_DataSize (u_md s))) (unat (m_DataSize (u_md t))). image_byte t k = image_byte s k) \<and>
         (\<forall>k < unat (m_StackSize (u_md s)).
            image_byte t (0x1000 + unat (m_DataSize (u_md t)) + k) = image_byte s (0x1000 + unat (m_DataSize (u_md s)) + k))"
proof (cases "newEnd = 0")
  case True
  then have "t = data_end s" using e by (simp add: SBreak_def Let_def)
  then show ?thesis by simp
next
  case ne: False
  let ?new = "newEnd - m_DataStartAddress (u_md s)"
  define tot where "tot = ?new + (USIZE + m_StackSize (u_md s))"
  note f = image_facts [OF ok]
  have le: "m_DataStartAddress (u_md s) \<le> newEnd" using above ne by simp
  from ok start le ne e refl tot_def show ?thesis
  proof (cases rule: SBreak_sized)
    case same
    then show ?thesis using image_byte_cong [of t s] by simp
  next
    case (sized v)
    note nb = sized(4) and utot = sized(5) and res = sized(6)
    have sd: "sint (?new - m_DataSize (u_md s)) = int (unat ?new) - int (data_size s)" by (rule sint_diff [OF nb f(3)])
    consider "unat ?new < data_size s" | "data_size s < unat ?new" | "unat ?new = data_size s" by linarith
    then show ?thesis
    proof cases
      case 1
      define c where "c = data_size s - unat ?new"
      have c: "0 < c" "data_size s = unat ?new + c" using 1 unfolding c_def by linarith+
      have ch: "?new - m_DataSize (u_md s) = - of_nat c" using word_apart [OF c(2)] by simp
      define des where "des = image_start s + of_nat (0x1000 + unat ?new)"
      have d: "image_start s + tot - m_StackSize (u_md s) = des" by (simp add: des_def tot_def USIZE_def algebra_simps)
      define w where "w = v\<lparr>pmem := copy_up (stack_size s) (des + of_nat c) des (pmem s)\<rparr>"
      have lt: "sint (?new - m_DataSize (u_md s)) < 0" using sd 1 by linarith
      have "kbind (Expand tot w) (\<lambda>(here, s). Done (here, if here then data_end s else s)) = Done (True, t)"
        using res [unfolded if_P [OF lt], unfolded d ch diff_minus_eq_add] unfolding w_def .
      then obtain u where u: "Expand tot w = Done (True, u)" "t = data_end u" by (auto simp: kbind_Done split: if_splits)
      have w: "same_image s w" "pmem w = copy_up (stack_size s) (des + of_nat c) des (pmem s)" "m_DataSize (u_md w) = ?new"
        using sized(1,3) by (simp_all add: w_def)
      note keep = shrink_keeps [OF ok w(1,2) des_def c utot u(1)]
      show ?thesis using keep c(2) by (simp add: u(2) w(3))
    next
      case 2
      define c where "c = unat ?new - data_size s"
      have c: "0 < c" "unat ?new = data_size s + c" using 2 unfolding c_def by linarith+
      have ch: "?new - m_DataSize (u_md s) = of_nat c" using word_apart [OF c(2)] by simp
      have gt: "\<not> sint (?new - m_DataSize (u_md s)) < 0" "sint (?new - m_DataSize (u_md s)) > 0" using sd 2 by linarith+
      note res = res [unfolded if_not_P [OF gt(1)], unfolded if_P [OF gt(2)], unfolded ch]
      obtain u where u: "Expand tot v = Done (True, u)" using res by (auto simp: kbind_Done split: if_splits)
      define w where "w = u\<lparr>pmem := copy_down (stack_size s) (image_start u + tot - of_nat c) (image_start u + tot) (pmem u)\<rparr>"
      have t: "t = data_end w" using res u by (simp add: w_def)
      have sz: "data_size s + c \<le> 0x800000" "unat tot = 0x1000 + (data_size s + c) + stack_size s" using nb utot c(2) by simp_all
      note keep = grow_keeps [OF ok sized(1,2) c(1) sz u, of w]
      show ?thesis using keep c(2) sized(3) by (simp add: t w_def)
    next
      case 3
      then have "?new = m_DataSize (u_md s)" by (simp only: word_eq_unat)
      then have "t = data_end v" "m_DataSize (u_md v) = m_DataSize (u_md s)" using res sized(3) by simp_all
      then show ?thesis using sized(1,2) image_byte_cong [of v s] by simp
    qed
  qed
qed

text \<open>\<open>SStack\<close>: one more page, or nothing but the recorded size when the page tables cannot take it.\<close>

lemma SStack_image:
  fixes s :: "'a km_scheme"
  assumes ok: "image_ok s" and e: "SStack s = Done (True, t)" and room: "data_size s + 0x1000 \<le> 0x800000" "stack_size s + 0x1000 \<le> 0x800000"
  shows "m_StackSize (u_md t) = m_StackSize (u_md s) + 0x1000 \<and> m_DataSize (u_md t) = m_DataSize (u_md s) \<and>
     (u_error t = ENOMEM \<and> (\<forall>k. image_byte t k = image_byte s k) \<or>
      (\<forall>k < 0x1000 + data_size s. image_byte t k = image_byte s k) \<and>
      (\<forall>k < stack_size s. image_byte t (0x2000 + data_size s + k) = image_byte s (0x1000 + data_size s + k)))"
proof -
  note f = image_facts [OF ok]
  define m where "m = (u_md s)\<lparr>m_StackSize := m_StackSize (u_md s) + 0x1000\<rparr>"
  define tot where "tot = USIZE + m_DataSize m + m_StackSize m"
  have four: "(4096 :: u32) = 0x1000" by simp
  obtain ok1 v where est: "EstablishUserPageTable (m_TextStartAddress m) (m_TextSize m) (m_DataStartAddress m) (m_DataSize m)
      (m_StackSize m) (s\<lparr>u_md := m\<rparr>) = Done (ok1, v)"
    using e by (auto simp: SStack_def Let_def kbind_Done m_def)
  have len: "length (m_Table (u_md (s\<lparr>u_md := m\<rparr>))) = USER_ENTRIES" using f(5) by (simp add: m_def)
  show ?thesis
  proof (cases ok1)
    case False
    then have "v = s\<lparr>u_md := m, u_error := ENOMEM\<rparr>" "t = v\<lparr>u_error := ENOMEM\<rparr>"
      using establish_cases [OF est len] e est by (auto simp: SStack_def Let_def m_def)
    then show ?thesis by (simp add: image_byte_def m_def)
  next
    case True
    then obtain tab hw where v: "v = s\<lparr>u_md := m\<lparr>m_Table := tab\<rparr>, userTables := hw\<rparr>" using establish_cases [OF est len] by auto
    obtain u where u: "Expand tot v = Done (True, u)"
      and t: "t = MapToPageTable (u\<lparr>pmem := copy_down (unat (m_StackSize m - 4096)) (image_start u + tot - 4096) (image_start u + tot) (pmem u)\<rparr>)"
      using e est True unfolding SStack_def Let_def m_def [symmetric] by (auto simp: kbind_Done m_def tot_def split: if_splits)
    have "unat (m_StackSize m) = stack_size s + 0x1000" using room(2) by (simp add: m_def unat_add_nowrap)
    then have size: "unat tot = 0x1000 + (data_size s + 0x1000) + stack_size s"
      using room by (simp add: tot_def m_def USIZE_def unat_add_nowrap)
    define w where "w = u\<lparr>pmem := copy_down (unat (m_StackSize m - 4096)) (image_start u + tot - 4096) (image_start u + tot) (pmem u)\<rparr>"
    have ib: "image_byte t k = image_byte w k" for k by (simp add: t w_def MapToPageTable_def image_byte_def)
    have tm: "u_md t = u_md u" by (simp add: t MapToPageTable_def)
    have "same_image s v" "pmem v = pmem s" by (simp_all add: v)
    note keep = grow_keeps [OF ok this _ room(1) size u, of w]
    show ?thesis using keep by (simp add: ib tm w_def v m_def)
  qed
qed

text \<open>A process with two pages of data and eight bytes of stack, at \<open>0x300000\<close>.\<close>

definition demo_md :: md where
  "demo_md = \<lparr>m_UserPageTableArray = 0xC0210000, m_Table = replicate 2048 \<lparr>m_Present = False, m_ReadWriter = False, m_UserSupervisor = False,
     m_PageBaseAddress = 0\<rparr>, m_TextStartAddress = 0x401000, m_TextSize = 0x1000, m_DataStartAddress = 0x402000, m_DataSize = 0x2000, m_StackSize = 8\<rparr>"

definition demo_image :: km where
  "demo_image = set_proc 1 ((user_proc 1)\<lparr>p_addr := 0x300000, p_size := 0x3008\<rparr>) (demo_km\<lparr>u_md := demo_md\<rparr>)"

lemma demo_image_fields [simp]: "u_procp demo_image = 1" "u_md demo_image = demo_md" "userPages demo_image = user_pages_init 0x800000"
  "length (process demo_image) = NPROC" "process demo_image ! 1 = (user_proc 1)\<lparr>p_addr := 0x300000, p_size := 0x3008\<rparr>"
  "process demo_image ! Suc 0 = (user_proc 1)\<lparr>p_addr := 0x300000, p_size := 0x3008\<rparr>"
  using demo_process(2) by (simp_all add: demo_image_def set_proc_def demo_km_def km.defs pm.defs demo_pm_def NPROC_def)

lemma user_pool_ok: "pool_ok 0x100000 (user_pages_init 0x800000)" "pool_units (user_pages_init 0x800000) = {0x400..<0xC00}"
  using pool_region_ok [of "0x400" "0x800" "0x100000"]
  by (simp_all add: user_pages_init_def USER_PAGE_POOL_START_ADDR_def PAGE_SIZE_def)

lemma demo_image_ok: "image_ok demo_image"
proof -
  have "(3145728 + k) div 4096 < 1024" if "k < 12296" for k :: nat
    using div_le_mono [of "3145728 + k" 3158023 4096] that by simp
  then show ?thesis by (auto simp: image_ok_def Let_def user_pool_ok user_proc_def demo_md_def USIZE_def USER_ENTRIES_def NPROC_def
        USER_SPACE_PAGE_TABLE_CNT_def ENTRY_CNT_PER_PAGETABLE_def)
qed

lemma demo_shrinks: "\<exists>t. SBreak 0x403000 demo_image = Done (True, t) \<and> m_DataSize (u_md t) = 0x1000"
proof -
  have "layout 0x401000 0x1000 0x402000 0x1000 8" by (simp add: layout_def pages_def)
  then obtain tab where f: "fill_tables 0x401000 0x1000 0x402000 0x1000 8 (m_Table demo_md) = Done tab"
    using fill_tables_ok [of "0x401000" "0x1000" "0x402000" "0x1000" 8 "m_Table demo_md"]
    by (auto simp: demo_md_def USER_ENTRIES_def USER_SPACE_PAGE_TABLE_CNT_def ENTRY_CNT_PER_PAGETABLE_def)
  have lim: "\<not> over_limit 0x401000 0x1000 0x1000 8" by (simp add: over_limit_def USER_SPACE_SIZE_def PAGE_SIZE_def)
  have "FreeMemory (user_pages_init 0x800000) 0x1000 0x302008 \<noteq> None" by code_simp
  then obtain p where fr: "FreeMemory (user_pages_init 0x800000) 0x1000 0x302008 = Some p" by blast
  show ?thesis
    using f lim fr
    by (simp add: SBreak_def Let_def EstablishUserPageTable_def demo_md_def MapToPageTable_def Expand_def free_user_def USIZE_def set_proc_def data_end_def fr)
qed

lemma SBreak_keeps_contents_witness:
  "\<exists>t. SBreak 0x403000 demo_image = Done (True, t) \<and> (\<forall>k < 0x2000. image_byte t k = image_byte demo_image k) \<and>
     (\<forall>k < 8. image_byte t (0x2000 + k) = image_byte demo_image (0x3000 + k))"
proof -
  obtain t where t: "SBreak 0x403000 demo_image = Done (True, t)" "m_DataSize (u_md t) = 0x1000" using demo_shrinks by blast
  from SBreak_keeps_contents [OF demo_image_ok _ _ t(1)] t show ?thesis by (auto simp: demo_md_def)
qed

end
