(* ===== verification/SwapSpec.thy ===== *)
theory SwapSpec
  imports KmDemo ProcSpec
begin

unbundle bit_operations_syntax

text \<open>
  The swapper: an image that was written to the swap area comes back byte for byte as long as the transfer
  has room for it, and what \<open>Sched\<close> never does.
\<close>

section \<open>One transfer\<close>

definition transferable :: "u32 \<Rightarrow> bool" where
  "transferable n \<longleftrightarrow> 0 < n \<and> n \<le> 0x10000 \<and> n mod 512 = 0"

lemma low_byte: "unat (w AND 0xFF) = unat w mod 256" for w :: u32
proof -
  have "w AND 0xFF = take_bit 8 w" by (simp add: take_bit_eq_mask mask_numeral)
  then show ?thesis by (simp add: unsigned_take_bit_eq take_bit_eq_mod unat_mod)
qed
lemma low_half:
  fixes w :: u32
  assumes "even w"
  shows "unat (w AND 0xFFFE) = unat w mod 0x10000"
proof -
  have e: "(0xFFFE :: u32) = mask 16 AND NOT 1" by (simp add: mask_numeral)
  have "w AND 1 = 0" using assms by (simp add: and_one_eq even_iff_mod_2_eq_zero)
  moreover have "w = (w AND NOT 1) OR (w AND 1)" by (simp only: bit.conj_disj_distrib [symmetric] bit.disj_cancel_left bit.conj_one_right)
  ultimately have "w AND NOT 1 = w" by (metis or.right_neutral)
  then have "w AND 0xFFFE = take_bit 16 w" unfolding e by (metis and.assoc and.commute take_bit_eq_mask)
  then show ?thesis by (simp add: unsigned_take_bit_eq take_bit_eq_mod unat_mod)
qed
lemma swap_len_all:
  assumes "transferable n"
  shows "swap_len n = unat n"
proof -
  have m: "unat n mod 512 = 0" using assms by (simp add: transferable_def word_unat_eq_iff unat_mod)
  then obtain k where n: "unat n = 512 * k" by (auto simp: mod_eq_0_iff_dvd)
  have k: "0 < k" "k \<le> 128" using assms n by (auto simp: transferable_def word_less_nat_alt word_le_nat_alt)
  have "even (unat n)" by (simp add: n)
  then have ev: "even n" by (simp add: even_iff_mod_2_eq_zero word_unat_eq_iff unat_mod)
  show ?thesis unfolding swap_len_def low_byte low_half [OF ev] using k by (cases "k = 128") (auto simp: unat_div n Let_def)
qed

lemma written:
  assumes "Swap_write b a n s = (True, t)" "k < swap_len n"
  shows "disk t ROOTDEV (uint b + int (k div 512)) ! (k mod 512) = pmem s (a + of_nat k)"
proof -
  have t: "disk t ROOTDEV = (\<lambda>x. let k = nat (x - uint b) in if uint b \<le> x \<and> k < (swap_len n + 511) div 512
              then map (\<lambda>j. if 512 * k + j < swap_len n then pmem s (a + of_nat (512 * k + j)) else disk s ROOTDEV x ! j) [0..<512]
              else disk s ROOTDEV x)"
    using assms(1) by (auto simp: Swap_write_def split: if_splits)
  have k: "k div 512 < (swap_len n + 511) div 512" "512 * (k div 512) + k mod 512 = k" using assms(2) by simp_all
  show ?thesis unfolding t Let_def using k(1) assms(2) k(2) by (simp del: of_nat_add of_nat_mult)
qed

lemma read_back:
  assumes "Swap_read b a n s = (True, t)" "k < swap_len n" "swap_len n \<le> 2 ^ 32"
  shows "pmem t (a + of_nat k) = disk s ROOTDEV (uint b + int (k div 512)) ! (k mod 512)"
proof -
  have "unat (of_nat k :: u32) = k" using assms(2,3) by (simp add: unat_of_nat)
  then show ?thesis using assms(1,2) by (auto simp: Swap_read_def Let_def split: if_splits)
qed

lemma swap_keeps:
  "Swap_read b a n s = (ok, t) \<Longrightarrow> process t = process s \<and> disk t = disk s \<and> texts t = texts s"
  "Swap_write b a n s = (ok, t) \<Longrightarrow> process t = process s \<and> pmem t = pmem s \<and> RunOut t = RunOut s"
  by (auto simp: Swap_read_def Swap_write_def Let_def split: if_splits)

section \<open>What the calls around the transfers leave alone\<close>

lemma frees_keep:
  "free_user sz a s = Done t \<Longrightarrow> process t = process s \<and> pmem t = pmem s \<and> disk t = disk s"
  "free_swap sz b s = Done t \<Longrightarrow> process t = process s \<and> pmem t = pmem s \<and> disk t = disk s"
  "alloc_user sz s = Done (a, t) \<Longrightarrow> process t = process s \<and> pmem t = pmem s \<and> disk t = disk s \<and> texts t = texts s"
  "alloc_swap sz s = Done (a, t) \<Longrightarrow> process t = process s \<and> pmem t = pmem s \<and> disk t = disk s \<and> texts t = texts s"
  by (auto simp: free_user_def free_swap_def alloc_user_def alloc_swap_def split: option.splits)

lemma XccDec_keeps: "XccDec x s = Done t \<Longrightarrow> process t = process s \<and> pmem t = pmem s \<and> disk t = disk s"
  by (auto simp: XccDec_def Let_def set_text_def split: if_splits dest: frees_keep)

lemma disk_wake_up [simp]: "disk (make_ready i s) = disk s" "disk (wake_ready c is s) = disk s" "disk (SetRun i s) = disk s"
  "disk (wake_up c is s) = disk s" "disk (WakeUpAll c s) = disk s"
proof -
  have m: "disk (make_ready i s) = disk s" for i and s :: "'a pm_scheme" by (simp add: make_ready_def set_proc_def Let_def)
  have w: "disk (wake_ready c is s) = disk s" for c "is" and s :: "'a pm_scheme" by (induction "is" arbitrary: s) (auto simp: m)
  have r: "disk (SetRun i s) = disk s" for i and s :: "'a pm_scheme" by (simp add: SetRun_def Let_def m w)
  have u: "disk (wake_up c is s) = disk s" for c "is" and s :: "'a pm_scheme" by (induction "is" arbitrary: s) (auto simp: r)
  show "disk (make_ready i s) = disk s" "disk (wake_ready c is s) = disk s" "disk (SetRun i s) = disk s"
    "disk (wake_up c is s) = disk s" "disk (WakeUpAll c s) = disk s"
    by (simp_all add: m w r u WakeUpAll_def)
qed

text \<open>The entry of a process that is swapped out is known up to what a wake-up changes.\<close>

definition same_place :: "proc \<Rightarrow> proc \<Rightarrow> bool" where
  "same_place p q \<longleftrightarrow> p_addr p = p_addr q \<and> p_size p = p_size q \<and> p_flag p = p_flag q \<and> p_textp p = p_textp q"

lemma place_woken: "length (process s) = NPROC \<Longrightarrow> i < NPROC \<Longrightarrow> same_place (process (WakeUpAll c s) ! i) (process s ! i)"
  by (simp add: WakeUpAll_process woken_def same_place_def)

lemma XSwap_writes:
  assumes e: "XSwap i mem sz s = Done t" and i: "i < NPROC" "length (process s) = NPROC"
    and n: "n = (if sz = 0 then p_size (process s ! i) else sz)"
  shows "(\<forall>k < swap_len n. disk t ROOTDEV (uint (p_addr (process t ! i)) + int (k div 512)) ! (k mod 512) = pmem s (p_addr (process s ! i) + of_nat k)) \<and>
    p_size (process t ! i) = p_size (process s ! i) \<and> \<not> has_flag (p_flag (process t ! i)) SLOAD"
proof -
  let ?p = "process s ! i"
  obtain b s1 where a: "alloc_swap (p_size ?p) s = Done (b, s1)" "b \<noteq> 0"
    using e by (auto simp: XSwap_def Let_def kbind_Done split: if_splits)
  note a' = frees_keep(4) [OF a(1)]
  obtain s2 where x: "(case p_textp ?p of None \<Rightarrow> Done s1 | Some x \<Rightarrow> XccDec x s1) = Done s2"
    using e a a' by (auto simp: XSwap_def Let_def kbind_Done split: if_splits)
  have x': "process s2 = process s" "pmem s2 = pmem s" using x a' by (auto split: option.splits dest: XccDec_keeps)
  define s3 where "s3 = set_proc i (?p\<lparr>p_flag := set_flag (p_flag ?p) SLOCK\<rparr>) s2"
  obtain s4 where w: "Swap_write b (p_addr ?p) n s3 = (True, s4)"
    and rest: "kbind (if mem then free_user n (p_addr (process s4 ! i)) s4 else Done s4) (\<lambda>s.
                let p = process s ! i;
                    s = set_proc i (p\<lparr>p_addr := b, p_flag := clear_flag (p_flag p) (SLOAD OR SLOCK), p_time := 0\<rparr>) s
                in Done (if RunOut s \<noteq> 0 then WakeUpAll AtRunOut (s\<lparr>RunOut := 0\<rparr>) else s)) = Done t"
    using e a a' x x' i unfolding XSwap_def Let_def n [symmetric]
    by (auto simp: kbind_Done s3_def set_proc_def split: if_split_asm prod.splits)
  note w' = swap_keeps(2) [OF w]
  obtain s5 where f: "(if mem then free_user n (p_addr (process s4 ! i)) s4 else Done s4) = Done s5" using rest by (auto simp: kbind_Done)
  have f': "process s5 = process s4 \<and> pmem s5 = pmem s4 \<and> disk s5 = disk s4" using f frees_keep(1) by (auto split: if_splits)
  let ?q = "process s5 ! i"
  define u where "u = set_proc i (?q\<lparr>p_addr := b, p_flag := clear_flag (p_flag ?q) (SLOAD OR SLOCK), p_time := 0\<rparr>) s5"
  have t: "t = (if RunOut u \<noteq> 0 then WakeUpAll AtRunOut (u\<lparr>RunOut := 0\<rparr>) else u)" using rest f by (auto simp: Let_def u_def)
  have pl: "length (process u) = NPROC" "process u ! i = ?q\<lparr>p_addr := b, p_flag := clear_flag (p_flag ?q) (SLOAD OR SLOCK), p_time := 0\<rparr>"
    using i by (simp_all add: u_def set_proc_def f' w' s3_def x')
  have st: "same_place (process t ! i) (process u ! i)"
    using place_woken [of "u\<lparr>RunOut := 0\<rparr>" i AtRunOut] pl(1) i by (simp add: t same_place_def)
  have d: "disk t = disk s4" using f' by (simp add: t u_def set_proc_def)
  have q: "p_size ?q = p_size ?p" using i by (simp add: f' w' s3_def set_proc_def x')
  have "\<not> has_flag (p_flag (process u ! i)) SLOAD" by (simp add: pl has_flag_def clear_flag_def SLOAD_def SLOCK_def and.assoc)
  then have "p_addr (process t ! i) = b" "p_size (process t ! i) = p_size ?p" "\<not> has_flag (p_flag (process t ! i)) SLOAD"
    using st by (simp_all add: same_place_def pl q)
  then show ?thesis using written [OF w] by (simp add: d s3_def set_proc_def x')
qed

lemma bring_in_Done:
  assumes e: "bring_in i des s = Done (r, t)"
  obtains a s1 s2 s3 where "process s1 = process s" "disk s1 = disk s" "Swap_read (p_addr (process s ! i)) a (p_size (process s ! i)) s1 = (True, s2)"
    "free_swap (p_size (process s ! i)) (p_addr (process s ! i)) s2 = Done s3"
    "t = set_proc i ((process s ! i)\<lparr>p_addr := a, p_flag := set_flag (p_flag (process s ! i)) SLOAD, p_time := 0\<rparr>) s3"
proof -
  let ?p = "process s ! i"
  obtain a s1 where x: "(case p_textp ?p of None \<Rightarrow> Done (des, s)
            | Some t \<Rightarrow>
                let x = texts s ! t
                in kbind (if x_ccount x = 0
                       then let (ok, s) = Swap_read (x_daddr x) des (x_size x) s
                         in if ok then Done (des + x_size x, set_text t (x\<lparr>x_caddr := des\<rparr>) s) else Panic
                       else Done (des, s))
                  (\<lambda>(des, s). Done (des, set_text t ((texts s ! t)\<lparr>x_ccount := x_ccount (texts s ! t) + 1\<rparr>) s))) = Done (a, s1)"
    and rest: "(let p = process s1 ! i; (ok, s) = Swap_read (p_addr p) a (p_size p) s1
          in if \<not> ok then Panic
             else kbind (free_swap (p_size p) (p_addr p) s) (\<lambda>s.
               Done (Looks_again, set_proc i (p\<lparr>p_addr := a, p_flag := set_flag (p_flag p) SLOAD, p_time := 0\<rparr>) s))) = Done (r, t)"
    using e unfolding bring_in_def kbind_Done by auto
  have x': "process s1 = process s" "disk s1 = disk s"
    using x by (auto simp: kbind_Done Let_def set_text_def split: option.splits if_splits prod.splits dest!: swap_keeps(1))
  obtain s2 where rd: "Swap_read (p_addr ?p) a (p_size ?p) s1 = (True, s2)"
    and f: "kbind (free_swap (p_size ?p) (p_addr ?p) s2) (\<lambda>s.
               Done (Looks_again, set_proc i (?p\<lparr>p_addr := a, p_flag := set_flag (p_flag ?p) SLOAD, p_time := 0\<rparr>) s)) = Done (r, t)"
    using rest by (auto simp: x' Let_def split: if_splits prod.splits)
  obtain s3 where s3: "free_swap (p_size ?p) (p_addr ?p) s2 = Done s3"
    and t: "t = set_proc i (?p\<lparr>p_addr := a, p_flag := set_flag (p_flag ?p) SLOAD, p_time := 0\<rparr>) s3" using f by (auto simp: kbind_Done)
  show thesis by (rule that [OF x' rd s3 t])
qed

lemma bring_in_reads:
  assumes e: "bring_in i des s = Done (r, t)" and i: "i < length (process s)" and k: "k < swap_len (p_size (process s ! i))" "swap_len (p_size (process s ! i)) \<le> 2 ^ 32"
  shows "pmem t (p_addr (process t ! i) + of_nat k) = disk s ROOTDEV (uint (p_addr (process s ! i)) + int (k div 512)) ! (k mod 512) \<and>
    p_size (process t ! i) = p_size (process s ! i) \<and> has_flag (p_flag (process t ! i)) SLOAD"
  using e
proof (rule bring_in_Done)
  let ?p = "process s ! i"
  fix a s1 s2 s3
  assume x': "process s1 = process s" "disk s1 = disk s" and rd: "Swap_read (p_addr ?p) a (p_size ?p) s1 = (True, s2)"
    and s3: "free_swap (p_size ?p) (p_addr ?p) s2 = Done s3"
    and t: "t = set_proc i (?p\<lparr>p_addr := a, p_flag := set_flag (p_flag ?p) SLOAD, p_time := 0\<rparr>) s3"
  have q: "process t ! i = ?p\<lparr>p_addr := a, p_flag := set_flag (p_flag ?p) SLOAD, p_time := 0\<rparr>"
    using i swap_keeps(1) [OF rd] frees_keep(2) [OF s3] by (simp add: t set_proc_def x')
  have "pmem t = pmem s2" using frees_keep(2) [OF s3] by (simp add: t set_proc_def)
  moreover have "has_flag (set_flag (p_flag ?p) SLOAD) SLOAD" by (simp add: has_set_same SLOAD_def)
  ultimately show ?thesis using read_back [OF rd k] by (simp add: q x')
qed

section \<open>There and back\<close>

text \<open>
  C26. An image that \<open>XSwap\<close> writes to the swap area is the image that \<open>Sched\<close> brings in, for every way
  \<open>XSwap\<close> is called -- by \<open>Expand\<close> with the size before the change, by \<open>NewProc\<close> without giving up
  the memory, by \<open>Sched\<close> with size 0 for the size of the entry: if at the moment of \<open>bring_in\<close> the entry of
  the process (address, size) and the blocks at that address are still those that \<open>XSwap\<close> left, whatever else
  happened to memory, disk and processes in between, then the process is marked as loaded and every byte of the
  \<open>n\<close> bytes written, as far as they belong to the size of the entry, is at its offset from the new
  address. Both sizes must be positive multiples of 512 of at most 64 KB: the disk driver counts bytes
  in sixteen bits and sectors in eight.
\<close>

theorem swapped_image_returns:
  assumes out: "XSwap i mem sz s = Done s1" and i: "i < NPROC" "length (process s) = NPROC"
    and n: "n = (if sz = 0 then p_size (process s ! i) else sz)" and tr: "transferable n" "transferable (p_size (process s ! i))"
    and same: "p_addr (process s2 ! i) = p_addr (process s1 ! i)" "p_size (process s2 ! i) = p_size (process s1 ! i)" "length (process s2) = NPROC"
      "\<forall>k < unat n. disk s2 ROOTDEV (uint (p_addr (process s1 ! i)) + int (k div 512)) = disk s1 ROOTDEV (uint (p_addr (process s1 ! i)) + int (k div 512))"
    and brought: "bring_in i des s2 = Done (r, t)"
  shows "has_flag (p_flag (process t ! i)) SLOAD \<and> p_size (process t ! i) = p_size (process s ! i) \<and>
    (\<forall>k < min (unat n) (unat (p_size (process s ! i))).
       pmem t (p_addr (process t ! i) + of_nat k) = pmem s (p_addr (process s ! i) + of_nat k))"
proof -
  let ?m = "p_size (process s ! i)"
  have len: "swap_len n = unat n" "swap_len ?m = unat ?m" using tr by (simp_all add: swap_len_all)
  have pos: "0 < swap_len n" "0 < swap_len ?m" using tr unfolding len by (simp_all add: transferable_def word_less_nat_alt)
  have "unat ?m < 2 ^ LENGTH(32)" by (rule unsigned_less)
  then have small: "swap_len ?m \<le> 2 ^ 32" by (simp add: len)
  have sz: "p_size (process s1 ! i) = ?m" using XSwap_writes [OF out i n] by blast
  have r: "pmem t (p_addr (process t ! i) + of_nat k) = disk s2 ROOTDEV (uint (p_addr (process s2 ! i)) + int (k div 512)) ! (k mod 512) \<and>
    p_size (process t ! i) = ?m \<and> has_flag (p_flag (process t ! i)) SLOAD" if "k < swap_len ?m" for k
    using bring_in_reads [OF brought, of k] that i(1) same(2,3) sz small by simp
  have "pmem t (p_addr (process t ! i) + of_nat k) = pmem s (p_addr (process s ! i) + of_nat k)" if "k < unat n" "k < unat ?m" for k
    using r [of k] XSwap_writes [OF out i n] that same(1,4) by (simp add: len)
  then show ?thesis using r [OF pos(2)] by simp
qed

definition full_km :: km where
  "full_km = demo_km\<lparr>pmem := (\<lambda>a. ucast a), RunOut := 0\<rparr>"

lemma full_km_simps [simp]: "process full_km = process demo_pm" "swapMap full_km = swapper_init" "userPages full_km = user_pages_init 0x800000"
  "pmem full_km = (\<lambda>a. ucast a)" "bad_sector full_km = bad_sector demo_nm" "RunOut full_km = 0"
  by (simp_all add: full_km_def demo_km_def km.defs pm.defs demo_pm_def)

lemma swap_transaction:
  "\<exists>b p q. AllocSwap swapper_init 0x4000 = Some (b, p) \<and> b \<noteq> 0 \<and> FreeMemory (user_pages_init 0x800000) 0x4000 0x400000 = Some q \<and>
     (\<exists>p'. FreeSwap p 0x4000 b = Some p')"
proof -
  have "case AllocSwap swapper_init 0x4000 of None \<Rightarrow> False | Some (b, p) \<Rightarrow> b \<noteq> 0 \<and> FreeSwap p 0x4000 b \<noteq> None" by code_simp
  moreover have "FreeMemory (user_pages_init 0x800000) 0x4000 0x400000 \<noteq> None" by code_simp
  ultimately show ?thesis by (auto split: option.splits)
qed

lemma good_sectors: "bad_sector demo_nm d b = False"
  by (simp add: demo_nm_def)

lemma swapped_image_returns_witness:
  "\<exists>s1 r t. XSwap 1 False 0 full_km = Done s1 \<and> bring_in 1 0x500000 s1 = Done (r, t) \<and> pmem t (p_addr (process t ! 1) + 0x2A) = 0x2A"
proof -
  let ?s = full_km
  obtain b p q p' where tr: "AllocSwap swapper_init 0x4000 = Some (b, p)" "b \<noteq> 0" "FreeMemory (user_pages_init 0x800000) 0x4000 0x400000 = Some q"
    "FreeSwap p 0x4000 b = Some p'" using swap_transaction by blast
  have fine: "swap_fails c n u = False" if "bad_sector u = bad_sector demo_nm" for c n and u :: km
    by (simp add: swap_fails_def that good_sectors list_ex_iff)
  have p1: "process demo_pm ! Suc 0 = user_proc 1" "process demo_pm ! 1 = user_proc 1" "Suc 0 < NPROC"
    using demo_process(2) demo_process(3) [of 1] by (simp_all add: NPROC_def)
  have u1: "p_size (user_proc 1) = 0x4000" "p_addr (user_proc 1) = 0x400000" "p_textp (user_proc 1) = None"
    by (simp_all add: user_proc_def idle_proc_def)
  obtain s1 where out: "XSwap 1 False 0 ?s = Done s1" and s1: "swapMap s1 = p" "bad_sector s1 = bad_sector demo_nm"
      "length (process s1) = NPROC" "p_size (process s1 ! 1) = 0x4000" "p_addr (process s1 ! 1) = b" "p_textp (process s1 ! 1) = None"
    using tr demo_process(2)
    by (auto simp: XSwap_def Let_def alloc_swap_def u1 p1 Swap_write_def fine set_proc_def free_user_def kbind_Done)
  obtain r t where brought: "bring_in 1 0x500000 s1 = Done (r, t)"
    using tr s1 by (auto simp: bring_in_def Swap_read_def fine free_swap_def Let_def)
  have "transferable (p_size (process ?s ! 1))" by (simp add: p1 u1 transferable_def)
  from swapped_image_returns [OF out _ _ _ this this refl refl s1(3) _ brought]
  have all: "\<forall>k < 0x4000. pmem t (p_addr (process t ! 1) + of_nat k) = ucast (0x400000 + of_nat k :: u32)"
    using demo_process(2) by (simp add: NPROC_def p1 u1)
  have "pmem t (p_addr (process t ! 1) + 0x2A) = 0x2A" using all [rule_format, of 42] by simp
  then show ?thesis using out brought by (auto simp: p1 u1)
qed

section \<open>Nothing is swapped out\<close>

lemma no_victim: "\<not> swap_victim p"
  by (simp add: swap_victim_def SSYS_def SLOCK_def SLOAD_def)

lemma longest_in_none: "longest_in ps is sel seconds = (sel, seconds)"
  by (induction "is") (simp_all add: no_victim)

lemma longest_out_ready: "longest_out ps is sel n = (Some i, m) \<Longrightarrow> sel = Some i \<or> (i \<in> set is \<and> swapped_ready (ps ! i))"
  by (induction "is" arbitrary: sel n) (auto split: if_splits)

lemma bring_in_process:
  assumes "bring_in i des s = Done (r, t)"
  shows "\<exists>p. process t = (process s)[i := p]"
  using assms by (rule bring_in_Done) (auto simp: set_proc_def dest!: swap_keeps(1) frees_keep(2))

text \<open>
  C27. \<open>Sched\<close> never makes room: in every pass, whatever the state of memory, each process that is in memory
  stays there at its address -- the condition that is to choose a process to swap out can never be true.
  So a process in the swap area comes back only when others give up memory of their own accord.
\<close>

theorem Sched_never_swaps_out:
  assumes "Sched_round s = Done (r, t)" "has_flag (p_flag (process s ! k)) SLOAD"
  shows "has_flag (p_flag (process t ! k)) SLOAD \<and> p_addr (process t ! k) = p_addr (process s ! k)"
proof -
  obtain sel n where o: "longest_out (process s) [0..<NPROC] None (-1) = (sel, n)" by fastforce
  have sl: "Sched_sleep c u = Done (r, t) \<Longrightarrow> process u = process s \<Longrightarrow> ?thesis" for c u
    using assms(2) by (cases "k = u_procp u"; cases "u_procp u < length (process u)")
      (auto simp: Sched_sleep_def Sleep_def PSWP_def set_proc_def kbind_Done list_update_beyond)
  show ?thesis
  proof (cases sel)
    case None
    then show ?thesis using assms(1) o sl by (auto simp: Sched_round_def)
  next
    case (Some i)
    have "swapped_ready (process s ! i)" using longest_out_ready o Some by fastforce
    then have ne: "k \<noteq> i" using assms(2) by (auto simp: swapped_ready_def)
    have v: "\<not> list_ex swap_victim (process s)" by (simp add: list_ex_iff no_victim)
    obtain sz a u where a: "alloc_user sz s = Done (a, u)" and
      e: "(if a \<noteq> 0 then bring_in i a u else Sched_sleep AtRunIn (u\<lparr>RunIn := RunIn u + 1\<rparr>)) = Done (r, t)"
      using assms(1) o Some unfolding Sched_round_def
      by (auto simp: kbind_Done Let_def longest_in_none list_ex_iff no_victim split: if_splits)
    have p: "process u = process s" using frees_keep(3) [OF a] by simp
    show ?thesis
    proof (cases "a = 0")
      case True
      then show ?thesis using e p sl by simp
    next
      case False
      then obtain q where "process t = (process s)[i := q]" using e bring_in_process p by fastforce
      then show ?thesis using ne assms(2) by simp
    qed
  qed
qed

lemma Sched_never_swaps_out_witness:
  "\<exists>r t. Sched_round full_km = Done (r, t) \<and> p_addr (process t ! 1) = 0x400000"
proof -
  have p1: "process demo_pm ! Suc 0 = user_proc 1" using demo_process(3) [of 1] by (simp add: NPROC_def)
  have u1: "p_addr (user_proc 1) = 0x400000" "has_flag (p_flag (user_proc 1)) SLOAD" by (simp_all add: user_proc_def idle_proc_def has_flag_def SLOAD_def)
  have none: "longest_out (process demo_pm) is None n = (None, n)" if "set is \<subseteq> {..<NPROC}" for "is" n
    using that by (induction "is") (auto simp: demo_process(3) swapped_ready_def swapper_def user_proc_def idle_proc_def has_flag_def SLOAD_def SSYS_def)
  have "longest_out (process full_km) [0..<NPROC] None (-1) = (None, -1)" by (simp add: none lessThan_atLeast0)
  then obtain r t where e: "Sched_round full_km = Done (r, t)"
    by (auto simp: Sched_round_def Sched_sleep_def Sleep_def PSWP_def)
  from Sched_never_swaps_out [OF e, of 1] show ?thesis using e p1 u1 by simp
qed

end
