(* ===== verification/NameTerm.thy ===== *)
theory NameTerm
  imports RefCounts
begin

text \<open>
  Loops that the model runs with a number of rounds: the number is large enough, so the result is that of
  the loop.
\<close>

section \<open>The search of a path\<close>

lemma kbind_cong_after: "after c (\<lambda>x. f x = g x) \<Longrightarrow> kbind c f = kbind c g"
  by (cases c) auto

text \<open>What a round reads of the path; \<open>span\<close> is what is left of it, with the character in hand.\<close>

definition span :: "u8 \<Rightarrow> u8 list \<Rightarrow> nat" where
  "span cur r = length r + (if cur = 0 then 0 else 1)"

lemma span_component: "component c r = (cs, e, t) \<Longrightarrow> c \<noteq> slash \<Longrightarrow> c \<noteq> 0 \<Longrightarrow> span e t < span c r"
proof (induction c r arbitrary: cs rule: component.induct)
  case (2 c d r)
  then obtain cs' where r: "component d r = (cs', e, t)" by (auto split: prod.splits)
  show ?case
  proof (cases "d = slash \<or> d = 0")
    case True
    then have "component d r = ([], d, r)" by (cases r) auto
    then show ?thesis using r 2 by (simp add: span_def)
  next
    case False
    then have "span e t < span d r" using 2 r by auto
    then show ?thesis using 2 by (simp add: span_def split: if_splits)
  qed
qed (auto simp: span_def)

lemma span_skip: "skip_slashes c r = (e, t) \<Longrightarrow> span e t \<le> span c r \<and> (c = slash \<longrightarrow> span e t < span c r)"
proof (induction c r rule: skip_slashes.induct)
  case (2 c d r)
  then show ?case by (cases "c = slash") (auto simp: span_def slash_def split: if_splits)
qed (auto simp: span_def slash_def split: if_splits)

lemma span_round:
  assumes "cur \<noteq> 0" "component cur r = (cs, c, t)" "skip_slashes c t = (d, u)"
  shows "span d u < span cur r"
proof (cases "cur = slash")
  case True
  then have "c = slash" "t = r" using assms(2) by (cases r; auto)+
  then show ?thesis using span_skip [OF assms(3)] True by simp
next
  case False
  then show ?thesis using span_component [OF assms(2)] span_skip [OF assms(3)] assms(1) by simp
qed

lemma more_dirp: "fm.more s' = fm.more s \<Longrightarrow> u_dirp s' = u_dirp s" for s :: "'a nm_scheme"
  by (cases s, cases s') simp

text \<open>The path stays what it is in the calls of a round.\<close>

lemma IPut_more: "after (IPut stale i s) (\<lambda>s'. fm.more s' = fm.more s)"
proof -
  have upd: "after (IUpdate ip tm s') (\<lambda>s''. fm.more s'' = fm.more s)"
    if "fm.more s' = fm.more s" for s' :: "'a fm_scheme" and ip tm
    by (rule after_mono [OF IUpdate_kept]) (simp add: that tables_kept_def)
  have free: "after (FS_IFree s' d n) (\<lambda>s''. fm.more s'' = fm.more s)"
    if "fm.more s' = fm.more s" for s' :: "'a fm_scheme" and d n
    by (rule after_mono [OF after_FS_IFree]) (use that more_tables(8) ifs_more_fsys in metis)
  have tr: "after (ITrunc stale ip s) (\<lambda>(ip', s'). fm.more s' = fm.more s)" for ip
    by (rule after_mono [OF after_ITrunc]) (auto intro: more_tables)
  show ?thesis
    unfolding IPut_def Let_def
    by (auto intro!: after_mono [OF tr] after_mono [OF free] after_mono [OF upd] simp: split_def)
qed

lemma IGet_loop_more: "after (IGet_loop stale n dev ino s) (\<lambda>(r, s'). fm.more s' = fm.more s)"
proof (induction n arbitrary: dev ino)
  case (Suc n)
  then show ?case
    by (auto simp: Let_def split: option.split intro: afterI after_mono intro!: after_mono [OF IPut_more])
qed simp

definition left :: "u8 list \<Rightarrow> 'a nm_scheme \<Rightarrow> bool" where
  "left p s \<longleftrightarrow> u_dirp s = p"

lemma left_more: "left p s \<Longrightarrow> fm.more s' = fm.more s \<Longrightarrow> left p s'"
  using more_dirp [of s' s] by (simp add: left_def)

lemma left_simps [simp]: "left p (load_dent e s) = left p s" "left p (s\<lparr>addition_entry := a\<rparr>) = left p s"
  "left p (s\<lparr>u_IOParam := io\<rparr>) = left p s"
  by (simp_all add: left_def load_dent_def)

lemma left_dir_block:
  assumes "left p s"
  shows "after (dir_block i off s) (\<lambda>(b, s'). left p s')"
  unfolding dir_block_def after_kbind
proof (rule after_mono [OF after_Bmap], clarify)
  fix bn ip s' assume "ifs.more s' = ifs.more s"
  then show "after (Done (disk s' (i_dev ip) bn, set_ip i ip s')) (\<lambda>(b, s'). left p s')"
    using left_more [OF assms, of "set_ip i ip s'"] more_tables(8) [of s' s] by simp
qed

lemma left_additions: "left p s \<Longrightarrow> after (read_additions n k i blk off cnt s) (\<lambda>(b, off, cnt, s'). left p s')"
proof (induction n arbitrary: k blk off cnt s)
  case (Suc n)
  show ?case using Suc.prems by (auto intro!: after_mono [OF left_dir_block [OF Suc.prems]] Suc.IH)
qed simp

lemma left_search: "left p s \<Longrightarrow> after (search_dir n i blk free off cnt s) (\<lambda>(r, off, s'). left p s')"
  for s :: "'a nm_scheme"
proof (induction n arbitrary: blk free off cnt s)
  case (Suc n)
  have next_entry: "after (let t = load_dent (entry_at b off) t; off = off + 32; cnt = cnt - 1
        in if d_ino t = 0
           then
             let use = int ((StringLength (u_dirp t) + 7) div 32)
             in if free = 0 \<and> use \<le> d_esize t
                then kbind (if use * 32 + off \<ge> 512 then dir_block i (use * 32 + off) t else Done (b, t)) (\<lambda>(_, s).
                       search_dir n i b off (off + 32 * d_esize s) cnt s)
                else search_dir n i b free (off + 32 * d_esize t) cnt t
           else kbind (read_additions (nat (d_esize t)) 0 i b off cnt t) (\<lambda>(blk, off, cnt, s).
             if name_matches s then Done (Found, off, s)
             else search_dir n i blk free off cnt s)) (\<lambda>(r, off, s'). left p s')" if t: "left p t" for b and t :: "'a nm_scheme"
  proof -
    have t': "left p (load_dent (entry_at b off) t)" using t by simp
    show ?thesis
      using t' by (auto simp: Let_def intro!: Suc.IH after_mono [OF left_dir_block [OF t']] after_mono [OF left_additions [OF t']])
  qed
  show ?case
  proof (cases "cnt = 0")
    case False
    have "after (if off mod 512 = 0 then dir_block i off s else Done (blk, s)) (\<lambda>(b, t). left p t)"
      using Suc.prems left_dir_block by auto
    then show ?thesis unfolding search_dir.simps if_not_P [OF False]
      by (rule after_bind) (use next_entry in auto)
  qed (use Suc.prems in simp)
qed simp

lemma enough_rounds: "span cur (u_dirp s) < n \<Longrightarrow> span cur (u_dirp s) < m \<Longrightarrow> name_loop out1 stale mode n i cur s = name_loop out2 stale mode m i cur s"
  for s :: "'a nm_scheme"
proof (induction n arbitrary: m i cur s)
  case (Suc n)
  obtain m' where m: "m = Suc m'" using Suc.prems by (cases m) auto
  show ?case
  proof (cases "cur = 0")
    case True
    then show ?thesis by (simp add: m)
  next
    case False
    obtain cs c t where c: "component cur (u_dirp s) = (cs, c, t)" by (cases "component cur (u_dirp s)")
    obtain d u where d: "skip_slashes c t = (d, u)" by fastforce
    have sp: "span d u < n" "span d u < m'" using span_round [OF False c d] Suc.prems m by simp_all
    have next_round: "kbind (IPut stale i v) (\<lambda>v. kbind (IGet stale dev (d_ino v) v) (\<lambda>(r, v).
          case r of None \<Rightarrow> Done (None, v) | Some j \<Rightarrow> name_loop out1 stale mode n j d v)) =
        kbind (IPut stale i v) (\<lambda>v. kbind (IGet stale dev (d_ino v) v) (\<lambda>(r, v).
          case r of None \<Rightarrow> Done (None, v) | Some j \<Rightarrow> name_loop out2 stale mode m' j d v))" if "left u v" for v :: "'a nm_scheme" and dev
    proof (rule kbind_cong_after, rule after_mono [OF IPut_more])
      fix w :: "'a nm_scheme" assume "fm.more w = fm.more v"
      then have w: "left u w" using left_more [OF that] by blast
      show "kbind (IGet stale dev (d_ino w) w) (\<lambda>(r, v). case r of None \<Rightarrow> Done (None, v) | Some j \<Rightarrow> name_loop out1 stale mode n j d v) =
        kbind (IGet stale dev (d_ino w) w) (\<lambda>(r, v). case r of None \<Rightarrow> Done (None, v) | Some j \<Rightarrow> name_loop out2 stale mode m' j d v)"
      proof (rule kbind_cong_after, unfold IGet_def, rule after_mono [OF IGet_loop_more], clarify)
        fix r and x :: "'a nm_scheme" assume "fm.more x = fm.more w"
        then have "u_dirp x = u" using left_more [OF w] by (simp add: left_def)
        then show "(case r of None \<Rightarrow> Done (None, x) | Some j \<Rightarrow> name_loop out1 stale mode n j d x) =
            (case r of None \<Rightarrow> Done (None, x) | Some j \<Rightarrow> name_loop out2 stale mode m' j d x)"
          using Suc.IH [of d x m'] sp by (cases r) simp_all
      qed
    qed
    have step: "kbind (search_dir k i [] 0 0 cnt v) (\<lambda>(res, off, s). case res of
            NotFound free \<Rightarrow> not_found stale mode i d free off s
          | Found \<Rightarrow> let s = s\<lparr>u_IOParam := (u_IOParam s)\<lparr>m_Offset := off\<rparr>\<rparr>
              in if mode = DELETE \<and> d = 0
                 then kbind (Access (m_Inode s ! i) IWRITE s) (\<lambda>(denied, s).
                   if denied then name_out stale i (s\<lparr>u_error := EACCES\<rparr>) else Done (Some i, s))
                 else let dev = i_dev (m_Inode s ! i)
                   in kbind (IPut stale i s) (\<lambda>s. kbind (IGet stale dev (d_ino s) s) (\<lambda>(r, s).
                        case r of None \<Rightarrow> Done (None, s) | Some j \<Rightarrow> name_loop out1 stale mode n j d s))) =
        kbind (search_dir k i [] 0 0 cnt v) (\<lambda>(res, off, s). case res of
            NotFound free \<Rightarrow> not_found stale mode i d free off s
          | Found \<Rightarrow> let s = s\<lparr>u_IOParam := (u_IOParam s)\<lparr>m_Offset := off\<rparr>\<rparr>
              in if mode = DELETE \<and> d = 0
                 then kbind (Access (m_Inode s ! i) IWRITE s) (\<lambda>(denied, s).
                   if denied then name_out stale i (s\<lparr>u_error := EACCES\<rparr>) else Done (Some i, s))
                 else let dev = i_dev (m_Inode s ! i)
                   in kbind (IPut stale i s) (\<lambda>s. kbind (IGet stale dev (d_ino s) s) (\<lambda>(r, s).
                        case r of None \<Rightarrow> Done (None, s) | Some j \<Rightarrow> name_loop out2 stale mode m' j d s)))"
      if "left u v" for v :: "'a nm_scheme" and k cnt
      by (rule kbind_cong_after, rule after_mono [OF left_search [OF that]])
        (auto simp: Let_def split: found.split intro!: next_round)
    have path: "after (Access (m_Inode s ! i) IEXEC s) (\<lambda>(denied, t). u_dirp t = u_dirp s)"
      by (rule after_mono [OF Access_kept]) (auto simp: tables_kept_def intro: more_dirp)
    show ?thesis unfolding m name_loop.simps if_not_P [OF False]
      by (intro if_cong refl kbind_cong_after after_mono [OF path])
        (auto simp: Let_def c d step left_def)
  qed
qed simp

text \<open>
  C25. The loop of \<open>NameI\<close> over the components of a path ends: started with any character in hand
  and any inode, it never uses up a number of rounds from two more than the characters left of the path on,
  the number \<open>NameI\<close> runs it with. What the loop would give on running out of rounds does not show:
  for any two such outcomes \<open>out1\<close>, \<open>out2\<close> and any number of rounds from there on the result is the same.
  (The search of one directory is a loop of its own, \<open>search_dir\<close>; a directory whose entries are
  out of order, so that the count of entries passes 0, may keep a call from returning, see \<open>Names\<close>.)
\<close>

theorem path_search_terminates:
  "length (u_dirp s) + 2 \<le> n \<Longrightarrow>
     name_loop out1 stale mode n i cur s = name_loop out2 stale mode (length (u_dirp s) + 2) i cur s"
  by (rule enough_rounds) (simp_all add: span_def)

lemma path_search_terminates_witness:
  "name_loop (Done (None, demo_nm)) (\<lambda>_. []) OPEN 4096 0 slash (demo_nm\<lparr>u_dirp := [97, 47, 98, 0]\<rparr>) =
   name_loop Asleep (\<lambda>_. []) OPEN 6 0 slash (demo_nm\<lparr>u_dirp := [97, 47, 98, 0]\<rparr>)"
proof -
  let ?s = "demo_nm\<lparr>u_dirp := [97, 47, 98, 0]\<rparr>"
  have n: "length (u_dirp ?s) + 2 = 6" by simp
  then have "length (u_dirp ?s) + 2 \<le> 4096" by simp
  from path_search_terminates [OF this, of "Done (None, demo_nm)" "\<lambda>_. []" OPEN 0 slash Asleep] show ?thesis unfolding n .
qed

end
