(* ===== verification/CLib.thy ===== *)
theory CLib
  imports Kprelude "HOL-Library.List_Lexorder"
begin

text \<open>
  The C library of the user programs: strings (\<open>lib/src/string.c\<close>), numbers (\<open>lib/src/stdlib.c\<close>,
  \<open>read_int\<close> of \<open>lib/src/print_parse.c\<close>).  Pointers are addresses in the memory of the program.  A loop that need
  not end is a partial function: \<open>None\<close> means that the call does not return.
\<close>

type_synonym mem = "u32 \<Rightarrow> u8"

section \<open>Strings\<close>

partial_function (option) strlen_loop :: "mem \<Rightarrow> u32 \<Rightarrow> u32 \<Rightarrow> u32 option" where
  "strlen_loop m str len = (if m str = 0 then Some len else strlen_loop m (str + 1) (len + 1))"

definition strlen :: "mem \<Rightarrow> u32 \<Rightarrow> u32 option" where
  "strlen m str = strlen_loop m str 0"

partial_function (option) strcmp_loop :: "mem \<Rightarrow> u32 \<Rightarrow> u32 \<Rightarrow> int option" where
  "strcmp_loop m dst src =
     (let ret = uint (m dst) - uint (m src)
      in if ret = 0 \<and> m dst \<noteq> 0 then strcmp_loop m (dst + 1) (src + 1) else Some ret)"

definition strcmp :: "mem \<Rightarrow> u32 \<Rightarrow> u32 \<Rightarrow> int option" where
  "strcmp m dst src = map_option (\<lambda>ret. if ret < 0 then -1 else if ret > 0 then 1 else ret) (strcmp_loop m dst src)"

partial_function (option) copy_string :: "mem \<Rightarrow> u32 \<Rightarrow> u32 \<Rightarrow> mem option" where
  "copy_string m cp src = (let m' = m(cp := m src) in if m src = 0 then Some m' else copy_string m' (cp + 1) (src + 1))"

definition strcpy :: "mem \<Rightarrow> u32 \<Rightarrow> u32 \<Rightarrow> (u32 \<times> mem) option" where
  "strcpy m dst src = map_option (\<lambda>m. (dst, m)) (copy_string m dst src)"

partial_function (option) string_end :: "mem \<Rightarrow> u32 \<Rightarrow> u32 option" where
  "string_end m cp = (if m cp = 0 then Some cp else string_end m (cp + 1))"

definition strcat :: "mem \<Rightarrow> u32 \<Rightarrow> u32 \<Rightarrow> (u32 \<times> mem) option" where
  "strcat m dst src = Option.bind (string_end m dst) (\<lambda>cp. map_option (\<lambda>m. (dst, m)) (copy_string m cp src))"

fun memset_loop :: "nat \<Rightarrow> mem \<Rightarrow> u32 \<Rightarrow> u8 \<Rightarrow> mem" where
  "memset_loop 0 m s c = m"
| "memset_loop (Suc n) m s c = memset_loop n (m(s := c)) (s + 1) c"

definition memset :: "mem \<Rightarrow> u32 \<Rightarrow> int \<Rightarrow> u32 \<Rightarrow> mem" where
  "memset m dst c len = memset_loop (unat len) m dst (word_of_int c)"

text \<open>\<open>rep movsb\<close> upwards, in \<open>memmove\<close> as in \<open>memcpy\<close>.\<close>

fun movsb :: "nat \<Rightarrow> mem \<Rightarrow> u32 \<Rightarrow> u32 \<Rightarrow> mem" where
  "movsb 0 m des src = m"
| "movsb (Suc n) m des src = movsb n (m(des := m src)) (des + 1) (src + 1)"

definition memmove :: "mem \<Rightarrow> u32 \<Rightarrow> u32 \<Rightarrow> u32 \<Rightarrow> mem" where
  "memmove m des src count = movsb (unat count) m des src"

section \<open>Numbers\<close>

definition digit_char :: "u32 \<Rightarrow> u8" where
  "digit_char d = (let ch = ucast d in ch + (if sint ch < 10 then 48 else 97 - 10))"

partial_function (option) digits_loop :: "u32 \<Rightarrow> u32 \<Rightarrow> u32 \<Rightarrow> mem \<Rightarrow> (u32 \<times> mem) option" where
  "digits_loop num radix buffer m =
     (if num = 0 then Some (buffer, m)
      else digits_loop (num div radix) radix (buffer + 1) (m(buffer := digit_char (num mod radix))))"

lemma next_words:
  fixes s b :: u32
  assumes "s < b"
  shows "unat (s + 1) = Suc (unat s)" "unat (b - 1) = unat b - 1" "unat s < unat b"
proof -
  have "s + 1 \<noteq> 0"
  proof
    assume "s + 1 = 0"
    then have "s = - 1" by (simp add: eq_neg_iff_add_eq_0)
    then show False using assms word_n1_ge [of b] by (simp add: leD)
  qed
  then show "unat (s + 1) = Suc (unat s)" by (simp add: unatSuc add.commute)
  have "b \<noteq> 0" using assms word_not_simps(1) by blast
  then show "unat (b - 1) = unat b - 1" by (rule unat_minus_one)
  show "unat s < unat b" using assms by (simp add: word_less_nat_alt)
qed

function reverse_loop :: "u32 \<Rightarrow> u32 \<Rightarrow> mem \<Rightarrow> mem" where
  "reverse_loop start buffer m =
     (if start < buffer then reverse_loop (start + 1) (buffer - 1) (m(start := m buffer, buffer := m start)) else m)"
  by auto
termination
  by (relation "measure (\<lambda>(s, b, m). unat b - unat s)") (auto simp: next_words dest: next_words(3))

text \<open>The result \<open>NULL\<close> is the address 0.\<close>

definition itoa_unsigned :: "mem \<Rightarrow> u32 \<Rightarrow> bool \<Rightarrow> u32 \<Rightarrow> u32 \<Rightarrow> (u32 \<times> mem) option" where
  "itoa_unsigned m val neg_sign buffer radix =
     (if buffer = 0 \<or> sint radix \<le> 0 \<or> sint radix > 16 then Some (0, m)
      else
        let (start, m) = (if neg_sign then (buffer + 1, m(buffer := 45)) else (buffer, m));
            m = m(start := 48)
        in Option.bind (digits_loop val radix start m) (\<lambda>(b, m).
             let (b, m) = (if val \<noteq> 0 then (b, m(b := 0)) else (b + 1, m(b + 1 := 0)))
             in Some (buffer, reverse_loop start (b - 1) m)))"

definition itoa :: "mem \<Rightarrow> u32 \<Rightarrow> u32 \<Rightarrow> u32 \<Rightarrow> (u32 \<times> mem) option" where
  "itoa m val buffer radix = (let s = sint val < 0 in itoa_unsigned m (if s then - val else val) s buffer radix)"

definition uitoa :: "mem \<Rightarrow> u32 \<Rightarrow> u32 \<Rightarrow> u32 \<Rightarrow> (u32 \<times> mem) option" where
  "uitoa m val buffer radix = itoa_unsigned m val False buffer radix"

definition isdigit :: "u8 \<Rightarrow> bool" where
  "isdigit c \<longleftrightarrow> sint c \<ge> 48 \<and> sint c \<le> 57"

definition digit_value :: "u8 \<Rightarrow> u32" where
  "digit_value c = word_of_int (sint c - 48)"

partial_function (option) read_int_loop :: "mem \<Rightarrow> u32 \<Rightarrow> u32 \<Rightarrow> (u32 \<times> u32) option" where
  "read_int_loop m p rval = (if isdigit (m p) then read_int_loop m (p + 1) (rval * 10 + digit_value (m p)) else Some (rval, p))"

definition read_int :: "mem \<Rightarrow> u32 \<Rightarrow> (u32 \<times> u32) option" where
  "read_int m p = read_int_loop m (p + 1) (digit_value (m p))"

declare reverse_loop.simps [simp del]

section \<open>Strings in memory\<close>

text \<open>A string with its final 0, and a sequence of bytes.\<close>

fun cstring :: "mem \<Rightarrow> u32 \<Rightarrow> u8 list \<Rightarrow> bool" where
  "cstring m p [] \<longleftrightarrow> m p = 0"
| "cstring m p (c # cs) \<longleftrightarrow> c \<noteq> 0 \<and> m p = c \<and> cstring m (p + 1) cs"

lemma strlen_loop_string: "cstring m p cs \<Longrightarrow> strlen_loop m p n = Some (n + of_nat (length cs))"
  by (induction cs arbitrary: p n) (subst strlen_loop.simps, simp add: add.assoc)+

lemma strlen_string: "cstring m p cs \<Longrightarrow> strlen m p = Some (of_nat (length cs))"
  by (simp add: strlen_def strlen_loop_string)

lemma uint_pos: "c \<noteq> 0 \<Longrightarrow> 0 < uint c"
  using word_gt_0 [of c] by (simp add: word_less_def)

text \<open>
  \<open>strcmp\<close> of two strings returns, and its result is the sign of their lexicographic order by
  unsigned bytes: 0 for equal strings, -1 or 1 as the first is the smaller or the greater one; in
  particular a proper prefix is smaller.
\<close>

theorem strcmp_is_order:
  assumes "cstring m p xs" "cstring m q ys"
  shows "strcmp m p q = Some (if xs = ys then 0 else if xs < ys then -1 else 1)"
proof -
  have "\<exists>d. strcmp_loop m p q = Some d \<and> (d = 0 \<longleftrightarrow> xs = ys) \<and> (d < 0 \<longleftrightarrow> xs < ys)"
    using assms
  proof (induction xs arbitrary: p q ys)
    case Nil
    then show ?case using uint_pos [of "hd ys"] by (cases ys) (simp_all add: strcmp_loop.simps [of m p q])
  next
    case (Cons x xs)
    note step = strcmp_loop.simps [of m p q]
    show ?case
    proof (cases ys)
      case Nil
      then show ?thesis using Cons.prems uint_pos [of x] by (simp add: step)
    next
      case ys: (Cons y zs)
      show ?thesis
      proof (cases "x = y")
        case True
        then show ?thesis using Cons.IH [of "p + 1" "q + 1" zs] Cons.prems ys by (simp add: step)
      next
        case False
        then have "uint x \<noteq> uint y" by (simp only: word_uint_eq_iff not_False_eq_True)
        moreover have "x < y \<longleftrightarrow> uint x < uint y" by (simp only: word_less_def)
        ultimately
        show ?thesis using Cons.prems ys False by (simp add: step)
      qed
    qed
  qed
  then obtain d where d: "strcmp_loop m p q = Some d" "d = 0 \<longleftrightarrow> xs = ys" "d < 0 \<longleftrightarrow> xs < ys" by blast
  show ?thesis unfolding strcmp_def d(1) using d(2,3) by (cases "d = 0"; cases "d < 0") simp_all
qed

section \<open>Numbers in memory\<close>

text \<open>The digits of a number, the last one first.\<close>

fun digits :: "nat \<Rightarrow> nat \<Rightarrow> nat list" where
  "digits r n = (if n = 0 \<or> r < 2 then [] else n mod r # digits r (n div r))"

declare digits.simps [simp del]

definition horner :: "nat \<Rightarrow> nat list \<Rightarrow> nat" where
  "horner r ds = foldr (\<lambda>d n. d + r * n) ds 0"

lemma horner_simps [simp]: "horner r [] = 0" "horner r (d # ds) = d + r * horner r ds"
  by (simp_all add: horner_def)

lemma digits_number:
  assumes "2 \<le> r"
  shows "horner r (digits r n) = n" "\<forall>d \<in> set (digits r n). d < r" "n < 2 ^ k \<Longrightarrow> length (digits r n) \<le> k"
proof -
  have smaller: "n div r < n" if "n \<noteq> 0" for n using assms that by simp
  have step: "digits r n = n mod r # digits r (n div r)" if "n \<noteq> 0" for n using assms that by (simp add: digits.simps [of r n])
  show "horner r (digits r n) = n"
  proof (induction n rule: less_induct)
    case (less n)
    show ?case
    proof (cases "n = 0")
      case False
      then show ?thesis unfolding step [OF False] using less [OF smaller] by simp
    qed (simp add: digits.simps)
  qed
  show "\<forall>d \<in> set (digits r n). d < r"
  proof (induction n rule: less_induct)
    case (less n)
    show ?case
    proof (cases "n = 0")
      case False
      then show ?thesis unfolding step [OF False] using less [OF smaller] assms by simp
    qed (simp add: digits.simps)
  qed
  show "n < 2 ^ k \<Longrightarrow> length (digits r n) \<le> k"
  proof (induction k arbitrary: n)
    case 0
    then show ?case using digits.simps [of r n] by simp
  next
    case (Suc k)
    have "n div r \<le> n div 2" using assms by (simp add: div_le_mono2)
    then have "n div r < 2 ^ k" using Suc.prems by simp
    then show ?case using Suc.IH digits.simps [of r n] by simp
  qed
qed

text \<open>Storing bytes one after another, and reading them.\<close>

fun put :: "mem \<Rightarrow> u32 \<Rightarrow> u8 list \<Rightarrow> mem" where
  "put m p [] = m"
| "put m p (c # cs) = put (m(p := c)) (p + 1) cs"

lemma lib_offset_inj: "i < 2 ^ 32 \<Longrightarrow> j < 2 ^ 32 \<Longrightarrow> (p + of_nat i = p + of_nat j) = (i = j)" for p :: u32
  unfolding add_left_cancel by (simp add: word_unat_eq_iff unat_of_nat)

lemma put_outside: "(\<forall>i < length cs. a \<noteq> p + of_nat i) \<Longrightarrow> put m p cs a = m a"
proof (induction cs arbitrary: m p)
  case (Cons c cs)
  have "a \<noteq> p" using Cons.prems [rule_format, of 0] by simp
  moreover have "a \<noteq> (p + 1) + of_nat i" if "i < length cs" for i
    using Cons.prems [rule_format, of "Suc i"] that by (simp add: add.assoc)
  ultimately show ?case using Cons.IH by simp
qed simp

lemma put_inside: "i < length cs \<Longrightarrow> length cs \<le> 2 ^ 32 \<Longrightarrow> put m p cs (p + of_nat i) = cs ! i"
proof (induction cs arbitrary: m p i)
  case (Cons c cs)
  show ?case
  proof (cases i)
    case 0
    have "p \<noteq> (p + 1) + of_nat j" if "j < length cs" for j
      using lib_offset_inj [of 0 "Suc j" p] that Cons.prems by (simp add: add.assoc)
    then show ?thesis using 0 by (simp add: put_outside)
  next
    case (Suc j)
    then show ?thesis using Cons.IH [of j "m(p := c)" "p + 1"] Cons.prems by (simp add: add.assoc del: fun_upd_apply)
  qed
qed simp

lemma digits_loop_puts:
  assumes r: "2 \<le> unat radix"
  shows "digits_loop num radix p m = Some (p + of_nat (length (digits (unat radix) (unat num))),
    put m p (map (\<lambda>d. digit_char (of_nat d)) (digits (unat radix) (unat num))))"
proof (induction "unat num" arbitrary: num p m rule: less_induct)
  case less
  show ?case
  proof (cases "num = 0")
    case True
    then show ?thesis by (simp add: digits_loop.simps digits.simps)
  next
    case False
    have d: "digits (unat radix) (unat num) = unat (num mod radix) # digits (unat radix) (unat (num div radix))"
      using False r by (subst digits.simps) (simp add: unat_div unat_mod unat_eq_0)
    have "unat (num div radix) < unat num" using False r by (simp add: unat_div unat_eq_0 unat_gt_0)
    from less [OF this] show ?thesis using False by (subst digits_loop.simps) (simp add: d add.assoc)
  qed
qed

text \<open>The loop that reverses: the byte at a place comes from the mirrored place.\<close>

lemma reverse_loop_mirror:
  "unat b < unat s + n \<Longrightarrow> unat s \<le> unat b + 1 \<Longrightarrow> reverse_loop s b m a = (if s \<le> a \<and> a \<le> b then m (s + b - a) else m a)"
proof (induction n arbitrary: s b m rule: less_induct)
  case (less n)
  show ?case
  proof (cases "s < b")
    case False
    then have "s \<le> a \<and> a \<le> b \<Longrightarrow> a = s \<and> b = s" by (meson not_less order_antisym order_trans)
    then show ?thesis using False by (auto simp: reverse_loop.simps [of s b m])
  next
    case True
    note w = next_words [OF True]
    let ?m = "m(s := m b, b := m s)"
    have IH: "reverse_loop (s + 1) (b - 1) ?m a = (if s + 1 \<le> a \<and> a \<le> b - 1 then ?m (s + 1 + (b - 1) - a) else ?m a)"
      using less.prems w by (intro less.IH [of "n - 2"]) auto
    have step: "reverse_loop s b m a = (if s + 1 \<le> a \<and> a \<le> b - 1 then ?m (s + b - a) else ?m a)"
      using True IH by (subst reverse_loop.simps) simp
    have inner: "s + 1 \<le> a \<and> a \<le> b - 1 \<longleftrightarrow> s \<le> a \<and> a \<le> b \<and> a \<noteq> s \<and> a \<noteq> b"
      using w by (auto simp: word_le_nat_alt word_unat_eq_iff)
    have "s + b - a \<noteq> s" "s + b - a \<noteq> b" if "a \<noteq> s" "a \<noteq> b" using that by (auto simp: algebra_simps)
    then show ?thesis unfolding step inner using True by auto
  qed
qed

text \<open>A sequence of bytes in memory.\<close>

definition bytes_at :: "mem \<Rightarrow> u32 \<Rightarrow> u8 list \<Rightarrow> bool" where
  "bytes_at m p cs \<longleftrightarrow> (\<forall>i < length cs. m (p + of_nat i) = cs ! i)"

lemma bytes_at_Cons: "bytes_at m p (c # cs) \<longleftrightarrow> m p = c \<and> bytes_at m (p + 1) cs"
proof
  assume b: "bytes_at m p (c # cs)"
  have "m p = c" using b [unfolded bytes_at_def, rule_format, of 0] by simp
  moreover have "m (p + 1 + of_nat i) = cs ! i" if "i < length cs" for i
    using b [unfolded bytes_at_def, rule_format, of "Suc i"] that by (simp add: add.assoc)
  ultimately show "m p = c \<and> bytes_at m (p + 1) cs" by (simp add: bytes_at_def)
next
  assume a: "m p = c \<and> bytes_at m (p + 1) cs"
  show "bytes_at m p (c # cs)" unfolding bytes_at_def
  proof (intro allI impI)
    fix i assume "i < length (c # cs)"
    then show "m (p + of_nat i) = (c # cs) ! i" using a by (cases i) (auto simp: bytes_at_def add.assoc)
  qed
qed

lemma bytes_at_append: "bytes_at m p (xs @ ys) \<longleftrightarrow> bytes_at m p xs \<and> bytes_at m (p + of_nat (length xs)) ys"
proof (induction xs arbitrary: p)
  case (Cons x xs)
  then show ?case by (simp add: bytes_at_Cons add.assoc)
qed (simp add: bytes_at_def)

lemma bytes_at_same: "bytes_at m p cs \<Longrightarrow> \<forall>i < length cs. m' (p + of_nat i) = m (p + of_nat i) \<Longrightarrow> bytes_at m' p cs"
  by (simp add: bytes_at_def)

lemma cstring_bytes: "bytes_at m p cs \<Longrightarrow> m (p + of_nat (length cs)) = 0 \<Longrightarrow> 0 \<notin> set cs \<Longrightarrow> cstring m p cs"
  by (induction cs arbitrary: p) (auto simp: bytes_at_Cons add.assoc)

lemma cstring_bytes_at: "cstring m p cs \<Longrightarrow> bytes_at m p cs \<and> m (p + of_nat (length cs)) = 0"
proof (induction cs arbitrary: p)
  case (Cons c cs)
  then show ?case using Cons.IH [of "p + 1"] by (simp add: bytes_at_Cons add.assoc)
qed (simp add: bytes_at_def)

lemma cstring_append: "cstring m p (xs @ ys) \<longleftrightarrow> 0 \<notin> set xs \<and> bytes_at m p xs \<and> cstring m (p + of_nat (length xs)) ys"
proof (induction xs arbitrary: p)
  case (Cons x xs)
  then show ?case using Cons.IH [of "p + 1"] by (auto simp: bytes_at_Cons add.assoc)
qed (simp add: bytes_at_def)

lemma cstring_same: "cstring m p cs \<Longrightarrow> \<forall>i \<le> length cs. m' (p + of_nat i) = m (p + of_nat i) \<Longrightarrow> cstring m' p cs"
proof (induction cs arbitrary: p)
  case Nil
  then show ?case by simp
next
  case (Cons c cs)
  have "m' (p + 1 + of_nat i) = m (p + 1 + of_nat i)" if "i \<le> length cs" for i
    using Cons.prems(2) [rule_format, of "Suc i"] that by (simp add: add.assoc)
  then show ?case using Cons.IH [of "p + 1"] Cons.prems(1) Cons.prems(2) [rule_format, of 0] by simp
qed

lemma cstring_upd: "cstring m p cs \<Longrightarrow> \<forall>j \<le> length cs. x \<noteq> p + of_nat j \<Longrightarrow> cstring (m(x := c)) p cs"
proof (induction cs arbitrary: p)
  case Nil
  then show ?case by simp
next
  case (Cons d cs)
  have "\<forall>j \<le> length cs. x \<noteq> p + 1 + of_nat j"
  proof (intro allI impI)
    fix j assume "j \<le> length cs"
    then show "x \<noteq> p + 1 + of_nat j" using Cons.prems(2) [rule_format, of "Suc j"] by (simp add: add.assoc)
  qed
  then show ?case using Cons.IH [of "p + 1"] Cons.prems(1) Cons.prems(2) [rule_format, of 0] by simp
qed

lemma unat_off: "unat s + i < 2 ^ 32 \<Longrightarrow> unat (s + of_nat i) = unat s + i" for s :: u32
  by (simp add: unat_word_ariths(1) unat_of_nat)

lemma reverse_loop_bytes:
  assumes c: "bytes_at m s cs" "cs \<noteq> []" and n: "unat s + length cs < 2 ^ 32"
  defines "b \<equiv> s + of_nat (length cs) - 1"
  shows "bytes_at (reverse_loop s b m) s (rev cs)" "unat a < unat s \<or> unat s + length cs \<le> unat a \<Longrightarrow> reverse_loop s b m a = m a"
proof -
  obtain k where k: "length cs = Suc k" using c(2) by (cases cs) auto
  have b: "b = s + of_nat k" by (simp add: b_def k)
  have ub: "unat b = unat s + k" unfolding b by (rule unat_off) (use n k in simp)
  have mirror: "reverse_loop s b m x = (if s \<le> x \<and> x \<le> b then m (s + b - x) else m x)" for x
    by (rule reverse_loop_mirror [of b s "Suc k"]) (simp_all add: ub)
  show "bytes_at (reverse_loop s b m) s (rev cs)"
    unfolding bytes_at_def
  proof (intro allI impI)
    fix i assume "i < length (rev cs)"
    then have i: "i \<le> k" by (simp add: k)
    have u: "unat (s + of_nat i) = unat s + i" by (rule unat_off) (use n k i in simp)
    have "s + b - (s + of_nat i) = s + of_nat (k - i)" using i by (simp add: b of_nat_diff)
    moreover have "s \<le> s + of_nat i \<and> s + of_nat i \<le> b" using i by (simp add: word_le_nat_alt u ub)
    ultimately have "reverse_loop s b m (s + of_nat i) = m (s + of_nat (k - i))" unfolding mirror by simp
    then show "reverse_loop s b m (s + of_nat i) = rev cs ! i" using c(1) i k by (simp add: rev_nth bytes_at_def del: of_nat_diff)
  qed
  show "unat a < unat s \<or> unat s + length cs \<le> unat a \<Longrightarrow> reverse_loop s b m a = m a"
    by (auto simp: mirror word_le_nat_alt ub k)
qed

text \<open>A decimal number in memory: \<open>read_int\<close> computes it.\<close>

lemma digit_char_decimal:
  assumes "d < 10"
  shows "isdigit (digit_char (of_nat d))" "digit_value (digit_char (of_nat d)) = of_nat d" "digit_char (of_nat d) \<noteq> 0"
proof -
  have "\<forall>d \<in> set [0..<10]. isdigit (digit_char (of_nat d)) \<and> digit_value (digit_char (of_nat d)) = of_nat d \<and> digit_char (of_nat d) \<noteq> 0"
    by code_simp
  then show "isdigit (digit_char (of_nat d))" "digit_value (digit_char (of_nat d)) = of_nat d" "digit_char (of_nat d) \<noteq> 0"
    using assms by auto
qed

lemma read_int_loop_digits:
  assumes "bytes_at m p (map (\<lambda>d. digit_char (of_nat d)) ds)" "\<forall>d \<in> set ds. d < 10" "\<not> isdigit (m (p + of_nat (length ds)))"
  shows "read_int_loop m p v = Some (foldl (\<lambda>v d. v * 10 + of_nat d) v ds, p + of_nat (length ds))"
  using assms
proof (induction ds arbitrary: p v)
  case Nil
  then show ?case by (simp add: read_int_loop.simps)
next
  case (Cons d ds)
  have m: "m p = digit_char (of_nat d)" using Cons.prems(1) by (auto simp: bytes_at_def dest: spec [of _ 0])
  have "bytes_at m (p + 1) (map (\<lambda>d. digit_char (of_nat d)) ds)"
    using Cons.prems(1) by (auto simp: bytes_at_def add.assoc dest: spec [of _ "Suc _"])
  then show ?case using Cons.IH [of "p + 1"] Cons.prems digit_char_decimal [of d]
    by (subst read_int_loop.simps) (simp add: m add.assoc)
qed

lemma foldl_horner: "foldl (\<lambda>v d. v * 10 + of_nat d) 0 (rev ds) = (of_nat (horner 10 ds) :: u32)"
  by (induction ds) (simp_all add: algebra_simps)

text \<open>The text of a number: a 0 digit for 0.\<close>

definition numeral_of :: "nat \<Rightarrow> nat \<Rightarrow> nat list" where
  "numeral_of r n = (if n = 0 then [0] else rev (digits r n))"

lemma numeral_of_facts:
  assumes "2 \<le> r" "n < 2 ^ 32"
  shows "numeral_of r n \<noteq> []" "\<forall>d \<in> set (numeral_of r n). d < r" "length (numeral_of r n) \<le> 32"
    and "r = 10 \<Longrightarrow> foldl (\<lambda>v d. v * 10 + of_nat d) 0 (numeral_of r n) = (of_nat n :: u32)"
proof -
  note dn = digits_number(1,2) [OF assms(1), of n] digits_number(3) [OF assms]
  have "digits r n \<noteq> []" if "n \<noteq> 0" using that assms(1) by (subst digits.simps) simp
  then show "numeral_of r n \<noteq> []" by (simp add: numeral_of_def)
  show "\<forall>d \<in> set (numeral_of r n). d < r" using dn(2) assms(1) by (auto simp: numeral_of_def)
  show "length (numeral_of r n) \<le> 32" using dn(3) by (simp add: numeral_of_def)
  show "r = 10 \<Longrightarrow> foldl (\<lambda>v d. v * 10 + of_nat d) 0 (numeral_of r n) = (of_nat n :: u32)"
    using dn(1) by (simp add: numeral_of_def foldl_horner)
qed

lemma sint_small: "unat w < 2 ^ 31 \<Longrightarrow> sint w = int (unat w)" for w :: u32
proof -
  assume "unat w < 2 ^ 31"
  then have "unat w < 2147483648" by simp
  then have "int (unat w) < 2147483648" by linarith
  then have "uint w < 2147483648" by simp
  then show ?thesis using sint_of_cint [of "uint w"] uint_ge_0 [of w] by (simp add: cint_def)
qed

lemma bytes_at_put: "length cs \<le> 2 ^ 32 \<Longrightarrow> bytes_at (put m p cs) p cs"
  by (simp add: bytes_at_def put_inside)

text \<open>The body of \<open>_itoa\<close> behind the sign.\<close>

lemma digits_text:
  fixes start radix val :: u32
  defines "ds \<equiv> numeral_of (unat radix) (unat val)"
  assumes r: "2 \<le> unat radix" and start: "unat start + 33 < 2 ^ 32"
  obtains b m2 where "digits_loop val radix start (m(start := 48)) = Some (b, m2)"
    "bytes_at (reverse_loop start ((if val \<noteq> 0 then b else b + 1) - 1) (m2((if val \<noteq> 0 then b else b + 1) := 0))) start (map (\<lambda>d. digit_char (of_nat d)) ds)"
    "reverse_loop start ((if val \<noteq> 0 then b else b + 1) - 1) (m2((if val \<noteq> 0 then b else b + 1) := 0)) (start + of_nat (length ds)) = 0"
    "\<And>a :: u32. unat a < unat start \<or> unat start + length ds < unat a \<Longrightarrow>
       reverse_loop start ((if val \<noteq> 0 then b else b + 1) - 1) (m2((if val \<noteq> 0 then b else b + 1) := 0)) a = m a"
proof -
  let ?ls = "if val = 0 then [0] else digits (unat radix) (unat val)"
  let ?cs = "map (\<lambda>d. digit_char (of_nat d)) ?ls"
  have v: "unat val < 2 ^ 32" using unsigned_less [of val] by simp
  note nf = numeral_of_facts [OF r v]
  have ds: "ds = rev ?ls" by (simp add: ds_def numeral_of_def unat_eq_0)
  have len: "length ds = length ?ls" "length ?ls \<le> 32" "?cs \<noteq> []" using nf by (simp_all add: ds flip: ds_def)
  define e where "e = start + of_nat (length ?ls)"
  obtain b m2 where dl: "digits_loop val radix start (m(start := 48)) = Some (b, m2)"
    and b: "(if val \<noteq> 0 then b else b + 1) = e" and m2: "bytes_at m2 start ?cs" "\<And>a. \<forall>i < length ?cs. a \<noteq> start + of_nat i \<Longrightarrow> m2 a = m a"
  proof (cases "val = 0")
    case True
    have "digits_loop val radix start (m(start := 48)) = Some (start, m(start := 48))" by (simp add: True digits_loop.simps)
    then show ?thesis by (rule that) (simp_all add: True e_def bytes_at_def digit_char_def)
  next
    case False
    show ?thesis
    proof (rule that)
      show "digits_loop val radix start (m(start := 48)) = Some (e, put (m(start := 48)) start ?cs)"
        using False by (simp add: digits_loop_puts [OF r] e_def)
      show "bytes_at (put (m(start := 48)) start ?cs) start ?cs" by (rule bytes_at_put) (use len(2) in simp)
      fix a assume out: "\<forall>i < length ?cs. a \<noteq> start + of_nat i"
      have "a \<noteq> start" using out [rule_format, of 0] len(3) by simp
      then show "put (m(start := 48)) start ?cs a = m a" using put_outside [OF out] by simp
    qed (use False in simp)
  qed
  have far: "unat (start + of_nat i) = unat start + i" if "i \<le> 33" for i by (rule unat_off) (use start that in simp)
  have ne: "start + of_nat i \<noteq> e" if "i < length ?ls" for i
  proof -
    have "unat (start + of_nat i) \<noteq> unat e" using that len(2) far [of i] far [of "length ?ls"] by (simp add: e_def)
    then show ?thesis by blast
  qed
  have w: "bytes_at (m2(e := 0)) start ?cs" using m2(1) ne by (auto simp: bytes_at_def)
  have room: "unat start + length ?cs < 2 ^ 32" using start len(2) by simp
  have e': "start + of_nat (length ?cs) = e" by (simp add: e_def)
  note rl = reverse_loop_bytes [OF w len(3) room, unfolded e']
  have ue: "unat e = unat start + length ds" using far [of "length ?ls"] len by (simp add: e_def)
  show ?thesis
  proof (rule that [OF dl, unfolded b])
    show "bytes_at (reverse_loop start (e - 1) (m2(e := 0))) start (map (\<lambda>d. digit_char (of_nat d)) ds)"
      using rl(1) by (simp add: ds rev_map)
    show "reverse_loop start (e - 1) (m2(e := 0)) (start + of_nat (length ds)) = 0"
      using rl(2) [of e] ue len(1) by (simp add: e_def)
    fix a :: u32 assume a: "unat a < unat start \<or> unat start + length ds < unat a"
    have "a \<noteq> e" using a ue by auto
    moreover have "\<forall>i < length ?cs. a \<noteq> start + of_nat i" using a far len by auto
    ultimately show "reverse_loop start (e - 1) (m2(e := 0)) a = m a" using rl(2) [of a] a len(1) m2(2) [of a] by auto
  qed
qed

lemma itoa_unsigned_text:
  fixes buffer radix val :: u32
  assumes r: "2 \<le> unat radix" "unat radix \<le> 16" and buffer: "buffer \<noteq> 0" "unat buffer + 34 < 2 ^ 32"
  shows "\<exists>m'. itoa_unsigned m val neg buffer radix = Some (buffer, m') \<and>
    bytes_at m' (if neg then buffer + 1 else buffer) (map (\<lambda>d. digit_char (of_nat d)) (numeral_of (unat radix) (unat val))) \<and>
    m' ((if neg then buffer + 1 else buffer) + of_nat (length (numeral_of (unat radix) (unat val)))) = 0 \<and> (neg \<longrightarrow> m' buffer = 45) \<and>
    (\<forall>a. unat a < unat buffer \<or> unat buffer + 33 < unat a \<longrightarrow> m' a = m a)"
proof -
  let ?start = "if neg then buffer + 1 else buffer" and ?m = "if neg then m(buffer := 45) else m" and ?ds = "numeral_of (unat radix) (unat val)"
  have rad: "\<not> sint radix \<le> 0" "\<not> sint radix > 16"
  proof -
    have "sint radix = int (unat radix)" by (rule sint_small) (use r in simp)
    then show "\<not> sint radix \<le> 0" "\<not> sint radix > 16" using r by linarith+
  qed
  have one: "unat (buffer + 1) = unat buffer + 1" using unat_off [of buffer 1] buffer by simp
  then have us: "unat ?start = unat buffer + (if neg then 1 else 0)" by simp
  then have room: "unat ?start + 33 < 2 ^ 32" using buffer by simp
  have v: "unat val < 2 ^ 32" using unsigned_less [of val] by simp
  have len: "length ?ds \<le> 32" by (rule numeral_of_facts(3) [OF r(1) v])
  obtain b m2 where dl: "digits_loop val radix ?start (?m(?start := 48)) = Some (b, m2)"
    and t: "bytes_at (reverse_loop ?start ((if val \<noteq> 0 then b else b + 1) - 1) (m2((if val \<noteq> 0 then b else b + 1) := 0))) ?start (map (\<lambda>d. digit_char (of_nat d)) ?ds)"
    "reverse_loop ?start ((if val \<noteq> 0 then b else b + 1) - 1) (m2((if val \<noteq> 0 then b else b + 1) := 0)) (?start + of_nat (length ?ds)) = 0"
    "\<And>a. unat a < unat ?start \<or> unat ?start + length ?ds < unat a \<Longrightarrow>
       reverse_loop ?start ((if val \<noteq> 0 then b else b + 1) - 1) (m2((if val \<noteq> 0 then b else b + 1) := 0)) a = ?m a"
    by (rule digits_text [OF r(1) room, where val = val and m = ?m]) (rule that, assumption+)
  define m' where "m' = reverse_loop ?start ((if val \<noteq> 0 then b else b + 1) - 1) (m2((if val \<noteq> 0 then b else b + 1) := 0))"
  have it: "itoa_unsigned m val neg buffer radix = Some (buffer, m')"
    using dl buffer(1) rad unfolding itoa_unsigned_def m'_def by (cases neg; cases "val = 0") simp_all
  have keep: "m' a = ?m a" if "unat a < unat ?start \<or> unat ?start + length ?ds < unat a" for a using t(3) that by (simp add: m'_def)
  have "neg \<longrightarrow> m' buffer = 45" using keep [of buffer] one by simp
  moreover have "m' a = m a" if "unat a < unat buffer \<or> unat buffer + 33 < unat a" for a
  proof -
    have "a \<noteq> buffer" using that by auto
    then show ?thesis using keep [of a] that us len by (cases neg) auto
  qed
  ultimately show ?thesis using it t(1,2) unfolding m'_def [symmetric] by blast
qed

lemma read_int_text:
  assumes "bytes_at m p (map (\<lambda>d. digit_char (of_nat d)) (numeral_of 10 n))" "m (p + of_nat (length (numeral_of 10 n))) = 0" "n < 2 ^ 32"
  shows "read_int m p = Some (of_nat n, p + of_nat (length (numeral_of 10 n)))"
proof -
  have ten: "2 \<le> (10 :: nat)" by simp
  note nf = numeral_of_facts [OF ten assms(3)]
  obtain d ds where d: "numeral_of 10 n = d # ds" using nf(1) by (cases "numeral_of 10 n") auto
  have m: "m p = digit_char (of_nat d)" using assms(1) by (auto simp: d bytes_at_def dest: spec [of _ 0])
  have "read_int_loop m p 0 = Some (of_nat n, p + of_nat (length (numeral_of 10 n)))"
    using read_int_loop_digits [OF assms(1) nf(2), of 0] nf(4) assms(2) by (simp add: isdigit_def)
  then show ?thesis using digit_char_decimal [of d] nf(2)
    by (subst (asm) read_int_loop.simps) (simp add: read_int_def m d)
qed

text \<open>Ranges of addresses.\<close>

definition between :: "u32 \<Rightarrow> nat \<Rightarrow> u32 \<Rightarrow> bool" where
  "between p n x \<longleftrightarrow> unat p \<le> unat x \<and> unat x < unat p + n"

lemma between_offset: "unat p + n \<le> 2 ^ 32 \<Longrightarrow> i < n \<Longrightarrow> between p n (p + of_nat i)"
  by (simp add: between_def unat_off)

lemma put_keep: "unat p + length cs \<le> 2 ^ 32 \<Longrightarrow> \<not> between p (length cs) x \<Longrightarrow> put m p cs x = m x"
  by (rule put_outside) (use between_offset [of p "length cs"] in blast)

lemma put_append: "put m p (xs @ ys) = put (put m p xs) (p + of_nat (length xs)) ys"
  by (induction xs arbitrary: m p) (simp_all add: add.assoc)

text \<open>A range that is read while another one is written.\<close>

definition apart :: "u32 \<Rightarrow> nat \<Rightarrow> u32 \<Rightarrow> nat \<Rightarrow> bool" where
  "apart p n q k \<longleftrightarrow> (\<forall>i < n. \<forall>j < k. p + of_nat i \<noteq> q + of_nat j)"

lemma apart_Suc: "apart p (Suc n) q (Suc k) \<Longrightarrow> p \<noteq> q \<and> apart (p + 1) n (q + 1) k \<and> apart p (Suc n) (q + 1) k \<and> apart (p + 1) n q (Suc k)"
proof -
  assume a: "apart p (Suc n) q (Suc k)"
  have pick: "p + of_nat i \<noteq> q + of_nat j" if "i < Suc n" "j < Suc k" for i j using a that by (simp add: apart_def)
  have "apart (p + 1) n (q + 1) k" unfolding apart_def
  proof (intro allI impI)
    fix i j assume "i < n" "j < k"
    then show "p + 1 + of_nat i \<noteq> q + 1 + of_nat j" using pick [of "Suc i" "Suc j"] by (simp add: add.assoc)
  qed
  moreover have "apart p (Suc n) (q + 1) k" unfolding apart_def
  proof (intro allI impI)
    fix i j assume "i < Suc n" "j < k"
    then show "p + of_nat i \<noteq> q + 1 + of_nat j" using pick [of i "Suc j"] by (simp add: add.assoc)
  qed
  moreover have "apart (p + 1) n q (Suc k)" unfolding apart_def
  proof (intro allI impI)
    fix i j assume "i < n" "j < Suc k"
    then show "p + 1 + of_nat i \<noteq> q + of_nat j" using pick [of "Suc i" j] by (simp add: add.assoc)
  qed
  ultimately show ?thesis using pick [of 0 0] by simp
qed

lemma apart_head: "apart p (Suc n) q (Suc k) \<Longrightarrow> \<forall>j < k. p \<noteq> q + 1 + of_nat j"
proof (intro allI impI)
  fix j assume a: "apart p (Suc n) q (Suc k)" and "j < k"
  then have "p + of_nat 0 \<noteq> q + of_nat (Suc j)" unfolding apart_def by blast
  then show "p \<noteq> q + 1 + of_nat j" by (simp add: add.assoc)
qed

lemma apart_part: "apart p n q k \<Longrightarrow> i + n' \<le> n \<Longrightarrow> k' \<le> k \<Longrightarrow> apart (p + of_nat i) n' q k'"
  unfolding apart_def
proof (intro allI impI)
  fix a b assume *: "\<forall>i<n. \<forall>j<k. p + word_of_nat i \<noteq> q + word_of_nat j" "i + n' \<le> n" "k' \<le> k" "a < n'" "b < k'"
  then show "p + of_nat i + of_nat a \<noteq> q + of_nat b" using *(1) [rule_format, of "i + a" b] by (simp add: add.assoc)
qed

lemma apart_ranges: "\<forall>x. between p n x \<longrightarrow> \<not> between q k x \<Longrightarrow> unat p + n \<le> 2 ^ 32 \<Longrightarrow> unat q + k \<le> 2 ^ 32 \<Longrightarrow> apart p n q k"
  unfolding apart_def
proof (intro allI impI)
  fix i j assume *: "\<forall>x. between p n x \<longrightarrow> \<not> between q k x" "unat p + n \<le> 2 ^ 32" "unat q + k \<le> 2 ^ 32" "i < n" "j < k"
  then show "p + of_nat i \<noteq> q + of_nat j"
    using between_offset [of p n i] between_offset [of q k j] *(1) [rule_format, of "p + of_nat i"] by auto
qed

lemma cstring_put: "cstring m q cs \<Longrightarrow> apart p (length xs) q (Suc (length cs)) \<Longrightarrow> cstring (put m p xs) q cs"
proof (induction xs arbitrary: m p)
  case (Cons x xs)
  have "cstring (m(p := x)) q cs"
    by (rule cstring_upd [OF Cons.prems(1)]) (use Cons.prems(2) [unfolded apart_def, rule_format, of 0] in \<open>simp add: less_Suc_eq_le\<close>)
  moreover have "apart (p + 1) (length xs) q (Suc (length cs))" using apart_part [OF Cons.prems(2), of 1 "length xs"] by simp
  ultimately show ?case using Cons.IH by simp
qed simp

text \<open>
  \<open>itoa\<close> with radix 10 and a buffer of 34 bytes that lies below the end of the address space: it returns the buffer,
  changes nothing outside it, and \<open>read_int\<close> of \<open>print_parse.c\<close> reads the value back -- behind a minus
  sign if the value is negative, and then its absolute value, also for the smallest number, whose
  absolute value is read as \<open>2 ^ 31\<close> -- stopping at the final 0.
\<close>

theorem read_int_of_itoa:
  assumes "buffer \<noteq> 0" "unat buffer + 34 < 2 ^ 32"
  shows "\<exists>m' e. itoa m val buffer 10 = Some (buffer, m') \<and> m' e = 0 \<and>
    (if sint val < 0 then m' buffer = 45 \<and> read_int m' (buffer + 1) = Some (- val, e) else read_int m' buffer = Some (val, e)) \<and>
    (\<forall>a. unat a < unat buffer \<or> unat buffer + 33 < unat a \<longrightarrow> m' a = m a)"
proof -
  let ?v = "if sint val < 0 then - val else val" and ?start = "if sint val < 0 then buffer + 1 else buffer"
  have v: "unat ?v < 2 ^ 32" using unsigned_less [of ?v] by simp
  obtain m' where m': "itoa_unsigned m ?v (sint val < 0) buffer 10 = Some (buffer, m')"
    "bytes_at m' ?start (map (\<lambda>d. digit_char (of_nat d)) (numeral_of 10 (unat ?v)))"
    "m' (?start + of_nat (length (numeral_of 10 (unat ?v)))) = 0" "sint val < 0 \<longrightarrow> m' buffer = 45"
    "\<forall>a. unat a < unat buffer \<or> unat buffer + 33 < unat a \<longrightarrow> m' a = m a"
    using itoa_unsigned_text [of 10 buffer m ?v "sint val < 0"] assms by auto
  have "read_int m' ?start = Some (?v, ?start + of_nat (length (numeral_of 10 (unat ?v))))"
    using read_int_text [OF m'(2,3) v] by simp
  then show ?thesis using m' by (auto simp: itoa_def Let_def)
qed

lemma read_int_of_itoa_witness:
  "\<exists>m' e. itoa (\<lambda>a. 0) (- 1234) 0x500000 10 = Some (0x500000, m') \<and> m' 0x500000 = 45 \<and> read_int m' 0x500001 = Some (1234, e)"
  using read_int_of_itoa [of "0x500000" "\<lambda>a. 0" "- 1234"] by auto

lemma strcmp_is_order_witness: "strcmp (put (\<lambda>a. 0) 0x400 [104, 105]) 0x400 0x800 = Some 1"
proof -
  have "cstring (put (\<lambda>a. 0) 0x400 [104, 105]) 0x400 [104, 105]" "cstring (put (\<lambda>a. 0) 0x400 [104, 105]) 0x800 []" by simp_all
  from strcmp_is_order [OF this] show ?thesis by simp
qed

end
