(* ===== verification/CHeap.thy ===== *)
theory CHeap
  imports CLib "HOL-Library.Signed_Division"
begin

text \<open>
  The heap of the C library (\<open>lib/src/malloc.c\<close>) on \<open>sbrk\<close> (\<open>lib/src/sys.c\<close>): a list of headers in order of
  their addresses, with the free memory in the gaps behind the blocks.
\<close>

section \<open>The code\<close>

text \<open>
  The variables of both files, the headers in memory, the end of the data as the kernel has it, and what
  \<open>printf\<close> has written.
\<close>

record heap =
  malloc_begin :: u32
  malloc_end :: u32
  malloc_head :: u32
  fl_size :: "u32 \<Rightarrow> u32"
  fl_nlink :: "u32 \<Rightarrow> u32"
  fakeedata :: u32
  break_at :: u32
  printed :: "u32 list"

definition MALLOC_PAGE :: int where "MALLOC_PAGE = 12288"

text \<open>
  The kernel as the library sees it: the end of the data that \<open>brk(0)\<close> returns, and for which ends \<open>brk\<close> is
  granted (\<open>Process::SBreak\<close> refuses one for which the address space has no room and leaves the data
  as they are).
\<close>

record brk_kernel =
  end_of_data :: u32
  grants :: "u32 \<Rightarrow> bool"

definition brk :: "brk_kernel \<Rightarrow> u32 \<Rightarrow> heap \<Rightarrow> heap" where
  "brk K newEnd h = (if grants K newEnd then h\<lparr>break_at := newEnd\<rparr> else h)"

text \<open>\<open>sbrk\<close> does not look at the result of \<open>brk\<close>.\<close>

definition sbrk :: "brk_kernel \<Rightarrow> u32 \<Rightarrow> heap \<Rightarrow> u32 \<times> heap" where
  "sbrk K increment h =
     (let h = (if fakeedata h = 0 then h\<lparr>fakeedata := end_of_data K\<rparr> else h);
          newedata = fakeedata h + increment - 1;
          h = (brk K (push_bit 12 (drop_bit 12 newedata + 1)) h)\<lparr>fakeedata := newedata + 1\<rparr>
      in (fakeedata h, h))"

definition malloc_init :: "brk_kernel \<Rightarrow> heap \<Rightarrow> heap" where
  "malloc_init K h =
     (let (b, h) = sbrk K 0 h; h = h\<lparr>malloc_begin := b\<rparr>;
          (e, h) = sbrk K (word_of_int MALLOC_PAGE) h
      in h\<lparr>malloc_end := e, malloc_head := b, fl_size := (fl_size h)(b := 8), fl_nlink := (fl_nlink h)(b := 0)\<rparr>)"

definition block_size :: "u32 \<Rightarrow> u32" where
  "block_size sz = push_bit 3 (drop_bit 3 (sz + 8 + 7))"

text \<open>The search: \<open>Inl\<close> the header with enough room behind it, \<open>Inr\<close> the last one.\<close>

partial_function (option) malloc_search :: "heap \<Rightarrow> u32 \<Rightarrow> u32 \<Rightarrow> (u32 + u32) option" where
  "malloc_search h sz iter =
     (if fl_nlink h iter = 0 then Some (Inr iter)
      else if fl_nlink h iter - fl_size h iter - iter \<ge> sz then Some (Inl iter)
      else malloc_search h sz (fl_nlink h iter))"

definition page_round :: "u32 \<Rightarrow> u32" where
  "page_round n = word_of_int ((sint (n + word_of_int MALLOC_PAGE - 1) sdiv MALLOC_PAGE) * MALLOC_PAGE)"

definition malloc :: "brk_kernel \<Rightarrow> heap \<Rightarrow> u32 \<Rightarrow> (u32 \<times> heap) option" where
  "malloc K h sz =
     (let h = (if malloc_begin h = 0 then malloc_init K h else h)
      in if sz = 0 then Some (0, h)
         else
           let sz = block_size sz
           in Option.bind (malloc_search h sz (malloc_head h)) (\<lambda>r.
                case r of
                  Inl iter \<Rightarrow>
                    let temp = iter + fl_size h iter;
                        h = h\<lparr>fl_nlink := (fl_nlink h)(temp := fl_nlink h iter)\<rparr>;
                        h = h\<lparr>fl_nlink := (fl_nlink h)(iter := temp)\<rparr>
                    in Some (temp + 8, h\<lparr>fl_size := (fl_size h)(temp := sz)\<rparr>)
                | Inr iter \<Rightarrow>
                    let expand = page_round (sz - (malloc_end h - iter - fl_size h iter));
                        (e, h) = sbrk K expand h;
                        new = iter + fl_size h iter;
                        h = h\<lparr>malloc_end := e, fl_nlink := (fl_nlink h)(iter := new)\<rparr>;
                        h = h\<lparr>fl_size := (fl_size h)(new := sz)\<rparr>;
                        h = h\<lparr>fl_nlink := (fl_nlink h)(new := 0), printed := printed h @ [new]\<rparr>
                    in Some (new + 8, h)))"

text \<open>The loop of \<open>free\<close>.\<close>

partial_function (option) free_search :: "brk_kernel \<Rightarrow> heap \<Rightarrow> u32 \<Rightarrow> u32 \<Rightarrow> u32 \<Rightarrow> (int \<times> heap) option" where
  "free_search K h real_addr prev iter =
     (if iter = 0 then Some (-1, h)
      else if iter = real_addr
      then
        let h = h\<lparr>fl_nlink := (fl_nlink h)(prev := fl_nlink h iter)\<rparr>
        in if fl_nlink h prev = 0
           then
             let room = malloc_end h - (prev + fl_size h prev)
             in if sint room > MALLOC_PAGE * 2
                then
                  let (e, h) = sbrk K (- word_of_int (sint room sdiv MALLOC_PAGE * MALLOC_PAGE)) h
                  in Some (0, h\<lparr>malloc_end := e\<rparr>)
                else Some (0, h)
           else Some (0, h)
      else free_search K h real_addr iter (fl_nlink h iter))"

definition free :: "brk_kernel \<Rightarrow> heap \<Rightarrow> u32 \<Rightarrow> (int \<times> heap) option" where
  "free K h addr =
     (if addr = 0 then Some (-1, h) else free_search K h (addr - 8) (malloc_head h) (malloc_head h))"

section \<open>The list of blocks\<close>

fun chain :: "heap \<Rightarrow> u32 \<Rightarrow> (u32 \<times> u32) list \<Rightarrow> bool" where
  "chain h a [] \<longleftrightarrow> a = 0"
| "chain h a ((b, n) # bs) \<longleftrightarrow> a = b \<and> b \<noteq> 0 \<and> fl_size h b = n \<and> chain h (fl_nlink h b) bs"

text \<open>Blocks in order, one behind the other, up to \<open>e\<close>.\<close>

fun in_order :: "nat \<Rightarrow> (u32 \<times> u32) list \<Rightarrow> nat \<Rightarrow> bool" where
  "in_order lo [] e \<longleftrightarrow> lo \<le> e"
| "in_order lo ((b, n) # bs) e \<longleftrightarrow> lo \<le> unat b \<and> 8 \<le> unat n \<and> in_order (unat b + unat n) bs e"

text \<open>The kernel grants every end up to \<open>L\<close>.\<close>

definition granted :: "brk_kernel \<Rightarrow> nat \<Rightarrow> bool" where
  "granted K L \<longleftrightarrow> L \<le> 2 ^ 31 \<and> (\<forall>v. unat v \<le> L \<longrightarrow> grants K v)"

definition heap_ok :: "nat \<Rightarrow> heap \<Rightarrow> (u32 \<times> u32) list \<Rightarrow> bool" where
  "heap_ok L h bs \<longleftrightarrow> bs \<noteq> [] \<and> hd bs = (malloc_begin h, 8) \<and> malloc_begin h \<noteq> 0 \<and> chain h (malloc_head h) bs \<and>
     in_order (unat (malloc_begin h)) bs (unat (malloc_end h)) \<and> fakeedata h = malloc_end h \<and>
     unat (malloc_end h) \<le> unat (break_at h) \<and> unat (malloc_end h) + 0x1000 \<le> L \<and> L \<le> 2 ^ 31"

lemma in_order_mono: "in_order lo bs e \<Longrightarrow> lo' \<le> lo \<Longrightarrow> e \<le> e' \<Longrightarrow> in_order lo' bs e'"
  by (induction lo bs e arbitrary: lo' rule: in_order.induct) auto

lemma in_order_append: "in_order lo (bs @ cs) e \<longleftrightarrow> (\<exists>m. in_order lo bs m \<and> in_order m cs e)"
  by (induction lo bs e rule: in_order.induct) (auto intro: in_order_mono)

lemma in_order_le: "in_order lo bs e \<Longrightarrow> lo \<le> e"
  by (induction lo bs e rule: in_order.induct) auto

lemma in_order_inside: "in_order lo bs e \<Longrightarrow> (b, n) \<in> set bs \<Longrightarrow> lo \<le> unat b \<and> unat b + 8 \<le> unat b + unat n \<and> unat b + unat n \<le> e"
proof (induction lo bs e rule: in_order.induct)
  case (2 lo c k bs e)
  then show ?case using in_order_le [of "unat c + unat k" bs e] by auto
qed simp

text \<open>The list depends on the headers of its blocks only.\<close>

lemma chain_cong:
  "(\<And>b n. (b, n) \<in> set bs \<Longrightarrow> fl_size h b = fl_size h' b \<and> fl_nlink h b = fl_nlink h' b) \<Longrightarrow> chain h a bs = chain h' a bs"
proof (induction bs arbitrary: a)
  case (Cons x bs)
  obtain b n where x: "x = (b, n)" by fastforce
  show ?case using Cons.prems [of b n] Cons.IH [of "fl_nlink h b"] Cons.prems by (auto simp: x)
qed simp

lemma chain_same: "fl_size h = fl_size h' \<Longrightarrow> fl_nlink h = fl_nlink h' \<Longrightarrow> chain h a bs = chain h' a bs"
  by (rule chain_cong) simp

lemma chain_split: "chain h a (bs @ (b, n) # cs) \<Longrightarrow> b \<noteq> 0 \<and> fl_size h b = n \<and> chain h (fl_nlink h b) cs"
  by (induction bs arbitrary: a) auto

text \<open>What \<open>sbrk\<close> does when the kernel grants the end it asks for.\<close>

lemma sbrk_simps:
  assumes "fakeedata h \<noteq> 0" "grants K (push_bit 12 (drop_bit 12 (fakeedata h + k - 1) + 1))"
  shows "sbrk K k h = (fakeedata h + k, h\<lparr>break_at := push_bit 12 (drop_bit 12 (fakeedata h + k - 1) + 1), fakeedata := fakeedata h + k\<rparr>)"
  using assms by (simp add: sbrk_def brk_def Let_def)

lemma small_nat: "n < 2 ^ 32 \<Longrightarrow> unat (of_nat n :: u32) = n"
  by (simp add: unat_of_nat)

lemma break_covers:
  fixes w :: u32
  assumes "0 < unat w" "unat w < 2 ^ 31"
  shows "unat w \<le> unat (push_bit 12 (drop_bit 12 (w - 1) + 1))" "unat (push_bit 12 (drop_bit 12 (w - 1) + 1)) < unat w + 4096"
proof -
  have w1: "unat (w - 1) = unat w - 1" using assms(1) by (intro unat_minus_one) auto
  define q where "q = (unat w - 1) div 4096"
  have q: "q < 2 ^ 19" using assms(2) by (simp add: q_def)
  have u: "unat (drop_bit 12 (w - 1)) = q" by (simp add: drop_bit_eq_div unat_div w1 q_def)
  have "drop_bit 12 (w - 1) = of_nat q" unfolding u [symmetric] by simp
  then have "push_bit 12 (drop_bit 12 (w - 1) + 1) = of_nat ((q + 1) * 4096)" by (simp add: push_bit_eq_mult)
  then have eq: "unat (push_bit 12 (drop_bit 12 (w - 1) + 1)) = (q + 1) * 4096" using small_nat [of "(q + 1) * 4096"] q by simp
  have lt: "unat w - 1 < (q + 1) * 4096" "q * 4096 \<le> unat w - 1" by (simp_all add: q_def dividend_less_div_times)
  show "unat w \<le> unat (push_bit 12 (drop_bit 12 (w - 1) + 1))" unfolding eq using lt(1) by linarith
  show "unat (push_bit 12 (drop_bit 12 (w - 1) + 1)) < unat w + 4096" unfolding eq distrib_right using lt(2) assms(1) by simp
qed

lemma break_granted:
  fixes w :: u32
  assumes "granted K L" "0 < unat w" "unat w + 0x1000 \<le> L"
  shows "grants K (push_bit 12 (drop_bit 12 (w - 1) + 1))"
proof -
  have "unat w < 2 ^ 31" using assms by (simp add: granted_def)
  from break_covers(2) [OF assms(2) this] show ?thesis using assms by (simp add: granted_def)
qed

text \<open>The size of a block, rounded up to eight bytes.\<close>

lemma block_size_room:
  assumes "unat k + 15 < 2 ^ 32"
  shows "unat k + 8 \<le> unat (block_size k)" "unat (block_size k) \<le> unat k + 15"
proof -
  have k: "unat (k + 8 + 7) = unat k + 15"
    using unat_off [of k 15] assms by (simp add: add.assoc)
  define q where "q = (unat k + 15) div 8"
  have q: "q * 8 \<le> unat k + 15" "unat k + 15 < q * 8 + 8" by (simp_all add: q_def)
  have u: "unat (drop_bit 3 (k + 8 + 7)) = q" unfolding drop_bit_eq_div unat_div k by (simp add: q_def)
  have "drop_bit 3 (k + 8 + 7) = of_nat q" unfolding u [symmetric] by simp
  then have "block_size k = of_nat (q * 8)" by (simp add: block_size_def push_bit_eq_mult)
  then have "unat (block_size k) = q * 8" using small_nat [of "q * 8"] q assms by simp
  then show "unat k + 8 \<le> unat (block_size k)" "unat (block_size k) \<le> unat k + 15" using q by linarith+
qed

section \<open>Taking and giving back\<close>

text \<open>The addresses of a list in order are different.\<close>

lemma in_order_distinct: "in_order lo bs e \<Longrightarrow> distinct (map fst bs)"
proof (induction lo bs e rule: in_order.induct)
  case (2 lo b n bs e)
  then show ?case using in_order_inside [of "unat b + unat n" bs e] by fastforce
qed simp

lemma heap_gap:
  fixes b c n :: u32
  assumes "unat b + unat n \<le> unat c"
  shows "unat (c - n - b) = unat c - (unat b + unat n)"
proof -
  have "n \<le> c" using assms by (simp add: word_le_nat_alt)
  then have cn: "unat (c - n) = unat c - unat n" by (rule unat_sub)
  then have "b \<le> c - n" using assms by (simp add: word_le_nat_alt)
  then show ?thesis using cn by (simp add: unat_sub)
qed

lemma malloc_search_finds:
  assumes "chain h a bs" "bs \<noteq> []" "in_order lo bs e"
  shows "\<exists>pre b n post r. bs = pre @ (b, n) # post \<and> malloc_search h sz a = Some r \<and>
    (post = [] \<and> r = Inr b \<or> (\<exists>c k post'. post = (c, k) # post' \<and> r = Inl b \<and> unat b + unat n + unat sz \<le> unat c))"
  using assms
proof (induction bs arbitrary: a lo)
  case (Cons x bs)
  obtain b n where x: "x = (b, n)" by fastforce
  have h: "a = b" "fl_size h b = n" "chain h (fl_nlink h b) bs" using Cons.prems(1) by (simp_all add: x)
  show ?case
  proof (cases bs)
    case Nil
    then have "malloc_search h sz a = Some (Inr b)" using h by (simp add: malloc_search.simps)
    then show ?thesis using Nil by (auto simp: x)
  next
    case (Cons y bs')
    obtain c k where y: "y = (c, k)" by fastforce
    have c: "fl_nlink h b = c" "c \<noteq> 0" using h(3) by (simp_all add: Cons y)
    have o: "in_order (unat b + unat n) bs e" "unat b + unat n \<le> unat c" using Cons.prems(3) by (simp_all add: x Cons y)
    show ?thesis
    proof (cases "sz \<le> c - n - b")
      case True
      then have "unat b + unat n + unat sz \<le> unat c" using heap_gap [OF o(2)] o(2) by (simp add: word_le_nat_alt)
      moreover have "malloc_search h sz a = Some (Inl b)" using True h(1,2) c by (simp add: malloc_search.simps)
      ultimately show ?thesis using Cons y by (intro exI [of _ "[]"] exI [of _ b] exI [of _ n] exI [of _ bs] exI [of _ "Inl b"]) (simp add: x)
    next
      case False
      then have "malloc_search h sz a = malloc_search h sz (fl_nlink h b)" using h(1,2) c by (subst malloc_search.simps) simp
      moreover obtain pre d j post r where "bs = pre @ (d, j) # post" "malloc_search h sz (fl_nlink h b) = Some r"
        "post = [] \<and> r = Inr d \<or> (\<exists>c k post'. post = (c, k) # post' \<and> r = Inl d \<and> unat d + unat j + unat sz \<le> unat c)"
        using Cons.IH [OF h(3) _ o(1)] Cons by blast
      ultimately show ?thesis
        by (intro exI [of _ "x # pre"] exI [of _ d] exI [of _ j] exI [of _ post] exI [of _ r]) simp
    qed
  qed
qed simp

lemma insert_block:
  assumes "chain h a (pre @ (b, n) # post)" "distinct (map fst (pre @ (b, n) # post))" "t \<notin> fst ` set (pre @ (b, n) # post)" "t \<noteq> 0"
    and h': "fl_nlink h' = (fl_nlink h)(t := fl_nlink h b, b := t)" "fl_size h' = (fl_size h)(t := sz)"
  shows "chain h' a (pre @ (b, n) # (t, sz) # post)"
  using assms(1-4)
proof (induction pre arbitrary: a)
  case Nil
  have "chain h' (fl_nlink h b) post = chain h (fl_nlink h b) post"
    by (rule chain_cong) (use Nil in \<open>force simp: h'\<close>)
  then show ?case using Nil by (auto simp: h')
next
  case (Cons x pre)
  then show ?case by (cases x) (auto simp: h')
qed

lemma remove_block:
  assumes "chain h a (pre @ (b, n) # (t, k) # post)" "distinct (map fst (pre @ (b, n) # (t, k) # post))"
    and h': "fl_nlink h' = (fl_nlink h)(b := fl_nlink h t)" "fl_size h' = fl_size h"
  shows "chain h' a (pre @ (b, n) # post)"
  using assms(1,2)
proof (induction pre arbitrary: a)
  case Nil
  have "chain h' (fl_nlink h t) post = chain h (fl_nlink h t) post"
    by (rule chain_cong) (use Nil in \<open>force simp: h'\<close>)
  then show ?case using Nil by (auto simp: h')
next
  case (Cons x pre)
  then show ?case by (cases x) (auto simp: h')
qed

lemma sint_word: "unat w < 2 ^ 31 \<Longrightarrow> sint w = int (unat w)" "unat w < 2 ^ 31 \<Longrightarrow> w \<noteq> 0 \<Longrightarrow> sint (- w) = - int (unat w)"
  for w :: u32
proof -
  assume w: "unat w < 2 ^ 31"
  show s: "sint w = int (unat w)" by (rule sint_small [OF w])
  have "unat w < 2147483648" using w by simp
  then have "- int (unat w) \<ge> - 2147483648" "- int (unat w) < 2147483648" by linarith+
  then have "sint (word_of_int (- int (unat w)) :: u32) = - int (unat w)" by (intro sint_of_cint) (simp add: cint_def)
  then show "sint (- w) = - int (unat w)" by (simp add: word_of_int_minus)
qed

lemma sdiv_12288:
  fixes k :: int
  shows "k sdiv 12288 * 12288 \<le> max 0 k" "min 0 k \<le> k sdiv 12288 * 12288" "k - 12287 \<le> k sdiv 12288 * 12288"
proof -
  have "k sdiv 12288 * 12288 \<le> max 0 k \<and> min 0 k \<le> k sdiv 12288 * 12288 \<and> k - 12287 \<le> k sdiv 12288 * 12288"
  proof (cases "0 \<le> k")
    case True
    then have "k sdiv 12288 = k div 12288" by (simp add: signed_divide_int_def sgn_if)
    moreover have "k = k div 12288 * 12288 + k mod 12288" "0 \<le> k mod 12288" "k mod 12288 < 12288" by simp_all
    ultimately show ?thesis using True by simp linarith
  next
    case False
    define j where "j = - k"
    have "k sdiv 12288 = - (j div 12288)" using False by (simp add: signed_divide_int_def sgn_if j_def)
    moreover have "j = j div 12288 * 12288 + j mod 12288" "0 \<le> j mod 12288" "j mod 12288 < 12288" by simp_all
    moreover have "k = - j" "0 < j" using False by (simp_all add: j_def)
    ultimately show ?thesis by simp linarith
  qed
  then show "k sdiv 12288 * 12288 \<le> max 0 k" "min 0 k \<le> k sdiv 12288 * 12288" "k - 12287 \<le> k sdiv 12288 * 12288" by auto
qed

text \<open>
  What \<open>malloc\<close> asks \<open>sbrk\<close> for when the last block is followed by \<open>room\<close> bytes: enough, and at most a
  page of 12288 bytes more than needed.
\<close>

lemma expand_enough:
  fixes sz room :: u32
  assumes "unat sz < 2 ^ 30" "unat room < 2 ^ 31 - 2 ^ 14"
  shows "int (unat sz) - int (unat room) \<le> sint (page_round (sz - room))"
    "sint (page_round (sz - room)) \<le> max 0 (int (unat sz) - int (unat room) + 12287)"
    "- int (unat room) \<le> sint (page_round (sz - room))"
proof -
  define d where "d = int (unat sz) - int (unat room)"
  have "unat sz < 1073741824" "unat room < 2147467264" using assms by simp_all
  then have d: "- 2147467264 < d" "d < 1073741824" "- int (unat room) \<le> d" unfolding d_def by linarith+
  have "sz - room + 12287 = word_of_int (d + 12287)" by (simp add: d_def)
  moreover have "cint (d + 12287)" using d by (simp add: cint_def)
  ultimately have s: "sint (sz - room + word_of_int MALLOC_PAGE - 1) = d + 12287"
    using sint_of_cint [of "d + 12287"] by (simp add: MALLOC_PAGE_def algebra_simps)
  define q where "q = (d + 12287) sdiv 12288"
  have q: "q * 12288 \<le> max 0 (d + 12287)" "d \<le> q * 12288" "- 2147483648 \<le> q * 12288" "- int (unat room) \<le> q * 12288"
    using d sdiv_12288 [of "d + 12287"] by (simp_all add: q_def)
  have "cint (q * 12288)" using q d by (simp add: cint_def)
  moreover have "page_round (sz - room) = word_of_int (q * 12288)" unfolding page_round_def s q_def by (simp add: MALLOC_PAGE_def)
  ultimately have "sint (page_round (sz - room)) = q * 12288" by (simp only: sint_of_cint)
  with q show "int (unat sz) - int (unat room) \<le> sint (page_round (sz - room))"
    "sint (page_round (sz - room)) \<le> max 0 (int (unat sz) - int (unat room) + 12287)" 
    "- int (unat room) \<le> sint (page_round (sz - room))" by (simp_all add: d_def)
qed

lemma unat_move:
  fixes w k :: u32
  assumes "0 \<le> int (unat w) + sint k" "int (unat w) + sint k < 2 ^ 32"
  shows "int (unat (w + k)) = int (unat w) + sint k"
proof -
  have "w + k = word_of_int (int (unat w) + sint k)" by simp
  then have "uint (w + k) = (int (unat w) + sint k) mod 2 ^ 32" by (simp only: uint_word_of_int) simp
  then show ?thesis using assms by simp
qed

text \<open>What \<open>heap_ok\<close> says of a block and of the memory behind it.\<close>

lemma heap_block:
  assumes ok: "heap_ok L h (pre @ (b, n) # post)"
  shows "fl_size h b = n" "unat (b + n) = unat b + unat n" "unat b + unat n \<le> unat (malloc_end h)" "b + n \<noteq> 0"
    "distinct (map fst (pre @ (b, n) # post))" "chain h (malloc_head h) (pre @ (b, n) # post)"
    "\<forall>(c, k) \<in> set pre. unat c < unat b" 
    "\<exists>m. in_order (unat (malloc_begin h)) pre m \<and> m \<le> unat b \<and> 8 \<le> unat n \<and> in_order (unat b + unat n) post (unat (malloc_end h))"
proof -
  have c: "chain h (malloc_head h) (pre @ (b, n) # post)" and o: "in_order (unat (malloc_begin h)) (pre @ (b, n) # post) (unat (malloc_end h))"
    and e: "unat (malloc_end h) < 2 ^ 31" using ok by (auto simp: heap_ok_def)
  show "chain h (malloc_head h) (pre @ (b, n) # post)" by (rule c)
  show "fl_size h b = n" using chain_split [OF c] by simp
  show le: "unat b + unat n \<le> unat (malloc_end h)" using in_order_inside [OF o, of b n] by simp
  show u: "unat (b + n) = unat b + unat n" using unat_off [of b "unat n"] le e by simp
  have "b \<noteq> 0" using chain_split [OF c] by simp
  then show "b + n \<noteq> 0" using u by (metis add_is_0 unat_0 unat_eq_0)
  show "distinct (map fst (pre @ (b, n) # post))" by (rule in_order_distinct [OF o])
  obtain m where m: "in_order (unat (malloc_begin h)) pre m" "m \<le> unat b" "8 \<le> unat n" "in_order (unat b + unat n) post (unat (malloc_end h))"
    using o by (auto simp: in_order_append)
  then show "\<exists>m. in_order (unat (malloc_begin h)) pre m \<and> m \<le> unat b \<and> 8 \<le> unat n \<and> in_order (unat b + unat n) post (unat (malloc_end h))" by blast
  show "\<forall>(c, k) \<in> set pre. unat c < unat b" using in_order_inside [OF m(1)] m(2) by fastforce
qed

text \<open>A block behind \<open>(b, n)\<close> in the order and in the list.\<close>

lemma heap_insert:
  assumes ok: "heap_ok L h (pre @ (b, n) # post)" and sz: "8 \<le> unat sz"
    and room: "in_order (unat b + unat n + unat sz) post (unat (malloc_end h'))"
    and h': "fl_nlink h' = (fl_nlink h)(b + n := fl_nlink h b, b := b + n)" "fl_size h' = (fl_size h)(b + n := sz)"
      "malloc_begin h' = malloc_begin h" "malloc_head h' = malloc_head h" "fakeedata h' = malloc_end h'"
      "unat (malloc_end h') \<le> unat (break_at h')" "unat (malloc_end h') + 0x1000 \<le> L"
  shows "heap_ok L h' ((pre @ [(b, n)]) @ (b + n, sz) # post)"
proof -
  note b = heap_block [OF ok]
  obtain m where m: "in_order (unat (malloc_begin h)) pre m" "m \<le> unat b" "8 \<le> unat n" using b(8) by blast
  have fresh: "b + n \<notin> fst ` set (pre @ (b, n) # post)"
  proof
    assume "b + n \<in> fst ` set (pre @ (b, n) # post)"
    then consider k where "(b + n, k) \<in> set pre" | "b + n = b" | k where "(b + n, k) \<in> set post" by fastforce
    then show False
    proof cases
      case 1
      then show False using b(2,7) by auto
    next
      case 2
      then have "unat (b + n) = unat b" by (rule arg_cong)
      then show False using b(2) m(3) by simp
    next
      case 3
      then show False using b(2) sz in_order_inside [OF room] by fastforce
    qed
  qed
  have "chain h' (malloc_head h') (pre @ (b, n) # (b + n, sz) # post)"
    unfolding h'(4) by (rule insert_block [OF b(6,5) fresh b(4) h'(1,2)])
  moreover have "in_order (unat (malloc_begin h)) (pre @ (b, n) # (b + n, sz) # post) (unat (malloc_end h'))"
    unfolding in_order_append using m sz room b(2) by auto
  moreover have "hd (pre @ (b, n) # (b + n, sz) # post) = hd (pre @ (b, n) # post)" by (cases pre) simp_all
  ultimately show ?thesis using ok h' by (simp add: heap_ok_def)
qed

lemma malloc_block:
  assumes ok: "heap_ok L h bs" and k: "k \<noteq> 0" "unat k + 16 < 2 ^ 30" and lim: "unat (malloc_end h) + unat k + 0x5000 \<le> L" and gr: "granted K L"
  shows "\<exists>p h' pre n post. malloc K h k = Some (p, h') \<and> bs = pre @ post \<and> pre \<noteq> [] \<and> heap_ok L h' (pre @ (p - 8, n) # post) \<and> unat k + 8 \<le> unat n"
proof -
  let ?sz = "block_size k"
  have sz: "unat k + 8 \<le> unat ?sz" "unat ?sz \<le> unat k + 15" using block_size_room [of k] k by simp_all
  have b0: "malloc_begin h \<noteq> 0" "chain h (malloc_head h) bs" "bs \<noteq> []" "in_order (unat (malloc_begin h)) bs (unat (malloc_end h))"
    using ok by (simp_all add: heap_ok_def)
  obtain pre b n post r where bs: "bs = pre @ (b, n) # post" and r: "malloc_search h ?sz (malloc_head h) = Some r"
    and c: "post = [] \<and> r = Inr b \<or> (\<exists>c k post'. post = (c, k) # post' \<and> r = Inl b \<and> unat b + unat n + unat ?sz \<le> unat c)"
    using malloc_search_finds [OF b0(2-4)] by blast
  note blk = heap_block [OF ok [unfolded bs]]
  from c show ?thesis
  proof (elim disjE conjE exE)
    fix c j post' assume post: "post = (c, j) # post'" and "r = Inl b" and g: "unat b + unat n + unat ?sz \<le> unat c"
    define h' where "h' = h\<lparr>fl_nlink := (fl_nlink h)(b + n := fl_nlink h b, b := b + n), fl_size := (fl_size h)(b + n := ?sz)\<rparr>"
    have m: "malloc K h k = Some (b + n + 8, h')"
      using r \<open>r = Inl b\<close> b0(1) k(1) blk(1) by (simp add: malloc_def Let_def h'_def)
    have "in_order (unat b + unat n + unat ?sz) post (unat (malloc_end h'))" using blk(8) g by (auto simp: post h'_def)
    then have "heap_ok L h' ((pre @ [(b, n)]) @ (b + n, ?sz) # post)"
      using ok sz(1) by (intro heap_insert [OF ok [unfolded bs]]) (simp_all add: h'_def heap_ok_def)
    then show ?thesis using m sz(1)
      by (intro exI [of _ "b + n + 8"] exI [of _ h'] exI [of _ "pre @ [(b, n)]"] exI [of _ ?sz] exI [of _ post]) (simp add: bs)
  next
    assume post: "post = []" and "r = Inr b"
    let ?e = "malloc_end h" and ?room = "malloc_end h - b - n"
    define x where "x = page_round (?sz - ?room)"
    have room: "unat ?room = unat ?e - (unat b + unat n)" using heap_gap [OF blk(3)] by (simp add: algebra_simps)
    have L: "L \<le> 2 ^ 31" using gr by (simp add: granted_def)
    have lim': "unat ?e < 2 ^ 31 - 2 ^ 14" using lim L k(1) unat_eq_0 [of k] by simp
    have "unat ?sz < 2 ^ 30" "unat ?room < 2 ^ 31 - 2 ^ 14" using sz k lim' room by linarith+
    note x = expand_enough [OF this, folded x_def]
    have bounds: "int (unat b + unat n + unat ?sz) \<le> int (unat ?e) + sint x" "int (unat ?e) + sint x + 4096 \<le> int L" "int (unat ?e) + sint x < 2147483648"
    proof -
      show "int (unat b + unat n + unat ?sz) \<le> int (unat ?e) + sint x" using x(1) room blk(3) by linarith
      have "sint x \<le> 0 \<or> sint x \<le> int (unat ?sz) - int (unat ?room) + 12287" using x(2) by linarith
      moreover have "unat ?e + unat k + 20480 \<le> L" "L \<le> 2147483648" using lim L by simp_all
      ultimately show "int (unat ?e) + sint x + 4096 \<le> int L" using room blk(3) sz(2) by linarith
      then show "int (unat ?e) + sint x < 2147483648" using \<open>L \<le> 2147483648\<close> by linarith
    qed
    then have e: "int (unat (?e + x)) = int (unat ?e) + sint x" by (intro unat_move) (use bounds in \<open>linarith | simp\<close>)+
    define h' where "h' = h\<lparr>break_at := push_bit 12 (drop_bit 12 (?e + x - 1) + 1), fakeedata := ?e + x, malloc_end := ?e + x,
        fl_nlink := (fl_nlink h)(b := b + n, b + n := 0), fl_size := (fl_size h)(b + n := ?sz), printed := printed h @ [b + n]\<rparr>"
    have fk: "fakeedata h = ?e" "?e \<noteq> 0" using ok blk(2,3,4) by (auto simp: heap_ok_def unat_eq_0)
    have nl: "fl_nlink h b = 0" using chain_split [OF blk(6)] post by simp
    have e_lo: "unat b + unat n + unat ?sz \<le> unat (?e + x)" and e_L: "unat (?e + x) + 4096 \<le> L" and "unat (?e + x) < 2147483648" using e bounds by linarith+
    then have e_hi: "unat (?e + x) < 2 ^ 31" by simp
    have "0 < unat (?e + x)" using e_lo sz(1) by linarith
    note gx = break_granted [OF gr this e_L] and cov = break_covers(1) [OF this e_hi]
    have sb: "sbrk K x h = (?e + x, h\<lparr>break_at := push_bit 12 (drop_bit 12 (?e + x - 1) + 1), fakeedata := ?e + x\<rparr>)"
      using sbrk_simps [of h K x] fk gx by simp
    have m: "malloc K h k = Some (b + n + 8, h')"
      using r \<open>r = Inr b\<close> b0(1) k(1) blk(1) fk by (simp add: malloc_def Let_def sb [unfolded x_def] h'_def x_def)
    have "b \<noteq> b + n" using blk(2,8) by auto
    then have nlink: "(fl_nlink h)(b := b + n, b + n := 0) = (fl_nlink h)(b + n := fl_nlink h b, b := b + n)"
      by (simp add: nl fun_upd_twist)
    have "in_order (unat b + unat n + unat ?sz) post (unat (malloc_end h'))" using e_lo by (simp add: post h'_def)
    then have "heap_ok L h' ((pre @ [(b, n)]) @ (b + n, ?sz) # post)"
      using sz(1) e_lo e_L cov by (intro heap_insert [OF ok [unfolded bs]]) (simp_all add: h'_def nlink)
    then show ?thesis using m sz(1)
      by (intro exI [of _ "b + n + 8"] exI [of _ h'] exI [of _ "pre @ [(b, n)]"] exI [of _ ?sz] exI [of _ post]) (simp add: bs)
  qed
qed

text \<open>Giving a block back.\<close>

lemma free_search_finds:
  "chain h a (pre @ (c, m) # (b, n) # post) \<Longrightarrow> distinct (map fst (pre @ (c, m) # (b, n) # post)) \<Longrightarrow>
   free_search K h b p a = free_search K h b c b"
proof (induction pre arbitrary: a p)
  case Nil
  then show ?case by (subst free_search.simps) auto
next
  case (Cons x pre)
  then show ?case by (cases x) (subst free_search.simps, auto)
qed

lemma free_block:
  assumes ok: "heap_ok L h (pre @ (b, n) # post)" and pre: "pre \<noteq> []" and gr: "granted K L"
  shows "\<exists>h'. free K h (b + 8) = Some (0, h') \<and> heap_ok L h' (pre @ post)"
proof -
  obtain pre' c m where "pre = pre' @ [(c, m)]" using pre by (cases pre rule: rev_cases) auto
  then have ok': "heap_ok L h (pre' @ (c, m) # (b, n) # post)" and pp: "pre = pre' @ [(c, m)]" using ok by simp_all
  note cb = heap_block [OF ok'] and bb = heap_block [OF ok]
  have b0: "b \<noteq> 0" "fl_size h b = n" "chain h (fl_nlink h b) post" using chain_split [OF bb(6)] by simp_all
  have a8: "b + 8 \<noteq> 0"
  proof
    have "unat (b + 8) = unat b + 8" using unat_off [of b 8] bb(3,8) ok by (auto simp: heap_ok_def)
    moreover assume "b + 8 = 0"
    ultimately show False by simp
  qed
  define h1 where "h1 = h\<lparr>fl_nlink := (fl_nlink h)(c := fl_nlink h b)\<rparr>"
  have ch: "chain h1 (malloc_head h) (pre' @ (c, m) # post)"
    by (rule remove_block [OF cb(6,5)]) (simp_all add: h1_def)
  obtain k where o: "in_order (unat (malloc_begin h)) pre' k" "k \<le> unat c" "8 \<le> unat m" "in_order (unat c + unat m) ((b, n) # post) (unat (malloc_end h))"
    using cb(8) by blast
  have o': "in_order (unat (malloc_begin h)) (pre' @ (c, m) # post) (unat (malloc_end h))"
    unfolding in_order_append using o bb(8) in_order_mono [of "unat b + unat n" post "unat (malloc_end h)" "unat c + unat m"] by auto
  have hd: "hd (pre' @ (c, m) # post) = (malloc_begin h, 8)" using ok' by (cases pre') (simp_all add: heap_ok_def)
  have h1: "heap_ok L h1 (pre' @ (c, m) # post)" using ok ch o' hd by (simp add: heap_ok_def h1_def)
  have fr: "free K h (b + 8) = free_search K h b c b"
    using a8 free_search_finds [OF cb(6,5), of K "malloc_head h"] by (simp add: free_def)
  note c1 = heap_block [OF h1]
  show ?thesis
  proof (cases "fl_nlink h b = 0 \<and> sint (malloc_end h - (c + m)) > MALLOC_PAGE * 2")
    case False
    then have "free_search K h b c b = Some (0, h1)" using b0(1) c1(1) by (subst free_search.simps) (auto simp: h1_def Let_def)
    then show ?thesis using h1 fr by (auto simp: pp)
  next
    case True
    then have post: "post = []" using b0(3) by (cases post) auto
    let ?room = "malloc_end h - (c + m)"
    define x where "x = sint ?room sdiv MALLOC_PAGE * MALLOC_PAGE"
    have room: "unat ?room = unat (malloc_end h) - (unat c + unat m)"
      using heap_gap [of c m "malloc_end h"] c1(3) by (simp add: h1_def algebra_simps)
    have eL: "unat (malloc_end h) + 0x1000 \<le> L" "L \<le> 2 ^ 31" using ok by (simp_all add: heap_ok_def)
    then have e31: "unat (malloc_end h) < 2 ^ 31" by simp
    have sr: "sint ?room = int (unat ?room)" using room e31 by (intro sint_small) simp
    have x: "0 \<le> x" "x \<le> int (unat ?room)" using sdiv_12288 [of "sint ?room"] unfolding x_def MALLOC_PAGE_def sr by simp_all
    have cx: "cint (- x)" using x room e31 by (simp add: cint_def)
    have sx: "sint (- word_of_int x :: u32) = - x" using sint_of_cint [OF cx] by simp
    let ?e = "malloc_end h - word_of_int x"
    have e: "int (unat ?e) = int (unat (malloc_end h)) - x"
    proof -
      have "unat ?room \<le> unat (malloc_end h)" "unat (malloc_end h) < 2147483648" using room e31 by simp_all
      then have "0 \<le> int (unat (malloc_end h)) - x" "int (unat (malloc_end h)) - x < 4294967296" using x by linarith+
      then show ?thesis using unat_move [of "malloc_end h" "- word_of_int x"] by (simp add: sx)
    qed
    define h' where "h' = h1\<lparr>break_at := push_bit 12 (drop_bit 12 (?e - 1) + 1), fakeedata := ?e, malloc_end := ?e\<rparr>"
    have fk: "fakeedata h = malloc_end h" "malloc_end h \<noteq> 0" using ok cb(2,3,4) by (auto simp: heap_ok_def unat_eq_0)
    have eb: "unat c + unat m \<le> unat ?e" "unat ?e < 2 ^ 31"
    proof -
      have "unat c + unat m \<le> unat (malloc_end h)" "unat (malloc_end h) < 2147483648" using c1(3) e31 by (simp_all add: h1_def)
      then have "unat c + unat m \<le> unat ?e" "unat ?e < 2147483648" using e x room by linarith+
      then show "unat c + unat m \<le> unat ?e" "unat ?e < 2 ^ 31" by simp_all
    qed
    have eL': "unat ?e + 0x1000 \<le> L" using e x eL by linarith
    have "0 < unat ?e" using eb o(3) by linarith
    note gx = break_granted [OF gr this eL'] and cov = break_covers(1) [OF this eb(2)]
    have "free_search K h b c b = Some (0, h')"
      using b0(1) c1(1) True fk gx by (subst free_search.simps) (auto simp: h1_def h'_def Let_def sbrk_simps x_def)
    moreover have "heap_ok L h' (pre' @ (c, m) # post)"
    proof -
      have "chain h' (malloc_head h) (pre' @ (c, m) # post)" using ch chain_same [of h' h1] by (simp add: h'_def)
      moreover have "in_order (unat (malloc_begin h)) (pre' @ (c, m) # post) (unat ?e)"
        unfolding in_order_append using o eb(1) by (auto simp: post)
      ultimately show ?thesis using hd cov eL' ok by (simp add: heap_ok_def h'_def h1_def)
    qed
    ultimately show ?thesis using fr by (auto simp: pp)
  qed
qed

section \<open>Histories\<close>

text \<open>The heap a call works on, and the sizes for which the addresses stay below \<open>L\<close>.\<close>

definition opened :: "brk_kernel \<Rightarrow> heap \<Rightarrow> heap" where
  "opened K h = (if malloc_begin h = 0 then malloc_init K h else h)"

definition fits :: "brk_kernel \<Rightarrow> nat \<Rightarrow> heap \<Rightarrow> u32 \<Rightarrow> bool" where
  "fits K L h k \<longleftrightarrow> k \<noteq> 0 \<and> unat k + 16 < 2 ^ 30 \<and> unat (malloc_end (opened K h)) + unat k + 0x5000 \<le> L"

text \<open>Any program that gives back only what it holds; \<open>live\<close> are its blocks with the sizes it asked for.\<close>

inductive heap_run :: "brk_kernel \<Rightarrow> nat \<Rightarrow> heap \<Rightarrow> (u32 \<times> u32) list \<Rightarrow> bool" for K L where
  start: "malloc_begin h = 0 \<Longrightarrow> fakeedata h = 0 \<Longrightarrow> heap_run K L h []"
| alloc: "heap_run K L h live \<Longrightarrow> fits K L h k \<Longrightarrow> malloc K h k = Some (p, h') \<Longrightarrow> heap_run K L h' ((p, k) # live)"
| release: "heap_run K L h (xs @ (p, k) # ys) \<Longrightarrow> free K h p = Some (r, h') \<Longrightarrow> heap_run K L h' (xs @ ys)"

lemma malloc_opened: "k \<noteq> 0 \<Longrightarrow> malloc_begin (opened K h) \<noteq> 0 \<Longrightarrow> malloc K h k = malloc K (opened K h) k"
  by (simp add: malloc_def opened_def Let_def)

lemma opened_fresh:
  assumes h: "malloc_begin h = 0" "fakeedata h = 0" and gr: "granted K L"
    and e: "end_of_data K \<noteq> 0" "unat (end_of_data K) + 0x5000 \<le> L"
  shows "heap_ok L (opened K h) [(end_of_data K, 8)]"
proof -
  let ?e = "end_of_data K"
  have L: "L \<le> 2 ^ 31" using gr by (simp add: granted_def)
  have w: "unat (?e + 12288) = unat ?e + 12288" using unat_off [of ?e 12288] e(2) L by simp
  have lo: "0 < unat (?e + 12288)" "unat (?e + 12288) + 0x1000 \<le> L" "unat (?e + 12288) < 2 ^ 31" using w e(2) L by simp_all
  note gx = break_granted [OF gr lo(1,2)] and cov = break_covers(1) [OF lo(1,3)]
  have eq: "12288 + ?e = ?e + 12288" by (rule add.commute)
  show ?thesis using gx cov w h e L
    by (simp add: opened_def malloc_init_def sbrk_def brk_def Let_def heap_ok_def MALLOC_PAGE_def eq)
qed

text \<open>Every block of the program has a block of the heap; \<open>hd bs\<close> is the header that \<open>malloc\<close> starts with.\<close>

definition live_in :: "(u32 \<times> u32) list \<Rightarrow> (u32 \<times> u32) list \<Rightarrow> bool" where
  "live_in live bs \<longleftrightarrow> distinct (map fst live) \<and> (\<forall>(p, k) \<in> set live. \<exists>n. (p - 8, n) \<in> set (tl bs) \<and> unat k + 8 \<le> unat n)"

lemma live_block: "live_in live bs \<Longrightarrow> (p, k) \<in> set live \<Longrightarrow> \<exists>n. (p - 8, n) \<in> set (tl bs) \<and> unat k + 8 \<le> unat n"
  by (auto simp: live_in_def)

lemma live_in_remove:
  assumes "live_in (xs @ (p, k) # ys) (x # pre @ (p - 8, n) # post)"
  shows "live_in (xs @ ys) (x # pre @ post)"
proof -
  have d: "distinct (map fst (xs @ (p, k) # ys))"
    and l: "\<forall>(q, j) \<in> set (xs @ (p, k) # ys). \<exists>m. (q - 8, m) \<in> set (pre @ (p - 8, n) # post) \<and> unat j + 8 \<le> unat m"
    using assms by (simp_all add: live_in_def)
  have "\<exists>m. (q - 8, m) \<in> set (pre @ post) \<and> unat j + 8 \<le> unat m" if q: "(q, j) \<in> set (xs @ ys)" for q j
  proof -
    obtain m where m: "(q - 8, m) \<in> set (pre @ (p - 8, n) # post)" "unat j + 8 \<le> unat m" using l q by fastforce
    have "q \<noteq> p" using d q by force
    then have "q - 8 \<noteq> p - 8" by simp
    then show ?thesis using m by auto
  qed
  then show ?thesis using d by (auto simp: live_in_def)
qed

lemma heap_run_ok:
  assumes "heap_run K L h live" "granted K L" "end_of_data K \<noteq> 0" "unat (end_of_data K) + 0x5000 \<le> L"
  shows "\<exists>bs. heap_ok L (opened K h) bs \<and> live_in live bs \<and> fst (hd bs) = end_of_data K \<and> (live = [] \<or> malloc_begin h \<noteq> 0)"
  using assms(1)
proof (induction rule: heap_run.induct)
  case (start h)
  then show ?case using opened_fresh [OF start assms(2,3,4)] by (auto simp: live_in_def)
next
  case (alloc h live k p h')
  let ?h = "opened K h"
  obtain bs where bs: "heap_ok L ?h bs" "live_in live bs" "fst (hd bs) = end_of_data K" using alloc.IH by blast
  have k: "k \<noteq> 0" "unat k + 16 < 2 ^ 30" "unat (malloc_end ?h) + unat k + 0x5000 \<le> L" using alloc.hyps(2) by (simp_all add: fits_def)
  have op: "malloc_begin ?h \<noteq> 0" using bs(1) by (simp add: heap_ok_def)
  obtain q g pre n post where m: "malloc K ?h k = Some (q, g)" "bs = pre @ post" "pre \<noteq> []" "heap_ok L g (pre @ (q - 8, n) # post)" "unat k + 8 \<le> unat n"
    using malloc_block [OF bs(1) k assms(2)] by blast
  have e: "q = p" "g = h'" using m(1) alloc.hyps(3) malloc_opened [OF k(1) op] by simp_all
  have hp: "heap_ok L h' (pre @ (p - 8, n) # post)" using m(4) e by simp
  have "p - 8 \<notin> fst ` set (tl bs)" using heap_block(5) [OF hp] m(2,3) by (cases pre) auto
  then have "p \<notin> fst ` set live" using bs(2) by (force simp: live_in_def)
  moreover have "opened K h' = h'" "malloc_begin h' \<noteq> 0" using hp by (simp_all add: opened_def heap_ok_def)
  ultimately show ?case using hp bs(2,3) m(2,3,5)
    by (intro exI [of _ "pre @ (p - 8, n) # post"]) (cases pre; auto simp: live_in_def)
next
  case (release h xs p k ys r h')
  obtain bs where bs: "heap_ok L (opened K h) bs" "live_in (xs @ (p, k) # ys) bs" "malloc_begin h \<noteq> 0" "fst (hd bs) = end_of_data K" using release.IH by blast
  obtain n where n: "(p - 8, n) \<in> set (tl bs)" using bs(2) by (auto simp: live_in_def)
  obtain x bs' where x: "bs = x # bs'" using n by (cases bs) auto
  obtain pre post where sp: "bs' = pre @ (p - 8, n) # post" using n split_list [of "(p - 8, n)" bs'] by (auto simp: x)
  have "opened K h = h" using bs(3) by (simp add: opened_def)
  then have hp: "heap_ok L h ((x # pre) @ (p - 8, n) # post)" using bs(1) x sp by simp
  obtain h2 where f: "free K h (p - 8 + 8) = Some (0, h2)" "heap_ok L h2 ((x # pre) @ post)"
    using free_block [OF hp _ assms(2)] by auto
  have h2: "h2 = h'" using f(1) release.hyps(2) by simp
  have "opened K h' = h'" using f(2) h2 by (simp add: opened_def heap_ok_def)
  moreover have "live_in (xs @ ys) ((x # pre) @ post)"
    using live_in_remove bs(2) unfolding x sp by simp
  moreover have "malloc_begin h' \<noteq> 0" using f(2) h2 by (simp add: heap_ok_def)
  ultimately show ?case using f(2) h2 bs(4) x by (intro exI [of _ "(x # pre) @ post"]) simp
qed

lemma in_order_apart:
  "in_order lo bs e \<Longrightarrow> (b, n) \<in> set bs \<Longrightarrow> (c, k) \<in> set bs \<Longrightarrow> b \<noteq> c \<Longrightarrow> unat b + unat n \<le> unat c \<or> unat c + unat k \<le> unat b"
proof (induction lo bs e rule: in_order.induct)
  case (2 lo d j bs e)
  then show ?case using in_order_inside [of "unat d + unat j" bs e] by fastforce
qed simp

text \<open>
  C28. The heap of the C library, for every program that gives back only blocks it holds, as long as the kernel
  grants every end of the data up to \<open>L\<close>, at most \<open>2 ^ 31\<close>, and the requests fit below
  \<open>L\<close> (\<open>fits\<close>: a size from 1 to below \<open>2 ^ 30 - 16\<close>, and the end of the heap, the size and 20 KB for
  the rounding are at most \<open>L\<close>): the blocks it holds, each with the size asked for, are pairwise disjoint
  and lie between the first address behind the data and the end of the data that the kernel has set;
  a request returns with a block, and giving back any block that is held returns 0. Without the grant the
  block lies behind the end of the data, see \<open>refused_block_outside\<close>.
\<close>

theorem heap_blocks_disjoint:
  assumes "heap_run K L h live" "granted K L" "end_of_data K \<noteq> 0" "unat (end_of_data K) + 0x5000 \<le> L"
  shows "(\<forall>(p, k) \<in> set live. \<forall>(q, j) \<in> set live. (p, k) = (q, j) \<or> unat p + unat k \<le> unat q \<or> unat q + unat j \<le> unat p) \<and>
    (\<forall>(p, k) \<in> set live. unat (end_of_data K) \<le> unat p \<and> unat p + unat k \<le> unat (break_at h) \<and> (\<exists>h'. free K h p = Some (0, h'))) \<and>
    (\<forall>k. fits K L h k \<longrightarrow> malloc K h k \<noteq> None)"
proof -
  obtain bs where bs: "heap_ok L (opened K h) bs" "live_in live bs" "fst (hd bs) = end_of_data K" "live = [] \<or> malloc_begin h \<noteq> 0"
    using heap_run_ok [OF assms] by blast
  have e: "unat (malloc_end (opened K h)) < 2 ^ 31" and br: "unat (malloc_end (opened K h)) \<le> unat (break_at (opened K h))"
    and beg: "malloc_begin (opened K h) \<noteq> 0" "hd bs = (malloc_begin (opened K h), 8)"
    and o': "in_order (unat (malloc_begin (opened K h))) bs (unat (malloc_end (opened K h)))"
    using bs(1) by (auto simp: heap_ok_def)
  have "malloc_begin (opened K h) = end_of_data K" using bs(3) beg(2) by simp
  with o' have o: "in_order (unat (end_of_data K)) bs (unat (malloc_end (opened K h)))" by simp
  have block: "\<exists>n. (p - 8, n) \<in> set bs \<and> unat p = unat (p - 8) + 8 \<and> unat p + unat k \<le> unat (p - 8) + unat n \<and> (p - 8, n) \<in> set (tl bs)"
    if m: "(p, k) \<in> set live" for p k
  proof -
    obtain n where n: "(p - 8, n) \<in> set (tl bs)" "unat k + 8 \<le> unat n" using live_block [OF bs(2) m] by blast
    have n': "(p - 8, n) \<in> set bs" using n(1) by (cases bs) auto
    have "unat (p - 8 + of_nat 8) = unat (p - 8) + 8" using in_order_inside [OF o n'] e by (intro unat_off) simp
    then have u: "unat p = unat (p - 8) + 8" by simp
    show ?thesis using n n' u by (intro exI [of _ n]) simp
  qed
  have "(p, k) = (q, j) \<or> unat p + unat k \<le> unat q \<or> unat q + unat j \<le> unat p" if pq: "(p, k) \<in> set live" "(q, j) \<in> set live" for p k q j
  proof (cases "p = q")
    case True
    then show ?thesis using pq bs(2) by (auto simp: live_in_def dest: eq_key_imp_eq_value)
  next
    case False
    obtain n m where nm: "(p - 8, n) \<in> set bs" "unat p = unat (p - 8) + 8" "unat p + unat k \<le> unat (p - 8) + unat n"
      "(q - 8, m) \<in> set bs" "unat q = unat (q - 8) + 8" "unat q + unat j \<le> unat (q - 8) + unat m" using block [OF pq(1)] block [OF pq(2)] by blast
    have "p - 8 \<noteq> q - 8" using False by simp
    from in_order_apart [OF o nm(1,4) this] show ?thesis using nm(2,3,5,6) by linarith
  qed
  then have "\<forall>(p, k) \<in> set live. \<forall>(q, j) \<in> set live. (p, k) = (q, j) \<or> unat p + unat k \<le> unat q \<or> unat q + unat j \<le> unat p" by blast
  moreover have "unat (end_of_data K) \<le> unat p \<and> unat p + unat k \<le> unat (break_at h) \<and> (\<exists>h'. free K h p = Some (0, h'))" if pk: "(p, k) \<in> set live" for p k
  proof -
    obtain n where n: "(p - 8, n) \<in> set bs" "unat p = unat (p - 8) + 8" "unat p + unat k \<le> unat (p - 8) + unat n" "(p - 8, n) \<in> set (tl bs)"
      using block [OF pk] by blast
    have h: "opened K h = h" using bs(4) pk by (auto simp: opened_def)
    obtain pre post where tl: "tl bs = pre @ (p - 8, n) # post" using split_list [OF n(4)] by blast
    have "bs \<noteq> []" using bs(1) by (simp add: heap_ok_def)
    then have "bs = (hd bs # pre) @ (p - 8, n) # post" using tl by (cases bs) simp_all
    then have "heap_ok L h ((hd bs # pre) @ (p - 8, n) # post)" using bs(1) h by simp
    then obtain h' where "free K h (p - 8 + 8) = Some (0, h')" using free_block [OF _ _ assms(2), of h "hd bs # pre"] by blast
    then have "free K h p = Some (0, h')" by simp
    moreover have "unat (end_of_data K) \<le> unat p" "unat p + unat k \<le> unat (break_at h)" using in_order_inside [OF o n(1)] n(2,3) br h by simp_all
    ultimately show ?thesis by blast
  qed
  then have "\<forall>(p, k) \<in> set live. unat (end_of_data K) \<le> unat p \<and> unat p + unat k \<le> unat (break_at h) \<and> (\<exists>h'. free K h p = Some (0, h'))" by blast
  moreover have "malloc K h k \<noteq> None" if "fits K L h k" for k
    using malloc_block [OF bs(1) _ _ _ assms(2), of k] that malloc_opened [OF _ beg(1)] by (auto simp: fits_def)
  ultimately show ?thesis by blast
qed

definition demo_kernel :: brk_kernel where
  "demo_kernel = \<lparr>end_of_data = 0x404000, grants = (\<lambda>v. v \<le> 0x800000)\<rparr>"

definition fresh_heap :: heap where
  "fresh_heap = \<lparr>malloc_begin = 0, malloc_end = 0, malloc_head = 0, fl_size = (\<lambda>a. 0), fl_nlink = (\<lambda>a. 0), fakeedata = 0, break_at = 0, printed = []\<rparr>"

lemma heap_blocks_disjoint_witness:
  "\<exists>h p q. heap_run demo_kernel 0x800000 h [(q, 5), (p, 100)] \<and> (unat p + 100 \<le> unat q \<or> unat q + 5 \<le> unat p)"
proof -
  let ?h = fresh_heap
  have r0: "heap_run demo_kernel 0x800000 ?h []" by (rule heap_run.start) (simp_all add: fresh_heap_def)
  have e: "granted demo_kernel 0x800000" "end_of_data demo_kernel \<noteq> 0" "unat (end_of_data demo_kernel) + 0x5000 \<le> 0x800000"
    by (simp_all add: granted_def demo_kernel_def word_le_nat_alt)
  have f0: "fits demo_kernel 0x800000 ?h 100" by (simp add: fits_def opened_def malloc_init_def sbrk_def brk_def demo_kernel_def fresh_heap_def Let_def MALLOC_PAGE_def)
  obtain h1 where m1: "malloc demo_kernel ?h 100 = Some (0x404010, h1)" and h1: "malloc_begin h1 = 0x404000" "malloc_end h1 = 0x407000"
    by (simp add: malloc_def malloc_init_def sbrk_def brk_def demo_kernel_def fresh_heap_def Let_def MALLOC_PAGE_def malloc_search.simps block_size_def page_round_def signed_divide_int_def)
  have r1: "heap_run demo_kernel 0x800000 h1 [(0x404010, 100)]" by (rule heap_run.alloc [OF r0 f0 m1])
  have f1: "fits demo_kernel 0x800000 h1 5" by (simp add: fits_def opened_def h1)
  obtain q h2 where m2: "malloc demo_kernel h1 5 = Some (q, h2)" using heap_blocks_disjoint [OF r1 e] f1 by auto
  have r2: "heap_run demo_kernel 0x800000 h2 [(q, 5), (0x404010, 100)]" by (rule heap_run.alloc [OF r1 f1 m2])
  from heap_blocks_disjoint [OF r2 e] have "(q, 5 :: u32) = (0x404010, 100) \<or> unat q + unat (5 :: u32) \<le> unat (0x404010 :: u32) \<or> unat (0x404010 :: u32) + unat (100 :: u32) \<le> unat q"
    by auto
  then have "unat (0x404010 :: u32) + 100 \<le> unat q \<or> unat q + 5 \<le> unat (0x404010 :: u32)" by auto
  then show ?thesis using r2 by blast
qed

text \<open>
  When the kernel refuses, \<open>malloc\<close> does not notice: the block of 5000000 bytes that it returns ends behind
  the end of the data, which stays where the first call of \<open>sbrk\<close> has set it.
\<close>

lemma refused_block_outside:
  "\<exists>h. malloc demo_kernel fresh_heap 5000000 = Some (0x404010, h) \<and> break_at h = 0x407000"
  by (simp add: malloc_def malloc_init_def sbrk_def brk_def demo_kernel_def fresh_heap_def Let_def MALLOC_PAGE_def
      malloc_search.simps block_size_def page_round_def signed_divide_int_def)

end
