(* ===== verification/ExecFile.thy ===== *)
theory ExecFile
  imports Lifecycle
begin

text \<open>
  \<open>Exec\<close>: the program file is read by \<open>pe/PEParser.cpp\<close>, the arguments are saved from the old image and
  put on the stack of the new one by \<open>ProcessManager::Exec\<close> (\<open>proc/ProcessManager.cpp\<close>).
\<close>

section \<open>User pages and physical memory\<close>

text \<open>
  The linear memory of the running process read from the physical pages that the page tables name, and
  the physical memory after the process has written its linear memory.
\<close>

definition user_memory :: "pte list \<Rightarrow> (u32 \<Rightarrow> u8) \<Rightarrow> int \<Rightarrow> u8" where
  "user_memory tab pm a =
     (if a < 0 then 0
      else case page_at tab (nat (a div 0x1000)) of
             None \<Rightarrow> 0
           | Some (pg, _) \<Rightarrow> pm (of_nat pg * 0x1000 + word_of_int (a mod 0x1000)))"

definition store_memory :: "pte list \<Rightarrow> (int \<Rightarrow> u8) \<Rightarrow> (u32 \<Rightarrow> u8) \<Rightarrow> u32 \<Rightarrow> u8" where
  "store_memory tab m pm a =
     (case scan (\<lambda>e. m_Present e \<and> m_PageBaseAddress e = ucast (drop_bit 12 a)) tab of
        None \<Rightarrow> pm a
      | Some p \<Rightarrow> m (int p * 0x1000 + uint (a AND 0xFFF)))"

text \<open>All pages of a range are mapped; the kernel stops on a fault of its own.\<close>

definition user_range :: "pte list \<Rightarrow> u32 \<Rightarrow> nat \<Rightarrow> bool" where
  "user_range tab b n \<longleftrightarrow>
     list_all (\<lambda>p. page_at tab p \<noteq> None) [unat b div 0x1000 ..< (unat b + n + 0xFFF) div 0x1000]"

section \<open>The header of a program file\<close>

text \<open>
  \<open>ntHeader\<close> and \<open>sectionHeaders\<close> are kept as the bytes of the file, read at the offsets of the structures
  \<open>ImageNTHeader\<close> and \<open>ImageSectionHeader\<close>; \<open>sectionPages\<close> are the two kernel pages that hold the second.
\<close>

record pe_parser =
  EntryPointAddress :: u32
  TextAddress :: u32
  TextSize :: u32
  DataAddress :: u32
  DataSize :: u32
  StackSize :: u32
  HeapSize :: u32
  ntHeader :: "u8 list"
  sectionHeaders :: "u8 list"
  sectionPages :: u32

definition ntHeader_size :: nat where "ntHeader_size = 0xF8"
definition section_size :: nat where "section_size = 0x28"
definition BSS_SECTION_IDX :: nat where "BSS_SECTION_IDX = 3"
definition IDATA_SECTION_IDX :: nat where "IDATA_SECTION_IDX = 4"

definition field16 :: "u8 list \<Rightarrow> nat \<Rightarrow> u32" where
  "field16 bs k = dword (bs ! k) (bs ! (k + 1)) 0 0"

definition field32 :: "u8 list \<Rightarrow> nat \<Rightarrow> u32" where
  "field32 bs k = dword (bs ! k) (bs ! (k + 1)) (bs ! (k + 2)) (bs ! (k + 3))"

definition NumberOfSections :: "u8 list \<Rightarrow> u32" where "NumberOfSections h = field16 h 6"
definition AddressOfEntryPoint :: "u8 list \<Rightarrow> u32" where "AddressOfEntryPoint h = field32 h 40"
definition BaseOfCode :: "u8 list \<Rightarrow> u32" where "BaseOfCode h = field32 h 44"
definition BaseOfData :: "u8 list \<Rightarrow> u32" where "BaseOfData h = field32 h 48"
definition ImageBase :: "u8 list \<Rightarrow> u32" where "ImageBase h = field32 h 52"
definition SizeOfStackCommit :: "u8 list \<Rightarrow> u32" where "SizeOfStackCommit h = field32 h 100"
definition SizeOfHeapCommit :: "u8 list \<Rightarrow> u32" where "SizeOfHeapCommit h = field32 h 108"

definition VirtualSize :: "u8 list \<Rightarrow> nat \<Rightarrow> u32" where "VirtualSize h k = field32 h (section_size * k + 8)"
definition VirtualAddress :: "u8 list \<Rightarrow> nat \<Rightarrow> u32" where "VirtualAddress h k = field32 h (section_size * k + 12)"
definition PointerToRawData :: "u8 list \<Rightarrow> nat \<Rightarrow> u32" where "PointerToRawData h k = field32 h (section_size * k + 20)"

text \<open>
  \<open>ReadI\<close> into a variable of the kernel that holds the bytes \<open>old\<close>; a transfer past its end is a fault.
\<close>

definition read_kernel :: "('a nm_scheme) device \<Rightarrow> nat \<Rightarrow> u8 list \<Rightarrow> int \<Rightarrow> int \<Rightarrow> 'a nm_scheme \<Rightarrow>
    (u8 list \<times> 'a nm_scheme) kcall" where
  "read_kernel cd i old off n s =
     (let mem = umem s
      in kbind (ReadI cd (m_Inode s ! i) \<lparr>m_Base = 0, m_Offset = off, m_Count = n\<rparr> (s\<lparr>umem := store_bytes mem 0 old\<rparr>))
           (\<lambda>(ip, io, s).
              if m_Base io > int (length old) then Fault
              else Done (load_bytes (umem s) 0 (length old), set_ip i ip (s\<lparr>umem := mem, u_IOParam := io\<rparr>))))"

text \<open>What the variables of the kernel held before; the headers are local variables and fresh pages.\<close>

record exec_junk =
  j_dos :: "u8 list"
  j_nt :: "u8 list"
  j_sections :: "u8 list"
  j_stack :: "int \<Rightarrow> u8"

definition HeaderLoad :: "('a km_scheme) device \<Rightarrow> exec_junk \<Rightarrow> nat \<Rightarrow> 'a km_scheme \<Rightarrow>
    (pe_parser option \<times> 'a km_scheme) kcall" where
  "HeaderLoad cd j i s =
     kbind (read_kernel cd i (j_dos j) 0 0x40 s) (\<lambda>(dos, s).
     let e_lfanew = field32 dos 60
     in kbind (read_kernel cd i (j_nt j) (sint e_lfanew) (int ntHeader_size) s) (\<lambda>(nt, s).
        if field32 nt 0 \<noteq> 0x4550 then Done (None, s)
        else case AllocMemory (kernelPages s) (PAGE_SIZE * 2) of
               None \<Rightarrow> Fault
             | Some (a, p) \<Rightarrow>
                 if a = 0 then Fault
                 else kbind (read_kernel cd i (j_sections j) (sint (e_lfanew + of_nat ntHeader_size))
                               (int section_size * uint (NumberOfSections nt)) (s\<lparr>kernelPages := p\<rparr>)) (\<lambda>(sec, s).
                   Done (Some \<lparr>EntryPointAddress = AddressOfEntryPoint nt + ImageBase nt,
                     TextAddress = BaseOfCode nt + ImageBase nt, TextSize = BaseOfData nt - BaseOfCode nt,
                     DataAddress = BaseOfData nt + ImageBase nt,
                     DataSize = VirtualAddress sec IDATA_SECTION_IDX - BaseOfData nt, StackSize = SizeOfStackCommit nt,
                     HeapSize = SizeOfHeapCommit nt, ntHeader = nt, sectionHeaders = sec, sectionPages = a\<rparr>, s))))"

section \<open>Loading the sections\<close>

definition set_writable :: "bool \<Rightarrow> nat \<Rightarrow> nat \<Rightarrow> 'a km_scheme \<Rightarrow> 'a km_scheme kcall" where
  "set_writable rw lo n s =
     (if lo + n \<le> length (userTables s)
      then Done (s\<lparr>userTables := map (\<lambda>k. if lo \<le> k \<and> k < lo + n then (userTables s ! k)\<lparr>m_ReadWriter := rw\<rparr>
                                         else userTables s ! k) [0..<length (userTables s)]\<rparr>)
      else Fault)"

definition section_start :: "pe_parser \<Rightarrow> nat \<Rightarrow> u32" where
  "section_start p k = VirtualAddress (sectionHeaders p) k + ImageBase (ntHeader p)"

definition section_room :: "pe_parser \<Rightarrow> nat \<Rightarrow> int" where
  "section_room p k = sint (push_bit 12 (drop_bit 12 (VirtualSize (sectionHeaders p) k + PAGE_SIZE - 1)) :: u32)"

fun zero_sections :: "pe_parser \<Rightarrow> nat list \<Rightarrow> 'a km_scheme \<Rightarrow> 'a km_scheme kcall" where
  "zero_sections p [] s = Done s"
| "zero_sections p (k # ks) s =
     (let b = section_start p k; n = nat (section_room p k)
      in if user_range (userTables s) b n
         then zero_sections p ks (s\<lparr>umem := store_bytes (umem s) (uint b) (replicate n 0)\<rparr>)
         else Fault)"

fun read_sections :: "('a km_scheme) device \<Rightarrow> pe_parser \<Rightarrow> nat \<Rightarrow> nat list \<Rightarrow> 'a km_scheme \<Rightarrow> 'a km_scheme kcall" where
  "read_sections cd p i [] s = Done s"
| "read_sections cd p i (k # ks) s =
     (let b = section_start p k; n = sint (VirtualSize (sectionHeaders p) k)
      in if user_range (userTables s) b (nat n)
         then kbind (ReadI cd (m_Inode s ! i)
                \<lparr>m_Base = uint b, m_Offset = sint (PointerToRawData (sectionHeaders p) k), m_Count = n\<rparr> s)
                (\<lambda>(ip, io, s). read_sections cd p i ks (set_ip i ip (s\<lparr>u_IOParam := io\<rparr>)))
         else Fault)"

text \<open>\<open>Relocate\<close>; the pages of the text are made writable from \<open>textBegin\<close> on, and read-only from page 0 on.\<close>

definition Relocate :: "('a km_scheme) device \<Rightarrow> pe_parser \<Rightarrow> nat \<Rightarrow> bool \<Rightarrow> 'a km_scheme \<Rightarrow> 'a km_scheme kcall" where
  "Relocate cd p i sharedText s =
     (let textBegin = unat (drop_bit 12 (TextAddress p)); textLength = unat (drop_bit 12 (TextSize p));
          first = (if sharedText then 1 else 0)
      in kbind (if sharedText then Done s else set_writable True textBegin textLength s) (\<lambda>s.
         kbind (zero_sections p [first ..< BSS_SECTION_IDX + 1] s) (\<lambda>s.
         kbind (read_sections cd p i [first ..< BSS_SECTION_IDX] s) (\<lambda>s.
         kbind (if sharedText then Done s else set_writable False 0 textLength s) (\<lambda>s.
         case FreeMemory (kernelPages s) (PAGE_SIZE * 2) (sectionPages p) of
           None \<Rightarrow> Fault
         | Some q \<Rightarrow> Done (s\<lparr>kernelPages := q\<rparr>))))))"

section \<open>The arguments\<close>

text \<open>
  A string of the user program, up to \<open>n\<close> characters and without its end mark; \<open>None\<close> when it has none.
\<close>

function arg_string :: "nat \<Rightarrow> (int \<Rightarrow> u8) \<Rightarrow> int \<Rightarrow> u8 list option" where
  "arg_string n m a =
     (if n = 0 then None else if m a = 0 then Some []
      else case arg_string (n - 1) m (a + 1) of None \<Rightarrow> None | Some cs \<Rightarrow> Some (m a # cs))"
  by pat_completeness auto
termination by (relation "measure (\<lambda>(n, _, _). n)") auto

declare arg_string.simps [simp del]

definition user_string :: "(int \<Rightarrow> u8) \<Rightarrow> int \<Rightarrow> u8 list option" where
  "user_string m a = arg_string (nat (uint USER_SPACE_SIZE - a)) m a"

definition load_word :: "(int \<Rightarrow> u8) \<Rightarrow> int \<Rightarrow> u32" where
  "load_word m a = dword (m a) (m (a + 1)) (m (a + 2)) (m (a + 3))"

definition store_word :: "(int \<Rightarrow> u8) \<Rightarrow> int \<Rightarrow> u32 \<Rightarrow> int \<Rightarrow> u8" where
  "store_word m a w = store_bytes m a (undwords [w])"

text \<open>
  The loop over the strings: \<open>k\<close> is the kernel buffer with the stack in the making, \<open>lo\<close> its start, \<open>m\<close> the
  memory of the program, whose \<open>argv\<close> array gets the addresses the strings will have.
\<close>

fun copy_strings :: "nat \<Rightarrow> int \<Rightarrow> u32 \<Rightarrow> u32 \<Rightarrow> u32 \<Rightarrow> (int \<Rightarrow> u8) \<Rightarrow> (int \<Rightarrow> u8) \<Rightarrow>
    (u32 \<times> u32 \<times> (int \<Rightarrow> u8) \<times> (int \<Rightarrow> u8)) kcall" where
  "copy_strings 0 argv lo des esp k m = Done (des, esp, k, m)"
| "copy_strings (Suc n) argv lo des esp k m =
     (case user_string m (uint (load_word m argv)) of
        None \<Rightarrow> Fault
      | Some cs \<Rightarrow>
          let bs = cs @ [0]; d = des - of_nat (length bs); e = esp - of_nat (length bs)
          in if unat lo + length bs \<le> unat des
             then copy_strings n (argv + 4) lo d e (store_bytes k (uint d) bs) (store_word m argv e)
             else Fault)"

definition exec_stack :: "int \<Rightarrow> int \<Rightarrow> u32 \<Rightarrow> u32 \<Rightarrow> (int \<Rightarrow> u8) \<Rightarrow> (int \<Rightarrow> u8) \<Rightarrow>
    (u32 \<times> (int \<Rightarrow> u8) \<times> (int \<Rightarrow> u8)) kcall" where
  "exec_stack argc argv lo des k m =
     (if argc < 0 then Fault
      else kbind (copy_strings (nat argc) argv lo des USER_SPACE_SIZE k m) (\<lambda>(des, esp, k, m).
        let des = des AND 0xFFFFFFF0; esp = esp AND 0xFFFFFFF0; n = 4 * nat argc
        in if unat des < unat lo + (n + 12) then Fault
           else
             let des = des - 4; esp = esp - 4; k = store_word k (uint des) 0;
                 des = des - of_nat n; esp = esp - of_nat n; k = store_bytes k (uint des) (load_bytes m argv n);
                 endValue = esp; des = des - 4; esp = esp - 4; k = store_word k (uint des) endValue;
                 des = des - 4; esp = esp - 4; k = store_word k (uint des) (word_of_int argc)
             in Done (esp, k, m)))"

section \<open>Exec\<close>

definition NEXEC :: int where "NEXEC = 10"

text \<open>What \<open>Exec\<close> keeps while it waits to be brought in again, and how a part of it ends.\<close>

record exec_locals =
  ex_inode :: nat
  ex_parser :: pe_parser
  ex_fakeStack :: u32
  ex_allocLength :: u32
  ex_esp :: u32
  ex_stack :: "int \<Rightarrow> u8"
  ex_sharedText :: bool

datatype exec_end = Exec_over | Exec_sleeps nat | Exec_swapped exec_locals

definition Exec_count_down :: "'a km_scheme \<Rightarrow> 'a km_scheme" where
  "Exec_count_down s =
     (let s = (if ExeCnt s \<ge> NEXEC then WakeUpAll AtExeCnt s else s) in s\<lparr>ExeCnt := ExeCnt s - 1\<rparr>)"

definition set_segments :: "pe_parser \<Rightarrow> 'a km_scheme \<Rightarrow> 'a km_scheme" where
  "set_segments p s =
     s\<lparr>u_md := (u_md s)\<lparr>m_TextStartAddress := TextAddress p, m_TextSize := TextSize p, m_DataStartAddress := DataAddress p,
        m_DataSize := DataSize p, m_StackSize := StackSize p\<rparr>\<rparr>"

definition exec_alloc :: "pe_parser \<Rightarrow> u32" where
  "exec_alloc p = push_bit 13 (drop_bit 13 (StackSize p + PAGE_SIZE * 2 - 1))"

text \<open>The last \<open>StackSize\<close> bytes of the buffer become the stack of the program.\<close>

definition place_stack :: "u32 \<Rightarrow> u32 \<Rightarrow> u32 \<Rightarrow> (int \<Rightarrow> u8) \<Rightarrow> (int \<Rightarrow> u8) \<Rightarrow> int \<Rightarrow> u8" where
  "place_stack fake n sz k m =
     store_bytes m (uint (USER_SPACE_SIZE - sz)) (load_bytes k (uint ((fake + n - sz) OR 0xC0000000)) (unat sz))"

text \<open>The end: the new address map, the sections, the stack, the registers.\<close>

definition Exec_finish :: "('a km_scheme) device \<Rightarrow> (int \<Rightarrow> u8 list) \<Rightarrow> u8 list \<Rightarrow> exec_locals \<Rightarrow> 'a km_scheme \<Rightarrow> 'a km_scheme kcall" where
  "Exec_finish cd stale runtime l s =
     (let p = ex_parser l; i = ex_inode l; sz = StackSize p
      in kbind (EstablishUserPageTable (TextAddress p) (TextSize p) (DataAddress p) (DataSize p) sz s) (\<lambda>(_, s).
         kbind (Relocate cd p i (ex_sharedText l) (s\<lparr>umem := user_memory (userTables s) (pmem s)\<rparr>)) (\<lambda>s.
         let s = s\<lparr>pmem := store_memory (userTables s) (umem s) (pmem s)\<rparr>;
             s = (if ex_sharedText l then s
                  else case p_textp (process s ! u_procp s) of
                         None \<Rightarrow> s
                       | Some t \<Rightarrow>
                           let x = texts s ! t; q = process s ! u_procp s;
                               s = snd (Swap_write (x_daddr x) (x_caddr x) (x_size x) s)
                           in set_proc (u_procp s) (q\<lparr>p_flag := clear_flag (p_flag q) SLOCK\<rparr>) s)
         in if \<not> user_range (userTables s) (USER_SPACE_SIZE - sz) (unat sz) then Fault
            else
              let m = place_stack (ex_fakeStack l) (ex_allocLength l) sz (ex_stack l) (umem s)
              in case FreeMemory (kernelPages s) (ex_allocLength l) (ex_fakeStack l) of
                   None \<Rightarrow> Fault
                 | Some q \<Rightarrow>
                     let m = store_bytes m 0 runtime;
                         s = s\<lparr>kernelPages := q, umem := m, pmem := store_memory (userTables s) m (pmem s)\<rparr>
                     in kbind (IPut stale i s) (\<lambda>s.
                        let s = Exec_count_down s
                        in Done (s\<lparr>u_signal := replicate (nat NSIG) 0, u_eax := uint (EntryPointAddress p),
                                   u_eip := 0, u_esp := ex_esp l\<rparr>)))))"

text \<open>
  From the test of the rights on; \<open>Exec_enter\<close> is the loop in front of it, once for every wake-up.  The error paths behind \<open>HeaderLoad\<close> do not count \<open>ExeCnt\<close> down, and the
  second of them has already overwritten the sizes of the segments.
\<close>

definition Exec_load :: "('a km_scheme) device \<Rightarrow> (int \<Rightarrow> u8 list) \<Rightarrow> exec_junk \<Rightarrow> u8 list \<Rightarrow> int \<Rightarrow> int \<Rightarrow> nat \<Rightarrow>
    'a km_scheme \<Rightarrow> (exec_end \<times> 'a km_scheme) kcall" where
  "Exec_load cd stale j runtime argc argv i s =
     (let s = s\<lparr>ExeCnt := ExeCnt s + 1\<rparr>
      in kbind (Access (m_Inode s ! i) IEXEC s) (\<lambda>(denied, s).
         if denied \<or> i_mode (m_Inode s ! i) AND IFMT \<noteq> 0
         then kbind (IPut stale i s) (\<lambda>s. Done (Exec_over, Exec_count_down s))
         else kbind (HeaderLoad cd j i s) (\<lambda>(r, s).
         case r of
           None \<Rightarrow> kbind (IPut stale i s) (\<lambda>s. Done (Exec_over, s))
         | Some p \<Rightarrow>
             let s = set_segments p s; n = exec_alloc p
             in if TextSize p + DataSize p + StackSize p + PAGE_SIZE > USER_SPACE_SIZE - TextAddress p
                then kbind (IPut stale i s) (\<lambda>s. Done (Exec_over, s\<lparr>u_error := ENOMEM\<rparr>))
                else case AllocMemory (kernelPages s) n of
                       None \<Rightarrow> Fault
                     | Some (fake, q) \<Rightarrow>
                         if fake = 0 then Fault
                         else kbind (exec_stack argc argv (fake + 0xC0000000) (fake + n + 0xC0000000) (j_stack j) (umem s))
                         (\<lambda>(esp, k, m).
                         let s = s\<lparr>kernelPages := q, umem := m\<rparr>; me = u_procp s
                         in kbind (case p_textp (process s ! me) of
                                     None \<Rightarrow> Done s
                                   | Some t \<Rightarrow> kbind (XFree stale t s) (\<lambda>s.
                                       Done (set_proc me ((process s ! me)\<lparr>p_textp := None\<rparr>) s))) (\<lambda>s.
                            kbind (Expand USIZE s) (\<lambda>(_, s).
                            kbind (attach_text i s) (\<lambda>(shared, s).
                            let l = \<lparr>ex_inode = i, ex_parser = p, ex_fakeStack = fake, ex_allocLength = n, ex_esp = esp,
                                     ex_stack = k, ex_sharedText = shared\<rparr>
                            in kbind (Expand (USIZE + m_DataSize (u_md s) + m_StackSize (u_md s)) s) (\<lambda>(here, s).
                               if here then kbind (Exec_finish cd stale runtime l s) (\<lambda>s. Done (Exec_over, s))
                               else Done (Exec_swapped l, s)))))))))"

definition Exec_enter :: "('a km_scheme) device \<Rightarrow> (int \<Rightarrow> u8 list) \<Rightarrow> exec_junk \<Rightarrow> u8 list \<Rightarrow> int \<Rightarrow> int \<Rightarrow> nat \<Rightarrow>
    'a km_scheme \<Rightarrow> (exec_end \<times> 'a km_scheme) kcall" where
  "Exec_enter cd stale j runtime argc argv i s =
     (if ExeCnt s \<ge> NEXEC
      then kbind (Sleep (u_procp s) AtExeCnt EXPRI s) (\<lambda>(_, s). Done (Exec_sleeps i, s))
      else Exec_load cd stale j runtime argc argv i s)"

definition Exec :: "('a km_scheme) device \<Rightarrow> (int \<Rightarrow> u8 list) \<Rightarrow> exec_junk \<Rightarrow> u8 list \<Rightarrow> int \<Rightarrow> int \<Rightarrow>
    'a km_scheme \<Rightarrow> (exec_end \<times> 'a km_scheme) kcall" where
  "Exec cd stale j runtime argc argv s =
     kbind (NameI stale OPEN s) (\<lambda>(r, s).
       case r of
         None \<Rightarrow> Done (Exec_over, s)
       | Some i \<Rightarrow> Exec_enter cd stale j runtime argc argv i s)"

end
