(* ===== verification/ExecSpec.thy ===== *)
theory ExecSpec
  imports ExecFile
begin

text \<open>
  What \<open>Exec\<close> puts on the stack of the new program.
\<close>

section \<open>Bytes, words and strings of a memory\<close>

lemma store_outside: "a < b \<or> b + int (length bs) \<le> a \<Longrightarrow> store_bytes m b bs a = m a"
  by (auto simp: store_bytes_def)

lemma store_inside: "i < length bs \<Longrightarrow> store_bytes m b bs (b + int i) = bs ! i"
  by (simp add: store_bytes_def)

lemma load_bytes_cong: "(\<And>i. i < n \<Longrightarrow> m (a + int i) = m' (b + int i)) \<Longrightarrow> load_bytes m a n = load_bytes m' b n"
  by (simp add: load_bytes_def)

lemma load_store: "load_bytes (store_bytes m b bs) b (length bs) = bs"
  by (rule nth_equalityI) (simp_all add: load_bytes_def store_inside)

lemma load_nth: "i < n \<Longrightarrow> load_bytes m a n ! i = m (a + int i)"
  by (simp add: load_bytes_def)

lemma load_word_bytes: "load_word m a = w \<longleftrightarrow> load_bytes m a 4 = undwords [w]"
proof -
  have l: "load_bytes m a 4 = [m a, m (a + 1), m (a + 2), m (a + 3)]"
    by (simp add: load_bytes_def upt_rec)
  show ?thesis
  proof
    assume "load_word m a = w"
    then show "load_bytes m a 4 = undwords [w]" by (auto simp: l load_word_def bytes_dword [simplified])
  next
    assume "load_bytes m a 4 = undwords [w]"
    then show "load_word m a = w" by (simp add: l load_word_def dword_bytes [simplified])
  qed
qed

lemma load_word_store [simp]: "load_word (store_word m a w) a = w"
  using load_store [of m a "undwords [w]"] by (simp only: load_word_bytes store_word_def) (simp add: numeral_eq_Suc)

lemma load_word_cong: "(\<And>x. a \<le> x \<Longrightarrow> x < a + 4 \<Longrightarrow> m x = m' x) \<Longrightarrow> load_word m a = load_word m' a"
  by (simp add: load_word_def)

lemma store_word_outside: "x < a \<or> a + 4 \<le> x \<Longrightarrow> store_word m a w x = m x"
  by (simp add: store_word_def store_outside)

lemma arg_string_Some:
  "arg_string n m a = Some cs \<longleftrightarrow> length cs < n \<and> 0 \<notin> set cs \<and> load_bytes m a (length cs + 1) = cs @ [0]"
proof (induction n m a arbitrary: cs rule: arg_string.induct)
  case (1 n m a)
  have l: "load_bytes m a (Suc k) = m a # load_bytes m (a + 1) k" for k
    by (simp add: load_bytes_def upt_conv_Cons map_Suc_upt [symmetric] add.assoc del: upt_Suc)
  show ?case
  proof (cases cs)
    case Nil
    then show ?thesis by (subst arg_string.simps) (auto simp: l load_bytes_def split: option.splits)
  next
    case (Cons c r)
    have "arg_string n m a = Some cs \<longleftrightarrow> n \<noteq> 0 \<and> m a \<noteq> 0 \<and> m a = c \<and> arg_string (n - 1) m (a + 1) = Some r"
      by (subst arg_string.simps) (auto simp: Cons split: option.splits)
    also have "\<dots> \<longleftrightarrow> n \<noteq> 0 \<and> m a \<noteq> 0 \<and> m a = c \<and> length r < n - 1 \<and> 0 \<notin> set r \<and>
        load_bytes m (a + 1) (length r + 1) = r @ [0]"
      using 1 by (cases "n = 0 \<or> m a = 0") auto
    finally show ?thesis using Cons by (auto simp: l)
  qed
qed

section \<open>The strings\<close>

text \<open>
  The strings \<open>ss\<close> are the arguments: \<open>argv\<close> points to them and does not overlap them.
\<close>

definition args_at :: "(int \<Rightarrow> u8) \<Rightarrow> int \<Rightarrow> u8 list list \<Rightarrow> bool" where
  "args_at m argv ss \<longleftrightarrow>
     (\<forall>i < length ss.
        let p = uint (load_word m (argv + 4 * int i))
        in user_string m p = Some (ss ! i) \<and>
           (p + int (length (ss ! i)) < argv \<or> argv + 4 * int (length ss) \<le> p))"

text \<open>Where the strings go, from the end of the user space down.\<close>

fun strings_size :: "u8 list list \<Rightarrow> nat" where
  "strings_size [] = 0"
| "strings_size (cs # ss) = length cs + 1 + strings_size ss"

fun places :: "u8 list list \<Rightarrow> int \<Rightarrow> int list" where
  "places [] e = []"
| "places (cs # ss) e = (e - int (length cs + 1)) # places ss (e - int (length cs + 1))"

lemma length_places [simp]: "length (places ss e) = length ss"
  by (induction ss arbitrary: e) simp_all

lemma places_bounds:
  "i < length ss \<Longrightarrow> e - int (strings_size ss) \<le> places ss e ! i \<and> places ss e ! i + int (length (ss ! i)) < e"
proof (induction ss arbitrary: e i)
  case (Cons cs ss)
  then show ?case
  proof (cases i)
    case (Suc j)
    then show ?thesis using Cons.IH [of j "e - int (length cs + 1)"] Cons.prems by simp
  qed simp
qed simp

lemma unat_sub_nat: "n \<le> unat x \<Longrightarrow> unat (x - of_nat n) = unat x - n" for x :: u32
proof -
  assume n: "n \<le> unat x"
  have "unat x < 2 ^ 32" using unsigned_less [of x] by simp
  with n have "n < 2 ^ 32" by simp
  then have "unat (of_nat n :: u32) = n" by (simp add: unat_of_nat)
  with n show ?thesis by (simp add: unat_sub word_le_nat_alt)
qed

lemma uint_sub_nat: "n \<le> unat x \<Longrightarrow> uint (x - of_nat n) = uint x - int n" for x :: u32
  using unat_sub_nat [of n x] unfolding uint_nat by (simp only: of_nat_diff)

lemma args_at_step:
  assumes "args_at m argv (cs # ss)"
  shows "user_string m (uint (load_word m argv)) = Some cs" "args_at (store_word m argv w) (argv + 4) ss"
proof -
  have a: "user_string m (uint (load_word m (argv + 4 * int i))) = Some ((cs # ss) ! i) \<and>
      (uint (load_word m (argv + 4 * int i)) + int (length ((cs # ss) ! i)) < argv \<or>
       argv + 4 * (int (length ss) + 1) \<le> uint (load_word m (argv + 4 * int i)))" if "i \<le> length ss" for i
    using assms that by (auto simp: args_at_def Let_def dest!: spec [of _ i])
  show "user_string m (uint (load_word m argv)) = Some cs" using a [of 0] by simp
  show "args_at (store_word m argv w) (argv + 4) ss"
    unfolding args_at_def Let_def
  proof (intro allI impI)
    fix i
    assume i: "i < length ss"
    let ?m = "store_word m argv w" and ?p = "uint (load_word m (argv + 4 * int (Suc i)))"
    have w: "load_word ?m (argv + 4 + 4 * int i) = load_word m (argv + 4 * int (Suc i))"
      by (rule trans [OF load_word_cong [where m' = m]]) (auto simp: store_word_outside algebra_simps)
    have p: "user_string m ?p = Some (ss ! i)" "?p + int (length (ss ! i)) < argv \<or> argv + 4 * (int (length ss) + 1) \<le> ?p"
      using a [of "Suc i"] i by auto
    have "load_bytes ?m ?p (length (ss ! i) + 1) = load_bytes m ?p (length (ss ! i) + 1)"
      using p(2) by (intro load_bytes_cong store_word_outside) auto
    then have "user_string ?m ?p = Some (ss ! i)" using p(1) by (simp add: user_string_def arg_string_Some)
    then show "user_string ?m (uint (load_word ?m (argv + 4 + 4 * int i))) = Some (ss ! i) \<and>
        (uint (load_word ?m (argv + 4 + 4 * int i)) + int (length (ss ! i)) < argv + 4 \<or>
         argv + 4 + 4 * int (length ss) \<le> uint (load_word ?m (argv + 4 + 4 * int i)))"
      using p(2) unfolding w by auto
  qed
qed

lemma copy_strings_ok:
  assumes "args_at m argv ss" "unat lo + strings_size ss \<le> unat des" "strings_size ss \<le> unat esp"
  shows "\<exists>k' m'. copy_strings (length ss) argv lo des esp k m =
      Done (des - of_nat (strings_size ss), esp - of_nat (strings_size ss), k', m') \<and>
    (\<forall>a. a < uint des - int (strings_size ss) \<or> uint des \<le> a \<longrightarrow> k' a = k a) \<and>
    (\<forall>i < length ss. load_bytes k' (places ss (uint des) ! i) (length (ss ! i) + 1) = ss ! i @ [0]) \<and>
    (\<forall>i < length ss. load_word m' (argv + 4 * int i) = word_of_int (places ss (uint esp) ! i)) \<and>
    (\<forall>a. a < argv \<longrightarrow> m' a = m a)"
  using assms
proof (induction ss arbitrary: argv des esp k m)
  case (Cons cs ss)
  let ?n = "length cs + 1" and ?bs = "cs @ [0]"
  let ?d = "des - of_nat ?n" and ?e = "esp - of_nat ?n"
  let ?k = "store_bytes k (uint ?d) ?bs" and ?m = "store_word m argv ?e"
  note step = args_at_step [OF Cons.prems(1)]
  have le: "?n \<le> unat des" "?n \<le> unat esp" using Cons.prems(2,3) by simp_all
  note ud = unat_sub_nat [OF le(1)] and ue = unat_sub_nat [OF le(2)]
  note id = uint_sub_nat [OF le(1)] and ie = uint_sub_nat [OF le(2)]
  obtain k' m' where r: "copy_strings (length ss) (argv + 4) lo ?d ?e ?k ?m =
        Done (?d - of_nat (strings_size ss), ?e - of_nat (strings_size ss), k', m')"
    and k: "\<And>a. a < uint ?d - int (strings_size ss) \<or> uint ?d \<le> a \<Longrightarrow> k' a = ?k a"
    and s: "\<And>i. i < length ss \<Longrightarrow> load_bytes k' (places ss (uint ?d) ! i) (length (ss ! i) + 1) = ss ! i @ [0]"
    and w: "\<And>i. i < length ss \<Longrightarrow> load_word m' (argv + 4 + 4 * int i) = word_of_int (places ss (uint ?e) ! i)"
    and o: "\<And>a. a < argv + 4 \<Longrightarrow> m' a = ?m a"
  proof -
    have "unat lo + strings_size ss \<le> unat ?d" "strings_size ss \<le> unat ?e"
      unfolding ud ue using Cons.prems(2,3) by (simp_all del: of_nat_Suc of_nat_add)
    from Cons.IH [OF step(2) [of ?e] this, of ?k] show ?thesis using that by blast
  qed
  have c: "copy_strings (length (cs # ss)) argv lo des esp k m =
      Done (des - of_nat (strings_size (cs # ss)), esp - of_nat (strings_size (cs # ss)), k', m')"
    using r step(1) Cons.prems(2) by (simp add: Let_def algebra_simps)
  have first: "load_bytes k' (uint des - int ?n) ?n = ?bs"
  proof -
    have "load_bytes k' (uint des - int ?n) ?n = load_bytes ?k (uint ?d) ?n"
      unfolding id [symmetric] by (intro load_bytes_cong k) simp
    then show ?thesis using load_store [of k "uint ?d" ?bs] by simp
  qed
  have mfirst: "load_word m' argv = ?e"
    using o by (subst load_word_cong [where m' = ?m]) auto
  have 1: "k' a = k a" if "a < uint des - int (strings_size (cs # ss)) \<or> uint des \<le> a" for a
  proof -
    have a: "a < uint ?d - int (strings_size ss) \<or> uint ?d \<le> a" "a < uint ?d \<or> uint ?d + int (length ?bs) \<le> a"
      using that unfolding id by auto
    from k [OF a(1)] a(2) show ?thesis by (simp add: store_outside)
  qed
  have 2: "load_bytes k' (places (cs # ss) (uint des) ! i) (length ((cs # ss) ! i) + 1) = (cs # ss) ! i @ [0]"
    if "i < length (cs # ss)" for i
    using first s [of "i - 1", unfolded id] that by (cases i) auto
  have 3: "load_word m' (argv + 4 * int i) = word_of_int (places (cs # ss) (uint esp) ! i)" if "i < length (cs # ss)" for i
    using mfirst ie [symmetric] w [of "i - 1", unfolded ie] that by (cases i) (auto simp: algebra_simps)
  have 4: "m' a = m a" if "a < argv" for a
    using o [of a] that by (simp add: store_word_outside)
  show ?case using c 1 2 3 4 by blast
qed auto

section \<open>The whole stack\<close>

text \<open>What the program finds: \<open>argc\<close>, the address of \<open>argv\<close>, the array with its end mark, the strings.\<close>

definition starts_with_args :: "(int \<Rightarrow> u8) \<Rightarrow> int \<Rightarrow> u8 list list \<Rightarrow> bool" where
  "starts_with_args m esp ss \<longleftrightarrow>
     load_word m esp = of_nat (length ss) \<and> load_word m (esp + 4) = word_of_int (esp + 8) \<and>
     (\<forall>i < length ss. user_string m (uint (load_word m (esp + 8 + 4 * int i))) = Some (ss ! i)) \<and>
     load_word m (esp + 8 + 4 * int (length ss)) = 0"

definition round16 :: "nat \<Rightarrow> nat" where
  "round16 t = 16 * ((t + 15) div 16)"

lemma round16_bounds: "t \<le> round16 t" "round16 t < t + 16"
proof -
  have "t \<le> 16 * ((t + 15) div 16)" "16 * ((t + 15) div 16) < t + 16" by presburger+
  then show "t \<le> round16 t" "round16 t < t + 16" by (simp_all add: round16_def)
qed

lemma round16_down:
  assumes "(x :: nat) mod 16 = 0" "t \<le> x"
  shows "round16 t \<le> x" "16 * ((x - t) div 16) = x - round16 t"
proof -
  obtain q d where x: "x = 16 * q" and d: "16 * q = t + d"
    using assms by (metis le_Suc_ex mod_0_imp_dvd dvdE)
  define c e where "c = (t + 15) div 16" and "e = d div 16"
  have "t \<le> 16 * c" "16 * c < t + 16" using round16_bounds [where t = t] by (simp_all add: round16_def c_def)
  moreover have "16 * e \<le> d" "d < 16 * e + 16" unfolding e_def by (simp_all add: mult.commute)
  ultimately have "c \<le> q" "q = e + c" using d by linarith+
  then show "round16 t \<le> x" "16 * ((x - t) div 16) = x - round16 t"
    using d by (simp_all add: x round16_def flip: c_def e_def)
qed

lemma mask_align: "unat (w AND 0xFFFFFFF0) = 16 * (unat w div 16)" for w :: u32
proof -
  have m: "(0xFFFFFFF0 :: u32) = NOT (mask 4)" by (simp add: mask_eq_exp_minus_1)
  have "w AND 0xFFFFFFF0 = push_bit 4 (drop_bit 4 w)"
    unfolding m by (rule bit_word_eqI) (auto simp: bit_simps)
  then have "unat (w AND 0xFFFFFFF0) = unat (16 * (w div 16))" by (simp add: push_bit_eq_mult drop_bit_eq_div mult.commute)
  moreover have "unat (16 * (w div 16)) = 16 * (unat w div 16)"
  proof -
    have "unat w < 2 ^ 32" using unsigned_less [of w] by simp
    then have "16 * (unat w div 16) < 2 ^ 32" by linarith
    then show ?thesis using unat_mult_lem [of 16 "w div 16"] by (simp add: unat_div)
  qed
  ultimately show ?thesis by simp
qed

lemma align_down:
  fixes x :: u32
  assumes "unat x mod 16 = 0" "t \<le> unat x"
  shows "(x - of_nat t) AND 0xFFFFFFF0 = x - of_nat (round16 t)"
proof -
  note r = round16_down [OF assms]
  have "unat ((x - of_nat t) AND 0xFFFFFFF0) = unat (x - of_nat (round16 t))"
    using r assms(2) by (simp only: mask_align unat_sub_nat)
  then show ?thesis by (simp only: word_eq_unat)
qed

text \<open>The stores behind the strings, on addresses of any coordinate.\<close>

definition stack_words :: "(int \<Rightarrow> u8) \<Rightarrow> int \<Rightarrow> u32 \<Rightarrow> u32 \<Rightarrow> u8 list \<Rightarrow> int \<Rightarrow> u8" where
  "stack_words k b argc ptr arr =
     store_word (store_word (store_bytes (store_word k (b + 8 + int (length arr)) 0) (b + 8) arr) (b + 4) ptr) b argc"

lemma stack_words_reads:
  "load_word (stack_words k b argc ptr arr) b = argc" "load_word (stack_words k b argc ptr arr) (b + 4) = ptr"
  "load_word (stack_words k b argc ptr arr) (b + 8 + int (length arr)) = 0"
  "i < length arr \<Longrightarrow> stack_words k b argc ptr arr (b + 8 + int i) = arr ! i"
  "b + 12 + int (length arr) \<le> a \<Longrightarrow> stack_words k b argc ptr arr a = k a"
proof -
  let ?k1 = "store_word k (b + 8 + int (length arr)) 0"
  let ?k2 = "store_bytes ?k1 (b + 8) arr"
  let ?k3 = "store_word ?k2 (b + 4) ptr"
  have "load_word (store_word ?k3 b argc) (b + 4) = load_word ?k3 (b + 4)"
    by (rule load_word_cong) (simp add: store_word_outside)
  then show "load_word (stack_words k b argc ptr arr) (b + 4) = ptr" by (simp add: stack_words_def)
  have "load_word (store_word ?k3 b argc) (b + 8 + int (length arr)) = load_word ?k1 (b + 8 + int (length arr))"
    by (rule load_word_cong) (simp add: store_word_outside store_outside)
  then show "load_word (stack_words k b argc ptr arr) (b + 8 + int (length arr)) = 0" by (simp add: stack_words_def)
  show "stack_words k b argc ptr arr (b + 8 + int i) = arr ! i" if "i < length arr"
    using that by (simp add: stack_words_def store_word_outside store_inside)
  show "stack_words k b argc ptr arr a = k a" if "b + 12 + int (length arr) \<le> a"
    using that by (simp add: stack_words_def store_word_outside store_outside)
qed (simp add: stack_words_def)

lemma exec_stack_ok:
  assumes args: "args_at m argv ss" and al: "unat des mod 16 = 0"
    and room: "unat lo + (strings_size ss + 4 * length ss + 27) \<le> unat des"
    and small: "strings_size ss + 4 * length ss + 27 \<le> 0x800000"
  shows "\<exists>k1 m1. exec_stack (int (length ss)) argv lo des k m =
      Done (USER_SPACE_SIZE - of_nat (round16 (strings_size ss) + 4 * length ss + 12),
        stack_words k1 (uint des - int (round16 (strings_size ss) + 4 * length ss + 12)) (of_nat (length ss))
          (USER_SPACE_SIZE - of_nat (round16 (strings_size ss) + 4 * length ss + 4)) (load_bytes m1 argv (4 * length ss)), m1) \<and>
    (\<forall>i < length ss. load_bytes k1 (places ss (uint des) ! i) (length (ss ! i) + 1) = ss ! i @ [0]) \<and>
    (\<forall>i < length ss. load_word m1 (argv + 4 * int i) = word_of_int (places ss 0x800000 ! i))"
proof -
  let ?t = "strings_size ss" and ?n = "length ss"
  define r where "r = round16 ?t"
  have r: "?t \<le> r" "r < ?t + 16" using round16_bounds [where t = ?t] by (simp_all add: r_def)
  have U: "unat USER_SPACE_SIZE = 0x800000" "uint USER_SPACE_SIZE = 0x800000" by (simp_all add: USER_SPACE_SIZE_def)
  obtain k1 m1 where c: "copy_strings ?n argv lo des USER_SPACE_SIZE k m =
        Done (des - of_nat ?t, USER_SPACE_SIZE - of_nat ?t, k1, m1)"
    and s: "\<forall>i < ?n. load_bytes k1 (places ss (uint des) ! i) (length (ss ! i) + 1) = ss ! i @ [0]"
    and w: "\<forall>i < ?n. load_word m1 (argv + 4 * int i) = word_of_int (places ss (uint USER_SPACE_SIZE) ! i)"
    using copy_strings_ok [OF args, of lo des USER_SPACE_SIZE k] room small U by auto
  have a: "(des - of_nat ?t) AND 0xFFFFFFF0 = des - of_nat r" "(USER_SPACE_SIZE - of_nat ?t) AND 0xFFFFFFF0 = USER_SPACE_SIZE - of_nat r"
    unfolding r_def using room small al U by (intro align_down; simp)+
  have sub: "x - of_nat i - of_nat j = x - of_nat (i + j)" for x :: u32 and i j :: nat by simp
  have four: "(4 :: u32) = of_nat 4" by simp
  define B where "B = uint des - int (r + 4 * ?n + 12)"
  have at: "uint (des - of_nat i) = uint des - int i" if "i \<le> r + 4 * ?n + 12" for i
    using that r room by (intro uint_sub_nat) simp
  have B: "uint (des - of_nat (r + 4)) = B + 8 + int (4 * ?n)" "uint (des - of_nat (r + 4 + 4 * ?n)) = B + 8"
    "uint (des - of_nat (r + 4 + 4 * ?n + 4)) = B + 4" "uint (des - of_nat (r + 4 + 4 * ?n + 4 + 4)) = B"
    by (subst at; simp add: B_def)+
  have e: "exec_stack (int ?n) argv lo des k m =
      Done (USER_SPACE_SIZE - of_nat (r + 4 + 4 * ?n + 4 + 4),
        store_word (store_word (store_bytes (store_word k1 (uint (des - of_nat (r + 4))) 0)
          (uint (des - of_nat (r + 4 + 4 * ?n))) (load_bytes m1 argv (4 * ?n)))
          (uint (des - of_nat (r + 4 + 4 * ?n + 4))) (USER_SPACE_SIZE - of_nat (r + 4 + 4 * ?n)))
          (uint (des - of_nat (r + 4 + 4 * ?n + 4 + 4))) (of_nat ?n), m1)"
  proof -
    have "\<not> unat (des - of_nat r) < unat lo + (4 * ?n + 12)"
      using room r by (subst unat_sub_nat) simp_all
    then show ?thesis
      unfolding exec_stack_def using c a by (simp only: Let_def sub four) (simp add: sub diff_diff_add ac_simps)
  qed
  have n: "r + 4 + 4 * ?n + 4 + 4 = r + 4 * ?n + 12" "r + 4 + 4 * ?n = r + 4 * ?n + 4" by simp_all
  have l: "int (length (load_bytes m1 argv (4 * ?n))) = int (4 * ?n)" by (simp add: load_bytes_def)
  show ?thesis
    using e [unfolded B, unfolded n] s w unfolding stack_words_def r_def [symmetric] B_def [symmetric] l U
    by (intro exI [of _ k1] exI [of _ m1]) simp
qed

lemma or_high: "unat x < 0x40000000 \<Longrightarrow> x OR 0xC0000000 = x + 0xC0000000" for x :: u32
proof -
  assume x: "unat x < 0x40000000"
  have c: "(0xC0000000 :: u32) = push_bit 30 3" by simp
  have "\<not> bit x n \<or> \<not> bit (0xC0000000 :: u32) n" for n
  proof (cases "n < 30")
    case True
    then have "\<not> bit (push_bit 30 3 :: u32) n" by (simp only: bit_push_bit_iff) simp
    then show ?thesis unfolding c ..
  next
    case False
    have "take_bit 30 x = x" using x by (simp add: word_eq_unat unsigned_take_bit_eq take_bit_nat_eq_self)
    then have "\<not> bit x n" using False by (metis bit_take_bit_iff)
    then show ?thesis ..
  qed
  then show ?thesis by (rule disjunctive_add [symmetric])
qed

lemma places_shift: "i < length ss \<Longrightarrow> places ss (e + d) ! i = places ss e ! i + d"
proof (induction ss arbitrary: e i)
  case (Cons cs ss)
  then show ?case using Cons.IH [of "i - 1" "e - int (length cs + 1)"] by (cases i) (simp_all add: algebra_simps)
qed simp

text \<open>The bytes of the buffer as the program sees them.\<close>

lemma place_stack_byte:
  assumes "unat fake + unat n \<le> 0x3FFFF000" "sz \<le> n" "unat sz \<le> 0x800000" "0x800000 - int (unat sz) \<le> a" "a < 0x800000"
  shows "place_stack fake n sz k m a = k (a + (uint (fake + n + 0xC0000000) - 0x800000))"
proof -
  have s: "unat sz \<le> unat n" using assms(2) by (simp add: word_le_nat_alt)
  have fn: "unat (fake + n) = unat fake + unat n" using assms(1) by (intro unat_add_nowrap) simp
  then have f: "unat (fake + n - sz) = unat fake + unat n - unat sz"
    using s by (subst unat_sub) (simp_all add: word_le_nat_alt)
  then have o: "(fake + n - sz) OR 0xC0000000 = fake + n - sz + 0xC0000000" using assms(1) by (intro or_high) simp
  have "unat (fake + n - sz + 0xC0000000) = unat fake + unat n - unat sz + 0xC0000000"
    using f assms(1) by (subst unat_add_nowrap) simp_all
  moreover have "unat (fake + n + 0xC0000000) = unat fake + unat n + 0xC0000000"
    using fn assms(1) by (subst unat_add_nowrap) simp_all
  ultimately have e: "uint ((fake + n - sz) OR 0xC0000000) = uint (fake + n + 0xC0000000) - int (unat sz)"
    using s unfolding o uint_nat by simp
  have "unat (USER_SPACE_SIZE - sz) = 0x800000 - unat sz"
    using assms(3) by (subst unat_sub) (simp_all add: word_le_nat_alt USER_SPACE_SIZE_def)
  then have u: "uint (USER_SPACE_SIZE - sz) = 0x800000 - int (unat sz)" using assms(3) unfolding uint_nat by simp
  define i where "i = nat (a - (0x800000 - int (unat sz)))"
  have i: "a = 0x800000 - int (unat sz) + int i" "i < unat sz" using assms(4,5) unfolding i_def by linarith+
  have "place_stack fake n sz k m a = load_bytes k (uint (fake + n + 0xC0000000) - int (unat sz)) (unat sz) ! i"
    unfolding place_stack_def e u i(1) using i(2) by (intro store_inside) (simp add: load_bytes_def)
  also have "\<dots> = k (uint (fake + n + 0xC0000000) - int (unat sz) + int i)" by (rule load_nth [OF i(2)])
  finally show ?thesis unfolding i(1) by (simp add: algebra_simps)
qed

text \<open>A memory that shows the buffer at the distance \<open>d\<close> shows the arguments.\<close>

lemma image_starts_with_args:
  fixes esp d :: int
  assumes M: "\<And>a. esp \<le> a \<Longrightarrow> a < 0x800000 \<Longrightarrow> M a = stack_words k1 (esp + d) (of_nat (length ss)) (word_of_int (esp + 8))
        (load_bytes m1 argv (4 * length ss)) (a + d)"
    and esp: "esp + int t + 4 * int (length ss) + 12 = 0x800000" "0 \<le> esp" "strings_size ss \<le> t"
    and k1: "\<And>i. i < length ss \<Longrightarrow> load_bytes k1 (places ss (0x800000 + d) ! i) (length (ss ! i) + 1) = ss ! i @ [0]"
    and m1: "\<And>i. i < length ss \<Longrightarrow> load_word m1 (argv + 4 * int i) = word_of_int (places ss 0x800000 ! i)"
    and nz: "\<And>i. i < length ss \<Longrightarrow> 0 \<notin> set (ss ! i)"
  shows "starts_with_args M esp ss"
proof -
  let ?n = "length ss" and ?arr = "load_bytes m1 argv (4 * length ss)"
  define k where "k = stack_words k1 (esp + d) (of_nat ?n) (word_of_int (esp + 8)) ?arr"
  note M = M [folded k_def]
  have l: "length ?arr = 4 * ?n" by (simp add: load_bytes_def)
  note reads = stack_words_reads [where k = k1 and b = "esp + d" and argc = "of_nat ?n" and ptr = "word_of_int (esp + 8)" and arr = ?arr, folded k_def, unfolded l]
  have Mw: "load_word M a = load_word k (a + d)" if "esp \<le> a" "a + 4 \<le> 0x800000" for a
  proof -
    have "M (a + x) = k (a + d + x)" if "0 \<le> x" "x < 4" for x
      using M [of "a + x"] that \<open>esp \<le> a\<close> \<open>a + 4 \<le> 0x800000\<close> by (simp add: ac_simps)
    from this [of 0] this [of 1] this [of 2] this [of 3] show ?thesis by (simp add: load_word_def)
  qed
  have str: "user_string M (uint (load_word M (esp + 8 + 4 * int i))) = Some (ss ! i)" if i: "i < ?n" for i
  proof -
    let ?p = "places ss 0x800000 ! i"
    have p: "0x800000 - int (strings_size ss) \<le> ?p" "?p + int (length (ss ! i)) < 0x800000"
      using places_bounds [OF i, of "0x800000"] by auto
    have arr: "k (esp + d + 8 + int (4 * i + j)) = m1 (argv + int (4 * i + j))" if "j < 4" for j
      using reads(4) [of "4 * i + j"] load_nth [of "4 * i + j" "4 * ?n" m1 argv] i that by simp
    have "load_word M (esp + 8 + 4 * int i) = load_word k (esp + d + 8 + 4 * int i)"
      using i esp by (subst Mw) (simp_all add: ac_simps)
    also have "\<dots> = load_word m1 (argv + 4 * int i)"
      using arr [of 0] arr [of 1] arr [of 2] arr [of 3] by (simp add: load_word_def ac_simps)
    finally have w: "uint (load_word M (esp + 8 + 4 * int i)) = ?p"
      using m1 [OF i] p esp by (simp add: uint_word_of_int)
    have "load_bytes M ?p (length (ss ! i) + 1) = load_bytes k1 (?p + d) (length (ss ! i) + 1)"
    proof (rule load_bytes_cong)
      fix j
      assume j: "j < length (ss ! i) + 1"
      have "M (?p + int j) = k (?p + int j + d)" using p j esp by (intro M) linarith+
      also have "\<dots> = k1 (?p + int j + d)" using p esp by (intro reads(5)) linarith
      finally show "M (?p + int j) = k1 (?p + d + int j)" by (simp add: ac_simps)
    qed
    also have "\<dots> = ss ! i @ [0]"
      using k1 [OF i] unfolding places_shift [OF i] .
    finally have "load_bytes M ?p (length (ss ! i) + 1) = ss ! i @ [0]" .
    then show ?thesis unfolding w user_string_def arg_string_Some using nz [OF i] p by (simp add: USER_SPACE_SIZE_def)
  qed
  have "load_word M esp = of_nat ?n" using Mw [of esp] reads(1) esp by simp
  moreover have "load_word M (esp + 4) = word_of_int (esp + 8)" using Mw [of "esp + 4"] reads(2) esp by (simp add: ac_simps)
  moreover have "load_word M (esp + 8 + 4 * int ?n) = 0" using Mw [of "esp + 8 + 4 * int ?n"] reads(3) esp by (simp add: ac_simps)
  ultimately show ?thesis unfolding starts_with_args_def using str by blast
qed

text \<open>
  C34. \<open>Exec\<close> passes the arguments: when \<open>argv\<close> of the caller points to \<open>argc\<close> strings that do not overlap the array, and
  the stack of the new program has room for them, the copy through the kernel buffer goes through and the
  new program starts with a stack pointer at which it finds \<open>argc\<close>, the address of an array of \<open>argc\<close> pointers with
  a null pointer behind it, and exactly the strings of the caller behind these pointers.
\<close>

theorem Exec_passes_arguments:
  assumes args: "args_at m argv ss"
    and buffer: "unat fake mod 0x1000 = 0" "unat n mod 0x1000 = 0" "unat fake + unat n \<le> 0x3FFFF000" "sz \<le> n"
    and room: "unat sz \<le> 0x800000" "strings_size ss + 4 * length ss + 27 \<le> unat sz"
  shows "\<exists>esp k m'. exec_stack (int (length ss)) argv (fake + 0xC0000000) (fake + n + 0xC0000000) k0 m = Done (esp, k, m') \<and>
    starts_with_args (place_stack fake n sz k mem) (uint esp) ss"
proof -
  let ?des = "fake + n + 0xC0000000" and ?N = "round16 (strings_size ss) + 4 * length ss + 12" and ?n = "length ss"
  have fn: "unat (fake + n) = unat fake + unat n" using buffer by (intro unat_add_nowrap) simp
  have d: "unat ?des = unat fake + unat n + 0xC0000000" "unat (fake + 0xC0000000) = unat fake + 0xC0000000"
    using fn buffer by (subst unat_add_nowrap; simp)+
  have sz: "unat sz \<le> unat n" using buffer(4) by (simp add: word_le_nat_alt)
  have "16 dvd unat fake" "16 dvd unat n" using buffer(1,2) by (auto intro: dvd_trans [of 16 "0x1000"] simp flip: dvd_eq_mod_eq_0)
  then have al: "unat ?des mod 16 = 0" unfolding d by (simp flip: dvd_eq_mod_eq_0)
  note r = round16_bounds [where t = "strings_size ss"]
  obtain k1 m1 where e: "exec_stack (int ?n) argv (fake + 0xC0000000) ?des k0 m =
      Done (USER_SPACE_SIZE - of_nat ?N, stack_words k1 (uint ?des - int ?N) (of_nat ?n)
        (USER_SPACE_SIZE - of_nat (round16 (strings_size ss) + 4 * ?n + 4)) (load_bytes m1 argv (4 * ?n)), m1)"
    and k1: "\<And>i. i < ?n \<Longrightarrow> load_bytes k1 (places ss (uint ?des) ! i) (length (ss ! i) + 1) = ss ! i @ [0]"
    and m1: "\<And>i. i < ?n \<Longrightarrow> load_word m1 (argv + 4 * int i) = word_of_int (places ss 0x800000 ! i)"
    using exec_stack_ok [OF args al, of "fake + 0xC0000000" k0] room sz d by auto
  have U: "uint (USER_SPACE_SIZE - of_nat i) = 0x800000 - int i" if "i \<le> 0x800000" for i
    using uint_sub_nat [of i USER_SPACE_SIZE] that by (simp add: USER_SPACE_SIZE_def)
  define esp d where "esp = 0x800000 - int ?N" and "d = uint ?des - 0x800000"
  have esp: "esp = uint (USER_SPACE_SIZE - of_nat ?N)" using U [of ?N] r room unfolding esp_def by simp
  have B: "uint ?des - int ?N = esp + d" unfolding esp_def d_def by simp
  have "uint (USER_SPACE_SIZE - of_nat (round16 (strings_size ss) + 4 * ?n + 4)) = esp + 8"
    using U [of "round16 (strings_size ss) + 4 * ?n + 4"] r room unfolding esp_def by linarith
  then have ptr: "USER_SPACE_SIZE - of_nat (round16 (strings_size ss) + 4 * ?n + 4) = word_of_int (esp + 8)"
    by (metis word_of_int_uint)
  note e = e [unfolded B ptr]
  define k where "k = stack_words k1 (esp + d) (of_nat ?n) (word_of_int (esp + 8)) (load_bytes m1 argv (4 * ?n))"
  have starts: "starts_with_args (place_stack fake n sz k mem) esp ss"
  proof (rule image_starts_with_args [where d = d and t = "round16 (strings_size ss)" and ?k1.0 = k1 and ?m1.0 = m1])
    fix a
    assume a: "esp \<le> a" "a < 0x800000"
    then have "0x800000 - int (unat sz) \<le> a" using r room unfolding esp_def by linarith
    from place_stack_byte [OF buffer(3,4) room(1) this a(2), of k mem]
    show "place_stack fake n sz k mem a = stack_words k1 (esp + d) (of_nat ?n) (word_of_int (esp + 8)) (load_bytes m1 argv (4 * ?n)) (a + d)"
      unfolding k_def d_def .
  next
    fix i
    assume i: "i < ?n"
    show "load_bytes k1 (places ss (0x800000 + d) ! i) (length (ss ! i) + 1) = ss ! i @ [0]"
      using k1 [OF i] by (simp only: d_def add_diff_eq add_diff_cancel_left')
    show "load_word m1 (argv + 4 * int i) = word_of_int (places ss 0x800000 ! i)" by (rule m1 [OF i])
    show "0 \<notin> set (ss ! i)"
      using args i by (auto simp: args_at_def Let_def user_string_def arg_string_Some)
  next
    show "esp + int (round16 (strings_size ss)) + 4 * int ?n + 12 = 0x800000" "0 \<le> esp" "strings_size ss \<le> round16 (strings_size ss)"
      using r room unfolding esp_def by linarith+
  qed
  show ?thesis
    by (rule exI, rule exI, rule exI, rule conjI, rule e [folded k_def], unfold esp [symmetric], rule starts)
qed

definition demo_argv :: "int \<Rightarrow> u8" where
  "demo_argv = store_bytes (store_bytes (\<lambda>_. 0) 0x5000 (undwords [0x6000, 0x6004])) 0x6000 [108, 115, 0, 0, 47, 98, 0]"

lemma demo_args: "args_at demo_argv 0x5000 [[108, 115], [47, 98]]"
proof -
  have "load_word demo_argv 0x5000 = 0x6000" "load_word demo_argv 0x5004 = 0x6004"
    by (simp_all add: load_word_def demo_argv_def store_bytes_def byte_at_def dword_def)
  moreover have "user_string demo_argv 0x6000 = Some [108, 115]" "user_string demo_argv 0x6004 = Some [47, 98]"
    by (simp_all add: user_string_def arg_string_Some USER_SPACE_SIZE_def load_bytes_def demo_argv_def store_bytes_def)
  ultimately show ?thesis by (simp add: args_at_def Let_def less_Suc_eq)
qed

lemma Exec_passes_arguments_witness:
  "\<exists>esp k m'. exec_stack 2 0x5000 (0x300000 + 0xC0000000) (0x300000 + 0x2000 + 0xC0000000) (\<lambda>_. 0) demo_argv = Done (esp, k, m') \<and>
    starts_with_args (place_stack 0x300000 0x2000 0x1000 k (\<lambda>_. 0)) (uint esp) [[108, 115], [47, 98]]"
  using Exec_passes_arguments [OF demo_args, of "0x300000" "0x2000" "0x1000" "\<lambda>_. 0" "\<lambda>_. 0"] by simp

end
