(* ===== verification/Diagnosis.thy ===== *)
theory Diagnosis
  imports KmDemo
begin

text \<open>
  The diagnosis output (\<open>kernel/Video.cpp\<close>): formatted text in a window of its own at the bottom of the
  screen, which it shares with the terminal.
\<close>

section \<open>Model\<close>

record diag = con +
  Diagnose_ROWS :: u32
  m_Row :: u32
  m_Column :: u32
  trace_on :: bool

definition SCREEN_ROWS :: u32 where "SCREEN_ROWS = 25"
definition CYAN :: u16 where "CYAN = 0x0B00"

text \<open>\<open>TraceOn\<close>, \<open>TraceOff\<close>, \<open>NextLine\<close>, \<open>ClearScreen\<close> and \<open>WriteChar\<close> of the class \<open>Diagnose\<close>.\<close>

definition TraceOn :: "'a diag_scheme \<Rightarrow> 'a diag_scheme" where
  "TraceOn s = s\<lparr>trace_on := True\<rparr>"

definition TraceOff :: "'a diag_scheme \<Rightarrow> 'a diag_scheme" where
  "TraceOff s = s\<lparr>trace_on := False\<rparr>"

definition Diagnose_NextLine :: "'a diag_scheme \<Rightarrow> 'a diag_scheme" where
  "Diagnose_NextLine s = s\<lparr>m_Row := m_Row s + 1, m_Column := 0\<rparr>"

definition Diagnose_ClearScreen :: "'a diag_scheme \<Rightarrow> 'a diag_scheme" where
  "Diagnose_ClearScreen s =
     (let row = SCREEN_ROWS - Diagnose_ROWS s; n = COLUMNS * Diagnose_ROWS s; vm = m_VideoMemory s
      in s\<lparr>m_Row := row, m_Column := 0,
           m_VideoMemory := (\<lambda>a. if a - row * COLUMNS < n then 32 OR CYAN else vm a)\<rparr>)"

definition Diagnose_WriteChar :: "u8 \<Rightarrow> 'a diag_scheme \<Rightarrow> 'a diag_scheme" where
  "Diagnose_WriteChar ch s =
     (let s = (if m_Column s \<ge> COLUMNS then Diagnose_NextLine s else s);
          s = (if m_Row s \<ge> SCREEN_ROWS then Diagnose_ClearScreen s else s)
      in s\<lparr>m_VideoMemory := (m_VideoMemory s)(m_Row s * COLUMNS + m_Column s := ucast ch OR CYAN),
           m_Column := m_Column s + 1\<rparr>)"

text \<open>\<open>PrintInt\<close>; the recursion divides the unsigned value.  The callers pass the bases 10 and 16.\<close>

definition Digits :: "u8 list" where
  "Digits = [48, 49, 50, 51, 52, 53, 54, 55, 56, 57, 65, 66, 67, 68, 69, 70]"

function PrintInt :: "u32 \<Rightarrow> u32 \<Rightarrow> 'a diag_scheme \<Rightarrow> 'a diag_scheme" where
  "PrintInt value base s =
     (let s = (if 2 \<le> base \<and> value div base \<noteq> 0 then PrintInt (value div base) base s else s)
      in Diagnose_WriteChar (Digits ! unat (value mod base)) s)"
  by pat_completeness auto
termination
proof (relation "measure (\<lambda>(v, _, _). unat v)")
  fix v base :: u32
  assume a: "2 \<le> base \<and> v div base \<noteq> 0"
  then have "2 \<le> unat base" by (simp add: word_le_nat_alt)
  moreover have "0 < unat v" using a by (auto simp: unat_eq_0 intro: ccontr)
  ultimately have "unat v div unat base < unat v" by simp
  then show "((v div base, base, s), v, base, s) \<in> measure (\<lambda>(v, _, _). unat v)" for s :: "'a diag_scheme"
    by (simp add: unat_div)
qed simp

declare PrintInt.simps [simp del]

text \<open>
  \<open>Write\<close>: a character of the format that is \<open>%\<close> or a line feed is skipped, and the next one tells what
  is printed.  An argument that is missing or of the other kind is a fault.
\<close>

datatype warg = Number u32 | Chars "u8 list"

fun format_loop :: "u8 list \<Rightarrow> warg list \<Rightarrow> 'a diag_scheme \<Rightarrow> 'a diag_scheme kcall" where
  "format_loop [] args s = Done s"
| "format_loop (c # fmt) args s =
     (if c \<noteq> 37 \<and> c \<noteq> 10 then format_loop fmt args (Diagnose_WriteChar c s)
      else case fmt of
             [] \<Rightarrow> Done (Diagnose_NextLine s)
           | d # rest \<Rightarrow>
               if d = 100 \<or> d = 120
               then case args of
                      Number v # args \<Rightarrow>
                        let s = (if d = 120 then Diagnose_WriteChar 120 (Diagnose_WriteChar 48 s) else s)
                        in format_loop rest args (PrintInt v (if d = 100 then 10 else 16) s)
                    | _ \<Rightarrow> Fault
               else if d = 115
               then case args of
                      Chars cs # args \<Rightarrow> format_loop rest args (fold Diagnose_WriteChar cs s)
                    | _ \<Rightarrow> Fault
               else format_loop fmt args (Diagnose_NextLine s))"

definition Diagnose_Write :: "u8 list \<Rightarrow> warg list \<Rightarrow> 'a diag_scheme \<Rightarrow> 'a diag_scheme kcall" where
  "Diagnose_Write fmt args s = (if \<not> trace_on s then Done s else format_loop fmt args s)"

section \<open>The window\<close>

text \<open>
  The screen is divided: the terminal has the upper \<open>CRT_ROWS\<close> rows, the diagnosis the others, and its
  position is not above them.
\<close>

definition divided :: "'a diag_scheme \<Rightarrow> bool" where
  "divided s \<longleftrightarrow> unat (Diagnose_ROWS s) \<le> 25 \<and> unat (CRT_ROWS s) = 25 - unat (Diagnose_ROWS s) \<and> unat (CRT_ROWS s) \<le> unat (m_Row s)"

text \<open>\<open>n\<close> more line feeds do not make the row number wrap.\<close>

definition in_window :: "'a diag_scheme \<Rightarrow> nat \<Rightarrow> 'a diag_scheme \<Rightarrow> bool" where
  "in_window s n t \<longleftrightarrow>
     divided t \<and> CRT_ROWS t = CRT_ROWS s \<and> Diagnose_ROWS t = Diagnose_ROWS s \<and> unat (m_Row t) + n < 2 ^ 32 \<and>
     (\<forall>a. unat a < 80 * unat (CRT_ROWS s) \<longrightarrow> m_VideoMemory t a = m_VideoMemory s a)"

lemma window_row: "unat (SCREEN_ROWS - Diagnose_ROWS s) = 25 - unat (Diagnose_ROWS s)" if "divided s"
  using that by (simp add: divided_def SCREEN_ROWS_def unat_sub word_le_nat_alt)

lemma unat_columns: "unat w \<le> 25 \<Longrightarrow> unat (w * COLUMNS) = 80 * unat w" "unat w \<le> 25 \<Longrightarrow> unat (COLUMNS * w) = 80 * unat w"
  using unat_mult_lem [of w 80] unat_mult_lem [of 80 w] by (simp_all add: COLUMNS_def)

lemma unat_minus_pos: "x \<noteq> 0 \<Longrightarrow> unat (- x) = 2 ^ 32 - unat x" for x :: u32
proof -
  assume x: "x \<noteq> 0"
  have b: "unat x < 2 ^ 32" using unsigned_less [of x] by simp
  have "(of_nat (2 ^ 32 - unat x) :: u32) = of_nat (2 ^ 32) - of_nat (unat x)" using b by (intro of_nat_diff) simp
  then have "- x = of_nat (2 ^ 32 - unat x)" by simp
  moreover have "2 ^ 32 - unat x < 2 ^ 32" using unat_pos [OF x] by simp
  ultimately show ?thesis by (simp add: unat_of_nat)
qed

lemma cell_in_window:
  assumes "unat row < 26" "unat col < 80" "n \<le> unat row" "unat a < 80 * n"
  shows "a \<noteq> row * COLUMNS + col"
proof -
  have "unat (row * COLUMNS) = 80 * unat row" using assms(1) by (intro unat_columns) simp
  then have "unat (row * COLUMNS + col) = 80 * unat row + unat col" using assms(1,2) by (simp add: unat_add_nowrap)
  then show ?thesis using assms(3,4) by auto
qed

lemma NextLine_window: "in_window s (Suc n) t \<Longrightarrow> in_window s n (Diagnose_NextLine t)"
  using unat_add_nowrap [of "m_Row t" 1] by (auto simp: in_window_def divided_def Diagnose_NextLine_def)

lemma ClearScreen_window:
  assumes "in_window s n t" "m \<le> 2 ^ 31"
  shows "in_window s m (Diagnose_ClearScreen t)"
proof -
  have d: "divided t" and c: "CRT_ROWS t = CRT_ROWS s" using assms(1) by (simp_all add: in_window_def)
  note row = window_row [OF d]
  have b: "unat (Diagnose_ROWS t) \<le> 25" "unat (CRT_ROWS t) = 25 - unat (Diagnose_ROWS t)" using d by (simp_all add: divided_def)
  have r80: "unat ((SCREEN_ROWS - Diagnose_ROWS t) * COLUMNS) = 80 * (25 - unat (Diagnose_ROWS t))"
    and n80: "unat (COLUMNS * Diagnose_ROWS t) = 80 * unat (Diagnose_ROWS t)"
    using row b by (simp_all add: unat_columns)
  have "\<not> a - (SCREEN_ROWS - Diagnose_ROWS t) * COLUMNS < COLUMNS * Diagnose_ROWS t" if "unat a < 80 * unat (CRT_ROWS s)" for a
  proof -
    let ?b = "(SCREEN_ROWS - Diagnose_ROWS t) * COLUMNS"
    have lt: "unat a < unat ?b" using that b c unfolding r80 by simp
    have "unat (?b - a) = unat ?b - unat a" using lt by (simp add: unat_sub word_le_nat_alt)
    then have ba: "unat (?b - a) \<le> 2000" "unat (?b - a) \<noteq> 0" using lt r80 by linarith+
    have "a - ?b = - (?b - a)" by (rule minus_diff_eq [symmetric])
    moreover have "unat (- (?b - a)) = 2 ^ 32 - unat (?b - a)" using ba(2) by (intro unat_minus_pos) auto
    ultimately have "unat (a - ?b) = 2 ^ 32 - unat (?b - a)" by (simp only:)
    then have "2 ^ 32 - 2000 \<le> unat (a - ?b)" using ba(1) by simp
    then show ?thesis using n80 b by (simp add: word_less_nat_alt)
  qed
  then show ?thesis
    using assms b row by (auto simp: in_window_def divided_def Diagnose_ClearScreen_def Let_def)
qed

lemma WriteChar_window:
  assumes w: "in_window s (Suc n) t" and m: "m \<le> 2 ^ 31"
  shows "in_window s m (Diagnose_WriteChar ch t)"
proof -
  define t1 where "t1 = (if m_Column t \<ge> COLUMNS then Diagnose_NextLine t else t)"
  define t2 where "t2 = (if m_Row t1 \<ge> SCREEN_ROWS then Diagnose_ClearScreen t1 else t1)"
  have t1: "in_window s n t1" using NextLine_window [OF w] w by (simp add: t1_def) (simp add: in_window_def)
  have col1: "unat (m_Column t1) < 80"
    by (simp add: t1_def Diagnose_NextLine_def COLUMNS_def word_le_nat_alt)
  have t2: "in_window s m t2" "unat (m_Row t2) < 26" "unat (m_Column t2) < 80"
  proof -
    have "in_window s m t1" "unat (m_Row t1) < 26" if "\<not> m_Row t1 \<ge> SCREEN_ROWS"
      using t1 that m by (simp_all add: in_window_def SCREEN_ROWS_def word_le_nat_alt)
    moreover have "unat (m_Row (Diagnose_ClearScreen t1)) < 26" "unat (m_Column (Diagnose_ClearScreen t1)) = 0"
      using window_row [of t1] t1 by (simp_all add: in_window_def Diagnose_ClearScreen_def Let_def)
    ultimately show "in_window s m t2" "unat (m_Row t2) < 26" "unat (m_Column t2) < 80"
      using ClearScreen_window [OF t1 m] col1 by (simp_all add: t2_def)
  qed
  have "a \<noteq> m_Row t2 * COLUMNS + m_Column t2" if "unat a < 80 * unat (CRT_ROWS s)" for a
    using t2 that by (intro cell_in_window) (auto simp: in_window_def divided_def)
  then show ?thesis
    using t2(1) unfolding Diagnose_WriteChar_def Let_def t1_def [symmetric] t2_def [symmetric]
    by (auto simp: in_window_def divided_def)
qed

lemma chars_window: "in_window s (Suc n) t \<Longrightarrow> Suc n \<le> 2 ^ 31 \<Longrightarrow> in_window s (Suc n) (fold Diagnose_WriteChar cs t)"
  by (induction cs arbitrary: t) (simp_all add: WriteChar_window [where m = "Suc n"])

lemma PrintInt_window:
  assumes "Suc n \<le> 2 ^ 31"
  shows "in_window s (Suc n) t \<Longrightarrow> in_window s (Suc n) (PrintInt v base t)"
proof (induction v base t rule: PrintInt.induct)
  case (1 v base t)
  then show ?case
    by (subst PrintInt.simps) (auto simp: Let_def intro!: WriteChar_window [OF _ assms])
qed

lemma format_window:
  assumes "length fmt < 2 ^ 31" "in_window s (Suc (length fmt)) t" "format_loop fmt args t = Done u"
  shows "in_window s 1 u"
  using assms
proof (induction "length fmt" arbitrary: fmt args t rule: less_induct)
  case less
  have fewer: "in_window s m x \<Longrightarrow> k \<le> m \<Longrightarrow> in_window s k x" for m k x by (simp add: in_window_def)
  show ?case
  proof (cases fmt)
    case Nil
    then show ?thesis using less by simp
  next
    case (Cons c r)
    have w: "in_window s (Suc (Suc (length r))) t" and b: "Suc (length r) < 2 ^ 31" using less Cons by simp_all
    have wr: "in_window s (Suc (length r)) (Diagnose_WriteChar ch x)" if "in_window s (Suc (Suc (length r))) x" for ch x
      using b by (intro WriteChar_window [OF that]) simp
    have nl: "in_window s (Suc (length r)) (Diagnose_NextLine t)" by (rule NextLine_window [OF w])
    note IH = less(1) [of r]
    show ?thesis
    proof (cases "c \<noteq> 37 \<and> c \<noteq> 10")
      case True
      then show ?thesis using IH [OF _ _ wr [OF w]] less(4) b Cons by simp
    next
      case False
      note e = less(4) [unfolded Cons format_loop.simps if_not_P [OF False]]
      show ?thesis
      proof (cases r)
        case Nil
        then show ?thesis using e fewer [OF nl] by simp
      next
        case r: (Cons d rest)
        have tl: "in_window s (Suc (length rest)) u" if "in_window s m u" "Suc (length rest) \<le> m" for m u using fewer that by blast
        have x: "in_window s (Suc (length r)) (if d = 120 then Diagnose_WriteChar 120 (Diagnose_WriteChar 48 t) else t)"
          using WriteChar_window [OF wr [OF w], of "Suc (length r)"] b fewer [OF w] by simp
        have int: "in_window s (Suc (length rest)) (PrintInt v base (if d = 120 then Diagnose_WriteChar 120 (Diagnose_WriteChar 48 t) else t))" for v base
          using b r by (intro tl [OF PrintInt_window [OF _ x]]) simp_all
        have str: "in_window s (Suc (length rest)) (fold Diagnose_WriteChar cs t)" for cs
          using b r by (intro tl [OF chars_window [OF w]]) simp_all
        note IH2 = less(1) [of rest]
        have short: "length rest < length fmt" "length rest < 2 ^ 31" "length r < length fmt" "length r < 2 ^ 31" using b Cons r by simp_all
        consider (i) "d = 100 \<or> d = 120" | (s) "d = 115" | (l) "\<not> (d = 100 \<or> d = 120)" "d \<noteq> 115" by blast
        then show ?thesis
        proof cases
          case i
          then obtain v args' where "format_loop rest args' (PrintInt v (if d = 100 then 10 else 16)
              (if d = 120 then Diagnose_WriteChar 120 (Diagnose_WriteChar 48 t) else t)) = Done u"
            using e r unfolding Let_def by (auto split: list.splits warg.splits)
          then show ?thesis by (rule IH2 [OF short(1,2) int])
        next
          case s
          then obtain cs args' where "format_loop rest args' (fold Diagnose_WriteChar cs t) = Done u"
            using e r by (auto split: list.splits warg.splits)
          then show ?thesis by (rule IH2 [OF short(1,2) str])
        next
          case l
          then have "format_loop r args (Diagnose_NextLine t) = Done u" using e r by simp
          then show ?thesis by (rule IH [OF short(3,4) nl])
        qed
      qed
    qed
  qed
qed

text \<open>
  C40. The diagnosis output stays in its window: while the screen is divided, a message, whatever it holds, changes no
  cell of the rows of the terminal and leaves the screen divided.
\<close>

theorem diagnosis_keeps_terminal:
  assumes "divided s" "length fmt < 2 ^ 31" "unat (m_Row s) < 2 ^ 31" "Diagnose_Write fmt args s = Done t"
  shows "divided t \<and> CRT_ROWS t = CRT_ROWS s \<and> (\<forall>a. unat a < 80 * unat (CRT_ROWS s) \<longrightarrow> m_VideoMemory t a = m_VideoMemory s a)"
proof (cases "trace_on s")
  case True
  have "in_window s (Suc (length fmt)) s" using assms(1-3) by (simp add: in_window_def)
  then have "in_window s 1 t" using format_window [OF assms(2)] assms(4) True by (simp add: Diagnose_Write_def)
  then show ?thesis by (simp add: in_window_def)
qed (use assms in \<open>simp add: Diagnose_Write_def\<close>)

definition demo_diag :: diag where
  "demo_diag = con.extend demo_con (diag.fields 10 15 0 True)"

lemma demo_diag_simps [simp]: "Diagnose_ROWS demo_diag = 10" "m_Row demo_diag = 15" "trace_on demo_diag" "CRT_ROWS demo_diag = 15"
  "m_Column demo_diag = 0"
  by (simp_all add: demo_diag_def diag.defs demo_con_def con.defs km.defs demo_km_def)

lemma demo_message: "\<exists>t. Diagnose_Write [65, 10, 66] [] demo_diag = Done t"
  by (simp add: Diagnose_Write_def)

lemma diagnosis_keeps_terminal_witness:
  "\<exists>t. Diagnose_Write [65, 10, 66] [] demo_diag = Done t \<and> (\<forall>a. unat a < 1200 \<longrightarrow> m_VideoMemory t a = m_VideoMemory demo_diag a)"
proof -
  obtain t where t: "Diagnose_Write [65, 10, 66] [] demo_diag = Done t" using demo_message by blast
  from diagnosis_keeps_terminal [OF _ _ _ t] t show ?thesis by (simp add: divided_def)
qed

end
