(* ===== verification/Traps.thy ===== *)
theory Traps
  imports ExecFile Diagnosis FileSyscalls
begin

text \<open>
  The system call trap with its table (\<open>interrupt/SystemCall.cpp\<close>) and the exceptions
  (\<open>interrupt/Exception.cpp\<close>), on the whole state of the kernel.
\<close>

section \<open>The environment of a trap\<close>

text \<open>What memory held before it was given out, and the code of \<open>runtime\<close> that every program gets.\<close>

record kenv =
  e_stale :: "int \<Rightarrow> u8 list"
  e_pages :: "u32 \<Rightarrow> pte list"
  e_junk :: exec_junk
  e_runtime :: "u8 list"

fun errno_value :: "errno \<Rightarrow> int" where
  "errno_value NOERROR = 0" | "errno_value EPERM = 1" | "errno_value ENOENT = 2" | "errno_value ESRCH = 3"
| "errno_value EINTR = 4" | "errno_value EIO = 5" | "errno_value ENXIO = 6" | "errno_value E2BIG = 7"
| "errno_value ENOEXEC = 8" | "errno_value EBADF = 9" | "errno_value ECHILD = 10" | "errno_value EAGAIN = 11"
| "errno_value ENOMEM = 12" | "errno_value EACCES = 13" | "errno_value EFAULT = 14" | "errno_value ENOTBLK = 15"
| "errno_value EBUSY = 16" | "errno_value EEXIST = 17" | "errno_value EXDEV = 18" | "errno_value ENODEV = 19"
| "errno_value ENOTDIR = 20" | "errno_value EISDIR = 21" | "errno_value EINVAL = 22" | "errno_value ENFILE = 23"
| "errno_value EMFILE = 24" | "errno_value ENOTTY = 25" | "errno_value ETXTBSY = 26" | "errno_value EFBIG = 27"
| "errno_value ENOSPC = 28" | "errno_value ESPIPE = 29" | "errno_value EROFS = 30" | "errno_value EMLINK = 31"
| "errno_value EPIPE = 32" | "errno_value ENOSYS = 100"

section \<open>The table\<close>

text \<open>The handlers by the names of their functions, and the entries \<open>count\<close> and \<open>call\<close>.\<close>

datatype handler =
    H_NullSystemCall | H_Rexit | H_Fork | H_Read | H_Write | H_Open | H_Close | H_Wait | H_Creat | H_Link | H_UnLink
  | H_Exec | H_ChDir | H_GTime | H_MkNod | H_ChMod | H_ChOwn | H_SBreak | H_Stat | H_Seek | H_Getpid | H_Smount
  | H_Sumount | H_Setuid | H_Getuid | H_Stime | H_Ptrace | H_Nosys | H_FStat | H_Trace | H_Stty | H_Gtty | H_Nice
  | H_Sslep | H_Sync | H_Kill | H_Getswit | H_Pwd | H_Dup | H_Pipe | H_Times | H_Profil | H_Setgid | H_Getgid
  | H_Ssig | H_Getmypri | H_Getppid

definition SystemEntranceTable :: "(nat \<times> handler) list" where
  "SystemEntranceTable =
    [(0, H_NullSystemCall), (1, H_Rexit), (0, H_Fork), (3, H_Read), (3, H_Write), (2, H_Open), (1, H_Close), (1, H_Wait),
     (2, H_Creat), (2, H_Link), (1, H_UnLink), (3, H_Exec), (1, H_ChDir), (0, H_GTime), (3, H_MkNod), (2, H_ChMod),
     (3, H_ChOwn), (1, H_SBreak), (2, H_Stat), (3, H_Seek), (0, H_Getpid), (3, H_Smount), (1, H_Sumount), (1, H_Setuid),
     (0, H_Getuid), (1, H_Stime), (3, H_Ptrace), (0, H_Nosys), (2, H_FStat), (1, H_Trace), (0, H_NullSystemCall), (2, H_Stty),
     (2, H_Gtty), (0, H_Nosys), (1, H_Nice), (1, H_Sslep), (0, H_Sync), (2, H_Kill), (0, H_Getswit), (1, H_Pwd),
     (0, H_Nosys), (1, H_Dup), (1, H_Pipe), (1, H_Times), (4, H_Profil), (0, H_Nosys), (1, H_Setgid), (0, H_Getgid),
     (2, H_Ssig), (0, H_Nosys), (0, H_Getmypri), (0, H_Getppid)] @ replicate 12 (0, H_Nosys)"

section \<open>The handlers\<close>

text \<open>
  How a handler ends: it returns; it goes back to \<open>Trap\<close> past \<open>Trap1\<close> because of a signal; the process is gone;
  or it gives up the processor in the middle and goes on later.
\<close>

datatype trap_end =
    Returned
  | Interrupted
  | Exited
  | In_Wait bool int
  | In_Sleep int
  | In_Break u32
  | In_Exec exec_end int int

text \<open>The arguments are the registers from \<open>ebx\<close> on; a path is the string the first one points to.\<close>

definition file_call_of :: "handler \<Rightarrow> u32 list \<Rightarrow> (int \<Rightarrow> u8) \<Rightarrow> file_call option" where
  "file_call_of h r m =
     (let a = \<lambda>k. sint (r ! k); p = \<lambda>k. uint (r ! k); path = user_string m (p 0)
      in case h of
           H_Read \<Rightarrow> Some (Sys_Read (a 0) (p 1) (a 2))
         | H_Write \<Rightarrow> Some (Sys_Write (a 0) (p 1) (a 2))
         | H_Open \<Rightarrow> map_option (\<lambda>c. Sys_Open c (r ! 1)) path
         | H_Close \<Rightarrow> Some (Sys_Close (a 0))
         | H_Creat \<Rightarrow> map_option (\<lambda>c. Sys_Creat c (r ! 1)) path
         | H_Link \<Rightarrow> (case (path, user_string m (p 1)) of (Some c, Some d) \<Rightarrow> Some (Sys_Link c d) | _ \<Rightarrow> None)
         | H_UnLink \<Rightarrow> map_option Sys_UnLink path
         | H_ChDir \<Rightarrow> map_option Sys_ChDir path
         | H_MkNod \<Rightarrow> map_option (\<lambda>c. Sys_MkNod c (r ! 1) (a 2)) path
         | H_ChMod \<Rightarrow> map_option (\<lambda>c. Sys_ChMod c (r ! 1)) path
         | H_ChOwn \<Rightarrow> map_option (\<lambda>c. Sys_ChOwn c (a 1) (a 2)) path
         | H_Stat \<Rightarrow> map_option (\<lambda>c. Sys_Stat c (p 1)) path
         | H_Seek \<Rightarrow> Some (Sys_Seek (a 0) (a 1) (a 2))
         | H_FStat \<Rightarrow> Some (Sys_FStat (a 0) (p 1))
         | H_Dup \<Rightarrow> Some (Sys_Dup (a 0))
         | H_Pipe \<Rightarrow> Some (Sys_Pipe (p 0))
         | _ \<Rightarrow> None)"

definition file_handler :: "handler \<Rightarrow> bool" where
  "file_handler h \<longleftrightarrow> h \<in> {H_Read, H_Write, H_Open, H_Close, H_Creat, H_Link, H_UnLink, H_ChDir, H_MkNod, H_ChMod, H_ChOwn,
     H_Stat, H_Seek, H_FStat, H_Dup, H_Pipe}"

definition Sys_Trace :: "u32 \<Rightarrow> 'a diag_scheme \<Rightarrow> 'a diag_scheme" where
  "Sys_Trace arg s =
     (let s = (if Diagnose_ROWS s = 0
               then s\<lparr>Diagnose_ROWS := arg, m_Row := SCREEN_ROWS - arg, m_Column := 0, CRT_ROWS := SCREEN_ROWS - arg\<rparr>
               else (Diagnose_ClearScreen s)\<lparr>Diagnose_ROWS := 0, m_Row := SCREEN_ROWS, m_Column := 0, CRT_ROWS := SCREEN_ROWS\<rparr>)
      in s\<lparr>u_eax := uint (Diagnose_ROWS s)\<rparr>)"

text \<open>
  \<open>Sys_Stty\<close> and \<open>Sys_Gtty\<close> are the same code; \<open>SgTTy\<close> of the console does nothing, and the number of the device is
  taken for its major number.
\<close>

definition Sys_Stty :: "int \<Rightarrow> 'a diag_scheme \<Rightarrow> 'a diag_scheme kcall" where
  "Sys_Stty fd s =
     (let (r, s) = GetF fd s
      in case r of
           None \<Rightarrow> Done s
         | Some f \<Rightarrow>
             (case f_inode (m_File s ! f) of
                None \<Rightarrow> Fault
              | Some i \<Rightarrow>
                  let ip = m_Inode s ! i
                  in if i_mode ip AND IFMT \<noteq> IFCHR then Done (s\<lparr>u_error := ENOTTY\<rparr>)
                     else if sint (word_of_int (i_addr ip ! 0) :: u16) = 0 then Done s else Panic))"

definition Sys_Pwd :: "int \<Rightarrow> 'a nm_scheme \<Rightarrow> 'a nm_scheme" where
  "Sys_Pwd buf s = s\<lparr>umem := store_bytes (umem s) buf (takeWhile (\<lambda>b. b \<noteq> 0) (u_curdir s) @ [0])\<rparr>"

definition Sys_Times :: "int \<Rightarrow> 'a pm_scheme \<Rightarrow> 'a pm_scheme" where
  "Sys_Times buf s = s\<lparr>umem := store_bytes (umem s) buf (bytes_of [u_utime s, u_stime s, u_cutime s, u_cstime s])\<rparr>"

text \<open>A pass of the loops of \<open>Wait\<close> and \<open>Sys_Sslep\<close>, with the three ways it can end.\<close>

definition zombie_child :: "'a pm_scheme \<Rightarrow> bool" where
  "zombie_child s \<longleftrightarrow> list_ex (\<lambda>p. p_ppid p = p_pid (process s ! u_procp s) \<and> p_stat p = SZOMB) (process s)"

definition wait_pass :: "bool \<Rightarrow> int \<Rightarrow> 'a diag_scheme \<Rightarrow> (trap_end \<times> 'a diag_scheme) kcall" where
  "wait_pass hasChild addr s =
     kbind (Wait_round hasChild addr s) (\<lambda>(over, hc, s').
       Done (if \<not> over then In_Wait hc addr
             else if zombie_child s \<or> \<not> hc then Returned else Interrupted, s'))"

definition sslep_pass :: "int \<Rightarrow> 'a diag_scheme \<Rightarrow> (trap_end \<times> 'a diag_scheme) kcall" where
  "sslep_pass wakeTime s =
     kbind (Sslep_round wakeTime s) (\<lambda>(slept, s').
       Done (if slept then In_Sleep wakeTime else if wakeTime > ktime s then Interrupted else Returned, s'))"

definition exec_pass :: "(exec_end \<times> 'a diag_scheme) kcall \<Rightarrow> int \<Rightarrow> int \<Rightarrow> (trap_end \<times> 'a diag_scheme) kcall" where
  "exec_pass r argc argv =
     kbind r (\<lambda>(e, s). Done (if e = Exec_over then Returned else In_Exec e argc argv, s))"

text \<open>The rest of \<open>SBreak\<close> behind the swap.\<close>

definition SBreak_rest :: "u32 \<Rightarrow> 'a km_scheme \<Rightarrow> 'a km_scheme" where
  "SBreak_rest change s =
     (let m = u_md s; dst = p_addr (process s ! u_procp s) + (m_DataSize m + (USIZE + m_StackSize m))
      in data_end (s\<lparr>pmem := copy_down (unat (m_StackSize m)) (dst - change) dst (pmem s)\<rparr>))"

definition file_pass :: "kenv \<Rightarrow> handler \<Rightarrow> u32 list \<Rightarrow> 'a diag_scheme \<Rightarrow> (trap_end \<times> 'a diag_scheme) kcall" where
  "file_pass env h r s =
     (case file_call_of h r (umem s) of
        None \<Rightarrow> Fault
      | Some c \<Rightarrow> kbind (file_syscall console_read console_write (e_stale env) c s) (\<lambda>s. Done (Returned, s)))"

definition break_pass :: "u32 \<Rightarrow> 'a diag_scheme \<Rightarrow> (trap_end \<times> 'a diag_scheme) kcall" where
  "break_pass newEnd s =
     (let change = newEnd - m_DataStartAddress (u_md s) - m_DataSize (u_md s)
      in kbind (SBreak newEnd s) (\<lambda>(here, s). Done (if here then Returned else In_Break change, s)))"

definition run_handler :: "kenv \<Rightarrow> handler \<Rightarrow> u32 list \<Rightarrow> 'a diag_scheme \<Rightarrow> (trap_end \<times> 'a diag_scheme) kcall" where
  "run_handler env h r s =
     (let a = \<lambda>k. sint (r ! k); p = \<lambda>k. uint (r ! k); me = process s ! u_procp s; ret = \<lambda>s. Done (Returned, s)
      in case h of
           H_NullSystemCall \<Rightarrow> ret s
         | H_Nosys \<Rightarrow> ret (s\<lparr>u_error := ENOSYS\<rparr>)
         | H_Rexit \<Rightarrow> kbind (Exit (e_stale env) s) (\<lambda>s. Done (Exited, s))
         | H_Fork \<Rightarrow> kbind (Fork (e_pages env) s) ret
         | H_Wait \<Rightarrow> wait_pass False (p 0) s
         | H_Exec \<Rightarrow>
             (case user_string (umem s) (p 0) of
                None \<Rightarrow> Fault
              | Some path \<Rightarrow>
                  exec_pass (Exec console_read (e_stale env) (e_junk env) (e_runtime env) (a 1) (p 2) (s\<lparr>u_dirp := path\<rparr>))
                    (a 1) (p 2))
         | H_GTime \<Rightarrow> ret (s\<lparr>u_eax := ktime s\<rparr>)
         | H_SBreak \<Rightarrow> break_pass (r ! 0) s
         | H_Getpid \<Rightarrow> ret (s\<lparr>u_eax := p_pid me\<rparr>)
         | H_Smount \<Rightarrow> ret s
         | H_Sumount \<Rightarrow> ret s
         | H_Setuid \<Rightarrow> ret (Setuid (a 0) s)
         | H_Getuid \<Rightarrow> ret (Getuid s)
         | H_Stime \<Rightarrow> ret (Stime s)
         | H_Ptrace \<Rightarrow> ret s
         | H_Trace \<Rightarrow> ret (Sys_Trace (r ! 0) s)
         | H_Stty \<Rightarrow> kbind (Sys_Stty (a 0) s) ret
         | H_Gtty \<Rightarrow> kbind (Sys_Stty (a 0) s) ret
         | H_Nice \<Rightarrow> ret (Nice (a 0) s)
         | H_Sslep \<Rightarrow> sslep_pass (uint (word_of_int (ktime s + a 0) :: u32)) s
         | H_Sync \<Rightarrow> kbind (Update s) ret
         | H_Kill \<Rightarrow> ret (Kill (a 0) (a 1) s)
         | H_Getswit \<Rightarrow> ret (s\<lparr>u_eax := uint (SwtchNum s)\<rparr>)
         | H_Pwd \<Rightarrow> ret (Sys_Pwd (p 0) s)
         | H_Times \<Rightarrow> ret (Sys_Times (p 0) s)
         | H_Profil \<Rightarrow> ret s
         | H_Setgid \<Rightarrow> ret (Setgid (a 0) s)
         | H_Getgid \<Rightarrow> ret (Getgid s)
         | H_Ssig \<Rightarrow> ret (Ssig (a 0) (r ! 1) s)
         | H_Getmypri \<Rightarrow> ret (s\<lparr>u_eax := p_pri me\<rparr>)
         | H_Getppid \<Rightarrow> ret (s\<lparr>u_eax := p_ppid me\<rparr>)
         | _ \<Rightarrow> file_pass env h r s)"

section \<open>The trap\<close>

text \<open>The reaction to a signal: a handler of the program is entered, or the process ends.\<close>

definition take_signal :: "kenv \<Rightarrow> 'a diag_scheme \<Rightarrow> (trap_end \<times> 'a diag_scheme) kcall" where
  "take_signal env s =
     kbind (PSig (u_procp s) s) (\<lambda>(ends, s).
       if ends then kbind (Exit (e_stale env) s) (\<lambda>s. Done (Exited, s)) else Done (Returned, s))"

text \<open>The format is \<open>regs->eax = %d , u.u_error = %d\<close> and a line feed.\<close>

definition error_format :: "u8 list" where
  "error_format = [114, 101, 103, 115, 45, 62, 101, 97, 120, 32, 61, 32, 37, 100, 32, 44, 32, 117, 46, 117, 95, 101, 114, 114, 111,
     114, 32, 61, 32, 37, 100, 10]"

text \<open>The part of \<open>Trap\<close> behind \<open>Trap1\<close>.\<close>

definition trap_return :: "kenv \<Rightarrow> 'a diag_scheme \<Rightarrow> (trap_end \<times> 'a diag_scheme) kcall" where
  "trap_return env s =
     (let s = (if u_intflg s then s\<lparr>u_error := EINTR\<rparr> else s); e = errno_value (u_error s)
      in kbind (if u_error s \<noteq> NOERROR
                then Diagnose_Write error_format [Number (word_of_int (- e)), Number (word_of_int e)] (s\<lparr>u_eax := - e\<rparr>)
                else Done s) (\<lambda>s.
         kbind (IsSig (u_procp s) s) (\<lambda>sig.
         kbind (if sig \<noteq> 0 then take_signal env s else Done (Returned, s)) (\<lambda>(e, s).
         Done (e, if e = Exited then s else SetPri (u_procp s) s)))))"

definition trap_leave :: "kenv \<Rightarrow> trap_end \<times> 'a diag_scheme \<Rightarrow> (trap_end \<times> 'a diag_scheme) kcall" where
  "trap_leave env = (\<lambda>(e, s).
     if e = Returned then trap_return env (s\<lparr>u_intflg := False\<rparr>)
     else if e = Interrupted then trap_return env s
     else Done (e, s))"

text \<open>The number of the call is not checked against the table.\<close>

definition Trap :: "kenv \<Rightarrow> u32 list \<Rightarrow> 'a diag_scheme \<Rightarrow> (trap_end \<times> 'a diag_scheme) kcall" where
  "Trap env r s =
     kbind (IsSig (u_procp s) s) (\<lambda>sig.
       if sig \<noteq> 0
       then kbind (take_signal env s) (\<lambda>(e, s).
              Done (e, if e = Exited then s else s\<lparr>u_error := EINTR, u_eax := - errno_value EINTR\<rparr>))
       else if u_eax s < 0 \<or> u_eax s \<ge> int (length SystemEntranceTable) then Fault
       else
         let (count, h) = SystemEntranceTable ! nat (u_eax s);
             s = s\<lparr>u_error := NOERROR, u_intflg := True, u_arg0 := (if count > 0 then sint (r ! 0) else u_arg0 s)\<rparr>
         in kbind (run_handler env h r s) (trap_leave env))"

text \<open>A process that runs again in the middle of a call; \<open>Sleep\<close> looks for a signal first.\<close>

definition trap_again :: "kenv \<Rightarrow> trap_end \<Rightarrow> 'a diag_scheme \<Rightarrow> (trap_end \<times> 'a diag_scheme) kcall" where
  "trap_again env e s =
     (let woken = \<lambda>go. kbind (IsSig (u_procp s) s) (\<lambda>sig. if sig \<noteq> 0 then Done (Interrupted, s) else go)
      in kbind (case e of
           In_Wait hasChild addr \<Rightarrow> woken (wait_pass hasChild addr s)
         | In_Sleep wakeTime \<Rightarrow> woken (sslep_pass wakeTime s)
         | In_Break change \<Rightarrow> Done (Returned, SBreak_rest change s)
         | In_Exec (Exec_sleeps i) argc argv \<Rightarrow>
             exec_pass (Exec_enter console_read (e_stale env) (e_junk env) (e_runtime env) argc argv i s) argc argv
         | In_Exec (Exec_swapped l) argc argv \<Rightarrow>
             kbind (Exec_finish console_read (e_stale env) (e_runtime env) l s) (\<lambda>s. Done (Returned, s))
         | _ \<Rightarrow> Fault) (trap_leave env))"

section \<open>Exceptions\<close>

text \<open>The signal of every exception; the handler of the page fault is of its own.\<close>

definition exception_signal :: "nat \<Rightarrow> int option" where
  "exception_signal v =
     (if v = 0 then Some 8 else if v = 1 then Some 5
        else if v = 2 then Some 0 else if v = 3 then Some 5 else if v = 4 then Some 11 else if v = 5 then Some 11
        else if v = 6 then Some 4 else if v = 7 then Some 11 else if v = 8 then Some 11 else if v = 9 then Some 8
        else if v = 10 then Some 11 else if v = 11 then Some 7 else if v = 12 then Some 7 else if v = 13 then Some 11
        else if v = 16 then Some 8 else if v = 17 then Some 7 else if v = 18 then Some 0 else if v = 19 then Some 8 else None)"

definition signal_self :: "kenv \<Rightarrow> int \<Rightarrow> 'a diag_scheme \<Rightarrow> (trap_end \<times> 'a diag_scheme) kcall" where
  "signal_self env sig s =
     (let s = PSignal (u_procp s) sig s
      in kbind (IsSig (u_procp s) s) (\<lambda>n. if n \<noteq> 0 then take_signal env s else Done (Returned, s)))"

definition Exception_handler :: "kenv \<Rightarrow> bool \<Rightarrow> int \<Rightarrow> 'a diag_scheme \<Rightarrow> (trap_end \<times> 'a diag_scheme) kcall" where
  "Exception_handler env user sig s = (if user then signal_self env sig s else Panic)"

definition SIGSEGV :: int where "SIGSEGV = 11"

text \<open>\<open>cr2\<close> is the address; the message is \<open>Invalid MM access\<close>.\<close>

definition stack_fault :: "u32 \<Rightarrow> 'a pm_scheme \<Rightarrow> bool" where
  "stack_fault cr2 s \<longleftrightarrow>
     (let m = u_md s
      in cr2 < USER_SPACE_SIZE - m_StackSize m \<and> cr2 \<ge> u_esp s - 8 \<and>
         m_DataSize m + m_StackSize m + PAGE_SIZE < USER_SPACE_SIZE - m_DataStartAddress m)"

definition PageFault :: "kenv \<Rightarrow> bool \<Rightarrow> u32 \<Rightarrow> 'a diag_scheme \<Rightarrow> (trap_end \<times> 'a diag_scheme) kcall" where
  "PageFault env user cr2 s =
     (if \<not> user then Panic
      else if stack_fault cr2 s then kbind (SStack s) (\<lambda>(_, s). Done (Returned, s))
      else kbind (Diagnose_Write [73, 110, 118, 97, 108, 105, 100, 32, 77, 77, 32, 97, 99, 99, 101, 115, 115] [] s)
             (signal_self env SIGSEGV))"

end
