(* ===== verification/TrapSpec.thy ===== *)
theory TrapSpec
  imports Traps ImageSpec SwapSpec
begin

text \<open>
  What comes back from a trap: the error convention of the system calls, and the growth of the stack on a
  page fault.
\<close>

section \<open>The error convention\<close>

text \<open>The diagnosis output touches the screen only.\<close>

definition screen_only :: "'a diag_scheme \<Rightarrow> 'a diag_scheme \<Rightarrow> bool" where
  "screen_only s t \<longleftrightarrow> u_error t = u_error s \<and> u_eax t = u_eax s \<and> process t = process s \<and> u_procp t = u_procp s \<and>
     u_signal t = u_signal s"

lemma screen_only_refl [simp]: "screen_only s s"
  by (simp add: screen_only_def)

lemma screen_only_trans: "screen_only s t \<Longrightarrow> screen_only t u \<Longrightarrow> screen_only s u"
  by (simp add: screen_only_def)

lemma diag_NextLine: "screen_only s (Diagnose_NextLine s)"
  by (simp add: screen_only_def Diagnose_NextLine_def)

lemma screen_WriteChar: "screen_only s (Diagnose_WriteChar c s)"
  by (simp add: screen_only_def Diagnose_WriteChar_def Let_def Diagnose_NextLine_def Diagnose_ClearScreen_def)

lemma screen_fold: "screen_only s (fold Diagnose_WriteChar cs s)"
  by (induction cs arbitrary: s) (auto intro: screen_only_trans [OF screen_WriteChar])

lemma screen_PrintInt: "screen_only s (PrintInt v base s)"
proof (induction v base s rule: PrintInt.induct)
  case (1 v base s)
  then show ?case
    by (subst PrintInt.simps) (auto simp: Let_def intro: screen_WriteChar screen_only_trans [OF _ screen_WriteChar])
qed

lemma screen_format: "format_loop fmt args s = Done t \<Longrightarrow> screen_only s t"
proof (induction fmt args s rule: format_loop.induct)
  case (2 c fmt args s)
  show ?case
  proof (cases "c \<noteq> 37 \<and> c \<noteq> 10")
    case True
    then show ?thesis using 2(1,5) screen_only_trans [OF screen_WriteChar] by simp
  next
    case False
    note e = 2(5) [unfolded format_loop.simps if_not_P [OF False]]
    show ?thesis
    proof (cases fmt)
      case Nil
      then show ?thesis using e diag_NextLine by auto
    next
      case (Cons d rest)
      define x where "x = (if d = 120 then Diagnose_WriteChar 120 (Diagnose_WriteChar 48 s) else s)"
      have x: "screen_only s x" unfolding x_def by (auto intro: screen_only_trans [OF screen_WriteChar screen_WriteChar])
      consider (i) "d = 100 \<or> d = 120" | (s) "d = 115" | (l) "\<not> (d = 100 \<or> d = 120)" "d \<noteq> 115" by blast
      then show ?thesis
      proof cases
        case i
        then obtain v args' where a: "args = Number v # args'" "format_loop rest args' (PrintInt v (if d = 100 then 10 else 16) x) = Done t"
          using e Cons unfolding Let_def x_def by (auto split: list.splits warg.splits)
        have "screen_only (PrintInt v (if d = 100 then 10 else 16) x) t"
          using a(2) by (rule 2(2) [OF False Cons i a(1) refl x_def])
        with x show ?thesis using screen_PrintInt screen_only_trans by blast
      next
        case s
        then obtain cs args' where a: "args = Chars cs # args'" "format_loop rest args' (fold Diagnose_WriteChar cs s) = Done t"
          using e Cons by (auto split: list.splits warg.splits)
        then have "screen_only (fold Diagnose_WriteChar cs s) t" using 2(3) [OF False Cons _ s a(1) refl] s by simp
        then show ?thesis using screen_fold screen_only_trans by blast
      next
        case l
        then have "format_loop fmt args (Diagnose_NextLine s) = Done t" using e Cons by simp
        then show ?thesis using 2(4) [OF False Cons l] diag_NextLine screen_only_trans by blast
      qed
    qed
  qed
qed simp

lemma screen_Write: "Diagnose_Write fmt args s = Done t \<Longrightarrow> screen_only s t"
  by (auto simp: Diagnose_Write_def split: if_splits dest: screen_format)

lemma PSig_error: "PSig i s = Done (False, t) \<Longrightarrow> u_error t = NOERROR"
  by (auto simp: PSig_def Let_def set_proc_def split: if_splits)

lemma take_signal_error: "take_signal env s = Done (Returned, t) \<Longrightarrow> u_error t = NOERROR"
  by (auto simp: take_signal_def kbind_Done split: if_splits dest: PSig_error)

lemma errno_positive: "e \<noteq> NOERROR \<Longrightarrow> 0 < errno_value e"
  by (cases e) simp_all

lemma SetPri_error: "u_error (SetPri i s) = u_error s" "u_eax (SetPri i s) = u_eax s"
  by (simp_all add: SetPri_def Let_def set_proc_def)

lemma trap_return_error:
  assumes "trap_return env s = Done (Returned, t)" "u_error t \<noteq> NOERROR"
  shows "u_eax t = - errno_value (u_error t)"
proof -
  define v where "v = (if u_intflg s then s\<lparr>u_error := EINTR\<rparr> else s)"
  obtain w where w: "(if u_error v \<noteq> NOERROR
        then Diagnose_Write error_format [Number (word_of_int (- errno_value (u_error v))), Number (word_of_int (errno_value (u_error v)))]
               (v\<lparr>u_eax := - errno_value (u_error v)\<rparr>)
        else Done v) = Done w"
    and rest: "kbind (IsSig (u_procp w) w) (\<lambda>sig. kbind (if sig \<noteq> 0 then take_signal env w else Done (Returned, w)) (\<lambda>(e, s).
         Done (e, if e = Exited then s else SetPri (u_procp s) s))) = Done (Returned, t)"
    using assms(1) unfolding trap_return_def Let_def v_def [symmetric] by (auto simp: kbind_Done)
  obtain n where n: "IsSig (u_procp w) w = Done n" using rest by (cases "IsSig (u_procp w) w") auto
  obtain e x where x0: "(if n \<noteq> 0 then take_signal env w else Done (Returned, w)) = Done (e, x)"
      "(e, if e = Exited then x else SetPri (u_procp x) x) = (Returned, t)"
    using rest n by (cases "if n \<noteq> 0 then take_signal env w else Done (Returned, w)") auto
  then have x: "(if n \<noteq> 0 then take_signal env w else Done (Returned, w)) = Done (Returned, x)" "t = SetPri (u_procp x) x"
    by auto
  have xe: "u_error x \<noteq> NOERROR" using assms(2) by (simp add: x(2) SetPri_error)
  then have xw: "x = w" using x(1) take_signal_error by (auto split: if_splits)
  have "u_eax w = - errno_value (u_error w)"
  proof (cases "u_error v = NOERROR")
    case True
    then show ?thesis using w xe xw by simp
  next
    case False
    then have "screen_only (v\<lparr>u_eax := - errno_value (u_error v)\<rparr>) w" using w screen_Write by fastforce
    then show ?thesis by (simp add: screen_only_def)
  qed
  then show ?thesis by (simp add: x(2) SetPri_error xw)
qed

lemma trap_leave_error:
  "trap_leave env (e, s) = Done (Returned, t) \<Longrightarrow> u_error t \<noteq> NOERROR \<Longrightarrow> u_eax t = - errno_value (u_error t)"
  by (auto simp: trap_leave_def split: if_splits intro: trap_return_error)

text \<open>
  C35. Every way back from a system call to the program follows the error convention: whether the call ran through, was
  refused because of a pending signal, was interrupted while it slept, or went on after a sleep or a swap, if \<open>u_error\<close> is
  set then the result register holds its negative number.
\<close>

theorem traps_report_errors:
  assumes how: "Trap env r s = Done (Returned, t) \<or> trap_again env e s = Done (Returned, t)" and err: "u_error t \<noteq> NOERROR"
  shows "u_eax t = - errno_value (u_error t) \<and> u_eax t < 0"
proof -
  have "u_eax t = - errno_value (u_error t)"
  proof (rule disjE [OF how])
    assume tr: "Trap env r s = Done (Returned, t)"
    then obtain sig where sig: "IsSig (u_procp s) s = Done sig" by (auto simp: Trap_def kbind_Done)
    show ?thesis
    proof (cases "sig = 0")
      case True
      then show ?thesis
        using tr sig err by (auto simp: Trap_def Let_def kbind_Done split: if_splits prod.splits intro: trap_leave_error)
    next
      case False
      then show ?thesis using tr sig by (auto simp: Trap_def kbind_Done split: if_splits)
    qed
  next
    assume "trap_again env e s = Done (Returned, t)"
    then show ?thesis using err unfolding trap_again_def Let_def kbind_Done by (auto intro: trap_leave_error)
  qed
  then show ?thesis using errno_positive [OF err] by simp
qed

text \<open>\<open>close\<close> of a descriptor that does not exist.\<close>

definition demo_env :: kenv where
  "demo_env = \<lparr>e_stale = (\<lambda>b. []), e_pages = (\<lambda>a. []), e_junk = \<lparr>j_dos = [], j_nt = [], j_sections = [], j_stack = (\<lambda>a. 0)\<rparr>,
     e_runtime = []\<rparr>"

lemma demo_diag_pm [simp]: "process demo_diag = process demo_pm" "u_procp demo_diag = 1" "userPages demo_diag = userPages demo_km"
  "m_File demo_diag = m_File demo_pm" "u_ofiles demo_diag = u_ofiles demo_pm" "u_signal demo_diag = u_signal demo_pm"
  by (simp_all add: demo_diag_def demo_con_def demo_km_def diag.defs con.defs km.defs pm.defs demo_pm_def)

lemma demo_close: "\<exists>t. Trap demo_env [99, 0, 0, 0] (demo_diag\<lparr>u_eax := 6, trace_on := False\<rparr>) = Done (Returned, t) \<and> u_error t = EBADF"
  using demo_process(3) [of 1]
  by (simp add: NPROC_def Trap_def IsSig_def Let_def SystemEntranceTable_def run_handler_def file_pass_def file_call_of_def trap_entry_def
      Close_def GetF_def NOFILES_def trap_leave_def trap_return_def Diagnose_Write_def SetPri_error user_proc_def idle_proc_def)

lemma traps_report_errors_witness:
  "\<exists>t. Trap demo_env [99, 0, 0, 0] (demo_diag\<lparr>u_eax := 6, trace_on := False\<rparr>) = Done (Returned, t) \<and> u_eax t = -9"
proof -
  obtain t where t: "Trap demo_env [99, 0, 0, 0] (demo_diag\<lparr>u_eax := 6, trace_on := False\<rparr>) = Done (Returned, t)" "u_error t = EBADF"
    using demo_close by blast
  from traps_report_errors [OF disjI1 [OF t(1)]] t show ?thesis by auto
qed

section \<open>Growth of the stack\<close>

text \<open>When memory is short \<open>Expand\<close> swaps the process out; the user structure is untouched.\<close>

lemma user_wake_up [simp]: "u_md (WakeUpAll c s) = u_md s" "u_procp (WakeUpAll c s) = u_procp s" "length (process (WakeUpAll c s)) = length (process s)"
proof -
  let ?same = "\<lambda>t s. u_md t = u_md s \<and> u_procp t = u_procp s \<and> length (process t) = length (process s)"
  have m: "?same (make_ready i s) s" for i and s :: "'a pm_scheme" by (simp add: make_ready_def set_proc_def Let_def)
  have w: "?same (wake_ready c is s) s" for c "is" and s :: "'a pm_scheme" by (induction "is" arbitrary: s) (auto simp: m)
  have r: "?same (SetRun i s) s" for i and s :: "'a pm_scheme" by (simp add: SetRun_def Let_def m w)
  have u: "?same (wake_up c is s) s" for c "is" and s :: "'a pm_scheme" by (induction "is" arbitrary: s) (auto simp: r)
  show "u_md (WakeUpAll c s) = u_md s" "u_procp (WakeUpAll c s) = u_procp s" "length (process (WakeUpAll c s)) = length (process s)" by (simp_all add: u WakeUpAll_def)
qed

lemma frees_user:
  "free_user sz a s = Done t \<Longrightarrow> u_md t = u_md s \<and> u_procp t = u_procp s \<and> length (process t) = length (process s)"
  "alloc_user sz s = Done (b, t) \<Longrightarrow> u_md t = u_md s \<and> u_procp t = u_procp s \<and> length (process t) = length (process s)"
  "alloc_swap sz s = Done (b, t) \<Longrightarrow> u_md t = u_md s \<and> u_procp t = u_procp s \<and> length (process t) = length (process s)"
  "Swap_write b a n s = (ok, t) \<Longrightarrow> u_md t = u_md s \<and> u_procp t = u_procp s \<and> length (process t) = length (process s)"
  by (auto simp: free_user_def alloc_user_def alloc_swap_def Swap_write_def split: option.splits if_splits)

lemma XccDec_user: "XccDec x s = Done t \<Longrightarrow> u_md t = u_md s \<and> u_procp t = u_procp s \<and> length (process t) = length (process s)"
  by (auto simp: XccDec_def Let_def set_text_def split: if_splits dest: frees_user(1))

lemma kbindE: "kbind c f = Done t \<Longrightarrow> (\<And>x. c = Done x \<Longrightarrow> f x = Done t \<Longrightarrow> P) \<Longrightarrow> P"
  by (auto simp: kbind_Done)

lemma set_proc_user [simp]: "u_md (set_proc i p s) = u_md s" "u_procp (set_proc i p s) = u_procp s" "length (process (set_proc i p s)) = length (process s)"
  by (simp_all add: set_proc_def)

lemma text_user: "(case x of None \<Rightarrow> Done s | Some t \<Rightarrow> XccDec t s) = Done t \<Longrightarrow>
    u_md t = u_md s \<and> u_procp t = u_procp s \<and> length (process t) = length (process s)"
  by (auto split: option.splits dest: XccDec_user)

lemma XSwap_user: "XSwap i mem sz s = Done t \<Longrightarrow> u_md t = u_md s \<and> u_procp t = u_procp s \<and> length (process t) = length (process s)"
  unfolding XSwap_def Let_def
  by (elim kbindE; clarsimp split: if_split_asm dest!: frees_user(3))
    (elim kbindE; clarsimp split: prod.split_asm if_split_asm dest!: frees_user text_user;
      elim kbindE; clarsimp split: if_split_asm dest!: frees_user)+

lemma swap_flags: "has_flag (set_flag f SSWAP) SLOAD = has_flag f SLOAD" "has_flag (set_flag f SSWAP) SSWAP"
  by (simp_all add: has_flag_def set_flag_def SSWAP_def SLOAD_def bit.conj_disj_distrib2)

text \<open>The process is in the swap area: its size is the new one, and the bytes it had are in the blocks at its address.\<close>

definition swapped_image :: "u32 \<Rightarrow> 'a km_scheme \<Rightarrow> 'a km_scheme \<Rightarrow> bool" where
  "swapped_image n s t \<longleftrightarrow>
     (let p = process s ! u_procp s; q = process t ! u_procp s
      in \<not> has_flag (p_flag q) SLOAD \<and> has_flag (p_flag q) SSWAP \<and> p_size q = n \<and>
         (\<forall>k < swap_len (p_size p). disk t ROOTDEV (uint (p_addr q) + int (k div 512)) ! (k mod 512) = image_byte s k))"

lemma Expand_swaps:
  fixes s :: "'a km_scheme"
  assumes e: "Expand n s = Done (False, t)" and i: "u_procp s < NPROC" "length (process s) = NPROC" and sz: "p_size (process s ! u_procp s) \<noteq> 0"
  shows "u_md t = u_md s \<and> u_procp t = u_procp s \<and> swapped_image n s t"
proof -
  let ?i = "u_procp s"
  let ?p = "process s ! ?i"
  let ?s = "set_proc ?i (?p\<lparr>p_size := n\<rparr>) s"
  obtain u w where u: "alloc_user n ?s = Done (0, u)" and w: "XSwap ?i True (p_size ?p) u = Done w"
    and t: "t = set_proc ?i ((process w ! ?i)\<lparr>p_flag := set_flag (p_flag (process w ! ?i)) SSWAP\<rparr>) w"
    using e by (auto simp: Expand_def Let_def kbind_Done split: if_splits)
  note ku = frees_keep(3) [OF u] frees_user(2) [OF u] and kw = XSwap_user [OF w]
  have pu: "process u ! ?i = ?p\<lparr>p_size := n\<rparr>" "length (process u) = NPROC" "pmem u = pmem s" using ku i by (simp_all add: set_proc_def)
  note xw = XSwap_writes [OF w i(1) pu(2) refl]
  have "length (process w) = NPROC" using kw pu(2) by simp
  moreover have "pmem s (p_addr ?p + of_nat k) = image_byte s k" for k by (simp add: image_byte_def)
  ultimately show ?thesis using xw pu ku kw i sz by (auto simp: t swapped_image_def Let_def swap_flags set_proc_def)
qed


lemma SStack_swaps:
  fixes s :: "'a km_scheme"
  assumes ok: "image_ok s" and e: "SStack s = Done (False, t)" and len: "length (process s) = NPROC"
    and room: "data_size s + 0x1000 \<le> 0x800000" "stack_size s + 0x1000 \<le> 0x800000"
  shows "m_StackSize (u_md t) = m_StackSize (u_md s) + 0x1000 \<and> m_DataSize (u_md t) = m_DataSize (u_md s) \<and>
    swapped_image (p_size (process s ! u_procp s) + 0x1000) s t"
proof -
  note f = image_facts [OF ok]
  define m where "m = (u_md s)\<lparr>m_StackSize := m_StackSize (u_md s) + 0x1000\<rparr>"
  define tot where "tot = USIZE + m_DataSize m + m_StackSize m"
  obtain ok1 v where est: "EstablishUserPageTable (m_TextStartAddress m) (m_TextSize m) (m_DataStartAddress m) (m_DataSize m)
      (m_StackSize m) (s\<lparr>u_md := m\<rparr>) = Done (ok1, v)" and ok1: "ok1"
    using e by (auto simp: SStack_def Let_def kbind_Done m_def split: if_splits)
  have len': "length (m_Table (u_md (s\<lparr>u_md := m\<rparr>))) = USER_ENTRIES" using f(5) by (simp add: m_def)
  obtain tab hw where v: "v = s\<lparr>u_md := m\<lparr>m_Table := tab\<rparr>, userTables := hw\<rparr>" using establish_cases [OF est len'] ok1 by auto
  have x: "Expand tot v = Done (False, t)"
    using e est ok1 unfolding SStack_def Let_def m_def [symmetric] by (auto simp: kbind_Done m_def tot_def split: if_splits)
  have i: "u_procp v < NPROC" "length (process v) = NPROC" using ok len by (simp_all add: v image_ok_def Let_def)
  have p: "p_size (process s ! u_procp s) = USIZE + m_DataSize (u_md s) + m_StackSize (u_md s)" using ok by (simp add: image_ok_def Let_def)
  have "unat (USIZE + m_DataSize (u_md s) + m_StackSize (u_md s)) = 0x1000 + data_size s + stack_size s"
    using room by (simp add: USIZE_def unat_add_nowrap)
  then have "p_size (process s ! u_procp s) \<noteq> 0" unfolding p by (auto simp del: unat_eq_0 simp flip: unat_eq_0)
  then have "p_size (process v ! u_procp v) \<noteq> 0" by (simp add: v)
  from Expand_swaps [OF x i this] show ?thesis
    by (simp add: v m_def tot_def p swapped_image_def image_byte_def algebra_simps)
qed

text \<open>
  C36. A page fault of a program at an address between its stack pointer and its stack, with room for
  one more page, when \<open>SStack\<close> gets through the page tables and the allocation (\<open>here\<close> tells whether it
  comes back in memory). In memory the stack is one page longer: data and user structure
  keep their bytes, and every byte of the old stack is found at its offset from the end of the longer image; or
  the page tables cannot take the page, \<open>u_error\<close> tells so and nothing of the image has moved. Without
  memory for the longer image the process is swapped out, with the new size in its entry and SSWAP set,
  and every byte that the transfer writes (\<open>swap_len\<close>: the driver counts in sixteen bits) is at its offset in
  the blocks; the rest of \<open>SStack\<close> runs when the process is brought in. In all three cases the recorded
  size of the stack has grown by a page, with ENOMEM too.
\<close>

theorem PageFault_grows_stack:
  assumes ok: "image_ok s" and fault: "stack_fault cr2 s" and start: "m_DataStartAddress (u_md s) \<le> USER_SPACE_SIZE"
    and len: "length (process s) = NPROC" and e: "SStack s = Done (here, t)"
  shows "PageFault env True cr2 s = Done (Returned, t) \<and>
     m_StackSize (u_md t) = m_StackSize (u_md s) + 0x1000 \<and> m_DataSize (u_md t) = m_DataSize (u_md s) \<and>
     (if here
      then u_error t = ENOMEM \<and> (\<forall>k. image_byte t k = image_byte s k) \<or>
        (\<forall>k < 0x1000 + data_size s. image_byte t k = image_byte s k) \<and>
        (\<forall>k < stack_size s. image_byte t (0x2000 + data_size s + k) = image_byte s (0x1000 + data_size s + k))
      else swapped_image (p_size (process s ! u_procp s) + 0x1000) s t)"
proof -
  note f = image_facts [OF ok]
  have u: "unat (USER_SPACE_SIZE - m_DataStartAddress (u_md s)) \<le> 0x800000"
    using start by (simp add: USER_SPACE_SIZE_def unat_sub word_le_nat_alt)
  have "unat (m_DataSize (u_md s) + m_StackSize (u_md s) + PAGE_SIZE) = data_size s + stack_size s + 0x1000"
    using f(3,4) by (simp add: PAGE_SIZE_def unat_add_nowrap)
  then have "data_size s + stack_size s + 0x1000 < 0x800000"
    using fault u unfolding stack_fault_def Let_def by (simp add: word_less_nat_alt)
  then have room: "data_size s + 0x1000 \<le> 0x800000" "stack_size s + 0x1000 \<le> 0x800000" by simp_all
  have pf: "PageFault env True cr2 s = Done (Returned, t)" using fault e by (simp add: PageFault_def)
  show ?thesis
  proof (cases here)
    case True
    then show ?thesis using pf SStack_image [OF ok _ room, of t] e by simp
  next
    case False
    then show ?thesis using pf SStack_swaps [OF ok _ len room, of t] e by simp
  qed
qed

text \<open>The process of \<open>demo_image\<close> pushes below its eight bytes of stack.\<close>

definition demo_fault :: diag where
  "demo_fault = set_proc 1 ((user_proc 1)\<lparr>p_addr := 0x300000, p_size := 0x3008\<rparr>) (demo_diag\<lparr>u_md := demo_md, u_esp := 0x7FFFF4\<rparr>)"

lemma demo_fault_fields [simp]: "u_procp demo_fault = 1" "u_md demo_fault = demo_md" "userPages demo_fault = user_pages_init 0x800000"
  "length (process demo_fault) = NPROC" "process demo_fault ! 1 = (user_proc 1)\<lparr>p_addr := 0x300000, p_size := 0x3008\<rparr>"
  "process demo_fault ! Suc 0 = (user_proc 1)\<lparr>p_addr := 0x300000, p_size := 0x3008\<rparr>" "u_esp demo_fault = 0x7FFFF4"
  using demo_process(2) by (simp_all add: demo_fault_def set_proc_def demo_km_def km.defs pm.defs demo_pm_def NPROC_def)

lemma demo_fault_ok: "image_ok demo_fault" "stack_fault 0x7FFFF0 demo_fault" "m_DataStartAddress (u_md demo_fault) \<le> USER_SPACE_SIZE"
proof -
  show "image_ok demo_fault"
    using demo_image_ok by (simp add: image_ok_def Let_def)
qed (simp_all add: stack_fault_def Let_def demo_md_def USER_SPACE_SIZE_def PAGE_SIZE_def)

lemma demo_grows: "\<exists>t. SStack demo_fault = Done (True, t)"
proof -
  have "layout 0x401000 0x1000 0x402000 0x2000 0x1008" by (simp add: layout_def pages_def)
  then obtain tab where f: "fill_tables 0x401000 0x1000 0x402000 0x2000 0x1008 (m_Table demo_md) = Done tab"
    using fill_tables_ok [of "0x401000" "0x1000" "0x402000" "0x2000" "0x1008" "m_Table demo_md"]
    by (auto simp: demo_md_def USER_ENTRIES_def USER_SPACE_PAGE_TABLE_CNT_def ENTRY_CNT_PER_PAGETABLE_def)
  have lim: "\<not> over_limit 0x401000 0x1000 0x2000 0x1008" by (simp add: over_limit_def USER_SPACE_SIZE_def PAGE_SIZE_def)
  have "case AllocMemory (user_pages_init 0x800000) 0x4008 of None \<Rightarrow> False
      | Some (a, p) \<Rightarrow> a \<noteq> 0 \<and> FreeMemory p 0x3008 0x300000 \<noteq> None"
    by code_simp
  then obtain a p q where al: "AllocMemory (user_pages_init 0x800000) 0x4008 = Some (a, p)" "a \<noteq> 0" "FreeMemory p 0x3008 0x300000 = Some q"
    by (auto split: option.splits)
  show ?thesis
    using f lim al
    by (simp add: SStack_def Let_def EstablishUserPageTable_def demo_md_def MapToPageTable_def Expand_def free_user_def alloc_user_def USIZE_def set_proc_def)
qed

lemma PageFault_grows_stack_witness:
  "\<exists>t. PageFault demo_env True 0x7FFFF0 demo_fault = Done (Returned, t) \<and> m_StackSize (u_md t) = 0x1008"
proof -
  obtain t where t: "SStack demo_fault = Done (True, t)" using demo_grows by blast
  from PageFault_grows_stack [OF demo_fault_ok _ t] show ?thesis by (auto simp: demo_md_def)
qed

end
