(* ===== verification/Printf.thy ===== *)
theory Printf
  imports CLib "HOL-Library.Monad_Syntax"
begin

text \<open>
  Formatted output of the C library (\<open>lib/src/print_parse.c\<close>, \<open>lib/src/sprintf.c\<close>): the parser of conversion
  specifications and \<open>sprintf\<close>.  Everything is on the memory of the program; \<open>num\<close> and \<open>pre\<close> are the addresses of the
  local arrays of \<open>sprintf_interger\<close>, \<open>pva\<close> the address of the first argument behind the format.  The conversions of
  floating point numbers use the FPU and are the parameter \<open>sprintf_double\<close>.
\<close>

section \<open>Conversion specifications\<close>

record print_info =
  prec :: int
  width :: int
  spec :: u8
  is_long_double :: bool
  is_short :: bool
  is_long :: bool
  alt :: bool
  space :: bool
  left :: bool
  showsign :: bool
  is_char :: bool
  pad :: u8

record print_spec =
  start_fmt :: u32
  end_fmt :: u32
  info :: print_info

partial_function (option) find_spec_loop :: "mem \<Rightarrow> u32 \<Rightarrow> u32 option" where
  "find_spec_loop m pf = (if m pf \<noteq> 0 \<and> m pf \<noteq> 37 then find_spec_loop m (pf + 1) else Some pf)"

text \<open>The flag of the result is true when a specification was found (the code returns 0 then and -1 otherwise).\<close>

definition find_spec :: "mem \<Rightarrow> print_spec \<Rightarrow> (bool \<times> print_spec) option" where
  "find_spec m sp = map_option (\<lambda>pf. (m pf \<noteq> 0, sp\<lparr>start_fmt := pf\<rparr>)) (find_spec_loop m (end_fmt sp))"

definition format_flag :: "u8 \<Rightarrow> print_info \<Rightarrow> print_info" where
  "format_flag c pi =
     (if c = 32 then pi\<lparr>space := True\<rparr> else if c = 48 then pi\<lparr>pad := 48\<rparr> else if c = 43 then pi\<lparr>showsign := True\<rparr>
      else if c = 45 then pi\<lparr>left := True\<rparr> else if c = 35 then pi\<lparr>alt := True\<rparr> else pi)"

partial_function (option) flags_loop :: "mem \<Rightarrow> u32 \<Rightarrow> print_info \<Rightarrow> (u32 \<times> print_info) option" where
  "flags_loop m format pi =
     (if m format \<in> {32, 48, 43, 45, 35} then flags_loop m (format + 1) (format_flag (m format) pi) else Some (format, pi))"

definition read_field :: "mem \<Rightarrow> u32 \<Rightarrow> (int \<times> u32) option" where
  "read_field m format =
     (if isdigit (m format) then map_option (\<lambda>(v, p). (sint v, p)) (read_int m format) else Some (-1, format))"

definition length_modifier :: "mem \<Rightarrow> u32 \<Rightarrow> print_info \<Rightarrow> u32 \<times> print_info" where
  "length_modifier m format pi =
     (let pi = pi\<lparr>is_char := False, is_short := False, is_long := False, is_long_double := False\<rparr>
      in if m format = 108 then
           (if m (format + 1) = 108 then (format + 2, pi\<lparr>is_long_double := True\<rparr>) else (format + 1, pi\<lparr>is_long := True\<rparr>))
         else if m format = 104 then
           (if m (format + 1) = 104 then (format + 2, pi\<lparr>is_char := True\<rparr>) else (format + 1, pi\<lparr>is_short := True\<rparr>))
         else (format, pi))"

definition parse_spec :: "mem \<Rightarrow> print_spec \<Rightarrow> print_spec option" where
  "parse_spec m sp = do {
     (format, pi) \<leftarrow> flags_loop m (start_fmt sp + 1)
        ((info sp)\<lparr>alt := False, space := False, left := False, showsign := False, pad := 32\<rparr>);
     let pi = (if left pi then pi\<lparr>pad := 32\<rparr> else pi);
     (w, format) \<leftarrow> read_field m format;
     (p, format) \<leftarrow> (if m format = 46 then read_field m (format + 1) else Some (-1, format));
     let (format, pi) = length_modifier m format (pi\<lparr>width := w, prec := p\<rparr>);
     Some (sp\<lparr>info := pi\<lparr>spec := m format\<rparr>, end_fmt := format + 1\<rparr>)
   }"

section \<open>The conversions\<close>

text \<open>\<open>getva\<close>: arguments of four bytes each.\<close>

definition get_char :: "mem \<Rightarrow> u32 \<Rightarrow> u8" where
  "get_char m a = m a"

definition get_short :: "mem \<Rightarrow> u32 \<Rightarrow> u16" where
  "get_short m a = ucast (m a) + push_bit 8 (ucast (m (a + 1)))"

definition get_int :: "mem \<Rightarrow> u32 \<Rightarrow> u32" where
  "get_int m a = dword (m a) (m (a + 1)) (m (a + 2)) (m (a + 3))"

function fill_spaces :: "mem \<Rightarrow> u32 \<Rightarrow> u32 \<Rightarrow> u32 \<times> mem" where
  "fill_spaces m bp stop = (if bp < stop then fill_spaces (m(bp := 32)) (bp + 1) stop else (bp, m))"
  by auto
termination
  by (relation "measure (\<lambda>(m, bp, e). unat e - unat bp)") (auto simp: next_words dest: next_words(3))

declare fill_spaces.simps [simp del]

function copy_most :: "mem \<Rightarrow> u32 \<Rightarrow> u32 \<Rightarrow> int \<Rightarrow> int \<Rightarrow> u32 \<times> mem" where
  "copy_most m bp pstr i n =
     (if m pstr \<noteq> 0 \<and> i < n then copy_most (m(bp := m pstr)) (bp + 1) (pstr + 1) (i + 1) n else (bp, m))"
  by auto
termination
  by (relation "measure (\<lambda>(m, bp, pstr, i, n). nat (n - i))") auto

declare copy_most.simps [simp del]

partial_function (option) copy_text :: "mem \<Rightarrow> u32 \<Rightarrow> u32 \<Rightarrow> (u32 \<times> mem) option" where
  "copy_text m pn bp = (if m bp \<noteq> 0 then copy_text (m(pn := m bp)) (pn + 1) (bp + 1) else Some (pn, m))"

definition sprintf_char :: "mem \<Rightarrow> u32 \<Rightarrow> u32 \<Rightarrow> int \<times> mem" where
  "sprintf_char m buffer arg = (1, m(buffer := get_char m arg))"

definition sprintf_string :: "mem \<Rightarrow> u32 \<Rightarrow> print_info \<Rightarrow> u32 \<Rightarrow> (int \<times> mem) option" where
  "sprintf_string m buffer pi arg = do {
     let pstr = get_int m arg;
     len \<leftarrow> strlen m pstr;
     let strl = sint len;
     let wid = (if width pi = -1 then strl else width pi);
     let pr = (if prec pi = -1 then strl else prec pi);
     let wid = (if pr > wid then pr else wid);
     let padding = wid - (if strl > pr then pr else strl);
     let (bp, m) = (if \<not> left pi then fill_spaces m buffer (buffer + word_of_int padding) else (buffer, m));
     let (bp, m) = copy_most m bp pstr 0 (wid - padding);
     let (bp, m) = (if left pi then fill_spaces m bp (buffer + word_of_int wid) else (bp, m));
     Some (wid, m)
   }"

definition signed_spec :: "u8 \<Rightarrow> bool" where
  "signed_spec c \<longleftrightarrow> c = 105 \<or> c = 100"

text \<open>The value that is handed to \<open>itoa\<close>, as the \<open>long\<close> it becomes there, and the radix.\<close>

definition number_arg :: "mem \<Rightarrow> print_info \<Rightarrow> u32 \<Rightarrow> u32" where
  "number_arg m pi arg =
     (if signed_spec (spec pi) then
        (if is_char pi then scast (get_char m arg) else if is_short pi then scast (get_short m arg) else get_int m arg)
      else
        (if is_char pi then ucast (get_char m arg) else if is_short pi then ucast (get_short m arg) else get_int m arg))"

definition number_radix :: "u8 \<Rightarrow> u32" where
  "number_radix c = (if c = 120 \<or> c = 88 then 16 else if c = 111 then 8 else 10)"

text \<open>The prefix is collected in \<open>pre\<close>; the result is the pointer behind it.\<close>

definition number_prefix :: "mem \<Rightarrow> print_info \<Rightarrow> u32 \<Rightarrow> u32 \<Rightarrow> u32 \<times> mem" where
  "number_prefix m pi pre bp =
     (let (bpre, m) =
            (if alt pi \<and> (spec pi = 120 \<or> spec pi = 88) then (pre + 2, m(pre := 48, pre + 1 := spec pi))
             else if alt pi \<and> spec pi = 111 then (pre + 1, m(pre := 48)) else (pre, m))
      in if showsign pi \<and> m bp \<noteq> 45 \<and> signed_spec (spec pi) then (bpre + 1, m(bpre := 43)) else (bpre, m))"

definition sprintf_interger :: "u32 \<Rightarrow> u32 \<Rightarrow> mem \<Rightarrow> u32 \<Rightarrow> print_info \<Rightarrow> u32 \<Rightarrow> (int \<times> mem) option" where
  "sprintf_interger num pre m buffer pi arg = do {
     (bp, m) \<leftarrow> itoa m (number_arg m pi arg) num (if signed_spec (spec pi) then 10 else number_radix (spec pi));
     if bp = 0 then Some (0, m)
     else do {
       let (bpre, m) = number_prefix m pi pre bp;
       let m = m(bpre := 0);
       l1 \<leftarrow> strlen m bp;
       l2 \<leftarrow> strlen m bpre;
       let strl = sint (l1 + l2);
       let wid = (if width pi < strl then strl else width pi);
       let (pn, m) = (if \<not> left pi then fill_spaces m buffer (buffer + word_of_int (wid - strl)) else (buffer, m));
       (pn, m) \<leftarrow> copy_text m pn pre;
       (pn, m) \<leftarrow> copy_text m pn bp;
       let (pn, m) = (if left pi then fill_spaces m pn (buffer + word_of_int wid) else (pn, m));
       Some (wid, m)
     }
   }"

section \<open>sprintf\<close>

type_synonym double_conversion = "mem \<Rightarrow> u32 \<Rightarrow> print_info \<Rightarrow> u32 \<Rightarrow> (int \<times> mem) option"

definition convert_arg :: "double_conversion \<Rightarrow> u32 \<Rightarrow> u32 \<Rightarrow> mem \<Rightarrow> u32 \<Rightarrow> print_info \<Rightarrow> u32 \<Rightarrow> u32 \<Rightarrow> (int \<times> u32 \<times> mem) option" where
  "convert_arg dbl num pre m bp pi pva offset =
     (let c = spec pi; a = pva + offset
      in if c = 99 then (let (n, m) = sprintf_char m bp a in Some (n, offset + 4, m))
         else if c = 115 then map_option (\<lambda>(n, m). (n, offset + 4, m)) (sprintf_string m bp pi a)
         else if c \<in> {100, 105, 120, 88, 111, 117} then map_option (\<lambda>(n, m). (n, offset + 4, m)) (sprintf_interger num pre m bp pi a)
         else if c \<in> {102, 70, 101, 69, 103, 71} then map_option (\<lambda>(n, m). (n, offset + 8, m)) (dbl m bp pi a)
         else Some (0, offset, m))"

text \<open>The text before a specification: from \<open>end_fmt\<close> of the last one up to \<open>start_fmt\<close>.\<close>

function copy_range :: "mem \<Rightarrow> u32 \<Rightarrow> u32 \<Rightarrow> u32 \<Rightarrow> u32 \<times> mem" where
  "copy_range m bp sbp stop = (if sbp < stop then copy_range (m(bp := m sbp)) (bp + 1) (sbp + 1) stop else (bp, m))"
  by auto
termination
  by (relation "measure (\<lambda>(m, bp, s, e). unat e - unat s)") (auto simp: next_words dest: next_words(3))

declare copy_range.simps [simp del]

partial_function (option) sprintf_loop ::
  "double_conversion \<Rightarrow> u32 \<Rightarrow> u32 \<Rightarrow> mem \<Rightarrow> u32 \<Rightarrow> print_spec \<Rightarrow> u32 \<Rightarrow> u32 \<Rightarrow> (u32 \<times> mem) option" where
  "sprintf_loop dbl num pre m bp sp pva offset = do {
     (found, sp) \<leftarrow> find_spec m sp;
     let (bp, m) = copy_range m bp (end_fmt sp) (start_fmt sp);
     if \<not> found then Some (bp, m)
     else do {
       sp \<leftarrow> parse_spec m sp;
       (n, offset, m) \<leftarrow> convert_arg dbl num pre m bp (info sp) pva offset;
       sprintf_loop dbl num pre m (bp + word_of_int n) sp pva offset
     }
   }"

definition any_info :: print_info where
  "any_info = \<lparr>prec = 0, width = 0, spec = 0, is_long_double = False, is_short = False, is_long = False, alt = False,
     space = False, left = False, showsign = False, is_char = False, pad = 0\<rparr>"

definition sprintf :: "double_conversion \<Rightarrow> u32 \<Rightarrow> u32 \<Rightarrow> mem \<Rightarrow> u32 \<Rightarrow> u32 \<Rightarrow> u32 \<Rightarrow> (int \<times> mem) option" where
  "sprintf dbl num pre m buffer fmt pva =
     (if buffer = 0 then Some (-1, m)
      else map_option (\<lambda>(bp, m). (sint (bp - buffer), m(bp := 0)))
             (sprintf_loop dbl num pre m buffer \<lparr>start_fmt = fmt, end_fmt = fmt, info = any_info\<rparr> pva 0))"

section \<open>Writing bytes one after another\<close>

lemma fill_spaces_put: "unat p + n < 2 ^ 32 \<Longrightarrow> fill_spaces m p (p + of_nat n) = (p + of_nat n, put m p (replicate n 32))"
proof (induction n arbitrary: m p)
  case 0
  then show ?case by (simp add: fill_spaces.simps)
next
  case (Suc n)
  have u: "unat (p + of_nat (Suc n)) = unat p + Suc n" by (rule unat_off) (use Suc.prems in simp)
  then have "p < p + of_nat (Suc n)" by (simp only: word_less_nat_alt)
  moreover have "unat (p + 1) = unat p + 1" using unat_off [of p 1] Suc.prems by simp
  then have "fill_spaces (m(p := 32)) (p + 1) (p + 1 + of_nat n) = (p + 1 + of_nat n, put (m(p := 32)) (p + 1) (replicate n 32))"
    by (intro Suc.IH) (use Suc.prems in simp)
  ultimately show ?case by (subst fill_spaces.simps) (simp add: add.assoc)
qed

lemma copy_text_put:
  "cstring m q cs \<Longrightarrow> apart p (length cs) q (Suc (length cs)) \<Longrightarrow> copy_text m p q = Some (p + of_nat (length cs), put m p cs)"
proof (induction cs arbitrary: m p q)
  case Nil
  then show ?case by (simp add: copy_text.simps)
next
  case (Cons c cs)
  have ap: "apart (p + 1) (length cs) (q + 1) (Suc (length cs))" and out: "\<forall>j \<le> length cs. p \<noteq> q + 1 + of_nat j"
    using apart_Suc [of p "length cs" q "Suc (length cs)"] apart_head [of p "length cs" q "Suc (length cs)"] Cons.prems(2)
    by (simp_all add: less_Suc_eq_le)
  have "cstring (m(p := c)) (q + 1) cs" by (rule cstring_upd [OF _ out]) (use Cons.prems in simp)
  from Cons.IH [OF this ap] show ?case using Cons.prems(1) by (subst copy_text.simps) (simp add: add.assoc fun_upd_def)
qed

lemma copy_most_put:
  "cstring m q cs \<Longrightarrow> apart p (length cs) q (Suc (length cs)) \<Longrightarrow> n = i + int (length cs) \<Longrightarrow>
   copy_most m p q i n = (p + of_nat (length cs), put m p cs)"
proof (induction cs arbitrary: m p q i)
  case Nil
  then show ?case by (simp add: copy_most.simps)
next
  case (Cons c cs)
  have ap: "apart (p + 1) (length cs) (q + 1) (Suc (length cs))" and out: "\<forall>j \<le> length cs. p \<noteq> q + 1 + of_nat j"
    using apart_Suc [of p "length cs" q "Suc (length cs)"] apart_head [of p "length cs" q "Suc (length cs)"] Cons.prems(2)
    by (simp_all add: less_Suc_eq_le)
  have "cstring (m(p := c)) (q + 1) cs" by (rule cstring_upd [OF _ out]) (use Cons.prems in simp)
  from Cons.IH [OF this ap, of "i + 1"] show ?case using Cons.prems(1,3) by (subst copy_most.simps) (simp add: add.assoc fun_upd_def)
qed

lemma copy_range_put:
  "bytes_at m q cs \<Longrightarrow> apart p (length cs) q (length cs) \<Longrightarrow> unat q + length cs < 2 ^ 32 \<Longrightarrow>
   copy_range m p q (q + of_nat (length cs)) = (p + of_nat (length cs), put m p cs)"
proof (induction cs arbitrary: m p q)
  case Nil
  then show ?case by (simp add: copy_range.simps)
next
  case (Cons c cs)
  have ap: "apart (p + 1) (length cs) (q + 1) (length cs)" and out: "\<forall>j < length cs. p \<noteq> q + 1 + of_nat j"
    using apart_Suc [of p "length cs" q "length cs"] apart_head [of p "length cs" q "length cs"] Cons.prems(2) by simp_all
  have m: "m q = c" "bytes_at m (q + 1) cs" using Cons.prems(1) by (simp_all add: bytes_at_Cons)
  have b: "bytes_at (m(p := c)) (q + 1) cs" using m(2) out by (auto simp: bytes_at_def)
  have u: "unat (q + 1) = unat q + 1" "unat (q + of_nat (Suc (length cs))) = unat q + Suc (length cs)"
    using unat_off [of q 1] unat_off [of q "Suc (length cs)"] Cons.prems(3) by simp_all
  then have "q < q + of_nat (Suc (length cs))" by (simp only: word_less_nat_alt)
  moreover have "unat (q + 1) + length cs < 2 ^ 32" using Cons.prems(3) u by simp
  note Cons.IH [OF b ap this]
  ultimately show ?case using m by (subst copy_range.simps) (simp add: add.assoc fun_upd_def)
qed

section \<open>Fields and their text\<close>

text \<open>
  A conversion \<open>%s\<close> or \<open>%d\<close> with the flag \<open>-\<close> and a width, and its argument: a string or a number.  The text of a
  field is its argument, filled up with blanks on the side the flag says.
\<close>

datatype argument = Str "u8 list" | Dec u32

datatype field = Field (to_left: bool) (least: "nat option") (argument: argument)

fun letter :: "argument \<Rightarrow> u8" where
  "letter (Str cs) = 115"
| "letter (Dec w) = 100"

definition numeral_text :: "nat \<Rightarrow> u8 list" where
  "numeral_text n = map (\<lambda>d. digit_char (of_nat d)) (numeral_of 10 n)"

definition field_spec :: "field \<Rightarrow> u8 list" where
  "field_spec f = 37 # (if to_left f then [45] else []) @ (case least f of None \<Rightarrow> [] | Some n \<Rightarrow> numeral_text n) @ [letter (argument f)]"

fun argument_text :: "argument \<Rightarrow> u8 list" where
  "argument_text (Str cs) = cs"
| "argument_text (Dec w) = (if sint w < 0 then 45 # numeral_text (unat (- w)) else numeral_text (unat w))"

definition padded :: "bool \<Rightarrow> nat \<Rightarrow> u8 list \<Rightarrow> u8 list" where
  "padded l n cs = (if l then cs @ replicate (n - length cs) 32 else replicate (n - length cs) 32 @ cs)"

definition field_text :: "field \<Rightarrow> u8 list" where
  "field_text f = padded (to_left f) (case least f of None \<Rightarrow> 0 | Some n \<Rightarrow> n) (argument_text (argument f))"

lemma digits_last: "2 \<le> r \<Longrightarrow> n \<noteq> 0 \<Longrightarrow> digits r n \<noteq> [] \<and> last (digits r n) \<noteq> 0"
proof (induction n rule: less_induct)
  case (less n)
  have step: "digits r n = n mod r # digits r (n div r)" using less.prems by (simp add: digits.simps [of r n])
  show ?case
  proof (cases "n div r = 0")
    case True
    then have "n < r" using less.prems by (simp add: div_eq_0_iff)
    then show ?thesis using less.prems step True by (simp add: digits.simps [of r 0])
  next
    case False
    then show ?thesis using less.IH [of "n div r"] less.prems step by simp
  qed
qed

lemma digit_char_start:
  assumes "0 < d" "d < 10"
  shows "digit_char (of_nat d) \<notin> {32, 48, 43, 45, 35}"
proof -
  have "\<forall>d \<in> set [1..<10]. digit_char (of_nat d) \<notin> {32, 48, 43, 45, 35}" by code_simp
  then show ?thesis using assms by auto
qed

lemma numeral_text_start:
  assumes "0 < n" "n < 2 ^ 32"
  obtains c cs where "numeral_text n = c # cs" "c \<notin> {32, 48, 43, 45, 35}" "isdigit c"
proof -
  have n: "numeral_of 10 n = rev (digits 10 n)" using assms by (simp add: numeral_of_def)
  have dl: "digits 10 n \<noteq> []" "last (digits 10 n) \<noteq> 0" using digits_last [of 10 n] assms by auto
  define d where "d = last (digits 10 n)"
  then have d: "numeral_of 10 n = d # rev (butlast (digits 10 n))" using dl(1) append_butlast_last_id [of "digits 10 n"] unfolding n
    by (metis rev_eq_Cons_iff rev_rev_ident)
  have "0 < d" using dl(2) by (simp add: d_def)
  moreover have ten: "2 \<le> (10 :: nat)" by simp
  have "d < 10" using numeral_of_facts(2) [OF ten assms(2)] by (simp add: d)
  ultimately show ?thesis
    using that [of "digit_char (of_nat d)"] digit_char_start [of d] digit_char_decimal(1) [of d] by (simp add: numeral_text_def d)
qed

lemma read_int_numeral:
  assumes b: "bytes_at m p (numeral_text n)" and e: "\<not> isdigit (m (p + of_nat (length (numeral_text n))))" and n: "n < 2 ^ 32"
  shows "read_int m p = Some (of_nat n, p + of_nat (length (numeral_text n)))"
proof -
  have ten: "2 \<le> (10 :: nat)" by simp
  note nf = numeral_of_facts [OF ten n]
  obtain d ds where d: "numeral_of 10 n = d # ds" using nf(1) by (cases "numeral_of 10 n") auto
  have m: "m p = digit_char (of_nat d)" using b by (simp add: numeral_text_def d bytes_at_Cons)
  have "read_int_loop m p 0 = Some (of_nat n, p + of_nat (length (numeral_text n)))"
    using read_int_loop_digits [OF b [unfolded numeral_text_def] nf(2), of 0] nf(4) e by (simp add: numeral_text_def)
  then show ?thesis using digit_char_decimal [of d] nf(2)
    by (subst (asm) read_int_loop.simps) (simp add: read_int_def m d)
qed

text \<open>Fields with a width between 1 and \<open>2 ^ 31 - 1\<close>.\<close>

definition field_ok :: "field \<Rightarrow> bool" where
  "field_ok f \<longleftrightarrow> (case least f of None \<Rightarrow> True | Some n \<Rightarrow> 0 < n \<and> n < 2 ^ 31)"

lemma letter_facts: "letter a \<notin> {32, 48, 43, 45, 35}" "\<not> isdigit (letter a)" "letter a \<noteq> 46" "letter a \<noteq> 108" "letter a \<noteq> 104"
  by (cases a; simp add: isdigit_def)+

lemma flags_loop_stop: "m q \<notin> {32, 48, 43, 45, 35} \<Longrightarrow> flags_loop m q pi = Some (q, pi)"
  by (subst flags_loop.simps) simp

lemma flags_loop_minus: "m q = 45 \<Longrightarrow> m (q + 1) \<notin> {32, 48, 43, 45, 35} \<Longrightarrow> flags_loop m q pi = Some (q + 1, pi\<lparr>left := True\<rparr>)"
  by (subst flags_loop.simps) (simp add: format_flag_def flags_loop_stop)

lemma read_field_width:
  assumes b: "bytes_at m q ((case w of None \<Rightarrow> [] | Some n \<Rightarrow> numeral_text n) @ [letter a])" and w: "\<forall>n. w = Some n \<longrightarrow> 0 < n \<and> n < 2 ^ 31"
  defines "k \<equiv> length (case w of None \<Rightarrow> [] | Some n \<Rightarrow> numeral_text n)"
  shows "read_field m q = Some (case w of None \<Rightarrow> -1 | Some n \<Rightarrow> int n, q + of_nat k) \<and> m (q + of_nat k) = letter a \<and> m q \<notin> {32, 48, 43, 45, 35}"
proof (cases w)
  case None
  then have "m q = letter a" using b by (simp add: bytes_at_Cons)
  then show ?thesis using None letter_facts [of a] by (simp add: read_field_def k_def)
next
  case (Some n)
  have n: "0 < n" "n < 2 ^ 31" using w Some by auto
  then have n32: "n < 2 ^ 32" by simp
  obtain c cs where c: "numeral_text n = c # cs" "c \<notin> {32, 48, 43, 45, 35}" "isdigit c" by (rule numeral_text_start [OF n(1) n32])
  have t: "bytes_at m q (numeral_text n)" "m (q + of_nat k) = letter a"
    using b by (simp_all add: Some bytes_at_append bytes_at_Cons k_def)
  have r: "read_int m q = Some (of_nat n, q + of_nat k)"
    using read_int_numeral [OF t(1) _ n32] t(2) letter_facts(2) [of a] by (simp add: k_def Some)
  have u: "unat (of_nat n :: u32) = n" using unat_off [of 0 n] n32 by simp
  have "sint (of_nat n :: u32) = int n" using sint_small [of "of_nat n"] n(2) unfolding u by simp
  moreover have "m q = c" using t(1) c(1) by (simp add: bytes_at_Cons)
  ultimately show ?thesis using r t(2) c by (simp add: read_field_def Some)
qed

lemma parse_field:
  assumes b: "bytes_at m (start_fmt sp) (field_spec f)" and f: "field_ok f"
  shows "\<exists>pi. parse_spec m sp = Some (sp\<lparr>info := pi, end_fmt := start_fmt sp + of_nat (length (field_spec f))\<rparr>) \<and>
    spec pi = letter (argument f) \<and> left pi = to_left f \<and> width pi = (case least f of None \<Rightarrow> -1 | Some n \<Rightarrow> int n) \<and> prec pi = -1 \<and>
    \<not> alt pi \<and> \<not> showsign pi \<and> \<not> is_char pi \<and> \<not> is_short pi"
proof -
  let ?p = "start_fmt sp" and ?w = "case least f of None \<Rightarrow> [] | Some n \<Rightarrow> numeral_text n"
  let ?q = "?p + 1 + (if to_left f then 1 else 0)" and ?a = "argument f"
  have bq: "bytes_at m ?q (?w @ [letter ?a])" and minus: "to_left f \<longrightarrow> m (?p + 1) = 45"
    using b by (cases "to_left f"; simp add: field_spec_def bytes_at_Cons add.assoc)+
  have w: "\<forall>n. least f = Some n \<longrightarrow> 0 < n \<and> n < 2 ^ 31" using f by (auto simp: field_ok_def)
  note rf = read_field_width [OF bq w]
  have fl: "flags_loop m (?p + 1) pi = Some (?q, if to_left f then pi\<lparr>left := True\<rparr> else pi)" for pi
    using rf minus by (cases "to_left f") (simp_all add: flags_loop_stop flags_loop_minus add.assoc)
  have len: "?q + of_nat (length ?w) + 1 = ?p + of_nat (length (field_spec f))" by (simp add: field_spec_def algebra_simps)
  define pi1 where "pi1 = (info sp)\<lparr>alt := False, space := False, left := False, showsign := False, pad := 32\<rparr>"
  define pi2 where "pi2 = (let pi = (if to_left f then pi1\<lparr>left := True\<rparr> else pi1) in if left pi then pi\<lparr>pad := 32\<rparr> else pi)"
  define pi3 where "pi3 = pi2\<lparr>width := case least f of None \<Rightarrow> -1 | Some n \<Rightarrow> int n, prec := -1,
    is_char := False, is_short := False, is_long := False, is_long_double := False, spec := letter ?a\<rparr>"
  have "left pi2 = to_left f" "\<not> alt pi2" "\<not> showsign pi2" by (simp_all add: pi2_def pi1_def Let_def)
  moreover have "parse_spec m sp = Some (sp\<lparr>info := pi3, end_fmt := ?p + of_nat (length (field_spec f))\<rparr>)"
    unfolding parse_spec_def pi1_def [symmetric] fl using rf letter_facts(3-5) [of ?a]
    by (simp add: Let_def length_modifier_def len [symmetric] pi3_def pi2_def)
  ultimately show ?thesis by (intro exI [of _ pi3]) (simp add: pi3_def)
qed

section \<open>Writing a field\<close>

lemma numeral_text_facts:
  assumes "n < 2 ^ 32"
  shows "0 \<notin> set (numeral_text n)" "length (numeral_text n) \<le> 32" "numeral_text n \<noteq> []"
proof -
  have ten: "2 \<le> (10 :: nat)" by simp
  note nf = numeral_of_facts [OF ten assms]
  show "0 \<notin> set (numeral_text n)" using nf(2) digit_char_decimal(3) by (auto simp: numeral_text_def dest!: sym [of 0])
  show "length (numeral_text n) \<le> 32" "numeral_text n \<noteq> []" using nf(1,3) by (simp_all add: numeral_text_def)
qed

lemma itoa_text:
  assumes "num \<noteq> 0" "unat num + 34 < 2 ^ 32"
  shows "\<exists>m'. itoa m w num 10 = Some (num, m') \<and> cstring m' num (argument_text (Dec w)) \<and> (\<forall>x. \<not> between num 34 x \<longrightarrow> m' x = m x)"
proof -
  let ?v = "if sint w < 0 then - w else w" and ?start = "if sint w < 0 then num + 1 else num"
  have v: "unat ?v < 2 ^ 32" using unsigned_less [of ?v] by simp
  obtain m' where m': "itoa_unsigned m ?v (sint w < 0) num 10 = Some (num, m')" "bytes_at m' ?start (numeral_text (unat ?v))"
    "m' (?start + of_nat (length (numeral_text (unat ?v)))) = 0" "sint w < 0 \<longrightarrow> m' num = 45"
    "\<forall>a. unat a < unat num \<or> unat num + 33 < unat a \<longrightarrow> m' a = m a"
    using itoa_unsigned_text [of 10 num m ?v "sint w < 0"] assms by (auto simp: numeral_text_def)
  have "cstring m' ?start (numeral_text (unat ?v))" by (rule cstring_bytes [OF m'(2,3)]) (rule numeral_text_facts(1) [OF v])
  then have "cstring m' num (argument_text (Dec w))" using m'(4) by (simp split: if_splits)
  moreover have "\<forall>x. \<not> between num 34 x \<longrightarrow> m' x = m x" using m'(5) by (auto simp: between_def)
  ultimately show ?thesis using m'(1) by (auto simp: itoa_def Let_def)
qed

lemma argument_text_number: "length (argument_text (Dec w)) \<le> 33"
proof -
  have "unat x < 2 ^ 32" for x :: u32 using unsigned_less [of x] by simp
  then show ?thesis using numeral_text_facts(2) [of "unat w"] numeral_text_facts(2) [of "unat (- w)"] by auto
qed

lemma length_padded: "length (padded l n cs) = max n (length cs)"
  by (auto simp: padded_def)

lemma padded_max: "padded l (max n (length cs)) cs = padded l n cs"
  by (simp add: padded_def max_def)

lemma sint_length: "n < 2 ^ 31 \<Longrightarrow> sint (of_nat n :: u32) = int n"
proof -
  assume n: "n < 2 ^ 31"
  then have "unat (of_nat n :: u32) = n" using unat_off [of 0 n] by simp
  then show ?thesis using sint_small [of "of_nat n"] n by simp
qed

text \<open>The memory to be written: the buffer with its final 0, and the local arrays.\<close>

definition local_area :: "u32 \<Rightarrow> u32 \<Rightarrow> u32 \<Rightarrow> bool" where
  "local_area num pre x \<longleftrightarrow> between num 34 x \<or> x = pre"

definition areas_ok :: "u32 \<Rightarrow> nat \<Rightarrow> u32 \<Rightarrow> u32 \<Rightarrow> bool" where
  "areas_ok bp n num pre \<longleftrightarrow> num \<noteq> 0 \<and> unat num + 34 < 2 ^ 32 \<and> unat bp + n < 2 ^ 32 \<and> n < 2 ^ 31 \<and> \<not> between num 34 pre \<and>
     (\<forall>x. between bp n x \<longrightarrow> \<not> local_area num pre x)"

lemma areas_okD:
  assumes "areas_ok bp n num pre"
  shows "num \<noteq> 0" "unat num + 34 < 2 ^ 32" "unat bp + n < 2 ^ 32" "n < 2 ^ 31" "apart bp n num 34" "i < 34 \<Longrightarrow> pre \<noteq> num + of_nat i" "apart bp n pre 1"
proof -
  note a = assms [unfolded areas_ok_def local_area_def]
  show "num \<noteq> 0" "unat num + 34 < 2 ^ 32" "unat bp + n < 2 ^ 32" "n < 2 ^ 31" using a by simp_all
  show "apart bp n num 34" by (rule apart_ranges) (use a in auto)
  show "i < 34 \<Longrightarrow> pre \<noteq> num + of_nat i" using a between_offset [of num 34 i] by auto
  show "apart bp n pre 1" using a between_offset [of bp n] by (auto simp: apart_def)
qed

lemma write_right:
  assumes "cstring m q cs" "apart bp n q (Suc (length cs))" "length cs \<le> n" "unat bp + n < 2 ^ 32"
  shows "fill_spaces m bp (bp + of_nat (n - length cs)) = (bp + of_nat (n - length cs), put m bp (replicate (n - length cs) 32))"
    "copy_text (put m bp (replicate (n - length cs) 32)) (bp + of_nat (n - length cs)) q = Some (bp + of_nat n, put m bp (padded False n cs))"
    "copy_most (put m bp (replicate (n - length cs) 32)) (bp + of_nat (n - length cs)) q 0 (int (length cs)) = (bp + of_nat n, put m bp (padded False n cs))"
proof -
  let ?k = "n - length cs" and ?m = "put m bp (replicate (n - length cs) 32)"
  show "fill_spaces m bp (bp + of_nat ?k) = (bp + of_nat ?k, ?m)" by (rule fill_spaces_put) (use assms(3,4) in simp)
  have c: "cstring ?m q cs" by (rule cstring_put [OF assms(1)]) (use apart_part [OF assms(2), of 0 ?k] in simp)
  have a: "apart (bp + of_nat ?k) (length cs) q (Suc (length cs))" by (rule apart_part [OF assms(2)]) (use assms(3) in simp_all)
  have e: "bp + of_nat ?k + of_nat (length cs) = bp + of_nat n" using assms(3) by (simp flip: of_nat_add add: add.assoc)
  have p: "put ?m (bp + of_nat ?k) cs = put m bp (padded False n cs)" by (simp add: padded_def put_append)
  show "copy_text ?m (bp + of_nat ?k) q = Some (bp + of_nat n, put m bp (padded False n cs))"
    using copy_text_put [OF c a] by (simp only: e p)
  show "copy_most ?m (bp + of_nat ?k) q 0 (int (length cs)) = (bp + of_nat n, put m bp (padded False n cs))"
    using copy_most_put [OF c a, of "int (length cs)" 0] by (simp only: e p add_0)
qed

lemma write_left:
  assumes "cstring m q cs" "apart bp n q (Suc (length cs))" "length cs \<le> n" "unat bp + n < 2 ^ 32"
  shows "copy_text m bp q = Some (bp + of_nat (length cs), put m bp cs)"
    "copy_most m bp q 0 (int (length cs)) = (bp + of_nat (length cs), put m bp cs)"
    "fill_spaces (put m bp cs) (bp + of_nat (length cs)) (bp + of_nat n) = (bp + of_nat n, put m bp (padded True n cs))"
proof -
  have a: "apart bp (length cs) q (Suc (length cs))" using apart_part [OF assms(2), of 0 "length cs"] assms(3) by simp
  show "copy_text m bp q = Some (bp + of_nat (length cs), put m bp cs)" by (rule copy_text_put [OF assms(1) a])
  show "copy_most m bp q 0 (int (length cs)) = (bp + of_nat (length cs), put m bp cs)" using copy_most_put [OF assms(1) a, of _ 0] by simp
  have e: "bp + of_nat (length cs) + of_nat (n - length cs) = bp + of_nat n" using assms(3) by (simp flip: of_nat_add add: add.assoc)
  have "unat (bp + of_nat (length cs)) = unat bp + length cs" by (rule unat_off) (use assms(3,4) in simp)
  then have "fill_spaces (put m bp cs) (bp + of_nat (length cs)) (bp + of_nat (length cs) + of_nat (n - length cs)) =
      (bp + of_nat (length cs) + of_nat (n - length cs), put (put m bp cs) (bp + of_nat (length cs)) (replicate (n - length cs) 32))"
    by (intro fill_spaces_put) (use assms(3,4) in simp)
  then show "fill_spaces (put m bp cs) (bp + of_nat (length cs)) (bp + of_nat n) = (bp + of_nat n, put m bp (padded True n cs))"
    by (simp only: e padded_def put_append if_True)
qed

lemma interger_field:
  assumes a: "areas_ok bp (length (field_text f)) num pre" and f: "argument f = Dec w" "field_ok f"
    and pi: "spec pi = 100" "left pi = to_left f" "width pi = (case least f of None \<Rightarrow> -1 | Some n \<Rightarrow> int n)" "\<not> alt pi" "\<not> showsign pi" "\<not> is_char pi" "\<not> is_short pi"
    and w: "get_int m arg = w"
  shows "\<exists>m1. sprintf_interger num pre m bp pi arg = Some (int (length (field_text f)), put m1 bp (field_text f)) \<and>
    (\<forall>x. \<not> local_area num pre x \<longrightarrow> m1 x = m x)"
proof -
  let ?cs = "argument_text (Dec w)" and ?n = "length (field_text f)"
  note ad = areas_okD [OF a]
  obtain m' where m': "itoa m w num 10 = Some (num, m')" "cstring m' num ?cs" "\<forall>x. \<not> between num 34 x \<longrightarrow> m' x = m x"
    using itoa_text [OF ad(1,2)] by blast
  let ?m = "m'(pre := 0)"
  have keep: "\<forall>x. \<not> local_area num pre x \<longrightarrow> ?m x = m x" using m'(3) by (simp add: local_area_def)
  have len: "length ?cs \<le> 33" by (rule argument_text_number)
  have n: "?n = max (case least f of None \<Rightarrow> 0 | Some n \<Rightarrow> n) (length ?cs)" by (simp add: field_text_def f(1) length_padded del: argument_text.simps)
  have le: "length ?cs \<le> ?n" unfolding n by simp
  have c: "cstring ?m num ?cs" by (rule cstring_upd [OF m'(2)]) (use ad(6) len in auto)
  have ap: "apart bp ?n num (Suc (length ?cs))" using apart_part [OF ad(5), of 0 ?n "Suc (length ?cs)"] len by simp
  have sl: "sint (of_nat (length ?cs) :: u32) = int (length ?cs)" using sint_length [of "length ?cs"] len by simp
  have wid: "(if width pi < int (length ?cs) then int (length ?cs) else width pi) = int ?n"
    unfolding n pi(3) using f(2) by (auto simp: field_ok_def max_def split: option.splits)
  have empty: "cstring ?m pre []" by simp
  have pre0: "copy_text (put ?m bp xs) q pre = Some (q, put ?m bp xs)" if "length xs \<le> ?n" for xs q
  proof -
    have "cstring (put ?m bp xs) pre []" by (rule cstring_put [OF empty]) (use apart_part [OF ad(7), of 0 "length xs" 1] that in simp)
    then show ?thesis by (subst copy_text.simps) simp
  qed
  have pre00: "copy_text ?m q pre = Some (q, ?m)" for q using pre0 [of "[]"] by simp
  have ft: "field_text f = padded (to_left f) ?n ?cs" unfolding n padded_max by (simp only: field_text_def f(1))
  have na: "number_arg m pi arg = w" "number_prefix m' pi pre num = (pre, m')" using pi w by (simp_all add: number_arg_def number_prefix_def signed_spec_def)
  have sp: "signed_spec (spec pi)" by (simp add: pi signed_spec_def)
  note wr = write_right [OF c ap le ad(3)]
  note wl = write_left [OF c ap le ad(3)]
  have pad: "(of_nat ?n - of_nat (length ?cs) :: u32) = of_nat (?n - length ?cs)" by (rule of_nat_diff [OF le, symmetric])
  have "sprintf_interger num pre m bp pi arg = Some (int ?n, put ?m bp (field_text f))"
  proof (cases "to_left f")
    case True
    then have ftT: "field_text f = padded True ?n ?cs" using ft by (simp only:)
    show ?thesis using True unfolding sprintf_interger_def na if_P [OF sp] m'(1)
      by (simp add: ad(1) na strlen_string [OF c] strlen_string [OF empty] sl wid pi(2) pre00 wl ftT [symmetric] del: argument_text.simps)
  next
    case False
    then have ftF: "field_text f = padded False ?n ?cs" using ft by (simp only:)
    show ?thesis using False unfolding sprintf_interger_def na if_P [OF sp] m'(1)
      by (simp add: ad(1) na strlen_string [OF c] strlen_string [OF empty] sl wid pi(2) pad wr pre0 ftF [symmetric] del: argument_text.simps)
  qed
  then show ?thesis using keep by blast
qed

lemma string_field:
  assumes a: "areas_ok bp (length (field_text f)) num pre" and f: "argument f = Str cs" "field_ok f"
    and pi: "left pi = to_left f" "width pi = (case least f of None \<Rightarrow> -1 | Some n \<Rightarrow> int n)" "prec pi = -1"
    and c: "cstring m (get_int m arg) cs" "apart bp (length (field_text f)) (get_int m arg) (Suc (length cs))"
  shows "sprintf_string m bp pi arg = Some (int (length (field_text f)), put m bp (field_text f))"
proof -
  let ?n = "length (field_text f)" and ?q = "get_int m arg"
  note ad = areas_okD [OF a]
  have n: "?n = max (case least f of None \<Rightarrow> 0 | Some n \<Rightarrow> n) (length cs)" by (simp add: field_text_def f(1) length_padded)
  have le: "length cs \<le> ?n" unfolding n by simp
  have sl: "sint (of_nat (length cs) :: u32) = int (length cs)" by (rule sint_length) (use le ad(4) in simp)
  have wid: "(let wid = (if width pi = -1 then int (length cs) else width pi) in if int (length cs) > wid then int (length cs) else wid) = int ?n"
    unfolding n pi(2) using f(2) by (auto simp: field_ok_def max_def split: option.splits)
  have ft: "field_text f = padded (to_left f) ?n cs" unfolding n padded_max by (simp add: field_text_def f(1))
  have pad: "(of_nat ?n - of_nat (length cs) :: u32) = of_nat (?n - length cs)" by (rule of_nat_diff [OF le, symmetric])
  note wr = write_right [OF c le ad(3)]
  note wl = write_left [OF c le ad(3)]
  show ?thesis
  proof (cases "to_left f")
    case True
    then have ftT: "field_text f = padded True ?n cs" using ft by (simp only:)
    show ?thesis using True unfolding sprintf_string_def
      by (simp add: strlen_string [OF c(1)] sl pi(1,3) wid [unfolded Let_def] wl ftT [symmetric])
  next
    case False
    then have ftF: "field_text f = padded False ?n cs" using ft by (simp only:)
    show ?thesis using False unfolding sprintf_string_def
      by (simp add: strlen_string [OF c(1)] sl pi(1,3) wid [unfolded Let_def] pad wr ftF [symmetric])
  qed
qed

section \<open>Formats\<close>

text \<open>A format: plain text and fields in turns, and plain text at the end.\<close>

type_synonym fragments = "(u8 list \<times> field) list"

fun format_of :: "fragments \<Rightarrow> u8 list \<Rightarrow> u8 list" where
  "format_of [] t = t"
| "format_of ((cs, f) # r) t = cs @ field_spec f @ format_of r t"

fun output_of :: "fragments \<Rightarrow> u8 list \<Rightarrow> u8 list" where
  "output_of [] t = t"
| "output_of ((cs, f) # r) t = cs @ field_text f @ output_of r t"

definition plain :: "u8 list \<Rightarrow> bool" where
  "plain cs \<longleftrightarrow> 0 \<notin> set cs \<and> 37 \<notin> set cs"

definition fragments_ok :: "fragments \<Rightarrow> u8 list \<Rightarrow> bool" where
  "fragments_ok segs t \<longleftrightarrow> list_all (\<lambda>(cs, f). plain cs \<and> field_ok f) segs \<and> plain t"

text \<open>The arguments stand in memory outside the addresses that are written.\<close>

fun argument_ok :: "mem \<Rightarrow> (u32 \<Rightarrow> bool) \<Rightarrow> u32 \<Rightarrow> argument \<Rightarrow> bool" where
  "argument_ok m P a (Str cs) \<longleftrightarrow> (\<forall>i < 4. \<not> P (a + of_nat i)) \<and> cstring m (get_int m a) cs \<and> (\<forall>i \<le> length cs. \<not> P (get_int m a + of_nat i))"
| "argument_ok m P a (Dec w) \<longleftrightarrow> (\<forall>i < 4. \<not> P (a + of_nat i)) \<and> get_int m a = w"

fun arguments_ok :: "mem \<Rightarrow> (u32 \<Rightarrow> bool) \<Rightarrow> u32 \<Rightarrow> fragments \<Rightarrow> bool" where
  "arguments_ok m P a [] \<longleftrightarrow> True"
| "arguments_ok m P a ((cs, f) # r) \<longleftrightarrow> argument_ok m P a (argument f) \<and> arguments_ok m P (a + 4) r"

definition same_outside :: "(u32 \<Rightarrow> bool) \<Rightarrow> mem \<Rightarrow> mem \<Rightarrow> bool" where
  "same_outside P m m' \<longleftrightarrow> (\<forall>x. \<not> P x \<longrightarrow> m' x = m x)"

lemma get_int_same: "same_outside P m m' \<Longrightarrow> \<forall>i < 4. \<not> P (a + of_nat i) \<Longrightarrow> get_int m' a = get_int m a"
proof -
  assume s: "same_outside P m m'" and p: "\<forall>i < 4. \<not> P (a + of_nat i)"
  have "m' a = m a" "m' (a + 1) = m (a + 1)" "m' (a + 2) = m (a + 2)" "m' (a + 3) = m (a + 3)"
    using s p [rule_format, of 0] p [rule_format, of 1] p [rule_format, of 2] p [rule_format, of 3] by (simp_all add: same_outside_def)
  then show ?thesis by (simp add: get_int_def)
qed

lemma argument_same: "same_outside P m m' \<Longrightarrow> argument_ok m P a x \<Longrightarrow> argument_ok m' P a x"
proof (cases x)
  case (Str cs)
  assume s: "same_outside P m m'" and a: "argument_ok m P a x"
  have "get_int m' a = get_int m a" by (rule get_int_same [OF s]) (use a Str in simp)
  moreover have "cstring m' (get_int m a) cs"
    by (rule cstring_same [where m = m]) (use a s Str in \<open>simp_all add: same_outside_def\<close>)
  ultimately show ?thesis using a Str by simp
next
  case (Dec w)
  assume s: "same_outside P m m'" and a: "argument_ok m P a x"
  then show ?thesis using get_int_same [OF s, of a] Dec by simp
qed

lemma arguments_same: "same_outside P m m' \<Longrightarrow> arguments_ok m P a segs \<Longrightarrow> arguments_ok m' P a segs"
  by (induction segs arbitrary: a) (auto intro: argument_same)

lemma find_plain:
  assumes "bytes_at m p cs" "plain cs" "m (p + of_nat (length cs)) \<in> {0, 37}"
  shows "find_spec_loop m p = Some (p + of_nat (length cs))"
  using assms
proof (induction cs arbitrary: p)
  case Nil
  then show ?case by (subst find_spec_loop.simps) auto
next
  case (Cons c cs)
  have "m p = c" "bytes_at m (p + 1) cs" using Cons.prems(1) by (simp_all add: bytes_at_Cons)
  moreover have "c \<noteq> 0" "c \<noteq> 37" "plain cs" using Cons.prems(2) by (auto simp: plain_def)
  ultimately show ?case using Cons.IH [of "p + 1"] Cons.prems(3) by (subst find_spec_loop.simps) (simp add: add.assoc)
qed

lemma convert_field:
  assumes a: "areas_ok bp (length (field_text f)) num pre" and f: "field_ok f"
    and pi: "spec pi = letter (argument f)" "left pi = to_left f" "width pi = (case least f of None \<Rightarrow> -1 | Some n \<Rightarrow> int n)" "prec pi = -1"
      "\<not> alt pi" "\<not> showsign pi" "\<not> is_char pi" "\<not> is_short pi"
    and arg: "argument_ok m P (pva + offset) (argument f)" and P: "\<forall>i < length (field_text f). P (bp + of_nat i)"
  shows "\<exists>m1. convert_arg dbl num pre m bp pi pva offset = Some (int (length (field_text f)), offset + 4, put m1 bp (field_text f)) \<and>
    same_outside (local_area num pre) m m1"
proof (cases "argument f")
  case (Dec w)
  have sp: "spec pi = 100" using pi(1) Dec by simp
  obtain m1 where "sprintf_interger num pre m bp pi (pva + offset) = Some (int (length (field_text f)), put m1 bp (field_text f))"
    "\<forall>x. \<not> local_area num pre x \<longrightarrow> m1 x = m x"
    using interger_field [OF a Dec f sp pi(2,3,5-8), of m "pva + offset"] arg Dec by auto
  then show ?thesis using sp by (auto simp: convert_arg_def same_outside_def)
next
  case (Str cs)
  have c: "cstring m (get_int m (pva + offset)) cs" "apart bp (length (field_text f)) (get_int m (pva + offset)) (Suc (length cs))"
    using arg Str P by (auto simp: apart_def less_Suc_eq_le)
  have "sprintf_string m bp pi (pva + offset) = Some (int (length (field_text f)), put m bp (field_text f))"
    by (rule string_field [OF a Str f pi(2-4) c])
  then show ?thesis using pi(1) Str by (auto simp: convert_arg_def same_outside_def)
qed

definition may_write :: "u32 \<Rightarrow> nat \<Rightarrow> u32 \<Rightarrow> u32 \<Rightarrow> u32 \<Rightarrow> bool" where
  "may_write buffer n num pre x \<longleftrightarrow> between buffer n x \<or> local_area num pre x"

lemma areas_part:
  assumes "areas_ok buffer n num pre" "unat buffer \<le> unat bp" "unat bp + k \<le> unat buffer + n"
  shows "areas_ok bp k num pre" "i < k \<Longrightarrow> between buffer n (bp + of_nat i)"
proof -
  have "between buffer n x" if "between bp k x" for x using that assms by (simp add: between_def)
  then show "areas_ok bp k num pre" using assms by (simp add: areas_ok_def)
  assume "i < k"
  then have "unat (bp + of_nat i) = unat bp + i" using assms by (intro unat_off) (simp add: areas_ok_def)
  then show "between buffer n (bp + of_nat i)" using \<open>i < k\<close> assms by (simp add: between_def)
qed

lemma put_same: "unat p + length cs \<le> 2 ^ 32 \<Longrightarrow> \<forall>x. between p (length cs) x \<longrightarrow> P x \<Longrightarrow> same_outside P m (put m p cs)"
  unfolding same_outside_def by (intro allI impI put_keep) auto

lemma same_trans: "same_outside P a b \<Longrightarrow> same_outside P b c \<Longrightarrow> same_outside P a c"
  by (simp add: same_outside_def)

lemma same_mono: "same_outside P a b \<Longrightarrow> (\<And>x. P x \<Longrightarrow> Q x) \<Longrightarrow> same_outside Q a b"
  by (auto simp: same_outside_def)

lemma field_spec_start: "bytes_at m p (field_spec f @ rest) \<Longrightarrow> m p = 37"
  by (simp add: field_spec_def bytes_at_Cons)

text \<open>One round of the loop: the plain text and the field behind it are written.\<close>

lemma sprintf_round:
  assumes ok: "areas_ok buffer n num pre" "unat buffer \<le> unat bp" "unat bp + length cs + length (field_text f) \<le> unat buffer + n"
    and f: "plain cs" "field_ok f"
    and fmt: "bytes_at m (end_fmt sp) (cs @ field_spec f)" "\<forall>i < length (cs @ field_spec f). \<not> may_write buffer n num pre (end_fmt sp + of_nat i)"
      "unat (end_fmt sp) + length cs < 2 ^ 32"
    and arg: "argument_ok m (may_write buffer n num pre) (pva + offset) (argument f)"
  shows "\<exists>m2 sp2. sprintf_loop dbl num pre m bp sp pva offset =
      sprintf_loop dbl num pre m2 (bp + of_nat (length (cs @ field_text f))) sp2 pva (offset + 4) \<and>
    end_fmt sp2 = end_fmt sp + of_nat (length (cs @ field_spec f)) \<and> bytes_at m2 bp (cs @ field_text f) \<and>
    same_outside (\<lambda>x. between bp (length (cs @ field_text f)) x \<or> local_area num pre x) m m2"
proof -
  let ?P = "may_write buffer n num pre" and ?e = "end_fmt sp" and ?k = "length (field_text f)"
  let ?p = "?e + of_nat (length cs)" and ?bp = "bp + of_nat (length cs)" and ?m = "put m bp cs"
  let ?W = "\<lambda>x. between bp (length (cs @ field_text f)) x \<or> local_area num pre x"
  have room: "unat bp + length cs + ?k < 2 ^ 32" using ok by (simp add: areas_ok_def)
  have ub: "unat ?bp = unat bp + length cs" by (rule unat_off) (use room in simp)
  have a2: "areas_ok ?bp ?k num pre" by (rule areas_part [OF ok(1)]) (use ub ok(2,3) in simp_all)
  have in1: "?P (bp + of_nat i)" if "i < length cs" for i
    using areas_part(2) [OF ok(1,2), of "length cs" i] ok(3) that by (simp add: may_write_def)
  have in2: "?P (?bp + of_nat i)" if "i < ?k" for i
    using areas_part(2) [OF ok(1), of ?bp ?k i] ok ub that by (simp add: may_write_def)
  have cs: "bytes_at m ?e cs" "bytes_at m ?p (field_spec f)" using fmt(1) by (simp_all add: bytes_at_append)
  have out: "\<not> ?P (?e + of_nat i)" if "i < length cs" for i using fmt(2) that by simp
  have out2: "\<not> ?P (?p + of_nat i)" if "i < length (field_spec f)" for i
    using fmt(2) [rule_format, of "length cs + i"] that by (simp add: add.assoc)
  have pct: "m ?p = 37" using field_spec_start [of m ?p f "[]"] cs(2) by simp
  have fs: "find_spec m sp = Some (True, sp\<lparr>start_fmt := ?p\<rparr>)"
    using find_plain [OF cs(1) f(1)] pct by (simp add: find_spec_def)
  have "apart bp (length cs) ?e (length cs)" using in1 out by (auto simp: apart_def) metis
  then have cr: "copy_range m bp ?e ?p = (?bp, ?m)" by (rule copy_range_put [OF cs(1) _ fmt(3)])
  have s1: "same_outside (between bp (length cs)) m ?m" by (rule put_same) (use room in simp_all)
  have bin: "?P x" if "between bp (length cs) x" for x
    using that ok by (auto simp: may_write_def between_def)
  have s1P: "same_outside ?P m ?m" by (rule same_mono [OF s1 bin])
  have "bytes_at ?m ?p (field_spec f)" by (rule bytes_at_same [OF cs(2)]) (use s1P out2 in \<open>auto simp: same_outside_def\<close>)
  then obtain pi where pi: "parse_spec ?m (sp\<lparr>start_fmt := ?p\<rparr>) = Some (sp\<lparr>start_fmt := ?p, info := pi, end_fmt := ?p + of_nat (length (field_spec f))\<rparr>)"
    "spec pi = letter (argument f)" "left pi = to_left f" "width pi = (case least f of None \<Rightarrow> -1 | Some n \<Rightarrow> int n)" "prec pi = -1"
    "\<not> alt pi" "\<not> showsign pi" "\<not> is_char pi" "\<not> is_short pi"
    using parse_field [of ?m "sp\<lparr>start_fmt := ?p\<rparr>" f] f(2) by auto
  have P2: "\<forall>i < ?k. ?P (?bp + of_nat i)" using in2 by blast
  obtain m1 where m1: "convert_arg dbl num pre ?m ?bp pi pva offset = Some (int ?k, offset + 4, put m1 ?bp (field_text f))"
    "same_outside (local_area num pre) ?m m1"
    using convert_field [OF a2 f(2) pi(2-9) argument_same [OF s1P arg] P2] by blast
  let ?m2 = "put m1 ?bp (field_text f)"
  let ?sp2 = "sp\<lparr>start_fmt := ?p, info := pi, end_fmt := ?p + of_nat (length (field_spec f))\<rparr>"
  have s2: "same_outside (between ?bp ?k) m1 ?m2" by (rule put_same) (use room ub in simp_all)
  have "same_outside ?W m ?m2"
  proof (rule same_trans [OF same_trans])
    show "same_outside ?W m ?m" by (rule same_mono [OF s1]) (simp add: between_def)
    show "same_outside ?W ?m m1" by (rule same_mono [OF m1(2)]) simp
    show "same_outside ?W m1 ?m2" by (rule same_mono [OF s2]) (simp add: between_def ub)
  qed
  moreover have "bytes_at ?m2 bp (cs @ field_text f)"
    unfolding bytes_at_append
  proof
    show "bytes_at ?m2 ?bp (field_text f)" by (rule bytes_at_put) (use room in simp)
    have start: "bytes_at ?m bp cs" by (rule bytes_at_put) (use room in simp)
    have "?m2 (bp + of_nat i) = ?m (bp + of_nat i)" if i: "i < length cs" for i
    proof -
      have "unat (bp + of_nat i) = unat bp + i" by (rule unat_off) (use room i in simp)
      then have "\<not> between ?bp ?k (bp + of_nat i)" using i by (simp add: between_def ub)
      moreover have "\<not> local_area num pre (bp + of_nat i)"
        using areas_part(2) [OF ok(1,2), of "length cs" i] ok(1,3) i by (simp add: areas_ok_def)
      ultimately have "?m2 (bp + of_nat i) = m1 (bp + of_nat i)" "m1 (bp + of_nat i) = ?m (bp + of_nat i)"
        using m1(2) s2 unfolding same_outside_def by blast+
      then show ?thesis by (rule trans)
    qed
    then show "bytes_at ?m2 bp cs" by (intro bytes_at_same [OF start] allI impI)
  qed
  moreover have "sprintf_loop dbl num pre m bp sp pva offset = sprintf_loop dbl num pre ?m2 (bp + of_nat (length (cs @ field_text f))) ?sp2 pva (offset + 4)"
    by (subst sprintf_loop.simps) (simp add: fs cr pi(1) m1(1) add.assoc)
  moreover have "end_fmt ?sp2 = ?e + of_nat (length (cs @ field_spec f))" by (simp add: add.assoc)
  ultimately show ?thesis by blast
qed

text \<open>The text behind the last field.\<close>

lemma sprintf_last:
  assumes ok: "areas_ok buffer n num pre" "unat buffer \<le> unat bp" "unat bp + length t \<le> unat buffer + n" and t: "plain t"
    and fmt: "cstring m (end_fmt sp) t" "\<forall>i \<le> length t. \<not> may_write buffer n num pre (end_fmt sp + of_nat i)" "unat (end_fmt sp) + length t < 2 ^ 32"
  shows "sprintf_loop dbl num pre m bp sp pva offset = Some (bp + of_nat (length t), put m bp t)"
proof -
  let ?e = "end_fmt sp"
  have b: "bytes_at m ?e t" "m (?e + of_nat (length t)) = 0" using cstring_bytes_at [OF fmt(1)] by simp_all
  have fs: "find_spec m sp = Some (False, sp\<lparr>start_fmt := ?e + of_nat (length t)\<rparr>)"
    using find_plain [OF b(1) t] b(2) by (simp add: find_spec_def)
  have "apart bp (length t) ?e (length t)"
    using areas_part(2) [OF ok] fmt(2) by (auto simp: apart_def may_write_def) (metis less_imp_le)
  then have "copy_range m bp ?e (?e + of_nat (length t)) = (bp + of_nat (length t), put m bp t)" by (rule copy_range_put [OF b(1) _ fmt(3)])
  then show ?thesis by (subst sprintf_loop.simps) (simp add: fs)
qed

lemma sprintf_loop_text:
  assumes ok: "areas_ok buffer n num pre" "unat buffer \<le> unat bp" "unat bp + length (output_of segs t) \<le> unat buffer + n" and segs: "fragments_ok segs t"
    and fmt: "cstring m (end_fmt sp) (format_of segs t)" "\<forall>i \<le> length (format_of segs t). \<not> may_write buffer n num pre (end_fmt sp + of_nat i)"
      "unat (end_fmt sp) + length (format_of segs t) < 2 ^ 32"
    and args: "arguments_ok m (may_write buffer n num pre) (pva + offset) segs"
  shows "\<exists>m'. sprintf_loop dbl num pre m bp sp pva offset = Some (bp + of_nat (length (output_of segs t)), m') \<and> bytes_at m' bp (output_of segs t) \<and>
    same_outside (\<lambda>x. between bp (length (output_of segs t)) x \<or> local_area num pre x) m m'"
  using assms(2-)
proof (induction segs arbitrary: m bp sp offset)
  case Nil
  have "plain t" "unat bp + length t < 2 ^ 32" using Nil.prems ok(1) by (simp_all add: fragments_ok_def areas_ok_def)
  then show ?case
    using sprintf_last [OF ok(1) Nil.prems(1), of t m sp dbl pva offset] Nil.prems bytes_at_put [of t m bp] put_same [of bp t "between bp (length t)" m]
    by (auto simp: same_outside_def)
next
  case (Cons s segs)
  obtain cs f where s: "s = (cs, f)" by (cases s)
  let ?P = "may_write buffer n num pre" and ?sp = "cs @ field_spec f" and ?ft = "cs @ field_text f" and ?out = "output_of segs t"
  have f: "plain cs" "field_ok f" "fragments_ok segs t" using Cons.prems(3) by (simp_all add: s fragments_ok_def)
  have split: "format_of (s # segs) t = ?sp @ format_of segs t" "output_of (s # segs) t = ?ft @ ?out" by (simp_all add: s)
  have fm: "bytes_at m (end_fmt sp) ?sp" "cstring m (end_fmt sp + of_nat (length ?sp)) (format_of segs t)" using Cons.prems(4) unfolding split cstring_append by simp_all
  have out: "\<not> ?P (end_fmt sp + of_nat i)" if "i \<le> length ?sp + length (format_of segs t)" for i
    using Cons.prems(5) that unfolding split by simp
  have arg: "argument_ok m ?P (pva + offset) (argument f)" "arguments_ok m ?P (pva + offset + 4) segs" using Cons.prems(7) by (simp_all add: s)
  have room: "unat bp + length ?ft + length ?out \<le> unat buffer + n" using Cons.prems(2) unfolding split by simp
  have lim: "unat buffer + n < 2 ^ 32" using ok(1) by (simp add: areas_ok_def)
  have ub: "unat (bp + of_nat (length ?ft)) = unat bp + length ?ft" by (rule unat_off) (use room lim in simp)
  have flen: "unat (end_fmt sp) + length ?sp + length (format_of segs t) < 2 ^ 32" using Cons.prems(6) unfolding split by simp
  have ue: "unat (end_fmt sp + of_nat (length ?sp)) = unat (end_fmt sp) + length ?sp" by (rule unat_off) (use flen in simp)
  have room1: "unat bp + length cs + length (field_text f) \<le> unat buffer + n" and len1: "unat (end_fmt sp) + length cs < 2 ^ 32"
    and out1: "\<forall>i < length ?sp. \<not> ?P (end_fmt sp + of_nat i)" using room flen out by simp_all
  obtain m2 sp2 where r: "sprintf_loop dbl num pre m bp sp pva offset = sprintf_loop dbl num pre m2 (bp + of_nat (length ?ft)) sp2 pva (offset + 4)"
    "end_fmt sp2 = end_fmt sp + of_nat (length ?sp)" "bytes_at m2 bp ?ft" "same_outside (\<lambda>x. between bp (length ?ft) x \<or> local_area num pre x) m m2"
    using sprintf_round [OF ok(1) Cons.prems(1) room1 f(1,2) fm(1) out1 len1 arg(1), of dbl] by blast
  have inP: "?P x" if "between bp (length ?ft) x \<or> local_area num pre x" for x
    using that Cons.prems(1) room by (auto simp: may_write_def between_def)
  have sP: "same_outside ?P m m2" by (rule same_mono [OF r(4) inP])
  have "cstring m2 (end_fmt sp2) (format_of segs t)" unfolding r(2)
  proof (rule cstring_same [OF fm(2)], intro allI impI)
    fix i assume "i \<le> length (format_of segs t)"
    then have "\<not> ?P (end_fmt sp + of_nat (length ?sp + i))" by (intro out) simp
    then show "m2 (end_fmt sp + of_nat (length ?sp) + of_nat i) = m (end_fmt sp + of_nat (length ?sp) + of_nat i)"
      using sP by (simp add: same_outside_def add.assoc)
  qed
  moreover have "\<forall>i \<le> length (format_of segs t). \<not> ?P (end_fmt sp2 + of_nat i)" unfolding r(2)
  proof (intro allI impI)
    fix i assume "i \<le> length (format_of segs t)"
    then have "\<not> ?P (end_fmt sp + of_nat (length ?sp + i))" by (intro out) simp
    then show "\<not> ?P (end_fmt sp + of_nat (length ?sp) + of_nat i)" by (simp add: add.assoc)
  qed
  moreover have "arguments_ok m2 ?P (pva + (offset + 4)) segs" using arguments_same [OF sP arg(2)] by (simp add: add.assoc)
  moreover have "unat (end_fmt sp2) + length (format_of segs t) < 2 ^ 32" unfolding r(2) ue by (rule flen)
  moreover have "unat buffer \<le> unat (bp + of_nat (length ?ft))" "unat (bp + of_nat (length ?ft)) + length ?out \<le> unat buffer + n"
    unfolding ub using Cons.prems(1) room by simp_all
  ultimately obtain m' where m': "sprintf_loop dbl num pre m2 (bp + of_nat (length ?ft)) sp2 pva (offset + 4) = Some (bp + of_nat (length ?ft) + of_nat (length ?out), m')"
    "bytes_at m' (bp + of_nat (length ?ft)) ?out" "same_outside (\<lambda>x. between (bp + of_nat (length ?ft)) (length ?out) x \<or> local_area num pre x) m2 m'"
    using Cons.IH f(3) by blast
  let ?W = "\<lambda>x. between bp (length (?ft @ ?out)) x \<or> local_area num pre x"
  have "same_outside ?W m m'"
  proof (rule same_trans)
    show "same_outside ?W m m2" by (rule same_mono [OF r(4)]) (auto simp: between_def)
    show "same_outside ?W m2 m'" by (rule same_mono [OF m'(3)], unfold between_def ub) auto
  qed
  moreover have "m' (bp + of_nat i) = m2 (bp + of_nat i)" if i: "i < length ?ft" for i
  proof -
    have "unat (bp + of_nat i) = unat bp + i" by (rule unat_off) (use room lim i in simp)
    then have "\<not> between (bp + of_nat (length ?ft)) (length ?out) (bp + of_nat i)" using i by (simp only: between_def ub) linarith
    moreover have "\<not> local_area num pre (bp + of_nat i)"
      using areas_part(2) [OF ok(1) Cons.prems(1), of "length ?ft" i] ok(1) room i by (simp add: areas_ok_def)
    ultimately show ?thesis using m'(3) unfolding same_outside_def by blast
  qed
  then have "bytes_at m' bp ?ft" by (intro bytes_at_same [OF r(3)] allI impI)
  ultimately show ?case unfolding split r(1) m'(1) bytes_at_append using m'(2) by (simp add: add.assoc)
qed

text \<open>
  C33. \<open>sprintf\<close> with a format of plain text and of the fields \<open>%s\<close> and \<open>%d\<close>, each with the flag \<open>-\<close> or not and
  a width or not: it returns, the buffer holds the text with every field replaced by its argument filled up to
  the width, and a 0 behind it; the result is the length; nothing else but the local arrays is written.  The format, the
  arguments and the strings must not lie where is written, and the text must be shorter than \<open>2 ^ 31 - 1\<close>.
\<close>

theorem sprintf_renders:
  fixes segs :: fragments and t :: "u8 list" and buffer num pre :: u32
  defines "out \<equiv> output_of segs t" and "P \<equiv> may_write buffer (Suc (length (output_of segs t))) num pre"
  assumes areas: "buffer \<noteq> 0" "areas_ok buffer (Suc (length out)) num pre" and segs: "fragments_ok segs t"
    and fmt: "cstring m fmt (format_of segs t)" "\<forall>i \<le> length (format_of segs t). \<not> P (fmt + of_nat i)" "unat fmt + length (format_of segs t) < 2 ^ 32"
    and args: "arguments_ok m P pva segs"
  shows "\<exists>m'. sprintf dbl num pre m buffer fmt pva = Some (int (length out), m') \<and> bytes_at m' buffer (out @ [0]) \<and> same_outside P m m'"
proof -
  let ?sp = "\<lparr>start_fmt = fmt, end_fmt = fmt, info = any_info\<rparr>"
  obtain m' where m': "sprintf_loop dbl num pre m buffer ?sp pva 0 = Some (buffer + of_nat (length out), m')" "bytes_at m' buffer out"
    "same_outside (\<lambda>x. between buffer (length out) x \<or> local_area num pre x) m m'"
    using sprintf_loop_text [OF areas(2), of buffer segs t m ?sp pva 0 dbl] segs fmt args by (auto simp: out_def P_def)
  let ?m = "m'(buffer + of_nat (length out) := 0)"
  have lim: "unat buffer + length out < 2 ^ 32" and short: "length out < 2 ^ 31" using areas(2) by (simp_all add: areas_ok_def)
  have u: "unat (buffer + of_nat (length out)) = unat buffer + length out" by (rule unat_off [OF lim])
  have "buffer + of_nat i \<noteq> buffer + of_nat (length out)" if "i < length out" for i
    using lib_offset_inj [of i "length out" buffer] that lim by simp
  then have "bytes_at ?m buffer out" by (intro bytes_at_same [OF m'(2)]) simp
  then have "bytes_at ?m buffer (out @ [0])" by (simp add: bytes_at_append bytes_at_Cons) (simp add: bytes_at_def)
  moreover have "same_outside P m ?m"
  proof (rule same_trans)
    show "same_outside P m m'" by (rule same_mono [OF m'(3)]) (auto simp: P_def may_write_def between_def out_def)
    show "same_outside P m' ?m" using u by (auto simp: same_outside_def P_def may_write_def between_def out_def)
  qed
  moreover have "sprintf dbl num pre m buffer fmt pva = Some (int (length out), ?m)"
    using areas(1) m'(1) sint_length [OF short] by (simp add: sprintf_def)
  ultimately show ?thesis by blast
qed

lemma areas_okI:
  assumes "num \<noteq> 0" "unat num + 34 < 2 ^ 32" "unat bp + n < 2 ^ 32" "n < 2 ^ 31"
    "unat bp + n \<le> unat num \<or> unat num + 34 \<le> unat bp" "unat pre < unat num \<or> unat num + 34 \<le> unat pre" "unat pre < unat bp \<or> unat bp + n \<le> unat pre"
  shows "areas_ok bp n num pre"
  using assms by (auto simp: areas_ok_def local_area_def between_def)

text \<open>
  The sign that the flag \<open>+\<close> asks for is not counted: the field of a number that is not negative has one
  character more than the result says, so that the next text overwrites its last digit.
\<close>

theorem plus_sign_not_counted:
  assumes areas: "areas_ok bp (Suc (length (numeral_text (unat w)))) num pre" "areas_ok bp (Suc (length (numeral_text (unat w)))) num (pre + 1)"
    and w: "0 \<le> sint w" "get_int m arg = w"
    and pi: "spec pi = 100" "\<not> left pi" "width pi = -1" "\<not> alt pi" "showsign pi" "\<not> is_char pi" "\<not> is_short pi"
  shows "\<exists>m'. sprintf_interger num pre m bp pi arg = Some (int (length (numeral_text (unat w))), m') \<and> bytes_at m' bp (43 # numeral_text (unat w))"
proof -
  let ?cs = "numeral_text (unat w)"
  have v: "unat w < 2 ^ 32" using unsigned_less [of w] by simp
  note nt = numeral_text_facts [OF v]
  note ad = areas_okD [OF areas(1)] and ad' = areas_okD(6,7) [OF areas(2)]
  obtain m' where m': "itoa m w num 10 = Some (num, m')" "cstring m' num ?cs"
    using itoa_text [OF ad(1,2), of m w] w(1) by auto
  obtain c ds where cd: "?cs = c # ds" using nt(3) by (cases ?cs) auto
  have "isdigit c"
  proof -
    have ten: "2 \<le> (10 :: nat)" by simp
    show ?thesis using numeral_of_facts(2) [OF ten v] digit_char_decimal(1) cd by (cases "numeral_of 10 (unat w)") (auto simp: numeral_text_def)
  qed
  then have "c \<noteq> 45" by (auto simp: isdigit_def)
  moreover have "m' num = c" using m'(2) by (simp add: cd)
  ultimately have np: "number_prefix m' pi pre num = (pre + 1, m'(pre := 43))" using pi by (simp add: number_prefix_def signed_spec_def)
  let ?m = "m'(pre := 43, pre + 1 := 0)"
  have c: "cstring ?m num ?cs"
    by (rule cstring_upd [OF cstring_upd [OF m'(2)]]) (use ad(6) ad'(1) nt(2) in auto)
  have empty: "cstring ?m (pre + 1) []" and plus: "cstring ?m pre [43]" by simp_all
  have sl: "sint (of_nat (length ?cs) :: u32) = int (length ?cs)" using sint_length [of "length ?cs"] nt(2) by simp
  have ap1: "apart bp 1 pre 2" unfolding apart_def
  proof (intro allI impI)
    fix i j :: nat assume "i < 1" "j < 2"
    then show "bp + of_nat i \<noteq> pre + of_nat j" using ad(7) ad'(2) by (cases j) (auto simp: apart_def dest!: spec [of _ 0])
  qed
  have ct1: "copy_text ?m bp pre = Some (bp + 1, ?m(bp := 43))" using copy_text_put [OF plus, of bp] ap1 by (simp add: numeral_2_eq_2)
  have "cstring (put ?m bp [43]) num ?cs" by (rule cstring_put [OF c]) (use apart_part [OF ad(5), of 0 1 "Suc (length ?cs)"] nt(2) in simp)
  then have c2: "cstring (?m(bp := 43)) num ?cs" by simp
  have "apart (bp + of_nat 1) (length ?cs) num (Suc (length ?cs))" by (rule apart_part [OF ad(5)]) (use nt(2) in simp_all)
  then have ct2: "copy_text (?m(bp := 43)) (bp + 1) num = Some (bp + 1 + of_nat (length ?cs), put (?m(bp := 43)) (bp + 1) ?cs)"
    using copy_text_put [OF c2] by simp
  have na: "number_arg m pi arg = w" "signed_spec (spec pi)" using pi w by (simp_all add: number_arg_def signed_spec_def)
  have "sprintf_interger num pre m bp pi arg = Some (int (length ?cs), put (?m(bp := 43)) (bp + 1) ?cs)"
    unfolding sprintf_interger_def na(1) if_P [OF na(2)] m'(1)
    by (simp add: ad(1) np strlen_string [OF c] strlen_string [OF empty] sl pi(2,3) fill_spaces.simps ct1 ct2)
  moreover have "bytes_at (put ?m bp (43 # ?cs)) bp (43 # ?cs)" by (rule bytes_at_put) (use nt(2) in simp)
  ultimately show ?thesis by simp
qed

section \<open>Examples\<close>

text \<open>\<open>sprintf(buffer, "x=%4d!", 7)\<close>.\<close>

definition demo_segs :: fragments where
  "demo_segs = [([120, 61], Field False (Some 4) (Dec 7))]"

definition demo_memory :: mem where
  "demo_memory = put (put (\<lambda>a. 0) 0x1000 [120, 61, 37, 52, 100, 33]) 0x2000 [7, 0, 0, 0]"

lemma demo_texts: "format_of demo_segs [33] = [120, 61, 37, 52, 100, 33]" "output_of demo_segs [33] = [120, 61, 32, 32, 32, 55, 33]"
  by code_simp+

lemma sprintf_renders_witness:
  "\<exists>m'. sprintf (\<lambda>m bp pi a. None) 0x4000 0x5000 demo_memory 0x3000 0x1000 0x2000 = Some (7, m') \<and>
     bytes_at m' 0x3000 [120, 61, 32, 32, 32, 55, 33, 0]"
proof -
  let ?P = "may_write 0x3000 (Suc (length (output_of demo_segs [33]))) 0x4000 0x5000"
  have P: "?P x \<longleftrightarrow> 0x3000 \<le> unat x \<and> unat x < 0x3008 \<or> 0x4000 \<le> unat x \<and> unat x < 0x4022 \<or> x = 0x5000" for x
    by (simp add: demo_texts may_write_def local_area_def between_def)
  have areas: "areas_ok 0x3000 (Suc (length (output_of demo_segs [33]))) 0x4000 0x5000"
    by (rule areas_okI) (simp_all add: demo_texts)
  have segs: "fragments_ok demo_segs [33]" by (simp add: fragments_ok_def demo_segs_def plain_def field_ok_def)
  have fmt: "cstring demo_memory 0x1000 (format_of demo_segs [33])" by (simp add: demo_texts demo_memory_def)
  have far: "\<not> ?P (b + of_nat i)" if "i \<le> 6" "unat b \<le> 0x2000" for b i
  proof -
    have u: "unat (b + of_nat i) = unat b + i" by (rule unat_off) (use that in simp)
    have "b + of_nat i \<noteq> 0x5000"
    proof
      assume "b + of_nat i = 0x5000"
      then have "unat b + i = unat (0x5000 :: u32)" using u by simp
      then show False using that by simp
    qed
    then show ?thesis unfolding P u using that by simp
  qed
  have out: "\<forall>i \<le> length (format_of demo_segs [33]). \<not> ?P (0x1000 + of_nat i)" using far by (simp add: demo_texts)
  have four: "\<forall>i < 4. \<not> ?P (0x2000 + of_nat i)" using far by simp
  have int: "get_int demo_memory 0x2000 = 7" by code_simp
  have args: "arguments_ok demo_memory ?P 0x2000 demo_segs" using four int by (subst (2) demo_segs_def) simp
  have "(0x3000 :: u32) \<noteq> 0" "unat (0x1000 :: u32) + length (format_of demo_segs [33]) < 2 ^ 32" by (simp_all add: demo_texts)
  from sprintf_renders [OF this(1) areas segs fmt out this(2) args] show ?thesis by (auto simp: demo_texts)
qed

lemma plus_sign_not_counted_witness:
  "\<exists>m'. sprintf_interger 0x4000 0x5000 demo_memory 0x3000 (any_info\<lparr>spec := 100, width := -1, showsign := True\<rparr>) 0x2000 = Some (1, m') \<and>
     bytes_at m' 0x3000 [43, 55]"
proof -
  let ?pi = "any_info\<lparr>spec := 100, width := -1, showsign := True\<rparr>"
  have t: "numeral_text (unat (7 :: u32)) = [55]" by code_simp
  have pi: "spec ?pi = 100" "\<not> left ?pi" "width ?pi = -1" "\<not> alt ?pi" "showsign ?pi" "\<not> is_char ?pi" "\<not> is_short ?pi" by (simp_all add: any_info_def)
  have areas: "areas_ok 0x3000 (Suc (length (numeral_text (unat (7 :: u32))))) 0x4000 0x5000"
    "areas_ok 0x3000 (Suc (length (numeral_text (unat (7 :: u32))))) 0x4000 (0x5000 + 1)"
    unfolding t by (rule areas_okI; simp)+
  have "0 \<le> sint (7 :: u32)" "get_int demo_memory 0x2000 = 7" by code_simp+
  from plus_sign_not_counted [OF areas this pi] show ?thesis unfolding t by simp
qed

end
