(* ===== verification/Shell.thy ===== *)
theory Shell
  imports CLib "HOL-Library.Monad_Syntax"
begin

text \<open>
  The shell (\<open>shell/PreExecute.c\<close>, \<open>shell/CommandTree.c\<close>): the splitting of a line into tokens and the tree of
  commands.  The tokens lie in the memory of the shell, \<open>args\<close> holds pointers to them; \<open>args\<close> and \<open>commandNodes\<close> are
  arrays of 50, the arguments of a node an array of 10, and \<open>None\<close> is the result when the code leaves one of these
  arrays or does not return.
\<close>

unbundle bit_operations_syntax

section \<open>Tokens\<close>

definition is_key_token :: "u8 \<Rightarrow> bool" where
  "is_key_token ch \<longleftrightarrow> ch = 59 \<or> ch = 124 \<or> ch = 38 \<or> ch = 62 \<or> ch = 60 \<or> ch = 40 \<or> ch = 41"

partial_function (option) TrimLeft :: "mem \<Rightarrow> u32 \<Rightarrow> u32 option" where
  "TrimLeft m p = (if m p = 32 then TrimLeft m (p + 1) else Some p)"

partial_function (option) NextKeyToken :: "mem \<Rightarrow> u32 \<Rightarrow> u32 option" where
  "NextKeyToken m p =
     (if m p = 0 then Some p
      else if is_key_token (m p) then (if m (p - 1) = 92 then NextKeyToken m (p + 2) else Some p)
      else if m p = 32 then Some p
      else NextKeyToken m (p + 1))"

partial_function (option) copy_token :: "mem \<Rightarrow> u32 \<Rightarrow> u32 \<Rightarrow> u32 \<Rightarrow> (u32 \<times> mem) option" where
  "copy_token m pline pinput pKeyToken =
     (if pinput < pKeyToken then
        let pinput = (if m pinput = 92 \<and> (is_key_token (m (pinput + 1)) \<or> m (pinput + 1) = 92) then pinput + 1 else pinput)
        in copy_token (m(pline := m pinput)) (pline + 1) (pinput + 1) pKeyToken
      else Some (pline, m))"

record commandNode =
  commandType :: u32
  params :: u32
  left :: int
  right :: int
  commandName :: u32
  fin :: u32
  fout :: u32
  node_args :: "u32 list"

record shell =
  chars :: mem
  args :: "u32 list"
  commandNodes :: "commandNode list"
  curNode :: nat

definition set_arg :: "shell \<Rightarrow> nat \<Rightarrow> u32 \<Rightarrow> shell option" where
  "set_arg s n p = (if n < 50 then Some (s\<lparr>args := (args s)[n := p]\<rparr>) else None)"

partial_function (option) split_loop :: "shell \<Rightarrow> u32 \<Rightarrow> nat \<Rightarrow> u32 \<Rightarrow> u32 \<Rightarrow> (nat \<times> shell) option" where
  "split_loop s pline nargs pinput pKeyToken =
     (if chars s pKeyToken = 0 then Some (nargs, s)
      else do {
        pinput \<leftarrow> TrimLeft (chars s) pinput;
        pKeyToken \<leftarrow> NextKeyToken (chars s) pinput;
        (pline, nargs, s) \<leftarrow>
          (if pKeyToken > pinput then do {
             s \<leftarrow> set_arg s nargs pline;
             (pline, m) \<leftarrow> copy_token (chars s) pline pinput pKeyToken;
             Some (pline + 1, nargs + 1, s\<lparr>chars := m(pline := 0)\<rparr>)
           } else Some (pline, nargs, s));
        (pline, nargs, s) \<leftarrow>
          (if is_key_token (chars s pKeyToken) then do {
             s \<leftarrow> set_arg s nargs pline;
             Some (pline + 2, nargs + 1, s\<lparr>chars := (chars s)(pline := chars s pKeyToken, pline + 1 := 0)\<rparr>)
           } else Some (pline, nargs, s));
        split_loop s pline nargs (pKeyToken + 1) pKeyToken
      })"

definition SpiltCommand :: "u32 \<Rightarrow> u32 \<Rightarrow> shell \<Rightarrow> (nat \<times> shell) option" where
  "SpiltCommand line input s = split_loop s line 0 input input"

section \<open>The tree of commands\<close>

definition TLST :: u32 where "TLST = 1"
definition TFIL :: u32 where "TFIL = 2"
definition TPAR :: u32 where "TPAR = 4"
definition TCOM :: u32 where "TCOM = 8"
definition FCAT :: u32 where "FCAT = 1"
definition FPIN :: u32 where "FPIN = 2"
definition FPOU :: u32 where "FPOU = 4"
definition FAND :: u32 where "FAND = 8"
definition FPAR :: u32 where "FPAR = 16"

lemmas node_flags = FCAT_def FPIN_def FPOU_def FAND_def FPAR_def

text \<open>The loop of \<open>getFilename\<close> goes down to the slash or to the byte before the string.\<close>

partial_function (option) name_start :: "mem \<Rightarrow> u32 \<Rightarrow> u32 \<Rightarrow> u32 option" where
  "name_start m pathname cp = (if pathname \<le> cp \<and> m cp \<noteq> 47 then name_start m pathname (cp - 1) else Some cp)"

definition getFilename :: "mem \<Rightarrow> u32 \<Rightarrow> u32 option" where
  "getFilename m pathname = do {
     len \<leftarrow> strlen m pathname;
     cp \<leftarrow> name_start m pathname (pathname + len - 1);
     Some (cp + 1)
   }"

definition InitCommandTree :: "shell \<Rightarrow> shell" where
  "InitCommandTree s = s\<lparr>curNode := 0,
     commandNodes := map (\<lambda>n. n\<lparr>commandName := 0, commandType := 0, fin := 0, fout := 0, left := -1, right := -1, params := 0\<rparr>) (commandNodes s)\<rparr>"

definition GetNextFreeCommandNode :: "shell \<Rightarrow> nat \<times> shell" where
  "GetNextFreeCommandNode s = (curNode s, s\<lparr>curNode := curNode s + 1\<rparr>)"

definition get_node :: "shell \<Rightarrow> nat \<Rightarrow> commandNode option" where
  "get_node s n = (if n < 50 then Some (commandNodes s ! n) else None)"

definition set_node :: "nat \<Rightarrow> commandNode \<Rightarrow> shell \<Rightarrow> shell" where
  "set_node n p s = s\<lparr>commandNodes := (commandNodes s)[n := p]\<rparr>"

definition get_arg :: "shell \<Rightarrow> int \<Rightarrow> u32 option" where
  "get_arg s i = (if 0 \<le> i \<and> i < 50 then Some (args s ! nat i) else None)"

text \<open>The first character of a token, and whether it is the only one.\<close>

definition get_token :: "shell \<Rightarrow> int \<Rightarrow> (u8 \<times> bool) option" where
  "get_token s i = map_option (\<lambda>p. (chars s p, chars s (p + 1) = 0)) (get_arg s i)"

definition add_arg :: "u32 \<Rightarrow> commandNode \<Rightarrow> nat \<Rightarrow> (commandNode \<times> nat) option" where
  "add_arg w p cnt = (if cnt < 10 then Some (p\<lparr>node_args := (node_args p)[cnt := w]\<rparr>, cnt + 1) else None)"

definition simple_step :: "shell \<Rightarrow> int \<Rightarrow> int \<Rightarrow> commandNode \<Rightarrow> nat \<Rightarrow> (int \<times> commandNode \<times> nat) option" where
  "simple_step s stArg edArg p cnt = do {
     (ch, single) \<leftarrow> get_token s stArg;
     if single \<and> ch = 60 then
       if stArg + 1 \<le> edArg \<and> fin p = 0 then do { f \<leftarrow> get_arg s (stArg + 1); Some (stArg + 2, p\<lparr>fin := f\<rparr>, cnt) }
       else Some (stArg + 1, p, cnt)
     else if single \<and> ch = 62 then
       if stArg + 2 \<le> edArg \<and> fout p = 0 then do {
         t \<leftarrow> get_token s (stArg + 1);
         if t = (62, True) then do { f \<leftarrow> get_arg s (stArg + 2); Some (stArg + 3, p\<lparr>fout := f, params := params p OR FCAT\<rparr>, cnt) }
         else Some (stArg + 1, p, cnt)
       }
       else if stArg + 1 \<le> edArg \<and> fout p = 0 then do { f \<leftarrow> get_arg s (stArg + 1); Some (stArg + 2, p\<lparr>fout := f\<rparr>, cnt) }
       else Some (stArg + 1, p, cnt)
     else do { w \<leftarrow> get_arg s stArg; (p, cnt) \<leftarrow> add_arg w p cnt; Some (stArg + 1, p, cnt) }
   }"

lemma simple_step_moves: "simple_step s st ed p cnt = Some (st', p', cnt') \<Longrightarrow> st < st'"
  by (auto simp: simple_step_def bind_eq_Some_conv split: if_splits prod.splits)

function simple_loop :: "shell \<Rightarrow> int \<Rightarrow> int \<Rightarrow> commandNode \<Rightarrow> nat \<Rightarrow> (commandNode \<times> nat) option" where
  "simple_loop s stArg edArg p cnt =
     (if stArg \<le> edArg then
        (case simple_step s stArg edArg p cnt of None \<Rightarrow> None | Some (stArg', p', cnt') \<Rightarrow> simple_loop s stArg' edArg p' cnt')
      else Some (p, cnt))"
  by pat_completeness auto
termination
  by (relation "measure (\<lambda>(s, st, ed, p, cnt). nat (ed + 1 - st))") (auto dest: simple_step_moves)

declare simple_loop.simps [simp del]

definition CreateSimpleNode :: "int \<Rightarrow> int \<Rightarrow> u32 \<Rightarrow> shell \<Rightarrow> (int \<times> shell) option" where
  "CreateSimpleNode stArg edArg par s = do {
     let (n, s) = GetNextFreeCommandNode s;
     p \<leftarrow> get_node s n;
     let p = p\<lparr>fin := 0, fout := 0, commandType := TCOM,
               params := params p OR (if par AND FPAR \<noteq> 0 then FPAR else 0) OR (if par AND FAND \<noteq> 0 then FAND else 0)\<rparr>;
     name \<leftarrow> get_arg s stArg;
     file \<leftarrow> getFilename (chars s) name;
     (p, cnt) \<leftarrow> add_arg file (p\<lparr>commandName := name\<rparr>) 0;
     (p, cnt) \<leftarrow> simple_loop s (stArg + 1) edArg p cnt;
     (p, cnt) \<leftarrow> add_arg 0 p cnt;
     Some (int n, set_node n p s)
   }"

type_synonym analyze = "int \<Rightarrow> int \<Rightarrow> u32 \<Rightarrow> shell \<Rightarrow> (int \<times> shell) option"

function find_close :: "shell \<Rightarrow> int \<Rightarrow> int option" where
  "find_close s edArg =
     (case get_token s edArg of None \<Rightarrow> None | Some t \<Rightarrow> if t = (41, True) then Some edArg else find_close s (edArg - 1))"
  by pat_completeness auto
termination
  by (relation "measure (\<lambda>(s, ed). nat (ed + 1))") (auto simp: get_token_def get_arg_def split: if_splits)

declare find_close.simps [simp del]

definition curve_step :: "shell \<Rightarrow> int \<Rightarrow> int \<Rightarrow> commandNode \<Rightarrow> commandNode option" where
  "curve_step s firstArg lastArg p = do {
     (ch, single) \<leftarrow> get_token s firstArg;
     if single \<and> ch = 60 then
       if firstArg + 1 \<le> lastArg then do { f \<leftarrow> get_arg s (firstArg + 1); Some (if fin p = 0 then p\<lparr>fin := f\<rparr> else p) } else Some p
     else if single \<and> ch = 62 then
       if firstArg + 2 \<le> lastArg then do {
         t \<leftarrow> get_token s (firstArg + 1);
         if t = (62, True) then do {
           f \<leftarrow> get_arg s (firstArg + 2);
           Some ((if fout p = 0 then p\<lparr>fout := f\<rparr> else p)\<lparr>params := params p OR FCAT\<rparr>)
         } else Some p
       }
       else if firstArg + 1 \<le> lastArg then do { f \<leftarrow> get_arg s (firstArg + 1); Some (if fout p = 0 then p\<lparr>fout := f\<rparr> else p) }
       else Some p
     else Some p
   }"

function curve_loop :: "shell \<Rightarrow> int \<Rightarrow> int \<Rightarrow> commandNode \<Rightarrow> commandNode option" where
  "curve_loop s firstArg lastArg p =
     (if firstArg \<le> lastArg then
        (case curve_step s firstArg lastArg p of None \<Rightarrow> None | Some p' \<Rightarrow> curve_loop s (firstArg + 1) lastArg p')
      else Some p)"
  by pat_completeness auto
termination
  by (relation "measure (\<lambda>(s, f, l, p). nat (l + 1 - f))") auto

declare curve_loop.simps [simp del]

text \<open>The functions that create inner nodes call \<open>AnalizeCommand\<close> for the parts, which is their first argument here.\<close>

definition CreateCurveNode :: "analyze \<Rightarrow> int \<Rightarrow> int \<Rightarrow> u32 \<Rightarrow> shell \<Rightarrow> (int \<times> shell) option" where
  "CreateCurveNode analyze stArg edArg par s = do {
     let (n, s) = GetNextFreeCommandNode s;
     p \<leftarrow> get_node s n;
     let lastArg = edArg;
     edArg \<leftarrow> find_close s edArg;
     p \<leftarrow> curve_loop s (edArg + 1) lastArg (p\<lparr>commandType := TPAR, fin := 0, fout := 0\<rparr>);
     (l, s) \<leftarrow> analyze (stArg + 1) (edArg - 1) FPAR (set_node n p s);
     Some (int n, set_node n ((commandNodes s ! n)\<lparr>left := l\<rparr>) s)
   }"

definition CreatePipeNode :: "analyze \<Rightarrow> int \<Rightarrow> int \<Rightarrow> int \<Rightarrow> u32 \<Rightarrow> shell \<Rightarrow> (int \<times> shell) option" where
  "CreatePipeNode analyze stArg edArg midArg par s = do {
     let (n, s) = GetNextFreeCommandNode s;
     p \<leftarrow> get_node s n;
     (l, s) \<leftarrow> analyze stArg (midArg - 1) 0 (set_node n (p\<lparr>commandType := TFIL\<rparr>) s);
     (r, s) \<leftarrow> analyze (midArg + 1) edArg par (set_node n ((commandNodes s ! n)\<lparr>left := l\<rparr>) s);
     Some (int n, set_node n ((commandNodes s ! n)\<lparr>right := r\<rparr>) s)
   }"

definition CreateTableNode :: "analyze \<Rightarrow> int \<Rightarrow> int \<Rightarrow> int \<Rightarrow> u32 \<Rightarrow> shell \<Rightarrow> (int \<times> shell) option" where
  "CreateTableNode analyze stArg edArg midArg par s = do {
     let (n, s) = GetNextFreeCommandNode s;
     p \<leftarrow> get_node s n;
     (ch, single) \<leftarrow> get_token s midArg;
     let par = (if ch = 38 then par OR FAND else par);
     (l, s) \<leftarrow> analyze stArg (midArg - 1) par (set_node n (p\<lparr>commandType := TLST\<rparr>) s);
     (r, s) \<leftarrow> analyze (midArg + 1) edArg (par AND NOT FAND) (set_node n ((commandNodes s ! n)\<lparr>left := l\<rparr>) s);
     Some (int n, set_node n ((commandNodes s ! n)\<lparr>right := r\<rparr>) s)
   }"

function skip_separators :: "shell \<Rightarrow> int \<Rightarrow> int \<Rightarrow> int option" where
  "skip_separators s stArg edArg =
     (if stArg \<le> edArg then
        (case get_token s stArg of None \<Rightarrow> None
         | Some (ch, single) \<Rightarrow> if single \<and> (ch = 38 \<or> ch = 59 \<or> ch = 124) then skip_separators s (stArg + 1) edArg else Some stArg)
      else Some stArg)"
  by pat_completeness auto
termination
  by (relation "measure (\<lambda>(s, st, ed). nat (ed + 1 - st))") auto

text \<open>The scan for the first separator outside parentheses (\<open>Inl\<close>), or the depth and the first pipe.\<close>

function scan_tokens :: "shell \<Rightarrow> int \<Rightarrow> int \<Rightarrow> int \<Rightarrow> int \<Rightarrow> (int + int \<times> int) option" where
  "scan_tokens s curArg edArg curveCnt firstPipe =
     (if curArg \<le> edArg then
        (case get_token s curArg of None \<Rightarrow> None
         | Some (ch, single) \<Rightarrow>
             if single \<and> (ch = 38 \<or> ch = 59) \<and> curveCnt = 0 then Some (Inl curArg)
             else scan_tokens s (curArg + 1) edArg
               (if single \<and> ch = 40 then curveCnt + 1 else if single \<and> ch = 41 then curveCnt - 1 else curveCnt)
               (if single \<and> ch = 124 \<and> curveCnt = 0 \<and> curArg < firstPipe then curArg else firstPipe))
      else Some (Inr (curveCnt, firstPipe)))"
  by pat_completeness auto
termination
  by (relation "measure (\<lambda>(s, cur, ed, c, f). nat (ed + 1 - cur))") auto

declare skip_separators.simps [simp del] scan_tokens.simps [simp del]

text \<open>Every call for a part has fewer tokens, so the number of tokens and one more is enough as the fuel.\<close>

fun AnalizeCommand :: "nat \<Rightarrow> int \<Rightarrow> int \<Rightarrow> u32 \<Rightarrow> shell \<Rightarrow> (int \<times> shell) option" where
  "AnalizeCommand 0 stArg edArg par s = None"
| "AnalizeCommand (Suc fuel) stArg edArg par s =
     (if stArg > edArg then Some (-1, s)
      else do {
        stArg \<leftarrow> skip_separators s stArg edArg;
        found \<leftarrow> scan_tokens s stArg edArg 0 (edArg + 1);
        case found of
          Inl mid \<Rightarrow> CreateTableNode (AnalizeCommand fuel) stArg edArg mid par s
        | Inr (curveCnt, firstPipe) \<Rightarrow>
            if firstPipe \<le> edArg then CreatePipeNode (AnalizeCommand fuel) stArg edArg firstPipe par s
            else do {
              (ch, single) \<leftarrow> get_token s stArg;
              if ch = 40 \<and> curveCnt = 0 then CreateCurveNode (AnalizeCommand fuel) stArg edArg par s
              else CreateSimpleNode stArg edArg par s
            }
      })"

text \<open>A round of the loop in \<open>main1\<close> up to the execution: the line was read to \<open>lineInput\<close>.\<close>

definition command_tree :: "u32 \<Rightarrow> u32 \<Rightarrow> shell \<Rightarrow> (int \<times> nat \<times> shell) option" where
  "command_tree line lineInput s = do {
     (argsCnt, s) \<leftarrow> SpiltCommand line lineInput (InitCommandTree s);
     (root, s) \<leftarrow> AnalizeCommand (argsCnt + 1) 0 (int argsCnt - 1) 0 s;
     Some (root, argsCnt, s)
   }"

end
