(* ===== verification/ShellSpec.thy ===== *)
theory ShellSpec
  imports Shell
begin

text \<open>
  What the parser of the shell promises: the abstract syntax of command lines, its tokens, and the tree that
  \<open>AnalizeCommand\<close> builds for them.
\<close>

section \<open>Commands\<close>

type_synonym token = "u8 list"

text \<open>
  A simple command with its arguments and redirections, a list in parentheses with redirections, a pipe, and a
  command ended by \<open>;\<close> or \<open>&\<close> alone or followed by another one.
\<close>

datatype command =
    Com token "token list" "token option" "(bool \<times> token) option"
  | Par command "token option" "(bool \<times> token) option"
  | Pipe command command
  | Ended command bool
  | Seq command bool command

definition input_tokens :: "token option \<Rightarrow> token list" where
  "input_tokens i = (case i of None \<Rightarrow> [] | Some f \<Rightarrow> [[60], f])"

definition output_tokens :: "(bool \<times> token) option \<Rightarrow> token list" where
  "output_tokens q = (case q of None \<Rightarrow> [] | Some (app, f) \<Rightarrow> (if app then [[62], [62], f] else [[62], f]))"

definition separator :: "bool \<Rightarrow> token" where
  "separator bg = [if bg then 38 else 59]"

fun tokens :: "command \<Rightarrow> token list" where
  "tokens (Com n ws i q) = n # ws @ input_tokens i @ output_tokens q"
| "tokens (Par c i q) = [40] # tokens c @ [41] # input_tokens i @ output_tokens q"
| "tokens (Pipe a b) = tokens a @ [124] # tokens b"
| "tokens (Ended a bg) = tokens a @ [separator bg]"
| "tokens (Seq a bg b) = tokens a @ separator bg # tokens b"

text \<open>A word has no byte 0 and is not one of the key tokens; a parenthesis does not begin the name of a command.\<close>

definition word_ok :: "token \<Rightarrow> bool" where
  "word_ok w \<longleftrightarrow> w \<noteq> [] \<and> 0 \<notin> set w \<and> (tl w = [] \<longrightarrow> \<not> is_key_token (hd w))"

definition input_ok :: "token option \<Rightarrow> bool" where
  "input_ok i \<longleftrightarrow> (case i of None \<Rightarrow> True | Some f \<Rightarrow> word_ok f)"

definition output_ok :: "(bool \<times> token) option \<Rightarrow> bool" where
  "output_ok q \<longleftrightarrow> (case q of None \<Rightarrow> True | Some (app, f) \<Rightarrow> word_ok f)"

fun simple :: "command \<Rightarrow> bool" where
  "simple (Com n ws i q) \<longleftrightarrow> True"
| "simple (Par c i q) \<longleftrightarrow> True"
| "simple c \<longleftrightarrow> False"

fun pipeline :: "command \<Rightarrow> bool" where
  "pipeline (Pipe a b) \<longleftrightarrow> True"
| "pipeline c \<longleftrightarrow> simple c"

fun command_ok :: "command \<Rightarrow> bool" where
  "command_ok (Com n ws i q) \<longleftrightarrow> word_ok n \<and> hd n \<noteq> 40 \<and> list_all word_ok ws \<and> length ws \<le> 8 \<and> input_ok i \<and> output_ok q"
| "command_ok (Par c i q) \<longleftrightarrow> command_ok c \<and> input_ok i \<and> output_ok q"
| "command_ok (Pipe a b) \<longleftrightarrow> command_ok a \<and> simple a \<and> command_ok b \<and> pipeline b"
| "command_ok (Ended a bg) \<longleftrightarrow> command_ok a \<and> pipeline a"
| "command_ok (Seq a bg b) \<longleftrightarrow> command_ok a \<and> pipeline a \<and> command_ok b"

fun node_count :: "command \<Rightarrow> nat" where
  "node_count (Com n ws i q) = 1"
| "node_count (Par c i q) = 1 + node_count c"
| "node_count (Pipe a b) = 1 + node_count a + node_count b"
| "node_count (Ended a bg) = 1 + node_count a"
| "node_count (Seq a bg b) = 1 + node_count a + node_count b"

lemma node_count_tokens: "node_count c \<le> length (tokens c)"
  by (induction c) auto

section \<open>The tree of a command\<close>

definition base_name :: "token \<Rightarrow> token" where
  "base_name w = rev (takeWhile (\<lambda>c. c \<noteq> 47) (rev w))"

definition string_at :: "mem \<Rightarrow> u32 \<Rightarrow> token \<Rightarrow> bool" where
  "string_at m p w \<longleftrightarrow> p \<noteq> 0 \<and> unat p + length w < 2 ^ 32 \<and> cstring m p w"

definition string_or_null :: "mem \<Rightarrow> u32 \<Rightarrow> token option \<Rightarrow> bool" where
  "string_or_null m p w \<longleftrightarrow> (case w of None \<Rightarrow> p = 0 | Some w \<Rightarrow> string_at m p w)"

definition append_flag :: "(bool \<times> token) option \<Rightarrow> u32" where
  "append_flag q = (case q of Some (True, f) \<Rightarrow> FCAT | _ \<Rightarrow> 0)"

definition redirected :: "mem \<Rightarrow> commandNode \<Rightarrow> token option \<Rightarrow> (bool \<times> token) option \<Rightarrow> bool" where
  "redirected m n i q \<longleftrightarrow> string_or_null m (fin n) i \<and> string_or_null m (fout n) (map_option snd q)"

text \<open>The root is node \<open>k\<close>, the left part begins behind it, and the right part behind the left one.\<close>

fun represents :: "mem \<Rightarrow> commandNode list \<Rightarrow> nat \<Rightarrow> u32 \<Rightarrow> command \<Rightarrow> bool" where
  "represents m ns k par (Com n ws i q) \<longleftrightarrow>
     commandType (ns ! k) = TCOM \<and> redirected m (ns ! k) i q \<and>
     params (ns ! k) = (if par AND FPAR \<noteq> 0 then FPAR else 0) OR (if par AND FAND \<noteq> 0 then FAND else 0) OR append_flag q \<and>
     string_at m (commandName (ns ! k)) n \<and> string_at m (node_args (ns ! k) ! 0) (base_name n) \<and>
     (\<forall>j < length ws. string_at m (node_args (ns ! k) ! Suc j) (ws ! j)) \<and> node_args (ns ! k) ! Suc (length ws) = 0 \<and>
     length (node_args (ns ! k)) = 10"
| "represents m ns k par (Par c i q) \<longleftrightarrow>
     commandType (ns ! k) = TPAR \<and> redirected m (ns ! k) i q \<and> params (ns ! k) = append_flag q \<and>
     left (ns ! k) = int (k + 1) \<and> represents m ns (k + 1) FPAR c"
| "represents m ns k par (Pipe a b) \<longleftrightarrow>
     commandType (ns ! k) = TFIL \<and> params (ns ! k) = 0 \<and> left (ns ! k) = int (k + 1) \<and> represents m ns (k + 1) 0 a \<and>
     right (ns ! k) = int (k + 1 + node_count a) \<and> represents m ns (k + 1 + node_count a) par b"
| "represents m ns k par (Ended a bg) \<longleftrightarrow>
     commandType (ns ! k) = TLST \<and> params (ns ! k) = 0 \<and> left (ns ! k) = int (k + 1) \<and>
     represents m ns (k + 1) (if bg then par OR FAND else par) a \<and> right (ns ! k) = -1"
| "represents m ns k par (Seq a bg b) \<longleftrightarrow>
     commandType (ns ! k) = TLST \<and> params (ns ! k) = 0 \<and> left (ns ! k) = int (k + 1) \<and>
     represents m ns (k + 1) (if bg then par OR FAND else par) a \<and>
     right (ns ! k) = int (k + 1 + node_count a) \<and>
     represents m ns (k + 1 + node_count a) ((if bg then par OR FAND else par) AND NOT FAND) b"

lemma represents_cong:
  "(\<And>i. k \<le> i \<Longrightarrow> i < k + node_count c \<Longrightarrow> ns' ! i = ns ! i) \<Longrightarrow> represents m ns k par c \<Longrightarrow> represents m ns' k par c"
  by (induction c arbitrary: k par) simp_all

section \<open>Tokens in memory\<close>

definition tokens_at :: "shell \<Rightarrow> int \<Rightarrow> token list \<Rightarrow> bool" where
  "tokens_at s st ws \<longleftrightarrow> 0 \<le> st \<and> st + int (length ws) \<le> 50 \<and>
     (\<forall>k < length ws. string_at (chars s) (args s ! nat (st + int k)) (ws ! k))"

lemma tokens_at_Cons: "tokens_at s st (w # ws) \<longleftrightarrow> (\<exists>p. get_arg s st = Some p \<and> string_at (chars s) p w) \<and> tokens_at s (st + 1) ws"
proof
  assume t: "tokens_at s st (w # ws)"
  have at: "string_at (chars s) (args s ! nat (st + int k)) ((w # ws) ! k)" if "k < Suc (length ws)" for k
    using t that by (simp add: tokens_at_def)
  have "tokens_at s (st + 1) ws"
    using t at [of "Suc _"] by (auto simp: tokens_at_def add.assoc)
  then show "(\<exists>p. get_arg s st = Some p \<and> string_at (chars s) p w) \<and> tokens_at s (st + 1) ws"
    using at [of 0] t by (simp add: get_arg_def tokens_at_def)
next
  assume a: "(\<exists>p. get_arg s st = Some p \<and> string_at (chars s) p w) \<and> tokens_at s (st + 1) ws"
  show "tokens_at s st (w # ws)"
    unfolding tokens_at_def
  proof (intro conjI allI impI)
    show "0 \<le> st" "st + int (length (w # ws)) \<le> 50" using a by (auto simp: get_arg_def tokens_at_def split: if_splits)
    fix k assume "k < length (w # ws)"
    then show "string_at (chars s) (args s ! nat (st + int k)) ((w # ws) ! k)"
      using a by (cases k) (auto simp: get_arg_def tokens_at_def add.assoc split: if_splits)
  qed
qed

lemma tokens_at_append: "tokens_at s st (xs @ ys) \<longleftrightarrow> tokens_at s st xs \<and> tokens_at s (st + int (length xs)) ys"
proof (induction xs arbitrary: st)
  case Nil
  show ?case by (auto simp: tokens_at_def)
next
  case (Cons x xs)
  then show ?case by (simp add: tokens_at_Cons add.assoc)
qed

lemma get_token_at: "tokens_at s st (w # ws) \<Longrightarrow> w \<noteq> [] \<Longrightarrow> get_token s st = Some (hd w, tl w = [])"
  by (cases w; cases "tl w") (auto simp: tokens_at_Cons get_token_def string_at_def)

lemma word_token: "word_ok w \<Longrightarrow> w \<noteq> [] \<and> (tl w = [] \<longrightarrow> hd w \<notin> {59, 124, 38, 62, 60, 40, 41})"
  by (auto simp: word_ok_def is_key_token_def)

text \<open>The scan of the code as one over the list of tokens.\<close>

fun scan_list :: "token list \<Rightarrow> int \<Rightarrow> int \<Rightarrow> int \<Rightarrow> int + int \<times> int" where
  "scan_list [] pos cnt fp = Inr (cnt, fp)"
| "scan_list (w # ws) pos cnt fp =
     (if (w = [38] \<or> w = [59]) \<and> cnt = 0 then Inl pos
      else scan_list ws (pos + 1) (if w = [40] then cnt + 1 else if w = [41] then cnt - 1 else cnt)
        (if w = [124] \<and> cnt = 0 \<and> pos < fp then pos else fp))"

lemma single_token: "w \<noteq> [] \<Longrightarrow> (tl w = [] \<and> hd w = c) = (w = [c])"
  by (cases w) auto

lemma scan_tokens_list:
  "tokens_at s cur ws \<Longrightarrow> [] \<notin> set ws \<Longrightarrow> scan_tokens s cur (cur + int (length ws) - 1) cnt fp = Some (scan_list ws cur cnt fp)"
proof (induction ws arbitrary: cur cnt fp)
  case Nil
  then show ?case by (simp add: scan_tokens.simps)
next
  case (Cons w ws)
  obtain c cs where w: "w = c # cs" using Cons.prems(2) by (cases w) auto
  have g: "get_token s cur = Some (c, cs = [])" using get_token_at [OF Cons.prems(1)] by (simp add: w)
  have t: "tokens_at s (cur + 1) ws" "[] \<notin> set ws" using Cons.prems by (simp_all add: tokens_at_Cons)
  have IH: "scan_tokens s (cur + 1) (cur + int (length ws)) cnt fp = Some (scan_list ws (cur + 1) cnt fp)" for cnt fp
    using Cons.IH [OF t] by simp
  show ?case by (subst scan_tokens.simps) (cases "cs = []"; simp add: g IH w)
qed

lemma scan_list_append:
  "q = pos + int (length xs) \<Longrightarrow>
   scan_list (xs @ ys) pos cnt fp = (case scan_list xs pos cnt fp of Inl p \<Rightarrow> Inl p | Inr (c, f) \<Rightarrow> scan_list ys q c f)"
proof (induction xs arbitrary: pos cnt fp)
  case (Cons x xs)
  have "q = pos + 1 + int (length xs)" using Cons.prems by simp
  from Cons.IH [OF this] show ?case by simp
qed simp

lemmas scan_append = scan_list_append [OF refl]

text \<open>Words and redirections change nothing.\<close>

lemma scan_word: "word_ok w \<Longrightarrow> scan_list (w # ws) pos cnt fp = scan_list ws (pos + 1) cnt fp"
  by (auto dest: word_token)

lemma scan_words: "list_all word_ok ws \<Longrightarrow> scan_list ws pos cnt fp = Inr (cnt, fp)"
  by (induction ws arbitrary: pos) (simp_all add: scan_word del: scan_list.simps(2))

lemma scan_input: "input_ok i \<Longrightarrow> scan_list (input_tokens i) pos cnt fp = Inr (cnt, fp)"
  using scan_word [of "the i"] by (cases i) (simp_all add: input_tokens_def input_ok_def scan_words)

lemma scan_output: "output_ok q \<Longrightarrow> scan_list (output_tokens q) pos cnt fp = Inr (cnt, fp)"
proof (cases q)
  case (Some p)
  obtain a f where p: "p = (a, f)" by (cases p)
  assume "output_ok q"
  then have "word_ok f" by (simp add: Some p output_ok_def)
  then have "f \<notin> {[38], [59], [40], [41], [124]}" by (auto dest: word_token)
  then show ?thesis by (cases a) (simp_all add: Some p output_tokens_def)
qed (simp add: output_tokens_def)

lemma scan_command: "word_ok n \<Longrightarrow> list_all word_ok ws \<Longrightarrow> input_ok i \<Longrightarrow> output_ok q \<Longrightarrow>
  scan_list (tokens (Com n ws i q)) pos cnt fp = Inr (cnt, fp)"
  by (simp add: scan_word scan_append scan_words scan_input scan_output del: scan_list.simps(2))

lemma scan_inside: "command_ok c \<Longrightarrow> 0 < cnt \<Longrightarrow> scan_list (tokens c) pos cnt fp = Inr (cnt, fp)"
proof (induction c arbitrary: pos cnt)
  case (Com n ws i q)
  then show ?case by (simp add: scan_command del: tokens.simps)
qed (simp_all add: scan_append scan_input scan_output separator_def)

lemma scan_simple: "command_ok c \<Longrightarrow> simple c \<Longrightarrow> scan_list (tokens c) pos 0 fp = Inr (0, fp)"
proof (cases c)
  case (Com n ws i q)
  then show "command_ok c \<Longrightarrow> ?thesis" by (simp add: scan_command del: tokens.simps)
qed (simp_all add: scan_append scan_input scan_output scan_inside)

lemma scan_pipeline: "command_ok c \<Longrightarrow> pipeline c \<Longrightarrow> fp \<le> pos \<Longrightarrow> scan_list (tokens c) pos 0 fp = Inr (0, fp)"
proof (induction c arbitrary: pos)
  case (Pipe a b)
  then show ?case by (simp add: scan_append scan_simple)
qed (simp_all add: scan_simple del: tokens.simps)

lemma scan_pipe:
  assumes "command_ok (Pipe a b)" "pos + int (length (tokens a)) < fp"
  shows "scan_list (tokens (Pipe a b)) pos 0 fp = Inr (0, pos + int (length (tokens a)))"
  using assms by (simp add: scan_append scan_simple scan_pipeline)

lemma scan_pipeline_any:
  assumes "command_ok c" "pipeline c" "pos + int (length (tokens c)) < fp"
  shows "\<exists>f. scan_list (tokens c) pos 0 fp = Inr (0, f)"
proof (cases "simple c")
  case True
  then show ?thesis using scan_simple assms(1) by blast
next
  case False
  then obtain a b where c: "c = Pipe a b" using assms(2) by (cases c) auto
  then show ?thesis using scan_pipe [of a b pos fp] assms by simp
qed

lemma tokens_start: "command_ok c \<Longrightarrow> \<exists>w ws. tokens c = w # ws \<and> w \<noteq> [] \<and> w \<notin> {[38], [59], [124]}"
  by (induction c) (auto dest!: word_token)

lemma tokens_nonempty: "command_ok c \<Longrightarrow> [] \<notin> set (tokens c)"
proof (induction c)
  case (Com n ws i q)
  have "[] \<notin> set ws" using Com by (auto simp: list_all_iff dest: word_token)
  then show ?case using Com
    by (auto simp: input_ok_def output_ok_def input_tokens_def output_tokens_def dest!: word_token split: option.splits prod.splits)
next
  case (Par c i q)
  then show ?case by (auto simp: input_ok_def output_ok_def input_tokens_def output_tokens_def dest!: word_token split: option.splits prod.splits)
qed (auto simp: separator_def)

lemma skip_none: "tokens_at s st (w # ws) \<Longrightarrow> w \<noteq> [] \<Longrightarrow> w \<notin> {[38], [59], [124]} \<Longrightarrow> skip_separators s st (st + int (length (w # ws)) - 1) = Some st"
  by (subst skip_separators.simps) (use single_token [of w] in \<open>auto simp: get_token_at\<close>)

lemma find_close_at:
  assumes "tokens_at s st (xs @ [41] # ys)" "[] \<notin> set ys" "[41] \<notin> set ys"
  shows "find_close s (st + int (length (xs @ [41] # ys)) - 1) = Some (st + int (length xs))"
  using assms
proof (induction ys rule: rev_induct)
  case Nil
  have "tokens_at s (st + int (length xs)) [[41]]" using Nil.prems(1) by (simp add: tokens_at_append)
  then have "get_token s (st + int (length xs)) = Some (41, True)" using get_token_at [of s _ "[41]" "[]"] by simp
  then show ?case by (subst find_close.simps) simp
next
  case (snoc y ys)
  have y: "y \<noteq> []" "y \<noteq> [41]" using snoc.prems by auto
  have "tokens_at s (st + int (length (xs @ [41] # ys))) [y]" 
    using snoc.prems(1) tokens_at_append [of s st "xs @ [41] # ys" "[y]"] by simp
  then have "get_token s (st + int (length (xs @ [41] # ys))) = Some (hd y, tl y = [])" using get_token_at y(1) by blast
  moreover have "tokens_at s st (xs @ [41] # ys)" using snoc.prems(1) tokens_at_append [of s st "xs @ [41] # ys" "[y]"] by simp
  moreover have "\<not> (tl y = [] \<and> hd y = 41)" unfolding single_token [OF y(1)] by (rule y(2))
  moreover have "st + int (length (xs @ [41] # ys @ [y])) - 1 = st + int (length (xs @ [41] # ys))" by simp
  ultimately show ?case using snoc by (subst find_close.simps) (simp only:, auto)
qed

section \<open>Simple commands\<close>

text \<open>The last component of a path.\<close>

lemma base_name_snoc: "base_name (xs @ [x]) = (if x = 47 then [] else base_name xs @ [x])"
  by (simp add: base_name_def)

lemma base_name_split: "\<exists>dir. w = dir @ base_name w"
proof -
  have "rev w = takeWhile (\<lambda>c. c \<noteq> 47) (rev w) @ dropWhile (\<lambda>c. c \<noteq> 47) (rev w)" by simp
  then have "rev (rev w) = rev (dropWhile (\<lambda>c. c \<noteq> 47) (rev w)) @ base_name w" unfolding base_name_def by (metis rev_append)
  then show ?thesis by (simp only: rev_rev_ident) blast
qed

lemma name_start_base:
  "p \<noteq> 0 \<Longrightarrow> unat p + length w < 2 ^ 32 \<Longrightarrow> bytes_at m p w \<Longrightarrow>
   name_start m p (p + of_nat (length w) - 1) = Some (p + of_nat (length w - length (base_name w)) - 1)"
proof (induction w rule: rev_induct)
  case Nil
  then have "p - 1 < p" using unat_minus_one [of p] by (simp add: word_less_nat_alt unat_gt_0)
  then have "\<not> p \<le> p - 1" by (simp only: not_le)
  then show ?case by (subst name_start.simps) (simp add: base_name_def)
next
  case (snoc x xs)
  have b: "bytes_at m p xs" "m (p + of_nat (length xs)) = x" using snoc.prems(3) by (simp_all add: bytes_at_append bytes_at_Cons)
  have u: "unat (p + of_nat (length xs)) = unat p + length xs" by (rule unat_off) (use snoc.prems in simp)
  then have le: "p \<le> p + of_nat (length xs)" by (simp add: word_le_nat_alt)
  have IH: "name_start m p (p + of_nat (length xs) - 1) = Some (p + of_nat (length xs - length (base_name xs)) - 1)"
    using snoc.IH b(1) snoc.prems by simp
  show ?case
    by (subst name_start.simps) (simp add: b(2) le IH base_name_snoc)
qed

lemma getFilename_base:
  assumes "string_at m p w"
  shows "\<exists>q. getFilename m p = Some q \<and> string_at m q (base_name w)"
proof -
  have c: "cstring m p w" and p: "p \<noteq> 0" "unat p + length w < 2 ^ 32" using assms by (simp_all add: string_at_def)
  have b: "bytes_at m p w" using cstring_bytes_at [OF c] by simp
  obtain dir where w: "w = dir @ base_name w" using base_name_split by blast
  then have len: "length w - length (base_name w) = length dir" by (metis add_diff_cancel_right' length_append)
  have dlen: "length dir + length (base_name w) = length w" using w by (metis length_append)
  have u: "unat (p + of_nat (length dir)) = unat p + length dir" by (rule unat_off) (use p(2) dlen in simp)
  have "cstring m (p + of_nat (length dir)) (base_name w)" using c w by (metis cstring_append)
  then have "string_at m (p + of_nat (length dir)) (base_name w)"
    using p u dlen by (simp add: string_at_def unat_eq_0 [symmetric])
  moreover have "getFilename m p = Some (p + of_nat (length dir))"
    using name_start_base [OF p b] by (simp add: getFilename_def strlen_string [OF c] len)
  ultimately show ?thesis by blast
qed

text \<open>Arguments are added one after another.\<close>

definition args_added :: "shell \<Rightarrow> commandNode \<Rightarrow> nat \<Rightarrow> token list \<Rightarrow> commandNode \<Rightarrow> bool" where
  "args_added s p cnt ws p' \<longleftrightarrow> (\<exists>as. p' = p\<lparr>node_args := as\<rparr> \<and> length as = length (node_args p) \<and> (\<forall>j < cnt. as ! j = node_args p ! j) \<and>
     (\<forall>j < length ws. string_at (chars s) (as ! (cnt + j)) (ws ! j)))"

lemma simple_loop_args:
  "tokens_at s st (ws @ rest) \<Longrightarrow> list_all word_ok ws \<Longrightarrow> cnt + length ws \<le> 10 \<Longrightarrow> length (node_args p) = 10 \<Longrightarrow> st + int (length (ws @ rest)) - 1 = ed \<Longrightarrow>
   \<exists>p'. simple_loop s st ed p cnt = simple_loop s (st + int (length ws)) ed p' (cnt + length ws) \<and> args_added s p cnt ws p'"
proof (induction ws arbitrary: st p cnt)
  case Nil
  have "args_added s p cnt [] p" unfolding args_added_def by (rule exI [of _ "node_args p"]) simp
  then show ?case by auto
next
  case (Cons w ws)
  have w: "w \<noteq> []" "\<not> (tl w = [] \<and> hd w = 60)" "\<not> (tl w = [] \<and> hd w = 62)" using word_token [of w] Cons.prems(2) by auto
  obtain a where a: "get_arg s st = Some a" "string_at (chars s) a w" using Cons.prems(1) by (auto simp: tokens_at_Cons)
  have g: "get_token s st = Some (hd w, tl w = [])" using get_token_at w(1) Cons.prems(1) by simp
  let ?p = "p\<lparr>node_args := (node_args p)[cnt := a]\<rparr>"
  have step: "simple_step s st ed p cnt = Some (st + 1, ?p, cnt + 1)"
    using w(2,3) Cons.prems(3) by (cases "tl w = []"; simp add: simple_step_def g a(1) add_arg_def)
  have "tokens_at s (st + 1) (ws @ rest)" using Cons.prems(1) by (simp add: tokens_at_Cons)
  then obtain p' where p': "simple_loop s (st + 1) ed ?p (cnt + 1) = simple_loop s (st + 1 + int (length ws)) ed p' (cnt + 1 + length ws)"
    "args_added s ?p (cnt + 1) ws p'"
    using Cons.IH [of "st + 1" "cnt + 1" ?p] Cons.prems by auto
  have "args_added s p cnt (w # ws) p'"
  proof -
    obtain as where as: "p' = ?p\<lparr>node_args := as\<rparr>" "length as = length (node_args ?p)" "\<forall>j < cnt + 1. as ! j = node_args ?p ! j"
      "\<forall>j < length ws. string_at (chars s) (as ! (cnt + 1 + j)) (ws ! j)" using p'(2) unfolding args_added_def by blast
    have "string_at (chars s) (as ! (cnt + j)) ((w # ws) ! j)" if "j < length (w # ws)" for j
      using that as(3) [rule_format, of cnt] as(4) a(2) Cons.prems(3,4) by (cases j) simp_all
    moreover have "\<forall>j < cnt. as ! j = node_args p ! j" using as(3) by simp
    ultimately show ?thesis unfolding args_added_def using as(1,2) by (intro exI [of _ as]) simp
  qed
  moreover have "simple_loop s st ed p cnt = simple_loop s (st + 1) ed ?p (cnt + 1)"
    by (subst simple_loop.simps) (use Cons.prems(5) step in simp)
  ultimately show ?case using p'(1) by (auto simp: add.assoc)
qed

lemma simple_loop_input:
  assumes "tokens_at s st (input_tokens i @ rest)" "fin p = 0" "st + int (length (input_tokens i @ rest)) - 1 = ed"
  shows "\<exists>f. simple_loop s st ed p cnt = simple_loop s (st + int (length (input_tokens i))) ed (p\<lparr>fin := f\<rparr>) cnt \<and> string_or_null (chars s) f i"
proof (cases i)
  case None
  have "p\<lparr>fin := 0\<rparr> = p" using assms(2) by simp
  then show ?thesis by (intro exI [of _ 0]) (simp add: None input_tokens_def string_or_null_def)
next
  case (Some w)
  obtain f where f: "get_arg s (st + 1) = Some f" "string_at (chars s) f w"
    using assms(1) by (auto simp: Some input_tokens_def tokens_at_Cons)
  have "get_token s st = Some (60, True)" using get_token_at [of s st "[60]"] assms(1) by (auto simp: Some input_tokens_def)
  then have "simple_loop s st ed p cnt = simple_loop s (st + 2) ed (p\<lparr>fin := f\<rparr>) cnt"
    using assms(2,3) f(1) by (subst simple_loop.simps) (simp add: simple_step_def Some input_tokens_def)
  then show ?thesis using f(2) by (auto simp: Some input_tokens_def string_or_null_def)
qed

lemma simple_loop_output:
  assumes "tokens_at s st (output_tokens q)" "output_ok q" "fout p = 0" "st + int (length (output_tokens q)) - 1 = ed"
  shows "\<exists>f. simple_loop s st ed p cnt = Some (p\<lparr>fout := f, params := params p OR append_flag q\<rparr>, cnt) \<and> string_or_null (chars s) f (map_option snd q)"
proof (cases q)
  case None
  have "p\<lparr>fout := 0\<rparr> = p" using assms(3) by simp
  then show ?thesis using assms(4)
    by (intro exI [of _ 0]) (simp add: None output_tokens_def string_or_null_def append_flag_def simple_loop.simps)
next
  case (Some x)
  obtain app w where x: "q = Some (app, w)" using Some by (cases x) simp
  have w: "w \<noteq> []" "w \<noteq> [62]" using assms(2) word_token [of w] by (auto simp: x output_ok_def)
  have t: "get_token s st = Some (62, True)" using get_token_at [of s st "[62]"] assms(1) by (cases app) (auto simp: x output_tokens_def)
  show ?thesis
  proof (cases app)
    case True
    have "tokens_at s (st + 1) ([62] # [w])" using assms(1) tokens_at_Cons [of s st "[62]" "[[62], w]"] by (simp add: x output_tokens_def True)
    then have t1: "get_token s (st + 1) = Some (62, True)" using get_token_at by fastforce
    obtain f where "get_arg s (2 + st) = Some f" "string_at (chars s) f w"
      using assms(1) by (auto simp: x True output_tokens_def tokens_at_Cons)
    then have f: "get_arg s (st + 2) = Some f" "string_at (chars s) f w" by (simp_all add: add.commute)
    have "simple_loop s st ed p cnt = simple_loop s (st + 3) ed (p\<lparr>fout := f, params := params p OR FCAT\<rparr>) cnt"
      using assms(3,4) f(1) t t1 by (subst simple_loop.simps) (simp add: simple_step_def x True output_tokens_def)
    then show ?thesis using f(2) assms(4) by (auto simp: x True output_tokens_def string_or_null_def append_flag_def simple_loop.simps)
  next
    case False
    obtain f where f: "get_arg s (st + 1) = Some f" "string_at (chars s) f w"
      using assms(1) by (auto simp: x False output_tokens_def tokens_at_Cons)
    have "simple_loop s st ed p cnt = simple_loop s (st + 2) ed (p\<lparr>fout := f\<rparr>) cnt"
      using assms(3,4) f(1) t by (subst simple_loop.simps) (simp add: simple_step_def x False output_tokens_def)
    then show ?thesis using f(2) assms(4) by (auto simp: x False output_tokens_def string_or_null_def append_flag_def simple_loop.simps)
  qed
qed

section \<open>The nodes\<close>

definition nodes_ready :: "commandNode list \<Rightarrow> nat \<Rightarrow> bool" where
  "nodes_ready ns k \<longleftrightarrow> length ns = 50 \<and> (\<forall>i. k \<le> i \<and> i < 50 \<longrightarrow> params (ns ! i) = 0 \<and> left (ns ! i) = -1 \<and> right (ns ! i) = -1 \<and> length (node_args (ns ! i)) = 10)"

definition parsed :: "shell \<Rightarrow> command \<Rightarrow> u32 \<Rightarrow> shell \<Rightarrow> bool" where
  "parsed s c par s' \<longleftrightarrow> chars s' = chars s \<and> args s' = args s \<and> curNode s' = curNode s + node_count c \<and> length (commandNodes s') = 50 \<and>
     (\<forall>i. i < curNode s \<or> curNode s' \<le> i \<longrightarrow> commandNodes s' ! i = commandNodes s ! i) \<and> represents (chars s) (commandNodes s') (curNode s) par c"

lemma ready_parsed: "nodes_ready (commandNodes s) k \<Longrightarrow> parsed s c par s' \<Longrightarrow> curNode s' \<le> l \<Longrightarrow> k \<le> l \<Longrightarrow> nodes_ready (commandNodes s') l"
  by (simp add: nodes_ready_def parsed_def)

lemma ready_set: "nodes_ready (commandNodes s) k \<Longrightarrow> n < l \<Longrightarrow> k \<le> l \<Longrightarrow> nodes_ready (commandNodes (set_node n p s)) l"
  by (simp add: nodes_ready_def set_node_def)

lemma tokens_at_cong: "chars s' = chars s \<Longrightarrow> args s' = args s \<Longrightarrow> tokens_at s' = tokens_at s"
  by (intro ext) (simp add: tokens_at_def)

lemma set_node_simps [simp]:
  "chars (set_node n p s) = chars s" "args (set_node n p s) = args s" "curNode (set_node n p s) = curNode s"
  "commandNodes (set_node n p s) = (commandNodes s)[n := p]"
  by (simp_all add: set_node_def)

lemma CreateSimpleNode_ok:
  assumes ok: "command_ok (Com n ws i q)" and t: "tokens_at s st (tokens (Com n ws i q))" and r: "nodes_ready (commandNodes s) (curNode s)" "curNode s < 50"
  shows "\<exists>s'. CreateSimpleNode st (st + int (length (tokens (Com n ws i q))) - 1) par s = Some (int (curNode s), s') \<and> parsed s (Com n ws i q) par s'"
proof -
  let ?ed = "st + int (length (tokens (Com n ws i q))) - 1" and ?s = "s\<lparr>curNode := curNode s + 1\<rparr>" and ?node = "commandNodes s ! curNode s"
  let ?par = "(if par AND FPAR \<noteq> 0 then FPAR else 0) OR (if par AND FAND \<noteq> 0 then FAND else 0)"
  have node: "params ?node = 0" "length (node_args ?node) = 10" "length (commandNodes s) = 50" using r by (simp_all add: nodes_ready_def)
  have at: "tokens_at (s\<lparr>curNode := k\<rparr>) = tokens_at s" for k by (rule tokens_at_cong) simp_all
  have ga: "get_arg (s\<lparr>curNode := k\<rparr>) = get_arg s" for k by (intro ext) (simp add: get_arg_def)
  have rest: "tokens_at ?s (st + 1) (ws @ input_tokens i @ output_tokens q)" using t by (simp add: tokens_at_Cons at)
  obtain a where a: "get_arg s st = Some a" "string_at (chars s) a n" using t by (auto simp: tokens_at_Cons)
  obtain b where b: "getFilename (chars s) a = Some b" "string_at (chars s) b (base_name n)" using getFilename_base [OF a(2)] by blast
  define p0 where "p0 = ?node\<lparr>fin := 0, fout := 0, commandType := TCOM, params := ?par, commandName := a, node_args := (node_args ?node)[0 := b]\<rparr>"
  have w: "list_all word_ok ws" "1 + length ws \<le> 10" "output_ok q" using ok by simp_all
  have len: "length (node_args p0) = 10" using node by (simp add: p0_def)
  have e1: "st + 1 + int (length (ws @ input_tokens i @ output_tokens q)) - 1 = ?ed" by simp
  obtain p1 where p1: "simple_loop ?s (st + 1) ?ed p0 1 = simple_loop ?s (st + 1 + int (length ws)) ?ed p1 (1 + length ws)" "args_added ?s p0 1 ws p1"
    using simple_loop_args [OF rest w(1,2) len e1] by blast
  obtain as where as: "p1 = p0\<lparr>node_args := as\<rparr>" "length as = 10" "as ! 0 = b" "\<forall>j < length ws. string_at (chars s) (as ! Suc j) (ws ! j)"
    using p1(2) len node(2) by (auto simp: args_added_def p0_def)
  have t2: "tokens_at ?s (st + 1 + int (length ws)) (input_tokens i @ output_tokens q)" using rest by (simp add: tokens_at_append)
  have "fin p1 = 0" by (simp add: as(1) p0_def)
  moreover have "st + 1 + int (length ws) + int (length (input_tokens i @ output_tokens q)) - 1 = ?ed" by simp
  ultimately obtain f where f: "simple_loop ?s (st + 1 + int (length ws)) ?ed p1 (1 + length ws) =
      simple_loop ?s (st + 1 + int (length ws) + int (length (input_tokens i))) ?ed (p1\<lparr>fin := f\<rparr>) (1 + length ws)" "string_or_null (chars s) f i"
    using simple_loop_input [OF t2, of p1 ?ed "1 + length ws"] by auto
  have t3: "tokens_at ?s (st + 1 + int (length ws) + int (length (input_tokens i))) (output_tokens q)" using t2 by (simp add: tokens_at_append)
  have "fout (p1\<lparr>fin := f\<rparr>) = 0" by (simp add: as(1) p0_def)
  moreover have "st + 1 + int (length ws) + int (length (input_tokens i)) + int (length (output_tokens q)) - 1 = ?ed" by simp
  ultimately obtain g where g: "simple_loop ?s (st + 1 + int (length ws) + int (length (input_tokens i))) ?ed (p1\<lparr>fin := f\<rparr>) (1 + length ws) =
      Some (p1\<lparr>fin := f, fout := g, params := params p1 OR append_flag q\<rparr>, 1 + length ws)" "string_or_null (chars s) g (map_option snd q)"
    using simple_loop_output [OF t3 w(3), of "p1\<lparr>fin := f\<rparr>" ?ed "1 + length ws"] by auto
  let ?p = "p0\<lparr>fin := f, fout := g, params := params p0 OR append_flag q, node_args := as[Suc (length ws) := 0]\<rparr>"
  have sl: "simple_loop ?s (st + 1) ?ed p0 1 = Some (p1\<lparr>fin := f, fout := g, params := params p1 OR append_flag q\<rparr>, 1 + length ws)"
    by (simp only: p1(1) f(1) g(1))
  have w8: "length ws \<le> 8" using ok by simp
  have gn: "get_node ?s (curNode s) = Some ?node" using r(2) by (simp add: get_node_def)
  have "CreateSimpleNode st ?ed par s = Some (int (curNode s), set_node (curNode s) ?p ?s)"
    unfolding CreateSimpleNode_def GetNextFreeCommandNode_def Let_def prod.case gn Option.bind.bind_lunit
    using w8 sl by (simp add: ga a(1) b(1) add_arg_def node(1) p0_def [symmetric] as(1))
  moreover have "parsed s (Com n ws i q) par (set_node (curNode s) ?p ?s)"
    using node(3) r(2) a(2) b(2) as(2-4) f(2) g(2) w8
    by (simp add: parsed_def redirected_def p0_def or.assoc)
  ultimately show ?thesis by blast
qed

text \<open>The redirections behind a closing parenthesis.\<close>

lemma curve_loop_word:
  assumes "tokens_at s st (w # ws)" "word_ok w" "st \<le> ed"
  shows "curve_loop s st ed p = curve_loop s (st + 1) ed p"
proof -
  have w: "w \<noteq> []" "\<not> (tl w = [] \<and> hd w = 60)" "\<not> (tl w = [] \<and> hd w = 62)" using word_token [OF assms(2)] by auto
  have "curve_step s st ed p = Some p" using w(2,3) by (cases "tl w = []"; simp add: curve_step_def get_token_at [OF assms(1) w(1)])
  then show ?thesis using assms(3) by (subst curve_loop.simps) simp
qed

lemma curve_loop_input:
  assumes "tokens_at s st (input_tokens i @ rest)" "input_ok i" "fin p = 0" "st + int (length (input_tokens i @ rest)) - 1 = ed"
  shows "\<exists>f. curve_loop s st ed p = curve_loop s (st + int (length (input_tokens i))) ed (p\<lparr>fin := f\<rparr>) \<and> string_or_null (chars s) f i"
proof (cases i)
  case None
  have "p\<lparr>fin := 0\<rparr> = p" using assms(3) by simp
  then show ?thesis by (intro exI [of _ 0]) (simp add: None input_tokens_def string_or_null_def)
next
  case (Some w)
  have w: "word_ok w" using assms(2) by (simp add: Some input_ok_def)
  obtain f where f: "get_arg s (st + 1) = Some f" "string_at (chars s) f w"
    using assms(1) by (auto simp: Some input_tokens_def tokens_at_Cons)
  have "get_token s st = Some (60, True)" using get_token_at [of s st "[60]"] assms(1) by (auto simp: Some input_tokens_def)
  then have "curve_loop s st ed p = curve_loop s (st + 1) ed (p\<lparr>fin := f\<rparr>)"
    using assms(3,4) f(1) by (subst curve_loop.simps) (simp add: curve_step_def Some input_tokens_def)
  also have "tokens_at s (st + 1) (w # rest)" using assms(1) by (simp add: Some input_tokens_def tokens_at_Cons)
  then have "curve_loop s (st + 1) ed (p\<lparr>fin := f\<rparr>) = curve_loop s (st + 1 + 1) ed (p\<lparr>fin := f\<rparr>)"
    using curve_loop_word w assms(4) by (simp add: Some input_tokens_def)
  finally have "curve_loop s st ed p = curve_loop s (st + 2) ed (p\<lparr>fin := f\<rparr>)" by (simp add: add.commute)
  then show ?thesis using f(2) by (auto simp: Some input_tokens_def string_or_null_def)
qed

lemma curve_loop_output:
  assumes "tokens_at s st (output_tokens q)" "output_ok q" "fout p = 0" "st + int (length (output_tokens q)) - 1 = ed"
  shows "\<exists>f. curve_loop s st ed p = Some (p\<lparr>fout := f, params := params p OR append_flag q\<rparr>) \<and> string_or_null (chars s) f (map_option snd q)"
proof (cases q)
  case None
  have "p\<lparr>fout := 0\<rparr> = p" using assms(3) by simp
  then show ?thesis using assms(4)
    by (intro exI [of _ 0]) (simp add: None output_tokens_def string_or_null_def append_flag_def curve_loop.simps)
next
  case (Some x)
  obtain app w where x: "q = Some (app, w)" using Some by (cases x) simp
  have w: "word_ok w" using assms(2) by (simp add: x output_ok_def)
  have t: "get_token s st = Some (62, True)" using get_token_at [of s st "[62]"] assms(1) by (cases app) (auto simp: x output_tokens_def)
  have stop: "curve_loop s (ed + 1) ed p' = Some p'" for p' by (subst curve_loop.simps) simp
  have last: "curve_loop s ed ed p' = Some p'" if "tokens_at s ed [w]" for p' using curve_loop_word [OF that w, of ed p'] stop by simp
  show ?thesis
  proof (cases app)
    case True
    have ts: "tokens_at s (st + 1) ([62] # [w])" "tokens_at s (st + 1 + 1) [w]"
      using assms(1) tokens_at_Cons [of s st "[62]" "[[62], w]"] tokens_at_Cons [of s "st + 1" "[62]" "[w]"] by (simp_all add: x output_tokens_def True)
    have t1: "get_token s (st + 1) = Some (62, True)" using get_token_at [OF ts(1)] by simp
    obtain f where f: "get_arg s (st + 1 + 1) = Some f" "string_at (chars s) f w" using ts(2) unfolding tokens_at_Cons by blast
    have ed: "ed = st + 1 + 1" using assms(4) by (simp add: x True output_tokens_def)
    have f2: "get_arg s (st + 2) = Some f" using f(1) by (simp add: add.assoc)
    have f0: "f \<noteq> 0" using f(2) by (simp add: string_at_def)
    have "curve_loop s st ed p = curve_loop s (st + 1) ed (p\<lparr>fout := f, params := params p OR FCAT\<rparr>)"
      using assms(3) ed t t1 f2 by (subst curve_loop.simps) (simp add: curve_step_def)
    also have "\<dots> = curve_loop s ed ed (p\<lparr>fout := f, params := params p OR FCAT\<rparr>)"
      using ed t1 f0 f(1) by (subst curve_loop.simps) (simp add: curve_step_def)
    also have "\<dots> = Some (p\<lparr>fout := f, params := params p OR FCAT\<rparr>)" by (rule last) (use ts(2) ed in simp)
    finally show ?thesis using f(2) by (auto simp: x True string_or_null_def append_flag_def)
  next
    case False
    have ts: "tokens_at s (st + 1) [w]" using assms(1) by (simp add: x output_tokens_def False tokens_at_Cons)
    obtain f where f: "get_arg s (st + 1) = Some f" "string_at (chars s) f w" using ts unfolding tokens_at_Cons by blast
    have ed: "ed = st + 1" using assms(4) by (simp add: x False output_tokens_def)
    have "curve_loop s st ed p = curve_loop s ed ed (p\<lparr>fout := f\<rparr>)"
      using assms(3) ed t f(1) by (subst curve_loop.simps) (simp add: curve_step_def)
    also have "\<dots> = Some (p\<lparr>fout := f\<rparr>)" by (rule last) (use ts ed in simp)
    finally show ?thesis using f(2) by (auto simp: x False string_or_null_def append_flag_def)
  qed
qed

section \<open>The parser\<close>

lemma AnalizeCommand_step:
  assumes "command_ok c" "tokens_at s st (tokens c)" "ed = st + int (length (tokens c)) - 1"
  shows "AnalizeCommand (Suc f) st ed par s =
    (case scan_list (tokens c) st 0 (ed + 1) of
       Inl mid \<Rightarrow> CreateTableNode (AnalizeCommand f) st ed mid par s
     | Inr (cnt, fp) \<Rightarrow>
         if fp \<le> ed then CreatePipeNode (AnalizeCommand f) st ed fp par s
         else if hd (hd (tokens c)) = 40 \<and> cnt = 0 then CreateCurveNode (AnalizeCommand f) st ed par s
         else CreateSimpleNode st ed par s)"
proof -
  obtain w ws where w: "tokens c = w # ws" "w \<noteq> []" "w \<notin> {[38], [59], [124]}" using tokens_start [OF assms(1)] by blast
  have t: "tokens_at s st (w # ws)" using assms(2) w(1) by simp
  have "skip_separators s st ed = Some st" using skip_none [OF t w(2,3)] assms(3) w(1) by simp
  moreover define r where "r = scan_list (tokens c) st 0 (ed + 1)"
  have "scan_tokens s st ed 0 (ed + 1) = Some r" unfolding r_def
    using scan_tokens_list [OF assms(2) tokens_nonempty [OF assms(1)]] assms(3) by simp
  moreover have "get_token s st = Some (hd w, tl w = [])" by (rule get_token_at [OF t w(2)])
  moreover have "\<not> st > ed" "hd (hd (tokens c)) = hd w" using assms(3) w(1) by simp_all
  ultimately show ?thesis unfolding r_def [symmetric] by (cases r) (auto split: prod.split)
qed

text \<open>A node, its left part behind it and its right part behind that.\<close>

lemma part_added:
  assumes "parsed s0 a pa s1" "curNode s0 = Suc n" "length (commandNodes s0) = 50" "n < 50"
  shows "commandNodes (set_node n (f (commandNodes s1 ! n)) s1) ! n = f (commandNodes s0 ! n)"
    "represents (chars s0) (commandNodes (set_node n (f (commandNodes s1 ! n)) s1)) (Suc n) pa a"
    "\<forall>i. i < n \<or> Suc n + node_count a \<le> i \<longrightarrow> commandNodes (set_node n (f (commandNodes s1 ! n)) s1) ! i = commandNodes s0 ! i"
    "length (commandNodes (set_node n (f (commandNodes s1 ! n)) s1)) = 50"
    "curNode (set_node n (f (commandNodes s1 ! n)) s1) = Suc n + node_count a"
    "chars (set_node n (f (commandNodes s1 ! n)) s1) = chars s0" "args (set_node n (f (commandNodes s1 ! n)) s1) = args s0"
proof -
  note p = assms(1) [unfolded parsed_def assms(2)]
  show "commandNodes (set_node n (f (commandNodes s1 ! n)) s1) ! n = f (commandNodes s0 ! n)" using p assms(4) by simp
  show "represents (chars s0) (commandNodes (set_node n (f (commandNodes s1 ! n)) s1)) (Suc n) pa a"
    by (rule represents_cong [where ns = "commandNodes s1"]) (use p in simp_all)
qed (use assms in \<open>simp_all add: parsed_def\<close>)

lemma two_parts:
  assumes s0: "s0 = set_node n p (s\<lparr>curNode := Suc n\<rparr>)" "n = curNode s" "length (commandNodes s) = 50" "n < 50"
    and a: "parsed s0 a pa s1" and s2: "s2 = set_node n ((commandNodes s1 ! n)\<lparr>left := l\<rparr>) s1"
    and b: "parsed s2 b pb s3" and s4: "s4 = set_node n ((commandNodes s3 ! n)\<lparr>right := r\<rparr>) s3"
    and small: "Suc n + node_count a + node_count b \<le> 50"
  shows "commandNodes s4 ! n = p\<lparr>left := l, right := r\<rparr>" "represents (chars s) (commandNodes s4) (Suc n) pa a"
    "represents (chars s) (commandNodes s4) (Suc n + node_count a) pb b"
    "\<forall>i. i < n \<or> Suc n + node_count a + node_count b \<le> i \<longrightarrow> commandNodes s4 ! i = commandNodes s ! i"
    "length (commandNodes s4) = 50" "curNode s4 = Suc n + node_count a + node_count b" "chars s4 = chars s" "args s4 = args s"
proof -
  have c0: "curNode s0 = Suc n" "length (commandNodes s0) = 50" "commandNodes s0 ! n = p" "chars s0 = chars s" "args s0 = args s"
    "\<And>i. i \<noteq> n \<Longrightarrow> commandNodes s0 ! i = commandNodes s ! i" using s0 by simp_all
  note p2 = part_added [OF a c0(1,2) s0(4), of "\<lambda>x. x\<lparr>left := l\<rparr>", folded s2]
  note pb = b [unfolded parsed_def p2(5)]
  show "commandNodes s4 ! n = p\<lparr>left := l, right := r\<rparr>" using pb p2 c0 s0(4) s4 by simp
  have "represents (chars s) (commandNodes s2) (Suc n) pa a" using p2(2) c0(4) by simp
  then show "represents (chars s) (commandNodes s4) (Suc n) pa a"
    by (rule represents_cong [rotated]) (use pb s4 in simp)
  have "represents (chars s) (commandNodes s3) (Suc n + node_count a) pb b" using pb p2(6) c0(4) by simp
  then show "represents (chars s) (commandNodes s4) (Suc n + node_count a) pb b"
    by (rule represents_cong [rotated]) (use s4 in simp)
  show "\<forall>i. i < n \<or> Suc n + node_count a + node_count b \<le> i \<longrightarrow> commandNodes s4 ! i = commandNodes s ! i"
    using pb p2(3) c0(6) s4 by auto
  show "length (commandNodes s4) = 50" "curNode s4 = Suc n + node_count a + node_count b" "chars s4 = chars s" "args s4 = args s"
    using pb p2 c0 s4 by simp_all
qed

text \<open>The intermediate states of \<open>AnalizeCommand\<close> have the same tokens.\<close>

lemma tokens_at_parsed:
  assumes "parsed s0 a pa s1"
  shows "tokens_at (set_node n p s1) = tokens_at s0" "tokens_at (set_node n p (s\<lparr>curNode := k\<rparr>)) = tokens_at s"
  using assms by (auto intro!: tokens_at_cong simp: parsed_def)

text \<open>The two calls for the parts of a node, with what the induction gives for them.\<close>

lemma two_calls:
  assumes IHa: "\<And>s par. tokens_at s st (tokens a) \<Longrightarrow> nodes_ready (commandNodes s) (curNode s) \<Longrightarrow> curNode s + node_count a \<le> 50 \<Longrightarrow>
      \<exists>s'. A st (st + int (length (tokens a)) - 1) par s = Some (int (curNode s), s') \<and> parsed s a par s'"
    and IHb: "\<And>s par. tokens_at s (st + int (length (tokens a)) + 1) (tokens b) \<Longrightarrow> nodes_ready (commandNodes s) (curNode s) \<Longrightarrow> curNode s + node_count b \<le> 50 \<Longrightarrow>
      \<exists>s'. A (st + int (length (tokens a)) + 1) ed par s = Some (int (curNode s), s') \<and> parsed s b par s'"
    and t: "tokens_at s st (tokens a)" "tokens_at s (st + int (length (tokens a)) + 1) (tokens b)"
    and r: "nodes_ready (commandNodes s) (curNode s)" "curNode s + (1 + node_count a + node_count b) \<le> 50"
  defines "n \<equiv> curNode s"
  shows "\<exists>s1 s3. A st (st + int (length (tokens a)) - 1) pa (set_node n ((commandNodes s ! n)\<lparr>commandType := ty\<rparr>) (s\<lparr>curNode := Suc n\<rparr>)) = Some (int (Suc n), s1) \<and>
    A (st + int (length (tokens a)) + 1) ed pb (set_node n ((commandNodes s1 ! n)\<lparr>left := int (Suc n)\<rparr>) s1) = Some (int (Suc n + node_count a), s3) \<and>
    (\<exists>s4. s4 = set_node n ((commandNodes s3 ! n)\<lparr>right := int (Suc n + node_count a)\<rparr>) s3 \<and>
      commandNodes s4 ! n = (commandNodes s ! n)\<lparr>commandType := ty, left := int (Suc n), right := int (Suc n + node_count a)\<rparr> \<and>
      represents (chars s) (commandNodes s4) (Suc n) pa a \<and> represents (chars s) (commandNodes s4) (Suc n + node_count a) pb b \<and>
      (\<forall>i. i < n \<or> Suc n + node_count a + node_count b \<le> i \<longrightarrow> commandNodes s4 ! i = commandNodes s ! i) \<and>
      length (commandNodes s4) = 50 \<and> curNode s4 = Suc n + node_count a + node_count b \<and> chars s4 = chars s \<and> args s4 = args s)"
proof -
  have n: "n < 50" "length (commandNodes s) = 50" using r by (simp_all add: nodes_ready_def n_def)
  let ?s0 = "set_node n ((commandNodes s ! n)\<lparr>commandType := ty\<rparr>) (s\<lparr>curNode := Suc n\<rparr>)"
  have t0: "tokens_at ?s0 = tokens_at s" by (rule tokens_at_cong) simp_all
  have r0: "nodes_ready (commandNodes ?s0) (Suc n)" using r(1) by (simp add: nodes_ready_def n_def)
  then obtain s1 where s1: "A st (st + int (length (tokens a)) - 1) pa ?s0 = Some (int (Suc n), s1)" "parsed ?s0 a pa s1"
    using IHa [of ?s0 pa] t(1) r(2) t0 by (auto simp: n_def)
  let ?s2 = "set_node n ((commandNodes s1 ! n)\<lparr>left := int (Suc n)\<rparr>) s1"
  have c2: "curNode ?s2 = Suc n + node_count a" using s1(2) by (simp add: parsed_def)
  have "nodes_ready (commandNodes s1) (Suc n + node_count a)"
    by (rule ready_parsed [OF r0 s1(2)]) (use c2 in simp_all)
  then have "nodes_ready (commandNodes ?s2) (curNode ?s2)" unfolding c2 by (rule ready_set) simp_all
  moreover have "tokens_at ?s2 = tokens_at s" using tokens_at_parsed(1) [OF s1(2)] t0 by simp
  ultimately obtain s3 where s3: "A (st + int (length (tokens a)) + 1) ed pb ?s2 = Some (int (Suc n + node_count a), s3)" "parsed ?s2 b pb s3"
    using IHb [of ?s2 pb] t(2) r(2) c2 by (auto simp: n_def)
  have small: "Suc n + node_count a + node_count b \<le> 50" using r(2) by (simp add: n_def)
  note tp = two_parts [OF refl n_def [THEN meta_eq_to_obj_eq] n(2,1) s1(2) refl s3(2) refl small, where r = "int (Suc n + node_count a)"]
  show ?thesis using s1(1) s3(1) tp by auto
qed

lemma CreatePipeNode_ok:
  assumes IHa: "\<And>s par. tokens_at s st (tokens a) \<Longrightarrow> nodes_ready (commandNodes s) (curNode s) \<Longrightarrow> curNode s + node_count a \<le> 50 \<Longrightarrow>
      \<exists>s'. A st (st + int (length (tokens a)) - 1) par s = Some (int (curNode s), s') \<and> parsed s a par s'"
    and IHb: "\<And>s par. tokens_at s (st + int (length (tokens a)) + 1) (tokens b) \<Longrightarrow> nodes_ready (commandNodes s) (curNode s) \<Longrightarrow> curNode s + node_count b \<le> 50 \<Longrightarrow>
      \<exists>s'. A (st + int (length (tokens a)) + 1) ed par s = Some (int (curNode s), s') \<and> parsed s b par s'"
    and t: "tokens_at s st (tokens a)" "tokens_at s (st + int (length (tokens a)) + 1) (tokens b)"
    and r: "nodes_ready (commandNodes s) (curNode s)" "curNode s + node_count (Pipe a b) \<le> 50"
  shows "\<exists>s'. CreatePipeNode A st ed (st + int (length (tokens a))) par s = Some (int (curNode s), s') \<and> parsed s (Pipe a b) par s'"
proof -
  have n: "curNode s < 50" "params (commandNodes s ! curNode s) = 0" and small: "curNode s + (1 + node_count a + node_count b) \<le> 50"
    using r by (simp_all add: nodes_ready_def)
  from two_calls [of st a A b ed s 0 TFIL par, OF IHa IHb t r(1) small] show ?thesis
    using n by (auto simp: CreatePipeNode_def GetNextFreeCommandNode_def get_node_def parsed_def)
qed

lemma CreateTableNode_ok:
  assumes IHa: "\<And>s par. tokens_at s st (tokens a) \<Longrightarrow> nodes_ready (commandNodes s) (curNode s) \<Longrightarrow> curNode s + node_count a \<le> 50 \<Longrightarrow>
      \<exists>s'. A st (st + int (length (tokens a)) - 1) par s = Some (int (curNode s), s') \<and> parsed s a par s'"
    and IHb: "\<And>s par. tokens_at s (st + int (length (tokens a)) + 1) (tokens b) \<Longrightarrow> nodes_ready (commandNodes s) (curNode s) \<Longrightarrow> curNode s + node_count b \<le> 50 \<Longrightarrow>
      \<exists>s'. A (st + int (length (tokens a)) + 1) ed par s = Some (int (curNode s), s') \<and> parsed s b par s'"
    and t: "tokens_at s st (tokens a)" "tokens_at s (st + int (length (tokens a)) + 1) (tokens b)"
    and mid: "get_token s (st + int (length (tokens a))) = Some (if bg then 38 else 59, True)"
    and r: "nodes_ready (commandNodes s) (curNode s)" "curNode s + node_count (Seq a bg b) \<le> 50"
  shows "\<exists>s'. CreateTableNode A st ed (st + int (length (tokens a))) par s = Some (int (curNode s), s') \<and> parsed s (Seq a bg b) par s'"
proof -
  let ?par = "if bg then par OR FAND else par"
  have n: "curNode s < 50" "params (commandNodes s ! curNode s) = 0" and small: "curNode s + (1 + node_count a + node_count b) \<le> 50"
    using r by (simp_all add: nodes_ready_def)
  have g: "get_token (s\<lparr>curNode := k\<rparr>) = get_token s" for k by (intro ext) (simp add: get_token_def get_arg_def)
  from two_calls [of st a A b ed s ?par TLST "?par AND NOT FAND", OF IHa IHb t r(1) small] show ?thesis
    using n mid by (cases bg) (auto simp: g CreateTableNode_def GetNextFreeCommandNode_def get_node_def parsed_def)
qed

lemma CreateTableNode_last:
  assumes IHa: "\<And>s par. tokens_at s st (tokens a) \<Longrightarrow> nodes_ready (commandNodes s) (curNode s) \<Longrightarrow> curNode s + node_count a \<le> 50 \<Longrightarrow>
      \<exists>s'. A st (st + int (length (tokens a)) - 1) par s = Some (int (curNode s), s') \<and> parsed s a par s'"
    and A: "\<And>s par. A (st + int (length (tokens a)) + 1) (st + int (length (tokens a))) par s = Some (-1, s)"
    and t: "tokens_at s st (tokens a)"
    and mid: "get_token s (st + int (length (tokens a))) = Some (if bg then 38 else 59, True)"
    and r: "nodes_ready (commandNodes s) (curNode s)" "curNode s + node_count (Ended a bg) \<le> 50"
  shows "\<exists>s'. CreateTableNode A st (st + int (length (tokens a))) (st + int (length (tokens a))) par s = Some (int (curNode s), s') \<and> parsed s (Ended a bg) par s'"
proof -
  let ?n = "curNode s" and ?par = "if bg then par OR FAND else par"
  have n: "?n < 50" "length (commandNodes s) = 50" "params (commandNodes s ! ?n) = 0" using r by (simp_all add: nodes_ready_def)
  let ?s = "s\<lparr>curNode := Suc ?n\<rparr>"
  let ?s0 = "set_node ?n ((commandNodes s ! ?n)\<lparr>commandType := TLST\<rparr>) ?s"
  have t0: "tokens_at ?s0 = tokens_at s" by (rule tokens_at_cong) simp_all
  have r0: "nodes_ready (commandNodes ?s0) (Suc ?n)" using r(1) by (simp add: nodes_ready_def)
  then obtain s1 where s1: "A st (st + int (length (tokens a)) - 1) ?par ?s0 = Some (int (Suc ?n), s1)" "parsed ?s0 a ?par s1"
    using IHa [of ?s0 ?par] t(1) r(2) t0 by auto
  let ?s2 = "set_node ?n ((commandNodes s1 ! ?n)\<lparr>left := int (Suc ?n)\<rparr>) s1"
  let ?s4 = "set_node ?n ((commandNodes ?s2 ! ?n)\<lparr>right := -1\<rparr>) ?s2"
  have c0: "curNode ?s0 = Suc ?n" "length (commandNodes ?s0) = 50" using n(2) by simp_all
  have ?thesis if "?s4 = set_node ?n ((commandNodes s1 ! ?n)\<lparr>left := int (Suc ?n), right := -1\<rparr>) s1"
  proof -
    note pa = part_added [OF s1(2) c0 n(1), of "\<lambda>x. x\<lparr>left := int (Suc ?n), right := -1\<rparr>", folded that]
    have "parsed s (Ended a bg) par ?s4" unfolding parsed_def using pa n by simp
    moreover have g: "get_token (s\<lparr>curNode := k\<rparr>) = get_token s" for k by (intro ext) (simp add: get_token_def get_arg_def)
    then have "CreateTableNode A st (st + int (length (tokens a))) (st + int (length (tokens a))) par s = Some (int ?n, ?s4)"
      using s1(1) A n(1) mid by (cases bg; simp add: CreateTableNode_def GetNextFreeCommandNode_def get_node_def)
    ultimately show ?thesis by blast
  qed
  moreover have "?s4 = set_node ?n ((commandNodes s1 ! ?n)\<lparr>left := int (Suc ?n), right := -1\<rparr>) s1"
    using n(1) s1(2) by (simp add: set_node_def parsed_def)
  ultimately show ?thesis by blast
qed

lemma CreateCurveNode_ok:
  assumes IH: "\<And>s par. tokens_at s (st + 1) (tokens c) \<Longrightarrow> nodes_ready (commandNodes s) (curNode s) \<Longrightarrow> curNode s + node_count c \<le> 50 \<Longrightarrow>
      \<exists>s'. A (st + 1) (st + int (length (tokens c))) par s = Some (int (curNode s), s') \<and> parsed s c par s'"
    and ok: "input_ok i" "output_ok q"
    and t: "tokens_at s st (tokens (Par c i q))" and ed: "ed = st + int (length (tokens (Par c i q))) - 1"
    and r: "nodes_ready (commandNodes s) (curNode s)" "curNode s + node_count (Par c i q) \<le> 50"
  shows "\<exists>s'. CreateCurveNode A st ed par s = Some (int (curNode s), s') \<and> parsed s (Par c i q) par s'"
proof -
  let ?n = "curNode s" and ?redir = "input_tokens i @ output_tokens q" and ?close = "st + int (length ([40] # tokens c))"
  have n: "?n < 50" "length (commandNodes s) = 50" "params (commandNodes s ! ?n) = 0" using r by (simp_all add: nodes_ready_def)
  let ?s = "s\<lparr>curNode := Suc ?n\<rparr>"
  have at: "tokens_at (s\<lparr>curNode := k\<rparr>) = tokens_at s" for k by (rule tokens_at_cong) simp_all
  have tt: "tokens_at ?s st (([40] # tokens c) @ [41] # ?redir)" using t by (simp add: at)
  have "[] \<notin> set ?redir \<and> [41] \<notin> set ?redir"
    using ok by (auto simp: input_ok_def output_ok_def input_tokens_def output_tokens_def dest!: word_token split: option.splits prod.splits if_splits)
  then have fc: "find_close ?s ed = Some ?close" using find_close_at [OF tt] ed by simp
  have t1: "tokens_at ?s (?close + 1) ?redir" using tt unfolding tokens_at_append [of _ _ "[40] # tokens c"] by (simp add: tokens_at_Cons)
  let ?p0 = "(commandNodes s ! ?n)\<lparr>commandType := TPAR, fin := 0, fout := 0\<rparr>"
  have e1: "?close + 1 + int (length ?redir) - 1 = ed" using ed by simp
  have "fin ?p0 = 0" by simp
  from curve_loop_input [OF t1 ok(1) this e1] obtain f where f: "curve_loop ?s (?close + 1) ed ?p0 = curve_loop ?s (?close + 1 + int (length (input_tokens i))) ed (?p0\<lparr>fin := f\<rparr>)"
    "string_or_null (chars s) f i" by auto
  have t2: "tokens_at ?s (?close + 1 + int (length (input_tokens i))) (output_tokens q)" using t1 by (simp add: tokens_at_append)
  have e2: "?close + 1 + int (length (input_tokens i)) + int (length (output_tokens q)) - 1 = ed" using ed by simp
  have "fout (?p0\<lparr>fin := f\<rparr>) = 0" by simp
  from curve_loop_output [OF t2 ok(2) this e2] obtain g where
    g: "curve_loop ?s (?close + 1 + int (length (input_tokens i))) ed (?p0\<lparr>fin := f\<rparr>) = Some (?p0\<lparr>fin := f, fout := g, params := append_flag q\<rparr>)"
    "string_or_null (chars s) g (map_option snd q)" using n(3) by auto
  let ?p = "?p0\<lparr>fin := f, fout := g, params := append_flag q\<rparr>"
  let ?s0 = "set_node ?n ?p ?s"
  have t0: "tokens_at ?s0 = tokens_at s" by (rule tokens_at_cong) simp_all
  have "tokens_at s (st + 1) (tokens c)" using t by (simp add: tokens_at_Cons tokens_at_append)
  moreover have "nodes_ready (commandNodes ?s0) (curNode ?s0)" using r(1) by (simp add: nodes_ready_def)
  ultimately obtain s1 where s1: "A (st + 1) (st + int (length (tokens c))) FPAR ?s0 = Some (int (Suc ?n), s1)" "parsed ?s0 c FPAR s1"
    using IH [of ?s0 FPAR] r(2) t0 by auto
  have c0: "curNode ?s0 = Suc ?n" "length (commandNodes ?s0) = 50" using n(2) by simp_all
  let ?s2 = "set_node ?n ((commandNodes s1 ! ?n)\<lparr>left := int (Suc ?n)\<rparr>) s1"
  note pa = part_added [OF s1(2) c0 n(1), of "\<lambda>x. x\<lparr>left := int (Suc ?n)\<rparr>"]
  have "parsed s (Par c i q) par ?s2" unfolding parsed_def using pa n f(2) g(2) by (simp add: redirected_def)
  moreover have "?close - 1 = st + int (length (tokens c))" by simp
  then have "CreateCurveNode A st ed par s = Some (int ?n, ?s2)"
    using s1(1) fc f(1) g(1) n(1) by (simp add: CreateCurveNode_def GetNextFreeCommandNode_def get_node_def)
  ultimately show ?thesis by blast
qed

text \<open>The parser builds the tree of every command, in as many nodes as it has parts.\<close>

lemma AnalizeCommand_builds:
  "command_ok c \<Longrightarrow> tokens_at s st (tokens c) \<Longrightarrow> nodes_ready (commandNodes s) (curNode s) \<Longrightarrow> curNode s + node_count c \<le> 50 \<Longrightarrow>
   length (tokens c) \<le> fuel \<Longrightarrow>
   \<exists>s'. AnalizeCommand fuel st (st + int (length (tokens c)) - 1) par s = Some (int (curNode s), s') \<and> parsed s c par s'"
proof (induction c arbitrary: s st fuel par)
  case (Com n ws i q)
  obtain f where f: "fuel = Suc f" using Com.prems(5) by (cases fuel) auto
  have sc: "scan_list (tokens (Com n ws i q)) st 0 fp = Inr (0, fp)" for fp by (rule scan_simple) (use Com.prems in simp_all)
  have "hd n \<noteq> 40" using Com.prems by simp
  then show ?case unfolding f AnalizeCommand_step [OF Com.prems(1,2) refl] sc
    using CreateSimpleNode_ok [OF Com.prems(1,2,3)] Com.prems(4) by simp
next
  case (Par c i q)
  obtain f where f: "fuel = Suc f" "length (tokens c) \<le> f" using Par.prems(5) by (cases fuel) auto
  have sc: "scan_list (tokens (Par c i q)) st 0 fp = Inr (0, fp)" for fp by (rule scan_simple) (use Par.prems in simp_all)
  have IH: "\<exists>s'. AnalizeCommand f (st + 1) (st + int (length (tokens c))) par s = Some (int (curNode s), s') \<and> parsed s c par s'"
    if "tokens_at s (st + 1) (tokens c)" "nodes_ready (commandNodes s) (curNode s)" "curNode s + node_count c \<le> 50" for s par
    using Par.IH [OF _ that f(2), of par] Par.prems(1) by simp
  have oks: "input_ok i" "output_ok q" and "hd (hd (tokens (Par c i q))) = 40" using Par.prems(1) by simp_all
  then show ?case unfolding f(1) AnalizeCommand_step [OF Par.prems(1,2) refl] sc
    using CreateCurveNode_ok [where A = "AnalizeCommand f" and st = st and c = c, OF IH oks Par.prems(2) refl Par.prems(3,4)] by simp
next
  case (Pipe a b)
  obtain f where f: "fuel = Suc f" "length (tokens a) \<le> f" "length (tokens b) \<le> f" using Pipe.prems(5) by (cases fuel) auto
  let ?ed = "st + int (length (tokens (Pipe a b))) - 1" and ?m = "st + int (length (tokens a))"
  have sc: "scan_list (tokens (Pipe a b)) st 0 (?ed + 1) = Inr (0, ?m)" by (rule scan_pipe [OF Pipe.prems(1)]) simp
  have tb: "tokens_at s st (tokens a)" "tokens_at s (?m + 1) (tokens b)" using Pipe.prems(2) by (simp_all add: tokens_at_append tokens_at_Cons)
  have ed: "?ed = ?m + 1 + int (length (tokens b)) - 1" by simp
  have oks: "command_ok a" "command_ok b" using Pipe.prems(1) by simp_all
  have IHb: "\<exists>s'. AnalizeCommand f (?m + 1) ?ed par s = Some (int (curNode s), s') \<and> parsed s b par s'"
    if "tokens_at s (?m + 1) (tokens b)" "nodes_ready (commandNodes s) (curNode s)" "curNode s + node_count b \<le> 50" for s par
    using Pipe.IH(2) [OF oks(2) that f(3), of par] by (simp only: ed)
  have "?m \<le> ?ed" by simp
  then show ?case unfolding f(1) AnalizeCommand_step [OF Pipe.prems(1,2) refl] sc
    using CreatePipeNode_ok [where A = "AnalizeCommand f" and st = st and a = a and b = b and ed = ?ed, OF Pipe.IH(1) [OF oks(1) _ _ _ f(2)] IHb tb Pipe.prems(3,4)] by simp
next
  case (Ended a bg)
  obtain f where f: "fuel = Suc f" "length (tokens a) \<le> f" using Ended.prems(5) by (cases fuel) auto
  have f1: "0 < f" using f(2) tokens_start [of a] Ended.prems(1) by (cases f) auto
  let ?m = "st + int (length (tokens a))"
  have oks: "command_ok a" "pipeline a" using Ended.prems(1) by simp_all
  have ed: "st + int (length (tokens (Ended a bg))) - 1 = ?m" by simp
  obtain fp where "scan_list (tokens a) st 0 (?m + 1) = Inr (0, fp)" using scan_pipeline_any [OF oks, of st "?m + 1"] by auto
  then have sc: "scan_list (tokens (Ended a bg)) st 0 (?m + 1) = Inl ?m" by (simp add: scan_append separator_def)
  have tb: "tokens_at s st (tokens a)" "tokens_at s ?m [separator bg]" using Ended.prems(2) by (simp_all add: tokens_at_append)
  have mid: "get_token s ?m = Some (if bg then 38 else 59, True)" using get_token_at [OF tb(2)] by (simp add: separator_def)
  have none: "AnalizeCommand f (?m + 1) ?m par s = Some (-1, s)" for par s using f1 by (cases f) simp_all
  show ?case unfolding f(1) ed AnalizeCommand_step [OF Ended.prems(1,2) ed [symmetric]] sc
    using CreateTableNode_last [where A = "AnalizeCommand f" and st = st and a = a, OF Ended.IH [OF oks(1) _ _ _ f(2)] none tb(1) mid Ended.prems(3,4)] by simp
next
  case (Seq a bg b)
  obtain f where f: "fuel = Suc f" "length (tokens a) \<le> f" "length (tokens b) \<le> f" using Seq.prems(5) by (cases fuel) auto
  let ?ed = "st + int (length (tokens (Seq a bg b))) - 1" and ?m = "st + int (length (tokens a))"
  have oks: "command_ok a" "pipeline a" "command_ok b" using Seq.prems(1) by simp_all
  obtain fp where "scan_list (tokens a) st 0 (?ed + 1) = Inr (0, fp)" using scan_pipeline_any [OF oks(1,2), of st "?ed + 1"] by auto
  then have sc: "scan_list (tokens (Seq a bg b)) st 0 (?ed + 1) = Inl ?m" by (simp add: scan_append separator_def)
  have tb: "tokens_at s st (tokens a)" "tokens_at s ?m (separator bg # tokens b)" using Seq.prems(2) by (simp_all add: tokens_at_append)
  have tc: "tokens_at s (?m + 1) (tokens b)" using tb(2) by (simp add: tokens_at_Cons)
  have mid: "get_token s ?m = Some (if bg then 38 else 59, True)" using get_token_at [OF tb(2)] by (simp add: separator_def)
  have ed: "?ed = ?m + 1 + int (length (tokens b)) - 1" by simp
  have IHb: "\<exists>s'. AnalizeCommand f (?m + 1) ?ed par s = Some (int (curNode s), s') \<and> parsed s b par s'"
    if "tokens_at s (?m + 1) (tokens b)" "nodes_ready (commandNodes s) (curNode s)" "curNode s + node_count b \<le> 50" for s par
    using Seq.IH(2) [OF oks(3) that f(3), of par] by (simp only: ed)
  show ?case unfolding f(1) AnalizeCommand_step [OF Seq.prems(1,2) refl] sc
    using CreateTableNode_ok [where A = "AnalizeCommand f" and st = st and a = a and b = b and ed = ?ed, OF Seq.IH(1) [OF oks(1) _ _ _ f(2)] IHb tb(1) tc mid Seq.prems(3,4)] by simp
qed

end
