(* ===== verification/ShellLine.thy ===== *)
theory ShellLine
  imports ShellSpec
begin

text \<open>
  A line that is typed at the shell: its tokens by a definition on lists, the proof that \<open>SpiltCommand\<close> finds them, and
  the composition with the parser.
\<close>

section \<open>The tokens of a line\<close>

definition word_char :: "u8 \<Rightarrow> bool" where
  "word_char c \<longleftrightarrow> c \<noteq> 32 \<and> \<not> is_key_token c"

text \<open>Skip the blanks, take the longest word, and then one key token or the blank behind the word.\<close>

definition skip_blanks :: "u8 list \<Rightarrow> u8 list" where
  "skip_blanks cs = dropWhile (\<lambda>c. c = 32) cs"

function line_tokens :: "u8 list \<Rightarrow> token list" where
  "line_tokens cs =
     (let w = takeWhile word_char (skip_blanks cs); r = dropWhile word_char (skip_blanks cs)
      in (if w = [] then [] else [w]) @
         (case r of [] \<Rightarrow> [] | c # r \<Rightarrow> (if is_key_token c then [[c]] else []) @ line_tokens r))"
  by auto
termination
proof (relation "measure length")
  fix cs w r c t
  assume "w = takeWhile word_char (skip_blanks cs)" "r = dropWhile word_char (skip_blanks cs)" "r = c # t"
  then have "length (c # t) \<le> length (skip_blanks cs)" by (metis length_dropWhile_le)
  also have "\<dots> \<le> length cs" by (simp add: skip_blanks_def length_dropWhile_le)
  finally show "(t, cs) \<in> measure length" by simp
qed simp

declare line_tokens.simps [simp del]

lemma lex_example: "line_tokens [108, 115, 32, 45, 108, 124, 32, 99, 59] = [[108, 115], [45, 108], [124], [99], [59]]"
  by code_simp

section \<open>The code finds them\<close>

lemma TrimLeft_skips: "cstring m p cs \<Longrightarrow> TrimLeft m p = Some (p + of_nat (length cs - length (skip_blanks cs)))"
proof (induction cs arbitrary: p)
  case Nil
  then show ?case by (subst TrimLeft.simps) (simp add: skip_blanks_def)
next
  case (Cons c cs)
  show ?case
  proof (cases "c = 32")
    case True
    have "length (skip_blanks cs) \<le> length cs" by (simp add: skip_blanks_def length_dropWhile_le)
    then have "length (c # cs) - length (skip_blanks (c # cs)) = Suc (length cs - length (skip_blanks cs))"
      using True by (simp add: skip_blanks_def Suc_diff_le)
    then show ?thesis using Cons True by (subst TrimLeft.simps) (simp add: add.assoc)
  next
    case False
    then show ?thesis using Cons.prems by (subst TrimLeft.simps) (simp add: skip_blanks_def)
  qed
qed

lemma cstring_skip: "cstring m p cs \<Longrightarrow> cstring m (p + of_nat (length cs - length (skip_blanks cs))) (skip_blanks cs)"
proof -
  assume c: "cstring m p cs"
  have e: "cs = takeWhile (\<lambda>c. c = 32) cs @ skip_blanks cs" by (simp add: skip_blanks_def)
  then have len: "length cs - length (skip_blanks cs) = length (takeWhile (\<lambda>c. c = 32) cs)" by (metis add_diff_cancel_right' length_append)
  show ?thesis using c e unfolding len by (metis cstring_append)
qed

text \<open>The byte before the text must not be a backslash: the code looks at it when the text begins with a key token.\<close>

lemma NextKeyToken_word:
  "cstring m p cs \<Longrightarrow> 92 \<notin> set cs \<Longrightarrow> m (p - 1) \<noteq> 92 \<Longrightarrow> NextKeyToken m p = Some (p + of_nat (length (takeWhile word_char cs)))"
proof (induction cs arbitrary: p)
  case Nil
  then show ?case by (subst NextKeyToken.simps) simp
next
  case (Cons c cs)
  have m: "m p = c" "c \<noteq> 0" "c \<noteq> 92" using Cons.prems by auto
  have IH: "NextKeyToken m (p + 1) = Some (p + 1 + of_nat (length (takeWhile word_char cs)))"
    using Cons.IH [of "p + 1"] Cons.prems m by simp
  show ?case using m Cons.prems(3) by (subst NextKeyToken.simps) (simp add: IH word_char_def add.assoc)
qed

lemma copy_token_put:
  "bytes_at m q w \<Longrightarrow> 92 \<notin> set w \<Longrightarrow> apart p (length w) q (length w) \<Longrightarrow> unat q + length w < 2 ^ 32 \<Longrightarrow>
   copy_token m p q (q + of_nat (length w)) = Some (p + of_nat (length w), put m p w)"
proof (induction w arbitrary: m p q)
  case Nil
  then show ?case by (subst copy_token.simps) simp
next
  case (Cons c w)
  have ap: "apart (p + 1) (length w) (q + 1) (length w)" and out: "\<forall>j < length w. p \<noteq> q + 1 + of_nat j"
    using apart_Suc [of p "length w" q "length w"] apart_head [of p "length w" q "length w"] Cons.prems(3) by simp_all
  have m: "m q = c" "bytes_at m (q + 1) w" "c \<noteq> 92" using Cons.prems(1,2) by (auto simp: bytes_at_Cons)
  have b: "bytes_at (m(p := c)) (q + 1) w" using m(2) out by (auto simp: bytes_at_def)
  have u: "unat (q + 1) = unat q + 1" "unat (q + of_nat (Suc (length w))) = unat q + Suc (length w)"
    using unat_off [of q 1] unat_off [of q "Suc (length w)"] Cons.prems(4) by simp_all
  then have lt: "q < q + of_nat (length (c # w))" by (simp only: word_less_nat_alt length_Cons)
  have "copy_token (m(p := c)) (p + 1) (q + 1) (q + 1 + of_nat (length w)) = Some (p + 1 + of_nat (length w), put (m(p := c)) (p + 1) w)"
    by (rule Cons.IH [OF b _ ap]) (use Cons.prems(2,4) u in simp_all)
  then show ?case using lt m by (subst copy_token.simps) (simp add: Let_def add.assoc)
qed

text \<open>The room the tokens take in \<open>line\<close>.\<close>

definition room :: "token list \<Rightarrow> nat" where
  "room ws = (\<Sum>w \<leftarrow> ws. length w + 1)"

lemma room_simps [simp]: "room [] = 0" "room (w # ws) = length w + 1 + room ws" "room (xs @ ys) = room xs + room ys"
  by (simp_all add: room_def)

text \<open>The tokens found so far lie between the start of \<open>line\<close> and the place for the next one.\<close>

definition stored :: "shell \<Rightarrow> u32 \<Rightarrow> u32 \<Rightarrow> token list \<Rightarrow> bool" where
  "stored s line pline ws \<longleftrightarrow> length (args s) = 50 \<and> length ws \<le> 50 \<and>
     (\<forall>k < length ws. string_at (chars s) (args s ! k) (ws ! k) \<and> unat line \<le> unat (args s ! k) \<and> unat (args s ! k) + length (ws ! k) < unat pline)"

lemma stored_put:
  assumes st: "stored s line pline ws" and w: "0 \<notin> set w" "unat pline + length w + 1 < 2 ^ 32" "unat line \<le> unat pline" "pline \<noteq> 0" and n: "length ws < 50"
  shows "stored (s\<lparr>args := (args s)[length ws := pline], chars := put (chars s) pline (w @ [0])\<rparr>) line (pline + of_nat (length w + 1)) (ws @ [w])"
proof -
  let ?m = "put (chars s) pline (w @ [0])"
  have u: "unat (pline + of_nat (length w + 1)) = unat pline + (length w + 1)" by (rule unat_off) (use w(2) in simp)
  have keep: "?m x = chars s x" if "unat x < unat pline" for x
    by (rule put_keep) (use w(2) that in \<open>simp_all add: between_def\<close>)
  have old: "cstring ?m p v" if "string_at (chars s) p v" "unat p + length v < unat pline" for p v
  proof (rule cstring_same)
    show "cstring (chars s) p v" using that(1) by (simp add: string_at_def)
    show "\<forall>i \<le> length v. ?m (p + of_nat i) = chars s (p + of_nat i)"
    proof (intro allI impI)
      fix i assume "i \<le> length v"
      then have "unat (p + of_nat i) = unat p + i" using that(1) by (intro unat_off) (simp add: string_at_def)
      then show "?m (p + of_nat i) = chars s (p + of_nat i)" using \<open>i \<le> length v\<close> that(2) by (intro keep) simp
    qed
  qed
  have "bytes_at ?m pline (w @ [0])" by (rule bytes_at_put) (use w(2) in simp)
  then have "cstring ?m pline w" using w(1) by (intro cstring_bytes) (simp_all add: bytes_at_append bytes_at_Cons)
  then have new: "string_at ?m pline w" using w(2,4) by (simp add: string_at_def)
  show ?thesis
    unfolding stored_def
  proof (intro conjI allI impI)
    fix k assume "k < length (ws @ [w])"
    then consider "k < length ws" | "k = length ws" by fastforce
    then show "string_at (chars (s\<lparr>args := (args s)[length ws := pline], chars := ?m\<rparr>)) (args (s\<lparr>args := (args s)[length ws := pline], chars := ?m\<rparr>) ! k) ((ws @ [w]) ! k)"
      "unat line \<le> unat (args (s\<lparr>args := (args s)[length ws := pline], chars := ?m\<rparr>) ! k)"
      "unat (args (s\<lparr>args := (args s)[length ws := pline], chars := ?m\<rparr>) ! k) + length ((ws @ [w]) ! k) < unat (pline + of_nat (length w + 1))"
      using st n new old w(3) u by (cases; simp add: stored_def nth_append string_at_def; fastforce)+
  qed (use st n in \<open>simp_all add: stored_def\<close>)
qed

definition store_token :: "shell \<Rightarrow> u32 \<Rightarrow> nat \<Rightarrow> token \<Rightarrow> shell" where
  "store_token s pline n w = s\<lparr>args := (args s)[n := pline], chars := put (chars s) pline (w @ [0])\<rparr>"

definition store_some :: "shell \<Rightarrow> u32 \<Rightarrow> nat \<Rightarrow> token list \<Rightarrow> shell" where
  "store_some s pline n ws = (case ws of [] \<Rightarrow> s | w # _ \<Rightarrow> store_token s pline n w)"

lemma stored_some:
  assumes "stored s line pline ws" "length us \<le> 1" "\<forall>w \<in> set us. 0 \<notin> set w" "unat pline + room us < 2 ^ 32" "unat line \<le> unat pline" "pline \<noteq> 0"
    "length ws + length us \<le> 50"
  shows "stored (store_some s pline (length ws) us) line (pline + of_nat (room us)) (ws @ us)"
    "unat (pline + of_nat (room us)) = unat pline + room us"
proof -
  show "unat (pline + of_nat (room us)) = unat pline + room us" by (rule unat_off [OF assms(4)])
  show "stored (store_some s pline (length ws) us) line (pline + of_nat (room us)) (ws @ us)"
  proof (cases us)
    case (Cons w vs)
    then have "us = [w]" using assms(2) by simp
    then show ?thesis using stored_put [OF assms(1), of w] assms(3-7) by (simp add: store_some_def store_token_def)
  qed (use assms(1) in \<open>simp add: store_some_def\<close>)
qed

lemma store_some_keeps:
  assumes "apart pline (room us) p n" "i < n" "length us \<le> 1"
  shows "chars (store_some s pline k us) (p + of_nat i) = chars s (p + of_nat i)"
proof (cases us)
  case (Cons w vs)
  then have us: "us = [w]" using assms(3) by simp
  have "\<forall>j < length (w @ [0]). p + of_nat i \<noteq> pline + of_nat j"
    using assms(1,2) unfolding apart_def us by (metis (no_types, lifting) add.right_neutral length_append_singleton room_simps(1,2) Suc_eq_plus1)
  then have "put (chars s) pline (w @ [0]) (p + of_nat i) = chars s (p + of_nat i)" by (rule put_outside)
  then show ?thesis by (simp add: us store_some_def store_token_def)
qed (simp add: store_some_def)

lemma store_some_simps [simp]:
  "commandNodes (store_some s p k us) = commandNodes s" "curNode (store_some s p k us) = curNode s" "store_some s p k [] = s"
  by (simp_all add: store_some_def store_token_def split: list.split)

text \<open>The two places of a round where a token is stored.\<close>

lemma word_part:
  assumes b: "bytes_at (chars s) q w" "92 \<notin> set w" "unat q + length w < 2 ^ 32" and ap: "apart pline (length w) q (length w)" and n: "w = [] \<or> n < 50"
  shows "(if q + of_nat (length w) > q then do {
             s \<leftarrow> set_arg s n pline;
             (pline, m) \<leftarrow> copy_token (chars s) pline q (q + of_nat (length w));
             Some (pline + 1, n + 1, s\<lparr>chars := m(pline := 0)\<rparr>)
           } else Some (pline, n, s)) =
     Some (pline + of_nat (room (if w = [] then [] else [w])), n + length (if w = [] then [] else [w]), store_some s pline n (if w = [] then [] else [w]))"
proof (cases "w = []")
  case False
  have "unat (q + of_nat (length w)) = unat q + length w" by (rule unat_off [OF b(3)])
  then have "q < q + of_nat (length w)" using False by (simp add: word_less_nat_alt)
  moreover have "copy_token (chars (s\<lparr>args := (args s)[n := pline]\<rparr>)) pline q (q + of_nat (length w)) = Some (pline + of_nat (length w), put (chars s) pline w)"
    using copy_token_put [OF b(1,2) ap b(3)] by simp
  moreover have "put (chars s) pline (w @ [0]) = (put (chars s) pline w)(pline + of_nat (length w) := 0)" by (simp add: put_append)
  ultimately show ?thesis using n False by (simp add: set_arg_def store_some_def store_token_def add.assoc)
qed simp

lemma key_part:
  assumes "chars s pk = c" "is_key_token c \<longrightarrow> n < 50"
  shows "(if is_key_token (chars s pk) then do {
             s \<leftarrow> set_arg s n pline;
             Some (pline + 2, n + 1, s\<lparr>chars := (chars s)(pline := chars s pk, pline + 1 := 0)\<rparr>)
           } else Some (pline, n, s)) =
     Some (pline + of_nat (room (if is_key_token c then [[c]] else [])), n + length (if is_key_token c then [[c]] else []),
       store_some s pline n (if is_key_token c then [[c]] else []))"
  using assms by (simp add: set_arg_def store_some_def store_token_def)

lemma apart_parts: "apart p n q k \<Longrightarrow> i + n' \<le> n \<Longrightarrow> j + k' \<le> k \<Longrightarrow> apart (p + of_nat i) n' (q + of_nat j) k'"
  unfolding apart_def
proof (intro allI impI)
  fix a b assume *: "\<forall>i<n. \<forall>j<k. p + word_of_nat i \<noteq> q + word_of_nat j" "i + n' \<le> n" "j + k' \<le> k" "a < n'" "b < k'"
  then show "p + of_nat i + of_nat a \<noteq> q + of_nat j + of_nat b" using *(1) [rule_format, of "i + a" "j + b"] by (simp add: add.assoc)
qed

lemma no_backslash: "92 \<notin> set cs \<Longrightarrow> 92 \<notin> set (takeWhile P (dropWhile Q cs)) \<and> 92 \<notin> set (dropWhile P (dropWhile Q cs))"
  by (auto dest: set_takeWhileD set_dropWhileD)

lemma split_loop_tokens:
  assumes "stored s line pline ws" "chars s pk0 \<noteq> 0" "cstring (chars s) p cs" "92 \<notin> set cs" "chars s (p - 1) \<noteq> 92" "unat p + length cs < 2 ^ 32"
    "apart pline (room (line_tokens cs)) p (Suc (length cs))" "unat line \<le> unat pline" "pline \<noteq> 0" "unat pline + room (line_tokens cs) < 2 ^ 32"
    "length ws + length (line_tokens cs) \<le> 50"
  shows "\<exists>s'. split_loop s pline (length ws) p pk0 = Some (length (ws @ line_tokens cs), s') \<and> (\<exists>pl. stored s' line pl (ws @ line_tokens cs)) \<and>
    commandNodes s' = commandNodes s \<and> curNode s' = curNode s"
  using assms
proof (induction "length cs" arbitrary: s pline ws p pk0 cs rule: less_induct)
  case less
  note st = less.prems(1) and pk0 = less.prems(2) and cs = less.prems(3-6) and ap = less.prems(7) and pl = less.prems(8-10) and few = less.prems(11)
  define k where "k = length cs - length (skip_blanks cs)"
  define w where "w = takeWhile word_char (skip_blanks cs)"
  define r where "r = dropWhile word_char (skip_blanks cs)"
  define us where "us = (if w = [] then [] else [w])"
  define pk where "pk = p + of_nat (k + length w)"
  have split: "skip_blanks cs = w @ r" by (simp add: w_def r_def)
  have klen: "k + length w + length r = length cs"
    using length_dropWhile_le [of "\<lambda>c. c = 32" cs] arg_cong [OF split, of length] by (simp add: k_def skip_blanks_def)
  have lt: "line_tokens cs = us @ (case r of [] \<Rightarrow> [] | c # t \<Rightarrow> (if is_key_token c then [[c]] else []) @ line_tokens t)"
    by (subst line_tokens.simps) (simp add: Let_def us_def w_def r_def)
  have cq: "cstring (chars s) (p + of_nat k) (w @ r)" using cstring_skip [OF cs(1)] by (simp add: k_def split)
  have w: "bytes_at (chars s) (p + of_nat k) w" "0 \<notin> set w" and cr: "cstring (chars s) pk r"
    using cq by (simp_all add: cstring_append pk_def add.assoc)
  have nb: "92 \<notin> set w" "92 \<notin> set r" using no_backslash [OF cs(2)] by (simp_all add: w_def r_def skip_blanks_def)
  have uq: "unat (p + of_nat k) = unat p + k" by (rule unat_off) (use cs(4) klen in simp)
  have before: "chars s (p + of_nat k - 1) \<noteq> 92"
  proof (cases k)
    case (Suc j)
    then have "cs ! j \<in> set cs" using klen by simp
    then have "cs ! j \<noteq> 92" using cs(2) by metis
    moreover have "chars s (p + of_nat j) = cs ! j" using cstring_bytes_at [OF cs(1)] Suc klen by (simp add: bytes_at_def)
    moreover have e: "p + of_nat k - 1 = p + of_nat j" using Suc by simp
    ultimately show ?thesis unfolding e by metis
  qed (use cs(3) in simp)
  have tw: "takeWhile word_char (w @ r) = w" using w_def unfolding split by (rule sym)
  have trim: "TrimLeft (chars s) p = Some (p + of_nat k)" using TrimLeft_skips [OF cs(1)] by (simp add: k_def)
  have key: "NextKeyToken (chars s) (p + of_nat k) = Some (p + of_nat k + of_nat (length w))"
    using NextKeyToken_word [OF cq _ before] nb by (simp add: tw)
  have pk: "p + of_nat k + of_nat (length w) = pk" by (simp add: pk_def add.assoc)
  have us: "length us \<le> 1" "\<forall>w \<in> set us. 0 \<notin> set w" "room us \<le> room (line_tokens cs)" "length us \<le> length (line_tokens cs)"
    using w(2) lt by (simp_all add: us_def)
  have uroom: "unat pline + room us < 2 ^ 32" "length ws + length us \<le> 50" using us(3,4) pl(3) few by linarith+
  have apw: "apart pline (length w) (p + of_nat k) (length w)"
  proof (cases "w = []")
    case False
    then have "length w \<le> room (line_tokens cs)" using us(3) by (simp add: us_def)
    then have "apart (pline + of_nat 0) (length w) (p + of_nat k) (length w)" by (intro apart_parts [OF ap]) (use klen in simp_all)
    then show ?thesis by simp
  qed (simp add: apart_def)
  let ?s1 = "store_some s pline (length ws) us" and ?pl1 = "pline + of_nat (room us)"
  have nz: "0 < unat pline" using pl(2) by (simp add: unat_gt_0)
  note s1 = stored_some [OF st us(1,2) uroom(1) pl(1,2) uroom(2)]
  have wp: "(if pk > p + of_nat k then do {
             s \<leftarrow> set_arg s (length ws) pline;
             (pline, m) \<leftarrow> copy_token (chars s) pline (p + of_nat k) pk;
             Some (pline + 1, length ws + 1, s\<lparr>chars := m(pline := 0)\<rparr>)
           } else Some (pline, length ws, s)) = Some (?pl1, length (ws @ us), ?s1)"
    using word_part [OF w(1) nb(1) _ apw, of "length ws"] uq cs(4) klen uroom(2) unfolding pk us_def by (cases "w = []") (simp_all add: us_def)
  have keep1: "chars ?s1 (p + of_nat i) = chars s (p + of_nat i)" if "i \<le> length cs" for i
    by (rule store_some_keeps [OF apart_parts [OF ap, of 0 "room us" 0 "Suc (length cs)", simplified]]) (use us that in simp_all)
  have pk1: "chars ?s1 pk = chars s pk" unfolding pk_def by (rule keep1) (use klen in simp)
  show ?case
  proof (cases r)
    case Nil
    have c0: "chars ?s1 pk = 0" using cr pk1 Nil by simp
    then have kp: "\<not> is_key_token (chars ?s1 pk)" by (simp add: is_key_token_def)
    have "split_loop s pline (length ws) p pk0 = split_loop ?s1 ?pl1 (length (ws @ us)) (pk + 1) pk"
      using pk0 by (subst split_loop.simps) (simp add: trim key pk wp kp)
    also have "\<dots> = Some (length (ws @ us), ?s1)" using c0 by (subst split_loop.simps) simp
    finally show ?thesis using s1(1) lt Nil by auto
  next
    case (Cons c t)
    define ks where "ks = (if is_key_token c then [[c]] else [])"
    let ?s2 = "store_some ?s1 ?pl1 (length (ws @ us)) ks" and ?pl2 = "?pl1 + of_nat (room ks)"
    have lt': "line_tokens cs = us @ ks @ line_tokens t" using lt by (simp add: Cons ks_def)
    have c: "chars s pk = c" "c \<noteq> 0" "c \<noteq> 92" and ct: "cstring (chars s) (pk + 1) t" using cr nb(2) by (auto simp: Cons)
    have ks: "length ks \<le> 1" "\<forall>w \<in> set ks. 0 \<notin> set w" using c(2) by (simp_all add: ks_def)
    have kroom: "unat ?pl1 + room ks < 2 ^ 32" "length (ws @ us) + length ks \<le> 50" using pl(3) few s1(2) by (simp_all add: lt')
    have pl1: "unat line \<le> unat ?pl1" "?pl1 \<noteq> 0" using pl(1,2) s1(2) by (simp_all add: unat_eq_0 [symmetric])
    note s2 = stored_some [OF s1(1) ks kroom(1) pl1 kroom(2)]
    have kp: "(if is_key_token (chars ?s1 pk) then do {
             s \<leftarrow> set_arg ?s1 (length (ws @ us)) ?pl1;
             Some (?pl1 + 2, length (ws @ us) + 1, s\<lparr>chars := (chars s)(?pl1 := chars s pk, ?pl1 + 1 := 0)\<rparr>)
           } else Some (?pl1, length (ws @ us), ?s1)) = Some (?pl2, length (ws @ us @ ks), ?s2)"
      using key_part [of ?s1 pk c "length (ws @ us)" ?pl1] c(1) pk1 kroom(2) by (simp add: ks_def split: if_splits)
    have keep2: "chars ?s2 (p + of_nat i) = chars s (p + of_nat i)" if "i \<le> length cs" for i
    proof -
      have "apart ?pl1 (room ks) (p + of_nat 0) (Suc (length cs))" by (rule apart_parts [OF ap]) (simp_all add: lt')
      then have a1: "apart ?pl1 (room ks) p (Suc (length cs))" by simp
      have "i < Suc (length cs)" using that by (rule le_imp_less_Suc)
      from store_some_keeps [OF a1 this ks(1)] have "chars ?s2 (p + of_nat i) = chars ?s1 (p + of_nat i)" .
      then show ?thesis using keep1 [OF that] by simp
    qed
    have tlen: "k + length w + 1 + length t = length cs" using klen by (simp add: Cons)
    have pt: "pk + 1 = p + of_nat (k + length w + 1)" by (simp add: pk_def add.assoc)
    have ct2: "cstring (chars ?s2) (pk + 1) t"
    proof (rule cstring_same [OF ct], intro allI impI)
      fix i assume "i \<le> length t"
      moreover have e: "pk + 1 + of_nat i = p + of_nat (k + length w + 1 + i)" by (simp add: pk_def algebra_simps)
      ultimately show "chars ?s2 (pk + 1 + of_nat i) = chars s (pk + 1 + of_nat i)"
        unfolding e by (intro keep2) (use tlen in simp)
    qed
    have c2: "chars ?s2 pk = c" using keep2 [of "k + length w"] c(1) tlen by (simp add: pk_def)
    have up: "unat (pk + 1) + length t < 2 ^ 32"
    proof -
      have "unat (pk + 1) = unat p + (k + length w + 1)" unfolding pt by (rule unat_off) (use cs(4) tlen in simp)
      then show ?thesis using cs(4) tlen by simp
    qed
    have ap2: "apart ?pl2 (room (line_tokens t)) (pk + 1) (Suc (length t))"
    proof -
      have "apart (pline + of_nat (room us + room ks)) (room (line_tokens t)) (p + of_nat (k + length w + 1)) (Suc (length t))"
        by (rule apart_parts [OF ap]) (use tlen in \<open>simp_all add: lt'\<close>)
      then show ?thesis unfolding pt by (simp add: add.assoc)
    qed
    have "split_loop s pline (length ws) p pk0 = split_loop ?s2 ?pl2 (length (ws @ us @ ks)) (pk + 1) pk"
      using pk0 by (subst split_loop.simps) (simp add: trim key pk wp kp del: length_append)
    moreover have "length t < length cs" using tlen by simp
    moreover have "92 \<notin> set t" using nb(2) by (simp add: Cons)
    moreover have "unat line \<le> unat ?pl2" "?pl2 \<noteq> 0" "unat ?pl2 + room (line_tokens t) < 2 ^ 32"
      using pl1 s1(2) s2(2) pl(3) nz by (simp_all add: lt' unat_eq_0 [symmetric])
    moreover have "length ((ws @ us) @ ks) + length (line_tokens t) \<le> 50" using few by (simp add: lt')
    ultimately show ?thesis
      using less.hyps [of t ?s2 ?pl2 "(ws @ us) @ ks" pk "pk + 1"] s2(1) c2 c(2,3) ct2 up ap2 by (simp add: lt')
  qed
qed

section \<open>A typed line\<close>

lemma SpiltCommand_tokens:
  assumes line: "line \<noteq> 0" "unat line + room (line_tokens cs) < 2 ^ 32" "apart line (room (line_tokens cs)) input (Suc (length cs))"
    and cs: "cstring (chars s) input cs" "92 \<notin> set cs" "chars s (input - 1) \<noteq> 92" "unat input + length cs < 2 ^ 32"
    and few: "length (line_tokens cs) \<le> 50" "length (args s) = 50"
  shows "\<exists>s'. SpiltCommand line input s = Some (length (line_tokens cs), s') \<and> tokens_at s' 0 (line_tokens cs) \<and>
    commandNodes s' = commandNodes s \<and> curNode s' = curNode s"
proof (cases cs)
  case Nil
  have lt: "line_tokens [] = []" by (subst line_tokens.simps) (simp add: skip_blanks_def)
  have "SpiltCommand line input s = Some (0, s)" using cs(1) Nil by (simp add: SpiltCommand_def split_loop.simps)
  then show ?thesis by (simp add: Nil lt tokens_at_def)
next
  case (Cons c t)
  have st: "stored s line line []" using few(2) by (simp add: stored_def)
  have "chars s input \<noteq> 0" using cs(1) Cons by auto
  then obtain s' pl where s': "split_loop s line 0 input input = Some (length (line_tokens cs), s')" "stored s' line pl (line_tokens cs)"
    "commandNodes s' = commandNodes s" "curNode s' = curNode s"
    using split_loop_tokens [OF st _ cs line(3) order_refl line(1,2), of input] few(1) by auto
  have "tokens_at s' 0 (line_tokens cs)" using s'(2) few(1) by (simp add: tokens_at_def stored_def)
  then show ?thesis using s' by (auto simp: SpiltCommand_def)
qed

lemma ready_InitCommandTree:
  "length (commandNodes s) = 50 \<Longrightarrow> \<forall>n \<in> set (commandNodes s). length (node_args n) = 10 \<Longrightarrow> nodes_ready (commandNodes (InitCommandTree s)) 0"
  by (simp add: nodes_ready_def InitCommandTree_def)

text \<open>The line is in memory for the shell to read, and its arrays have their sizes.\<close>

definition line_ready :: "u32 \<Rightarrow> u32 \<Rightarrow> u8 list \<Rightarrow> command \<Rightarrow> shell \<Rightarrow> bool" where
  "line_ready line input cs c s \<longleftrightarrow> command_ok c \<and> line_tokens cs = tokens c \<and> length (tokens c) \<le> 50 \<and>
     line \<noteq> 0 \<and> unat line + room (tokens c) < 2 ^ 32 \<and> apart line (room (tokens c)) input (Suc (length cs)) \<and>
     cstring (chars s) input cs \<and> 92 \<notin> set cs \<and> chars s (input - 1) \<noteq> 92 \<and> unat input + length cs < 2 ^ 32 \<and>
     length (args s) = 50 \<and> length (commandNodes s) = 50 \<and> (\<forall>n \<in> set (commandNodes s). length (node_args n) = 10)"

lemma command_tree_ok:
  assumes "line_ready line input cs c s"
  shows "\<exists>s'. command_tree line input s = Some (0, length (tokens c), s') \<and> represents (chars s') (commandNodes s') 0 0 c \<and>
    curNode s' = node_count c \<and> node_count c \<le> 50 \<and> length (commandNodes s') = 50"
proof -
  note l = assms [unfolded line_ready_def]
  let ?s = "InitCommandTree s"
  have i: "chars ?s = chars s" "args ?s = args s" "curNode ?s = 0" by (simp_all add: InitCommandTree_def)
  obtain s1 where s1: "SpiltCommand line input ?s = Some (length (tokens c), s1)" "tokens_at s1 0 (tokens c)"
    "commandNodes s1 = commandNodes ?s" "curNode s1 = 0"
    using SpiltCommand_tokens [of line cs input ?s] l by (auto simp: i)
  have r: "nodes_ready (commandNodes s1) (curNode s1)" unfolding s1(3,4) by (rule ready_InitCommandTree) (use l in simp_all)
  have n: "node_count c \<le> 50" using node_count_tokens [of c] l by simp
  then obtain s2 where "AnalizeCommand (length (tokens c) + 1) 0 (0 + int (length (tokens c)) - 1) 0 s1 = Some (0, s2)" "parsed s1 c 0 s2"
    using AnalizeCommand_builds [of c s1 0 "length (tokens c) + 1" 0] l s1(2,4) r by auto
  then show ?thesis using s1(1,4) n by (simp add: command_tree_def parsed_def)
qed

text \<open>
  C29. The shell builds the right tree for every line it should understand: whenever the tokens of a line
  without backslash -- blanks skipped, longest words, key tokens alone -- are those of a command with at most 8
  arguments per program, the code returns with node 0 as the root of the tree of that command, in as many of the 50 nodes as
  the command has parts; every pointer of the tree is to the string it should be, file names without their
  directories in the place of the first argument, and the flags of the nodes say which programs are waited
  for and which run inside parentheses.  There may be 50 tokens, the line and its copy must not overlap, and the byte before
  the line must not be a backslash (the code looks at it).
\<close>

theorem typed_line_to_tree:
  assumes "line_ready line input cs c s"
  shows "\<exists>s'. command_tree line input s = Some (0, length (tokens c), s') \<and> represents (chars s') (commandNodes s') 0 0 c \<and>
    curNode s' = node_count c \<and> node_count c \<le> 50"
  using command_tree_ok [OF assms] by blast


section \<open>A line of one separator\<close>

lemma CreateSimpleNode_empty:
  assumes "get_arg s st = Some p" "string_at (chars s) p w" "length (commandNodes s) = 50" "\<forall>n \<in> set (commandNodes s). length (node_args n) = 10"
    "curNode s = 0" "params (commandNodes s ! 0) = 0"
  shows "\<exists>s'. CreateSimpleNode st (st - 1) 0 s = Some (0, s') \<and> represents (chars s') (commandNodes s') 0 0 (Com w [] None None)"
proof -
  obtain b where b: "getFilename (chars s) p = Some b" "string_at (chars s) b (base_name w)" using getFilename_base [OF assms(2)] by blast
  have "get_arg (s\<lparr>curNode := k\<rparr>) = get_arg s" for k by (intro ext) (simp add: get_arg_def)
  moreover have "length (node_args (commandNodes s ! 0)) = 10" using assms(3,4) by simp
  ultimately show ?thesis using assms(1,2,3,5,6) b
    by (simp add: CreateSimpleNode_def GetNextFreeCommandNode_def get_node_def add_arg_def simple_loop.simps set_node_def redirected_def
        string_or_null_def append_flag_def)
qed

lemma split_semicolon:
  assumes "chars s input = 59" "chars s (input + 1) = 0" "chars s (input - 1) \<noteq> 92" "apart line 2 input 2"
  shows "SpiltCommand line input s = Some (1, s\<lparr>args := (args s)[0 := line], chars := (chars s)(line := 59, line + 1 := 0)\<rparr>)"
proof -
  let ?s = "s\<lparr>args := (args s)[0 := line], chars := (chars s)(line := 59, line + 1 := 0)\<rparr>"
  have ne: "line + of_nat i \<noteq> input + of_nat j" if "i < 2" "j < 2" for i j using assms(4) that by (simp add: apart_def)
  have c: "chars ?s input = 59" "chars ?s (input + 1) = 0" using ne [of 0 0] ne [of 0 1] ne [of 1 0] ne [of 1 1] assms(1,2) by auto
  have k: "is_key_token 59" "\<not> is_key_token 0" by (simp_all add: is_key_token_def)
  have t1: "TrimLeft (chars s) input = Some input" "TrimLeft (chars ?s) (input + 1) = Some (input + 1)"
    by (subst TrimLeft.simps, use assms c in simp)+
  have n1: "NextKeyToken (chars s) input = Some input" "NextKeyToken (chars ?s) (input + 1) = Some (input + 1)"
    by (subst NextKeyToken.simps, use assms c k in simp)+
  have e: "split_loop ?s pl n (input + 1 + 1) (input + 1) = Some (n, ?s)" for pl n
    by (subst split_loop.simps) (simp only: c if_True simp_thms)
  have r: "split_loop ?s pl n (input + 1) input = Some (n, ?s)" for pl n
    by (subst split_loop.simps) (simp only: c t1 n1 k e if_True if_False Option.bind.bind_lunit prod.case less_irrefl, simp)
  show ?thesis unfolding SpiltCommand_def
    by (subst split_loop.simps) (simp add: assms t1 n1 k r set_arg_def)
qed

text \<open>
  C32. A line of the single character \<open>;\<close> (or a line of separators only) is not empty for the parser: it skips the separators, passes the
  end of the tokens and makes a command of the entry of \<open>args\<close> behind them, which an earlier line has left
  there.  After a line whose second token was a word, \<open>;\<close> runs the program of that word.
\<close>

theorem semicolon_runs_old_word:
  assumes "cstring (chars s) input [59]" "chars s (input - 1) \<noteq> 92" "line \<noteq> 0" "apart line 2 input 2"
    and "string_at (chars s) (args s ! 1) w" "apart line 2 (args s ! 1) (Suc (length w))"
    and "length (args s) = 50" "length (commandNodes s) = 50" "\<forall>n \<in> set (commandNodes s). length (node_args n) = 10" "chars s (args s ! 1) \<noteq> 40"
  shows "\<exists>s'. command_tree line input s = Some (0, 1, s') \<and> represents (chars s') (commandNodes s') 0 0 (Com w [] None None)"
proof -
  let ?m = "(chars s)(line := 59, line + 1 := 0)"
  let ?s = "(InitCommandTree s)\<lparr>args := (args s)[0 := line], chars := ?m\<rparr>"
  have i: "chars (InitCommandTree s) = chars s" "args (InitCommandTree s) = args s" by (simp_all add: InitCommandTree_def)
  have sp: "SpiltCommand line input (InitCommandTree s) = Some (1, ?s)"
    using split_semicolon [of "InitCommandTree s" input line] assms(1,2,4) by (simp add: i)
  have apart1: "\<forall>j \<le> length w. line \<noteq> args s ! 1 + of_nat j" and apart2: "\<forall>j \<le> length w. line + 1 \<noteq> args s ! 1 + of_nat j"
    using assms(6) [unfolded apart_def, rule_format, of 0] assms(6) [unfolded apart_def, rule_format, of 1] by (simp_all add: less_Suc_eq_le)
  then have m: "string_at ?m (args s ! 1) w" using assms(5) apart1 by (simp add: string_at_def cstring_upd)
  have ne: "line \<noteq> line + 1" by simp
  have t: "get_token ?s 0 = Some (59, True)" using assms(7) by (simp add: get_token_def get_arg_def)
  have sk: "skip_separators ?s 0 0 = Some 1"
    by (subst skip_separators.simps, simp add: t, subst skip_separators.simps, simp)
  have sc: "scan_tokens ?s 1 0 0 1 = Some (Inr (0, 1))" by (subst scan_tokens.simps) simp
  have ga: "get_arg ?s 1 = Some (args s ! 1)" by (simp add: get_arg_def)
  have tok: "get_token ?s 1 = Some (?m (args s ! 1), ?m (args s ! 1 + 1) = 0)" by (simp add: get_token_def ga)
  obtain s' where s': "CreateSimpleNode 1 0 0 ?s = Some (0, s')" "represents (chars s') (commandNodes s') 0 0 (Com w [] None None)"
    using CreateSimpleNode_empty [of ?s 1 "args s ! 1" w] ga m assms(8,9) by (auto simp: InitCommandTree_def)
  have "args s ! 1 \<noteq> line" "args s ! 1 \<noteq> line + 1" using apart1 apart2 by (force dest: spec [of _ 0])+
  then have ch: "?m (args s ! 1) \<noteq> 40" using assms(10) by simp
  have "AnalizeCommand (Suc (Suc 0)) 0 0 0 ?s = CreateSimpleNode 1 0 0 ?s"
    using ch by (simp add: sk sc tok del: fun_upd_apply)
  then have "AnalizeCommand (1 + 1) 0 (int 1 - 1) 0 ?s = CreateSimpleNode 1 0 0 ?s" by (simp only: one_add_one numeral_2_eq_2 of_nat_1 diff_self)
  then have "command_tree line input s = Some (0, 1, s')"
    unfolding command_tree_def sp Option.bind.bind_lunit prod.case by (simp only: s'(1) Option.bind.bind_lunit prod.case)
  then show ?thesis using s'(2) by blast
qed

text \<open>A line to try the properties on: \<open>ls -l|wc\<close> at 0x2000, to be split at 0x1000.\<close>

definition demo_text :: "u8 list" where
  "demo_text = [108, 115, 32, 45, 108, 124, 119, 99]"

definition demo_pipe :: command where
  "demo_pipe = Pipe (Com [108, 115] [[45, 108]] None None) (Com [119, 99] [] None None)"

definition demo_shell :: shell where
  "demo_shell = \<lparr>chars = put (\<lambda>_. 0) 0x2000 demo_text, args = replicate 50 0,
     commandNodes = replicate 50 \<lparr>commandType = 0, params = 0, left = 0, right = 0, commandName = 0, fin = 0, fout = 0, node_args = replicate 10 0\<rparr>,
     curNode = 0\<rparr>"

lemma demo_line_ready: "line_ready 0x1000 0x2000 demo_text demo_pipe demo_shell"
proof -
  have t: "line_tokens demo_text = tokens demo_pipe" by code_simp
  have r: "room (tokens demo_pipe) = 11" "length (tokens demo_pipe) = 4" "command_ok demo_pipe" by code_simp+
  have "Suc (length demo_text) = 9" by (simp add: demo_text_def)
  moreover have "apart 0x1000 11 0x2000 9" by (rule apart_ranges) (simp_all add: between_def)
  ultimately have "apart 0x1000 11 0x2000 (Suc (length demo_text))" by (simp only:)
  moreover have "cstring (chars demo_shell) 0x2000 demo_text" by (simp add: demo_shell_def demo_text_def)
  ultimately show ?thesis by (simp add: line_ready_def t r) (simp add: demo_shell_def demo_text_def)
qed

theorem typed_line_to_tree_witness:
  "\<exists>s'. command_tree 0x1000 0x2000 demo_shell = Some (0, 4, s') \<and> represents (chars s') (commandNodes s') 0 0 demo_pipe \<and>
    curNode s' = 3 \<and> node_count demo_pipe \<le> 50"
proof -
  have n: "node_count demo_pipe = 3" "length (tokens demo_pipe) = 4" by (simp_all add: demo_pipe_def input_tokens_def output_tokens_def)
  show ?thesis using typed_line_to_tree [OF demo_line_ready] by (simp add: n)
qed


text \<open>After the line \<open>ls wc\<close> the line \<open>;\<close> runs \<open>wc\<close>.\<close>

theorem semicolon_runs_old_word_witness:
  "\<exists>s'. command_tree 0x1000 0x2000 (demo_shell\<lparr>chars := put (put (\<lambda>_. 0) 0x2000 [59]) 0x1003 [119, 99], args := (replicate 50 0)[1 := 0x1003]\<rparr>) = Some (0, 1, s') \<and>
    represents (chars s') (commandNodes s') 0 0 (Com [119, 99] [] None None)"
  (is "\<exists>s'. command_tree _ _ ?s = _ \<and> _")
proof -
  have a: "args ?s ! 1 = 0x1003" by simp
  have ap: "apart 0x1000 2 0x2000 2" "apart 0x1000 2 0x1003 3" by (rule apart_ranges; simp add: between_def)+
  have w: "string_at (chars ?s) 0x1003 [119, 99]" "cstring (chars ?s) 0x2000 [59]" by (simp_all add: string_at_def)
  show ?thesis
    by (rule semicolon_runs_old_word) (use ap w in \<open>simp_all add: a numeral_3_eq_3 del: list_update.simps\<close>, simp_all add: demo_shell_def)
qed

end
