(* ===== verification/ShellRun.thy ===== *)
theory ShellRun
  imports ShellLine "HOL-Library.Sublist"
begin

text \<open>
  The execution of a tree of commands (\<open>shell/ExecuteCommand.c\<close>): which programs are started, with which arguments and
  which files behind their descriptors, and what is left in the shell.  The system calls are seen as the kernel
  promises them to a program: \<open>open\<close>, \<open>creat\<close>, \<open>dup\<close> and \<open>pipe\<close> take the lowest free descriptors, a child of \<open>fork\<close> has a
  copy of memory and descriptors, \<open>wait\<close> returns (each call is recorded; \<open>until_stuck\<close> says what a shell
  does whose \<open>wait\<close> does not).  What depends on the file system and on free process slots is the argument \<open>sys\<close>.
\<close>

section \<open>Descriptors\<close>

datatype stream = Terminal | Source token | Sink token | ReadEnd nat | WriteEnd nat

datatype event =
    Started token "token list" "stream option list"
  | Awaited
  | Message token
  | ChangedDir token bool
  | PathShown
  | Stopped

record system =
  can_open :: "token \<Rightarrow> bool"
  can_creat :: "token \<Rightarrow> bool"
  can_exec :: "token \<Rightarrow> bool"
  can_chdir :: "token \<Rightarrow> bool"
  can_fork :: "nat \<Rightarrow> bool"
  stale_pipe :: "int \<times> int"

text \<open>The shell process while it executes; \<open>forks\<close> and \<open>pipe_count\<close> count the calls so far.\<close>

record run =
  tree :: shell
  argsCnt :: nat
  fds :: "stream option list"
  forks :: nat
  pipe_count :: nat
  log :: "event list"

definition free_slot :: "stream option list \<Rightarrow> nat option" where
  "free_slot t = List.find (\<lambda>i. t ! i = None) [0..<length t]"

definition sys_new :: "stream \<Rightarrow> stream option list \<Rightarrow> int \<times> stream option list" where
  "sys_new x t = (case free_slot t of None \<Rightarrow> (-1, t) | Some i \<Rightarrow> (int i, t[i := Some x]))"

definition open_fd :: "int \<Rightarrow> stream option list \<Rightarrow> stream option" where
  "open_fd fd t = (if 0 \<le> fd \<and> fd < int (length t) then t ! nat fd else None)"

definition sys_dup :: "int \<Rightarrow> stream option list \<Rightarrow> int \<times> stream option list" where
  "sys_dup fd t = (case open_fd fd t of None \<Rightarrow> (-1, t) | Some x \<Rightarrow> sys_new x t)"

definition sys_close :: "int \<Rightarrow> stream option list \<Rightarrow> stream option list" where
  "sys_close fd t = (if open_fd fd t = None then t else t[nat fd := None])"

text \<open>When there are not two free descriptors the array of the caller keeps what was in it.\<close>

definition sys_pipe :: "system \<Rightarrow> run \<Rightarrow> (int \<times> int) \<times> run" where
  "sys_pipe sys s =
     (let k = pipe_count s; (r, t) = sys_new (ReadEnd k) (fds s); (w, t) = sys_new (WriteEnd k) t
      in if r < 0 \<or> w < 0 then (stale_pipe sys, s) else ((r, w), s\<lparr>fds := t, pipe_count := k + 1\<rparr>))"

section \<open>The commands\<close>

partial_function (option) read_string :: "mem \<Rightarrow> u32 \<Rightarrow> token option" where
  "read_string m p = (if m p = 0 then Some [] else do { w \<leftarrow> read_string m (p + 1); Some (m p # w) })"

text \<open>The array \<open>argv\<close> as \<open>execv\<close> reads it, up to the null pointer.\<close>

fun read_args :: "mem \<Rightarrow> u32 list \<Rightarrow> token list option" where
  "read_args m [] = None"
| "read_args m (p # ps) = (if p = 0 then Some [] else do { w \<leftarrow> read_string m p; ws \<leftarrow> read_args m ps; Some (w # ws) })"

definition node_at :: "run \<Rightarrow> nat \<Rightarrow> commandNode" where
  "node_at s k = commandNodes (tree s) ! k"

definition mem_of :: "run \<Rightarrow> mem" where
  "mem_of s = chars (tree s)"

definition add_event :: "event \<Rightarrow> run \<Rightarrow> run" where
  "add_event e s = s\<lparr>log := log s @ [e]\<rparr>"

text \<open>\<open>close(to); dup(fd); close(fd);\<close>\<close>

definition move_fd :: "int \<Rightarrow> int \<Rightarrow> run \<Rightarrow> run" where
  "move_fd fd to s = s\<lparr>fds := sys_close fd (snd (sys_dup fd (sys_close to (fds s))))\<rparr>"

definition redirect :: "(token \<Rightarrow> bool) \<Rightarrow> (token \<Rightarrow> stream) \<Rightarrow> u32 \<Rightarrow> int \<Rightarrow> run \<Rightarrow> run option" where
  "redirect can mk p to s =
     (if p = 0 then Some s
      else do {
        f \<leftarrow> read_string (mem_of s) p;
        let (fd, t) = (if can f then sys_new (mk f) (fds s) else (-1, fds s));
        Some (if fd > 0 then move_fd fd to (s\<lparr>fds := t\<rparr>) else add_event (Message f) (s\<lparr>fds := t\<rparr>))
      })"

definition OutputRedirect :: "system \<Rightarrow> commandNode \<Rightarrow> (int \<times> int) option \<Rightarrow> run \<Rightarrow> ((int \<times> int) option \<times> run) option" where
  "OutputRedirect sys node pipes s = do {
     s \<leftarrow> redirect (can_open sys) Source (fin node) 0 s;
     s \<leftarrow> redirect (can_creat sys) Sink (fout node) 1 s;
     (pipes, s) \<leftarrow>
       (if params node AND FPIN \<noteq> 0 then
          (case pipes of None \<Rightarrow> None | Some (r, w) \<Rightarrow> Some (Some (-1, w), move_fd r 0 s))
        else Some (pipes, s));
     (pipes, s) \<leftarrow>
       (if params node AND FPOU \<noteq> 0 then
          (case pipes of None \<Rightarrow> None | Some (r, w) \<Rightarrow> Some (Some (r, -1), move_fd w 1 s))
        else Some (pipes, s));
     Some (pipes, case pipes of None \<Rightarrow> s
       | Some (r, w) \<Rightarrow>
           let t = (if r \<ge> 0 then sys_close r (fds s) else fds s)
           in s\<lparr>fds := (if w \<ge> 0 then sys_close w t else t)\<rparr>)
   }"

text \<open>The child of a simple command: the program is looked for in the current directory and then in \<open>/bin\<close>.\<close>

definition bin_path :: "token \<Rightarrow> token" where
  "bin_path w = [47, 98, 105, 110, 47] @ w"

definition run_program :: "system \<Rightarrow> commandNode \<Rightarrow> (int \<times> int) option \<Rightarrow> run \<Rightarrow> run option" where
  "run_program sys node pipes s = do {
     (_, s) \<leftarrow> OutputRedirect sys node pipes s;
     name \<leftarrow> read_string (mem_of s) (node_args node ! 0);
     argv \<leftarrow> read_args (mem_of s) (node_args node);
     Some (if can_exec sys name then add_event (Started name argv (fds s)) s
           else if can_exec sys (bin_path name) then add_event (Started (bin_path name) argv (fds s)) s
           else add_event (Message name) s)
   }"

text \<open>What the parent keeps of a child.\<close>

definition after_child :: "run \<Rightarrow> run \<Rightarrow> run" where
  "after_child s c = s\<lparr>log := log c, forks := forks c, pipe_count := pipe_count c\<rparr>"

definition change_dir :: "system \<Rightarrow> commandNode \<Rightarrow> run \<Rightarrow> run option" where
  "change_dir sys node s =
     (if argsCnt s = 2 then do {
        w \<leftarrow> read_string (mem_of s) (node_args node ! 1);
        Some (add_event (ChangedDir w (can_chdir sys w)) s)
      }
      else if argsCnt s = 1 then Some (add_event PathShown s)
      else Some (add_event (Message [99, 100]) s))"

definition ExecuteTCOM :: "system \<Rightarrow> nat \<Rightarrow> (int \<times> int) option \<Rightarrow> run \<Rightarrow> run option" where
  "ExecuteTCOM sys k pipes s = do {
     let node = node_at s k;
     name \<leftarrow> read_string (mem_of s) (commandName node);
     if name = [99, 100] then change_dir sys node s
     else do {
       s \<leftarrow> (if can_fork sys (forks s) then map_option (after_child s) (run_program sys node pipes (s\<lparr>forks := forks s + 1\<rparr>))
             else Some (s\<lparr>forks := forks s + 1\<rparr>));
       Some (if params node AND FAND = 0 then add_event Awaited s else s)
     }
   }"

text \<open>A function that executes a node also gives the array \<open>pipes\<close> as it is afterwards.\<close>

type_synonym execute = "nat \<Rightarrow> (int \<times> int) option \<Rightarrow> run \<Rightarrow> ((int \<times> int) option \<times> run) option"

definition ExecuteTPAR :: "system \<Rightarrow> execute \<Rightarrow> nat \<Rightarrow> (int \<times> int) option \<Rightarrow> run \<Rightarrow> run option" where
  "ExecuteTPAR sys execute k pipes s =
     (let node = node_at s k
      in if left node > 0 then
           if can_fork sys (forks s) then do {
             (pipes, c) \<leftarrow> OutputRedirect sys node pipes (s\<lparr>forks := forks s + 1\<rparr>);
             (_, c) \<leftarrow> execute (nat (left node)) pipes c;
             Some (add_event Awaited (after_child s c))
           }
           else Some (add_event Awaited (s\<lparr>forks := forks s + 1\<rparr>))
         else Some s)"

definition ExecuteTLST :: "execute \<Rightarrow> nat \<Rightarrow> (int \<times> int) option \<Rightarrow> run \<Rightarrow> ((int \<times> int) option \<times> run) option" where
  "ExecuteTLST execute k pipes s = do {
     (pipes, s) \<leftarrow> (if left (node_at s k) \<ge> 0 then execute (nat (left (node_at s k))) pipes s else Some (pipes, s));
     (if right (node_at s k) \<ge> 0 then execute (nat (right (node_at s k))) pipes s else Some (pipes, s))
   }"

definition set_params :: "nat \<Rightarrow> u32 \<Rightarrow> run \<Rightarrow> run" where
  "set_params k f s = s\<lparr>tree := set_node k ((node_at s k)\<lparr>params := params (node_at s k) OR f\<rparr>) (tree s)\<rparr>"

definition ExecuteTFIL :: "system \<Rightarrow> execute \<Rightarrow> nat \<Rightarrow> (int \<times> int) option \<Rightarrow> run \<Rightarrow> ((int \<times> int) option \<times> run) option" where
  "ExecuteTFIL sys execute k pipes s = do {
     let (newpipes, s) = sys_pipe sys s;
     let node = node_at s k;
     (pipes, np, s) \<leftarrow>
       (if left node > 0 then
          if params node AND FPIN \<noteq> 0 then
            (case pipes of None \<Rightarrow> None
             | Some (r, w) \<Rightarrow> do {
                 (pipes, s) \<leftarrow> execute (nat (left node)) (Some (r, snd newpipes)) (set_params (nat (left node)) (FPOU OR FPIN OR FAND) s);
                 Some (pipes, Some newpipes, s) })
          else do {
            (np, s) \<leftarrow> execute (nat (left node)) (Some newpipes) (set_params (nat (left node)) FPOU s);
            Some (pipes, np, s) }
        else Some (pipes, Some newpipes, s));
     (if right node > 0 then do {
        (np, s) \<leftarrow> execute (nat (right node)) np (set_params (nat (right node)) (FPIN OR FAND) s);
        Some (pipes, s) }
      else Some (pipes, s))
   }"

text \<open>Children of a node have greater numbers, so the number of the nodes is enough as the fuel.\<close>

fun ExecuteCommand :: "system \<Rightarrow> nat \<Rightarrow> execute" where
  "ExecuteCommand sys 0 k pipes s = None"
| "ExecuteCommand sys (Suc fuel) k pipes s =
     (if k \<ge> 50 then None
      else let t = commandType (node_at s k)
      in if t = TLST then ExecuteTLST (ExecuteCommand sys fuel) k pipes s
         else if t = TFIL then ExecuteTFIL sys (ExecuteCommand sys fuel) k pipes s
         else if t = TPAR then map_option (\<lambda>s. (pipes, s)) (ExecuteTPAR sys (ExecuteCommand sys fuel) k pipes s)
         else if t = TCOM then map_option (\<lambda>s. (pipes, s)) (ExecuteTCOM sys k pipes s)
         else Some (pipes, s))"

text \<open>What \<open>main1\<close> does with a line of commands.\<close>

definition shell_round :: "system \<Rightarrow> u32 \<Rightarrow> u32 \<Rightarrow> run \<Rightarrow> run option" where
  "shell_round sys line lineInput s = do {
     (root, n, t) \<leftarrow> command_tree line lineInput (tree s);
     let s = s\<lparr>tree := t, argsCnt := n\<rparr>;
     (if root \<ge> 0 then map_option snd (ExecuteCommand sys 50 (nat root) None s) else Some s)
   }"

text \<open>A round of the loop in \<open>main1\<close>; the result says whether the shell goes on.\<close>

definition shutdown :: token where
  "shutdown = [115, 104, 117, 116, 100, 111, 119, 110]"

definition main1_round :: "system \<Rightarrow> u32 \<Rightarrow> u32 \<Rightarrow> run \<Rightarrow> (bool \<times> run) option" where
  "main1_round sys line lineInput s = do {
     w \<leftarrow> read_string (mem_of s) lineInput;
     if w = shutdown then Some (False, add_event Stopped (s\<lparr>tree := InitCommandTree (tree s), argsCnt := 0\<rparr>))
     else map_option (Pair True) (shell_round sys line lineInput s)
   }"

section \<open>Every program is started once\<close>

lemma read_string_at: "cstring m p w \<Longrightarrow> read_string m p = Some w"
  by (induction w arbitrary: p) (subst read_string.simps, simp)+

text \<open>What is started for a command that executes: the file name without its directories, here or in \<open>/bin\<close>.\<close>

definition launched :: "system \<Rightarrow> token \<Rightarrow> token list \<Rightarrow> (token \<times> token list) list" where
  "launched sys n ws =
     (if can_exec sys (base_name n) then [(base_name n, base_name n # ws)]
      else if can_exec sys (bin_path (base_name n)) then [(bin_path (base_name n), base_name n # ws)] else [])"

fun programs :: "system \<Rightarrow> command \<Rightarrow> (token \<times> token list) list" where
  "programs sys (Com n ws i q) = launched sys n ws"
| "programs sys (Par c i q) = programs sys c"
| "programs sys (Pipe a b) = programs sys a @ programs sys b"
| "programs sys (Ended a bg) = programs sys a"
| "programs sys (Seq a bg b) = programs sys a @ programs sys b"

definition started :: "event list \<Rightarrow> (token \<times> token list) list" where
  "started es = concat (map (\<lambda>e. case e of Started p as t \<Rightarrow> [(p, as)] | _ \<Rightarrow> []) es)"

lemma started_simps [simp]:
  "started [] = []" "started (xs @ ys) = started xs @ started ys" "started [Started p as t] = [(p, as)]"
  "started [Awaited] = []" "started [Message w] = []" "started [ChangedDir w b] = []"
  by (simp_all add: started_def)

fun no_cd :: "command \<Rightarrow> bool" where
  "no_cd (Com n ws i q) \<longleftrightarrow> n \<noteq> [99, 100]"
| "no_cd (Par c i q) \<longleftrightarrow> no_cd c"
| "no_cd (Pipe a b) \<longleftrightarrow> no_cd a \<and> no_cd b"
| "no_cd (Ended a bg) \<longleftrightarrow> no_cd a"
| "no_cd (Seq a bg b) \<longleftrightarrow> no_cd a \<and> no_cd b"

text \<open>The tree without the flags, which the execution changes.\<close>

fun shape :: "mem \<Rightarrow> commandNode list \<Rightarrow> nat \<Rightarrow> command \<Rightarrow> bool" where
  "shape m ns k (Com n ws i q) \<longleftrightarrow>
     commandType (ns ! k) = TCOM \<and> redirected m (ns ! k) i q \<and> string_at m (commandName (ns ! k)) n \<and>
     string_at m (node_args (ns ! k) ! 0) (base_name n) \<and> length (node_args (ns ! k)) = 10 \<and> length ws \<le> 8 \<and>
     (\<forall>j < length ws. string_at m (node_args (ns ! k) ! Suc j) (ws ! j)) \<and> node_args (ns ! k) ! Suc (length ws) = 0"
| "shape m ns k (Par c i q) \<longleftrightarrow>
     commandType (ns ! k) = TPAR \<and> redirected m (ns ! k) i q \<and> left (ns ! k) = int (k + 1) \<and> shape m ns (k + 1) c"
| "shape m ns k (Pipe a b) \<longleftrightarrow>
     commandType (ns ! k) = TFIL \<and> left (ns ! k) = int (k + 1) \<and> shape m ns (k + 1) a \<and>
     right (ns ! k) = int (k + 1 + node_count a) \<and> shape m ns (k + 1 + node_count a) b"
| "shape m ns k (Ended a bg) \<longleftrightarrow>
     commandType (ns ! k) = TLST \<and> left (ns ! k) = int (k + 1) \<and> shape m ns (k + 1) a \<and> right (ns ! k) = -1"
| "shape m ns k (Seq a bg b) \<longleftrightarrow>
     commandType (ns ! k) = TLST \<and> left (ns ! k) = int (k + 1) \<and> shape m ns (k + 1) a \<and>
     right (ns ! k) = int (k + 1 + node_count a) \<and> shape m ns (k + 1 + node_count a) b"

definition but_params :: "commandNode list \<Rightarrow> commandNode list \<Rightarrow> nat \<Rightarrow> nat \<Rightarrow> bool" where
  "but_params ns ns' lo hi \<longleftrightarrow> (\<forall>i. lo \<le> i \<and> i < hi \<longrightarrow> ns' ! i = (ns ! i)\<lparr>params := params (ns' ! i)\<rparr>)"

lemma but_paramsD:
  assumes "but_params ns ns' lo hi" "lo \<le> i" "i < hi"
  shows "commandType (ns' ! i) = commandType (ns ! i)" "left (ns' ! i) = left (ns ! i)" "right (ns' ! i) = right (ns ! i)"
    "commandName (ns' ! i) = commandName (ns ! i)" "fin (ns' ! i) = fin (ns ! i)" "fout (ns' ! i) = fout (ns ! i)" "node_args (ns' ! i) = node_args (ns ! i)"
proof -
  have e: "ns' ! i = (ns ! i)\<lparr>params := params (ns' ! i)\<rparr>" using assms by (simp add: but_params_def)
  show "commandType (ns' ! i) = commandType (ns ! i)" "left (ns' ! i) = left (ns ! i)" "right (ns' ! i) = right (ns ! i)"
    "commandName (ns' ! i) = commandName (ns ! i)" "fin (ns' ! i) = fin (ns ! i)" "fout (ns' ! i) = fout (ns ! i)" "node_args (ns' ! i) = node_args (ns ! i)"
    by (subst e, simp)+
qed

lemma node_count_pos: "0 < node_count c"
  by (cases c) simp_all

lemma shape_but_params: "but_params ns ns' lo hi \<Longrightarrow> lo \<le> k \<Longrightarrow> k + node_count c \<le> hi \<Longrightarrow> shape m ns k c \<Longrightarrow> shape m ns' k c"
proof (induction c arbitrary: k)
  case (Com n ws i q)
  then show ?case using but_paramsD [OF Com.prems(1,2)] by (simp add: redirected_def)
next
  case (Par c i q)
  then show ?case using but_paramsD [OF Par.prems(1,2)] by (simp add: redirected_def)
next
  case (Pipe a b)
  then show ?case using but_paramsD [OF Pipe.prems(1,2)] by simp
next
  case (Ended a bg)
  then show ?case using but_paramsD [OF Ended.prems(1,2)] by simp
next
  case (Seq a bg b)
  then show ?case using but_paramsD [OF Seq.prems(1,2)] by simp
qed

lemma represents_shape: "represents m ns k par c \<Longrightarrow> command_ok c \<Longrightarrow> shape m ns k c"
  by (induction c arbitrary: k par) auto

text \<open>Without a pipe array no node may ask for it.\<close>

definition no_pipe_flags :: "u32 \<Rightarrow> bool" where
  "no_pipe_flags p \<longleftrightarrow> p AND FPIN = 0 \<and> p AND FPOU = 0"

lemma read_args_list:
  "length ws < length ps \<Longrightarrow> \<forall>j < length ws. string_at m (ps ! j) (ws ! j) \<Longrightarrow> ps ! length ws = 0 \<Longrightarrow> read_args m ps = Some ws"
proof (induction ws arbitrary: ps)
  case Nil
  then show ?case by (cases ps) auto
next
  case (Cons w ws)
  obtain p qs where p: "ps = p # qs" using Cons.prems(1) by (cases ps) auto
  have "string_at m p w" using Cons.prems(2) by (auto simp: p dest: spec [of _ 0])
  then have "p \<noteq> 0" "read_string m p = Some w" by (simp_all add: string_at_def read_string_at)
  moreover have "read_args m qs = Some ws" using Cons.prems by (intro Cons.IH) (auto simp: p)
  ultimately show ?case by (simp add: p)
qed

text \<open>What a step of the child leaves alone: everything but descriptors and messages.\<close>

definition quiet_step :: "run \<Rightarrow> run \<Rightarrow> bool" where
  "quiet_step s s' \<longleftrightarrow> tree s' = tree s \<and> argsCnt s' = argsCnt s \<and> forks s' = forks s \<and> pipe_count s' = pipe_count s \<and> started (log s') = started (log s)"

lemma quiet_trans: "quiet_step a b \<Longrightarrow> quiet_step b c \<Longrightarrow> quiet_step a c"
  by (simp add: quiet_step_def)

lemma redirect_quiet:
  assumes "string_or_null (mem_of s) p w"
  shows "\<exists>s'. redirect can mk p to s = Some s' \<and> quiet_step s s'"
proof (cases w)
  case None
  then show ?thesis using assms by (simp add: string_or_null_def redirect_def quiet_step_def)
next
  case (Some f)
  then have "p \<noteq> 0" "read_string (mem_of s) p = Some f" using assms by (simp_all add: string_or_null_def string_at_def read_string_at)
  then show ?thesis by (simp add: redirect_def quiet_step_def move_fd_def add_event_def split: prod.split)
qed

lemma OutputRedirect_quiet:
  assumes "redirected (mem_of s) node i q" "pipes = None \<Longrightarrow> no_pipe_flags (params node)"
  shows "\<exists>p' s'. OutputRedirect sys node pipes s = Some (p', s') \<and> quiet_step s s' \<and> (p' = None \<longleftrightarrow> pipes = None)"
proof -
  obtain s1 where s1: "redirect (can_open sys) Source (fin node) 0 s = Some s1" "quiet_step s s1"
    using redirect_quiet assms(1) unfolding redirected_def by blast
  have "string_or_null (mem_of s1) (fout node) (map_option snd q)" using assms(1) s1(2) by (simp add: redirected_def mem_of_def quiet_step_def)
  then obtain s2 where s2: "redirect (can_creat sys) Sink (fout node) 1 s1 = Some s2" "quiet_step s1 s2" using redirect_quiet by blast
  have "quiet_step s s2" by (rule quiet_trans [OF s1(2) s2(2)])
  then show ?thesis using assms(2)
    by (cases pipes) (auto simp: OutputRedirect_def s1(1) s2(1) no_pipe_flags_def quiet_step_def move_fd_def Let_def)
qed

text \<open>The nodes that are still to be executed ask for no pipe; the execution changes flags in its own tree only.\<close>

definition clean :: "run \<Rightarrow> nat \<Rightarrow> nat \<Rightarrow> bool" where
  "clean s lo hi \<longleftrightarrow> (\<forall>i. lo \<le> i \<and> i < hi \<longrightarrow> no_pipe_flags (params (node_at s i)))"

definition executed :: "nat \<Rightarrow> nat \<Rightarrow> run \<Rightarrow> run \<Rightarrow> bool" where
  "executed k n s s' \<longleftrightarrow> mem_of s' = mem_of s \<and> argsCnt s' = argsCnt s \<and> length (commandNodes (tree s')) = length (commandNodes (tree s)) \<and>
     (\<forall>i. i < k \<or> k + n \<le> i \<longrightarrow> node_at s' i = node_at s i)"

definition tree_at :: "run \<Rightarrow> nat \<Rightarrow> command \<Rightarrow> (int \<times> int) option \<Rightarrow> bool" where
  "tree_at s k c pipes \<longleftrightarrow> shape (mem_of s) (commandNodes (tree s)) k c \<and> k + node_count c \<le> 50 \<and> length (commandNodes (tree s)) = 50 \<and>
     clean s (k + 1) (k + node_count c) \<and> (pipes = None \<longrightarrow> no_pipe_flags (params (node_at s k)))"

definition tree_runs :: "system \<Rightarrow> nat \<Rightarrow> nat \<Rightarrow> command \<Rightarrow> (int \<times> int) option \<Rightarrow> run \<Rightarrow> bool" where
  "tree_runs sys fuel k c pipes s \<longleftrightarrow> (\<exists>p' s'. ExecuteCommand sys fuel k pipes s = Some (p', s') \<and> (p' = None \<longleftrightarrow> pipes = None) \<and>
     started (log s') = started (log s) @ programs sys c \<and> executed k (node_count c) s s')"

lemma node_at_simps [simp]:
  "node_at (s\<lparr>log := l\<rparr>) k = node_at s k" "node_at (s\<lparr>forks := n\<rparr>) k = node_at s k" "node_at (s\<lparr>fds := t\<rparr>) k = node_at s k"
  "node_at (s\<lparr>pipe_count := n\<rparr>) k = node_at s k" "node_at (add_event e s) k = node_at s k" "node_at (after_child s c) k = node_at s k"
  "mem_of (s\<lparr>log := l\<rparr>) = mem_of s" "mem_of (s\<lparr>forks := n\<rparr>) = mem_of s" "mem_of (s\<lparr>fds := t\<rparr>) = mem_of s"
  "mem_of (s\<lparr>pipe_count := n\<rparr>) = mem_of s" "mem_of (add_event e s) = mem_of s" "mem_of (after_child s c) = mem_of s"
  "tree (add_event e s) = tree s" "tree (after_child s c) = tree s" "log (add_event e s) = log s @ [e]" "log (after_child s c) = log c"
  "argsCnt (add_event e s) = argsCnt s" "argsCnt (after_child s c) = argsCnt s"
  by (simp_all add: node_at_def mem_of_def add_event_def after_child_def)

lemma set_params_simps [simp]:
  "mem_of (set_params k f s) = mem_of s" "argsCnt (set_params k f s) = argsCnt s" "log (set_params k f s) = log s"
  "length (commandNodes (tree (set_params k f s))) = length (commandNodes (tree s))" "fds (set_params k f s) = fds s"
  "forks (set_params k f s) = forks s" "pipe_count (set_params k f s) = pipe_count s"
  by (simp_all add: set_params_def mem_of_def)

lemma node_set_params: "k < length (commandNodes (tree s)) \<Longrightarrow>
  node_at (set_params k f s) i = (if i = k then (node_at s k)\<lparr>params := params (node_at s k) OR f\<rparr> else node_at s i)"
  by (simp add: set_params_def node_at_def)

lemma runs_TCOM:
  assumes t: "tree_at s k (Com n ws i q) pipes" and cd: "n \<noteq> [99, 100]" and fork: "\<forall>j. can_fork sys j" and f: "0 < fuel"
  shows "tree_runs sys fuel k (Com n ws i q) pipes s"
proof -
  obtain g where g: "fuel = Suc g" using f by (cases fuel) auto
  let ?node = "node_at s k"
  note sh = t [unfolded tree_at_def, simplified, folded node_at_def]
  have name: "read_string (mem_of s) (commandName ?node) = Some n" using sh by (simp add: string_at_def read_string_at)
  let ?s = "s\<lparr>forks := Suc (forks s)\<rparr>"
  have "redirected (mem_of ?s) ?node i q" using sh by simp
  then obtain p' s1 where r: "OutputRedirect sys ?node pipes ?s = Some (p', s1)" "quiet_step ?s s1"
    using OutputRedirect_quiet [of ?s ?node i q pipes sys] sh by auto
  have m: "mem_of s1 = mem_of s" using r(2) by (simp add: quiet_step_def mem_of_def)
  have a0: "read_string (mem_of s1) (node_args ?node ! 0) = Some (base_name n)" using sh by (simp add: m string_at_def read_string_at)
  have av: "read_args (mem_of s1) (node_args ?node) = Some (base_name n # ws)"
  proof (rule read_args_list)
    show "\<forall>j < length (base_name n # ws). string_at (mem_of s1) (node_args ?node ! j) ((base_name n # ws) ! j)"
      using sh by (auto simp: m nth_Cons split: nat.split)
  qed (use sh in simp_all)
  obtain s2 where s2: "run_program sys ?node pipes ?s = Some s2" "started (log s2) = started (log s) @ launched sys n ws" "tree s2 = tree s" "argsCnt s2 = argsCnt s"
    using r(2) by (auto simp: run_program_def r(1) a0 av launched_def quiet_step_def)
  have "ExecuteTCOM sys k pipes s = Some (if params ?node AND FAND = 0 then add_event Awaited (after_child s s2) else after_child s s2)"
    using cd fork by (simp add: ExecuteTCOM_def name s2(1) Let_def)
  then show ?thesis using sh s2 unfolding tree_runs_def g
    by (auto simp: executed_def TLST_def TFIL_def TPAR_def TCOM_def)
qed

lemma runs_TPAR:
  assumes IH: "\<And>s pipes. tree_at s (k + 1) c pipes \<Longrightarrow> tree_runs sys g (k + 1) c pipes s"
    and t: "tree_at s k (Par c i q) pipes" and fork: "\<forall>j. can_fork sys j"
  shows "tree_runs sys (Suc g) k (Par c i q) pipes s"
proof -
  let ?node = "node_at s k" and ?s = "s\<lparr>forks := Suc (forks s)\<rparr>"
  note sh = t [unfolded tree_at_def, simplified, folded node_at_def]
  have "redirected (mem_of ?s) ?node i q" using sh by simp
  then obtain p' s1 where r: "OutputRedirect sys ?node pipes ?s = Some (p', s1)" "quiet_step ?s s1" "p' = None \<longleftrightarrow> pipes = None"
    using OutputRedirect_quiet [of ?s ?node i q pipes sys] sh by auto
  have n1: "node_at s1 j = node_at s j" "mem_of s1 = mem_of s" for j using r(2) by (simp_all add: quiet_step_def node_at_def mem_of_def)
  have "no_pipe_flags (params (node_at s (Suc k)))" using sh node_count_pos [of c] by (simp add: clean_def)
  then have "tree_at s1 (k + 1) c p'" unfolding tree_at_def
    using sh r(2) by (simp add: n1 clean_def) (simp add: quiet_step_def)
  from IH [OF this] obtain p2 s2 where s2: "ExecuteCommand sys g (k + 1) p' s1 = Some (p2, s2)"
    "started (log s2) = started (log s1) @ programs sys c" unfolding tree_runs_def by blast
  have "ExecuteTPAR sys (ExecuteCommand sys g) k pipes s = Some (add_event Awaited (after_child s s2))"
    using sh fork s2(1) by (simp add: ExecuteTPAR_def r(1) nat_add_distrib)
  then show ?thesis using sh s2(2) r(2) unfolding tree_runs_def
    by (simp add: executed_def quiet_step_def TLST_def TFIL_def TPAR_def TCOM_def)
qed

lemma tree_at_later:
  assumes "shape (mem_of s) (commandNodes (tree s)) j c" "executed k n s s'" "k + n \<le> j" "j + node_count c \<le> hi" "hi \<le> 50"
    "length (commandNodes (tree s)) = 50" "clean s j hi"
  shows "tree_at s' j c pipes" "clean s' j hi"
proof -
  have same: "node_at s' i = node_at s i" if "j \<le> i" for i using assms(2,3) that by (simp add: executed_def)
  show c: "clean s' j hi" using assms(7) by (simp add: clean_def same)
  have "but_params (commandNodes (tree s)) (commandNodes (tree s')) j (j + node_count c)"
    using same by (simp add: but_params_def node_at_def)
  then have "shape (mem_of s) (commandNodes (tree s')) j c" by (rule shape_but_params) (use assms(1) in simp_all)
  then show "tree_at s' j c pipes" using assms c node_count_pos [of c] by (auto simp: tree_at_def executed_def clean_def)
qed

lemma runs_TLST:
  assumes IHa: "\<And>s pipes. tree_at s (k + 1) a pipes \<Longrightarrow> tree_runs sys g (k + 1) a pipes s"
    and IHb: "\<And>s pipes. tree_at s (k + 1 + node_count a) b pipes \<Longrightarrow> tree_runs sys g (k + 1 + node_count a) b pipes s"
    and t: "tree_at s k (Seq a bg b) pipes"
  shows "tree_runs sys (Suc g) k (Seq a bg b) pipes s"
proof -
  note sh = t [unfolded tree_at_def, simplified, folded node_at_def]
  have cl: "clean s (Suc k) (Suc (k + node_count a))" "clean s (Suc (k + node_count a)) (Suc (k + node_count a + node_count b))"
    using sh by (simp_all add: clean_def)
  have ta: "tree_at s (k + 1) a pipes"
    using sh cl(1) node_count_pos [of a] by (auto simp: tree_at_def clean_def)
  from IHa [OF ta] obtain p1 s1 where s1: "ExecuteCommand sys g (Suc k) pipes s = Some (p1, s1)" "p1 = None \<longleftrightarrow> pipes = None"
    "started (log s1) = started (log s) @ programs sys a" "executed (Suc k) (node_count a) s s1" unfolding tree_runs_def by auto
  have tb: "tree_at s1 (k + 1 + node_count a) b p1"
    by (rule tree_at_later(1) [OF _ s1(4), where hi = "Suc (k + node_count a + node_count b)"]) (use sh cl(2) in simp_all)
  from IHb [OF tb] obtain p2 s2 where s2: "ExecuteCommand sys g (Suc (k + node_count a)) p1 s1 = Some (p2, s2)" "p2 = None \<longleftrightarrow> p1 = None"
    "started (log s2) = started (log s1) @ programs sys b" "executed (Suc (k + node_count a)) (node_count b) s1 s2" unfolding tree_runs_def by auto
  have n1: "node_at s1 k = node_at s k" using s1(4) by (simp add: executed_def)
  have "ExecuteTLST (ExecuteCommand sys g) k pipes s = Some (p2, s2)"
    using sh s1(1) s2(1) by (simp add: ExecuteTLST_def n1 nat_add_distrib)
  moreover have "executed k (node_count (Seq a bg b)) s s2" using s1(4) s2(4) by (auto simp: executed_def)
  ultimately show ?thesis using sh s1(2,3) s2(2,3) unfolding tree_runs_def by (simp add: TLST_def)
qed

lemma runs_TLST_last:
  assumes IHa: "\<And>s pipes. tree_at s (k + 1) a pipes \<Longrightarrow> tree_runs sys g (k + 1) a pipes s" and t: "tree_at s k (Ended a bg) pipes"
  shows "tree_runs sys (Suc g) k (Ended a bg) pipes s"
proof -
  note sh = t [unfolded tree_at_def, simplified, folded node_at_def]
  have ta: "tree_at s (k + 1) a pipes"
    using sh node_count_pos [of a] by (auto simp: tree_at_def clean_def)
  from IHa [OF ta] obtain p1 s1 where s1: "ExecuteCommand sys g (Suc k) pipes s = Some (p1, s1)" "p1 = None \<longleftrightarrow> pipes = None"
    "started (log s1) = started (log s) @ programs sys a" "executed (Suc k) (node_count a) s s1" unfolding tree_runs_def by auto
  have n1: "node_at s1 k = node_at s k" using s1(4) by (simp add: executed_def)
  have "ExecuteTLST (ExecuteCommand sys g) k pipes s = Some (p1, s1)"
    using sh s1(1) by (simp add: ExecuteTLST_def n1 nat_add_distrib)
  moreover have "executed k (node_count (Ended a bg)) s s1" using s1(4) by (auto simp: executed_def)
  ultimately show ?thesis using sh s1(2,3) unfolding tree_runs_def by (simp add: TLST_def)
qed

lemma sys_pipe_keeps:
  "tree (snd (sys_pipe sys s)) = tree s" "argsCnt (snd (sys_pipe sys s)) = argsCnt s" "log (snd (sys_pipe sys s)) = log s"
  by (simp_all add: sys_pipe_def Let_def split: prod.split)

lemma runs_TFIL:
  assumes IHa: "\<And>s pipes. tree_at s (k + 1) a pipes \<Longrightarrow> tree_runs sys g (k + 1) a pipes s"
    and IHb: "\<And>s pipes. tree_at s (k + 1 + node_count a) b pipes \<Longrightarrow> tree_runs sys g (k + 1 + node_count a) b pipes s"
    and t: "tree_at s k (Pipe a b) pipes"
  shows "tree_runs sys (Suc g) k (Pipe a b) pipes s"
proof -
  let ?hi = "Suc (k + node_count a + node_count b)" and ?j = "Suc (k + node_count a)"
  obtain np s0 where s0: "sys_pipe sys s = (np, s0)" "tree s0 = tree s" "argsCnt s0 = argsCnt s" "log s0 = log s"
    using sys_pipe_keeps [of sys s] by (cases "sys_pipe sys s") auto
  have n0: "node_at s0 i = node_at s i" "mem_of s0 = mem_of s" for i using s0(2) by (simp_all add: node_at_def mem_of_def)
  note sh = t [unfolded tree_at_def, simplified, folded node_at_def]
  have pos: "0 < node_count a" "0 < node_count b" by (rule node_count_pos)+
  define f where "f = (if params (node_at s k) AND FPIN \<noteq> 0 then FPOU OR FPIN OR FAND else FPOU)"
  let ?sa = "set_params (Suc k) f s0"
  have na: "node_at ?sa i = (if i = Suc k then (node_at s (Suc k))\<lparr>params := params (node_at s (Suc k)) OR f\<rparr> else node_at s i)" for i
    using sh pos by (simp add: node_set_params n0 s0(2))
  have bp: "but_params (commandNodes (tree s)) (commandNodes (tree ?sa)) (Suc k) ?hi"
    using na by (simp add: but_params_def node_at_def [symmetric])
  have sha: "shape (mem_of ?sa) (commandNodes (tree ?sa)) (Suc k) a" "shape (mem_of ?sa) (commandNodes (tree ?sa)) ?j b"
    using sh shape_but_params [OF bp] by (simp_all add: n0)
  have ca: "clean ?sa (Suc (Suc k)) ?hi" using sh by (auto simp: clean_def na)
  have ta: "tree_at ?sa (k + 1) a (Some p)" for p using sh sha(1) ca s0(2) by (simp add: tree_at_def clean_def)
  have later: "tree_at (set_params ?j h s1) ?j b (Some p)" if e: "executed (Suc k) (node_count a) ?sa s1" for h s1 p
  proof -
    have clb: "clean ?sa ?j ?hi" using ca pos by (simp add: clean_def)
    have t1: "tree_at s1 ?j b (Some p)" "clean s1 ?j ?hi" by (rule tree_at_later [OF sha(2) e _ _ _ _ clb]; use sh s0(2) in simp)+
    have l1: "length (commandNodes (tree s1)) = 50" using t1(1) by (simp add: tree_at_def)
    have nb: "node_at (set_params ?j h s1) i = (if i = ?j then (node_at s1 ?j)\<lparr>params := params (node_at s1 ?j) OR h\<rparr> else node_at s1 i)" for i
      using sh pos l1 by (simp add: node_set_params)
    have "but_params (commandNodes (tree s1)) (commandNodes (tree (set_params ?j h s1))) ?j ?hi"
      using nb by (simp add: but_params_def node_at_def [symmetric])
    then have "shape (mem_of s1) (commandNodes (tree (set_params ?j h s1))) ?j b"
      by (rule shape_but_params) (use t1(1) in \<open>simp_all add: tree_at_def\<close>)
    then show ?thesis using t1 l1 by (simp add: tree_at_def clean_def nb)
  qed
  have right: "\<exists>p2 s2. ExecuteCommand sys g ?j (Some p) (set_params ?j h s1) = Some (p2, s2) \<and>
      started (log s2) = started (log s1) @ programs sys b \<and> executed k (node_count (Pipe a b)) s s2"
    if e: "executed (Suc k) (node_count a) ?sa s1" for h s1 p
  proof -
    from IHb [of "set_params ?j h s1" "Some p"] later [OF e] obtain p2 s2 where r: "ExecuteCommand sys g ?j (Some p) (set_params ?j h s1) = Some (p2, s2)"
      "started (log s2) = started (log s1) @ programs sys b" "executed ?j (node_count b) (set_params ?j h s1) s2" unfolding tree_runs_def by auto
    have l1: "length (commandNodes (tree s1)) = 50" using e sh s0(2) by (simp add: executed_def)
    have "node_at s2 i = node_at s i" if "i < k \<or> k + node_count (Pipe a b) \<le> i" for i
      using r(3) e that l1 sh pos na [of i] by (auto simp: executed_def node_set_params)
    then have "executed k (node_count (Pipe a b)) s s2" using r(3) e by (simp add: executed_def n0 s0(2,3))
    then show ?thesis using r(1,2) by blast
  qed
  have start: "\<exists>p1 s1. ExecuteCommand sys g (Suc k) (Some p) ?sa = Some (Some p1, s1) \<and>
      started (log s1) = started (log s) @ programs sys a \<and> executed (Suc k) (node_count a) ?sa s1" for p
  proof -
    from IHa [OF ta [of p]] obtain p' s1 where r: "ExecuteCommand sys g (k + 1) (Some p) ?sa = Some (p', s1)" "p' = None \<longleftrightarrow> Some p = None"
      "started (log s1) = started (log ?sa) @ programs sys a" "executed (k + 1) (node_count a) ?sa s1" unfolding tree_runs_def by blast
    then show ?thesis by (cases p') (simp_all add: s0(4))
  qed
  have lk: "left (node_at s k) = 1 + int k" "right (node_at s k) = int ?j" "commandType (node_at s k) = TFIL" using sh by simp_all
  show ?thesis
  proof (cases "params (node_at s k) AND FPIN = 0")
    case True
    obtain p1 s1 where s1: "ExecuteCommand sys g (Suc k) (Some np) ?sa = Some (Some p1, s1)"
      "started (log s1) = started (log s) @ programs sys a" "executed (Suc k) (node_count a) ?sa s1" using start by blast
    obtain p2 s2 where s2: "ExecuteCommand sys g ?j (Some p1) (set_params ?j (FPIN OR FAND) s1) = Some (p2, s2)"
      "started (log s2) = started (log s1) @ programs sys b" "executed k (node_count (Pipe a b)) s s2" using right [OF s1(3)] by blast
    have "ExecuteTFIL sys (ExecuteCommand sys g) k pipes s = Some (pipes, s2)"
      using True s1(1) s2(1) by (simp add: ExecuteTFIL_def s0(1) n0 lk f_def nat_add_distrib)
    then show ?thesis using s1(2) s2(2,3) sh lk unfolding tree_runs_def by (simp add: TFIL_def TLST_def)
  next
    case False
    then obtain r w where pw: "pipes = Some (r, w)" using sh by (cases pipes) (auto simp: no_pipe_flags_def)
    obtain p1 s1 where s1: "ExecuteCommand sys g (Suc k) (Some (r, snd np)) ?sa = Some (Some p1, s1)"
      "started (log s1) = started (log s) @ programs sys a" "executed (Suc k) (node_count a) ?sa s1" using start by blast
    obtain p2 s2 where s2: "ExecuteCommand sys g ?j (Some np) (set_params ?j (FPIN OR FAND) s1) = Some (p2, s2)"
      "started (log s2) = started (log s1) @ programs sys b" "executed k (node_count (Pipe a b)) s s2" using right [OF s1(3)] by blast
    have "ExecuteTFIL sys (ExecuteCommand sys g) k pipes s = Some (Some p1, s2)"
      using False s1(1) s2(1) by (simp add: ExecuteTFIL_def s0(1) n0 lk f_def pw nat_add_distrib)
    then show ?thesis using s1(2) s2(2,3) sh lk pw unfolding tree_runs_def by (simp add: TFIL_def TLST_def)
  qed
qed

lemma ExecuteCommand_runs:
  "tree_at s k c pipes \<Longrightarrow> no_cd c \<Longrightarrow> \<forall>j. can_fork sys j \<Longrightarrow> node_count c \<le> fuel \<Longrightarrow> tree_runs sys fuel k c pipes s"
proof (induction c arbitrary: s k pipes fuel)
  case (Com n ws i q)
  then show ?case using runs_TCOM by simp
next
  case (Par c i q)
  obtain g where g: "fuel = Suc g" "node_count c \<le> g" using Par.prems(4) by (cases fuel) auto
  show ?case unfolding g(1) by (rule runs_TPAR [OF Par.IH Par.prems(1,3)]) (use Par.prems g in simp_all)
next
  case (Pipe a b)
  obtain g where g: "fuel = Suc g" "node_count a \<le> g" "node_count b \<le> g" using Pipe.prems(4) by (cases fuel) auto
  show ?case unfolding g(1) by (rule runs_TFIL [OF Pipe.IH Pipe.prems(1)]) (use Pipe.prems g in simp_all)
next
  case (Ended a bg)
  obtain g where g: "fuel = Suc g" "node_count a \<le> g" using Ended.prems(4) by (cases fuel) auto
  show ?case unfolding g(1) by (rule runs_TLST_last [OF Ended.IH Ended.prems(1)]) (use Ended.prems g in simp_all)
next
  case (Seq a bg b)
  obtain g where g: "fuel = Suc g" "node_count a \<le> g" "node_count b \<le> g" using Seq.prems(4) by (cases fuel) auto
  show ?case unfolding g(1) by (rule runs_TLST [OF Seq.IH Seq.prems(1)]) (use Seq.prems g in simp_all)
qed

lemma represents_clean:
  "represents m ns k par c \<Longrightarrow> k \<le> i \<Longrightarrow> i < k + node_count c \<Longrightarrow> no_pipe_flags (params (ns ! i))"
proof (induction c arbitrary: k par)
  case (Com n ws r q)
  have "i = k" using Com.prems by simp
  moreover have "append_flag q = FCAT \<or> append_flag q = 0" by (simp add: append_flag_def split: option.split prod.split bool.split)
  ultimately show ?case using Com.prems(1)
    by (cases "par AND FPAR = 0"; cases "par AND FAND = 0") (auto simp: no_pipe_flags_def node_flags)
next
  case (Par c r q)
  have a: "append_flag q = FCAT \<or> append_flag q = 0" by (simp add: append_flag_def split: option.split prod.split bool.split)
  show ?case
  proof (cases "i = k")
    case True
    then show ?thesis using Par.prems(1) a by (auto simp: no_pipe_flags_def node_flags)
  next
    case False
    then show ?thesis using Par.IH [of "k + 1" FPAR] Par.prems by simp
  qed
next
  case (Pipe a b)
  then consider "i = k" | "k + 1 \<le> i" "i < k + 1 + node_count a" | "k + 1 + node_count a \<le> i" "i < k + 1 + node_count a + node_count b" by fastforce
  then show ?case
    by cases (use Pipe.prems(1) Pipe.IH(1) [of "k + 1" 0] Pipe.IH(2) [of "k + 1 + node_count a" par] in \<open>simp_all add: no_pipe_flags_def\<close>)
next
  case (Ended a bg)
  then consider "i = k" | "k + 1 \<le> i" "i < k + 1 + node_count a" by fastforce
  then show ?case
    by cases (use Ended.prems(1) Ended.IH [of "k + 1" "if bg then par OR FAND else par"] in \<open>simp_all add: no_pipe_flags_def\<close>)
next
  case (Seq a bg b)
  let ?par = "if bg then par OR FAND else par"
  consider "i = k" | "k + 1 \<le> i" "i < k + 1 + node_count a" | "k + 1 + node_count a \<le> i" "i < k + 1 + node_count a + node_count b"
    using Seq.prems(2,3) by fastforce
  then show ?case
    by cases (use Seq.prems(1) Seq.IH(1) [of "k + 1" ?par] Seq.IH(2) [of "k + 1 + node_count a" "?par AND NOT FAND"] in \<open>simp_all add: no_pipe_flags_def\<close>)
qed

text \<open>
  The calls of \<open>wait\<close> are numbered as they come; at the first one that does not return the shell, or the child
  of it that waits and with it the shell, stops, and what is behind it in the log does not happen.
\<close>

fun until_stuck :: "(nat \<Rightarrow> bool) \<Rightarrow> nat \<Rightarrow> event list \<Rightarrow> event list" where
  "until_stuck returns n [] = []"
| "until_stuck returns n (e # es) =
     (if e = Awaited then if returns n then e # until_stuck returns (Suc n) es else []
      else e # until_stuck returns n es)"

lemma until_stuck_prefix: "prefix (started (until_stuck returns n es)) (started es)"
  by (induction returns n es rule: until_stuck.induct) (auto simp: started_def)



definition demo_system :: system where
  "demo_system = \<lparr>can_open = (\<lambda>f. True), can_creat = (\<lambda>f. True), can_exec = (\<lambda>f. hd f = 47), can_chdir = (\<lambda>f. True),
     can_fork = (\<lambda>j. True), stale_pipe = (0, 0)\<rparr>"

definition demo_shell_run :: run where
  "demo_shell_run = \<lparr>tree = demo_shell, argsCnt = 0, fds = [Some Terminal, Some Terminal] @ replicate 13 None, forks = 0, pipe_count = 0, log = []\<rparr>"


end
