(* ===== verification/ShellPipe.thy ===== *)
theory ShellPipe
  imports ShellRun
begin

text \<open>
  Pipelines: which streams the programs get as their standard input and output, for which of them the shell waits, and which
  descriptors stay open in the shell.
\<close>

section \<open>Descriptors of a child\<close>

lemma open_fd_update:
  "0 \<le> fd \<Longrightarrow> open_fd fd (t[j := x]) = (if nat fd = j \<and> j < length t then x else open_fd fd t)"
  by (auto simp: open_fd_def nth_list_update)

lemma sys_close_nth: "0 \<le> fd \<Longrightarrow> i < length t \<Longrightarrow> sys_close fd t ! i = (if int i = fd then None else t ! i)"
  by (auto simp: sys_close_def open_fd_def nth_list_update)

lemma length_sys_close [simp]: "length (sys_close fd t) = length t"
  by (simp add: sys_close_def)

lemma find_upt:
  assumes "j < n" "P j" "\<forall>i < j. \<not> P i"
  shows "List.find P [0..<n] = Some j"
  using assms by (subst find_Some_iff) (rule exI [of _ j], simp)

lemma free_slot_first: "j < length t \<Longrightarrow> t ! j = None \<Longrightarrow> \<forall>i < j. t ! i \<noteq> None \<Longrightarrow> free_slot t = Some j"
  unfolding free_slot_def by (rule find_upt) simp_all

text \<open>\<open>close(to); dup(fd); close(fd)\<close> for \<open>to\<close> 0 or 1, when the lower descriptors are open.\<close>

lemma move_fd_to:
  assumes len: "length (fds s) = 15" and fd: "open_fd fd (fds s) = Some x" "2 \<le> fd" and to: "to < 2" "\<forall>i < to. fds s ! i \<noteq> None"
  shows "fds (move_fd fd (int to) s) = (fds s)[to := Some x, nat fd := None]"
proof -
  let ?t = "sys_close (int to) (fds s)"
  have fdl: "nat fd < 15" "0 \<le> fd" "fd < 15" using fd len by (auto simp: open_fd_def split: if_splits)
  have "open_fd fd ?t = Some x" using fd to fdl len by (simp add: open_fd_def sys_close_nth)
  moreover have "free_slot ?t = Some to"
    by (rule free_slot_first) (use to len in \<open>simp_all add: sys_close_nth\<close>)
  ultimately have dup: "snd (sys_dup fd ?t) = ?t[to := Some x]" by (simp add: sys_dup_def sys_new_def)
  have cl: "?t[to := Some x] = (fds s)[to := Some x]"
    by (rule nth_equalityI) (use to len in \<open>simp_all add: sys_close_nth nth_list_update\<close>)
  have "open_fd fd ((fds s)[to := Some x]) = Some x" using fd to fdl by (simp add: open_fd_update)
  then have "sys_close fd ((fds s)[to := Some x]) = (fds s)[to := Some x, nat fd := None]" by (simp add: sys_close_def)
  moreover have "fds (move_fd fd (int to) s) = sys_close fd (snd (sys_dup fd ?t))" by (simp add: move_fd_def)
  ultimately show ?thesis by (simp only: dup cl)
qed

text \<open>The descriptors 0 and 1 that the program of a simple command without redirections gets.\<close>

definition input_stream :: "commandNode \<Rightarrow> (int \<times> int) option \<Rightarrow> stream option list \<Rightarrow> stream option" where
  "input_stream node pipes t = (if params node AND FPIN \<noteq> 0 then open_fd (fst (the pipes)) t else t ! 0)"

definition output_stream :: "commandNode \<Rightarrow> (int \<times> int) option \<Rightarrow> stream option list \<Rightarrow> stream option" where
  "output_stream node pipes t = (if params node AND FPOU \<noteq> 0 then open_fd (snd (the pipes)) t else t ! 1)"

definition pipes_ok :: "commandNode \<Rightarrow> (int \<times> int) option \<Rightarrow> stream option list \<Rightarrow> bool" where
  "pipes_ok node pipes t \<longleftrightarrow> length t = 15 \<and> t ! 0 \<noteq> None \<and> t ! 1 \<noteq> None \<and>
     (case pipes of None \<Rightarrow> no_pipe_flags (params node)
      | Some (r, w) \<Rightarrow> 2 \<le> r \<and> 2 \<le> w \<and> r \<noteq> w \<and> (params node AND FPIN \<noteq> 0 \<longrightarrow> open_fd r t \<noteq> None) \<and> (params node AND FPOU \<noteq> 0 \<longrightarrow> open_fd w t \<noteq> None))"

lemma OutputRedirect_streams:
  assumes ok: "pipes_ok node pipes (fds s)" and none: "fin node = 0" "fout node = 0"
  shows "\<exists>p' s'. OutputRedirect sys node pipes s = Some (p', s') \<and> s' = s\<lparr>fds := fds s'\<rparr> \<and>
    fds s' ! 0 = input_stream node pipes (fds s) \<and> fds s' ! 1 = output_stream node pipes (fds s)"
proof (cases pipes)
  case None
  then show ?thesis using ok none
    by (auto simp: OutputRedirect_def redirect_def pipes_ok_def no_pipe_flags_def input_stream_def output_stream_def)
next
  case (Some rw)
  obtain r w where p: "pipes = Some (r, w)" using Some by (cases rw) auto
  have rw: "2 \<le> r" "2 \<le> w" "r \<noteq> w" "length (fds s) = 15" "fds s ! 0 \<noteq> None" "fds s ! 1 \<noteq> None" using ok by (simp_all add: pipes_ok_def p)
  define s1 where "s1 = (if params node AND FPIN \<noteq> 0 then move_fd r 0 s else s)"
  define s2 where "s2 = (if params node AND FPOU \<noteq> 0 then move_fd w 1 s1 else s1)"
  have f1: "length (fds s1) = 15" "fds s1 ! 0 = input_stream node pipes (fds s)" "fds s1 ! 0 \<noteq> None" "fds s1 ! 1 = fds s ! 1" "open_fd w (fds s1) = open_fd w (fds s)"
  proof -
    have "length (fds s1) = 15 \<and> fds s1 ! 0 = input_stream node pipes (fds s) \<and> fds s1 ! 0 \<noteq> None \<and> fds s1 ! 1 = fds s ! 1 \<and> open_fd w (fds s1) = open_fd w (fds s)"
    proof (cases "params node AND FPIN \<noteq> 0")
      case True
      then obtain x where x: "open_fd r (fds s) = Some x" using ok by (auto simp: pipes_ok_def p)
      have m: "fds s1 = (fds s)[0 := Some x, nat r := None]" using move_fd_to [OF rw(4) x rw(1), of 0] True by (simp add: s1_def)
      have "nat r \<noteq> 0" "nat r \<noteq> 1" "nat w \<noteq> nat r" "nat w \<noteq> 0" using rw by auto
      then show ?thesis using rw x True by (simp add: m input_stream_def p nth_list_update open_fd_update)
    qed (use rw in \<open>simp add: s1_def input_stream_def\<close>)
    then show "length (fds s1) = 15" "fds s1 ! 0 = input_stream node pipes (fds s)" "fds s1 ! 0 \<noteq> None" "fds s1 ! 1 = fds s ! 1"
      "open_fd w (fds s1) = open_fd w (fds s)" by blast+
  qed
  have f2: "length (fds s2) = 15 \<and> fds s2 ! 0 = fds s1 ! 0 \<and> fds s2 ! 1 = output_stream node pipes (fds s)"
  proof (cases "params node AND FPOU \<noteq> 0")
    case True
    then obtain x where x: "open_fd w (fds s1) = Some x" using ok f1(5) by (auto simp: pipes_ok_def p)
    have m: "fds s2 = (fds s1)[1 := Some x, nat w := None]" using move_fd_to [OF f1(1) x rw(2), of 1] True f1(3) by (simp add: s2_def)
    have "nat w \<noteq> 0" "nat w \<noteq> 1" using rw by auto
    then show ?thesis using f1(1,5) x True by (simp add: m output_stream_def p nth_list_update)
  qed (use f1 in \<open>simp add: s2_def output_stream_def\<close>)
  define r' where "r' = (if params node AND FPIN \<noteq> 0 then -1 else r)"
  define w' where "w' = (if params node AND FPOU \<noteq> 0 then -1 else w)"
  define t where "t = (if r' \<ge> 0 then sys_close r' (fds s2) else fds s2)"
  define t' where "t' = (if w' \<ge> 0 then sys_close w' t else t)"
  have "OutputRedirect sys node pipes s = Some (Some (r', w'), s2\<lparr>fds := t'\<rparr>)"
    using none by (simp add: OutputRedirect_def redirect_def p s1_def s2_def r'_def w'_def t_def t'_def Let_def)
  moreover have "t' ! i = fds s2 ! i" if "i < 2" for i
    using f2 rw that by (simp add: t'_def t_def sys_close_nth w'_def r'_def)
  then have "t' ! 0 = fds s2 ! 0" "t' ! 1 = fds s2 ! 1" by simp_all
  moreover have "s2\<lparr>fds := t'\<rparr> = s\<lparr>fds := t'\<rparr>" by (simp add: s2_def s1_def move_fd_def)
  ultimately show ?thesis using f1(2) f2 by auto
qed

section \<open>Pipes\<close>

definition free_count :: "stream option list \<Rightarrow> nat" where
  "free_count t = card {i. i < length t \<and> t ! i = None}"

lemma free_count_take:
  assumes "j < length t" "t ! j = None"
  shows "free_count (t[j := Some x]) + 1 = free_count t"
proof -
  let ?A = "{i. i < length t \<and> t ! i = None}"
  have "{i. i < length (t[j := Some x]) \<and> t[j := Some x] ! i = None} = ?A - {j}"
    using assms by (auto simp: nth_list_update split: if_splits)
  then have "free_count (t[j := Some x]) = card (?A - {j})" by (simp add: free_count_def)
  moreover have "Suc (card (?A - {j})) = card ?A" by (rule card_Suc_Diff1) (use assms in simp_all)
  ultimately show ?thesis by (simp add: free_count_def)
qed

lemma free_slot_some:
  assumes "0 < free_count t"
  obtains j where "free_slot t = Some j" "j < length t" "t ! j = None"
proof -
  have "\<exists>i < length t. t ! i = None"
  proof (rule ccontr)
    assume "\<not> (\<exists>i < length t. t ! i = None)"
    then have e: "{i. i < length t \<and> t ! i = None} = {}" by blast
    show False using assms unfolding free_count_def e by simp
  qed
  then have "free_slot t \<noteq> None" using find_None_iff [of "\<lambda>i. t ! i = None" "[0..<length t]"] unfolding free_slot_def by simp
  then obtain j where j: "free_slot t = Some j" by blast
  then have "j < length t \<and> t ! j = None" using find_Some_iff [of "\<lambda>i. t ! i = None" "[0..<length t]" j] unfolding free_slot_def by fastforce
  then show ?thesis using that j by blast
qed

lemma sys_pipe_new:
  assumes free: "2 \<le> free_count (fds s)" and t: "length (fds s) = 15" "fds s ! 0 \<noteq> None" "fds s ! 1 \<noteq> None"
  shows "\<exists>r w. sys_pipe sys s = ((int r, int w), s\<lparr>fds := (fds s)[r := Some (ReadEnd (pipe_count s)), w := Some (WriteEnd (pipe_count s))], pipe_count := Suc (pipe_count s)\<rparr>) \<and>
    2 \<le> r \<and> r < 15 \<and> 2 \<le> w \<and> w < 15 \<and> r \<noteq> w \<and> fds s ! r = None \<and> fds s ! w = None \<and>
    free_count ((fds s)[r := Some (ReadEnd (pipe_count s)), w := Some (WriteEnd (pipe_count s))]) + 2 = free_count (fds s)"
proof -
  have low: "2 \<le> j" if "fds s ! j = None" for j using t(2,3) that by (cases j; cases "j - 1") auto
  obtain r where r: "free_slot (fds s) = Some r" "r < 15" "fds s ! r = None" using free_slot_some [of "fds s"] free t(1) by auto
  let ?t = "(fds s)[r := Some (ReadEnd (pipe_count s))]"
  have c1: "free_count ?t + 1 = free_count (fds s)" using free_count_take [of r "fds s"] r t(1) by simp
  obtain w where w: "free_slot ?t = Some w" "w < 15" "?t ! w = None" using free_slot_some [of ?t] c1 free t(1) by auto
  have rw: "w \<noteq> r" "fds s ! w = None" using w r t(1) by (auto simp: nth_list_update split: if_splits)
  have c2: "free_count (?t[w := Some (WriteEnd (pipe_count s))]) + 1 = free_count ?t" using free_count_take [of w ?t] w t(1) by simp
  have "sys_pipe sys s = ((int r, int w), s\<lparr>fds := ?t[w := Some (WriteEnd (pipe_count s))], pipe_count := Suc (pipe_count s)\<rparr>)"
    by (simp add: sys_pipe_def sys_new_def r(1) w(1) Let_def)
  then show ?thesis using r w(2) rw low c1 c2 by (intro exI [of _ r] exI [of _ w]) auto
qed

section \<open>Pipelines\<close>

fun pipe_chain :: "(token \<times> token list) list \<Rightarrow> command" where
  "pipe_chain [] = Com [] [] None None"
| "pipe_chain [(n, ws)] = Com n ws None None"
| "pipe_chain ((n, ws) # x # r) = Pipe (Com n ws None None) (pipe_chain (x # r))"

definition path_of :: "system \<Rightarrow> token \<Rightarrow> token" where
  "path_of sys n = (if can_exec sys (base_name n) then base_name n else bin_path (base_name n))"

definition executable :: "system \<Rightarrow> (token \<times> token list) list \<Rightarrow> bool" where
  "executable sys cs \<longleftrightarrow> (\<forall>(n, ws) \<in> set cs. n \<noteq> [99, 100] \<and> (can_exec sys (base_name n) \<or> can_exec sys (bin_path (base_name n))))"

text \<open>Program, arguments, standard input and standard output of the members, with pipes numbered from \<open>k\<close>.\<close>

type_synonym launch = "token \<times> token list \<times> stream option \<times> stream option"

fun wiring :: "system \<Rightarrow> nat \<Rightarrow> stream \<Rightarrow> stream \<Rightarrow> (token \<times> token list) list \<Rightarrow> launch list" where
  "wiring sys k i out [] = []"
| "wiring sys k i out [(n, ws)] = [(path_of sys n, base_name n # ws, Some i, Some out)]"
| "wiring sys k i out ((n, ws) # x # r) = (path_of sys n, base_name n # ws, Some i, Some (WriteEnd k)) # wiring sys (k + 1) (ReadEnd k) out (x # r)"

text \<open>The launches of a history, \<open>None\<close> for the other events: here the waits of the shell.\<close>

definition trace :: "event list \<Rightarrow> launch option list" where
  "trace es = map (\<lambda>e. case e of Started p as t \<Rightarrow> Some (p, as, t ! 0, t ! 1) | _ \<Rightarrow> None) es"

lemma trace_simps [simp]: "trace [] = []" "trace (xs @ ys) = trace xs @ trace ys"
  "trace (Started p as t # es) = Some (p, as, t ! 0, t ! 1) # trace es" "trace (Awaited # es) = None # trace es"
  by (simp_all add: trace_def)

lemma TCOM_wired:
  assumes sh: "shape (mem_of s) (commandNodes (tree s)) k (Com n ws None None)" "k < 50" and ex: "executable sys [(n, ws)]" and fork: "\<forall>j. can_fork sys j"
    and p: "pipes_ok (node_at s k) pipes (fds s)"
  shows "\<exists>s'. ExecuteCommand sys (Suc g) k pipes s = Some (pipes, s') \<and> tree s' = tree s \<and> fds s' = fds s \<and> pipe_count s' = pipe_count s \<and>
    trace (log s') = trace (log s) @ [Some (path_of sys n, base_name n # ws, input_stream (node_at s k) pipes (fds s), output_stream (node_at s k) pipes (fds s))] @
      (if params (node_at s k) AND FAND = 0 then [None] else [])"
proof -
  let ?node = "node_at s k" and ?s = "s\<lparr>forks := Suc (forks s)\<rparr>"
  note sh' = sh [simplified, folded node_at_def]
  have name: "read_string (mem_of s) (commandName ?node) = Some n" using sh' by (simp add: string_at_def read_string_at)
  have "pipes_ok ?node pipes (fds ?s)" "fin ?node = 0" "fout ?node = 0" using p sh' by (simp_all add: redirected_def string_or_null_def)
  then obtain p' s1 where r: "OutputRedirect sys ?node pipes ?s = Some (p', s1)" "s1 = ?s\<lparr>fds := fds s1\<rparr>"
    "fds s1 ! 0 = input_stream ?node pipes (fds s)" "fds s1 ! 1 = output_stream ?node pipes (fds s)"
    using OutputRedirect_streams [of ?node pipes ?s sys] by auto
  have s1: "mem_of s1 = mem_of s" "log s1 = log s" "tree s1 = tree s" "pipe_count s1 = pipe_count s" by (subst r(2), simp)+
  have a0: "read_string (mem_of s1) (node_args ?node ! 0) = Some (base_name n)" using sh' by (simp add: s1 string_at_def read_string_at)
  have av: "read_args (mem_of s1) (node_args ?node) = Some (base_name n # ws)"
  proof (rule read_args_list)
    show "\<forall>j < length (base_name n # ws). string_at (mem_of s1) (node_args ?node ! j) ((base_name n # ws) ! j)"
      using sh' by (auto simp: s1 nth_Cons split: nat.split)
  qed (use sh' in simp_all)
  let ?e = "Started (path_of sys n) (base_name n # ws) (fds s1)"
  have rp: "run_program sys ?node pipes ?s = Some (add_event ?e s1)"
    using ex by (auto simp: run_program_def r(1) a0 av path_of_def executable_def)
  have "ExecuteTCOM sys k pipes s = Some (if params ?node AND FAND = 0 then add_event Awaited (after_child s (add_event ?e s1)) else after_child s (add_event ?e s1))"
    using ex fork by (simp add: ExecuteTCOM_def name rp Let_def executable_def)
  then show ?thesis using sh' sh(2) r(3,4) s1
    by (simp add: TLST_def TFIL_def TPAR_def TCOM_def after_child_def add_event_def)
qed

text \<open>The node of a pipe with a simple command on its left, when there are two free descriptors.\<close>

lemma node_count_chain: "cs \<noteq> [] \<Longrightarrow> node_count (pipe_chain cs) + 1 = 2 * length cs"
  by (induction cs rule: pipe_chain.induct) auto

definition unset :: "run \<Rightarrow> nat \<Rightarrow> nat \<Rightarrow> bool" where
  "unset s lo hi \<longleftrightarrow> (\<forall>i. lo \<le> i \<and> i < hi \<longrightarrow> params (node_at s i) = 0)"

definition std_open :: "stream option list \<Rightarrow> stream \<Rightarrow> bool" where
  "std_open t out \<longleftrightarrow> length t = 15 \<and> t ! 0 \<noteq> None \<and> t ! 1 = Some out"

lemma shape_set_params: "shape m (commandNodes (tree s)) k c \<Longrightarrow> j < length (commandNodes (tree s)) \<Longrightarrow>
  shape m (commandNodes (tree (set_params j f s))) k c"
  by (rule shape_but_params [where lo = k and hi = "k + node_count c"])
    (auto simp: but_params_def set_params_def node_at_def nth_list_update)

lemma flag_bits: "FPIN AND FPIN = FPIN" "FPOU AND FPIN = 0" "FPOU AND FPOU = FPOU" "FPIN AND FPOU = 0" "FPIN \<noteq> 0" "FPOU \<noteq> 0"
  "(FPIN OR FAND) AND FPIN = FPIN" "(FPIN OR FAND) AND FPOU = 0" "(FPIN OR FAND) AND FAND = FAND" "FAND \<noteq> 0"
  "(FPOU OR FPIN OR FAND) AND FPIN = FPIN" "(FPOU OR FPIN OR FAND) AND FPOU = FPOU" "(FPOU OR FPIN OR FAND) AND FAND = FAND" "FPOU AND FAND = 0"
  by (simp_all add: node_flags)

text \<open>A pipeline that reads from a pipe: its first node has the flags that the pipe above has given it.\<close>

lemma chain_wired:
  assumes "cs \<noteq> []" "shape (mem_of s) (commandNodes (tree s)) k (pipe_chain cs)" "k + node_count (pipe_chain cs) \<le> 50" "length (commandNodes (tree s)) = 50"
    "unset s (k + 1) (k + node_count (pipe_chain cs))" "params (node_at s k) = FPIN OR FAND"
    "2 \<le> r" "2 \<le> w" "r \<noteq> w" "open_fd r (fds s) = Some i" "std_open (fds s) out" "2 * (length cs - 1) \<le> free_count (fds s)"
    "executable sys cs" "\<forall>j. can_fork sys j" "node_count (pipe_chain cs) \<le> fuel"
  shows "\<exists>p' s'. ExecuteCommand sys fuel k (Some (r, w)) s = Some (p', s') \<and>
    trace (log s') = trace (log s) @ map Some (wiring sys (pipe_count s) i out cs) \<and> free_count (fds s') + 2 * (length cs - 1) = free_count (fds s)"
  using assms
proof (induction cs arbitrary: k s r w i fuel rule: pipe_chain.induct)
  case 1
  then show ?case by simp
next
  case (2 n ws)
  obtain g where g: "fuel = Suc g" using 2 by (cases fuel) auto
  have p: "pipes_ok (node_at s k) (Some (r, w)) (fds s)" using 2 by (simp add: pipes_ok_def std_open_def flag_bits)
  have k: "k < 50" using 2 by simp
  have sh: "shape (mem_of s) (commandNodes (tree s)) k (Com n ws None None)" using 2 by simp
  obtain s' where s': "ExecuteCommand sys (Suc g) k (Some (r, w)) s = Some (Some (r, w), s')" "fds s' = fds s"
    "trace (log s') = trace (log s) @ [Some (path_of sys n, base_name n # ws, input_stream (node_at s k) (Some (r, w)) (fds s), output_stream (node_at s k) (Some (r, w)) (fds s))] @
      (if params (node_at s k) AND FAND = 0 then [None] else [])" using TCOM_wired [OF sh k 2(13,14) p] by blast
  show ?case unfolding g
    by (intro exI [of _ "Some (r, w)"] exI [of _ s'])
      (use s' 2 in \<open>simp add: input_stream_def output_stream_def flag_bits std_open_def del: ExecuteCommand.simps\<close>)
next
  case (3 n ws x cs)
  let ?a = "Com n ws None None" and ?b = "pipe_chain (x # cs)" and ?j = "Suc (Suc k)"
  obtain g where g: "fuel = Suc g" "node_count ?b \<le> g" "0 < g" using 3(16) by (cases fuel) auto
  obtain h where h: "g = Suc h" using g(3) by (cases g) auto
  note sh = 3(3) [simplified, folded node_at_def]
  have hi: "?j + node_count ?b \<le> 50" using 3(4) by simp
  have std: "length (fds s) = 15" "fds s ! 0 \<noteq> None" "fds s ! 1 = Some out" using 3(12) by (simp_all add: std_open_def)
  have fr: "2 \<le> free_count (fds s)" using 3(13) by simp
  obtain r2 w2 where np: "sys_pipe sys s = ((int r2, int w2), s\<lparr>fds := (fds s)[r2 := Some (ReadEnd (pipe_count s)), w2 := Some (WriteEnd (pipe_count s))], pipe_count := Suc (pipe_count s)\<rparr>)"
    "2 \<le> r2" "r2 < 15" "2 \<le> w2" "w2 < 15" "r2 \<noteq> w2" "fds s ! r2 = None" "fds s ! w2 = None"
    "free_count ((fds s)[r2 := Some (ReadEnd (pipe_count s)), w2 := Some (WriteEnd (pipe_count s))]) + 2 = free_count (fds s)"
    using sys_pipe_new [OF fr std(1,2), of sys] std(3) by auto
  let ?t = "(fds s)[r2 := Some (ReadEnd (pipe_count s)), w2 := Some (WriteEnd (pipe_count s))]"
  let ?s0 = "s\<lparr>fds := ?t, pipe_count := Suc (pipe_count s)\<rparr>"
  let ?sa = "set_params (Suc k) (FPOU OR FPIN OR FAND) ?s0"
  have len: "length (commandNodes (tree ?s0)) = 50" using 3(5) by simp
  have na: "node_at ?sa i = (if i = Suc k then (node_at s (Suc k))\<lparr>params := FPOU OR FPIN OR FAND\<rparr> else node_at s i)" for i
    using len hi 3(6) node_count_pos [of ?b] by (simp add: node_set_params unset_def)
  have r0: "nat r \<noteq> r2" "nat r \<noteq> w2" "r < 15" using 3(11) np(7,8) std(1) by (auto simp: open_fd_def split: if_splits)
  have rr: "open_fd r ?t = Some i" "open_fd (int w2) ?t = Some (WriteEnd (pipe_count s))" "open_fd (int r2) ?t = Some (ReadEnd (pipe_count s))"
    using 3(8,11) r0 np std(1) by (auto simp: open_fd_def nth_list_update)
  have pa: "pipes_ok (node_at ?sa (Suc k)) (Some (r, int w2)) (fds ?sa)"
    using std np rr r0 3(8) by (auto simp: pipes_ok_def na flag_bits nth_list_update)
  have parts: "shape (mem_of s) (commandNodes (tree ?s0)) (Suc k) ?a" "shape (mem_of s) (commandNodes (tree ?s0)) ?j ?b" using 3(3) by simp_all
  have pl: "Suc k < length (commandNodes (tree ?s0))" using len hi by simp
  have sha: "shape (mem_of ?sa) (commandNodes (tree ?sa)) (Suc k) ?a" using shape_set_params [OF parts(1) pl] by simp
  have exa: "executable sys [(n, ws)]" and exb: "executable sys (x # cs)" using 3(14) by (simp_all add: executable_def)
  have k1: "Suc k < 50" using hi by simp
  obtain s1 where s1: "ExecuteCommand sys g (Suc k) (Some (r, int w2)) ?sa = Some (Some (r, int w2), s1)" "tree s1 = tree ?sa" "fds s1 = ?t" "pipe_count s1 = Suc (pipe_count s)"
    "trace (log s1) = trace (log s) @ [Some (path_of sys n, base_name n # ws, Some i, Some (WriteEnd (pipe_count s)))]"
    using TCOM_wired [OF sha k1 exa 3(15) pa, of h] unfolding h
    by (auto simp: na input_stream_def output_stream_def flag_bits rr simp del: ExecuteCommand.simps)
  let ?sb = "set_params ?j (FPIN OR FAND) s1"
  have len1: "length (commandNodes (tree s1)) = 50" using s1(2) len by simp
  have n1: "node_at s1 i = node_at ?sa i" for i by (simp add: node_at_def s1(2))
  have j: "?j < 50" using hi node_count_pos [of ?b] by simp
  have nb: "node_at ?sb i = (if i = ?j then (node_at s ?j)\<lparr>params := FPIN OR FAND\<rparr> else node_at ?sa i)" for i
    using len1 j hi 3(6) node_count_pos [of ?b] by (simp add: node_set_params n1 na unset_def)
  have "mem_of ?sb = mem_of s" using s1(2) by (simp add: mem_of_def set_params_def)
  moreover have "shape (mem_of s) (commandNodes (tree s1)) ?j ?b" unfolding s1(2) by (rule shape_set_params [OF parts(2) pl])
  then have "shape (mem_of s) (commandNodes (tree ?sb)) ?j ?b" by (rule shape_set_params) (use len1 j in simp)
  moreover have "unset ?sb (?j + 1) (?j + node_count ?b)" using 3(6) by (simp add: unset_def nb na)
  moreover have "std_open (fds ?sb) out" using std np s1(3) by (simp add: std_open_def nth_list_update)
  moreover have "2 * (length (x # cs) - 1) \<le> free_count (fds ?sb)" using np(9) 3(13) s1(3) by simp
  moreover have "int r2 \<noteq> int w2" "2 \<le> int r2" "2 \<le> int w2" using np by simp_all
  moreover have "open_fd (int r2) (fds ?sb) = Some (ReadEnd (pipe_count s))" using rr(3) s1(3) by simp
  ultimately obtain p' s2 where s2: "ExecuteCommand sys g ?j (Some (int r2, int w2)) ?sb = Some (p', s2)"
    "trace (log s2) = trace (log ?sb) @ map Some (wiring sys (pipe_count ?sb) (ReadEnd (pipe_count s)) out (x # cs))"
    "free_count (fds s2) + 2 * (length (x # cs) - 1) = free_count (fds ?sb)"
    using 3(1) [of ?sb ?j "int r2" "int w2" "ReadEnd (pipe_count s)" g] hi len1 nb exb 3(15) g(2) by auto
  have "ExecuteTFIL sys (ExecuteCommand sys g) k (Some (r, w)) s = Some (Some (r, int w2), s2)"
    using sh s1(1) s2(1) 3(7) by (simp add: ExecuteTFIL_def np(1) node_at_def flag_bits nat_add_distrib)
  then show ?case using s1(4,5) s2(2,3) np(9) s1(3) sh 3(4) unfolding g(1) by (auto simp: TFIL_def TLST_def)
qed

lemma represents_unset:
  "cs \<noteq> [] \<Longrightarrow> represents m ns k 0 (pipe_chain cs) \<Longrightarrow> k \<le> i \<Longrightarrow> i < k + node_count (pipe_chain cs) \<Longrightarrow> params (ns ! i) = 0"
proof (induction cs arbitrary: k rule: pipe_chain.induct)
  case (2 n ws)
  then have "i = k" by simp
  then show ?case using 2 by (simp add: append_flag_def)
next
  case (3 n ws x r)
  then consider "i = k" | "i = Suc k" | "Suc (Suc k) \<le> i" by linarith
  then show ?case
  proof cases
    case 3
    then show ?thesis using "3.IH" [of "Suc (Suc k)"] "3.prems" by simp
  qed (use 3 in \<open>simp_all add: append_flag_def\<close>)
qed simp

lemma first_chain_wired:
  assumes cs: "cs \<noteq> []" and sh: "shape (mem_of s) (commandNodes (tree s)) 0 (pipe_chain cs)" "node_count (pipe_chain cs) \<le> 50" "length (commandNodes (tree s)) = 50"
    and un: "unset s 0 (node_count (pipe_chain cs))" and std: "std_open (fds s) out" "fds s ! 0 = Some i" and fr: "2 * (length cs - 1) \<le> free_count (fds s)"
    and ex: "executable sys cs" "\<forall>j. can_fork sys j"
  shows "\<exists>p' s'. ExecuteCommand sys 50 0 None s = Some (p', s') \<and>
    trace (log s') = trace (log s) @ map Some (take 1 (wiring sys (pipe_count s) i out cs)) @ [None] @ map Some (drop 1 (wiring sys (pipe_count s) i out cs)) \<and>
    free_count (fds s') + 2 * (length cs - 1) = free_count (fds s)"
proof -
  obtain n ws r where c: "cs = (n, ws) # r" using cs by (cases cs) auto
  have five: "ExecuteCommand sys 50 = ExecuteCommand sys (Suc (Suc 48))" by simp
  have t: "length (fds s) = 15" "fds s ! 0 \<noteq> None" "fds s ! 1 = Some out" using std by (simp_all add: std_open_def)
  have exa: "executable sys [(n, ws)]" using ex(1) by (simp add: executable_def c)
  have p0: "params (node_at s 0) = 0" using un node_count_pos [of "pipe_chain cs"] by (simp add: unset_def)
  show ?thesis
  proof (cases r)
    case Nil
    have "pipes_ok (node_at s 0) None (fds s)" using t p0 by (simp add: pipes_ok_def no_pipe_flags_def)
    moreover have "shape (mem_of s) (commandNodes (tree s)) 0 (Com n ws None None)" using sh(1) by (simp add: c Nil)
    ultimately obtain s' where s': "ExecuteCommand sys 50 0 None s = Some (None, s')" "fds s' = fds s"
      "trace (log s') = trace (log s) @ [Some (path_of sys n, base_name n # ws, input_stream (node_at s 0) None (fds s), output_stream (node_at s 0) None (fds s))] @
      (if params (node_at s 0) AND FAND = 0 then [None] else [])" using TCOM_wired [of s 0 n ws sys None 49] exa ex(2) unfolding five by auto
    show ?thesis
      by (intro exI [of _ None] exI [of _ s']) (use s' p0 std(2) t(3) in \<open>simp add: c Nil input_stream_def output_stream_def\<close>)
  next
    case (Cons x q)
    let ?a = "Com n ws None None" and ?b = "pipe_chain r" and ?k = "pipe_count s"
    have b: "pipe_chain cs = Pipe ?a ?b" by (simp add: c Cons)
    have hi: "2 + node_count ?b \<le> 50" using sh(2) by (simp add: b)
    have "2 \<le> free_count (fds s)" using fr by (simp add: c Cons)
    from sys_pipe_new [OF this t(1,2), of sys] t(3) obtain r2 w2 where
      np: "sys_pipe sys s = ((int r2, int w2), s\<lparr>fds := (fds s)[r2 := Some (ReadEnd ?k), w2 := Some (WriteEnd ?k)], pipe_count := Suc ?k\<rparr>)"
      "2 \<le> r2" "r2 < 15" "2 \<le> w2" "w2 < 15" "r2 \<noteq> w2" "fds s ! r2 = None" "fds s ! w2 = None"
      "free_count ((fds s)[r2 := Some (ReadEnd ?k), w2 := Some (WriteEnd ?k)]) + 2 = free_count (fds s)" by auto
    let ?t = "(fds s)[r2 := Some (ReadEnd ?k), w2 := Some (WriteEnd ?k)]"
    let ?s0 = "s\<lparr>fds := ?t, pipe_count := Suc ?k\<rparr>"
    let ?sa = "set_params 1 FPOU ?s0"
    have len: "length (commandNodes (tree ?s0)) = 50" using sh(3) by simp
    have na: "node_at ?sa j = (if j = 1 then (node_at s 1)\<lparr>params := FPOU\<rparr> else node_at s j)" for j
      using len un by (simp add: node_set_params unset_def b)
    have rr: "open_fd (int w2) ?t = Some (WriteEnd ?k)" "open_fd (int r2) ?t = Some (ReadEnd ?k)" using np t(1) by (auto simp: open_fd_def nth_list_update)
    have pa: "pipes_ok (node_at ?sa 1) (Some (int r2, int w2)) (fds ?sa)"
      using t np rr by (auto simp: pipes_ok_def na flag_bits nth_list_update)
    have parts: "shape (mem_of s) (commandNodes (tree ?s0)) 1 ?a" "shape (mem_of s) (commandNodes (tree ?s0)) 2 ?b" using sh(1) unfolding b by (simp_all add: numeral_2_eq_2)
    have pl: "1 < length (commandNodes (tree ?s0))" using len by simp
    have sha: "shape (mem_of ?sa) (commandNodes (tree ?sa)) 1 ?a" using shape_set_params [OF parts(1) pl] by simp
    have t0: "?t ! 0 = Some i" using std(2) np t(1) by (simp add: nth_list_update)
    have pa1: "params (node_at ?sa 1) = FPOU" by (simp only: na) simp
    then have pr: "params (node_at ?sa (Suc 0)) = FPOU" "input_stream (node_at ?sa 1) (Some (int r2, int w2)) (fds ?sa) = Some i"
      "output_stream (node_at ?sa 1) (Some (int r2, int w2)) (fds ?sa) = Some (WriteEnd ?k)"
      using t0 rr by (simp_all add: input_stream_def output_stream_def flag_bits)
    obtain s1 where s1: "ExecuteCommand sys (Suc 48) 1 (Some (int r2, int w2)) ?sa = Some (Some (int r2, int w2), s1)" "tree s1 = tree ?sa" "fds s1 = ?t" "pipe_count s1 = Suc ?k"
      "trace (log s1) = trace (log s) @ [Some (path_of sys n, base_name n # ws, Some i, Some (WriteEnd ?k)), None]"
      using TCOM_wired [OF sha _ exa ex(2) pa, of 48] pr(2,3) by (auto simp: pr(1) [unfolded One_nat_def] flag_bits simp del: ExecuteCommand.simps)
    let ?sb = "set_params 2 (FPIN OR FAND) s1"
    have len1: "length (commandNodes (tree s1)) = 50" using s1(2) len by simp
    have n1: "node_at s1 j = node_at ?sa j" for j by (simp add: node_at_def s1(2))
    have nb: "node_at ?sb j = (if j = 2 then (node_at s 2)\<lparr>params := FPIN OR FAND\<rparr> else node_at ?sa j)" for j
      using len1 un node_count_pos [of ?b] by (simp add: node_set_params n1 na [unfolded One_nat_def] unset_def b)
    have "mem_of ?sb = mem_of s" using s1(2) by (simp add: mem_of_def set_params_def)
    moreover have "shape (mem_of s) (commandNodes (tree s1)) 2 ?b" unfolding s1(2) by (rule shape_set_params [OF parts(2) pl])
    then have "shape (mem_of s) (commandNodes (tree ?sb)) 2 ?b" by (rule shape_set_params) (use len1 in simp)
    moreover have "unset ?sb (2 + 1) (2 + node_count ?b)" using un by (simp add: unset_def nb na [unfolded One_nat_def] b)
    moreover have "std_open (fds ?sb) out" using t np s1(3) by (simp add: std_open_def nth_list_update)
    moreover have "2 * (length r - 1) \<le> free_count (fds ?sb)" using np(9) fr s1(3) by (simp add: c Cons)
    moreover have "int r2 \<noteq> int w2" "2 \<le> int r2" "2 \<le> int w2" using np by simp_all
    moreover have "open_fd (int r2) (fds ?sb) = Some (ReadEnd ?k)" using rr(2) s1(3) by simp
    moreover have "params (node_at ?sb 2) = FPIN OR FAND" by (simp add: nb)
    moreover have "r \<noteq> []" "executable sys r" "node_count ?b \<le> Suc 48" "length (commandNodes (tree ?sb)) = 50"
      using ex(1) hi len1 by (simp_all add: Cons c executable_def)
    ultimately obtain p' s2 where s2: "ExecuteCommand sys (Suc 48) 2 (Some (int r2, int w2)) ?sb = Some (p', s2)"
      "trace (log s2) = trace (log ?sb) @ map Some (wiring sys (pipe_count ?sb) (ReadEnd ?k) out r)"
      "free_count (fds s2) + 2 * (length r - 1) = free_count (fds ?sb)"
      using chain_wired [of r ?sb 2 "int r2" "int w2" "ReadEnd ?k" out sys "Suc 48"] hi ex(2) by auto
    note sh' = sh(1) [unfolded b, simplified, folded node_at_def]
    have n2: "nat (left (node_at s 0)) = 1" "nat (right (node_at s 0)) = 2" using sh' by simp_all
    have "ExecuteTFIL sys (ExecuteCommand sys (Suc 48)) 0 None s = Some (None, s2)"
      using sh' s1(1) s2(1) p0 by (simp add: ExecuteTFIL_def np(1) n2 del: ExecuteCommand.simps)
    then have "ExecuteCommand sys 50 0 None s = Some (None, s2)" unfolding five ExecuteCommand.simps(2) [of sys "Suc 48"]
      using sh' by (simp add: TFIL_def TLST_def del: ExecuteCommand.simps)
    then show ?thesis using s1(4,5) s2(2,3) np(9) s1(3) by (auto simp: c Cons)
  qed
qed

text \<open>
  C30. Pipelines are wired as they should be: for a line that spells a pipeline of programs without
  redirections, typed at a shell with open descriptors 0 and 1 and two free descriptors per pipe, the programs are started
  in order, the standard output of each is the write end and the standard input of the next one the read
  end of the same pipe, the first one reads what the shell reads and the last one writes where the shell writes.  The shell
  waits for the first program, before it starts the second, and for no other; and it keeps both ends of every pipe open:
  each pipe costs it two descriptors for good.
\<close>

theorem pipeline_is_wired:
  assumes line: "line_ready line input txt (pipe_chain cs) (tree s)" and cs: "cs \<noteq> []" "executable sys cs" "\<forall>j. can_fork sys j"
    and std: "length (fds s) = 15" "fds s ! 0 = Some i" "fds s ! 1 = Some out" and free: "2 * (length cs - 1) \<le> free_count (fds s)"
  defines "w \<equiv> wiring sys (pipe_count s) i out cs"
  shows "\<exists>s'. shell_round sys line input s = Some s' \<and>
    trace (log s') = trace (log s) @ map Some (take 1 w) @ [None] @ map Some (drop 1 w) \<and>
    free_count (fds s') + 2 * (length cs - 1) = free_count (fds s)"
proof -
  obtain t where t: "command_tree line input (tree s) = Some (0, length (tokens (pipe_chain cs)), t)" "represents (chars t) (commandNodes t) 0 0 (pipe_chain cs)"
    "node_count (pipe_chain cs) \<le> 50" "length (commandNodes t) = 50" using command_tree_ok [OF line] by blast
  let ?s = "s\<lparr>tree := t, argsCnt := length (tokens (pipe_chain cs))\<rparr>"
  have sh: "shape (mem_of ?s) (commandNodes (tree ?s)) 0 (pipe_chain cs)" using represents_shape [OF t(2)] line by (simp add: line_ready_def mem_of_def)
  have un: "unset ?s 0 (node_count (pipe_chain cs))" using represents_unset [OF cs(1) t(2)] by (simp add: unset_def node_at_def)
  have so: "std_open (fds ?s) out" using std by (simp add: std_open_def)
  from first_chain_wired [OF cs(1) sh _ _ un so _ _ cs(2,3), of i] obtain p' s' where "ExecuteCommand sys 50 0 None ?s = Some (p', s')"
    "trace (log s') = trace (log s) @ map Some (take 1 w) @ [None] @ map Some (drop 1 w)" "free_count (fds s') + 2 * (length cs - 1) = free_count (fds s)"
    using t(3,4) std free by (auto simp: w_def)
  then show ?thesis using t(1) by (auto simp: shell_round_def)
qed


theorem pipeline_is_wired_witness:
  "\<exists>s'. shell_round demo_system 0x1000 0x2000 demo_shell_run = Some s' \<and>
    trace (log s') = [Some (bin_path [108, 115], [[108, 115], [45, 108]], Some Terminal, Some (WriteEnd 0)), None,
      Some (bin_path [119, 99], [[119, 99]], Some (ReadEnd 0), Some Terminal)] \<and>
    free_count (fds s') = 11"
proof -
  let ?cs = "[([108, 115], [[45, 108]]), ([119, 99], [])] :: (token \<times> token list) list"
  have l: "line_ready 0x1000 0x2000 demo_text (pipe_chain ?cs) (tree demo_shell_run)"
    using demo_line_ready by (simp add: demo_shell_run_def demo_pipe_def)
  have x: "executable demo_system ?cs" "\<forall>j. can_fork demo_system j" by (simp_all add: executable_def demo_system_def bin_path_def)
  have d: "length (fds demo_shell_run) = 15" "fds demo_shell_run ! 0 = Some Terminal" "fds demo_shell_run ! 1 = Some Terminal" "pipe_count demo_shell_run = 0"
    by (simp_all add: demo_shell_run_def)
  have "fds demo_shell_run ! i = None \<longleftrightarrow> 2 \<le> i" if "i < 15" for i
    using that by (auto simp: demo_shell_run_def nth_Cons' split: if_splits)
  then have "{i. i < length (fds demo_shell_run) \<and> fds demo_shell_run ! i = None} = {2..<15}" using d(1) by auto
  then have f: "free_count (fds demo_shell_run) = 13" by (simp add: free_count_def)
  have n: "path_of demo_system [108, 115] = bin_path [108, 115]" "path_of demo_system [119, 99] = bin_path [119, 99]"
    "base_name [108, 115] = [108, 115]" "base_name [119, 99] = [119, 99]"
    by (simp_all add: path_of_def demo_system_def base_name_def)
  have w: "wiring demo_system 0 Terminal Terminal ?cs = [(bin_path [108, 115], [[108, 115], [45, 108]], Some Terminal, Some (WriteEnd 0)),
      (bin_path [119, 99], [[119, 99]], Some (ReadEnd 0), Some Terminal)]"
    by (simp add: n)
  have g: "2 * (length ?cs - 1) \<le> free_count (fds demo_shell_run)" by (simp add: f)
  obtain s' where "shell_round demo_system 0x1000 0x2000 demo_shell_run = Some s'"
    "trace (log s') = trace (log demo_shell_run) @ map Some (take 1 (wiring demo_system (pipe_count demo_shell_run) Terminal Terminal ?cs)) @ [None] @
      map Some (drop 1 (wiring demo_system (pipe_count demo_shell_run) Terminal Terminal ?cs))"
    "free_count (fds s') + 2 * (length ?cs - 1) = free_count (fds demo_shell_run)"
    using pipeline_is_wired [OF l _ x d(1,2,3) g] by auto
  then show ?thesis by (simp add: d(4) w f) (simp add: demo_shell_run_def n)
qed

end
