(* ===== verification/MachineSetup.thy ===== *)
theory MachineSetup
  imports AddrSpace
begin

text \<open>
  The set-up of the machine before the kernel runs (\<open>kernel/main.cpp\<close>, \<open>machine/\<close>, \<open>dev/DMA.cpp\<close>): segment descriptors,
  the table of interrupt gates, the task state segment, the page directory with the first page tables, the timer and the
  interrupt controllers.  Fields that the code never writes are left out of the records.  Ports are
  the list of what was written to them.
\<close>

section \<open>Segments and gates\<close>

record SegmentDescriptor =
  m_Low16BitsSegmentLimit :: u16
  m_Low16BitsBaseAddress :: u16
  m_Mid8BitsBaseAddress :: u8
  m_Type :: "4 word"
  m_System :: bool
  m_DPL :: "2 word"
  m_SegmentPresent :: bool
  m_High4BitsSegmentLimit :: "4 word"
  m_Available :: bool
  m_DefaultOperationSize :: bool
  m_Granularity :: bool
  m_High8BitsBaseAddress :: u8

definition SetBaseAddress :: "u32 \<Rightarrow> SegmentDescriptor \<Rightarrow> SegmentDescriptor" where
  "SetBaseAddress baseAddress d = d\<lparr>
     m_Low16BitsBaseAddress := ucast (baseAddress AND 0xFFFF),
     m_Mid8BitsBaseAddress := ucast (drop_bit 16 baseAddress AND 0xFF),
     m_High8BitsBaseAddress := ucast (drop_bit 24 baseAddress AND 0xFF)\<rparr>"

definition SetSegmentLimit :: "u32 \<Rightarrow> SegmentDescriptor \<Rightarrow> SegmentDescriptor" where
  "SetSegmentLimit segmentLimit d = d\<lparr>
     m_Low16BitsSegmentLimit := ucast (segmentLimit AND 0xFFFF),
     m_High4BitsSegmentLimit := ucast (drop_bit 16 segmentLimit AND 0xF)\<rparr>"

record GateDescriptor =
  m_Low16BitsOffset :: u16
  m_SegmentSelector :: u16
  gate_Type :: "4 word"
  gate_System :: bool
  gate_DPL :: "2 word"
  gate_Present :: bool
  m_High16BitsOffset :: u16

definition gate :: "4 word \<Rightarrow> u32 \<Rightarrow> GateDescriptor" where
  "gate t handler = \<lparr>m_Low16BitsOffset = ucast handler, m_SegmentSelector = 8, gate_Type = t, gate_System = False,
     gate_DPL = 3, gate_Present = True, m_High16BitsOffset = ucast (drop_bit 16 handler)\<rparr>"

definition SetInterruptGate :: "nat \<Rightarrow> u32 \<Rightarrow> GateDescriptor list \<Rightarrow> GateDescriptor list" where
  "SetInterruptGate number handler t = t[number := gate 0xE handler]"

definition SetTrapGate :: "nat \<Rightarrow> u32 \<Rightarrow> GateDescriptor list \<Rightarrow> GateDescriptor list" where
  "SetTrapGate number handler t = t[number := gate 0xF handler]"

record TaskStateSegment =
  m_ESP0 :: u32
  m_SS0 :: u32
  m_CR3 :: u32
  m_EIP :: u32
  m_EFLAGS :: u32
  m_ESP :: u32
  m_EBP :: u32
  m_ES :: u32
  m_CS :: u32
  m_SS :: u32
  m_DS :: u32
  m_FS :: u32
  m_GS :: u32

section \<open>The machine\<close>

text \<open>
  Entries of the page directory and of page tables have the same form.  The two user page tables are one list, as in
  \<open>AddrSpace\<close>; \<open>tss_address\<close> is where the linker put the task state segment, \<open>prd_table_address\<close> where it put the table of \<open>DevStart\<close>.
\<close>

datatype port_write = OutB u16 u8 | OutD u16 u32

record PhysicalRegionDescriptor =
  m_BaseAddressZeroBit :: bool
  m_MemoryRegionPhysicalBaseAddress :: "31 word"
  m_ByteCountZeroBit :: bool
  m_ByteCount :: "15 word"
  m_EOT :: bool

record machine =
  gdt :: "SegmentDescriptor list"
  idt :: "GateDescriptor list"
  tss :: TaskStateSegment
  tss_address :: u32
  page_directory :: "pte list"
  kernel_page_table :: "pte list"
  user_page_tables :: "pte list"
  ports :: "port_write list"
  DMA_COMMAND_PORT :: u16
  DMA_STATUS_PORT :: u16
  DMA_PRDTR_PORT :: u16
  prd_table :: "PhysicalRegionDescriptor list"
  prd_table_address :: u32

definition OutByte :: "u16 \<Rightarrow> u8 \<Rightarrow> machine \<Rightarrow> machine" where
  "OutByte port b m = m\<lparr>ports := ports m @ [OutB port b]\<rparr>"

text \<open>The data port of an interrupt controller gives back the mask that was written to it.\<close>

fun byte_to :: "u16 \<Rightarrow> port_write \<Rightarrow> u8 option" where
  "byte_to port (OutB p b) = (if p = port then Some b else None)"
| "byte_to port (OutD p d) = None"

definition last_out :: "u16 \<Rightarrow> machine \<Rightarrow> u8" where
  "last_out port m = (case List.map_filter (byte_to port) (rev (ports m)) of [] \<Rightarrow> 0 | b # bs \<Rightarrow> b)"

section \<open>Timer and interrupt controllers\<close>

definition INPUT_FREQ :: int where "INPUT_FREQ = 1193180"

definition Chip8253_Init :: "int \<Rightarrow> machine \<Rightarrow> machine" where
  "Chip8253_Init ticks m =
     (let ticks = (if ticks \<le> 0 then 60 else ticks);
          m = OutByte 0x43 (0x00 OR 0x06 OR 0x30) m;
          m = OutByte 0x40 (word_of_int (INPUT_FREQ div ticks mod 256)) m
      in OutByte 0x40 (word_of_int (INPUT_FREQ div ticks div 256)) m)"

definition IRQ_TIMER :: nat where "IRQ_TIMER = 0"
definition IRQ_KBD :: nat where "IRQ_KBD = 1"
definition IRQ_SLAVE :: nat where "IRQ_SLAVE = 2"
definition IRQ_IDE :: nat where "IRQ_IDE = 14"

definition Chip8259A_Init :: "machine \<Rightarrow> machine" where
  "Chip8259A_Init m = fold (\<lambda>(p, b). OutByte p b)
     [(0x20, 0x11), (0xA0, 0x11), (0x21, 0x20), (0xA1, 0x20 + 8), (0x21, push_bit IRQ_SLAVE 1), (0xA1, of_nat IRQ_SLAVE),
      (0x21, 0x01), (0xA1, 0x01), (0x21, 0xFF), (0xA1, 0xFF)] m"

definition IrqEnable :: "nat \<Rightarrow> machine \<Rightarrow> machine" where
  "IrqEnable irq m =
     (if irq \<ge> 16 then m
      else if irq \<le> 7 then OutByte 0x21 (last_out 0x21 m AND NOT (push_bit irq 1)) m
      else OutByte 0xA1 (last_out 0xA1 m AND NOT (push_bit (irq - 8) 1)) m)"

definition IrqDisable :: "nat \<Rightarrow> machine \<Rightarrow> machine" where
  "IrqDisable irq m =
     (if irq \<ge> 16 then m
      else if irq \<le> 7 then OutByte 0x21 (last_out 0x21 m OR push_bit irq 1) m
      else OutByte 0xA1 (last_out 0xA1 m OR push_bit (irq - 8) 1) m)"

section \<open>The tables of the processor\<close>

definition flat_segment :: "2 word \<Rightarrow> 4 word \<Rightarrow> SegmentDescriptor \<Rightarrow> SegmentDescriptor" where
  "flat_segment dpl t d = (SetBaseAddress 0 (SetSegmentLimit 0xFFFFF d))\<lparr>m_Granularity := True, m_DefaultOperationSize := True,
     m_SegmentPresent := True, m_DPL := dpl, m_System := True, m_Type := t\<rparr>"

text \<open>The descriptor of the task state segment has the layout of the others.\<close>

definition InitTaskStateSegment :: "machine \<Rightarrow> machine" where
  "InitTaskStateSegment m =
     m\<lparr>tss := (tss m)\<lparr>m_CR3 := 0x200000, m_CS := 0x18 OR 3, m_DS := 0x20 OR 3, m_SS := 0x20 OR 3, m_ES := 0x20 OR 3, m_FS := 0x20 OR 3,
         m_GS := 0x20 OR 3, m_EBP := 0xC0400000, m_ESP := 0xC0400000, m_EIP := 0xC0000000, m_EFLAGS := 0x200, m_SS0 := 0x10,
         m_ESP0 := 0xC0400000\<rparr>,
       gdt := (gdt m)[5 := (SetBaseAddress (tss_address m) (SetSegmentLimit (0x68 - 1) (gdt m ! 5)))
         \<lparr>m_Granularity := True, m_Type := 9, m_SegmentPresent := True, m_Available := True, m_DPL := 0\<rparr>]\<rparr>"

text \<open>\<open>tmp\<close> is the local descriptor of \<open>InitGDT\<close>, which is not initialised.\<close>

definition InitGDT :: "SegmentDescriptor \<Rightarrow> machine \<Rightarrow> machine" where
  "InitGDT tmp m =
     (let d1 = flat_segment 0 0xA tmp; d2 = flat_segment 0 2 d1; d3 = flat_segment 3 0xA d2; d4 = flat_segment 3 2 d3
      in InitTaskStateSegment (m\<lparr>gdt := (gdt m)[1 := d1, 2 := d2, 3 := d3, 4 := d4]\<rparr>))"

datatype entrance = DefaultExceptionHandler | DefaultInterruptHandler | DivideErrorEntrance | DebugEntrance | NMIEntrance | BreakpointEntrance
  | OverflowEntrance | BoundEntrance | InvalidOpcodeEntrance | DeviceNotAvailableEntrance | DoubleFaultEntrance
  | CoprocessorSegmentOverrunEntrance | InvalidTSSEntrance | SegmentNotPresentEntrance | StackSegmentErrorEntrance
  | GeneralProtectionEntrance | PageFaultEntrance | CoprocessorErrorEntrance | AlignmentCheckEntrance | MachineCheckEntrance
  | SIMDExceptionEntrance | TimeInterruptEntrance | KeyboardInterruptEntrance | DiskInterruptEntrance | SystemCallEntrance | MasterIRQ7

definition exception_gates :: "(nat \<times> entrance) list" where
  "exception_gates = [(0, DivideErrorEntrance), (1, DebugEntrance), (2, NMIEntrance), (3, BreakpointEntrance), (4, OverflowEntrance),
     (5, BoundEntrance), (6, InvalidOpcodeEntrance), (7, DeviceNotAvailableEntrance), (8, DoubleFaultEntrance),
     (9, CoprocessorSegmentOverrunEntrance), (10, InvalidTSSEntrance), (11, SegmentNotPresentEntrance), (12, StackSegmentErrorEntrance),
     (13, GeneralProtectionEntrance), (14, PageFaultEntrance), (16, CoprocessorErrorEntrance), (17, AlignmentCheckEntrance),
     (18, MachineCheckEntrance), (19, SIMDExceptionEntrance)]"

text \<open>\<open>entry\<close> gives the addresses of the handlers.\<close>

definition InitIDT :: "(entrance \<Rightarrow> u32) \<Rightarrow> machine \<Rightarrow> machine" where
  "InitIDT entry m =
     (let t = fold (\<lambda>i. if i < 32 then SetTrapGate i (entry DefaultExceptionHandler) else SetInterruptGate i (entry DefaultInterruptHandler))
                [0..<256] (idt m);
          t = fold (\<lambda>(i, h). SetTrapGate i (entry h)) exception_gates t;
          t = SetInterruptGate 0x20 (entry TimeInterruptEntrance) t;
          t = SetInterruptGate 0x21 (entry KeyboardInterruptEntrance) t;
          t = SetInterruptGate 0x2E (entry DiskInterruptEntrance) t;
          t = SetTrapGate 0x80 (entry SystemCallEntrance) t
      in m\<lparr>idt := SetInterruptGate 0x27 (entry MasterIRQ7) t\<rparr>)"

definition KERNEL_SPACE_START_ADDRESS :: u32 where "KERNEL_SPACE_START_ADDRESS = 0xC0000000"
definition KERNEL_PAGE_TABLE_BASE_ADDRESS :: u32 where "KERNEL_PAGE_TABLE_BASE_ADDRESS = 0x201000"
definition USER_PAGE_TABLE_BASE_ADDRESS :: u32 where "USER_PAGE_TABLE_BASE_ADDRESS = 0x202000"
definition SIZE_PER_PAGETABLE_MAP :: u32 where "SIZE_PER_PAGETABLE_MAP = 0x400000"

definition set_entry :: "bool \<Rightarrow> 20 word \<Rightarrow> pte \<Rightarrow> pte" where
  "set_entry user base e = e\<lparr>m_UserSupervisor := user, m_Present := True, m_ReadWriter := True, m_PageBaseAddress := base\<rparr>"

definition InitPageDirectory :: "machine \<Rightarrow> machine" where
  "InitPageDirectory m =
     (let base = ucast (drop_bit 12 KERNEL_PAGE_TABLE_BASE_ADDRESS);
          kPageTableIdx = unat (KERNEL_SPACE_START_ADDRESS div SIZE_PER_PAGETABLE_MAP);
          d = (page_directory m)[0 := set_entry True base (page_directory m ! 0)]
      in m\<lparr>page_directory := d[kPageTableIdx := set_entry False base (d ! kPageTableIdx)],
           kernel_page_table := fold (\<lambda>i t. t[i := set_entry False (of_nat i) (t ! i)]) [0..<ENTRY_CNT_PER_PAGETABLE] (kernel_page_table m)\<rparr>)"

definition InitUserPageTable :: "machine \<Rightarrow> machine" where
  "InitUserPageTable m = fold (\<lambda>j m.
     let idx = ucast (drop_bit 12 USER_PAGE_TABLE_BASE_ADDRESS) + of_nat j
     in m\<lparr>page_directory := (page_directory m)[j := set_entry True idx (page_directory m ! j)],
          user_page_tables := fold (\<lambda>i t. t[j * 1024 + i := set_entry True (of_nat (i + j * 1024)) (t ! (j * 1024 + i))])
            [0..<ENTRY_CNT_PER_PAGETABLE] (user_page_tables m)\<rparr>) [0..<2] m"

section \<open>The disk controller on the bus\<close>

text \<open>The double words 0 to 63 of the configuration space of a function; \<open>pci\<close> is the bus.\<close>

type_synonym pci = "nat \<times> nat \<times> nat \<Rightarrow> nat \<Rightarrow> u32"

definition is_ide :: "(nat \<Rightarrow> u32) \<Rightarrow> bool" where
  "is_ide config \<longleftrightarrow> config 2 \<noteq> 0xFFFFFFFF \<and> config 2 AND 0x01010000 = 0x01010000"

definition pci_functions :: "(nat \<times> nat \<times> nat) list" where
  "pci_functions = List.product [0..<256] (List.product [0..<32] [0..<8])"

text \<open>\<open>None\<close> is the panic for a controller with registers in memory.\<close>

definition DMA_Init :: "pci \<Rightarrow> machine \<Rightarrow> machine option" where
  "DMA_Init pci m =
     (case List.find (\<lambda>f. is_ide (pci f)) pci_functions of
        None \<Rightarrow> Some m
      | Some f \<Rightarrow>
          if pci f 8 AND 1 \<noteq> 0 then
            let port_addr = ucast (pci f 8 AND 0xFFFE)
            in Some (m\<lparr>DMA_COMMAND_PORT := port_addr, DMA_STATUS_PORT := port_addr + 2, DMA_PRDTR_PORT := port_addr + 4\<rparr>)
          else None)"

text \<open>\<open>main0\<close> up to the jump to \<open>next\<close>.\<close>

definition main0 :: "(entrance \<Rightarrow> u32) \<Rightarrow> pci \<Rightarrow> SegmentDescriptor \<Rightarrow> machine \<Rightarrow> machine option" where
  "main0 entry pci tmp m =
     (case DMA_Init pci (IrqEnable IRQ_TIMER (Chip8259A_Init (Chip8253_Init 20 m))) of
        None \<Rightarrow> None
      | Some m \<Rightarrow> Some (InitPageDirectory (InitIDT entry (InitGDT tmp (IrqEnable IRQ_KBD (IrqEnable IRQ_SLAVE (IrqEnable IRQ_IDE m)))))))"

text \<open>The memory that \<open>next\<close> finds: the two bytes of the clock chip count the kilobytes above the first megabyte.\<close>

definition memory_size :: "u8 \<Rightarrow> u8 \<Rightarrow> u32" where
  "memory_size lowMem highMem =
     (let memSize = word_of_int (uint highMem * 256 + uint lowMem) :: u16; memSize = memSize + 1024
      in ucast memSize * 1024)"

definition user_pool_size :: "u8 \<Rightarrow> u8 \<Rightarrow> u32" where
  "user_pool_size lowMem highMem = memory_size lowMem highMem - USER_PAGE_POOL_START_ADDR"

end
