(* ===== verification/MachineSpec.thy ===== *)
theory MachineSpec
  imports MachineSetup
begin

text \<open>
  What the set-up of the machine achieves: which handler an interrupt of a device reaches, how the first page
  tables translate addresses, what the descriptors say, and how much memory the kernel believes to have.
\<close>

section \<open>Descriptors\<close>

definition segment_base :: "SegmentDescriptor \<Rightarrow> u32" where
  "segment_base d = push_bit 24 (ucast (m_High8BitsBaseAddress d)) OR push_bit 16 (ucast (m_Mid8BitsBaseAddress d)) OR ucast (m_Low16BitsBaseAddress d)"

definition segment_limit :: "SegmentDescriptor \<Rightarrow> u32" where
  "segment_limit d = push_bit 16 (ucast (m_High4BitsSegmentLimit d)) OR ucast (m_Low16BitsSegmentLimit d)"

definition gate_offset :: "GateDescriptor \<Rightarrow> u32" where
  "gate_offset g = push_bit 16 (ucast (m_High16BitsOffset g)) OR ucast (m_Low16BitsOffset g)"

lemma gate_offset_gate [simp]: "gate_offset (gate t h) = h"
  by (rule bit_word_eqI) (auto simp: gate_offset_def gate_def bit_simps)

lemma field_masks: "(0xFFFF :: u32) = mask 16" "(0xFF :: u32) = mask 8" "(0xF :: u32) = mask 4"
  by (simp_all add: mask_eq_exp_minus_1)

lemma segment_base_set: "segment_base (SetBaseAddress b d) = b"
proof (rule bit_word_eqI)
  fix n assume "n < LENGTH(32)"
  then consider "n < 16" | "16 \<le> n" "n < 24" | "24 \<le> n" "n < 32" by fastforce
  then show "bit (segment_base (SetBaseAddress b d)) n \<longleftrightarrow> bit b n"
    by cases (auto simp: segment_base_def SetBaseAddress_def field_masks bit_simps)
qed

lemma segment_limit_set: "segment_limit (SetSegmentLimit l d) = take_bit 20 l"
  by (rule bit_word_eqI) (auto simp: segment_limit_def SetSegmentLimit_def field_masks bit_simps)

section \<open>Tables that are filled in a loop\<close>

lemma fold_update:
  assumes "k + n \<le> length t"
  shows "length (fold (\<lambda>i t. t[k + i := f i (t ! (k + i))]) [0..<n] t) = length t"
    "j < length t \<Longrightarrow> fold (\<lambda>i t. t[k + i := f i (t ! (k + i))]) [0..<n] t ! j = (if k \<le> j \<and> j < k + n then f (j - k) (t ! j) else t ! j)"
  using assms by (induction n) (auto simp: nth_list_update)

lemma fold_gates:
  "n \<le> length t \<Longrightarrow> length (fold (\<lambda>i. if P i then SetTrapGate i a else SetInterruptGate i b) [0..<n] t) = length t"
  "n \<le> length t \<Longrightarrow> j < n \<Longrightarrow> fold (\<lambda>i. if P i then SetTrapGate i a else SetInterruptGate i b) [0..<n] t ! j = (if P j then gate 0xF a else gate 0xE b)"
  by (induction n) (auto simp: SetTrapGate_def SetInterruptGate_def nth_list_update)

section \<open>Interrupts\<close>

text \<open>The handler of a vector.\<close>

definition vector_handler :: "nat \<Rightarrow> entrance" where
  "vector_handler v =
     (case map_of exception_gates v of Some h \<Rightarrow> h
      | None \<Rightarrow> if v = 0x20 then TimeInterruptEntrance else if v = 0x21 then KeyboardInterruptEntrance else if v = 0x27 then MasterIRQ7
          else if v = 0x2E then DiskInterruptEntrance else if v = 0x80 then SystemCallEntrance
          else if v < 32 then DefaultExceptionHandler else DefaultInterruptHandler)"

lemma fold_traps:
  "distinct (map fst hs) \<Longrightarrow> \<forall>(i, h) \<in> set hs. i < length t \<Longrightarrow>
   length (fold (\<lambda>(i, h). SetTrapGate i (entry h)) hs t) = length t \<and>
   (\<forall>j < length t. fold (\<lambda>(i, h). SetTrapGate i (entry h)) hs t ! j = (case map_of hs j of Some h \<Rightarrow> gate 0xF (entry h) | None \<Rightarrow> t ! j))"
proof (induction hs arbitrary: t)
  case (Cons x hs)
  obtain i h where x: "x = (i, h)" by (cases x)
  have "map_of hs i = None" using Cons.prems(1) by (auto simp: x map_of_eq_None_iff)
  then show ?case using Cons.prems Cons.IH [of "SetTrapGate i (entry h) t"]
    by (auto simp: x SetTrapGate_def nth_list_update split: option.split)
qed simp

lemma InitIDT_gate:
  assumes len: "length (idt m) = 256" and v: "v < 256"
  shows "idt (InitIDT entry m) ! v = gate (if v < 32 \<or> v = 0x80 then 0xF else 0xE) (entry (vector_handler v))"
proof -
  define t where "t = fold (\<lambda>i. if i < 32 then SetTrapGate i (entry DefaultExceptionHandler) else SetInterruptGate i (entry DefaultInterruptHandler)) [0..<256] (idt m)"
  have t: "length t = 256" "t ! v = (if v < 32 then gate 0xF (entry DefaultExceptionHandler) else gate 0xE (entry DefaultInterruptHandler))"
    using fold_gates [of 256 "idt m"] len v by (simp_all add: t_def)
  define u where "u = fold (\<lambda>(i, h). SetTrapGate i (entry h)) exception_gates t"
  have g: "distinct (map fst exception_gates)" "\<forall>(i, h) \<in> set exception_gates. i < 32" by code_simp+
  then have g': "\<forall>(i, h) \<in> set exception_gates. i < length t" using t(1) by fastforce
  have u: "length u = 256" "u ! v = (case map_of exception_gates v of Some h \<Rightarrow> gate 0xF (entry h) | None \<Rightarrow> t ! v)"
    using fold_traps [OF g(1) g', of entry] t(1) v by (simp_all add: u_def)
  have small: "v < 32" if "map_of exception_gates v = Some h" for h
    using map_of_SomeD [OF that] g(2) by auto
  have i: "idt (InitIDT entry m) = u[0x20 := gate 0xE (entry TimeInterruptEntrance), 0x21 := gate 0xE (entry KeyboardInterruptEntrance),
      0x2E := gate 0xE (entry DiskInterruptEntrance), 0x80 := gate 0xF (entry SystemCallEntrance), 0x27 := gate 0xE (entry MasterIRQ7)]"
    by (simp add: InitIDT_def t_def u_def Let_def SetTrapGate_def SetInterruptGate_def)
  show ?thesis
  proof (cases "map_of exception_gates v")
    case None
    then show ?thesis using u t v by (auto simp: i vector_handler_def nth_list_update)
  next
    case (Some h)
    then show ?thesis using u small [OF Some] v by (auto simp: i vector_handler_def nth_list_update)
  qed
qed

text \<open>
  The interrupt controllers as they are documented: the byte to the data port after the start of the initialisation is
  the first vector, bit \<open>i\<close> of the last one masks the request \<open>i\<close>.
\<close>

definition data_port :: "nat \<Rightarrow> u16" where "data_port irq = (if irq < 8 then 0x21 else 0xA1)"
definition command_port :: "nat \<Rightarrow> u16" where "command_port irq = (if irq < 8 then 0x20 else 0xA0)"

definition irq_enabled :: "machine \<Rightarrow> nat \<Rightarrow> bool" where
  "irq_enabled m irq \<longleftrightarrow> \<not> bit (last_out (data_port irq) m) (irq mod 8)"

definition first_vector :: "machine \<Rightarrow> nat \<Rightarrow> u8" where
  "first_vector m irq =
     (case List.map_filter (byte_to (data_port irq)) (rev (takeWhile (\<lambda>w. byte_to (command_port irq) w = None) (rev (ports m)))) of
        [] \<Rightarrow> 0 | b # bs \<Rightarrow> b)"

definition irq_vector :: "machine \<Rightarrow> nat \<Rightarrow> nat" where
  "irq_vector m irq = unat (first_vector m irq) + irq mod 8"

lemma set_up_ports:
  assumes "main0 entry pci tmp m = Some m'"
  shows "ports m' = ports m @ [OutB 0x43 0x36, OutB 0x40 0x0B, OutB 0x40 0xE9, OutB 0x20 0x11, OutB 0xA0 0x11, OutB 0x21 0x20, OutB 0xA1 0x28, OutB 0x21 0x04, OutB 0xA1 0x02,
      OutB 0x21 0x01, OutB 0xA1 0x01, OutB 0x21 0xFF, OutB 0xA1 0xFF, OutB 0x21 0xFE, OutB 0xA1 0xBF, OutB 0x21 0xFA, OutB 0x21 0xF8]"
    "idt m' = idt (InitIDT entry m)"
proof -
  define a where "a = IrqEnable IRQ_TIMER (Chip8259A_Init (Chip8253_Init 20 m))"
  obtain b where b: "DMA_Init pci a = Some b" and m': "m' = InitPageDirectory (InitIDT entry (InitGDT tmp (IrqEnable IRQ_KBD (IrqEnable IRQ_SLAVE (IrqEnable IRQ_IDE b)))))"
    using assms by (auto simp: main0_def a_def split: option.splits)
  have a: "ports a = ports m @ [OutB 0x43 0x36, OutB 0x40 0x0B, OutB 0x40 0xE9, OutB 0x20 0x11, OutB 0xA0 0x11, OutB 0x21 0x20, OutB 0xA1 0x28, OutB 0x21 0x04, OutB 0xA1 0x02,
      OutB 0x21 0x01, OutB 0xA1 0x01, OutB 0x21 0xFF, OutB 0xA1 0xFF, OutB 0x21 0xFE]" "idt a = idt m"
    by (simp_all add: a_def Chip8253_Init_def Chip8259A_Init_def IrqEnable_def OutByte_def last_out_def map_filter_simps IRQ_TIMER_def IRQ_SLAVE_def INPUT_FREQ_def)
  have ab: "ports b = ports a" "idt b = idt a" using b by (auto simp: DMA_Init_def Let_def split: option.splits if_splits)
  have k: "ports m' = ports (IrqEnable IRQ_KBD (IrqEnable IRQ_SLAVE (IrqEnable IRQ_IDE b)))"
    by (simp add: m' InitPageDirectory_def InitIDT_def InitGDT_def InitTaskStateSegment_def Let_def)
  show "ports m' = ports m @ [OutB 0x43 0x36, OutB 0x40 0x0B, OutB 0x40 0xE9, OutB 0x20 0x11, OutB 0xA0 0x11, OutB 0x21 0x20, OutB 0xA1 0x28, OutB 0x21 0x04, OutB 0xA1 0x02,
      OutB 0x21 0x01, OutB 0xA1 0x01, OutB 0x21 0xFF, OutB 0xA1 0xFF, OutB 0x21 0xFE, OutB 0xA1 0xBF, OutB 0x21 0xFA, OutB 0x21 0xF8]"
    by (simp add: k IrqEnable_def OutByte_def last_out_def map_filter_simps ab a IRQ_KBD_def IRQ_SLAVE_def IRQ_IDE_def)
  show "idt m' = idt (InitIDT entry m)"
    by (simp add: m' InitPageDirectory_def InitIDT_def InitGDT_def InitTaskStateSegment_def Let_def IrqEnable_def OutByte_def ab a)
qed


text \<open>
  C38. Devices reach their handlers: after \<open>main0\<close> exactly the requests of the timer, the keyboard, the cascade and the disk are let
  through, each of the three devices arrives at a vector whose gate leads to its own handler with interrupts
  off, vector 0x80 leads to the system calls, and every other vector to the handler of its exception or to the
  default.  All 256 gates, those of the devices and of the exceptions included, may be used by programs.
\<close>

theorem devices_reach_handlers:
  assumes "main0 entry pci tmp m = Some m'" "length (idt m) = 256"
  shows "(\<forall>irq < 16. irq_enabled m' irq \<longleftrightarrow> irq \<in> {IRQ_TIMER, IRQ_KBD, IRQ_SLAVE, IRQ_IDE}) \<and>
    (\<forall>(irq, h) \<in> {(IRQ_TIMER, TimeInterruptEntrance), (IRQ_KBD, KeyboardInterruptEntrance), (IRQ_IDE, DiskInterruptEntrance)}.
       idt m' ! irq_vector m' irq = gate 0xE (entry h) \<and> gate_offset (idt m' ! irq_vector m' irq) = entry h) \<and>
    (\<forall>v < 256. gate_offset (idt m' ! v) = entry (vector_handler v) \<and> gate_Type (idt m' ! v) = (if v < 32 \<or> v = 0x80 then 0xF else 0xE) \<and>
       gate_Present (idt m' ! v) \<and> m_SegmentSelector (idt m' ! v) = 8 \<and> gate_DPL (idt m' ! v) = 3)"
proof -
  have g: "idt m' ! v = gate (if v < 32 \<or> v = 0x80 then 0xF else 0xE) (entry (vector_handler v))" if "v < 256" for v
    using InitIDT_gate [OF assms(2) that] by (simp add: set_up_ports(2) [OF assms(1)])
  have l: "last_out 0x21 m' = 0xF8" "last_out 0xA1 m' = 0xBF" by (simp_all add: last_out_def map_filter_simps set_up_ports(1) [OF assms(1)])
  have b: "\<forall>irq \<in> set [0..<16]. (\<not> bit (if irq < 8 then 0xF8 else 0xBF :: u8) (irq mod 8)) = (irq \<in> {0, 1, 2, 14})" by code_simp
  have e: "\<forall>irq < 16. irq_enabled m' irq \<longleftrightarrow> irq \<in> {IRQ_TIMER, IRQ_KBD, IRQ_SLAVE, IRQ_IDE}"
  proof (intro allI impI)
    fix irq :: nat assume "irq < 16"
    then have "irq \<in> set [0..<16]" by simp
    from b [rule_format, OF this] show "irq_enabled m' irq \<longleftrightarrow> irq \<in> {IRQ_TIMER, IRQ_KBD, IRQ_SLAVE, IRQ_IDE}"
      unfolding irq_enabled_def data_port_def IRQ_TIMER_def IRQ_KBD_def IRQ_SLAVE_def IRQ_IDE_def by (cases "irq < 8") (simp_all only: l if_True if_False)
  qed
  have f: "irq_vector m' IRQ_TIMER = 0x20" "irq_vector m' IRQ_KBD = 0x21" "irq_vector m' IRQ_IDE = 0x2E"
    by (simp_all add: irq_vector_def first_vector_def map_filter_simps data_port_def command_port_def set_up_ports(1) [OF assms(1)] IRQ_TIMER_def IRQ_KBD_def IRQ_IDE_def)
  have h: "vector_handler 0x20 = TimeInterruptEntrance" "vector_handler 0x21 = KeyboardInterruptEntrance" "vector_handler 0x2E = DiskInterruptEntrance"
    by code_simp+
  show ?thesis using e by (simp add: f g h) (simp add: gate_def)
qed

section \<open>Address translation\<close>

text \<open>
  The translation that the processor does with the page directory: the physical address, whether it may be
  written, and whether programs may use it.  Physical pages 0x201, 0x202 and 0x203 hold the three tables.
\<close>

definition table_of_page :: "machine \<Rightarrow> 20 word \<Rightarrow> pte list option" where
  "table_of_page m p = (if p = 0x201 then Some (kernel_page_table m) else if p = 0x202 then Some (take 1024 (user_page_tables m))
     else if p = 0x203 then Some (drop 1024 (user_page_tables m)) else None)"

definition mmu_walk :: "machine \<Rightarrow> u32 \<Rightarrow> (u32 \<times> bool \<times> bool) option" where
  "mmu_walk m lin =
     (let d = page_directory m ! unat (drop_bit 22 lin)
      in if \<not> m_Present d then None
         else case table_of_page m (m_PageBaseAddress d) of None \<Rightarrow> None
         | Some t \<Rightarrow>
             let e = t ! unat (take_bit 10 (drop_bit 12 lin))
             in if \<not> m_Present e then None
                else Some (push_bit 12 (ucast (m_PageBaseAddress e)) OR take_bit 12 lin, m_ReadWriter d \<and> m_ReadWriter e,
                  m_UserSupervisor d \<and> m_UserSupervisor e))"

definition tables_sized :: "machine \<Rightarrow> bool" where
  "tables_sized m \<longleftrightarrow> length (page_directory m) = 1024 \<and> length (kernel_page_table m) = 1024 \<and> length (user_page_tables m) = 2048"

lemma kernel_tables:
  assumes "tables_sized m"
  defines "m1 \<equiv> InitPageDirectory m"
  shows "tables_sized m1" "page_directory m1 ! 768 = set_entry False 0x201 (page_directory m ! 768)"
    "i < 1024 \<Longrightarrow> kernel_page_table m1 ! i = set_entry False (of_nat i) (kernel_page_table m ! i)"
proof -
  have k: "kernel_page_table m1 = fold (\<lambda>i t. t[0 + i := set_entry False (of_nat i) (t ! (0 + i))]) [0..<1024] (kernel_page_table m)"
    by (simp add: m1_def InitPageDirectory_def Let_def ENTRY_CNT_PER_PAGETABLE_def)
  have len: "0 + 1024 \<le> length (kernel_page_table m)" using assms(1) by (simp add: tables_sized_def)
  have p: "page_directory m1 = (page_directory m)[0 := set_entry True 0x201 (page_directory m ! 0), 768 := set_entry False 0x201 (page_directory m ! 768)]"
    by (simp add: m1_def InitPageDirectory_def Let_def KERNEL_PAGE_TABLE_BASE_ADDRESS_def KERNEL_SPACE_START_ADDRESS_def SIZE_PER_PAGETABLE_MAP_def)
  have "user_page_tables m1 = user_page_tables m" by (simp add: m1_def InitPageDirectory_def Let_def)
  then show "tables_sized m1" using assms(1) fold_update(1) [OF len] by (simp add: tables_sized_def p k)
  show "page_directory m1 ! 768 = set_entry False 0x201 (page_directory m ! 768)" using assms(1) by (simp add: p tables_sized_def)
  show "i < 1024 \<Longrightarrow> kernel_page_table m1 ! i = set_entry False (of_nat i) (kernel_page_table m ! i)"
    using fold_update(2) [OF len, of i "\<lambda>i. set_entry False (of_nat i)"] len by (simp add: k)
qed


lemma user_tables:
  assumes "tables_sized m"
  defines "m2 \<equiv> InitUserPageTable m"
  shows "kernel_page_table m2 = kernel_page_table m" "page_directory m2 ! 768 = page_directory m ! 768"
    "j < 2 \<Longrightarrow> page_directory m2 ! j = set_entry True (0x202 + of_nat j) (page_directory m ! j)"
    "i < 2048 \<Longrightarrow> user_page_tables m2 ! i = set_entry True (of_nat i) (user_page_tables m ! i)"
    "length (user_page_tables m2) = 2048"
proof -
  let ?fill = "\<lambda>k t. fold (\<lambda>i t. t[k + i := set_entry True (of_nat (i + k)) (t ! (k + i))]) [0..<1024] t"
  have two: "[0..<2] = [0, 1 :: nat]" by (simp add: upt_rec)
  have u: "user_page_tables m2 = ?fill 1024 (?fill 0 (user_page_tables m))"
    by (simp add: m2_def InitUserPageTable_def Let_def ENTRY_CNT_PER_PAGETABLE_def two)
  have p: "page_directory m2 = (page_directory m)[0 := set_entry True 0x202 (page_directory m ! 0), 1 := set_entry True 0x203 (page_directory m ! 1)]"
    by (simp add: m2_def InitUserPageTable_def Let_def USER_PAGE_TABLE_BASE_ADDRESS_def two)
  show "kernel_page_table m2 = kernel_page_table m" by (simp add: m2_def InitUserPageTable_def Let_def two)
  show "page_directory m2 ! 768 = page_directory m ! 768" by (simp add: p)
  show "j < 2 \<Longrightarrow> page_directory m2 ! j = set_entry True (0x202 + of_nat j) (page_directory m ! j)"
    using assms(1) by (auto simp: p tables_sized_def less_2_cases_iff)
  have l0: "0 + 1024 \<le> length (user_page_tables m)" using assms(1) by (simp add: tables_sized_def)
  have l1: "length (?fill 0 (user_page_tables m)) = 2048" using fold_update(1) [OF l0] assms(1) by (simp add: tables_sized_def)
  then have l2: "1024 + 1024 \<le> length (?fill 0 (user_page_tables m))" by simp
  show "length (user_page_tables m2) = 2048" using fold_update(1) [OF l2] l1 by (simp add: u)
  show "i < 2048 \<Longrightarrow> user_page_tables m2 ! i = set_entry True (of_nat i) (user_page_tables m ! i)"
    using fold_update(2) [OF l0, of i "\<lambda>i. set_entry True (of_nat (i + 0))"] fold_update(2) [OF l2, of i "\<lambda>i. set_entry True (of_nat (i + 1024))"]
      assms(1) l1 by (auto simp: u tables_sized_def)
qed

lemma page_number: "unat (drop_bit 12 lin) = 1024 * unat (drop_bit 22 lin) + unat (take_bit 10 (drop_bit 12 lin))" for lin :: u32
proof -
  have d: "unat (drop_bit 22 lin) = unat (drop_bit 12 lin) div 1024"
    using div_mult2_eq [of "unat lin" 4096 1024] by (simp add: drop_bit_eq_div unat_div)
  have t: "unat (take_bit 10 (drop_bit 12 lin)) = unat (drop_bit 12 lin) mod 1024" by (simp add: take_bit_eq_mod unat_mod)
  show ?thesis unfolding d t by simp
qed

lemma linear_parts: "push_bit 12 (ucast (of_nat (unat (drop_bit 12 lin)) :: 20 word)) OR take_bit 12 lin = lin" for lin :: u32
  by (rule bit_word_eqI) (auto simp: bit_simps)

lemma kernel_offset:
  fixes lin :: u32
  assumes "0xC0000000 \<le> unat lin" "unat lin < 0xC0400000"
  shows "unat (drop_bit 22 lin) = 768" "drop_bit 12 (lin - 0xC0000000) = take_bit 10 (drop_bit 12 lin)" "take_bit 12 (lin - 0xC0000000) = take_bit 12 lin"
proof -
  have u: "unat (lin - 0xC0000000) = unat lin - 0xC0000000" using assms(1) by (subst unat_sub) (simp_all add: word_le_nat_alt)
  show "unat (drop_bit 22 lin) = 768" using assms by (simp add: drop_bit_eq_div unat_div)
  then have "unat (drop_bit 12 lin) = 1024 * 768 + unat (take_bit 10 (drop_bit 12 lin))" using page_number [of lin] by simp
  moreover have "unat (drop_bit 12 (lin - 0xC0000000)) + 1024 * 768 = unat (drop_bit 12 lin)"
    using assms(1) by (simp add: drop_bit_eq_div unat_div u)
  ultimately have "unat (drop_bit 12 (lin - 0xC0000000)) = unat (take_bit 10 (drop_bit 12 lin))" by simp
  then show "drop_bit 12 (lin - 0xC0000000) = take_bit 10 (drop_bit 12 lin)" by (simp add: word_unat_eq_iff)
  obtain r where r: "unat lin = 0xC0000000 + r" using assms(1) le_Suc_ex by blast
  have "(0xC0000000 + r) mod 4096 = r mod 4096"
    using mod_mult_self2 [of r 4096 786432] by (simp add: add.commute)
  then have "unat (take_bit 12 (lin - 0xC0000000)) = unat (take_bit 12 lin)"
    by (simp add: take_bit_eq_mod unat_mod u r)
  then show "take_bit 12 (lin - 0xC0000000) = take_bit 12 lin" by (simp add: word_unat_eq_iff)
qed


text \<open>
  C37. The address space after the start: whatever the memory held before, the page tables of \<open>main0\<close> and the user tables of
  \<open>next\<close> map the 4 megabytes of the kernel at 0xC0000000 to physical memory from 0 on, for the kernel alone, and
  every address below 8 megabytes to itself, for reading and writing by programs: so the first process can call
  \<open>ExecShell\<close> at its physical address, and until its tables are set up it could write the kernel.
\<close>

theorem boot_address_space:
  assumes "main0 entry pci tmp m = Some m'" "tables_sized m"
  defines "b \<equiv> InitUserPageTable m'"
  shows "(unat lin < 0x800000 \<longrightarrow> mmu_walk b lin = Some (lin, True, True)) \<and>
    (0xC0000000 \<le> unat lin \<and> unat lin < 0xC0400000 \<longrightarrow> mmu_walk b lin = Some (lin - 0xC0000000, True, False))"
proof -
  obtain m0 where m0: "m' = InitPageDirectory m0" "tables_sized m0"
  proof -
    define a where "a = IrqEnable IRQ_TIMER (Chip8259A_Init (Chip8253_Init 20 m))"
    obtain c where c: "DMA_Init pci a = Some c" "m' = InitPageDirectory (InitIDT entry (InitGDT tmp (IrqEnable IRQ_KBD (IrqEnable IRQ_SLAVE (IrqEnable IRQ_IDE c)))))"
      using assms(1) by (auto simp: main0_def a_def split: option.splits)
    have "tables_sized a" using assms(2)
      by (simp add: tables_sized_def a_def Chip8253_Init_def Chip8259A_Init_def IrqEnable_def OutByte_def IRQ_TIMER_def Let_def)
    then have "tables_sized c" using c(1) by (auto simp: tables_sized_def DMA_Init_def Let_def split: option.splits if_splits)
    then have "tables_sized (InitIDT entry (InitGDT tmp (IrqEnable IRQ_KBD (IrqEnable IRQ_SLAVE (IrqEnable IRQ_IDE c)))))"
      by (simp add: tables_sized_def InitIDT_def InitGDT_def InitTaskStateSegment_def IrqEnable_def OutByte_def Let_def)
    then show thesis using that c(2) by blast
  qed
  note k = kernel_tables [OF m0(2), folded m0(1)]
  note u = user_tables [OF k(1), folded b_def]
  have i: "unat (take_bit 10 (drop_bit 12 lin)) < 1024" using take_bit_nat_less_exp [of 10 "unat (drop_bit 12 lin)"] by (simp add: unsigned_take_bit_eq)
  note pn = page_number [of lin]
  have low: "mmu_walk b lin = Some (lin, True, True)" if "unat lin < 0x800000"
  proof -
    have j: "unat (drop_bit 22 lin) < 2" using that by (simp add: drop_bit_eq_div unat_div)
    have n: "unat (drop_bit 12 lin) < 2048" using that by (simp add: drop_bit_eq_div unat_div)
    have e: "user_page_tables b ! unat (drop_bit 12 lin) = set_entry True (of_nat (unat (drop_bit 12 lin))) (user_page_tables m' ! unat (drop_bit 12 lin))"
      by (rule u(4) [OF n])
    show ?thesis using u(3) [OF j] j
      by (cases "unat (drop_bit 22 lin)")
        (use i pn e u(5) linear_parts [of lin] in \<open>auto simp: mmu_walk_def table_of_page_def set_entry_def Let_def less_Suc_eq\<close>)
  qed
  moreover have "mmu_walk b lin = Some (lin - 0xC0000000, True, False)" if "0xC0000000 \<le> unat lin" "unat lin < 0xC0400000"
  proof -
    note o = kernel_offset [OF that]
    show ?thesis using k(2) k(3) [OF i] u(1,2) linear_parts [of "lin - 0xC0000000"]
      by (simp add: mmu_walk_def table_of_page_def set_entry_def Let_def o)
  qed
  ultimately show ?thesis by blast
qed


section \<open>Segments, memory and time\<close>

text \<open>The segments of kernel and programs cover all addresses.\<close>

lemma flat_segment_all: "segment_base (flat_segment dpl t d) = 0" "segment_limit (flat_segment dpl t d) = 0xFFFFF" "m_DPL (flat_segment dpl t d) = dpl"
proof -
  show "segment_base (flat_segment dpl t d) = 0"
    using segment_base_set [where b = 0 and d = "SetSegmentLimit 0xFFFFF d"] by (simp add: flat_segment_def segment_base_def)
  show "segment_limit (flat_segment dpl t d) = 0xFFFFF"
    using segment_limit_set [where l = "0xFFFFF" and d = d] by (simp add: flat_segment_def segment_limit_def SetBaseAddress_def)
  show "m_DPL (flat_segment dpl t d) = dpl" by (simp add: flat_segment_def)
qed

text \<open>
  The memory size is right up to 63 megabytes above the first one; with more the sum in 16 bits loses 64 megabytes, and the
  pool of user pages becomes larger than the memory or the address space.
\<close>

theorem memory_size_exact:
  fixes lowMem highMem :: u8
  shows "unat (memory_size lowMem highMem) =
     (if 256 * unat highMem + unat lowMem < 0xFC00 then 1024 * (1024 + 256 * unat highMem + unat lowMem)
      else 1024 * (256 * unat highMem + unat lowMem - 0xFC00))"
proof -
  let ?n = "256 * unat highMem + unat lowMem"
  have "unat highMem < 256" "unat lowMem < 256" by (rule order_less_le_trans [OF unsigned_less], simp)+
  then have n: "?n < 65536" by simp
  have w: "(word_of_int (uint highMem * 256 + uint lowMem) :: u16) = of_nat ?n"
    by (simp add: mult.commute)
  have "unat (of_nat k + 1024 :: u16) = (k + 1024) mod 65536" for k
    by (simp add: unat_word_ariths unat_of_nat mod_add_left_eq)
  then have "unat (of_nat ?n + 1024 :: u16) = (?n + 1024) mod 65536" .
  also have "\<dots> = (if ?n < 0xFC00 then ?n + 1024 else ?n - 0xFC00)" using n by (simp add: mod_if)
  finally have s: "unat (of_nat ?n + 1024 :: u16) = (if ?n < 0xFC00 then ?n + 1024 else ?n - 0xFC00)" .
  have "unat (ucast x :: u32) = unat x" for x :: u16
  proof -
    have "unat x < 4294967296" by (rule order_less_le_trans [OF unsigned_less]) simp
    then show ?thesis by (simp add: unsigned_ucast_eq take_bit_nat_eq_self_iff)
  qed
  then have "unat (memory_size lowMem highMem) = (unat (of_nat ?n + 1024 :: u16) * 1024) mod 4294967296"
    unfolding memory_size_def Let_def w by (simp add: unat_word_ariths)
  from this [unfolded s] n show ?thesis by simp
qed


text \<open>A machine to try the properties on: the memory is filled with absent entries, function 1 of device 1 is the disk controller.\<close>

definition demo_pci :: pci where
  "demo_pci f i = (if f \<noteq> (0, 1, 1) then 0xFFFFFFFF else if i = 2 then 0x01018000 else if i = 8 then 0xC001 else 0)"

definition demo_machine :: machine where
  "demo_machine = (let d = \<lparr>m_Low16BitsSegmentLimit = 0, m_Low16BitsBaseAddress = 0, m_Mid8BitsBaseAddress = 0, m_Type = 0, m_System = False, m_DPL = 0,
       m_SegmentPresent = False, m_High4BitsSegmentLimit = 0, m_Available = False, m_DefaultOperationSize = False, m_Granularity = False,
       m_High8BitsBaseAddress = 0\<rparr>
     in \<lparr>gdt = replicate 256 d, idt = replicate 256 (gate 0 0),
       tss = \<lparr>m_ESP0 = 0, m_SS0 = 0, m_CR3 = 0, m_EIP = 0, m_EFLAGS = 0, m_ESP = 0, m_EBP = 0, m_ES = 0, m_CS = 0, m_SS = 0, m_DS = 0, m_FS = 0, m_GS = 0\<rparr>,
       tss_address = 0xC0120000, page_directory = replicate 1024 blank_entry, kernel_page_table = replicate 1024 blank_entry,
       user_page_tables = replicate 2048 blank_entry, ports = [], DMA_COMMAND_PORT = 0, DMA_STATUS_PORT = 0, DMA_PRDTR_PORT = 0, prd_table = replicate 10 \<lparr>m_BaseAddressZeroBit = False, m_MemoryRegionPhysicalBaseAddress = 0,
       m_ByteCountZeroBit = False, m_ByteCount = 0, m_EOT = False\<rparr>, prd_table_address = 0xC0121000\<rparr>)"

text \<open>The only function that looks like a disk controller is found.\<close>

lemma find_only: "f \<in> set xs \<Longrightarrow> P f \<Longrightarrow> \<forall>g. P g \<longrightarrow> g = f \<Longrightarrow> List.find P xs = Some f"
proof (induction xs)
  case Nil
  from Nil(1) show ?case by simp
next
  case (Cons a xs)
  show ?case
  proof (cases "P a")
    case True
    then have "a = f" using Cons.prems(3) by blast
    then show ?thesis using True by simp
  next
    case False
    then have "f \<in> set xs" using Cons.prems(1,2) by (auto simp del: not_None_eq)
    then show ?thesis using Cons.IH [OF _ Cons.prems(2,3)] False by simp
  qed
qed

lemma DMA_Init_found:
  assumes "f \<in> set pci_functions" "\<forall>g. is_ide (pci g) \<longrightarrow> g = f" "is_ide (pci f)" "pci f 8 AND 1 \<noteq> 0"
  shows "\<exists>m'. DMA_Init pci m = Some m' \<and> DMA_COMMAND_PORT m' = ucast (pci f 8 AND 0xFFFE)"
proof -
  have "List.find (\<lambda>f. is_ide (pci f)) pci_functions = Some f" 
    by (rule find_only [OF assms(1)]) (rule assms(3), rule assms(2))
  then show ?thesis using assms(4) by (simp add: DMA_Init_def Let_def)
qed

lemma demo_main0: "\<exists>m'. main0 entry demo_pci tmp m = Some m'"
proof -
  have f: "(0, 1, 1) \<in> set pci_functions" by (simp add: pci_functions_def)
  have "\<forall>g. is_ide (demo_pci g) \<longrightarrow> g = (0, 1, 1)" "is_ide (demo_pci (0, 1, 1))" "demo_pci (0, 1, 1) 8 AND 1 \<noteq> 0"
    by (simp_all add: is_ide_def demo_pci_def)
  then obtain c where "DMA_Init demo_pci (IrqEnable IRQ_TIMER (Chip8259A_Init (Chip8253_Init 20 m))) = Some c" using DMA_Init_found [OF f] by blast
  then show ?thesis by (simp add: main0_def)
qed

theorem devices_reach_handlers_witness:
  "\<exists>m'. main0 (\<lambda>h. if h = TimeInterruptEntrance then 0xC0104000 else 0xC0105000) demo_pci (gdt demo_machine ! 0) demo_machine = Some m' \<and>
    irq_enabled m' IRQ_IDE \<and> gate_offset (idt m' ! irq_vector m' IRQ_TIMER) = 0xC0104000"
proof -
  obtain m' where m: "main0 (\<lambda>h. if h = TimeInterruptEntrance then 0xC0104000 else 0xC0105000) demo_pci (gdt demo_machine ! 0) demo_machine = Some m'"
    using demo_main0 by blast
  have "length (idt demo_machine) = 256" by (simp add: demo_machine_def Let_def)
  note d = devices_reach_handlers [OF m this]
  have "irq_enabled m' IRQ_IDE" using d by (auto simp: IRQ_IDE_def)
  moreover have "gate_offset (idt m' ! irq_vector m' IRQ_TIMER) = 0xC0104000" using d by simp
  ultimately show ?thesis using m by blast
qed

theorem boot_address_space_witness:
  "\<exists>m'. main0 (\<lambda>h. 0) demo_pci (gdt demo_machine ! 0) demo_machine = Some m' \<and>
    mmu_walk (InitUserPageTable m') 0x401234 = Some (0x401234, True, True) \<and> mmu_walk (InitUserPageTable m') 0xC0120008 = Some (0x120008, True, False)"
proof -
  obtain m' where m: "main0 (\<lambda>h. 0) demo_pci (gdt demo_machine ! 0) demo_machine = Some m'" using demo_main0 by blast
  have t: "tables_sized demo_machine" by (simp add: tables_sized_def demo_machine_def Let_def)
  show ?thesis using boot_address_space [OF m t, where lin = "0x401234"] boot_address_space [OF m t, where lin = "0xC0120008"] m by simp
qed

end
