(* ===== verification/DiskPorts.thy ===== *)
theory DiskPorts
  imports MachineSpec Images
begin

text \<open>
  The start of a transfer (\<open>dev/ATADriver.cpp\<close>, \<open>dev/DMA.cpp\<close>): what is written to the ports of the disk and of its DMA
  controller for a request, and that the hardware so gets the request that the driver was given.
\<close>

section \<open>Model\<close>

text \<open>The fields of \<open>Buf\<close> that the driver reads; \<open>b_read\<close> is the flag \<open>B_READ\<close>, the minor number is in the low byte of \<open>b_dev\<close>.\<close>

record disk_request =
  b_read :: bool
  b_dev :: u16
  b_blkno :: int
  b_wcount :: int
  b_addr :: u32

definition PRD_SetBaseAddress :: "u32 \<Rightarrow> PhysicalRegionDescriptor \<Rightarrow> PhysicalRegionDescriptor" where
  "PRD_SetBaseAddress phyBaseAddr d = d\<lparr>m_MemoryRegionPhysicalBaseAddress := ucast (drop_bit 1 phyBaseAddr), m_BaseAddressZeroBit := False\<rparr>"

definition PRD_SetByteCount :: "u16 \<Rightarrow> PhysicalRegionDescriptor \<Rightarrow> PhysicalRegionDescriptor" where
  "PRD_SetByteCount bytes d = d\<lparr>m_ByteCount := ucast (drop_bit 1 bytes), m_ByteCountZeroBit := False\<rparr>"

definition SetPhysicalRegionDescriptor :: "nat \<Rightarrow> PhysicalRegionDescriptor \<Rightarrow> bool \<Rightarrow> machine \<Rightarrow> machine" where
  "SetPhysicalRegionDescriptor index prd EOT m = m\<lparr>prd_table := (prd_table m)[index := prd\<lparr>m_EOT := EOT\<rparr>]\<rparr>"

definition GetPRDTableBaseAddress :: "machine \<Rightarrow> u32" where
  "GetPRDTableBaseAddress m = prd_table_address m - 0xC0000000"

definition OutDWord :: "u16 \<Rightarrow> u32 \<Rightarrow> machine \<Rightarrow> machine" where
  "OutDWord port d m = m\<lparr>ports := ports m @ [OutD port d]\<rparr>"

definition DMA_Reset :: "machine \<Rightarrow> machine" where
  "DMA_Reset m = OutByte (DMA_STATUS_PORT m) (4 OR 2) (OutByte (DMA_COMMAND_PORT m) 0 m)"

definition DMA_Start :: "u8 \<Rightarrow> u32 \<Rightarrow> machine \<Rightarrow> machine" where
  "DMA_Start type baseAddress m = OutByte (DMA_COMMAND_PORT m) (type OR 1) (OutDWord (DMA_PRDTR_PORT m) baseAddress m)"

text \<open>\<open>status k\<close> is what the \<open>k\<close>th read of the status port gives.\<close>

fun ready_loop :: "(nat \<Rightarrow> u8) \<Rightarrow> nat \<Rightarrow> nat \<Rightarrow> nat" where
  "ready_loop status k 0 = 0"
| "ready_loop status k (Suc left) =
     (if left = 0 then 0 else if status k AND (0x80 OR 0x40) = 0x40 then left else ready_loop status (k + 1) left)"

definition IsControllerReady :: "(nat \<Rightarrow> u8) \<Rightarrow> nat" where
  "IsControllerReady status = ready_loop status 0 10000"

definition ATA_IsError :: "u8 \<Rightarrow> bool" where
  "ATA_IsError status \<longleftrightarrow> status AND 1 = 1"

definition DMA_IsError :: "u8 \<Rightarrow> bool" where
  "DMA_IsError status \<longleftrightarrow> status AND 2 = 2"

text \<open>\<open>None\<close> is the panic when the controller is not ready.\<close>

definition DevStart :: "(nat \<Rightarrow> u8) \<Rightarrow> disk_request \<Rightarrow> PhysicalRegionDescriptor \<Rightarrow> machine \<Rightarrow> machine option" where
  "DevStart status bp prd m =
     (if IsControllerReady status = 0 then None
      else let minor = ucast (b_dev bp AND 0xFF) :: u32; blkno = word_of_int (b_blkno bp) :: u32;
        prd = PRD_SetByteCount (word_of_int (b_wcount bp)) (PRD_SetBaseAddress (b_addr bp AND NOT 0xC0000000) prd);
        m = SetPhysicalRegionDescriptor 0 prd True m;
        m = DMA_Reset m;
        m = OutByte 0x1F2 (word_of_int (b_wcount bp div 512)) m;
        m = OutByte 0x1F3 (ucast (blkno AND 0xFF)) m;
        m = OutByte 0x1F4 (ucast (drop_bit 8 blkno AND 0xFF)) m;
        m = OutByte 0x1F5 (ucast (drop_bit 16 blkno AND 0xFF)) m;
        m = OutByte 0x1F6 (ucast (0xA0 OR 0x40 OR push_bit 4 minor OR (drop_bit 24 blkno AND 0x0F))) m
      in Some (if b_read bp then DMA_Start 8 (GetPRDTableBaseAddress m) (OutByte 0x1F7 0xC8 m)
               else DMA_Start 0 (GetPRDTableBaseAddress m) (OutByte 0x1F7 0xCA m)))"

section \<open>The request that the hardware sees\<close>

text \<open>
  The registers of the disk in the mode LBA28 and of the bus master, as they are documented: 0 in the sector register stands
  for 256 and 0 in the byte count for 64 kilobytes, the transfer ends with the smaller of the two.
\<close>

definition joined_bytes :: "u8 \<Rightarrow> u8 \<Rightarrow> u8 \<Rightarrow> u8 \<Rightarrow> u32" where
  "joined_bytes a b c d = ucast a OR push_bit 8 (ucast b) OR push_bit 16 (ucast c) OR push_bit 24 (ucast d)"

definition ata_block :: "machine \<Rightarrow> u32" where
  "ata_block m = joined_bytes (last_out 0x1F3 m) (last_out 0x1F4 m) (last_out 0x1F5 m) (last_out 0x1F6 m AND 0x0F)"

definition ata_drive :: "machine \<Rightarrow> bool" where
  "ata_drive m \<longleftrightarrow> bit (last_out 0x1F6 m) 4"

definition ata_sectors :: "machine \<Rightarrow> nat" where
  "ata_sectors m = (let n = unat (last_out 0x1F2 m) in if n = 0 then 256 else n)"

definition dma_address :: "machine \<Rightarrow> u32" where
  "dma_address m = push_bit 1 (ucast (m_MemoryRegionPhysicalBaseAddress (prd_table m ! 0)))"

definition dma_bytes :: "machine \<Rightarrow> nat" where
  "dma_bytes m = (let n = 2 * unat (m_ByteCount (prd_table m ! 0)) in if n = 0 then 0x10000 else n)"

definition transfer_len :: "machine \<Rightarrow> nat" where
  "transfer_len m = min (512 * ata_sectors m) (dma_bytes m)"

definition dma_ports_apart :: "machine \<Rightarrow> bool" where
  "dma_ports_apart m \<longleftrightarrow> DMA_COMMAND_PORT m \<notin> {0x1F2, 0x1F3, 0x1F4, 0x1F5, 0x1F6, 0x1F7}"

lemma ready_loop_exact: "ready_loop status k n \<noteq> 0 \<longleftrightarrow> (\<exists>i < n - 1. status (k + i) AND (0x80 OR 0x40) = 0x40)"
proof (induction status k n rule: ready_loop.induct)
  case (2 status k left)
  show ?case
  proof (cases left)
    case (Suc t)
    have "(\<exists>i < Suc t. status (k + i) AND 192 = 64) \<longleftrightarrow> status k AND 192 = 64 \<or> (\<exists>i < t. status (Suc (k + i)) AND 192 = 64)"
      by (auto simp: less_Suc_eq_0_disj)
    then show ?thesis using 2 by (auto simp: Suc)
  qed simp
qed simp

text \<open>The controller has 9999 reads of the status port to become ready.\<close>

lemma IsControllerReady_exact: "IsControllerReady status \<noteq> 0 \<longleftrightarrow> (\<exists>i < 9999. status i AND 0xC0 = 0x40)"
  using ready_loop_exact [of status 0 10000] by (simp add: IsControllerReady_def)

lemma bit_joined_bytes:
  "bit (joined_bytes a b c d) n \<longleftrightarrow> (if n < 8 then bit a n else if n < 16 then bit b (n - 8) else if n < 24 then bit c (n - 16) else bit d (n - 24))"
  using bit_imp_le_length [of a n] bit_imp_le_length [of b "n - 8"] bit_imp_le_length [of c "n - 16"] bit_imp_le_length [of d "n - 24"]
  by (auto simp: joined_bytes_def bit_simps)

lemma word_block:
  fixes w :: u32
  assumes "drop_bit 28 w = 0"
  shows "joined_bytes (ucast (w AND 0xFF)) (ucast (drop_bit 8 w AND 0xFF)) (ucast (drop_bit 16 w AND 0xFF)) (ucast (drop_bit 24 w AND 0x0F)) = w"
proof (rule bit_word_eqI)
  fix n assume n: "n < LENGTH(32)"
  have h: "\<not> bit w n" if "28 \<le> n"
    using arg_cong [OF assms, where f = "\<lambda>v. bit v (n - 28)"] that by (simp add: bit_simps)
  show "bit (joined_bytes (ucast (w AND 0xFF)) (ucast (drop_bit 8 w AND 0xFF)) (ucast (drop_bit 16 w AND 0xFF)) (ucast (drop_bit 24 w AND 0x0F))) n = bit w n"
    using n h by (cases "28 \<le> n") (auto simp: bit_joined_bytes field_masks bit_simps not_less)
qed


lemma small_block:
  assumes "0 \<le> k" "k < 2 ^ 28"
  shows "drop_bit 28 (word_of_int k :: u32) = 0" "uint (word_of_int k :: u32) = k"
proof -
  obtain n where n: "k = int n" "n < 2 ^ 28" using assms by (cases k) auto
  have "unat (drop_bit 28 (of_nat n :: u32)) = n div 2 ^ 28" using n(2) by (simp only: drop_bit_eq_div unat_div) (simp add: unat_of_nat)
  then show "drop_bit 28 (word_of_int k :: u32) = 0" using n by (simp add: unat_eq_0)
  show "uint (word_of_int k :: u32) = k" using assms by (simp add: uint_word_of_int_eq take_bit_int_eq_self_iff)
qed

lemma mode_byte:
  fixes minor blk :: u32
  defines "b \<equiv> ucast (0xA0 OR 0x40 OR push_bit 4 minor OR (blk AND 0x0F)) :: u8"
  shows "b AND 0x0F = ucast (blk AND 0x0F)" "bit b 4 \<longleftrightarrow> bit minor 0"
proof -
  show "b AND 0x0F = ucast (blk AND 0x0F)"
  proof (rule bit_word_eqI)
    fix n :: nat assume "n < LENGTH(8)"
    then have "n \<in> {0, 1, 2, 3, 4, 5, 6, 7}" by auto
    then show "bit (b AND 0x0F) n = bit (ucast (blk AND 0x0F) :: u8) n"
      by (elim insertE emptyE) (simp_all add: b_def bit_simps)
  qed
  show "bit b 4 \<longleftrightarrow> bit minor 0" by (simp add: b_def bit_simps)
qed

lemma sector_byte:
  assumes "0 \<le> k" "k < 2 ^ 31"
  shows "unat (word_of_int (k div 512) :: u8) = unat (((word_of_int k :: u32) div 512) AND 0xFF)"
proof -
  obtain n where n: "k = int n" "n < 2 ^ 31" using assms by (cases k) auto
  have "k div 512 = int (n div 512)" by (simp add: n(1) zdiv_int)
  then have l: "(word_of_int (k div 512) :: u8) = of_nat (n div 512)" by (simp only: of_int_of_nat_eq)
  have u: "unat (of_nat n :: u32) = n" using n(2) by (simp add: unat_of_nat)
  have "((word_of_int k :: u32) div 512) AND 0xFF = take_bit 8 ((of_nat n :: u32) div 512)"
    unfolding field_masks by (simp only: take_bit_eq_mask n(1) of_int_of_nat_eq)
  then have "unat (((word_of_int k :: u32) div 512) AND 0xFF) = n div 512 mod 256"
    by (simp only: unsigned_take_bit_eq unat_div u) (simp add: take_bit_eq_mod)
  then show ?thesis unfolding l by (simp only: unat_of_nat) simp
qed

lemma count_bits: "2 * unat (ucast (drop_bit 1 (word_of_int k :: u16)) :: 15 word) = unat ((word_of_int k :: u32) AND 0xFFFE)"
proof -
  have m: "(0xFFFE :: u32) = push_bit 1 (mask 15)" by (simp add: mask_eq_exp_minus_1)
  let ?x = "ucast (drop_bit 1 (word_of_int k :: u16)) :: 15 word"
  have e: "push_bit 1 (ucast ?x :: u32) = word_of_int k AND 0xFFFE"
    unfolding m by (rule bit_word_eqI) (auto simp: bit_simps simp del: push_bit_Suc drop_bit_Suc)
  have x: "unat ?x < 32768" by (rule order_less_le_trans [OF unsigned_less]) simp
  have "unat (ucast y :: u32) = unat y" for y :: "15 word"
  proof -
    have "unat y < 4294967296" by (rule order_less_le_trans [OF unsigned_less]) simp
    then show ?thesis by (simp add: unsigned_ucast_eq take_bit_nat_eq_self_iff)
  qed
  then have u: "unat (ucast ?x :: u32) = unat ?x" .
  have "unat (push_bit 1 (ucast ?x :: u32)) = take_bit 32 (push_bit 1 (unat ?x))" by (simp only: unsigned_push_bit_eq u) simp
  also have "take_bit 32 (push_bit 1 k) = 2 * k" if "k < 32768" for k :: nat using that by (simp add: take_bit_nat_eq_self)
  note this [OF x]
  finally show ?thesis unfolding e by simp
qed


lemma buffer_address: "push_bit 1 (ucast (ucast (drop_bit 1 (a AND NOT 0xC0000000)) :: 31 word)) = a AND 0x3FFFFFFE" for a :: u32
proof -
  have m: "NOT (0xC0000000 :: u32) = mask 30" "(0x3FFFFFFE :: u32) = push_bit 1 (mask 29)" by (simp_all add: mask_eq_exp_minus_1)
  show ?thesis unfolding m by (rule bit_word_eqI) (auto simp: bit_simps simp del: push_bit_Suc drop_bit_Suc)
qed

text \<open>
  C39. The disk gets the request that the driver was given: when the controller becomes ready within 9999 reads of its status, for a block
  number below 2 to the 28 the registers name the block, the disk by the lowest bit of its minor number and the direction, the descriptor names the
  physical address of the buffer (with its lowest bit and the two highest ones cleared) as the last entry of the table, and as many bytes are
  moved as \<open>swap_len\<close> says.  The bus master gets the address of the table and is started last.  In all other cases of
  readiness the kernel stops.
\<close>

theorem disk_gets_request:
  assumes blk: "0 \<le> b_blkno bp" "b_blkno bp < 2 ^ 28" and cnt: "0 \<le> b_wcount bp" "b_wcount bp < 2 ^ 31"
    and apart: "dma_ports_apart m" and tab: "prd_table m \<noteq> []"
  shows "case DevStart status bp prd m of
      None \<Rightarrow> \<not> (\<exists>i < 9999. status i AND 0xC0 = 0x40)
    | Some m' \<Rightarrow> (\<exists>i < 9999. status i AND 0xC0 = 0x40) \<and>
        uint (ata_block m') = b_blkno bp \<and> ata_drive m' = bit (b_dev bp) 0 \<and> transfer_len m' = swap_len (word_of_int (b_wcount bp)) \<and>
        dma_address m' = b_addr bp AND 0x3FFFFFFE \<and> m_EOT (prd_table m' ! 0) \<and> last_out 0x1F7 m' = (if b_read bp then 0xC8 else 0xCA) \<and>
        (\<exists>ws. ports m' = ws @ [OutD (DMA_PRDTR_PORT m) (prd_table_address m - 0xC0000000), OutB (DMA_COMMAND_PORT m) (if b_read bp then 9 else 1)])"
proof (cases "IsControllerReady status = 0")
  case True
  then show ?thesis using IsControllerReady_exact [of status] by (simp add: DevStart_def)
next
  case False
  let ?w = "word_of_int (b_blkno bp) :: u32" and ?minor = "ucast (b_dev bp AND 0xFF) :: u32"
  let ?mode = "ucast (0xA0 OR 0x40 OR push_bit 4 ?minor OR (drop_bit 24 ?w AND 0x0F)) :: u8"
  let ?d = "(PRD_SetByteCount (word_of_int (b_wcount bp)) (PRD_SetBaseAddress (b_addr bp AND NOT 0xC0000000) prd))\<lparr>m_EOT := True\<rparr>"
  obtain m' where m': "DevStart status bp prd m = Some m'" "prd_table m' = (prd_table m)[0 := ?d]"
    "ports m' = (ports m @ [OutB (DMA_COMMAND_PORT m) 0, OutB (DMA_STATUS_PORT m) 6, OutB 0x1F2 (word_of_int (b_wcount bp div 512)), OutB 0x1F3 (ucast (?w AND 0xFF)),
       OutB 0x1F4 (ucast (drop_bit 8 ?w AND 0xFF)), OutB 0x1F5 (ucast (drop_bit 16 ?w AND 0xFF)), OutB 0x1F6 ?mode, OutB 0x1F7 (if b_read bp then 0xC8 else 0xCA)]) @
       [OutD (DMA_PRDTR_PORT m) (prd_table_address m - 0xC0000000), OutB (DMA_COMMAND_PORT m) (if b_read bp then 9 else 1)]"
    using False by (cases "b_read bp")
      (simp_all add: DevStart_def Let_def SetPhysicalRegionDescriptor_def DMA_Reset_def DMA_Start_def OutByte_def OutDWord_def GetPRDTableBaseAddress_def)
  have ap: "DMA_COMMAND_PORT m \<noteq> 0x1F2" "DMA_COMMAND_PORT m \<noteq> 0x1F3" "DMA_COMMAND_PORT m \<noteq> 0x1F4" "DMA_COMMAND_PORT m \<noteq> 0x1F5"
    "DMA_COMMAND_PORT m \<noteq> 0x1F6" "DMA_COMMAND_PORT m \<noteq> 0x1F7" using apart by (simp_all add: dma_ports_apart_def)
  have l: "last_out 0x1F2 m' = word_of_int (b_wcount bp div 512)" "last_out 0x1F3 m' = ucast (?w AND 0xFF)" "last_out 0x1F4 m' = ucast (drop_bit 8 ?w AND 0xFF)"
    "last_out 0x1F5 m' = ucast (drop_bit 16 ?w AND 0xFF)" "last_out 0x1F6 m' = ?mode" "last_out 0x1F7 m' = (if b_read bp then 0xC8 else 0xCA)"
    using ap by (simp_all add: last_out_def m'(3) map_filter_simps del: of_int_numeral)
  have b: "ata_block m' = ?w" unfolding ata_block_def l mode_byte(1) by (rule word_block [OF small_block(1) [OF blk]])
  have dr: "ata_drive m' = bit (b_dev bp) 0" unfolding ata_drive_def l mode_byte(2) by (simp add: field_masks bit_simps)
  have d0: "prd_table m' ! 0 = ?d" using tab by (simp add: m'(2))
  have da: "dma_address m' = b_addr bp AND 0x3FFFFFFE"
    using buffer_address [of "b_addr bp"] by (simp only: dma_address_def d0) (simp add: PRD_SetByteCount_def PRD_SetBaseAddress_def)
  have "m_ByteCount ?d = ucast (drop_bit 1 (word_of_int (b_wcount bp) :: u16))" by (simp add: PRD_SetByteCount_def)
  then have t: "transfer_len m' = swap_len (word_of_int (b_wcount bp))"
    unfolding transfer_len_def ata_sectors_def dma_bytes_def swap_len_def Let_def d0 l sector_byte [OF cnt] by (simp only: count_bits)
  have "m_EOT (prd_table m' ! 0)" by (simp add: d0)
  moreover have "\<exists>i < 9999. status i AND 0xC0 = 0x40" using False IsControllerReady_exact by blast
  moreover have "\<exists>ws. ports m' = ws @ [OutD (DMA_PRDTR_PORT m) (prd_table_address m - 0xC0000000), OutB (DMA_COMMAND_PORT m) (if b_read bp then 9 else 1)]"
    unfolding m'(3) by blast
  ultimately show ?thesis unfolding m'(1) option.case using b dr da t l(6) small_block(2) [OF blk] by metis
qed


theorem disk_gets_request_witness:
  "\<exists>m'. DevStart (\<lambda>k. 0x50) \<lparr>b_read = True, b_dev = 0, b_blkno = 0x1234, b_wcount = 512, b_addr = 0xC0100000\<rparr> (prd_table demo_machine ! 0)
      (demo_machine\<lparr>DMA_COMMAND_PORT := 0xC000\<rparr>) = Some m' \<and>
    uint (ata_block m') = 0x1234 \<and> transfer_len m' = 512 \<and> dma_address m' = 0x100000"
proof -
  let ?bp = "\<lparr>b_read = True, b_dev = 0, b_blkno = 0x1234, b_wcount = 512, b_addr = 0xC0100000\<rparr>" and ?m = "demo_machine\<lparr>DMA_COMMAND_PORT := 0xC000\<rparr>"
  let ?r = "DevStart (\<lambda>k. 0x50) ?bp (prd_table demo_machine ! 0) ?m"
  have m: "dma_ports_apart ?m" "prd_table ?m \<noteq> []" by (simp_all add: dma_ports_apart_def demo_machine_def Let_def)
  have r: "\<exists>i < 9999 :: nat. (\<lambda>k. 0x50 :: u8) i AND 0xC0 = 0x40" by (intro exI [of _ 0]) simp
  have s: "swap_len (word_of_int (b_wcount ?bp)) = 512" by (simp add: swap_len_def)
  have d: "case ?r of None \<Rightarrow> \<not> (\<exists>i < 9999 :: nat. (\<lambda>k. 0x50 :: u8) i AND 0xC0 = 0x40) | Some m' \<Rightarrow> uint (ata_block m') = 0x1234 \<and> transfer_len m' = 512 \<and> dma_address m' = 0x100000"
    using disk_gets_request [of ?bp ?m "\<lambda>k. 0x50" "prd_table demo_machine ! 0"] m s by (simp split: option.splits)
  then obtain m' where "?r = Some m'" using r by (cases ?r) auto
  then show ?thesis using d by auto
qed

end
