(* ===== verification/Spec2Isabelle.thy ===== *)
theory Spec2Isabelle
  imports Kprelude MapAlloc MemMgr FileSys Inode FileMap FileData Ring BufCache BufInv BufSpec BufStore OpenFiles FileCalls Names
    FileSyscalls Frame Refs RefCalls RefPaths RefCounts FileErrors AddrSpace Procs ProcDemo ProcSpec ProcInv
    Images Lifecycle Terminal KmDemo TermSpec KeySpec Calendar ImageSpec SwapSpec NameTerm CLib CHeap
    ExecFile ExecSpec Diagnosis Traps TrapSpec Printf Shell ShellSpec ShellLine ShellRun ShellPipe
    MachineSetup MachineSpec DiskPorts
begin

text \<open>
  A verification library of the kernel UNIX V6++ (\<open>src/oos2/src\<close>; \<open>src/oos1\<close> is an earlier state of the same
  program) and of parts of the C library its programs are linked with.  Paths below are relative to
  \<open>src/oos2/src\<close>.


  \<^bold>\<open>The program and the theories\<close>

  The kernel runs programs through the system call interface.  A call on files goes from
  \<open>SystemCall::Trap\<close> to \<open>FileManager\<close>, which finds inodes by path (\<open>NameI\<close>) and keeps the three tables of
  descriptors, open files and inodes in core; those use the inode operations, which map positions of a
  file to blocks with the help of the free list in the superblock and transfer blocks through the buffer
  cache.  A call on processes works on the process table; a process has an image, one contiguous region
  of physical memory (user structure, data, stack) plus a shared text, which the page tables map and
  which the swapper may move to the disk.  All memory comes from one allocator.  The console is a device
  whose input arrives by interrupts.

  \<^item> \<open>Kprelude\<close>: words, flag words, error codes, and \<open>kcall\<close>, the result of a kernel call: \<open>Done\<close> with a value,
    \<open>Asleep\<close> where the process would sleep, \<open>Panic\<close> where the kernel stops, \<open>Fault\<close> where the code leaves its
    arrays or follows a null pointer.
  \<^item> \<open>MapAlloc\<close>, \<open>MemMgr\<close> (\<open>mm/\<close>): the map array of free regions, first fit, next fit and release word for word;
    the managers of kernel pages, user pages, swap blocks and the kernel heap on top of it.
  \<^item> \<open>FileSys\<close>, \<open>Inode\<close>, \<open>FileMap\<close>, \<open>FileData\<close> (\<open>fs/FileSystem.cpp\<close>, \<open>fs/INode.cpp\<close>): superblock and free-block list,
    mount table, the block map of a file, truncation, reading and writing.  The file layer sees the disk
    as the function \<open>disk\<close> from device and block to 512 bytes.
  \<^item> \<open>Ring\<close>, \<open>BufCache\<close>, \<open>BufInv\<close>, \<open>BufSpec\<close>, \<open>BufStore\<close> (\<open>dev/\<close>): circular lists, the buffer cache with its two rings, the
    request queue and the interrupt of the disk; \<open>BufStore.cache_is_array\<close> is what justifies the function
    \<open>disk\<close> of the file layer.
  \<^item> \<open>OpenFiles\<close>, \<open>FileCalls\<close>, \<open>Names\<close>, \<open>FileSyscalls\<close> (\<open>fs/OpenFileManager.cpp\<close>, \<open>fs/File.cpp\<close>, \<open>fs/FileManager.cpp\<close>,
    \<open>interrupt/SystemCall.cpp\<close>): the tables, the calls on descriptors, the search of directories and the calls on
    paths, and the dispatch of these calls.  \<open>Frame\<close> says what the layers below leave alone; \<open>Refs\<close>,
    \<open>RefCalls\<close>, \<open>RefPaths\<close>, \<open>RefCounts\<close> follow the reference counts through every call; \<open>FileErrors\<close> has the error paths.
  \<^item> \<open>AddrSpace\<close>, \<open>Procs\<close>, \<open>Images\<close>, \<open>Lifecycle\<close> (\<open>proc/\<close>, the clock in \<open>interrupt/TimeInterrupt.cpp\<close>): page tables, the
    process table with states, priorities, sleep, wake-up and signals, the memory images with their
    growth and swapping, and fork, exit, wait, the switch and the swapper.  \<open>ProcSpec\<close>, \<open>ProcInv\<close>, \<open>ImageSpec\<close>
    state and prove what they guarantee; \<open>ProcDemo\<close> and \<open>KmDemo\<close> are the small systems the examples run on.
  \<^item> \<open>Terminal\<close>, \<open>TermSpec\<close>, \<open>KeySpec\<close> (\<open>tty/\<close>, \<open>dev/CharDevice.cpp\<close>): the character queues, the line discipline, the screen
    as an array of cells and the keyboard handler.
  \<^item> \<open>Calendar\<close> (\<open>kernel/Utility.cpp\<close>, \<open>machine/CMOSTime.cpp\<close>, \<open>lib/src/time.c\<close>): time and date.
  \<^item> \<open>SwapSpec\<close> (\<open>proc/Process.cpp\<close>, \<open>proc/ProcessManager.cpp\<close>): swapping out and in composed; \<open>NameTerm\<close>
    (\<open>fs/FileManager.cpp\<close>): the loop of the path search ends.
  \<^item> \<open>CLib\<close>, \<open>CHeap\<close> (\<open>lib/src/string.c\<close>, \<open>stdio.c\<close>, \<open>stdlib.c\<close>, \<open>malloc.c\<close>, \<open>sys.c\<close>): strings and numbers on the bytes of a
    linear memory, the allocator of the user heap with its list of blocks kept in that memory.
  \<^item> \<open>ExecFile\<close>, \<open>ExecSpec\<close> (\<open>pe/PEParser.cpp\<close>, \<open>proc/ProcessManager.cpp\<close>): the loader of program files and \<open>Exec\<close>, from the
    search of the file to the stack with the arguments of the new program.
  \<^item> \<open>Diagnosis\<close> (\<open>kernel/Video.cpp\<close>): the output of the kernel's own messages below the console.
  \<^item> \<open>Traps\<close>, \<open>TrapSpec\<close> (\<open>interrupt/SystemCall.cpp\<close>, \<open>interrupt/Exception.cpp\<close>): the table of system calls with the handlers
    behind it, the entry and the return of a call with its signals, the exceptions and the page fault.
  \<^item> \<open>Printf\<close> (\<open>lib/src/sprintf.c\<close>, \<open>print_parse.c\<close>): the parser of format specifications and \<open>sprintf\<close>, byte for byte
    in the memory of the program.
  \<^item> \<open>Shell\<close>, \<open>ShellSpec\<close>, \<open>ShellLine\<close>, \<open>ShellRun\<close>, \<open>ShellPipe\<close> (\<open>shell/\<close>): the splitting of a line into tokens and the tree of
    commands in the arrays of the shell (\<open>None\<close> where the code leaves them), the syntax it should accept, the execution of the
    tree with forks, descriptors and pipes.  The shell sees the kernel through its calls: \<open>system\<close> says which files can be
    opened, created, executed, and whether a process slot is free; streams stand for open files.
  \<^item> \<open>MachineSetup\<close>, \<open>MachineSpec\<close>, \<open>DiskPorts\<close> (\<open>kernel/main.cpp\<close>, \<open>machine/\<close>, \<open>dev/DMA.cpp\<close>, \<open>dev/ATADriver.cpp\<close>): the tables of the
    processor, the first page tables, the interrupt controllers and the start of a disk transfer, with ports as
    the list of what was written to them.  \<open>mmu_walk\<close>, \<open>irq_vector\<close>, \<open>ata_block\<close> and the like read tables and ports as the
    hardware is documented to do; they are part of the statements, not of the model.

  \<^bold>\<open>State\<close>

  One chain of records grows with the layers: \<open>fsys\<close> (mount table, disk, error, time), \<open>ifs\<close> (memory of the user
  process), \<open>fm\<close> (tables of files), \<open>nm\<close> (path search, current directory), \<open>pm\<close> (process table, memory pools,
  physical memory), \<open>km\<close> (user structures, page tables), \<open>con\<close> (console) and \<open>diag\<close> (kernel messages).  The operations are polymorphic in
  the rest of the record, so every layer runs on the state of the layers above it.  A pointer into a table
  is an index, \<open>NULL\<close> is \<open>None\<close>.  Words keep their width where the code computes with unsigned values or
  with addresses; \<open>int\<close> is used for C \<open>int\<close> where the values cannot leave the range, with \<open>wrap32\<close> and the
  like where they can.  \<open>umem\<close> is the linear memory of the running process that system calls read and
  write; \<open>pmem\<close> is physical memory, which the image routines move; \<open>Exec\<close> and the traps
  tie the two together where they need them (\<open>user_memory\<close>, \<open>store_memory\<close> in \<open>ExecFile\<close>).
  The user structure of the running process is in the state, those of the others are decoded in \<open>u_areas\<close>.


  \<^bold>\<open>What is shown\<close>

  \<^item> Functional correctness of storage: \<open>FileData\<close> (a file is an array of bytes under \<open>ReadI\<close>, \<open>WriteI\<close> and \<open>Bmap\<close>),
    \<open>Inode.ITrunc_frees_file\<close>, \<open>FileSys\<close> (the chained free list is a stack; the superblock survives its update).
  \<^item> Refinement: \<open>BufStore\<close> (the cache with delayed and asynchronous writes refines an array of blocks; exclusive
    access; flush), \<open>MemMgr\<close> (allocated regions never overlap), \<open>KeySpec\<close> (keyboard), \<open>AddrSpace\<close>
    (address spaces with whole pages of data are isolated).
  \<^item> Invariants: reference counts after any sequence of file calls, exact up to a directory that stays held for each call
    that failed to create an entry (\<open>RefCounts\<close>), priorities, sleeping and
    waking, signals under every history of the process table (\<open>ProcInv\<close>), the well-formed console (\<open>TermSpec\<close>).
  \<^item> Equivalence with a reference definition: the line editor (\<open>TermSpec\<close>), the calendar (\<open>Calendar\<close>), the
    rights of files (\<open>FileErrors\<close>).
  \<^item> Errors: theorems that exhibit what the code does on the paths where it deviates from its purpose
    (\<open>FileErrors\<close>, \<open>FileData.Bmap_leaves_stale_table\<close>, \<open>BufStore.Bread_after_error\<close>, and others).
  \<^item> Termination: \<open>NameTerm.path_search_terminates\<close>.  Round trips: \<open>CLib\<close> (\<open>itoa\<close> and \<open>read_int\<close>), \<open>SwapSpec\<close>
    (an image survives the swap), \<open>FileSys.update_then_load\<close>, \<open>Calendar\<close> (against leap years of its own).  The user heap:
    \<open>CHeap.heap_blocks_disjoint\<close>, for a kernel that grants what \<open>sbrk\<close> asks for.
  \<^item> Programs and traps: the new program finds its arguments where it looks for them (\<open>ExecSpec\<close>), a failed call returns the
    negated error number and a page fault below the stack makes it grow or swaps the process out (\<open>TrapSpec\<close>), messages of the kernel leave the
    console alone (\<open>Diagnosis\<close>).
  \<^item> User programs: \<open>sprintf\<close> renders text and fields as it should (\<open>Printf\<close>); the shell finds the tokens of a line and builds the
    tree of its command (\<open>ShellLine\<close>), starts each of its programs once (\<open>ShellRun\<close>) and connects the members of a pipeline
    (\<open>ShellPipe\<close>).
  \<^item> The machine: interrupts of the devices reach their handlers and the first page tables map the kernel (\<open>MachineSpec\<close>), the
    disk gets the request of the driver (\<open>DiskPorts\<close>).
  The interfaces are locales, interpreted on the model: \<open>region_pool\<close> (allocators), \<open>block_pool\<close> (free list of a
  device), \<open>block_array\<close> (buffer cache), \<open>fifo\<close> (character queues).


  \<^bold>\<open>Bounds\<close>

  Loops whose rounds the data bound are structural or have a measure.  Fuel remains where the code walks
  rings or reads queues: a walk over a ring of buffers visits at most the 15 buffers and the head (\<open>Ring\<close> proves that
  the links of a good cache form rings of distinct nodes); a character queue has 512 places and holds at
  most 511 characters, so 512 rounds see its end; the loop of \<open>WriteP\<close> writes at least one byte per round
  and has as many rounds as bytes, plus the last; the search of a path takes one character
  of the path at least per round, and \<open>NameTerm\<close> shows that the outcome for no rounds left, an argument of
  \<open>Names.name_loop\<close>, is never used; a directory of \<open>n\<close> entries is searched in \<open>n + 1\<close>
  rounds when its entries are in order, and when \<open>m_Count\<close> runs past 0 the code goes on behind the end of the
  directory and the model says \<open>Asleep\<close>; a chain of mounted devices is at most \<open>NMOUNT\<close> long.


  \<^bold>\<open>Environment and omissions\<close>

  \<^item> Disk errors: the buffer cache models them per transfer (\<open>eio\<close>); the file layer only sees them for the sectors of
    inodes (\<open>bad_sector\<close>), where the code reacts to them.  \<open>stale\<close> is the unspecified content that a released buffer
    still has.  Character devices are parameters of the file layer (\<open>rd\<close>, \<open>wr\<close>).
  \<^item> A process that would sleep inside a file call ends the modelled call with \<open>Asleep\<close>; wake-ups of such sleepers
    have no effect on the file layer and are left out there.  The process layer has sleep and wake-up in full.
  \<^item> Not modelled: inline assembly (entry code, context switch, loading of the processor's registers), the boot
    sector (\<open>boot/\<close>), the singletons and the rest of the start-up (\<open>kernel/Kernel.cpp\<close>, what \<open>next\<close> in \<open>kernel/main.cpp\<close> does
    besides the tables), floating point output of the library, the programs, and the vendored tools (Bochs, MinGW, NASM).
  \<^item> Left out of operations that are modelled: the signal SIGPIPE that \<open>WriteP\<close> sends when there is no reader (the file layer
    has no process table; the error EPIPE is there); the writes to the interrupt controllers at the end of a clock
    interrupt; the stop of \<open>DevStart\<close> when the queue it is called for is empty; what a message of the kernel shows for an
    argument it was not given (\<open>Fault\<close>). Times are unbounded integers where the code has 32 bits.  A call on files
    that sleeps is not taken up again by \<open>trap_again\<close>; \<open>wait\<close> of the shell is an event of its log that \<open>ShellRun.until_stuck\<close>
    turns into a stop; a process swapped out by \<open>Expand\<close> ends the modelled call, and the rest of the call, which
    runs when it is brought in, is not followed.
  \<^item> Of the shell the prompt and the reading of the line are left out; the other programs are short
    sequences of system calls and not modelled.  The 50 rounds of fuel of \<open>ExecuteCommand\<close> are enough because the nodes of a
    tree have increasing numbers below 50; \<open>AnalizeCommand\<close> has one round more than there are tokens.
\<close>

end
